(* ===== verification/Media_Prelude.thy ===== *)
theory Media_Prelude
  imports Main "HOL-Library.Word" "HOL-Library.Monad_Syntax"
begin

text \<open>
  What every component theory shares: the machine integers of the C++ code, the
  fallible steps, and generic lemmas on words and lists.

  Unsigned integers are words (\<^typ>\<open>64 word\<close> for \<open>uint64_t\<close> and \<open>size_t\<close>,
  \<^typ>\<open>32 word\<close> for \<open>uint32_t\<close>), whose arithmetic wraps as in C++. Signed integers
  are \<^typ>\<open>int\<close> with a range check on every operation that can leave the range, because
  overflow of a signed integer is undefined behaviour in C++.

  A step that fails an \<open>FTL_DCHECK\<close> or runs into undefined behaviour (signed overflow,
  reading through a null pointer or past the end) has the value \<^term>\<open>None\<close>; every
  normal return is \<^term>\<open>Some\<close>. So a theorem that an operation returns
  \<^term>\<open>Some\<close> says, among other things, that none of its debug checks fires.
\<close>

unbundle bit_operations_syntax

type_synonym u8 = "8 word"
type_synonym u16 = "16 word"
type_synonym u32 = "32 word"
type_synonym u64 = "64 word"

section \<open>Debug checks\<close>

definition dcheck :: "bool \<Rightarrow> unit option" where
  "dcheck b = (if b then Some () else None)"

lemma dcheck_simps [simp]:
  "dcheck True = Some ()"
  "dcheck False = None"
  by (simp_all add: dcheck_def)

lemma dcheck_bind_Some [simp]:
  "(dcheck b \<bind> f) = Some x \<longleftrightarrow> b \<and> f () = Some x"
  by (cases b) simp_all

lemma dcheck_eq_Some [simp]: "dcheck b = Some u \<longleftrightarrow> b"
  by (simp add: dcheck_def)

lemma dcheck_bind_if: "(dcheck b \<bind> f) = (if b then f () else None)"
  by simp

lemma bind_Some_iff: "(m \<bind> f) = Some y \<longleftrightarrow> (\<exists>x. m = Some x \<and> f x = Some y)"
  by (cases m) simp_all

text \<open>A read at an index; past the end it is undefined.\<close>

definition nth_opt :: "'a list \<Rightarrow> nat \<Rightarrow> 'a option" where
  "nth_opt xs i = (if i < length xs then Some (xs ! i) else None)"

section \<open>Signed 64-bit and 32-bit integers\<close>

abbreviation i64_max :: int where "i64_max \<equiv> 9223372036854775807"
abbreviation i64_min :: int where "i64_min \<equiv> - 9223372036854775808"
abbreviation i32_max :: int where "i32_max \<equiv> 2147483647"
abbreviation i32_min :: int where "i32_min \<equiv> - 2147483648"

definition in_i64 :: "int \<Rightarrow> bool" where
  "in_i64 x \<longleftrightarrow> i64_min \<le> x \<and> x \<le> i64_max"

definition in_i32 :: "int \<Rightarrow> bool" where
  "in_i32 x \<longleftrightarrow> i32_min \<le> x \<and> x \<le> i32_max"

definition i64_add :: "int \<Rightarrow> int \<Rightarrow> int option" where
  "i64_add a b = (if in_i64 (a + b) then Some (a + b) else None)"

definition i64_sub :: "int \<Rightarrow> int \<Rightarrow> int option" where
  "i64_sub a b = (if in_i64 (a - b) then Some (a - b) else None)"

lemma i64_add_eq_Some: "i64_add a b = Some c \<longleftrightarrow> c = a + b \<and> in_i64 c"
  by (auto simp: i64_add_def)

lemma i64_sub_eq_Some: "i64_sub a b = Some c \<longleftrightarrow> c = a - b \<and> in_i64 c"
  by (auto simp: i64_sub_def)

text \<open>Conversion of an out-of-range value to \<open>int32_t\<close> and to \<open>uint32_t\<close>.\<close>

definition wrap_i32 :: "int \<Rightarrow> int" where
  "wrap_i32 x = (x + 2 ^ 31) mod 2 ^ 32 - 2 ^ 31"

definition to_u32 :: "int \<Rightarrow> nat" where
  "to_u32 x = nat (x mod 2 ^ 32)"

lemma wrap_i32_id: "in_i32 x \<Longrightarrow> wrap_i32 x = x"
  by (simp add: wrap_i32_def in_i32_def)

lemma in_i32_wrap: "in_i32 (wrap_i32 x)"
proof -
  have "0 \<le> (x + 2 ^ 31) mod 2 ^ 32" "(x + 2 ^ 31) mod 2 ^ 32 < 2 ^ 32" by simp_all
  then show ?thesis unfolding wrap_i32_def in_i32_def by simp
qed

lemma to_u32_id: "0 \<le> x \<Longrightarrow> x < 2 ^ 32 \<Longrightarrow> to_u32 x = nat x"
  by (simp add: to_u32_def)

section \<open>Words\<close>

lemma word_and_1_eq_0_iff: "(a :: 'a::len word) AND 1 = 0 \<longleftrightarrow> even (unat a)"
proof -
  have "a AND 1 = 0 \<longleftrightarrow> even a"
    by (simp add: and_one_eq even_iff_mod_2_eq_zero)
  also have "\<dots> \<longleftrightarrow> even (unat a)"
    by transfer (simp add: even_nat_iff)
  finally show ?thesis .
qed

lemma unat_drop_bit_Suc_0 [simp]: "unat (drop_bit (Suc 0) (a :: 'a::len word)) = unat a div 2"
  by (metis One_nat_def drop_bit_eq_div power_one_right unat_drop_bit_eq)

lemma unat_push_bit_small:
  assumes "unat (w :: 'a::len word) * 2 ^ k < 2 ^ LENGTH('a)"
  shows "unat (push_bit k w) = unat w * 2 ^ k"
proof -
  have "unat (push_bit k w) = take_bit LENGTH('a) (push_bit k (unat w))"
    by (rule unsigned_push_bit_eq)
  also have "\<dots> = unat w * 2 ^ k"
    unfolding push_bit_eq_mult take_bit_eq_mod using assms by simp
  finally show ?thesis .
qed

lemma low32_mask: "(0xffffffff :: u64) = mask 32"
  by (simp add: mask_eq_exp_minus_1)

lemma unat_and_low32: "unat (v AND 0xffffffff :: u64) = unat v mod 2 ^ 32"
  unfolding low32_mask take_bit_eq_mask [symmetric]
  by (rule trans [OF unsigned_take_bit_eq take_bit_eq_mod])

lemma unat_shr32: "unat (drop_bit 32 v :: u64) = unat v div 2 ^ 32"
  by (rule trans [OF unat_drop_bit_eq drop_bit_eq_div])

lemma and_shl_mask_eq_0_iff: "(h :: u64) AND push_bit 32 (mask 32) = 0 \<longleftrightarrow> drop_bit 32 h = 0"
proof
  assume *: "h AND push_bit 32 (mask 32) = 0"
  have "\<not> bit h (32 + n)" for n
  proof (cases "n < 32")
    case True
    then show ?thesis
      using arg_cong [OF *, of "\<lambda>w. bit w (32 + n)"] by (simp only: bit_simps) auto
  next
    case False
    then show ?thesis using bit_imp_le_length [of h "32 + n"] by auto
  qed
  then show "drop_bit 32 h = 0"
    by (intro bit_word_eqI) (simp add: bit_simps)
next
  assume *: "drop_bit 32 h = 0"
  have "\<not> bit h n" if "32 \<le> n" for n
    using arg_cong [OF *, of "\<lambda>w. bit w (n - 32)"] that by (simp only: bit_simps) auto
  then show "h AND push_bit 32 (mask 32) = 0"
    by (intro bit_word_eqI) (auto simp: bit_simps)
qed

lemma high32_nonzero_iff: "(h :: u64) AND push_bit 32 0xffffffff \<noteq> 0 \<longleftrightarrow> 2 ^ 32 \<le> unat h"
proof -
  have "drop_bit 32 h = 0 \<longleftrightarrow> unat h div 2 ^ 32 = 0"
    using unat_shr32 [of h] by (metis unat_eq_zero)
  also have "\<dots> \<longleftrightarrow> unat h < 2 ^ 32" by (simp add: div_eq_0_iff)
  finally show ?thesis unfolding low32_mask and_shl_mask_eq_0_iff by (simp add: not_less)
qed

lemma unat_or_shl32:
  assumes "unat (l :: u64) < 2 ^ 32" "unat h < 2 ^ 32"
  shows "unat (l OR push_bit 32 h) = unat l + unat h * 2 ^ 32" 
proof -
  have sh: "unat (push_bit 32 h) = push_bit 32 (unat h)"
    using assms by (simp add: push_bit_eq_mult unat_word_ariths)
  have "unat l = take_bit 32 (unat l)" using assms by (simp add: take_bit_eq_mod)
  then have "unat l AND push_bit 32 (unat h) = 0"
    by (metis (no_types, lifting) bit_and_iff bit_eqI bit_push_bit_iff bit_take_bit_iff leD  bit_0_eq bot_apply bot_bool_def)
  then have "unat l OR push_bit 32 (unat h) = unat l + push_bit 32 (unat h)"
    by (rule disjunctive_add_eq_or [symmetric])
  then show ?thesis unfolding unsigned_or_eq sh by (simp only: push_bit_eq_mult)
qed

lemma unat_of_nat_small: "n < 2 ^ LENGTH('a) \<Longrightarrow> unat (of_nat n :: 'a::len word) = n"
  unfolding unat_of_nat by (rule mod_less)

lemma unat_ucast_32_64: "unat (ucast (s :: u32) :: u64) = unat s"
proof -
  have "unat (ucast s :: u64) = take_bit LENGTH(64) (unat s)" by (rule unsigned_ucast_eq)
  also have "\<dots> = unat s" using unsigned_less[of s, where ?'a = nat] by (intro take_bit_nat_eq_self) simp
  finally show ?thesis .
qed

lemma unat_word_of_int_small:
  assumes "0 \<le> v" "v < 2 ^ 64"
  shows "unat (word_of_int v :: u64) = nat v"
proof -
  have "uint (word_of_int v :: u64) = v mod 2 ^ 64" by (simp only: uint_word_of_int len_of_numeral_defs) simp
  also have "\<dots> = v" using assms by (rule mod_pos_pos_trivial)
  finally show ?thesis by (simp only: unat_eq_nat_uint)
qed

lemma uint_of_nat_small: "n < 2 ^ 64 \<Longrightarrow> uint (of_nat n :: u64) = int n"
  unfolding uint_nat by (subst unat_of_nat_small) simp_all

lemma gt_u32_iff: "(w :: u64) > 0xffffffff \<longleftrightarrow> 2 ^ 32 \<le> unat w"
  unfolding word_less_nat_alt by auto

lemma unat_ucast_64_32: "unat (w :: u64) < 2 ^ 32 \<Longrightarrow> unat (ucast w :: u32) = unat w"
proof -
  assume *: "unat w < 2 ^ 32"
  have "unat (ucast w :: u32) = take_bit LENGTH(32) (unat w)" by (rule unsigned_ucast_eq)
  then show ?thesis using * by (simp add: take_bit_nat_eq_self)
qed

lemma unat_mult_32:
  "unat (ucast (a :: u32) * ucast (b :: u32) :: u64) = unat a * unat b"
proof -
  have "unat a \<le> 2 ^ 32 - 1" "unat b \<le> 2 ^ 32 - 1"
    using unsigned_less[of a, where ?'a = nat] unsigned_less[of b, where ?'a = nat] by auto
  then have "unat a * unat b \<le> (2 ^ 32 - 1) * (2 ^ 32 - 1)" by (rule mult_le_mono)
  then show ?thesis unfolding unat_word_ariths unat_ucast_32_64 by simp
qed

lemma word_or_and_1_eq_0_iff:
  "((a :: 'a::len word) OR b) AND 1 = 0 \<longleftrightarrow> even (unat a) \<and> even (unat b)"
  by (simp flip: word_and_1_eq_0_iff add: bit.conj_disj_distrib2 or_eq_0_iff)

section \<open>Lists and options\<close>

lemma find_SomeD: "find P xs = Some y \<Longrightarrow> y \<in> set xs \<and> P y"
  by (induction xs) (auto split: if_splits)

end
