(* ===== verification/Timeline_Rate.thy ===== *)
theory Timeline_Rate
  imports Media_Prelude
begin

text \<open>
  The rates of timelines: \<open>TimelineRate\<close> (lib/timeline/timeline_rate.h, .cc). A rate is the
  ratio of two \<open>uint32_t\<close> values, kept in lowest terms. The file's local routines come
  first (the binary gcd, the reduction of a ratio, the 96-bit scaling of a \<open>uint64_t\<close>), then
  the operations of the class: constructor, product, inverse, and the scaling of an
  \<open>int64_t\<close>, which returns \<open>kOverflow\<close> when the result is not representable.
\<close>

section \<open>The greatest common divisor\<close>

text \<open>
  \<open>BinaryGcd\<close> is a template over unsigned types; so is the model. Its loops have no bound of
  their own, so they are partial functions: \<^term>\<open>None\<close> is a loop that does not end.
\<close>

partial_function (option) common_twos ::
    "nat \<Rightarrow> 'a::len word \<Rightarrow> 'a word \<Rightarrow> (nat \<times> 'a word \<times> 'a word) option" where
  "common_twos twos a b =
     (if (a OR b) AND 1 = 0 then common_twos (Suc twos) (drop_bit 1 a) (drop_bit 1 b)
      else Some (twos, a, b))"

partial_function (option) strip_twos :: "'a::len word \<Rightarrow> 'a word option" where
  "strip_twos a = (if a AND 1 = 0 then strip_twos (drop_bit 1 a) else Some a)"

partial_function (option) gcd_loop :: "'a::len word \<Rightarrow> 'a word \<Rightarrow> 'a word option" where
  "gcd_loop a b =
     Option.bind (strip_twos b) (\<lambda>b1.
       let (a2, b2) = (if a > b1 then (b1, a) else (a, b1));
           b3 = b2 - a2
       in if b3 \<noteq> 0 then gcd_loop a2 b3 else Some a2)"

definition binary_gcd :: "'a::len word \<Rightarrow> 'a word \<Rightarrow> 'a word option" where
  "binary_gcd a b =
     (if a = 0 then Some b
      else if b = 0 then Some a
      else do {
        (twos, a1, b1) \<leftarrow> common_twos 0 a b;
        a2 \<leftarrow> strip_twos a1;
        a3 \<leftarrow> gcd_loop a2 b1;
        Some (push_bit twos a3)
      })"

definition reduce_ratio :: "'a::len word \<Rightarrow> 'a word \<Rightarrow> ('a word \<times> 'a word) option" where
  "reduce_ratio numerator denominator = do {
     dcheck (denominator \<noteq> 0);
     g \<leftarrow> binary_gcd numerator denominator;
     (if g = 0 then Some (numerator, 1)
      else if g = 1 then Some (numerator, denominator)
      else Some (numerator div g, denominator div g))
   }"

section \<open>Scaling\<close>

text \<open>
  \<open>ScaleUInt64\<close> computes \<open>value * subject_delta / reference_delta\<close> with a 96-bit intermediate
  held in two halves. The result is the overflow flag and the value.
\<close>

definition scale_uint64 :: "u64 \<Rightarrow> u32 \<Rightarrow> u32 \<Rightarrow> bool \<Rightarrow> (bool \<times> u64) option" where
  "scale_uint64 value subject_delta reference_delta round_up0 = do {
     dcheck (reference_delta \<noteq> 0);
     let kLow32Bits = (0xffffffff :: u64);
     let kHigh32Bits = push_bit 32 kLow32Bits;
     let high0 = ucast subject_delta * drop_bit 32 value;
     let low0 = ucast subject_delta * (value AND kLow32Bits);
     let high1 = high0 + drop_bit 32 low0;
     let low1 = low0 AND kLow32Bits;
     let low2 = low1 OR push_bit 32 (high1 mod ucast reference_delta);
     let round_up = (round_up0 \<and> low2 mod ucast reference_delta \<noteq> 0);
     let high = high1 div ucast reference_delta;
     let low = low2 div ucast reference_delta;
     (if high AND kHigh32Bits \<noteq> 0 then Some (True, 0)
      else let result = push_bit 32 high OR low
        in if round_up
           then (if result = 0x7fffffffffffffff then Some (True, 0)
                 else Some (False, result + 1))
           else Some (False, result))
   }"

abbreviation kOverflow :: int where "kOverflow \<equiv> i64_max"

definition scale_deltas :: "int \<Rightarrow> u32 \<Rightarrow> u32 \<Rightarrow> int option" where
  "scale_deltas value subject_delta reference_delta = do {
     dcheck (reference_delta \<noteq> 0);
     (overflow, abs_result) \<leftarrow>
       (if value \<ge> 0 then
          scale_uint64 (word_of_int value) subject_delta reference_delta False
        else if value = i64_min then
          scale_uint64 0x8000000000000000 subject_delta reference_delta True
        else
          scale_uint64 (word_of_int (- value)) subject_delta reference_delta True);
     (if overflow then Some kOverflow
      else if abs_result > 0x7fffffffffffffff then
        (if value < 0 \<and> abs_result = 0x8000000000000000 then Some i64_min
         else Some kOverflow)
      else if value \<ge> 0 then Some (uint abs_result) else Some (- uint abs_result))
   }"

section \<open>Rates\<close>

record timeline_rate =
  subject_delta :: u32
  reference_delta :: u32

definition default_rate :: timeline_rate where
  "default_rate = \<lparr>subject_delta = 0, reference_delta = 1\<rparr>"

definition rate_of_uint32 :: "u32 \<Rightarrow> timeline_rate" where
  "rate_of_uint32 s = \<lparr>subject_delta = s, reference_delta = 1\<rparr>"

definition mk_rate :: "u32 \<Rightarrow> u32 \<Rightarrow> timeline_rate option" where
  "mk_rate s r = do {
     dcheck (r \<noteq> 0);
     (s', r') \<leftarrow> reduce_ratio s r;
     Some \<lparr>subject_delta = s', reference_delta = r'\<rparr>
   }"

definition NsPerSecond :: "timeline_rate option" where
  "NsPerSecond = mk_rate 1000000000 1"

definition rate_inverse :: "timeline_rate \<Rightarrow> timeline_rate option" where
  "rate_inverse t = do {
     dcheck (subject_delta t \<noteq> 0);
     Some \<lparr>subject_delta = reference_delta t, reference_delta = subject_delta t\<rparr>
   }"

definition rate_scale :: "timeline_rate \<Rightarrow> int \<Rightarrow> int option" where
  "rate_scale t value = scale_deltas value (subject_delta t) (reference_delta t)"

text \<open>The loop of \<open>Product\<close> that drops low bits until both deltas fit 32 bits.\<close>

function shift_to_fit :: "u64 \<Rightarrow> u64 \<Rightarrow> u64 \<times> u64" where
  "shift_to_fit s r =
     (let s' = drop_bit 1 s; r' = drop_bit 1 r
      in if s' > 0xffffffff \<or> r' > 0xffffffff then shift_to_fit s' r' else (s', r'))"
  by pat_completeness auto

termination
proof (relation "measure (\<lambda>(s, r). unat s + unat r)", goal_cases)
  case 1
  then show ?case by simp
next
  case (2 s r s' r')
  then have "unat s' = unat s div 2" "unat r' = unat r div 2" "s' \<noteq> 0 \<or> r' \<noteq> 0"
    by auto
  then have "unat s + unat r > unat s' + unat r'"
    by (auto simp flip: unat_gt_0)
  then show ?case by simp
qed

declare shift_to_fit.simps [simp del]

definition product_deltas ::
    "u32 \<Rightarrow> u32 \<Rightarrow> u32 \<Rightarrow> u32 \<Rightarrow> bool \<Rightarrow> (u32 \<times> u32) option" where
  "product_deltas a_subject_delta a_reference_delta b_subject_delta b_reference_delta exact = do {
     dcheck (a_reference_delta \<noteq> 0);
     dcheck (b_reference_delta \<noteq> 0);
     (s, r) \<leftarrow> reduce_ratio (ucast a_subject_delta * ucast b_subject_delta :: u64)
                        (ucast a_reference_delta * ucast b_reference_delta);
     (if s > 0xffffffff \<or> r > 0xffffffff then do {
        dcheck (\<not> exact);
        let (s', r') = shift_to_fit s r;
        (if r' = 0 then Some (0xffffffff, 1) else Some (ucast s', ucast r'))
      } else Some (ucast s, ucast r))
   }"

definition rate_product :: "timeline_rate \<Rightarrow> timeline_rate \<Rightarrow> bool \<Rightarrow> timeline_rate option" where
  "rate_product a b exact = do {
     (s, r) \<leftarrow> product_deltas (subject_delta a) (reference_delta a)
                          (subject_delta b) (reference_delta b) exact;
     mk_rate s r
   }"

definition rate_divide :: "timeline_rate \<Rightarrow> timeline_rate \<Rightarrow> timeline_rate option" where
  "rate_divide a b = do { b' \<leftarrow> rate_inverse b; rate_product a b' True }"

definition int64_divide_rate :: "int \<Rightarrow> timeline_rate \<Rightarrow> int option" where
  "int64_divide_rate a b = do { b' \<leftarrow> rate_inverse b; rate_scale b' a }"

section \<open>Correctness\<close>

lemma strip_twos_correct:
  "a \<noteq> 0 \<Longrightarrow> \<exists>b k. strip_twos a = Some b \<and> odd (unat b) \<and> unat a = 2 ^ k * unat b"
proof (induction "unat a" arbitrary: a rule: less_induct)
  case less
  show ?case
  proof (cases "even (unat a)")
    case False
    then have "strip_twos a = Some a"
      by (subst strip_twos.simps) (simp add: word_and_1_eq_0_iff)
    with False show ?thesis by (metis One_nat_def mult_1 power_0)
  next
    case True
    have "unat (drop_bit 1 a) < unat a" using less.prems by (simp flip: unat_gt_0)
    moreover have "drop_bit 1 a \<noteq> 0" using True less.prems
      by (metis One_nat_def dvd_div_eq_0_iff unat_drop_bit_Suc_0 unat_eq_zero)
    ultimately obtain b k where
      "strip_twos (drop_bit 1 a) = Some b" "odd (unat b)" "unat (drop_bit 1 a) = 2 ^ k * unat b"
      using less.hyps by blast
    moreover have "unat a = 2 ^ Suc k * unat b"
      using calculation(3) True by auto
    moreover have "strip_twos a = strip_twos (drop_bit 1 a)"
      using True by (subst strip_twos.simps) (simp add: word_and_1_eq_0_iff)
    ultimately show ?thesis by (metis (full_types))
  qed
qed

lemma gcd_odd_pow2: "odd (a::nat) \<Longrightarrow> gcd a (2 ^ k * b) = gcd a b"
  by (simp add: coprime_commute gcd_mult_left_left_cancel gcd_mult_right_left_cancel)

lemma gcd_loop_correct:
  "odd (unat a) \<Longrightarrow> b \<noteq> 0 \<Longrightarrow>
   \<exists>g. gcd_loop a b = Some g \<and> unat g = gcd (unat a) (unat b)"
proof (induction "unat a + unat b" arbitrary: a b rule: less_induct)
  case less
  obtain b1 k where b1: "strip_twos b = Some b1" "odd (unat b1)" "unat b = 2 ^ k * unat b1"
    using strip_twos_correct less.prems by blast
  define a2 b2 where "a2 = min a b1" and "b2 = max a b1"
  have ab: "(if a > b1 then (b1, a) else (a, b1)) = (a2, b2)"
    by (auto simp: a2_def b2_def min_def max_def)
  have ord: "unat a2 \<le> unat b2" by (auto simp: a2_def b2_def min_def max_def word_le_nat_alt)
  have odd2: "odd (unat a2)" using less.prems b1 by (simp add: a2_def min_def)
  have g: "gcd (unat a) (unat b) = gcd (unat a2) (unat b2)"
    using less.prems b1 gcd_odd_pow2[of "unat a"]
    by (auto simp: a2_def b2_def min_def max_def gcd.commute)
  have sub: "unat (b2 - a2) = unat b2 - unat a2"
    using ord by (simp add: unat_sub word_le_nat_alt)
  have step: "gcd_loop a b = (if b2 - a2 \<noteq> 0 then gcd_loop a2 (b2 - a2) else Some a2)"
    by (subst gcd_loop.simps) (simp add: b1 ab Let_def)
  have gsub: "gcd (unat a2) (unat b2 - unat a2) = gcd (unat a2) (unat b2)"
    using ord by (metis gcd.commute gcd_diff1_nat)
  show ?case
  proof (cases "b2 - a2 = 0")
    case True
    then have "a2 = b2" by simp
    then show ?thesis using step g by simp
  next
    case False
    have "unat b1 \<le> unat b" using b1(3) by simp
    moreover have "unat a2 > 0" using odd2 by (cases "unat a2") auto
    moreover have "unat a2 + unat b2 = unat a + unat b1"
      by (auto simp: a2_def b2_def min_def max_def)
    ultimately have "unat a2 + unat (b2 - a2) < unat a + unat b" using sub ord by linarith
    from less.hyps[OF this odd2 False] show ?thesis
      using step False g sub gsub by auto
  qed
qed

lemma common_twos_correct:
  "a \<noteq> 0 \<Longrightarrow>
   \<exists>k a' b'. common_twos t a b = Some (t + k, a', b') \<and> a' \<noteq> 0 \<and>
     unat a = 2 ^ k * unat a' \<and> unat b = 2 ^ k * unat b' \<and> (odd (unat a') \<or> odd (unat b'))"
proof (induction "unat a" arbitrary: a b t rule: less_induct)
  case less
  show ?case
  proof (cases "even (unat a) \<and> even (unat b)")
    case False
    then have "common_twos t a b = Some (t + 0, a, b)"
      by (subst common_twos.simps) (auto simp: word_or_and_1_eq_0_iff)
    with False less.prems show ?thesis by (metis mult_1 power_0)
  next
    case True
    have "unat (drop_bit 1 a) < unat a" using less.prems by (simp flip: unat_gt_0)
    moreover have nz: "drop_bit 1 a \<noteq> 0" using True less.prems
      by (metis One_nat_def dvd_div_eq_0_iff unat_drop_bit_Suc_0 unat_eq_zero)
    ultimately obtain k a' b' where IH:
      "common_twos (Suc t) (drop_bit 1 a) (drop_bit 1 b) = Some (Suc t + k, a', b')" "a' \<noteq> 0"
      "unat (drop_bit 1 a) = 2 ^ k * unat a'" "unat (drop_bit 1 b) = 2 ^ k * unat b'"
      "odd (unat a') \<or> odd (unat b')"
      using less.hyps by blast
    have "unat a = 2 ^ Suc k * unat a'" "unat b = 2 ^ Suc k * unat b'"
      using IH(3,4) True by auto
    moreover have "common_twos t a b = Some (t + Suc k, a', b')"
      using True IH(1) by (subst common_twos.simps) (simp add: word_or_and_1_eq_0_iff)
    ultimately show ?thesis using IH(2,5) by blast
  qed
qed

lemma binary_gcd_correct:
  "\<exists>g. binary_gcd a b = Some g \<and> unat g = gcd (unat a) (unat b)"
proof (cases "a = 0 \<or> b = 0")
  case True
  then show ?thesis by (auto simp: binary_gcd_def)
next
  case False
  obtain k a1 b1 where 1: "common_twos 0 a b = Some (k, a1, b1)" "a1 \<noteq> 0"
      "unat a = 2 ^ k * unat a1" "unat b = 2 ^ k * unat b1" "odd (unat a1) \<or> odd (unat b1)"
    using common_twos_correct[of a 0 b] False by auto
  obtain a2 j where 2: "strip_twos a1 = Some a2" "odd (unat a2)" "unat a1 = 2 ^ j * unat a2"
    using strip_twos_correct 1(2) by blast
  have b1: "b1 \<noteq> 0" using 1(4) False by (metis mult_0_right unat_0 unat_eq_zero)
  obtain g where 3: "gcd_loop a2 b1 = Some g" "unat g = gcd (unat a2) (unat b1)"
    using gcd_loop_correct 2(2) b1 by blast
  have "gcd (unat a2) (unat b1) = gcd (unat a1) (unat b1)"
  proof (cases "j = 0")
    case True then show ?thesis using 2(3) by simp
  next
    case False
    then have "even (unat a1)" using 2(3) by simp
    then have "odd (unat b1)" using 1(5) by simp
    then show ?thesis using 2(3) gcd_odd_pow2[of "unat b1" j "unat a2"] by (simp add: gcd.commute)
  qed
  then have eq: "2 ^ k * unat g = gcd (unat a) (unat b)"
    using 3(2) 1(3,4) by (simp add: gcd_mult_distrib_nat)
  have "gcd (unat a) (unat b) \<le> unat a" using False by (metis gcd_le1_nat unat_eq_zero)
  then have "2 ^ k * unat g < 2 ^ LENGTH('a)" using eq unsigned_less[of a] by (metis le_less_trans)
  then have "unat (push_bit k g) = 2 ^ k * unat g"
    using unat_push_bit_small[of g k] by (simp add: mult.commute)
  moreover have "binary_gcd a b = Some (push_bit k g)"
    using False 1(1) 2(1) 3(1) by (simp add: binary_gcd_def)
  ultimately show ?thesis using eq by simp
qed
text \<open>The loops are not executable; the greatest common divisor they compute is.\<close>

lemma binary_gcd_code [code]: "binary_gcd a b = Some (word_of_int (gcd (uint a) (uint b)))"
proof -
  obtain g where g: "binary_gcd a b = Some g" "unat g = gcd (unat a) (unat b)" using binary_gcd_correct by blast
  have "uint g = gcd (uint a) (uint b)" unfolding uint_nat g(2) gcd_int_int_eq by (rule refl)
  then show ?thesis using g(1) by (metis word_of_int_uint)
qed

section \<open>What scaling computes\<close>

text \<open>
  The specification of \<open>ScaleUInt64\<close> on naturals: the truncated (or rounded up) quotient,
  with the overflow cases the code distinguishes. The code's test before the increment
  compares with the largest \<open>int64_t\<close>, not with the largest \<open>uint64_t\<close>.
\<close>

definition scale_spec :: "nat \<Rightarrow> nat \<Rightarrow> nat \<Rightarrow> bool \<Rightarrow> bool \<times> u64" where
  "scale_spec v s r up =
     (let q = v * s div r
      in if 2 ^ 64 \<le> q then (True, 0)
         else if up \<and> v * s mod r \<noteq> 0
              then (if q = 2 ^ 63 - 1 then (True, 0) else (False, of_nat (Suc q)))
              else (False, of_nat q))"

lemma halves_ge: "(y::nat) < 2 ^ 32 \<Longrightarrow> 2 ^ 32 \<le> x \<longleftrightarrow> 2 ^ 64 \<le> x * 2 ^ 32 + y"
  by simp arith

lemma product_in_halves:
  fixes v s :: nat
  defines "l0 \<equiv> s * (v mod 2 ^ 32)"
  shows "v * s = (s * (v div 2 ^ 32) + l0 div 2 ^ 32) * 2 ^ 32 + l0 mod 2 ^ 32"
proof -
  have "v * s = s * (v div 2 ^ 32 * 2 ^ 32 + v mod 2 ^ 32)"
    unfolding div_mult_mod_eq by (rule mult.commute)
  also have "\<dots> = s * (v div 2 ^ 32) * 2 ^ 32 + l0"
    unfolding l0_def by (simp only: distrib_left mult.assoc)
  also have "\<dots> = s * (v div 2 ^ 32) * 2 ^ 32 + (l0 div 2 ^ 32 * 2 ^ 32 + l0 mod 2 ^ 32)"
    by (simp only: div_mult_mod_eq)
  finally show ?thesis by (simp only: distrib_right add.assoc)
qed

lemma long_division:
  fixes h l r :: nat
  assumes "0 < r" "l < 2 ^ 32"
  shows long_division_div: "(h * 2 ^ 32 + l) div r = h div r * 2 ^ 32 + (l + h mod r * 2 ^ 32) div r"
    and long_division_mod: "(h * 2 ^ 32 + l) mod r = (l + h mod r * 2 ^ 32) mod r"
    and long_division_low: "(l + h mod r * 2 ^ 32) div r < 2 ^ 32"
proof -
  have "h * 2 ^ 32 = (h div r * r + h mod r) * 2 ^ 32" by (simp only: div_mult_mod_eq)
  also have "\<dots> = h div r * 2 ^ 32 * r + h mod r * 2 ^ 32"
    by (simp only: distrib_right mult.assoc mult.commute [of r])
  finally have split: "h * 2 ^ 32 + l = h div r * 2 ^ 32 * r + (l + h mod r * 2 ^ 32)" by simp
  show "(h * 2 ^ 32 + l) div r = h div r * 2 ^ 32 + (l + h mod r * 2 ^ 32) div r"
    unfolding split using assms(1) by simp
  show "(h * 2 ^ 32 + l) mod r = (l + h mod r * 2 ^ 32) mod r"
    unfolding split by simp
  have "l + h mod r * 2 ^ 32 < (h mod r + 1) * 2 ^ 32" using assms(2) by simp
  also have "\<dots> \<le> r * 2 ^ 32" using assms(1) by (intro mult_le_mono1) (simp add: Suc_leI)
  finally show "(l + h mod r * 2 ^ 32) div r < 2 ^ 32"
    by (simp add: less_mult_imp_div_less mult.commute)
qed

lemma word_of_halves:
  assumes "unat (l :: u64) < 2 ^ 32" "\<not> 2 ^ 64 \<le> unat h * 2 ^ 32 + unat l"
  shows "push_bit 32 h OR l = of_nat (unat h * 2 ^ 32 + unat l)"
proof -
  have "unat h < 2 ^ 32" using assms halves_ge by (metis not_le)
  then have "unat (push_bit 32 h OR l) = unat h * 2 ^ 32 + unat l"
    using unat_or_shl32 [of l h] assms(1) by (simp only: or.commute add.commute)
  then show ?thesis by (metis word_unat_eq_iff unat_of_nat_small unsigned_less)
qed

lemma scale_uint64_halves:
  fixes v :: u64 and s r :: u32
  assumes r: "r \<noteq> 0"
  defines "h0 \<equiv> unat s * (unat v div 2 ^ 32)" and "l0 \<equiv> unat s * (unat v mod 2 ^ 32)"
  defines "h \<equiv> h0 + l0 div 2 ^ 32" and "l \<equiv> l0 mod 2 ^ 32"
  shows "unat (ucast s * (v AND 0xffffffff) :: u64) = l0"
    and "unat (ucast s * drop_bit 32 v + drop_bit 32 (ucast s * (v AND 0xffffffff)) :: u64) = h"
    and "unat (((ucast s * (v AND 0xffffffff)) AND 0xffffffff) OR push_bit 32
      ((ucast s * drop_bit 32 v + drop_bit 32 (ucast s * (v AND 0xffffffff))) mod ucast r) :: u64)
      = l + h mod unat r * 2 ^ 32"
proof -
  have "unat v div 2 ^ 32 \<le> 2 ^ 32 - 1" "unat v mod 2 ^ 32 \<le> 2 ^ 32 - 1" "unat s \<le> 2 ^ 32 - 1"
    using unsigned_less [of v, where ?'a = nat] unsigned_less [of s, where ?'a = nat] by auto
  then have "h0 \<le> (2 ^ 32 - 1) * (2 ^ 32 - 1) \<and> l0 \<le> (2 ^ 32 - 1) * (2 ^ 32 - 1)"
    unfolding h0_def l0_def by (blast intro: mult_le_mono)
  then have lt: "h0 < 2 ^ 64" "l0 < 2 ^ 64" "h < 2 ^ 64" unfolding h_def by auto
  have l_lt: "l < 2 ^ 32" by (simp add: l_def)
  have h_mod: "h mod unat r < 2 ^ 32"
  proof -
    have "0 < unat r" using r by (simp add: unat_gt_0)
    then have "h mod unat r < unat r" by (rule mod_less_divisor)
    also have "\<dots> < 2 ^ 32" using unsigned_less [of r, where ?'a = nat] by simp
    finally show ?thesis .
  qed
  show wl0: "unat (ucast s * (v AND 0xffffffff) :: u64) = l0"
    using lt unfolding unat_word_ariths unat_and_low32 unat_ucast_32_64 l0_def by simp
  have wh0: "unat (ucast s * drop_bit 32 v :: u64) = h0"
    using lt unfolding unat_word_ariths unat_shr32 unat_ucast_32_64 h0_def by simp
  have "(h0 + l0 div 2 ^ 32) mod 2 ^ LENGTH(64) = h"
    unfolding h_def [symmetric] using lt by simp
  then show wh: "unat (ucast s * drop_bit 32 v + drop_bit 32 (ucast s * (v AND 0xffffffff)) :: u64) = h"
    unfolding unat_word_ariths(1) unat_shr32 wl0 wh0 .
  have wl: "unat ((ucast s * (v AND 0xffffffff)) AND 0xffffffff :: u64) = l"
    unfolding unat_and_low32 wl0 l_def ..
  have wm: "unat ((ucast s * drop_bit 32 v + drop_bit 32 (ucast s * (v AND 0xffffffff))) mod ucast r :: u64)
      = h mod unat r"
    unfolding unat_mod wh unat_ucast_32_64 ..
  show "unat (((ucast s * (v AND 0xffffffff)) AND 0xffffffff) OR push_bit 32
      ((ucast s * drop_bit 32 v + drop_bit 32 (ucast s * (v AND 0xffffffff))) mod ucast r) :: u64)
      = l + h mod unat r * 2 ^ 32"
    using unat_or_shl32 wl wm l_lt h_mod by metis
qed

lemma of_nat_eq_max_iff:
  "q < 2 ^ 64 \<Longrightarrow> (of_nat q = (0x7fffffffffffffff :: u64)) \<longleftrightarrow> q = 2 ^ 63 - 1"
  unfolding word_unat_eq_iff by (simp add: unat_of_nat_small)

lemma scale_uint64_correct:
  assumes r: "r \<noteq> 0"
  shows "scale_uint64 v s r up = Some (scale_spec (unat v) (unat s) (unat r) up)"
proof -
  let ?V = "unat v" and ?S = "unat s" and ?R = "unat r"
  define l0 where "l0 = ?S * (?V mod 2 ^ 32)"
  define h l where "h = ?S * (?V div 2 ^ 32) + l0 div 2 ^ 32" and "l = l0 mod 2 ^ 32"
  have R: "0 < ?R" using r by (simp add: unat_gt_0)
  have l: "l < 2 ^ 32" by (simp add: l_def)
  have SV: "?V * ?S = h * 2 ^ 32 + l"
    unfolding h_def l_def l0_def by (rule product_in_halves)
  note ld = long_division [OF R l, of h]
  define wh wl where "wh = (ucast s * drop_bit 32 v + drop_bit 32 (ucast s * (v AND 0xffffffff)) :: u64)"
    and "wl = (((ucast s * (v AND 0xffffffff)) AND 0xffffffff) OR push_bit 32 (wh mod ucast r) :: u64)"
  have wh: "unat wh = h" and wl: "unat wl = l + h mod ?R * 2 ^ 32"
    unfolding wl_def wh_def h_def l_def l0_def using scale_uint64_halves [OF r] by simp_all
  have hq: "unat (wh div ucast r) = h div ?R" unfolding unat_div wh unat_ucast_32_64 ..
  have lq: "unat (wl div ucast r) = (l + h mod ?R * 2 ^ 32) div ?R"
    unfolding unat_div wl unat_ucast_32_64 ..
  have lm: "unat (wl mod ucast r) = ?V * ?S mod ?R"
    unfolding unat_mod wl unat_ucast_32_64 SV ld(2) ..
  have q: "?V * ?S div ?R = unat (wh div ucast r) * 2 ^ 32 + unat (wl div ucast r)"
    unfolding SV ld(1) hq lq ..
  have rem: "wl mod ucast r \<noteq> 0 \<longleftrightarrow> ?V * ?S mod ?R \<noteq> 0"
    unfolding lm [symmetric] unat_0_iff ..
  have low: "unat (wl div ucast r) < 2 ^ 32" unfolding lq by (rule ld(3))
  have ov: "(wh div ucast r) AND push_bit 32 0xffffffff \<noteq> 0 \<longleftrightarrow> 2 ^ 64 \<le> ?V * ?S div ?R"
    unfolding high32_nonzero_iff q by (rule halves_ge [OF low])
  have res: "push_bit 32 (wh div ucast r) OR (wl div ucast r) = of_nat (?V * ?S div ?R)"
    if "\<not> 2 ^ 64 \<le> ?V * ?S div ?R"
    using that unfolding q by (rule word_of_halves [OF low])
  show ?thesis
    unfolding scale_uint64_def Let_def wh_def [symmetric] wl_def [symmetric] scale_spec_def rem ov
    using r res by (auto simp: of_nat_eq_max_iff not_le add.commute)
qed

text \<open>
  The intended result of \<open>Scale\<close>: the product with the rate, rounded down (towards minus
  infinity), or \<open>kOverflow\<close> where that is not an \<open>int64_t\<close>.
\<close>

definition scale_ideal :: "int \<Rightarrow> u32 \<Rightarrow> u32 \<Rightarrow> int" where
  "scale_ideal v s r = (let q = v * uint s div uint r in if in_i64 q then q else kOverflow)"

lemma gt_max_iff: "n < 2 ^ 64 \<Longrightarrow> (of_nat n :: u64) > 0x7fffffffffffffff \<longleftrightarrow> 2 ^ 63 \<le> n"
  unfolding word_less_nat_alt by (simp add: unat_of_nat_small) arith

lemma eq_min_iff: "n < 2 ^ 64 \<Longrightarrow> (of_nat n :: u64) = 0x8000000000000000 \<longleftrightarrow> n = 2 ^ 63"
  unfolding word_unat_eq_iff by (simp add: unat_of_nat_small)

definition scale_core :: "int \<Rightarrow> u32 \<Rightarrow> u32 \<Rightarrow> int" where
  "scale_core value s r = (let (overflow, abs_result) = scale_spec (nat \<bar>value\<bar>) (unat s) (unat r) (value < 0) in
    (if overflow then kOverflow
      else if abs_result > 0x7fffffffffffffff then
        (if value < 0 \<and> abs_result = 0x8000000000000000 then i64_min
         else kOverflow)
      else if value \<ge> 0 then uint abs_result else - uint abs_result))"

lemma scale_deltas_core:
  assumes "r \<noteq> 0" "in_i64 v"
  shows "scale_deltas v s r = Some (scale_core v s r)"
proof -
  have "scale_deltas v s r =
    (case scale_spec (nat \<bar>v\<bar>) (unat s) (unat r) (v < 0) of (overflow, abs_result) \<Rightarrow>
     (if overflow then Some kOverflow
      else if abs_result > 0x7fffffffffffffff then
        (if v < 0 \<and> abs_result = 0x8000000000000000 then Some i64_min else Some kOverflow)
      else if v \<ge> 0 then Some (uint abs_result) else Some (- uint abs_result)))"
    using assms unat_word_of_int_small[of v] unat_word_of_int_small[of "- v"]
    unfolding scale_deltas_def scale_uint64_correct[OF assms(1)]
    by (auto simp: in_i64_def)
  then show ?thesis unfolding scale_core_def by (auto simp: Let_def split: prod.splits)
qed

lemma uint_div_nat:
  "0 \<le> v \<Longrightarrow> v * uint (s :: u32) div uint (r :: u32) = int (nat v * unat s div unat r)"
  unfolding uint_nat by (simp only: zdiv_int of_nat_mult nat_0_le)

lemma nonneg_core:
  assumes "0 \<le> v" "r \<noteq> 0"
  shows "scale_core v s r = scale_ideal v s r"
proof -
  define q where "q = nat v * unat s div unat r"
  have q: "v * uint s div uint r = int q"
    unfolding q_def using assms by (intro uint_div_nat)
  have "scale_core v s r = (if 2 ^ 64 \<le> q then kOverflow
     else if (of_nat q :: u64) > 0x7fffffffffffffff then kOverflow else uint (of_nat q :: u64))"
    using assms unfolding scale_core_def scale_spec_def Let_def q_def by simp
  also have "\<dots> = (if 2 ^ 63 \<le> q then kOverflow else int q)"
    by (cases "q < 2 ^ 64") (simp_all only: gt_max_iff uint_of_nat_small not_less not_le if_True if_False, auto)
  also have "\<dots> = scale_ideal v s r" unfolding scale_ideal_def q Let_def in_i64_def by auto
  finally show ?thesis .
qed

lemma neg_core:
  fixes v :: int and s r :: u32
  assumes v: "v < 0" and r: "r \<noteq> 0"
  defines "q \<equiv> v * uint s div uint r" and "exact \<equiv> uint r dvd v * uint s"
  shows "scale_core v s r =
    (if \<not> exact \<and> q = - (2 ^ 64) then 0
     else if \<not> exact \<and> q = i64_min then kOverflow else scale_ideal v s r)"
proof -
  define t where "t = nat (- v) * unat s div unat r"
  define m where "m = nat (- v) * unat s mod unat r"
  have R: "0 < unat r" "0 < uint r" using r unfolding uint_nat by (simp_all only: unat_gt_0 of_nat_0_less_iff) simp_all
  have nv: "nat \<bar>v\<bar> = nat (- v)" "(v < 0) = True" "(v \<ge> 0) = False" using v by auto
  have t: "(- v) * uint s div uint r = int t" unfolding t_def using v by (intro uint_div_nat) simp
  have m: "(- v) * uint s mod uint r = int m"
    unfolding m_def uint_nat using v by (simp only: zmod_int of_nat_mult nat_0_le)
  have ex: "exact \<longleftrightarrow> m = 0"
  proof -
    have "exact \<longleftrightarrow> uint r dvd (- v) * uint s" unfolding exact_def mult_minus_left dvd_minus_iff ..
    then show ?thesis unfolding dvd_eq_mod_eq_0 m by simp
  qed
  have q: "q = (if m = 0 then - int t else - int t - 1)"
  proof -
    have "q = - ((- v) * uint s) div uint r" unfolding q_def by simp
    also have "\<dots> = (if m = 0 then - int t else - int t - 1)"
      using zdiv_zminus1_eq_if [of "uint r" "(- v) * uint s"] R unfolding m t by simp
    finally show ?thesis .
  qed
  have core: "scale_core v s r = (if 2 ^ 64 \<le> t then kOverflow
     else if m \<noteq> 0 then (if t = 2 ^ 63 - 1 then kOverflow
       else if (of_nat (Suc t) :: u64) > 0x7fffffffffffffff then
         (if (of_nat (Suc t) :: u64) = 0x8000000000000000 then i64_min else kOverflow)
       else - uint (of_nat (Suc t) :: u64))
     else if (of_nat t :: u64) > 0x7fffffffffffffff then
         (if (of_nat t :: u64) = 0x8000000000000000 then i64_min else kOverflow)
       else - uint (of_nat t :: u64))"
    unfolding scale_core_def scale_spec_def Let_def t_def m_def nv by simp
  consider "2 ^ 64 \<le> t" | "t = 2 ^ 64 - 1" | "Suc t < 2 ^ 64" by linarith
  then show ?thesis
  proof cases
    case 1
    then show ?thesis unfolding core ex q scale_ideal_def q_def[symmetric] Let_def in_i64_def by auto
  next
    case 2
    have z: "(of_nat (Suc t) :: u64) = 0" unfolding 2 by simp
    have b: "(of_nat t :: u64) > 0x7fffffffffffffff" "(of_nat t :: u64) \<noteq> 0x8000000000000000"
      unfolding 2 by simp_all
    show ?thesis unfolding core z ex q scale_ideal_def q_def[symmetric] Let_def in_i64_def
      using b 2 by simp
  next
    case 3
    then have "t < 2 ^ 64" by simp
    show ?thesis
      unfolding core gt_max_iff[OF 3] gt_max_iff[OF \<open>t < 2 ^ 64\<close>] eq_min_iff[OF 3]
        eq_min_iff[OF \<open>t < 2 ^ 64\<close>] uint_of_nat_small[OF 3] uint_of_nat_small[OF \<open>t < 2 ^ 64\<close>]
        ex q scale_ideal_def q_def[symmetric] Let_def in_i64_def
      using 3 by auto
  qed
qed

lemma reduce_ratio_correct:
  assumes "d \<noteq> 0"
  shows "\<exists>n' d'. reduce_ratio n d = Some (n', d') \<and> d' \<noteq> 0 \<and>
    unat n' = unat n div gcd (unat n) (unat d) \<and> unat d' = unat d div gcd (unat n) (unat d)"
proof -
  obtain g where g: "binary_gcd n d = Some g" "unat g = gcd (unat n) (unat d)"
    using binary_gcd_correct by blast
  have pos: "unat g \<noteq> 0" using g(2) assms by (simp add: unat_eq_zero)
  then have "g \<noteq> 0" by auto
  have dv: "unat (d div g) \<noteq> 0"
    using assms g(2) pos unfolding unat_div
    by (metis dvd_div_eq_0_iff gcd_dvd2 unat_eq_zero)
  then have nz: "d div g \<noteq> 0" by auto
  show ?thesis
  proof (cases "g = 1")
    case True
    then have "gcd (unat n) (unat d) = 1" using g(2) by simp
    then show ?thesis using True g(1) assms by (simp add: reduce_ratio_def)
  next
    case False
    then show ?thesis using \<open>g \<noteq> 0\<close> g assms nz by (simp add: reduce_ratio_def unat_div)
  qed
qed

definition rate_ok :: "timeline_rate \<Rightarrow> bool" where
  "rate_ok t \<longleftrightarrow> reference_delta t \<noteq> 0 \<and> coprime (unat (subject_delta t)) (unat (reference_delta t))"

lemma mk_rate_correct:
  assumes "r \<noteq> 0"
  shows "\<exists>t. mk_rate s r = Some t \<and> rate_ok t \<and>
    unat (subject_delta t) = unat s div gcd (unat s) (unat r) \<and>
    unat (reference_delta t) = unat r div gcd (unat s) (unat r)"
proof -
  obtain s' r' where "reduce_ratio s r = Some (s', r')" "r' \<noteq> 0"
    "unat s' = unat s div gcd (unat s) (unat r)" "unat r' = unat r div gcd (unat s) (unat r)"
    using reduce_ratio_correct[OF assms] by blast
  moreover have "gcd (unat s) (unat r) \<noteq> 0" using assms by (simp add: unat_eq_zero)
  then have "coprime (unat s div gcd (unat s) (unat r)) (unat r div gcd (unat s) (unat r))"
    by (intro div_gcd_coprime) auto
  ultimately show ?thesis using assms by (auto simp: mk_rate_def rate_ok_def)
qed

lemma mk_rate_coprime:
  assumes "r \<noteq> 0" "coprime (unat s) (unat r)"
  shows "mk_rate s r = Some \<lparr>subject_delta = s, reference_delta = r\<rparr>"
proof -
  obtain t where t: "mk_rate s r = Some t" "unat (subject_delta t) = unat s" "unat (reference_delta t) = unat r"
    using mk_rate_correct[OF assms(1), of s] assms(2) unfolding coprime_iff_gcd_eq_1 by auto
  then have "subject_delta t = s" "reference_delta t = r" by (simp_all add: word_unat_eq_iff)
  then show ?thesis using t(1) by (cases t) auto
qed

lemma shift_to_fit_fits: "(s', r') = shift_to_fit s r \<Longrightarrow> unat s' < 2 ^ 32 \<and> unat r' < 2 ^ 32"
proof (induction s r rule: shift_to_fit.induct)
  case (1 s r)
  show ?case
  proof (cases "drop_bit 1 s > 0xffffffff \<or> drop_bit 1 r > 0xffffffff")
    case True
    with 1 show ?thesis by (subst (asm) shift_to_fit.simps) (simp add: Let_def)
  next
    case False
    then have "unat (drop_bit 1 s) < 2 ^ 32" "unat (drop_bit 1 r) < 2 ^ 32"
      unfolding gt_u32_iff by (simp_all add: not_le)
    moreover have "s' = drop_bit 1 s \<and> r' = drop_bit 1 r"
      using False "1.prems" by (subst (asm) shift_to_fit.simps) (simp add: Let_def)
    ultimately show ?thesis by simp
  qed
qed

lemma product_deltas_cases:
  fixes sa ra sb rb :: u32
  assumes "ra \<noteq> 0" "rb \<noteq> 0"
  defines "S \<equiv> unat sa * unat sb" and "R \<equiv> unat ra * unat rb"
  shows product_deltas_fits:
      "S div gcd S R < 2 ^ 32 \<Longrightarrow> R div gcd S R < 2 ^ 32 \<Longrightarrow>
       \<exists>s r. product_deltas sa ra sb rb exact = Some (s, r) \<and> r \<noteq> 0 \<and>
         unat s = S div gcd S R \<and> unat r = R div gcd S R"
    and product_deltas_exact_fails:
      "\<not> (S div gcd S R < 2 ^ 32 \<and> R div gcd S R < 2 ^ 32) \<Longrightarrow>
       product_deltas sa ra sb rb True = None"
    and product_deltas_inexact:
      "\<exists>s r. product_deltas sa ra sb rb False = Some (s, r) \<and> r \<noteq> 0"
proof -
  let ?s = "ucast sa * ucast sb :: u64" and ?r = "ucast ra * ucast rb :: u64"
  have nz: "?r \<noteq> 0"
    using assms(1,2) unat_mult_32[of ra rb] by (metis mult_is_0 unat_eq_zero)
  obtain s r where sr: "reduce_ratio ?s ?r = Some (s, r)" "r \<noteq> 0"
    "unat s = S div gcd S R" "unat r = R div gcd S R"
    using reduce_ratio_correct[OF nz, of ?s] unfolding unat_mult_32 S_def R_def by blast
  have eq: "product_deltas sa ra sb rb e =
    (if 2 ^ 32 \<le> unat s \<or> 2 ^ 32 \<le> unat r then
       (if e then None else (let (s', r') = shift_to_fit s r in
          if r' = 0 then Some (0xffffffff, 1) else Some (ucast s', ucast r')))
     else Some (ucast s, ucast r))" for e
    unfolding product_deltas_def using assms(1,2) sr(1) by (simp add: gt_u32_iff)
  have unat_nz: "unat (ucast w :: u32) = unat w \<Longrightarrow> w \<noteq> 0 \<Longrightarrow> (ucast w :: u32) \<noteq> 0" for w :: u64
    by (metis unat_0 unat_eq_zero)
  show "\<exists>s r. product_deltas sa ra sb rb exact = Some (s, r) \<and> r \<noteq> 0 \<and>
         unat s = S div gcd S R \<and> unat r = R div gcd S R"
    if "S div gcd S R < 2 ^ 32" "R div gcd S R < 2 ^ 32"
    using that sr unat_ucast_64_32[of s] unat_ucast_64_32[of r] unat_nz[of r]
    unfolding eq by auto
  show "product_deltas sa ra sb rb True = None"
    if "\<not> (S div gcd S R < 2 ^ 32 \<and> R div gcd S R < 2 ^ 32)"
    using that sr unfolding eq by auto
  obtain s' r' where f: "shift_to_fit s r = (s', r')" by fastforce
  then have "unat r' < 2 ^ 32" using shift_to_fit_fits[of s' r' s r] by simp
  then show "\<exists>s r. product_deltas sa ra sb rb False = Some (s, r) \<and> r \<noteq> 0"
    using sr(2) unat_ucast_64_32[of r] unat_ucast_64_32[of r'] unat_nz[of r] unat_nz[of r']
    unfolding eq f by auto
qed

lemma rate_product_exact:
  assumes "rate_ok a" "rate_ok b"
  defines "S \<equiv> unat (subject_delta a) * unat (subject_delta b)"
    and "R \<equiv> unat (reference_delta a) * unat (reference_delta b)"
  assumes "S div gcd S R < 2 ^ 32" "R div gcd S R < 2 ^ 32"
  shows "\<exists>t. rate_product a b exact = Some t \<and> rate_ok t \<and>
    unat (subject_delta t) = S div gcd S R \<and> unat (reference_delta t) = R div gcd S R"
proof -
  have nz: "reference_delta a \<noteq> 0" "reference_delta b \<noteq> 0" using assms by (auto simp: rate_ok_def)
  obtain s r where sr: "product_deltas (subject_delta a) (reference_delta a)
      (subject_delta b) (reference_delta b) exact = Some (s, r)" "r \<noteq> 0"
    "unat s = S div gcd S R" "unat r = R div gcd S R"
    using product_deltas_fits[OF nz] assms(5,6) unfolding S_def R_def by blast
  have "R \<noteq> 0" using nz by (simp add: R_def unat_eq_zero)
  then have "coprime (unat s) (unat r)" unfolding sr(3,4) by (intro div_gcd_coprime) auto
  then show ?thesis using mk_rate_coprime[OF sr(2)] sr by (simp add: rate_product_def rate_ok_def)
qed

lemma rate_product_inexact_total:
  assumes "rate_ok a" "rate_ok b"
  shows "\<exists>t. rate_product a b False = Some t \<and> rate_ok t"
proof -
  have nz: "reference_delta a \<noteq> 0" "reference_delta b \<noteq> 0" using assms by (auto simp: rate_ok_def)
  obtain s r where sr: "product_deltas (subject_delta a) (reference_delta a)
      (subject_delta b) (reference_delta b) False = Some (s, r)" "r \<noteq> 0"
    using product_deltas_inexact[OF nz] by blast
  then obtain t where "mk_rate s r = Some t" "rate_ok t" using mk_rate_correct by blast
  then show ?thesis using sr by (simp add: rate_product_def)
qed

lemma rate_product_exact_fails:
  assumes "rate_ok a" "rate_ok b"
  defines "S \<equiv> unat (subject_delta a) * unat (subject_delta b)"
    and "R \<equiv> unat (reference_delta a) * unat (reference_delta b)"
  assumes "\<not> (S div gcd S R < 2 ^ 32 \<and> R div gcd S R < 2 ^ 32)"
  shows "rate_product a b True = None"
proof -
  have nz: "reference_delta a \<noteq> 0" "reference_delta b \<noteq> 0" using assms by (auto simp: rate_ok_def)
  then show ?thesis
    using product_deltas_exact_fails[OF nz, of "subject_delta a" "subject_delta b"] assms(5)
    unfolding S_def R_def by (simp add: rate_product_def)
qed

section \<open>Properties\<close>

text \<open>What \<open>Scale\<close> returns: the product rounded down, or \<open>kOverflow\<close> where that is no \<open>int64_t\<close>; but an inexact
  negative product that rounds to the least \<open>int64_t\<close> is reported as an overflow, and one that rounds to
  \<open>-2^64\<close> gives 0.\<close>

definition scale_result :: "int \<Rightarrow> u32 \<Rightarrow> u32 \<Rightarrow> int" where
  "scale_result v s r =
     (let q = v * uint s div uint r;
          inexact_negative = (v < 0 \<and> v * uint s mod uint r \<noteq> 0)
      in if inexact_negative \<and> q = - (2 ^ 64) then 0
         else if inexact_negative \<and> q = i64_min then kOverflow
         else if in_i64 q then q else kOverflow)"

text \<open>
  C33. For every rate and every 64-bit value, scaling returns the product rounded down when that is an
  \<open>int64_t\<close>, and \<open>kOverflow\<close> when it is not - except for an inexact negative product that rounds to
  the least \<open>int64_t\<close>, which gives \<open>kOverflow\<close> too, and one that rounds to \<open>-2^64\<close>, which gives 0.
\<close>

theorem scale_rounds_down:
  assumes "r \<noteq> 0" and "in_i64 v"
  shows "scale_deltas v s r = Some (scale_result v s r)"
proof (cases "0 \<le> v")
  case True
  then show ?thesis
    using scale_deltas_core [OF assms] nonneg_core [OF True assms(1)] by (simp add: scale_ideal_def scale_result_def Let_def)
next
  case False
  then show ?thesis
    using scale_deltas_core [OF assms] neg_core [of v r s] assms(1)
    by (simp add: scale_ideal_def scale_result_def dvd_eq_mod_eq_0 Let_def)
qed

theorem scale_rounds_down_witness:
  "scale_deltas (- 7) 3 2 = Some (- 11) \<and> scale_deltas i64_max 3 2 = Some kOverflow"
  using scale_rounds_down [of 2 "- 7" 3] scale_rounds_down [of 2 i64_max 3]
  by (simp add: scale_result_def in_i64_def)

text \<open>
  The overflow that is missed: where the magnitude of an inexact negative product rounds
  up to \<open>2^64\<close>, the increment of the 64-bit result wraps and \<open>Scale\<close> returns 0 instead of
  \<open>kOverflow\<close>.
\<close>

theorem scale_negative_wraps_to_zero:
  assumes "r \<noteq> 0" and "in_i64 v" and "v < 0" and "\<not> uint r dvd v * uint s"
    and "v * uint s div uint r = - (2 ^ 64)"
  shows "scale_deltas v s r = Some 0 \<and> scale_ideal v s r = kOverflow"
  using scale_deltas_core [OF assms(1,2)] neg_core [OF assms(3,1), of s] assms(4,5)
  by (simp add: scale_ideal_def in_i64_def)

theorem scale_negative_wraps_to_zero_witness:
  "scale_deltas (- 1190112520884487201) 31 2 = Some 0"
proof -
  have "\<not> uint (2 :: u32) dvd - 1190112520884487201 * uint (31 :: u32)" by simp
  moreover have "- 1190112520884487201 * uint (31 :: u32) div uint (2 :: u32) = - (2 ^ 64)" by simp
  ultimately show ?thesis
    using scale_negative_wraps_to_zero [of 2 "- 1190112520884487201" 31] by (simp add: in_i64_def)
qed

text \<open>
  C39. \<open>BinaryGcd\<close> returns on every input, of every unsigned width, and what it returns is the
  greatest common divisor.
\<close>

theorem binary_gcd_returns_gcd:
  "map_option unat (binary_gcd a b) = Some (gcd (unat a) (unat b))"
  using binary_gcd_correct [of a b] by auto

text \<open>
  C38. The constructor returns a rate in lowest terms with the same value for every ratio
  whose denominator is not zero.
\<close>

theorem mk_rate_lowest_terms:
  assumes "r \<noteq> 0"
  shows "\<exists>t. mk_rate s r = Some t \<and> rate_ok t \<and>
    unat (subject_delta t) * unat r = unat s * unat (reference_delta t)"
proof -
  obtain t where t: "mk_rate s r = Some t" "rate_ok t"
    "unat (subject_delta t) = unat s div gcd (unat s) (unat r)"
    "unat (reference_delta t) = unat r div gcd (unat s) (unat r)"
    using mk_rate_correct [OF assms] by blast
  have "unat s div gcd (unat s) (unat r) * unat r = unat s * (unat r div gcd (unat s) (unat r))"
    by (metis div_mult_swap dvd_div_mult gcd_dvd1 gcd_dvd2)
  with t show ?thesis by auto
qed

theorem mk_rate_lowest_terms_witness:
  "\<exists>t. mk_rate 48000 44100 = Some t \<and> rate_ok t \<and>
    unat (subject_delta t) * unat (44100 :: u32) = unat (48000 :: u32) * unat (reference_delta t)"
  by (rule mk_rate_lowest_terms) simp

text \<open>
  The product of two rates: it is the exact product in lowest terms whenever that fits two
  32-bit deltas; when it does not, the exact variant fails its check and the inexact one still
  returns a rate in lowest terms.
\<close>

theorem rate_product_spec:
  assumes "rate_ok a" and "rate_ok b"
  defines "S \<equiv> unat (subject_delta a) * unat (subject_delta b)"
    and "R \<equiv> unat (reference_delta a) * unat (reference_delta b)"
  shows "if S div gcd S R < 2 ^ 32 \<and> R div gcd S R < 2 ^ 32
    then \<exists>t. rate_product a b exact = Some t \<and> rate_ok t \<and>
      unat (subject_delta t) = S div gcd S R \<and> unat (reference_delta t) = R div gcd S R
    else rate_product a b True = None \<and> (\<exists>t. rate_product a b False = Some t \<and> rate_ok t)"
  using rate_product_exact [OF assms(1,2)] rate_product_exact_fails [OF assms(1,2)]
    rate_product_inexact_total [OF assms(1,2)]
  unfolding S_def R_def by simp

theorem rate_product_spec_witness:
  "\<exists>t. rate_product \<lparr>subject_delta = 3, reference_delta = 2\<rparr> \<lparr>subject_delta = 4, reference_delta = 9\<rparr> True
      = Some t \<and> rate_ok t \<and> unat (subject_delta t) = 2 \<and> unat (reference_delta t) = 3"
proof -
  have "coprime (3 :: nat) 2" "coprime (4 :: nat) 9" "gcd (12 :: nat) 18 = 6"
    by (code_simp, code_simp, code_simp)
  then show ?thesis
    using rate_product_spec [of "\<lparr>subject_delta = 3, reference_delta = 2\<rparr>"
        "\<lparr>subject_delta = 4, reference_delta = 9\<rparr>" True]
    by (simp add: rate_ok_def)
qed

end
