(* ===== verification/Timeline_Function.thy ===== *)
theory Timeline_Function
  imports Timeline_Rate
begin

text \<open>
  Linear functions between timelines: \<open>TimelineFunction\<close> (lib/timeline/timeline_function.h,
  .cc), in point-slope form over \<open>int64_t\<close> times and a \<^typ>\<open>timeline_rate\<close>, with application,
  inverse, composition and the conversion from and to the fidl struct \<open>TimelineTransform\<close>.
  The subtraction and addition of \<open>Apply\<close> are signed 64-bit operations; overflow there is
  undefined behaviour, the value \<^term>\<open>None\<close>.
\<close>

section \<open>Definitions\<close>

record timeline_function =
  reference_time :: int
  subject_time :: int
  rate :: timeline_rate

definition default_function :: timeline_function where
  "default_function = \<lparr>reference_time = 0, subject_time = 0, rate = default_rate\<rparr>"

definition mk_function :: "int \<Rightarrow> int \<Rightarrow> u32 \<Rightarrow> u32 \<Rightarrow> timeline_function option" where
  "mk_function rt st rd sd = do {
     r \<leftarrow> mk_rate sd rd;
     Some \<lparr>reference_time = rt, subject_time = st, rate = r\<rparr>
   }"

definition function_of_rate :: "timeline_rate \<Rightarrow> timeline_function" where
  "function_of_rate r = \<lparr>reference_time = 0, subject_time = 0, rate = r\<rparr>"

definition apply_at :: "int \<Rightarrow> int \<Rightarrow> timeline_rate \<Rightarrow> int \<Rightarrow> int option" where
  "apply_at rt st r reference_input = do {
     d \<leftarrow> i64_sub reference_input rt;
     x \<leftarrow> rate_scale r d;
     i64_add x st
   }"

definition apply_inverse_at :: "int \<Rightarrow> int \<Rightarrow> timeline_rate \<Rightarrow> int \<Rightarrow> int option" where
  "apply_inverse_at rt st r subject_input = do {
     dcheck (reference_delta r \<noteq> 0);
     r' \<leftarrow> rate_inverse r;
     apply_at st rt r' subject_input
   }"

definition tf_apply :: "timeline_function \<Rightarrow> int \<Rightarrow> int option" where
  "tf_apply f x = apply_at (reference_time f) (subject_time f) (rate f) x"

definition tf_apply_inverse :: "timeline_function \<Rightarrow> int \<Rightarrow> int option" where
  "tf_apply_inverse f y = do {
     dcheck (reference_delta (rate f) \<noteq> 0);
     apply_inverse_at (reference_time f) (subject_time f) (rate f) y
   }"

definition tf_inverse :: "timeline_function \<Rightarrow> timeline_function option" where
  "tf_inverse f = do {
     dcheck (reference_delta (rate f) \<noteq> 0);
     r' \<leftarrow> rate_inverse (rate f);
     Some \<lparr>reference_time = subject_time f, subject_time = reference_time f, rate = r'\<rparr>
   }"

definition tf_compose :: "timeline_function \<Rightarrow> timeline_function \<Rightarrow> bool \<Rightarrow> timeline_function option" where
  "tf_compose bc ab exact = do {
     st \<leftarrow> tf_apply bc (subject_time ab);
     r \<leftarrow> rate_product (rate ab) (rate bc) exact;
     Some \<lparr>reference_time = reference_time ab, subject_time = st, rate = r\<rparr>
   }"

text \<open>The fidl struct \<open>TimelineTransform\<close>; a null \<open>TimelineTransformPtr\<close> is \<^term>\<open>None\<close>.\<close>

record timeline_transform =
  tt_reference_time :: int
  tt_subject_time :: int
  tt_reference_delta :: u32
  tt_subject_delta :: u32

definition transform_of_function :: "timeline_function \<Rightarrow> timeline_transform" where
  "transform_of_function f =
     \<lparr>tt_reference_time = reference_time f, tt_subject_time = subject_time f,
      tt_reference_delta = reference_delta (rate f), tt_subject_delta = subject_delta (rate f)\<rparr>"

definition function_of_transform :: "timeline_transform option \<Rightarrow> timeline_function option" where
  "function_of_transform input =
     (case input of
        None \<Rightarrow> Some default_function
      | Some t \<Rightarrow> mk_function (tt_reference_time t) (tt_subject_time t)
                             (tt_reference_delta t) (tt_subject_delta t))"

section \<open>The mathematical function\<close>

definition tf_ideal :: "timeline_function \<Rightarrow> int \<Rightarrow> int" where
  "tf_ideal f x = subject_time f +
     (x - reference_time f) * uint (subject_delta (rate f)) div uint (reference_delta (rate f))"

text \<open>Every intermediate value of an application stays inside \<open>int64_t\<close>.\<close>

definition tf_fits :: "timeline_function \<Rightarrow> int \<Rightarrow> bool" where
  "tf_fits f x \<longleftrightarrow> in_i64 (x - reference_time f) \<and>
     i64_min < tf_ideal f x - subject_time f \<and> tf_ideal f x - subject_time f \<le> i64_max \<and>
     in_i64 (tf_ideal f x)"

definition tf_ok :: "timeline_function \<Rightarrow> bool" where
  "tf_ok f \<longleftrightarrow> rate_ok (rate f)"

lemma rate_ok_default [simp]: "rate_ok default_rate"
  by (simp add: rate_ok_def default_rate_def)

lemma tf_ok_default [simp]: "tf_ok default_function"
  by (simp add: tf_ok_def default_function_def)

lemma rate_scale_in_range:
  assumes "reference_delta t \<noteq> 0" "in_i64 v"
    and "i64_min < v * uint (subject_delta t) div uint (reference_delta t)"
    and "v * uint (subject_delta t) div uint (reference_delta t) \<le> i64_max"
  shows "rate_scale t v = Some (v * uint (subject_delta t) div uint (reference_delta t))"
proof -
  have "scale_deltas v (subject_delta t) (reference_delta t) =
      Some (scale_ideal v (subject_delta t) (reference_delta t))"
    using assms scale_deltas_core nonneg_core neg_core by (cases "0 \<le> v") auto
  then show ?thesis using assms(3,4) by (simp add: rate_scale_def scale_ideal_def in_i64_def)
qed

lemma tf_apply_fits:
  assumes "tf_ok f" "tf_fits f x"
  shows "tf_apply f x = Some (tf_ideal f x)"
proof -
  have "rate_scale (rate f) (x - reference_time f) = Some (tf_ideal f x - subject_time f)"
    using assms rate_scale_in_range [of "rate f" "x - reference_time f"]
    by (simp add: tf_ok_def rate_ok_def tf_fits_def tf_ideal_def)
  then show ?thesis
    using assms(2) by (simp add: tf_apply_def apply_at_def i64_sub_def i64_add_def tf_fits_def)
qed

lemma tf_inverse_ok:
  assumes "tf_ok f" "subject_delta (rate f) \<noteq> 0"
  shows "tf_inverse f = Some \<lparr>reference_time = subject_time f, subject_time = reference_time f,
      rate = \<lparr>subject_delta = reference_delta (rate f), reference_delta = subject_delta (rate f)\<rparr>\<rparr>"
  using assms by (simp add: tf_inverse_def rate_inverse_def tf_ok_def rate_ok_def)

lemma tf_inverse_tf_ok:
  "tf_ok f \<Longrightarrow> subject_delta (rate f) \<noteq> 0 \<Longrightarrow> tf_inverse f = Some g \<Longrightarrow> tf_ok g"
  by (auto simp: tf_inverse_ok tf_ok_def rate_ok_def coprime_commute)

lemma tf_apply_inverse_eq:
  assumes "tf_inverse f = Some g"
  shows "tf_apply_inverse f = tf_apply g"
  using assms
  by (auto simp: fun_eq_iff tf_apply_inverse_def apply_inverse_at_def tf_inverse_def tf_apply_def
      rate_inverse_def)

lemma floor_round_trip:
  fixes d s r :: int
  assumes "0 < s" "0 < r"
  defines "q \<equiv> d * s div r"
  shows "q * r div s \<le> d \<and> (d - q * r div s) * s < r + s"
proof -
  have q: "q * r \<le> d * s" "d * s < q * r + r"
    using assms div_mult_mod_eq [of "d * s" r] pos_mod_bound [of r "d * s"] pos_mod_sign [of r "d * s"]
    unfolding q_def by linarith+
  have e: "(q * r div s) * s \<le> q * r" "q * r < (q * r div s) * s + s"
    using assms div_mult_mod_eq [of "q * r" s] pos_mod_bound [of s "q * r"] pos_mod_sign [of s "q * r"]
    by linarith+
  have "(q * r div s) * s \<le> d * s" using q e by linarith
  then have "q * r div s \<le> d" using assms(1) by simp
  moreover have "(d - q * r div s) * s < r + s"
    using q e by (simp add: left_diff_distrib)
  ultimately show ?thesis ..
qed

section \<open>Properties\<close>

text \<open>
  Where no intermediate value leaves \<open>int64_t\<close>, applying a timeline function gives the
  point of the line rounded down.
\<close>

theorem tf_apply_is_line:
  assumes "tf_ok f" and "tf_fits f x"
  shows "tf_apply f x = Some (subject_time f + (x - reference_time f) *
      uint (subject_delta (rate f)) div uint (reference_delta (rate f)))"
  using tf_apply_fits [OF assms] by (simp add: tf_ideal_def)

theorem tf_apply_is_line_witness:
  "tf_apply \<lparr>reference_time = 10, subject_time = 5,
      rate = \<lparr>subject_delta = 3, reference_delta = 2\<rparr>\<rparr> 7 = Some 0"
  using tf_apply_is_line [of "\<lparr>reference_time = 10, subject_time = 5,
      rate = \<lparr>subject_delta = 3, reference_delta = 2\<rparr>\<rparr>" 7]
  by (simp add: tf_ok_def rate_ok_def tf_fits_def tf_ideal_def in_i64_def)

text \<open>
  C36. Mapping a time forward and back loses less than one step of the coarser timeline: the
  inverse never overshoots, and undershoots by less than \<open>1 + reference_delta / subject_delta\<close>.
\<close>

theorem tf_inverse_round_trip:
  assumes "tf_ok f" and "subject_delta (rate f) \<noteq> 0" and "tf_inverse f = Some g"
    and "tf_fits f x" and "tf_apply f x = Some y" and "tf_fits g y"
  shows "\<exists>x'. tf_apply_inverse f y = Some x' \<and> x' \<le> x \<and>
    (x - x') * uint (subject_delta (rate f)) < uint (reference_delta (rate f)) + uint (subject_delta (rate f))"
proof -
  let ?s = "uint (subject_delta (rate f))" and ?r = "uint (reference_delta (rate f))"
  have pos: "0 < ?s" "0 < ?r"
    using assms(1,2) unfolding tf_ok_def rate_ok_def
    by (simp_all add: order_less_le uint_0_iff)
  have g: "g = \<lparr>reference_time = subject_time f, subject_time = reference_time f,
      rate = \<lparr>subject_delta = reference_delta (rate f), reference_delta = subject_delta (rate f)\<rparr>\<rparr>"
    using assms(3) tf_inverse_ok [OF assms(1,2)] by simp
  have y: "y = tf_ideal f x" using assms(5) tf_apply_fits [OF assms(1,4)] by simp
  have "tf_apply_inverse f y = Some (tf_ideal g y)"
    using tf_apply_inverse_eq [OF assms(3)] tf_apply_fits [OF tf_inverse_tf_ok assms(6)] assms(1-3) by simp
  moreover have "tf_ideal g y = reference_time f + ((x - reference_time f) * ?s div ?r) * ?r div ?s"
    unfolding y g by (simp add: tf_ideal_def)
  ultimately show ?thesis
    using floor_round_trip [OF pos, of "x - reference_time f"] by (auto simp: algebra_simps)
qed

theorem tf_inverse_round_trip_witness:
  "\<exists>x'. tf_apply_inverse \<lparr>reference_time = 0, subject_time = 100,
      rate = \<lparr>subject_delta = 2, reference_delta = 3\<rparr>\<rparr> 106 = Some x' \<and> x' \<le> 10 \<and> (10 - x') * 2 < 5"
  using tf_inverse_round_trip [of "\<lparr>reference_time = 0, subject_time = 100,
      rate = \<lparr>subject_delta = 2, reference_delta = 3\<rparr>\<rparr>" "\<lparr>reference_time = 100, subject_time = 0,
      rate = \<lparr>subject_delta = 3, reference_delta = 2\<rparr>\<rparr>" 10 106]
  by (simp add: tf_ok_def rate_ok_def tf_fits_def tf_ideal_def in_i64_def tf_inverse_ok tf_apply_fits)

text \<open>
  When the scaled difference overflows, \<open>Apply\<close> adds the subject time to \<open>kOverflow\<close>: with a
  negative subject time the result is another in-range value than \<open>kOverflow\<close>, with a positive
  one the addition overflows (undefined behaviour).
\<close>

theorem tf_apply_overflow_not_reported:
  assumes "in_i64 (x - reference_time f)"
    and "rate_scale (rate f) (x - reference_time f) = Some kOverflow"
    and "in_i64 (subject_time f)"
  shows "tf_apply f x = (if 0 < subject_time f then None else Some (kOverflow + subject_time f))"
  using assms by (simp add: tf_apply_def apply_at_def i64_sub_def i64_add_def in_i64_def)

theorem tf_apply_overflow_not_reported_witness:
  "tf_apply \<lparr>reference_time = 0, subject_time = - 1,
      rate = \<lparr>subject_delta = 2, reference_delta = 1\<rparr>\<rparr> i64_max = Some (kOverflow - 1)"
proof -
  have "scale_deltas i64_max 2 1 = Some kOverflow" by code_simp
  then show ?thesis
    using tf_apply_overflow_not_reported [of i64_max "\<lparr>reference_time = 0, subject_time = - 1,
      rate = \<lparr>subject_delta = 2, reference_delta = 1\<rparr>\<rparr>"]
    by (simp add: in_i64_def rate_scale_def)
qed

text \<open>
  A function survives the conversion to the fidl transform and back; a null transform
  becomes the default function.
\<close>

theorem transform_round_trip:
  assumes "tf_ok f"
  shows "function_of_transform (Some (transform_of_function f)) = Some f \<and>
    function_of_transform None = Some default_function"
  using assms mk_rate_coprime [of "reference_delta (rate f)" "subject_delta (rate f)"]
  by (simp add: function_of_transform_def transform_of_function_def mk_function_def tf_ok_def rate_ok_def)

theorem transform_round_trip_witness:
  "function_of_transform (Some (transform_of_function \<lparr>reference_time = 1, subject_time = 2,
      rate = \<lparr>subject_delta = 2, reference_delta = 1\<rparr>\<rparr>)) = Some \<lparr>reference_time = 1, subject_time = 2,
      rate = \<lparr>subject_delta = 2, reference_delta = 1\<rparr>\<rparr>"
  using transform_round_trip [of "\<lparr>reference_time = 1, subject_time = 2,
      rate = \<lparr>subject_delta = 2, reference_delta = 1\<rparr>\<rparr>"]
  by (simp add: tf_ok_def rate_ok_def)

end
