(* ===== verification/Async_Util.thy ===== *)
theory Async_Util
  imports Media_Prelude "HOL-Library.Multiset"
begin

text \<open>
  The asynchronous helpers of src/util: \<open>Incident\<close> (and \<open>ThreadsafeIncident\<close>, whose
  critical sections are the same assignments), \<open>CallbackJoiner\<close> and \<open>FidlPublisher\<close>.

  A \<open>std::function\<close> is code that may call back into the object that runs it. The
  consequences of an incident are therefore finite programs over the incident's own
  operations plus \<open>Note n\<close>, which stands for everything else the code does and leaves \<open>n\<close> in
  a log; \<open>run_incident\<close> executes a stack of such statements with C++'s call order. The
  callbacks of the other two classes are only ever handed back by an operation, so they are
  values of a type variable.
\<close>

section \<open>Incident\<close>

datatype stmt = Note nat | When_do "stmt list" | Occur_do | Reset_do

record incident =
  occurred :: bool
  consequences :: "stmt list list"

definition new_incident :: incident where
  "new_incident = \<lparr>occurred = False, consequences = []\<rparr>"

text \<open>Each operation returns the code it runs before it returns.\<close>

definition incident_when :: "stmt list \<Rightarrow> incident \<Rightarrow> stmt list \<times> incident" where
  "incident_when c i =
     (if occurred i then (c, i) else ([], i\<lparr>consequences := consequences i @ [c]\<rparr>))"

definition incident_occur :: "incident \<Rightarrow> stmt list \<times> incident" where
  "incident_occur i =
     (if occurred i then ([], i)
      else (concat (consequences i), i\<lparr>occurred := True, consequences := []\<rparr>))"

definition incident_reset :: "incident \<Rightarrow> incident" where
  "incident_reset i = i\<lparr>occurred := False, consequences := []\<rparr>"

definition incident_step :: "stmt \<Rightarrow> incident \<Rightarrow> stmt list \<times> incident \<times> nat list" where
  "incident_step s i = (case s of
     Note n \<Rightarrow> ([], i, [n])
   | When_do c \<Rightarrow> (case incident_when c i of (code, i') \<Rightarrow> (code, i', []))
   | Occur_do \<Rightarrow> (case incident_occur i of (code, i') \<Rightarrow> (code, i', []))
   | Reset_do \<Rightarrow> ([], incident_reset i, []))"

text \<open>The work left: statements to run and statements held by the incident.\<close>

fun stmt_work :: "stmt \<Rightarrow> nat" where
  "stmt_work (When_do c) = Suc (sum_list (map stmt_work c))"
| "stmt_work _ = 1"

abbreviation code_work :: "stmt list \<Rightarrow> nat" where
  "code_work c \<equiv> sum_list (map stmt_work c)"

definition held_work :: "incident \<Rightarrow> nat" where
  "held_work i = code_work (concat (consequences i))"

lemma incident_step_work:
  "incident_step s i = (code, i', out) \<Longrightarrow>
     code_work code + held_work i' < stmt_work s + held_work i"
  by (cases s) (auto simp: incident_step_def incident_when_def incident_occur_def
      incident_reset_def held_work_def split: if_splits)

function run_incident :: "stmt list \<Rightarrow> incident \<Rightarrow> incident \<times> nat list" where
  "run_incident [] i = (i, [])"
| "run_incident (s # k) i =
     (case incident_step s i of (code, i', out) \<Rightarrow>
        (case run_incident (code @ k) i' of (i'', log) \<Rightarrow> (i'', out @ log)))"
  by pat_completeness auto
termination
proof (relation "measure (\<lambda>(k, i). code_work k + held_work i)")
  fix s k i code i' out x y
  assume "(code, y) = incident_step s i" "(i', out) = y"
  then show "((code @ k, i'), s # k, i) \<in> measure (\<lambda>(k, i). code_work k + held_work i)"
    using incident_step_work [of s i code i' out] by simp
qed simp

definition incident_wf :: "incident \<Rightarrow> bool" where
  "incident_wf i \<longleftrightarrow> (occurred i \<longrightarrow> consequences i = [])"

lemma new_incident_wf [simp]: "incident_wf new_incident"
  by (simp add: incident_wf_def new_incident_def)

lemma incident_step_wf: "incident_step s i = (code, i', out) \<Longrightarrow> incident_wf i \<Longrightarrow> incident_wf i'"
  by (cases s) (auto simp: incident_step_def incident_when_def incident_occur_def
      incident_reset_def incident_wf_def split: if_splits)

lemma run_incident_wf: "incident_wf i \<Longrightarrow> incident_wf (fst (run_incident k i))"
proof (induction k i rule: run_incident.induct)
  case (2 s k i)
  obtain code i' out where s: "incident_step s i = (code, i', out)" by (metis prod_cases3)
  show ?case using 2 s incident_step_wf [OF s] by (auto split: prod.splits)
qed simp

text \<open>The notes a piece of code will leave, nested consequences included, in any order.\<close>

fun stmt_notes :: "stmt \<Rightarrow> nat multiset" where
  "stmt_notes (Note n) = {#n#}"
| "stmt_notes (When_do c) = sum_list (map stmt_notes c)"
| "stmt_notes _ = {#}"

abbreviation code_notes :: "stmt list \<Rightarrow> nat multiset" where
  "code_notes c \<equiv> sum_list (map stmt_notes c)"

definition held_notes :: "incident \<Rightarrow> nat multiset" where
  "held_notes i = code_notes (concat (consequences i))"

fun resets :: "stmt \<Rightarrow> bool" where
  "resets Reset_do \<longleftrightarrow> True"
| "resets (When_do c) \<longleftrightarrow> list_ex resets c"
| "resets _ \<longleftrightarrow> False"

definition no_resets :: "stmt list \<Rightarrow> incident \<Rightarrow> bool" where
  "no_resets k i \<longleftrightarrow> \<not> list_ex resets k \<and> \<not> list_ex resets (concat (consequences i))"

lemma incident_step_notes:
  "incident_step s i = (code, i', out) \<Longrightarrow> \<not> resets s \<Longrightarrow>
     mset out + code_notes code + held_notes i' = stmt_notes s + held_notes i"
  by (cases s) (auto simp: incident_step_def incident_when_def incident_occur_def
      held_notes_def add_ac split: if_splits)

lemma incident_step_no_resets:
  "incident_step s i = (code, i', out) \<Longrightarrow> no_resets (s # k) i \<Longrightarrow> no_resets (code @ k) i'"
  by (cases s) (auto simp: incident_step_def incident_when_def incident_occur_def
      no_resets_def list_ex_iff split: if_splits)

lemma run_incident_notes:
  "no_resets k i \<Longrightarrow> run_incident k i = (i', log) \<Longrightarrow>
     mset log + held_notes i' = code_notes k + held_notes i"
proof (induction k i arbitrary: i' log rule: run_incident.induct)
  case (2 s k i)
  obtain code i1 out where s: "incident_step s i = (code, i1, out)" by (metis prod_cases3)
  obtain log1 where r: "run_incident (code @ k) i1 = (i', log1)" "log = out @ log1"
    using 2(3) s by (auto split: prod.splits)
  have IH: "mset log1 + held_notes i' = code_notes (code @ k) + held_notes i1"
    using 2(1) [OF s [symmetric] refl incident_step_no_resets [OF s 2(2)] r(1)] .
  have step: "mset out + code_notes code + held_notes i1 = stmt_notes s + held_notes i"
    using incident_step_notes [OF s] 2(2) by (simp add: no_resets_def)
  have "mset log + held_notes i' = mset out + (mset log1 + held_notes i')"
    unfolding r(2) mset_append by (rule add.assoc)
  also have "\<dots> = (mset out + code_notes code + held_notes i1) + code_notes k"
    unfolding IH by (simp only: map_append sum_list_append ac_simps)
  also have "\<dots> = code_notes (s # k) + held_notes i"
    unfolding step by (simp only: list.map sum_list.Cons ac_simps)
  finally show ?case .
qed simp

lemma incident_step_stays:
  "incident_step s i = (code, i', out) \<Longrightarrow> \<not> resets s \<Longrightarrow> occurred i \<Longrightarrow> occurred i'"
  by (cases s) (auto simp: incident_step_def incident_when_def incident_occur_def split: if_splits)

lemma run_incident_stays:
  "no_resets k i \<Longrightarrow> occurred i \<Longrightarrow> occurred (fst (run_incident k i))"
proof (induction k i rule: run_incident.induct)
  case (2 s k i)
  obtain code i' out where s: "incident_step s i = (code, i', out)" by (metis prod_cases3)
  show ?case
    using 2 s incident_step_no_resets [OF s, of k] incident_step_stays [OF s]
    by (auto simp: no_resets_def split: prod.splits)
qed simp

section \<open>CallbackJoiner\<close>

record 'cb joiner =
  counter :: u64
  join_callback :: "'cb option"

definition new_joiner :: "'cb joiner" where
  "new_joiner = \<lparr>counter = 0, join_callback = None\<rparr>"

definition joiner_spawn :: "'cb joiner \<Rightarrow> 'cb joiner" where
  "joiner_spawn j = j\<lparr>counter := counter j + 1\<rparr>"

text \<open>The callback an operation calls before it returns is part of its result.\<close>

definition joiner_complete :: "'cb joiner \<Rightarrow> ('cb list \<times> 'cb joiner) option" where
  "joiner_complete j = do {
     dcheck (counter j \<noteq> 0);
     let j' = j\<lparr>counter := counter j - 1\<rparr>;
     Some (if counter j' = 0 then
             (case join_callback j' of
                Some cb \<Rightarrow> ([cb], j'\<lparr>join_callback := None\<rparr>)
              | None \<Rightarrow> ([], j'))
           else ([], j'))
   }"

definition joiner_when_joined :: "'cb \<Rightarrow> 'cb joiner \<Rightarrow> ('cb list \<times> 'cb joiner) option" where
  "joiner_when_joined cb j = do {
     dcheck (join_callback j = None);
     Some (if counter j = 0 then ([cb], j) else ([], j\<lparr>join_callback := Some cb\<rparr>))
   }"

definition joiner_cancel :: "'cb joiner \<Rightarrow> bool \<times> 'cb joiner" where
  "joiner_cancel j = (join_callback j \<noteq> None, j\<lparr>join_callback := None\<rparr>)"

datatype 'cb joiner_op = Spawn | Complete | WhenJoined 'cb | Cancel

fun joiner_run :: "'cb joiner_op list \<Rightarrow> 'cb joiner \<Rightarrow> ('cb list \<times> 'cb joiner) option" where
  "joiner_run [] j = Some ([], j)"
| "joiner_run (Spawn # ops) j = joiner_run ops (joiner_spawn j)"
| "joiner_run (Complete # ops) j = do {
     (out, j1) \<leftarrow> joiner_complete j; (out', j2) \<leftarrow> joiner_run ops j1; Some (out @ out', j2) }"
| "joiner_run (WhenJoined cb # ops) j = do {
     (out, j1) \<leftarrow> joiner_when_joined cb j; (out', j2) \<leftarrow> joiner_run ops j1; Some (out @ out', j2) }"
| "joiner_run (Cancel # ops) j = joiner_run ops (snd (joiner_cancel j))"

definition joiner_wf :: "'cb joiner \<Rightarrow> bool" where
  "joiner_wf j \<longleftrightarrow> (join_callback j \<noteq> None \<longrightarrow> counter j \<noteq> 0)"

section \<open>FidlPublisher\<close>

record 'cb publisher =
  version :: u64
  pending_callbacks :: "'cb list"

definition new_publisher :: "'cb publisher" where
  "new_publisher = \<lparr>version = 1, pending_callbacks = []\<rparr>"

text \<open>The runs of the callback runner: a callback and the version it is given.\<close>

definition publisher_get :: "u64 \<Rightarrow> 'cb \<Rightarrow> 'cb publisher \<Rightarrow> ('cb \<times> u64) list \<times> 'cb publisher" where
  "publisher_get version_last_seen cb p =
     (if version_last_seen < version p then ([(cb, version p)], p)
      else ([], p\<lparr>pending_callbacks := pending_callbacks p @ [cb]\<rparr>))"

definition send_updates :: "'cb publisher \<Rightarrow> ('cb \<times> u64) list \<times> 'cb publisher" where
  "send_updates p =
     (let v = version p + 1
      in (map (\<lambda>cb. (cb, v)) (pending_callbacks p), p\<lparr>version := v, pending_callbacks := []\<rparr>))"

datatype 'cb publisher_op = Get u64 'cb | SendUpdates

fun publisher_run :: "'cb publisher_op list \<Rightarrow> 'cb publisher \<Rightarrow> ('cb \<times> u64) list \<times> 'cb publisher" where
  "publisher_run [] p = ([], p)"
| "publisher_run (Get v cb # ops) p =
     (let (out, p1) = publisher_get v cb p; (out', p2) = publisher_run ops p1 in (out @ out', p2))"
| "publisher_run (SendUpdates # ops) p =
     (let (out, p1) = send_updates p; (out', p2) = publisher_run ops p1 in (out @ out', p2))"

section \<open>Lemmas on joiners and publishers\<close>

fun joiner_callbacks :: "'cb joiner_op list \<Rightarrow> 'cb multiset" where
  "joiner_callbacks [] = {#}"
| "joiner_callbacks (WhenJoined cb # ops) = {#cb#} + joiner_callbacks ops"
| "joiner_callbacks (_ # ops) = joiner_callbacks ops"

fun spawns :: "'cb joiner_op list \<Rightarrow> nat" where
  "spawns [] = 0"
| "spawns (Spawn # ops) = Suc (spawns ops)"
| "spawns (_ # ops) = spawns ops"

fun completes :: "'cb joiner_op list \<Rightarrow> nat" where
  "completes [] = 0"
| "completes (Complete # ops) = Suc (completes ops)"
| "completes (_ # ops) = completes ops"

definition held_callback :: "'cb joiner \<Rightarrow> 'cb multiset" where
  "held_callback j = (case join_callback j of None \<Rightarrow> {#} | Some cb \<Rightarrow> {#cb#})"

lemma unat_add_1: "unat (w :: u64) + 1 < 2 ^ 64 \<Longrightarrow> unat (w + 1) = unat w + 1"
  by (subst unat_plus_simple [THEN iffD1]) (auto simp: word_le_nat_alt unat_word_ariths)

lemma unat_sub_1: "(w :: u64) \<noteq> 0 \<Longrightarrow> unat w = Suc (unat (w - 1))"
  using unat_minus_one [of w] unat_gt_0 [of w] by linarith

lemma joiner_complete_cases:
  assumes "joiner_complete j = Some (out, j')" "joiner_wf j"
  shows "joiner_wf j' \<and> mset out + held_callback j' = held_callback j \<and>
    unat (counter j) = Suc (unat (counter j'))"
  using assms unat_sub_1 [of "counter j"]
  by (auto simp: joiner_complete_def joiner_wf_def held_callback_def bind_Some_iff Let_def
      split: if_splits option.splits)

lemma joiner_run_correct:
  "joiner_run ops j = Some (out, j') \<Longrightarrow> joiner_wf j \<Longrightarrow> unat (counter j) + spawns ops < 2 ^ 64 \<Longrightarrow>
     joiner_wf j' \<and> unat (counter j) + spawns ops = unat (counter j') + completes ops \<and>
     mset out + held_callback j' \<subseteq># joiner_callbacks ops + held_callback j \<and>
     (Cancel \<notin> set ops \<longrightarrow> mset out + held_callback j' = joiner_callbacks ops + held_callback j)"
proof (induction ops arbitrary: j out)
  case (Cons x ops)
  show ?case
  proof (cases x)
    case Spawn
    have "unat (counter j + 1) = unat (counter j) + 1" using Cons.prems Spawn by (intro unat_add_1) simp
    moreover then have "counter j + 1 \<noteq> 0" by (metis Suc_eq_plus1 nat.distinct(1) unat_0)
    then have "joiner_wf (joiner_spawn j)" by (simp add: joiner_wf_def joiner_spawn_def)
    ultimately show ?thesis
      using Cons.IH [of "joiner_spawn j" out] Cons.prems Spawn
      by (auto simp: joiner_spawn_def held_callback_def)
  next
    case Complete
    then obtain o1 j1 o2 where r: "joiner_complete j = Some (o1, j1)" "joiner_run ops j1 = Some (o2, j')"
      "out = o1 @ o2"
      using Cons.prems(1) by (auto simp: bind_Some_iff)
    have c: "joiner_wf j1" "mset o1 + held_callback j1 = held_callback j"
      "unat (counter j) = Suc (unat (counter j1))"
      using joiner_complete_cases [OF r(1) Cons.prems(2)] by auto
    have i: "joiner_wf j'" "unat (counter j1) + spawns ops = unat (counter j') + completes ops"
      "mset o2 + held_callback j' \<subseteq># joiner_callbacks ops + held_callback j1"
      "Cancel \<notin> set ops \<Longrightarrow> mset o2 + held_callback j' = joiner_callbacks ops + held_callback j1"
      using Cons.IH [OF r(2) c(1)] c(3) Cons.prems(3) Complete by auto
    have split: "mset out + held_callback j' = mset o1 + (mset o2 + held_callback j')"
      using r(3) by (simp add: add.assoc)
    have total: "mset o1 + (joiner_callbacks ops + held_callback j1) = joiner_callbacks ops + held_callback j"
      unfolding c(2) [symmetric] by (simp only: ac_simps)
    show ?thesis
      unfolding Complete split using i c(3) total
      by (auto simp flip: total)
  next
    case (WhenJoined cb)
    then obtain o1 j1 o2 where r: "joiner_when_joined cb j = Some (o1, j1)" "joiner_run ops j1 = Some (o2, j')"
      "out = o1 @ o2"
      using Cons.prems(1) by (auto simp: bind_Some_iff)
    have c: "joiner_wf j1" "mset o1 + held_callback j1 = {#cb#} + held_callback j" "counter j1 = counter j"
      using r(1) by (auto simp: joiner_when_joined_def held_callback_def joiner_wf_def split: if_splits)
    have i: "joiner_wf j'" "unat (counter j1) + spawns ops = unat (counter j') + completes ops"
      "mset o2 + held_callback j' \<subseteq># joiner_callbacks ops + held_callback j1"
      "Cancel \<notin> set ops \<Longrightarrow> mset o2 + held_callback j' = joiner_callbacks ops + held_callback j1"
      using Cons.IH [OF r(2) c(1)] c(3) Cons.prems(3) WhenJoined by auto
    have split: "mset out + held_callback j' = mset o1 + (mset o2 + held_callback j')"
      using r(3) by (simp add: add.assoc)
    have total: "mset o1 + (joiner_callbacks ops + held_callback j1) =
        joiner_callbacks (WhenJoined cb # ops) + held_callback j"
      using arg_cong [OF c(2), of "\<lambda>m. joiner_callbacks ops + m"] by (simp add: ac_simps)
    show ?thesis
      unfolding WhenJoined split total [symmetric] using i c(3) by auto
  next
    case Cancel
    then have "mset out + held_callback j' \<subseteq># joiner_callbacks ops \<and> joiner_wf j' \<and>
        unat (counter j) + spawns ops = unat (counter j') + completes ops"
      using Cons.IH [of "snd (joiner_cancel j)" out] Cons.prems
      by (auto simp: joiner_cancel_def joiner_wf_def held_callback_def)
    then show ?thesis
      using Cancel by (auto intro: subset_mset.order_trans)
  qed
qed simp

fun sends :: "'cb publisher_op list \<Rightarrow> nat" where
  "sends [] = 0"
| "sends (SendUpdates # ops) = Suc (sends ops)"
| "sends (_ # ops) = sends ops"

fun gets :: "'cb publisher_op list \<Rightarrow> 'cb multiset" where
  "gets [] = {#}"
| "gets (Get v cb # ops) = {#cb#} + gets ops"
| "gets (_ # ops) = gets ops"

text \<open>
  A client's callback carries the version it passed with the request; a version it has seen
  is one the publisher has reached.
\<close>

fun honest_gets :: "(u64 \<times> nat) publisher_op list \<Rightarrow> nat \<Rightarrow> bool" where
  "honest_gets [] n \<longleftrightarrow> True"
| "honest_gets (Get v cb # ops) n \<longleftrightarrow> fst cb = v \<and> unat v \<le> n \<and> honest_gets ops n"
| "honest_gets (SendUpdates # ops) n \<longleftrightarrow> honest_gets ops (Suc n)"

lemma publisher_run_correct:
  "publisher_run ops p = (out, p') \<Longrightarrow> unat (version p) + sends ops < 2 ^ 64 \<Longrightarrow>
     unat (version p') = unat (version p) + sends ops \<and>
     mset (map fst out) + mset (pending_callbacks p') = gets ops + mset (pending_callbacks p)"
proof (induction ops arbitrary: p out)
  case (Cons x ops)
  show ?case
  proof (cases x)
    case (Get v cb)
    obtain o1 p1 o2 where r: "publisher_get v cb p = (o1, p1)" "publisher_run ops p1 = (o2, p')" "out = o1 @ o2"
      using Cons.prems(1) Get by (auto split: prod.splits)
    have c: "version p1 = version p"
      "mset (map fst o1) + mset (pending_callbacks p1) = {#cb#} + mset (pending_callbacks p)"
      using r(1) by (auto simp: publisher_get_def split: if_splits)
    have i: "unat (version p') = unat (version p) + sends ops"
      "mset (map fst o2) + mset (pending_callbacks p') = gets ops + mset (pending_callbacks p1)"
      using Cons.IH [OF r(2)] Cons.prems(2) Get c(1) by auto
    have "mset (map fst out) + mset (pending_callbacks p') =
        mset (map fst o1) + (gets ops + mset (pending_callbacks p1))"
      unfolding i(2) [symmetric] r(3) by (simp add: add.assoc)
    also have "\<dots> = gets (x # ops) + mset (pending_callbacks p)"
      using arg_cong [OF c(2), of "\<lambda>m. gets ops + m"] Get by (simp add: ac_simps)
    finally show ?thesis using i(1) Get by simp
  next
    case SendUpdates
    obtain o1 p1 o2 where r: "send_updates p = (o1, p1)" "publisher_run ops p1 = (o2, p')" "out = o1 @ o2"
      using Cons.prems(1) SendUpdates by (auto split: prod.splits)
    have "unat (version p + 1) = unat (version p) + 1"
      using Cons.prems(2) SendUpdates by (intro unat_add_1) simp
    then have c: "unat (version p1) = Suc (unat (version p))" "pending_callbacks p1 = []"
      "map fst o1 = pending_callbacks p"
      using r(1) by (auto simp: send_updates_def Let_def comp_def)
    then show ?thesis
      using Cons.IH [OF r(2)] Cons.prems(2) SendUpdates r(3) by (auto simp: ac_simps)
  qed
qed auto

lemma publisher_run_fresh:
  "publisher_run ops p = (out, p') \<Longrightarrow> unat (version p) + sends ops < 2 ^ 64 \<Longrightarrow>
     honest_gets ops (unat (version p)) \<Longrightarrow>
     \<forall>cb \<in> set (pending_callbacks p). unat (fst cb) \<le> unat (version p) \<Longrightarrow>
     (cb, v) \<in> set out \<Longrightarrow> unat (fst cb) < unat v"
proof (induction ops arbitrary: p out)
  case (Cons x ops)
  show ?case
  proof (cases x)
    case (Get v' cb')
    obtain o1 p1 o2 where r: "publisher_get v' cb' p = (o1, p1)" "publisher_run ops p1 = (o2, p')" "out = o1 @ o2"
      using Cons.prems(1) Get by (auto split: prod.splits)
    then show ?thesis
      using Cons.IH [OF r(2)] Cons.prems Get
      by (auto simp: publisher_get_def word_less_nat_alt split: if_splits)
  next
    case SendUpdates
    obtain o1 p1 o2 where r: "send_updates p = (o1, p1)" "publisher_run ops p1 = (o2, p')" "out = o1 @ o2"
      using Cons.prems(1) SendUpdates by (auto split: prod.splits)
    have u: "unat (version p + 1) = unat (version p) + 1"
      using Cons.prems(2) SendUpdates by (intro unat_add_1) simp
    then show ?thesis
      using Cons.IH [OF r(2)] Cons.prems SendUpdates r by (fastforce simp: send_updates_def Let_def less_Suc_eq_le)
  qed
qed simp

section \<open>Properties\<close>

text \<open>Whatever the consequences of an \<open>Incident\<close> do to it (register more consequences,
  occur again), short of resetting it, everything registered runs exactly once, or is still
  held when the incident has not occurred; after \<open>Occur\<close> nothing is held back.\<close>

theorem incident_runs_everything_once:
  assumes "incident_wf i" "no_resets k i" "run_incident k i = (i', log)"
  shows "incident_wf i' \<and> mset log + held_notes i' = code_notes k + held_notes i \<and>
    (occurred i' \<longrightarrow> mset log = code_notes k + held_notes i)"
proof -
  have "incident_wf i'" using run_incident_wf [OF assms(1), of k] assms(3) by simp
  then show ?thesis
    using run_incident_notes [OF assms(2,3)] by (auto simp: incident_wf_def held_notes_def)
qed

theorem incident_runs_everything_once_witness:
  "mset [1, 3, 2, 4] =
    code_notes [When_do [Note 1, When_do [Note 3]], When_do [Note 2], Occur_do, Note 4] +
    held_notes new_incident"
proof -
  have "run_incident [When_do [Note 1, When_do [Note 3]], When_do [Note 2], Occur_do, Note 4] new_incident =
      (\<lparr>occurred = True, consequences = []\<rparr>, [1, 3, 2, 4])"
    by (simp add: new_incident_def incident_step_def incident_when_def incident_occur_def)
  from incident_runs_everything_once [OF _ _ this] show ?thesis
    by (simp add: new_incident_def no_resets_def incident_wf_def)
qed

text \<open>The consequences registered with an \<open>Incident\<close> that has not occurred run during the
  call to \<open>Occur\<close>, in the order in which they were added and before anything that follows the
  call, with the incident already marked as occurred and its list detached; a second \<open>Occur\<close>
  is ignored.\<close>

theorem incident_occur_in_order:
  assumes "\<not> occurred i"
  shows "run_incident (map When_do cs @ Occur_do # k) i =
      run_incident (concat (consequences i) @ concat cs @ k) \<lparr>occurred = True, consequences = []\<rparr>"
  using assms
proof (induction cs arbitrary: i)
  case Nil
  then show ?case
    by (cases i) (simp add: incident_step_def incident_occur_def split: prod.splits)
next
  case (Cons c cs)
  have "run_incident (map When_do (c # cs) @ Occur_do # k) i =
      run_incident (map When_do cs @ Occur_do # k) (i\<lparr>consequences := consequences i @ [c]\<rparr>)"
    using Cons.prems by (simp add: incident_step_def incident_when_def split: prod.splits)
  also have "\<dots> = run_incident (concat (consequences i) @ concat (c # cs) @ k)
      \<lparr>occurred = True, consequences = []\<rparr>"
    using Cons.IH [of "i\<lparr>consequences := consequences i @ [c]\<rparr>"] Cons.prems by simp
  finally show ?case .
qed

theorem incident_occur_in_order_witness:
  "run_incident (map When_do [[Note 1], [Note 2]] @ Occur_do # [Occur_do]) new_incident =
      run_incident (concat (consequences new_incident) @ concat [[Note 1], [Note 2]] @ [Occur_do])
        \<lparr>occurred = True, consequences = []\<rparr>"
  by (rule incident_occur_in_order) (simp add: new_incident_def)

text \<open>\<open>CallbackJoiner\<close>: over any sequence of calls with fewer than \<open>2^64\<close> spawns that
  passes the class's debug checks, the counter is the number of children still running, no
  callback runs twice or out of thin air, and, when nothing is cancelled and every child has
  completed, every callback given to \<open>WhenJoined\<close> has run exactly once.\<close>

theorem joiner_joins_exactly_once:
  assumes "joiner_run ops new_joiner = Some (out, j)" "spawns ops < 2 ^ 64"
  shows "spawns ops = unat (counter j) + completes ops \<and> mset out \<subseteq># joiner_callbacks ops \<and>
    (Cancel \<notin> set ops \<longrightarrow> spawns ops = completes ops \<longrightarrow> mset out = joiner_callbacks ops)"
proof -
  have *: "joiner_wf j" "spawns ops = unat (counter j) + completes ops"
    "mset out + held_callback j \<subseteq># joiner_callbacks ops"
    "Cancel \<notin> set ops \<Longrightarrow> mset out + held_callback j = joiner_callbacks ops"
    using joiner_run_correct [OF assms(1)] assms(2)
    by (auto simp: new_joiner_def joiner_wf_def held_callback_def)
  have "held_callback j = {#}" if "spawns ops = completes ops"
  proof -
    have "counter j = 0" using *(2) that by (intro word_unat_eq_iff [THEN iffD2]) simp
    then show ?thesis using *(1) by (auto simp: joiner_wf_def held_callback_def)
  qed
  then show ?thesis
    using * subset_mset.order_trans [OF mset_subset_eq_add_left *(3)] by auto
qed

theorem joiner_joins_exactly_once_witness:
  "mset [7 :: nat, 8] =
    joiner_callbacks [Spawn, Spawn, Complete, WhenJoined 7, Complete, WhenJoined 8]"
proof -
  have "joiner_run [Spawn, Spawn, Complete, WhenJoined (7 :: nat), Complete, WhenJoined 8] new_joiner =
      Some ([7, 8], \<lparr>counter = 0, join_callback = None\<rparr>)"
    by (simp add: new_joiner_def joiner_spawn_def joiner_complete_def joiner_when_joined_def)
  from joiner_joins_exactly_once [OF this] show ?thesis by simp
qed

text \<open>\<open>FidlPublisher\<close>: every \<open>Get\<close> is answered exactly once or is still pending, an
  answer always carries a version newer than the one the client reported, and each
  \<open>SendUpdates\<close> raises the version by one, as long as the version does not pass \<open>2^64\<close>.\<close>

theorem publisher_answers_each_get_once:
  assumes "publisher_run ops new_publisher = (out, p)" "sends ops < 2 ^ 64 - 1" "honest_gets ops 1"
  shows "unat (version p) = 1 + sends ops \<and>
    mset (map fst out) + mset (pending_callbacks p) = gets ops \<and>
    (\<forall>(cb, v) \<in> set out. unat (fst cb) < unat v)"
  using publisher_run_correct [OF assms(1)] publisher_run_fresh [OF assms(1)] assms(2,3)
  by (auto simp: new_publisher_def)

theorem publisher_answers_each_get_once_witness:
  "mset (map fst [((0 :: u64, 5 :: nat), 1 :: u64), ((1, 6), 2)]) +
      mset (pending_callbacks (\<lparr>version = 2, pending_callbacks = []\<rparr> :: (u64 \<times> nat) publisher)) =
      gets [Get 0 (0, 5), Get 1 (1, 6), SendUpdates] \<and> unat (0 :: u64) < unat (1 :: u64)"
proof -
  have r: "publisher_run [Get 0 (0, 5), Get 1 (1, 6), SendUpdates] new_publisher =
      ([((0 :: u64, 5 :: nat), 1 :: u64), ((1, 6), 2)], \<lparr>version = 2, pending_callbacks = []\<rparr>)"
    by (simp add: new_publisher_def publisher_get_def send_updates_def)
  have "sends [Get 0 (0, 5), Get 1 (1, 6), SendUpdates :: (u64 \<times> nat) publisher_op] < 2 ^ 64 - 1"
    "honest_gets [Get 0 (0, 5), Get 1 (1, 6), SendUpdates] 1" by simp_all
  from publisher_answers_each_get_once [OF r this] show ?thesis by simp
qed

end
