(* ===== verification/Timeline_Control_Point.thy ===== *)
theory Timeline_Control_Point
  imports Timeline_Function Async_Util
begin

text \<open>
  \<open>TimelineControlPoint\<close> (src/util/timeline_control_point.h, .cc): the object through which
  a client schedules changes of a renderer's timeline function.

  Callbacks are identified by numbers, the fidl runtime and the task runner are made
  explicit: what is sent to a client is an event, and \<open>PostTask\<close> appends to the queue
  \<open>cp_tasks\<close>, whose first task \<open>cp_run_task\<close> takes. The clock (\<open>Timeline::local_now\<close>) is an
  argument; one call reads it once.
\<close>

section \<open>State\<close>

abbreviation kUnspecifiedTime :: int where "kUnspecifiedTime \<equiv> i64_max"

datatype cp_task = CallTransformCallback nat bool | SendUpdatesTask | ProgressStartedTask | ResetTask

datatype cp_event = TransformCompleted nat bool
  | StatusSent nat u64 timeline_transform bool
  | PrimeRequested int nat
  | PrimeCompleted nat
  | ProgressStarted

record control_point =
  cp_bound :: bool
  consumer_bound :: bool
  status_publisher :: "nat publisher"
  prime_requested_callback :: bool
  progress_started_callback :: bool
  cp_tasks :: "cp_task list"
  current_timeline_function :: timeline_function
  pending_timeline_function :: timeline_function
  set_timeline_transform_callback :: "nat option"
  cp_generation :: u32
  end_of_stream_pts :: int
  end_of_stream_published :: bool

definition post_task :: "cp_task \<Rightarrow> control_point \<Rightarrow> control_point" where
  "post_task t st = st\<lparr>cp_tasks := cp_tasks st @ [t]\<rparr>"

section \<open>Operations\<close>

definition clear_pending_timeline_function :: "bool \<Rightarrow> control_point \<Rightarrow> control_point option" where
  "clear_pending_timeline_function completed st = do {
     f \<leftarrow> mk_function kUnspecifiedTime kUnspecifiedTime 1 0;
     let st' = st\<lparr>pending_timeline_function := f\<rparr>;
     Some (case set_timeline_transform_callback st' of
        Some cb \<Rightarrow> post_task (CallTransformCallback cb completed)
                     (st'\<lparr>set_timeline_transform_callback := None\<rparr>)
      | None \<Rightarrow> st')
   }"

definition new_control_point :: "control_point option" where
  "new_control_point = clear_pending_timeline_function False
     \<lparr>cp_bound = False, consumer_bound = False, status_publisher = new_publisher,
      prime_requested_callback = False, progress_started_callback = False, cp_tasks = [],
      current_timeline_function = default_function, pending_timeline_function = default_function,
      set_timeline_transform_callback = None, cp_generation = 1,
      end_of_stream_pts = kUnspecifiedTime, end_of_stream_published = False\<rparr>"

definition timeline_function_pending :: "control_point \<Rightarrow> bool" where
  "timeline_function_pending st \<longleftrightarrow> reference_time (pending_timeline_function st) \<noteq> kUnspecifiedTime"

definition progressing_internal :: "control_point \<Rightarrow> bool" where
  "progressing_internal st \<longleftrightarrow> \<not> end_of_stream_published st \<and>
     (subject_delta (rate (current_timeline_function st)) \<noteq> 0 \<or>
      subject_delta (rate (pending_timeline_function st)) \<noteq> 0)"

definition reached_end_of_stream :: "int \<Rightarrow> control_point \<Rightarrow> bool option" where
  "reached_end_of_stream now st =
     (if end_of_stream_pts st \<noteq> kUnspecifiedTime
      then do { x \<leftarrow> tf_apply (current_timeline_function st) now; Some (x \<ge> end_of_stream_pts st) }
      else Some False)"

text \<open>The callback runner of the status publisher, on the callbacks it is run for.\<close>

fun run_status_callbacks :: "int \<Rightarrow> control_point \<Rightarrow> (nat \<times> u64) list \<Rightarrow> cp_event list option" where
  "run_status_callbacks now st [] = Some []"
| "run_status_callbacks now st ((cb, v) # runs) = do {
     eos \<leftarrow> reached_end_of_stream now st;
     es \<leftarrow> run_status_callbacks now st runs;
     Some (StatusSent cb v (transform_of_function (current_timeline_function st)) eos # es)
   }"

definition cp_send_updates :: "int \<Rightarrow> control_point \<Rightarrow> (cp_event list \<times> control_point) option" where
  "cp_send_updates now st =
     (let (runs, p) = send_updates (status_publisher st); st' = st\<lparr>status_publisher := p\<rparr>
      in do { es \<leftarrow> run_status_callbacks now st' runs; Some (es, st') })"

definition cp_get_status :: "u64 \<Rightarrow> nat \<Rightarrow> int \<Rightarrow> control_point \<Rightarrow> (cp_event list \<times> control_point) option" where
  "cp_get_status version_last_seen cb now st =
     (let (runs, p) = publisher_get version_last_seen cb (status_publisher st);
          st' = st\<lparr>status_publisher := p\<rparr>
      in do { es \<leftarrow> run_status_callbacks now st' runs; Some (es, st') })"

definition cp_bind :: "control_point \<Rightarrow> control_point" where
  "cp_bind st = st\<lparr>cp_bound := True\<rparr>"

definition cp_get_timeline_consumer :: "control_point \<Rightarrow> control_point" where
  "cp_get_timeline_consumer st = st\<lparr>consumer_bound := True\<rparr>"

definition cp_reset :: "int \<Rightarrow> control_point \<Rightarrow> (cp_event list \<times> control_point) option" where
  "cp_reset now st = do {
     let st1 = st\<lparr>cp_bound := False, consumer_bound := False,
                  current_timeline_function := default_function\<rparr>;
     st2 \<leftarrow> clear_pending_timeline_function False st1;
     cp_send_updates now (st2\<lparr>cp_generation := 1\<rparr>)
   }"

definition apply_pending_changes :: "int \<Rightarrow> control_point \<Rightarrow> control_point option" where
  "apply_pending_changes ref_time st =
     (if \<not> timeline_function_pending st \<or> reference_time (pending_timeline_function st) > ref_time
      then Some st
      else do {
        st1 \<leftarrow> clear_pending_timeline_function True
                 (st\<lparr>current_timeline_function := pending_timeline_function st\<rparr>);
        Some (post_task SendUpdatesTask (st1\<lparr>cp_generation := cp_generation st1 + 1\<rparr>))
      })"

definition snapshot_current_function ::
    "int \<Rightarrow> int \<Rightarrow> control_point \<Rightarrow> (timeline_function \<times> u32 \<times> control_point) option" where
  "snapshot_current_function ref_time now st = do {
     st1 \<leftarrow> apply_pending_changes ref_time st;
     eos \<leftarrow> reached_end_of_stream now st1;
     Some (current_timeline_function st1, cp_generation st1,
       if eos \<and> \<not> end_of_stream_published st1
       then post_task SendUpdatesTask (st1\<lparr>end_of_stream_published := True\<rparr>)
       else st1)
   }"

definition set_end_of_stream_pts :: "int \<Rightarrow> control_point \<Rightarrow> control_point" where
  "set_end_of_stream_pts pts st =
     (if end_of_stream_pts st \<noteq> pts
      then st\<lparr>end_of_stream_pts := pts, end_of_stream_published := False\<rparr> else st)"

definition clear_end_of_stream :: "control_point \<Rightarrow> control_point" where
  "clear_end_of_stream st =
     (if end_of_stream_pts st \<noteq> kUnspecifiedTime
      then st\<lparr>end_of_stream_pts := kUnspecifiedTime, end_of_stream_published := False\<rparr> else st)"

definition cp_prime :: "nat \<Rightarrow> control_point \<Rightarrow> cp_event list" where
  "cp_prime cb st =
     (if prime_requested_callback st
      then [PrimeRequested
              (if timeline_function_pending st then subject_time (pending_timeline_function st)
               else subject_time (current_timeline_function st)) cb]
      else [PrimeCompleted cb])"

definition set_timeline_transform ::
    "timeline_transform option \<Rightarrow> nat \<Rightarrow> int \<Rightarrow> control_point \<Rightarrow> control_point option" where
  "set_timeline_transform transform cb now st =
     (case transform of
        None \<Rightarrow> Some (post_task ResetTask st)
      | Some t \<Rightarrow>
          if tt_reference_delta t = 0 then Some (post_task ResetTask st)
          else do {
            let st1 = (if tt_subject_time t \<noteq> kUnspecifiedTime then clear_end_of_stream st else st);
            let was_progressing = progressing_internal st1;
            let rt = (if tt_reference_time t = kUnspecifiedTime then now else tt_reference_time t);
            sub \<leftarrow> (if tt_subject_time t = kUnspecifiedTime
                   then tf_apply (current_timeline_function st1) rt
                   else Some (tt_subject_time t));
            st2 \<leftarrow> clear_pending_timeline_function False st1;
            f \<leftarrow> mk_function rt sub (tt_reference_delta t) (tt_subject_delta t);
            let st3 = st2\<lparr>pending_timeline_function := f, set_timeline_transform_callback := Some cb\<rparr>;
            Some (if progress_started_callback st3 \<and> \<not> was_progressing \<and> progressing_internal st3
                  then post_task ProgressStartedTask st3 else st3)
          })"

definition cp_run_task :: "int \<Rightarrow> control_point \<Rightarrow> (cp_event list \<times> control_point) option" where
  "cp_run_task now st =
     (case cp_tasks st of
        [] \<Rightarrow> Some ([], st)
      | task # tasks \<Rightarrow>
          (let st' = st\<lparr>cp_tasks := tasks\<rparr> in
           case task of
             CallTransformCallback cb completed \<Rightarrow> Some ([TransformCompleted cb completed], st')
           | SendUpdatesTask \<Rightarrow> cp_send_updates now st'
           | ProgressStartedTask \<Rightarrow> Some (if progress_started_callback st' then [ProgressStarted] else [], st')
           | ResetTask \<Rightarrow> cp_reset now st'))"

section \<open>The calls a control point receives, in any order\<close>

datatype cp_call = Bind | GetConsumer | SetPrimeCallback bool | SetProgressCallback bool
  | Snapshot int | SetEndOfStream int | ClearEndOfStream | GetStatus u64 nat | Prime nat
  | SetTransform "timeline_transform option" nat | ResetCall | RunTask

definition cp_exec :: "int \<Rightarrow> cp_call \<Rightarrow> control_point \<Rightarrow> (cp_event list \<times> control_point) option" where
  "cp_exec now c st = (case c of
     Bind \<Rightarrow> Some ([], cp_bind st)
   | GetConsumer \<Rightarrow> Some ([], cp_get_timeline_consumer st)
   | SetPrimeCallback b \<Rightarrow> Some ([], st\<lparr>prime_requested_callback := b\<rparr>)
   | SetProgressCallback b \<Rightarrow> Some ([], st\<lparr>progress_started_callback := b\<rparr>)
   | Snapshot r \<Rightarrow> do { (f, g, st') \<leftarrow> snapshot_current_function r now st; Some ([], st') }
   | SetEndOfStream pts \<Rightarrow> Some ([], set_end_of_stream_pts pts st)
   | ClearEndOfStream \<Rightarrow> Some ([], clear_end_of_stream st)
   | GetStatus v cb \<Rightarrow> cp_get_status v cb now st
   | Prime cb \<Rightarrow> Some (cp_prime cb st, st)
   | SetTransform t cb \<Rightarrow> do { st' \<leftarrow> set_timeline_transform t cb now st; Some ([], st') }
   | ResetCall \<Rightarrow> cp_reset now st
   | RunTask \<Rightarrow> cp_run_task now st)"

text \<open>The reachable states, with the calls made and the events sent on the way.\<close>

inductive cp_reachable :: "cp_call list \<Rightarrow> cp_event list \<Rightarrow> control_point \<Rightarrow> bool" where
  cp_start: "new_control_point = Some st \<Longrightarrow> cp_reachable [] [] st"
| cp_call: "cp_reachable cs es st \<Longrightarrow> cp_exec now c st = Some (out, st') \<Longrightarrow>
    cp_reachable (cs @ [c]) (es @ out) st'"

section \<open>Accounting for the callbacks of accepted changes\<close>

fun accepted :: "cp_call \<Rightarrow> nat multiset" where
  "accepted (SetTransform (Some t) cb) = (if tt_reference_delta t = 0 then {#} else {#cb#})"
| "accepted _ = {#}"

fun completed :: "cp_event \<Rightarrow> nat multiset" where
  "completed (TransformCompleted cb b) = {#cb#}"
| "completed _ = {#}"

fun queued :: "cp_task \<Rightarrow> nat multiset" where
  "queued (CallTransformCallback cb b) = {#cb#}"
| "queued _ = {#}"

definition waiting :: "control_point \<Rightarrow> nat multiset" where
  "waiting st = (case set_timeline_transform_callback st of None \<Rightarrow> {#} | Some cb \<Rightarrow> {#cb#})"

definition outstanding :: "control_point \<Rightarrow> nat multiset" where
  "outstanding st = waiting st + sum_list (map queued (cp_tasks st))"

abbreviation msum :: "('a \<Rightarrow> nat multiset) \<Rightarrow> 'a list \<Rightarrow> nat multiset" where
  "msum f xs \<equiv> sum_list (map f xs)"

definition unspecified_function :: timeline_function where
  "unspecified_function = \<lparr>reference_time = kUnspecifiedTime, subject_time = kUnspecifiedTime,
     rate = \<lparr>subject_delta = 0, reference_delta = 1\<rparr>\<rparr>"

text \<open>The callback is held exactly while a change is pending; both functions are well formed.\<close>

definition cp_wf :: "control_point \<Rightarrow> bool" where
  "cp_wf st \<longleftrightarrow> tf_ok (current_timeline_function st) \<and> tf_ok (pending_timeline_function st) \<and>
     (set_timeline_transform_callback st = None \<longrightarrow> pending_timeline_function st = unspecified_function)"

lemma mk_function_unspecified:
  "mk_function kUnspecifiedTime kUnspecifiedTime 1 0 = Some unspecified_function"
  by (simp add: mk_function_def mk_rate_coprime unspecified_function_def)

lemma tf_ok_unspecified [simp]: "tf_ok unspecified_function"
  by (simp add: tf_ok_def rate_ok_def unspecified_function_def)

lemma mk_function_ok:
  assumes "rd \<noteq> 0"
  shows "\<exists>f. mk_function rt st rd sd = Some f \<and> tf_ok f \<and> reference_time f = rt \<and> subject_time f = st \<and>
    unat (subject_delta (rate f)) = unat sd div gcd (unat sd) (unat rd) \<and>
    unat (reference_delta (rate f)) = unat rd div gcd (unat sd) (unat rd)"
  using mk_rate_correct [OF assms, of sd] by (auto simp: mk_function_def tf_ok_def)

lemma post_task_simps [simp]:
  "outstanding (post_task t st) = outstanding st + queued t"
  "cp_wf (post_task t st) = cp_wf st"
  by (simp_all add: post_task_def outstanding_def waiting_def cp_wf_def add_ac)

lemma clear_pending_correct:
  "\<exists>st'. clear_pending_timeline_function b st = Some st' \<and> outstanding st' = outstanding st \<and>
     (tf_ok (current_timeline_function st) \<longrightarrow> cp_wf st') \<and>
     st' = st\<lparr>pending_timeline_function := unspecified_function, set_timeline_transform_callback := None,
       cp_tasks := cp_tasks st @ (case set_timeline_transform_callback st of None \<Rightarrow> []
         | Some cb \<Rightarrow> [CallTransformCallback cb b])\<rparr>"
  by (auto simp: clear_pending_timeline_function_def mk_function_unspecified Let_def post_task_def
      outstanding_def waiting_def cp_wf_def split: option.splits)

lemma outstanding_update [simp]:
  "outstanding (st\<lparr>status_publisher := p\<rparr>) = outstanding st"
  "outstanding (st\<lparr>cp_generation := g\<rparr>) = outstanding st"
  "outstanding (st\<lparr>current_timeline_function := f\<rparr>) = outstanding st"
  "outstanding (st\<lparr>end_of_stream_published := b\<rparr>) = outstanding st"
  "outstanding (st\<lparr>end_of_stream_pts := x\<rparr>) = outstanding st"
  "outstanding (st\<lparr>cp_bound := b\<rparr>) = outstanding st"
  "outstanding (st\<lparr>consumer_bound := b\<rparr>) = outstanding st"
  "outstanding (st\<lparr>prime_requested_callback := b\<rparr>) = outstanding st"
  "outstanding (st\<lparr>progress_started_callback := b\<rparr>) = outstanding st"
  by (simp_all add: outstanding_def waiting_def)

lemma cp_wf_update [simp]:
  "cp_wf (st\<lparr>status_publisher := p\<rparr>) = cp_wf st"
  "cp_wf (st\<lparr>cp_generation := g\<rparr>) = cp_wf st"
  "cp_wf (st\<lparr>end_of_stream_published := b\<rparr>) = cp_wf st"
  "cp_wf (st\<lparr>end_of_stream_pts := x\<rparr>) = cp_wf st"
  "cp_wf (st\<lparr>cp_bound := b\<rparr>) = cp_wf st"
  "cp_wf (st\<lparr>consumer_bound := b\<rparr>) = cp_wf st"
  "cp_wf (st\<lparr>prime_requested_callback := b\<rparr>) = cp_wf st"
  "cp_wf (st\<lparr>progress_started_callback := b\<rparr>) = cp_wf st"
  "cp_wf (st\<lparr>cp_tasks := ts\<rparr>) = cp_wf st"
  by (simp_all add: cp_wf_def)

lemma run_status_callbacks_completed:
  "run_status_callbacks now st runs = Some es \<Longrightarrow> msum completed es = {#}"
  by (induction runs arbitrary: es) (auto simp: bind_Some_iff)

lemma cp_send_updates_correct:
  assumes "cp_send_updates now st = Some (es, st')"
  shows "msum completed es = {#} \<and> outstanding st' = outstanding st \<and> cp_wf st' = cp_wf st"
  using assms
  by (auto simp: cp_send_updates_def Let_def bind_Some_iff run_status_callbacks_completed split: prod.splits)

lemma cp_get_status_correct:
  assumes "cp_get_status v cb now st = Some (es, st')"
  shows "msum completed es = {#} \<and> outstanding st' = outstanding st \<and> cp_wf st' = cp_wf st"
  using assms
  by (auto simp: cp_get_status_def Let_def bind_Some_iff run_status_callbacks_completed split: prod.splits)

lemma clear_pendingD:
  assumes "clear_pending_timeline_function b st = Some st'"
  shows "outstanding st' = outstanding st" "tf_ok (current_timeline_function st) \<Longrightarrow> cp_wf st'"
    "st' = st\<lparr>pending_timeline_function := unspecified_function, set_timeline_transform_callback := None,
       cp_tasks := cp_tasks st @ (case set_timeline_transform_callback st of None \<Rightarrow> []
         | Some cb \<Rightarrow> [CallTransformCallback cb b])\<rparr>"
  using clear_pending_correct [of b st] assms by auto

lemma cp_reset_correct:
  assumes "cp_reset now st = Some (es, st')"
  shows "msum completed es = {#} \<and> outstanding st' = outstanding st \<and> cp_wf st'"
proof -
  let ?st1 = "st\<lparr>cp_bound := False, consumer_bound := False, current_timeline_function := default_function\<rparr>"
  obtain st2 where st2: "clear_pending_timeline_function False ?st1 = Some st2"
    and send: "cp_send_updates now (st2\<lparr>cp_generation := 1\<rparr>) = Some (es, st')"
    using assms by (auto simp: cp_reset_def bind_Some_iff)
  have "outstanding st2 = outstanding st" using clear_pendingD(1) [OF st2] by simp
  moreover have "cp_wf st2" using clear_pendingD(2) [OF st2] by simp
  ultimately show ?thesis using cp_send_updates_correct [OF send] by simp
qed

lemma apply_pending_changes_correct:
  assumes "apply_pending_changes r st = Some st'" "cp_wf st"
  shows "outstanding st' = outstanding st \<and> cp_wf st'"
proof (cases "\<not> timeline_function_pending st \<or> reference_time (pending_timeline_function st) > r")
  case True
  then show ?thesis using assms by (simp add: apply_pending_changes_def)
next
  case False
  let ?st1 = "st\<lparr>current_timeline_function := pending_timeline_function st\<rparr>"
  obtain st2 where st2: "clear_pending_timeline_function True ?st1 = Some st2"
    "st' = post_task SendUpdatesTask (st2\<lparr>cp_generation := cp_generation st2 + 1\<rparr>)"
    using assms(1) False by (auto simp: apply_pending_changes_def bind_Some_iff)
  have "outstanding st2 = outstanding st" using clear_pendingD(1) [OF st2(1)] by simp
  moreover have "cp_wf st2" using clear_pendingD(2) [OF st2(1)] assms(2) by (simp add: cp_wf_def)
  ultimately show ?thesis using st2(2) by simp
qed

lemma snapshot_correct:
  assumes "snapshot_current_function r now st = Some (f, g, st')" "cp_wf st"
  shows "outstanding st' = outstanding st \<and> cp_wf st'"
  using assms apply_pending_changes_correct [of r st]
  by (auto simp: snapshot_current_function_def bind_Some_iff split: if_splits)

lemma clear_end_of_stream_correct [simp]:
  "outstanding (clear_end_of_stream st) = outstanding st"
  "cp_wf (clear_end_of_stream st) = cp_wf st"
  "current_timeline_function (clear_end_of_stream st) = current_timeline_function st"
  by (simp_all add: clear_end_of_stream_def)

lemma set_timeline_transform_correct:
  assumes "set_timeline_transform t cb now st = Some st'" "cp_wf st"
  shows "outstanding st' = outstanding st + accepted (SetTransform t cb) \<and> cp_wf st'"
proof (cases "t = None \<or> tt_reference_delta (the t) = 0")
  case True
  then show ?thesis using assms by (auto simp: set_timeline_transform_def split: option.splits)
next
  case False
  then obtain u where t: "t = Some u" "tt_reference_delta u \<noteq> 0" by auto
  define st1 where "st1 = (if tt_subject_time u \<noteq> kUnspecifiedTime then clear_end_of_stream st else st)"
  obtain rt sub st2 f where st2: "clear_pending_timeline_function False st1 = Some st2"
    and f: "mk_function rt sub (tt_reference_delta u) (tt_subject_delta u) = Some f"
    and st': "st' = st2\<lparr>pending_timeline_function := f, set_timeline_transform_callback := Some cb\<rparr> \<or>
      st' = post_task ProgressStartedTask
        (st2\<lparr>pending_timeline_function := f, set_timeline_transform_callback := Some cb\<rparr>)"
    using assms(1) t unfolding set_timeline_transform_def st1_def
    by (auto simp: bind_Some_iff Let_def split: if_splits)
  have o: "outstanding st2 = outstanding st"
    using clear_pendingD(1) [OF st2] by (simp add: st1_def split: if_splits)
  have w: "cp_wf st2" and n: "set_timeline_transform_callback st2 = None"
    using clear_pendingD(2,3) [OF st2] assms(2) by (auto simp: st1_def cp_wf_def split: if_splits)
  have "tf_ok f" using mk_function_ok [OF t(2), of rt sub "tt_subject_delta u"] f by auto
  then have "cp_wf (st2\<lparr>pending_timeline_function := f, set_timeline_transform_callback := Some cb\<rparr>)"
    using w by (simp add: cp_wf_def)
  moreover have "outstanding (st2\<lparr>pending_timeline_function := f, set_timeline_transform_callback := Some cb\<rparr>) =
      outstanding st + {#cb#}"
    unfolding o [symmetric] using n by (simp add: outstanding_def waiting_def)
  ultimately show ?thesis using st' t by auto
qed

lemma cp_run_task_correct:
  assumes "cp_run_task now st = Some (es, st')" "cp_wf st"
  shows "msum completed es + outstanding st' = outstanding st \<and> cp_wf st'"
proof (cases "cp_tasks st")
  case Nil
  then show ?thesis using assms by (simp add: cp_run_task_def)
next
  case (Cons task tasks)
  let ?st = "st\<lparr>cp_tasks := tasks\<rparr>"
  have o: "outstanding st = outstanding ?st + queued task"
    using Cons by (simp add: outstanding_def waiting_def add_ac)
  show ?thesis
    using assms Cons o cp_send_updates_correct [of now ?st es st'] cp_reset_correct [of now ?st es st']
    by (cases task) (auto simp: cp_run_task_def)
qed

lemma cp_exec_correct:
  assumes "cp_exec now c st = Some (es, st')" "cp_wf st"
  shows "msum completed es + outstanding st' = outstanding st + accepted c \<and> cp_wf st'"
proof (cases c)
  case (Snapshot r)
  then show ?thesis using assms snapshot_correct by (auto simp: cp_exec_def bind_Some_iff)
next
  case (SetTransform t cb)
  then show ?thesis using assms set_timeline_transform_correct by (auto simp: cp_exec_def bind_Some_iff)
next
  case ResetCall
  then show ?thesis using assms cp_reset_correct by (auto simp: cp_exec_def)
next
  case RunTask
  then show ?thesis using assms cp_run_task_correct by (auto simp: cp_exec_def)
next
  case (GetStatus v cb)
  then show ?thesis using assms cp_get_status_correct by (auto simp: cp_exec_def)
qed (use assms in \<open>auto simp: cp_exec_def cp_bind_def cp_get_timeline_consumer_def
       set_end_of_stream_pts_def cp_prime_def\<close>)

lemma new_control_point_correct:
  assumes "new_control_point = Some st"
  shows "outstanding st = {#} \<and> cp_wf st"
  using clear_pendingD [OF assms [unfolded new_control_point_def]] by (simp add: outstanding_def waiting_def)

lemma cp_reachable_correct:
  "cp_reachable cs es st \<Longrightarrow> cp_wf st \<and> msum completed es + outstanding st = msum accepted cs"
proof (induction rule: cp_reachable.induct)
  case (cp_start st)
  then show ?case using new_control_point_correct by simp
next
  case (cp_call cs es st now c out st')
  have c: "msum completed out + outstanding st' = outstanding st + accepted c" "cp_wf st'"
    using cp_exec_correct [OF cp_call.hyps(2)] cp_call.IH by auto
  have "msum completed (es @ out) + outstanding st' =
      msum completed es + (msum completed out + outstanding st')"
    by (simp add: add.assoc)
  also have "\<dots> = msum accepted (cs @ [c])"
    unfolding c(1) using cp_call.IH by (simp add: add.assoc [symmetric])
  finally show ?case using c(2) by simp
qed

lemma set_transform_unfold:
  assumes "cp_wf st" "tt_reference_delta t \<noteq> 0" "rt = (if tt_reference_time t = kUnspecifiedTime then now else tt_reference_time t)"
    "set_timeline_transform (Some t) cb now st = Some st'"
  shows "\<exists>sub f. (if tt_subject_time t = kUnspecifiedTime
           then tf_apply (current_timeline_function st) rt = Some sub else sub = tt_subject_time t) \<and>
    mk_function rt sub (tt_reference_delta t) (tt_subject_delta t) = Some f \<and>
    pending_timeline_function st' = f \<and> set_timeline_transform_callback st' = Some cb \<and>
    current_timeline_function st' = current_timeline_function st \<and> cp_generation st' = cp_generation st \<and>
    (tt_subject_time t = kUnspecifiedTime \<longrightarrow> end_of_stream_published st' = end_of_stream_published st)"
proof -
  define st1 where "st1 = (if tt_subject_time t \<noteq> kUnspecifiedTime then clear_end_of_stream st else st)"
  obtain sub st2 f where *: "(if tt_subject_time t = kUnspecifiedTime
         then tf_apply (current_timeline_function st1) rt else Some (tt_subject_time t)) = Some sub"
    "clear_pending_timeline_function False st1 = Some st2"
    "mk_function rt sub (tt_reference_delta t) (tt_subject_delta t) = Some f"
    "st' = st2\<lparr>pending_timeline_function := f, set_timeline_transform_callback := Some cb\<rparr> \<or>
      st' = post_task ProgressStartedTask
        (st2\<lparr>pending_timeline_function := f, set_timeline_transform_callback := Some cb\<rparr>)"
    using assms(2,4) unfolding set_timeline_transform_def st1_def assms(3)
    by (auto simp: bind_Some_iff Let_def split: if_splits)
  have "current_timeline_function st2 = current_timeline_function st" "cp_generation st2 = cp_generation st"
    "current_timeline_function st1 = current_timeline_function st"
    "tt_subject_time t = kUnspecifiedTime \<Longrightarrow> end_of_stream_published st2 = end_of_stream_published st"
    using clear_pendingD(3) [OF *(2)] by (auto simp: st1_def clear_end_of_stream_def)
  then show ?thesis using * by (auto simp: post_task_def split: if_splits)
qed

lemma apply_pending_now:
  assumes "timeline_function_pending st" "reference_time (pending_timeline_function st) \<le> r"
    "set_timeline_transform_callback st = Some cb"
  shows "\<exists>st'. apply_pending_changes r st = Some st' \<and>
    current_timeline_function st' = pending_timeline_function st \<and>
    pending_timeline_function st' = unspecified_function \<and>
    set_timeline_transform_callback st' = None \<and> cp_generation st' = cp_generation st + 1 \<and>
    cp_tasks st' = cp_tasks st @ [CallTransformCallback cb True, SendUpdatesTask]"
proof -
  let ?st1 = "st\<lparr>current_timeline_function := pending_timeline_function st\<rparr>"
  obtain st2 where st2: "clear_pending_timeline_function True ?st1 = Some st2"
    using clear_pending_correct by blast
  then show ?thesis
    using assms clear_pendingD(3) [OF st2] by (auto simp: apply_pending_changes_def post_task_def)
qed

section \<open>Properties\<close>

text \<open>C21. Over any sequence of calls and task runs from construction on, every callback passed
  with an accepted change (\<open>SetTimelineTransform\<close> with a transform and a non-zero reference
  delta) is called exactly once, or is queued to be called, or belongs to the one change still
  pending; nothing is called twice and nothing else is called.\<close>

theorem transform_callbacks_called_exactly_once:
  assumes "cp_reachable calls events st"
  shows "cp_wf st \<and> msum completed events + outstanding st = msum accepted calls \<and>
    (cp_tasks st = [] \<longrightarrow> \<not> timeline_function_pending st \<longrightarrow> set_timeline_transform_callback st = None \<longrightarrow>
      msum completed events = msum accepted calls)"
  using cp_reachable_correct [OF assms] by (auto simp: outstanding_def waiting_def)

definition fresh_control_point :: control_point where
  "fresh_control_point =
     \<lparr>cp_bound = False, consumer_bound = False, status_publisher = new_publisher,
      prime_requested_callback = False, progress_started_callback = False, cp_tasks = [],
      current_timeline_function = default_function, pending_timeline_function = unspecified_function,
      set_timeline_transform_callback = None, cp_generation = 1,
      end_of_stream_pts = kUnspecifiedTime, end_of_stream_published = False\<rparr>"

lemma new_control_point_eval: "new_control_point = Some fresh_control_point"
  by (simp add: new_control_point_def clear_pending_timeline_function_def mk_function_unspecified
      fresh_control_point_def)

definition start_playing :: timeline_transform where
  "start_playing = \<lparr>tt_reference_time = 1000, tt_subject_time = 0, tt_reference_delta = 1, tt_subject_delta = 1\<rparr>"

definition playing_at_1000 :: timeline_function where
  "playing_at_1000 = \<lparr>reference_time = 1000, subject_time = 0, rate = \<lparr>subject_delta = 1, reference_delta = 1\<rparr>\<rparr>"

lemma start_playing_exec:
  "cp_exec 900 (SetTransform (Some start_playing) 7) fresh_control_point = Some ([], fresh_control_point
     \<lparr>pending_timeline_function := playing_at_1000, set_timeline_transform_callback := Some 7\<rparr>)"
  by (simp add: cp_exec_def set_timeline_transform_def start_playing_def clear_end_of_stream_def
      clear_pending_timeline_function_def mk_function_unspecified fresh_control_point_def
      mk_function_def mk_rate_coprime playing_at_1000_def)

theorem transform_callbacks_called_exactly_once_witness:
  "\<exists>st. cp_wf st \<and> msum completed [] + outstanding st = msum accepted [SetTransform (Some start_playing) 7] \<and>
    (cp_tasks st = [] \<longrightarrow> \<not> timeline_function_pending st \<longrightarrow> set_timeline_transform_callback st = None \<longrightarrow>
      msum completed [] = msum accepted [SetTransform (Some start_playing) 7])"
  using transform_callbacks_called_exactly_once
    [OF cp_call [OF cp_start [OF new_control_point_eval] start_playing_exec]] by auto

text \<open>C35. A change scheduled for reference time \<open>r\<close> leaves the current function alone at every
  earlier reference time; at \<open>r\<close> or later \<open>ApplyPendingChanges\<close> makes it current, with the
  times and the slope that were asked for, raises the generation by one and schedules the
  client's callback with \<open>completed = true\<close> and a status update.\<close>

theorem scheduled_change_takes_effect:
  assumes "cp_wf st" "tt_reference_delta t \<noteq> 0" "tt_reference_time t \<noteq> kUnspecifiedTime"
    "tt_subject_time t \<noteq> kUnspecifiedTime" "set_timeline_transform (Some t) cb now st = Some st1"
  shows "(\<forall>r < tt_reference_time t. apply_pending_changes r st1 = Some st1 \<and>
      current_timeline_function st1 = current_timeline_function st) \<and>
    (\<forall>r \<ge> tt_reference_time t. \<exists>st2. apply_pending_changes r st1 = Some st2 \<and>
      reference_time (current_timeline_function st2) = tt_reference_time t \<and>
      subject_time (current_timeline_function st2) = tt_subject_time t \<and>
      unat (subject_delta (rate (current_timeline_function st2))) * unat (tt_reference_delta t) =
        unat (tt_subject_delta t) * unat (reference_delta (rate (current_timeline_function st2))) \<and>
      cp_generation st2 = cp_generation st + 1 \<and>
      cp_tasks st2 = cp_tasks st1 @ [CallTransformCallback cb True, SendUpdatesTask])"
proof -
  obtain f where f: "mk_function (tt_reference_time t) (tt_subject_time t) (tt_reference_delta t)
      (tt_subject_delta t) = Some f" "pending_timeline_function st1 = f"
    "set_timeline_transform_callback st1 = Some cb"
    "current_timeline_function st1 = current_timeline_function st" "cp_generation st1 = cp_generation st"
    using set_transform_unfold [OF assms(1,2) refl assms(5)] assms(3,4) by auto
  let ?g = "gcd (unat (tt_subject_delta t)) (unat (tt_reference_delta t))"
  have m: "reference_time f = tt_reference_time t" "subject_time f = tt_subject_time t"
    "unat (subject_delta (rate f)) = unat (tt_subject_delta t) div ?g"
    "unat (reference_delta (rate f)) = unat (tt_reference_delta t) div ?g"
    using mk_function_ok [OF assms(2), of "tt_reference_time t" "tt_subject_time t" "tt_subject_delta t"] f(1)
    by auto
  have cross: "unat (subject_delta (rate f)) * unat (tt_reference_delta t) =
      unat (tt_subject_delta t) * unat (reference_delta (rate f))"
    unfolding m by (simp add: div_mult_swap dvd_div_mult)
  have pend: "timeline_function_pending st1"
    using f(2) m(1) assms(3) by (simp add: timeline_function_pending_def)
  show ?thesis
  proof (intro conjI allI impI)
    fix r assume "r < tt_reference_time t"
    then show "apply_pending_changes r st1 = Some st1"
      using f(2) m(1) by (simp add: apply_pending_changes_def)
    show "current_timeline_function st1 = current_timeline_function st" by (rule f(4))
  next
    fix r assume "tt_reference_time t \<le> r"
    then show "\<exists>st2. apply_pending_changes r st1 = Some st2 \<and>
      reference_time (current_timeline_function st2) = tt_reference_time t \<and>
      subject_time (current_timeline_function st2) = tt_subject_time t \<and>
      unat (subject_delta (rate (current_timeline_function st2))) * unat (tt_reference_delta t) =
        unat (tt_subject_delta t) * unat (reference_delta (rate (current_timeline_function st2))) \<and>
      cp_generation st2 = cp_generation st + 1 \<and>
      cp_tasks st2 = cp_tasks st1 @ [CallTransformCallback cb True, SendUpdatesTask]"
      using apply_pending_now [OF pend _ f(3), of r] f m cross by auto
  qed
qed

lemma fresh_control_point_wf: "cp_wf fresh_control_point"
  using new_control_point_correct [OF new_control_point_eval] by simp

theorem scheduled_change_takes_effect_witness:
  "\<exists>st1. (\<forall>r < tt_reference_time start_playing. apply_pending_changes r st1 = Some st1 \<and>
      current_timeline_function st1 = current_timeline_function fresh_control_point) \<and>
    (\<forall>r \<ge> tt_reference_time start_playing. \<exists>st2. apply_pending_changes r st1 = Some st2 \<and>
      reference_time (current_timeline_function st2) = tt_reference_time start_playing \<and>
      subject_time (current_timeline_function st2) = tt_subject_time start_playing \<and>
      unat (subject_delta (rate (current_timeline_function st2))) * unat (tt_reference_delta start_playing) =
        unat (tt_subject_delta start_playing) * unat (reference_delta (rate (current_timeline_function st2))) \<and>
      cp_generation st2 = cp_generation fresh_control_point + 1 \<and>
      cp_tasks st2 = cp_tasks st1 @ [CallTransformCallback 7 True, SendUpdatesTask])"
proof -
  obtain st1 where "set_timeline_transform (Some start_playing) 7 900 fresh_control_point = Some st1"
    using start_playing_exec by (auto simp: cp_exec_def bind_Some_iff)
  then show ?thesis
    by (intro exI [of _ st1] scheduled_change_takes_effect [OF fresh_control_point_wf])
      (simp_all add: start_playing_def)
qed

text \<open>A change whose subject time is left unspecified is continuous: the pending function
  agrees with the current one at the reference time of the change.\<close>

theorem unspecified_subject_time_is_continuous:
  assumes "cp_wf st" "tt_reference_delta t \<noteq> 0" "tt_subject_time t = kUnspecifiedTime"
    "rt = (if tt_reference_time t = kUnspecifiedTime then now else tt_reference_time t)"
    "set_timeline_transform (Some t) cb now st = Some st1"
  shows "\<exists>x. tf_apply (current_timeline_function st) rt = Some x \<and>
    tf_apply (pending_timeline_function st1) rt = Some x"
proof -
  obtain x f where f: "tf_apply (current_timeline_function st) rt = Some x"
    "mk_function rt x (tt_reference_delta t) (tt_subject_delta t) = Some f"
    "pending_timeline_function st1 = f"
    using set_transform_unfold [OF assms(1,2,4,5)] assms(3) by auto
  have m: "tf_ok f" "reference_time f = rt" "subject_time f = x"
    using mk_function_ok [OF assms(2), of rt x "tt_subject_delta t"] f(2) by auto
  have "in_i64 x"
    using f(1) by (auto simp: tf_apply_def apply_at_def bind_Some_iff i64_add_eq_Some)
  then have "tf_fits f rt" "tf_ideal f rt = x"
    using m by (simp_all add: tf_fits_def tf_ideal_def in_i64_def)
  then show ?thesis using f(1,3) tf_apply_fits [OF m(1)] by auto
qed

theorem unspecified_subject_time_is_continuous_witness:
  "\<exists>st1. set_timeline_transform (Some (start_playing\<lparr>tt_subject_time := kUnspecifiedTime\<rparr>)) 7 900
      fresh_control_point = Some st1 \<and>
    (\<exists>x. tf_apply (current_timeline_function fresh_control_point) 1000 = Some x \<and>
      tf_apply (pending_timeline_function st1) 1000 = Some x)"
proof -
  let ?t = "start_playing\<lparr>tt_subject_time := kUnspecifiedTime\<rparr>"
  have "tf_apply default_function 1000 = Some 0"
    by (subst tf_apply_fits [OF tf_ok_default])
      (simp_all add: tf_fits_def tf_ideal_def default_function_def default_rate_def in_i64_def)
  moreover have "tt_subject_time ?t = kUnspecifiedTime" "tt_reference_time ?t = 1000"
    "tt_reference_delta ?t = 1" "tt_subject_delta ?t = 1" by (simp_all add: start_playing_def)
  moreover have "current_timeline_function fresh_control_point = default_function"
    "clear_pending_timeline_function False fresh_control_point = Some fresh_control_point"
    by (simp_all add: fresh_control_point_def clear_pending_timeline_function_def mk_function_unspecified)
  moreover have "mk_function 1000 0 1 1 = Some (playing_at_1000)"
    by (simp add: mk_function_def mk_rate_coprime playing_at_1000_def)
  ultimately obtain st1 where st1: "set_timeline_transform (Some ?t) 7 900 fresh_control_point = Some st1"
    by (simp add: set_timeline_transform_def Let_def)
  have "1000 = (if tt_reference_time ?t = kUnspecifiedTime then 900 else tt_reference_time ?t)"
    "tt_reference_delta ?t \<noteq> 0" "tt_subject_time ?t = kUnspecifiedTime"
    by (simp_all add: start_playing_def)
  from unspecified_subject_time_is_continuous [OF fresh_control_point_wf this(2,3,1) st1] st1
  show ?thesis by blast
qed

text \<open>\<open>Reset\<close> restores the functions, the bindings and the generation of a new control
  point but, although it is documented to reset to the initial state, keeps both end-of-stream
  fields: after a stream whose end was published, a control point that was reset and then asked
  to play on from its current position reports that it is not progressing.\<close>

theorem reset_keeps_end_of_stream:
  assumes "cp_reset now st = Some (es, st1)"
  shows "current_timeline_function st1 = default_function \<and>
    pending_timeline_function st1 = unspecified_function \<and> cp_generation st1 = 1 \<and>
    \<not> cp_bound st1 \<and> \<not> consumer_bound st1 \<and>
    end_of_stream_pts st1 = end_of_stream_pts st \<and>
    end_of_stream_published st1 = end_of_stream_published st \<and>
    (end_of_stream_published st \<longrightarrow> tt_subject_time t = kUnspecifiedTime \<longrightarrow>
      set_timeline_transform (Some t) cb now' st1 = Some st2 \<longrightarrow> tt_reference_delta t \<noteq> 0 \<longrightarrow>
      \<not> progressing_internal st2)"
proof -
  let ?st1 = "st\<lparr>cp_bound := False, consumer_bound := False, current_timeline_function := default_function\<rparr>"
  obtain st' where st': "clear_pending_timeline_function False ?st1 = Some st'"
    and send: "cp_send_updates now (st'\<lparr>cp_generation := 1\<rparr>) = Some (es, st1)"
    using assms by (auto simp: cp_reset_def bind_Some_iff)
  obtain p where st1: "st1 = st'\<lparr>cp_generation := 1, status_publisher := p\<rparr>"
    using send by (auto simp: cp_send_updates_def Let_def bind_Some_iff split: prod.splits)
  have eos: "end_of_stream_published st2 = end_of_stream_published st1"
    if "tt_subject_time t = kUnspecifiedTime" "tt_reference_delta t \<noteq> 0"
      "set_timeline_transform (Some t) cb now' st1 = Some st2"
    using set_transform_unfold [OF _ that(2) refl that(3)] that(1) cp_reset_correct [OF assms] by auto
  show ?thesis
    using clear_pendingD(3) [OF st'] st1 eos by (auto simp: progressing_internal_def)
qed

theorem reset_keeps_end_of_stream_witness:
  "\<exists>es st1. cp_reset 900 (fresh_control_point\<lparr>end_of_stream_pts := 5, end_of_stream_published := True\<rparr>) =
      Some (es, st1) \<and> current_timeline_function st1 = default_function \<and>
    pending_timeline_function st1 = unspecified_function \<and> cp_generation st1 = 1 \<and>
    \<not> cp_bound st1 \<and> \<not> consumer_bound st1 \<and> end_of_stream_pts st1 = 5 \<and> end_of_stream_published st1"
proof -
  let ?st = "fresh_control_point\<lparr>end_of_stream_pts := 5, end_of_stream_published := True\<rparr>"
  obtain es st1 where r: "cp_reset 900 ?st = Some (es, st1)"
    by (auto simp: cp_reset_def clear_pending_timeline_function_def mk_function_unspecified
        fresh_control_point_def cp_send_updates_def send_updates_def new_publisher_def Let_def)
  show ?thesis using r reset_keeps_end_of_stream [OF r] by simp
qed

end
