(* ===== verification/Fifo_Allocator.thy ===== *)
theory Fifo_Allocator
  imports Media_Prelude
begin

text \<open>
  The bookkeeping allocator of the transport library: \<open>FifoAllocator\<close>
  (lib/transport/fifo_allocator.h, .cc). The intrusive list of regions is a HOL list in the
  order of the \<open>next\<close> pointers; \<open>active_\<close> is the region whose flag \<open>is_active\<close> is set; the
  lookaside list of unused region structures is its length.

  Sizes and offsets are naturals: the well-formedness invariant bounds every one of them by
  the size of the buffer, which is below \<open>2^64\<close>, so the \<open>uint64_t\<close> arithmetic of the code
  cannot wrap.
\<close>

section \<open>State\<close>

record region =
  allocated :: bool
  rsize :: nat
  roffset :: nat
  is_active :: bool

record fifo =
  total_size :: nat
  regions :: "region list"
  lookaside :: nat

definition kNullOffset :: nat where
  "kNullOffset = 18446744073709551615"

definition before_active :: "fifo \<Rightarrow> region list" where
  "before_active st = takeWhile (\<lambda>r. \<not> is_active r) (regions st)"

definition active_region :: "fifo \<Rightarrow> region" where
  "active_region st = hd (dropWhile (\<lambda>r. \<not> is_active r) (regions st))"

definition after_active :: "fifo \<Rightarrow> region list" where
  "after_active st = tl (dropWhile (\<lambda>r. \<not> is_active r) (regions st))"

section \<open>Operations\<close>

definition get_free :: "bool \<Rightarrow> nat \<Rightarrow> nat \<Rightarrow> fifo \<Rightarrow> (region \<times> fifo) option" where
  "get_free alloc sz off st = do {
     dcheck (sz \<le> total_size st);
     dcheck (off \<le> total_size st - sz);
     Some (\<lparr>allocated = alloc, rsize = sz, roffset = off, is_active = False\<rparr>,
           st\<lparr>lookaside := lookaside st - 1\<rparr>)
   }"

definition put_free :: "fifo \<Rightarrow> fifo" where
  "put_free st = st\<lparr>lookaside := Suc (lookaside st)\<rparr>"

definition fifo_reset :: "nat \<Rightarrow> fifo option" where
  "fifo_reset sz = do {
     dcheck (sz < kNullOffset);
     (r, st) \<leftarrow> get_free False sz 0 \<lparr>total_size = sz, regions = [], lookaside = 0\<rparr>;
     Some (st\<lparr>regions := [r\<lparr>is_active := True\<rparr>]\<rparr>)
   }"

text \<open>The first region of a range that satisfies a test, with what precedes and follows it.\<close>

fun find_region :: "(region \<Rightarrow> bool) \<Rightarrow> region list \<Rightarrow> (region list \<times> region \<times> region list) option" where
  "find_region P [] = None"
| "find_region P (r # rs) =
     (if P r then Some ([], r, rs)
      else map_option (\<lambda>(xs, y, ys). (r # xs, y, ys)) (find_region P rs))"

text \<open>The old active region on losing that role: dropped when it is empty.\<close>

definition retire_active :: "region \<Rightarrow> region list" where
  "retire_active a = (if rsize a = 0 then [] else [a\<lparr>is_active := False\<rparr>])"

definition retire_state :: "region \<Rightarrow> fifo \<Rightarrow> fifo" where
  "retire_state a st = (if rsize a = 0 then put_free st else st)"

definition advance_active :: "nat \<Rightarrow> fifo \<Rightarrow> (bool \<times> fifo) option" where
  "advance_active sz st = do {
     dcheck (sz \<noteq> 0);
     let a = active_region st;
     let b = before_active st;
     let c = after_active st;
     let P = (\<lambda>r. \<not> allocated r \<and> rsize r \<ge> sz);
     (case find_region P c of
        Some (xs, r, ys) \<Rightarrow> do {
          dcheck (rsize a = 0 \<longrightarrow> \<not> allocated a);
          Some (True, (retire_state a st)\<lparr>regions :=
            b @ retire_active a @ xs @ r\<lparr>is_active := True\<rparr> # ys\<rparr>)
        }
      | None \<Rightarrow>
          (case find_region P b of
             Some (xs, r, ys) \<Rightarrow> do {
               dcheck (rsize a = 0 \<longrightarrow> \<not> allocated a);
               Some (True, (retire_state a st)\<lparr>regions :=
                 xs @ r\<lparr>is_active := True\<rparr> # ys @ retire_active a @ c\<rparr>)
             }
           | None \<Rightarrow> Some (False, st)))
   }"

definition make_active_placeholder :: "region list \<Rightarrow> region \<Rightarrow> region list \<Rightarrow> fifo \<Rightarrow> fifo option" where
  "make_active_placeholder b a c st = do {
     (p, st') \<leftarrow> get_free False 0 (if c = [] then 0 else roffset a + rsize a) st;
     Some (st'\<lparr>regions :=
       (if c = [] then p\<lparr>is_active := True\<rparr> # b @ [a\<lparr>is_active := False\<rparr>]
        else b @ a\<lparr>is_active := False\<rparr> # p\<lparr>is_active := True\<rparr> # c)\<rparr>)
   }"

definition take_from_active :: "nat \<Rightarrow> fifo \<Rightarrow> (nat \<times> fifo) option" where
  "take_from_active sz st =
     (let a = active_region st; b = before_active st; c = after_active st
      in if rsize a = sz then
           (let a' = a\<lparr>allocated := True\<rparr>
            in case b of
                 f # bs \<Rightarrow>
                   (if c = [] \<and> \<not> allocated f
                    then Some (roffset a, st\<lparr>regions :=
                      f\<lparr>is_active := True\<rparr> # bs @ [a'\<lparr>is_active := False\<rparr>]\<rparr>)
                    else do { st' \<leftarrow> make_active_placeholder b a' c st; Some (roffset a, st') })
               | [] \<Rightarrow> do { st' \<leftarrow> make_active_placeholder b a' c st; Some (roffset a, st') })
         else do {
           dcheck (rsize a > sz);
           (r, st') \<leftarrow> get_free True sz (roffset a) st;
           Some (roffset r, st'\<lparr>regions :=
             b @ r # a\<lparr>rsize := rsize a - sz, roffset := roffset a + sz\<rparr> # c\<rparr>)
         })"

definition allocate_region :: "nat \<Rightarrow> fifo \<Rightarrow> (nat \<times> fifo) option" where
  "allocate_region sz st = do {
     dcheck (sz \<noteq> 0);
     (if rsize (active_region st) < sz then do {
        (found, st') \<leftarrow> advance_active sz st;
        (if found then take_from_active sz st' else Some (kNullOffset, st'))
      } else take_from_active sz st)
   }"

text \<open>
  Freeing the region \<open>r\<close> between \<open>xs\<close> and \<open>ys\<close>, merged with a free left neighbour and then
  with a free right one; the right one inherits the role of active region.
\<close>

definition coalesce_prev :: "region list \<Rightarrow> region \<Rightarrow> region list \<times> region \<times> nat" where
  "coalesce_prev xs r =
     (if xs \<noteq> [] \<and> \<not> allocated (last xs)
      then (butlast xs, (last xs)\<lparr>rsize := rsize (last xs) + rsize r\<rparr>, 1)
      else (xs, r, 0))"

fun coalesce_next :: "region \<Rightarrow> region list \<Rightarrow> region list \<times> nat" where
  "coalesce_next r [] = ([r], 0)"
| "coalesce_next r (y # ys) =
     (if \<not> allocated y
      then (y\<lparr>roffset := roffset r, rsize := rsize y + rsize r,
               is_active := is_active y \<or> is_active r\<rparr> # ys, 1)
      else (r # y # ys, 0))"

definition free_between :: "region list \<Rightarrow> region \<Rightarrow> region list \<Rightarrow> fifo \<Rightarrow> fifo" where
  "free_between xs r ys st =
     (let (xs', r', m) = coalesce_prev xs (r\<lparr>allocated := False\<rparr>);
          (ys', n) = coalesce_next r' ys
      in st\<lparr>regions := xs' @ ys', lookaside := lookaside st + m + n\<rparr>)"

definition release_region :: "nat \<Rightarrow> fifo \<Rightarrow> fifo option" where
  "release_region off st =
     (let a = active_region st; b = before_active st; c = after_active st;
          P = (\<lambda>r. roffset r = off)
      in case find_region P c of
           Some (xs, r, ys) \<Rightarrow> do {
             dcheck (allocated r);
             Some (free_between (b @ a # xs) r ys st)
           }
         | None \<Rightarrow>
             (case find_region P b of
                Some (xs, r, ys) \<Rightarrow> do {
                  dcheck (allocated r);
                  Some (free_between xs r (ys @ a # c) st)
                }
              | None \<Rightarrow> None))"

definition any_current_allocated_regions :: "fifo \<Rightarrow> bool" where
  "any_current_allocated_regions st \<longleftrightarrow> before_active st \<noteq> [] \<or> after_active st \<noteq> []"

section \<open>The invariant\<close>

fun laid_out :: "nat \<Rightarrow> region list \<Rightarrow> nat \<Rightarrow> bool" where
  "laid_out off [] end_off \<longleftrightarrow> off = end_off"
| "laid_out off (r # rs) end_off \<longleftrightarrow> roffset r = off \<and> laid_out (off + rsize r) rs end_off"

definition no_adjacent_free :: "region list \<Rightarrow> bool" where
  "no_adjacent_free = successively (\<lambda>x y. allocated x \<or> allocated y)"

definition regular :: "region \<Rightarrow> bool" where
  "regular r \<longleftrightarrow> \<not> is_active r \<and> 0 < rsize r"

definition fifo_wf :: "fifo \<Rightarrow> bool" where
  "fifo_wf st \<longleftrightarrow> total_size st < kNullOffset \<and> laid_out 0 (regions st) (total_size st) \<and>
     no_adjacent_free (regions st) \<and>
     (\<exists>b a c. regions st = b @ a # c \<and> is_active a \<and> \<not> allocated a \<and>
       list_all regular b \<and> list_all regular c)"

definition region_map :: "region list \<Rightarrow> (nat \<rightharpoonup> nat)" where
  "region_map rs = map_of (map (\<lambda>r. (roffset r, rsize r)) (filter allocated rs))"

definition fifo_abs :: "fifo \<Rightarrow> (nat \<rightharpoonup> nat)" where
  "fifo_abs st = region_map (regions st)"

section \<open>Lemmas on layouts\<close>

abbreviation span :: "region list \<Rightarrow> nat" where
  "span rs \<equiv> sum_list (map rsize rs)"

lemma laid_out_end: "laid_out off rs e \<Longrightarrow> e = off + span rs"
  by (induction rs arbitrary: off) fastforce+

lemma laid_out_append [simp]:
  "laid_out off (xs @ ys) e \<longleftrightarrow>
     laid_out off xs (off + span xs) \<and> laid_out (off + span xs) ys e"
  by (induction xs arbitrary: off) (auto simp: add.assoc)

lemma laid_out_bounds:
  "laid_out off rs e \<Longrightarrow> r \<in> set rs \<Longrightarrow> off \<le> roffset r \<and> roffset r + rsize r \<le> e"
  by (induction rs arbitrary: off) (fastforce dest: laid_out_end)+

lemma no_adjacent_free_append [simp]:
  "no_adjacent_free (xs @ ys) \<longleftrightarrow> no_adjacent_free xs \<and> no_adjacent_free ys \<and>
     (xs = [] \<or> ys = [] \<or> allocated (last xs) \<or> allocated (hd ys))"
  by (auto simp: no_adjacent_free_def successively_append_iff)

lemma no_adjacent_free_Nil [simp]: "no_adjacent_free []"
  by (simp add: no_adjacent_free_def)

lemma no_adjacent_free_Cons [simp]:
  "no_adjacent_free (x # xs) \<longleftrightarrow> no_adjacent_free xs \<and> (xs = [] \<or> allocated x \<or> allocated (hd xs))"
  by (cases xs) (auto simp: no_adjacent_free_def)

lemma region_map_simps [simp]:
  "region_map [] = Map.empty"
  "region_map (r # rs) =
     (if allocated r then (region_map rs)(roffset r \<mapsto> rsize r) else region_map rs)"
  "region_map (xs @ ys) = region_map ys ++ region_map xs"
  by (simp_all add: region_map_def)

lemma region_map_SomeD:
  "region_map rs off = Some n \<Longrightarrow> \<exists>r \<in> set rs. allocated r \<and> roffset r = off \<and> rsize r = n"
  by (induction rs) (auto split: if_splits)

lemma region_map_low:
  assumes "laid_out off rs e" "\<forall>r \<in> set rs. allocated r \<longrightarrow> 0 < rsize r" "e \<le> k"
  shows "region_map rs k = None"
proof (rule ccontr)
  assume "region_map rs k \<noteq> None"
  then obtain r where "r \<in> set rs" "allocated r" "roffset r = k"
    using region_map_SomeD by blast
  then show False using assms laid_out_bounds [of off rs e r] by fastforce
qed

lemma region_map_high:
  "laid_out off rs e \<Longrightarrow> k < off \<Longrightarrow> region_map rs k = None"
  by (rule ccontr) (force dest!: region_map_SomeD dest: laid_out_bounds)

lemma map_add_upd_absent: "m2 k = None \<Longrightarrow> m1(k \<mapsto> v) ++ m2 = (m1 ++ m2)(k \<mapsto> v)"
  by (auto simp: map_add_def fun_eq_iff split: option.splits)

lemma zipper:
  assumes "regions st = b @ a # c" "is_active a" "list_all regular b"
  shows "before_active st = b" "active_region st = a" "after_active st = c"
proof -
  have b: "\<forall>r \<in> set b. \<not> is_active r" using assms(3) by (auto simp: list_all_iff regular_def)
  show "before_active st = b"
    unfolding before_active_def assms(1) using b assms(2) by (subst takeWhile_append2) auto
  have "dropWhile (\<lambda>r. \<not> is_active r) (b @ a # c) = a # c"
    using b assms(2) by (subst dropWhile_append2) auto
  then show "active_region st = a" "after_active st = c"
    unfolding active_region_def after_active_def assms(1) by simp_all
qed

lemma fifo_wfE:
  assumes "fifo_wf st"
  obtains b a c where "regions st = b @ a # c" "is_active a" "\<not> allocated a"
    "list_all regular b" "list_all regular c"
    "before_active st = b" "active_region st = a" "after_active st = c"
    "laid_out 0 (b @ a # c) (total_size st)" "no_adjacent_free (b @ a # c)"
    "total_size st < kNullOffset"
  using assms zipper unfolding fifo_wf_def by metis

lemma fifo_wfI:
  assumes "regions st = b @ a # c" "is_active a" "\<not> allocated a"
    "list_all regular b" "list_all regular c"
    "laid_out 0 (b @ a # c) (total_size st)" "no_adjacent_free (b @ a # c)"
    "total_size st < kNullOffset"
  shows "fifo_wf st"
  unfolding fifo_wf_def using assms by metis

lemma find_region_Some:
  "find_region P rs = Some (xs, r, ys) \<Longrightarrow> rs = xs @ r # ys \<and> P r \<and> (\<forall>x \<in> set xs. \<not> P x)"
  by (induction rs arbitrary: xs) (auto split: if_splits)

lemma find_region_None: "find_region P rs = None \<longleftrightarrow> (\<forall>x \<in> set rs. \<not> P x)"
  by (induction rs) auto

lemma fifo_reset_wf:
  assumes "n < kNullOffset"
  shows "\<exists>st. fifo_reset n = Some st \<and> fifo_wf st \<and> fifo_abs st = Map.empty \<and> total_size st = n"
  using assms by (auto simp: fifo_reset_def get_free_def fifo_abs_def intro!: fifo_wfI [where b = "[]"])

lemma advance_active_correct:
  assumes "fifo_wf st" "0 < n"
  shows "\<exists>found st'. advance_active n st = Some (found, st') \<and>
    (if found then fifo_wf st' \<and> n \<le> rsize (active_region st') \<and> fifo_abs st' = fifo_abs st \<and>
       total_size st' = total_size st
     else st' = st \<and> (\<forall>r \<in> set (before_active st @ after_active st). \<not> allocated r \<longrightarrow> rsize r < n))"
  using assms(1)
proof (cases rule: fifo_wfE)
  case (1 b a c)
  let ?P = "\<lambda>r. \<not> allocated r \<and> rsize r \<ge> n"
  have retire: "list_all regular (retire_active a)" "span (retire_active a) = rsize a"
    "region_map (retire_active a) = Map.empty" "total_size (retire_state a st) = total_size st"
    using 1 by (auto simp: retire_active_def regular_def retire_state_def put_free_def)
  show ?thesis
  proof (cases "find_region ?P c")
    case (Some t)
    then obtain xs r ys where f: "find_region ?P c = Some (xs, r, ys)" by (cases t) auto
    then have c: "c = xs @ r # ys" and r: "\<not> allocated r" "n \<le> rsize r" by (auto dest: find_region_Some)
    let ?b = "b @ retire_active a @ xs" and ?r = "r\<lparr>is_active := True\<rparr>"
    define st' where "st' = (retire_state a st)\<lparr>regions := ?b @ ?r # ys\<rparr>"
    have wf: "fifo_wf st'"
      using 1 r retire unfolding st'_def c
      by (intro fifo_wfI [where b = ?b and a = ?r and c = ys])
        (auto simp: retire_active_def regular_def hd_append split: if_splits)
    moreover have "active_region st' = r\<lparr>is_active := True\<rparr>"
      using 1 retire unfolding c by (intro zipper [of _ ?b ?r ys]) (auto simp: st'_def)
    moreover have "fifo_abs st' = fifo_abs st"
      using 1 retire r by (simp add: fifo_abs_def st'_def c)
    ultimately show ?thesis
      using 1 f assms(2) r retire by (auto simp: advance_active_def st'_def)
  next
    case None
    show ?thesis
    proof (cases "find_region ?P b")
      case (Some t)
      then obtain xs r ys where f: "find_region ?P b = Some (xs, r, ys)" by (cases t) auto
      then have b: "b = xs @ r # ys" and r: "\<not> allocated r" "n \<le> rsize r" by (auto dest: find_region_Some)
      let ?c = "ys @ retire_active a @ c" and ?r = "r\<lparr>is_active := True\<rparr>"
      define st' where "st' = (retire_state a st)\<lparr>regions := xs @ ?r # ?c\<rparr>"
      have wf: "fifo_wf st'"
        using 1 r retire unfolding st'_def b
        by (intro fifo_wfI [where b = xs and a = ?r and c = ?c])
          (auto simp: retire_active_def regular_def hd_append split: if_splits)
      moreover have "active_region st' = r\<lparr>is_active := True\<rparr>"
        using 1 retire unfolding b by (intro zipper [of _ xs ?r ?c]) (auto simp: st'_def)
      moreover have "fifo_abs st' = fifo_abs st"
        using 1 retire r by (simp add: fifo_abs_def st'_def b)
      ultimately show ?thesis
        using 1 None f assms(2) r retire by (auto simp: advance_active_def st'_def)
    next
      case None': None
      have "advance_active n st = Some (False, st)"
        using 1 None None' assms(2) by (simp add: advance_active_def)
      moreover have "\<forall>r \<in> set (b @ c). \<not> allocated r \<longrightarrow> rsize r < n"
        using None None' unfolding find_region_None by (auto simp: not_le)
      ultimately show ?thesis using 1 by (intro exI [of _ False] exI [of _ st]) simp
    qed
  qed
qed


lemma region_map_insert:
  assumes "laid_out off (b @ r # c) e" "\<forall>r \<in> set b. allocated r \<longrightarrow> 0 < rsize r" "0 < rsize r"
  shows "(region_map c)(roffset r \<mapsto> n) ++ region_map b = (region_map c ++ region_map b)(roffset r \<mapsto> n)"
    and "(region_map c ++ region_map b) (roffset r) = None"
proof -
  have b: "region_map b (roffset r) = None"
    using assms(1,2) by (intro region_map_low [of off b "roffset r"]) auto
  have c: "region_map c (roffset r) = None"
    using assms(1,3) by (intro region_map_high [of "roffset r + rsize r" c e]) auto
  show "(region_map c)(roffset r \<mapsto> n) ++ region_map b = (region_map c ++ region_map b)(roffset r \<mapsto> n)"
    using b by (rule map_add_upd_absent)
  show "(region_map c ++ region_map b) (roffset r) = None"
    using b c by (simp add: map_add_def)
qed

text \<open>Allocating the whole active region.\<close>

lemma placeholder_correct:
  assumes "fifo_wf st" "regions st = b @ a # c" "is_active a" "list_all regular b" "list_all regular c"
    "0 < rsize a" "\<not> allocated a" and last: "c = [] \<Longrightarrow> b \<noteq> [] \<Longrightarrow> allocated (hd b)"
  shows "\<exists>st'. make_active_placeholder b (a\<lparr>allocated := True\<rparr>) c st = Some st' \<and> fifo_wf st' \<and>
    total_size st' = total_size st \<and> region_map (regions st') = (region_map c)(roffset a \<mapsto> rsize a) ++ region_map b"
proof -
  have lay: "laid_out 0 (b @ a # c) (total_size st)" "no_adjacent_free (b @ a # c)" "total_size st < kNullOffset"
    using assms(1,2) by (auto simp: fifo_wf_def)
  have bound: "roffset a + rsize a \<le> total_size st"
    using laid_out_bounds [OF lay(1), of a] by simp
  let ?a = "a\<lparr>allocated := True, is_active := False\<rparr>"
  let ?p = "\<lambda>off. \<lparr>allocated = False, rsize = 0, roffset = off, is_active = True\<rparr>"
  show ?thesis
  proof (cases "c = []")
    case True
    have "fifo_wf (st\<lparr>lookaside := lookaside st - 1, regions := [] @ ?p 0 # b @ [?a]\<rparr>)"
      using assms lay last True
      by (intro fifo_wfI [where b = "[]" and a = "?p 0" and c = "b @ [?a]"])
        (auto simp: regular_def hd_append)
    then show ?thesis
      using True bound by (auto simp: make_active_placeholder_def get_free_def)
  next
    case False
    let ?q = "?p (roffset a + rsize a)"
    have "fifo_wf (st\<lparr>lookaside := lookaside st - 1, regions := (b @ [?a]) @ ?q # c\<rparr>)"
      using assms lay False
      by (intro fifo_wfI [where b = "b @ [?a]" and a = ?q and c = c])
        (auto simp: regular_def hd_append neq_Nil_conv)
    then show ?thesis
      using False bound by (auto simp: make_active_placeholder_def get_free_def)
  qed
qed

lemma take_from_active_correct:
  assumes "fifo_wf st" "0 < n" "n \<le> rsize (active_region st)"
  shows "\<exists>off st'. take_from_active n st = Some (off, st') \<and> off + n \<le> total_size st \<and> fifo_wf st' \<and>
    total_size st' = total_size st \<and> fifo_abs st off = None \<and> fifo_abs st' = (fifo_abs st)(off \<mapsto> n)"
  using assms(1)
proof (cases rule: fifo_wfE)
  case (1 b a c)
  have bound: "roffset a + rsize a \<le> total_size st"
    using laid_out_bounds [OF 1(9), of a] by simp
  have n: "n \<le> rsize a" "0 < rsize a" using assms 1 by auto
  have "\<forall>r \<in> set b. allocated r \<longrightarrow> 0 < rsize r" using 1(4) by (auto simp: list_all_iff regular_def)
  note ins = region_map_insert [OF 1(9) this n(2)]
  have abs: "fifo_abs st = region_map c ++ region_map b" using 1 by (simp add: fifo_abs_def)
  show ?thesis
  proof (cases "rsize a = n")
    case True
    show ?thesis
    proof (cases "b \<noteq> [] \<and> c = [] \<and> \<not> allocated (hd b)")
      case front: True
      then obtain f bs where b: "b = f # bs" "c = []" "\<not> allocated f" by (cases b) auto
      let ?f = "f\<lparr>is_active := True\<rparr>" and ?a = "a\<lparr>allocated := True, is_active := False\<rparr>"
      have "fifo_wf (st\<lparr>regions := [] @ ?f # bs @ [?a]\<rparr>)"
        using 1 n b by (intro fifo_wfI [where b = "[]" and a = ?f and c = "bs @ [?a]"])
          (auto simp: regular_def hd_append)
      then show ?thesis
        using True 1 b n bound ins abs by (auto simp: take_from_active_def fifo_abs_def)
    next
      case False
      then have last: "c = [] \<Longrightarrow> b \<noteq> [] \<Longrightarrow> allocated (hd b)" by auto
      obtain st' where st': "make_active_placeholder b (a\<lparr>allocated := True\<rparr>) c st = Some st'"
        "fifo_wf st'" "total_size st' = total_size st"
        "region_map (regions st') = (region_map c)(roffset a \<mapsto> rsize a) ++ region_map b"
        using placeholder_correct [OF assms(1) 1(1,2,4,5) n(2) 1(3) last] by blast
      have "take_from_active n st = Some (roffset a, st')"
        using False True 1 st'(1) by (cases b) (auto simp: take_from_active_def)
      then show ?thesis using st' True bound ins abs by (auto simp: fifo_abs_def)
    qed
  next
    case False
    let ?r = "\<lparr>allocated = True, rsize = n, roffset = roffset a, is_active = False\<rparr>"
    let ?a = "a\<lparr>rsize := rsize a - n, roffset := roffset a + n\<rparr>"
    let ?st = "st\<lparr>lookaside := lookaside st - 1, regions := (b @ [?r]) @ ?a # c\<rparr>"
    have wf: "fifo_wf ?st"
      using 1 n False assms(2) by (intro fifo_wfI [where b = "b @ [?r]" and a = ?a and c = c])
        (auto simp: regular_def hd_append)
    have "take_from_active n st = Some (roffset a, ?st)"
      using False n bound 1 by (simp add: take_from_active_def get_free_def)
    then show ?thesis
      using wf n bound 1 ins abs by (auto simp: fifo_abs_def)
  qed
qed


text \<open>The shape of the list without naming the active region's place.\<close>

definition one_active :: "region list \<Rightarrow> bool" where
  "one_active rs \<longleftrightarrow> length (filter is_active rs) = 1 \<and>
     (\<forall>r \<in> set rs. if is_active r then \<not> allocated r else 0 < rsize r)"

lemma one_active_iff:
  "one_active rs \<longleftrightarrow> (\<exists>b a c. rs = b @ a # c \<and> is_active a \<and> \<not> allocated a \<and>
     list_all regular b \<and> list_all regular c)"
proof
  assume *: "one_active rs"
  then have "\<exists>r \<in> set rs. is_active r"
    unfolding one_active_def by (metis One_nat_def filter_False length_0_conv nat.distinct(1))
  then obtain b a c where r: "rs = b @ a # c" "is_active a" "\<forall>r \<in> set b. \<not> is_active r"
    using split_list_first_prop by metis
  then have "filter is_active b = []" "filter is_active c = []"
    using * by (auto simp: one_active_def filter_empty_conv)
  then have "list_all regular b \<and> list_all regular c"
    using * r by (auto simp: one_active_def list_all_iff regular_def filter_empty_conv)
  then show "\<exists>b a c. rs = b @ a # c \<and> is_active a \<and> \<not> allocated a \<and>
      list_all regular b \<and> list_all regular c"
    using * r by (auto simp: one_active_def)
next
  assume "\<exists>b a c. rs = b @ a # c \<and> is_active a \<and> \<not> allocated a \<and>
     list_all regular b \<and> list_all regular c"
  then show "one_active rs"
    by (auto simp: one_active_def list_all_iff regular_def filter_empty_conv)
qed

lemma one_activeD:
  assumes "one_active rs" "r \<in> set rs" "allocated r"
  shows "\<not> is_active r" "0 < rsize r"
proof -
  have "if is_active r then \<not> allocated r else 0 < rsize r" using assms(1,2) by (simp add: one_active_def)
  then show "\<not> is_active r" "0 < rsize r" using assms(3) by (auto split: if_splits)
qed

lemma fifo_wf_flat:
  "fifo_wf st \<longleftrightarrow> total_size st < kNullOffset \<and> laid_out 0 (regions st) (total_size st) \<and>
     no_adjacent_free (regions st) \<and> one_active (regions st)"
  unfolding fifo_wf_def one_active_iff ..

lemma coalesce_prev_correct:
  assumes "coalesce_prev xs r = (xs', r', m)" "\<not> allocated r" "\<not> is_active r" "0 < rsize r"
    "laid_out off (xs @ r # ys) e" "one_active (xs @ r # ys)" "no_adjacent_free xs" "no_adjacent_free ys"
  shows "\<not> allocated r' \<and> laid_out off (xs' @ r' # ys) e \<and> one_active (xs' @ r' # ys) \<and>
    no_adjacent_free xs' \<and> (xs' = [] \<or> allocated (last xs')) \<and> 0 < rsize r' \<and>
    region_map xs' = region_map xs"
proof (cases "xs = [] \<or> allocated (last xs)")
  case True
  then show ?thesis using assms by (auto simp: coalesce_prev_def)
next
  case False
  then obtain zs z where "xs = zs @ [z]" by (metis rev_exhaust)
  then show ?thesis
    using False assms by (auto simp: coalesce_prev_def one_active_def add.assoc split: if_splits)
qed

lemma coalesce_next_correct:
  assumes "coalesce_next r ys = (ys', m)" "\<not> allocated r" "0 < rsize r"
    "laid_out off (xs @ r # ys) e" "one_active (xs @ r # ys)"
    "no_adjacent_free xs" "no_adjacent_free ys" "xs = [] \<or> allocated (last xs)"
  shows "laid_out off (xs @ ys') e \<and> one_active (xs @ ys') \<and> no_adjacent_free (xs @ ys') \<and>
    region_map ys' = region_map ys"
  using assms
  by (cases ys) (auto simp: one_active_def add_ac split: if_splits)

lemma free_between_correct:
  assumes "fifo_wf st" "regions st = xs @ r # ys" "allocated r"
  shows "fifo_wf (free_between xs r ys st) \<and> total_size (free_between xs r ys st) = total_size st \<and>
    fifo_abs st (roffset r) = Some (rsize r) \<and>
    fifo_abs (free_between xs r ys st) = (fifo_abs st)(roffset r := None)"
proof -
  let ?r = "r\<lparr>allocated := False\<rparr>"
  obtain xs' r' m where p: "coalesce_prev xs ?r = (xs', r', m)" by (metis prod_cases3)
  obtain ys' k where n: "coalesce_next r' ys = (ys', k)" by fastforce
  have w: "laid_out 0 (xs @ r # ys) (total_size st)" "no_adjacent_free xs" "no_adjacent_free ys"
    "one_active (xs @ r # ys)"
    using assms by (auto simp: fifo_wf_flat)
  have r: "\<not> is_active r" "0 < rsize r" using one_activeD [OF w(4) _ assms(3)] by simp_all
  have l: "laid_out 0 (xs @ ?r # ys) (total_size st)" using w(1) by simp
  have o: "one_active (xs @ ?r # ys)" using w(4) r assms(3) by (simp add: one_active_def)
  have P: "\<not> allocated r'" "laid_out 0 (xs' @ r' # ys) (total_size st)" "one_active (xs' @ r' # ys)"
    "no_adjacent_free xs'" "xs' = [] \<or> allocated (last xs')" "0 < rsize r'" "region_map xs' = region_map xs"
    using coalesce_prev_correct [OF p _ _ _ l o w(2,3)] r by simp_all
  have N: "laid_out 0 (xs' @ ys') (total_size st)" "one_active (xs' @ ys')" "no_adjacent_free (xs' @ ys')"
    "region_map ys' = region_map ys"
    using coalesce_next_correct [OF n P(1,6,2,3,4) w(3) P(5)] by auto
  have "\<forall>x \<in> set xs. allocated x \<longrightarrow> 0 < rsize x" using one_activeD [OF w(4)] by simp
  note ins = region_map_insert [OF w(1) this r(2)]
  have "fifo_abs st = (region_map ys ++ region_map xs)(roffset r \<mapsto> rsize r)"
    using assms ins by (simp add: fifo_abs_def)
  moreover have "fifo_abs (free_between xs r ys st) = region_map ys ++ region_map xs"
    using p n N P by (simp add: fifo_abs_def free_between_def)
  ultimately show ?thesis
    using p n N assms(1) ins(2) by (auto simp: free_between_def fifo_wf_flat fun_upd_idem)
qed

lemma same_offset_same_region:
  assumes "laid_out off (xs @ r' # ys) e" "r \<in> set (xs @ r' # ys)" "roffset r = roffset r'"
    "0 < rsize r" "0 < rsize r'"
  shows "r = r'"
proof -
  have "r \<notin> set xs" using assms laid_out_bounds [of off xs "off + span xs" r] by auto
  moreover have "r \<notin> set ys" using assms laid_out_bounds [of _ ys e r] by fastforce
  ultimately show ?thesis using assms(2) by auto
qed

lemma release_region_correct:
  assumes "fifo_wf st" "fifo_abs st off = Some n"
  shows "\<exists>st'. release_region off st = Some st' \<and> fifo_wf st' \<and> total_size st' = total_size st \<and>
    fifo_abs st' = (fifo_abs st)(off := None)"
  using assms(1)
proof (cases rule: fifo_wfE)
  case (1 b a c)
  let ?P = "\<lambda>r. roffset r = off"
  obtain r where r: "r \<in> set b \<union> set c" "allocated r" "roffset r = off"
    using assms(2) 1(1,3) by (auto simp: fifo_abs_def dest!: region_map_SomeD)
  have reg: "0 < rsize x" if "x \<in> set b \<union> set c" for x
    using that 1(4,5) by (auto simp: list_all_iff regular_def)
  have fin: "release_region off st = Some (free_between xs r ys st) \<Longrightarrow>
      regions st = xs @ r # ys \<Longrightarrow> ?thesis" for xs ys
    using free_between_correct [OF assms(1) _ r(2), of xs ys] r(3) by auto
  show ?thesis
  proof (cases "find_region ?P c")
    case (Some t)
    then obtain xs r' ys where f: "find_region ?P c = Some (xs, r', ys)" by (cases t) auto
    then have c: "c = xs @ r' # ys" "roffset r' = off" by (auto dest: find_region_Some)
    have "r = r'"
      using 1(9) r(1,3) c reg [of r] reg [of r']
      by (intro same_offset_same_region [of 0 "b @ a # xs" r' ys]) auto
    then show ?thesis
      using 1 f c r by (intro fin [of "b @ a # xs" ys]) (auto simp: release_region_def)
  next
    case None
    then have rb: "r \<in> set b" using r(1,3) by (auto simp: find_region_None)
    then obtain t where "find_region ?P b = Some t"
      using r(3) by (cases "find_region ?P b") (auto simp: find_region_None)
    then obtain xs r' ys where f: "find_region ?P b = Some (xs, r', ys)" by (cases t) auto
    then have b: "b = xs @ r' # ys" "roffset r' = off" by (auto dest: find_region_Some)
    have "r = r'"
      using 1(9) rb r(3) b reg [of r] reg [of r']
      by (intro same_offset_same_region [of 0 xs r' "ys @ a # c"]) auto
    then show ?thesis
      using 1 None f b r by (intro fin [of xs "ys @ a # c"]) (auto simp: release_region_def)
  qed
qed

lemma allocate_region_correct:
  assumes "fifo_wf st" "0 < n"
  shows "\<exists>off st'. allocate_region n st = Some (off, st') \<and> fifo_wf st' \<and> total_size st' = total_size st \<and>
    (if off = kNullOffset
     then st' = st \<and> (\<forall>r \<in> set (regions st). \<not> allocated r \<longrightarrow> rsize r < n)
     else off + n \<le> total_size st \<and> fifo_abs st off = None \<and> fifo_abs st' = (fifo_abs st)(off \<mapsto> n))"
proof (cases "rsize (active_region st) < n")
  case False
  then obtain off st' where "take_from_active n st = Some (off, st')" "off + n \<le> total_size st" "fifo_wf st'"
    "total_size st' = total_size st" "fifo_abs st off = None" "fifo_abs st' = (fifo_abs st)(off \<mapsto> n)"
    using take_from_active_correct [OF assms] by auto
  moreover have "total_size st < kNullOffset" using assms(1) by (simp add: fifo_wf_def)
  ultimately show ?thesis using False assms(2) by (auto simp: allocate_region_def)
next
  case True
  obtain found st1 where adv: "advance_active n st = Some (found, st1)"
    "if found then fifo_wf st1 \<and> n \<le> rsize (active_region st1) \<and> fifo_abs st1 = fifo_abs st \<and>
       total_size st1 = total_size st
     else st1 = st \<and> (\<forall>r \<in> set (before_active st @ after_active st). \<not> allocated r \<longrightarrow> rsize r < n)"
    using advance_active_correct [OF assms] by blast
  show ?thesis
  proof (cases found)
    case found: True
    then have w: "fifo_wf st1" "n \<le> rsize (active_region st1)" using adv by auto
    obtain off st' where "take_from_active n st1 = Some (off, st')" "off + n \<le> total_size st1" "fifo_wf st'"
      "total_size st' = total_size st1" "fifo_abs st1 off = None" "fifo_abs st' = (fifo_abs st1)(off \<mapsto> n)"
      using take_from_active_correct [OF w(1) assms(2) w(2)] by auto
    moreover have "total_size st1 < kNullOffset" using w(1) by (simp add: fifo_wf_def)
    ultimately show ?thesis using True found adv assms(2) by (auto simp: allocate_region_def)
  next
    case False
    have "\<forall>r \<in> set (regions st). \<not> allocated r \<longrightarrow> rsize r < n"
      using assms(1)
    proof (cases rule: fifo_wfE)
      case (1 b a c)
      then show ?thesis using False adv True by auto
    qed
    then show ?thesis using True False adv assms by (auto simp: allocate_region_def)
  qed
qed

lemma fifo_abs_disjoint:
  assumes "fifo_wf st" "fifo_abs st o1 = Some n1" "fifo_abs st o2 = Some n2" "o1 < o2"
  shows "o1 + n1 \<le> o2 \<and> o2 + n2 \<le> total_size st \<and> 0 < n1"
  using assms(1)
proof (cases rule: fifo_wfE)
  case (1 b a c)
  have reg: "0 < rsize x" if "x \<in> set (regions st)" "allocated x" for x
    using that 1 by (auto simp: list_all_iff regular_def)
  obtain r1 where r1: "r1 \<in> set (regions st)" "allocated r1" "roffset r1 = o1" "rsize r1 = n1"
    using assms(2) by (auto simp: fifo_abs_def dest: region_map_SomeD)
  obtain r2 where r2: "r2 \<in> set (regions st)" "allocated r2" "roffset r2 = o2" "rsize r2 = n2"
    using assms(3) by (auto simp: fifo_abs_def dest: region_map_SomeD)
  obtain xs ys where s: "regions st = xs @ r1 # ys" using r1(1) by (meson split_list)
  have l: "laid_out 0 (xs @ r1 # ys) (total_size st)" using 1 s by metis
  have "r2 \<notin> set xs" using l r1 r2 assms(4) laid_out_bounds [of 0 xs "span xs" r2] by auto
  moreover have "r2 \<noteq> r1" using r1 r2 assms(4) by auto
  ultimately have "r2 \<in> set ys" using r2(1) s by auto
  then show ?thesis
    using l r1 r2 laid_out_bounds [of "roffset r1 + rsize r1" ys "total_size st" r2] reg [of r1] by auto
qed

lemma any_current_correct:
  assumes "fifo_wf st"
  shows "any_current_allocated_regions st \<longleftrightarrow> fifo_abs st \<noteq> Map.empty"
  using assms
proof (cases rule: fifo_wfE)
  case (1 b a c)
  have "allocated x \<Longrightarrow> x \<in> set (regions st) \<Longrightarrow> fifo_abs st (roffset x) \<noteq> None" for x
    unfolding fifo_abs_def region_map_def map_of_eq_None_iff by force
  moreover have "\<exists>x \<in> set (regions st). allocated x" if "b \<noteq> [] \<or> c \<noteq> []"
    using that 1(1,3,10) by (cases b rule: rev_cases; cases c) auto
  ultimately have "fifo_abs st \<noteq> Map.empty" if "b \<noteq> [] \<or> c \<noteq> []" using that by fastforce
  then show ?thesis using 1 by (auto simp: any_current_allocated_regions_def fifo_abs_def)
qed

section \<open>The interface an allocator's client relies on\<close>

text \<open>
  \<open>SharedBufferSetAllocator\<close> uses one bookkeeping allocator per sliced buffer through
  three calls: allocate, release and the test whether anything is still allocated. The
  promises those calls make are the laws of a locale; what a client may conclude from them
  is proved once inside it.
\<close>

datatype alloc_op = Alloc nat | Release nat

fun run_ops :: "(nat \<Rightarrow> 's \<Rightarrow> (nat \<times> 's) option) \<Rightarrow> (nat \<Rightarrow> 's \<Rightarrow> 's option) \<Rightarrow>
    alloc_op list \<Rightarrow> 's \<Rightarrow> 's option" where
  "run_ops al rl [] s = Some s"
| "run_ops al rl (Alloc n # ops) s = do { (off, s') \<leftarrow> al n s; run_ops al rl ops s' }"
| "run_ops al rl (Release off # ops) s = do { s' \<leftarrow> rl off s; run_ops al rl ops s' }"

text \<open>
  The calls an obedient client makes against the abstract state: it asks for a positive size
  and releases only offsets that are allocated.
\<close>

fun obedient :: "(nat \<Rightarrow> 's \<Rightarrow> (nat \<times> 's) option) \<Rightarrow> (nat \<Rightarrow> 's \<Rightarrow> 's option) \<Rightarrow> ('s \<Rightarrow> nat \<rightharpoonup> nat) \<Rightarrow>
    alloc_op list \<Rightarrow> 's \<Rightarrow> bool" where
  "obedient al rl ab [] s \<longleftrightarrow> True"
| "obedient al rl ab (Alloc n # ops) s \<longleftrightarrow> 0 < n \<and>
     (case al n s of None \<Rightarrow> True | Some (off, s') \<Rightarrow> obedient al rl ab ops s')"
| "obedient al rl ab (Release off # ops) s \<longleftrightarrow> ab s off \<noteq> None \<and>
     (case rl off s of None \<Rightarrow> True | Some s' \<Rightarrow> obedient al rl ab ops s')"

locale region_allocator =
  fixes invar :: "'s \<Rightarrow> bool"
    and ab :: "'s \<Rightarrow> nat \<rightharpoonup> nat"
    and capacity :: "'s \<Rightarrow> nat"
    and al :: "nat \<Rightarrow> 's \<Rightarrow> (nat \<times> 's) option"
    and rl :: "nat \<Rightarrow> 's \<Rightarrow> 's option"
    and null :: nat
  assumes al_law: "invar s \<Longrightarrow> 0 < n \<Longrightarrow>
      \<exists>off s'. al n s = Some (off, s') \<and> invar s' \<and> capacity s' = capacity s \<and>
        (if off = null then s' = s
         else off + n \<le> capacity s \<and> ab s off = None \<and> ab s' = (ab s)(off \<mapsto> n))"
    and rl_law: "invar s \<Longrightarrow> ab s off = Some n \<Longrightarrow>
      \<exists>s'. rl off s = Some s' \<and> invar s' \<and> capacity s' = capacity s \<and> ab s' = (ab s)(off := None)"
    and disjoint_law: "invar s \<Longrightarrow> ab s o1 = Some n1 \<Longrightarrow> ab s o2 = Some n2 \<Longrightarrow> o1 < o2 \<Longrightarrow>
      o1 + n1 \<le> o2 \<and> o2 + n2 \<le> capacity s"
begin

lemma run_safe:
  "invar s \<Longrightarrow> obedient al rl ab ops s \<Longrightarrow>
     \<exists>s'. run_ops al rl ops s = Some s' \<and> invar s' \<and> capacity s' = capacity s"
proof (induction ops arbitrary: s)
  case (Cons x ops)
  show ?case
  proof (cases x)
    case (Alloc n)
    then obtain off s' where "al n s = Some (off, s')" "invar s'" "capacity s' = capacity s"
      using al_law [of s n] Cons.prems by auto
    then show ?thesis using Cons Alloc by fastforce
  next
    case (Release off)
    then obtain n where "ab s off = Some n" using Cons.prems by auto
    then obtain s' where "rl off s = Some s'" "invar s'" "capacity s' = capacity s"
      using rl_law [of s off n] Cons.prems by auto
    then show ?thesis using Cons Release by fastforce
  qed
qed simp

lemma alloc_then_release:
  assumes "invar s" "0 < n" "al n s = Some (off, s1)" "off \<noteq> null"
  shows "\<exists>s2. rl off s1 = Some s2 \<and> invar s2 \<and> ab s2 = ab s"
proof -
  have s1: "invar s1" "ab s off = None" "ab s1 = (ab s)(off \<mapsto> n)"
    using al_law [OF assms(1,2)] assms(3,4) by auto
  then obtain s2 where "rl off s1 = Some s2" "invar s2" "ab s2 = (ab s1)(off := None)"
    using rl_law [of s1 off n] by auto
  then show ?thesis using s1 by (auto simp: fun_upd_idem)
qed

lemma alloc_disjoint:
  assumes "invar s" "0 < n" "al n s = Some (off, s')" "off \<noteq> null" "ab s p = Some m"
  shows "off + n \<le> p \<or> p + m \<le> off"
proof -
  have s': "invar s'" "ab s off = None" "ab s' = (ab s)(off \<mapsto> n)"
    using al_law [OF assms(1,2)] assms(3,4) by auto
  then have "off \<noteq> p" "ab s' p = Some m" "ab s' off = Some n" using assms(5) by auto
  then show ?thesis
    using disjoint_law [OF s'(1), of off n p m] disjoint_law [OF s'(1), of p m off n] by linarith
qed

end

interpretation fifo: region_allocator fifo_wf fifo_abs total_size allocate_region release_region kNullOffset
proof unfold_locales
  show "\<exists>off s'. allocate_region n s = Some (off, s') \<and> fifo_wf s' \<and> total_size s' = total_size s \<and>
      (if off = kNullOffset then s' = s
       else off + n \<le> total_size s \<and> fifo_abs s off = None \<and> fifo_abs s' = (fifo_abs s)(off \<mapsto> n))"
    if "fifo_wf s" "0 < n" for s n
    using allocate_region_correct [OF that] by (auto split: if_splits)
  show "\<exists>s'. release_region off s = Some s' \<and> fifo_wf s' \<and> total_size s' = total_size s \<and>
      fifo_abs s' = (fifo_abs s)(off := None)"
    if "fifo_wf s" "fifo_abs s off = Some n" for s off n
    using release_region_correct [OF that] .
  show "o1 + n1 \<le> o2 \<and> o2 + n2 \<le> total_size s"
    if "fifo_wf s" "fifo_abs s o1 = Some n1" "fifo_abs s o2 = Some n2" "o1 < o2" for s o1 n1 o2 n2
    using fifo_abs_disjoint [OF that] by simp
qed

lemma unallocated_single_region:
  assumes "fifo_wf st" "fifo_abs st = Map.empty"
  shows "\<exists>a. regions st = [a] \<and> active_region st = a \<and> \<not> allocated a \<and> rsize a = total_size st"
  using assms(1)
proof (cases rule: fifo_wfE)
  case (1 b a c)
  then have "b = []" "c = []"
    using assms(2) any_current_correct [OF assms(1)] by (auto simp: any_current_allocated_regions_def)
  then show ?thesis using 1 by simp
qed

section \<open>Properties\<close>

text \<open>C22. \<open>FifoAllocator::AllocateRegion\<close> on a well-formed state always returns, keeps the
  state well formed, and either reports \<open>kNullOffset\<close>, in which case nothing changed and no
  free region has the size asked for, or returns a slice inside the buffer that overlaps no
  slice handed out before, every one of which stays allocated.\<close>

theorem allocate_region_hands_out_free_slice:
  assumes "fifo_wf st" "0 < n"
  shows "\<exists>off st'. allocate_region n st = Some (off, st') \<and> fifo_wf st' \<and>
    (if off = kNullOffset
     then st' = st \<and> (\<forall>r \<in> set (regions st). \<not> allocated r \<longrightarrow> rsize r < n)
     else off + n \<le> total_size st \<and> fifo_abs st' = (fifo_abs st)(off \<mapsto> n) \<and>
       (\<forall>p m. fifo_abs st p = Some m \<longrightarrow> off + n \<le> p \<or> p + m \<le> off))"
proof -
  obtain off st' where *: "allocate_region n st = Some (off, st')" "fifo_wf st'"
    "if off = kNullOffset
     then st' = st \<and> (\<forall>r \<in> set (regions st). \<not> allocated r \<longrightarrow> rsize r < n)
     else off + n \<le> total_size st \<and> fifo_abs st off = None \<and> fifo_abs st' = (fifo_abs st)(off \<mapsto> n)"
    using allocate_region_correct [OF assms] by blast
  then show ?thesis using fifo.alloc_disjoint [OF assms *(1)] by (auto split: if_splits)
qed

text \<open>A buffer of 100 bytes with a slice of 40 and one of 20 handed out, and the first freed.\<close>

definition fifo_example :: fifo where
  "fifo_example = \<lparr>total_size = 100, regions =
     [\<lparr>allocated = False, rsize = 40, roffset = 0, is_active = False\<rparr>,
      \<lparr>allocated = True, rsize = 20, roffset = 40, is_active = False\<rparr>,
      \<lparr>allocated = False, rsize = 40, roffset = 60, is_active = True\<rparr>], lookaside = 0\<rparr>"

lemma fifo_example_wf: "fifo_wf fifo_example"
  unfolding fifo_wf_flat one_active_def
  by (simp add: fifo_example_def kNullOffset_def)

lemma fifo_example_reached:
  "(do { st \<leftarrow> fifo_reset 100; (x, st) \<leftarrow> allocate_region 40 st; (y, st) \<leftarrow> allocate_region 20 st;
         release_region x st }) = Some fifo_example"
  by (simp add: fifo_reset_def allocate_region_def take_from_active_def get_free_def release_region_def
      before_active_def active_region_def after_active_def free_between_def coalesce_prev_def
      fifo_example_def kNullOffset_def)

theorem allocate_region_hands_out_free_slice_witness:
  "\<exists>off st'. allocate_region 50 fifo_example = Some (off, st') \<and> fifo_wf st' \<and>
    (if off = kNullOffset
     then st' = fifo_example \<and> (\<forall>r \<in> set (regions fifo_example). \<not> allocated r \<longrightarrow> rsize r < 50)
     else off + 50 \<le> total_size fifo_example \<and> fifo_abs st' = (fifo_abs fifo_example)(off \<mapsto> 50) \<and>
       (\<forall>p m. fifo_abs fifo_example p = Some m \<longrightarrow> off + 50 \<le> p \<or> p + m \<le> off))"
  by (rule allocate_region_hands_out_free_slice [OF fifo_example_wf]) simp

text \<open>\<open>FifoAllocator::ReleaseRegion\<close> of an offset that is allocated always returns (its
  debug checks cannot fire), removes exactly that slice and keeps the list well formed: the
  freed bytes are merged with free neighbours, so no two adjacent regions are free.\<close>

theorem release_region_frees_exactly_one:
  assumes "fifo_wf st" "fifo_abs st off = Some n"
  shows "\<exists>st'. release_region off st = Some st' \<and> fifo_wf st' \<and> no_adjacent_free (regions st') \<and>
    fifo_abs st' = (fifo_abs st)(off := None)"
  using release_region_correct [OF assms] by (auto simp: fifo_wf_flat)

theorem release_region_frees_exactly_one_witness:
  "\<exists>st'. release_region 40 fifo_example = Some st' \<and> fifo_wf st' \<and> no_adjacent_free (regions st') \<and>
    fifo_abs st' = (fifo_abs fifo_example)(40 := None)"
  by (rule release_region_frees_exactly_one [OF fifo_example_wf, of 40 20])
    (simp add: fifo_example_def fifo_abs_def)

text \<open>C28. Any sequence of \<open>AllocateRegion\<close> and \<open>ReleaseRegion\<close> calls after \<open>Reset\<close>, in which
  sizes are positive and only allocated offsets are released, runs to the end without a
  failed check and leaves the allocator well formed, every pair of allocated slices
  disjoint.\<close>

theorem fifo_runs_are_safe:
  assumes "n < kNullOffset" "fifo_reset n = Some st" "obedient allocate_region release_region fifo_abs ops st"
  shows "\<exists>st'. run_ops allocate_region release_region ops st = Some st' \<and> fifo_wf st' \<and> total_size st' = n \<and>
    (\<forall>o1 n1 o2 n2. fifo_abs st' o1 = Some n1 \<longrightarrow> fifo_abs st' o2 = Some n2 \<longrightarrow> o1 < o2 \<longrightarrow>
       o1 + n1 \<le> o2 \<and> o2 + n2 \<le> n)"
proof -
  have "fifo_wf st" "total_size st = n" using fifo_reset_wf [OF assms(1)] assms(2) by auto
  then obtain st' where "run_ops allocate_region release_region ops st = Some st'" "fifo_wf st'"
    "total_size st' = n"
    using fifo.run_safe [OF _ assms(3)] by auto
  then show ?thesis using fifo.disjoint_law [of st'] by auto
qed

theorem fifo_runs_are_safe_witness:
  "\<exists>st'. run_ops allocate_region release_region [Alloc 40, Alloc 20, Release 0]
      \<lparr>total_size = 100, regions = [\<lparr>allocated = False, rsize = 100, roffset = 0, is_active = True\<rparr>],
        lookaside = 0\<rparr> = Some st' \<and> fifo_wf st' \<and> total_size st' = 100 \<and>
    (\<forall>o1 n1 o2 n2. fifo_abs st' o1 = Some n1 \<longrightarrow> fifo_abs st' o2 = Some n2 \<longrightarrow> o1 < o2 \<longrightarrow>
       o1 + n1 \<le> o2 \<and> o2 + n2 \<le> 100)"
  by (rule fifo_runs_are_safe)
    (simp_all add: fifo_reset_def allocate_region_def take_from_active_def get_free_def release_region_def
      before_active_def active_region_def after_active_def free_between_def coalesce_prev_def
      fifo_abs_def kNullOffset_def)

text \<open>Nothing leaks: \<open>AnyCurrentAllocatedRegions\<close> is false exactly when no slice is
  handed out, and then a request for any size up to that of the buffer succeeds.\<close>

theorem released_buffer_is_whole_again:
  assumes "fifo_wf st"
  shows "(any_current_allocated_regions st \<longleftrightarrow> fifo_abs st \<noteq> Map.empty) \<and>
    (fifo_abs st = Map.empty \<longrightarrow> 0 < n \<longrightarrow> n \<le> total_size st \<longrightarrow>
      (\<exists>st'. allocate_region n st = Some (0, st') \<and> fifo_abs st' = [0 \<mapsto> n]))"
proof -
  have "\<exists>st'. allocate_region n st = Some (0, st') \<and> fifo_abs st' = [0 \<mapsto> n]"
    if *: "fifo_abs st = Map.empty" "0 < n" "n \<le> total_size st"
  proof -
    obtain a where a: "regions st = [a]" "active_region st = a" "\<not> allocated a" "rsize a = total_size st"
      using unallocated_single_region [OF assms *(1)] by blast
    obtain off st' where t: "allocate_region n st = Some (off, st')" "fifo_wf st'"
      "if off = kNullOffset then st' = st \<and> (\<forall>r \<in> set (regions st). \<not> allocated r \<longrightarrow> rsize r < n)
       else off + n \<le> total_size st \<and> fifo_abs st off = None \<and> fifo_abs st' = (fifo_abs st)(off \<mapsto> n)"
      using allocate_region_correct [OF assms *(2)] by blast
    have "off = roffset a"
      using t(1) a *(3) by (auto simp: allocate_region_def take_from_active_def Let_def bind_Some_iff
          get_free_def split: if_splits list.splits)
    moreover have "roffset a = 0" using assms a(1) by (simp add: fifo_wf_def)
    ultimately show ?thesis using t a *(1,3) by (auto simp: kNullOffset_def)
  qed
  then show ?thesis using any_current_correct [OF assms] by blast
qed

definition fifo_fresh :: fifo where
  "fifo_fresh = \<lparr>total_size = 64, regions =
     [\<lparr>allocated = False, rsize = 64, roffset = 0, is_active = True\<rparr>], lookaside = 0\<rparr>"

theorem released_buffer_is_whole_again_witness:
  "\<exists>st'. allocate_region 64 fifo_fresh = Some (0, st') \<and> fifo_abs st' = [0 \<mapsto> 64] \<and>
    \<not> any_current_allocated_regions fifo_fresh"
proof -
  have wf: "fifo_wf fifo_fresh"
    by (simp add: fifo_wf_flat one_active_def fifo_fresh_def kNullOffset_def)
  have "fifo_abs fifo_fresh = Map.empty" "64 \<le> total_size fifo_fresh"
    by (simp_all add: fifo_abs_def fifo_fresh_def)
  then show ?thesis using released_buffer_is_whole_again [OF wf, of 64] by auto
qed

end
