(* ===== verification/Ordered_Map.thy ===== *)
theory Ordered_Map
  imports Media_Prelude
begin

text \<open>
  \<open>std::map\<close> with its iterators, as the demux code uses it: an association list with strictly
  increasing keys. An iterator is the key of the element it refers to, or \<^term>\<open>None\<close> for
  \<open>end()\<close>; dereferencing one whose key is not in the map (an erased element) is undefined
  behaviour, which callers express with \<^const>\<open>map_of\<close>.
\<close>

type_synonym 'v omap = "(nat \<times> 'v) list"
type_synonym iter = "nat option"

definition omap_ok :: "'v omap \<Rightarrow> bool" where
  "omap_ok m \<longleftrightarrow> sorted_wrt (<) (map fst m)"

definition map_begin :: "'v omap \<Rightarrow> iter" where
  "map_begin m = (case m of [] \<Rightarrow> None | (k, v) # _ \<Rightarrow> Some k)"

fun lower_bound :: "nat \<Rightarrow> 'v omap \<Rightarrow> iter" where
  "lower_bound x [] = None"
| "lower_bound x ((k, v) # m) = (if x \<le> k then Some k else lower_bound x m)"

fun next_key :: "nat \<Rightarrow> 'v omap \<Rightarrow> iter" where
  "next_key x [] = None"
| "next_key x ((k, v) # m) = (if x < k then Some k else next_key x m)"

text \<open>Decrementing an iterator that is not \<open>begin()\<close>.\<close>

definition prev_key :: "iter \<Rightarrow> 'v omap \<Rightarrow> iter" where
  "prev_key it m =
     (case rev (filter (\<lambda>(k, v). case it of None \<Rightarrow> True | Some x \<Rightarrow> k < x) m) of
        [] \<Rightarrow> None | (k, v) # _ \<Rightarrow> Some k)"

text \<open>\<open>insert\<close> and \<open>emplace\<close> leave an element that has the key alone.\<close>

fun map_insert :: "nat \<Rightarrow> 'v \<Rightarrow> 'v omap \<Rightarrow> 'v omap" where
  "map_insert x y [] = [(x, y)]"
| "map_insert x y ((k, v) # m) =
     (if x < k then (x, y) # (k, v) # m
      else if x = k then (k, v) # m
      else (k, v) # map_insert x y m)"

definition map_assign :: "nat \<Rightarrow> 'v \<Rightarrow> 'v omap \<Rightarrow> 'v omap" where
  "map_assign x y m = map (\<lambda>(k, v). (k, if k = x then y else v)) m"

definition map_erase :: "nat \<Rightarrow> 'v omap \<Rightarrow> 'v omap" where
  "map_erase x m = filter (\<lambda>(k, v). k \<noteq> x) m"

section \<open>Lemmas\<close>

definition keys :: "'v omap \<Rightarrow> nat set" where
  "keys m = fst ` set m"

lemma keys_simps [simp]:
  "keys [] = {}"
  "keys ((k, v) # m) = insert k (keys m)"
  by (simp_all add: keys_def)

lemma keysI: "(k, v) \<in> set m \<Longrightarrow> k \<in> keys m"
  by (force simp: keys_def)

lemma keys_iff: "k \<in> keys m \<longleftrightarrow> (\<exists>v. (k, v) \<in> set m)"
  by (force simp: keys_def)

lemma omap_ok_simps [simp]:
  "omap_ok []"
  "omap_ok ((k, v) # m) \<longleftrightarrow> (\<forall>k' \<in> keys m. k < k') \<and> omap_ok m"
  by (auto simp: omap_ok_def keys_def)

lemma omap_ok_distinct: "omap_ok m \<Longrightarrow> distinct (map fst m)"
  by (auto simp: omap_ok_def strict_sorted_iff)

lemma omap_mem: "omap_ok m \<Longrightarrow> (k, v) \<in> set m \<longleftrightarrow> map_of m k = Some v"
  using map_of_eq_Some_iff [OF omap_ok_distinct] by metis

lemma omap_unique: "omap_ok m \<Longrightarrow> (k, v) \<in> set m \<Longrightarrow> (k, v') \<in> set m \<Longrightarrow> v = v'"
  by (simp add: omap_mem)

lemma set_map_insert: "omap_ok m \<Longrightarrow> x \<notin> keys m \<Longrightarrow> set (map_insert x y m) = insert (x, y) (set m)"
  by (induction m rule: map_insert.induct) auto

lemma keys_map_insert: "keys (map_insert x y m) = insert x (keys m)"
  by (induction x y m rule: map_insert.induct) auto

lemma omap_ok_insert [simp]: "omap_ok m \<Longrightarrow> omap_ok (map_insert x y m)"
  by (induction x y m rule: map_insert.induct) (auto simp: keys_map_insert)

lemma set_map_erase: "set (map_erase x m) = {(k, v) \<in> set m. k \<noteq> x}"
  by (auto simp: map_erase_def)

lemma omap_ok_filter: "omap_ok m \<Longrightarrow> omap_ok (filter P m)"
  by (induction m) (fastforce simp: keys_iff)+

lemma omap_ok_erase [simp]: "omap_ok m \<Longrightarrow> omap_ok (map_erase x m)"
  unfolding map_erase_def by (rule omap_ok_filter)

lemma length_erase: "map_of m x = Some v \<Longrightarrow> length (map_erase x m) < length m"
  unfolding map_erase_def by (rule length_filter_less [of "(x, v)"]) (auto dest: map_of_SomeD)

lemma set_map_assign:
  "omap_ok m \<Longrightarrow> (x, z) \<in> set m \<Longrightarrow> set (map_assign x y m) = insert (x, y) (set m - {(x, z)})"
  (is "_ \<Longrightarrow> _ \<Longrightarrow> ?l = ?r")
proof -
  assume *: "omap_ok m" "(x, z) \<in> set m"
  have "(k, v) \<in> ?l \<longleftrightarrow> (k, v) \<in> ?r" for k v
  proof -
    have "(k, v) \<in> ?l \<longleftrightarrow> (if k = x then v = y \<and> x \<in> keys m else (k, v) \<in> set m)"
      by (force simp: map_assign_def image_iff keys_iff split: if_splits)
    then show ?thesis using * omap_unique [OF *(1), of x v z] by (auto simp: keys_iff)
  qed
  then show ?thesis by auto
qed

lemma keys_map_assign [simp]: "map fst (map_assign x y m) = map fst m"
  by (simp add: map_assign_def case_prod_unfold)

lemma omap_ok_assign [simp]: "omap_ok (map_assign x y m) = omap_ok m"
  by (simp add: omap_ok_def)

lemma map_begin_Some: "omap_ok m \<Longrightarrow> map_begin m = Some k \<Longrightarrow>
    k \<in> keys m \<and> (\<forall>k' \<in> keys m. k \<le> k')"
  by (cases m) (fastforce simp: map_begin_def)+

lemma map_begin_None [simp]: "map_begin m = None \<longleftrightarrow> m = []"
  by (cases m) (auto simp: map_begin_def)

lemma lower_bound_Some: "omap_ok m \<Longrightarrow> lower_bound x m = Some k \<longleftrightarrow>
    k \<in> keys m \<and> x \<le> k \<and> (\<forall>k' \<in> keys m. x \<le> k' \<longrightarrow> k \<le> k')"
  by (induction x m rule: lower_bound.induct) (auto split: if_splits)

lemma lower_bound_None: "lower_bound x m = None \<longleftrightarrow> (\<forall>k \<in> keys m. k < x)"
  by (induction x m rule: lower_bound.induct) (auto split: if_splits)

lemma next_key_Some: "omap_ok m \<Longrightarrow> next_key x m = Some k \<longleftrightarrow>
    k \<in> keys m \<and> x < k \<and> (\<forall>k' \<in> keys m. x < k' \<longrightarrow> k \<le> k')"
  by (induction x m rule: next_key.induct) (auto split: if_splits)

lemma next_key_None: "next_key x m = None \<longleftrightarrow> (\<forall>k \<in> keys m. k \<le> x)"
  by (induction x m rule: next_key.induct) (auto split: if_splits)

lemma last_key_max:
  "omap_ok m \<Longrightarrow> m \<noteq> [] \<Longrightarrow> \<forall>k \<in> keys m. k \<le> fst (last m)"
proof (induction m)
  case (Cons e m)
  obtain k v where e: "e = (k, v)" by (cases e)
  show ?case
  proof (cases "m = []")
    case False
    then have "fst (last m) \<in> keys m" by (simp add: keys_def)
    then have "k \<le> fst (last m)" using Cons.prems e by fastforce
    then show ?thesis using Cons False e by simp
  qed (simp add: e)
qed simp

lemma prev_key_Some:
  assumes "omap_ok m"
  shows "prev_key it m = Some k \<longleftrightarrow> k \<in> keys m \<and> (case it of None \<Rightarrow> True | Some x \<Rightarrow> k < x) \<and>
    (\<forall>k' \<in> keys m. (case it of None \<Rightarrow> True | Some x \<Rightarrow> k' < x) \<longrightarrow> k' \<le> k)"
proof -
  define P where "P = (\<lambda>k. case it of None \<Rightarrow> True | Some x \<Rightarrow> k < (x :: nat))"
  define f where "f = filter (\<lambda>(k, v). P k) m"
  have ok: "omap_ok f" unfolding f_def using assms by (rule omap_ok_filter)
  have mem: "keys f = {k \<in> keys m. P k}" unfolding f_def keys_def by force
  have "prev_key it m = (case rev f of [] \<Rightarrow> None | (k, v) # _ \<Rightarrow> Some k)"
    by (simp add: prev_key_def f_def P_def)
  also have "\<dots> = (if f = [] then None else Some (fst (last f)))"
    by (cases f rule: rev_cases) (auto split: prod.splits)
  finally have pk: "prev_key it m = (if f = [] then None else Some (fst (last f)))" .
  have "(prev_key it m = Some k) \<longleftrightarrow> k \<in> keys f \<and> (\<forall>k' \<in> keys f. k' \<le> k)"
  proof (cases "f = []")
    case False
    have "fst (last f) \<in> keys f" "\<forall>k \<in> keys f. k \<le> fst (last f)"
      using False last_key_max [OF ok] by (auto simp: keys_def)
    then show ?thesis using pk False by (auto intro: order_antisym)
  qed (simp add: pk)
  then show ?thesis unfolding mem P_def by auto
qed

lemma prev_key_exists:
  assumes "omap_ok m" "k \<in> keys m" "case it of None \<Rightarrow> True | Some x \<Rightarrow> k < x"
  shows "\<exists>k'. prev_key it m = Some k'"
proof -
  have "filter (\<lambda>(k, v). case it of None \<Rightarrow> True | Some x \<Rightarrow> k < x) m \<noteq> []"
    using assms(2,3) by (force simp: filter_empty_conv keys_iff)
  then show ?thesis by (auto simp: prev_key_def neq_Nil_conv split: list.splits)
qed

end
