(* ===== verification/Sparse_Byte_Buffer.thy ===== *)
theory Sparse_Byte_Buffer
  imports Ordered_Map
begin

text \<open>
  \<open>SparseByteBuffer\<close> (src/demux/sparse_byte_buffer.h, .cc): the bytes of an asset that have
  been read (regions) and the spans that have not (holes), each an ordered map by position.
  The class's \<open>Hole\<close> and \<open>Region\<close> are iterators, so \<open>null_hole()\<close> and \<open>null_region()\<close>
  are \<^term>\<open>None\<close>. Positions and sizes are naturals below the size of the asset, so the
  \<open>size_t\<close> additions do not wrap.
\<close>

section \<open>State and operations\<close>

record sparse =
  sb_size :: nat
  holes :: "nat omap"
  sb_regions :: "u8 list omap"

definition sb_initialize :: "nat \<Rightarrow> sparse" where
  "sb_initialize sz = \<lparr>sb_size = sz, holes = [(0, sz)], sb_regions = []\<rparr>"

text \<open>The two entries \<open>FindRegionContaining\<close> checks before it searches. \<open>Some None\<close>: no luck.\<close>

definition check_region_hint :: "nat \<Rightarrow> iter \<Rightarrow> u8 list omap \<Rightarrow> iter option" where
  "check_region_hint pos hint rs =
     (case hint of
        None \<Rightarrow> Some None
      | Some k \<Rightarrow> do {
          d \<leftarrow> map_of rs k;
          (if k \<le> pos then
             if k + length d \<le> pos then
               (case next_key k rs of
                  None \<Rightarrow> Some None
                | Some k' \<Rightarrow> do {
                    d' \<leftarrow> map_of rs k';
                    Some (if k' \<le> pos \<and> pos < k' + length d' then Some k' else None)
                  })
             else Some (Some k)
           else Some None)
        })"

definition search_region :: "nat \<Rightarrow> u8 list omap \<Rightarrow> iter option" where
  "search_region pos rs =
     (let it = lower_bound pos rs
      in if it \<noteq> map_begin rs \<and> (it = None \<or> the it > pos) then do {
           k \<leftarrow> prev_key it rs;
           d \<leftarrow> map_of rs k;
           dcheck (k \<le> pos);
           Some (if k + length d \<le> pos then None else Some k)
         } else Some it)"

definition find_region_containing :: "nat \<Rightarrow> iter \<Rightarrow> sparse \<Rightarrow> iter option" where
  "find_region_containing pos hint sb = do {
     dcheck (0 < sb_size sb);
     dcheck (pos < sb_size sb);
     hinted \<leftarrow> check_region_hint pos hint (sb_regions sb);
     (case hinted of
        Some k \<Rightarrow> Some (Some k)
      | None \<Rightarrow> search_region pos (sb_regions sb))
   }"

definition find_hole_containing :: "nat \<Rightarrow> sparse \<Rightarrow> iter option" where
  "find_hole_containing pos sb = do {
     dcheck (0 < sb_size sb);
     let it = lower_bound pos (holes sb);
     (if it \<noteq> map_begin (holes sb) \<and> (it = None \<or> the it > pos) then do {
        k \<leftarrow> prev_key it (holes sb);
        n \<leftarrow> map_of (holes sb) k;
        dcheck (k \<le> pos);
        Some (if k + n < pos then None else Some k)
      } else Some it)
   }"

definition split_hole :: "nat \<Rightarrow> nat \<Rightarrow> sparse \<Rightarrow> (nat \<times> sparse) option" where
  "split_hole pos k sb = do {
     n \<leftarrow> map_of (holes sb) k;
     (if k = pos then Some (k, sb)
      else do {
        dcheck (pos > k);
        dcheck (n > pos - k);
        Some (pos, sb\<lparr>holes :=
          map_insert pos (n - (pos - k)) (map_assign k (pos - k) (holes sb))\<rparr>)
      })
   }"

definition find_or_create_hole :: "nat \<Rightarrow> iter \<Rightarrow> sparse \<Rightarrow> (nat \<times> sparse) option" where
  "find_or_create_hole pos hint sb = do {
     dcheck (0 < sb_size sb);
     dcheck (holes sb \<noteq> []);
     k \<leftarrow> (if hint = None then map_begin (holes sb) else hint);
     n \<leftarrow> map_of (holes sb) k;
     (if k \<noteq> pos \<and> (k > pos \<or> k + n \<le> pos) then do {
        found \<leftarrow> find_hole_containing pos sb;
        k' \<leftarrow> found;
        split_hole pos k' sb
      } else split_hole pos k sb)
   }"

text \<open>The loop of \<open>Fill\<close> over the holes the new region takes up.\<close>

function fill_holes :: "nat \<Rightarrow> nat \<Rightarrow> iter \<Rightarrow> nat omap \<Rightarrow> (iter \<times> nat omap) option" where
  "fill_holes bytes pos it hs =
     (if bytes = 0 then Some (it, hs)
      else (case it of
        None \<Rightarrow> None
      | Some k \<Rightarrow>
          (case map_of hs k of
             None \<Rightarrow> None
           | Some n \<Rightarrow>
               if k \<noteq> pos then None
               else if bytes < n then
                 (let hs' = map_insert (k + bytes) (n - bytes) hs
                  in Some (next_key k (map_erase k hs'), map_erase k hs'))
               else
                 (let hs' = map_erase k hs
                  in case next_key k hs' of
                       None \<Rightarrow> if bytes - n = 0 then Some (map_begin hs', hs') else None
                     | Some k' \<Rightarrow> fill_holes (bytes - n) (pos + n) (Some k') hs'))))"
  by pat_completeness auto
termination
  by (relation "measure (\<lambda>(b, p, it, hs). length hs)") (auto intro: length_erase)

declare fill_holes.simps [simp del]

definition fill :: "iter \<Rightarrow> u8 list \<Rightarrow> sparse \<Rightarrow> (iter \<times> sparse) option" where
  "fill hole buffer sb = do {
     dcheck (0 < sb_size sb);
     k \<leftarrow> hole;
     n \<leftarrow> map_of (holes sb) k;
     dcheck (buffer \<noteq> []);
     dcheck (length buffer \<le> n);
     (it, hs) \<leftarrow> fill_holes (length buffer) k (Some k) (holes sb);
     Some (it, sb\<lparr>holes := hs, sb_regions := map_insert k buffer (sb_regions sb)\<rparr>)
   }"

section \<open>The abstract view\<close>

text \<open>The cached byte at a position.\<close>

definition byte_at :: "sparse \<Rightarrow> nat \<Rightarrow> u8 option" where
  "byte_at sb x =
     (case find (\<lambda>(k, d). k \<le> x \<and> x < k + length d) (sb_regions sb) of
        None \<Rightarrow> None
      | Some (k, d) \<Rightarrow> Some (d ! (x - k)))"

definition covers :: "('v \<Rightarrow> nat) \<Rightarrow> 'v omap \<Rightarrow> nat \<Rightarrow> bool" where
  "covers sz m x \<longleftrightarrow> (\<exists>(k, v) \<in> set m. k \<le> x \<and> x < k + sz v)"

definition spans_ok :: "('v \<Rightarrow> nat) \<Rightarrow> 'v omap \<Rightarrow> bool" where
  "spans_ok sz m \<longleftrightarrow> omap_ok m \<and> (\<forall>(k, v) \<in> set m. 0 < sz v) \<and>
     (\<forall>(k, v) \<in> set m. \<forall>(k', v') \<in> set m. k < k' \<longrightarrow> k + sz v \<le> k')"

abbreviation in_hole :: "sparse \<Rightarrow> nat \<Rightarrow> bool" where
  "in_hole sb \<equiv> covers id (holes sb)"

abbreviation in_region :: "sparse \<Rightarrow> nat \<Rightarrow> bool" where
  "in_region sb \<equiv> covers length (sb_regions sb)"

text \<open>Holes and regions tile the asset.\<close>

definition sparse_wf :: "sparse \<Rightarrow> bool" where
  "sparse_wf sb \<longleftrightarrow> 0 < sb_size sb \<and> spans_ok id (holes sb) \<and> spans_ok length (sb_regions sb) \<and>
     (\<forall>x. in_hole sb x \<or> in_region sb x \<longleftrightarrow> x < sb_size sb) \<and>
     (\<forall>x. \<not> (in_hole sb x \<and> in_region sb x))"

lemma sparse_wfD:
  assumes "sparse_wf sb"
  shows "0 < sb_size sb" "spans_ok id (holes sb)" "spans_ok length (sb_regions sb)"
    "\<And>x. in_hole sb x \<or> in_region sb x \<longleftrightarrow> x < sb_size sb"
    "\<And>x. in_hole sb x \<Longrightarrow> in_region sb x \<Longrightarrow> False"
  using assms unfolding sparse_wf_def by blast+

lemma spans_okD:
  assumes "spans_ok sz m"
  shows "omap_ok m" "(k, v) \<in> set m \<Longrightarrow> 0 < sz v"
    "(k, v) \<in> set m \<Longrightarrow> (k', v') \<in> set m \<Longrightarrow> k < k' \<Longrightarrow> k + sz v \<le> k'"
  using assms unfolding spans_ok_def by fastforce+

lemma coversI: "(k, v) \<in> set m \<Longrightarrow> k \<le> x \<Longrightarrow> x < k + sz v \<Longrightarrow> covers sz m x"
  by (auto simp: covers_def)

lemma coversE:
  assumes "covers sz m x"
  obtains k v where "(k, v) \<in> set m" "k \<le> x" "x < k + sz v"
  using assms by (auto simp: covers_def)

lemma span_unique:
  assumes "spans_ok sz m" "(k, v) \<in> set m" "k \<le> x" "x < k + sz v"
    "(k', v') \<in> set m" "k' \<le> x" "x < k' + sz v'"
  shows "k' = k \<and> v' = v"
proof -
  have "\<not> k < k'" "\<not> k' < k"
    using spans_okD(3) [OF assms(1,2,5)] spans_okD(3) [OF assms(1,5,2)] assms by linarith+
  then have "k' = k" by simp
  then show ?thesis using omap_unique [OF spans_okD(1) [OF assms(1)]] assms(2,5) by metis
qed

lemma byte_at_Some:
  assumes "spans_ok length (sb_regions sb)" "(k, d) \<in> set (sb_regions sb)" "k \<le> x" "x < k + length d"
  shows "byte_at sb x = Some (d ! (x - k))"
proof (cases "find (\<lambda>(k, d). k \<le> x \<and> x < k + length d) (sb_regions sb)")
  case None
  then show ?thesis using assms(2-4) by (auto simp: find_None_iff)
next
  case (Some e)
  obtain k' d' where e: "e = (k', d')" by (cases e)
  have "(k', d') \<in> set (sb_regions sb)" "k' \<le> x" "x < k' + length d'"
    using find_SomeD [OF Some] e by auto
  then have "k' = k \<and> d' = d" using span_unique [OF assms] by blast
  then show ?thesis using Some e by (simp add: byte_at_def)
qed

lemma byte_at_None: "byte_at sb x = None \<longleftrightarrow> \<not> in_region sb x"
  by (auto simp: byte_at_def covers_def find_None_iff split: option.splits dest!: find_SomeD)

text \<open>The last entry at or before a position, where \<open>lower_bound\<close> and \<open>--\<close> take the search.\<close>

lemma search_back:
  assumes "omap_ok m" "k0 \<in> keys m" "k0 \<le> pos"
  shows "(\<exists>k. lower_bound pos m = Some k \<and> k = pos) \<or>
    (lower_bound pos m \<noteq> map_begin m \<and> (lower_bound pos m \<noteq> None \<longrightarrow> the (lower_bound pos m) > pos) \<and>
     (\<exists>k. prev_key (lower_bound pos m) m = Some k \<and> k \<in> keys m \<and> k < pos \<and>
       (\<forall>k' \<in> keys m. k' \<le> pos \<longrightarrow> k' \<le> k)))"
proof (cases "lower_bound pos m")
  case None
  then have lt: "\<forall>k \<in> keys m. k < pos" by (simp add: lower_bound_None)
  obtain k where k: "prev_key None m = Some k" using prev_key_exists [OF assms(1,2), of None] by auto
  then have "k \<in> keys m" "\<forall>k' \<in> keys m. k' \<le> k" using prev_key_Some [OF assms(1), of None k] by auto
  moreover have "None \<noteq> map_begin m" using assms(2) by (metis empty_iff keys_simps(1) map_begin_None)
  ultimately show ?thesis using None k lt by auto
next
  case (Some x)
  then have x: "x \<in> keys m" "pos \<le> x" "\<forall>k' \<in> keys m. pos \<le> k' \<longrightarrow> x \<le> k'"
    by (simp_all add: lower_bound_Some [OF assms(1)])
  show ?thesis
  proof (cases "x = pos")
    case True
    then show ?thesis using Some by auto
  next
    case False
    then have lt: "pos < x" using x(2) by simp
    obtain k where k: "prev_key (Some x) m = Some k"
      using prev_key_exists [OF assms(1,2), of "Some x"] assms(3) lt by auto
    then have km: "k \<in> keys m" "k < x" "\<forall>k' \<in> keys m. k' < x \<longrightarrow> k' \<le> k"
      using prev_key_Some [OF assms(1), of "Some x" k] by auto
    have "k < pos" using km x(3) False by (metis linorder_not_le)
    moreover have "map_begin m \<noteq> Some x"
      using map_begin_Some [OF assms(1), of x] assms(2,3) lt by fastforce
    ultimately show ?thesis using Some lt k km by auto
  qed
qed

lemma search_front:
  assumes "omap_ok m" "\<forall>k \<in> keys m. pos < k"
  shows "lower_bound pos m = map_begin m"
  using assms by (cases m) (auto simp: map_begin_def)

lemma omap_key_value: "omap_ok m \<Longrightarrow> k \<in> keys m \<Longrightarrow> \<exists>v. map_of m k = Some v \<and> (k, v) \<in> set m"
  by (auto simp: keys_iff omap_mem)

section \<open>Searching\<close>

lemma key_in_span: "spans_ok sz m \<Longrightarrow> (k, v) \<in> set m \<Longrightarrow> k < k + sz v"
  using spans_okD(2) by fastforce

lemma search_region_correct:
  assumes "spans_ok length rs"
  shows "search_region pos rs = Some
    (if \<exists>k \<in> keys rs. k \<le> pos then
       (if covers length rs pos then Some (THE k. \<exists>d. (k, d) \<in> set rs \<and> k \<le> pos \<and> pos < k + length d) else None)
     else map_begin rs)"
proof (cases "\<exists>k \<in> keys rs. k \<le> pos")
  case False
  then have "lower_bound pos rs = map_begin rs"
    using search_front [OF spans_okD(1) [OF assms]] by (meson not_le)
  then show ?thesis using False by (simp add: search_region_def)
next
  case True
  note ok = spans_okD(1) [OF assms]
  have the_key: "(THE k. \<exists>d. (k, d) \<in> set rs \<and> k \<le> pos \<and> pos < k + length d) = k"
    if "(k, d) \<in> set rs" "k \<le> pos" "pos < k + length d" for k d
    using that span_unique [OF assms that] by blast
  from True obtain k0 where "k0 \<in> keys rs" "k0 \<le> pos" by blast
  from search_back [OF ok this] show ?thesis
  proof (elim disjE exE conjE)
    fix k assume lb: "lower_bound pos rs = Some k" "k = pos"
    then have "k \<in> keys rs" using lower_bound_Some [OF ok] by blast
    then obtain d where d: "(k, d) \<in> set rs" by (auto simp: keys_iff)
    then have "pos < k + length d" using key_in_span [OF assms d] lb(2) by simp
    then show ?thesis
      using lb d True the_key [of k d] by (auto simp: search_region_def coversI)
  next
    fix k assume lb: "lower_bound pos rs \<noteq> map_begin rs"
      "lower_bound pos rs \<noteq> None \<longrightarrow> pos < the (lower_bound pos rs)"
      and k: "prev_key (lower_bound pos rs) rs = Some k" "k \<in> keys rs" "k < pos"
      "\<forall>k' \<in> keys rs. k' \<le> pos \<longrightarrow> k' \<le> k"
    obtain d where d: "map_of rs k = Some d" "(k, d) \<in> set rs" using omap_key_value [OF ok k(2)] by blast
    have r: "search_region pos rs = Some (if k + length d \<le> pos then None else Some k)"
      using lb k d by (auto simp: search_region_def)
    have "covers length rs pos \<longleftrightarrow> pos < k + length d"
    proof
      assume "covers length rs pos"
      then obtain k' d' where e: "(k', d') \<in> set rs" "k' \<le> pos" "pos < k' + length d'" by (rule coversE)
      have "k' \<le> k" using k(4) e by (auto intro: keysI)
      moreover have "\<not> k' < k" using spans_okD(3) [OF assms e(1) d(2)] e(3) k(3) by linarith
      ultimately have "k' = k" by simp
      then show "pos < k + length d" using omap_unique [OF ok d(2), of d'] e by metis
    qed (use d(2) k(3) in \<open>auto intro: coversI\<close>)
    then show ?thesis using r True d(2) k(3) the_key [of k d] by auto
  qed
qed

lemma check_region_hint_correct:
  assumes "spans_ok length rs" "case hint of None \<Rightarrow> True | Some k \<Rightarrow> k \<in> keys rs"
  shows "\<exists>r. check_region_hint pos hint rs = Some r \<and>
    (\<forall>k. r = Some k \<longrightarrow> (\<exists>d. (k, d) \<in> set rs \<and> k \<le> pos \<and> pos < k + length d))"
proof (cases hint)
  case (Some k)
  note ok = spans_okD(1) [OF assms(1)]
  obtain d where d: "map_of rs k = Some d" "(k, d) \<in> set rs"
    using omap_key_value [OF ok, of k] assms(2) Some by auto
  show ?thesis
  proof (cases "k \<le> pos \<and> k + length d \<le> pos")
    case True
    show ?thesis
    proof (cases "next_key k rs")
      case (Some k')
      then have "k' \<in> keys rs" using next_key_Some [OF ok] by blast
      then obtain d' where d': "map_of rs k' = Some d'" "(k', d') \<in> set rs"
        using omap_key_value [OF ok] by blast
      then show ?thesis using Some True d \<open>hint = Some k\<close> by (auto simp: check_region_hint_def)
    qed (use True d \<open>hint = Some k\<close> in \<open>auto simp: check_region_hint_def\<close>)
  next
    case False
    then show ?thesis using d Some by (auto simp: check_region_hint_def)
  qed
qed (simp add: check_region_hint_def)

text \<open>\<open>FindRegionContaining\<close>, with the answer it gives in every case.\<close>

lemma find_region_containing_exact:
  assumes "sparse_wf sb" "pos < sb_size sb" "case hint of None \<Rightarrow> True | Some k \<Rightarrow> k \<in> keys (sb_regions sb)"
  shows "\<exists>it. find_region_containing pos hint sb = Some it \<and>
    (if in_region sb pos then \<exists>k d. it = Some k \<and> (k, d) \<in> set (sb_regions sb) \<and> k \<le> pos \<and> pos < k + length d
     else it = (if \<exists>k \<in> keys (sb_regions sb). k \<le> pos then None else map_begin (sb_regions sb)))"
proof -
  note wf = sparse_wfD [OF assms(1)]
  note sp = wf(3)
  obtain r where r: "check_region_hint pos hint (sb_regions sb) = Some r"
    "\<And>k. r = Some k \<Longrightarrow> \<exists>d. (k, d) \<in> set (sb_regions sb) \<and> k \<le> pos \<and> pos < k + length d"
    using check_region_hint_correct [OF sp assms(3)] by blast
  show ?thesis
  proof (cases r)
    case (Some k)
    then obtain d where "(k, d) \<in> set (sb_regions sb)" "k \<le> pos" "pos < k + length d" using r(2) by blast
    then show ?thesis using r(1) Some wf(1) assms(2) by (auto simp: find_region_containing_def coversI)
  next
    case None
    have f: "find_region_containing pos hint sb = search_region pos (sb_regions sb)"
      using r(1) None wf(1) assms(2) by (simp add: find_region_containing_def)
    show ?thesis
    proof (cases "in_region sb pos")
      case True
      then obtain k d where kd: "(k, d) \<in> set (sb_regions sb)" "k \<le> pos" "pos < k + length d" by (rule coversE)
      then have "(THE k. \<exists>d. (k, d) \<in> set (sb_regions sb) \<and> k \<le> pos \<and> pos < k + length d) = k"
        using span_unique [OF sp kd] by blast
      then show ?thesis using f search_region_correct [OF sp, of pos] kd True by (auto intro: keysI)
    next
      case False
      then show ?thesis using f search_region_correct [OF sp, of pos] by auto
    qed
  qed
qed

lemma find_hole_containing_in_hole:
  assumes "sparse_wf sb" "(k, n) \<in> set (holes sb)" "k \<le> pos" "pos < k + n"
  shows "find_hole_containing pos sb = Some (Some k)"
proof -
  note wf = sparse_wfD [OF assms(1)]
  note sp = wf(2)
  note ok = spans_okD(1) [OF sp]
  have uniq: "k' = k" if "(k', n') \<in> set (holes sb)" "k' \<le> pos" "pos < k' + n'" for k' n'
    using span_unique [OF sp assms(2), of pos k' n'] assms that by simp
  from search_back [OF ok keysI [OF assms(2)] assms(3)] show ?thesis
  proof (elim disjE exE conjE)
    fix x assume lb: "lower_bound pos (holes sb) = Some x" "x = pos"
    then have "x \<in> keys (holes sb)" using lower_bound_Some [OF ok] by blast
    then obtain n' where n': "(x, n') \<in> set (holes sb)" by (auto simp: keys_iff)
    then have "x = k" using uniq [of x n'] lb(2) key_in_span [OF sp n'] by simp
    then show ?thesis using lb wf(1) by (simp add: find_hole_containing_def)
  next
    fix x assume lb: "lower_bound pos (holes sb) \<noteq> map_begin (holes sb)"
      "lower_bound pos (holes sb) \<noteq> None \<longrightarrow> pos < the (lower_bound pos (holes sb))"
      and x: "prev_key (lower_bound pos (holes sb)) (holes sb) = Some x" "x \<in> keys (holes sb)" "x < pos"
      "\<forall>k' \<in> keys (holes sb). k' \<le> pos \<longrightarrow> k' \<le> x"
    obtain n' where n': "map_of (holes sb) x = Some n'" "(x, n') \<in> set (holes sb)"
      using omap_key_value [OF ok x(2)] by blast
    have "k \<le> x" using x(4) assms(2,3) by (auto intro: keysI)
    moreover have "\<not> k < x" using spans_okD(3) [OF sp assms(2) n'(2)] assms(4) x(3) by auto
    ultimately have "x = k" by simp
    moreover have "n' = n" using calculation n'(2) assms(2) omap_unique [OF ok] by blast
    ultimately show ?thesis
      using lb x n' wf(1) assms(3,4) by (auto simp: find_hole_containing_def Let_def)
  qed
qed

section \<open>Creating and filling holes\<close>

lemma sparse_wfI:
  assumes "0 < sb_size sb" "spans_ok id (holes sb)" "spans_ok length (sb_regions sb)"
    "\<And>x. in_hole sb x \<or> in_region sb x \<longleftrightarrow> x < sb_size sb"
    "\<And>x. in_hole sb x \<Longrightarrow> in_region sb x \<Longrightarrow> False"
  shows "sparse_wf sb"
  using assms unfolding sparse_wf_def by blast

lemma spans_split:
  assumes "spans_ok id hs" "(k, n) \<in> set hs" "k < pos" "pos < k + n"
  defines "hs' \<equiv> map_insert pos (n - (pos - k)) (map_assign k (pos - k) hs)"
  shows "spans_ok id hs'" and "\<And>x. covers id hs' x \<longleftrightarrow> covers id hs x"
    and "(pos, n - (pos - k)) \<in> set hs'" and "keys hs' = insert pos (keys hs)"
    and "(k, pos - k) \<in> set hs'"
proof -
  note ok = spans_okD(1) [OF assms(1)]
  have fresh: "pos \<notin> keys hs"
  proof
    assume "pos \<in> keys hs"
    then obtain m where "(pos, m) \<in> set hs" by (auto simp: keys_iff)
    then show False using spans_okD(3) [OF assms(1,2)] assms(3,4) by fastforce
  qed
  have kk: "keys (map_assign k (pos - k) hs) = keys hs" by (simp add: keys_def flip: set_map)
  have S: "set hs' = insert (pos, n - (pos - k)) (insert (k, pos - k) (set hs - {(k, n)}))"
    unfolding hs'_def using set_map_insert [of "map_assign k (pos - k) hs" pos] fresh kk ok
      set_map_assign [OF ok assms(2)] by simp
  show "keys hs' = insert pos (keys hs)" unfolding hs'_def keys_map_insert kk ..
  show "(pos, n - (pos - k)) \<in> set hs'" "(k, pos - k) \<in> set hs'" unfolding S by simp_all
  have other: "k' + n' \<le> k \<or> k + n \<le> k'" if "(k', n') \<in> set hs" "(k', n') \<noteq> (k, n)" for k' n'
    using spans_okD(3) [OF assms(1) that(1) assms(2)] spans_okD(3) [OF assms(1) assms(2) that(1)]
      omap_unique [OF ok, of k n' n] that assms(2) by (cases k' k rule: linorder_cases) auto
  show "spans_ok id hs'"
    unfolding spans_ok_def
  proof (intro conjI)
    show "omap_ok hs'" unfolding hs'_def using ok by simp
    show "\<forall>(k, v) \<in> set hs'. 0 < id v"
      unfolding S using spans_okD(2) [OF assms(1)] assms(3,4) by auto
    show "\<forall>(a, v) \<in> set hs'. \<forall>(b, w) \<in> set hs'. a < b \<longrightarrow> a + id v \<le> b"
    proof safe
      fix a v b w assume ab: "(a, v) \<in> set hs'" "(b, w) \<in> set hs'" "a < b"
      have cases: "(c = pos \<and> u = n - (pos - k)) \<or> (c = k \<and> u = pos - k) \<or>
          ((c, u) \<in> set hs \<and> (c, u) \<noteq> (k, n))" if "(c, u) \<in> set hs'" for c u
        using that unfolding S by auto
      have old: "a + v \<le> b" if "(a, v) \<in> set hs" "(b, w) \<in> set hs"
        using spans_okD(3) [OF assms(1) that ab(3)] by simp
      have pos_w: "0 < w" if "(b, w) \<in> set hs" using spans_okD(2) [OF assms(1) that] by simp
      have "a + v \<le> b"
        using cases [OF ab(1)] cases [OF ab(2)]
      proof (elim disjE conjE)
        assume "(a, v) \<in> set hs" "(a, v) \<noteq> (k, n)" "(b, w) \<in> set hs" "(b, w) \<noteq> (k, n)"
        then show ?thesis using old by blast
      next
        assume "(a, v) \<in> set hs" "(a, v) \<noteq> (k, n)" "b = pos" "w = n - (pos - k)"
        then show ?thesis using other [of a v] ab(3) assms(3,4) by linarith
      next
        assume "(a, v) \<in> set hs" "(a, v) \<noteq> (k, n)" "b = k" "w = pos - k"
        then show ?thesis using other [of a v] ab(3) assms(3,4) by linarith
      next
        assume "a = pos" "v = n - (pos - k)" "(b, w) \<in> set hs" "(b, w) \<noteq> (k, n)"
        then show ?thesis using other [of b w] ab(3) assms(3,4) pos_w by linarith
      next
        assume "a = k" "v = pos - k" "(b, w) \<in> set hs" "(b, w) \<noteq> (k, n)"
        then show ?thesis using other [of b w] ab(3) assms(3,4) pos_w by linarith
      qed (use ab(3) assms(3,4) in linarith)+
      then show "a + id v \<le> b" by simp
    qed
  qed
  show "covers id hs' x \<longleftrightarrow> covers id hs x" for x
  proof -
    obtain D where D: "set hs = insert (k, n) D" "set hs - {(k, n)} = D"
      using assms(2) by (metis insert_Diff insert_Diff_single)
    show ?thesis
      unfolding covers_def S D using assms(3,4) by (cases "\<exists>(k', n') \<in> D. k' \<le> x \<and> x < k' + id n'") auto
  qed
qed

lemma split_hole_correct:
  assumes "sparse_wf sb" "(k, n) \<in> set (holes sb)" "k \<le> pos" "pos < k + n"
  shows "\<exists>sb'. split_hole pos k sb = Some (pos, sb') \<and> sparse_wf sb' \<and> sb_regions sb' = sb_regions sb \<and>
    sb_size sb' = sb_size sb \<and> (\<forall>x. in_hole sb' x \<longleftrightarrow> in_hole sb x) \<and>
    pos \<in> keys (holes sb') \<and> keys (holes sb) \<subseteq> keys (holes sb')"
proof -
  note wf = sparse_wfD [OF assms(1)]
  have m: "map_of (holes sb) k = Some n" using assms(2) omap_mem [OF spans_okD(1) [OF wf(2)]] by simp
  show ?thesis
  proof (cases "k = pos")
    case True
    then show ?thesis using m assms(1,2) by (auto simp: split_hole_def intro: keysI)
  next
    case False
    then have lt: "k < pos" using assms(3) by simp
    note sp = spans_split [OF wf(2) assms(2) lt assms(4)]
    let ?sb = "sb\<lparr>holes := map_insert pos (n - (pos - k)) (map_assign k (pos - k) (holes sb))\<rparr>"
    have "sparse_wf ?sb"
      by (rule sparse_wfI) (use wf sp in \<open>auto intro: wf(5)\<close>)
    then show ?thesis
      using m lt assms(4) sp by (auto simp: split_hole_def)
  qed
qed

lemma find_or_create_hole_correct:
  assumes "sparse_wf sb" "in_hole sb pos" "case hint of None \<Rightarrow> True | Some k \<Rightarrow> k \<in> keys (holes sb)"
  shows "\<exists>sb'. find_or_create_hole pos hint sb = Some (pos, sb') \<and> sparse_wf sb' \<and>
    sb_regions sb' = sb_regions sb \<and> sb_size sb' = sb_size sb \<and> (\<forall>x. in_hole sb' x \<longleftrightarrow> in_hole sb x) \<and>
    pos \<in> keys (holes sb') \<and> keys (holes sb) \<subseteq> keys (holes sb')"
proof -
  note wf = sparse_wfD [OF assms(1)]
  note ok = spans_okD(1) [OF wf(2)]
  obtain k0 n0 where h: "(k0, n0) \<in> set (holes sb)" "k0 \<le> pos" "pos < k0 + n0"
    using assms(2) by (auto elim: coversE)
  then have ne: "holes sb \<noteq> []" by auto
  obtain k where k: "(if hint = None then map_begin (holes sb) else hint) = Some k" "k \<in> keys (holes sb)"
  proof (cases hint)
    case None
    then obtain k where "map_begin (holes sb) = Some k" using ne by (cases "map_begin (holes sb)") auto
    then show ?thesis using that [of k] None map_begin_Some [OF ok] by auto
  next
    case (Some k)
    then show ?thesis using that [of k] assms(3) by simp
  qed
  obtain n where n: "map_of (holes sb) k = Some n" "(k, n) \<in> set (holes sb)"
    using omap_key_value [OF ok k(2)] by blast
  show ?thesis
  proof (cases "k \<noteq> pos \<and> (k > pos \<or> k + n \<le> pos)")
    case True
    then have "find_or_create_hole pos hint sb = split_hole pos k0 sb"
      using k n ne wf(1) find_hole_containing_in_hole [OF assms(1) h]
      by (simp add: find_or_create_hole_def)
    then show ?thesis using split_hole_correct [OF assms(1) h] by simp
  next
    case False
    then have "find_or_create_hole pos hint sb = split_hole pos k sb"
      using k n ne wf(1) by (auto simp: find_or_create_hole_def)
    moreover have "k \<le> pos" "pos < k + n"
      using False key_in_span [OF wf(2) n(2)] by auto
    ultimately show ?thesis using split_hole_correct [OF assms(1) n(2)] by simp
  qed
qed

lemma fill_holes_front:
  assumes "map_of hs k = Some n" "0 < b" "b \<le> n"
  shows "fill_holes b k (Some k) hs =
    (let hs' = map_erase k (if b < n then map_insert (k + b) (n - b) hs else hs)
     in Some (case next_key k hs' of None \<Rightarrow> if b < n then None else map_begin hs' | Some k' \<Rightarrow> Some k', hs'))"
  using assms
  by (auto simp: fill_holes.simps [of b] fill_holes.simps [of 0] Let_def split: option.splits)

lemma fill_correct:
  assumes "sparse_wf sb" "(k, n) \<in> set (holes sb)" "buf \<noteq> []" "length buf \<le> n"
  shows "\<exists>it sb'. fill (Some k) buf sb = Some (it, sb') \<and> sparse_wf sb' \<and> sb_size sb' = sb_size sb \<and>
    (\<forall>x. byte_at sb' x = (if k \<le> x \<and> x < k + length buf then Some (buf ! (x - k)) else byte_at sb x)) \<and>
    it = (case next_key k (holes sb') of None \<Rightarrow> map_begin (holes sb') | Some k' \<Rightarrow> Some k') \<and>
    k \<in> keys (sb_regions sb') \<and> keys (sb_regions sb) \<subseteq> keys (sb_regions sb') \<and>
    (length buf < n \<longrightarrow> it = Some (k + length buf)) \<and>
    keys (holes sb) - {k} \<subseteq> keys (holes sb')"
proof -
  note wf = sparse_wfD [OF assms(1)]
  note hok = spans_okD(1) [OF wf(2)] and rok = spans_okD(1) [OF wf(3)]
  let ?b = "length buf"
  define hs' where "hs' = map_erase k (if ?b < n then map_insert (k + ?b) (n - ?b) (holes sb) else holes sb)"
  define rs' where "rs' = map_insert k buf (sb_regions sb)"
  define sb' where "sb' = sb\<lparr>holes := hs', sb_regions := rs'\<rparr>"
  have b: "0 < ?b" using assms(3) by simp
  have m: "map_of (holes sb) k = Some n" using assms(2) omap_mem [OF hok] by simp
  have other: "k' + n' \<le> k \<or> k + n \<le> k'" if "(k', n') \<in> set (holes sb)" "k' \<noteq> k" for k' n'
    using spans_okD(3) [OF wf(2) that(1) assms(2)] spans_okD(3) [OF wf(2) assms(2) that(1)] that(2)
    by (cases k' k rule: linorder_cases) auto
  have pos: "0 < n'" if "(k', n') \<in> set (holes sb)" for k' n'
    using spans_okD(2) [OF wf(2) that] by simp
  have fresh: "k + ?b \<notin> keys (holes sb)" if "?b < n"
    using other b that by (fastforce simp: keys_iff)
  have H: "set hs' = (if ?b < n then insert (k + ?b, n - ?b) {(k', v) \<in> set (holes sb). k' \<noteq> k}
      else {(k', v) \<in> set (holes sb). k' \<noteq> k})"
    unfolding hs'_def set_map_erase using fresh b by (auto simp: set_map_insert [OF hok])
  have hole_k: "in_hole sb x" if "k \<le> x" "x < k + ?b" for x
    using coversI [of k n "holes sb" x id] assms(2,4) that by simp
  have rfresh: "k \<notin> keys (sb_regions sb)"
  proof
    assume "k \<in> keys (sb_regions sb)"
    then obtain d where d: "(k, d) \<in> set (sb_regions sb)" by (auto simp: keys_iff)
    then have "in_region sb k" using coversI [OF d, of k length] spans_okD(2) [OF wf(3) d] by simp
    then show False using wf(5) [of k] hole_k [of k] b by simp
  qed
  have R: "set rs' = insert (k, buf) (set (sb_regions sb))"
    unfolding rs'_def using set_map_insert [OF rok] rfresh by blast
  have rother: "k' + length d \<le> k \<or> k + ?b \<le> k'" if "(k', d) \<in> set (sb_regions sb)" for k' d
  proof (rule ccontr)
    assume "\<not> ?thesis"
    then have "in_region sb (max k k')" "in_hole sb (max k k')"
      using coversI [OF that, of "max k k'" length] hole_k [of "max k k'"] spans_okD(2) [OF wf(3) that] b
      by auto
    then show False using wf(5) by blast
  qed
  have sh: "spans_ok id hs'"
    unfolding spans_ok_def
  proof (intro conjI)
    show "omap_ok hs'" unfolding hs'_def using hok by simp
    show "\<forall>(k, v) \<in> set hs'. 0 < id v" unfolding H using pos by auto
    show "\<forall>(a, v) \<in> set hs'. \<forall>(c, w) \<in> set hs'. a < c \<longrightarrow> a + id v \<le> c"
    proof safe
      fix a v c w assume ac: "(a, v) \<in> set hs'" "(c, w) \<in> set hs'" "a < c"
      show "a + id v \<le> c"
        using ac other [of a v] other [of c w] pos [of a v] pos [of c w]
          spans_okD(3) [OF wf(2), of a v c w]
        unfolding H by (auto split: if_splits)
    qed
  qed
  have sr: "spans_ok length rs'"
    unfolding spans_ok_def
  proof (intro conjI)
    show "omap_ok rs'" unfolding rs'_def using rok by simp
    show "\<forall>(k, v) \<in> set rs'. 0 < length v" unfolding R using b spans_okD(2) [OF wf(3)] by auto
    show "\<forall>(a, v) \<in> set rs'. \<forall>(c, w) \<in> set rs'. a < c \<longrightarrow> a + length v \<le> c"
    proof safe
      fix a v c w assume ac: "(a, v) \<in> set rs'" "(c, w) \<in> set rs'" "a < c"
      show "a + length v \<le> c"
        using ac rother [of a v] rother [of c w] spans_okD(2) [OF wf(3), of c w]
          spans_okD(3) [OF wf(3), of a v c w]
        unfolding R by auto
    qed
  qed
  have ch: "in_hole sb' x \<longleftrightarrow> in_hole sb x \<and> \<not> (k \<le> x \<and> x < k + ?b)" for x
  proof -
    define D where "D = {(k', v) \<in> set (holes sb). k' \<noteq> k}"
    define P where "P \<longleftrightarrow> (\<exists>(k', n') \<in> D. k' \<le> x \<and> x < k' + n')"
    have D: "set (holes sb) = insert (k, n) D"
      unfolding D_def using assms(2) by (auto dest: omap_unique [OF hok assms(2)])
    have o: "in_hole sb x \<longleftrightarrow> (k \<le> x \<and> x < k + n) \<or> P"
      unfolding covers_def D P_def by simp
    have "set (holes sb') = (if ?b < n then insert (k + ?b, n - ?b) D else D)"
      unfolding D_def sb'_def using H by simp
    then have n: "in_hole sb' x \<longleftrightarrow> (?b < n \<and> k + ?b \<le> x \<and> x < k + n) \<or> P"
      unfolding covers_def P_def using assms(4) by (simp split: if_splits)
    have "\<not> (k \<le> x \<and> x < k + ?b)" if p: P
    proof -
      obtain k' n' where "(k', n') \<in> set (holes sb)" "k' \<noteq> k" "k' \<le> x" "x < k' + n'"
        using p unfolding P_def D_def by auto
      then show ?thesis using other [of k' n'] assms(4) by linarith
    qed
    then show ?thesis unfolding o n using assms(4) by auto
  qed
  have cr: "in_region sb' x \<longleftrightarrow> in_region sb x \<or> (k \<le> x \<and> x < k + ?b)" for x
    unfolding covers_def sb'_def by (auto simp: R)
  have wf': "sparse_wf sb'"
  proof (rule sparse_wfI)
    show "in_hole sb' x \<or> in_region sb' x \<longleftrightarrow> x < sb_size sb'" for x
      using wf(4) [of x] hole_k [of x] unfolding ch cr by (auto simp: sb'_def)
    show False if "in_hole sb' x" "in_region sb' x" for x
      using that wf(5) unfolding ch cr by auto
  qed (use wf(1) sh sr in \<open>simp_all add: sb'_def\<close>)
  have bytes: "byte_at sb' x = (if k \<le> x \<and> x < k + ?b then Some (buf ! (x - k)) else byte_at sb x)" for x
  proof -
    have sr': "spans_ok length (sb_regions sb')" using sr by (simp add: sb'_def)
    show ?thesis
    proof (cases "in_region sb x")
      case True
      then obtain k' d where d: "(k', d) \<in> set (sb_regions sb)" "k' \<le> x" "x < k' + length d" by (rule coversE)
      moreover have "(k', d) \<in> set (sb_regions sb')" using d(1) R by (simp add: sb'_def)
      ultimately have "byte_at sb' x = byte_at sb x"
        using byte_at_Some [OF wf(3)] byte_at_Some [OF sr'] by metis
      then show ?thesis using True wf(5) hole_k by auto
    next
      case False
      show ?thesis
      proof (cases "k \<le> x \<and> x < k + ?b")
        case True
        then show ?thesis using byte_at_Some [OF sr', of k buf x] R by (simp add: sb'_def)
      next
        case f: False
        then have "byte_at sb' x = None" "byte_at sb x = None"
          using False cr by (simp_all add: byte_at_None)
        then show ?thesis using f by auto
      qed
    qed
  qed
  have first: "next_key k hs' = Some (k + ?b)" if "?b < n"
    using that b H other spans_okD(1) [OF sh]
    by (fastforce simp: next_key_Some [OF spans_okD(1) [OF sh]] keys_iff)
  have it: "(case next_key k hs' of None \<Rightarrow> if ?b < n then None else map_begin hs' | Some k' \<Rightarrow> Some k') =
      (case next_key k hs' of None \<Rightarrow> map_begin hs' | Some k' \<Rightarrow> Some k')"
    using first by (cases "?b < n") auto
  have "fill_holes ?b k (Some k) (holes sb) =
      Some (case next_key k hs' of None \<Rightarrow> map_begin hs' | Some k' \<Rightarrow> Some k', hs')"
    using fill_holes_front [OF m b assms(4)] unfolding Let_def hs'_def [symmetric] it .
  then have "fill (Some k) buf sb =
      Some (case next_key k hs' of None \<Rightarrow> map_begin hs' | Some k' \<Rightarrow> Some k', sb')"
    using wf(1) m assms(3,4) by (simp add: fill_def sb'_def rs'_def)
  moreover have sel: "holes sb' = hs'" "sb_size sb' = sb_size sb" by (simp_all add: sb'_def)
  moreover have "keys (sb_regions sb') = insert k (keys (sb_regions sb))"
    by (simp add: sb'_def rs'_def keys_map_insert)
  moreover have "keys (holes sb) - {k} \<subseteq> keys (holes sb')"
    using H by (auto simp: sb'_def keys_iff split: if_splits)
  ultimately show ?thesis
    using wf' bytes first
    by (intro exI [of _ "case next_key k hs' of None \<Rightarrow> map_begin hs' | Some k' \<Rightarrow> Some k'"] exI [of _ sb'])
      (auto simp: sel cong: option.case_cong)
qed

lemma sb_initialize_wf:
  assumes "0 < n"
  shows "sparse_wf (sb_initialize n)" "byte_at (sb_initialize n) x = None"
proof -
  show "sparse_wf (sb_initialize n)"
    by (rule sparse_wfI) (use assms in \<open>auto simp: sb_initialize_def spans_ok_def covers_def\<close>)
  show "byte_at (sb_initialize n) x = None" by (simp add: byte_at_def sb_initialize_def)
qed

section \<open>Properties\<close>

text \<open>\<open>SparseByteBuffer::Fill\<close> of a hole with at most as many bytes as the hole has always
  returns: the bytes become readable at their positions, every other cached byte is unchanged,
  holes and regions still tile the asset, and the hole returned is the next one after the new
  region in the wraparound sense (null exactly when no hole is left).\<close>

theorem fill_caches_exactly_the_buffer:
  assumes "sparse_wf sb" "(k, n) \<in> set (holes sb)" "buf \<noteq> []" "length buf \<le> n"
  shows "\<exists>it sb'. fill (Some k) buf sb = Some (it, sb') \<and> sparse_wf sb' \<and>
    (\<forall>x. byte_at sb' x = (if k \<le> x \<and> x < k + length buf then Some (buf ! (x - k)) else byte_at sb x)) \<and>
    it = (case next_key k (holes sb') of None \<Rightarrow> map_begin (holes sb') | Some k' \<Rightarrow> Some k') \<and>
    (it = None \<longleftrightarrow> holes sb' = [])"
proof -
  obtain it sb' where f: "fill (Some k) buf sb = Some (it, sb')" "sparse_wf sb'"
    "\<forall>x. byte_at sb' x = (if k \<le> x \<and> x < k + length buf then Some (buf ! (x - k)) else byte_at sb x)"
    "it = (case next_key k (holes sb') of None \<Rightarrow> map_begin (holes sb') | Some k' \<Rightarrow> Some k')"
    using fill_correct [OF assms] by blast
  have "it = None \<longleftrightarrow> holes sb' = []"
    unfolding f(4) by (cases "holes sb'") (auto simp: map_begin_def split: option.splits)
  then show ?thesis using f by blast
qed

definition sparse_example :: sparse where
  "sparse_example = \<lparr>sb_size = 10, holes = [(0, 4), (6, 4)], sb_regions = [(4, [1, 2])]\<rparr>"

lemma sparse_example_wf: "sparse_wf sparse_example"
  by (rule sparse_wfI) (auto simp: sparse_example_def spans_ok_def covers_def)

theorem fill_caches_exactly_the_buffer_witness:
  "\<exists>it sb'. fill (Some 6) [7, 8, 9] sparse_example = Some (it, sb') \<and> sparse_wf sb' \<and>
    (\<forall>x. byte_at sb' x = (if 6 \<le> x \<and> x < 6 + length [7, 8, 9 :: u8] then Some ([7, 8, 9] ! (x - 6))
      else byte_at sparse_example x)) \<and>
    it = (case next_key 6 (holes sb') of None \<Rightarrow> map_begin (holes sb') | Some k' \<Rightarrow> Some k') \<and>
    (it = None \<longleftrightarrow> holes sb' = [])"
  by (rule fill_caches_exactly_the_buffer [OF sparse_example_wf, of 6 4]) (simp_all add: sparse_example_def)

text \<open>\<open>SparseByteBuffer::FindRegionContaining\<close> with any valid hint returns the region that
  contains the position, and null when there is none but some region starts before it. When
  every region starts after the position it returns the first of them, which does not contain
  the position, instead of null.\<close>

theorem find_region_containing_result:
  assumes "sparse_wf sb" "pos < sb_size sb" "case hint of None \<Rightarrow> True | Some k \<Rightarrow> k \<in> keys (sb_regions sb)"
  shows "\<exists>it. find_region_containing pos hint sb = Some it \<and>
    (byte_at sb pos \<noteq> None \<longrightarrow>
      (\<exists>k d. it = Some k \<and> (k, d) \<in> set (sb_regions sb) \<and> k \<le> pos \<and> pos < k + length d)) \<and>
    (byte_at sb pos = None \<longrightarrow> (\<exists>k \<in> keys (sb_regions sb). k \<le> pos) \<longrightarrow> it = None) \<and>
    ((\<forall>k \<in> keys (sb_regions sb). pos < k) \<longrightarrow> it = map_begin (sb_regions sb))"
proof -
  obtain it where it: "find_region_containing pos hint sb = Some it"
    "if in_region sb pos then \<exists>k d. it = Some k \<and> (k, d) \<in> set (sb_regions sb) \<and> k \<le> pos \<and> pos < k + length d
     else it = (if \<exists>k \<in> keys (sb_regions sb). k \<le> pos then None else map_begin (sb_regions sb))"
    using find_region_containing_exact [OF assms] by blast
  have "\<not> in_region sb pos" if "\<forall>k \<in> keys (sb_regions sb). pos < k"
  proof
    assume "in_region sb pos"
    then obtain k d where "(k, d) \<in> set (sb_regions sb)" "k \<le> pos" by (rule coversE)
    then show False using that keysI by fastforce
  qed
  then show ?thesis
    using it by (cases "in_region sb pos") (auto simp: byte_at_None)
qed

theorem find_region_containing_result_witness:
  "\<exists>it. find_region_containing 2 (Some 4) sparse_example = Some it \<and>
    (byte_at sparse_example 2 \<noteq> None \<longrightarrow>
      (\<exists>k d. it = Some k \<and> (k, d) \<in> set (sb_regions sparse_example) \<and> k \<le> 2 \<and> 2 < k + length d)) \<and>
    (byte_at sparse_example 2 = None \<longrightarrow> (\<exists>k \<in> keys (sb_regions sparse_example). k \<le> 2) \<longrightarrow> it = None) \<and>
    ((\<forall>k \<in> keys (sb_regions sparse_example). 2 < k) \<longrightarrow> it = map_begin (sb_regions sparse_example))"
  by (rule find_region_containing_result [OF sparse_example_wf]) (simp_all add: sparse_example_def)

text \<open>\<open>SparseByteBuffer::FindOrCreateHole\<close> at a position that has not been read returns a
  hole that starts exactly there, for every valid hint; splitting a hole changes neither what
  is cached nor what is missing, and keeps every hole that existed valid.\<close>

theorem find_or_create_hole_starts_at_position:
  assumes "sparse_wf sb" "pos < sb_size sb" "byte_at sb pos = None"
    "case hint of None \<Rightarrow> True | Some k \<Rightarrow> k \<in> keys (holes sb)"
  shows "\<exists>sb'. find_or_create_hole pos hint sb = Some (pos, sb') \<and> sparse_wf sb' \<and>
    pos \<in> keys (holes sb') \<and> keys (holes sb) \<subseteq> keys (holes sb') \<and> byte_at sb' = byte_at sb"
proof -
  have "in_hole sb pos" using sparse_wfD(4) [OF assms(1)] assms(2,3) byte_at_None by blast
  then show ?thesis
    using find_or_create_hole_correct [OF assms(1) _ assms(4), of pos]
    by (auto simp: byte_at_def fun_eq_iff)
qed

theorem find_or_create_hole_starts_at_position_witness:
  "\<exists>sb'. find_or_create_hole 8 (Some 0) sparse_example = Some (8, sb') \<and> sparse_wf sb' \<and>
    8 \<in> keys (holes sb') \<and> keys (holes sparse_example) \<subseteq> keys (holes sb') \<and>
    byte_at sb' = byte_at sparse_example"
  by (rule find_or_create_hole_starts_at_position [OF sparse_example_wf])
    (simp_all add: sparse_example_def byte_at_def)

text \<open>\<open>SparseByteBuffer::FindHoleContaining\<close> finds the hole of every position that lies in
  one, but it also returns a hole for the position right behind its end (the test is \<open><\<close> where
  \<open>FindRegionContaining\<close> has \<open>\<le>\<close>), when no hole starts there.\<close>

theorem find_hole_containing_end_position:
  assumes "sparse_wf sb" "(k, n) \<in> set (holes sb)" "k \<le> pos" "pos \<le> k + n" "pos \<notin> keys (holes sb) \<or> pos = k"
  shows "find_hole_containing pos sb = Some (Some k) \<and> (in_hole sb pos \<longleftrightarrow> pos < k + n)"
proof -
  note wf = sparse_wfD [OF assms(1)]
  note ok = spans_okD(1) [OF wf(2)]
  have hole: "in_hole sb pos" if "pos < k + n" using that assms(2,3) by (auto intro: coversI)
  show ?thesis
  proof (cases "pos < k + n")
    case True
    then show ?thesis using find_hole_containing_in_hole [OF assms(1-3)] hole by simp
  next
    case False
    then have p: "pos = k + n" "pos \<notin> keys (holes sb)"
      using assms(4,5) spans_okD(2) [OF wf(2) assms(2)] by auto
    obtain x where x: "lower_bound pos (holes sb) \<noteq> map_begin (holes sb)"
      "lower_bound pos (holes sb) \<noteq> None \<longrightarrow> pos < the (lower_bound pos (holes sb))"
      "prev_key (lower_bound pos (holes sb)) (holes sb) = Some x" "x \<in> keys (holes sb)" "x < pos"
      "\<forall>k' \<in> keys (holes sb). k' \<le> pos \<longrightarrow> k' \<le> x"
      using search_back [OF ok keysI [OF assms(2)] assms(3)] p(2) lower_bound_Some [OF ok] by blast
    obtain n' where n': "map_of (holes sb) x = Some n'" "(x, n') \<in> set (holes sb)"
      using omap_key_value [OF ok x(4)] by blast
    have "k \<le> x" using x(6) keysI [OF assms(2)] assms(3) by auto
    moreover have "\<not> k < x" using spans_okD(3) [OF wf(2) assms(2) n'(2)] p(1) x(5) by auto
    ultimately have "x = k" by simp
    then have "n' = n" using n'(2) assms(2) omap_unique [OF ok] by blast
    have "find_hole_containing pos sb = Some (Some k)"
      using x n' wf(1) p(1) \<open>x = k\<close> \<open>n' = n\<close> by (auto simp: find_hole_containing_def Let_def)
    moreover have "\<not> in_hole sb pos"
    proof
      assume "in_hole sb pos"
      then obtain a m where a: "(a, m) \<in> set (holes sb)" "a \<le> pos" "pos < a + id m" by (rule coversE)
      then have "a \<le> x" using x(6) keysI by metis
      then show False
        using a spans_okD(3) [OF wf(2) a(1) assms(2)] \<open>x = k\<close> p(1) omap_unique [OF ok a(1), of n] assms(2)
        by (cases "a = k") auto
    qed
    ultimately show ?thesis using False by simp
  qed
qed

theorem find_hole_containing_end_position_witness:
  "find_hole_containing 4 sparse_example = Some (Some 0) \<and> (in_hole sparse_example 4 \<longleftrightarrow> (4 :: nat) < 0 + 4)"
  by (rule find_hole_containing_end_position [OF sparse_example_wf]) (simp_all add: sparse_example_def)

end
