(* ===== verification/Reader_Cache.thy ===== *)
theory Reader_Cache
  imports Sparse_Byte_Buffer
begin

text \<open>
  \<open>ReaderCache\<close> (src/demux/reader_cache.h, .cc): a reader that keeps the whole asset in a
  \<open>SparseByteBuffer\<close>. \<open>store\<close> is the class \<open>Store\<close>, \<open>read_request\<close> the class
  \<open>ReadAtRequest\<close> (the bytes copied so far stand for the client's buffer), \<open>reader_cache\<close>
  the outer object with the class \<open>Intake\<close>. The upstream reader is not modelled: a call to
  its \<open>ReadAt\<close> is an event, and \<open>intake_complete\<close> is its callback. Each critical section of
  the store's mutex is one step.
\<close>

section \<open>State\<close>

datatype media_result = kOk | kUnknownError | kInternalError | kUnsupportedOperation
  | kInvalidArgument | kNotFound

record read_request =
  rq_position :: nat
  rq_buffer :: "u8 list"
  rq_original :: nat
  rq_remaining :: nat

record cache_store =
  st_result :: media_result
  st_size :: nat
  st_can_seek :: bool
  st_sparse :: sparse
  intake_hole :: iter
  read_hole :: iter
  read_region :: iter
  st_request :: "read_request option"
  rr_position :: nat
  rr_remaining :: nat

datatype cache_event = ReadDone media_result nat "u8 list"
  | DescribeDone nat media_result nat bool
  | UpstreamRead nat nat

definition kDefaultReadSize :: nat where
  "kDefaultReadSize = 32 * 1024"

section \<open>ReadAtRequest\<close>

definition request_start :: "nat \<Rightarrow> nat \<Rightarrow> read_request" where
  "request_start pos n = \<lparr>rq_position = pos, rq_buffer = [], rq_original = n, rq_remaining = n\<rparr>"

definition request_copy_from :: "u8 list \<Rightarrow> nat \<Rightarrow> read_request \<Rightarrow> read_request option" where
  "request_copy_from source byte_count r = do {
     dcheck (byte_count \<le> rq_remaining r);
     Some (r\<lparr>rq_buffer := rq_buffer r @ take byte_count source,
             rq_position := rq_position r + byte_count,
             rq_remaining := rq_remaining r - byte_count\<rparr>)
   }"

definition request_complete :: "media_result \<Rightarrow> read_request \<Rightarrow> cache_event option" where
  "request_complete result r = do {
     dcheck (rq_original r \<ge> rq_remaining r);
     let bytes_read = rq_original r - rq_remaining r;
     dcheck ((bytes_read = 0) = (result \<noteq> kOk));
     Some (ReadDone result bytes_read (rq_buffer r))
   }"

section \<open>Store\<close>

definition new_store :: cache_store where
  "new_store = \<lparr>st_result = kOk, st_size = 2 ^ 64 - 1, st_can_seek = False,
     st_sparse = \<lparr>sb_size = 0, holes = [], sb_regions = []\<rparr>, intake_hole = None,
     read_hole = None, read_region = None, st_request = None, rr_position = 0, rr_remaining = 0\<rparr>"

definition store_initialize :: "media_result \<Rightarrow> nat \<Rightarrow> bool \<Rightarrow> cache_store \<Rightarrow> cache_store option" where
  "store_initialize result sz can_seek st = do {
     let sb = sb_initialize sz;
     h \<leftarrow> find_hole_containing 0 sb;
     Some (st\<lparr>st_result := result, st_size := sz, st_can_seek := can_seek, st_sparse := sb,
              intake_hole := h, read_hole := None, read_region := None\<rparr>)
   }"

definition store_describe :: "nat \<Rightarrow> cache_store \<Rightarrow> cache_event" where
  "store_describe cb st = DescribeDone cb (st_result st) (st_size st) (st_can_seek st)"

text \<open>The copy loop of \<open>ServeRequest\<close>. The flag tells whether the request is done.\<close>

function serve_loop :: "read_request \<Rightarrow> cache_store \<Rightarrow> (bool \<times> read_request \<times> cache_store) option" where
  "serve_loop r st =
     (if st_result st = kOk \<and> rr_remaining st \<noteq> 0 then
        (case find_region_containing (rr_position st) (read_region st) (st_sparse st) of
           None \<Rightarrow> None
         | Some None \<Rightarrow> do {
             (h, sb) \<leftarrow> find_or_create_hole (rr_position st) (intake_hole st) (st_sparse st);
             Some (False, r, st\<lparr>read_region := None, st_sparse := sb, read_hole := Some h\<rparr>)
           }
         | Some (Some k) \<Rightarrow>
             (case map_of (sb_regions (st_sparse st)) k of
                None \<Rightarrow> None
              | Some d \<Rightarrow>
                  if k \<le> rr_position st \<and> k + length d > rr_position st then
                    (let n = min (k + length d - rr_position st) (rr_remaining st)
                     in case request_copy_from (drop (rr_position st - k) d) n r of
                          None \<Rightarrow> None
                        | Some r' \<Rightarrow> serve_loop r' (st\<lparr>read_region := Some k,
                            rr_position := rr_position st + n, rr_remaining := rr_remaining st - n\<rparr>))
                  else None))
      else Some (True, r, st))"
  by pat_completeness auto
termination
  by (relation "measure (\<lambda>(r, st). rr_remaining st)") auto

declare serve_loop.simps [simp del]

definition serve_request :: "cache_store \<Rightarrow> (cache_event list \<times> cache_store) option" where
  "serve_request st =
     (case st_request st of
        None \<Rightarrow> Some ([], st)
      | Some r \<Rightarrow> do {
          (finished, r', st') \<leftarrow> serve_loop r st;
          (if finished then do {
             e \<leftarrow> request_complete (st_result st') r';
             Some ([e], st'\<lparr>st_request := None\<rparr>)
           } else Some ([], st'\<lparr>st_request := Some r'\<rparr>))
        })"

definition set_read_at_request :: "read_request \<Rightarrow> cache_store \<Rightarrow> (cache_event list \<times> cache_store) option" where
  "set_read_at_request r st = do {
     dcheck (st_request st = None);
     dcheck (rq_position r < st_size st);
     dcheck (rq_remaining r > 0);
     serve_request (st\<lparr>st_request := Some r, rr_position := rq_position r,
       rr_remaining := (if (rq_position r + rq_remaining r) mod 2 ^ 64 > st_size st
                        then st_size st - rq_position r else rq_remaining r)\<rparr>)
   }"

text \<open>\<open>None\<close> for the position stands for \<open>kUnknownSize\<close>: no intake is required.\<close>

definition get_intake_position_and_size :: "cache_store \<Rightarrow> ((nat \<times> nat) option \<times> cache_store) option" where
  "get_intake_position_and_size st =
     (if read_hole st \<noteq> None then do {
        dcheck (st_request st \<noteq> None);
        k \<leftarrow> read_hole st;
        n \<leftarrow> map_of (holes (st_sparse st)) k;
        Some (Some (k, min (rr_remaining st) n), st\<lparr>intake_hole := Some k, read_hole := None\<rparr>)
      } else
        (case intake_hole st of
           None \<Rightarrow> Some (None, st)
         | Some k \<Rightarrow> do {
             n \<leftarrow> map_of (holes (st_sparse st)) k;
             Some (Some (k, min kDefaultReadSize n), st)
           }))"

definition put_intake_buffer :: "nat \<Rightarrow> u8 list \<Rightarrow> cache_store \<Rightarrow> (cache_event list \<times> cache_store) option" where
  "put_intake_buffer pos buffer st = do {
     k \<leftarrow> intake_hole st;
     n \<leftarrow> map_of (holes (st_sparse st)) k;
     dcheck (pos = k);
     dcheck (buffer \<noteq> []);
     dcheck (length buffer \<le> n);
     let st1 = (case read_hole st of
                  None \<Rightarrow> st
                | Some h \<Rightarrow> if h \<ge> pos \<and> h < pos + length buffer then st\<lparr>read_hole := None\<rparr> else st);
     (it, sb) \<leftarrow> fill (intake_hole st1) buffer (st_sparse st1);
     serve_request (st1\<lparr>intake_hole := it, st_sparse := sb\<rparr>)
   }"

definition report_intake_error :: "media_result \<Rightarrow> cache_store \<Rightarrow> (cache_event list \<times> cache_store) option" where
  "report_intake_error result st = do {
     dcheck (result \<noteq> kOk);
     serve_request (st\<lparr>st_result := result\<rparr>)
   }"

section \<open>Intake and the cache object\<close>

text \<open>
  \<open>rc_waiting\<close> are the consequences registered with \<open>describe_is_complete_\<close>; \<open>rc_intake\<close> is
  the upstream read in flight, whose size is that of \<open>buffer_\<close>. \<open>rc_due\<close> marks the point at
  which \<open>Continue\<close> is the intake's next call: completing a read runs a client's callback
  first, and that callback may issue the client's next read.
\<close>

datatype rc_consequence = DescribeWhen nat | ReadWhen

record reader_cache =
  rc_store :: cache_store
  rc_request :: read_request
  rc_in_progress :: bool
  rc_described :: bool
  rc_waiting :: "rc_consequence list"
  rc_intake :: "(nat \<times> nat) option"
  rc_due :: bool

definition new_reader_cache :: reader_cache where
  "new_reader_cache = \<lparr>rc_store = new_store, rc_request = request_start 0 0, rc_in_progress = False,
     rc_described = False, rc_waiting = [], rc_intake = None, rc_due = False\<rparr>"

definition note_completion :: "cache_event list \<Rightarrow> reader_cache \<Rightarrow> reader_cache" where
  "note_completion es rc = (if es = [] then rc else rc\<lparr>rc_in_progress := False\<rparr>)"

definition run_consequence :: "rc_consequence \<Rightarrow> reader_cache \<Rightarrow> (cache_event list \<times> reader_cache) option" where
  "run_consequence c rc = (case c of
     DescribeWhen cb \<Rightarrow> Some ([store_describe cb (rc_store rc)], rc)
   | ReadWhen \<Rightarrow> do {
       (es, st) \<leftarrow> set_read_at_request (rc_request rc) (rc_store rc);
       Some (es, note_completion es (rc\<lparr>rc_store := st\<rparr>))
     })"

fun run_consequences :: "rc_consequence list \<Rightarrow> reader_cache \<Rightarrow> (cache_event list \<times> reader_cache) option" where
  "run_consequences [] rc = Some ([], rc)"
| "run_consequences (c # cs) rc = do {
     (es, rc1) \<leftarrow> run_consequence c rc;
     (es', rc2) \<leftarrow> run_consequences cs rc1;
     Some (es @ es', rc2)
   }"

definition cache_when :: "rc_consequence \<Rightarrow> reader_cache \<Rightarrow> (cache_event list \<times> reader_cache) option" where
  "cache_when c rc =
     (if rc_described rc then run_consequence c rc else Some ([], rc\<lparr>rc_waiting := rc_waiting rc @ [c]\<rparr>))"

definition cache_describe :: "nat \<Rightarrow> reader_cache \<Rightarrow> (cache_event list \<times> reader_cache) option" where
  "cache_describe cb rc = cache_when (DescribeWhen cb) rc"

definition cache_read_at :: "nat \<Rightarrow> nat \<Rightarrow> reader_cache \<Rightarrow> (cache_event list \<times> reader_cache) option" where
  "cache_read_at pos n rc = do {
     dcheck (n > 0);
     dcheck (\<not> rc_in_progress rc);
     cache_when ReadWhen (rc\<lparr>rc_request := request_start pos n, rc_in_progress := True\<rparr>)
   }"

definition intake_continue :: "reader_cache \<Rightarrow> (cache_event list \<times> reader_cache) option" where
  "intake_continue rc = do {
     (p, st) \<leftarrow> get_intake_position_and_size (rc_store rc);
     let rc1 = rc\<lparr>rc_store := st, rc_due := False\<rparr>;
     (case p of
        None \<Rightarrow> Some ([], rc1)
      | Some (pos, sz) \<Rightarrow> do {
          dcheck (sz > 0);
          dcheck (rc_intake rc1 = None);
          Some ([UpstreamRead pos sz], rc1\<lparr>rc_intake := Some (pos, sz)\<rparr>)
        })
   }"

text \<open>The upstream reader's answer to \<open>Describe\<close>, and to a \<open>ReadAt\<close> of the intake.\<close>

definition describe_complete ::
    "media_result \<Rightarrow> nat \<Rightarrow> bool \<Rightarrow> reader_cache \<Rightarrow> (cache_event list \<times> reader_cache) option" where
  "describe_complete result sz can_seek rc = do {
     st \<leftarrow> store_initialize result sz can_seek (rc_store rc);
     (es, rc1) \<leftarrow> run_consequences (rc_waiting rc)
                    (rc\<lparr>rc_store := st, rc_described := True, rc_waiting := []\<rparr>);
     Some (es, rc1\<lparr>rc_due := result = kOk\<rparr>)
   }"

definition intake_complete :: "media_result \<Rightarrow> u8 list \<Rightarrow> reader_cache \<Rightarrow> (cache_event list \<times> reader_cache) option" where
  "intake_complete result bytes rc = do {
     (pos, sz) \<leftarrow> rc_intake rc;
     (if result \<noteq> kOk then do {
        (es, st) \<leftarrow> report_intake_error result (rc_store rc);
        Some (es, note_completion es (rc\<lparr>rc_store := st\<rparr>))
      } else do {
        dcheck (bytes \<noteq> []);
        let buffer = bytes @ replicate (sz - length bytes) 0;
        (es, st) \<leftarrow> put_intake_buffer pos buffer (rc_store rc);
        Some (es, note_completion es (rc\<lparr>rc_store := st, rc_intake := None, rc_due := True\<rparr>))
      })
   }"

section \<open>The store serves the asset's bytes\<close>

definition asset_slice :: "u8 list \<Rightarrow> nat \<Rightarrow> nat \<Rightarrow> u8 list" where
  "asset_slice asset pos n = take n (drop pos asset)"

definition iter_ok :: "iter \<Rightarrow> 'v omap \<Rightarrow> bool" where
  "iter_ok it m \<longleftrightarrow> (case it of None \<Rightarrow> True | Some k \<Rightarrow> k \<in> keys m)"

text \<open>What is cached is the asset's, and the iterators are valid.\<close>

definition store_ok :: "u8 list \<Rightarrow> cache_store \<Rightarrow> bool" where
  "store_ok asset st \<longleftrightarrow> st_result st = kOk \<and> st_size st = length asset \<and> length asset < 2 ^ 64 \<and>
     sparse_wf (st_sparse st) \<and> sb_size (st_sparse st) = length asset \<and>
     (\<forall>x b. byte_at (st_sparse st) x = Some b \<longrightarrow> b = asset ! x) \<and>
     iter_ok (intake_hole st) (holes (st_sparse st)) \<and> iter_ok (read_hole st) (holes (st_sparse st)) \<and>
     iter_ok (read_region st) (sb_regions (st_sparse st)) \<and>
     (intake_hole st = None \<longrightarrow> holes (st_sparse st) = [])"

text \<open>Intake began at the front of the asset.\<close>

definition front_ok :: "cache_store \<Rightarrow> bool" where
  "front_ok st \<longleftrightarrow> (sb_regions (st_sparse st) = [] \<and> intake_hole st = Some 0 \<and> read_hole st \<in> {None, Some 0}) \<or>
     0 \<in> keys (sb_regions (st_sparse st))"

definition front_regions :: "cache_store \<Rightarrow> bool" where
  "front_regions st \<longleftrightarrow> sb_regions (st_sparse st) = [] \<or> 0 \<in> keys (sb_regions (st_sparse st))"

lemma asset_slice_append: "asset_slice asset pos n @ asset_slice asset (pos + n) m = asset_slice asset pos (n + m)"
  by (simp add: asset_slice_def take_add add.commute [of pos n])

lemma length_asset_slice: "pos + n \<le> length asset \<Longrightarrow> length (asset_slice asset pos n) = n"
  by (simp add: asset_slice_def)

lemma region_is_slice:
  assumes "store_ok asset st" "(k, d) \<in> set (sb_regions (st_sparse st))"
  shows "d = asset_slice asset k (length d) \<and> k + length d \<le> length asset"
proof -
  have wf: "sparse_wf (st_sparse st)" "sb_size (st_sparse st) = length asset"
    "\<And>x b. byte_at (st_sparse st) x = Some b \<Longrightarrow> b = asset ! x"
    using assms(1) by (auto simp: store_ok_def)
  note sp = sparse_wfD(3) [OF wf(1)]
  have nth: "d ! i = asset ! (k + i)" if "i < length d" for i
    using byte_at_Some [OF sp assms(2), of "k + i"] wf(3) that by simp
  have "0 < length d" using spans_okD(2) [OF sp assms(2)] .
  then have "in_region (st_sparse st) (k + length d - 1)" using assms(2)
    by (intro coversI [OF assms(2)]) linarith+
  then have "k + length d - 1 < length asset" using sparse_wfD(4) [OF wf(1)] wf(2) by metis
  then have le: "k + length d \<le> length asset" using \<open>0 < length d\<close> by simp
  then show ?thesis using nth by (intro conjI nth_equalityI) (simp_all add: asset_slice_def)
qed

lemma store_ok_find_region:
  assumes "store_ok asset st" "front_regions st" "pos < length asset"
  shows "\<exists>it. find_region_containing pos (read_region st) (st_sparse st) = Some it \<and>
    (case it of
       None \<Rightarrow> in_hole (st_sparse st) pos
     | Some k \<Rightarrow> \<exists>d. map_of (sb_regions (st_sparse st)) k = Some d \<and> k \<le> pos \<and> pos < k + length d \<and>
         d = asset_slice asset k (length d) \<and> k + length d \<le> length asset)"
proof -
  have wf: "sparse_wf (st_sparse st)" "sb_size (st_sparse st) = length asset"
    "iter_ok (read_region st) (sb_regions (st_sparse st))"
    using assms(1) by (auto simp: store_ok_def)
  obtain it where it: "find_region_containing pos (read_region st) (st_sparse st) = Some it"
    "if in_region (st_sparse st) pos
     then \<exists>k d. it = Some k \<and> (k, d) \<in> set (sb_regions (st_sparse st)) \<and> k \<le> pos \<and> pos < k + length d
     else it = (if \<exists>k \<in> keys (sb_regions (st_sparse st)). k \<le> pos then None
                else map_begin (sb_regions (st_sparse st)))"
    using find_region_containing_exact [OF wf(1), of pos "read_region st"] wf(2,3) assms(3)
    by (auto simp: iter_ok_def)
  show ?thesis
  proof (cases "in_region (st_sparse st) pos")
    case True
    then obtain k d where "it = Some k" "(k, d) \<in> set (sb_regions (st_sparse st))" "k \<le> pos" "pos < k + length d"
      using it(2) by auto
    then show ?thesis
      using it(1) region_is_slice [OF assms(1)] omap_mem [OF spans_okD(1) [OF sparse_wfD(3) [OF wf(1)]]] by auto
  next
    case False
    then have "it = None" using it(2) assms(2) by (auto simp: front_regions_def map_begin_def)
    moreover have "in_hole (st_sparse st) pos"
      using sparse_wfD(4) [OF wf(1), of pos] wf(2) assms(3) False by simp
    ultimately show ?thesis using it(1) by simp
  qed
qed

lemma serve_loop_correct:
  assumes "store_ok asset st" "front_regions st" "rq_position r = rr_position st"
    "rr_remaining st \<le> rq_remaining r" "rr_remaining st = 0 \<or> rr_position st + rr_remaining st \<le> length asset"
  shows "\<exists>fin n rg sb' h. serve_loop r st = Some (fin,
      r\<lparr>rq_buffer := rq_buffer r @ asset_slice asset (rr_position st) n, rq_position := rq_position r + n,
        rq_remaining := rq_remaining r - n\<rparr>,
      st\<lparr>read_region := rg, rr_position := rr_position st + n, rr_remaining := rr_remaining st - n,
        st_sparse := sb', read_hole := h\<rparr>) \<and>
    n \<le> rr_remaining st \<and> iter_ok rg (sb_regions sb') \<and>
    (sb_regions (st_sparse st) = [] \<longrightarrow> n = 0 \<or> fin) \<and>
    (if fin then n = rr_remaining st \<and> sb' = st_sparse st \<and> h = read_hole st
     else n < rr_remaining st \<and> h = Some (rr_position st + n) \<and> sparse_wf sb' \<and>
       sb_regions sb' = sb_regions (st_sparse st) \<and> sb_size sb' = sb_size (st_sparse st) \<and>
       rr_position st + n \<in> keys (holes sb') \<and> keys (holes (st_sparse st)) \<subseteq> keys (holes sb'))"
  using assms
proof (induction r st rule: serve_loop.induct)
  case (1 r st)
  have ok: "st_result st = kOk" "iter_ok (intake_hole st) (holes (st_sparse st))"
    "sparse_wf (st_sparse st)" "iter_ok (read_region st) (sb_regions (st_sparse st))"
    using 1(2) by (auto simp: store_ok_def)
  show ?case
  proof (cases "rr_remaining st = 0")
    case True
    have "serve_loop r st = Some (True, r, st)" using True by (simp add: serve_loop.simps)
    then show ?thesis
      using True ok(4) by (intro exI [of _ True] exI [of _ 0] exI [of _ "read_region st"]
          exI [of _ "st_sparse st"] exI [of _ "read_hole st"]) (simp add: asset_slice_def)
  next
    case False
    then have pos: "rr_position st < length asset" using 1(6) by auto
    obtain it where it: "find_region_containing (rr_position st) (read_region st) (st_sparse st) = Some it"
      "case it of
         None \<Rightarrow> in_hole (st_sparse st) (rr_position st)
       | Some k \<Rightarrow> \<exists>d. map_of (sb_regions (st_sparse st)) k = Some d \<and> k \<le> rr_position st \<and>
           rr_position st < k + length d \<and> d = asset_slice asset k (length d) \<and> k + length d \<le> length asset"
      using store_ok_find_region [OF 1(2,3) pos] by blast
    show ?thesis
    proof (cases it)
      case None
      obtain sb' where sb': "find_or_create_hole (rr_position st) (intake_hole st) (st_sparse st) =
          Some (rr_position st, sb')" "sparse_wf sb'" "sb_regions sb' = sb_regions (st_sparse st)"
        "sb_size sb' = sb_size (st_sparse st)" "rr_position st \<in> keys (holes sb')"
        "keys (holes (st_sparse st)) \<subseteq> keys (holes sb')"
        using find_or_create_hole_correct [OF ok(3), of "rr_position st" "intake_hole st"] it(2) None ok(2)
        by (auto simp: iter_ok_def)
      have "serve_loop r st = Some (False, r, st\<lparr>read_region := None, st_sparse := sb', read_hole := Some (rr_position st)\<rparr>)"
        using it(1) None sb'(1) False ok(1) by (simp add: serve_loop.simps)
      then show ?thesis
        using sb' False by (intro exI [of _ False] exI [of _ 0] exI [of _ None] exI [of _ sb']
            exI [of _ "Some (rr_position st)"]) (simp add: asset_slice_def iter_ok_def)
    next
      case (Some k)
      then obtain d where d: "map_of (sb_regions (st_sparse st)) k = Some d" "k \<le> rr_position st"
        "rr_position st < k + length d" "d = asset_slice asset k (length d)" "k + length d \<le> length asset"
        using it(2) by auto
      define n where "n = min (k + length d - rr_position st) (rr_remaining st)"
      define r1 where "r1 = r\<lparr>rq_buffer := rq_buffer r @ take n (drop (rr_position st - k) d),
        rq_position := rq_position r + n, rq_remaining := rq_remaining r - n\<rparr>"
      define st1 where "st1 = st\<lparr>read_region := Some k, rr_position := rr_position st + n,
        rr_remaining := rr_remaining st - n\<rparr>"
      have n: "0 < n" "n \<le> rr_remaining st" using d(3) False by (auto simp: n_def)
      have copy: "request_copy_from (drop (rr_position st - k) d) n r = Some r1"
        using n(2) 1(5) by (simp add: request_copy_from_def r1_def)
      have "take n (drop (rr_position st - k) d) = asset_slice asset (rr_position st) n"
        using d(2,3,5) by (subst d(4)) (simp add: asset_slice_def drop_take n_def)
      then have r1: "r1 = r\<lparr>rq_buffer := rq_buffer r @ asset_slice asset (rr_position st) n,
        rq_position := rq_position r + n, rq_remaining := rq_remaining r - n\<rparr>"
        by (simp add: r1_def)
      have step: "serve_loop r st = serve_loop r1 st1"
        using it(1) Some d(1-3) False ok(1) copy
        by (subst serve_loop.simps) (simp add: n_def st1_def Let_def)
      have mem: "k \<in> keys (sb_regions (st_sparse st))" using d(1) by (meson keysI map_of_SomeD)
      have IH: "\<exists>fin m rg sb' h. serve_loop r1 st1 = Some (fin,
          r1\<lparr>rq_buffer := rq_buffer r1 @ asset_slice asset (rr_position st1) m, rq_position := rq_position r1 + m,
            rq_remaining := rq_remaining r1 - m\<rparr>,
          st1\<lparr>read_region := rg, rr_position := rr_position st1 + m, rr_remaining := rr_remaining st1 - m,
            st_sparse := sb', read_hole := h\<rparr>) \<and>
        m \<le> rr_remaining st1 \<and> iter_ok rg (sb_regions sb') \<and>
        (sb_regions (st_sparse st1) = [] \<longrightarrow> m = 0 \<or> fin) \<and>
        (if fin then m = rr_remaining st1 \<and> sb' = st_sparse st1 \<and> h = read_hole st1
         else m < rr_remaining st1 \<and> h = Some (rr_position st1 + m) \<and> sparse_wf sb' \<and>
           sb_regions sb' = sb_regions (st_sparse st1) \<and> sb_size sb' = sb_size (st_sparse st1) \<and>
           rr_position st1 + m \<in> keys (holes sb') \<and> keys (holes (st_sparse st1)) \<subseteq> keys (holes sb'))"
      proof (rule 1(1) [of "Some k" k d n r1, folded st1_def])
        show "store_ok asset st1" using 1(2) mem by (simp add: st1_def store_ok_def iter_ok_def)
        show "front_regions st1" using 1(3) by (simp add: st1_def front_regions_def)
        show "rr_remaining st1 = 0 \<or> rr_position st1 + rr_remaining st1 \<le> length asset"
          using 1(6) n by (auto simp: st1_def)
        show "rq_position r1 = rr_position st1" "rr_remaining st1 \<le> rq_remaining r1"
          using 1(4,5) by (simp_all add: r1_def st1_def)
        show "find_region_containing (rr_position st) (read_region st) (st_sparse st) = Some (Some k)"
          using it(1) Some by simp
      qed (use d(1-3) False ok(1) copy n_def in simp_all)
      then obtain fin m rg sb' h where ih: "serve_loop r1 st1 = Some (fin,
          r1\<lparr>rq_buffer := rq_buffer r1 @ asset_slice asset (rr_position st1) m, rq_position := rq_position r1 + m,
            rq_remaining := rq_remaining r1 - m\<rparr>,
          st1\<lparr>read_region := rg, rr_position := rr_position st1 + m, rr_remaining := rr_remaining st1 - m,
            st_sparse := sb', read_hole := h\<rparr>)"
        "m \<le> rr_remaining st1" "iter_ok rg (sb_regions sb')"
        "if fin then m = rr_remaining st1 \<and> sb' = st_sparse st1 \<and> h = read_hole st1
         else m < rr_remaining st1 \<and> h = Some (rr_position st1 + m) \<and> sparse_wf sb' \<and>
           sb_regions sb' = sb_regions (st_sparse st1) \<and> sb_size sb' = sb_size (st_sparse st1) \<and>
           rr_position st1 + m \<in> keys (holes sb') \<and> keys (holes (st_sparse st1)) \<subseteq> keys (holes sb')"
        by blast
      show ?thesis
        unfolding step ih(1)
        by (intro exI [of _ fin] exI [of _ "n + m"] exI [of _ rg] exI [of _ sb'] exI [of _ h])
          (use ih(2-4) n mem in \<open>auto simp: r1 st1_def asset_slice_append [symmetric] add.assoc split: if_splits\<close>)
    qed
  qed
qed

text \<open>The client's request \<open>(p, n)\<close>, of which \<open>m\<close> bytes have been copied so far.\<close>

definition request_ok :: "u8 list \<Rightarrow> nat \<times> nat \<Rightarrow> read_request \<Rightarrow> cache_store \<Rightarrow> bool" where
  "request_ok asset pn r st \<longleftrightarrow> (case pn of (p, n) \<Rightarrow> p < length asset \<and> 0 < n \<and>
     (\<exists>m \<le> min n (length asset - p). rq_buffer r = asset_slice asset p m \<and> rq_position r = p + m \<and>
        rq_original r = n \<and> rq_remaining r = n - m \<and> rr_position st = p + m \<and>
        rr_remaining st = min n (length asset - p) - m))"

text \<open>The completion a read must have: the bytes of the asset from \<open>p\<close>, as far as it goes.\<close>

definition answer :: "u8 list \<Rightarrow> nat \<times> nat \<Rightarrow> cache_event" where
  "answer asset pn = (case pn of (p, n) \<Rightarrow>
     ReadDone kOk (min n (length asset - p)) (asset_slice asset p (min n (length asset - p))))"

lemma byte_at_regions: "sb_regions sb' = sb_regions sb \<Longrightarrow> byte_at sb' = byte_at sb"
  by (simp add: byte_at_def fun_eq_iff)

lemma iter_ok_mono: "iter_ok it m \<Longrightarrow> keys m \<subseteq> keys m' \<Longrightarrow> iter_ok it m'"
  by (auto simp: iter_ok_def split: option.splits)

lemma keys_nonempty: "k \<in> keys m \<Longrightarrow> m \<noteq> []"
  by auto

definition served :: "u8 list \<Rightarrow> nat \<times> nat \<Rightarrow> cache_store \<Rightarrow> cache_event list \<Rightarrow> cache_store \<Rightarrow> bool" where
  "served asset pn st es st' \<longleftrightarrow> store_ok asset st' \<and>
    sb_regions (st_sparse st') = sb_regions (st_sparse st) \<and> intake_hole st' = intake_hole st \<and>
    ((es = [answer asset pn] \<and> st_request st' = None \<and> read_hole st' = read_hole st) \<or>
     (es = [] \<and> (\<exists>r'. st_request st' = Some r' \<and> request_ok asset pn r' st' \<and>
        read_hole st' = Some (rr_position st') \<and> 0 < rr_remaining st' \<and>
        (sb_regions (st_sparse st) = [] \<longrightarrow> rr_position st' = rr_position st))))"

lemma serve_request_correct:
  assumes "store_ok asset st" "front_regions st" "st_request st = Some r" "request_ok asset pn r st"
  shows "\<exists>es st'. serve_request st = Some (es, st') \<and> served asset pn st es st'"
proof -
  obtain p n where pn: "pn = (p, n)" by (cases pn)
  obtain m where m: "p < length asset" "0 < n" "m \<le> min n (length asset - p)" "rq_buffer r = asset_slice asset p m"
    "rq_position r = p + m" "rq_original r = n" "rq_remaining r = n - m" "rr_position st = p + m"
    "rr_remaining st = min n (length asset - p) - m"
    using assms(4) by (auto simp: request_ok_def pn)
  have pre: "rq_position r = rr_position st" "rr_remaining st \<le> rq_remaining r"
    "rr_remaining st = 0 \<or> rr_position st + rr_remaining st \<le> length asset"
    using m by auto
  obtain fin j rg sb' h where s: "serve_loop r st = Some (fin,
      r\<lparr>rq_buffer := rq_buffer r @ asset_slice asset (rr_position st) j, rq_position := rq_position r + j,
        rq_remaining := rq_remaining r - j\<rparr>,
      st\<lparr>read_region := rg, rr_position := rr_position st + j, rr_remaining := rr_remaining st - j,
        st_sparse := sb', read_hole := h\<rparr>)" (is "_ = Some (fin, ?r, ?st)")
    "j \<le> rr_remaining st" "iter_ok rg (sb_regions sb')"
    "sb_regions (st_sparse st) = [] \<longrightarrow> j = 0 \<or> fin"
    "if fin then j = rr_remaining st \<and> sb' = st_sparse st \<and> h = read_hole st
     else j < rr_remaining st \<and> h = Some (rr_position st + j) \<and> sparse_wf sb' \<and>
       sb_regions sb' = sb_regions (st_sparse st) \<and> sb_size sb' = sb_size (st_sparse st) \<and>
       rr_position st + j \<in> keys (holes sb') \<and> keys (holes (st_sparse st)) \<subseteq> keys (holes sb')"
    using serve_loop_correct [OF assms(1,2) pre] by blast
  have buf: "rq_buffer ?r = asset_slice asset p (m + j)"
    using m(4,8) by (simp add: asset_slice_append)
  show ?thesis
  proof (cases fin)
    case True
    then have j: "m + j = min n (length asset - p)" "sb' = st_sparse st" "h = read_hole st"
      using s(5) m(3,9) by auto
    have "0 < min n (length asset - p)" using m(1,2) by simp
    moreover have "rq_original ?r - rq_remaining ?r = min n (length asset - p)"
      using m(6,7) j(1) by simp
    ultimately have "request_complete kOk ?r = Some (answer asset pn)"
      using buf j(1) m(6) unfolding request_complete_def answer_def pn by (simp add: m(7) Let_def)
    moreover have "st_result st = kOk" using assms(1) by (simp add: store_ok_def)
    ultimately have "serve_request st = Some ([answer asset pn], ?st\<lparr>st_request := None\<rparr>)"
      using s(1) True assms(3) by (simp add: serve_request_def)
    moreover have "store_ok asset (?st\<lparr>st_request := None\<rparr>)"
      using assms(1) s(3) j by (simp add: store_ok_def)
    ultimately show ?thesis using j by (auto simp: served_def)
  next
    case False
    then have j: "j < rr_remaining st" "h = Some (rr_position st + j)" "sparse_wf sb'"
      "sb_regions sb' = sb_regions (st_sparse st)" "sb_size sb' = sb_size (st_sparse st)"
      "rr_position st + j \<in> keys (holes sb')" "keys (holes (st_sparse st)) \<subseteq> keys (holes sb')"
      using s(5) by auto
    have "serve_request st = Some ([], ?st\<lparr>st_request := Some ?r\<rparr>)"
      using s(1) False assms(3) by (simp add: serve_request_def)
    moreover have ok: "store_ok asset (?st\<lparr>st_request := Some ?r\<rparr>)"
    proof -
      have "holes (st_sparse st) \<noteq> []"
      proof
        assume "holes (st_sparse st) = []"
        then have "\<not> in_hole (st_sparse st) x" for x by (simp add: covers_def)
        moreover have "in_hole sb' (rr_position st + j)"
        proof -
          obtain v where "(rr_position st + j, v) \<in> set (holes sb')" using j(6) by (auto simp: keys_iff)
          then show ?thesis
            using key_in_span [OF sparse_wfD(2) [OF j(3)]] by (intro coversI) auto
        qed
        moreover have "sparse_wf (st_sparse st)" using assms(1) by (simp add: store_ok_def)
        ultimately show False
          using sparse_wfD(4,5) [OF j(3)] sparse_wfD(4) [of "st_sparse st"] j(4,5) by metis
      qed
      then show ?thesis
        using assms(1) s(3) j byte_at_regions [OF j(4)]
        by (auto simp: store_ok_def intro: iter_ok_mono) (auto simp: iter_ok_def)
    qed
    moreover have "request_ok asset pn ?r (?st\<lparr>st_request := Some ?r\<rparr>)"
      unfolding request_ok_def pn using m j(1) buf by (auto intro!: exI [of _ "m + j"])
    ultimately show ?thesis using j s(4) False by (auto simp: served_def)
  qed
qed

text \<open>The store between steps, \<open>rq\<close> being the read the client waits for.\<close>

definition store_inv :: "u8 list \<Rightarrow> (nat \<times> nat) option \<Rightarrow> cache_store \<Rightarrow> bool" where
  "store_inv asset rq st \<longleftrightarrow> store_ok asset st \<and> front_ok st \<and>
     (case rq of
        None \<Rightarrow> st_request st = None \<and> read_hole st = None
      | Some pn \<Rightarrow> \<exists>r. st_request st = Some r \<and> request_ok asset pn r st \<and> 0 < rr_remaining st \<and>
          (read_hole st = Some (rr_position st) \<or>
           read_hole st = None \<and> intake_hole st = Some (rr_position st)))"

lemma front_ok_regions: "front_ok st \<Longrightarrow> front_regions st"
  by (auto simp: front_ok_def front_regions_def)

lemma set_read_at_request_correct:
  assumes "store_inv asset None st" "p < length asset" "0 < n" "p + n < 2 ^ 64"
    "sb_regions (st_sparse st) = [] \<Longrightarrow> p = 0"
  shows "\<exists>es st'. set_read_at_request (request_start p n) st = Some (es, st') \<and>
    ((es = [answer asset (p, n)] \<and> store_inv asset None st') \<or> (es = [] \<and> store_inv asset (Some (p, n)) st')) \<and>
    sb_regions (st_sparse st') = sb_regions (st_sparse st)"
proof -
  define st1 where "st1 = st\<lparr>st_request := Some (request_start p n), rr_position := p,
    rr_remaining := min n (length asset - p)\<rparr>"
  have st: "store_ok asset st" "front_ok st" "st_request st = None" "read_hole st = None"
    using assms(1) by (auto simp: store_inv_def)
  have "(if p + n > length asset then length asset - p else n) = min n (length asset - p)"
    using assms(2) by auto
  then have e: "set_read_at_request (request_start p n) st = serve_request st1"
    using st assms(2-4) by (simp add: set_read_at_request_def request_start_def st1_def store_ok_def)
  have pre: "store_ok asset st1" "front_regions st1" "st_request st1 = Some (request_start p n)"
    using st front_ok_regions [OF st(2)] by (simp_all add: st1_def store_ok_def front_regions_def)
  have req: "request_ok asset (p, n) (request_start p n) st1"
    using assms(2,3) by (auto simp: request_ok_def request_start_def st1_def asset_slice_def)
  obtain es st' where s0: "serve_request st1 = Some (es, st')" "served asset (p, n) st1 es st'"
    using serve_request_correct [OF pre req] by blast
  note s = s0(1) s0(2) [unfolded served_def, THEN conjunct1]
    s0(2) [unfolded served_def, THEN conjunct2, THEN conjunct1]
    s0(2) [unfolded served_def, THEN conjunct2, THEN conjunct2, THEN conjunct1]
    s0(2) [unfolded served_def, THEN conjunct2, THEN conjunct2, THEN conjunct2]
  have same: "st_sparse st1 = st_sparse st" "intake_hole st1 = intake_hole st" "read_hole st1 = None"
    "rr_position st1 = p"
    using st(4) by (simp_all add: st1_def)
  have "front_ok st'"
    using s(3-5) st(2) same assms(5) by (auto simp: front_ok_def)
  moreover have "(es = [answer asset (p, n)] \<and> st_request st' = None \<and> read_hole st' = None) \<or>
     (es = [] \<and> (\<exists>r. st_request st' = Some r \<and> request_ok asset (p, n) r st' \<and>
        0 < rr_remaining st' \<and> read_hole st' = Some (rr_position st')))"
    using s(5) unfolding same by blast
  ultimately have "(es = [answer asset (p, n)] \<and> store_inv asset None st') \<or>
      (es = [] \<and> store_inv asset (Some (p, n)) st')"
    using s(2) unfolding store_inv_def by auto
  then show ?thesis using s(1,3) same(1) unfolding e by (intro exI [of _ es] exI [of _ st']) simp
qed

lemma get_intake_correct:
  assumes "store_inv asset rq st"
  shows "\<exists>ps st'. get_intake_position_and_size st = Some (ps, st') \<and> store_inv asset rq st' \<and>
    read_hole st' = None \<and> st_sparse st' = st_sparse st \<and>
    (case ps of
       None \<Rightarrow> holes (st_sparse st) = [] \<and> rq = None
     | Some (p, sz) \<Rightarrow> \<exists>n. (p, n) \<in> set (holes (st_sparse st)) \<and> 0 < sz \<and> sz \<le> n \<and>
         intake_hole st' = Some p)"
proof -
  have st: "store_ok asset st" "front_ok st" using assms by (auto simp: store_inv_def)
  have wf: "sparse_wf (st_sparse st)" "iter_ok (intake_hole st) (holes (st_sparse st))"
    "iter_ok (read_hole st) (holes (st_sparse st))" "intake_hole st = None \<longrightarrow> holes (st_sparse st) = []"
    using st(1) by (auto simp: store_ok_def)
  note sp = sparse_wfD(2) [OF wf(1)]
  have hole: "\<exists>n. map_of (holes (st_sparse st)) k = Some n \<and> (k, n) \<in> set (holes (st_sparse st)) \<and> 0 < n"
    if "k \<in> keys (holes (st_sparse st))" for k
    using omap_key_value [OF spans_okD(1) [OF sp] that] spans_okD(2) [OF sp] by fastforce
  show ?thesis
  proof (cases "read_hole st")
    case (Some k)
    then obtain pn r where rq: "rq = Some pn" "st_request st = Some r" "request_ok asset pn r st"
      "0 < rr_remaining st" "k = rr_position st"
      using assms by (auto simp: store_inv_def split: option.splits)
    have "k \<in> keys (holes (st_sparse st))" using wf(3) Some by (simp add: iter_ok_def)
    then obtain n where n: "map_of (holes (st_sparse st)) k = Some n" "(k, n) \<in> set (holes (st_sparse st))" "0 < n"
      using hole by blast
    define st' where "st' = st\<lparr>intake_hole := Some k, read_hole := None\<rparr>"
    have g: "get_intake_position_and_size st = Some (Some (k, min (rr_remaining st) n), st')"
      using Some rq n by (simp add: get_intake_position_and_size_def st'_def)
    have "store_ok asset st'" using st(1) n(2) by (auto simp: st'_def store_ok_def iter_ok_def intro: keysI)
    moreover have "front_ok st'" using st(2) Some by (auto simp: st'_def front_ok_def)
    moreover have "request_ok asset pn r st'" using rq(3) by (simp add: st'_def request_ok_def)
    ultimately have "store_inv asset rq st'" using rq by (simp add: store_inv_def st'_def)
    then show ?thesis
      using g n rq(4) by (auto simp: st'_def)
  next
    case None
    show ?thesis
    proof (cases "intake_hole st")
      case None
      moreover have "rq = None" using assms None \<open>read_hole st = None\<close>
        by (auto simp: store_inv_def split: option.splits)
      ultimately show ?thesis
        using \<open>read_hole st = None\<close> assms wf(4) by (simp add: get_intake_position_and_size_def)
    next
      case (Some k)
      then have "k \<in> keys (holes (st_sparse st))" using wf(2) by (simp add: iter_ok_def)
      then obtain n where n: "map_of (holes (st_sparse st)) k = Some n" "(k, n) \<in> set (holes (st_sparse st))" "0 < n"
        using hole by blast
      have "get_intake_position_and_size st = Some (Some (k, min kDefaultReadSize n), st)"
        using Some None n by (simp add: get_intake_position_and_size_def)
      then show ?thesis
        using assms n Some None by (auto simp: kDefaultReadSize_def)
    qed
  qed
qed

lemma put_intake_buffer_correct:
  assumes "store_inv asset rq st" "read_hole st = None" "intake_hole st = Some p"
    "(p, n) \<in> set (holes (st_sparse st))" "0 < sz" "sz \<le> n" "buf = asset_slice asset p sz"
  shows "\<exists>es st'. put_intake_buffer p buf st = Some (es, st') \<and>
    ((es = [] \<and> store_inv asset rq st') \<or> (\<exists>pn. rq = Some pn \<and> es = [answer asset pn] \<and> store_inv asset None st')) \<and>
    sb_regions (st_sparse st') \<noteq> []"
proof -
  have st: "store_ok asset st" "front_ok st" using assms(1) by (auto simp: store_inv_def)
  have wf: "sparse_wf (st_sparse st)" "sb_size (st_sparse st) = length asset"
    "\<And>x b. byte_at (st_sparse st) x = Some b \<Longrightarrow> b = asset ! x"
    using st(1) by (auto simp: store_ok_def)
  note sp = sparse_wfD(2) [OF wf(1)]
  have m: "map_of (holes (st_sparse st)) p = Some n"
    using assms(4) omap_mem [OF spans_okD(1) [OF sp]] by simp
  have "in_hole (st_sparse st) (p + n - 1)" using assms(4-6) by (intro coversI) auto
  then have "p + n - 1 < length asset" using sparse_wfD(4) [OF wf(1)] wf(2) by metis
  then have len: "length buf = sz" using assms(5-7) by (simp add: length_asset_slice)
  then have ne: "buf \<noteq> []" using assms(5) by auto
  obtain it sb where f: "fill (Some p) buf (st_sparse st) = Some (it, sb)" "sparse_wf sb"
    "sb_size sb = sb_size (st_sparse st)"
    "\<forall>x. byte_at sb x = (if p \<le> x \<and> x < p + length buf then Some (buf ! (x - p)) else byte_at (st_sparse st) x)"
    "it = (case next_key p (holes sb) of None \<Rightarrow> map_begin (holes sb) | Some k' \<Rightarrow> Some k')"
    "p \<in> keys (sb_regions sb)" "keys (sb_regions (st_sparse st)) \<subseteq> keys (sb_regions sb)"
    using fill_correct [OF wf(1) assms(4) ne] len assms(6) by auto
  note hok = spans_okD(1) [OF sparse_wfD(2) [OF f(2)]]
  define st1 where "st1 = st\<lparr>intake_hole := it, st_sparse := sb\<rparr>"
  have e: "put_intake_buffer p buf st = serve_request st1"
    using assms(2,3,6) m ne len f(1) by (simp add: put_intake_buffer_def st1_def)
  have itok: "iter_ok it (holes sb)" "it = None \<longrightarrow> holes sb = []"
    using f(5) next_key_Some [OF hok, of p] map_begin_Some [OF hok]
    by (auto simp: iter_ok_def split: option.splits)
  have bytes: "b = asset ! x" if "byte_at sb x = Some b" for x b
    using that f(4) wf(3) len assms(7) by (auto simp: asset_slice_def split: if_splits)
  have ok1: "store_ok asset st1"
    using st(1) f itok bytes assms(2) wf(2) iter_ok_mono [OF _ f(7)]
    by (simp add: st1_def store_ok_def iter_ok_def)
  have front0: "0 \<in> keys (sb_regions sb)"
    using st(2) assms(3) f(6,7) by (auto simp: front_ok_def)
  have front: "front_ok st1" using front0 by (simp add: front_ok_def st1_def)
  show ?thesis
  proof (cases rq)
    case None
    then have "st_request st1 = None" using assms(1) by (simp add: store_inv_def st1_def)
    then have "serve_request st1 = Some ([], st1)" by (simp add: serve_request_def)
    moreover have "store_inv asset rq st1"
      using ok1 front None \<open>st_request st1 = None\<close> assms(2) by (simp add: store_inv_def st1_def)
    ultimately show ?thesis using e front0 by (auto simp: st1_def)
  next
    case (Some pn)
    obtain r where r: "st_request st = Some r" "request_ok asset pn r st"
      using assms(1) Some by (auto simp: store_inv_def)
    have req: "st_request st1 = Some r" "request_ok asset pn r st1"
      using r by (simp_all add: st1_def request_ok_def)
    obtain es st' where s0: "serve_request st1 = Some (es, st')" "served asset pn st1 es st'"
      using serve_request_correct [OF ok1 front_ok_regions [OF front] req] by blast
    note s = s0(1) s0(2) [unfolded served_def, THEN conjunct1]
      s0(2) [unfolded served_def, THEN conjunct2, THEN conjunct1]
      s0(2) [unfolded served_def, THEN conjunct2, THEN conjunct2, THEN conjunct2]
    have "front_ok st'" "sb_regions (st_sparse st') \<noteq> []"
      using s(3) front0 by (auto simp: front_ok_def st1_def)
    moreover have "read_hole st1 = None" using assms(2) by (simp add: st1_def)
    ultimately have "(es = [] \<and> store_inv asset rq st') \<or> (es = [answer asset pn] \<and> store_inv asset None st')"
      using s(2,4) unfolding store_inv_def Some by auto
    then show ?thesis
      using e s(1) Some \<open>sb_regions (st_sparse st') \<noteq> []\<close> by (intro exI [of _ es] exI [of _ st']) auto
  qed
qed

section \<open>Runs of the cache\<close>

datatype cache_call = Described bool | ReadAt nat nat | Continue | Upstream

text \<open>An upstream reader that delivers the asset: it describes it, and reads what it is asked to.\<close>

definition cache_exec :: "u8 list \<Rightarrow> cache_call \<Rightarrow> reader_cache \<Rightarrow> (cache_event list \<times> reader_cache) option" where
  "cache_exec asset c rc = (case c of
     Described can_seek \<Rightarrow> describe_complete kOk (length asset) can_seek rc
   | ReadAt p n \<Rightarrow> cache_read_at p n rc
   | Continue \<Rightarrow> intake_continue rc
   | Upstream \<Rightarrow> (case rc_intake rc of
        None \<Rightarrow> None
      | Some (p, sz) \<Rightarrow> intake_complete kOk (asset_slice asset p sz) rc))"

text \<open>
  When the calls are made. A client waits for its previous read, reads inside the asset, reads
  at the front first, and reads before the intake starts, from a completion callback or once
  the asset is cached, so never while an upstream read is in flight.
\<close>

definition cache_enabled :: "u8 list \<Rightarrow> cache_call \<Rightarrow> reader_cache \<Rightarrow> bool" where
  "cache_enabled asset c rc \<longleftrightarrow> (case c of
     Described can_seek \<Rightarrow> \<not> rc_described rc
   | ReadAt p n \<Rightarrow> \<not> rc_in_progress rc \<and> rc_intake rc = None \<and> p < length asset \<and> 0 < n \<and> p + n < 2 ^ 64 \<and>
       (sb_regions (st_sparse (rc_store rc)) = [] \<longrightarrow> p = 0)
   | Continue \<Rightarrow> rc_due rc
   | Upstream \<Rightarrow> rc_intake rc \<noteq> None)"

fun call_reads :: "cache_call \<Rightarrow> (nat \<times> nat) list" where
  "call_reads (ReadAt p n) = [(p, n)]"
| "call_reads _ = []"

inductive cache_run :: "u8 list \<Rightarrow> reader_cache \<Rightarrow> (nat \<times> nat) list \<Rightarrow> cache_event list \<Rightarrow> bool" where
  run_start: "cache_run asset new_reader_cache [] []"
| run_call: "cache_run asset rc reads es \<Longrightarrow> cache_enabled asset c rc \<Longrightarrow>
    cache_exec asset c rc = Some (out, rc') \<Longrightarrow> cache_run asset rc' (reads @ call_reads c) (es @ out)"

fun is_read_done :: "cache_event \<Rightarrow> bool" where
  "is_read_done (ReadDone r n d) \<longleftrightarrow> True"
| "is_read_done _ \<longleftrightarrow> False"

definition intake_ok :: "reader_cache \<Rightarrow> bool" where
  "intake_ok rc \<longleftrightarrow> (case rc_intake rc of
     None \<Rightarrow> rc_due rc \<or> holes (st_sparse (rc_store rc)) = []
   | Some (p, sz) \<Rightarrow> \<not> rc_due rc \<and> read_hole (rc_store rc) = None \<and> intake_hole (rc_store rc) = Some p \<and>
       (\<exists>n. (p, n) \<in> set (holes (st_sparse (rc_store rc))) \<and> 0 < sz \<and> sz \<le> n))"

definition described_inv :: "u8 list \<Rightarrow> reader_cache \<Rightarrow> (nat \<times> nat) list \<Rightarrow> cache_event list \<Rightarrow> bool" where
  "described_inv asset rc reads es \<longleftrightarrow> (\<exists>rq answered.
     store_inv asset rq (rc_store rc) \<and> rc_waiting rc = [] \<and> rc_in_progress rc = (rq \<noteq> None) \<and>
     reads = answered @ (case rq of None \<Rightarrow> [] | Some pn \<Rightarrow> [pn]) \<and>
     filter is_read_done es = map (answer asset) answered \<and> intake_ok rc)"

definition undescribed_inv :: "reader_cache \<Rightarrow> (nat \<times> nat) list \<Rightarrow> cache_event list \<Rightarrow> bool" where
  "undescribed_inv rc reads es \<longleftrightarrow> rc_store rc = new_store \<and> rc_intake rc = None \<and> \<not> rc_due rc \<and> es = [] \<and>
     ((reads = [] \<and> rc_waiting rc = [] \<and> \<not> rc_in_progress rc) \<or>
      (\<exists>n. reads = [(0, n)] \<and> rc_waiting rc = [ReadWhen] \<and> rc_in_progress rc \<and> 0 < n \<and> n < 2 ^ 64 \<and>
         rc_request rc = request_start 0 n))"

definition cache_inv :: "u8 list \<Rightarrow> reader_cache \<Rightarrow> (nat \<times> nat) list \<Rightarrow> cache_event list \<Rightarrow> bool" where
  "cache_inv asset rc reads es \<longleftrightarrow>
     (if rc_described rc then described_inv asset rc reads es else undescribed_inv rc reads es)"

lemma is_read_done_answer [simp]: "is_read_done (answer asset pn)"
  by (cases pn) (simp add: answer_def)

lemma no_holes_no_request:
  assumes "store_inv asset rq st" "holes (st_sparse st) = []"
  shows "rq = None"
  using assms by (auto simp: store_inv_def store_ok_def iter_ok_def split: option.splits)

lemma hole_in_file:
  assumes "store_ok asset st" "(p, n) \<in> set (holes (st_sparse st))"
  shows "p + n \<le> length asset"
proof -
  have wf: "sparse_wf (st_sparse st)" "sb_size (st_sparse st) = length asset"
    using assms(1) by (auto simp: store_ok_def)
  have n: "0 < n" using spans_okD(2) [OF sparse_wfD(2) [OF wf(1)] assms(2)] by simp
  then have "in_hole (st_sparse st) (p + n - 1)" using assms(2) by (intro coversI) auto
  then have "p + n - 1 < length asset" using sparse_wfD(4) [OF wf(1)] wf(2) by metis
  then show ?thesis using n by simp
qed

lemma same_regions_no_holes:
  assumes "store_ok asset st" "store_ok asset st'" "sb_regions (st_sparse st') = sb_regions (st_sparse st)"
    "holes (st_sparse st) = []"
  shows "holes (st_sparse st') = []"
proof (rule ccontr)
  assume "holes (st_sparse st') \<noteq> []"
  then obtain k n where kn: "(k, n) \<in> set (holes (st_sparse st'))" by (cases "holes (st_sparse st')") auto
  have wf: "sparse_wf (st_sparse st)" "sparse_wf (st_sparse st')"
    "sb_size (st_sparse st) = length asset" "sb_size (st_sparse st') = length asset"
    using assms(1,2) by (auto simp: store_ok_def)
  have "in_hole (st_sparse st') k"
    using key_in_span [OF sparse_wfD(2) [OF wf(2)] kn] kn by (intro coversI) auto
  then have "k < length asset" "\<not> in_region (st_sparse st) k"
    using sparse_wfD(4,5) [OF wf(2), of k] wf(4) assms(3) by auto
  moreover have "\<not> in_hole (st_sparse st) k" using assms(4) by (simp add: covers_def)
  ultimately show False using sparse_wfD(4) [OF wf(1), of k] wf(3) by simp
qed

lemma store_initialize_correct:
  assumes "0 < length asset" "length asset < 2 ^ 64"
  shows "\<exists>st. store_initialize kOk (length asset) cs new_store = Some st \<and> store_inv asset None st"
proof -
  have "find_hole_containing 0 (sb_initialize (length asset)) = Some (Some 0)"
    using assms(1) by (simp add: find_hole_containing_def sb_initialize_def Let_def map_begin_def)
  then show ?thesis
    using assms sb_initialize_wf [OF assms(1)]
    by (auto simp: store_initialize_def store_inv_def store_ok_def front_ok_def new_store_def iter_ok_def
        sb_initialize_def)
qed

lemma read_step:
  assumes "store_inv asset None (rc_store rc)" "rc_waiting rc = []" "rc_in_progress rc"
    "filter is_read_done es = map (answer asset) answered" "rc_request rc = request_start p n"
    "p < length asset" "0 < n" "p + n < 2 ^ 64" "sb_regions (st_sparse (rc_store rc)) = [] \<Longrightarrow> p = 0"
  shows "\<exists>out rc'. run_consequence ReadWhen rc = Some (out, rc') \<and> rc_described rc' = rc_described rc \<and>
    rc_intake rc' = rc_intake rc \<and> rc_due rc' = rc_due rc \<and> rc_waiting rc' = [] \<and>
    sb_regions (st_sparse (rc_store rc')) = sb_regions (st_sparse (rc_store rc)) \<and>
    (\<exists>rq answered'. store_inv asset rq (rc_store rc') \<and> rc_in_progress rc' = (rq \<noteq> None) \<and>
      answered @ [(p, n)] = answered' @ (case rq of None \<Rightarrow> [] | Some pn \<Rightarrow> [pn]) \<and>
      filter is_read_done (es @ out) = map (answer asset) answered')"
proof -
  obtain out st where s: "set_read_at_request (request_start p n) (rc_store rc) = Some (out, st)"
    "(out = [answer asset (p, n)] \<and> store_inv asset None st) \<or> (out = [] \<and> store_inv asset (Some (p, n)) st)"
    "sb_regions (st_sparse st) = sb_regions (st_sparse (rc_store rc))"
    using set_read_at_request_correct [OF assms(1,6-9)] by blast
  then have r: "run_consequence ReadWhen rc = Some (out, note_completion out (rc\<lparr>rc_store := st\<rparr>))"
    using assms(5) by (simp add: run_consequence_def)
  show ?thesis
    using s(2)
  proof (elim disjE conjE)
    assume "out = [answer asset (p, n)]" "store_inv asset None st"
    then show ?thesis
      using r s(3) assms(2-4) by (auto simp: note_completion_def intro!: exI [of _ None])
  next
    assume "out = []" "store_inv asset (Some (p, n)) st"
    then show ?thesis
      using r s(3) assms(2-4) by (auto simp: note_completion_def intro!: exI [of _ "Some (p, n)"])
  qed
qed

lemma cache_step:
  assumes "0 < length asset" "length asset < 2 ^ 64" "cache_inv asset rc reads es" "cache_enabled asset c rc"
  shows "\<exists>out rc'. cache_exec asset c rc = Some (out, rc') \<and>
    cache_inv asset rc' (reads @ call_reads c) (es @ out)"
proof (cases c)
  case (Described cs)
  then have d: "undescribed_inv rc reads es" using assms(3,4) by (simp add: cache_inv_def cache_enabled_def)
  then have u: "rc_store rc = new_store" "rc_intake rc = None" "\<not> rc_due rc" "es = []"
    by (auto simp: undescribed_inv_def)
  obtain st where st: "store_initialize kOk (length asset) cs new_store = Some st" "store_inv asset None st"
    using store_initialize_correct [OF assms(1,2)] by blast
  define rc1 where "rc1 = rc\<lparr>rc_store := st, rc_described := True, rc_waiting := []\<rparr>"
  from d consider "reads = []" "rc_waiting rc = []" "\<not> rc_in_progress rc"
    | n where "reads = [(0, n)]" "rc_waiting rc = [ReadWhen]" "rc_in_progress rc" "0 < n" "n < 2 ^ 64"
      "rc_request rc = request_start 0 n"
    by (auto simp: undescribed_inv_def)
  then show ?thesis
  proof cases
    case 1
    then have "cache_exec asset c rc = Some ([], rc1\<lparr>rc_due := True\<rparr>)"
      using Described u(1) st(1) by (simp add: cache_exec_def describe_complete_def rc1_def)
    moreover have "described_inv asset (rc1\<lparr>rc_due := True\<rparr>) [] []"
      unfolding described_inv_def using st(2) 1 u(2)
      by (intro exI [of _ None] exI [of _ "[]"]) (simp add: rc1_def intake_ok_def)
    ultimately show ?thesis using Described 1 u(4) by (auto simp: cache_inv_def rc1_def)
  next
    case 2
    have "\<exists>out rc'. run_consequence ReadWhen rc1 = Some (out, rc') \<and> rc_described rc' = rc_described rc1 \<and>
      rc_intake rc' = rc_intake rc1 \<and> rc_due rc' = rc_due rc1 \<and> rc_waiting rc' = [] \<and>
      sb_regions (st_sparse (rc_store rc')) = sb_regions (st_sparse (rc_store rc1)) \<and>
      (\<exists>rq answered'. store_inv asset rq (rc_store rc') \<and> rc_in_progress rc' = (rq \<noteq> None) \<and>
        [] @ [(0, n)] = answered' @ (case rq of None \<Rightarrow> [] | Some pn \<Rightarrow> [pn]) \<and>
        filter is_read_done ([] @ out) = map (answer asset) answered')"
      by (rule read_step) (use 2 st(2) assms(1) in \<open>simp_all add: rc1_def\<close>)
    then obtain out rc' rq answered' where r: "run_consequence ReadWhen rc1 = Some (out, rc')"
      "rc_described rc'" "rc_intake rc' = None" "rc_waiting rc' = []" "store_inv asset rq (rc_store rc')"
      "rc_in_progress rc' = (rq \<noteq> None)"
      "[(0, n)] = answered' @ (case rq of None \<Rightarrow> [] | Some pn \<Rightarrow> [pn])"
      "filter is_read_done out = map (answer asset) answered'"
      using u(2) by (auto simp: rc1_def)
    have "cache_exec asset c rc = Some (out, rc'\<lparr>rc_due := True\<rparr>)"
      using Described u(1) st(1) r(1) 2(2) by (simp add: cache_exec_def describe_complete_def rc1_def)
    moreover have "described_inv asset (rc'\<lparr>rc_due := True\<rparr>) [(0, n)] out"
      unfolding described_inv_def using r
      by (intro exI [of _ rq] exI [of _ answered']) (simp add: intake_ok_def)
    ultimately show ?thesis using Described 2 u(4) r(2) by (auto simp: cache_inv_def)
  qed
next
  case (ReadAt p n)
  then have en: "\<not> rc_in_progress rc" "rc_intake rc = None" "p < length asset" "0 < n" "p + n < 2 ^ 64"
    "sb_regions (st_sparse (rc_store rc)) = [] \<Longrightarrow> p = 0"
    using assms(4) by (auto simp: cache_enabled_def)
  define rc1 where "rc1 = rc\<lparr>rc_request := request_start p n, rc_in_progress := True\<rparr>"
  have e: "cache_exec asset c rc = cache_when ReadWhen rc1"
    using ReadAt en by (simp add: cache_exec_def cache_read_at_def rc1_def)
  show ?thesis
  proof (cases "rc_described rc")
    case False
    then have u: "undescribed_inv rc reads es" using assms(3) by (simp add: cache_inv_def)
    then have "p = 0" using en(6) by (simp add: undescribed_inv_def new_store_def)
    then have "undescribed_inv (rc1\<lparr>rc_waiting := rc_waiting rc1 @ [ReadWhen]\<rparr>) (reads @ [(p, n)]) es"
      using u en by (auto simp: undescribed_inv_def rc1_def)
    then show ?thesis
      using e False ReadAt by (auto simp: cache_when_def cache_inv_def rc1_def)
  next
    case True
    then obtain rq answered where d: "store_inv asset rq (rc_store rc)" "rc_waiting rc = []"
      "rc_in_progress rc = (rq \<noteq> None)" "reads = answered @ (case rq of None \<Rightarrow> [] | Some pn \<Rightarrow> [pn])"
      "filter is_read_done es = map (answer asset) answered" "intake_ok rc"
      using assms(3) by (auto simp: cache_inv_def described_inv_def)
    have rq: "rq = None" using d(3) en(1) by (cases rq) simp_all
    have "\<exists>out rc'. run_consequence ReadWhen rc1 = Some (out, rc') \<and> rc_described rc' = rc_described rc1 \<and>
      rc_intake rc' = rc_intake rc1 \<and> rc_due rc' = rc_due rc1 \<and> rc_waiting rc' = [] \<and>
      sb_regions (st_sparse (rc_store rc')) = sb_regions (st_sparse (rc_store rc1)) \<and>
      (\<exists>rq answered'. store_inv asset rq (rc_store rc') \<and> rc_in_progress rc' = (rq \<noteq> None) \<and>
        answered @ [(p, n)] = answered' @ (case rq of None \<Rightarrow> [] | Some pn \<Rightarrow> [pn]) \<and>
        filter is_read_done (es @ out) = map (answer asset) answered')"
      by (rule read_step) (use d rq en in \<open>simp_all add: rc1_def\<close>)
    then obtain out rc' rq' answered' where r: "run_consequence ReadWhen rc1 = Some (out, rc')"
      "rc_described rc'" "rc_intake rc' = None" "rc_due rc' = rc_due rc" "rc_waiting rc' = []"
      "store_inv asset rq' (rc_store rc')" "rc_in_progress rc' = (rq' \<noteq> None)"
      "answered @ [(p, n)] = answered' @ (case rq' of None \<Rightarrow> [] | Some pn \<Rightarrow> [pn])"
      "filter is_read_done (es @ out) = map (answer asset) answered'"
      "sb_regions (st_sparse (rc_store rc')) = sb_regions (st_sparse (rc_store rc))"
      using en(2) True by (auto simp: rc1_def)
    have "rc_due rc' \<or> holes (st_sparse (rc_store rc')) = []"
    proof (cases "rc_due rc")
      case False
      then have "holes (st_sparse (rc_store rc)) = []" using d(6) en(2) by (simp add: intake_ok_def)
      moreover have "store_ok asset (rc_store rc)" "store_ok asset (rc_store rc')"
        using d(1) r(6) by (simp_all add: store_inv_def)
      ultimately show ?thesis using same_regions_no_holes r(10) by blast
    qed (simp add: r(4))
    then have "intake_ok rc'" using r(3) by (simp add: intake_ok_def)
    then have "described_inv asset rc' (reads @ [(p, n)]) (es @ out)"
      unfolding described_inv_def using r d(4) rq
      by (intro exI [of _ rq'] exI [of _ answered']) simp
    moreover have "cache_exec asset c rc = Some (out, rc')"
      using e True r(1) by (simp add: cache_when_def rc1_def)
    ultimately show ?thesis using r(2) ReadAt by (auto simp: cache_inv_def)
  qed
next
  case Continue
  then have "rc_due rc" using assms(4) by (simp add: cache_enabled_def)
  then have "rc_described rc" using assms(3) by (auto simp: cache_inv_def undescribed_inv_def split: if_splits)
  then obtain rq answered where d: "store_inv asset rq (rc_store rc)" "rc_waiting rc = []"
    "rc_in_progress rc = (rq \<noteq> None)" "reads = answered @ (case rq of None \<Rightarrow> [] | Some pn \<Rightarrow> [pn])"
    "filter is_read_done es = map (answer asset) answered" "intake_ok rc"
    using assms(3) by (auto simp: cache_inv_def described_inv_def)
  have none: "rc_intake rc = None" using d(6) \<open>rc_due rc\<close> by (auto simp: intake_ok_def split: option.splits)
  obtain ps st where g: "get_intake_position_and_size (rc_store rc) = Some (ps, st)" "store_inv asset rq st"
    "read_hole st = None" "st_sparse st = st_sparse (rc_store rc)"
    "case ps of None \<Rightarrow> holes (st_sparse (rc_store rc)) = [] \<and> rq = None
      | Some (p, sz) \<Rightarrow> \<exists>n. (p, n) \<in> set (holes (st_sparse (rc_store rc))) \<and> 0 < sz \<and> sz \<le> n \<and>
          intake_hole st = Some p"
    using get_intake_correct [OF d(1)] by blast
  define rc' where "rc' = rc\<lparr>rc_store := st, rc_due := False, rc_intake := ps\<rparr>"
  define out where "out = (case ps of None \<Rightarrow> [] | Some (p, sz) \<Rightarrow> [UpstreamRead p sz])"
  have "cache_exec asset c rc = Some (out, rc')"
    using Continue g none
    by (auto simp: cache_exec_def intake_continue_def rc'_def out_def Let_def split: option.splits)
  moreover have "intake_ok rc'"
    using g by (auto simp: intake_ok_def rc'_def split: option.splits)
  moreover have "filter is_read_done out = []" by (auto simp: out_def split: option.splits)
  ultimately show ?thesis
    using d g(2) \<open>rc_described rc\<close> Continue
    by (auto simp: cache_inv_def described_inv_def rc'_def intro!: exI [of _ rq] exI [of _ answered])
next
  case Upstream
  then obtain p sz where f: "rc_intake rc = Some (p, sz)" using assms(4) by (auto simp: cache_enabled_def)
  then have "rc_described rc" using assms(3) by (auto simp: cache_inv_def undescribed_inv_def split: if_splits)
  then obtain rq answered where d: "store_inv asset rq (rc_store rc)" "rc_waiting rc = []"
    "rc_in_progress rc = (rq \<noteq> None)" "reads = answered @ (case rq of None \<Rightarrow> [] | Some pn \<Rightarrow> [pn])"
    "filter is_read_done es = map (answer asset) answered" "intake_ok rc"
    using assms(3) by (auto simp: cache_inv_def described_inv_def)
  then obtain n where n: "read_hole (rc_store rc) = None" "intake_hole (rc_store rc) = Some p"
    "(p, n) \<in> set (holes (st_sparse (rc_store rc)))" "0 < sz" "sz \<le> n"
    using f by (auto simp: intake_ok_def)
  obtain out st where s: "put_intake_buffer p (asset_slice asset p sz) (rc_store rc) = Some (out, st)"
    "(out = [] \<and> store_inv asset rq st) \<or> (\<exists>pn. rq = Some pn \<and> out = [answer asset pn] \<and> store_inv asset None st)"
    using put_intake_buffer_correct [OF d(1) n refl] by blast
  have len: "length (asset_slice asset p sz) = sz" "asset_slice asset p sz \<noteq> []"
  proof -
    have "store_ok asset (rc_store rc)" using d(1) by (simp add: store_inv_def)
    then show "length (asset_slice asset p sz) = sz"
      using hole_in_file [OF _ n(3)] n(5) by (intro length_asset_slice) fastforce
    then show "asset_slice asset p sz \<noteq> []" using n(4) by auto
  qed
  have e: "cache_exec asset c rc = Some (out, note_completion out (rc\<lparr>rc_store := st, rc_intake := None, rc_due := True\<rparr>))"
    using Upstream f s(1) len by (simp add: cache_exec_def intake_complete_def Let_def)
  show ?thesis
    using s(2)
  proof (elim disjE conjE exE)
    assume "out = []" "store_inv asset rq st"
    then show ?thesis
      using e d \<open>rc_described rc\<close> Upstream
      by (auto simp: cache_inv_def described_inv_def note_completion_def intake_ok_def
          intro!: exI [of _ rq] exI [of _ answered])
  next
    fix pn assume "rq = Some pn" "out = [answer asset pn]" "store_inv asset None st"
    then show ?thesis
      using e d \<open>rc_described rc\<close> Upstream
      by (auto simp: cache_inv_def described_inv_def note_completion_def intake_ok_def
          intro!: exI [of _ None] exI [of _ reads])
  qed
qed

lemma cache_run_inv:
  assumes "cache_run asset rc reads es" "0 < length asset" "length asset < 2 ^ 64"
  shows "cache_inv asset rc reads es"
  using assms
proof (induction asset rc reads es rule: cache_run.induct)
  case (run_start asset)
  then show ?case by (simp add: cache_inv_def undescribed_inv_def new_reader_cache_def)
next
  case (run_call asset rc reads es c out rc')
  then show ?case using cache_step [of asset rc reads es c] by auto
qed

section \<open>Properties\<close>

text \<open>C13. Over any run in which the upstream reader delivers every byte it is asked for, without an error,
  and the client has one read outstanding at a time, reads inside the asset, at the front first and
  never while an upstream read is in flight (\<open>cache_enabled\<close>; what happens otherwise is shown below): no debug check of the cache fails, every completed read delivered exactly the bytes
  of the asset at the position asked for, in the order of the requests, at most the last request
  is unanswered, and when intake stops the whole asset is cached and nothing is outstanding.\<close>

theorem reader_cache_delivers_the_file:
  assumes "cache_run asset rc reads es" "0 < length asset" "length asset < 2 ^ 64"
  shows "(\<forall>c. cache_enabled asset c rc \<longrightarrow> cache_exec asset c rc \<noteq> None) \<and>
    (\<exists>answered. (reads = answered \<or> (\<exists>pn. reads = answered @ [pn])) \<and>
      filter is_read_done es = map (answer asset) answered) \<and>
    (rc_described rc \<and> \<not> rc_due rc \<and> rc_intake rc = None \<longrightarrow>
      filter is_read_done es = map (answer asset) reads \<and>
      (\<forall>x < length asset. byte_at (st_sparse (rc_store rc)) x = Some (asset ! x)))"
proof -
  note inv = cache_run_inv [OF assms]
  have "\<forall>c. cache_enabled asset c rc \<longrightarrow> cache_exec asset c rc \<noteq> None"
    using cache_step [OF assms(2,3) inv] by blast
  moreover have "\<exists>answered. (reads = answered \<or> (\<exists>pn. reads = answered @ [pn])) \<and>
      filter is_read_done es = map (answer asset) answered"
  proof (cases "rc_described rc")
    case True
    then obtain rq answered where "reads = answered @ (case rq of None \<Rightarrow> [] | Some pn \<Rightarrow> [pn])"
      "filter is_read_done es = map (answer asset) answered"
      using inv by (auto simp: cache_inv_def described_inv_def)
    then show ?thesis by (intro exI [of _ answered]) (auto split: option.splits)
  next
    case False
    then have "(reads = [] \<or> (\<exists>n. reads = [(0, n)])) \<and> es = []"
      using inv by (auto simp: cache_inv_def undescribed_inv_def)
    then show ?thesis by (intro exI [of _ "[]"]) auto
  qed
  moreover have "filter is_read_done es = map (answer asset) reads \<and>
      (\<forall>x < length asset. byte_at (st_sparse (rc_store rc)) x = Some (asset ! x))"
    if fin: "rc_described rc \<and> \<not> rc_due rc \<and> rc_intake rc = None"
  proof -
    obtain rq answered where d: "store_inv asset rq (rc_store rc)"
      "reads = answered @ (case rq of None \<Rightarrow> [] | Some pn \<Rightarrow> [pn])"
      "filter is_read_done es = map (answer asset) answered" "intake_ok rc"
      using inv fin by (auto simp: cache_inv_def described_inv_def)
    have h: "holes (st_sparse (rc_store rc)) = []" using d(4) fin by (simp add: intake_ok_def)
    then have "rq = None" by (rule no_holes_no_request [OF d(1)])
    moreover have "byte_at (st_sparse (rc_store rc)) x = Some (asset ! x)" if "x < length asset" for x
    proof -
      have ok: "store_ok asset (rc_store rc)" using d(1) by (simp add: store_inv_def)
      then have wf: "sparse_wf (st_sparse (rc_store rc))" "sb_size (st_sparse (rc_store rc)) = length asset"
        by (auto simp: store_ok_def)
      have "\<not> in_hole (st_sparse (rc_store rc)) x" using h by (simp add: covers_def)
      then have "in_region (st_sparse (rc_store rc)) x" using sparse_wfD(4) [OF wf(1), of x] wf(2) that by simp
      then obtain b where "byte_at (st_sparse (rc_store rc)) x = Some b"
        using byte_at_None by fastforce
      then show ?thesis using ok by (auto simp: store_ok_def)
    qed
    ultimately show ?thesis using d(2,3) by simp
  qed
  ultimately show ?thesis by blast
qed

text \<open>The cache reads memory it does not own when a client reads before everything that is
  cached: \<open>FindRegionContaining\<close> then answers with the first region, whose position is behind
  the requested one, and the check in \<open>ServeRequest\<close> that the region contains the position
  fails. Reading at 5 and then at 0 of a fresh cache is such a client.\<close>

theorem read_before_cached_regions_fails:
  assumes "store_ok asset st" "st_request st = None" "sb_regions (st_sparse st) \<noteq> []"
    "\<forall>k \<in> keys (sb_regions (st_sparse st)). p < k" "0 < n" "p + n \<le> length asset"
  shows "set_read_at_request (request_start p n) st = None"
proof -
  have st: "sparse_wf (st_sparse st)" "sb_size (st_sparse st) = length asset" "st_size st = length asset"
    "iter_ok (read_region st) (sb_regions (st_sparse st))" "st_result st = kOk" "length asset < 2 ^ 64"
    using assms(1) by (auto simp: store_ok_def)
  note ok = spans_okD(1) [OF sparse_wfD(3) [OF st(1)]]
  obtain k where k: "map_begin (sb_regions (st_sparse st)) = Some k"
    using assms(3) by (cases "map_begin (sb_regions (st_sparse st))") auto
  have kk: "k \<in> keys (sb_regions (st_sparse st))" using map_begin_Some [OF ok k] by simp
  then have pk: "p < k" using assms(4) by simp
  obtain d where d: "map_of (sb_regions (st_sparse st)) k = Some d" using omap_key_value [OF ok kk] by blast
  have nr: "\<not> in_region (st_sparse st) p"
  proof
    assume "in_region (st_sparse st) p"
    then obtain a v where "(a, v) \<in> set (sb_regions (st_sparse st))" "a \<le> p" by (rule coversE)
    then show False using assms(4) keysI by fastforce
  qed
  have nb: "\<not> (\<exists>k \<in> keys (sb_regions (st_sparse st)). k \<le> p)" using assms(4) by fastforce
  have "find_region_containing p (read_region st) (st_sparse st) = Some (Some k)"
    using find_region_containing_exact [OF st(1), of p "read_region st"] st(2,4) assms(5,6) nr nb k
    by (auto simp: iter_ok_def)
  then show ?thesis
    using assms(2,5,6) st(3,5,6) d pk
    by (simp add: set_read_at_request_def serve_request_def request_start_def serve_loop.simps)
qed

text \<open>C40. A read that arrives while an upstream read is in flight, at a position the upstream
  read will cover, splits the hole the intake is filling; the check in \<open>PutIntakeBuffer\<close> that
  the delivered buffer fits the intake hole then fails, although the code before it handles
  exactly this case by clearing \<open>read_hole_\<close>.\<close>

theorem read_inside_inflight_intake_fails:
  assumes "store_inv asset None st" "intake_hole st = Some p" "(p, n) \<in> set (holes (st_sparse st))"
    "p < q" "q < p + length buf" "length buf \<le> n" "0 < m" "q + m \<le> length asset"
    "set_read_at_request (request_start q m) st = Some (es, st')"
  shows "es = [] \<and> put_intake_buffer p buf st' = None"
proof -
  have inv: "store_ok asset st" "front_regions st" "st_request st = None"
    using assms(1) by (auto simp: store_inv_def intro: front_ok_regions)
  have st: "sparse_wf (st_sparse st)" "st_size st = length asset" "st_result st = kOk" "length asset < 2 ^ 64"
    using inv(1) by (auto simp: store_ok_def)
  note hok = spans_okD(1) [OF sparse_wfD(2) [OF st(1)]]
  have hole: "in_hole (st_sparse st) q" using assms(4-6) by (intro coversI [OF assms(3)]) auto
  obtain it where it: "find_region_containing q (read_region st) (st_sparse st) = Some it"
    "case it of None \<Rightarrow> in_hole (st_sparse st) q
     | Some k \<Rightarrow> \<exists>d. map_of (sb_regions (st_sparse st)) k = Some d \<and> k \<le> q \<and> q < k + length d \<and>
         d = asset_slice asset k (length d) \<and> k + length d \<le> length asset"
    using store_ok_find_region [OF inv(1,2), of q] assms(7,8) by auto
  have it_none: "it = None"
  proof (cases it)
    case (Some k)
    then obtain d where "map_of (sb_regions (st_sparse st)) k = Some d" "k \<le> q" "q < k + length d"
      using it(2) by auto
    then have "in_region (st_sparse st) q" by (intro coversI [OF map_of_SomeD])
    then show ?thesis using sparse_wfD(5) [OF st(1) hole] by simp
  qed
  have mp: "map_of (holes (st_sparse st)) p = Some n" using omap_mem [OF hok] assms(3) by simp
  define hs where "hs = map_insert q (n - (q - p)) (map_assign p (q - p) (holes (st_sparse st)))"
  have "find_or_create_hole q (Some p) (st_sparse st) = split_hole q p (st_sparse st)"
    using mp assms(3-6) sparse_wfD(1) [OF st(1)]
    by (cases "holes (st_sparse st)") (auto simp: find_or_create_hole_def simp del: map_of.simps)
  also have "\<dots> = Some (q, (st_sparse st)\<lparr>holes := hs\<rparr>)"
    using mp assms(4-6) by (simp add: split_hole_def hs_def)
  finally have f: "find_or_create_hole q (Some p) (st_sparse st) = Some (q, (st_sparse st)\<lparr>holes := hs\<rparr>)" .
  have rem: "(if (q + m) mod 2 ^ 64 > length asset then length asset - q else m) = m"
    using assms(8) st(4) by simp
  have r: "es = [] \<and> intake_hole st' = Some p \<and> st_sparse st' = (st_sparse st)\<lparr>holes := hs\<rparr>"
    using assms(9) inv(3) st(2,3) assms(7,8) it(1) it_none f rem assms(2)
    by (simp add: set_read_at_request_def serve_request_def request_start_def serve_loop.simps
        split: if_splits) auto
  have qn: "q < p + n" using assms(5,6) by simp
  note split = spans_split [OF sparse_wfD(2) [OF st(1)] assms(3,4) qn, folded hs_def]
  have "map_of hs p = Some (q - p)"
    using omap_mem [OF spans_okD(1) [OF split(1)], of p "q - p"] split(5) by simp
  moreover have "\<not> length buf \<le> q - p" using assms(4,5) by simp
  ultimately show ?thesis using r by (simp add: put_intake_buffer_def dcheck_bind_if)
qed

text \<open>The intake hands the whole buffer it asked for to the store, whatever number of bytes
  the upstream reader reports: after a short read the rest of the span is cached as zeros.\<close>

theorem short_upstream_read_caches_zeros:
  assumes "store_inv asset rq (rc_store rc)" "st_request (rc_store rc) = None"
    "rc_intake rc = Some (p, sz)" "intake_hole (rc_store rc) = Some p"
    "(p, n) \<in> set (holes (st_sparse (rc_store rc)))" "sz \<le> n" "bytes \<noteq> []" "length bytes < sz"
    "p + length bytes \<le> x" "x < p + sz"
  shows "\<exists>es rc'. intake_complete kOk bytes rc = Some (es, rc') \<and>
    byte_at (st_sparse (rc_store rc')) x = Some 0"
proof -
  have wf: "sparse_wf (st_sparse (rc_store rc))"
    using assms(1) by (simp add: store_inv_def store_ok_def)
  have rh: "read_hole (rc_store rc) = None"
    using assms(1,2) by (auto simp: store_inv_def split: option.splits)
  let ?buf = "bytes @ replicate (sz - length bytes) 0"
  have len: "length ?buf = sz" "?buf \<noteq> []" using assms(7,8) by auto
  have m: "map_of (holes (st_sparse (rc_store rc))) p = Some n"
    using assms(5) omap_mem [OF spans_okD(1) [OF sparse_wfD(2) [OF wf]]] by simp
  obtain it sb where f: "fill (Some p) ?buf (st_sparse (rc_store rc)) = Some (it, sb)"
    "\<forall>x. byte_at sb x = (if p \<le> x \<and> x < p + length ?buf then Some (?buf ! (x - p))
       else byte_at (st_sparse (rc_store rc)) x)"
    using fill_correct [OF wf assms(5) len(2)] len(1) assms(6) by auto
  have "byte_at sb x = Some 0"
    using f(2) len(1) assms(9,10) by (auto simp: nth_append)
  moreover have "intake_complete kOk bytes rc = Some ([], rc\<lparr>rc_store :=
      (rc_store rc)\<lparr>intake_hole := it, st_sparse := sb\<rparr>, rc_intake := None, rc_due := True\<rparr>)"
    using assms(2-4,6,7) len f(1) m rh
    by (simp add: intake_complete_def put_intake_buffer_def serve_request_def note_completion_def Let_def)
  ultimately show ?thesis by auto
qed

text \<open>When an upstream read fails while the client's read has been served in part, the check
  in \<open>ReadAtRequest::Complete\<close> that a failed read has read nothing fails.\<close>

theorem intake_error_after_partial_copy_fails:
  assumes "st_request st = Some r" "rq_remaining r < rq_original r" "result \<noteq> kOk"
  shows "report_intake_error result st = None"
  using assms
  by (simp add: report_intake_error_def serve_request_def serve_loop.simps request_complete_def Let_def)

section \<open>Witnesses\<close>

definition ten_bytes :: "u8 list" where
  "ten_bytes = [10, 11, 12, 13, 14, 15, 16, 17, 18, 19]"

definition idle_store :: "iter \<Rightarrow> nat omap \<Rightarrow> u8 list omap \<Rightarrow> cache_store" where
  "idle_store ih hs rs = \<lparr>st_result = kOk, st_size = 10, st_can_seek = True,
     st_sparse = \<lparr>sb_size = 10, holes = hs, sb_regions = rs\<rparr>, intake_hole = ih,
     read_hole = None, read_region = None, st_request = None, rr_position = 0, rr_remaining = 0\<rparr>"

text \<open>Nothing cached, and intake at the front; two bytes cached in the middle.\<close>

abbreviation "front_store \<equiv> idle_store (Some 0) [(0, 10)] []"
abbreviation "middle_store \<equiv> idle_store (Some 7) [(0, 5), (7, 3)] [(5, [15, 16])]"

lemma front_store_inv: "store_inv ten_bytes None front_store"
proof -
  have "sparse_wf \<lparr>sb_size = 10, holes = [(0, 10)], sb_regions = []\<rparr>"
    using sb_initialize_wf(1) [of 10] by (simp add: sb_initialize_def)
  then show ?thesis
    by (simp add: store_inv_def store_ok_def front_ok_def iter_ok_def idle_store_def ten_bytes_def byte_at_def)
qed

lemma middle_store_ok: "store_ok ten_bytes middle_store"
proof -
  have "sparse_wf \<lparr>sb_size = 10, holes = [(0, 5), (7, 3)], sb_regions = [(5, [15, 16])]\<rparr>"
    by (rule sparse_wfI) (auto simp: spans_ok_def covers_def)
  then show ?thesis
    by (auto simp: store_ok_def iter_ok_def idle_store_def ten_bytes_def byte_at_def nth_Cons'
        split: if_splits)
qed

lemmas cache_eval = cache_exec_def cache_enabled_def describe_complete_def cache_read_at_def cache_when_def
  run_consequence_def set_read_at_request_def serve_request_def serve_loop.simps find_region_containing_def
  check_region_hint_def search_region_def find_or_create_hole_def find_hole_containing_def split_hole_def
  store_initialize_def sb_initialize_def intake_continue_def get_intake_position_and_size_def
  intake_complete_def put_intake_buffer_def fill_def fill_holes.simps request_start_def
  request_copy_from_def request_complete_def note_completion_def map_begin_def map_erase_def
  map_assign_def asset_slice_def Let_def

lemma front_read_eval:
  "(do { (e1, rc1) \<leftarrow> cache_exec ten_bytes (ReadAt 0 3) new_reader_cache;
         (e2, rc2) \<leftarrow> cache_exec ten_bytes (Described True) rc1;
         (e3, rc3) \<leftarrow> cache_exec ten_bytes Continue rc2;
         (e4, rc4) \<leftarrow> cache_exec ten_bytes Upstream rc3;
         Some (e1 @ e2 @ e3 @ e4, rc_described rc1, rc_due rc2, rc_intake rc3) }) =
    Some ([UpstreamRead 0 3, answer ten_bytes (0, 3)], False, True, Some (0, 3))"
  by (simp add: cache_eval new_reader_cache_def new_store_def ten_bytes_def answer_def)

lemma cached_run: "\<exists>rc. cache_run ten_bytes rc [(0, 3)] [UpstreamRead 0 3, answer ten_bytes (0, 3)]"
proof -
  obtain e1 rc1 e2 rc2 e3 rc3 e4 rc4 where *:
    "cache_exec ten_bytes (ReadAt 0 3) new_reader_cache = Some (e1, rc1)"
    "cache_exec ten_bytes (Described True) rc1 = Some (e2, rc2)"
    "cache_exec ten_bytes Continue rc2 = Some (e3, rc3)"
    "cache_exec ten_bytes Upstream rc3 = Some (e4, rc4)"
    "e1 @ e2 @ e3 @ e4 = [UpstreamRead 0 3, answer ten_bytes (0, 3)]"
    "\<not> rc_described rc1" "rc_due rc2" "rc_intake rc3 = Some (0, 3)"
    using front_read_eval by (auto simp: bind_Some_iff)
  have "cache_run ten_bytes rc1 ([] @ call_reads (ReadAt 0 3)) ([] @ e1)"
    using *(1) by (intro run_call [OF run_start])
      (auto simp: cache_enabled_def new_reader_cache_def new_store_def ten_bytes_def)
  from run_call [OF this _ *(2)] have "cache_run ten_bytes rc2 [(0, 3)] (e1 @ e2)"
    using *(6) by (simp add: cache_enabled_def)
  from run_call [OF this _ *(3)] have "cache_run ten_bytes rc3 [(0, 3)] (e1 @ e2 @ e3)"
    using *(7) by (simp add: cache_enabled_def)
  from run_call [OF this _ *(4)] have "cache_run ten_bytes rc4 [(0, 3)] (e1 @ e2 @ e3 @ e4)"
    using *(8) by (simp add: cache_enabled_def)
  then show ?thesis unfolding *(5) by blast
qed

theorem reader_cache_delivers_the_file_witness:
  "\<exists>rc. (\<forall>c. cache_enabled ten_bytes c rc \<longrightarrow> cache_exec ten_bytes c rc \<noteq> None) \<and>
    (\<exists>answered. ([(0, 3)] = answered \<or> (\<exists>pn. [(0, 3)] = answered @ [pn])) \<and>
      filter is_read_done [UpstreamRead 0 3, answer ten_bytes (0, 3)] = map (answer ten_bytes) answered) \<and>
    (rc_described rc \<and> \<not> rc_due rc \<and> rc_intake rc = None \<longrightarrow>
      filter is_read_done [UpstreamRead 0 3, answer ten_bytes (0, 3)] = map (answer ten_bytes) [(0, 3)] \<and>
      (\<forall>x < length ten_bytes. byte_at (st_sparse (rc_store rc)) x = Some (ten_bytes ! x)))"
proof -
  obtain rc where rc: "cache_run ten_bytes rc [(0, 3)] [UpstreamRead 0 3, answer ten_bytes (0, 3)]"
    using cached_run by blast
  show ?thesis
    by (rule exI [of _ rc], rule reader_cache_delivers_the_file [OF rc]) (simp_all add: ten_bytes_def)
qed

theorem read_before_cached_regions_fails_witness:
  "set_read_at_request (request_start 0 2) middle_store = None"
  by (rule read_before_cached_regions_fails [OF middle_store_ok]) (simp_all add: idle_store_def ten_bytes_def)

theorem read_inside_inflight_intake_fails_witness:
  "\<exists>es st'. set_read_at_request (request_start 4 2) front_store = Some (es, st') \<and>
    es = [] \<and> put_intake_buffer 0 ten_bytes st' = None"
proof -
  obtain es st' where s: "set_read_at_request (request_start 4 2) front_store = Some (es, st')"
    by (auto simp: cache_eval idle_store_def)
  have "es = [] \<and> put_intake_buffer 0 ten_bytes st' = None"
    by (rule read_inside_inflight_intake_fails [OF front_store_inv _ _ _ _ _ _ _ s, of 0 10])
      (simp_all add: idle_store_def ten_bytes_def)
  then show ?thesis using s by auto
qed

theorem short_upstream_read_caches_zeros_witness:
  "\<exists>es rc'. intake_complete kOk [10, 11] (new_reader_cache\<lparr>rc_store := front_store,
      rc_described := True, rc_intake := Some (0, 10)\<rparr>) = Some (es, rc') \<and>
    byte_at (st_sparse (rc_store rc')) 5 = Some 0"
  by (rule short_upstream_read_caches_zeros [where asset = ten_bytes and rq = None and p = 0 and sz = 10 and n = 10])
    (use front_store_inv in \<open>simp_all add: idle_store_def\<close>)

theorem intake_error_after_partial_copy_fails_witness:
  "report_intake_error kNotFound (front_store\<lparr>st_request := Some \<lparr>rq_position = 2, rq_buffer = [10, 11],
     rq_original = 5, rq_remaining = 3\<rparr>\<rparr>) = None"
  by (rule intake_error_after_partial_copy_fails
      [where r = "\<lparr>rq_position = 2, rq_buffer = [10, 11], rq_original = 5, rq_remaining = 3\<rparr>"]) simp_all

end
