(* ===== verification/Audio_Samples.thy ===== *)
theory Audio_Samples
  imports Media_Prelude
begin

text \<open>
  The audio server's sample arithmetic: the sample formats of the media types, the
  amplitude scale of \<open>audio_server/gain.h\<close>, the per-sample templates of
  \<open>platform/generic/mixers/mixer_utils.h\<close> (normalising, scaling, combining channels,
  accumulating) and the \<open>OutputFormatter\<close> of \<open>platform/generic/output_formatter.cc\<close>.

  A buffer is the list of its samples; a sample is an \<^typ>\<open>int\<close> in the range of its C++
  type. Reading or writing past the end of a buffer is \<^term>\<open>None\<close>. The right shift of a
  signed value is division by a power of two that rounds down.
\<close>

section \<open>Formats\<close>

datatype sample_format = SF_NONE | SF_ANY | SF_UNSIGNED_8 | SF_SIGNED_16 | SF_SIGNED_24_IN_32 | SF_FLOAT

record audio_details =
  sample_format :: sample_format
  channels :: u32
  frames_per_second :: u32

text \<open>The template parameters \<open>SType\<close> and \<open>DType\<close>: \<open>uint8_t\<close> or \<open>int16_t\<close>.\<close>

datatype stype = UINT8 | INT16

fun sizeof_stype :: "stype \<Rightarrow> u32" where
  "sizeof_stype UINT8 = 1"
| "sizeof_stype INT16 = 2"

definition in_i16 :: "int \<Rightarrow> bool" where
  "in_i16 x \<longleftrightarrow> -32768 \<le> x \<and> x \<le> 32767"

fun in_stype :: "stype \<Rightarrow> int \<Rightarrow> bool" where
  "in_stype UINT8 x \<longleftrightarrow> 0 \<le> x \<and> x < 256"
| "in_stype INT16 x \<longleftrightarrow> in_i16 x"

section \<open>Gain\<close>

definition kFractionalScaleBits :: nat where "kFractionalScaleBits = 28"

definition kUnityScale :: u32 where "kUnityScale = push_bit kFractionalScaleBits 1"

definition MuteThreshold :: "nat \<Rightarrow> u32" where
  "MuteThreshold bit_count = push_bit (kFractionalScaleBits - bit_count) 1 - 1"

section \<open>Normalising, scaling and combining samples\<close>

datatype scaler_type = MUTED | LT_UNITY | EQ_UNITY | GT_UNITY

fun sample_normalize :: "stype \<Rightarrow> int \<Rightarrow> int" where
  "sample_normalize UINT8 tmp = tmp * 2 ^ 8 - 0x8000"
| "sample_normalize INT16 tmp = tmp"

fun sample_scale :: "scaler_type \<Rightarrow> int \<Rightarrow> u32 \<Rightarrow> int" where
  "sample_scale MUTED val scale = 0"
| "sample_scale LT_UNITY val scale = wrap_i32 ((val * uint scale) div 2 ^ kFractionalScaleBits)"
| "sample_scale EQ_UNITY val scale = val"
| "sample_scale GT_UNITY val scale =
    (let val = wrap_i32 ((val * uint scale) div 2 ^ kFractionalScaleBits)
     in if val > 32767 then 32767 else if val < -32768 then -32768 else val)"

text \<open>The partial specialisations of \<open>SrcReader\<close>: two source channels into one are averaged,
  every other combination reads one sample for \<open>DstPerSrc\<close> destination channels.\<close>

definition dst_per_src :: "nat \<Rightarrow> nat \<Rightarrow> nat" where
  "dst_per_src sch dch = (if sch = 2 \<and> dch = 1 then 1 else dch div sch)"

definition src_read :: "stype \<Rightarrow> nat \<Rightarrow> nat \<Rightarrow> int list \<Rightarrow> nat \<Rightarrow> int option" where
  "src_read sty sch dch src i =
    (if sch = 2 \<and> dch = 1 then do {
       l \<leftarrow> nth_opt src i;
       r \<leftarrow> nth_opt src (i + 1);
       Some ((sample_normalize sty l + sample_normalize sty r) div 2)
     } else do {
       x \<leftarrow> nth_opt src i;
       Some (sample_normalize sty x)
     })"

definition dst_mix :: "scaler_type \<Rightarrow> bool \<Rightarrow> int \<Rightarrow> int \<Rightarrow> u32 \<Rightarrow> int option" where
  "dst_mix ty accumulate dst sample scale =
    (let m = sample_scale ty sample scale + (if accumulate then dst else 0)
     in if in_i32 m then Some m else None)"

section \<open>Output formatter\<close>

fun dst_convert :: "stype \<Rightarrow> int \<Rightarrow> int" where
  "dst_convert INT16 sample = (sample + 2 ^ 15) mod 2 ^ 16 - 2 ^ 15"
| "dst_convert UINT8 sample = (sample div 2 ^ 8 + 0x80) mod 2 ^ 8"

fun silence_value :: "stype \<Rightarrow> int" where
  "silence_value INT16 = 0"
| "silence_value UINT8 = 0x80"

record output_formatter =
  of_dtype :: stype
  of_channels :: u32
  of_bytes_per_sample :: u32
  of_bytes_per_frame :: u32

definition mk_output_formatter :: "stype \<Rightarrow> u32 \<Rightarrow> output_formatter" where
  "mk_output_formatter dty dch =
    \<lparr>of_dtype = dty, of_channels = dch, of_bytes_per_sample = sizeof_stype dty,
     of_bytes_per_frame = sizeof_stype dty * dch\<rparr>"

definition output_convert :: "stype \<Rightarrow> int \<Rightarrow> int" where
  "output_convert dty val =
    (if val > 32767 then dst_convert dty 32767
     else if val < -32768 then dst_convert dty (-32768)
     else dst_convert dty val)"

fun produce_loop :: "stype \<Rightarrow> int list \<Rightarrow> nat list \<Rightarrow> int list \<Rightarrow> int list option" where
  "produce_loop dty source [] dest = Some dest"
| "produce_loop dty source (i # is) dest = do {
     val \<leftarrow> nth_opt source i;
     dcheck (i < length dest);
     produce_loop dty source is (dest[i := output_convert dty val])
   }"

definition produce_output :: "output_formatter \<Rightarrow> int list \<Rightarrow> int list \<Rightarrow> u32 \<Rightarrow> int list option" where
  "produce_output fmt source dest frames =
    produce_loop (of_dtype fmt) source [0..<unat frames * unat (of_channels fmt)] dest"

text \<open>\<open>memset\<close> over \<open>frames * DChCount\<close> samples, a product of 32-bit integers.\<close>

definition fill_with_silence :: "output_formatter \<Rightarrow> int list \<Rightarrow> u32 \<Rightarrow> int list option" where
  "fill_with_silence fmt dest frames =
    (let samples = unat (frames * of_channels fmt)
     in if samples \<le> length dest
        then Some (replicate samples (silence_value (of_dtype fmt)) @ drop samples dest)
        else None)"

definition select_of :: "stype \<Rightarrow> audio_details \<Rightarrow> output_formatter option" where
  "select_of dty format =
    (if channels format = 1 then Some (mk_output_formatter dty 1)
     else if channels format = 2 then Some (mk_output_formatter dty 2)
     else None)"

text \<open>The value \<^term>\<open>None\<close> of the selectors is the null pointer they return.\<close>

definition output_formatter_select :: "audio_details \<Rightarrow> output_formatter option" where
  "output_formatter_select format =
    (case sample_format format of
       SF_UNSIGNED_8 \<Rightarrow> select_of UINT8 format
     | SF_SIGNED_16 \<Rightarrow> select_of INT16 format
     | _ \<Rightarrow> None)"

section \<open>Facts about single samples\<close>

lemma unity_uint: "uint kUnityScale = 2 ^ 28"
  by (simp add: kUnityScale_def kFractionalScaleBits_def)

lemma mute_uint: "uint (MuteThreshold 15) = 8191"
  by (simp add: MuteThreshold_def kFractionalScaleBits_def)

lemma normalize_in_i16: "in_stype sty x \<Longrightarrow> in_i16 (sample_normalize sty x)"
  by (cases sty) (simp_all add: in_i16_def)

lemma scaled_product_bounds:
  assumes "in_i16 s"
  shows "- 524288 \<le> (s * uint (scale :: u32)) div 2 ^ 28" "(s * uint scale) div 2 ^ 28 \<le> 524272"
proof -
  have u0: "0 \<le> uint scale" and u: "uint scale \<le> 2 ^ 32 - 1"
    using uint_range_size[of scale] by (auto simp: word_size)
  have s: "- 32768 \<le> s" "s \<le> 32767" using assms by (auto simp: in_i16_def)
  have "- 32768 * uint scale \<le> s * uint scale" "s * uint scale \<le> 32767 * uint scale"
    by (rule mult_right_mono [OF s(1) u0], rule mult_right_mono [OF s(2) u0])
  then have "- 32768 * (2 ^ 32 - 1) \<le> s * uint scale" "s * uint scale \<le> 32767 * (2 ^ 32 - 1)"
    using u by auto
  then show "- 524288 \<le> (s * uint scale) div 2 ^ 28" "(s * uint scale) div 2 ^ 28 \<le> 524272" by auto
qed

lemma scaled_product_wrap:
  "in_i16 s \<Longrightarrow> wrap_i32 ((s * uint (scale :: u32)) div 2 ^ 28) = (s * uint scale) div 2 ^ 28"
  using scaled_product_bounds[of s scale] by (intro wrap_i32_id) (simp add: in_i32_def)

lemma attenuated_in_i16:
  assumes "in_i16 s" "uint (scale :: u32) \<le> 2 ^ 28"
  shows "in_i16 ((s * uint scale) div 2 ^ 28)"
proof -
  have u0: "0 \<le> uint scale" by simp
  have s: "- 32768 \<le> s" "s \<le> 32767" using assms by (auto simp: in_i16_def)
  have "- 32768 * uint scale \<le> s * uint scale" "s * uint scale \<le> 32767 * uint scale"
    by (rule mult_right_mono [OF s(1) u0], rule mult_right_mono [OF s(2) u0])
  then have "- 32768 * 2 ^ 28 \<le> s * uint scale" "s * uint scale \<le> 32767 * 2 ^ 28"
    using assms(2) by auto
  then show ?thesis by (auto simp: in_i16_def)
qed

lemma sample_scale_in_i16:
  assumes "in_i16 s" "ty = LT_UNITY \<Longrightarrow> uint scale \<le> 2 ^ 28"
  shows "in_i16 (sample_scale ty s scale)"
proof (cases ty)
  case LT_UNITY
  then show ?thesis
    using assms attenuated_in_i16[of s scale] scaled_product_wrap[of s scale]
    by (simp add: kFractionalScaleBits_def)
next
  case GT_UNITY
  then show ?thesis by (simp add: in_i16_def Let_def)
qed (use assms in \<open>simp_all add: in_i16_def\<close>)

text \<open>An accumulator with room for one more 16-bit sample.\<close>

definition dst_room :: "bool \<Rightarrow> int \<Rightarrow> bool" where
  "dst_room accumulate d \<longleftrightarrow> (accumulate \<longrightarrow> i32_min + 32768 \<le> d \<and> d \<le> i32_max - 32767)"

definition mixed :: "scaler_type \<Rightarrow> bool \<Rightarrow> u32 \<Rightarrow> int \<Rightarrow> int \<Rightarrow> int" where
  "mixed ty accumulate scale d s = sample_scale ty s scale + (if accumulate then d else 0)"

lemma dst_mix_Some:
  assumes "in_i16 s" "ty = LT_UNITY \<Longrightarrow> uint scale \<le> 2 ^ 28" "dst_room accumulate d"
  shows "dst_mix ty accumulate d s scale = Some (mixed ty accumulate scale d s)"
proof -
  have "in_i16 (sample_scale ty s scale)" using assms by (intro sample_scale_in_i16)
  then show ?thesis using assms(3)
    by (auto simp: dst_mix_def Let_def mixed_def dst_room_def in_i16_def in_i32_def)
qed

section \<open>Facts about the output formatter\<close>

definition clip16 :: "int \<Rightarrow> int" where
  "clip16 v = max (-32768) (min 32767 v)"

lemma output_convert_clip: "output_convert dty v = dst_convert dty (clip16 v)"
  by (simp add: output_convert_def clip16_def)

lemma clip16_id: "in_i16 v \<Longrightarrow> clip16 v = v"
  by (simp add: clip16_def in_i16_def)

lemma clip16_in_i16: "in_i16 (clip16 v)"
  by (simp add: clip16_def in_i16_def)

lemma dst_convert_INT16: "in_i16 v \<Longrightarrow> dst_convert INT16 v = v"
  by (simp add: in_i16_def)

lemma dst_convert_UINT8: "in_i16 v \<Longrightarrow> dst_convert UINT8 v = v div 256 + 128"
  by (simp add: in_i16_def) (rule mod_pos_pos_trivial; linarith)

lemma convert_normalized: "in_stype sty x \<Longrightarrow> output_convert sty (sample_normalize sty x) = x"
proof (cases sty)
  case UINT8
  assume "in_stype sty x"
  then show ?thesis using UINT8 by (simp add: output_convert_clip clip16_def)
next
  case INT16
  assume "in_stype sty x"
  then show ?thesis using INT16 by (simp add: output_convert_clip clip16_id dst_convert_INT16 del: dst_convert.simps)
qed

lemma produce_loop_map:
  assumes "n \<le> length source" "n \<le> length dest" "k \<le> n"
    "\<And>i. i < k \<Longrightarrow> dest ! i = output_convert dty (source ! i)"
  shows "produce_loop dty source [k..<n] dest
           = Some (map (output_convert dty) (take n source) @ drop n dest)"
  using assms
proof (induction "n - k" arbitrary: k dest)
  case 0
  then have "take n dest = map (output_convert dty) (take n source)"
    by (intro nth_equalityI) auto
  then show ?case using 0 by (metis append_take_drop_id eq_imp_le
        produce_loop.simps(1) upt_conv_Nil zero_less_diff nat_less_le)
next
  case (Suc m)
  then have k: "k < n" by simp
  let ?d = "dest[k := output_convert dty (source ! k)]"
  have "produce_loop dty source [Suc k..<n] ?d
          = Some (map (output_convert dty) (take n source) @ drop n ?d)"
    by (rule Suc.hyps(1)) (use Suc k in \<open>auto simp: nth_list_update less_Suc_eq\<close>)
  moreover have "drop n ?d = drop n dest" using k by simp
  ultimately show ?case
    using k Suc.prems by (simp add: upt_conv_Cons nth_opt_def)
qed

end
