(* ===== verification/Audio_Mixer.thy ===== *)
theory Audio_Mixer
  imports Audio_Samples Timeline_Rate
begin

text \<open>
  The mixers of \<open>audio_server/platform/generic\<close>: the point sampler, the linear
  sampler and the no-op, and the choice between them (\<open>Mixer::Select\<close>). A mixer copies
  frames from a source buffer, sampled at a fractional position that advances by a fixed
  step, into a buffer of 32-bit accumulators.

  Positions in the source are fixed-point integers with \<open>PTS_FRACTIONAL_BITS\<close> bits of
  fraction. \<open>soff\<close> is an \<open>int32_t\<close>; adding the unsigned step to it wraps
  (\<^term>\<open>wrap_i32\<close>).
\<close>

section \<open>Definitions\<close>

definition PTS_FRACTIONAL_BITS :: nat where "PTS_FRACTIONAL_BITS = 12"

definition FRAC_ONE :: nat where "FRAC_ONE = 2 ^ PTS_FRACTIONAL_BITS"

text \<open>The template parameters of a sampler, and the arguments of one call of \<open>Mix\<close> that
  do not change during the call.\<close>

record sampler =
  sp_dch :: nat
  sp_stype :: stype
  sp_sch :: nat

record mix_args =
  ma_dst_frames :: nat
  ma_src :: "int list"
  ma_frac_src_frames :: nat
  ma_frac_step_size :: nat
  ma_amplitude_scale :: u32

text \<open>The loop over the channels of one frame.\<close>

fun mix_channels ::
    "(nat \<Rightarrow> int option) \<Rightarrow> scaler_type \<Rightarrow> bool \<Rightarrow> u32 \<Rightarrow> nat \<Rightarrow> nat list \<Rightarrow> int list \<Rightarrow> int list option" where
  "mix_channels sample ty accumulate scale base [] dst = Some dst"
| "mix_channels sample ty accumulate scale base (D # Ds) dst = do {
     s \<leftarrow> sample D;
     out \<leftarrow> nth_opt dst (base + D);
     m \<leftarrow> dst_mix ty accumulate out s scale;
     mix_channels sample ty accumulate scale base Ds (dst[base + D := m])
   }"

text \<open>One turn of a mixing loop (one frame, then both offsets), and the loop
  \<open>while ((doff < dst_frames) && (soff < limit))\<close> that the samplers share; \<open>sample soff D\<close>
  is the sample they compute at the position \<open>soff\<close> for the channel \<open>D\<close>.\<close>

definition mix_turn ::
    "sampler \<Rightarrow> mix_args \<Rightarrow> scaler_type \<Rightarrow> bool \<Rightarrow> (int \<Rightarrow> nat \<Rightarrow> int option)
     \<Rightarrow> int list \<Rightarrow> nat \<Rightarrow> int \<Rightarrow> (int list \<times> nat \<times> int) option" where
  "mix_turn sp a ty accumulate sample dst doff soff = do {
     dst' \<leftarrow> mix_channels (sample soff) ty accumulate (ma_amplitude_scale a)
               (doff * sp_dch sp) [0..<sp_dch sp] dst;
     Some (dst', doff + 1, wrap_i32 (soff + int (ma_frac_step_size a)))
   }"

function mix_loop ::
    "sampler \<Rightarrow> mix_args \<Rightarrow> scaler_type \<Rightarrow> bool \<Rightarrow> (int \<Rightarrow> nat \<Rightarrow> int option) \<Rightarrow> int
     \<Rightarrow> int list \<Rightarrow> nat \<Rightarrow> int \<Rightarrow> (int list \<times> nat \<times> int) option" where
  "mix_loop sp a ty accumulate sample limit dst doff soff =
    (if doff < ma_dst_frames a \<and> soff < limit
     then (case mix_turn sp a ty accumulate sample dst doff soff of
             None \<Rightarrow> None
           | Some (dst', doff', soff') \<Rightarrow> mix_loop sp a ty accumulate sample limit dst' doff' soff')
     else Some (dst, doff, soff))"
  by auto
termination
  by (relation "measure (\<lambda>(sp, a, ty, acc, sample, limit, dst, doff, soff). ma_dst_frames a - doff)")
    (auto simp: mix_turn_def bind_Some_iff)

subsection \<open>Point sampler\<close>

definition point_sample :: "sampler \<Rightarrow> mix_args \<Rightarrow> int \<Rightarrow> nat \<Rightarrow> int option" where
  "point_sample sp a soff D =
    (let src_iter = to_u32 (soff div 2 ^ PTS_FRACTIONAL_BITS * int (sp_sch sp))
     in src_read (sp_stype sp) (sp_sch sp) (sp_dch sp) (ma_src a)
          (src_iter + D div dst_per_src (sp_sch sp) (sp_dch sp)))"

definition point_loop ::
    "sampler \<Rightarrow> mix_args \<Rightarrow> scaler_type \<Rightarrow> bool \<Rightarrow> int list \<Rightarrow> nat \<Rightarrow> int \<Rightarrow> (int list \<times> nat \<times> int) option" where
  "point_loop sp a ty accumulate =
    mix_loop sp a ty accumulate (point_sample sp a) (int (ma_frac_src_frames a))"

text \<open>\<open>Mix<ScaleType, DoAccumulate>\<close>: the new destination, the two offsets, and whether the
  source buffer is used up.\<close>

definition point_mix_impl ::
    "sampler \<Rightarrow> scaler_type \<Rightarrow> bool \<Rightarrow> mix_args \<Rightarrow> int list \<Rightarrow> nat \<Rightarrow> int
     \<Rightarrow> (int list \<times> nat \<times> int \<times> bool) option" where
  "point_mix_impl sp ty accumulate a dst doff soff = do {
     dcheck (int (ma_frac_src_frames a) \<le> i32_max);
     dcheck (soff < int (ma_frac_src_frames a));
     dcheck (0 \<le> soff);
     (dst', doff', soff') \<leftarrow>
       (if ty \<noteq> MUTED then point_loop sp a ty accumulate dst doff soff
        else if doff < ma_dst_frames a then do {
          dcheck (ma_frac_step_size a \<noteq> 0);
          let src_avail = to_u32 (int (ma_frac_src_frames a) - soff + int (ma_frac_step_size a) - 1)
                            div ma_frac_step_size a;
          let dst_avail = ma_dst_frames a - doff;
          let avail = min src_avail dst_avail;
          Some (dst, doff + avail, wrap_i32 (soff + int (avail * ma_frac_step_size a)))
        } else Some (dst, doff, soff));
     Some (dst', doff', soff', int (ma_frac_src_frames a) \<le> soff')
   }"

text \<open>The virtual \<open>Mix\<close> picks the instance from the amplitude.\<close>

definition scaler_for :: "u32 \<Rightarrow> scaler_type" where
  "scaler_for scale =
    (if scale = kUnityScale then EQ_UNITY
     else if scale < MuteThreshold 15 then MUTED
     else if scale < kUnityScale then LT_UNITY
     else GT_UNITY)"

definition point_mix ::
    "sampler \<Rightarrow> mix_args \<Rightarrow> bool \<Rightarrow> int list \<Rightarrow> nat \<Rightarrow> int \<Rightarrow> (int list \<times> nat \<times> int \<times> bool) option" where
  "point_mix sp a accumulate dst doff soff =
    (let ty = scaler_for (ma_amplitude_scale a)
     in point_mix_impl sp ty (if ty = MUTED then False else accumulate) a dst doff soff)"

subsection \<open>Linear sampler\<close>

text \<open>\<open>Interpolate\<close>; a product or the sum outside \<open>int32_t\<close> is undefined behaviour.\<close>

definition interpolate :: "int \<Rightarrow> int \<Rightarrow> nat \<Rightarrow> int option" where
  "interpolate A B alpha = do {
     let x = A * int (FRAC_ONE - alpha);
     let y = B * int alpha;
     dcheck (in_i32 x \<and> in_i32 y \<and> in_i32 (x + y));
     Some ((x + y) div 2 ^ PTS_FRACTIONAL_BITS)
   }"

definition frame_read :: "sampler \<Rightarrow> mix_args \<Rightarrow> nat \<Rightarrow> nat \<Rightarrow> int option" where
  "frame_read sp a S D =
    src_read (sp_stype sp) (sp_sch sp) (sp_dch sp) (ma_src a)
      (S + D div dst_per_src (sp_sch sp) (sp_dch sp))"

text \<open>\<open>filter_data_[base + D] = SR::Read(src + S + (D / SR::DstPerSrc))\<close> for each channel.\<close>

fun load_filter :: "sampler \<Rightarrow> mix_args \<Rightarrow> nat \<Rightarrow> nat \<Rightarrow> nat list \<Rightarrow> int list \<Rightarrow> int list option" where
  "load_filter sp a base S [] fd = Some fd"
| "load_filter sp a base S (D # Ds) fd = do {
     v \<leftarrow> frame_read sp a S D;
     load_filter sp a base S Ds (fd[base + D := v])
   }"

definition edge_sample :: "sampler \<Rightarrow> int list \<Rightarrow> int \<Rightarrow> nat \<Rightarrow> int option" where
  "edge_sample sp fd soff D = do {
     A \<leftarrow> nth_opt fd (sp_dch sp + D);
     B \<leftarrow> nth_opt fd D;
     interpolate A B (nat (- soff))
   }"

text \<open>The \<open>do ... while ((doff < dst_frames) && (soff < 0))\<close> loop.\<close>

definition edge_loop ::
    "sampler \<Rightarrow> mix_args \<Rightarrow> scaler_type \<Rightarrow> bool \<Rightarrow> int list \<Rightarrow> int list \<Rightarrow> nat \<Rightarrow> int
     \<Rightarrow> (int list \<times> nat \<times> int) option" where
  "edge_loop sp a ty accumulate fd dst doff soff = do {
     (dst', doff', soff') \<leftarrow> mix_turn sp a ty accumulate (edge_sample sp fd) dst doff soff;
     mix_loop sp a ty accumulate (edge_sample sp fd) 0 dst' doff' soff'
   }"

definition linear_sample :: "sampler \<Rightarrow> mix_args \<Rightarrow> int \<Rightarrow> nat \<Rightarrow> int option" where
  "linear_sample sp a soff D = do {
     let S = to_u32 (soff div 2 ^ PTS_FRACTIONAL_BITS * int (sp_sch sp));
     s1 \<leftarrow> frame_read sp a S D;
     s2 \<leftarrow> frame_read sp a (S + sp_sch sp) D;
     interpolate s1 s2 (nat (soff mod 2 ^ PTS_FRACTIONAL_BITS))
   }"

definition linear_loop ::
    "sampler \<Rightarrow> mix_args \<Rightarrow> scaler_type \<Rightarrow> bool \<Rightarrow> int \<Rightarrow> int list \<Rightarrow> nat \<Rightarrow> int
     \<Rightarrow> (int list \<times> nat \<times> int) option" where
  "linear_loop sp a ty accumulate send =
    mix_loop sp a ty accumulate (linear_sample sp a) send"

text \<open>\<open>Mix<ScaleType, DoAccumulate>\<close> in its three parts: the samples before the final frame,
  the final frame, the filter data kept for the next buffer.\<close>

definition linear_body ::
    "sampler \<Rightarrow> scaler_type \<Rightarrow> bool \<Rightarrow> mix_args \<Rightarrow> int \<Rightarrow> int list \<Rightarrow> int list \<Rightarrow> nat \<Rightarrow> int
     \<Rightarrow> (int list \<times> int list \<times> nat \<times> int) option" where
  "linear_body sp ty accumulate a send fd dst doff soff =
    (if ty \<noteq> MUTED then do {
       (fd1, dst1, doff1, soff1) \<leftarrow>
         (if soff < 0 then do {
            fd1 \<leftarrow> load_filter sp a (sp_dch sp) 0 [0..<sp_dch sp] fd;
            (dst1, doff1, soff1) \<leftarrow> edge_loop sp a ty accumulate fd1 dst doff soff;
            Some (fd1, dst1, doff1, soff1)
          } else Some (fd, dst, doff, soff));
       (dst2, doff2, soff2) \<leftarrow> linear_loop sp a ty accumulate send dst1 doff1 soff1;
       Some (fd1, dst2, doff2, soff2)
     } else if doff < ma_dst_frames a \<and> soff < send then do {
       dcheck (ma_frac_step_size a \<noteq> 0);
       let src_avail = to_u32 (send - soff + int (ma_frac_step_size a) - 1) div ma_frac_step_size a;
       let dst_avail = ma_dst_frames a - doff;
       let avail = min src_avail dst_avail;
       Some (fd, dst, doff + avail, wrap_i32 (soff + int (avail * ma_frac_step_size a)))
     } else Some (fd, dst, doff, soff))"

definition linear_final ::
    "sampler \<Rightarrow> scaler_type \<Rightarrow> bool \<Rightarrow> mix_args \<Rightarrow> int \<Rightarrow> int list \<Rightarrow> nat \<Rightarrow> int
     \<Rightarrow> (int list \<times> nat \<times> int) option" where
  "linear_final sp ty accumulate a send dst doff soff =
    (if doff < ma_dst_frames a \<and> soff = send
     then (if ty \<noteq> MUTED then mix_turn sp a ty accumulate (point_sample sp a) dst doff soff
           else Some (dst, doff + 1, wrap_i32 (soff + int (ma_frac_step_size a))))
     else Some (dst, doff, soff))"

definition linear_mix_impl ::
    "sampler \<Rightarrow> scaler_type \<Rightarrow> bool \<Rightarrow> mix_args \<Rightarrow> int list \<Rightarrow> int list \<Rightarrow> nat \<Rightarrow> int
     \<Rightarrow> (int list \<times> int list \<times> nat \<times> int \<times> bool) option" where
  "linear_mix_impl sp ty accumulate a fd dst doff soff = do {
     let send = wrap_i32 (int (ma_frac_src_frames a) - int FRAC_ONE);
     dcheck (doff < ma_dst_frames a);
     dcheck (FRAC_ONE \<le> ma_frac_src_frames a);
     dcheck (int (ma_frac_src_frames a) \<le> i32_max);
     dcheck (0 \<le> soff \<or> - soff < int FRAC_ONE);
     (fd1, dst1, doff1, soff1) \<leftarrow> linear_body sp ty accumulate a send fd dst doff soff;
     (dst2, doff2, soff2) \<leftarrow> linear_final sp ty accumulate a send dst1 doff1 soff1;
     if send \<le> soff2 then do {
       let S = to_u32 (send div 2 ^ PTS_FRACTIONAL_BITS * int (sp_sch sp));
       fd2 \<leftarrow> load_filter sp a 0 S [0..<sp_dch sp] fd1;
       Some (fd2, dst2, doff2, soff2, doff2 < ma_dst_frames a)
     } else Some (fd1, dst2, doff2, soff2, False)
   }"

definition linear_mix ::
    "sampler \<Rightarrow> mix_args \<Rightarrow> bool \<Rightarrow> int list \<Rightarrow> int list \<Rightarrow> nat \<Rightarrow> int
     \<Rightarrow> (int list \<times> int list \<times> nat \<times> int \<times> bool) option" where
  "linear_mix sp a accumulate fd dst doff soff =
    (let ty = scaler_for (ma_amplitude_scale a)
     in linear_mix_impl sp ty (if ty = MUTED then False else accumulate) a fd dst doff soff)"

definition linear_reset :: "sampler \<Rightarrow> int list" where
  "linear_reset sp = replicate (2 * sp_dch sp) 0"

subsection \<open>The mixer interface\<close>

text \<open>The implementations of the abstract class \<open>Mixer\<close>; a linear sampler carries its
  filter data.\<close>

datatype mixer = NoOp | PointSampler sampler | LinearSampler sampler "int list"

fun pos_filter_width :: "mixer \<Rightarrow> nat" where
  "pos_filter_width NoOp = 0"
| "pos_filter_width (PointSampler sp) = 0"
| "pos_filter_width (LinearSampler sp fd) = FRAC_ONE - 1"

fun neg_filter_width :: "mixer \<Rightarrow> nat" where
  "neg_filter_width NoOp = 0"
| "neg_filter_width (PointSampler sp) = FRAC_ONE - 1"
| "neg_filter_width (LinearSampler sp fd) = FRAC_ONE - 1"

fun mixer_mix ::
    "mixer \<Rightarrow> mix_args \<Rightarrow> bool \<Rightarrow> int list \<Rightarrow> nat \<Rightarrow> int \<Rightarrow> (mixer \<times> int list \<times> nat \<times> int \<times> bool) option" where
  "mixer_mix NoOp a accumulate dst doff soff = Some (NoOp, dst, doff, soff, False)"
| "mixer_mix (PointSampler sp) a accumulate dst doff soff =
    map_option (Pair (PointSampler sp)) (point_mix sp a accumulate dst doff soff)"
| "mixer_mix (LinearSampler sp fd) a accumulate dst doff soff =
    map_option (\<lambda>(fd', r). (LinearSampler sp fd', r)) (linear_mix sp a accumulate fd dst doff soff)"

fun mixer_reset :: "mixer \<Rightarrow> mixer" where
  "mixer_reset NoOp = NoOp"
| "mixer_reset (PointSampler sp) = PointSampler sp"
| "mixer_reset (LinearSampler sp fd) = LinearSampler sp (linear_reset sp)"

text \<open>The nested \<open>SelectPSM\<close> / \<open>SelectLSM\<close> templates.\<close>

definition select_channels :: "u32 \<Rightarrow> nat option" where
  "select_channels n = (if n = 1 then Some 1 else if n = 2 then Some 2 else None)"

definition select_stype :: "sample_format \<Rightarrow> stype option" where
  "select_stype f = (case f of SF_UNSIGNED_8 \<Rightarrow> Some UINT8 | SF_SIGNED_16 \<Rightarrow> Some INT16 | _ \<Rightarrow> None)"

definition select_sampler :: "audio_details \<Rightarrow> audio_details \<Rightarrow> sampler option" where
  "select_sampler src_format dst_format = do {
     dch \<leftarrow> select_channels (channels dst_format);
     sty \<leftarrow> select_stype (sample_format src_format);
     sch \<leftarrow> select_channels (channels src_format);
     Some \<lparr>sp_dch = dch, sp_stype = sty, sp_sch = sch\<rparr>
   }"

definition point_sampler_select :: "audio_details \<Rightarrow> audio_details \<Rightarrow> mixer option" where
  "point_sampler_select src_format dst_format = map_option PointSampler (select_sampler src_format dst_format)"

definition linear_sampler_select :: "audio_details \<Rightarrow> audio_details \<Rightarrow> mixer option" where
  "linear_sampler_select src_format dst_format =
    map_option (\<lambda>sp. LinearSampler sp (linear_reset sp)) (select_sampler src_format dst_format)"

text \<open>The outer option is the failed check in the \<^typ>\<open>timeline_rate\<close> constructor, the inner
  one the null pointer.\<close>

definition mixer_select :: "audio_details \<Rightarrow> audio_details option \<Rightarrow> mixer option option" where
  "mixer_select src_format optional_dst_format =
    (case optional_dst_format of
       None \<Rightarrow> Some (Some NoOp)
     | Some dst_format \<Rightarrow> do {
         src_to_dst \<leftarrow> mk_rate (frames_per_second src_format) (frames_per_second dst_format);
         if subject_delta src_to_dst = 1
           then Some (point_sampler_select src_format dst_format)
           else Some (linear_sampler_select src_format dst_format)
       })"

section \<open>What a mix call writes\<close>

text \<open>The normalised sample a destination channel takes from one source frame: a mono source
  feeds every channel, a stereo source feeds its own channels or is averaged into one.\<close>

definition source_channel :: "sampler \<Rightarrow> int list \<Rightarrow> nat \<Rightarrow> nat \<Rightarrow> int" where
  "source_channel sp src f D =
    (let x = (\<lambda>c. sample_normalize (sp_stype sp) (src ! (f * sp_sch sp + c)))
     in if sp_sch sp = 2 \<and> sp_dch sp = 1 then (x 0 + x 1) div 2
        else if sp_sch sp = 1 then x 0 else x D)"

text \<open>\<open>mix_region dch a b F m dst\<close>: the frames \<open>a \<le> k < b\<close> of the destination mixed with
  the samples \<open>F k D\<close>, everything else unchanged.\<close>

definition mix_region ::
    "nat \<Rightarrow> nat \<Rightarrow> nat \<Rightarrow> (nat \<Rightarrow> nat \<Rightarrow> int) \<Rightarrow> (int \<Rightarrow> int \<Rightarrow> int) \<Rightarrow> int list \<Rightarrow> int list" where
  "mix_region dch a b F m dst =
    map (\<lambda>i. if a \<le> i div dch \<and> i div dch < b then m (dst ! i) (F (i div dch) (i mod dch)) else dst ! i)
      [0..<length dst]"

lemma length_mix_region [simp]: "length (mix_region dch a b F m dst) = length dst"
  by (simp add: mix_region_def)

lemma nth_mix_region:
  "i < length dst \<Longrightarrow> mix_region dch a b F m dst ! i =
    (if a \<le> i div dch \<and> i div dch < b then m (dst ! i) (F (i div dch) (i mod dch)) else dst ! i)"
  by (simp add: mix_region_def)

lemma mix_region_empty [simp]: "mix_region dch a a F m dst = dst"
  by (rule nth_equalityI) (simp_all add: nth_mix_region)

lemma mix_region_append:
  "a \<le> b \<Longrightarrow> b \<le> c \<Longrightarrow>
    mix_region dch b c F m (mix_region dch a b F m dst) = mix_region dch a c F m dst"
  by (rule nth_equalityI) (auto simp: nth_mix_region)

lemma mix_region_cong:
  assumes "\<And>k D. a \<le> k \<Longrightarrow> k < b \<Longrightarrow> D < dch \<Longrightarrow> F k D = G k D" "0 < dch"
  shows "mix_region dch a b F m dst = mix_region dch a b G m dst"
  by (rule nth_equalityI) (auto simp: nth_mix_region assms)

definition sampler_ok :: "sampler \<Rightarrow> bool" where
  "sampler_ok sp \<longleftrightarrow> sp_dch sp \<in> {1, 2} \<and> sp_sch sp \<in> {1, 2}"

text \<open>The source holds the frames the call claims, with samples in the range of their type.\<close>

definition source_ok :: "sampler \<Rightarrow> mix_args \<Rightarrow> bool" where
  "source_ok sp a \<longleftrightarrow>
    list_all (in_stype (sp_stype sp)) (ma_src a) \<and>
    (\<exists>n \<le> length (ma_src a) div sp_sch sp. ma_frac_src_frames a \<le> n * FRAC_ONE)"

lemma FRAC_ONE_eq: "FRAC_ONE = 4096"
  by (simp add: FRAC_ONE_def PTS_FRACTIONAL_BITS_def)

lemma source_ok_iff:
  "source_ok sp a \<longleftrightarrow>
    list_all (in_stype (sp_stype sp)) (ma_src a) \<and>
    ma_frac_src_frames a \<le> (length (ma_src a) div sp_sch sp) * 4096"
  unfolding source_ok_def FRAC_ONE_eq by (auto intro: le_trans)

lemma source_frame_in_range:
  assumes "sampler_ok sp" "source_ok sp a" "f * 4096 < ma_frac_src_frames a" "c < sp_sch sp"
  shows "f * sp_sch sp + c < length (ma_src a)"
proof -
  have "f < length (ma_src a) div sp_sch sp" using assms by (auto simp: source_ok_iff)
  then have "(f + 1) * sp_sch sp \<le> length (ma_src a)"
    using assms(1) by (metis Suc_eq_plus1 Suc_leI div_times_less_eq_dividend le_trans mult_le_mono1)
  then show ?thesis using assms(4) by (simp add: algebra_simps)
qed

lemma frame_read_Some:
  assumes "sampler_ok sp" "source_ok sp a" "f * 4096 < ma_frac_src_frames a" "D < sp_dch sp"
  shows "frame_read sp a (f * sp_sch sp) D = Some (source_channel sp (ma_src a) f D)"
proof -
  note r = source_frame_in_range [OF assms(1-3)]
  consider "sp_sch sp = 1" | "sp_sch sp = 2" "sp_dch sp = 1" | "sp_sch sp = 2" "sp_dch sp = 2"
    using assms(1) by (auto simp: sampler_ok_def)
  then show ?thesis
    using assms(1,4) r[of 0] r[of 1] r[of D]
    by cases (auto simp: frame_read_def src_read_def dst_per_src_def nth_opt_def source_channel_def Let_def
        sampler_ok_def)
qed

lemma source_channel_in_i16:
  assumes "sampler_ok sp" "source_ok sp a" "f * 4096 < ma_frac_src_frames a" "D < sp_dch sp"
  shows "in_i16 (source_channel sp (ma_src a) f D)"
proof -
  note r = source_frame_in_range [OF assms(1-3)]
  have x: "in_i16 (sample_normalize (sp_stype sp) (ma_src a ! (f * sp_sch sp + c)))" if "c < sp_sch sp" for c
    using assms(2) r[OF that] by (intro normalize_in_i16) (simp add: source_ok_iff list_all_length)
  show ?thesis
    using assms(1,4) x[of 0] x[of 1] x[of D]
    by (auto simp: source_channel_def Let_def sampler_ok_def in_i16_def)
qed

lemma to_u32_frame:
  assumes "sampler_ok sp" "0 \<le> soff" "soff \<le> i32_max"
  shows "to_u32 (soff div 2 ^ PTS_FRACTIONAL_BITS * int (sp_sch sp)) = nat (soff div 4096) * sp_sch sp"
proof -
  have "soff div 4096 * int (sp_sch sp) \<le> soff div 4096 * 2"
    using assms by (intro mult_left_mono) (auto simp: sampler_ok_def)
  also have "\<dots> < 2 ^ 32" using assms by auto
  finally show ?thesis using assms
    by (subst to_u32_id) (auto simp: PTS_FRACTIONAL_BITS_def nat_mult_distrib)
qed

section \<open>One frame\<close>

lemma mix_channels_from:
  assumes "\<And>D. k \<le> D \<Longrightarrow> D < dch \<Longrightarrow> sample D = Some (s D)"
    and "\<And>D. k \<le> D \<Longrightarrow> D < dch \<Longrightarrow> in_i16 (s D)"
    and "\<And>D. k \<le> D \<Longrightarrow> D < dch \<Longrightarrow> dst_room acc (dst ! (base + D))"
    and "ty = LT_UNITY \<Longrightarrow> uint scale \<le> 2 ^ 28"
    and "base + dch \<le> length dst" "k \<le> dch"
  shows "mix_channels sample ty acc scale base [k..<dch] dst =
    Some (map (\<lambda>i. if base + k \<le> i \<and> i < base + dch then mixed ty acc scale (dst ! i) (s (i - base)) else dst ! i)
            [0..<length dst])"
  using assms
proof (induction "dch - k" arbitrary: k dst)
  case 0
  then have "k = dch" by simp
  then show ?case by (auto intro!: nth_equalityI)
next
  case (Suc n)
  then have k: "k < dch" by simp
  let ?m = "mixed ty acc scale (dst ! (base + k)) (s k)"
  have m: "dst_mix ty acc (dst ! (base + k)) (s k) scale = Some ?m"
    using Suc.prems k by (intro dst_mix_Some) auto
  have "mix_channels sample ty acc scale base [Suc k..<dch] (dst[base + k := ?m]) =
    Some (map (\<lambda>i. if base + Suc k \<le> i \<and> i < base + dch
                   then mixed ty acc scale (dst[base + k := ?m] ! i) (s (i - base))
                   else dst[base + k := ?m] ! i)
            [0..<length (dst[base + k := ?m])])"
    by (rule Suc.hyps(1)) (use Suc k in \<open>auto\<close>)
  also have "\<dots> = Some (map (\<lambda>i. if base + k \<le> i \<and> i < base + dch
                   then mixed ty acc scale (dst ! i) (s (i - base)) else dst ! i) [0..<length dst])"
    using k Suc.prems(5) by (auto intro!: nth_equalityI simp: nth_list_update)
  finally show ?case
    using k Suc.prems(1)[of k] Suc.prems(5) m by (simp add: upt_conv_Cons nth_opt_def)
qed

lemma mix_frame:
  assumes "\<And>D. D < dch \<Longrightarrow> sample D = Some (F k D)"
    and "\<And>D. D < dch \<Longrightarrow> in_i16 (F k D)"
    and "\<And>D. D < dch \<Longrightarrow> dst_room acc (dst ! (k * dch + D))"
    and "ty = LT_UNITY \<Longrightarrow> uint scale \<le> 2 ^ 28"
    and "(k + 1) * dch \<le> length dst" "0 < dch"
  shows "mix_channels sample ty acc scale (k * dch) [0..<dch] dst =
    Some (mix_region dch k (k + 1) F (mixed ty acc scale) dst)"
proof -
  have eq: "k * dch \<le> i \<and> i < k * dch + dch \<longleftrightarrow> i div dch = k" for i
    using assms(6) by (metis add.commute div_nat_eqI dividend_less_times_div
        mult.commute mult_Suc times_div_less_eq_dividend)
  have "mix_channels sample ty acc scale (k * dch) [0..<dch] dst =
    Some (map (\<lambda>i. if k * dch + 0 \<le> i \<and> i < k * dch + dch
                   then mixed ty acc scale (dst ! i) (F k (i - k * dch)) else dst ! i) [0..<length dst])"
    by (rule mix_channels_from) (use assms in auto)
  also have "\<dots> = Some (mix_region dch k (k + 1) F (mixed ty acc scale) dst)"
  proof (intro arg_cong[where f = Some] nth_equalityI)
    fix i assume "i < length (map (\<lambda>i. if k * dch + 0 \<le> i \<and> i < k * dch + dch
                   then mixed ty acc scale (dst ! i) (F k (i - k * dch)) else dst ! i) [0..<length dst])"
    then have i: "i < length dst" by simp
    have "i - k * dch = i mod dch" if "i div dch = k"
      unfolding that [symmetric] by (rule minus_div_mult_eq_mod)
    then show "map (\<lambda>i. if k * dch + 0 \<le> i \<and> i < k * dch + dch
                   then mixed ty acc scale (dst ! i) (F k (i - k * dch)) else dst ! i) [0..<length dst] ! i
          = mix_region dch k (k + 1) F (mixed ty acc scale) dst ! i"
      using i eq[of i] by (auto simp: nth_mix_region)
  qed simp
  finally show ?thesis .
qed

section \<open>The mixing loop\<close>

text \<open>How many frames a loop produces before the position reaches the limit.\<close>

definition frames_until :: "int \<Rightarrow> int \<Rightarrow> nat \<Rightarrow> nat" where
  "frames_until limit soff step = nat ((limit - soff + int step - 1) div int step)"

lemma frames_until_0: "limit \<le> soff \<Longrightarrow> 0 < step \<Longrightarrow> frames_until limit soff step = 0"
proof -
  assume "limit \<le> soff" "0 < step"
  then have "(limit - soff + int step - 1) div int step \<le> (int step - 1) div int step"
    by (intro zdiv_mono1) auto
  also have "\<dots> = 0" using \<open>0 < step\<close> by (intro div_pos_pos_trivial) auto
  finally show ?thesis by (simp add: frames_until_def)
qed

lemma frames_until_Suc:
  assumes "soff < limit" "0 < step"
  shows "frames_until limit soff step = Suc (frames_until limit (soff + int step) step)"
proof -
  have "(limit - soff + int step - 1) div int step = (limit - soff - 1 + int step) div int step"
    by (simp add: algebra_simps)
  also have "\<dots> = (limit - soff - 1) div int step + 1"
    using assms by (intro div_add_self2) simp
  finally have "(limit - soff + int step - 1) div int step = (limit - soff - 1) div int step + 1" .
  moreover have "0 \<le> (limit - soff - 1) div int step"
    using assms by (intro pos_imp_zdiv_nonneg_iff [THEN iffD2]) auto
  moreover have "limit - (soff + int step) + int step - 1 = limit - soff - 1" by simp
  ultimately show ?thesis by (simp add: frames_until_def nat_add_distrib)
qed

text \<open>The position at which destination frame \<open>k\<close> is sampled.\<close>

definition sample_pos :: "nat \<Rightarrow> int \<Rightarrow> nat \<Rightarrow> nat \<Rightarrow> int" where
  "sample_pos doff soff step k = soff + (int k - int doff) * int step"

lemma sample_pos_start [simp]: "sample_pos doff soff step doff = soff"
  by (simp add: sample_pos_def)

lemma sample_pos_shift: "sample_pos (doff + n) (soff + int n * int step) step = sample_pos doff soff step"
  by (rule ext) (simp add: sample_pos_def algebra_simps)

lemma sample_pos_Suc: "sample_pos (Suc doff) (soff + int step) step = sample_pos doff soff step"
  using sample_pos_shift[of doff 1] by simp

definition room_from :: "bool \<Rightarrow> nat \<Rightarrow> int list \<Rightarrow> bool" where
  "room_from acc k dst \<longleftrightarrow> (\<forall>i. k \<le> i \<longrightarrow> i < length dst \<longrightarrow> dst_room acc (dst ! i))"

lemma room_from_mix_region:
  assumes "room_from acc (a * dch) dst" "0 < dch" "a \<le> b"
  shows "room_from acc (b * dch) (mix_region dch a b F m dst)"
  unfolding room_from_def
proof (intro allI impI)
  fix i assume i: "b * dch \<le> i" "i < length (mix_region dch a b F m dst)"
  have "a * dch \<le> b * dch" using assms(3) by simp
  then have "a * dch \<le> i" using i(1) by (rule le_trans)
  moreover have "b \<le> i div dch" using i(1) assms(2) by (simp add: less_eq_div_iff_mult_less_eq)
  ultimately show "dst_room acc (mix_region dch a b F m dst ! i)"
    using assms(1) i(2) by (simp add: nth_mix_region room_from_def)
qed

lemma mix_turn_spec:
  assumes "\<And>D. D < sp_dch sp \<Longrightarrow> sample soff D = Some (F doff D) \<and> in_i16 (F doff D)"
    and "room_from acc (doff * sp_dch sp) dst"
    and "ty = LT_UNITY \<Longrightarrow> uint (ma_amplitude_scale a) \<le> 2 ^ 28"
    and "(doff + 1) * sp_dch sp \<le> length dst" "0 < sp_dch sp"
    and "in_i32 (soff + int (ma_frac_step_size a))"
  shows "mix_turn sp a ty acc sample dst doff soff =
    Some (mix_region (sp_dch sp) doff (doff + 1) F (mixed ty acc (ma_amplitude_scale a)) dst,
          doff + 1, soff + int (ma_frac_step_size a))"
proof -
  have "mix_channels (sample soff) ty acc (ma_amplitude_scale a) (doff * sp_dch sp) [0..<sp_dch sp] dst =
    Some (mix_region (sp_dch sp) doff (doff + 1) F (mixed ty acc (ma_amplitude_scale a)) dst)"
    by (rule mix_frame) (use assms in \<open>auto simp: room_from_def\<close>)
  then show ?thesis using assms(6) by (simp add: mix_turn_def wrap_i32_id)
qed

declare mix_loop.simps [simp del]

lemma mix_loop_spec:
  assumes "\<And>x D. low \<le> x \<Longrightarrow> x < limit \<Longrightarrow> D < sp_dch sp \<Longrightarrow> sample x D = Some (s x D) \<and> in_i16 (s x D)"
    and "ty = LT_UNITY \<Longrightarrow> uint (ma_amplitude_scale a) \<le> 2 ^ 28"
    and "0 < sp_dch sp" "0 < ma_frac_step_size a"
    and "i32_min \<le> low" "limit + int (ma_frac_step_size a) \<le> 2 ^ 31"
    and "ma_dst_frames a * sp_dch sp \<le> length dst"
    and "low \<le> soff" "room_from acc (doff * sp_dch sp) dst"
  defines "step \<equiv> ma_frac_step_size a"
  defines "n \<equiv> min (ma_dst_frames a - doff) (frames_until limit soff step)"
  shows "mix_loop sp a ty acc sample limit dst doff soff =
    Some (mix_region (sp_dch sp) doff (doff + n) (\<lambda>k. s (sample_pos doff soff step k))
            (mixed ty acc (ma_amplitude_scale a)) dst,
          doff + n, soff + int n * int step)"
  using assms(7-9) unfolding n_def
proof (induction "ma_dst_frames a - doff" arbitrary: dst doff soff)
  case 0
  then show ?case by (simp add: mix_loop.simps)
next
  case (Suc m)
  show ?case
  proof (cases "soff < limit")
    case False
    then show ?thesis
      using assms(4) by (simp add: mix_loop.simps frames_until_0 step_def)
  next
    case True
    have st: "step = ma_frac_step_size a" by (simp add: step_def)
    have dl: "doff < ma_dst_frames a" using Suc.hyps(2) by simp
    define F where "F = (\<lambda>k. s (sample_pos doff soff step k))"
    define M where "M = mixed ty acc (ma_amplitude_scale a)"
    let ?d = "mix_region (sp_dch sp) doff (doff + 1) F M dst"
    have le: "(doff + 1) * sp_dch sp \<le> ma_dst_frames a * sp_dch sp" using dl by (intro mult_le_mono1) simp
    have turn: "mix_turn sp a ty acc sample dst doff soff = Some (?d, doff + 1, soff + int step)"
      unfolding M_def st
    proof (rule mix_turn_spec)
      show "sample soff D = Some (F doff D) \<and> in_i16 (F doff D)" if "D < sp_dch sp" for D
        using assms(1)[OF Suc.prems(2) True that] by (simp add: F_def)
      show "(doff + 1) * sp_dch sp \<le> length dst" using le Suc.prems(1) by (rule le_trans)
      show "in_i32 (soff + int (ma_frac_step_size a))"
        using True Suc.prems(2) assms(5,6) by (simp add: in_i32_def)
    qed (use Suc.prems assms(2,3) in \<open>auto\<close>)
    let ?n = "min (ma_dst_frames a - (doff + 1)) (frames_until limit (soff + int step) step)"
    have rec: "mix_loop sp a ty acc sample limit ?d (doff + 1) (soff + int step) =
      Some (mix_region (sp_dch sp) (doff + 1) (doff + 1 + ?n)
              (\<lambda>k. s (sample_pos (doff + 1) (soff + int step) step k)) M ?d,
            doff + 1 + ?n, soff + int step + int ?n * int step)"
      unfolding M_def
    proof (rule Suc.hyps(1))
      show "m = ma_dst_frames a - (doff + 1)" using Suc.hyps(2) by simp
      show "low \<le> soff + int step" using Suc.prems(2) by simp
      show "room_from acc ((doff + 1) * sp_dch sp)
          (mix_region (sp_dch sp) doff (doff + 1) F (mixed ty acc (ma_amplitude_scale a)) dst)"
        by (rule room_from_mix_region) (use Suc.prems(3) assms(3) in auto)
    qed (use Suc.prems(1) in simp)
    have n: "min (ma_dst_frames a - doff) (frames_until limit soff step) = Suc ?n"
      using dl frames_until_Suc[OF True, of step] assms(4) by (simp add: st)
    have F2: "(\<lambda>k. s (sample_pos (doff + 1) (soff + int step) step k)) = F"
      using sample_pos_Suc[of doff soff step] by (simp add: F_def)
    have "mix_loop sp a ty acc sample limit dst doff soff
        = mix_loop sp a ty acc sample limit ?d (doff + 1) (soff + int step)"
      using dl True turn by (subst mix_loop.simps) simp
    also have "\<dots> = Some (mix_region (sp_dch sp) doff (doff + Suc ?n) F M dst,
            doff + Suc ?n, soff + int (Suc ?n) * int step)"
      unfolding rec F2 by (simp add: mix_region_append algebra_simps)
    finally show ?thesis unfolding n F_def M_def .
  qed
qed

lemma frames_until_add:
  assumes "0 < step"
  shows "m \<le> frames_until limit soff step \<Longrightarrow>
    frames_until limit soff step = m + frames_until limit (soff + int m * int step) step"
proof (induction m)
  case (Suc m)
  let ?x = "soff + int m * int step"
  have eq: "frames_until limit soff step = m + frames_until limit ?x step" using Suc by simp
  then have "?x < limit" using Suc.prems frames_until_0[of limit ?x step] assms by fastforce
  then show ?case using eq frames_until_Suc[of ?x limit step] assms by (simp add: algebra_simps)
qed simp

lemma frames_until_reached:
  assumes "0 < step"
  shows "limit \<le> soff + int (frames_until limit soff step) * int step"
proof -
  let ?x = "soff + int (frames_until limit soff step) * int step"
  have "frames_until limit ?x step = 0"
    using frames_until_add[OF assms, of "frames_until limit soff step" limit soff] by simp
  then show ?thesis using frames_until_Suc[of ?x limit step] assms by fastforce
qed

lemma frames_until_mono: "l \<le> l' \<Longrightarrow> 0 < step \<Longrightarrow> frames_until l soff step \<le> frames_until l' soff step"
  unfolding frames_until_def by (intro nat_mono zdiv_mono1) auto

lemma frames_until_next:
  assumes "0 < step"
  shows "frames_until (l + 1) soff step =
    (let n = frames_until l soff step in if soff + int n * int step = l then Suc n else n)"
proof -
  define n where "n = frames_until l soff step"
  let ?x = "soff + int n * int step"
  have "n \<le> frames_until (l + 1) soff step"
    unfolding n_def using assms by (intro frames_until_mono) auto
  then have "frames_until (l + 1) soff step = n + frames_until (l + 1) ?x step"
    by (rule frames_until_add [OF assms])
  moreover have "l \<le> ?x" unfolding n_def by (rule frames_until_reached [OF assms])
  ultimately show ?thesis
    using frames_until_0[of "l + 1" ?x step] frames_until_Suc[of ?x "l + 1" step]
      frames_until_0[of "l + 1" "?x + int step" step] assms
    unfolding n_def[symmetric] by (auto simp: Let_def)
qed

lemma frames_until_bound:
  assumes "soff < limit" "0 < step"
  shows "soff + int (frames_until limit soff step) * int step \<le> limit + int step - 1"
proof -
  let ?q = "(limit - soff + int step - 1) div int step"
  have "0 \<le> ?q" using assms by (intro pos_imp_zdiv_nonneg_iff [THEN iffD2]) auto
  moreover have "?q * int step \<le> limit - soff + int step - 1"
    by (metis minus_mod_eq_div_mult diff_le_eq le_add_same_cancel1 assms(2) of_nat_0_less_iff
        pos_mod_sign)
  ultimately show ?thesis by (simp add: frames_until_def)
qed

text \<open>The closed form that the muted branches use for the number of frames.\<close>

lemma muted_avail:
  assumes "soff < limit" "0 < step" "limit - soff + int step \<le> 2 ^ 32"
  shows "to_u32 (limit - soff + int step - 1) div step = frames_until limit soff step"
  using assms by (simp add: to_u32_id frames_until_def nat_div_distrib)

lemma muted_offset:
  assumes "soff < limit" "0 < step" "i32_min \<le> soff" "limit + int step \<le> 2 ^ 31"
    "n \<le> frames_until limit soff step"
  shows "wrap_i32 (soff + int (n * step)) = soff + int n * int step"
proof -
  have "int n * int step \<le> int (frames_until limit soff step) * int step"
    using assms(5) by (intro mult_right_mono) auto
  then have "soff + int n * int step \<le> limit + int step - 1"
    using frames_until_bound[OF assms(1,2)] by linarith
  moreover have "0 \<le> int n * int step" by simp
  then have "i32_min \<le> soff + int n * int step" using assms(3) by linarith
  ultimately show ?thesis using assms(4) by (subst wrap_i32_id) (auto simp: in_i32_def)
qed

section \<open>Which instance runs\<close>

lemma scaler_for_cases:
  "scaler_for scale = EQ_UNITY \<longleftrightarrow> uint scale = 2 ^ 28"
  "scaler_for scale = MUTED \<longleftrightarrow> uint scale < 8191"
  "scaler_for scale = LT_UNITY \<longleftrightarrow> 8191 \<le> uint scale \<and> uint scale < 2 ^ 28"
  "scaler_for scale = GT_UNITY \<longleftrightarrow> 2 ^ 28 < uint scale"
proof -
  have "scale = kUnityScale \<longleftrightarrow> uint scale = 2 ^ 28"
    using unity_uint by (simp add: word_uint_eq_iff)
  then show "scaler_for scale = EQ_UNITY \<longleftrightarrow> uint scale = 2 ^ 28"
    "scaler_for scale = MUTED \<longleftrightarrow> uint scale < 8191"
    "scaler_for scale = LT_UNITY \<longleftrightarrow> 8191 \<le> uint scale \<and> uint scale < 2 ^ 28"
    "scaler_for scale = GT_UNITY \<longleftrightarrow> 2 ^ 28 < uint scale"
    by (auto simp: scaler_for_def word_less_def mute_uint unity_uint)
qed

lemma scaler_for_LT: "scaler_for scale = LT_UNITY \<Longrightarrow> uint scale \<le> 2 ^ 28"
  by (simp add: scaler_for_cases)

section \<open>The point sampler\<close>

lemma point_sample_Some:
  assumes "sampler_ok sp" "source_ok sp a" "0 \<le> x" "x < int (ma_frac_src_frames a)"
    "int (ma_frac_src_frames a) \<le> i32_max" "D < sp_dch sp"
  shows "point_sample sp a x D = Some (source_channel sp (ma_src a) (nat (x div 4096)) D)
    \<and> in_i16 (source_channel sp (ma_src a) (nat (x div 4096)) D)"
proof -
  have f: "nat (x div 4096) * 4096 < ma_frac_src_frames a" using assms(3,4) by auto
  have "point_sample sp a x D = frame_read sp a (nat (x div 4096) * sp_sch sp) D"
    using to_u32_frame[OF assms(1), of x] assms(3-5)
    by (simp add: point_sample_def frame_read_def Let_def)
  then show ?thesis
    using frame_read_Some[OF assms(1,2) f assms(6)] source_channel_in_i16[OF assms(1,2) f assms(6)]
    by simp
qed

definition point_value :: "sampler \<Rightarrow> mix_args \<Rightarrow> int \<Rightarrow> nat \<Rightarrow> int" where
  "point_value sp a x D = source_channel sp (ma_src a) (nat (x div 4096)) D"

text \<open>The mixed destination of a call that samples \<open>value\<close> at the advancing position and
  produces \<open>n\<close> frames.\<close>

definition mixed_dst ::
    "sampler \<Rightarrow> mix_args \<Rightarrow> bool \<Rightarrow> (int \<Rightarrow> nat \<Rightarrow> int) \<Rightarrow> int list \<Rightarrow> nat \<Rightarrow> int \<Rightarrow> nat \<Rightarrow> int list" where
  "mixed_dst sp a accumulate value dst doff soff n =
    (let ty = scaler_for (ma_amplitude_scale a)
     in if ty = MUTED then dst
        else mix_region (sp_dch sp) doff (doff + n)
               (\<lambda>k. value (sample_pos doff soff (ma_frac_step_size a) k))
               (mixed ty accumulate (ma_amplitude_scale a)) dst)"

definition mix_call_ok :: "sampler \<Rightarrow> mix_args \<Rightarrow> bool \<Rightarrow> int list \<Rightarrow> nat \<Rightarrow> bool" where
  "mix_call_ok sp a accumulate dst doff \<longleftrightarrow>
    sampler_ok sp \<and> source_ok sp a \<and> 0 < ma_frac_step_size a \<and>
    ma_frac_src_frames a + ma_frac_step_size a \<le> 2 ^ 31 \<and>
    ma_dst_frames a * sp_dch sp \<le> length dst \<and>
    room_from accumulate (doff * sp_dch sp) dst"

lemma sampler_ok_dch: "sampler_ok sp \<Longrightarrow> 0 < sp_dch sp"
  by (auto simp: sampler_ok_def)

lemma point_mix_result:
  assumes "mix_call_ok sp a accumulate dst doff"
    and "0 \<le> soff" "soff < int (ma_frac_src_frames a)"
  defines "step \<equiv> ma_frac_step_size a"
  defines "n \<equiv> min (ma_dst_frames a - doff) (frames_until (int (ma_frac_src_frames a)) soff step)"
  shows "point_mix sp a accumulate dst doff soff =
    Some (mixed_dst sp a accumulate (point_value sp a) dst doff soff n,
          doff + n, soff + int n * int step, int (ma_frac_src_frames a) \<le> soff + int n * int step)"
proof -
  note ok = assms(1)[unfolded mix_call_ok_def]
  let ?lim = "int (ma_frac_src_frames a)"
  have st: "0 < step" using ok by (simp add: step_def)
  have "ma_frac_src_frames a + step \<le> 2 ^ 31" using ok by (simp add: step_def)
  then have lim: "?lim + int step \<le> 2 ^ 31" by (simp flip: of_nat_add)
  then have lim31: "?lim \<le> i32_max" using st by simp
  show ?thesis
  proof (cases "scaler_for (ma_amplitude_scale a) = MUTED")
    case True
    have av: "to_u32 (?lim - soff + int step - 1) div step = frames_until ?lim soff step"
      using assms(2,3) st lim by (intro muted_avail) auto
    have off: "wrap_i32 (soff + int (n * step)) = soff + int n * int step"
      using assms(2,3) st lim by (intro muted_offset) (auto simp: n_def)
    show ?thesis
      using True assms(2,3) lim31 st av off
      by (auto simp: point_mix_def point_mix_impl_def mixed_dst_def Let_def n_def step_def
          min.commute[of "ma_dst_frames a - doff"])
  next
    case False
    have "point_loop sp a (scaler_for (ma_amplitude_scale a)) accumulate dst doff soff =
      Some (mixed_dst sp a accumulate (point_value sp a) dst doff soff n, doff + n, soff + int n * int step)"
      unfolding point_loop_def mixed_dst_def Let_def n_def step_def if_not_P[OF False]
    proof (rule mix_loop_spec[where low = 0])
      show "point_sample sp a x D = Some (point_value sp a x D) \<and> in_i16 (point_value sp a x D)"
        if "0 \<le> x" "x < ?lim" "D < sp_dch sp" for x D
        using point_sample_Some[of sp a x D] ok that lim31 by (simp add: point_value_def)
    qed (use ok assms(2) lim scaler_for_LT[of "ma_amplitude_scale a"] in
        \<open>auto simp: step_def sampler_ok_dch\<close>)
    then show ?thesis
      using False assms(2,3) lim31 by (simp add: point_mix_def point_mix_impl_def Let_def)
  qed
qed

section \<open>The linear sampler\<close>

definition lerp :: "int \<Rightarrow> int \<Rightarrow> int \<Rightarrow> int" where
  "lerp A B alpha = (A * (4096 - alpha) + B * alpha) div 4096"

lemma lerp_between:
  assumes "0 \<le> alpha" "alpha \<le> 4096"
  shows "min A B \<le> lerp A B alpha" "lerp A B alpha \<le> max A B"
proof -
  let ?v = "A * (4096 - alpha) + B * alpha"
  have "min A B * (4096 - alpha) + min A B * alpha \<le> ?v"
    using assms by (intro add_mono mult_right_mono) auto
  then have "min A B * 4096 \<le> ?v" by (simp add: algebra_simps)
  then have "min A B * 4096 div 4096 \<le> ?v div 4096" by (intro zdiv_mono1) auto
  then show "min A B \<le> lerp A B alpha" by (simp add: lerp_def)
  have "?v \<le> max A B * (4096 - alpha) + max A B * alpha"
    using assms by (intro add_mono mult_right_mono) auto
  then have "?v \<le> max A B * 4096" by (simp add: algebra_simps)
  then have "?v div 4096 \<le> max A B * 4096 div 4096" by (intro zdiv_mono1) auto
  then show "lerp A B alpha \<le> max A B" by (simp add: lerp_def)
qed

lemma lerp_in_i16:
  "in_i16 A \<Longrightarrow> in_i16 B \<Longrightarrow> 0 \<le> alpha \<Longrightarrow> alpha \<le> 4096 \<Longrightarrow> in_i16 (lerp A B alpha)"
  using lerp_between[of alpha A B] by (auto simp: in_i16_def)

lemma i16_times:
  assumes "in_i16 A" "0 \<le> k" "k \<le> 4096"
  shows "- 134217728 \<le> A * k" "A * k \<le> 134217728"
proof -
  have A: "- 32768 \<le> A" "A \<le> 32767" using assms by (auto simp: in_i16_def)
  have "\<bar>A * k\<bar> \<le> 32768 * 4096"
    unfolding abs_mult using A assms by (intro mult_mono) auto
  then show "- 134217728 \<le> A * k" "A * k \<le> 134217728" by auto
qed

lemma interpolate_Some:
  assumes "in_i16 A" "in_i16 B" "alpha \<le> 4096"
  shows "interpolate A B alpha = Some (lerp A B (int alpha))"
proof -
  have a: "int (FRAC_ONE - alpha) = 4096 - int alpha"
    using assms(3) by (simp add: FRAC_ONE_eq)
  show ?thesis
    using i16_times[OF assms(1), of "4096 - int alpha"] i16_times[OF assms(2), of "int alpha"] assms(3)
    by (simp add: interpolate_def Let_def a lerp_def in_i32_def PTS_FRACTIONAL_BITS_def)
qed

text \<open>The value the linear sampler computes at position \<open>x\<close>: before the first frame, between
  the kept last frame of the previous buffer and the first one; up to the last frame, between
  two neighbours; at the last frame, that frame.\<close>

definition linear_value :: "sampler \<Rightarrow> mix_args \<Rightarrow> int list \<Rightarrow> int \<Rightarrow> nat \<Rightarrow> int" where
  "linear_value sp a fd x D =
    (let src = (\<lambda>f. source_channel sp (ma_src a) f D); f = nat (x div 4096)
     in if x < 0 then lerp (src 0) (fd ! D) (- x)
        else if x < int (ma_frac_src_frames a) - 4096 then lerp (src f) (src (f + 1)) (x mod 4096)
        else src f)"

definition filter_ok :: "sampler \<Rightarrow> int list \<Rightarrow> bool" where
  "filter_ok sp fd \<longleftrightarrow> length fd = 2 * sp_dch sp \<and> (\<forall>D < sp_dch sp. in_i16 (fd ! D))"

lemma load_filter_spec:
  assumes "sampler_ok sp" "source_ok sp a" "f * 4096 < ma_frac_src_frames a"
    "length fd = 2 * sp_dch sp" "base = 0 \<or> base = sp_dch sp"
  obtains fd' where "load_filter sp a base (f * sp_sch sp) [0..<sp_dch sp] fd = Some fd'"
    "length fd' = 2 * sp_dch sp"
    "\<And>D. D < sp_dch sp \<Longrightarrow> fd' ! (base + D) = source_channel sp (ma_src a) f D"
    "\<And>i. i < base \<or> base + sp_dch sp \<le> i \<Longrightarrow> fd' ! i = fd ! i"
proof -
  note r = frame_read_Some[OF assms(1-3)]
  consider "sp_dch sp = 1" | "sp_dch sp = 2" using assms(1) by (auto simp: sampler_ok_def)
  then show thesis
  proof cases
    case 1
    then show thesis
      using r[of 0] assms(4,5)
      by (intro that[of "fd[base := source_channel sp (ma_src a) f 0]"]) auto
  next
    case 2
    have u: "[0..<2] = [0, Suc 0]" by (simp add: upt_rec)
    show thesis
      using r[of 0] r[of 1] assms(4,5) 2
      by (intro that[of "fd[base := source_channel sp (ma_src a) f 0,
              base + 1 := source_channel sp (ma_src a) f 1]"])
        (auto simp: u nth_list_update less_2_cases_iff)
  qed
qed

lemma linear_sample_Some:
  assumes "sampler_ok sp" "source_ok sp a" "0 \<le> x" "x < int (ma_frac_src_frames a) - 4096"
    "int (ma_frac_src_frames a) \<le> i32_max" "D < sp_dch sp"
  shows "linear_sample sp a x D = Some (linear_value sp a fd x D) \<and> in_i16 (linear_value sp a fd x D)"
proof -
  let ?f = "nat (x div 4096)"
  have x: "x div 4096 * 4096 \<le> x" by simp
  then have "int ?f * 4096 \<le> x" using assms(3) by simp
  then have f: "(?f + 1) * 4096 < ma_frac_src_frames a" "?f * 4096 < ma_frac_src_frames a"
    using assms(4) unfolding of_nat_less_iff [where 'a = int, symmetric] by simp_all
  note r0 = frame_read_Some[OF assms(1,2) f(2) assms(6)] and r1 = frame_read_Some[OF assms(1,2) f(1) assms(6)]
  note i0 = source_channel_in_i16[OF assms(1,2) f(2) assms(6)]
    and i1 = source_channel_in_i16[OF assms(1,2) f(1) assms(6)]
  have S: "to_u32 (x div 2 ^ PTS_FRACTIONAL_BITS * int (sp_sch sp)) = ?f * sp_sch sp"
    using assms by (intro to_u32_frame) auto
  have m: "nat (x mod 4096) \<le> 4096" "int (nat (x mod 4096)) = x mod 4096" "x mod 4096 \<le> 4096"
    by (auto intro: less_imp_le)
  have P: "(2::int) ^ PTS_FRACTIONAL_BITS = 4096" by (simp add: PTS_FRACTIONAL_BITS_def)
  have "linear_sample sp a x D = Some (lerp (source_channel sp (ma_src a) ?f D)
          (source_channel sp (ma_src a) (?f + 1) D) (x mod 4096))"
    unfolding linear_sample_def Let_def S
    using r0 r1 interpolate_Some[OF i0 i1 m(1)] unfolding P m(2)
    by (simp add: add.commute[of "sp_sch sp"])
  then show ?thesis
    using assms(3,4) lerp_in_i16[OF i0 i1, of "x mod 4096"] m(3) by (simp add: linear_value_def Let_def)
qed

lemma edge_sample_Some:
  assumes "sampler_ok sp" "source_ok sp a" "0 < ma_frac_src_frames a" "filter_ok sp fd" "-4096 \<le> x" "x < 0"
    "D < sp_dch sp" "\<And>D. D < sp_dch sp \<Longrightarrow> fd1 ! (sp_dch sp + D) = source_channel sp (ma_src a) 0 D"
    "length fd1 = 2 * sp_dch sp" "\<And>D. D < sp_dch sp \<Longrightarrow> fd1 ! D = fd ! D"
  shows "edge_sample sp fd1 x D = Some (linear_value sp a fd x D) \<and> in_i16 (linear_value sp a fd x D)"
proof -
  have i0: "in_i16 (source_channel sp (ma_src a) 0 D)"
    using assms(1,2,3,7) by (intro source_channel_in_i16) auto
  have i1: "in_i16 (fd ! D)" using assms(4,7) by (simp add: filter_ok_def)
  have "edge_sample sp fd1 x D = Some (lerp (source_channel sp (ma_src a) 0 D) (fd ! D) (- x))"
    using interpolate_Some[OF i0 i1, of "nat (- x)"] assms(5-10)
    by (simp add: edge_sample_def nth_opt_def)
  then show ?thesis
    using assms(5,6) lerp_in_i16[OF i0 i1, of "- x"] by (simp add: linear_value_def)
qed

text \<open>The two loops of the linear sampler, one up to position 0 and one up to the last
  frame, together make one loop up to the last frame.\<close>

lemma two_loops:
  fixes soff :: int and avail :: nat
  assumes "0 < step" "0 \<le> send"
  defines "n0 \<equiv> min avail (frames_until 0 soff step)"
  shows "n0 + min (avail - n0) (frames_until send (soff + int n0 * int step) step)
           = min avail (frames_until send soff step)"
proof -
  have "n0 \<le> frames_until send soff step"
    using frames_until_mono[OF assms(2,1), of soff] by (simp add: n0_def)
  from frames_until_add[OF assms(1) this] have
    "frames_until send soff step = n0 + frames_until send (soff + int n0 * int step) step" .
  moreover have "n0 \<le> avail" by (simp add: n0_def)
  ultimately show ?thesis by simp
qed

lemma edge_loop_is_mix_loop:
  assumes "doff < ma_dst_frames a" "soff < 0"
  shows "edge_loop sp a ty acc fd dst doff soff = mix_loop sp a ty acc (edge_sample sp fd) 0 dst doff soff"
  using assms by (subst mix_loop.simps) (auto simp: edge_loop_def split: option.split)

lemma linear_body_unmuted:
  assumes "mix_call_ok sp a accumulate dst doff" "filter_ok sp fd" "doff < ma_dst_frames a"
    and "4096 \<le> ma_frac_src_frames a" "-4096 < soff" "scaler_for (ma_amplitude_scale a) \<noteq> MUTED"
  defines "step \<equiv> ma_frac_step_size a" and "send \<equiv> int (ma_frac_src_frames a) - 4096"
  defines "n \<equiv> min (ma_dst_frames a - doff) (frames_until send soff step)"
  obtains fd1 where
    "linear_body sp (scaler_for (ma_amplitude_scale a)) accumulate a send fd dst doff soff =
      Some (fd1, mixed_dst sp a accumulate (linear_value sp a fd) dst doff soff n,
            doff + n, soff + int n * int step)"
    "length fd1 = 2 * sp_dch sp" "\<And>D. D < sp_dch sp \<Longrightarrow> fd1 ! D = fd ! D"
proof -
  note ok = assms(1)[unfolded mix_call_ok_def]
  let ?ty = "scaler_for (ma_amplitude_scale a)"
  let ?M = "mixed ?ty accumulate (ma_amplitude_scale a)"
  let ?F = "\<lambda>k. linear_value sp a fd (sample_pos doff soff step k)"
  have st: "0 < step" using ok by (simp add: step_def)
  have "ma_frac_src_frames a + step \<le> 2 ^ 31" using ok by (simp add: step_def)
  then have lim: "int (ma_frac_src_frames a) + int step \<le> 2 ^ 31" by (simp flip: of_nat_add)
  have send: "0 \<le> send" using assms(4) by (simp add: send_def)
  have LT: "?ty = LT_UNITY \<Longrightarrow> uint (ma_amplitude_scale a) \<le> 2 ^ 28" by (rule scaler_for_LT)
  have second: "linear_loop sp a ?ty accumulate send dst' doff' soff' =
      Some (mix_region (sp_dch sp) doff' (doff' + min (ma_dst_frames a - doff') (frames_until send soff' step))
              (\<lambda>k. linear_value sp a fd (sample_pos doff' soff' step k)) ?M dst',
            doff' + min (ma_dst_frames a - doff') (frames_until send soff' step),
            soff' + int (min (ma_dst_frames a - doff') (frames_until send soff' step)) * int step)"
    if "0 \<le> soff' \<or> ma_dst_frames a \<le> doff'" "length dst' = length dst"
      "room_from accumulate (doff' * sp_dch sp) dst'" for dst' doff' soff'
  proof (cases "0 \<le> soff'")
    case True
    show ?thesis unfolding linear_loop_def step_def
    proof (rule mix_loop_spec[where low = 0])
      show "linear_sample sp a x D = Some (linear_value sp a fd x D) \<and> in_i16 (linear_value sp a fd x D)"
        if "0 \<le> x" "x < send" "D < sp_dch sp" for x D
        using linear_sample_Some[of sp a x D fd] ok that lim st by (simp add: send_def)
    qed (use ok True that LT lim in \<open>auto simp: step_def send_def sampler_ok_dch\<close>)
  next
    case False
    then show ?thesis using that by (simp add: linear_loop_def mix_loop.simps)
  qed
  show thesis
  proof (cases "soff < 0")
    case False
    then show thesis
      using second[of soff doff dst] assms(2,6) ok
      by (intro that[of fd])
        (auto simp: linear_body_def mixed_dst_def Let_def n_def step_def filter_ok_def)
  next
    case True
    obtain fd1 where fd1: "load_filter sp a (sp_dch sp) (0 * sp_sch sp) [0..<sp_dch sp] fd = Some fd1"
      "length fd1 = 2 * sp_dch sp"
      "\<And>D. D < sp_dch sp \<Longrightarrow> fd1 ! (sp_dch sp + D) = source_channel sp (ma_src a) 0 D"
      "\<And>i. i < sp_dch sp \<or> sp_dch sp + sp_dch sp \<le> i \<Longrightarrow> fd1 ! i = fd ! i"
      by (rule load_filter_spec [of sp a 0 fd "sp_dch sp"]) (use ok assms(2,4) in \<open>auto simp: filter_ok_def\<close>)
    define n0 where "n0 = min (ma_dst_frames a - doff) (frames_until 0 soff step)"
    let ?d1 = "mix_region (sp_dch sp) doff (doff + n0) ?F ?M dst"
    have first: "edge_loop sp a ?ty accumulate fd1 dst doff soff =
        Some (?d1, doff + n0, soff + int n0 * int step)"
      unfolding edge_loop_is_mix_loop[OF assms(3) True] n0_def step_def
    proof (rule mix_loop_spec[where low = "-4095"])
      show "edge_sample sp fd1 x D = Some (linear_value sp a fd x D) \<and> in_i16 (linear_value sp a fd x D)"
        if "-4095 \<le> x" "x < 0" "D < sp_dch sp" for x D
        using edge_sample_Some[of sp a fd x D fd1] ok that assms(2,4) fd1 by simp
    qed (use ok LT lim assms(5) in \<open>auto simp: step_def sampler_ok_dch\<close>)
    let ?s1 = "soff + int n0 * int step"
    let ?n1 = "min (ma_dst_frames a - doff - n0) (frames_until send ?s1 step)"
    have reached: "0 \<le> ?s1 \<or> ma_dst_frames a \<le> doff + n0"
      using frames_until_reached[OF st, of 0 soff] by (auto simp: n0_def min_def)
    have room: "room_from accumulate ((doff + n0) * sp_dch sp) ?d1"
      using ok by (intro room_from_mix_region) (auto simp: sampler_ok_dch)
    have nn: "n0 + ?n1 = n"
      unfolding n_def n0_def by (rule two_loops [OF st send])
    have i2: "soff + int n * int step = ?s1 + int ?n1 * int step"
      unfolding nn [symmetric] of_nat_add by (simp add: distrib_right)
    have pos: "sample_pos (doff + n0) ?s1 step = sample_pos doff soff step"
      by (rule sample_pos_shift)
    have "linear_loop sp a ?ty accumulate send ?d1 (doff + n0) ?s1 =
        Some (mix_region (sp_dch sp) (doff + n0) (doff + n0 + ?n1) ?F ?M ?d1, doff + n0 + ?n1,
              ?s1 + int ?n1 * int step)"
      using second[OF reached _ room] unfolding pos diff_diff_left by simp
    also have "\<dots> = Some (mix_region (sp_dch sp) doff (doff + n) ?F ?M dst, doff + n, soff + int n * int step)"
      unfolding i2 add.assoc nn by (subst mix_region_append) (use nn in auto)
    finally have "linear_body sp ?ty accumulate a send fd dst doff soff =
        Some (fd1, mix_region (sp_dch sp) doff (doff + n) ?F ?M dst, doff + n, soff + int n * int step)"
      using True assms(6) fd1(1) first by (simp add: linear_body_def)
    then show thesis
      using assms(6) fd1 by (intro that[of fd1]) (auto simp: mixed_dst_def Let_def step_def)
  qed
qed

lemma linear_body_result:
  assumes "mix_call_ok sp a accumulate dst doff" "filter_ok sp fd" "doff < ma_dst_frames a"
    and "4096 \<le> ma_frac_src_frames a" "-4096 < soff"
  defines "step \<equiv> ma_frac_step_size a" and "send \<equiv> int (ma_frac_src_frames a) - 4096"
  defines "n \<equiv> min (ma_dst_frames a - doff) (frames_until send soff step)"
  obtains fd1 where
    "linear_body sp (scaler_for (ma_amplitude_scale a)) accumulate a send fd dst doff soff =
      Some (fd1, mixed_dst sp a accumulate (linear_value sp a fd) dst doff soff n,
            doff + n, soff + int n * int step)"
    "length fd1 = 2 * sp_dch sp" "\<And>D. D < sp_dch sp \<Longrightarrow> fd1 ! D = fd ! D"
proof (cases "scaler_for (ma_amplitude_scale a) = MUTED")
  case False
  show thesis
    by (rule linear_body_unmuted [OF assms(1-5) False, folded step_def send_def, folded n_def])
      (rule that; assumption)
next
  case True
  note ok = assms(1)[unfolded mix_call_ok_def]
  have st: "0 < step" using ok by (simp add: step_def)
  have "ma_frac_src_frames a + step \<le> 2 ^ 31" using ok by (simp add: step_def)
  then have lim: "int (ma_frac_src_frames a) + int step \<le> 2 ^ 31" by (simp flip: of_nat_add)
  have "linear_body sp MUTED accumulate a send fd dst doff soff = Some (fd, dst, doff + n, soff + int n * int step)"
  proof (cases "soff < send")
    case s: True
    have av: "to_u32 (send - soff + int step - 1) div step = frames_until send soff step"
      using assms(5) s st lim by (intro muted_avail) (auto simp: send_def)
    have off: "wrap_i32 (soff + int (n * step)) = soff + int n * int step"
      using assms(5) s st lim by (intro muted_offset[of _ send]) (auto simp: n_def send_def)
    show ?thesis
      using s st av off assms(3) unfolding n_def step_def
      by (simp add: linear_body_def Let_def min.commute[of "ma_dst_frames a - doff"])
  next
    case False
    then show ?thesis using st by (simp add: linear_body_def n_def frames_until_0)
  qed
  then show thesis
    using True assms(2) by (intro that[of fd]) (auto simp: mixed_dst_def filter_ok_def)
qed

lemma linear_final_result:
  fixes fd :: "int list" and soff :: int
  assumes "mix_call_ok sp a accumulate dst doff" "doff < ma_dst_frames a" "4096 \<le> ma_frac_src_frames a"
  defines "step \<equiv> ma_frac_step_size a" and "send \<equiv> int (ma_frac_src_frames a) - 4096"
    and "V \<equiv> linear_value sp a fd" and "ty \<equiv> scaler_for (ma_amplitude_scale a)"
  defines "n0 \<equiv> min (ma_dst_frames a - doff) (frames_until send soff step)"
    and "n \<equiv> min (ma_dst_frames a - doff) (frames_until (send + 1) soff step)"
  shows "linear_final sp ty accumulate a send (mixed_dst sp a accumulate V dst doff soff n0)
        (doff + n0) (soff + int n0 * int step) =
      Some (mixed_dst sp a accumulate V dst doff soff n, doff + n, soff + int n * int step)"
proof -
  note ok = assms(1)[unfolded mix_call_ok_def]
  have st: "0 < step" using ok by (simp add: step_def)
  have "ma_frac_src_frames a + step \<le> 2 ^ 31" using ok by (simp add: step_def)
  then have lim: "int (ma_frac_src_frames a) + int step \<le> 2 ^ 31" by (simp flip: of_nat_add)
  have send: "0 \<le> send" "send \<le> i32_max" "send < int (ma_frac_src_frames a)"
    using assms(3) lim st by (auto simp: send_def)
  let ?d0 = "mixed_dst sp a accumulate V dst doff soff n0"
  show ?thesis
  proof (cases "doff + n0 < ma_dst_frames a \<and> soff + int n0 * int step = send")
    case False
    have "n = n0"
      using False st by (auto simp: n_def n0_def frames_until_next Let_def min_def split: if_splits)
    then show ?thesis using False by (auto simp: linear_final_def)
  next
    case True
    then have n: "n = Suc n0"
      using st by (auto simp: n_def n0_def frames_until_next Let_def min_def split: if_splits)
    have pos: "soff + int n * int step = send + int step"
      using True by (simp add: n distrib_right)
    have i32: "in_i32 (send + int step)" using send lim st by (simp add: in_i32_def send_def)
    show ?thesis
    proof (cases "ty = MUTED")
      case muted: True
      then show ?thesis
        using True i32 by (simp add: linear_final_def n pos[unfolded n, simplified] wrap_i32_id mixed_dst_def
            flip: ty_def step_def)
    next
      case False
      define F where "F = (\<lambda>k. V (sample_pos doff soff step k))"
      define M where "M = mixed ty accumulate (ma_amplitude_scale a)"
      have d0: "?d0 = mix_region (sp_dch sp) doff (doff + n0) F M dst"
        using False by (simp add: mixed_dst_def F_def M_def flip: ty_def step_def)
      have Fs: "F (doff + n0) D = source_channel sp (ma_src a) (nat (send div 4096)) D" for D
        using True send by (simp add: F_def sample_pos_def V_def linear_value_def Let_def send_def)
      have "mix_turn sp a ty accumulate (point_sample sp a) ?d0 (doff + n0) send =
          Some (mix_region (sp_dch sp) (doff + n0) (doff + n0 + 1) F M ?d0, doff + n0 + 1, send + int step)"
        unfolding M_def step_def
      proof (rule mix_turn_spec)
        show "point_sample sp a send D = Some (F (doff + n0) D) \<and> in_i16 (F (doff + n0) D)"
          if "D < sp_dch sp" for D
          unfolding Fs by (rule point_sample_Some) (use ok that send lim st in auto)
        show "room_from accumulate ((doff + n0) * sp_dch sp) ?d0"
          unfolding d0 using ok by (intro room_from_mix_region) (auto simp: sampler_ok_dch)
        show "(doff + n0 + 1) * sp_dch sp \<le> length ?d0"
        proof -
          have "(doff + n0 + 1) * sp_dch sp \<le> ma_dst_frames a * sp_dch sp"
            using True by (intro mult_le_mono1) simp
          then show ?thesis using ok unfolding d0 length_mix_region by linarith
        qed
        show "in_i32 (send + int (ma_frac_step_size a))" using i32 by (simp add: step_def)
      qed (use ok scaler_for_LT[of "ma_amplitude_scale a"] in \<open>auto simp: ty_def sampler_ok_dch\<close>)
      also have "mix_region (sp_dch sp) (doff + n0) (doff + n0 + 1) F M ?d0
          = mix_region (sp_dch sp) doff (doff + n) F M dst"
        unfolding d0 by (subst mix_region_append) (simp_all add: n)
      also have "mix_region (sp_dch sp) doff (doff + n) F M dst = mixed_dst sp a accumulate V dst doff soff n"
        using False by (simp add: mixed_dst_def F_def M_def flip: ty_def step_def)
      finally show ?thesis using True False pos n by (simp add: linear_final_def)
    qed
  qed
qed

text \<open>The whole call: the frames sampled at a position up to the last frame, the filter data
  kept when the position has passed it.\<close>

lemma linear_mix_result:
  assumes "mix_call_ok sp a accumulate dst doff" "filter_ok sp fd" "doff < ma_dst_frames a"
    and "4096 \<le> ma_frac_src_frames a" "-4096 < soff"
  defines "step \<equiv> ma_frac_step_size a" and "send \<equiv> int (ma_frac_src_frames a) - 4096"
  defines "n \<equiv> min (ma_dst_frames a - doff) (frames_until (send + 1) soff step)"
  obtains fd' where
    "linear_mix sp a accumulate fd dst doff soff =
      Some (fd', mixed_dst sp a accumulate (linear_value sp a fd) dst doff soff n,
            doff + n, soff + int n * int step,
            send \<le> soff + int n * int step \<and> doff + n < ma_dst_frames a)"
    "filter_ok sp fd'"
    "\<And>D. D < sp_dch sp \<Longrightarrow> fd' ! D =
      (if send \<le> soff + int n * int step
       then source_channel sp (ma_src a) (nat (send div 4096)) D else fd ! D)"
proof -
  note ok = assms(1)[unfolded mix_call_ok_def]
  define ty where "ty = scaler_for (ma_amplitude_scale a)"
  define V where "V = linear_value sp a fd"
  have st: "0 < step" using ok by (simp add: step_def)
  have "ma_frac_src_frames a + step \<le> 2 ^ 31" using ok by (simp add: step_def)
  then have lim: "int (ma_frac_src_frames a) + int step \<le> 2 ^ 31" by (simp flip: of_nat_add)
  have send: "0 \<le> send" "send \<le> i32_max" "send < int (ma_frac_src_frames a)"
    using assms(4) lim st by (auto simp: send_def)
  define n0 where "n0 = min (ma_dst_frames a - doff) (frames_until send soff step)"
  obtain fd1 where body: "linear_body sp ty accumulate a send fd dst doff soff =
      Some (fd1, mixed_dst sp a accumulate V dst doff soff n0, doff + n0, soff + int n0 * int step)"
    "length fd1 = 2 * sp_dch sp" "\<And>D. D < sp_dch sp \<Longrightarrow> fd1 ! D = fd ! D"
    unfolding ty_def V_def n0_def step_def send_def
    by (rule linear_body_result [OF assms(1-5)]) blast
  have last: "linear_final sp ty accumulate a send (mixed_dst sp a accumulate V dst doff soff n0)
        (doff + n0) (soff + int n0 * int step) =
      Some (mixed_dst sp a accumulate V dst doff soff n, doff + n, soff + int n * int step)"
    unfolding n0_def n_def V_def ty_def step_def send_def
    by (rule linear_final_result [OF assms(1,3,4)])
  define fd2 where "fd2 = (if send \<le> soff + int n * int step
       then load_filter sp a 0 (nat (send div 4096) * sp_sch sp) [0..<sp_dch sp] fd1 else Some fd1)"
  have inr: "nat (send div 4096) * 4096 < ma_frac_src_frames a"
    using send unfolding of_nat_less_iff [where 'a = int, symmetric] by auto
  obtain fd' where fd': "fd2 = Some fd'" "length fd' = 2 * sp_dch sp"
    "\<And>D. D < sp_dch sp \<Longrightarrow> fd' ! D = (if send \<le> soff + int n * int step
        then source_channel sp (ma_src a) (nat (send div 4096)) D else fd ! D)"
  proof (cases "send \<le> soff + int n * int step")
    case True
    show thesis
      by (rule load_filter_spec [of sp a "nat (send div 4096)" fd1 0])
        (use ok inr body(2) that True in \<open>auto simp: fd2_def\<close>)
  next
    case False
    then show thesis using body that[of fd1] by (simp add: fd2_def)
  qed
  have S: "to_u32 (send div 2 ^ PTS_FRACTIONAL_BITS * int (sp_sch sp)) = nat (send div 4096) * sp_sch sp"
    using ok send by (intro to_u32_frame) auto
  have w: "wrap_i32 (int (ma_frac_src_frames a) - 4096) = send"
    using send by (subst wrap_i32_id) (auto simp: send_def in_i32_def)
  have acc: "linear_body sp MUTED x = linear_body sp MUTED y"
    "linear_final sp MUTED x = linear_final sp MUTED y" for x y
    by (intro ext; simp add: linear_body_def linear_final_def)+
  have "linear_mix_impl sp ty accumulate a fd dst doff soff = map_option (\<lambda>fd'.
      (fd', mixed_dst sp a accumulate V dst doff soff n, doff + n, soff + int n * int step,
       send \<le> soff + int n * int step \<and> doff + n < ma_dst_frames a)) fd2"
    using assms(3-5) lim st body(1) last
    by (simp add: linear_mix_impl_def Let_def w S fd2_def FRAC_ONE_eq dcheck_bind_if map_conv_bind_option comp_def
        flip: bind_assoc)
  moreover have "linear_mix_impl sp ty (if ty = MUTED then False else accumulate) a fd dst doff soff
      = linear_mix_impl sp ty accumulate a fd dst doff soff"
    using acc[of False accumulate] by (simp add: linear_mix_impl_def)
  moreover have "filter_ok sp fd'"
    using fd'(2,3) assms(2) ok inr source_channel_in_i16[of sp a "nat (send div 4096)"]
    by (auto simp: filter_ok_def)
  ultimately show thesis
    using fd' by (intro that[of fd']) (auto simp: linear_mix_def Let_def ty_def V_def)
qed

lemma linear_mix_call:
  assumes "mix_call_ok sp a accumulate dst doff" "filter_ok sp fd" "doff < ma_dst_frames a"
    and "4096 \<le> ma_frac_src_frames a" "-4096 < soff"
    and "send = int (ma_frac_src_frames a) - 4096"
    and "n = min (ma_dst_frames a - doff) (frames_until (send + 1) soff (ma_frac_step_size a))"
    and "soff' = soff + int n * int (ma_frac_step_size a)"
  shows "\<exists>fd'. linear_mix sp a accumulate fd dst doff soff =
      Some (fd', mixed_dst sp a accumulate (linear_value sp a fd) dst doff soff n,
            doff + n, soff', send \<le> soff' \<and> doff + n < ma_dst_frames a)
    \<and> filter_ok sp fd'
    \<and> take (sp_dch sp) fd' =
        (if send \<le> soff' then map (source_channel sp (ma_src a) (nat (send div 4096))) [0..<sp_dch sp]
         else take (sp_dch sp) fd)"
proof -
  obtain fd' where fd': "linear_mix sp a accumulate fd dst doff soff =
      Some (fd', mixed_dst sp a accumulate (linear_value sp a fd) dst doff soff n,
            doff + n, soff', send \<le> soff' \<and> doff + n < ma_dst_frames a)"
    "filter_ok sp fd'"
    "\<And>D. D < sp_dch sp \<Longrightarrow> fd' ! D =
      (if send \<le> soff' then source_channel sp (ma_src a) (nat (send div 4096)) D else fd ! D)"
    unfolding assms(6-8) by (rule linear_mix_result [OF assms(1-5)]) blast
  moreover have "take (sp_dch sp) fd' =
        (if send \<le> soff' then map (source_channel sp (ma_src a) (nat (send div 4096))) [0..<sp_dch sp]
         else take (sp_dch sp) fd)"
    using fd'(2,3) assms(2) by (intro nth_equalityI) (auto simp: filter_ok_def)
  ultimately show ?thesis by blast
qed

section \<open>Two consecutive buffers\<close>

lemma frames_until_pos:
  assumes "0 < step" "doff \<le> k" "k < doff + frames_until limit soff step"
  shows "sample_pos doff soff step k < limit"
proof (rule ccontr)
  assume "\<not> ?thesis"
  moreover have "sample_pos doff soff step k = soff + int (k - doff) * int step"
    using assms(2) by (simp add: sample_pos_def)
  ultimately have "frames_until limit (soff + int (k - doff) * int step) step = 0"
    using assms(1) by (intro frames_until_0) auto
  moreover have "k - doff \<le> frames_until limit soff step" using assms(3) by simp
  note frames_until_add[OF assms(1) this]
  ultimately have "frames_until limit soff step = k - doff" by simp
  then show False using assms(2,3) by arith
qed

lemma frames_until_shift: "frames_until (limit - d) (soff - d) step = frames_until limit soff step"
  by (simp add: frames_until_def)

lemma source_channel_append1:
  assumes "sampler_ok sp" "length s1 = n1 * sp_sch sp" "f < n1" "D < sp_dch sp"
  shows "source_channel sp (s1 @ s2) f D = source_channel sp s1 f D"
proof -
  have "f * sp_sch sp + c < length s1" if "c < sp_sch sp" for c
  proof -
    have "(f + 1) * sp_sch sp \<le> length s1" unfolding assms(2) using assms(3) by (intro mult_le_mono1) simp
    then show ?thesis using that by simp
  qed
  from this[of 0] this[of 1] this[of D] show ?thesis
    using assms(1,4) by (auto simp: source_channel_def Let_def sampler_ok_def nth_append)
qed

lemma source_channel_append2:
  assumes "length s1 = n1 * sp_sch sp"
  shows "source_channel sp (s1 @ s2) (n1 + f) D = source_channel sp s2 f D"
proof -
  have "(s1 @ s2) ! ((n1 + f) * sp_sch sp + c) = s2 ! (f * sp_sch sp + c)" for c
    unfolding add_mult_distrib add.assoc assms [symmetric] by (rule nth_append_length_plus)
  then show ?thesis by (simp add: source_channel_def)
qed

lemma lerp_0 [simp]: "lerp A B 0 = A"
  by (simp add: lerp_def)

lemma lerp_swap: "lerp A B (4096 - x) = lerp B A x"
  by (simp add: lerp_def add.commute)

definition with_source :: "mix_args \<Rightarrow> int list \<Rightarrow> nat \<Rightarrow> mix_args" where
  "with_source a src n = a\<lparr>ma_src := src, ma_frac_src_frames := n * FRAC_ONE\<rparr>"

lemma linear_value_first:
  assumes "sampler_ok sp" "length s1 = n1 * sp_sch sp" "0 < n1" "0 < n2" "D < sp_dch sp"
    and "x \<le> int n1 * 4096 - 4096"
  shows "linear_value sp (with_source a (s1 @ s2) (n1 + n2)) fd x D = linear_value sp (with_source a s1 n1) fd x D"
proof -
  note s1 = source_channel_append1[OF assms(1,2) _ assms(5), of _ s2]
  show ?thesis
  proof (cases "0 \<le> x")
    case True
    let ?f = "nat (x div 4096)"
    have f: "?f < n1" "x < int n1 * 4096 - 4096 \<Longrightarrow> Suc ?f < n1" using assms(3,6) True by auto
    show ?thesis
    proof (cases "x < int n1 * 4096 - 4096")
      case False
      then have x: "x = int (n1 - 1) * 4096" using assms(3,6) by simp
      have "x < int n1 * 4096 + int n2 * 4096 - 4096" using assms(4,6) by simp
      then show ?thesis using s1[OF f(1)] True False unfolding x
        by (simp add: linear_value_def with_source_def FRAC_ONE_eq Let_def)
    qed (use s1[OF f(1)] s1[OF f(2)] assms(4) True in
          \<open>simp add: linear_value_def with_source_def FRAC_ONE_eq\<close>)
  qed (use s1[of 0] assms(3) in \<open>simp add: linear_value_def with_source_def\<close>)
qed

lemma linear_value_second:
  assumes "sampler_ok sp" "length s1 = n1 * sp_sch sp" "0 < n1" "0 < n2" "D < sp_dch sp"
    and "int n1 * 4096 - 4096 < x" "fd1 ! D = source_channel sp s1 (n1 - 1) D"
  shows "linear_value sp (with_source a (s1 @ s2) (n1 + n2)) fd x D
           = linear_value sp (with_source a s2 n2) fd1 (x - int n1 * 4096) D"
proof (cases "x < int n1 * 4096")
  case True
  have x: "x div 4096 = int n1 - 1"
    using True assms(6) by (intro int_div_pos_eq[of _ _ _ "x - (int n1 - 1) * 4096"]) auto
  then have m: "x mod 4096 = 4096 - (int n1 * 4096 - x)"
    using mult_div_mod_eq[of 4096 x] by simp
  have "x < int (n1 + n2) * 4096 - 4096" using True assms(4) by simp
  moreover have "0 \<le> x" using assms(3,6) by simp
  moreover have "nat (int n1 - 1) = n1 - 1" "Suc (n1 - 1) = n1" using assms(3) by auto
  ultimately show ?thesis
    using True assms(3,7) source_channel_append1[OF assms(1,2) _ assms(5), of "n1 - 1" s2]
      source_channel_append2[OF assms(2), of s2 0 D] lerp_swap
    by (simp add: linear_value_def with_source_def FRAC_ONE_eq x m del: of_nat_diff)
next
  case False
  have d: "(x - int n1 * 4096) div 4096 = x div 4096 - int n1" "(x - int n1 * 4096) mod 4096 = x mod 4096"
    using div_mult_self1[of 4096 x "- int n1"] mod_mult_self1[of x "- int n1" 4096] by simp_all
  have "n1 + nat (x div 4096 - int n1) = nat (x div 4096)" using False by simp
  then show ?thesis
    using False source_channel_append2[OF assms(2), of s2 "nat (x div 4096 - int n1)" D]
      source_channel_append2[OF assms(2), of s2 "Suc (nat (x div 4096 - int n1))" D]
    by (simp add: linear_value_def with_source_def FRAC_ONE_eq d Let_def)
qed

end
