(* ===== verification/Audio_Mix_Properties.thy ===== *)
theory Audio_Mix_Properties
  imports Audio_Mixer
begin

text \<open>
  The properties of the audio server's mixers and of its output formatter, and the two
  together: what a mix call writes, that its arithmetic cannot overflow, that muting changes
  only the samples, that packet boundaries leave no trace in linearly interpolated audio, and
  that audio mixed at unity gain comes out unchanged.
\<close>

section \<open>What one call does\<close>

text \<open>
  C27. One call of the point sampler, at any amplitude: it returns, it produces as many frames as
  fit in the destination and in the source, each one the source frame under the advancing
  position scaled and (when accumulating) added, it touches nothing else, and it reports the
  source as used up exactly when the position has left it.
\<close>

theorem point_mix_mixes_each_frame:
  assumes "mix_call_ok sp a accumulate dst doff"
    and "0 \<le> soff" "soff < int (ma_frac_src_frames a)"
    and "n = min (ma_dst_frames a - doff) (frames_until (int (ma_frac_src_frames a)) soff (ma_frac_step_size a))"
  shows "point_mix sp a accumulate dst doff soff =
    Some (mixed_dst sp a accumulate (point_value sp a) dst doff soff n,
          doff + n, soff + int n * int (ma_frac_step_size a),
          int (ma_frac_src_frames a) \<le> soff + int n * int (ma_frac_step_size a))"
  unfolding assms(4) by (rule point_mix_result) (use assms in auto)

lemmas mix_eval = mix_call_ok_def sampler_ok_def source_ok_iff room_from_def dst_room_def nth_Cons
  frames_until_def mixed_dst_def mix_region_def Let_def scaler_for_def kUnityScale_def
  kFractionalScaleBits_def MuteThreshold_def sample_pos_def point_value_def linear_value_def
  source_channel_def mixed_def upt_rec lerp_def filter_ok_def in_i16_def

lemma point_mix_mixes_each_frame_witness:
  "point_mix \<lparr>sp_dch = 2, sp_stype = UINT8, sp_sch = 1\<rparr>
     \<lparr>ma_dst_frames = 4, ma_src = [0, 128, 255], ma_frac_src_frames = 12288, ma_frac_step_size = 6144,
      ma_amplitude_scale = 0x10000000\<rparr>
     True [1, 2, 3, 4, 5, 6, 7, 8] 1 0
   = Some ([1, 2, -32765, -32764, 5, 6, 7, 8], 3, 12288, True)"
  by (subst point_mix_mixes_each_frame [where n = 2]) (simp_all add: mix_eval split: nat.splits)

text \<open>
  One call of the linear sampler: it returns, it produces a frame for every position up to
  the last frame of the source that fits in the destination, each one the interpolation
  between the two neighbouring frames (before the first frame, between the frame kept from the
  previous buffer and the first one), and when the position has passed the last frame it keeps
  that frame as filter data and, if the destination has room left, asks for the next buffer.
\<close>

theorem linear_mix_interpolates_each_frame:
  assumes "mix_call_ok sp a accumulate dst doff" "filter_ok sp fd" "doff < ma_dst_frames a"
    and "4096 \<le> ma_frac_src_frames a" "-4096 < soff"
    and "send = int (ma_frac_src_frames a) - 4096"
    and "n = min (ma_dst_frames a - doff) (frames_until (send + 1) soff (ma_frac_step_size a))"
    and "soff' = soff + int n * int (ma_frac_step_size a)"
  shows "\<exists>fd'. linear_mix sp a accumulate fd dst doff soff =
      Some (fd', mixed_dst sp a accumulate (linear_value sp a fd) dst doff soff n,
            doff + n, soff', send \<le> soff' \<and> doff + n < ma_dst_frames a)
    \<and> filter_ok sp fd'
    \<and> take (sp_dch sp) fd' =
        (if send \<le> soff' then map (source_channel sp (ma_src a) (nat (send div 4096))) [0..<sp_dch sp]
         else take (sp_dch sp) fd)"
  using assms by (rule linear_mix_call)

text \<open>The sampler has passed the last frame of the source and keeps it as filter data, so it will not need the
  source again; yet with a full destination it answers False, which is documented to mean the opposite.\<close>

lemma consumed_source_is_asked_for_again:
  "\<exists>fd'. linear_mix \<lparr>sp_dch = 1, sp_stype = INT16, sp_sch = 1\<rparr>
     \<lparr>ma_dst_frames = 4, ma_src = [1000, 3000], ma_frac_src_frames = 8192, ma_frac_step_size = 2048,
      ma_amplitude_scale = 0x10000000\<rparr>
     False [100, 7] [0, 0, 0, 0] 0 (-2048)
   = Some (fd', [550, 1000, 2000, 3000], 4, 6144, False) \<and> take 1 fd' = [3000]"
  using linear_mix_interpolates_each_frame [of "\<lparr>sp_dch = 1, sp_stype = INT16, sp_sch = 1\<rparr>"
     "\<lparr>ma_dst_frames = 4, ma_src = [1000, 3000], ma_frac_src_frames = 8192, ma_frac_step_size = 2048,
      ma_amplitude_scale = 0x10000000\<rparr>" False "[0, 0, 0, 0]" 0 "[100, 7]" "-2048" 4096 4 6144]
  by (auto simp: mix_eval)

section \<open>Muting\<close>

text \<open>
  Muting a stream changes no position: a call with one amplitude and the same call with any
  other advance the offsets alike and answer alike, in both samplers, and the linear sampler
  keeps the same frame for the next buffer.
\<close>

theorem amplitude_does_not_move_positions:
  assumes "mix_call_ok sp a accumulate dst doff" "filter_ok sp fd" "doff < ma_dst_frames a"
    and "4096 \<le> ma_frac_src_frames a" "-4096 < soff" "soff < int (ma_frac_src_frames a)"
  shows "(0 \<le> soff \<longrightarrow> (\<exists>dst1 dst2 r.
            point_mix sp a accumulate dst doff soff = Some (dst1, r) \<and>
            point_mix sp (a\<lparr>ma_amplitude_scale := scale\<rparr>) accumulate dst doff soff = Some (dst2, r)))
    \<and> (\<exists>fd1 fd2 dst1 dst2 r.
            linear_mix sp a accumulate fd dst doff soff = Some (fd1, dst1, r) \<and>
            linear_mix sp (a\<lparr>ma_amplitude_scale := scale\<rparr>) accumulate fd dst doff soff = Some (fd2, dst2, r) \<and>
            take (sp_dch sp) fd1 = take (sp_dch sp) fd2)"
proof
  let ?a = "a\<lparr>ma_amplitude_scale := scale\<rparr>"
  have ok': "mix_call_ok sp ?a accumulate dst doff"
    using assms(1) by (simp add: mix_call_ok_def source_ok_iff)
  show "0 \<le> soff \<longrightarrow> (\<exists>dst1 dst2 r.
            point_mix sp a accumulate dst doff soff = Some (dst1, r) \<and>
            point_mix sp ?a accumulate dst doff soff = Some (dst2, r))"
    using point_mix_result[OF assms(1) _ assms(6)] point_mix_result[OF ok', of soff] assms(6) by simp
  define send where "send = int (ma_frac_src_frames a) - 4096"
  define n where "n = min (ma_dst_frames a - doff) (frames_until (send + 1) soff (ma_frac_step_size a))"
  define soff' where "soff' = soff + int n * int (ma_frac_step_size a)"
  note one = linear_mix_call[OF assms(1-5) send_def n_def soff'_def]
  have "-4096 < soff" "4096 \<le> ma_frac_src_frames ?a" "doff < ma_dst_frames ?a"
    "send = int (ma_frac_src_frames ?a) - 4096"
    "n = min (ma_dst_frames ?a - doff) (frames_until (send + 1) soff (ma_frac_step_size ?a))"
    "soff' = soff + int n * int (ma_frac_step_size ?a)"
    using assms(3-5) by (simp_all add: send_def n_def soff'_def)
  note two = linear_mix_call[OF ok' assms(2) this(3,2,1,4-6)]
  show "\<exists>fd1 fd2 dst1 dst2 r.
            linear_mix sp a accumulate fd dst doff soff = Some (fd1, dst1, r) \<and>
            linear_mix sp ?a accumulate fd dst doff soff = Some (fd2, dst2, r) \<and>
            take (sp_dch sp) fd1 = take (sp_dch sp) fd2"
    using one two by auto
qed

lemma amplitude_does_not_move_positions_witness:
  "\<exists>fd1 fd2 dst1 dst2 r.
    linear_mix \<lparr>sp_dch = 1, sp_stype = INT16, sp_sch = 1\<rparr>
       \<lparr>ma_dst_frames = 4, ma_src = [1000, 3000], ma_frac_src_frames = 8192, ma_frac_step_size = 2048,
        ma_amplitude_scale = 0x10000000\<rparr> False [100, 7] [0, 0, 0, 0] 0 (-2048) = Some (fd1, dst1, r) \<and>
    linear_mix \<lparr>sp_dch = 1, sp_stype = INT16, sp_sch = 1\<rparr>
       \<lparr>ma_dst_frames = 4, ma_src = [1000, 3000], ma_frac_src_frames = 8192, ma_frac_step_size = 2048,
        ma_amplitude_scale = 5\<rparr> False [100, 7] [0, 0, 0, 0] 0 (-2048) = Some (fd2, dst2, r) \<and>
    take 1 fd1 = take 1 fd2"
  using amplitude_does_not_move_positions [of "\<lparr>sp_dch = 1, sp_stype = INT16, sp_sch = 1\<rparr>"
     "\<lparr>ma_dst_frames = 4, ma_src = [1000, 3000], ma_frac_src_frames = 8192, ma_frac_step_size = 2048,
      ma_amplitude_scale = 0x10000000\<rparr>" False "[0, 0, 0, 0]" 0 "[100, 7]" "-2048" 5]
  by (simp add: mix_eval)

section \<open>Packet boundaries\<close>

lemma with_source_simps [simp]:
  "ma_src (with_source a s n) = s" "ma_frac_src_frames (with_source a s n) = n * 4096"
  "ma_dst_frames (with_source a s n) = ma_dst_frames a"
  "ma_frac_step_size (with_source a s n) = ma_frac_step_size a"
  "ma_amplitude_scale (with_source a s n) = ma_amplitude_scale a"
  by (simp_all add: with_source_def FRAC_ONE_eq)

lemma mix_call_ok_parts:
  assumes "mix_call_ok sp (with_source a (s1 @ s2) (n1 + n2)) acc dst doff"
    and "length s1 = n1 * sp_sch sp" "length s2 = n2 * sp_sch sp"
  shows "mix_call_ok sp (with_source a s1 n1) acc dst doff"
    and "length dst' = length dst \<Longrightarrow> room_from acc (doff' * sp_dch sp) dst' \<Longrightarrow>
      mix_call_ok sp (with_source a s2 n2) acc dst' doff'"
  using assms by (auto simp: mix_call_ok_def source_ok_iff sampler_ok_def)

lemma mixed_dst_parts:
  assumes "mix_call_ok sp (with_source a (s1 @ s2) (n1 + n2)) acc dst doff"
    and len: "length s1 = n1 * sp_sch sp" "0 < n1" "0 < n2"
    and m1: "m1 \<le> frames_until (int n1 * 4096 - 4096 + 1) soff (ma_frac_step_size a)"
    and x: "x = soff + int m1 * int (ma_frac_step_size a)" "int n1 * 4096 - 4096 < x"
    and fd1: "\<And>D. D < sp_dch sp \<Longrightarrow> fd1 ! D = source_channel sp s1 (n1 - 1) D"
  shows "mixed_dst sp (with_source a s2 n2) acc (linear_value sp (with_source a s2 n2) fd1)
           (mixed_dst sp (with_source a s1 n1) acc (linear_value sp (with_source a s1 n1) fd) dst doff soff m1)
           (doff + m1) (x - int n1 * 4096) m2
       = mixed_dst sp (with_source a (s1 @ s2) (n1 + n2)) acc
           (linear_value sp (with_source a (s1 @ s2) (n1 + n2)) fd) dst doff soff (m1 + m2)"
proof (cases "scaler_for (ma_amplitude_scale a) = MUTED")
  case False
  let ?step = "ma_frac_step_size a"
  let ?M = "mixed (scaler_for (ma_amplitude_scale a)) acc (ma_amplitude_scale a)"
  let ?V = "\<lambda>k. linear_value sp (with_source a (s1 @ s2) (n1 + n2)) fd (sample_pos doff soff ?step k)"
  have sp: "sampler_ok sp" "0 < ?step" using assms(1) by (simp_all add: mix_call_ok_def)
  note dch = sampler_ok_dch[OF sp(1)]
  have one: "mix_region (sp_dch sp) doff (doff + m1)
        (\<lambda>k. linear_value sp (with_source a s1 n1) fd (sample_pos doff soff ?step k)) ?M dst
      = mix_region (sp_dch sp) doff (doff + m1) ?V ?M dst"
  proof (rule mix_region_cong [OF _ dch])
    fix k D assume k: "doff \<le> k" "k < doff + m1" "D < sp_dch sp"
    have "sample_pos doff soff ?step k < int n1 * 4096 - 4096 + 1"
      using k m1 by (intro frames_until_pos[OF sp(2)]) auto
    then show "linear_value sp (with_source a s1 n1) fd (sample_pos doff soff ?step k) D = ?V k D"
      using linear_value_first[OF sp(1) len k(3)] by simp
  qed
  have two: "mix_region (sp_dch sp) (doff + m1) (doff + (m1 + m2))
        (\<lambda>k. linear_value sp (with_source a s2 n2) fd1 (sample_pos (doff + m1) (x - int n1 * 4096) ?step k)) ?M d
      = mix_region (sp_dch sp) (doff + m1) (doff + (m1 + m2)) ?V ?M d" for d
  proof (rule mix_region_cong [OF _ dch])
    fix k D assume k: "doff + m1 \<le> k" "k < doff + (m1 + m2)" "D < sp_dch sp"
    have p: "sample_pos (doff + m1) (x - int n1 * 4096) ?step k = sample_pos doff soff ?step k - int n1 * 4096"
      using fun_cong[OF sample_pos_shift[of doff m1 soff ?step], of k]
      by (simp add: x(1) sample_pos_def)
    have "x \<le> sample_pos doff soff ?step k"
      using k(1) unfolding x(1) sample_pos_def by (intro add_left_mono mult_right_mono) auto
    then have "int n1 * 4096 - 4096 < sample_pos doff soff ?step k" using x(2) by linarith
    note linear_value_second[OF sp(1) len k(3) this fd1[OF k(3)], of a s2 fd]
    then show "linear_value sp (with_source a s2 n2) fd1 (sample_pos (doff + m1) (x - int n1 * 4096) ?step k) D = ?V k D"
      unfolding p by simp
  qed
  show ?thesis
    using False by (simp add: mixed_dst_def Let_def one two mix_region_append add.assoc)
qed (simp add: mixed_dst_def)

lemma room_from_mixed_dst:
  assumes "sampler_ok sp" "room_from acc (doff * sp_dch sp) dst"
  shows "room_from acc ((doff + n) * sp_dch sp) (mixed_dst sp a acc V dst doff soff n)"
proof (cases "scaler_for (ma_amplitude_scale a) = MUTED")
  case True
  have "doff * sp_dch sp \<le> (doff + n) * sp_dch sp" by simp
  then have "room_from acc ((doff + n) * sp_dch sp) dst"
    using assms(2) unfolding room_from_def by (meson le_trans)
  then show ?thesis using True by (simp add: mixed_dst_def)
qed (use assms sampler_ok_dch in \<open>auto simp: mixed_dst_def intro!: room_from_mix_region\<close>)

text \<open>
  C19. Packet boundaries leave no trace. If the linear sampler uses up one buffer and asks for the
  next, then continuing with the next buffer, at the position the first call stopped at, gives
  exactly the output, the offsets and the answer of a single call on the two buffers joined.
\<close>

theorem linear_mix_across_buffers:
  assumes "mix_call_ok sp (with_source a (s1 @ s2) (n1 + n2)) acc dst doff" "filter_ok sp fd"
    and "length s1 = n1 * sp_sch sp" "length s2 = n2 * sp_sch sp" "0 < n1" "0 < n2"
    and "doff < ma_dst_frames a" "-4096 < soff"
    and "linear_mix sp (with_source a s1 n1) acc fd dst doff soff = Some (fd1, dst1, doff1, soff1, True)"
  shows "\<exists>fd2 fd12 dst' doff' soff' r.
    linear_mix sp (with_source a s2 n2) acc fd1 dst1 doff1 (soff1 - int (n1 * FRAC_ONE))
      = Some (fd2, dst', doff', soff' - int (n1 * FRAC_ONE), r) \<and>
    linear_mix sp (with_source a (s1 @ s2) (n1 + n2)) acc fd dst doff soff = Some (fd12, dst', doff', soff', r) \<and>
    (r \<longrightarrow> take (sp_dch sp) fd2 = take (sp_dch sp) fd12)"
proof -
  let ?a1 = "with_source a s1 n1" and ?a2 = "with_source a s2 n2"
  let ?a12 = "with_source a (s1 @ s2) (n1 + n2)"
  let ?step = "ma_frac_step_size a"
  define l1 l2 where "l1 = int n1 * 4096 - 4096" and "l2 = int n2 * 4096 - 4096"
  define m1 where "m1 = min (ma_dst_frames a - doff) (frames_until (l1 + 1) soff ?step)"
  define x where "x = soff + int m1 * int ?step"
  define y where "y = x - int n1 * 4096"
  note ok1 = mix_call_ok_parts(1)[OF assms(1,3,4)]
  have st: "0 < ?step" and sp: "sampler_ok sp" using assms(1) by (simp_all add: mix_call_ok_def)
  have first: "Some (fd1, dst1, doff1, soff1, True) = Some (fd1,
        mixed_dst sp ?a1 acc (linear_value sp ?a1 fd) dst doff soff m1, doff + m1, x,
        l1 \<le> x \<and> doff + m1 < ma_dst_frames a)"
    and fok: "filter_ok sp fd1"
    and tk: "take (sp_dch sp) fd1 = (if l1 \<le> x then map (source_channel sp s1 (nat (l1 div 4096))) [0..<sp_dch sp]
         else take (sp_dch sp) fd)"
    using linear_mix_call[OF ok1 assms(2), of soff l1 m1 x] assms(5,7-9)
    by (auto simp: l1_def m1_def x_def)
  have m1: "m1 = frames_until (l1 + 1) soff ?step" and full: "l1 \<le> x" "doff + m1 < ma_dst_frames a"
    using first by (auto simp: m1_def)
  have xl: "l1 < x" using frames_until_reached[OF st, of "l1 + 1" soff] by (simp add: x_def m1)
  have "nat (l1 div 4096) = n1 - 1" using assms(5) by (simp add: l1_def)
  then have "take (sp_dch sp) fd1 = map (source_channel sp s1 (n1 - 1)) [0..<sp_dch sp]"
    using tk full by simp
  then have f1: "fd1 ! D = source_channel sp s1 (n1 - 1) D" if "D < sp_dch sp" for D
    using that by (metis minus_nat.diff_0 nth_map_upt nth_take add_0)
  define m2 where "m2 = min (ma_dst_frames a - (doff + m1)) (frames_until (l2 + 1) y ?step)"
  have l12: "int (n1 + n2) * 4096 - 4096 = l2 + int n1 * 4096" by (simp add: l2_def)
  have m12: "m1 + m2 = min (ma_dst_frames a - doff) (frames_until (l2 + int n1 * 4096 + 1) soff ?step)"
  proof -
    have "m1 \<le> frames_until (l2 + int n1 * 4096 + 1) soff ?step"
      unfolding m1 using assms(6) by (intro frames_until_mono[OF _ st]) (simp add: l1_def l2_def)
    from frames_until_add[OF st this]
    have "frames_until (l2 + int n1 * 4096 + 1) soff ?step = m1 + frames_until (l2 + 1) y ?step"
      using frames_until_shift[of "l2 + int n1 * 4096 + 1" "int n1 * 4096" x ?step]
      by (simp add: x_def y_def)
    then show ?thesis using full(2) by (simp add: m2_def)
  qed
  have dst1: "dst1 = mixed_dst sp ?a1 acc (linear_value sp ?a1 fd) dst doff soff m1" using first by simp
  have room: "room_from acc ((doff + m1) * sp_dch sp) dst1" "length dst1 = length dst"
    unfolding dst1 using assms(1) room_from_mixed_dst[OF sp]
    by (simp_all add: mix_call_ok_def) (simp add: mixed_dst_def Let_def)
  define z where "z = y + int m2 * int ?step"
  define r where "r = (l2 \<le> z \<and> doff + m1 + m2 < ma_dst_frames a)"
  have second: "\<exists>fd2. linear_mix sp ?a2 acc fd1 dst1 (doff + m1) y =
      Some (fd2, mixed_dst sp ?a2 acc (linear_value sp ?a2 fd1) dst1 (doff + m1) y m2, doff + m1 + m2, z, r)
      \<and> (l2 \<le> z \<longrightarrow> take (sp_dch sp) fd2 = map (source_channel sp s2 (n2 - 1)) [0..<sp_dch sp])"
  proof -
    have "nat (l2 div 4096) = n2 - 1" using assms(6) by (simp add: l2_def)
    then show ?thesis
      using linear_mix_call[OF mix_call_ok_parts(2)[OF assms(1,3,4) room(2,1)] fok, of y l2 m2 z]
        full(2) assms(6) xl by (auto simp: l2_def l1_def m2_def z_def y_def r_def)
  qed
  have whole: "\<exists>fd12. linear_mix sp ?a12 acc fd dst doff soff =
      Some (fd12, mixed_dst sp ?a12 acc (linear_value sp ?a12 fd) dst doff soff (m1 + m2), doff + (m1 + m2),
        z + int n1 * 4096, r)
      \<and> (l2 \<le> z \<longrightarrow> take (sp_dch sp) fd12 = map (source_channel sp (s1 @ s2) (n1 + (n2 - 1))) [0..<sp_dch sp])"
  proof -
    have d: "nat ((l2 + int n1 * 4096) div 4096) = n1 + (n2 - 1)" using assms(6) by (simp add: l2_def)
    have p: "doff < ma_dst_frames ?a12" "4096 \<le> ma_frac_src_frames ?a12"
      "l2 + int n1 * 4096 = int (ma_frac_src_frames ?a12) - 4096"
      "m1 + m2 = min (ma_dst_frames ?a12 - doff)
        (frames_until (l2 + int n1 * 4096 + 1) soff (ma_frac_step_size ?a12))"
      using assms(5-7) l12 m12 by simp_all
    have p5: "z + int n1 * 4096 = soff + int (m1 + m2) * int (ma_frac_step_size ?a12)"
      by (simp add: z_def y_def x_def distrib_right)
    show ?thesis
      using linear_mix_call[OF assms(1,2) p(1,2) assms(8) p(3,4) p5]
      unfolding d r_def by (auto simp: add.assoc)
  qed
  have out: "mixed_dst sp ?a2 acc (linear_value sp ?a2 fd1) dst1 (doff + m1) y m2
      = mixed_dst sp ?a12 acc (linear_value sp ?a12 fd) dst doff soff (m1 + m2)"
    unfolding dst1 y_def
    by (rule mixed_dst_parts[OF assms(1,3,5,6) _ x_def _ f1]) (use m1 xl in \<open>auto simp: l1_def\<close>)
  have last: "source_channel sp (s1 @ s2) (n1 + (n2 - 1)) = source_channel sp s2 (n2 - 1)"
    by (rule ext) (rule source_channel_append2[OF assms(3)])
  have eqs: "doff1 = doff + m1" "soff1 - int (n1 * FRAC_ONE) = y"
      "z + int n1 * 4096 - int (n1 * FRAC_ONE) = z" "doff + (m1 + m2) = doff + m1 + m2"
    using first by (simp_all add: FRAC_ONE_eq y_def)
  from second obtain fd2 where 2: "linear_mix sp ?a2 acc fd1 dst1 (doff + m1) y =
      Some (fd2, mixed_dst sp ?a2 acc (linear_value sp ?a2 fd1) dst1 (doff + m1) y m2, doff + m1 + m2, z, r)"
    "l2 \<le> z \<Longrightarrow> take (sp_dch sp) fd2 = map (source_channel sp s2 (n2 - 1)) [0..<sp_dch sp]" by blast
  from whole obtain fd12 where 12: "linear_mix sp ?a12 acc fd dst doff soff =
      Some (fd12, mixed_dst sp ?a12 acc (linear_value sp ?a12 fd) dst doff soff (m1 + m2), doff + (m1 + m2),
        z + int n1 * 4096, r)"
    "l2 \<le> z \<Longrightarrow> take (sp_dch sp) fd12 = map (source_channel sp (s1 @ s2) (n1 + (n2 - 1))) [0..<sp_dch sp]"
    by blast
  have "r \<longrightarrow> take (sp_dch sp) fd2 = take (sp_dch sp) fd12"
    using 2(2) 12(2) unfolding last r_def by simp
  then show ?thesis
    using 2(1) 12(1) unfolding eqs out by (metis eqs(3))
qed

lemma linear_mix_across_buffers_witness:
  "\<exists>fd2 fd12 dst' doff' soff' r.
    linear_mix \<lparr>sp_dch = 1, sp_stype = INT16, sp_sch = 1\<rparr>
      (with_source \<lparr>ma_dst_frames = 9, ma_src = [], ma_frac_src_frames = 0, ma_frac_step_size = 3000,
        ma_amplitude_scale = 0x10000000\<rparr> [-200, 50] 2)
      False [400, 0] [0, 0, 1000, 560, 0, 0, 0, 0, 0] 4 (6000 - int (2 * FRAC_ONE))
      = Some (fd2, dst', doff', soff' - int (2 * FRAC_ONE), r) \<and>
    linear_mix \<lparr>sp_dch = 1, sp_stype = INT16, sp_sch = 1\<rparr>
      (with_source \<lparr>ma_dst_frames = 9, ma_src = [], ma_frac_src_frames = 0, ma_frac_step_size = 3000,
        ma_amplitude_scale = 0x10000000\<rparr> ([1000, 400] @ [-200, 50]) (2 + 2))
      False [0, 0] [0, 0, 0, 0, 0, 0, 0, 0, 0] 2 0 = Some (fd12, dst', doff', soff', r)"
proof -
  let ?sp = "\<lparr>sp_dch = 1, sp_stype = INT16, sp_sch = 1\<rparr>"
  let ?a = "\<lparr>ma_dst_frames = 9, ma_src = [], ma_frac_src_frames = 0, ma_frac_step_size = 3000,
        ma_amplitude_scale = 0x10000000\<rparr>"
  have "linear_mix ?sp (with_source ?a [1000, 400] 2) False [0, 0] [0, 0, 0, 0, 0, 0, 0, 0, 0] 2 0
      = Some ([400, 0], [0, 0, 1000, 560, 0, 0, 0, 0, 0], 4, 6000, True)"
    by (simp add: linear_mix_def linear_mix_impl_def scaler_for_def kUnityScale_def kFractionalScaleBits_def
        with_source_def FRAC_ONE_eq wrap_i32_def linear_body_def linear_final_def linear_loop_def
        mix_loop.simps mix_turn_def linear_sample_def Let_def PTS_FRACTIONAL_BITS_def to_u32_def
        frame_read_def src_read_def dst_per_src_def nth_opt_def interpolate_def dst_mix_def in_i32_def upt_rec)
  then show ?thesis
    using linear_mix_across_buffers [of ?sp ?a "[1000, 400]" "[-200, 50]" 2 2 False
        "[0, 0, 0, 0, 0, 0, 0, 0, 0]" 2 "[0, 0]" 0]
    by (simp add: mix_call_ok_def sampler_ok_def source_ok_iff room_from_def dst_room_def
        filter_ok_def in_i16_def) blast
qed

section \<open>Bounds\<close>

lemma point_value_in_i16:
  assumes "sampler_ok sp" "source_ok sp a" "0 \<le> x" "x < int (ma_frac_src_frames a)" "D < sp_dch sp"
  shows "in_i16 (point_value sp a x D)"
proof -
  have "nat (x div 4096) * 4096 < ma_frac_src_frames a" using assms(3,4) by auto
  then show ?thesis unfolding point_value_def using assms by (intro source_channel_in_i16)
qed

lemma linear_value_in_i16:
  assumes "sampler_ok sp" "source_ok sp a" "filter_ok sp fd" "-4096 < x"
    "x \<le> int (ma_frac_src_frames a) - 4096" "D < sp_dch sp"
  shows "in_i16 (linear_value sp a fd x D)"
proof -
  let ?f = "nat (x div 4096)"
  have s: "in_i16 (source_channel sp (ma_src a) f D)" if "f * 4096 < ma_frac_src_frames a" for f
    using assms that by (intro source_channel_in_i16)
  consider "x < 0" | "0 \<le> x" "x < int (ma_frac_src_frames a) - 4096" | "0 \<le> x" "x = int (ma_frac_src_frames a) - 4096"
    using assms(5) by linarith
  then show ?thesis
  proof cases
    case 1
    then show ?thesis
      using assms(3-6) s[of 0] by (auto simp: linear_value_def filter_ok_def intro!: lerp_in_i16)
  next
    case 2
    have "x div 4096 * 4096 \<le> x" by simp
    then have "?f * 4096 < ma_frac_src_frames a" "(?f + 1) * 4096 < ma_frac_src_frames a"
      using 2 unfolding of_nat_less_iff [where 'a = int, symmetric] by simp_all
    moreover have "0 \<le> x mod 4096" "x mod 4096 \<le> 4096" by (simp_all add: less_imp_le)
    ultimately show ?thesis
      using 2 s by (auto simp: linear_value_def Let_def intro!: lerp_in_i16)
  next
    case 3
    have "x div 4096 * 4096 \<le> x" "int ?f = x div 4096" using 3(1) by simp_all
    then have "?f * 4096 < ma_frac_src_frames a"
      using 3(2) unfolding of_nat_less_iff [where 'a = int, symmetric] of_nat_mult by linarith
    then show ?thesis using 3 s by (simp add: linear_value_def)
  qed
qed

lemma length_mixed_dst [simp]: "length (mixed_dst sp a acc V dst doff soff n) = length dst"
  by (simp add: mixed_dst_def Let_def)

lemma mixed_dst_bounds:
  assumes "sampler_ok sp" "i < length dst"
    and "\<And>k D. doff \<le> k \<Longrightarrow> k < doff + n \<Longrightarrow> D < sp_dch sp \<Longrightarrow>
      in_i16 (V (sample_pos doff soff (ma_frac_step_size a) k) D)"
  shows "mixed_dst sp a acc V dst doff soff n ! i = dst ! i \<or>
    in_i16 (mixed_dst sp a acc V dst doff soff n ! i - (if acc then dst ! i else 0))"
proof (cases "scaler_for (ma_amplitude_scale a) = MUTED \<or> i div sp_dch sp < doff \<or> doff + n \<le> i div sp_dch sp")
  case True
  then show ?thesis using assms(2) by (auto simp: mixed_dst_def Let_def nth_mix_region)
next
  case False
  have "i mod sp_dch sp < sp_dch sp" using sampler_ok_dch[OF assms(1)] by simp
  then show ?thesis
    using False assms(2,3) scaler_for_LT[of "ma_amplitude_scale a"]
    by (auto simp: mixed_dst_def Let_def nth_mix_region mixed_def intro!: sample_scale_in_i16)
qed

text \<open>
  C31. Whatever a mixer writes is one 16-bit sample, alone or added to what was there: every
  position of the destination is unchanged, or changes by (or, without accumulation, to) a
  value of \<open>int16_t\<close>. So a destination that starts empty can take 65535 streams before its
  32-bit accumulators can overflow.
\<close>

theorem mix_adds_one_sample:
  assumes "mix_call_ok sp a acc dst doff" "filter_ok sp fd" "doff < ma_dst_frames a"
    and "4096 \<le> ma_frac_src_frames a" "-4096 < soff"
    and "m = PointSampler sp \<and> 0 \<le> soff \<and> soff < int (ma_frac_src_frames a) \<or> m = LinearSampler sp fd"
  shows "\<exists>m' dst' doff' soff' r. mixer_mix m a acc dst doff soff = Some (m', dst', doff', soff', r) \<and>
    length dst' = length dst \<and>
    (\<forall>i < length dst. dst' ! i = dst ! i \<or> in_i16 (dst' ! i - (if acc then dst ! i else 0)))"
proof -
  have sp: "sampler_ok sp" "source_ok sp a" "0 < ma_frac_step_size a"
    using assms(1) by (simp_all add: mix_call_ok_def)
  have le: "soff \<le> sample_pos doff soff (ma_frac_step_size a) k" if "doff \<le> k" for k
    using that by (simp add: sample_pos_def)
  show ?thesis
    using assms(6)
  proof (elim disjE conjE)
    assume m: "m = PointSampler sp" "0 \<le> soff" "soff < int (ma_frac_src_frames a)"
    define n where "n = min (ma_dst_frames a - doff) (frames_until (int (ma_frac_src_frames a)) soff (ma_frac_step_size a))"
    have "in_i16 (point_value sp a (sample_pos doff soff (ma_frac_step_size a) k) D)"
      if "doff \<le> k" "k < doff + n" "D < sp_dch sp" for k D
      using le[OF that(1)] m(2) frames_until_pos[OF sp(3) that(1), of "int (ma_frac_src_frames a)" soff] that
      by (intro point_value_in_i16 sp) (auto simp: n_def)
    then have "mixed_dst sp a acc (point_value sp a) dst doff soff n ! i = dst ! i \<or>
        in_i16 (mixed_dst sp a acc (point_value sp a) dst doff soff n ! i - (if acc then dst ! i else 0))"
      if "i < length dst" for i
      by (rule mixed_dst_bounds[OF sp(1) that])
    then show ?thesis
      using point_mix_result[OF assms(1) m(2,3)] m(1) unfolding n_def[symmetric]
      by (auto simp: mixed_dst_def Let_def)
  next
    assume m: "m = LinearSampler sp fd"
    define send where "send = int (ma_frac_src_frames a) - 4096"
    define n where "n = min (ma_dst_frames a - doff) (frames_until (send + 1) soff (ma_frac_step_size a))"
    have "in_i16 (linear_value sp a fd (sample_pos doff soff (ma_frac_step_size a) k) D)"
      if "doff \<le> k" "k < doff + n" "D < sp_dch sp" for k D
    proof (rule linear_value_in_i16 [OF sp(1,2) assms(2) _ _ that(3)])
      have "n \<le> frames_until (send + 1) soff (ma_frac_step_size a)" by (simp add: n_def)
      then have "sample_pos doff soff (ma_frac_step_size a) k < send + 1"
        using that by (intro frames_until_pos[OF sp(3)]) simp_all
      then show "sample_pos doff soff (ma_frac_step_size a) k \<le> int (ma_frac_src_frames a) - 4096"
        by (simp add: send_def)
    qed (use le[OF that(1)] assms(5) in simp)
    then have "mixed_dst sp a acc (linear_value sp a fd) dst doff soff n ! i = dst ! i \<or>
        in_i16 (mixed_dst sp a acc (linear_value sp a fd) dst doff soff n ! i - (if acc then dst ! i else 0))"
      if "i < length dst" for i
      by (rule mixed_dst_bounds[OF sp(1) that])
    then show ?thesis
      using linear_mix_call[OF assms(1-5) send_def n_def refl] m by fastforce
  qed
qed

lemma mix_adds_one_sample_witness:
  "\<exists>m' dst' doff' soff' r. mixer_mix (LinearSampler \<lparr>sp_dch = 1, sp_stype = INT16, sp_sch = 1\<rparr> [100, 7])
     \<lparr>ma_dst_frames = 4, ma_src = [1000, 3000], ma_frac_src_frames = 8192, ma_frac_step_size = 2048,
      ma_amplitude_scale = 0xffffffff\<rparr> True [10, 20, 30, 40] 0 (-2048) = Some (m', dst', doff', soff', r)
   \<and> length dst' = 4"
proof -
  have "mix_call_ok \<lparr>sp_dch = 1, sp_stype = INT16, sp_sch = 1\<rparr>
     \<lparr>ma_dst_frames = 4, ma_src = [1000, 3000], ma_frac_src_frames = 8192, ma_frac_step_size = 2048,
      ma_amplitude_scale = 0xffffffff\<rparr> True [10, 20, 30, 40] 0"
    by (auto simp: mix_call_ok_def sampler_ok_def source_ok_iff room_from_def dst_room_def nth_Cons
        in_i16_def split: nat.split)
  then have "\<exists>m' dst' doff' soff' r. mixer_mix (LinearSampler \<lparr>sp_dch = 1, sp_stype = INT16, sp_sch = 1\<rparr> [100, 7])
       \<lparr>ma_dst_frames = 4, ma_src = [1000, 3000], ma_frac_src_frames = 8192, ma_frac_step_size = 2048,
        ma_amplitude_scale = 0xffffffff\<rparr> True [10, 20, 30, 40] 0 (-2048) = Some (m', dst', doff', soff', r) \<and>
     length dst' = length [10 :: int, 20, 30, 40] \<and>
     (\<forall>i < length [10 :: int, 20, 30, 40]. dst' ! i = [10, 20, 30, 40] ! i \<or>
        in_i16 (dst' ! i - (if True then [10, 20, 30, 40] ! i else 0)))"
    by (rule mix_adds_one_sample [where fd = "[100, 7]"]) (simp_all add: filter_ok_def in_i16_def)
  then show ?thesis by (elim exE conjE) (intro exI conjI, assumption, simp)
qed

section \<open>Choosing a mixer\<close>

lemma subject_delta_eq_1_iff:
  assumes "r \<noteq> 0" "s \<noteq> 0"
  shows "\<exists>t. mk_rate s r = Some t \<and> (subject_delta t = 1 \<longleftrightarrow> unat s dvd unat r)"
proof -
  obtain t where t: "mk_rate s r = Some t" "unat (subject_delta t) = unat s div gcd (unat s) (unat r)"
    using mk_rate_correct[OF assms(1)] by blast
  have "0 < unat s" using assms(2) by (simp add: unat_gt_0)
  then have "unat s div gcd (unat s) (unat r) = 1 \<longleftrightarrow> unat s = gcd (unat s) (unat r)"
    by (metis div_by_1 div_self dvd_div_mult_self gcd_dvd1 mult_1 less_irrefl)
  also have "\<dots> \<longleftrightarrow> unat s dvd unat r" by (metis gcd_dvd2 gcd_nat.absorb1)
  finally have "unat (subject_delta t) = 1 \<longleftrightarrow> unat s dvd unat r" using t(2) by simp
  moreover have "unat (subject_delta t) = 1 \<longleftrightarrow> subject_delta t = 1"
    by (simp add: word_unat_eq_iff)
  ultimately show ?thesis using t(1) by blast
qed

text \<open>
  \<open>Mixer::Select\<close> takes the point sampler exactly when the destination's frame rate is a
  multiple of the source's, and the linear sampler otherwise. (The comment in the code has it
  the other way round.) So audio at 96 kHz mixed to 48 kHz is interpolated, audio at 44.1 kHz
  mixed to 88.2 kHz is not.
\<close>

theorem mixer_select_by_rates:
  assumes "frames_per_second src \<noteq> 0" "frames_per_second dst \<noteq> 0"
    and "sample_format src \<in> {SF_UNSIGNED_8, SF_SIGNED_16}"
    and "channels src \<in> {1, 2}" "channels dst \<in> {1, 2}"
  shows "\<exists>sp. sampler_ok sp \<and> sp_sch sp = unat (channels src) \<and> sp_dch sp = unat (channels dst) \<and>
    mixer_select src (Some dst) = Some (Some
      (if unat (frames_per_second src) dvd unat (frames_per_second dst) then PointSampler sp
       else LinearSampler sp (linear_reset sp)))"
proof -
  obtain t where t: "mk_rate (frames_per_second src) (frames_per_second dst) = Some t"
    "subject_delta t = 1 \<longleftrightarrow> unat (frames_per_second src) dvd unat (frames_per_second dst)"
    using subject_delta_eq_1_iff[OF assms(2,1)] by blast
  obtain sp where "select_sampler src dst = Some sp" "sampler_ok sp"
    "sp_sch sp = unat (channels src)" "sp_dch sp = unat (channels dst)"
    using assms(3-5) by (auto simp: select_sampler_def select_channels_def select_stype_def sampler_ok_def)
  then show ?thesis
    using t by (auto simp: mixer_select_def point_sampler_select_def linear_sampler_select_def)
qed

lemma mixer_select_by_rates_witness:
  "\<exists>sp. mixer_select \<lparr>sample_format = SF_SIGNED_16, channels = 2, frames_per_second = 96000\<rparr>
      (Some \<lparr>sample_format = SF_SIGNED_16, channels = 2, frames_per_second = 48000\<rparr>)
    = Some (Some (LinearSampler sp (linear_reset sp)))"
  using mixer_select_by_rates [of "\<lparr>sample_format = SF_SIGNED_16, channels = 2, frames_per_second = 96000\<rparr>"
      "\<lparr>sample_format = SF_SIGNED_16, channels = 2, frames_per_second = 48000\<rparr>"]
  by auto

section \<open>The mute threshold\<close>

text \<open>
  Scaling at any nonzero amplitude up to the mute threshold: samples that are not negative
  become 0, negative ones become -1, because the shift rounds down. The comment on
  \<open>MuteThreshold\<close> promises 0 for all of them.
\<close>

theorem below_mute_threshold:
  assumes "0 < uint scale" "uint scale \<le> uint (MuteThreshold 15)" "in_i16 s"
  shows "sample_scale LT_UNITY s scale = (if s < 0 then -1 else 0)"
proof -
  have u: "0 < uint scale" "uint scale \<le> 8191" using assms mute_uint by simp_all
  have s: "- 32768 \<le> s" "s \<le> 32767" using assms(3) by (auto simp: in_i16_def)
  have "s * uint scale \<le> 32767 * 8191" using s u by (intro order.trans[OF mult_right_mono mult_left_mono]) auto
  moreover have "- 32768 * 8191 \<le> s * uint scale"
  proof -
    have "- s * uint scale \<le> 32768 * 8191"
      using s u by (intro order.trans[OF mult_right_mono mult_left_mono]) auto
    then show ?thesis by simp
  qed
  moreover have "s * uint scale < 0 \<longleftrightarrow> s < 0" using u by (simp add: mult_less_0_iff)
  ultimately have "(s * uint scale) div 2 ^ 28 = (if s < 0 then -1 else 0)"
    by (auto simp: div_eq_minus1 div_pos_pos_trivial not_less split: if_splits)
  then show ?thesis using scaled_product_wrap[OF assms(3), of scale]
    by (simp add: kFractionalScaleBits_def)
qed

lemma below_mute_threshold_witness: "sample_scale LT_UNITY (-1) (MuteThreshold 15) = -1"
  using below_mute_threshold [of "MuteThreshold 15" "-1"] by (simp add: mute_uint in_i16_def)

section \<open>The output formatter\<close>

text \<open>
  \<open>ProduceOutput\<close> writes exactly the frames it is asked for, each sample clipped to 16 bits
  and converted, and \<open>FillWithSilence\<close> writes what \<open>ProduceOutput\<close> writes for a buffer of
  zeros.
\<close>

theorem produce_output_clips:
  assumes "n = unat frames * unat (of_channels fmt)" "n < 2 ^ 32"
    and "n \<le> length source" "n \<le> length dest"
  shows "produce_output fmt source dest frames =
      Some (map (\<lambda>v. dst_convert (of_dtype fmt) (max (-32768) (min 32767 v))) (take n source) @ drop n dest)
    \<and> fill_with_silence fmt dest frames = produce_output fmt (replicate n 0) dest frames"
proof
  have p: "produce_output fmt src dest frames =
      Some (map (output_convert (of_dtype fmt)) (take n src) @ drop n dest)" if "n \<le> length src" for src
    unfolding produce_output_def assms(1) [symmetric] by (rule produce_loop_map) (use assms(4) that in auto)
  show "produce_output fmt source dest frames =
      Some (map (\<lambda>v. dst_convert (of_dtype fmt) (max (-32768) (min 32767 v))) (take n source) @ drop n dest)"
    using p[OF assms(3)] by (simp add: output_convert_clip[abs_def] clip16_def)
  have w: "unat (frames * of_channels fmt) = n"
    using assms(1,2) by (simp add: unat_word_ariths)
  have z: "output_convert (of_dtype fmt) 0 = silence_value (of_dtype fmt)"
    by (cases "of_dtype fmt") (simp_all add: output_convert_def)
  show "fill_with_silence fmt dest frames = produce_output fmt (replicate n 0) dest frames"
    using p[of "replicate n 0"] assms(4) by (simp add: fill_with_silence_def w z map_replicate_const)
qed

lemma produce_output_clips_witness:
  "produce_output (mk_output_formatter UINT8 2) [40000, -32768] [0, 0, 9] 1 = Some [255, 0, 9]"
  using produce_output_clips [of 2 1 "mk_output_formatter UINT8 2" "[40000, -32768]" "[0, 0, 9]"]
  by (simp add: mk_output_formatter_def)

section \<open>Mixing at unity gain\<close>

text \<open>
  C26. Audio that is mixed into an output of its own format at unity gain, alone, comes out
  exactly as it went in, for every format both sides support: the mixer \<open>Mixer::Select\<close> picks
  and the formatter \<open>OutputFormatter::Select\<close> picks are inverse to each other.
\<close>

theorem unity_mix_is_bit_exact:
  assumes "sample_format fmt = (case sty of UINT8 \<Rightarrow> SF_UNSIGNED_8 | INT16 \<Rightarrow> SF_SIGNED_16)"
    and "channels fmt \<in> {1, 2}" "frames_per_second fmt \<noteq> 0"
    and "list_all (in_stype sty) src" "length src = n * unat (channels fmt)" "0 < n" "n < 2 ^ 18"
    and "length dst = length src" "length out = length src"
  shows "\<exists>mixer formatter dst'. mixer_select fmt (Some fmt) = Some (Some mixer) \<and>
    output_formatter_select fmt = Some formatter \<and>
    mixer_mix mixer \<lparr>ma_dst_frames = n, ma_src = src, ma_frac_src_frames = n * FRAC_ONE,
        ma_frac_step_size = FRAC_ONE, ma_amplitude_scale = kUnityScale\<rparr> False dst 0 0
      = Some (mixer, dst', n, int (n * FRAC_ONE), True) \<and>
    produce_output formatter dst' out (of_nat n) = Some src"
proof -
  define ch where "ch = unat (channels fmt)"
  define sp where "sp = \<lparr>sp_dch = ch, sp_stype = sty, sp_sch = ch\<rparr>"
  define a where "a = \<lparr>ma_dst_frames = n, ma_src = src, ma_frac_src_frames = n * FRAC_ONE,
        ma_frac_step_size = FRAC_ONE, ma_amplitude_scale = kUnityScale\<rparr>"
  have ch: "ch \<in> {1, 2}" using assms(2) by (auto simp: ch_def)
  obtain t where "mk_rate (frames_per_second fmt) (frames_per_second fmt) = Some t" "subject_delta t = 1"
    using subject_delta_eq_1_iff[OF assms(3,3)] by auto
  then have sel: "mixer_select fmt (Some fmt) = Some (Some (PointSampler sp))"
    using assms(1,2) by (cases sty) (auto simp: mixer_select_def point_sampler_select_def
        select_sampler_def select_channels_def select_stype_def sp_def ch_def)
  have fsel: "output_formatter_select fmt = Some (mk_output_formatter sty (channels fmt))"
    using assms(1,2) by (cases sty) (auto simp: output_formatter_select_def select_of_def)
  have ok: "mix_call_ok sp a False dst 0"
    using ch assms by (auto simp: mix_call_ok_def sampler_ok_def source_ok_iff sp_def a_def FRAC_ONE_eq
        room_from_def dst_room_def ch_def)
  have fr: "frames_until (int n * 4096) 0 4096 = n"
    by (simp add: frames_until_def)
  define dst' where "dst' = mixed_dst sp a False (point_value sp a) dst 0 0 n"
  have mix: "mixer_mix (PointSampler sp) a False dst 0 0 = Some (PointSampler sp, dst', n, int (n * FRAC_ONE), True)"
    using point_mix_result[OF ok, of 0] assms(6) fr
    by (simp add: dst'_def a_def FRAC_ONE_eq)
  have unity: "scaler_for kUnityScale = EQ_UNITY" by (simp add: scaler_for_def)
  have dst': "dst' = map (sample_normalize sty) src"
  proof (rule nth_equalityI)
    show "length dst' = length (map (sample_normalize sty) src)" using assms(8) by (simp add: dst'_def)
    fix i assume "i < length dst'"
    then have i: "i < length src" using assms(8) by (simp add: dst'_def)
    have c: "i div ch < n" "i mod ch < ch"
      using i ch assms(5) by (auto simp: ch_def less_mult_imp_div_less)
    have "source_channel sp src (i div ch) (i mod ch) = sample_normalize sty (src ! i)"
    proof -
      have "i div ch * ch + i mod ch = i" by simp
      moreover have "ch = 1 \<Longrightarrow> i div ch * ch = i" by simp
      ultimately show ?thesis using ch by (auto simp: source_channel_def sp_def)
    qed
    then show "dst' ! i = map (sample_normalize sty) src ! i"
      using i c assms(8)
      by (simp add: dst'_def mixed_dst_def a_def unity nth_mix_region sp_def mixed_def point_value_def
          sample_pos_def FRAC_ONE_eq)
  qed
  have "unat (of_nat n :: u32) = n" using assms(7) by (intro unat_of_nat_small) simp
  then have "produce_output (mk_output_formatter sty (channels fmt)) dst' out (of_nat n) =
      Some (map (output_convert sty) (take (n * ch) dst') @ drop (n * ch) out)"
    unfolding produce_output_def mk_output_formatter_def
    by (simp add: ch_def) (rule produce_loop_map; use assms(5,9) dst' in \<open>simp add: ch_def\<close>)
  also have "map (output_convert sty) (take (n * ch) dst') = src"
    using assms(4,5) unfolding dst' ch_def
    by (auto simp: list_all_iff convert_normalized intro!: map_idI)
  finally show ?thesis using sel fsel mix assms(5,9) unfolding a_def by (auto simp: ch_def)
qed

lemma unity_mix_is_bit_exact_witness:
  "\<exists>mixer formatter dst'. mixer_mix mixer \<lparr>ma_dst_frames = 2, ma_src = [7, -7, 32767, -32768],
       ma_frac_src_frames = 2 * FRAC_ONE, ma_frac_step_size = FRAC_ONE, ma_amplitude_scale = kUnityScale\<rparr>
       False [1, 1, 1, 1] 0 0 = Some (mixer, dst', 2, int (2 * FRAC_ONE), True) \<and>
    produce_output formatter dst' [0, 0, 0, 0] 2 = Some [7, -7, 32767, -32768]"
  using unity_mix_is_bit_exact [of "\<lparr>sample_format = SF_SIGNED_16, channels = 2, frames_per_second = 48000\<rparr>"
      INT16 "[7, -7, 32767, -32768]" 2 "[1, 1, 1, 1]" "[0, 0, 0, 0]"]
  by (simp add: in_i16_def) blast

end
