(* ===== verification/Serialization.thy ===== *)
theory Serialization
  imports Media_Prelude
begin

text \<open>
  The network serialization of \<open>src/net_media_service/serialization.{h,cc}\<close>. A
  \<open>Serializer\<close> is the list of the bytes written so far, a \<open>Deserializer\<close> a record of its
  three fields. Integers travel in big-endian order.

  Two operations of the \<open>Deserializer\<close> read into a local variable that has no initial value
  (\<open>bool present\<close>, \<open>size_t size\<close>); when the message ends there, the code goes on with an
  indeterminate value. The model takes these values from the parameter \<open>junk\<close>, and every
  theorem holds for all of them. A byte other than 0 and 1 copied into a \<open>bool\<close> is undefined
  behaviour, the value \<^term>\<open>None\<close>.

  The locale \<open>codec\<close> states what a pair of \<open>operator<<\<close> and \<open>operator>>\<close> promises; it is
  interpreted for each of the types, and the message types are put together from it.
\<close>

section \<open>Bytes of an integer\<close>

fun be_bytes :: "nat \<Rightarrow> nat \<Rightarrow> u8 list" where
  "be_bytes 0 v = []"
| "be_bytes (Suc n) v = of_nat (v div 256 ^ n) # be_bytes n (v mod 256 ^ n)"

fun be_value :: "u8 list \<Rightarrow> nat" where
  "be_value [] = 0"
| "be_value (b # bs) = unat b * 256 ^ length bs + be_value bs"

text \<open>The two's complement reading and writing of a signed integer of \<open>n\<close> bytes.\<close>

definition to_unsigned :: "nat \<Rightarrow> int \<Rightarrow> nat" where
  "to_unsigned n v = nat (v mod 256 ^ n)"

definition to_signed :: "nat \<Rightarrow> nat \<Rightarrow> int" where
  "to_signed n v = (if 2 * v < 256 ^ n then int v else int v - 256 ^ n)"

section \<open>Serializer\<close>

type_synonym serializer = "u8 list"

definition put_bytes :: "u8 list \<Rightarrow> serializer \<Rightarrow> serializer" where
  "put_bytes source ser = ser @ source"

definition put_bool :: "bool \<Rightarrow> serializer \<Rightarrow> serializer option" where
  "put_bool v ser = Some (put_bytes [if v then 1 else 0] ser)"

definition put_u8 :: "u8 \<Rightarrow> serializer \<Rightarrow> serializer option" where
  "put_u8 v ser = Some (put_bytes [v] ser)"

definition put_u16 :: "u16 \<Rightarrow> serializer \<Rightarrow> serializer option" where
  "put_u16 v ser = Some (put_bytes (be_bytes 2 (unat v)) ser)"

definition put_u32 :: "u32 \<Rightarrow> serializer \<Rightarrow> serializer option" where
  "put_u32 v ser = Some (put_bytes (be_bytes 4 (unat v)) ser)"

definition put_u64 :: "u64 \<Rightarrow> serializer \<Rightarrow> serializer option" where
  "put_u64 v ser = Some (put_bytes (be_bytes 8 (unat v)) ser)"

definition put_i8 :: "int \<Rightarrow> serializer \<Rightarrow> serializer option" where
  "put_i8 v ser = Some (put_bytes (be_bytes 1 (to_unsigned 1 v)) ser)"

definition put_i16 :: "int \<Rightarrow> serializer \<Rightarrow> serializer option" where
  "put_i16 v ser = Some (put_bytes (be_bytes 2 (to_unsigned 2 v)) ser)"

definition put_i32 :: "int \<Rightarrow> serializer \<Rightarrow> serializer option" where
  "put_i32 v ser = Some (put_bytes (be_bytes 4 (to_unsigned 4 v)) ser)"

definition put_i64 :: "int \<Rightarrow> serializer \<Rightarrow> serializer option" where
  "put_i64 v ser = Some (put_bytes (be_bytes 8 (to_unsigned 8 v)) ser)"

text \<open>A string is its size, a \<open>size_t\<close>, and its bytes.\<close>

definition put_string :: "u8 list \<Rightarrow> serializer \<Rightarrow> serializer option" where
  "put_string v ser = do {
     ser \<leftarrow> put_u64 (of_nat (length v)) ser;
     Some (put_bytes v ser)
   }"

text \<open>\<open>Optional(t)\<close> for a pointer or a nullable string, null being \<^term>\<open>None\<close>.\<close>

definition put_optional ::
    "('a option \<Rightarrow> serializer \<Rightarrow> serializer option) \<Rightarrow> 'a option \<Rightarrow> serializer \<Rightarrow> serializer option" where
  "put_optional put t ser =
    (if t \<noteq> None then do {
       ser \<leftarrow> put_bool True ser;
       put t ser
     } else put_bool False ser)"

text \<open>\<open>Serializer::Serialize\<close>.\<close>

definition serialize :: "('a \<Rightarrow> serializer \<Rightarrow> serializer option) \<Rightarrow> 'a \<Rightarrow> u8 list option" where
  "serialize put t = put t []"

section \<open>Deserializer\<close>

record deserializer =
  healthy :: bool
  serial_message :: "u8 list"
  bytes_consumed :: nat

record junk =
  junk_bool :: bool
  junk_size :: u64

definition new_deserializer :: "u8 list \<Rightarrow> deserializer" where
  "new_deserializer message = \<lparr>healthy = True, serial_message = message, bytes_consumed = 0\<rparr>"

definition mark_unhealthy :: "deserializer \<Rightarrow> deserializer" where
  "mark_unhealthy d = d\<lparr>healthy := False\<rparr>"

definition complete :: "deserializer \<Rightarrow> bool" where
  "complete d \<longleftrightarrow> healthy d \<and> bytes_consumed d = length (serial_message d)"

text \<open>\<open>Bytes\<close> returns a pointer into the message, here the bytes it points to; null is
  \<^term>\<open>None\<close>.\<close>

definition bytes :: "nat \<Rightarrow> deserializer \<Rightarrow> u8 list option \<times> deserializer" where
  "bytes count d =
    (if \<not> healthy d \<or> length (serial_message d) - bytes_consumed d < count
     then (None, d\<lparr>healthy := False\<rparr>)
     else (Some (take count (drop (bytes_consumed d) (serial_message d))),
           d\<lparr>bytes_consumed := bytes_consumed d + count\<rparr>))"

text \<open>\<open>GetBytes(count, dest)\<close>: the new contents of \<open>dest\<close>, unchanged on failure.\<close>

definition get_bytes :: "nat \<Rightarrow> u8 list \<Rightarrow> deserializer \<Rightarrow> u8 list \<times> deserializer" where
  "get_bytes count dest d =
    (case bytes count d of
       (None, d) \<Rightarrow> (dest, d)
     | (Some bs, d) \<Rightarrow> (bs, d))"

text \<open>The initial value of the variable that is read into is an argument of these; it is 0 for
  the fields of the messages.\<close>

definition get_bool :: "bool \<Rightarrow> deserializer \<Rightarrow> (bool \<times> deserializer) option" where
  "get_bool init d =
    (case get_bytes 1 [if init then 1 else 0] d of
       (bs, d) \<Rightarrow> if bs = [0] then Some (False, d) else if bs = [1] then Some (True, d) else None)"

definition get_u8 :: "u8 \<Rightarrow> deserializer \<Rightarrow> (u8 \<times> deserializer) option" where
  "get_u8 init d = (case get_bytes 1 [init] d of (bs, d) \<Rightarrow> Some (of_nat (be_value bs), d))"

definition get_u16 :: "u16 \<Rightarrow> deserializer \<Rightarrow> (u16 \<times> deserializer) option" where
  "get_u16 init d = (case get_bytes 2 (be_bytes 2 (unat init)) d of (bs, d) \<Rightarrow> Some (of_nat (be_value bs), d))"

definition get_u32 :: "u32 \<Rightarrow> deserializer \<Rightarrow> (u32 \<times> deserializer) option" where
  "get_u32 init d = (case get_bytes 4 (be_bytes 4 (unat init)) d of (bs, d) \<Rightarrow> Some (of_nat (be_value bs), d))"

definition get_u64 :: "u64 \<Rightarrow> deserializer \<Rightarrow> (u64 \<times> deserializer) option" where
  "get_u64 init d = (case get_bytes 8 (be_bytes 8 (unat init)) d of (bs, d) \<Rightarrow> Some (of_nat (be_value bs), d))"

definition get_i8 :: "int \<Rightarrow> deserializer \<Rightarrow> (int \<times> deserializer) option" where
  "get_i8 init d =
    (case get_bytes 1 (be_bytes 1 (to_unsigned 1 init)) d of (bs, d) \<Rightarrow> Some (to_signed 1 (be_value bs), d))"

definition get_i16 :: "int \<Rightarrow> deserializer \<Rightarrow> (int \<times> deserializer) option" where
  "get_i16 init d =
    (case get_bytes 2 (be_bytes 2 (to_unsigned 2 init)) d of (bs, d) \<Rightarrow> Some (to_signed 2 (be_value bs), d))"

definition get_i32 :: "int \<Rightarrow> deserializer \<Rightarrow> (int \<times> deserializer) option" where
  "get_i32 init d =
    (case get_bytes 4 (be_bytes 4 (to_unsigned 4 init)) d of (bs, d) \<Rightarrow> Some (to_signed 4 (be_value bs), d))"

definition get_i64 :: "int \<Rightarrow> deserializer \<Rightarrow> (int \<times> deserializer) option" where
  "get_i64 init d =
    (case get_bytes 8 (be_bytes 8 (to_unsigned 8 init)) d of (bs, d) \<Rightarrow> Some (to_signed 8 (be_value bs), d))"

definition get_string :: "junk \<Rightarrow> deserializer \<Rightarrow> (u8 list \<times> deserializer) option" where
  "get_string junk d = do {
     (size, d) \<leftarrow> get_u64 (junk_size junk) d;
     (case bytes (unat size) d of
        (None, d) \<Rightarrow> Some ([], d)
      | (Some bs, d) \<Rightarrow> Some (bs, d))
   }"

definition get_optional ::
    "junk \<Rightarrow> (deserializer \<Rightarrow> ('a option \<times> deserializer) option)
     \<Rightarrow> deserializer \<Rightarrow> ('a option \<times> deserializer) option" where
  "get_optional junk get d = do {
     (present, d) \<leftarrow> get_bool (junk_bool junk) d;
     if present then get d else Some (None, d)
   }"

section \<open>Lemmas on bytes\<close>

lemma length_be_bytes [simp]: "length (be_bytes n v) = n"
  by (induction n v rule: be_bytes.induct) simp_all

lemma be_value_bound: "be_value bs < 256 ^ length bs"
proof (induction bs)
  case (Cons b bs)
  have "unat b + 1 \<le> 256" using unsigned_less[of b, where ?'a = nat] by simp
  then have "(unat b + 1) * 256 ^ length bs \<le> 256 * 256 ^ length bs" by (rule mult_le_mono1)
  then have "unat b * 256 ^ length bs + 256 ^ length bs \<le> 256 ^ length (b # bs)"
    by (simp add: add_mult_distrib)
  then show ?case using Cons unfolding be_value.simps by linarith
qed simp

lemma be_value_bytes: "v < 256 ^ n \<Longrightarrow> be_value (be_bytes n v) = v"
proof (induction n v rule: be_bytes.induct)
  case (2 n v)
  have "v div 256 ^ n < 256" using 2(2) by (simp add: less_mult_imp_div_less mult.commute)
  then have "unat (of_nat (v div 256 ^ n) :: u8) = v div 256 ^ n" by (intro unat_of_nat_small) simp
  then show ?case using 2 by (simp add: div_mult_mod_eq)
qed simp

lemma be_bytes_value: "be_bytes (length bs) (be_value bs) = bs"
proof (induction bs)
  case (Cons b bs)
  have "(unat b * 256 ^ length bs + be_value bs) div 256 ^ length bs = unat b"
    using be_value_bound[of bs] by simp
  moreover have "(unat b * 256 ^ length bs + be_value bs) mod 256 ^ length bs = be_value bs"
    using be_value_bound[of bs] by simp
  ultimately show ?case using Cons by simp
qed simp

lemma unat_of_be_value:
  assumes "256 ^ length bs \<le> (2 :: nat) ^ LENGTH('a)"
  shows "unat (of_nat (be_value bs) :: 'a::len word) = be_value bs"
  using be_value_bound[of bs] assms by (intro unat_of_nat_small) linarith

definition in_signed :: "nat \<Rightarrow> int \<Rightarrow> bool" where
  "in_signed n v \<longleftrightarrow> - (256 ^ n) \<le> 2 * v \<and> 2 * v < 256 ^ n"

lemma to_unsigned_bound: "to_unsigned n v < 256 ^ n"
proof -
  have "v mod 256 ^ n < 256 ^ n" by simp
  then show ?thesis unfolding to_unsigned_def by (simp add: nat_less_iff)
qed

lemma to_signed_unsigned:
  assumes "in_signed n v"
  shows "to_signed n (to_unsigned n v) = v"
proof (cases "0 \<le> v")
  case True
  then have "v mod 256 ^ n = v" using assms by (intro mod_pos_pos_trivial) (auto simp: in_signed_def)
  then have "to_unsigned n v = nat v" by (simp add: to_unsigned_def)
  moreover have "2 * nat v < 256 ^ n"
    using assms True unfolding in_signed_def of_nat_less_iff [where 'a = int, symmetric] by simp
  ultimately show ?thesis using True by (simp add: to_signed_def)
next
  case False
  have b: "- (256 ^ n) \<le> 2 * v" "v < 0" using assms False by (simp_all add: in_signed_def)
  have "v mod 256 ^ n = (v + 256 ^ n) mod 256 ^ n" by simp
  also have "\<dots> = v + 256 ^ n" using b by (intro mod_pos_pos_trivial) auto
  finally have u: "int (to_unsigned n v) = v + 256 ^ n" using b by (simp add: to_unsigned_def)
  then have "\<not> 2 * to_unsigned n v < 256 ^ n"
    using b unfolding of_nat_less_iff [where 'a = int, symmetric] by simp
  then show ?thesis using u by (simp add: to_signed_def)
qed

lemma to_unsigned_signed:
  assumes "v < 256 ^ n"
  shows "to_unsigned n (to_signed n v) = v"
proof -
  have "int v < 256 ^ n" using assms unfolding of_nat_less_iff [where 'a = int, symmetric] by simp
  moreover have "(int v - 256 ^ n) mod 256 ^ n = int v mod 256 ^ n" by simp
  ultimately have "to_signed n v mod 256 ^ n = int v" by (simp add: to_signed_def)
  then show ?thesis by (simp add: to_unsigned_def)
qed

lemma in_signed_to_signed:
  assumes "v < 256 ^ n"
  shows "in_signed n (to_signed n v)"
proof -
  have i: "int v < 256 ^ n" using assms unfolding of_nat_less_iff [where 'a = int, symmetric] by simp
  have j: "2 * v < 256 ^ n \<longleftrightarrow> 2 * int v < 256 ^ n"
    unfolding of_nat_less_iff [where 'a = int, symmetric] by simp
  show ?thesis
  proof (cases "2 * int v < 256 ^ n")
    case True
    then have "to_signed n v = int v" by (simp only: to_signed_def j if_True)
    then show ?thesis using True i unfolding in_signed_def by linarith
  next
    case False
    then have "to_signed n v = int v - 256 ^ n" by (simp only: to_signed_def j if_False)
    then show ?thesis using False i unfolding in_signed_def by linarith
  qed
qed

lemma in_signed_8: "in_signed 8 v \<longleftrightarrow> in_i64 v"
  by (auto simp: in_signed_def in_i64_def)

section \<open>The interface of a pair of stream operators\<close>

definition remaining :: "deserializer \<Rightarrow> u8 list" where
  "remaining d = drop (bytes_consumed d) (serial_message d)"

definition wf_deser :: "deserializer \<Rightarrow> bool" where
  "wf_deser d \<longleftrightarrow> bytes_consumed d \<le> length (serial_message d)"

definition consume :: "nat \<Rightarrow> deserializer \<Rightarrow> deserializer" where
  "consume n d = d\<lparr>bytes_consumed := bytes_consumed d + n\<rparr>"

lemma consume_simps [simp]:
  "healthy (consume n d) = healthy d"
  "serial_message (consume n d) = serial_message d"
  "remaining (consume n d) = drop n (remaining d)"
  "consume n (consume m d) = consume (m + n) d"
  by (simp_all add: consume_def remaining_def add.commute)

lemma wf_consume: "wf_deser d \<Longrightarrow> n \<le> length (remaining d) \<Longrightarrow> wf_deser (consume n d)"
  by (auto simp: wf_deser_def consume_def remaining_def)

lemma complete_iff: "wf_deser d \<Longrightarrow> complete d \<longleftrightarrow> healthy d \<and> remaining d = []"
  by (auto simp: wf_deser_def complete_def remaining_def)

lemma bytes_result:
  "bytes n d = (if healthy d \<and> n \<le> length (remaining d) then (Some (take n (remaining d)), consume n d)
                else (None, mark_unhealthy d))"
  by (auto simp: bytes_def remaining_def consume_def mark_unhealthy_def)

lemma unhealthy_mark [simp]: "\<not> healthy (mark_unhealthy d)"
  by (simp add: mark_unhealthy_def)

lemma wf_new_deserializer [simp]: "wf_deser (new_deserializer bs)"
  by (simp add: wf_deser_def new_deserializer_def)

lemma remaining_new [simp]: "remaining (new_deserializer bs) = bs" "healthy (new_deserializer bs)"
  by (simp_all add: remaining_def new_deserializer_def)

lemma complete_consume:
  "healthy d \<Longrightarrow> wf_deser d \<Longrightarrow> remaining d = bs \<Longrightarrow> complete (consume (length bs) d)"
  by (subst complete_iff) (auto intro: wf_consume)

text \<open>
  What the operators of one type promise: \<open>put\<close> appends the encoding; \<open>get\<close> takes exactly an
  encoding off the front of what remains, or marks the deserializer unhealthy and stays where
  it is (or ahead); once unhealthy it stays so. \<open>get_sound\<close>: whatever \<open>get\<close> accepts is the
  encoding of what it returns.
\<close>

locale codec =
  fixes put :: "'a \<Rightarrow> serializer \<Rightarrow> serializer option"
    and get :: "deserializer \<Rightarrow> ('a \<times> deserializer) option"
    and enc :: "'a \<Rightarrow> u8 list"
    and ok :: "'a \<Rightarrow> bool"
  assumes put_enc: "ok x \<Longrightarrow> put x ser = Some (ser @ enc x)"
    and get_enc: "ok x \<Longrightarrow> healthy d \<Longrightarrow> remaining d = enc x @ rest \<Longrightarrow>
      get d = Some (x, consume (length (enc x)) d)"
    and get_sound: "get d = Some (x, d') \<Longrightarrow> healthy d' \<Longrightarrow>
      ok x \<and> healthy d \<and> (\<exists>rest. remaining d = enc x @ rest) \<and> d' = consume (length (enc x)) d"
begin

lemma deserialize_serialized:
  assumes "ok x" "serialize put x = Some bs"
  shows "get (new_deserializer bs) = Some (x, consume (length bs) (new_deserializer bs))"
    and "complete (consume (length bs) (new_deserializer bs))"
proof -
  have "bs = enc x" using assms put_enc[of x "[]"] by (simp add: serialize_def)
  then show "get (new_deserializer bs) = Some (x, consume (length bs) (new_deserializer bs))"
    using get_enc[OF assms(1), of "new_deserializer bs" "[]"] by simp
  show "complete (consume (length bs) (new_deserializer bs))" by (rule complete_consume) simp_all
qed

lemma serialized: "ok x \<Longrightarrow> serialize put x = Some (enc x)"
  using put_enc[of x "[]"] by (simp add: serialize_def)

lemma accepts_exactly:
  "(\<exists>d. get (new_deserializer bs) = Some (x, d) \<and> complete d) \<longleftrightarrow> ok x \<and> serialize put x = Some bs"
proof
  assume "\<exists>d. get (new_deserializer bs) = Some (x, d) \<and> complete d"
  then obtain d where d: "get (new_deserializer bs) = Some (x, d)" "complete d" by blast
  have "healthy d" using d(2) by (simp add: complete_def)
  from get_sound[OF d(1) this] obtain rest where
    s: "ok x" "bs = enc x @ rest" "d = consume (length (enc x)) (new_deserializer bs)" by auto
  have "wf_deser d" unfolding s(3) by (rule wf_consume) (simp_all add: s(2))
  then have "rest = []" using d(2) s by (simp add: complete_iff)
  then show "ok x \<and> serialize put x = Some bs" using s serialized by simp
next
  assume "ok x \<and> serialize put x = Some bs"
  then show "\<exists>d. get (new_deserializer bs) = Some (x, d) \<and> complete d"
    using deserialize_serialized by blast
qed

lemma get_put:
  assumes "ok x" "put x [] = Some bs"
  shows "get (new_deserializer (bs @ rest)) = Some (x, consume (length bs) (new_deserializer (bs @ rest)))"
  using assms put_enc[of x "[]"] by (simp add: get_enc new_deserializer_def remaining_def)

lemma get_truncated:
  assumes "ok x" "k < length (enc x)" "remaining d = take k (enc x)" "get d = Some (y, d')"
    and "\<And>y rest. ok y \<Longrightarrow> enc x = enc y @ rest \<Longrightarrow> rest = []"
  shows "\<not> healthy d'"
proof
  assume "healthy d'"
  from get_sound[OF assms(4) this] obtain rest where y: "ok y" "take k (enc x) = enc y @ rest"
    using assms(3) by auto
  then have "enc x = enc y @ (rest @ drop k (enc x))" by (metis append_assoc append_take_drop_id)
  from assms(5)[OF y(1) this] show False using assms(2) by simp
qed

end

section \<open>The codecs of the basic types\<close>

lemma get_bytes_result:
  "get_bytes n dest d = (if healthy d \<and> n \<le> length (remaining d) then (take n (remaining d), consume n d)
                         else (dest, mark_unhealthy d))"
  by (simp add: get_bytes_def bytes_result)

text \<open>A fixed-width codec from a round trip between values and \<open>n\<close> bytes.\<close>

lemma fixed_codec:
  assumes "\<And>x. ok x \<Longrightarrow> length (enc x) = n"
    and "\<And>x ser. ok x \<Longrightarrow> put x ser = Some (put_bytes (enc x) ser)"
    and "\<And>d. get d = (case get_bytes n ini d of (bs, d) \<Rightarrow> map_option (\<lambda>x. (x, d)) (dec bs))"
    and "\<And>x. ok x \<Longrightarrow> dec (enc x) = Some x"
    and "\<And>bs x. length bs = n \<Longrightarrow> dec bs = Some x \<Longrightarrow> ok x \<and> enc x = bs"
  shows "codec put get enc ok"
proof
  show "put x ser = Some (ser @ enc x)" if "ok x" for x ser
    using assms(2)[OF that] by (simp add: put_bytes_def)
  show "get d = Some (x, consume (length (enc x)) d)"
    if "ok x" "healthy d" "remaining d = enc x @ rest" for x d rest
    using assms(1)[OF that(1)] assms(4)[OF that(1)] that by (simp add: assms(3) get_bytes_result)
  show "ok x \<and> healthy d \<and> (\<exists>rest. remaining d = enc x @ rest) \<and> d' = consume (length (enc x)) d"
    if g: "get d = Some (x, d')" "healthy d'" for d x d'
  proof -
    have d: "healthy d" "n \<le> length (remaining d)" "dec (take n (remaining d)) = Some x" "d' = consume n d"
      using g by (auto simp: assms(3) get_bytes_result split: if_splits)
    then have "ok x \<and> enc x = take n (remaining d)" using assms(5)[of "take n (remaining d)" x] by simp
    then show ?thesis using d by (metis append_take_drop_id length_take min.absorb2)
  qed
qed

definition enc_word :: "nat \<Rightarrow> 'a::len word \<Rightarrow> u8 list" where
  "enc_word n v = be_bytes n (unat v)"

definition enc_signed :: "nat \<Rightarrow> int \<Rightarrow> u8 list" where
  "enc_signed n v = be_bytes n (to_unsigned n v)"

lemma word_codec:
  assumes "256 ^ n = (2 :: nat) ^ LENGTH('a)"
    and "\<And>v ser. put v ser = Some (put_bytes (be_bytes n (unat (v :: 'a::len word))) ser)"
    and "\<And>d. get d = (case get_bytes n ini d of (bs, d) \<Rightarrow> Some (of_nat (be_value bs), d))"
  shows "codec put get (enc_word n) (\<lambda>_. True)"
proof (rule fixed_codec[where ini = ini and dec = "\<lambda>bs. Some (of_nat (be_value bs))"])
  show "Some (of_nat (be_value (enc_word n x))) = Some x" for x :: "'a word"
  proof -
    have "unat x < 256 ^ n" using unsigned_less[of x, where ?'a = nat] assms(1) by simp
    then show ?thesis by (simp add: enc_word_def be_value_bytes)
  qed
  show "True \<and> enc_word n x = bs" if "length bs = n" "Some (of_nat (be_value bs)) = Some x"
    for bs and x :: "'a word"
  proof -
    have "unat x = be_value bs" using that assms(1) unat_of_be_value[where 'a = 'a, of bs] by auto
    then show ?thesis using that(1) be_bytes_value[of bs] by (simp add: enc_word_def)
  qed
qed (simp_all add: assms enc_word_def)

lemma signed_codec:
  assumes "\<And>v ser. put v ser = Some (put_bytes (be_bytes n (to_unsigned n v)) ser)"
    and "\<And>d. get d = (case get_bytes n ini d of (bs, d) \<Rightarrow> Some (to_signed n (be_value bs), d))"
  shows "codec put get (enc_signed n) (in_signed n)"
proof (rule fixed_codec[where ini = ini and dec = "\<lambda>bs. Some (to_signed n (be_value bs))"])
  show "Some (to_signed n (be_value (enc_signed n x))) = Some x" if "in_signed n x" for x
    using that by (simp add: enc_signed_def be_value_bytes to_unsigned_bound to_signed_unsigned)
  show "in_signed n x \<and> enc_signed n x = bs" if "length bs = n" "Some (to_signed n (be_value bs)) = Some x"
    for bs x
    using that be_value_bound[of bs] be_bytes_value[of bs] in_signed_to_signed[of "be_value bs" n]
    by (auto simp: enc_signed_def to_unsigned_signed)
qed (simp_all add: assms enc_signed_def)

interpretation u16: codec put_u16 "get_u16 i" "enc_word 2" "\<lambda>_. True" for i
  by (rule word_codec) (simp_all add: put_u16_def get_u16_def)

interpretation u32: codec put_u32 "get_u32 i" "enc_word 4" "\<lambda>_. True" for i
  by (rule word_codec) (simp_all add: put_u32_def get_u32_def)

interpretation u64: codec put_u64 "get_u64 i" "enc_word 8" "\<lambda>_. True" for i
  by (rule word_codec) (simp_all add: put_u64_def get_u64_def)

interpretation i8: codec put_i8 "get_i8 i" "enc_signed 1" "in_signed 1" for i
  by (rule signed_codec) (simp_all add: put_i8_def get_i8_def)

interpretation i16: codec put_i16 "get_i16 i" "enc_signed 2" "in_signed 2" for i
  by (rule signed_codec) (simp_all add: put_i16_def get_i16_def)

interpretation i32: codec put_i32 "get_i32 i" "enc_signed 4" "in_signed 4" for i
  by (rule signed_codec) (simp_all add: put_i32_def get_i32_def)

interpretation i64: codec put_i64 "get_i64 i" "enc_signed 8" "in_signed 8" for i
  by (rule signed_codec) (simp_all add: put_i64_def get_i64_def)

definition enc_bool :: "bool \<Rightarrow> u8 list" where
  "enc_bool b = [if b then 1 else 0]"

definition enc_u8 :: "u8 \<Rightarrow> u8 list" where
  "enc_u8 v = [v]"

interpretation u8: codec put_u8 "get_u8 i" enc_u8 "\<lambda>_. True" for i
  by (rule fixed_codec[where n = 1 and ini = "[i]" and dec = "\<lambda>bs. Some (of_nat (be_value bs))"])
    (auto simp: enc_u8_def put_u8_def get_u8_def length_Suc_conv)

interpretation bool: codec put_bool "get_bool i" enc_bool "\<lambda>_. True" for i
  by (rule fixed_codec[where n = 1 and ini = "[if i then 1 else 0]"
        and dec = "\<lambda>bs. if bs = [0] then Some False else if bs = [1] then Some True else None"])
    (auto simp: enc_bool_def put_bool_def get_bool_def split: prod.split if_splits)

section \<open>Composed codecs\<close>

definition put_pair ::
    "('a \<Rightarrow> serializer \<Rightarrow> serializer option) \<Rightarrow> ('b \<Rightarrow> serializer \<Rightarrow> serializer option)
     \<Rightarrow> 'a \<times> 'b \<Rightarrow> serializer \<Rightarrow> serializer option" where
  "put_pair p q xy ser = do { ser \<leftarrow> p (fst xy) ser; q (snd xy) ser }"

definition get_pair ::
    "(deserializer \<Rightarrow> ('a \<times> deserializer) option) \<Rightarrow> (deserializer \<Rightarrow> ('b \<times> deserializer) option)
     \<Rightarrow> deserializer \<Rightarrow> (('a \<times> 'b) \<times> deserializer) option" where
  "get_pair g h d = do { (x, d) \<leftarrow> g d; (y, d) \<leftarrow> h d; Some ((x, y), d) }"

lemma codec_pair:
  assumes p: "codec p g e okp" and q: "codec q h f okq"
  shows "codec (put_pair p q) (get_pair g h) (\<lambda>xy. e (fst xy) @ f (snd xy)) (\<lambda>xy. okp (fst xy) \<and> okq (snd xy))"
proof
  fix xy ser assume "okp (fst xy) \<and> okq (snd xy)"
  then show "put_pair p q xy ser = Some (ser @ e (fst xy) @ f (snd xy))"
    by (simp add: put_pair_def codec.put_enc[OF p] codec.put_enc[OF q])
next
  fix xy d rest
  assume ok: "okp (fst xy) \<and> okq (snd xy)" and d: "healthy d" "remaining d = (e (fst xy) @ f (snd xy)) @ rest"
  have "g d = Some (fst xy, consume (length (e (fst xy))) d)"
    using codec.get_enc[OF p, of "fst xy" d "f (snd xy) @ rest"] ok d by simp
  moreover have "h (consume (length (e (fst xy))) d) = Some (snd xy, consume (length (e (fst xy) @ f (snd xy))) d)"
    using codec.get_enc[OF q, of "snd xy" "consume (length (e (fst xy))) d" rest] ok d by simp
  ultimately show "get_pair g h d = Some (xy, consume (length (e (fst xy) @ f (snd xy))) d)"
    by (simp add: get_pair_def)
next
  fix d xy d'
  assume g: "get_pair g h d = Some (xy, d')" and h: "healthy d'"
  then obtain d1 where d1: "g d = Some (fst xy, d1)" "h d1 = Some (snd xy, d')"
    by (auto simp: get_pair_def bind_Some_iff)
  note s2 = codec.get_sound[OF q d1(2) h]
  note s1 = codec.get_sound[OF p d1(1) s2[THEN conjunct2, THEN conjunct1]]
  then show "(okp (fst xy) \<and> okq (snd xy)) \<and> healthy d \<and>
      (\<exists>rest. remaining d = (e (fst xy) @ f (snd xy)) @ rest) \<and>
      d' = consume (length (e (fst xy) @ f (snd xy))) d"
    using s2 by auto
qed

text \<open>A tag and what follows it: the codec of the rest depends on the tag.\<close>

lemma codec_tagged:
  assumes p: "codec p g e okp" and q: "\<And>t. codec (q t) (h t) (f t) (okq t)"
    and tag: "\<And>t m. okq t m \<Longrightarrow> tag m = t"
  shows "codec (\<lambda>m ser. do { ser \<leftarrow> p (tag m) ser; q (tag m) m ser })
               (\<lambda>d. do { (t, d) \<leftarrow> g d; h t d })
               (\<lambda>m. e (tag m) @ f (tag m) m) (\<lambda>m. okp (tag m) \<and> okq (tag m) m)"
proof
  fix m ser assume "okp (tag m) \<and> okq (tag m) m"
  then show "do { ser \<leftarrow> p (tag m) ser; q (tag m) m ser } = Some (ser @ e (tag m) @ f (tag m) m)"
    by (simp add: codec.put_enc[OF p] codec.put_enc[OF q])
next
  fix m d rest
  assume ok: "okp (tag m) \<and> okq (tag m) m"
    and d: "healthy d" "remaining d = (e (tag m) @ f (tag m) m) @ rest"
  have "g d = Some (tag m, consume (length (e (tag m))) d)"
    using codec.get_enc[OF p, of "tag m" d "f (tag m) m @ rest"] ok d by simp
  moreover have "h (tag m) (consume (length (e (tag m))) d) =
      Some (m, consume (length (e (tag m) @ f (tag m) m)) d)"
    using codec.get_enc[OF q, of "tag m" m "consume (length (e (tag m))) d" rest] ok d by simp
  ultimately show "do { (t, d) \<leftarrow> g d; h t d } = Some (m, consume (length (e (tag m) @ f (tag m) m)) d)"
    by simp
next
  fix d m d' assume g: "do { (t, d) \<leftarrow> g d; h t d } = Some (m, d')" and h: "healthy d'"
  then obtain t d1 where d1: "g d = Some (t, d1)" "h t d1 = Some (m, d')"
    by (auto simp: bind_Some_iff)
  note s2 = codec.get_sound[OF q d1(2) h]
  note s1 = codec.get_sound[OF p d1(1) s2[THEN conjunct2, THEN conjunct1]]
  have "tag m = t" using s2 tag by blast
  then show "(okp (tag m) \<and> okq (tag m) m) \<and> healthy d \<and>
      (\<exists>rest. remaining d = (e (tag m) @ f (tag m) m) @ rest) \<and>
      d' = consume (length (e (tag m) @ f (tag m) m)) d"
    using s1 s2 by auto
qed

text \<open>A codec read into, and written from, one field of a structure; nothing at all; and a tag
  that is not known.\<close>

lemma codec_field:
  assumes c: "codec p g e okp" and "\<And>x. sel (mk x) = x"
  shows "codec (\<lambda>m. p (sel m)) (\<lambda>d. do { (x, d) \<leftarrow> g d; Some (mk x, d) })
    (\<lambda>m. e (sel m)) (\<lambda>m. okp (sel m) \<and> m = mk (sel m))"
proof
  fix m ser assume "okp (sel m) \<and> m = mk (sel m)"
  then show "p (sel m) ser = Some (ser @ e (sel m))" by (simp add: codec.put_enc[OF c])
next
  fix m d rest assume "okp (sel m) \<and> m = mk (sel m)" "healthy d" "remaining d = e (sel m) @ rest"
  then show "do { (x, d) \<leftarrow> g d; Some (mk x, d) } = Some (m, consume (length (e (sel m))) d)"
    using codec.get_enc[OF c, of "sel m" d rest] by simp
next
  fix d m d' assume "do { (x, d) \<leftarrow> g d; Some (mk x, d) } = Some (m, d')" "healthy d'"
  then obtain x where "g d = Some (x, d')" "m = mk x" by (auto simp: bind_Some_iff)
  then show "(okp (sel m) \<and> m = mk (sel m)) \<and> healthy d \<and> (\<exists>rest. remaining d = e (sel m) @ rest) \<and>
      d' = consume (length (e (sel m))) d"
    using codec.get_sound[OF c _ \<open>healthy d'\<close>, of d x] assms(2) by simp
qed

lemma codec_nothing: "codec (\<lambda>m ser. Some ser) (\<lambda>d. Some (v, d)) (\<lambda>m. []) (\<lambda>m. m = v)"
  by unfold_locales (auto simp: consume_def)

lemma codec_unknown: "codec p (\<lambda>d. Some (v, mark_unhealthy d)) e (\<lambda>m. False)"
  by unfold_locales auto

text \<open>A structure behind a pointer: the fields in order, and the pointer reset when the
  deserializer is no longer healthy. \<open>parts\<close> and \<open>mk\<close> convert between the structure and
  the tuple of its fields.\<close>

definition ptr_enc :: "('t \<Rightarrow> u8 list) \<Rightarrow> ('s \<Rightarrow> 't) \<Rightarrow> 's option \<Rightarrow> u8 list" where
  "ptr_enc enc parts s = (case s of None \<Rightarrow> [] | Some v \<Rightarrow> enc (parts v))"

definition ptr_ok :: "('t \<Rightarrow> bool) \<Rightarrow> ('s \<Rightarrow> 't) \<Rightarrow> 's option \<Rightarrow> bool" where
  "ptr_ok ok parts s = (case s of None \<Rightarrow> False | Some v \<Rightarrow> ok (parts v))"

lemma ptr_simps [simp]:
  "ptr_enc enc parts (Some v) = enc (parts v)"
  "ptr_ok ok parts (Some v) = ok (parts v)"
  "ptr_ok ok parts None = False"
  by (simp_all add: ptr_enc_def ptr_ok_def)

lemma codec_ptr:
  assumes c: "codec p g e okp"
    and puts: "\<And>v ser. put (Some v) ser = p (parts v) ser"
    and gets: "\<And>d. get d = do { (t, d) \<leftarrow> g d; Some (if healthy d then Some (mk t) else None, d) }"
    and inv: "\<And>v. mk (parts v) = v" "\<And>t. parts (mk t) = t"
  shows "codec put get (ptr_enc e parts) (ptr_ok okp parts)"
proof
  fix x ser assume "ptr_ok okp parts x"
  then show "put x ser = Some (ser @ ptr_enc e parts x)"
    by (cases x) (simp_all add: puts codec.put_enc[OF c])
next
  fix x d rest assume "ptr_ok okp parts x" "healthy d" "remaining d = ptr_enc e parts x @ rest"
  then show "get d = Some (x, consume (length (ptr_enc e parts x)) d)"
    by (cases x) (simp_all add: gets codec.get_enc[OF c] inv)
next
  fix d x d' assume g: "get d = Some (x, d')" and h: "healthy d'"
  then obtain t where "g d = Some (t, d')" "x = Some (mk t)"
    by (auto simp: gets bind_Some_iff)
  then show "ptr_ok okp parts x \<and> healthy d \<and> (\<exists>rest. remaining d = ptr_enc e parts x @ rest) \<and>
      d' = consume (length (ptr_enc e parts x)) d"
    using codec.get_sound[OF c _ h, of d t] by (simp add: inv)
qed

definition optional_enc :: "('a option \<Rightarrow> u8 list) \<Rightarrow> 'a option \<Rightarrow> u8 list" where
  "optional_enc enc x = enc_bool (x \<noteq> None) @ (if x = None then [] else enc x)"

lemma codec_optional:
  assumes c: "codec p g e okp" and "\<not> okp None"
  shows "codec (put_optional p) (get_optional junk g) (optional_enc e) (\<lambda>x. x = None \<or> okp x)"
proof
  fix x ser assume "x = None \<or> okp x"
  then show "put_optional p x ser = Some (ser @ optional_enc e x)"
    using assms(2) by (cases x) (auto simp: put_optional_def optional_enc_def bool.put_enc codec.put_enc[OF c])
next
  fix x d rest assume x: "x = None \<or> okp x" and d: "healthy d" "remaining d = optional_enc e x @ rest"
  have "get_bool (junk_bool junk) d = Some (x \<noteq> None, consume 1 d)"
    using bool.get_enc[of d "x \<noteq> None"] d by (simp add: optional_enc_def enc_bool_def)
  then show "get_optional junk g d = Some (x, consume (length (optional_enc e x)) d)"
    using x d codec.get_enc[OF c, of x "consume 1 d" rest]
    by (cases x) (auto simp: get_optional_def optional_enc_def enc_bool_def)
next
  fix d x d' assume g: "get_optional junk g d = Some (x, d')" and h: "healthy d'"
  then obtain b d1 where b: "get_bool (junk_bool junk) d = Some (b, d1)"
    "(if b then g d1 else Some (None, d1)) = Some (x, d')"
    by (auto simp: get_optional_def bind_Some_iff)
  show "(x = None \<or> okp x) \<and> healthy d \<and> (\<exists>rest. remaining d = optional_enc e x @ rest) \<and>
      d' = consume (length (optional_enc e x)) d"
  proof (cases b)
    case True
    then have s: "okp x" "healthy d1" "\<exists>rest. remaining d1 = e x @ rest" "d' = consume (length (e x)) d1"
      using codec.get_sound[OF c _ h, of d1 x] b(2) by simp_all
    then have "x \<noteq> None" using assms(2) by metis
    then show ?thesis using bool.get_sound[OF b(1) s(2)] s True by (auto simp: optional_enc_def)
  next
    case False
    then show ?thesis using bool.get_sound[OF b(1)] b(2) h by (auto simp: optional_enc_def)
  qed
qed

definition enc_string :: "u8 list \<Rightarrow> u8 list" where
  "enc_string v = enc_word 8 (of_nat (length v) :: u64) @ v"

definition size_ok :: "u8 list \<Rightarrow> bool" where
  "size_ok v \<longleftrightarrow> length v < 2 ^ 64"

lemma string_codec: "codec put_string (get_string junk) enc_string size_ok"
proof
  show "put_string x ser = Some (ser @ enc_string x)" for x ser
    by (simp add: put_string_def u64.put_enc put_bytes_def enc_string_def)
next
  fix x d rest assume x: "size_ok x" "healthy d" "remaining d = enc_string x @ rest"
  have l: "length (enc_word 8 (of_nat (length x) :: u64)) = 8" by (simp add: enc_word_def)
  have "get_u64 (junk_size junk) d = Some (of_nat (length x), consume 8 d)"
    using u64.get_enc[of d "of_nat (length x)" "x @ rest"] x(2,3) unfolding l by (simp add: enc_string_def)
  moreover have "unat (of_nat (length x) :: u64) = length x"
    using x(1) by (intro unat_of_nat_small) (simp add: size_ok_def)
  ultimately show "get_string junk d = Some (x, consume (length (enc_string x)) d)"
    using x(2,3) l by (simp add: get_string_def bytes_result enc_string_def add.commute)
next
  fix d x d' assume g: "get_string junk d = Some (x, d')" and h: "healthy d'"
  then obtain w d1 where w: "get_u64 (junk_size junk) d = Some (w, d1)"
    "(case bytes (unat w) d1 of (None, d) \<Rightarrow> Some ([], d) | (Some bs, d) \<Rightarrow> Some (bs, d)) = Some (x, d')"
    by (auto simp: get_string_def bind_Some_iff)
  then have b: "healthy d1" "unat w \<le> length (remaining d1)" "x = take (unat w) (remaining d1)"
    "d' = consume (unat w) d1"
    using h by (auto simp: bytes_result split: if_splits)
  then have "length x = unat w" by simp
  then have "of_nat (length x) = w" "size_ok x"
    using unsigned_less[of w, where ?'a = nat] by (simp_all add: size_ok_def)
  then show "size_ok x \<and> healthy d \<and> (\<exists>rest. remaining d = enc_string x @ rest) \<and>
      d' = consume (length (enc_string x)) d"
    using u64.get_sound[OF w(1) b(1)] b \<open>length x = unat w\<close>
    by (auto simp: enc_string_def) (metis append_take_drop_id)
qed

interpretation string: codec put_string "get_string junk" enc_string size_ok for junk
  by (rule string_codec)

end
