(* ===== verification/Net_Player_Messages.thy ===== *)
theory Net_Player_Messages
  imports Serialization Timeline_Function
begin

text \<open>
  The messages between a \<open>NetMediaPlayerNetProxy\<close> and a \<open>NetMediaPlayerNetStub\<close>
  (\<open>src/net_media_service/net_media_player_messages.{h,cc}\<close>): constructors, and the stream
  operators for each type. A \<open>std::unique_ptr\<close> or a nullable fidl pointer is an option, null
  being \<^term>\<open>None\<close>; a \<open>fidl::String\<close> is the option of its bytes. What \<open>size()\<close> is for a
  null \<open>fidl::String\<close> is up to the fidl library; serializing one is \<^term>\<open>None\<close> here.
\<close>

section \<open>Data\<close>

type_synonym fidl_string = "u8 list option"

record media_metadata =
  md_duration :: u64
  md_title :: fidl_string
  md_artist :: fidl_string
  md_album :: fidl_string
  md_publisher :: fidl_string
  md_genre :: fidl_string
  md_composer :: fidl_string

record problem =
  pr_type :: fidl_string
  pr_details :: fidl_string

record player_status =
  ps_timeline_transform :: "timeline_transform option"
  ps_end_of_stream :: bool
  ps_content_has_audio :: bool
  ps_content_has_video :: bool
  ps_audio_connected :: bool
  ps_video_connected :: bool
  ps_metadata :: "media_metadata option"
  ps_problem :: "problem option"

record time_check_request = rq_requestor_time :: int
record time_check_response =
  rs_requestor_time :: int
  rs_responder_time :: int
record set_url_request = su_url :: fidl_string
record seek_request = sk_position :: int
record status_notification = sn_status :: "player_status option"

text \<open>The message types are enums over \<open>uint8_t\<close>, which can hold any byte.\<close>

definition kTimeCheckRequest :: u8 where "kTimeCheckRequest = 0"
definition kSetUrlRequest :: u8 where "kSetUrlRequest = 1"
definition kPlayRequest :: u8 where "kPlayRequest = 2"
definition kPauseRequest :: u8 where "kPauseRequest = 3"
definition kSeekRequest :: u8 where "kSeekRequest = 4"
definition kTimeCheckResponse :: u8 where "kTimeCheckResponse = 0"
definition kStatusNotification :: u8 where "kStatusNotification = 1"

lemmas in_types = kTimeCheckRequest_def kSetUrlRequest_def kPlayRequest_def kPauseRequest_def kSeekRequest_def
lemmas out_types = kTimeCheckResponse_def kStatusNotification_def

record in_message =
  im_type :: u8
  im_time_check_request :: "time_check_request option"
  im_set_url_request :: "set_url_request option"
  im_seek_request :: "seek_request option"

record out_message =
  om_type :: u8
  om_time_check_response :: "time_check_response option"
  om_status_notification :: "status_notification option"

text \<open>\<open>std::make_unique\<close> of a message: type 0 and null pointers.\<close>

definition new_in_message :: in_message where
  "new_in_message = \<lparr>im_type = 0, im_time_check_request = None, im_set_url_request = None, im_seek_request = None\<rparr>"

definition new_out_message :: out_message where
  "new_out_message = \<lparr>om_type = 0, om_time_check_response = None, om_status_notification = None\<rparr>"

definition TimeCheckRequest :: "int \<Rightarrow> in_message" where
  "TimeCheckRequest requestor_time = new_in_message\<lparr>im_type := kTimeCheckRequest,
     im_time_check_request := Some \<lparr>rq_requestor_time = requestor_time\<rparr>\<rparr>"

definition SetUrlRequest :: "fidl_string \<Rightarrow> in_message" where
  "SetUrlRequest url = new_in_message\<lparr>im_type := kSetUrlRequest, im_set_url_request := Some \<lparr>su_url = url\<rparr>\<rparr>"

definition PlayRequest :: in_message where
  "PlayRequest = new_in_message\<lparr>im_type := kPlayRequest\<rparr>"

definition PauseRequest :: in_message where
  "PauseRequest = new_in_message\<lparr>im_type := kPauseRequest\<rparr>"

definition SeekRequest :: "int \<Rightarrow> in_message" where
  "SeekRequest position = new_in_message\<lparr>im_type := kSeekRequest,
     im_seek_request := Some \<lparr>sk_position = position\<rparr>\<rparr>"

definition TimeCheckResponse :: "int \<Rightarrow> int \<Rightarrow> out_message" where
  "TimeCheckResponse requestor_time responder_time = new_out_message\<lparr>om_type := kTimeCheckResponse,
     om_time_check_response := Some \<lparr>rs_requestor_time = requestor_time, rs_responder_time = responder_time\<rparr>\<rparr>"

definition StatusNotification :: "player_status option \<Rightarrow> out_message" where
  "StatusNotification status = new_out_message\<lparr>om_type := kStatusNotification,
     om_status_notification := Some \<lparr>sn_status = status\<rparr>\<rparr>"

section \<open>Writing\<close>

definition put_fidl_string :: "fidl_string \<Rightarrow> serializer \<Rightarrow> serializer option" where
  "put_fidl_string v ser = (case v of None \<Rightarrow> None | Some s \<Rightarrow> put_string s ser)"

definition put_time_check_request :: "time_check_request option \<Rightarrow> serializer \<Rightarrow> serializer option" where
  "put_time_check_request v ser =
    (case v of None \<Rightarrow> None | Some v \<Rightarrow> put_i64 (rq_requestor_time v) ser)"

definition put_time_check_response :: "time_check_response option \<Rightarrow> serializer \<Rightarrow> serializer option" where
  "put_time_check_response v ser =
    (case v of None \<Rightarrow> None | Some v \<Rightarrow> do {
       ser \<leftarrow> put_i64 (rs_requestor_time v) ser;
       put_i64 (rs_responder_time v) ser })"

definition put_set_url_request :: "set_url_request option \<Rightarrow> serializer \<Rightarrow> serializer option" where
  "put_set_url_request v ser = (case v of None \<Rightarrow> None | Some v \<Rightarrow> put_fidl_string (su_url v) ser)"

definition put_seek_request :: "seek_request option \<Rightarrow> serializer \<Rightarrow> serializer option" where
  "put_seek_request v ser = (case v of None \<Rightarrow> None | Some v \<Rightarrow> put_i64 (sk_position v) ser)"

definition put_transform :: "timeline_transform option \<Rightarrow> serializer \<Rightarrow> serializer option" where
  "put_transform v ser =
    (case v of None \<Rightarrow> None | Some v \<Rightarrow> do {
       ser \<leftarrow> put_i64 (tt_reference_time v) ser;
       ser \<leftarrow> put_i64 (tt_subject_time v) ser;
       ser \<leftarrow> put_u32 (tt_reference_delta v) ser;
       put_u32 (tt_subject_delta v) ser })"

definition put_metadata :: "media_metadata option \<Rightarrow> serializer \<Rightarrow> serializer option" where
  "put_metadata v ser =
    (case v of None \<Rightarrow> None | Some v \<Rightarrow> do {
       ser \<leftarrow> put_u64 (md_duration v) ser;
       ser \<leftarrow> put_optional put_fidl_string (md_title v) ser;
       ser \<leftarrow> put_optional put_fidl_string (md_artist v) ser;
       ser \<leftarrow> put_optional put_fidl_string (md_album v) ser;
       ser \<leftarrow> put_optional put_fidl_string (md_publisher v) ser;
       ser \<leftarrow> put_optional put_fidl_string (md_genre v) ser;
       put_optional put_fidl_string (md_composer v) ser })"

definition put_problem :: "problem option \<Rightarrow> serializer \<Rightarrow> serializer option" where
  "put_problem v ser =
    (case v of None \<Rightarrow> None | Some v \<Rightarrow> do {
       ser \<leftarrow> put_fidl_string (pr_type v) ser;
       put_optional put_fidl_string (pr_details v) ser })"

definition put_status :: "player_status option \<Rightarrow> serializer \<Rightarrow> serializer option" where
  "put_status v ser =
    (case v of None \<Rightarrow> None | Some v \<Rightarrow> do {
       ser \<leftarrow> put_optional put_transform (ps_timeline_transform v) ser;
       ser \<leftarrow> put_bool (ps_end_of_stream v) ser;
       ser \<leftarrow> put_bool (ps_content_has_audio v) ser;
       ser \<leftarrow> put_bool (ps_content_has_video v) ser;
       ser \<leftarrow> put_bool (ps_audio_connected v) ser;
       ser \<leftarrow> put_bool (ps_video_connected v) ser;
       ser \<leftarrow> put_optional put_metadata (ps_metadata v) ser;
       put_optional put_problem (ps_problem v) ser })"

definition put_status_notification :: "status_notification option \<Rightarrow> serializer \<Rightarrow> serializer option" where
  "put_status_notification v ser = (case v of None \<Rightarrow> None | Some v \<Rightarrow> put_status (sn_status v) ser)"

definition put_in_message :: "in_message option \<Rightarrow> serializer \<Rightarrow> serializer option" where
  "put_in_message v ser =
    (case v of None \<Rightarrow> None | Some v \<Rightarrow> do {
       ser \<leftarrow> put_u8 (im_type v) ser;
       if im_type v = kTimeCheckRequest then put_time_check_request (im_time_check_request v) ser
       else if im_type v = kSetUrlRequest then put_set_url_request (im_set_url_request v) ser
       else if im_type v = kSeekRequest then put_seek_request (im_seek_request v) ser
       else Some ser })"

definition put_out_message :: "out_message option \<Rightarrow> serializer \<Rightarrow> serializer option" where
  "put_out_message v ser =
    (case v of None \<Rightarrow> None | Some v \<Rightarrow> do {
       ser \<leftarrow> put_u8 (om_type v) ser;
       if om_type v = kTimeCheckResponse then put_time_check_response (om_time_check_response v) ser
       else if om_type v = kStatusNotification then put_status_notification (om_status_notification v) ser
       else Some ser })"

section \<open>Reading\<close>

definition get_fidl_string :: "junk \<Rightarrow> deserializer \<Rightarrow> (fidl_string \<times> deserializer) option" where
  "get_fidl_string junk d = do {
     (size, d) \<leftarrow> get_u64 (junk_size junk) d;
     (case bytes (unat size) d of
        (None, d) \<Rightarrow> Some (None, d)
      | (Some bs, d) \<Rightarrow> Some (Some bs, d))
   }"

text \<open>What every operator for a pointer ends with: reset the value if not healthy.\<close>

definition unless_unhealthy :: "'a \<Rightarrow> deserializer \<Rightarrow> ('a option \<times> deserializer) option" where
  "unless_unhealthy v d = Some (if healthy d then Some v else None, d)"

definition get_time_check_request :: "deserializer \<Rightarrow> (time_check_request option \<times> deserializer) option" where
  "get_time_check_request d = do {
     (t, d) \<leftarrow> get_i64 0 d;
     unless_unhealthy \<lparr>rq_requestor_time = t\<rparr> d }"

definition get_time_check_response :: "deserializer \<Rightarrow> (time_check_response option \<times> deserializer) option" where
  "get_time_check_response d = do {
     (t, d) \<leftarrow> get_i64 0 d;
     (u, d) \<leftarrow> get_i64 0 d;
     unless_unhealthy \<lparr>rs_requestor_time = t, rs_responder_time = u\<rparr> d }"

definition get_set_url_request :: "junk \<Rightarrow> deserializer \<Rightarrow> (set_url_request option \<times> deserializer) option" where
  "get_set_url_request junk d = do {
     (url, d) \<leftarrow> get_fidl_string junk d;
     unless_unhealthy \<lparr>su_url = url\<rparr> d }"

definition get_seek_request :: "deserializer \<Rightarrow> (seek_request option \<times> deserializer) option" where
  "get_seek_request d = do {
     (p, d) \<leftarrow> get_i64 0 d;
     unless_unhealthy \<lparr>sk_position = p\<rparr> d }"

definition get_transform :: "deserializer \<Rightarrow> (timeline_transform option \<times> deserializer) option" where
  "get_transform d = do {
     (rt, d) \<leftarrow> get_i64 0 d;
     (st, d) \<leftarrow> get_i64 0 d;
     (rd, d) \<leftarrow> get_u32 0 d;
     (sd, d) \<leftarrow> get_u32 0 d;
     unless_unhealthy \<lparr>tt_reference_time = rt, tt_subject_time = st, tt_reference_delta = rd, tt_subject_delta = sd\<rparr> d }"

definition get_metadata :: "junk \<Rightarrow> deserializer \<Rightarrow> (media_metadata option \<times> deserializer) option" where
  "get_metadata junk d = do {
     (duration, d) \<leftarrow> get_u64 0 d;
     (title, d) \<leftarrow> get_optional junk (get_fidl_string junk) d;
     (artist, d) \<leftarrow> get_optional junk (get_fidl_string junk) d;
     (album, d) \<leftarrow> get_optional junk (get_fidl_string junk) d;
     (publisher, d) \<leftarrow> get_optional junk (get_fidl_string junk) d;
     (genre, d) \<leftarrow> get_optional junk (get_fidl_string junk) d;
     (composer, d) \<leftarrow> get_optional junk (get_fidl_string junk) d;
     unless_unhealthy \<lparr>md_duration = duration, md_title = title, md_artist = artist, md_album = album,
       md_publisher = publisher, md_genre = genre, md_composer = composer\<rparr> d }"

definition get_problem :: "junk \<Rightarrow> deserializer \<Rightarrow> (problem option \<times> deserializer) option" where
  "get_problem junk d = do {
     (ty, d) \<leftarrow> get_fidl_string junk d;
     (details, d) \<leftarrow> get_optional junk (get_fidl_string junk) d;
     unless_unhealthy \<lparr>pr_type = ty, pr_details = details\<rparr> d }"

definition get_status :: "junk \<Rightarrow> deserializer \<Rightarrow> (player_status option \<times> deserializer) option" where
  "get_status junk d = do {
     (tt, d) \<leftarrow> get_optional junk get_transform d;
     (eos, d) \<leftarrow> get_bool False d;
     (has_audio, d) \<leftarrow> get_bool False d;
     (has_video, d) \<leftarrow> get_bool False d;
     (audio, d) \<leftarrow> get_bool False d;
     (video, d) \<leftarrow> get_bool False d;
     (metadata, d) \<leftarrow> get_optional junk (get_metadata junk) d;
     (problem, d) \<leftarrow> get_optional junk (get_problem junk) d;
     unless_unhealthy \<lparr>ps_timeline_transform = tt, ps_end_of_stream = eos, ps_content_has_audio = has_audio,
       ps_content_has_video = has_video, ps_audio_connected = audio, ps_video_connected = video,
       ps_metadata = metadata, ps_problem = problem\<rparr> d }"

definition get_status_notification :: "junk \<Rightarrow> deserializer \<Rightarrow> (status_notification option \<times> deserializer) option" where
  "get_status_notification junk d = do {
     (s, d) \<leftarrow> get_status junk d;
     unless_unhealthy \<lparr>sn_status = s\<rparr> d }"

definition get_in_message :: "junk \<Rightarrow> deserializer \<Rightarrow> (in_message option \<times> deserializer) option" where
  "get_in_message junk d = do {
     (ty, d) \<leftarrow> get_u8 0 d;
     let m = new_in_message\<lparr>im_type := ty\<rparr>;
     (m, d) \<leftarrow>
       (if ty = kTimeCheckRequest then do {
          (v, d) \<leftarrow> get_time_check_request d; Some (m\<lparr>im_time_check_request := v\<rparr>, d)
        } else if ty = kSetUrlRequest then do {
          (v, d) \<leftarrow> get_set_url_request junk d; Some (m\<lparr>im_set_url_request := v\<rparr>, d)
        } else if ty = kPlayRequest \<or> ty = kPauseRequest then Some (m, d)
        else if ty = kSeekRequest then do {
          (v, d) \<leftarrow> get_seek_request d; Some (m\<lparr>im_seek_request := v\<rparr>, d)
        } else Some (m, mark_unhealthy d));
     unless_unhealthy m d }"

definition get_out_message :: "junk \<Rightarrow> deserializer \<Rightarrow> (out_message option \<times> deserializer) option" where
  "get_out_message junk d = do {
     (ty, d) \<leftarrow> get_u8 0 d;
     let m = new_out_message\<lparr>om_type := ty\<rparr>;
     (m, d) \<leftarrow>
       (if ty = kTimeCheckResponse then do {
          (v, d) \<leftarrow> get_time_check_response d; Some (m\<lparr>om_time_check_response := v\<rparr>, d)
        } else if ty = kStatusNotification then do {
          (v, d) \<leftarrow> get_status_notification junk d; Some (m\<lparr>om_status_notification := v\<rparr>, d)
        } else Some (m, mark_unhealthy d));
     unless_unhealthy m d }"

section \<open>The codecs of the messages\<close>

definition fidl_string_ok :: "fidl_string \<Rightarrow> bool" where
  "fidl_string_ok = ptr_ok size_ok (\<lambda>s. s)"

definition enc_fidl_string :: "fidl_string \<Rightarrow> u8 list" where
  "enc_fidl_string = ptr_enc enc_string (\<lambda>s. s)"

lemma get_fidl_string_alt:
  "get_fidl_string junk d = do { (s, d) \<leftarrow> get_string junk d; Some (if healthy d then Some s else None, d) }"
proof -
  obtain w d1 where "get_u64 (junk_size junk) d = Some (w, d1)"
    by (cases "get_bytes 8 (be_bytes 8 (unat (junk_size junk))) d") (simp add: get_u64_def)
  then show ?thesis by (simp add: get_fidl_string_def get_string_def bytes_result)
qed

interpretation fidl_string: codec put_fidl_string "get_fidl_string junk" enc_fidl_string fidl_string_ok for junk
  unfolding enc_fidl_string_def fidl_string_ok_def
  by (rule codec_ptr[OF string_codec, where mk = "\<lambda>s. s"])
    (simp_all add: put_fidl_string_def get_fidl_string_alt)

definition optional_string_ok :: "fidl_string \<Rightarrow> bool" where
  "optional_string_ok s \<longleftrightarrow> s = None \<or> fidl_string_ok s"

interpretation optional_string: codec "put_optional put_fidl_string" "get_optional junk (get_fidl_string junk)"
  "optional_enc enc_fidl_string" optional_string_ok for junk
proof -
  have "codec (put_optional put_fidl_string) (get_optional junk (get_fidl_string junk))
      (optional_enc enc_fidl_string) (\<lambda>s. s = None \<or> fidl_string_ok s)"
    by (rule codec_optional) (unfold_locales, simp add: fidl_string_ok_def)
  then show "codec (put_optional put_fidl_string) (get_optional junk (get_fidl_string junk))
      (optional_enc enc_fidl_string) optional_string_ok"
    by (simp add: optional_string_ok_def[abs_def])
qed

lemmas struct_simps = put_pair_def get_pair_def unless_unhealthy_def case_prod_unfold

text \<open>For each structure: the tuple of its fields, its encoding and the values it can carry.\<close>

definition tcr_ok :: "time_check_request option \<Rightarrow> bool" where
  "tcr_ok = ptr_ok (in_signed 8) rq_requestor_time"

definition enc_tcr :: "time_check_request option \<Rightarrow> u8 list" where
  "enc_tcr = ptr_enc (enc_signed 8) rq_requestor_time"

interpretation time_check_request: codec put_time_check_request get_time_check_request enc_tcr tcr_ok
  unfolding enc_tcr_def tcr_ok_def
  by (rule codec_ptr[where mk = "\<lambda>t. \<lparr>rq_requestor_time = t\<rparr>", OF i64.codec_axioms[of 0]])
    (simp_all add: put_time_check_request_def get_time_check_request_def struct_simps)

definition tcs_parts :: "time_check_response \<Rightarrow> int \<times> int" where
  "tcs_parts v = (rs_requestor_time v, rs_responder_time v)"

definition tcs_ok :: "time_check_response option \<Rightarrow> bool" where
  "tcs_ok = ptr_ok (\<lambda>p. in_signed 8 (fst p) \<and> in_signed 8 (snd p)) tcs_parts"

definition enc_tcs :: "time_check_response option \<Rightarrow> u8 list" where
  "enc_tcs = ptr_enc (\<lambda>p. enc_signed 8 (fst p) @ enc_signed 8 (snd p)) tcs_parts"

interpretation time_check_response: codec put_time_check_response get_time_check_response enc_tcs tcs_ok
  unfolding enc_tcs_def tcs_ok_def
  by (rule codec_ptr[where mk = "\<lambda>(t, u). \<lparr>rs_requestor_time = t, rs_responder_time = u\<rparr>",
        OF codec_pair[OF i64.codec_axioms[of 0] i64.codec_axioms[of 0]]])
    (auto simp: put_time_check_response_def get_time_check_response_def struct_simps tcs_parts_def cong: if_cong)

definition sur_ok :: "set_url_request option \<Rightarrow> bool" where
  "sur_ok = ptr_ok fidl_string_ok su_url"

definition enc_sur :: "set_url_request option \<Rightarrow> u8 list" where
  "enc_sur = ptr_enc enc_fidl_string su_url"

interpretation set_url_request: codec put_set_url_request "get_set_url_request junk" enc_sur sur_ok for junk
  unfolding enc_sur_def sur_ok_def
  by (rule codec_ptr[where mk = "\<lambda>t. \<lparr>su_url = t\<rparr>", OF fidl_string.codec_axioms[of junk]])
    (simp_all add: put_set_url_request_def get_set_url_request_def struct_simps)

definition skr_ok :: "seek_request option \<Rightarrow> bool" where
  "skr_ok = ptr_ok (in_signed 8) sk_position"

definition enc_skr :: "seek_request option \<Rightarrow> u8 list" where
  "enc_skr = ptr_enc (enc_signed 8) sk_position"

interpretation seek_request: codec put_seek_request get_seek_request enc_skr skr_ok
  unfolding enc_skr_def skr_ok_def
  by (rule codec_ptr[where mk = "\<lambda>t. \<lparr>sk_position = t\<rparr>", OF i64.codec_axioms[of 0]])
    (simp_all add: put_seek_request_def get_seek_request_def struct_simps)

definition tt_parts :: "timeline_transform \<Rightarrow> int \<times> int \<times> u32 \<times> u32" where
  "tt_parts v = (tt_reference_time v, tt_subject_time v, tt_reference_delta v, tt_subject_delta v)"

definition transform_ok :: "timeline_transform option \<Rightarrow> bool" where
  "transform_ok = ptr_ok (\<lambda>p. in_signed 8 (fst p) \<and> in_signed 8 (fst (snd p)) \<and> True \<and> True) tt_parts"

definition enc_transform :: "timeline_transform option \<Rightarrow> u8 list" where
  "enc_transform = ptr_enc (\<lambda>p. enc_signed 8 (fst p) @ enc_signed 8 (fst (snd p)) @
     enc_word 4 (fst (snd (snd p))) @ enc_word 4 (snd (snd (snd p)))) tt_parts"

interpretation transform: codec put_transform get_transform enc_transform transform_ok
  unfolding enc_transform_def transform_ok_def
  by (rule codec_ptr[where mk = "\<lambda>(a, b, c, d). \<lparr>tt_reference_time = a, tt_subject_time = b,
          tt_reference_delta = c, tt_subject_delta = d\<rparr>",
        OF codec_pair[OF i64.codec_axioms[of 0] codec_pair[OF i64.codec_axioms[of 0]
            codec_pair[OF u32.codec_axioms[of 0] u32.codec_axioms[of 0]]]]])
    (auto simp: put_transform_def get_transform_def struct_simps tt_parts_def cong: if_cong)

definition md_parts :: "media_metadata \<Rightarrow>
    u64 \<times> fidl_string \<times> fidl_string \<times> fidl_string \<times> fidl_string \<times> fidl_string \<times> fidl_string" where
  "md_parts v = (md_duration v, md_title v, md_artist v, md_album v, md_publisher v, md_genre v, md_composer v)"

abbreviation "os_ok \<equiv> optional_string_ok"
abbreviation "os_enc \<equiv> optional_enc enc_fidl_string"

definition metadata_ok :: "media_metadata option \<Rightarrow> bool" where
  "metadata_ok = ptr_ok (\<lambda>p. True \<and> os_ok (fst (snd p)) \<and> os_ok (fst (snd (snd p))) \<and>
     os_ok (fst (snd (snd (snd p)))) \<and> os_ok (fst (snd (snd (snd (snd p))))) \<and>
     os_ok (fst (snd (snd (snd (snd (snd p)))))) \<and> os_ok (snd (snd (snd (snd (snd (snd p))))))) md_parts"

definition enc_metadata :: "media_metadata option \<Rightarrow> u8 list" where
  "enc_metadata = ptr_enc (\<lambda>p. enc_word 8 (fst p) @ os_enc (fst (snd p)) @ os_enc (fst (snd (snd p))) @
     os_enc (fst (snd (snd (snd p)))) @ os_enc (fst (snd (snd (snd (snd p))))) @
     os_enc (fst (snd (snd (snd (snd (snd p)))))) @ os_enc (snd (snd (snd (snd (snd (snd p))))))) md_parts"

interpretation metadata: codec put_metadata "get_metadata junk" enc_metadata metadata_ok for junk
  unfolding enc_metadata_def metadata_ok_def
  by (rule codec_ptr[where mk = "\<lambda>(a, b, c, d, e, f, g). \<lparr>md_duration = a, md_title = b, md_artist = c,
          md_album = d, md_publisher = e, md_genre = f, md_composer = g\<rparr>",
        OF codec_pair[OF u64.codec_axioms[of 0] codec_pair[OF optional_string.codec_axioms[of junk]
            codec_pair[OF optional_string.codec_axioms[of junk] codec_pair[OF optional_string.codec_axioms[of junk]
            codec_pair[OF optional_string.codec_axioms[of junk] codec_pair[OF optional_string.codec_axioms[of junk]
            optional_string.codec_axioms[of junk]]]]]]]])
    (auto simp: put_metadata_def get_metadata_def struct_simps md_parts_def cong: if_cong)

definition pr_parts :: "problem \<Rightarrow> fidl_string \<times> fidl_string" where
  "pr_parts v = (pr_type v, pr_details v)"

definition problem_ok :: "problem option \<Rightarrow> bool" where
  "problem_ok = ptr_ok (\<lambda>p. fidl_string_ok (fst p) \<and> os_ok (snd p)) pr_parts"

definition enc_problem :: "problem option \<Rightarrow> u8 list" where
  "enc_problem = ptr_enc (\<lambda>p. enc_fidl_string (fst p) @ os_enc (snd p)) pr_parts"

interpretation problem: codec put_problem "get_problem junk" enc_problem problem_ok for junk
  unfolding enc_problem_def problem_ok_def
  by (rule codec_ptr[where mk = "\<lambda>(a, b). \<lparr>pr_type = a, pr_details = b\<rparr>",
        OF codec_pair[OF fidl_string.codec_axioms[of junk] optional_string.codec_axioms[of junk]]])
    (auto simp: put_problem_def get_problem_def struct_simps pr_parts_def cong: if_cong)

definition ps_parts :: "player_status \<Rightarrow> timeline_transform option \<times> bool \<times> bool \<times> bool \<times> bool \<times> bool \<times>
    media_metadata option \<times> problem option" where
  "ps_parts v = (ps_timeline_transform v, ps_end_of_stream v, ps_content_has_audio v, ps_content_has_video v,
     ps_audio_connected v, ps_video_connected v, ps_metadata v, ps_problem v)"

lemma not_ok_None: "\<not> transform_ok None" "\<not> metadata_ok None" "\<not> problem_ok None"
  by (simp_all add: transform_ok_def metadata_ok_def problem_ok_def)

lemmas status_parts_codec =
  codec_pair[OF codec_optional[OF transform.codec_axioms not_ok_None(1), of junk]
    codec_pair[OF bool.codec_axioms[of False] codec_pair[OF bool.codec_axioms[of False] codec_pair[OF bool.codec_axioms[of False]
    codec_pair[OF bool.codec_axioms[of False] codec_pair[OF bool.codec_axioms[of False]
    codec_pair[OF codec_optional[OF metadata.codec_axioms[of junk] not_ok_None(2), of junk]
      codec_optional[OF problem.codec_axioms[of junk] not_ok_None(3), of junk]]]]]]]]
  for junk

definition status_ok :: "player_status option \<Rightarrow> bool" where
  "status_ok s \<longleftrightarrow> (\<exists>v. s = Some v \<and>
     (ps_timeline_transform v = None \<or> transform_ok (ps_timeline_transform v)) \<and>
     (ps_metadata v = None \<or> metadata_ok (ps_metadata v)) \<and>
     (ps_problem v = None \<or> problem_ok (ps_problem v)))"

definition enc_status :: "player_status option \<Rightarrow> u8 list" where
  "enc_status = ptr_enc (\<lambda>p. optional_enc enc_transform (fst p) @ enc_bool (fst (snd p)) @
     enc_bool (fst (snd (snd p))) @ enc_bool (fst (snd (snd (snd p)))) @ enc_bool (fst (snd (snd (snd (snd p))))) @
     enc_bool (fst (snd (snd (snd (snd (snd p)))))) @
     optional_enc enc_metadata (fst (snd (snd (snd (snd (snd (snd p))))))) @
     optional_enc enc_problem (snd (snd (snd (snd (snd (snd (snd p)))))))) ps_parts"

interpretation status: codec put_status "get_status junk" enc_status status_ok for junk
proof -
  have "codec put_status (get_status junk) enc_status
     (ptr_ok (\<lambda>p. (fst p = None \<or> transform_ok (fst p)) \<and> True \<and> True \<and> True \<and> True \<and> True \<and>
        (fst (snd (snd (snd (snd (snd (snd p)))))) = None \<or> metadata_ok (fst (snd (snd (snd (snd (snd (snd p)))))))) \<and>
        (snd (snd (snd (snd (snd (snd (snd p)))))) = None \<or> problem_ok (snd (snd (snd (snd (snd (snd (snd p)))))))))
      ps_parts)"
    unfolding enc_status_def
    by (rule codec_ptr[where mk = "\<lambda>(a, b, c, d, e, f, g, h). \<lparr>ps_timeline_transform = a, ps_end_of_stream = b,
            ps_content_has_audio = c, ps_content_has_video = d, ps_audio_connected = e, ps_video_connected = f,
            ps_metadata = g, ps_problem = h\<rparr>", OF status_parts_codec[of junk]])
      (auto simp: put_status_def get_status_def struct_simps ps_parts_def cong: if_cong)
  moreover have "ptr_ok (\<lambda>p. (fst p = None \<or> transform_ok (fst p)) \<and> True \<and> True \<and> True \<and> True \<and> True \<and>
        (fst (snd (snd (snd (snd (snd (snd p)))))) = None \<or> metadata_ok (fst (snd (snd (snd (snd (snd (snd p)))))))) \<and>
        (snd (snd (snd (snd (snd (snd (snd p)))))) = None \<or> problem_ok (snd (snd (snd (snd (snd (snd (snd p)))))))))
      ps_parts = status_ok"
    by (rule ext) (simp add: status_ok_def ptr_ok_def ps_parts_def split: option.split)
  ultimately show "codec put_status (get_status junk) enc_status status_ok" by simp
qed

definition snt_ok :: "status_notification option \<Rightarrow> bool" where
  "snt_ok = ptr_ok status_ok sn_status"

definition enc_snt :: "status_notification option \<Rightarrow> u8 list" where
  "enc_snt = ptr_enc enc_status sn_status"

interpretation status_notification: codec put_status_notification "get_status_notification junk" enc_snt snt_ok for junk
  unfolding enc_snt_def snt_ok_def
  by (rule codec_ptr[where mk = "\<lambda>t. \<lparr>sn_status = t\<rparr>", OF status.codec_axioms[of junk]])
    (simp_all add: put_status_notification_def get_status_notification_def struct_simps)

text \<open>The messages: the type byte, then the structure it announces.\<close>

definition put_in_payload :: "u8 \<Rightarrow> in_message \<Rightarrow> serializer \<Rightarrow> serializer option" where
  "put_in_payload t m ser =
    (if t = kTimeCheckRequest then put_time_check_request (im_time_check_request m) ser
     else if t = kSetUrlRequest then put_set_url_request (im_set_url_request m) ser
     else if t = kSeekRequest then put_seek_request (im_seek_request m) ser
     else Some ser)"

definition get_in_payload :: "junk \<Rightarrow> u8 \<Rightarrow> deserializer \<Rightarrow> (in_message \<times> deserializer) option" where
  "get_in_payload junk t d =
    (let m = new_in_message\<lparr>im_type := t\<rparr>
     in if t = kTimeCheckRequest then do {
          (v, d) \<leftarrow> get_time_check_request d; Some (m\<lparr>im_time_check_request := v\<rparr>, d)
        } else if t = kSetUrlRequest then do {
          (v, d) \<leftarrow> get_set_url_request junk d; Some (m\<lparr>im_set_url_request := v\<rparr>, d)
        } else if t = kPlayRequest \<or> t = kPauseRequest then Some (m, d)
        else if t = kSeekRequest then do {
          (v, d) \<leftarrow> get_seek_request d; Some (m\<lparr>im_seek_request := v\<rparr>, d)
        } else Some (m, mark_unhealthy d))"

definition enc_in_payload :: "u8 \<Rightarrow> in_message \<Rightarrow> u8 list" where
  "enc_in_payload t m =
    (if t = kTimeCheckRequest then enc_tcr (im_time_check_request m)
     else if t = kSetUrlRequest then enc_sur (im_set_url_request m)
     else if t = kSeekRequest then enc_skr (im_seek_request m)
     else [])"

definition in_payload_ok :: "u8 \<Rightarrow> in_message \<Rightarrow> bool" where
  "in_payload_ok t m \<longleftrightarrow>
    (if t = kTimeCheckRequest
     then tcr_ok (im_time_check_request m) \<and> m = new_in_message\<lparr>im_type := t, im_time_check_request := im_time_check_request m\<rparr>
     else if t = kSetUrlRequest
     then sur_ok (im_set_url_request m) \<and> m = new_in_message\<lparr>im_type := t, im_set_url_request := im_set_url_request m\<rparr>
     else if t = kPlayRequest \<or> t = kPauseRequest then m = new_in_message\<lparr>im_type := t\<rparr>
     else if t = kSeekRequest
     then skr_ok (im_seek_request m) \<and> m = new_in_message\<lparr>im_type := t, im_seek_request := im_seek_request m\<rparr>
     else False)"

lemma in_payload_codec:
  "codec (put_in_payload t) (get_in_payload junk t) (enc_in_payload t) (in_payload_ok t)"
proof -
  consider "t = kTimeCheckRequest" | "t = kSetUrlRequest" | "t = kPlayRequest \<or> t = kPauseRequest"
    | "t = kSeekRequest" | "t \<notin> {kTimeCheckRequest, kSetUrlRequest, kPlayRequest, kPauseRequest, kSeekRequest}"
    by blast
  then show ?thesis
  proof cases
    case 1
    then show ?thesis
      using codec_field[OF time_check_request.codec_axioms, of im_time_check_request
          "\<lambda>v. new_in_message\<lparr>im_type := t, im_time_check_request := v\<rparr>"]
      by (simp add: put_in_payload_def[abs_def] get_in_payload_def[abs_def] enc_in_payload_def[abs_def] in_payload_ok_def[abs_def])
  next
    case 2
    then show ?thesis
      using codec_field[OF set_url_request.codec_axioms[of junk], of im_set_url_request
          "\<lambda>v. new_in_message\<lparr>im_type := t, im_set_url_request := v\<rparr>"]
      by (simp add: put_in_payload_def[abs_def] get_in_payload_def[abs_def] enc_in_payload_def[abs_def]
          in_payload_ok_def[abs_def] in_types)
  next
    case 3
    then show ?thesis
      using codec_nothing[of "new_in_message\<lparr>im_type := t\<rparr>"]
      by (auto simp add: put_in_payload_def[abs_def] get_in_payload_def[abs_def] enc_in_payload_def[abs_def]
          in_payload_ok_def[abs_def] in_types)
  next
    case 4
    then show ?thesis
      using codec_field[OF seek_request.codec_axioms, of im_seek_request
          "\<lambda>v. new_in_message\<lparr>im_type := t, im_seek_request := v\<rparr>"]
      by (simp add: put_in_payload_def[abs_def] get_in_payload_def[abs_def] enc_in_payload_def[abs_def]
          in_payload_ok_def[abs_def] in_types)
  next
    case 5
    then show ?thesis
      using codec_unknown[of "put_in_payload t" "new_in_message\<lparr>im_type := t\<rparr>" "enc_in_payload t"]
      by (simp add: get_in_payload_def[abs_def] in_payload_ok_def[abs_def] Let_def)
  qed
qed

lemma in_payload_tag: "in_payload_ok t m \<Longrightarrow> im_type m = t"
  by (cases m) (auto simp: in_payload_ok_def new_in_message_def split: if_splits)

definition in_message_ok :: "in_message option \<Rightarrow> bool" where
  "in_message_ok = ptr_ok (\<lambda>m. True \<and> in_payload_ok (im_type m) m) (\<lambda>m. m)"

definition enc_in_message :: "in_message option \<Rightarrow> u8 list" where
  "enc_in_message = ptr_enc (\<lambda>m. enc_u8 (im_type m) @ enc_in_payload (im_type m) m) (\<lambda>m. m)"

interpretation in_message: codec put_in_message "get_in_message junk" enc_in_message in_message_ok for junk
  unfolding enc_in_message_def in_message_ok_def
proof (rule codec_ptr[where mk = "\<lambda>m. m", OF codec_tagged[where tag = im_type, OF u8.codec_axioms[of 0]
      in_payload_codec[of _ junk] in_payload_tag]])
  show "put_in_message (Some v) ser = put_u8 (im_type v) ser \<bind> put_in_payload (im_type v) v" for v ser
    by (simp add: put_in_message_def put_in_payload_def put_u8_def)
  show "get_in_message junk d = do { (t, d) \<leftarrow> do { (t, d) \<leftarrow> get_u8 0 d; get_in_payload junk t d };
      Some (if healthy d then Some t else None, d) }" for d
    by (simp add: get_in_message_def get_in_payload_def unless_unhealthy_def Let_def case_prod_unfold)
qed simp_all

text \<open>The messages that can travel are those the static constructors build.\<close>

lemma in_message_ok_iff:
  "in_message_ok m \<longleftrightarrow>
    (\<exists>t. in_i64 t \<and> m = Some (TimeCheckRequest t)) \<or>
    (\<exists>url. length url < 2 ^ 64 \<and> m = Some (SetUrlRequest (Some url))) \<or>
    m = Some PlayRequest \<or> m = Some PauseRequest \<or>
    (\<exists>p. in_i64 p \<and> m = Some (SeekRequest p))"
proof
  assume "in_message_ok m"
  then obtain v where m: "m = Some v" and ok: "in_payload_ok (im_type v) v"
    by (cases m) (simp_all add: in_message_ok_def)
  note ok' = ok[unfolded in_payload_ok_def]
  consider "im_type v = kTimeCheckRequest" | "im_type v = kSetUrlRequest" | "im_type v = kSeekRequest"
    | "v = PlayRequest \<or> v = PauseRequest"
    using ok' by (auto simp: PlayRequest_def PauseRequest_def split: if_splits)
  then show "(\<exists>t. in_i64 t \<and> m = Some (TimeCheckRequest t)) \<or>
    (\<exists>url. length url < 2 ^ 64 \<and> m = Some (SetUrlRequest (Some url))) \<or>
    m = Some PlayRequest \<or> m = Some PauseRequest \<or> (\<exists>p. in_i64 p \<and> m = Some (SeekRequest p))"
  proof cases
    case 1
    then obtain x where "in_i64 (rq_requestor_time x)"
      "v = new_in_message\<lparr>im_type := kTimeCheckRequest, im_time_check_request := Some x\<rparr>"
      using ok' by (auto simp: tcr_ok_def ptr_ok_def in_signed_8 split: option.splits)
    then have "in_i64 (rq_requestor_time x) \<and> v = TimeCheckRequest (rq_requestor_time x)"
      by (simp add: TimeCheckRequest_def)
    then show ?thesis using m by blast
  next
    case 2
    then obtain x where "sur_ok (Some x)" "v = new_in_message\<lparr>im_type := kSetUrlRequest, im_set_url_request := Some x\<rparr>"
      using ok' by (cases "im_set_url_request v") (auto simp: sur_ok_def in_types)
    moreover from this obtain url where "su_url x = Some url" "length url < 2 ^ 64"
      by (cases "su_url x") (auto simp: sur_ok_def fidl_string_ok_def size_ok_def)
    moreover from this have "x = \<lparr>su_url = Some url\<rparr>" by (cases x) simp
    ultimately have "length url < 2 ^ 64 \<and> v = SetUrlRequest (Some url)"
      by (simp add: SetUrlRequest_def)
    then show ?thesis using m by blast
  next
    case 3
    then obtain x where "in_i64 (sk_position x)"
      "v = new_in_message\<lparr>im_type := kSeekRequest, im_seek_request := Some x\<rparr>"
      using ok' by (auto simp: skr_ok_def ptr_ok_def in_signed_8 in_types split: option.splits)
    then have "in_i64 (sk_position x) \<and> v = SeekRequest (sk_position x)"
      by (simp add: SeekRequest_def)
    then show ?thesis using m by blast
  qed (use m in auto)
next
  assume "(\<exists>t. in_i64 t \<and> m = Some (TimeCheckRequest t)) \<or>
    (\<exists>url. length url < 2 ^ 64 \<and> m = Some (SetUrlRequest (Some url))) \<or>
    m = Some PlayRequest \<or> m = Some PauseRequest \<or> (\<exists>p. in_i64 p \<and> m = Some (SeekRequest p))"
  then show "in_message_ok m"
    by (elim disjE exE conjE) (auto simp: in_message_ok_def in_payload_ok_def in_types new_in_message_def in_signed_8
        TimeCheckRequest_def SetUrlRequest_def PlayRequest_def PauseRequest_def SeekRequest_def
        tcr_ok_def sur_ok_def skr_ok_def fidl_string_ok_def size_ok_def)
qed

definition put_out_payload :: "u8 \<Rightarrow> out_message \<Rightarrow> serializer \<Rightarrow> serializer option" where
  "put_out_payload t m ser =
    (if t = kTimeCheckResponse then put_time_check_response (om_time_check_response m) ser
     else if t = kStatusNotification then put_status_notification (om_status_notification m) ser
     else Some ser)"

definition get_out_payload :: "junk \<Rightarrow> u8 \<Rightarrow> deserializer \<Rightarrow> (out_message \<times> deserializer) option" where
  "get_out_payload junk t d =
    (let m = new_out_message\<lparr>om_type := t\<rparr>
     in if t = kTimeCheckResponse then do {
          (v, d) \<leftarrow> get_time_check_response d; Some (m\<lparr>om_time_check_response := v\<rparr>, d)
        } else if t = kStatusNotification then do {
          (v, d) \<leftarrow> get_status_notification junk d; Some (m\<lparr>om_status_notification := v\<rparr>, d)
        } else Some (m, mark_unhealthy d))"

definition enc_out_payload :: "u8 \<Rightarrow> out_message \<Rightarrow> u8 list" where
  "enc_out_payload t m =
    (if t = kTimeCheckResponse then enc_tcs (om_time_check_response m)
     else if t = kStatusNotification then enc_snt (om_status_notification m)
     else [])"

definition out_payload_ok :: "u8 \<Rightarrow> out_message \<Rightarrow> bool" where
  "out_payload_ok t m \<longleftrightarrow>
    (if t = kTimeCheckResponse
     then tcs_ok (om_time_check_response m) \<and> m = new_out_message\<lparr>om_type := t, om_time_check_response := om_time_check_response m\<rparr>
     else if t = kStatusNotification
     then snt_ok (om_status_notification m) \<and> m = new_out_message\<lparr>om_type := t, om_status_notification := om_status_notification m\<rparr>
     else False)"

lemma out_payload_codec:
  "codec (put_out_payload t) (get_out_payload junk t) (enc_out_payload t) (out_payload_ok t)"
proof -
  note defs = put_out_payload_def[abs_def] get_out_payload_def[abs_def] enc_out_payload_def[abs_def]
    out_payload_ok_def[abs_def] out_types
  consider "t = kTimeCheckResponse" | "t = kStatusNotification" | "t \<notin> {kTimeCheckResponse, kStatusNotification}"
    by blast
  then show ?thesis
  proof cases
    case 1
    then show ?thesis
      using codec_field[OF time_check_response.codec_axioms, of om_time_check_response
          "\<lambda>v. new_out_message\<lparr>om_type := t, om_time_check_response := v\<rparr>"]
      by (simp add: defs)
  next
    case 2
    then show ?thesis
      using codec_field[OF status_notification.codec_axioms[of junk], of om_status_notification
          "\<lambda>v. new_out_message\<lparr>om_type := t, om_status_notification := v\<rparr>"]
      by (simp add: defs)
  next
    case 3
    then show ?thesis
      using codec_unknown[of "put_out_payload t" "new_out_message\<lparr>om_type := t\<rparr>" "enc_out_payload t"]
      by (simp add: get_out_payload_def[abs_def] out_payload_ok_def[abs_def] Let_def)
  qed
qed

lemma out_payload_tag: "out_payload_ok t m \<Longrightarrow> om_type m = t"
  by (cases m) (auto simp: out_payload_ok_def new_out_message_def split: if_splits)

definition out_message_ok :: "out_message option \<Rightarrow> bool" where
  "out_message_ok = ptr_ok (\<lambda>m. True \<and> out_payload_ok (om_type m) m) (\<lambda>m. m)"

definition enc_out_message :: "out_message option \<Rightarrow> u8 list" where
  "enc_out_message = ptr_enc (\<lambda>m. enc_u8 (om_type m) @ enc_out_payload (om_type m) m) (\<lambda>m. m)"

interpretation out_message: codec put_out_message "get_out_message junk" enc_out_message out_message_ok for junk
  unfolding enc_out_message_def out_message_ok_def
proof (rule codec_ptr[where mk = "\<lambda>m. m", OF codec_tagged[where tag = om_type, OF u8.codec_axioms[of 0]
      out_payload_codec[of _ junk] out_payload_tag]])
  show "put_out_message (Some v) ser = put_u8 (om_type v) ser \<bind> put_out_payload (om_type v) v" for v ser
    by (simp add: put_out_message_def put_out_payload_def put_u8_def)
  show "get_out_message junk d = do { (t, d) \<leftarrow> do { (t, d) \<leftarrow> get_u8 0 d; get_out_payload junk t d };
      Some (if healthy d then Some t else None, d) }" for d
    by (simp add: get_out_message_def get_out_payload_def unless_unhealthy_def Let_def case_prod_unfold)
qed simp_all

lemma out_message_ok_iff:
  "out_message_ok m \<longleftrightarrow>
    (\<exists>t u. in_i64 t \<and> in_i64 u \<and> m = Some (TimeCheckResponse t u)) \<or>
    (\<exists>s. status_ok s \<and> m = Some (StatusNotification s))"
proof
  assume "out_message_ok m"
  then obtain v where m: "m = Some v" and ok: "out_payload_ok (om_type v) v"
    by (cases m) (simp_all add: out_message_ok_def)
  note ok' = ok[unfolded out_payload_ok_def]
  consider "om_type v = kTimeCheckResponse" | "om_type v = kStatusNotification"
    using ok' by (auto split: if_splits)
  then show "(\<exists>t u. in_i64 t \<and> in_i64 u \<and> m = Some (TimeCheckResponse t u)) \<or>
    (\<exists>s. status_ok s \<and> m = Some (StatusNotification s))"
  proof cases
    case 1
    then obtain x where "in_i64 (rs_requestor_time x)" "in_i64 (rs_responder_time x)"
      "v = new_out_message\<lparr>om_type := kTimeCheckResponse, om_time_check_response := Some x\<rparr>"
      using ok' by (auto simp: tcs_ok_def tcs_parts_def ptr_ok_def in_signed_8 split: option.splits)
    then have "in_i64 (rs_requestor_time x) \<and> in_i64 (rs_responder_time x) \<and>
        v = TimeCheckResponse (rs_requestor_time x) (rs_responder_time x)"
      by (simp add: TimeCheckResponse_def)
    then show ?thesis using m by blast
  next
    case 2
    then obtain x where "status_ok (sn_status x)"
      "v = new_out_message\<lparr>om_type := kStatusNotification, om_status_notification := Some x\<rparr>"
      using ok' by (auto simp: snt_ok_def ptr_ok_def out_types split: option.splits)
    then have "status_ok (sn_status x) \<and> v = StatusNotification (sn_status x)"
      by (simp add: StatusNotification_def)
    then show ?thesis using m by blast
  qed
next
  assume "(\<exists>t u. in_i64 t \<and> in_i64 u \<and> m = Some (TimeCheckResponse t u)) \<or>
    (\<exists>s. status_ok s \<and> m = Some (StatusNotification s))"
  then show "out_message_ok m"
    by (elim disjE exE conjE) (auto simp: out_message_ok_def out_payload_ok_def out_types new_out_message_def in_signed_8
        TimeCheckResponse_def StatusNotification_def tcs_ok_def tcs_parts_def snt_ok_def)
qed

end
