(* ===== verification/Net_Player_Link.thy ===== *)
theory Net_Player_Link
  imports Net_Player_Messages Async_Util
begin

text \<open>
  The two ends of a remote player: \<open>NetMediaPlayerNetProxy\<close> (net_media_player_net_proxy.cc)
  turns calls of the \<open>NetMediaPlayer\<close> interface into messages, \<open>NetMediaPlayerNetStub\<close>
  (net_media_player_net_stub.cc) turns the messages back into calls on the real player and
  sends its status back. The message relay delivers byte vectors in order; a handler is a
  function from a received message to the calls it makes, in order. \<open>Timeline::local_now()\<close>
  is the argument \<open>now\<close>.
\<close>

section \<open>Definitions\<close>

text \<open>The calls of the interface \<open>NetMediaPlayer\<close> without a response.\<close>

datatype player_call = SetUrl fidl_string | Play | Pause | Seek int

definition kInitialStatus :: u64 where "kInitialStatus = 0"

subsection \<open>The stub\<close>

datatype stub_action = StubSend "u8 list" | StubCloseChannel | PlayerCall player_call | PlayerGetStatus u64

text \<open>\<open>HandleStatusUpdates(version, status)\<close>; a null status is \<^term>\<open>None\<close>.\<close>

definition handle_status_updates :: "u64 \<Rightarrow> player_status option \<Rightarrow> stub_action list option" where
  "handle_status_updates ver status = do {
     sent \<leftarrow> (if status \<noteq> None then do {
                bs \<leftarrow> serialize put_out_message (Some (StatusNotification status));
                Some [StubSend bs]
              } else Some []);
     Some (sent @ [PlayerGetStatus ver])
   }"

definition stub_handle_message :: "junk \<Rightarrow> int \<Rightarrow> u8 list \<Rightarrow> stub_action list option" where
  "stub_handle_message junk now message_bytes = do {
     (message, d) \<leftarrow> get_in_message junk (new_deserializer message_bytes);
     if \<not> complete d then Some [StubCloseChannel]
     else do {
       dcheck (message \<noteq> None);
       let m = the message;
       if im_type m = kTimeCheckRequest then do {
         dcheck (im_time_check_request m \<noteq> None);
         bs \<leftarrow> serialize put_out_message
                (Some (TimeCheckResponse (rq_requestor_time (the (im_time_check_request m))) now));
         updates \<leftarrow> handle_status_updates kInitialStatus None;
         Some (StubSend bs # updates)
       }
       else if im_type m = kSetUrlRequest then do {
         dcheck (im_set_url_request m \<noteq> None);
         Some [PlayerCall (SetUrl (su_url (the (im_set_url_request m))))]
       }
       else if im_type m = kPlayRequest then Some [PlayerCall Play]
       else if im_type m = kPauseRequest then Some [PlayerCall Pause]
       else if im_type m = kSeekRequest then do {
         dcheck (im_seek_request m \<noteq> None);
         Some [PlayerCall (Seek (sk_position (the (im_seek_request m))))]
       }
       else Some []
     }
   }"

subsection \<open>The proxy\<close>

text \<open>A call of a status callback, with the version and a clone of the status.\<close>

datatype 'cb proxy_action = ProxyCloseChannel | StatusCallback 'cb u64 player_status

record 'cb net_proxy =
  px_publisher :: "'cb publisher"
  px_status :: player_status
  px_remote_to_local :: timeline_function

fun proxy_message :: "player_call \<Rightarrow> in_message" where
  "proxy_message (SetUrl url) = SetUrlRequest url"
| "proxy_message Play = PlayRequest"
| "proxy_message Pause = PauseRequest"
| "proxy_message (Seek position) = SeekRequest position"

text \<open>The bytes given to \<open>SendMessage\<close> by the four calls, and by \<open>SendTimeCheckMessage\<close>.\<close>

definition proxy_call :: "player_call \<Rightarrow> u8 list option" where
  "proxy_call c = serialize put_in_message (Some (proxy_message c))"

definition send_time_check_message :: "int \<Rightarrow> u8 list option" where
  "send_time_check_message now = serialize put_in_message (Some (TimeCheckRequest now))"

definition run_status_callbacks_with :: "player_status \<Rightarrow> ('cb \<times> u64) list \<Rightarrow> 'cb proxy_action list" where
  "run_status_callbacks_with status calls = map (\<lambda>(cb, v). StatusCallback cb v status) calls"

definition proxy_get_status :: "u64 \<Rightarrow> 'cb \<Rightarrow> 'cb net_proxy \<Rightarrow> 'cb proxy_action list \<times> 'cb net_proxy" where
  "proxy_get_status version_last_seen callback p =
    (let (calls, pub) = publisher_get version_last_seen callback (px_publisher p)
     in (run_status_callbacks_with (px_status p) calls, p\<lparr>px_publisher := pub\<rparr>))"

text \<open>Division of a signed integer by 2 in C++ rounds towards zero.\<close>

definition half :: "int \<Rightarrow> int" where
  "half x = (if 0 \<le> x then x div 2 else - (- x div 2))"

definition proxy_time_check :: "int \<Rightarrow> time_check_response \<Rightarrow> 'cb net_proxy \<Rightarrow> 'cb net_proxy option" where
  "proxy_time_check now response p = do {
     transit \<leftarrow> i64_sub now (rs_requestor_time response);
     local_then \<leftarrow> i64_add (rs_requestor_time response) (half transit);
     f \<leftarrow> mk_function (rs_responder_time response) local_then 1 1;
     Some (p\<lparr>px_remote_to_local := f\<rparr>)
   }"

text \<open>Translation of the reference time of the status into local time.\<close>

definition localize_status :: "timeline_function \<Rightarrow> player_status \<Rightarrow> player_status option" where
  "localize_status remote_to_local status =
    (case ps_timeline_transform status of
       None \<Rightarrow> Some status
     | Some t \<Rightarrow> do {
         rt \<leftarrow> tf_apply remote_to_local (tt_reference_time t);
         Some (status\<lparr>ps_timeline_transform := Some (t\<lparr>tt_reference_time := rt\<rparr>)\<rparr>)
       })"

definition proxy_status_notification ::
    "player_status \<Rightarrow> 'cb net_proxy \<Rightarrow> ('cb proxy_action list \<times> 'cb net_proxy) option" where
  "proxy_status_notification status p = do {
     status \<leftarrow> localize_status (px_remote_to_local p) status;
     let p = p\<lparr>px_status := status\<rparr>;
     let (calls, pub) = send_updates (px_publisher p);
     Some (run_status_callbacks_with status calls, p\<lparr>px_publisher := pub\<rparr>)
   }"

definition proxy_handle_message ::
    "junk \<Rightarrow> int \<Rightarrow> u8 list \<Rightarrow> 'cb net_proxy \<Rightarrow> ('cb proxy_action list \<times> 'cb net_proxy) option" where
  "proxy_handle_message junk now message_bytes p = do {
     (message, d) \<leftarrow> get_out_message junk (new_deserializer message_bytes);
     if \<not> complete d then Some ([ProxyCloseChannel], p)
     else do {
       dcheck (message \<noteq> None);
       let m = the message;
       if om_type m = kTimeCheckResponse then do {
         dcheck (om_time_check_response m \<noteq> None);
         p \<leftarrow> proxy_time_check now (the (om_time_check_response m)) p;
         Some ([], p)
       }
       else if om_type m = kStatusNotification then do {
         dcheck (om_status_notification m \<noteq> None);
         let status = sn_status (the (om_status_notification m));
         dcheck (status \<noteq> None);
         proxy_status_notification (the status) p
       }
       else Some ([], p)
     }
   }"

section \<open>Lemmas\<close>

lemma get_i64_total: "\<exists>v d'. get_i64 i d = Some (v, d')"
  by (cases "get_bytes 8 (be_bytes 8 (to_unsigned 8 i)) d") (simp add: get_i64_def)

lemma get_fidl_string_total: "\<exists>v d'. get_fidl_string junk d = Some (v, d')"
proof -
  obtain w d1 where "get_u64 (junk_size junk) d = Some (w, d1)"
    by (cases "get_bytes 8 (be_bytes 8 (unat (junk_size junk))) d") (simp add: get_u64_def)
  then show ?thesis by (auto simp: get_fidl_string_def bytes_result)
qed

text \<open>No byte sequence makes the reading of an in-message fail: it has no \<open>bool\<close>.\<close>

lemma get_in_message_total: "\<exists>m d'. get_in_message junk d = Some (m, d')"
proof -
  obtain ty d1 where u: "get_u8 0 d = Some (ty, d1)"
    by (cases "get_bytes 1 [0] d") (simp add: get_u8_def)
  obtain t d2 where t: "get_i64 0 d1 = Some (t, d2)" using get_i64_total by blast
  obtain s d3 where s: "get_fidl_string junk d1 = Some (s, d3)" using get_fidl_string_total by blast
  show ?thesis
    using u t s by (simp add: get_in_message_def get_time_check_request_def get_set_url_request_def
        get_seek_request_def unless_unhealthy_def Let_def)
qed

text \<open>What the stub does with each of the messages that can arrive.\<close>

definition stub_response :: "int \<Rightarrow> in_message \<Rightarrow> stub_action list option" where
  "stub_response now m =
    (if m = PlayRequest then Some [PlayerCall Play]
     else if m = PauseRequest then Some [PlayerCall Pause]
     else if im_type m = kSetUrlRequest then Some [PlayerCall (SetUrl (su_url (the (im_set_url_request m))))]
     else if im_type m = kSeekRequest then Some [PlayerCall (Seek (sk_position (the (im_seek_request m))))]
     else do {
       bs \<leftarrow> serialize put_out_message
              (Some (TimeCheckResponse (rq_requestor_time (the (im_time_check_request m))) now));
       Some [StubSend bs, PlayerGetStatus kInitialStatus]
     })"

lemma stub_handles:
  assumes "in_message_ok (Some m)" "serialize put_in_message (Some m) = Some bs"
  shows "stub_handle_message junk now bs = stub_response now m"
proof -
  note d = in_message.deserialize_serialized(1)[OF assms, of junk] in_message.deserialize_serialized(2)[OF assms]
  show ?thesis
    using assms(1) d unfolding in_message_ok_iff
    by (auto simp: stub_handle_message_def stub_response_def in_types new_in_message_def TimeCheckRequest_def
        SetUrlRequest_def PlayRequest_def PauseRequest_def SeekRequest_def handle_status_updates_def)
qed

lemma stub_rejects:
  assumes "\<And>m. in_message_ok (Some m) \<Longrightarrow> serialize put_in_message (Some m) \<noteq> Some bs"
  shows "stub_handle_message junk now bs = Some [StubCloseChannel]"
proof -
  obtain m d where g: "get_in_message junk (new_deserializer bs) = Some (m, d)"
    using get_in_message_total by blast
  have "\<not> complete d"
  proof
    assume "complete d"
    then have "in_message_ok m \<and> serialize put_in_message m = Some bs"
      using g in_message.accepts_exactly[of junk bs m] by blast
    then show False using assms by (cases m) (auto simp: in_message_ok_def)
  qed
  then show ?thesis using g by (simp add: stub_handle_message_def)
qed

text \<open>A flag of a status that is neither 0 nor 1, the bytes before it being those of a status.\<close>

lemma flag_is_undefined: "healthy d \<Longrightarrow> remaining d = b # rest \<Longrightarrow> b \<noteq> 0 \<Longrightarrow> b \<noteq> 1 \<Longrightarrow> get_bool i d = None"
  by (simp add: get_bool_def get_bytes_result)

lemma flag_is_read:
  "healthy d \<Longrightarrow> remaining d = (if g then 1 else 0) # rest \<Longrightarrow> get_bool i d = Some (g, consume 1 d)"
  using bool.get_enc [of d g rest i] by (simp add: enc_bool_def)

lemma short_lists:
  assumes "length gs < 5"
  shows "gs = [] \<or> (\<exists>a. gs = [a]) \<or> (\<exists>a b. gs = [a, b]) \<or> (\<exists>a b c. gs = [a, b, c]) \<or> (\<exists>a b c d. gs = [a, b, c, d])"
proof -
  have "length gs = 0 \<or> length gs = Suc 0 \<or> length gs = Suc (Suc 0) \<or> length gs = Suc (Suc (Suc 0)) \<or>
      length gs = Suc (Suc (Suc (Suc 0)))" using assms by linarith
  then show ?thesis unfolding length_Suc_conv length_0_conv by blast
qed

lemma bad_flag_status:
  assumes "get_optional junk get_transform d = Some (tt, e)" "healthy e"
    and "remaining e = map (\<lambda>g. if g then 1 else 0) gs @ b # rest" "length gs < 5" "b \<noteq> 0" "b \<noteq> 1"
  shows "get_status junk d = None"
  using short_lists [OF assms(4)] assms(1-3,5,6)
  by (elim disjE exE) (simp_all add: get_status_def flag_is_read flag_is_undefined)

lemma bad_flag_is_undefined:
  assumes "tt = None \<or> transform_ok tt" "length gs < 5" "b \<noteq> 0" "b \<noteq> 1"
  shows "get_out_message junk (new_deserializer
      (kStatusNotification # optional_enc enc_transform tt @ map (\<lambda>g. if g then 1 else 0) gs @ b # rest)) = None"
proof -
  let ?flags = "map (\<lambda>g. if g then 1 else 0) gs @ b # rest"
  let ?d = "new_deserializer (kStatusNotification # optional_enc enc_transform tt @ ?flags)"
  let ?e = "consume (length (optional_enc enc_transform tt)) (consume 1 ?d)"
  have opt: "get_optional junk get_transform (consume 1 ?d) = Some (tt, ?e)"
    by (rule codec.get_enc [OF codec_optional [OF transform.codec_axioms not_ok_None(1)] assms(1), where rest = ?flags]) simp_all
  have e: "healthy ?e" "remaining ?e = ?flags" by simp_all
  have "get_status junk (consume 1 ?d) = None" by (rule bad_flag_status [OF opt e assms(2-4)])
  moreover have "get_u8 0 ?d = Some (kStatusNotification, consume 1 ?d)"
    by (simp add: get_u8_def get_bytes_result)
  ultimately show ?thesis by (simp add: get_out_message_def get_status_notification_def out_types Let_def)
qed

section \<open>Properties\<close>

text \<open>
  C20. Where reading a byte vector is defined, it is read as a message, to its end, exactly when it is
  the serialization of that message: reading undoes writing, nothing else is accepted, and no
  message has two serializations. This holds for the messages in both directions, and whatever
  the uninitialised variables of the deserializer hold. Reading what a proxy sends is defined for every
  byte vector. Reading what a stub sends is not: a flag of a status that is neither 0 nor 1 is
  copied into a \<open>bool\<close> unchecked.
\<close>

theorem messages_accepted_exactly:
  "get_in_message junk (new_deserializer bs) \<noteq> None \<and>
   ((\<exists>d. get_in_message junk (new_deserializer bs) = Some (m, d) \<and> complete d)
      \<longleftrightarrow> in_message_ok m \<and> serialize put_in_message m = Some bs) \<and>
   (get_out_message junk (new_deserializer bs) \<noteq> None \<longrightarrow>
     ((\<exists>d. get_out_message junk (new_deserializer bs) = Some (n, d) \<and> complete d)
      \<longleftrightarrow> out_message_ok n \<and> serialize put_out_message n = Some bs)) \<and>
   ((tt = None \<or> transform_ok tt) \<and> length gs < 5 \<and> b \<noteq> 0 \<and> b \<noteq> 1 \<longrightarrow>
     get_out_message junk (new_deserializer
       (kStatusNotification # optional_enc enc_transform tt @ map (\<lambda>g. if g then 1 else 0) gs @ b # rest)) = None)"
  by (intro conjI impI in_message.accepts_exactly out_message.accepts_exactly bad_flag_is_undefined)
    (use get_in_message_total [of junk "new_deserializer bs"] in auto)

lemma messages_accepted_exactly_witness:
  "get_out_message \<lparr>junk_bool = True, junk_size = 9\<rparr> (new_deserializer [kStatusNotification, 0, 1, 2]) = None \<and>
   (\<exists>d. get_out_message \<lparr>junk_bool = True, junk_size = 9\<rparr> (new_deserializer
      (the (serialize put_out_message (Some (TimeCheckResponse 3 4))))) = Some (Some (TimeCheckResponse 3 4), d) \<and> complete d)"
proof -
  let ?j = "\<lparr>junk_bool = True, junk_size = 9\<rparr>" and ?m = "Some (TimeCheckResponse 3 4)"
  have "in_i64 3" "in_i64 4" by (simp_all add: in_i64_def)
  then have ok: "out_message_ok ?m" unfolding out_message_ok_iff by blast
  obtain bs where bs: "serialize put_out_message ?m = Some bs" using out_message.serialized [OF ok] by blast
  have "get_out_message ?j (new_deserializer bs) \<noteq> None"
    using out_message.deserialize_serialized(1) [OF ok bs] by simp
  then show ?thesis
    using messages_accepted_exactly [of ?j bs None ?m None "[True]" 2 "[]"] ok bs
    by (simp add: optional_enc_def enc_bool_def)
qed

text \<open>No message makes the stub set a null url, which the interface allows and which closes the content.\<close>

theorem null_url_never_arrives: "stub_handle_message junk now bs \<noteq> Some [PlayerCall (SetUrl None)]"
proof (cases "\<exists>m. in_message_ok (Some m) \<and> serialize put_in_message (Some m) = Some bs")
  case True
  then obtain m where m: "in_message_ok (Some m)" "serialize put_in_message (Some m) = Some bs" by blast
  then have "stub_response now m \<noteq> Some [PlayerCall (SetUrl None)]"
    by (auto simp: in_message_ok_iff stub_response_def in_types new_in_message_def bind_eq_Some_conv
        TimeCheckRequest_def SetUrlRequest_def PlayRequest_def PauseRequest_def SeekRequest_def)
  then show ?thesis using stub_handles [OF m] by simp
next
  case False
  then show ?thesis using stub_rejects [of bs junk now] by auto
qed

definition call_ok :: "player_call \<Rightarrow> bool" where
  "call_ok c \<longleftrightarrow>
    (case c of SetUrl url \<Rightarrow> url \<noteq> None \<and> length (the url) < 2 ^ 64
     | Seek p \<Rightarrow> in_i64 p
     | _ \<Rightarrow> True)"

text \<open>
  C25. The calls a client makes on the proxy are made on the remote player, in the same order and
  with the same arguments: each call is sent as one message, and the stub answers that message
  with exactly that call. The call that is left out is \<open>SetUrl\<close> with a null url: no message stands for it
  (\<open>null_url_never_arrives\<close>).
\<close>

theorem proxy_calls_reach_the_player:
  assumes "list_all call_ok calls"
  shows "\<exists>messages. map proxy_call calls = map Some messages \<and>
    map (stub_handle_message junk now) messages = map (\<lambda>c. Some [PlayerCall c]) calls"
  using assms
proof (induction calls)
  case (Cons c calls)
  then obtain messages where m: "map proxy_call calls = map Some messages"
    "map (stub_handle_message junk now) messages = map (\<lambda>c. Some [PlayerCall c]) calls" by auto
  have ok: "in_message_ok (Some (proxy_message c))"
    using Cons.prems by (cases c) (auto simp: in_message_ok_iff call_ok_def)
  then obtain bs where bs: "serialize put_in_message (Some (proxy_message c)) = Some bs"
    using in_message.serialized by blast
  have "stub_response now (proxy_message c) = Some [PlayerCall c]"
    by (cases c) (simp_all add: stub_response_def in_types new_in_message_def SetUrlRequest_def
        PlayRequest_def PauseRequest_def SeekRequest_def)
  then have "stub_handle_message junk now bs = Some [PlayerCall c]" using stub_handles[OF ok bs] by simp
  moreover have "proxy_call c = Some bs" using bs by (simp add: proxy_call_def)
  ultimately show ?case using m by (intro exI[of _ "bs # messages"]) simp
qed simp

lemma proxy_calls_reach_the_player_witness:
  "\<exists>messages. map proxy_call [SetUrl (Some [104, 116]), Play, Seek (- 5), Pause] = map Some messages \<and>
    map (stub_handle_message \<lparr>junk_bool = True, junk_size = 9\<rparr> 0) messages =
      map (\<lambda>c. Some [PlayerCall c]) [SetUrl (Some [104, 116]), Play, Seek (- 5), Pause]"
  by (rule proxy_calls_reach_the_player) (simp add: call_ok_def in_i64_def)

text \<open>
  C32. The stub survives any message: whatever bytes arrive, handling them returns without a
  failed check, and it closes the channel exactly when they are not one of the messages a
  proxy can send.
\<close>

theorem stub_survives_any_message:
  assumes "in_i64 now"
  shows "\<exists>actions. stub_handle_message junk now bs = Some actions \<and>
    (StubCloseChannel \<in> set actions \<longleftrightarrow>
      (\<nexists>m. in_message_ok (Some m) \<and> serialize put_in_message (Some m) = Some bs)) \<and>
    (StubCloseChannel \<in> set actions \<longrightarrow> actions = [StubCloseChannel])"
proof (cases "\<exists>m. in_message_ok (Some m) \<and> serialize put_in_message (Some m) = Some bs")
  case False
  then show ?thesis using stub_rejects[of bs junk now] by auto
next
  case True
  then obtain m where m: "in_message_ok (Some m)" "serialize put_in_message (Some m) = Some bs" by blast
  have "\<exists>actions. stub_response now m = Some actions \<and> StubCloseChannel \<notin> set actions"
  proof (cases "\<exists>t. in_i64 t \<and> m = TimeCheckRequest t")
    case t: True
    then obtain t where t: "in_i64 t" "m = TimeCheckRequest t" by blast
    have "out_message_ok (Some (TimeCheckResponse t now))"
      using t(1) assms by (auto simp: out_message_ok_iff)
    then show ?thesis
      using t(2) out_message.serialized
      by (auto simp: stub_response_def TimeCheckRequest_def PlayRequest_def PauseRequest_def in_types new_in_message_def)
  qed (use m(1) in \<open>auto simp: in_message_ok_iff stub_response_def in_types new_in_message_def
        SetUrlRequest_def PlayRequest_def PauseRequest_def SeekRequest_def\<close>)
  then show ?thesis using stub_handles[OF m, of junk now] True by auto
qed

lemma stub_survives_any_message_witness:
  "\<exists>actions. stub_handle_message \<lparr>junk_bool = True, junk_size = 9\<rparr> 7 [9, 9] = Some actions"
  using stub_survives_any_message [of 7 "\<lparr>junk_bool = True, junk_size = 9\<rparr>" "[9, 9]"] by (auto simp: in_i64_def)

definition clock_error :: "int \<Rightarrow> int \<Rightarrow> int" where
  "clock_error d1 d2 = (d1 + d2) div 2 - d1"

lemma clock_error_half_difference: "2 * clock_error d1 d2 \<in> {d2 - d1, d2 - d1 - 1}"
  unfolding clock_error_def by auto

lemma mk_function_1_1: "mk_function rt st 1 1 = Some \<lparr>reference_time = rt, subject_time = st,
    rate = \<lparr>subject_delta = 1, reference_delta = 1\<rparr>\<rparr>"
proof -
  obtain t where "mk_rate 1 1 = Some t" "unat (subject_delta t) = 1" "unat (reference_delta t) = 1"
    using mk_rate_correct[of 1 1] by auto
  then have "mk_rate 1 1 = Some \<lparr>subject_delta = 1, reference_delta = 1\<rparr>"
    by (cases t) (simp add: word_unat_eq_iff)
  then show ?thesis by (simp add: mk_function_def)
qed

lemma unit_rate_apply:
  assumes "in_i64 (x - rt)" "x - rt \<noteq> i64_min" "in_i64 (x - rt + st)"
  shows "tf_apply \<lparr>reference_time = rt, subject_time = st, rate = \<lparr>subject_delta = 1, reference_delta = 1\<rparr>\<rparr> x
    = Some (x - rt + st)"
  using assms tf_apply_fits[of "\<lparr>reference_time = rt, subject_time = st,
      rate = \<lparr>subject_delta = 1, reference_delta = 1\<rparr>\<rparr>" x]
  by (simp add: tf_ok_def rate_ok_def tf_fits_def tf_ideal_def in_i64_def)

text \<open>
  C37. The clocks. When the proxy's time check takes \<open>d1\<close> to reach the stub and the answer takes
  \<open>d2\<close> to come back, and the remote clock is ahead of the local one by \<open>off\<close>, the proxy
  afterwards translates every remote time \<open>x\<close> into the local time \<open>x - off\<close> with one fixed
  error: half the difference of the two transit times.
\<close>

theorem time_check_estimates_remote_clock:
  assumes "0 \<le> d1" "0 \<le> d2" "in_i64 t0" "in_i64 (t0 + d1 + d2)" "in_i64 (d1 + d2)" "in_i64 (t0 + d1 + off)"
  shows "\<exists>request response p'.
    send_time_check_message t0 = Some request \<and>
    stub_handle_message junk (t0 + d1 + off) request = Some [StubSend response, PlayerGetStatus kInitialStatus] \<and>
    proxy_handle_message junk (t0 + d1 + d2) response p = Some ([], p') \<and>
    (\<forall>x. in_i64 (x - (t0 + d1 + off)) \<and> x - (t0 + d1 + off) \<noteq> i64_min \<and> in_i64 (x - off + clock_error d1 d2) \<longrightarrow>
      tf_apply (px_remote_to_local p') x = Some (x - off + clock_error d1 d2)) \<and>
    \<bar>2 * clock_error d1 d2\<bar> \<le> \<bar>d2 - d1\<bar> + 1"
proof -
  have in_ok: "in_message_ok (Some (TimeCheckRequest t0))"
    using assms(3) by (auto simp: in_message_ok_iff)
  then obtain request where request: "serialize put_in_message (Some (TimeCheckRequest t0)) = Some request"
    using in_message.serialized by blast
  have out_ok: "out_message_ok (Some (TimeCheckResponse t0 (t0 + d1 + off)))"
    using assms by (auto simp: out_message_ok_iff)
  then obtain response where
    response: "serialize put_out_message (Some (TimeCheckResponse t0 (t0 + d1 + off))) = Some response"
    using out_message.serialized by blast
  have stub: "stub_handle_message junk (t0 + d1 + off) request = Some [StubSend response, PlayerGetStatus kInitialStatus]"
    using stub_handles[OF in_ok request, of junk "t0 + d1 + off"] response
    by (simp add: stub_response_def TimeCheckRequest_def PlayRequest_def PauseRequest_def in_types new_in_message_def)
  let ?f = "\<lparr>reference_time = t0 + d1 + off, subject_time = t0 + (d1 + d2) div 2,
      rate = \<lparr>subject_delta = 1, reference_delta = 1\<rparr>\<rparr>"
  let ?p = "p\<lparr>px_remote_to_local := ?f\<rparr>"
  have "in_i64 (t0 + (d1 + d2) div 2)" using assms by (auto simp: in_i64_def)
  then have tc: "proxy_time_check (t0 + d1 + d2) \<lparr>rs_requestor_time = t0, rs_responder_time = t0 + d1 + off\<rparr> p = Some ?p"
    using assms by (simp add: proxy_time_check_def i64_sub_def i64_add_def half_def mk_function_1_1)
  have "proxy_handle_message junk (t0 + d1 + d2) response p = Some ([], ?p)"
    using out_message.deserialize_serialized(1)[OF out_ok response, of junk]
      out_message.deserialize_serialized(2)[OF out_ok response] tc
    by (simp add: proxy_handle_message_def TimeCheckResponse_def new_out_message_def out_types)
  moreover have "tf_apply ?f x = Some (x - off + clock_error d1 d2)"
    if "in_i64 (x - (t0 + d1 + off))" "x - (t0 + d1 + off) \<noteq> i64_min" "in_i64 (x - off + clock_error d1 d2)" for x
    using unit_rate_apply[OF that(1,2), of "t0 + (d1 + d2) div 2"] that(3)
    by (simp add: clock_error_def algebra_simps)
  moreover have "\<bar>2 * clock_error d1 d2\<bar> \<le> \<bar>d2 - d1\<bar> + 1"
    using clock_error_half_difference[of d1 d2] by auto
  ultimately show ?thesis using request stub
    by (intro exI[of _ request] exI[of _ response] exI[of _ ?p]) (auto simp: send_time_check_message_def)
qed

lemma time_check_estimates_remote_clock_witness:
  "\<exists>request response p' :: nat net_proxy.
    send_time_check_message 1000 = Some request \<and>
    stub_handle_message \<lparr>junk_bool = True, junk_size = 9\<rparr> 501030 request = Some [StubSend response, PlayerGetStatus kInitialStatus] \<and>
    proxy_handle_message \<lparr>junk_bool = True, junk_size = 9\<rparr> 1050 response (\<lparr>px_publisher = \<lparr>version = 1, pending_callbacks = [5 :: nat]\<rparr>, px_status = \<lparr>ps_timeline_transform = None, ps_end_of_stream = True,
      ps_content_has_audio = True, ps_content_has_video = False, ps_audio_connected = True,
      ps_video_connected = False, ps_metadata = None, ps_problem = None\<rparr>,
        px_remote_to_local = default_function\<rparr>) = Some ([], p') \<and>
    tf_apply (px_remote_to_local p') 600000 = Some 99995"
proof -
  from time_check_estimates_remote_clock [of 30 20 1000 500000 "\<lparr>junk_bool = True, junk_size = 9\<rparr>" "\<lparr>px_publisher = \<lparr>version = 1, pending_callbacks = [5 :: nat]\<rparr>, px_status = \<lparr>ps_timeline_transform = None, ps_end_of_stream = True,
      ps_content_has_audio = True, ps_content_has_video = False, ps_audio_connected = True,
      ps_video_connected = False, ps_metadata = None, ps_problem = None\<rparr>,
        px_remote_to_local = default_function\<rparr>"]
  obtain request response p' where
    "send_time_check_message 1000 = Some request"
    "stub_handle_message \<lparr>junk_bool = True, junk_size = 9\<rparr> 501030 request = Some [StubSend response, PlayerGetStatus kInitialStatus]"
    "proxy_handle_message \<lparr>junk_bool = True, junk_size = 9\<rparr> 1050 response (\<lparr>px_publisher = \<lparr>version = 1, pending_callbacks = [5 :: nat]\<rparr>, px_status = \<lparr>ps_timeline_transform = None, ps_end_of_stream = True,
      ps_content_has_audio = True, ps_content_has_video = False, ps_audio_connected = True,
      ps_video_connected = False, ps_metadata = None, ps_problem = None\<rparr>,
        px_remote_to_local = default_function\<rparr>) = Some ([], p')"
    "\<forall>x. in_i64 (x - 501030) \<and> x - 501030 \<noteq> i64_min \<and> in_i64 (x - 500000 + clock_error 30 20) \<longrightarrow>
      tf_apply (px_remote_to_local p') x = Some (x - 500000 + clock_error 30 20)"
    by (auto simp: in_i64_def)
  then show ?thesis by (auto simp: in_i64_def clock_error_def dest: spec[of _ 600000])
qed

text \<open>
  A status the remote player reports reaches every waiting client of the proxy: the stub
  sends it as one message and asks for the next one, and the proxy then calls each pending
  callback once, in order, with the next version number and the status, its reference time
  translated into local time, and keeps it for clients that ask later.
\<close>

theorem status_reaches_every_client:
  assumes "status_ok (Some status)" "in_i64 now"
    and "localize_status (px_remote_to_local p) status = Some status'"
  shows "\<exists>message. handle_status_updates ver (Some status) = Some [StubSend message, PlayerGetStatus ver] \<and>
    proxy_handle_message junk now message p = Some
      (map (\<lambda>cb. StatusCallback cb (version (px_publisher p) + 1) status') (pending_callbacks (px_publisher p)),
       p\<lparr>px_status := status',
         px_publisher := \<lparr>version = version (px_publisher p) + 1, pending_callbacks = []\<rparr>\<rparr>)"
proof -
  have ok: "out_message_ok (Some (StatusNotification (Some status)))"
    using assms(1) by (auto simp: out_message_ok_iff)
  then obtain bs where bs: "serialize put_out_message (Some (StatusNotification (Some status))) = Some bs"
    using out_message.serialized by blast
  have "proxy_status_notification status p = Some
      (map (\<lambda>cb. StatusCallback cb (version (px_publisher p) + 1) status') (pending_callbacks (px_publisher p)),
       p\<lparr>px_status := status',
         px_publisher := \<lparr>version = version (px_publisher p) + 1, pending_callbacks = []\<rparr>\<rparr>)"
    using assms(3)
    by (simp add: proxy_status_notification_def send_updates_def run_status_callbacks_with_def comp_def Let_def)
  then have "proxy_handle_message junk now bs p = Some
      (map (\<lambda>cb. StatusCallback cb (version (px_publisher p) + 1) status') (pending_callbacks (px_publisher p)),
       p\<lparr>px_status := status',
         px_publisher := \<lparr>version = version (px_publisher p) + 1, pending_callbacks = []\<rparr>\<rparr>)"
    using out_message.deserialize_serialized(1)[OF ok bs, of junk] out_message.deserialize_serialized(2)[OF ok bs]
    by (simp add: proxy_handle_message_def StatusNotification_def new_out_message_def out_types)
  then show ?thesis using bs by (auto simp: handle_status_updates_def)
qed

lemma status_reaches_every_client_witness:
  "\<exists>message. handle_status_updates 3 (Some \<lparr>ps_timeline_transform = None, ps_end_of_stream = True,
      ps_content_has_audio = True, ps_content_has_video = False, ps_audio_connected = True,
      ps_video_connected = False, ps_metadata = None, ps_problem = None\<rparr>)
      = Some [StubSend message, PlayerGetStatus 3]"
  using status_reaches_every_client [of "\<lparr>ps_timeline_transform = None, ps_end_of_stream = True,
      ps_content_has_audio = True, ps_content_has_video = False, ps_audio_connected = True,
      ps_video_connected = False, ps_metadata = None, ps_problem = None\<rparr>" 0
      "\<lparr>px_publisher = \<lparr>version = 1, pending_callbacks = [5 :: nat]\<rparr>, px_status = \<lparr>ps_timeline_transform = None, ps_end_of_stream = True,
      ps_content_has_audio = True, ps_content_has_video = False, ps_audio_connected = True,
      ps_video_connected = False, ps_metadata = None, ps_problem = None\<rparr>,
        px_remote_to_local = default_function\<rparr>" _ 3]
  by (auto simp: status_ok_def localize_status_def in_i64_def)

text \<open>
  A presence byte other than 0 and 1 in a status notification is copied into a \<open>bool\<close>
  unchecked: handling such a message is undefined behaviour, whatever follows.
\<close>

theorem status_with_bad_bool_is_undefined:
  assumes "b \<noteq> 0" "b \<noteq> 1"
  shows "proxy_handle_message junk now (kStatusNotification # b # rest) p = None"
  using assms
  by (simp add: proxy_handle_message_def get_out_message_def get_u8_def get_bytes_result remaining_def
      new_deserializer_def consume_def out_types get_status_notification_def get_status_def get_optional_def
      get_bool_def Let_def)

lemma status_with_bad_bool_is_undefined_witness:
  "proxy_handle_message (\<lparr>junk_bool = True, junk_size = 9\<rparr>) 0 (kStatusNotification # 2 # []) (\<lparr>px_publisher = \<lparr>version = 1, pending_callbacks = [5 :: nat]\<rparr>, px_status = \<lparr>ps_timeline_transform = None, ps_end_of_stream = True,
      ps_content_has_audio = True, ps_content_has_video = False, ps_audio_connected = True,
      ps_video_connected = False, ps_metadata = None, ps_problem = None\<rparr>,
        px_remote_to_local = default_function\<rparr>) = None"
  by (rule status_with_bad_bool_is_undefined) simp_all

end
