(* ===== verification/Shared_Buffers.thy ===== *)
theory Shared_Buffers
  imports Fifo_Allocator Ordered_Map
begin

text \<open>
  Buffers shared between the two ends of a packet connection: \<open>MappedSharedBuffer\<close>
  (lib/transport/mapped_shared_buffer.h, .cc) and \<open>SharedBufferSet\<close>
  (lib/transport/shared_buffer_set.h, .cc).

  The kernel is a parameter: an \<open>os_reply\<close> holds what its calls answer during one operation
  (creating, committing, sizing, mapping and duplicating a vmo, and unmapping a range). Addresses
  and sizes are naturals; where the code computes with them at 64 or 32 bits and could wrap, the
  \<open>mod\<close> is written out. A vmo handle is a natural, 0 being \<open>MX_HANDLE_INVALID\<close>.
\<close>

section \<open>The kernel's answers\<close>

datatype mx_status = MX_OK | MX_ERR_OUT_OF_RANGE | MX_ERR nat

record os_reply =
  create_status :: mx_status
  created_vmo :: nat
  commit_status :: mx_status
  get_size_status :: mx_status
  vmo_size :: nat
  map_status :: mx_status
  map_address :: nat
  duplicate_vmo :: nat
  unmap_status :: "nat \<Rightarrow> mx_status"

section \<open>MappedSharedBuffer\<close>

definition kMaxBufferLen :: nat where
  "kMaxBufferLen = 0x3FFFFFFFFFFFFFFF"

record mapped_buffer =
  buffer_ptr :: nat
  mapped_size :: nat
  vmo_handle :: nat

definition kernel_grants :: "os_reply \<Rightarrow> bool" where
  "kernel_grants r \<longleftrightarrow> create_status r = MX_OK \<and> commit_status r = MX_OK \<and> get_size_status r = MX_OK \<and>
     0 < vmo_size r \<and> vmo_size r \<le> kMaxBufferLen \<and> map_status r = MX_OK"

definition new_mapped_buffer :: mapped_buffer where
  "new_mapped_buffer = \<lparr>buffer_ptr = 0, mapped_size = 0, vmo_handle = 0\<rparr>"

definition initialized :: "mapped_buffer \<Rightarrow> bool" where
  "initialized b \<longleftrightarrow> buffer_ptr b \<noteq> 0"

definition mapped_reset :: "os_reply \<Rightarrow> mapped_buffer \<Rightarrow> mapped_buffer option" where
  "mapped_reset r b = do {
     (if buffer_ptr b \<noteq> 0 then do {
        dcheck (mapped_size b \<noteq> 0);
        dcheck (unmap_status r (buffer_ptr b) = MX_OK)
      } else Some ());
     Some \<lparr>buffer_ptr = 0, mapped_size = 0, vmo_handle = 0\<rparr>
   }"

definition init_internal :: "os_reply \<Rightarrow> nat \<Rightarrow> mapped_buffer \<Rightarrow> (mx_status \<times> mapped_buffer) option" where
  "init_internal r vmo b = do {
     b \<leftarrow> mapped_reset r b;
     (if get_size_status r \<noteq> MX_OK then Some (get_size_status r, b)
      else if vmo_size r = 0 \<or> kMaxBufferLen < vmo_size r then Some (MX_ERR_OUT_OF_RANGE, b)
      else let b = b\<lparr>mapped_size := vmo_size r\<rparr> in
        if map_status r \<noteq> MX_OK then Some (map_status r, b)
        else Some (MX_OK, b\<lparr>buffer_ptr := map_address r, vmo_handle := vmo\<rparr>))
   }"

definition init_new :: "os_reply \<Rightarrow> nat \<Rightarrow> mapped_buffer \<Rightarrow> (mx_status \<times> mapped_buffer) option" where
  "init_new r sz b = do {
     dcheck (0 < sz);
     (if create_status r \<noteq> MX_OK then Some (create_status r, b)
      else if commit_status r \<noteq> MX_OK then Some (commit_status r, b)
      else init_internal r (created_vmo r) b)
   }"

definition init_from_vmo :: "os_reply \<Rightarrow> nat \<Rightarrow> mapped_buffer \<Rightarrow> (mx_status \<times> mapped_buffer) option" where
  "init_from_vmo r vmo b = init_internal r vmo b"

definition get_duplicate_vmo :: "os_reply \<Rightarrow> mapped_buffer \<Rightarrow> nat option" where
  "get_duplicate_vmo r b = do { dcheck (initialized b); Some (duplicate_vmo r) }"

definition buffer_validate :: "nat \<Rightarrow> nat \<Rightarrow> mapped_buffer \<Rightarrow> bool option" where
  "buffer_validate off sz b = do {
     dcheck (buffer_ptr b \<noteq> 0);
     Some (off < mapped_size b \<and> sz \<le> mapped_size b - off)
   }"

text \<open>The null pointer is 0.\<close>

definition ptr_from_offset :: "nat \<Rightarrow> mapped_buffer \<Rightarrow> nat option" where
  "ptr_from_offset off b = do {
     dcheck (buffer_ptr b \<noteq> 0);
     (if off = kNullOffset then Some 0
      else do { dcheck (off < mapped_size b); Some (buffer_ptr b + off) })
   }"

definition offset_from_ptr :: "nat \<Rightarrow> mapped_buffer \<Rightarrow> nat option" where
  "offset_from_ptr p b = do {
     dcheck (buffer_ptr b \<noteq> 0);
     (if p = 0 then Some kNullOffset
      else let off = (2 ^ 64 + p - buffer_ptr b) mod 2 ^ 64 in
        do { dcheck (off < mapped_size b); Some off })
   }"

section \<open>SharedBufferSet\<close>

text \<open>A locator is a buffer id and an offset into that buffer.\<close>

datatype locator = Locator (buffer_id: nat) (loc_offset: nat)

definition null_locator :: locator where
  "null_locator = Locator 0 kNullOffset"

definition is_null :: "locator \<Rightarrow> bool" where
  "is_null l \<longleftrightarrow> loc_offset l = kNullOffset"

record shared_buffer_set =
  mapped_buffers :: "mapped_buffer option list"
  ids_by_base :: "nat omap"

definition buffer_set_init :: shared_buffer_set where
  "buffer_set_init = \<lparr>mapped_buffers = [], ids_by_base = []\<rparr>"

text \<open>\<open>vector::resize\<close>: shrinking drops the elements at the end, growing adds null pointers.\<close>

definition resize :: "nat \<Rightarrow> 'a \<Rightarrow> 'a list \<Rightarrow> 'a list" where
  "resize n x xs = take n xs @ replicate (n - length xs) x"

definition buffer_at :: "'a shared_buffer_set_scheme \<Rightarrow> nat \<Rightarrow> mapped_buffer option" where
  "buffer_at s i = (if i < length (mapped_buffers s) then mapped_buffers s ! i else None)"

text \<open>The private \<open>AddBuffer\<close>, which files a mapped buffer under an id. The slot must exist.\<close>

definition insert_buffer :: "nat \<Rightarrow> mapped_buffer \<Rightarrow> 'a shared_buffer_set_scheme \<Rightarrow> 'a shared_buffer_set_scheme option" where
  "insert_buffer i b s = do {
     base \<leftarrow> ptr_from_offset 0 b;
     dcheck (i < length (mapped_buffers s));
     Some (s\<lparr>ids_by_base := map_insert base i (ids_by_base s),
             mapped_buffers := (mapped_buffers s)[i := Some b]\<rparr>)
   }"

text \<open>An id of \<open>2^32 - 1\<close> wraps the new size to 0, which empties the list; that the emptied buffers are
  unmapped is no part of the state of a set.\<close>

definition add_buffer :: "os_reply \<Rightarrow> nat \<Rightarrow> nat \<Rightarrow> 'a shared_buffer_set_scheme \<Rightarrow> (mx_status \<times> 'a shared_buffer_set_scheme) option" where
  "add_buffer r i vmo s = do {
     s \<leftarrow> (if length (mapped_buffers s) \<le> i
           then Some (s\<lparr>mapped_buffers := resize ((i + 1) mod 2 ^ 32) None (mapped_buffers s)\<rparr>)
           else do { dcheck (mapped_buffers s ! i = None); Some s });
     (st, b) \<leftarrow> init_from_vmo r vmo new_mapped_buffer;
     (if st = MX_OK then do { s \<leftarrow> insert_buffer i b s; Some (st, s) } else Some (st, s))
   }"

fun first_empty :: "'a option list \<Rightarrow> nat" where
  "first_empty [] = 0"
| "first_empty (b # bs) = (if b = None then 0 else Suc (first_empty bs))"

definition allocate_buffer_id :: "'a shared_buffer_set_scheme \<Rightarrow> nat \<times> 'a shared_buffer_set_scheme" where
  "allocate_buffer_id s =
     (let i = first_empty (mapped_buffers s)
      in (i, if i < length (mapped_buffers s) then s
             else s\<lparr>mapped_buffers := resize ((i + 1) mod 2 ^ 32) None (mapped_buffers s)\<rparr>))"

text \<open>The results are the status, the new buffer's id and a duplicate handle of its vmo.\<close>

definition create_new_buffer :: "os_reply \<Rightarrow> nat \<Rightarrow> 'a shared_buffer_set_scheme \<Rightarrow>
    (mx_status \<times> nat \<times> nat \<times> 'a shared_buffer_set_scheme) option" where
  "create_new_buffer r sz s = do {
     dcheck (sz \<noteq> 0);
     let (i, s) = allocate_buffer_id s;
     (st, b) \<leftarrow> init_new r sz new_mapped_buffer;
     (if st = MX_OK then do {
        vmo \<leftarrow> get_duplicate_vmo r b;
        s \<leftarrow> insert_buffer i b s;
        Some (st, i, vmo, s)
      } else Some (st, 0, 0, s))
   }"

definition remove_buffer :: "os_reply \<Rightarrow> nat \<Rightarrow> 'a shared_buffer_set_scheme \<Rightarrow> 'a shared_buffer_set_scheme option" where
  "remove_buffer r i s = do {
     dcheck (i < length (mapped_buffers s));
     b \<leftarrow> mapped_buffers s ! i;
     base \<leftarrow> ptr_from_offset 0 b;
     _ \<leftarrow> mapped_reset r b;
     Some (s\<lparr>ids_by_base := map_erase base (ids_by_base s),
             mapped_buffers := (mapped_buffers s)[i := None]\<rparr>)
   }"

text \<open>\<open>Reset\<close> destroys every buffer, which unmaps it.\<close>

fun destroy_buffers :: "os_reply \<Rightarrow> mapped_buffer option list \<Rightarrow> unit option" where
  "destroy_buffers r [] = Some ()"
| "destroy_buffers r (None # bs) = destroy_buffers r bs"
| "destroy_buffers r (Some b # bs) = do { _ \<leftarrow> mapped_reset r b; destroy_buffers r bs }"

definition buffer_set_reset :: "os_reply \<Rightarrow> 'a shared_buffer_set_scheme \<Rightarrow> 'a shared_buffer_set_scheme option" where
  "buffer_set_reset r s = do {
     destroy_buffers r (mapped_buffers s);
     Some (s\<lparr>mapped_buffers := [], ids_by_base := []\<rparr>)
   }"

definition set_validate :: "locator \<Rightarrow> nat \<Rightarrow> 'a shared_buffer_set_scheme \<Rightarrow> bool option" where
  "set_validate l sz s =
     (if is_null l \<or> length (mapped_buffers s) \<le> buffer_id l then Some False
      else case mapped_buffers s ! buffer_id l of
        None \<Rightarrow> Some False
      | Some b \<Rightarrow> buffer_validate (loc_offset l) sz b)"

definition ptr_from_locator :: "locator \<Rightarrow> 'a shared_buffer_set_scheme \<Rightarrow> nat option" where
  "ptr_from_locator l s =
     (if is_null l then Some 0
      else do {
        dcheck (buffer_id l < length (mapped_buffers s));
        b \<leftarrow> mapped_buffers s ! buffer_id l;
        ptr_from_offset (loc_offset l) b
      })"

definition locator_from_ptr :: "nat \<Rightarrow> 'a shared_buffer_set_scheme \<Rightarrow> locator option" where
  "locator_from_ptr p s =
     (if p = 0 then Some null_locator
      else do {
        dcheck (ids_by_base s \<noteq> []);
        dcheck (next_key p (ids_by_base s) \<noteq> map_begin (ids_by_base s));
        base \<leftarrow> prev_key (next_key p (ids_by_base s)) (ids_by_base s);
        i \<leftarrow> map_of (ids_by_base s) base;
        dcheck (i < length (mapped_buffers s));
        b \<leftarrow> mapped_buffers s ! i;
        off \<leftarrow> offset_from_ptr p b;
        Some (Locator i off)
      })"

section \<open>The invariant\<close>

text \<open>A mapped buffer occupies a range of addresses, and the live buffers' ranges are disjoint.\<close>

definition sound_buffer :: "mapped_buffer \<Rightarrow> bool" where
  "sound_buffer b \<longleftrightarrow> 0 < buffer_ptr b \<and> 0 < mapped_size b \<and> mapped_size b \<le> kMaxBufferLen \<and>
     buffer_ptr b + mapped_size b \<le> 2 ^ 64"

definition apart :: "mapped_buffer \<Rightarrow> mapped_buffer \<Rightarrow> bool" where
  "apart b c \<longleftrightarrow> buffer_ptr b + mapped_size b \<le> buffer_ptr c \<or> buffer_ptr c + mapped_size c \<le> buffer_ptr b"

definition buffers_ok :: "'a shared_buffer_set_scheme \<Rightarrow> bool" where
  "buffers_ok s \<longleftrightarrow> omap_ok (ids_by_base s) \<and> length (mapped_buffers s) < 2 ^ 32 \<and>
     (\<forall>base i. (base, i) \<in> set (ids_by_base s) \<longleftrightarrow>
        (\<exists>b. buffer_at s i = Some b \<and> buffer_ptr b = base)) \<and>
     (\<forall>i b. buffer_at s i = Some b \<longrightarrow> sound_buffer b) \<and>
     (\<forall>i j b c. buffer_at s i = Some b \<longrightarrow> buffer_at s j = Some c \<longrightarrow> i \<noteq> j \<longrightarrow> apart b c)"

text \<open>
  What the code relies on in the kernel: a mapping is a non-null range of the vmo's size that
  overlaps no other mapping of the process, a new vmo is at least as large as asked for, and a
  mapped range can be unmapped.
\<close>

definition kernel_ok :: "os_reply \<Rightarrow> nat \<Rightarrow> (nat \<rightharpoonup> mapped_buffer) \<Rightarrow> bool" where
  "kernel_ok r sz mapped \<longleftrightarrow> sz \<le> vmo_size r \<and> 0 < map_address r \<and> map_address r + vmo_size r \<le> 2 ^ 64 \<and>
     (\<forall>a. unmap_status r a = MX_OK) \<and>
     (\<forall>i b. mapped i = Some b \<longrightarrow>
        apart b \<lparr>buffer_ptr = map_address r, mapped_size = vmo_size r, vmo_handle = 0\<rparr>)"

lemma buffers_ok_init: "buffers_ok buffer_set_init"
  by (simp add: buffers_ok_def buffer_set_init_def buffer_at_def)

lemma kMaxBufferLen_less: "kMaxBufferLen < kNullOffset"
  by (simp add: kMaxBufferLen_def kNullOffset_def)

lemma sound_bufferD:
  assumes "sound_buffer b"
  shows "0 < buffer_ptr b" "0 < mapped_size b" "mapped_size b < kNullOffset"
    "buffer_ptr b + mapped_size b \<le> 2 ^ 64"
  using assms kMaxBufferLen_less by (auto simp: sound_buffer_def)

lemma sound_base: "sound_buffer b \<Longrightarrow> ptr_from_offset 0 b = Some (buffer_ptr b)"
  by (simp add: ptr_from_offset_def sound_buffer_def kNullOffset_def)

lemma buffer_at_Some: "buffer_at s i = Some b \<longleftrightarrow> i < length (mapped_buffers s) \<and> mapped_buffers s ! i = Some b"
  by (simp add: buffer_at_def)

lemma buffers_ok_sound: "buffers_ok s \<Longrightarrow> buffer_at s i = Some b \<Longrightarrow> sound_buffer b"
  unfolding buffers_ok_def by blast

lemma buffers_ok_apart:
  "buffers_ok s \<Longrightarrow> buffer_at s i = Some b \<Longrightarrow> buffer_at s j = Some c \<Longrightarrow> i \<noteq> j \<Longrightarrow> apart b c"
  unfolding buffers_ok_def by blast

lemma buffers_ok_base:
  "buffers_ok s \<Longrightarrow> (base, i) \<in> set (ids_by_base s) \<longleftrightarrow> (\<exists>b. buffer_at s i = Some b \<and> buffer_ptr b = base)"
  unfolding buffers_ok_def by blast

lemma buffers_ok_omap: "buffers_ok s \<Longrightarrow> omap_ok (ids_by_base s)"
  unfolding buffers_ok_def by blast

lemma buffers_ok_cong:
  "mapped_buffers s = mapped_buffers t \<Longrightarrow> ids_by_base s = ids_by_base t \<Longrightarrow> buffers_ok s = buffers_ok t"
  by (simp add: buffers_ok_def buffer_at_def)

lemma buffer_at_frame [simp]:
  "buffer_at (s\<lparr>ids_by_base := m\<rparr>) = buffer_at s"
  by (simp add: buffer_at_def fun_eq_iff)

lemma buffer_at_upd:
  "i < length (mapped_buffers s) \<Longrightarrow>
   buffer_at (s\<lparr>mapped_buffers := (mapped_buffers s)[i := x]\<rparr>) = (buffer_at s)(i := x)"
  by (auto simp: buffer_at_def fun_eq_iff)

lemma length_resize [simp]: "length (resize n x xs) = n"
  by (simp add: resize_def)

lemma nth_resize: "i < n \<Longrightarrow> resize n x xs ! i = (if i < length xs then xs ! i else x)"
  by (simp add: resize_def nth_append)

lemma buffer_at_resize:
  "length (mapped_buffers s) \<le> n \<Longrightarrow>
   buffer_at (s\<lparr>mapped_buffers := resize n None (mapped_buffers s)\<rparr>) = buffer_at s"
  by (auto simp: buffer_at_def fun_eq_iff nth_resize)

section \<open>Adding and removing buffers\<close>

lemma insert_buffer_ok:
  assumes "buffers_ok s" "i < length (mapped_buffers s)" "buffer_at s i = None" "sound_buffer b"
    "\<And>j c. buffer_at s j = Some c \<Longrightarrow> apart c b"
  shows "\<exists>bs ids s'. insert_buffer i b s = Some s' \<and> s' = s\<lparr>ids_by_base := ids, mapped_buffers := bs\<rparr> \<and>
    buffers_ok s' \<and> buffer_at s' = (buffer_at s)(i \<mapsto> b) \<and> length bs = length (mapped_buffers s)"
proof -
  have new: "buffer_ptr b \<notin> keys (ids_by_base s)"
  proof
    assume "buffer_ptr b \<in> keys (ids_by_base s)"
    then obtain j c where c: "buffer_at s j = Some c" "buffer_ptr c = buffer_ptr b"
      using buffers_ok_base [OF assms(1)] by (auto simp: keys_iff)
    then show False
      using assms(5) [OF c(1)] sound_bufferD(2) [OF assms(4)] sound_bufferD(2) [OF buffers_ok_sound [OF assms(1) c(1)]]
      by (auto simp: apart_def)
  qed
  have set: "set (map_insert (buffer_ptr b) i (ids_by_base s)) = insert (buffer_ptr b, i) (set (ids_by_base s))"
    by (rule set_map_insert [OF buffers_ok_omap [OF assms(1)] new])
  have at: "buffer_at (s\<lparr>ids_by_base := ids, mapped_buffers := (mapped_buffers s)[i := Some b]\<rparr>) =
      (buffer_at s)(i \<mapsto> b)" for ids
    using assms(2) by (auto simp: buffer_at_def fun_eq_iff)
  let ?s = "s\<lparr>ids_by_base := map_insert (buffer_ptr b) i (ids_by_base s),
    mapped_buffers := (mapped_buffers s)[i := Some b]\<rparr>"
  have "buffers_ok ?s"
    unfolding buffers_ok_def at
  proof (intro conjI)
    show "omap_ok (ids_by_base ?s)" "length (mapped_buffers ?s) < 2 ^ 32"
      using assms(1) by (simp_all add: buffers_ok_def)
    show "\<forall>base j. (base, j) \<in> set (ids_by_base ?s) \<longleftrightarrow>
        (\<exists>c. ((buffer_at s)(i \<mapsto> b)) j = Some c \<and> buffer_ptr c = base)"
      using buffers_ok_base [OF assms(1)] assms(3) by (auto simp: set)
    show "\<forall>j c. ((buffer_at s)(i \<mapsto> b)) j = Some c \<longrightarrow> sound_buffer c"
      using assms(4) buffers_ok_sound [OF assms(1)] by simp
    show "\<forall>j k c d. ((buffer_at s)(i \<mapsto> b)) j = Some c \<longrightarrow> ((buffer_at s)(i \<mapsto> b)) k = Some d \<longrightarrow>
        j \<noteq> k \<longrightarrow> apart c d"
      using assms(5) buffers_ok_apart [OF assms(1)] by (auto simp: apart_def)
  qed
  then show ?thesis using assms(2) at by (auto simp: insert_buffer_def sound_base [OF assms(4)])
qed

lemma remove_buffer_ok:
  assumes "buffers_ok s" "buffer_at s i = Some b" "\<forall>a. unmap_status r a = MX_OK"
  shows "\<exists>bs ids s'. remove_buffer r i s = Some s' \<and> s' = s\<lparr>ids_by_base := ids, mapped_buffers := bs\<rparr> \<and>
    buffers_ok s' \<and> buffer_at s' = (buffer_at s)(i := None) \<and> length bs = length (mapped_buffers s)"
proof -
  note b = buffers_ok_sound [OF assms(1,2)]
  have i: "i < length (mapped_buffers s)" "mapped_buffers s ! i = Some b"
    using assms(2) by (simp_all add: buffer_at_Some)
  let ?s = "s\<lparr>ids_by_base := map_erase (buffer_ptr b) (ids_by_base s),
    mapped_buffers := (mapped_buffers s)[i := None]\<rparr>"
  have at: "buffer_at ?s = (buffer_at s)(i := None)"
    using i(1) by (auto simp: buffer_at_def fun_eq_iff)
  have "buffers_ok ?s"
    unfolding buffers_ok_def at
  proof (intro conjI)
    show "omap_ok (ids_by_base ?s)" "length (mapped_buffers ?s) < 2 ^ 32"
      using assms(1) by (simp_all add: buffers_ok_def)
    have other: "buffer_ptr c \<noteq> buffer_ptr b" if "buffer_at s j = Some c" "j \<noteq> i" for j c
      using buffers_ok_apart [OF assms(1) that(1) assms(2) that(2)] sound_bufferD(2) [OF b]
        sound_bufferD(2) [OF buffers_ok_sound [OF assms(1) that(1)]] by (auto simp: apart_def)
    show "\<forall>base j. (base, j) \<in> set (ids_by_base ?s) \<longleftrightarrow>
        (\<exists>c. ((buffer_at s)(i := None)) j = Some c \<and> buffer_ptr c = base)"
      using buffers_ok_base [OF assms(1)] assms(2) other by (auto simp: set_map_erase)
    show "\<forall>j c. ((buffer_at s)(i := None)) j = Some c \<longrightarrow> sound_buffer c"
      using buffers_ok_sound [OF assms(1)] by simp
    show "\<forall>j k c d. ((buffer_at s)(i := None)) j = Some c \<longrightarrow> ((buffer_at s)(i := None)) k = Some d \<longrightarrow>
        j \<noteq> k \<longrightarrow> apart c d"
      using buffers_ok_apart [OF assms(1)] by simp
  qed
  then show ?thesis
    using i at assms(3) sound_bufferD [OF b] by (auto simp: remove_buffer_def sound_base [OF b] mapped_reset_def)
qed

lemma first_empty_le: "first_empty bs \<le> length bs"
  by (induction bs) auto

lemma first_empty_None: "first_empty bs < length bs \<Longrightarrow> bs ! first_empty bs = None"
  by (induction bs) auto

lemma allocate_buffer_id_ok:
  assumes "buffers_ok s" "length (mapped_buffers s) < 2 ^ 32 - 1" "allocate_buffer_id s = (i, s')"
  shows "\<exists>bs. s' = s\<lparr>mapped_buffers := bs\<rparr> \<and> buffers_ok s' \<and> buffer_at s' = buffer_at s \<and>
    buffer_at s i = None \<and> i < length bs \<and> i \<le> length (mapped_buffers s) \<and>
    length bs = max (length (mapped_buffers s)) (Suc i)"
proof -
  let ?bs = "mapped_buffers s"
  have i: "i = first_empty ?bs" "i \<le> length ?bs"
    using assms(3) first_empty_le by (auto simp: allocate_buffer_id_def Let_def)
  then have none: "buffer_at s i = None" by (auto simp: buffer_at_def first_empty_None)
  show ?thesis
  proof (cases "i < length ?bs")
    case True
    then have "s' = s\<lparr>mapped_buffers := ?bs\<rparr>" using assms(3) i by (auto simp: allocate_buffer_id_def)
    then show ?thesis using True none assms(1) i by (intro exI [of _ ?bs]) auto
  next
    case False
    then have len: "i = length ?bs" "(i + 1) mod 2 ^ 32 = Suc (length ?bs)" using i assms(2) by auto
    then have s': "s' = s\<lparr>mapped_buffers := resize (Suc (length ?bs)) None ?bs\<rparr>"
      using assms(3) i by (auto simp: allocate_buffer_id_def Let_def)
    then have at: "buffer_at s' = buffer_at s" by (simp add: buffer_at_resize)
    then have "buffers_ok s'"
      using assms(1,2) s' by (simp add: buffers_ok_def)
    then show ?thesis using s' at none len by (intro exI [of _ "resize (Suc (length ?bs)) None ?bs"]) simp
  qed
qed

lemma init_new_ok:
  assumes "0 < sz"
  shows "\<exists>st b. init_new r sz new_mapped_buffer = Some (st, b) \<and>
    (st = MX_OK \<longleftrightarrow> kernel_grants r) \<and>
    (st = MX_OK \<longrightarrow> b = \<lparr>buffer_ptr = map_address r, mapped_size = vmo_size r, vmo_handle = created_vmo r\<rparr> \<and>
       0 < vmo_size r \<and> vmo_size r \<le> kMaxBufferLen)"
  using assms by (auto simp: kernel_grants_def init_new_def init_internal_def new_mapped_buffer_def mapped_reset_def Let_def)

lemma create_new_buffer_ok:
  assumes "buffers_ok s" "length (mapped_buffers s) < 2 ^ 32 - 1" "0 < sz" "kernel_ok r sz (buffer_at s)"
  shows "\<exists>st i vmo s' bs ids. create_new_buffer r sz s = Some (st, i, vmo, s') \<and>
    s' = s\<lparr>ids_by_base := ids, mapped_buffers := bs\<rparr> \<and> buffers_ok s' \<and> (st = MX_OK \<longleftrightarrow> kernel_grants r) \<and>
    length (mapped_buffers s) \<le> length bs \<and> length bs \<le> Suc (length (mapped_buffers s)) \<and>
    (if st = MX_OK
     then vmo = duplicate_vmo r \<and> buffer_at s i = None \<and> i \<le> length (mapped_buffers s) \<and>
       length bs = max (length (mapped_buffers s)) (Suc i) \<and> sz \<le> vmo_size r \<and>
       buffer_at s' = (buffer_at s)(i \<mapsto> \<lparr>buffer_ptr = map_address r, mapped_size = vmo_size r,
         vmo_handle = created_vmo r\<rparr>)
     else buffer_at s' = buffer_at s)"
proof -
  obtain i s1 where a: "allocate_buffer_id s = (i, s1)" by fastforce
  obtain bs1 where s1: "s1 = s\<lparr>mapped_buffers := bs1\<rparr>" "buffers_ok s1" "buffer_at s1 = buffer_at s"
    "buffer_at s i = None" "i < length bs1" "i \<le> length (mapped_buffers s)"
    "length bs1 = max (length (mapped_buffers s)) (Suc i)"
    using allocate_buffer_id_ok [OF assms(1,2) a] by auto
  obtain st b where n: "init_new r sz new_mapped_buffer = Some (st, b)"
    "st = MX_OK \<longleftrightarrow> kernel_grants r"
    "st = MX_OK \<longrightarrow> b = \<lparr>buffer_ptr = map_address r, mapped_size = vmo_size r, vmo_handle = created_vmo r\<rparr> \<and>
       0 < vmo_size r \<and> vmo_size r \<le> kMaxBufferLen"
    using init_new_ok [OF assms(3), of r] by blast
  show ?thesis
  proof (cases "st = MX_OK")
    case True
    then have b: "b = \<lparr>buffer_ptr = map_address r, mapped_size = vmo_size r, vmo_handle = created_vmo r\<rparr>"
      "sound_buffer b"
      using n(3) assms(4) by (auto simp: sound_buffer_def kernel_ok_def)
    then have ap: "apart c b" if "buffer_at s1 j = Some c" for j c
      using assms(4) that s1(3) by (auto simp: kernel_ok_def apart_def)
    have i1: "i < length (mapped_buffers s1)" "buffer_at s1 i = None" using s1 by simp_all
    have "\<exists>bs ids s'. insert_buffer i b s1 = Some s' \<and> s' = s1\<lparr>ids_by_base := ids, mapped_buffers := bs\<rparr> \<and>
        buffers_ok s' \<and> buffer_at s' = (buffer_at s1)(i \<mapsto> b) \<and> length bs = length (mapped_buffers s1)"
      by (rule insert_buffer_ok [OF s1(2) i1 b(2)]) (rule ap)
    then obtain bs ids s' where ins: "insert_buffer i b s1 = Some s'" "s' = s1\<lparr>ids_by_base := ids, mapped_buffers := bs\<rparr>"
      "buffers_ok s'" "buffer_at s' = (buffer_at s1)(i \<mapsto> b)" "length bs = length (mapped_buffers s1)"
      by blast
    have "initialized b" using b(2) by (simp add: initialized_def sound_buffer_def)
    then have "create_new_buffer r sz s = Some (st, i, duplicate_vmo r, s')"
      using assms(3) a n(1) True ins(1) by (simp add: create_new_buffer_def get_duplicate_vmo_def)
    moreover have "s' = s\<lparr>ids_by_base := ids, mapped_buffers := bs\<rparr>" using ins(2) s1(1) by simp
    ultimately show ?thesis using True ins s1 b(1) assms(4) n(2) by (auto simp: kernel_ok_def)
  next
    case False
    then have "create_new_buffer r sz s = Some (st, 0, 0, s1)"
      using assms(3) a n(1) by (simp add: create_new_buffer_def)
    moreover have "s1 = s\<lparr>ids_by_base := ids_by_base s, mapped_buffers := bs1\<rparr>" using s1(1) by simp
    ultimately show ?thesis using False s1 n(2)
      by (intro exI [of _ st] exI [of _ 0] exI [of _ s1] exI [of _ bs1] exI [of _ "ids_by_base s"] conjI) auto
  qed
qed

section \<open>Locators and pointers\<close>

lemma upper_bound_previous:
  assumes "buffers_ok s" "buffer_at s i = Some b" "off < mapped_size b"
  defines "p \<equiv> buffer_ptr b + off"
  shows "next_key p (ids_by_base s) \<noteq> map_begin (ids_by_base s)"
    and "prev_key (next_key p (ids_by_base s)) (ids_by_base s) = Some (buffer_ptr b)"
proof -
  let ?m = "ids_by_base s"
  note ok = buffers_ok_omap [OF assms(1)]
  have b: "(buffer_ptr b, i) \<in> set ?m" using assms(1,2) by (auto simp: buffers_ok_base)
  then have bk: "buffer_ptr b \<in> keys ?m" by (auto simp: keys_iff)
  have le: "buffer_ptr b \<le> p" "p < buffer_ptr b + mapped_size b" using assms(3) by (simp_all add: p_def)
  have nk: "p < k" if "next_key p ?m = Some k" for k using that next_key_Some [OF ok] by blast
  show "next_key p ?m \<noteq> map_begin ?m"
  proof
    assume eq: "next_key p ?m = map_begin ?m"
    obtain k where k: "map_begin ?m = Some k" using bk by (cases "map_begin ?m") auto
    then show False using map_begin_Some [OF ok k] nk eq bk le(1) by fastforce
  qed
  have below: "k \<le> buffer_ptr b" if k: "k \<in> keys ?m" "k \<le> p" for k
  proof -
    obtain j where "(k, j) \<in> set ?m" using k(1) by (auto simp: keys_iff)
    then obtain c where c: "buffer_at s j = Some c" "buffer_ptr c = k"
      unfolding buffers_ok_base [OF assms(1)] by blast
    show ?thesis
    proof (cases "j = i")
      case False
      then have "apart c b" using buffers_ok_apart assms(1,2) c(1) by blast
      then show ?thesis using k(2) le c(2) by (auto simp: apart_def)
    qed (use c assms(2) in simp)
  qed
  show "prev_key (next_key p ?m) ?m = Some (buffer_ptr b)"
  proof (cases "next_key p ?m")
    case None
    then have "\<forall>k \<in> keys ?m. k \<le> p" by (simp add: next_key_None)
    then show ?thesis using below bk None by (simp add: prev_key_Some [OF ok])
  next
    case (Some k)
    then have "p < k" "\<forall>k' \<in> keys ?m. p < k' \<longrightarrow> k \<le> k'" using next_key_Some [OF ok] by auto
    then show ?thesis using below bk Some le(1) by (fastforce simp: prev_key_Some [OF ok])
  qed
qed

lemma locator_of_address:
  assumes "buffers_ok s" "buffer_at s i = Some b" "off < mapped_size b"
  shows "locator_from_ptr (buffer_ptr b + off) s = Some (Locator i off)"
proof -
  note b = sound_bufferD [OF buffers_ok_sound [OF assms(1,2)]]
  have mem: "(buffer_ptr b, i) \<in> set (ids_by_base s)" using assms(1,2) by (auto simp: buffers_ok_base)
  then have "map_of (ids_by_base s) (buffer_ptr b) = Some i"
    using omap_mem [OF buffers_ok_omap [OF assms(1)]] by blast
  moreover have "offset_from_ptr (buffer_ptr b + off) b = Some off"
    using b assms(3) by (simp add: offset_from_ptr_def Let_def)
  ultimately show ?thesis
    using upper_bound_previous [OF assms] mem b(1) assms(2)
    by (auto simp: locator_from_ptr_def buffer_at_Some)
qed

lemma address_of_locator:
  assumes "buffers_ok s" "buffer_at s i = Some b" "off < mapped_size b"
  shows "ptr_from_locator (Locator i off) s = Some (buffer_ptr b + off)"
  using sound_bufferD [OF buffers_ok_sound [OF assms(1,2)]] assms(2,3)
  by (auto simp: ptr_from_locator_def is_null_def ptr_from_offset_def buffer_at_Some)

lemma validate_iff:
  assumes "buffers_ok s"
  shows "set_validate l n s = Some (\<exists>b. buffer_at s (buffer_id l) = Some b \<and>
    loc_offset l < mapped_size b \<and> loc_offset l + n \<le> mapped_size b)"
proof (cases "buffer_at s (buffer_id l)")
  case None
  then show ?thesis by (auto simp: set_validate_def buffer_at_def split: if_splits option.splits)
next
  case (Some b)
  then show ?thesis
    using sound_bufferD [OF buffers_ok_sound [OF assms Some]]
    by (auto simp: set_validate_def buffer_at_Some is_null_def buffer_validate_def)
qed

section \<open>Properties\<close>

text \<open>C34. \<open>SharedBufferSet::Validate\<close> decides exactly, for any locator and size a peer may send,
  whether the region lies inside a live buffer; its checks never fire. A region it accepts has a
  non-null address range inside that buffer's mapping, and \<open>LocatorFromPtr\<close> inverts
  \<open>PtrFromLocator\<close> on it.\<close>

theorem validated_locator_is_mapped:
  assumes "buffers_ok s"
  shows "\<exists>v. set_validate l n s = Some v \<and>
    (v \<longleftrightarrow> (\<exists>b. buffer_at s (buffer_id l) = Some b \<and> loc_offset l < mapped_size b \<and>
       loc_offset l + n \<le> mapped_size b)) \<and>
    (v \<longrightarrow> (\<exists>b p. buffer_at s (buffer_id l) = Some b \<and> ptr_from_locator l s = Some p \<and> p \<noteq> 0 \<and>
       buffer_ptr b \<le> p \<and> p + n \<le> buffer_ptr b + mapped_size b \<and> locator_from_ptr p s = Some l))"
proof -
  have "\<exists>p. ptr_from_locator l s = Some p \<and> p \<noteq> 0 \<and> buffer_ptr b \<le> p \<and>
      p + n \<le> buffer_ptr b + mapped_size b \<and> locator_from_ptr p s = Some l"
    if "buffer_at s (buffer_id l) = Some b" "loc_offset l < mapped_size b" "loc_offset l + n \<le> mapped_size b" for b
    using address_of_locator [OF assms that(1,2)] locator_of_address [OF assms that(1,2)] that(3)
      sound_bufferD(1) [OF buffers_ok_sound [OF assms that(1)]] by auto
  then show ?thesis using validate_iff [OF assms, of l n] by blast
qed

definition two_buffers :: shared_buffer_set where
  "two_buffers = \<lparr>mapped_buffers = [Some \<lparr>buffer_ptr = 8192, mapped_size = 4096, vmo_handle = 7\<rparr>, None,
      Some \<lparr>buffer_ptr = 4096, mapped_size = 4096, vmo_handle = 9\<rparr>], ids_by_base = [(4096, 2), (8192, 0)]\<rparr>"

lemma buffer_at_two:
  "buffer_at two_buffers i = Some b \<longleftrightarrow>
     i = 0 \<and> b = \<lparr>buffer_ptr = 8192, mapped_size = 4096, vmo_handle = 7\<rparr> \<or>
     i = 2 \<and> b = \<lparr>buffer_ptr = 4096, mapped_size = 4096, vmo_handle = 9\<rparr>"
  by (auto simp: buffer_at_def two_buffers_def less_Suc_eq numeral_3_eq_3 nth_Cons split: nat.splits if_splits)

lemma two_buffers_ok: "buffers_ok two_buffers"
proof -
  have "omap_ok (ids_by_base two_buffers)" "length (mapped_buffers two_buffers) < 2 ^ 32"
    by (simp_all add: two_buffers_def)
  moreover have "(base, i) \<in> set (ids_by_base two_buffers) \<longleftrightarrow>
      (\<exists>b. buffer_at two_buffers i = Some b \<and> buffer_ptr b = base)" for base i
    unfolding buffer_at_two by (auto simp: two_buffers_def)
  ultimately show ?thesis
    unfolding buffers_ok_def buffer_at_two
    by (auto simp: sound_buffer_def apart_def kMaxBufferLen_def)
qed

theorem validated_locator_is_mapped_witness:
  "locator_from_ptr 4196 two_buffers = Some (Locator 2 100) \<and>
   (\<exists>b p. buffer_at two_buffers 2 = Some b \<and> ptr_from_locator (Locator 2 100) two_buffers = Some p \<and> p \<noteq> 0 \<and>
     buffer_ptr b \<le> p \<and> p + 3996 \<le> buffer_ptr b + mapped_size b)"
proof -
  have v: "buffer_at two_buffers 2 = Some \<lparr>buffer_ptr = 4096, mapped_size = 4096, vmo_handle = 9\<rparr>"
    by (simp add: buffer_at_two)
  have "set_validate (Locator 2 100) 3996 two_buffers = Some True"
    using validate_iff [OF two_buffers_ok, of "Locator 2 100" 3996] v by simp
  then obtain p where p: "ptr_from_locator (Locator 2 100) two_buffers = Some p" "p \<noteq> 0" "4096 \<le> p"
    "p + 3996 \<le> 8192" "locator_from_ptr p two_buffers = Some (Locator 2 100)"
    using validated_locator_is_mapped [OF two_buffers_ok, of "Locator 2 100" 3996] v by auto
  moreover have "p = 4196"
    using p(1) address_of_locator [OF two_buffers_ok v, of 100] by simp
  ultimately show ?thesis using v by simp
qed

end
