(* ===== verification/Shared_Buffer_Allocator.thy ===== *)
theory Shared_Buffer_Allocator
  imports Shared_Buffers
begin

text \<open>
  \<open>SharedBufferSetAllocator\<close> (lib/transport/shared_buffer_set_allocator.h, .cc): allocation of
  regions from a set of shared buffers, whole buffers for large regions and slices of an active
  buffer, cut by a \<open>FifoAllocator\<close>, for small ones. The class derives from
  \<open>SharedBufferSet\<close>, and its record extends that class's record, so the inherited operations
  apply to it as they are.

  \<open>size_\<close> of a slot that holds no buffer is indeterminate in the code and 0 in the model; every
  read is of a slot that holds one. The ghost state of the last section is the consumer's copy of the
  set of buffers, which the queue of updates keeps in step.
\<close>

section \<open>State\<close>

record alloc_buffer =
  ab_size :: nat
  ab_allocator :: "fifo option"

record shared_buffer_set_allocator = shared_buffer_set +
  alloc_buffers :: "alloc_buffer list"
  free_whole :: "(nat \<times> nat) list"
  active_id :: nat
  updates :: "(nat \<times> nat) list"

definition kWholeRegionMinimumSize :: nat where
  "kWholeRegionMinimumSize = 64 * 1024"

definition kSlicedBufferInitialSizeMultiplier :: nat where
  "kSlicedBufferInitialSizeMultiplier = 3"

definition kSlicedBufferGrowMultiplier :: nat where
  "kSlicedBufferGrowMultiplier = 2"

definition kNullBufferId :: nat where
  "kNullBufferId = 2 ^ 32 - 1"

definition empty_slot :: alloc_buffer where
  "empty_slot = \<lparr>ab_size = 0, ab_allocator = None\<rparr>"

definition buffer_set_allocator_init :: shared_buffer_set_allocator where
  "buffer_set_allocator_init = shared_buffer_set.extend buffer_set_init
     \<lparr>alloc_buffers = [], free_whole = [], active_id = kNullBufferId, updates = []\<rparr>"

definition whole :: "alloc_buffer \<Rightarrow> bool" where
  "whole b \<longleftrightarrow> ab_allocator b = None"

section \<open>Creating and deleting buffers\<close>

definition create_buffer :: "os_reply \<Rightarrow> bool \<Rightarrow> nat \<Rightarrow> shared_buffer_set_allocator \<Rightarrow>
    (nat \<times> shared_buffer_set_allocator) option" where
  "create_buffer r is_whole sz s = do {
     (st, i, vmo, s) \<leftarrow> create_new_buffer r sz s;
     (if st \<noteq> MX_OK then Some (kNullBufferId, s)
      else do {
        let bs = (if length (alloc_buffers s) \<le> i then resize ((i + 1) mod 2 ^ 32) empty_slot (alloc_buffers s)
                  else alloc_buffers s);
        dcheck (i < length bs);
        fifo \<leftarrow> (if is_whole then Some (ab_allocator (bs ! i)) else map_option Some (fifo_reset sz));
        Some (i, s\<lparr>alloc_buffers := bs[i := \<lparr>ab_size = sz, ab_allocator = fifo\<rparr>],
                   updates := updates s @ [(i, vmo)]\<rparr>)
      })
   }"

definition delete_buffer :: "os_reply \<Rightarrow> nat \<Rightarrow> shared_buffer_set_allocator \<Rightarrow> shared_buffer_set_allocator option" where
  "delete_buffer r i s = do {
     dcheck (i < length (alloc_buffers s));
     s \<leftarrow> remove_buffer r i s;
     Some (s\<lparr>alloc_buffers := (alloc_buffers s)[i := empty_slot], updates := updates s @ [(i, 0)]\<rparr>)
   }"

definition maybe_delete_sliced_buffer :: "os_reply \<Rightarrow> nat \<Rightarrow> shared_buffer_set_allocator \<Rightarrow> shared_buffer_set_allocator option" where
  "maybe_delete_sliced_buffer r i s = do {
     dcheck (i < length (alloc_buffers s));
     fifo \<leftarrow> ab_allocator (alloc_buffers s ! i);
     (if \<not> any_current_allocated_regions fifo then delete_buffer r i s else Some s)
   }"

section \<open>The whole strategy\<close>

text \<open>\<open>multimap::insert\<close> puts an element after those with an equal key.\<close>

fun multimap_insert :: "nat \<Rightarrow> nat \<Rightarrow> (nat \<times> nat) list \<Rightarrow> (nat \<times> nat) list" where
  "multimap_insert k v [] = [(k, v)]"
| "multimap_insert k v ((k', v') # m) =
     (if k < k' then (k, v) # (k', v') # m else (k', v') # multimap_insert k v m)"

fun delete_buffers :: "os_reply \<Rightarrow> (nat \<times> nat) list \<Rightarrow> shared_buffer_set_allocator \<Rightarrow> shared_buffer_set_allocator option" where
  "delete_buffers r [] s = Some s"
| "delete_buffers r ((k, i) # m) s = do { s \<leftarrow> delete_buffer r i s; delete_buffers r m s }"

definition allocate_whole_region :: "os_reply \<Rightarrow> nat \<Rightarrow> shared_buffer_set_allocator \<Rightarrow>
    (locator \<times> shared_buffer_set_allocator) option" where
  "allocate_whole_region r sz s = do {
     let too_small = takeWhile (\<lambda>(k, i). k < sz) (free_whole s);
     let large = dropWhile (\<lambda>(k, i). k < sz) (free_whole s);
     s \<leftarrow> delete_buffers r too_small s;
     let s = s\<lparr>free_whole := large\<rparr>;
     (case large of
        (k, i) # m \<Rightarrow> Some (Locator i 0, s\<lparr>free_whole := m\<rparr>)
      | [] \<Rightarrow> do {
          (i, s) \<leftarrow> create_buffer r True sz s;
          Some (if i = kNullBufferId then null_locator else Locator i 0, s)
        })
   }"

definition release_whole_region :: "locator \<Rightarrow> shared_buffer_set_allocator \<Rightarrow> shared_buffer_set_allocator option" where
  "release_whole_region l s = do {
     dcheck (\<not> is_null l);
     dcheck (buffer_id l < length (alloc_buffers s));
     dcheck (ab_allocator (alloc_buffers s ! buffer_id l) = None);
     Some (s\<lparr>free_whole := multimap_insert (ab_size (alloc_buffers s ! buffer_id l)) (buffer_id l) (free_whole s)\<rparr>)
   }"

section \<open>The sliced strategy\<close>

definition allocate_in :: "nat \<Rightarrow> nat \<Rightarrow> shared_buffer_set_allocator \<Rightarrow> (nat \<times> shared_buffer_set_allocator) option" where
  "allocate_in i sz s = do {
     dcheck (i < length (alloc_buffers s));
     fifo \<leftarrow> ab_allocator (alloc_buffers s ! i);
     (off, fifo') \<leftarrow> allocate_region sz fifo;
     Some (off, s\<lparr>alloc_buffers := (alloc_buffers s)[i := (alloc_buffers s ! i)\<lparr>ab_allocator := Some fifo'\<rparr>]\<rparr>)
   }"

text \<open>
  The part of \<open>AllocateSlicedRegion\<close> that follows a failed allocation: a bigger buffer becomes the
  active one.
\<close>

definition grow_sliced :: "os_reply \<Rightarrow> nat \<Rightarrow> shared_buffer_set_allocator \<Rightarrow>
    (locator \<times> shared_buffer_set_allocator) option" where
  "grow_sliced r sz s = do {
     dcheck (active_id s < length (alloc_buffers s));
     let new_size = max ((sz * kSlicedBufferInitialSizeMultiplier) mod 2 ^ 64)
                        ((ab_size (alloc_buffers s ! active_id s) * kSlicedBufferGrowMultiplier) mod 2 ^ 64);
     (i, s) \<leftarrow> create_buffer r False new_size s;
     (if i = kNullBufferId then Some (null_locator, s)
      else do {
        s \<leftarrow> maybe_delete_sliced_buffer r (active_id s) s;
        let s = s\<lparr>active_id := i\<rparr>;
        (off, s) \<leftarrow> allocate_in i sz s;
        dcheck (off \<noteq> kNullOffset);
        Some (Locator i off, s)
      })
   }"

definition try_active :: "os_reply \<Rightarrow> nat \<Rightarrow> shared_buffer_set_allocator \<Rightarrow>
    (locator \<times> shared_buffer_set_allocator) option" where
  "try_active r sz s = do {
     (off, s) \<leftarrow> allocate_in (active_id s) sz s;
     (if off \<noteq> kNullOffset then Some (Locator (active_id s) off, s)
      else grow_sliced r sz s)
   }"

definition allocate_sliced_region :: "os_reply \<Rightarrow> os_reply \<Rightarrow> nat \<Rightarrow> shared_buffer_set_allocator \<Rightarrow>
    (locator \<times> shared_buffer_set_allocator) option" where
  "allocate_sliced_region r r' sz s =
     (if active_id s = kNullBufferId
      then do {
        (i, s) \<leftarrow> create_buffer r False ((sz * kSlicedBufferInitialSizeMultiplier) mod 2 ^ 64) s;
        let s = s\<lparr>active_id := i\<rparr>;
        (if i = kNullBufferId then Some (null_locator, s) else try_active r' sz s)
      }
      else try_active r sz s)"

definition release_sliced_region :: "os_reply \<Rightarrow> locator \<Rightarrow> shared_buffer_set_allocator \<Rightarrow> shared_buffer_set_allocator option" where
  "release_sliced_region r l s = do {
     dcheck (\<not> is_null l);
     dcheck (buffer_id l < length (alloc_buffers s));
     fifo \<leftarrow> ab_allocator (alloc_buffers s ! buffer_id l);
     fifo' \<leftarrow> release_region (loc_offset l) fifo;
     let s = s\<lparr>alloc_buffers := (alloc_buffers s)[buffer_id l :=
               (alloc_buffers s ! buffer_id l)\<lparr>ab_allocator := Some fifo'\<rparr>]\<rparr>;
     (if buffer_id l \<noteq> active_id s then maybe_delete_sliced_buffer r (buffer_id l) s else Some s)
   }"

section \<open>The public operations\<close>

text \<open>The result of \<open>AllocateRegion\<close> is an address, 0 when there is no memory.\<close>

definition allocate :: "os_reply \<Rightarrow> os_reply \<Rightarrow> nat \<Rightarrow> shared_buffer_set_allocator \<Rightarrow>
    (nat \<times> shared_buffer_set_allocator) option" where
  "allocate r r' sz s = do {
     dcheck (sz \<noteq> 0);
     (l, s) \<leftarrow> (if kWholeRegionMinimumSize \<le> sz then allocate_whole_region r sz s
                else allocate_sliced_region r r' sz s);
     p \<leftarrow> ptr_from_locator l s;
     Some (p, s)
   }"

definition release :: "os_reply \<Rightarrow> nat \<Rightarrow> shared_buffer_set_allocator \<Rightarrow> shared_buffer_set_allocator option" where
  "release r p s = do {
     dcheck (p \<noteq> 0);
     l \<leftarrow> locator_from_ptr p s;
     dcheck (buffer_id l < length (alloc_buffers s));
     (if whole (alloc_buffers s ! buffer_id l) then release_whole_region l s
      else release_sliced_region r l s)
   }"

definition poll_for_buffer_update :: "shared_buffer_set_allocator \<Rightarrow> (nat \<times> nat) option \<times> shared_buffer_set_allocator" where
  "poll_for_buffer_update s =
     (case updates s of
        [] \<Rightarrow> (None, s)
      | u # us \<Rightarrow> (Some u, s\<lparr>updates := us\<rparr>))"

section \<open>The invariant\<close>

definition slot :: "shared_buffer_set_allocator \<Rightarrow> nat \<Rightarrow> alloc_buffer" where
  "slot s i = (if i < length (alloc_buffers s) then alloc_buffers s ! i else empty_slot)"

definition sound_slot :: "mapped_buffer \<Rightarrow> alloc_buffer \<Rightarrow> bool" where
  "sound_slot b a \<longleftrightarrow> 0 < ab_size a \<and> ab_size a \<le> mapped_size b \<and>
     (\<forall>f. ab_allocator a = Some f \<longrightarrow> fifo_wf f \<and> total_size f = ab_size a)"

text \<open>The part of the invariant that holds inside the operations too.\<close>

definition core_ok :: "shared_buffer_set_allocator \<Rightarrow> bool" where
  "core_ok s \<longleftrightarrow> buffers_ok s \<and> length (mapped_buffers s) < 2 ^ 32 \<and>
     length (alloc_buffers s) \<le> length (mapped_buffers s) \<and>
     (\<forall>i. case buffer_at s i of
        None \<Rightarrow> slot s i = empty_slot
      | Some b \<Rightarrow> i < length (alloc_buffers s) \<and> sound_slot b (slot s i))"

definition free_ok :: "(nat \<times> nat) list \<Rightarrow> shared_buffer_set_allocator \<Rightarrow> bool" where
  "free_ok m s \<longleftrightarrow> sorted (map fst m) \<and> distinct (map snd m) \<and>
     (\<forall>(k, i) \<in> set m. buffer_at s i \<noteq> None \<and> whole (slot s i) \<and> ab_size (slot s i) = k)"

definition active_ok :: "shared_buffer_set_allocator \<Rightarrow> bool" where
  "active_ok s \<longleftrightarrow> active_id s = kNullBufferId \<or>
     (buffer_at s (active_id s) \<noteq> None \<and> \<not> whole (slot s (active_id s)))"

text \<open>A sliced buffer that is no longer active is kept only for regions still handed out.\<close>

definition tight :: "shared_buffer_set_allocator \<Rightarrow> bool" where
  "tight s \<longleftrightarrow> (\<forall>i f. i \<noteq> active_id s \<longrightarrow> ab_allocator (slot s i) = Some f \<longrightarrow> fifo_abs f \<noteq> Map.empty)"

definition allocator_ok :: "shared_buffer_set_allocator \<Rightarrow> bool" where
  "allocator_ok s \<longleftrightarrow> core_ok s \<and> free_ok (free_whole s) s \<and> active_ok s \<and> tight s"

text \<open>
  The regions handed out and not released, as addresses with sizes. A whole buffer is handed out
  when it is not in the free list.
\<close>

definition held_in :: "shared_buffer_set_allocator \<Rightarrow> nat \<Rightarrow> (nat \<times> nat) set" where
  "held_in s i = (case buffer_at s i of
     None \<Rightarrow> {}
   | Some b \<Rightarrow> (case ab_allocator (slot s i) of
       Some f \<Rightarrow> {(buffer_ptr b + off, n) | off n. fifo_abs f off = Some n}
     | None \<Rightarrow> (if i \<in> snd ` set (free_whole s) then {} else {(buffer_ptr b, ab_size (slot s i))})))"

definition outstanding :: "shared_buffer_set_allocator \<Rightarrow> (nat \<times> nat) set" where
  "outstanding s = (\<Union>i. held_in s i)"

lemma allocator_ok_init: "allocator_ok buffer_set_allocator_init"
  by (simp add: allocator_ok_def core_ok_def free_ok_def active_ok_def tight_def buffers_ok_def
      buffer_set_allocator_init_def buffer_set_init_def shared_buffer_set.defs buffer_at_def slot_def empty_slot_def)

lemma outstanding_init: "outstanding buffer_set_allocator_init = {}"
  by (simp add: outstanding_def held_in_def buffer_set_allocator_init_def buffer_set_init_def
      shared_buffer_set.defs buffer_at_def)

lemma core_okD:
  assumes "core_ok s"
  shows "buffers_ok s" "length (mapped_buffers s) < 2 ^ 32" "length (alloc_buffers s) \<le> length (mapped_buffers s)"
    and "buffer_at s i = None \<Longrightarrow> slot s i = empty_slot"
    and "buffer_at s i = Some b \<Longrightarrow> i < length (alloc_buffers s)"
    and "buffer_at s i = Some b \<Longrightarrow> sound_slot b (slot s i)"
proof -
  have "case buffer_at s i of None \<Rightarrow> slot s i = empty_slot
      | Some b \<Rightarrow> i < length (alloc_buffers s) \<and> sound_slot b (slot s i)"
    using assms unfolding core_ok_def by blast
  then show "buffer_at s i = None \<Longrightarrow> slot s i = empty_slot"
    "buffer_at s i = Some b \<Longrightarrow> i < length (alloc_buffers s)"
    "buffer_at s i = Some b \<Longrightarrow> sound_slot b (slot s i)"
    by simp_all
qed (use assms in \<open>simp_all add: core_ok_def\<close>)

lemma core_okI:
  assumes "buffers_ok s" "length (mapped_buffers s) < 2 ^ 32" "length (alloc_buffers s) \<le> length (mapped_buffers s)"
    "\<And>i. buffer_at s i = None \<Longrightarrow> slot s i = empty_slot"
    "\<And>i b. buffer_at s i = Some b \<Longrightarrow> i < length (alloc_buffers s) \<and> sound_slot b (slot s i)"
  shows "core_ok s"
  using assms unfolding core_ok_def by (auto split: option.splits)

lemma slot_in: "i < length (alloc_buffers s) \<Longrightarrow> alloc_buffers s ! i = slot s i"
  by (simp add: slot_def)

lemma slot_cong: "alloc_buffers s = alloc_buffers t \<Longrightarrow> slot s = slot t"
  by (simp add: slot_def fun_eq_iff)

lemma slot_update:
  "i < length (alloc_buffers s) \<Longrightarrow> slot (s\<lparr>alloc_buffers := (alloc_buffers s)[i := a]\<rparr>) = (slot s)(i := a)"
  by (auto simp: slot_def fun_eq_iff)

lemma buffer_at_alloc_frame [simp]:
  "buffer_at (s\<lparr>alloc_buffers := x\<rparr>) = buffer_at s"
  "buffer_at (s\<lparr>free_whole := m\<rparr>) = buffer_at s"
  "buffer_at (s\<lparr>active_id := i\<rparr>) = buffer_at s"
  "buffer_at (s\<lparr>updates := u\<rparr>) = buffer_at s"
  by (simp_all add: buffer_at_def fun_eq_iff)

lemma slot_frame [simp]:
  "slot (s\<lparr>free_whole := m\<rparr>) = slot s"
  "slot (s\<lparr>active_id := i\<rparr>) = slot s"
  "slot (s\<lparr>updates := u\<rparr>) = slot s"
  "slot (s\<lparr>ids_by_base := ids\<rparr>) = slot s"
  "slot (s\<lparr>mapped_buffers := bs\<rparr>) = slot s"
  by (simp_all add: slot_def fun_eq_iff)

lemma core_ok_frame [simp]:
  "core_ok (s\<lparr>free_whole := m\<rparr>) = core_ok s"
  "core_ok (s\<lparr>active_id := i\<rparr>) = core_ok s"
  "core_ok (s\<lparr>updates := u\<rparr>) = core_ok s"
  by (simp_all add: core_ok_def buffers_ok_def cong: option.case_cong)

lemma free_ok_cong:
  "(\<And>k i. (k, i) \<in> set m \<Longrightarrow> buffer_at t i = buffer_at s i \<and> slot t i = slot s i) \<Longrightarrow> free_ok m s \<Longrightarrow> free_ok m t"
  unfolding free_ok_def by fastforce

section \<open>Keeping the consumer in step\<close>

text \<open>
  What a consumer's set of buffer ids becomes when it handles the updates in order; \<^term>\<open>None\<close> when
  an update adds an id it has or removes one it does not have, which fails a check in
  \<open>SharedBufferSet\<close>.
\<close>

fun replay :: "(nat \<times> nat) list \<Rightarrow> nat set \<Rightarrow> nat set option" where
  "replay [] R = Some R"
| "replay ((i, vmo) # us) R =
     (if vmo \<noteq> 0 then (if i \<in> R then None else replay us (insert i R))
      else (if i \<in> R then replay us (R - {i}) else None))"

definition live :: "'a shared_buffer_set_scheme \<Rightarrow> nat set" where
  "live s = {i. buffer_at s i \<noteq> None}"

definition in_step :: "shared_buffer_set_allocator \<Rightarrow> nat set \<Rightarrow> bool" where
  "in_step s R \<longleftrightarrow> replay (updates s) R = Some (live s)"

definition follows :: "shared_buffer_set_allocator \<Rightarrow> shared_buffer_set_allocator \<Rightarrow> bool" where
  "follows s t \<longleftrightarrow> (\<forall>R. in_step s R \<longrightarrow> in_step t R)"

lemma replay_append: "replay (us @ vs) R = (replay us R \<bind> replay vs)"
  by (induction us R rule: replay.induct) auto

lemma follows_refl: "updates t = updates s \<Longrightarrow> buffer_at t = buffer_at s \<Longrightarrow> follows s t"
  by (simp add: follows_def in_step_def live_def)

lemma follows_trans [trans]: "follows s t \<Longrightarrow> follows t u \<Longrightarrow> follows s u"
  by (simp add: follows_def)

lemma follows_add:
  "updates t = updates s @ [(i, v)] \<Longrightarrow> v \<noteq> 0 \<Longrightarrow> buffer_at s i = None \<Longrightarrow>
   buffer_at t = (buffer_at s)(i \<mapsto> b) \<Longrightarrow> follows s t"
  by (auto simp: follows_def in_step_def live_def replay_append)

lemma follows_remove:
  "updates t = updates s @ [(i, 0)] \<Longrightarrow> buffer_at s i \<noteq> None \<Longrightarrow>
   buffer_at t = (buffer_at s)(i := None) \<Longrightarrow> follows s t"
  by (auto simp: follows_def in_step_def live_def replay_append)

section \<open>The building blocks\<close>

lemma delete_buffer_ok:
  assumes "core_ok s" "buffer_at s i = Some b" "\<forall>a. unmap_status r a = MX_OK"
  shows "\<exists>s'. delete_buffer r i s = Some s' \<and> core_ok s' \<and> buffer_at s' = (buffer_at s)(i := None) \<and>
    slot s' = (slot s)(i := empty_slot) \<and> free_whole s' = free_whole s \<and> active_id s' = active_id s \<and>
    length (mapped_buffers s') = length (mapped_buffers s) \<and> follows s s'"
proof -
  note c = core_okD [OF assms(1)]
  have i: "i < length (alloc_buffers s)" by (rule c(5) [OF assms(2)])
  obtain bs ids s1 where s1: "remove_buffer r i s = Some s1" "s1 = s\<lparr>ids_by_base := ids, mapped_buffers := bs\<rparr>"
    "buffers_ok s1" "buffer_at s1 = (buffer_at s)(i := None)" "length bs = length (mapped_buffers s)"
    using remove_buffer_ok [OF c(1) assms(2,3)] by blast
  define s' where "s' = s1\<lparr>alloc_buffers := (alloc_buffers s1)[i := empty_slot], updates := updates s1 @ [(i, 0)]\<rparr>"
  have frame: "buffer_at s' = (buffer_at s)(i := None)" "slot s' = (slot s)(i := empty_slot)"
    "length (mapped_buffers s') = length (mapped_buffers s)" "length (alloc_buffers s') = length (alloc_buffers s)"
    "updates s' = updates s @ [(i, 0)]" "free_whole s' = free_whole s" "active_id s' = active_id s"
    using s1(2,4,5) i by (auto simp: s'_def slot_def fun_eq_iff)
  have "core_ok s'"
  proof (rule core_okI)
    show "buffers_ok s'" using s1(3) by (simp add: s'_def buffers_ok_def)
  qed (use frame c in \<open>auto split: if_splits\<close>)
  moreover have "delete_buffer r i s = Some s'" using i s1(1) by (simp add: delete_buffer_def s'_def)
  moreover have "follows s s'" using frame assms(2) by (auto intro: follows_remove)
  ultimately show ?thesis using frame by blast
qed

lemma create_buffer_ok:
  assumes "core_ok s" "length (mapped_buffers s) < kNullBufferId" "0 < sz" "kernel_ok r sz (buffer_at s)"
  shows "\<exists>i s'. create_buffer r w sz s = Some (i, s') \<and> core_ok s' \<and>
    free_whole s' = free_whole s \<and> active_id s' = active_id s \<and>
    (duplicate_vmo r \<noteq> 0 \<longrightarrow> follows s s') \<and>
    (if kernel_grants r
     then i \<noteq> kNullBufferId \<and> buffer_at s i = None \<and> (\<exists>b. buffer_at s' = (buffer_at s)(i \<mapsto> b)) \<and>
       (\<exists>f. slot s' = (slot s)(i := \<lparr>ab_size = sz, ab_allocator = f\<rparr>) \<and>
         (if w then f = None else \<exists>g. f = Some g \<and> fifo_wf g \<and> fifo_abs g = Map.empty \<and> total_size g = sz))
     else i = kNullBufferId \<and> buffer_at s' = buffer_at s \<and> slot s' = slot s)"
proof -
  note c = core_okD [OF assms(1)]
  have len: "length (mapped_buffers s) < 2 ^ 32 - 1" using assms(2) by (simp add: kNullBufferId_def)
  obtain st i vmo s1 bs ids where n: "create_new_buffer r sz s = Some (st, i, vmo, s1)"
    and s1: "s1 = s\<lparr>ids_by_base := ids, mapped_buffers := bs\<rparr>" "buffers_ok s1" "st = MX_OK \<longleftrightarrow> kernel_grants r"
      "length (mapped_buffers s) \<le> length bs" "length bs \<le> Suc (length (mapped_buffers s))"
    and out: "if st = MX_OK
     then vmo = duplicate_vmo r \<and> buffer_at s i = None \<and> i \<le> length (mapped_buffers s) \<and>
       length bs = max (length (mapped_buffers s)) (Suc i) \<and> sz \<le> vmo_size r \<and>
       buffer_at s1 = (buffer_at s)(i \<mapsto> \<lparr>buffer_ptr = map_address r, mapped_size = vmo_size r,
         vmo_handle = created_vmo r\<rparr>)
     else buffer_at s1 = buffer_at s"
    using create_new_buffer_ok [OF c(1) len assms(3,4)] by blast
  show ?thesis
  proof (cases "st = MX_OK")
    case False
    then have "create_buffer r w sz s = Some (kNullBufferId, s1)" using n by (simp add: create_buffer_def)
    moreover have "buffer_at s1 = buffer_at s" "slot s1 = slot s" using False out s1(1) by (auto intro: slot_cong)
    moreover have "core_ok s1"
      by (rule core_okI) (use s1 c len calculation in \<open>auto split: option.splits\<close>)
    ultimately show ?thesis using False s1 by (auto intro!: follows_refl)
  next
    case True
    let ?b = "\<lparr>buffer_ptr = map_address r, mapped_size = vmo_size r, vmo_handle = created_vmo r\<rparr>"
    have o: "vmo = duplicate_vmo r" "buffer_at s i = None" "i \<le> length (mapped_buffers s)"
      "length bs = max (length (mapped_buffers s)) (Suc i)" "sz \<le> vmo_size r" "buffer_at s1 = (buffer_at s)(i \<mapsto> ?b)"
      using out True by simp_all
    define as where "as = (if length (alloc_buffers s1) \<le> i then resize ((i + 1) mod 2 ^ 32) empty_slot (alloc_buffers s1)
      else alloc_buffers s1)"
    have as: "i < length as" "length as \<le> length bs" "\<forall>j. (if j < length as then as ! j else empty_slot) = slot s j"
      using o(3,4) len s1(1) c(3) by (auto simp: as_def nth_resize slot_def)
    have ei: "as ! i = empty_slot" using as(1,3) c(4) [OF o(2)] by metis
    have "vmo_size r \<le> kMaxBufferLen" using True s1(3) by (simp add: kernel_grants_def)
    then have "sz < kNullOffset" using o(5) kMaxBufferLen_less by simp
    then obtain g where g: "fifo_reset sz = Some g" "fifo_wf g" "fifo_abs g = Map.empty" "total_size g = sz"
      using fifo_reset_wf by blast
    define a where "a = \<lparr>ab_size = sz, ab_allocator = (if w then None else Some g)\<rparr>"
    define s' where "s' = s1\<lparr>alloc_buffers := as[i := a], updates := updates s1 @ [(i, vmo)]\<rparr>"
    have cr: "create_buffer r w sz s = Some (i, s')"
      using n True as(1) ei g(1) by (simp add: create_buffer_def Let_def s'_def as_def a_def empty_slot_def)
    have frame: "buffer_at s' = (buffer_at s)(i \<mapsto> ?b)" "length (alloc_buffers s') = length as"
      "mapped_buffers s' = bs" "updates s' = updates s @ [(i, duplicate_vmo r)]"
      "free_whole s' = free_whole s" "active_id s' = active_id s"
      using o s1(1) by (simp_all add: s'_def)
    have "slot s' j = (if j < length as then as[i := a] ! j else empty_slot)" for j
      by (simp add: slot_def s'_def)
    then have sl: "slot s' = (slot s)(i := a)"
      using as(1,3) by (auto simp: fun_eq_iff nth_list_update split: if_splits)
    have sa: "sound_slot ?b a" using g assms(3) o(5) by (simp add: sound_slot_def a_def)
    have old: "j < length as" if "buffer_at s j = Some b" for j b
      using c(5) [OF that] s1(1) o(3) len by (auto simp: as_def)
    have "core_ok s'"
    proof (rule core_okI)
      show "buffers_ok s'" using s1(2) by (simp add: s'_def buffers_ok_def)
      show "length (mapped_buffers s') < 2 ^ 32" "length (alloc_buffers s') \<le> length (mapped_buffers s')"
        using frame(2,3) as(2) s1(5) len by simp_all
      show "slot s' j = empty_slot" if "buffer_at s' j = None" for j
        using that c(4) by (auto simp: frame(1) sl split: if_splits)
      show "j < length (alloc_buffers s') \<and> sound_slot b (slot s' j)" if "buffer_at s' j = Some b" for j b
        using that c(6) old as(1) sa by (auto simp: frame(1,2) sl split: if_splits)
    qed
    moreover have "i \<noteq> kNullBufferId" using o(3) assms(2) by simp
    moreover have "duplicate_vmo r \<noteq> 0 \<longrightarrow> follows s s'" using frame o(2) by (auto intro: follows_add)
    moreover have "kernel_grants r" using s1(3) True by simp
    ultimately show ?thesis using cr frame sl o(2) g
      by (intro exI [of _ i] exI [of _ s']) (auto simp: a_def)
  qed
qed

section \<open>Regions handed out\<close>

lemma fifo_abs_bound:
  assumes "fifo_wf f" "fifo_abs f off = Some n"
  shows "0 < n" "off + n \<le> total_size f"
proof -
  obtain r where r: "r \<in> set (regions f)" "allocated r" "roffset r = off" "rsize r = n"
    using region_map_SomeD [of "regions f" off n] assms(2) unfolding fifo_abs_def by blast
  show "0 < n" using one_activeD(2) [OF _ r(1,2)] assms(1) r(4) by (simp add: fifo_wf_flat)
  have "laid_out 0 (regions f) (total_size f)" using assms(1) by (simp add: fifo_wf_flat)
  then show "off + n \<le> total_size f" using laid_out_bounds [OF _ r(1)] r(3,4) by auto
qed

lemma fifo_empty_allocates:
  assumes "fifo_wf f" "fifo_abs f = Map.empty" "0 < n" "n \<le> total_size f" "allocate_region n f = Some (off, f')"
  shows "off \<noteq> kNullOffset"
proof
  assume "off = kNullOffset"
  then have "\<forall>r \<in> set (regions f). \<not> allocated r \<longrightarrow> rsize r < n"
    using allocate_region_correct [OF assms(1,3)] assms(5) by auto
  then show False using unallocated_single_region [OF assms(1,2)] assms(4) by auto
qed

lemma held_inE:
  assumes "core_ok s" "(p, n) \<in> held_in s i"
  obtains b off where "buffer_at s i = Some b" "p = buffer_ptr b + off" "0 < n" "off + n \<le> mapped_size b"
    "locator_from_ptr p s = Some (Locator i off)" "i < length (alloc_buffers s)"
    "case ab_allocator (slot s i) of Some f \<Rightarrow> fifo_abs f off = Some n
     | None \<Rightarrow> i \<notin> snd ` set (free_whole s) \<and> off = 0 \<and> n = ab_size (slot s i)"
proof -
  obtain b where b: "buffer_at s i = Some b" using assms(2) by (auto simp: held_in_def split: option.splits)
  note c = core_okD(1,5,6) [OF assms(1)] 
  have sl: "sound_slot b (slot s i)" by (rule c(3) [OF b])
  obtain off where off: "p = buffer_ptr b + off" "case ab_allocator (slot s i) of Some f \<Rightarrow> fifo_abs f off = Some n
     | None \<Rightarrow> i \<notin> snd ` set (free_whole s) \<and> off = 0 \<and> n = ab_size (slot s i)"
    using assms(2) b by (auto simp: held_in_def split: option.splits if_splits)
  have n: "0 < n" "off + n \<le> mapped_size b"
    using off(2) sl fifo_abs_bound by (fastforce simp: sound_slot_def split: option.splits)+
  then have "locator_from_ptr p s = Some (Locator i off)" using locator_of_address [OF c(1) b] off(1) by simp
  then show thesis using that b off n c(2) [OF b] by blast
qed

lemma held_in_apart:
  assumes "core_ok s" "(p, n) \<in> held_in s i" "(q, m) \<in> held_in s j" "(p, n) \<noteq> (q, m)"
  shows "p + n \<le> q \<or> q + m \<le> p"
proof -
  obtain b off where b: "buffer_at s i = Some b" "p = buffer_ptr b + off" "0 < n" "off + n \<le> mapped_size b"
    "case ab_allocator (slot s i) of Some f \<Rightarrow> fifo_abs f off = Some n
     | None \<Rightarrow> i \<notin> snd ` set (free_whole s) \<and> off = 0 \<and> n = ab_size (slot s i)"
    using assms(1,2) by (rule held_inE)
  obtain c off' where c: "buffer_at s j = Some c" "q = buffer_ptr c + off'" "0 < m" "off' + m \<le> mapped_size c"
    "case ab_allocator (slot s j) of Some f \<Rightarrow> fifo_abs f off' = Some m
     | None \<Rightarrow> j \<notin> snd ` set (free_whole s) \<and> off' = 0 \<and> m = ab_size (slot s j)"
    using assms(1,3) by (rule held_inE)
  show ?thesis
  proof (cases "i = j")
    case False
    then have "apart b c" using buffers_ok_apart [OF core_okD(1) [OF assms(1)] b(1) c(1)] by blast
    then show ?thesis using b(2,4) c(2,4) by (auto simp: apart_def)
  next
    case True
    then have bc: "c = b" using b(1) c(1) by simp
    show ?thesis
    proof (cases "ab_allocator (slot s i)")
      case None
      then show ?thesis using b c True bc assms(4) by simp
    next
      case (Some f)
      have "fifo_wf f" using core_okD(6) [OF assms(1) b(1)] Some by (simp add: sound_slot_def)
      moreover have "off \<noteq> off'" using Some b(2,5) c(2,5) True bc assms(4) by auto
      ultimately show ?thesis
        using fifo.disjoint_law [of f off n off' m] fifo.disjoint_law [of f off' m off n] b(2,5) c(2,5) Some True bc
        by (cases "off < off'") auto
    qed
  qed
qed

lemma held_in_same:
  assumes "core_ok s" "x \<in> held_in s i" "x \<in> held_in s j"
  shows "i = j"
proof -
  obtain p n where x: "x = (p, n)" by fastforce
  obtain off where i: "locator_from_ptr p s = Some (Locator i off)" using assms(1,2) unfolding x by (rule held_inE)
  obtain off' where j: "locator_from_ptr p s = Some (Locator j off')" using assms(1,3) unfolding x by (rule held_inE)
  from i j show ?thesis by simp
qed

lemma outstanding_apart:
  "core_ok s \<Longrightarrow> (p, n) \<in> outstanding s \<Longrightarrow> (q, m) \<in> outstanding s \<Longrightarrow> (p, n) \<noteq> (q, m) \<Longrightarrow> p + n \<le> q \<or> q + m \<le> p"
  unfolding outstanding_def using held_in_apart by blast

lemma held_in_cong:
  "buffer_at t i = buffer_at s i \<Longrightarrow> slot t i = slot s i \<Longrightarrow>
   (i \<in> snd ` set (free_whole t)) = (i \<in> snd ` set (free_whole s)) \<Longrightarrow> held_in t i = held_in s i"
  unfolding held_in_def by (simp only:)

lemma handed_out:
  assumes "core_ok t" "held_in t i = insert (p, n) (held_in s i)" "(p, n) \<notin> held_in s i"
    "\<And>j. j \<noteq> i \<Longrightarrow> held_in t j = held_in s j"
  shows "outstanding t = insert (p, n) (outstanding s) \<and>
    (\<forall>(q, m) \<in> outstanding s. p + n \<le> q \<or> q + m \<le> p)"
proof -
  have out: "outstanding t = insert (p, n) (outstanding s)"
  proof -
    have "outstanding u = held_in u i \<union> (\<Union>j \<in> - {i}. held_in u j)" for u
      by (auto simp: outstanding_def)
    then show ?thesis using assms(2,4) by auto
  qed
  have new: "(p, n) \<in> held_in t i" using assms(2) by simp
  have "p + n \<le> q \<or> q + m \<le> p" if x: "(q, m) \<in> outstanding s" for q m
  proof -
    obtain j where j: "(q, m) \<in> held_in s j" using x by (auto simp: outstanding_def)
    then have t: "(q, m) \<in> held_in t j" using assms(2,4) by (cases "j = i") auto
    have "(p, n) \<noteq> (q, m)"
    proof
      assume eq: "(p, n) = (q, m)"
      then have "i = j" using held_in_same [OF assms(1) new] t by simp
      then show False using eq j assms(3) by simp
    qed
    then show ?thesis using held_in_apart [OF assms(1) new t] by blast
  qed
  then show ?thesis using out by blast
qed

lemma taken_back:
  assumes "core_ok s" "x \<in> held_in s i" "held_in t i = held_in s i - {x}"
    "\<And>j. j \<noteq> i \<Longrightarrow> held_in t j = held_in s j"
  shows "outstanding t = outstanding s - {x}"
proof -
  have "x \<notin> held_in s j" if "j \<noteq> i" for j using held_in_same [OF assms(1,2)] that by blast
  then have "held_in t j = held_in s j - {x}" for j using assms(3,4) by (cases "j = i") auto
  then show ?thesis by (auto simp: outstanding_def)
qed

section \<open>The sliced strategy\<close>

lemma allocate_in_ok:
  assumes "core_ok s" "buffer_at s i = Some b" "ab_allocator (slot s i) = Some f" "0 < n"
  shows "\<exists>off f' s'. allocate_in i n s = Some (off, s') \<and> core_ok s' \<and> allocate_region n f = Some (off, f') \<and>
    buffer_at s' = buffer_at s \<and> slot s' = (slot s)(i := (slot s i)\<lparr>ab_allocator := Some f'\<rparr>) \<and>
    free_whole s' = free_whole s \<and> active_id s' = active_id s \<and> updates s' = updates s \<and>
    length (mapped_buffers s') = length (mapped_buffers s) \<and>
    (if off = kNullOffset then f' = f
     else off < mapped_size b \<and> fifo_abs f off = None \<and> fifo_abs f' = (fifo_abs f)(off \<mapsto> n))"
proof -
  note c = core_okD [OF assms(1)]
  have i: "i < length (alloc_buffers s)" "alloc_buffers s ! i = slot s i"
    using c(5) [OF assms(2)] by (simp_all add: slot_in)
  have sl: "fifo_wf f" "total_size f = ab_size (slot s i)" "0 < ab_size (slot s i)" "ab_size (slot s i) \<le> mapped_size b"
    using c(6) [OF assms(2)] assms(3) by (simp_all add: sound_slot_def)
  obtain off f' where a: "allocate_region n f = Some (off, f')" "fifo_wf f'" "total_size f' = total_size f"
    "if off = kNullOffset then f' = f
     else off + n \<le> total_size f \<and> fifo_abs f off = None \<and> fifo_abs f' = (fifo_abs f)(off \<mapsto> n)"
    using fifo.al_law [OF sl(1) assms(4)] by blast
  define s' where "s' = s\<lparr>alloc_buffers := (alloc_buffers s)[i := (slot s i)\<lparr>ab_allocator := Some f'\<rparr>]\<rparr>"
  have sl': "slot s' = (slot s)(i := (slot s i)\<lparr>ab_allocator := Some f'\<rparr>)"
    unfolding s'_def by (rule slot_update) (rule i(1))
  have at: "buffer_at s' = buffer_at s" by (simp add: s'_def)
  have "core_ok s'"
  proof (rule core_okI)
    show "buffers_ok s'" using c(1) by (simp add: s'_def buffers_ok_def)
    show "slot s' j = empty_slot" if "buffer_at s' j = None" for j
      using that c(4) assms(2) by (auto simp: sl' at)
    show "j < length (alloc_buffers s') \<and> sound_slot x (slot s' j)" if x: "buffer_at s' j = Some x" for j x
    proof (cases "j = i")
      case True
      then show ?thesis using x i(1) assms(2) sl a(2,3) unfolding sl' at by (auto simp: sound_slot_def s'_def)
    next
      case False
      then show ?thesis using x c(5,6) unfolding sl' at by (auto simp: s'_def)
    qed
  qed (use c in \<open>simp_all add: s'_def\<close>)
  moreover have "allocate_in i n s = Some (off, s')" using i assms(3) a(1) by (simp add: allocate_in_def s'_def)
  ultimately show ?thesis using a sl sl' at assms(4) by (auto simp: s'_def)
qed

text \<open>
  The locator names a region of \<open>m\<close> bytes that overlaps none handed out before, and the region is
  now handed out.
\<close>

definition hands_out :: "shared_buffer_set_allocator \<Rightarrow> nat \<Rightarrow> locator \<Rightarrow> shared_buffer_set_allocator \<Rightarrow> bool" where
  "hands_out s m l t \<longleftrightarrow> (\<exists>b. buffer_at t (buffer_id l) = Some b \<and> loc_offset l + m \<le> mapped_size b \<and> 0 < m \<and>
     outstanding t = insert (buffer_ptr b + loc_offset l, m) (outstanding s) \<and>
     (\<forall>(q, k) \<in> outstanding s. buffer_ptr b + loc_offset l + m \<le> q \<or> q + k \<le> buffer_ptr b + loc_offset l))"

definition alloc_result :: "os_reply \<Rightarrow> shared_buffer_set_allocator \<Rightarrow> nat \<Rightarrow> locator \<Rightarrow> shared_buffer_set_allocator \<Rightarrow> bool" where
  "alloc_result r s sz l t \<longleftrightarrow> allocator_ok t \<and> (duplicate_vmo r \<noteq> 0 \<longrightarrow> follows s t) \<and>
     (if is_null l then outstanding t = outstanding s \<and> \<not> kernel_grants r
      else \<exists>m. sz \<le> m \<and> hands_out s m l t)"

lemma hands_out_eq: "outstanding s = outstanding s' \<Longrightarrow> hands_out s m l t = hands_out s' m l t"
  by (simp add: hands_out_def)

lemma allocate_in_hands_out:
  assumes "core_ok s" "buffer_at s i = Some b" "ab_allocator (slot s i) = Some f" "0 < n"
    "allocate_in i n s = Some (off, t)" "off \<noteq> kNullOffset"
  shows "hands_out s n (Locator i off) t"
proof -
  obtain f' where t: "core_ok t" "buffer_at t = buffer_at s"
    "slot t = (slot s)(i := (slot s i)\<lparr>ab_allocator := Some f'\<rparr>)" "free_whole t = free_whole s"
    "fifo_abs f off = None" "fifo_abs f' = (fifo_abs f)(off \<mapsto> n)"
    using allocate_in_ok [OF assms(1-4)] assms(5,6) by auto
  let ?p = "buffer_ptr b + off"
  have held: "held_in s i = {(buffer_ptr b + o1, k) | o1 k. fifo_abs f o1 = Some k}"
    using assms(2,3) by (simp add: held_in_def)
  have "held_in t i = {(buffer_ptr b + o1, k) | o1 k. fifo_abs f' o1 = Some k}"
    using assms(2) t by (simp add: held_in_def)
  also have "\<dots> = insert (?p, n) (held_in s i)" unfolding held t(6) using t(5) by auto
  finally have ins: "held_in t i = insert (?p, n) (held_in s i)" .
  have new: "(?p, n) \<notin> held_in s i" using t(5) unfolding held by auto
  have others: "held_in t j = held_in s j" if "j \<noteq> i" for j
    using that t by (intro held_in_cong) simp_all
  have "(?p, n) \<in> held_in t i" using ins by simp
  then have "off + n \<le> mapped_size b" using t(1,2) assms(2) by (elim held_inE [rotated]) auto
  then show ?thesis using handed_out [OF t(1) ins new others] t(2) assms(2,4) by (simp add: hands_out_def)
qed

lemma maybe_delete_ok:
  assumes "core_ok s" "buffer_at s i = Some b" "ab_allocator (slot s i) = Some f" "\<forall>a. unmap_status r a = MX_OK"
  shows "\<exists>s'. maybe_delete_sliced_buffer r i s = Some s' \<and> core_ok s' \<and> follows s s' \<and>
    free_whole s' = free_whole s \<and> active_id s' = active_id s \<and>
    (if fifo_abs f = Map.empty
     then buffer_at s' = (buffer_at s)(i := None) \<and> slot s' = (slot s)(i := empty_slot)
     else s' = s)"
proof -
  have i: "i < length (alloc_buffers s)" "alloc_buffers s ! i = slot s i"
    using core_okD(5) [OF assms(1,2)] by (simp_all add: slot_in)
  have wf: "fifo_wf f" using core_okD(6) [OF assms(1,2)] assms(3) by (simp add: sound_slot_def)
  show ?thesis
  proof (cases "fifo_abs f = Map.empty")
    case True
    then have "maybe_delete_sliced_buffer r i s = delete_buffer r i s"
      using i assms(3) any_current_correct [OF wf] by (simp add: maybe_delete_sliced_buffer_def)
    then show ?thesis using delete_buffer_ok [OF assms(1,2,4)] True by auto
  next
    case False
    then have "maybe_delete_sliced_buffer r i s = Some s"
      using i assms(3) any_current_correct [OF wf] by (simp add: maybe_delete_sliced_buffer_def)
    then show ?thesis using False assms(1) by (auto intro: follows_refl)
  qed
qed

lemma held_in_empty: "ab_allocator (slot s i) = Some f \<Longrightarrow> fifo_abs f = Map.empty \<Longrightarrow> held_in s i = {}"
  by (auto simp: held_in_def split: option.splits)

lemma held_in_none: "buffer_at s i = None \<Longrightarrow> held_in s i = {}"
  by (simp add: held_in_def)

lemma outstandingI: "(\<And>j. held_in t j = held_in s j) \<Longrightarrow> outstanding t = outstanding s"
  by (simp add: outstanding_def)

definition grown_size :: "nat \<Rightarrow> shared_buffer_set_allocator \<Rightarrow> nat" where
  "grown_size sz s = max (sz * 3) (ab_size (slot s (active_id s)) * 2)"

lemma allocator_okD:
  assumes "allocator_ok s"
  shows "core_ok s" "free_ok (free_whole s) s" "active_ok s" "tight s"
  using assms by (simp_all add: allocator_ok_def)

lemma free_ok_mem:
  "free_ok m s \<Longrightarrow> (k, i) \<in> set m \<Longrightarrow> buffer_at s i \<noteq> None \<and> whole (slot s i) \<and> ab_size (slot s i) = k"
  unfolding free_ok_def by auto

text \<open>A buffer just created for slices serves a request for at most its size.\<close>

lemma fresh_slice:
  assumes "core_ok s" "buffer_at s i = Some b" "ab_allocator (slot s i) = Some f" "fifo_abs f = Map.empty"
    "0 < sz" "sz \<le> ab_size (slot s i)" "i = active_id s" "free_ok (free_whole s) s" "tight s"
  shows "\<exists>off t. allocate_in i sz s = Some (off, t) \<and> off \<noteq> kNullOffset \<and> allocator_ok t \<and>
    hands_out s sz (Locator i off) t \<and> follows s t"
proof -
  obtain off f' t where t: "allocate_in i sz s = Some (off, t)" "core_ok t" "allocate_region sz f = Some (off, f')"
    "buffer_at t = buffer_at s" "slot t = (slot s)(i := (slot s i)\<lparr>ab_allocator := Some f'\<rparr>)"
    "free_whole t = free_whole s" "active_id t = active_id s" "updates t = updates s"
    using allocate_in_ok [OF assms(1,2,3,5)] by blast
  have sl: "fifo_wf f" "total_size f = ab_size (slot s i)"
    using core_okD(6) [OF assms(1,2)] assms(3) by (simp_all add: sound_slot_def)
  have off: "off \<noteq> kNullOffset" using fifo_empty_allocates [OF sl(1) assms(4,5)] assms(6) sl(2) t(3) by simp
  have "free_ok (free_whole t) t"
    unfolding t(6) using assms(8)
  proof (rule free_ok_cong [rotated])
    show "buffer_at t j = buffer_at s j \<and> slot t j = slot s j" if "(k, j) \<in> set (free_whole s)" for k j
      using free_ok_mem [OF assms(8) that] assms(3) t(4,5) by (auto simp: whole_def)
  qed
  moreover have "active_ok t" using assms(2,7) t(4,5,7) by (simp add: active_ok_def whole_def)
  moreover have "tight t" using assms(7,9) t(5,7) by (simp add: tight_def)
  moreover have "follows s t" using t(4,8) by (intro follows_refl) simp_all
  ultimately show ?thesis
    using t(1,2) off allocate_in_hands_out [OF assms(1,2,3,5) t(1) off] by (auto simp: allocator_ok_def)
qed

lemma grow_sliced_ok:
  assumes "allocator_ok s" "active_id s \<noteq> kNullBufferId" "0 < sz" "sz < kWholeRegionMinimumSize"
    "length (mapped_buffers s) < kNullBufferId" "kernel_ok r (grown_size sz s) (buffer_at s)"
  shows "\<exists>l t. grow_sliced r sz s = Some (l, t) \<and> alloc_result r s sz l t"
proof -
  note ok = allocator_okD [OF assms(1)]
  let ?a = "active_id s"
  obtain b f where a: "buffer_at s ?a = Some b" "ab_allocator (slot s ?a) = Some f"
    using ok(3) assms(2) by (auto simp: active_ok_def whole_def)
  have ia: "?a < length (alloc_buffers s)" "alloc_buffers s ! ?a = slot s ?a"
    using core_okD(5) [OF ok(1) a(1)] by (simp_all add: slot_in)
  have "sound_buffer b" "sound_slot b (slot s ?a)"
    using buffers_ok_sound [OF core_okD(1) [OF ok(1)] a(1)] core_okD(6) [OF ok(1) a(1)] by simp_all
  then have size: "max ((sz * kSlicedBufferInitialSizeMultiplier) mod 2 ^ 64)
      ((ab_size (alloc_buffers s ! ?a) * kSlicedBufferGrowMultiplier) mod 2 ^ 64) = grown_size sz s"
    using assms(4) ia by (simp add: grown_size_def sound_slot_def sound_buffer_def kMaxBufferLen_def
        kSlicedBufferInitialSizeMultiplier_def kSlicedBufferGrowMultiplier_def kWholeRegionMinimumSize_def)
  have pos: "0 < grown_size sz s" "sz \<le> grown_size sz s" using assms(3) by (simp_all add: grown_size_def)
  obtain i s1 where s1: "create_buffer r False (grown_size sz s) s = Some (i, s1)" "core_ok s1"
    "free_whole s1 = free_whole s" "active_id s1 = ?a" "duplicate_vmo r \<noteq> 0 \<longrightarrow> follows s s1"
    and res: "if kernel_grants r
     then i \<noteq> kNullBufferId \<and> buffer_at s i = None \<and> (\<exists>b. buffer_at s1 = (buffer_at s)(i \<mapsto> b)) \<and>
       (\<exists>f. slot s1 = (slot s)(i := \<lparr>ab_size = grown_size sz s, ab_allocator = f\<rparr>) \<and>
         (if False then f = None else \<exists>g. f = Some g \<and> fifo_wf g \<and> fifo_abs g = Map.empty \<and> total_size g = grown_size sz s))
     else i = kNullBufferId \<and> buffer_at s1 = buffer_at s \<and> slot s1 = slot s"
    using create_buffer_ok [OF ok(1) assms(5) pos(1) assms(6), of False] by blast
  have step: "grow_sliced r sz s = (if i = kNullBufferId then Some (null_locator, s1) else do {
      s2 \<leftarrow> maybe_delete_sliced_buffer r ?a s1;
      (off, s3) \<leftarrow> allocate_in i sz (s2\<lparr>active_id := i\<rparr>);
      dcheck (off \<noteq> kNullOffset);
      Some (Locator i off, s3) })"
    unfolding grow_sliced_def size Let_def using ia s1(1,4) by simp
  show ?thesis
  proof (cases "kernel_grants r")
    case False
    then have eq: "i = kNullBufferId" "buffer_at s1 = buffer_at s" "slot s1 = slot s" using res by simp_all
    have "outstanding s1 = outstanding s" using eq s1(3) by (intro outstandingI held_in_cong) simp_all
    moreover have "allocator_ok s1"
      using ok eq s1(2,3,4) free_ok_cong [OF _ ok(2), of s1] by (simp add: allocator_ok_def active_ok_def tight_def)
    ultimately show ?thesis
      using False step eq(1) s1(5) by (simp add: alloc_result_def is_null_def null_locator_def)
  next
    case True
    then obtain b' g where i: "i \<noteq> kNullBufferId" "buffer_at s i = None" "buffer_at s1 = (buffer_at s)(i \<mapsto> b')"
      "slot s1 = (slot s)(i := \<lparr>ab_size = grown_size sz s, ab_allocator = Some g\<rparr>)" "fifo_abs g = Map.empty"
      using res by auto
    have ai: "?a \<noteq> i" using a(1) i(2) by auto
    have kern: "\<forall>a. unmap_status r a = MX_OK" using assms(6) by (simp add: kernel_ok_def)
    have a1: "buffer_at s1 ?a = Some b" "ab_allocator (slot s1 ?a) = Some f" using a ai i(3,4) by simp_all
    obtain s2 where s2: "maybe_delete_sliced_buffer r ?a s1 = Some s2" "core_ok s2" "follows s1 s2"
      "free_whole s2 = free_whole s" "active_id s2 = ?a"
      "if fifo_abs f = Map.empty
       then buffer_at s2 = (buffer_at s1)(?a := None) \<and> slot s2 = (slot s1)(?a := empty_slot) else s2 = s1"
      using maybe_delete_ok [OF s1(2) a1 kern] s1(3,4) by auto
    define s3 where "s3 = s2\<lparr>active_id := i\<rparr>"
    have at: "buffer_at s3 j = (if j = i then Some b' else if j = ?a \<and> fifo_abs f = Map.empty then None else buffer_at s j)"
      "slot s3 j = (if j = i then \<lparr>ab_size = grown_size sz s, ab_allocator = Some g\<rparr>
         else if j = ?a \<and> fifo_abs f = Map.empty then empty_slot else slot s j)" for j
      using s2(6) i(3,4) ai by (auto simp: s3_def split: if_splits)
    have s3: "core_ok s3" "free_whole s3 = free_whole s" "active_id s3 = i" using s2 by (simp_all add: s3_def)
    have "free_ok (free_whole s3) s3"
      unfolding s3(2) using ok(2)
    proof (rule free_ok_cong [rotated])
      show "buffer_at s3 j = buffer_at s j \<and> slot s3 j = slot s j" if "(k, j) \<in> set (free_whole s)" for k j
        using free_ok_mem [OF ok(2) that] a(2) i(2) by (auto simp: at whole_def)
    qed
    moreover have "tight s3"
      unfolding tight_def s3(3)
    proof (intro allI impI)
      fix j h assume j: "j \<noteq> i" "ab_allocator (slot s3 j) = Some h"
      show "fifo_abs h \<noteq> Map.empty"
      proof (cases "j = ?a")
        case True
        then have "h = f \<and> fifo_abs f \<noteq> Map.empty" using j a(2) by (auto simp: at empty_slot_def split: if_splits)
        then show ?thesis by blast
      next
        case False
        then show ?thesis using j ok(4) by (auto simp: at tight_def)
      qed
    qed
    moreover have "buffer_at s3 i = Some b'" "ab_allocator (slot s3 i) = Some g" "sz \<le> ab_size (slot s3 i)"
      using at pos by simp_all
    moreover note s3(3) [symmetric]
    ultimately obtain off t where t: "allocate_in i sz s3 = Some (off, t)" "off \<noteq> kNullOffset" "allocator_ok t"
      "hands_out s3 sz (Locator i off) t" "follows s3 t"
      using fresh_slice [OF s3(1) _ _ i(5) assms(3)] by blast
    have "held_in s3 i = {}" by (rule held_in_empty [OF _ i(5)]) (simp add: at)
    moreover have "held_in s i = {}" by (rule held_in_none) (rule i(2))
    moreover have "held_in s3 ?a = {}" "held_in s ?a = {}" if "fifo_abs f = Map.empty"
      using ai that by (simp_all add: held_in_none at held_in_empty [OF a(2)])
    moreover have "held_in s3 j = held_in s j" if "j \<noteq> i" "j = ?a \<Longrightarrow> fifo_abs f \<noteq> Map.empty" for j
      by (rule held_in_cong) (use that s3(2) in \<open>auto simp: at\<close>)
    ultimately have "held_in s3 j = held_in s j" for j by metis
    then have "hands_out s sz (Locator i off) t" using t(4) outstandingI hands_out_eq by metis
    moreover have "follows s2 s3" by (intro follows_refl) (simp_all add: s3_def)
    then have "duplicate_vmo r \<noteq> 0 \<longrightarrow> follows s t" using s1(5) s2(3) t(5) follows_trans by blast
    moreover have "grow_sliced r sz s = Some (Locator i off, t)"
      using step i(1) s2(1) t(1,2) by (simp add: s3_def)
    ultimately show ?thesis using t(2,3) by (auto simp: alloc_result_def is_null_def)
  qed
qed

lemma try_active_ok:
  assumes "allocator_ok s" "active_id s \<noteq> kNullBufferId" "0 < sz" "sz < kWholeRegionMinimumSize"
    "length (mapped_buffers s) < kNullBufferId" "kernel_ok r (grown_size sz s) (buffer_at s)"
  shows "\<exists>l t. try_active r sz s = Some (l, t) \<and> alloc_result r s sz l t"
proof -
  note ok = allocator_okD [OF assms(1)]
  let ?a = "active_id s"
  obtain b f where a: "buffer_at s ?a = Some b" "ab_allocator (slot s ?a) = Some f"
    using ok(3) assms(2) by (auto simp: active_ok_def whole_def)
  obtain off f' t where t: "allocate_in ?a sz s = Some (off, t)" "core_ok t"
    "buffer_at t = buffer_at s" "slot t = (slot s)(?a := (slot s ?a)\<lparr>ab_allocator := Some f'\<rparr>)"
    "free_whole t = free_whole s" "active_id t = ?a" "updates t = updates s"
    "length (mapped_buffers t) = length (mapped_buffers s)" "off = kNullOffset \<longrightarrow> f' = f"
    using allocate_in_ok [OF ok(1) a assms(3)] by (metis (no_types, lifting))
  have "free_ok (free_whole t) t"
    unfolding t(5) using ok(2)
  proof (rule free_ok_cong [rotated])
    show "buffer_at t j = buffer_at s j \<and> slot t j = slot s j" if "(k, j) \<in> set (free_whole s)" for k j
      using free_ok_mem [OF ok(2) that] a(2) t(3,4) by (auto simp: whole_def)
  qed
  then have okt: "allocator_ok t"
    using ok(4) a(1) t by (simp add: allocator_ok_def active_ok_def tight_def whole_def)
  have fo: "follows s t" using t(3,7) by (intro follows_refl) simp_all
  show ?thesis
  proof (cases "off = kNullOffset")
    case False
    then have "try_active r sz s = Some (Locator ?a off, t)" using t(1,6) by (simp add: try_active_def)
    moreover have "hands_out s sz (Locator ?a off) t"
      by (rule allocate_in_hands_out [OF ok(1) a assms(3) t(1) False])
    ultimately show ?thesis using False okt fo by (auto simp: alloc_result_def is_null_def)
  next
    case True
    then have sl: "slot t = slot s" using t(4,9) a(2) by (auto simp: fun_eq_iff)
    then have "outstanding t = outstanding s" using t(3,5) by (intro outstandingI held_in_cong) simp_all
    moreover have "grown_size sz t = grown_size sz s" using sl t(6) by (simp add: grown_size_def)
    then obtain l u where "grow_sliced r sz t = Some (l, u)" "alloc_result r t sz l u"
      using grow_sliced_ok [OF okt] assms t(3,6,8) by metis
    moreover have "try_active r sz s = grow_sliced r sz t" using t(1) True by (simp add: try_active_def)
    ultimately show ?thesis
      using fo follows_trans hands_out_eq [of t s] by (auto simp: alloc_result_def split: if_splits)
  qed
qed

lemma allocate_sliced_ok:
  assumes "allocator_ok s" "0 < sz" "sz < kWholeRegionMinimumSize" "length (mapped_buffers s) < kNullBufferId"
    "kernel_ok r (if active_id s = kNullBufferId then sz * 3 else grown_size sz s) (buffer_at s)"
  shows "\<exists>l t. allocate_sliced_region r r' sz s = Some (l, t) \<and> alloc_result r s sz l t"
proof (cases "active_id s = kNullBufferId")
  case False
  then show ?thesis using try_active_ok [OF assms(1) False assms(2-4)] assms(5) by (simp add: allocate_sliced_region_def)
next
  case True
  note ok = allocator_okD [OF assms(1)]
  have size: "(sz * kSlicedBufferInitialSizeMultiplier) mod 2 ^ 64 = sz * 3" "0 < sz * 3"
    using assms(2,3) by (simp_all add: kSlicedBufferInitialSizeMultiplier_def kWholeRegionMinimumSize_def)
  have kern: "kernel_ok r (sz * 3) (buffer_at s)" using assms(5) True by simp
  obtain i s1 where s1: "create_buffer r False (sz * 3) s = Some (i, s1)" "core_ok s1"
    "free_whole s1 = free_whole s" "active_id s1 = active_id s" "duplicate_vmo r \<noteq> 0 \<longrightarrow> follows s s1"
    and res: "if kernel_grants r
     then i \<noteq> kNullBufferId \<and> buffer_at s i = None \<and> (\<exists>b. buffer_at s1 = (buffer_at s)(i \<mapsto> b)) \<and>
       (\<exists>f. slot s1 = (slot s)(i := \<lparr>ab_size = sz * 3, ab_allocator = f\<rparr>) \<and>
         (if False then f = None else \<exists>g. f = Some g \<and> fifo_wf g \<and> fifo_abs g = Map.empty \<and> total_size g = sz * 3))
     else i = kNullBufferId \<and> buffer_at s1 = buffer_at s \<and> slot s1 = slot s"
    using create_buffer_ok [OF ok(1) assms(4) size(2) kern, of False] by blast
  define s2 where "s2 = s1\<lparr>active_id := i\<rparr>"
  have step: "allocate_sliced_region r r' sz s =
      (if i = kNullBufferId then Some (null_locator, s2) else try_active r' sz s2)"
    using True s1(1) by (simp only: allocate_sliced_region_def size(1) s2_def Let_def) simp
  have fo: "follows s1 s2" by (intro follows_refl) (simp_all add: s2_def)
  show ?thesis
  proof (cases "kernel_grants r")
    case False
    then have eq: "i = kNullBufferId" "buffer_at s2 = buffer_at s" "slot s2 = slot s" "free_whole s2 = free_whole s"
      "active_id s2 = active_id s" "core_ok s2"
      using res True s1(2,3) by (simp_all add: s2_def)
    have "outstanding s2 = outstanding s" using eq by (intro outstandingI held_in_cong) simp_all
    moreover have "allocator_ok s2"
      using ok eq free_ok_cong [OF _ ok(2), of s2] by (simp add: allocator_ok_def active_ok_def tight_def)
    ultimately show ?thesis
      using False step eq(1) s1(5) fo follows_trans by (auto simp: alloc_result_def is_null_def null_locator_def)
  next
    case granted: True
    then obtain b' g where i: "i \<noteq> kNullBufferId" "buffer_at s i = None" "buffer_at s2 = (buffer_at s)(i \<mapsto> b')"
      "slot s2 = (slot s)(i := \<lparr>ab_size = sz * 3, ab_allocator = Some g\<rparr>)" "fifo_abs g = Map.empty"
      using res by (auto simp: s2_def)
    have s2: "core_ok s2" "free_whole s2 = free_whole s" "active_id s2 = i" using s1(2,3) by (simp_all add: s2_def)
    have "free_ok (free_whole s2) s2"
      unfolding s2(2) using ok(2)
    proof (rule free_ok_cong [rotated])
      show "buffer_at s2 j = buffer_at s j \<and> slot s2 j = slot s j" if "(k, j) \<in> set (free_whole s)" for k j
        using free_ok_mem [OF ok(2) that] i(2-4) by auto
    qed
    moreover have "tight s2"
      unfolding tight_def s2(3) i(4)
    proof (intro allI impI)
      fix j f assume j: "j \<noteq> i" "ab_allocator (((slot s)(i := \<lparr>ab_size = sz * 3, ab_allocator = Some g\<rparr>)) j) = Some f"
      then have "j \<noteq> active_id s"
      proof -
        have "buffer_at s j \<noteq> None"
        proof
          assume "buffer_at s j = None"
          then have "slot s j = empty_slot" by (rule core_okD(4) [OF ok(1)])
          then show False using j by (simp add: empty_slot_def)
        qed
        then obtain b where "buffer_at s j = Some b" by blast
        then have "j < length (mapped_buffers s)" by (simp add: buffer_at_Some)
        then show ?thesis using True assms(4) by simp
      qed
      then show "fifo_abs f \<noteq> Map.empty" using ok(4) j by (auto simp: tight_def)
    qed
    moreover have "buffer_at s2 i = Some b'" "ab_allocator (slot s2 i) = Some g" "sz \<le> ab_size (slot s2 i)"
      using i(3,4) i(4) by simp_all
    moreover note s2(3) [symmetric]
    ultimately obtain off t where t: "allocate_in i sz s2 = Some (off, t)" "off \<noteq> kNullOffset" "allocator_ok t"
      "hands_out s2 sz (Locator i off) t" "follows s2 t"
      using fresh_slice [OF s2(1) _ _ i(5) assms(2)] by blast
    have "held_in s2 j = held_in s j" for j
    proof (cases "j = i")
      case True
      have "held_in s2 i = {}" using i(4,5) by (intro held_in_empty [of _ _ g]) simp_all
      moreover have "held_in s i = {}" by (rule held_in_none) (rule i(2))
      ultimately show ?thesis using True by simp
    next
      case False
      then show ?thesis using i(3,4) s2(2) by (intro held_in_cong) simp_all
    qed
    then have "hands_out s sz (Locator i off) t" using t(4) outstandingI hands_out_eq by metis
    moreover have "duplicate_vmo r \<noteq> 0 \<longrightarrow> follows s t" using s1(5) fo t(5) follows_trans by blast
    moreover have "active_id t = i" using allocate_in_ok [OF s2(1), of i b' g sz] i(3,4) assms(2) t(1) s2(3) by auto
    then have "try_active r' sz s2 = Some (Locator i off, t)" using t(1,2) s2(3) by (simp add: try_active_def)
    ultimately show ?thesis using step i(1) t(2,3) by (auto simp: alloc_result_def is_null_def)
  qed
qed

section \<open>The whole strategy\<close>

text \<open>The free buffers a request makes the allocator delete.\<close>

definition discarded :: "nat \<Rightarrow> shared_buffer_set_allocator \<Rightarrow> nat set" where
  "discarded sz s = (if kWholeRegionMinimumSize \<le> sz then {i. \<exists>k < sz. (k, i) \<in> set (free_whole s)} else {})"

lemma free_ok_drop: "free_ok (xs @ ys) s \<Longrightarrow> free_ok ys s"
  by (auto simp: free_ok_def sorted_append)

lemma delete_buffers_ok:
  assumes "core_ok s" "free_ok (m @ rest) s" "\<forall>a. unmap_status r a = MX_OK"
  shows "\<exists>t. delete_buffers r m s = Some t \<and> core_ok t \<and> follows s t \<and> free_ok rest t \<and>
    free_whole t = free_whole s \<and> active_id t = active_id s \<and> length (mapped_buffers t) = length (mapped_buffers s) \<and>
    (\<forall>i. buffer_at t i = (if i \<in> snd ` set m then None else buffer_at s i) \<and>
         slot t i = (if i \<in> snd ` set m then empty_slot else slot s i))"
  using assms(1,2)
proof (induction m arbitrary: s)
  case Nil
  then show ?case by (auto intro: follows_refl)
next
  case (Cons x m)
  obtain k i where x: "x = (k, i)" by fastforce
  obtain b where b: "buffer_at s i = Some b" using free_ok_mem [OF Cons.prems(2), of k i] x by auto
  obtain s1 where s1: "delete_buffer r i s = Some s1" "core_ok s1" "buffer_at s1 = (buffer_at s)(i := None)"
    "slot s1 = (slot s)(i := empty_slot)" "free_whole s1 = free_whole s" "active_id s1 = active_id s"
    "length (mapped_buffers s1) = length (mapped_buffers s)" "follows s s1"
    using delete_buffer_ok [OF Cons.prems(1) b assms(3)] by blast
  have fr: "free_ok (m @ rest) s" using Cons.prems(2) free_ok_drop [of "[x]" "m @ rest"] by simp
  have i: "i \<notin> snd ` set (m @ rest)" using Cons.prems(2) x by (simp add: free_ok_def image_Un)
  have "buffer_at s1 j = buffer_at s j \<and> slot s1 j = slot s j" if "(k', j) \<in> set (m @ rest)" for k' j
  proof -
    have "j \<noteq> i" using i that by (metis image_eqI snd_conv)
    then show ?thesis using s1(3,4) by simp
  qed
  then have "free_ok (m @ rest) s1" by (rule free_ok_cong [OF _ fr])
  then obtain t where t: "delete_buffers r m s1 = Some t" "core_ok t" "follows s1 t" "free_ok rest t"
    "free_whole t = free_whole s1" "active_id t = active_id s1"
    "length (mapped_buffers t) = length (mapped_buffers s1)"
    "\<forall>i. buffer_at t i = (if i \<in> snd ` set m then None else buffer_at s1 i) \<and>
         slot t i = (if i \<in> snd ` set m then empty_slot else slot s1 i)"
    using Cons.IH [OF s1(2)] by blast
  have "follows s t" using s1(8) t(3) by (rule follows_trans)
  moreover have "delete_buffers r (x # m) s = Some t" using s1(1) t(1) by (simp add: x)
  moreover have "\<forall>j. buffer_at t j = (if j \<in> snd ` set (x # m) then None else buffer_at s j) \<and>
      slot t j = (if j \<in> snd ` set (x # m) then empty_slot else slot s j)"
    using t(8) s1(3,4) by (simp add: x)
  ultimately show ?case using t(2,4-7) s1(5-7) by (intro exI [of _ t]) simp
qed

lemma take_below: "sorted (map fst m) \<Longrightarrow> set (takeWhile (\<lambda>(k, i). k < n) m) = {(k, i) \<in> set m. k < (n :: nat)}"
  by (induction m) auto

lemma drop_from: "sorted (map fst m) \<Longrightarrow> set (dropWhile (\<lambda>(k, i). k < n) m) = {(k, i) \<in> set m. (n :: nat) \<le> k}"
  by (induction m) (auto simp: not_less)

lemma held_whole:
  "buffer_at s i = Some b \<Longrightarrow> whole (slot s i) \<Longrightarrow>
   held_in s i = (if i \<in> snd ` set (free_whole s) then {} else {(buffer_ptr b, ab_size (slot s i))})"
  by (simp add: held_in_def whole_def)

lemma hands_out_whole:
  assumes "core_ok t" "buffer_at t i = Some b" "whole (slot t i)" "i \<notin> snd ` set (free_whole t)"
    "held_in s i = {}" "\<And>j. j \<noteq> i \<Longrightarrow> held_in t j = held_in s j"
  shows "hands_out s (ab_size (slot t i)) (Locator i 0) t"
proof -
  have "held_in t i = insert (buffer_ptr b, ab_size (slot t i)) (held_in s i)"
    using held_whole [OF assms(2,3)] assms(4,5) by simp
  note out = handed_out [OF assms(1) this _ assms(6)]
  have "0 < ab_size (slot t i)" "ab_size (slot t i) \<le> mapped_size b"
    using core_okD(6) [OF assms(1,2)] by (simp_all add: sound_slot_def)
  then show ?thesis using out assms(2,5) by (simp add: hands_out_def)
qed

lemma allocate_whole_ok:
  assumes "allocator_ok s" "kWholeRegionMinimumSize \<le> sz" "length (mapped_buffers s) < kNullBufferId"
    "kernel_ok r sz (buffer_at s |` (- discarded sz s))"
  shows "\<exists>l t. allocate_whole_region r sz s = Some (l, t) \<and> alloc_result r s sz l t"
proof -
  note ok = allocator_okD [OF assms(1)]
  have kern: "\<forall>a. unmap_status r a = MX_OK" using assms(4) by (simp add: kernel_ok_def)
  define small where "small = takeWhile (\<lambda>(k, i). k < sz) (free_whole s)"
  define large where "large = dropWhile (\<lambda>(k, i). k < sz) (free_whole s)"
  have fw: "free_whole s = small @ large" by (simp add: small_def large_def)
  have sorted: "sorted (map fst (free_whole s))" using ok(2) by (simp add: free_ok_def)
  have ids: "snd ` set small = discarded sz s"
    unfolding small_def take_below [OF sorted] discarded_def using assms(2) by force
  obtain s1 where s1: "delete_buffers r small s = Some s1" "core_ok s1" "follows s s1" "free_ok large s1"
    "active_id s1 = active_id s" "length (mapped_buffers s1) = length (mapped_buffers s)"
    "\<And>i. buffer_at s1 i = (if i \<in> snd ` set small then None else buffer_at s i)"
    "\<And>i. slot s1 i = (if i \<in> snd ` set small then empty_slot else slot s i)"
    using delete_buffers_ok [OF ok(1) _ kern, of small large] ok(2) unfolding fw by auto
  define s2 where "s2 = s1\<lparr>free_whole := large\<rparr>"
  have s2: "core_ok s2" "follows s s2" "free_ok large s2" "free_whole s2 = large" "active_id s2 = active_id s"
    using s1 free_ok_cong [OF _ s1(4), of s2] follows_trans [OF s1(3) follows_refl, of s2] by (simp_all add: s2_def)
  have at: "buffer_at s2 i = (if i \<in> snd ` set small then None else buffer_at s i)"
    "slot s2 i = (if i \<in> snd ` set small then empty_slot else slot s i)" for i
    using s1(7,8) by (simp_all add: s2_def)
  have small: "buffer_at s i \<noteq> None \<and> whole (slot s i)" if "i \<in> snd ` set (free_whole s)" for i
    using that free_ok_mem [OF ok(2)] by fastforce
  have act: "active_ok s2"
    using ok(3) small s2(5) at fw by (auto simp: active_ok_def)
  have "tight s2"
    using ok(4) s2(5) at by (auto simp: tight_def empty_slot_def split: if_splits)
  have disj: "snd ` set small \<inter> snd ` set large = {}" using ok(2) fw by (auto simp: free_ok_def)
  have held: "held_in s2 j = held_in s j" for j
  proof (cases "j \<in> snd ` set small")
    case True
    then have m: "j \<in> snd ` set (free_whole s)" using fw by auto
    then obtain b where "buffer_at s j = Some b" using small by blast
    then have "held_in s j = {}" using held_whole m small by simp
    then show ?thesis using True by (simp add: held_in_none at)
  qed (intro held_in_cong, auto simp: at s2(4) fw)
  have whole_def': "allocate_whole_region r sz s = (case large of
        (k, i) # m \<Rightarrow> Some (Locator i 0, s2\<lparr>free_whole := m\<rparr>)
      | [] \<Rightarrow> do { (i, s) \<leftarrow> create_buffer r True sz s2;
          Some (if i = kNullBufferId then null_locator else Locator i 0, s) })"
    unfolding allocate_whole_region_def small_def [symmetric] large_def [symmetric] Let_def s1(1) s2_def by simp
  show ?thesis
  proof (cases large)
    case (Cons x m)
    obtain k i where x: "x = (k, i)" by fastforce
    define t where "t = s2\<lparr>free_whole := m\<rparr>"
    have i: "buffer_at s2 i \<noteq> None" "whole (slot s2 i)" "ab_size (slot s2 i) = k"
      using free_ok_mem [OF s2(3), of k i] Cons x by auto
    obtain b where b: "buffer_at s2 i = Some b" using i(1) by blast
    have "(k, i) \<in> set large" using Cons x by simp
    then have "sz \<le> k" unfolding large_def drop_from [OF sorted] by simp
    have im: "i \<notin> snd ` set m" using s2(3) Cons x by (simp add: free_ok_def)
    have t: "core_ok t" "buffer_at t = buffer_at s2" "slot t = slot s2" using s2(1) by (simp_all add: t_def)
    have "held_in s2 i = {}" using held_whole [OF b i(2)] s2(4) Cons x by simp
    moreover have "held_in t j = held_in s2 j" if "j \<noteq> i" for j
      using that t s2(4) Cons x by (intro held_in_cong) (simp_all add: t_def)
    ultimately have "hands_out s2 (ab_size (slot t i)) (Locator i 0) t"
      using t b i(2) im by (intro hands_out_whole) (simp_all add: t_def)
    then have "hands_out s k (Locator i 0) t" using outstandingI [OF held] hands_out_eq t(3) i(3) by metis
    moreover have "free_ok m t"
      using s2(3) Cons t free_ok_drop [of "[x]" m] free_ok_cong [of m t s2] by simp
    then have "allocator_ok t"
      using t act \<open>tight s2\<close> by (simp add: allocator_ok_def active_ok_def tight_def t_def)
    moreover have "follows s t"
      using s2(2) follows_refl [of t s2] follows_trans by (auto simp: t_def)
    ultimately show ?thesis
      using whole_def' Cons x \<open>sz \<le> k\<close> by (auto simp: alloc_result_def is_null_def kNullOffset_def t_def)
  next
    case Nil
    have "buffer_at s2 = buffer_at s |` (- discarded sz s)"
      by (auto simp: at ids restrict_map_def fun_eq_iff)
    then have "kernel_ok r sz (buffer_at s2)" using assms(4) by simp
    moreover have "length (mapped_buffers s2) < kNullBufferId" using assms(3) s1(6) by (simp add: s2_def)
    moreover have pos: "0 < sz" using assms(2) by (simp add: kWholeRegionMinimumSize_def)
    ultimately obtain i t where t: "create_buffer r True sz s2 = Some (i, t)" "core_ok t"
      "free_whole t = []" "active_id t = active_id s" "duplicate_vmo r \<noteq> 0 \<longrightarrow> follows s2 t"
      and res: "if kernel_grants r
       then i \<noteq> kNullBufferId \<and> buffer_at s2 i = None \<and> (\<exists>b. buffer_at t = (buffer_at s2)(i \<mapsto> b)) \<and>
         (\<exists>f. slot t = (slot s2)(i := \<lparr>ab_size = sz, ab_allocator = f\<rparr>) \<and>
           (if True then f = None else \<exists>g. f = Some g \<and> fifo_wf g \<and> fifo_abs g = Map.empty \<and> total_size g = sz))
       else i = kNullBufferId \<and> buffer_at t = buffer_at s2 \<and> slot t = slot s2"
      using create_buffer_ok [OF s2(1), of sz r True] s2(4,5) Nil by auto
    have fo: "duplicate_vmo r \<noteq> 0 \<longrightarrow> follows s t" using s2(2) t(5) follows_trans by blast
    have fr: "free_ok (free_whole t) t" by (simp add: t(3) free_ok_def)
    show ?thesis
    proof (cases "kernel_grants r")
      case False
      then have eq: "i = kNullBufferId" "buffer_at t = buffer_at s2" "slot t = slot s2" using res by simp_all
      have "outstanding t = outstanding s"
        using outstandingI [OF held] outstandingI [of t s2, OF held_in_cong] eq t(3) s2(4) Nil by simp
      moreover have "allocator_ok t"
        using t act \<open>tight s2\<close> eq fr s2(5) by (simp add: allocator_ok_def active_ok_def tight_def)
      ultimately show ?thesis
        using whole_def' Nil t(1) eq(1) False fo by (simp add: alloc_result_def is_null_def null_locator_def)
    next
      case True
      then obtain b where i: "i \<noteq> kNullBufferId" "buffer_at s2 i = None" "buffer_at t = (buffer_at s2)(i \<mapsto> b)"
        "slot t = (slot s2)(i := \<lparr>ab_size = sz, ab_allocator = None\<rparr>)"
        using res by auto
      have "held_in t j = held_in s2 j" if "j \<noteq> i" for j
        using that i t(3) s2(4) Nil by (intro held_in_cong) simp_all
      then have "hands_out s2 (ab_size (slot t i)) (Locator i 0) t"
        using t(2,3) i by (intro hands_out_whole) (simp_all add: whole_def held_in_none)
      then have "hands_out s sz (Locator i 0) t" using outstandingI [OF held] hands_out_eq i(4) by (metis alloc_buffer.select_convs(1) fun_upd_same)
      moreover have "active_ok t"
        using act i t(4) s2(5) by (auto simp: active_ok_def)
      moreover have "tight t" using \<open>tight s2\<close> i(4) t(4) s2(5) by (simp add: tight_def)
      ultimately show ?thesis
        using whole_def' Nil t(1,2) i(1) fo fr by (auto simp: alloc_result_def is_null_def kNullOffset_def allocator_ok_def)
    qed
  qed
qed

section \<open>Allocating and releasing\<close>

text \<open>The size of the buffer a request would have the kernel create.\<close>

definition request :: "nat \<Rightarrow> shared_buffer_set_allocator \<Rightarrow> nat" where
  "request sz s = (if kWholeRegionMinimumSize \<le> sz then sz
     else if active_id s = kNullBufferId then sz * 3 else grown_size sz s)"

lemma allocate_ok:
  assumes "allocator_ok s" "0 < sz" "length (mapped_buffers s) < kNullBufferId"
    "kernel_ok r (request sz s) (buffer_at s |` (- discarded sz s))"
  shows "\<exists>p t. allocate r r' sz s = Some (p, t) \<and> allocator_ok t \<and> (duplicate_vmo r \<noteq> 0 \<longrightarrow> follows s t) \<and>
    (if p = 0 then outstanding t = outstanding s \<and> \<not> kernel_grants r
     else \<exists>m. sz \<le> m \<and> outstanding t = insert (p, m) (outstanding s) \<and>
       (\<forall>(q, k) \<in> outstanding s. p + m \<le> q \<or> q + k \<le> p))"
proof -
  let ?alloc = "if kWholeRegionMinimumSize \<le> sz then allocate_whole_region r sz s
    else allocate_sliced_region r r' sz s"
  have "\<exists>l t. ?alloc = Some (l, t) \<and> alloc_result r s sz l t"
  proof (cases "kWholeRegionMinimumSize \<le> sz")
    case True
    then show ?thesis using allocate_whole_ok [OF assms(1) True assms(3)] assms(4) by (simp add: request_def)
  next
    case False
    then have "buffer_at s |` (- discarded sz s) = buffer_at s" by (simp add: discarded_def restrict_map_def fun_eq_iff)
    then have "kernel_ok r (if active_id s = kNullBufferId then sz * 3 else grown_size sz s) (buffer_at s)"
      using assms(4) False by (simp add: request_def)
    then show ?thesis using allocate_sliced_ok [OF assms(1,2) _ assms(3)] False by simp
  qed
  then obtain l t where t: "?alloc = Some (l, t)" "alloc_result r s sz l t" by blast
  have step: "allocate r r' sz s = do { p \<leftarrow> ptr_from_locator l t; Some (p, t) }"
    using t(1) assms(2) by (simp add: allocate_def)
  have ok: "allocator_ok t" "duplicate_vmo r \<noteq> 0 \<longrightarrow> follows s t" using t(2) by (simp_all add: alloc_result_def)
  show ?thesis
  proof (cases "is_null l")
    case True
    then have "allocate r r' sz s = Some (0, t)" using step by (simp add: ptr_from_locator_def)
    then show ?thesis using True t(2) by (simp add: alloc_result_def)
  next
    case False
    then obtain m b where m: "sz \<le> m" "buffer_at t (buffer_id l) = Some b" "loc_offset l + m \<le> mapped_size b" "0 < m"
      "outstanding t = insert (buffer_ptr b + loc_offset l, m) (outstanding s)"
      "\<forall>(q, k) \<in> outstanding s. buffer_ptr b + loc_offset l + m \<le> q \<or> q + k \<le> buffer_ptr b + loc_offset l"
      using t(2) by (auto simp: alloc_result_def hands_out_def)
    have bt: "buffers_ok t" using ok(1) by (simp add: allocator_ok_def core_ok_def)
    have "ptr_from_locator l t = Some (buffer_ptr b + loc_offset l)"
      using address_of_locator [OF bt m(2), of "loc_offset l"] m(3,4) by simp
    moreover have "buffer_ptr b + loc_offset l \<noteq> 0" using sound_bufferD(1) [OF buffers_ok_sound [OF bt m(2)]] by simp
    ultimately show ?thesis using step ok m(1,5,6) by auto
  qed
qed

lemma multimap_insert_set [simp]: "set (multimap_insert k v m) = insert (k, v) (set m)"
  by (induction k v m rule: multimap_insert.induct) auto

lemma multimap_insert_sorted: "sorted (map fst m) \<Longrightarrow> sorted (map fst (multimap_insert k v m))"
  by (induction k v m rule: multimap_insert.induct) auto

lemma multimap_insert_distinct:
  "distinct (map snd m) \<Longrightarrow> v \<notin> snd ` set m \<Longrightarrow> distinct (map snd (multimap_insert k v m))"
  by (induction k v m rule: multimap_insert.induct) auto

lemma release_whole_ok:
  assumes "allocator_ok s" "buffer_at s i = Some b" "ab_allocator (slot s i) = None" "i \<notin> snd ` set (free_whole s)"
  shows "\<exists>t. release_whole_region (Locator i 0) s = Some t \<and> allocator_ok t \<and> follows s t \<and>
    held_in t i = {} \<and> (\<forall>j. j \<noteq> i \<longrightarrow> held_in t j = held_in s j)"
proof -
  note ok = allocator_okD [OF assms(1)]
  have i: "i < length (alloc_buffers s)" "alloc_buffers s ! i = slot s i"
    using core_okD(5) [OF ok(1) assms(2)] by (simp_all add: slot_in)
  define t where "t = s\<lparr>free_whole := multimap_insert (ab_size (slot s i)) i (free_whole s)\<rparr>"
  have "free_ok (free_whole t) t"
    using ok(2) assms(2-4) multimap_insert_sorted multimap_insert_distinct
    by (auto simp: free_ok_def t_def whole_def)
  then have "allocator_ok t" using ok by (simp add: allocator_ok_def t_def active_ok_def tight_def)
  moreover have "release_whole_region (Locator i 0) s = Some t"
    using i assms(3) by (simp add: release_whole_region_def is_null_def kNullOffset_def t_def)
  moreover have "follows s t" by (intro follows_refl) (simp_all add: t_def)
  moreover have "held_in t i = {}" using assms(2,3) by (simp add: held_in_def t_def)
  moreover have "held_in t j = held_in s j" if "j \<noteq> i" for j
    using that by (intro held_in_cong) (simp_all add: t_def)
  ultimately show ?thesis by blast
qed

lemma release_sliced_ok:
  assumes "allocator_ok s" "buffer_at s i = Some b" "ab_allocator (slot s i) = Some f" "fifo_abs f off = Some n"
    "\<forall>a. unmap_status r a = MX_OK" "off \<noteq> kNullOffset"
  shows "\<exists>t. release_sliced_region r (Locator i off) s = Some t \<and> allocator_ok t \<and> follows s t \<and>
    held_in t i = held_in s i - {(buffer_ptr b + off, n)} \<and> (\<forall>j. j \<noteq> i \<longrightarrow> held_in t j = held_in s j)"
proof -
  note ok = allocator_okD [OF assms(1)]
  have i: "i < length (alloc_buffers s)" "alloc_buffers s ! i = slot s i"
    using core_okD(5) [OF ok(1) assms(2)] by (simp_all add: slot_in)
  have sl: "fifo_wf f" "total_size f = ab_size (slot s i)" "0 < ab_size (slot s i)" "ab_size (slot s i) \<le> mapped_size b"
    using core_okD(6) [OF ok(1) assms(2)] assms(3) by (simp_all add: sound_slot_def)
  obtain f' where f': "release_region off f = Some f'" "fifo_wf f'" "total_size f' = total_size f"
    "fifo_abs f' = (fifo_abs f)(off := None)"
    using fifo.rl_law [OF sl(1) assms(4)] by blast
  define s1 where "s1 = s\<lparr>alloc_buffers := (alloc_buffers s)[i := (slot s i)\<lparr>ab_allocator := Some f'\<rparr>]\<rparr>"
  have sl1: "slot s1 = (slot s)(i := (slot s i)\<lparr>ab_allocator := Some f'\<rparr>)"
    unfolding s1_def by (rule slot_update) (rule i(1))
  have at: "buffer_at s1 = buffer_at s" "free_whole s1 = free_whole s" "active_id s1 = active_id s"
    "updates s1 = updates s" by (simp_all add: s1_def)
  have step: "release_sliced_region r (Locator i off) s =
      (if i \<noteq> active_id s then maybe_delete_sliced_buffer r i s1 else Some s1)"
    using i assms(3,6) f'(1) by (simp add: release_sliced_region_def is_null_def Let_def s1_def)
  have core: "core_ok s1"
  proof (rule core_okI)
    note c = core_okD [OF ok(1)]
    show "buffers_ok s1" using c(1) by (simp add: s1_def buffers_ok_def)
    show "slot s1 j = empty_slot" if "buffer_at s1 j = None" for j
      using that c(4) assms(2) by (auto simp: sl1 at)
    show "j < length (alloc_buffers s1) \<and> sound_slot x (slot s1 j)" if x: "buffer_at s1 j = Some x" for j x
    proof (cases "j = i")
      case True
      then show ?thesis using x i(1) assms(2) sl f'(2,3) unfolding sl1 at by (auto simp: sound_slot_def s1_def)
    next
      case False
      then show ?thesis using x c(5,6) unfolding sl1 at by (auto simp: s1_def)
    qed
  qed (use core_okD(2,3) [OF ok(1)] in \<open>simp_all add: s1_def\<close>)
  have notfree: "j \<noteq> i" if "(k, j) \<in> set (free_whole s)" for k j
    using free_ok_mem [OF ok(2) that] assms(3) by (auto simp: whole_def)
  have held: "held_in s1 i = held_in s i - {(buffer_ptr b + off, n)}" "\<forall>j. j \<noteq> i \<longrightarrow> held_in s1 j = held_in s j"
  proof -
    show "held_in s1 i = held_in s i - {(buffer_ptr b + off, n)}"
    proof -
      have "held_in u i = {(buffer_ptr b + o1, k) | o1 k. g o1 = Some k}"
        if "buffer_at u i = Some b" "ab_allocator (slot u i) = Some h" "fifo_abs h = g" for u h g
        using that by (simp add: held_in_def)
      from this [OF assms(2,3) refl] this [of s1, OF _ _ f'(4)] show ?thesis
        using assms(2,4) by (auto simp: at sl1 split: if_splits) (metis option.inject)
    qed
    show "\<forall>j. j \<noteq> i \<longrightarrow> held_in s1 j = held_in s j" 
      by (intro allI impI held_in_cong) (simp_all add: at sl1)
  qed
  have f1: "follows s s1" by (rule follows_refl) (simp_all add: at)
  show ?thesis
  proof (cases "i = active_id s")
    case True
    have "free_ok (free_whole s1) s1"
      unfolding at(2) using ok(2) by (rule free_ok_cong [rotated]) (use notfree in \<open>simp add: at sl1\<close>)
    moreover have "active_ok s1" using assms(2) True by (simp add: active_ok_def at sl1 whole_def)
    moreover have "tight s1" using ok(4) True by (simp add: tight_def at sl1)
    ultimately show ?thesis using step True core held f1 by (auto simp: allocator_ok_def)
  next
    case False
    have a1: "buffer_at s1 i = Some b" "ab_allocator (slot s1 i) = Some f'" using assms(2) by (simp_all add: at sl1)
    obtain t where t: "maybe_delete_sliced_buffer r i s1 = Some t" "core_ok t" "follows s1 t"
      "free_whole t = free_whole s" "active_id t = active_id s"
      "if fifo_abs f' = Map.empty then buffer_at t = (buffer_at s1)(i := None) \<and> slot t = (slot s1)(i := empty_slot)
       else t = s1"
      using maybe_delete_ok [OF core a1 assms(5)] at(2,3) by auto
    have same: "buffer_at t j = buffer_at s j" "slot t j = slot s j" if "j \<noteq> i" for j
      using t(6) that at(1) sl1 by (auto split: if_splits)
    have "free_ok (free_whole t) t"
      unfolding t(4) using ok(2) by (rule free_ok_cong [rotated]) (use notfree same in simp)
    moreover have "active_ok t" using ok(3) same [of "active_id s"] False by (auto simp: active_ok_def t(5))
    moreover have "tight t"
      unfolding tight_def t(5)
    proof (intro allI impI)
      fix j h assume j: "j \<noteq> active_id s" "ab_allocator (slot t j) = Some h"
      show "fifo_abs h \<noteq> Map.empty"
      proof (cases "j = i")
        case True
        then show ?thesis using t(6) j(2) a1(2) by (auto simp: empty_slot_def split: if_splits)
      next
        case False
        then show ?thesis using same(2) [OF False] j ok(4) by (auto simp: tight_def)
      qed
    qed
    moreover have "held_in t i = held_in s1 i"
    proof (cases "fifo_abs f' = Map.empty")
      case True
      then have "held_in t i = {}" using t(6) by (simp add: held_in_none)
      then show ?thesis using held_in_empty [OF a1(2) True] by simp
    qed (use t(6) in simp)
    moreover have "held_in t j = held_in s j" if "j \<noteq> i" for j
      using same [OF that] t(4) by (intro held_in_cong) simp_all
    moreover have "follows s t" using f1 t(3) by (rule follows_trans)
    ultimately show ?thesis using step False t(1,2) held(1) by (simp add: allocator_ok_def)
  qed
qed

lemma release_ok:
  assumes "allocator_ok s" "(p, n) \<in> outstanding s" "\<forall>a. unmap_status r a = MX_OK"
  shows "\<exists>t. release r p s = Some t \<and> allocator_ok t \<and> follows s t \<and> outstanding t = outstanding s - {(p, n)}"
proof -
  note ok = allocator_okD [OF assms(1)]
  obtain i where held: "(p, n) \<in> held_in s i" using assms(2) by (auto simp: outstanding_def)
  obtain b off where b: "buffer_at s i = Some b" "p = buffer_ptr b + off" "0 < n" "off + n \<le> mapped_size b"
    "locator_from_ptr p s = Some (Locator i off)" "i < length (alloc_buffers s)"
    "case ab_allocator (slot s i) of Some f \<Rightarrow> fifo_abs f off = Some n
     | None \<Rightarrow> i \<notin> snd ` set (free_whole s) \<and> off = 0 \<and> n = ab_size (slot s i)"
    using ok(1) held by (rule held_inE)
  note sb = sound_bufferD [OF buffers_ok_sound [OF core_okD(1) [OF ok(1)] b(1)]]
  have step: "release r p s = (if whole (slot s i) then release_whole_region (Locator i off) s
      else release_sliced_region r (Locator i off) s)"
    using b(2,5,6) sb(1) by (simp add: release_def slot_in)
  have "\<exists>t. release r p s = Some t \<and> allocator_ok t \<and> follows s t \<and> held_in t i = held_in s i - {(p, n)} \<and>
      (\<forall>j. j \<noteq> i \<longrightarrow> held_in t j = held_in s j)"
  proof (cases "ab_allocator (slot s i)")
    case None
    then have w: "i \<notin> snd ` set (free_whole s)" "off = 0" "n = ab_size (slot s i)" using b(7) by simp_all
    then have "held_in s i = {(p, n)}" using held_whole [OF b(1)] None b(2) by (simp add: whole_def)
    then show ?thesis using release_whole_ok [OF assms(1) b(1) None w(1)] step w(2) None by (simp add: whole_def)
  next
    case (Some f)
    then show ?thesis
      using release_sliced_ok [OF assms(1) b(1) Some _ assms(3), of off n] b(2,3,4,7) sb(3) step
      by (simp add: whole_def)
  qed
  then show ?thesis using taken_back [OF ok(1) held] by blast
qed

section \<open>The interface a producer relies on\<close>

text \<open>
  \<open>MediaPacketProducerBase\<close> gets memory for payloads through two calls. Their laws, with what the
  environment must provide for a call (\<open>ready\<close>, \<open>returnable\<close>), are a locale; what a client may
  conclude is proved inside it.
\<close>

locale payload_memory =
  fixes invar :: "'s \<Rightarrow> bool"
    and out :: "'s \<Rightarrow> (nat \<times> nat) set"
    and ready :: "'r \<Rightarrow> nat \<Rightarrow> 's \<Rightarrow> bool"
    and granted :: "'r \<Rightarrow> bool"
    and returnable :: "'r \<Rightarrow> bool"
    and al :: "'r \<Rightarrow> nat \<Rightarrow> 's \<Rightarrow> (nat \<times> 's) option"
    and rl :: "'r \<Rightarrow> nat \<Rightarrow> 's \<Rightarrow> 's option"
  assumes al_law: "invar s \<Longrightarrow> 0 < n \<Longrightarrow> ready r n s \<Longrightarrow> \<exists>p t. al r n s = Some (p, t) \<and> invar t \<and>
      (if p = 0 then out t = out s \<and> \<not> granted r
       else \<exists>m. n \<le> m \<and> out t = insert (p, m) (out s) \<and> (\<forall>(q, k) \<in> out s. p + m \<le> q \<or> q + k \<le> p))"
    and rl_law: "invar s \<Longrightarrow> (p, n) \<in> out s \<Longrightarrow> returnable r \<Longrightarrow>
      \<exists>t. rl r p s = Some t \<and> invar t \<and> out t = out s - {(p, n)}"
begin

lemma granted_alloc:
  assumes "invar s" "0 < n" "ready r n s" "granted r"
  obtains p t m where "al r n s = Some (p, t)" "invar t" "p \<noteq> 0" "n \<le> m" "out t = insert (p, m) (out s)"
    "(p, m) \<notin> out s"
proof -
  obtain p t where a: "al r n s = Some (p, t)" "invar t" and r: "if p = 0 then out t = out s \<and> \<not> granted r
       else \<exists>m. n \<le> m \<and> out t = insert (p, m) (out s) \<and> (\<forall>(q, k) \<in> out s. p + m \<le> q \<or> q + k \<le> p)"
    using al_law [OF assms(1-3)] by blast
  then obtain m where m: "p \<noteq> 0" "n \<le> m" "out t = insert (p, m) (out s)"
    "\<forall>(q, k) \<in> out s. p + m \<le> q \<or> q + k \<le> p"
    using assms(4) by (auto split: if_splits)
  then have "(p, m) \<notin> out s" using assms(2) by fastforce
  then show thesis using that a m by blast
qed

lemma alloc_then_release:
  assumes "invar s" "0 < n" "ready r n s" "granted r" "returnable r'"
  shows "\<exists>p t u. al r n s = Some (p, t) \<and> rl r' p t = Some u \<and> invar u \<and> out u = out s"
proof -
  obtain p t m where t: "al r n s = Some (p, t)" "invar t" "out t = insert (p, m) (out s)" "(p, m) \<notin> out s"
    using assms(1-4) by (rule granted_alloc)
  obtain u where "rl r' p t = Some u" "invar u" "out u = out t - {(p, m)}"
    using rl_law [OF t(2) _ assms(5), of p m] t(3) by auto
  then show ?thesis using t by (intro exI [of _ p] exI [of _ t] exI [of _ u]) auto
qed

end

definition kernel_ready :: "os_reply \<Rightarrow> nat \<Rightarrow> shared_buffer_set_allocator \<Rightarrow> bool" where
  "kernel_ready r sz s \<longleftrightarrow> length (mapped_buffers s) < kNullBufferId \<and>
     kernel_ok r (request sz s) (buffer_at s |` (- discarded sz s))"

definition kernel_unmaps :: "os_reply \<Rightarrow> bool" where
  "kernel_unmaps r \<longleftrightarrow> (\<forall>a. unmap_status r a = MX_OK)"

interpretation payload: payload_memory allocator_ok outstanding kernel_ready kernel_grants kernel_unmaps
  "\<lambda>r. allocate r r'" release for r'
proof unfold_locales
  show "\<exists>p t. allocate r r' n s = Some (p, t) \<and> allocator_ok t \<and>
      (if p = 0 then outstanding t = outstanding s \<and> \<not> kernel_grants r
       else \<exists>m. n \<le> m \<and> outstanding t = insert (p, m) (outstanding s) \<and>
         (\<forall>(q, k) \<in> outstanding s. p + m \<le> q \<or> q + k \<le> p))"
    if "allocator_ok s" "0 < n" "kernel_ready r n s" for s n r
    using allocate_ok [OF that(1,2)] that(3) unfolding kernel_ready_def by blast
  show "\<exists>t. release r p s = Some t \<and> allocator_ok t \<and> outstanding t = outstanding s - {(p, n)}"
    if "allocator_ok s" "(p, n) \<in> outstanding s" "kernel_unmaps r" for s p n r
    using release_ok [OF that(1,2)] that(3) unfolding kernel_unmaps_def by blast
qed

section \<open>A connection's history\<close>

text \<open>
  The producer's allocator and the set of buffer ids the consumer knows, driven by allocations,
  releases of regions handed out, and updates the consumer handles one by one.
\<close>

inductive session :: "shared_buffer_set_allocator \<Rightarrow> nat set \<Rightarrow> bool" where
  start: "session buffer_set_allocator_init {}"
| alloc: "session s R \<Longrightarrow> 0 < sz \<Longrightarrow> length (mapped_buffers s) < kNullBufferId \<Longrightarrow>
    kernel_ok r (request sz s) (buffer_at s |` (- discarded sz s)) \<Longrightarrow> duplicate_vmo r \<noteq> 0 \<Longrightarrow>
    allocate r r' sz s = Some (p, t) \<Longrightarrow> session t R"
| free: "session s R \<Longrightarrow> (p, n) \<in> outstanding s \<Longrightarrow> \<forall>a. unmap_status r a = MX_OK \<Longrightarrow>
    release r p s = Some t \<Longrightarrow> session t R"
| poll: "session s R \<Longrightarrow> poll_for_buffer_update s = (Some u, t) \<Longrightarrow> replay [u] R = Some R' \<Longrightarrow> session t R'"

lemma session_ok: "session s R \<Longrightarrow> allocator_ok s \<and> in_step s R"
proof (induction rule: session.induct)
  case start
  then show ?case
    by (simp add: allocator_ok_init)
      (simp add: in_step_def live_def buffer_at_def buffer_set_allocator_init_def buffer_set_init_def
        shared_buffer_set.defs)
next
  case (alloc s R sz r r' p t)
  obtain p' t' where "allocate r r' sz s = Some (p', t')" "allocator_ok t'" "follows s t'"
    using allocate_ok [OF _ alloc(2,3,4)] alloc.IH alloc(5) by blast
  then show ?case using alloc(6) alloc.IH by (simp add: follows_def)
next
  case (free s R p n r t)
  obtain t' where "release r p s = Some t'" "allocator_ok t'" "follows s t'"
    using release_ok [OF _ free(2,3)] free.IH by blast
  then show ?case using free(4) free.IH by (simp add: follows_def)
next
  case (poll s R u t R')
  then obtain us where us: "updates s = u # us" "t = s\<lparr>updates := us\<rparr>"
    by (auto simp: poll_for_buffer_update_def split: list.splits)
  have "allocator_ok t" using poll.IH us(2)
    by (simp add: allocator_ok_def active_ok_def tight_def free_ok_def)
  moreover have "replay us R' = Some (live s)"
    using poll.IH poll(3) us(1) replay_append [of "[u]" us R] by (simp add: in_step_def)
  ultimately show ?case using us(2) by (simp add: in_step_def live_def)
qed

section \<open>Properties\<close>

text \<open>C12. \<open>SharedBufferSetAllocator::AllocateRegion\<close>, in any state the invariant allows and for
  any positive size, returns without a failed check, keeps the invariant, and either returns the
  address of a region at least as large as asked for that overlaps no region handed out before, or
  null. It returns null only when the kernel refused to create a buffer, and then changes nothing
  that is handed out.\<close>

theorem allocate_returns_fresh_region:
  assumes "allocator_ok s" "0 < sz" "kernel_ready r sz s"
  shows "\<exists>p t. allocate r r' sz s = Some (p, t) \<and> allocator_ok t \<and>
    (if p = 0 then outstanding t = outstanding s \<and> \<not> kernel_grants r
     else \<exists>m. sz \<le> m \<and> outstanding t = insert (p, m) (outstanding s) \<and>
       (\<forall>(q, k) \<in> outstanding s. p + m \<le> q \<or> q + k \<le> p))"
  using assms by (rule payload.al_law)

definition grant :: "nat \<Rightarrow> nat \<Rightarrow> os_reply" where
  "grant addr n = \<lparr>create_status = MX_OK, created_vmo = 5, commit_status = MX_OK, get_size_status = MX_OK,
     vmo_size = n, map_status = MX_OK, map_address = addr, duplicate_vmo = 6, unmap_status = (\<lambda>a. MX_OK)\<rparr>"

lemma kernel_ok_grant:
  "kernel_ok (grant 4096 4096) (request 100 buffer_set_allocator_init)
    (buffer_at buffer_set_allocator_init |` (- discarded 100 buffer_set_allocator_init))"
  by (simp add: kernel_ok_def grant_def request_def kWholeRegionMinimumSize_def kNullBufferId_def
      buffer_set_allocator_init_def buffer_set_init_def shared_buffer_set.defs buffer_at_def restrict_map_def)

lemma init_room: "length (mapped_buffers buffer_set_allocator_init) < kNullBufferId"
  by (simp add: buffer_set_allocator_init_def buffer_set_init_def shared_buffer_set.defs kNullBufferId_def)

lemma grant_ready: "kernel_ready (grant 4096 4096) 100 buffer_set_allocator_init"
  using kernel_ok_grant init_room by (simp add: kernel_ready_def)

lemma grant_grants: "kernel_grants (grant 4096 4096)"
  by (simp add: kernel_grants_def grant_def kMaxBufferLen_def)

theorem allocate_returns_fresh_region_witness:
  "\<exists>p t. allocate (grant 4096 4096) (grant 0 0) 100 buffer_set_allocator_init = Some (p, t) \<and> allocator_ok t \<and>
    p \<noteq> 0 \<and> (\<exists>m \<ge> 100. outstanding t = {(p, m)})"
  using allocate_returns_fresh_region [OF allocator_ok_init, of 100 "grant 4096 4096" "grant 0 0"]
    grant_ready grant_grants
  by (auto simp: outstanding_init split: if_splits)

text \<open>\<open>ReleaseRegion\<close> of an address that is handed out returns without a failed check,
  keeps the invariant and takes back exactly that region.\<close>

theorem release_takes_back_region:
  assumes "allocator_ok s" "(p, n) \<in> outstanding s" "kernel_unmaps r"
  shows "\<exists>t. release r p s = Some t \<and> allocator_ok t \<and> outstanding t = outstanding s - {(p, n)}"
  using assms by (rule payload.rl_law)

theorem release_takes_back_region_witness:
  "\<exists>p t u. allocate (grant 4096 4096) (grant 0 0) 100 buffer_set_allocator_init = Some (p, t) \<and>
    release (grant 0 0) p t = Some u \<and> allocator_ok u \<and> outstanding u = {}"
proof -
  obtain p t m where t: "allocate (grant 4096 4096) (grant 0 0) 100 buffer_set_allocator_init = Some (p, t)"
    "allocator_ok t" "outstanding t = {(p, m)}"
    using payload.granted_alloc [OF allocator_ok_init _ grant_ready grant_grants, of "grant 0 0"]
    by (metis outstanding_init zero_less_numeral)
  then show ?thesis
    using release_takes_back_region [of t p m "grant 0 0"] by (auto simp: grant_def kernel_unmaps_def)
qed

text \<open>C11. Whatever a producer allocates and releases, and however far the consumer has got with
  the queue of updates, as long as the kernel's replies are those of a kernel that keeps its mappings
  apart, unmaps what it is asked to, and can duplicate the handle of every vmo it creates (without
  that the update looks like a removal: \<open>failed_duplicate_looks_like_removal\<close>), handling the rest of the queue is possible (no update adds a buffer the
  consumer has or removes one it does not have) and makes the consumer's set of buffers exactly the
  producer's; and the regions handed out never overlap.\<close>

theorem consumer_follows_producer:
  assumes "session s R"
  shows "replay (updates s) R = Some (live s) \<and>
    (\<forall>p n q m. (p, n) \<in> outstanding s \<longrightarrow> (q, m) \<in> outstanding s \<longrightarrow> (p, n) \<noteq> (q, m) \<longrightarrow> p + n \<le> q \<or> q + m \<le> p)"
  using session_ok [OF assms] outstanding_apart [of s] by (auto simp: in_step_def allocator_ok_def)

theorem consumer_follows_producer_witness:
  "\<exists>p s. allocate (grant 4096 4096) (grant 0 0) 100 buffer_set_allocator_init = Some (p, s) \<and>
    replay (updates s) {} = Some (live s) \<and> live s \<noteq> {}"
proof -
  obtain p t m where t: "allocate (grant 4096 4096) (grant 0 0) 100 buffer_set_allocator_init = Some (p, t)"
    "outstanding t = {(p, m)}"
    using payload.granted_alloc [OF allocator_ok_init _ grant_ready grant_grants, of "grant 0 0"]
    by (metis outstanding_init zero_less_numeral)
  have "session t {}"
    by (rule alloc [OF start _ init_room kernel_ok_grant _ t(1)]) (simp_all add: grant_def)
  moreover have "live t \<noteq> {}"
  proof
    assume "live t = {}"
    then have "held_in t i = {}" for i by (intro held_in_none) (auto simp: live_def)
    then show False using t(2) by (simp add: outstanding_def)
  qed
  ultimately show ?thesis using consumer_follows_producer [of t "{}"] t(1)
    by (intro exI [of _ p] exI [of _ t]) simp
qed

text \<open>\<open>Reset\<close>, which \<open>MediaPacketProducerBase::Reset\<close> calls, is inherited from
  \<open>SharedBufferSet\<close> and forgets the buffers but not the allocator's own state: a small
  request that fits what was the active buffer then fails a check instead of being served.\<close>

theorem allocator_is_stuck_after_reset:
  assumes "allocator_ok s" "active_id s \<noteq> kNullBufferId" "ab_allocator (slot s (active_id s)) = Some f"
    "0 < sz" "sz < kWholeRegionMinimumSize" "allocate_region sz f = Some (off, f')" "off \<noteq> kNullOffset"
    "buffer_set_reset r s = Some t"
  shows "allocate r1 r2 sz t = None"
proof -
  have i: "active_id s < length (alloc_buffers s)"
    using assms(3) by (rule contrapos_pp) (simp add: slot_def empty_slot_def)
  have t: "t = s\<lparr>mapped_buffers := [], ids_by_base := []\<rparr>"
    using assms(8) by (auto simp: buffer_set_reset_def bind_Some_iff)
  then have "allocate_in (active_id s) sz t = Some (off, t\<lparr>alloc_buffers := (alloc_buffers t)[active_id s :=
      (alloc_buffers t ! active_id s)\<lparr>ab_allocator := Some f'\<rparr>]\<rparr>)"
    using i assms(3,6) by (simp add: allocate_in_def slot_def)
  then show ?thesis
    using t assms(2,4,5,7)
    by (simp add: allocate_def allocate_sliced_region_def try_active_def ptr_from_locator_def is_null_def)
qed

definition active_example :: shared_buffer_set_allocator where
  "active_example = shared_buffer_set.extend
     \<lparr>mapped_buffers = [Some \<lparr>buffer_ptr = 4096, mapped_size = 4096, vmo_handle = 5\<rparr>], ids_by_base = [(4096, 0)]\<rparr>
     \<lparr>alloc_buffers = [\<lparr>ab_size = 64, ab_allocator = Some fifo_fresh\<rparr>], free_whole = [], active_id = 0, updates = []\<rparr>"

lemma active_example_ok: "allocator_ok active_example"
proof -
  have wf: "fifo_wf fifo_fresh" by (simp add: fifo_wf_flat one_active_def fifo_fresh_def kNullOffset_def)
  have tot: "total_size fifo_fresh = 64" by (simp add: fifo_fresh_def)
  have at: "buffer_at active_example i = (if i = 0 then Some \<lparr>buffer_ptr = 4096, mapped_size = 4096, vmo_handle = 5\<rparr> else None)"
    "slot active_example i = (if i = 0 then \<lparr>ab_size = 64, ab_allocator = Some fifo_fresh\<rparr> else empty_slot)" for i
    by (simp_all add: active_example_def shared_buffer_set.defs buffer_at_def slot_def)
  have "buffers_ok active_example"
    unfolding buffers_ok_def at by (auto simp: active_example_def shared_buffer_set.defs sound_buffer_def kMaxBufferLen_def)
  then have "core_ok active_example"
  proof (rule core_okI)
    show "slot active_example i = empty_slot" if "buffer_at active_example i = None" for i
      using that by (simp add: at split: if_splits)
    show "i < length (alloc_buffers active_example) \<and> sound_slot b (slot active_example i)"
      if "buffer_at active_example i = Some b" for i b
      using that unfolding at by (auto simp: sound_slot_def wf tot active_example_def shared_buffer_set.defs split: if_splits)
  qed (simp_all add: active_example_def shared_buffer_set.defs)
  then show ?thesis
    by (auto simp: allocator_ok_def free_ok_def active_ok_def tight_def at whole_def empty_slot_def)
      (auto simp: active_example_def shared_buffer_set.defs)
qed

theorem allocator_is_stuck_after_reset_witness:
  "\<exists>t. buffer_set_reset (grant 0 0) active_example = Some t \<and> allocate (grant 4096 4096) (grant 0 0) 16 t = None"
proof -
  have s: "slot active_example (active_id active_example) = \<lparr>ab_size = 64, ab_allocator = Some fifo_fresh\<rparr>"
    "active_id active_example \<noteq> kNullBufferId"
    by (simp_all add: active_example_def shared_buffer_set.defs slot_def kNullBufferId_def)
  obtain f' where f: "allocate_region 16 fifo_fresh = Some (0, f')"
    by (simp add: allocate_region_def fifo_fresh_def active_region_def take_from_active_def before_active_def
        after_active_def get_free_def)
  obtain t where t: "buffer_set_reset (grant 0 0) active_example = Some t"
    by (simp add: buffer_set_reset_def active_example_def shared_buffer_set.defs mapped_reset_def grant_def)
  have "allocate (grant 4096 4096) (grant 0 0) 16 t = None"
    by (rule allocator_is_stuck_after_reset [OF active_example_ok s(2) _ _ _ f _ t])
      (simp_all add: s(1) kWholeRegionMinimumSize_def kNullOffset_def)
  then show ?thesis using t by blast
qed

text \<open>
  When the kernel cannot duplicate the handle of a vmo it just created, \<open>CreateNewBuffer\<close> still
  reports success, and the update queued for the new buffer carries no handle, which makes it an
  order to remove a buffer the consumer does not have.
\<close>

lemma failed_duplicate_looks_like_removal:
  "\<exists>s. create_buffer ((grant 4096 4096)\<lparr>duplicate_vmo := 0\<rparr>) True 4096 buffer_set_allocator_init = Some (0, s) \<and>
     live s = {0} \<and> updates s = [(0, 0)] \<and> replay (updates s) {} = None"
  by (simp add: create_buffer_def create_new_buffer_def allocate_buffer_id_def buffer_set_allocator_init_def
      buffer_set_init_def shared_buffer_set.defs resize_def init_new_def init_internal_def new_mapped_buffer_def
      mapped_reset_def get_duplicate_vmo_def initialized_def insert_buffer_def ptr_from_offset_def grant_def
      kNullOffset_def kMaxBufferLen_def empty_slot_def live_def buffer_at_def Let_def)

end
