(* ===== verification/Packet_Consumer.thy ===== *)
theory Packet_Consumer
  imports Shared_Buffers Timeline_Rate
begin

text \<open>
  The receiving end of the packet transport: \<open>MediaPacketConsumerBase\<close>
  (lib/transport/media_packet_consumer_base.h, .cc), with the \<open>MediaPacket\<close> and
  \<open>MediaPacketDemand\<close> structures of services/media_transport.fidl.

  Callbacks are numbers. What the object does to the outside (calling a callback, handing a packet
  to the subclass, telling the subclass about a failure) is an event appended to \<open>events\<close>. The
  subclass's reactions are inputs: \<open>return_packet\<close> takes the calls of \<open>SetDemand\<close> that its
  \<open>OnPacketReturning\<close> makes, and a flush it completes later is a step of its own.
  A \<open>SuppliedPacketCounter\<close>, which outlives the consumer's resets, is an element of a list and
  its shared pointers are indices into that list.
\<close>

section \<open>Packets and demand\<close>

definition kNoTimestamp :: int where
  "kNoTimestamp = 0x7fffffffffffffff"

record media_packet =
  pts :: int
  pts_rate_ticks :: u32
  pts_rate_seconds :: u32
  keyframe :: bool
  end_of_stream :: bool
  payload_buffer_id :: nat
  payload_offset :: nat
  payload_size :: nat
  revised_media_type :: "nat option"

record packet_demand =
  min_packets_outstanding :: u32
  demand_min_pts :: int

definition no_demand :: packet_demand where
  "no_demand = \<lparr>min_packets_outstanding = 0, demand_min_pts = kNoTimestamp\<rparr>"

section \<open>State\<close>

record supplied_packet =
  sp_label :: u64
  sp_packet :: media_packet
  sp_payload :: nat
  sp_callback :: nat
  sp_counter :: nat

record packet_counter =
  attached :: bool
  counter_buffers :: shared_buffer_set
  counter_outstanding :: u32

datatype consumer_event =
    PullReply nat packet_demand
  | SupplyReply nat "packet_demand option"
  | PacketSupplied supplied_packet
  | FlushRequested nat
  | FlushReply nat
  | WasReset
  | Unbound
  | Failed

record consumer =
  bound :: bool
  accept_revised :: bool
  demand :: packet_demand
  demand_update_required :: bool
  returning_packet :: bool
  pull_callback :: "nat option"
  counters :: "packet_counter list"
  pts_rate :: timeline_rate
  prev_label :: u64
  flush_pending :: bool
  is_reset :: bool
  events :: "consumer_event list"

definition emit :: "consumer_event \<Rightarrow> consumer \<Rightarrow> consumer" where
  "emit e c = c\<lparr>events := events c @ [e]\<rparr>"

text \<open>\<open>counter_\<close> is the last counter of the list.\<close>

definition current :: "consumer \<Rightarrow> nat" where
  "current c = length (counters c) - 1"

definition new_counter :: packet_counter where
  "new_counter = \<lparr>attached = True, counter_buffers = buffer_set_init, counter_outstanding = 0\<rparr>"

definition buffer_set :: "consumer \<Rightarrow> shared_buffer_set" where
  "buffer_set c = counter_buffers (counters c ! current c)"

definition put_buffer_set :: "shared_buffer_set \<Rightarrow> consumer \<Rightarrow> consumer" where
  "put_buffer_set s c = c\<lparr>counters := (counters c)[current c := (counters c ! current c)\<lparr>counter_buffers := s\<rparr>]\<rparr>"

section \<open>Binding, resetting, failing\<close>

definition consumer_reset :: "consumer \<Rightarrow> consumer" where
  "consumer_reset c0 =
     (let c = emit WasReset c0;
          unbind = bound c;
          c = c\<lparr>bound := False, demand := no_demand, pull_callback := None\<rparr>;
          c = (if counters c \<noteq> []
               then c\<lparr>counters := (counters c)[current c := (counters c ! current c)\<lparr>attached := False\<rparr>]\<rparr> else c);
          c = c\<lparr>counters := counters c @ [new_counter]\<rparr>;
          c = (if unbind then emit Unbound c else c)
      in c\<lparr>is_reset := True\<rparr>)"

definition consumer_init :: consumer where
  "consumer_init = consumer_reset
     \<lparr>bound = False, accept_revised = False, demand = no_demand, demand_update_required = False,
      returning_packet = False, pull_callback = None, counters = [], pts_rate = default_rate, prev_label = 0,
      flush_pending = False, is_reset = True, events = []\<rparr>"

definition consumer_bind :: "consumer \<Rightarrow> consumer" where
  "consumer_bind c = c\<lparr>bound := True, is_reset := False\<rparr>"

definition fail :: "consumer \<Rightarrow> consumer" where
  "fail c = emit Failed (consumer_reset c)"

definition set_pts_rate :: "timeline_rate \<Rightarrow> consumer \<Rightarrow> consumer" where
  "set_pts_rate r c = c\<lparr>pts_rate := r\<rparr>"

definition accept_revised_media_type :: "consumer \<Rightarrow> consumer" where
  "accept_revised_media_type c = c\<lparr>accept_revised := True\<rparr>"

section \<open>Demand\<close>

definition maybe_complete_pull :: "consumer \<Rightarrow> consumer" where
  "maybe_complete_pull c =
     (if \<not> demand_update_required c \<or> returning_packet c then c
      else case pull_callback c of
        None \<Rightarrow> c
      | Some cb \<Rightarrow> (emit (PullReply cb (demand c)) (c\<lparr>demand_update_required := False\<rparr>))\<lparr>pull_callback := None\<rparr>)"

definition set_demand :: "u32 \<Rightarrow> int \<Rightarrow> consumer \<Rightarrow> consumer" where
  "set_demand n p c =
     (if flush_pending c then c
      else if n = min_packets_outstanding (demand c) \<and> p = demand_min_pts (demand c) then c
      else maybe_complete_pull (c\<lparr>demand := \<lparr>min_packets_outstanding = n, demand_min_pts = p\<rparr>,
                                  demand_update_required := True\<rparr>))"

definition pull_demand_update :: "nat \<Rightarrow> consumer \<Rightarrow> consumer" where
  "pull_demand_update cb c =
     (let c = (case pull_callback c of None \<Rightarrow> c | Some old \<Rightarrow> emit (PullReply old (demand c)) c)
      in maybe_complete_pull (c\<lparr>pull_callback := Some cb\<rparr>))"

definition demand_for_departure :: "(u32 \<times> int) list \<Rightarrow> consumer \<Rightarrow> packet_demand option \<times> consumer" where
  "demand_for_departure calls c =
     (let c = c\<lparr>returning_packet := True\<rparr>;
          c = fold (\<lambda>(n, p). set_demand n p) calls c;
          c = c\<lparr>returning_packet := False\<rparr>
      in if \<not> demand_update_required c then (None, c)
         else (Some (demand c), c\<lparr>demand_update_required := False\<rparr>))"

section \<open>Payload buffers\<close>

definition add_payload_buffer :: "os_reply \<Rightarrow> nat \<Rightarrow> nat \<Rightarrow> consumer \<Rightarrow> consumer option" where
  "add_payload_buffer r i vmo c = do {
     dcheck (vmo \<noteq> 0);
     (st, s) \<leftarrow> add_buffer r i vmo (buffer_set c);
     let c = put_buffer_set s c;
     Some (if st = MX_OK then c else fail c)
   }"

definition remove_payload_buffer :: "os_reply \<Rightarrow> nat \<Rightarrow> consumer \<Rightarrow> consumer option" where
  "remove_payload_buffer r i c = do {
     s \<leftarrow> remove_buffer r i (buffer_set c);
     Some (put_buffer_set s c)
   }"

section \<open>Packets\<close>

definition set_packet_pts_rate :: "timeline_rate \<Rightarrow> media_packet \<Rightarrow> media_packet option" where
  "set_packet_pts_rate rate pk =
     (if rate = default_rate then Some pk
      else do {
        original \<leftarrow> mk_rate (pts_rate_ticks pk) (pts_rate_seconds pk);
        (if original \<noteq> rate then do {
           inv \<leftarrow> rate_inverse original;
           factor \<leftarrow> rate_product rate inv False;
           p \<leftarrow> rate_scale factor (pts pk);
           Some (pk\<lparr>pts := p, pts_rate_ticks := subject_delta rate, pts_rate_seconds := reference_delta rate\<rparr>)
         } else Some pk)
      })"

definition on_packet_arrival :: "nat \<Rightarrow> consumer \<Rightarrow> consumer" where
  "on_packet_arrival i c = c\<lparr>counters := (counters c)[i := (counters c ! i)\<lparr>counter_outstanding :=
     counter_outstanding (counters c ! i) + 1\<rparr>]\<rparr>"

definition deliver_packet :: "media_packet \<Rightarrow> nat \<Rightarrow> nat \<Rightarrow> consumer \<Rightarrow> consumer option" where
  "deliver_packet pk payload cb c = do {
     let label = prev_label c + 1;
     let c = c\<lparr>prev_label := label\<rparr>;
     pk \<leftarrow> set_packet_pts_rate (pts_rate c) pk;
     let c = on_packet_arrival (current c) c;
     Some (emit (PacketSupplied \<lparr>sp_label = label, sp_packet = pk, sp_payload = payload, sp_callback = cb,
                                 sp_counter = current c\<rparr>) c)
   }"

definition supply_packet :: "media_packet \<Rightarrow> nat \<Rightarrow> consumer \<Rightarrow> consumer option" where
  "supply_packet pk cb c =
     (if revised_media_type pk \<noteq> None \<and> \<not> accept_revised c
      then Some (consumer_reset (emit (SupplyReply cb None) c))
      else if payload_size pk = 0 then deliver_packet pk 0 cb c
      else do {
        let l = Locator (payload_buffer_id pk) (payload_offset pk);
        valid \<leftarrow> set_validate l (payload_size pk) (buffer_set c);
        (if \<not> valid then Some (fail c)
         else do { p \<leftarrow> ptr_from_locator l (buffer_set c); deliver_packet pk p cb c })
      })"

text \<open>
  Destroying a supplied packet: the counter records the departure and, unless it has been detached,
  asks the consumer for the demand update to send with the packet's callback.
\<close>

definition on_packet_departure :: "(u32 \<times> int) list \<Rightarrow> nat \<Rightarrow> consumer \<Rightarrow> packet_demand option \<times> consumer" where
  "on_packet_departure calls i c =
     (let c = c\<lparr>counters := (counters c)[i := (counters c ! i)\<lparr>counter_outstanding :=
                counter_outstanding (counters c ! i) - 1\<rparr>]\<rparr>
      in if attached (counters c ! i) then demand_for_departure calls c else (None, c))"

definition return_packet :: "(u32 \<times> int) list \<Rightarrow> supplied_packet \<Rightarrow> consumer \<Rightarrow> consumer" where
  "return_packet calls sp c =
     (let (d, c) = on_packet_departure calls (sp_counter sp) c in emit (SupplyReply (sp_callback sp) d) c)"

section \<open>Flushing\<close>

definition flush :: "nat \<Rightarrow> consumer \<Rightarrow> consumer" where
  "flush cb c = emit (FlushRequested cb) (c\<lparr>demand := no_demand, flush_pending := True\<rparr>)"

definition complete_flush :: "nat \<Rightarrow> consumer \<Rightarrow> consumer" where
  "complete_flush cb c = emit (FlushReply cb) (c\<lparr>flush_pending := False\<rparr>)"

text \<open>The default \<open>OnFlushRequested\<close> completes the flush at once.\<close>

definition flush_default :: "nat \<Rightarrow> consumer \<Rightarrow> consumer" where
  "flush_default cb c = complete_flush cb (flush cb c)"

section \<open>Invariants\<close>

text \<open>Only the current counter is attached to the consumer, and its buffers are sound.\<close>

definition consumer_ok :: "consumer \<Rightarrow> bool" where
  "consumer_ok c \<longleftrightarrow> counters c \<noteq> [] \<and> buffers_ok (buffer_set c) \<and>
     (\<forall>i < length (counters c). attached (counters c ! i) \<longleftrightarrow> i = current c)"

text \<open>The demand the producer believes in, from the events: what it was told last, or none after a
  flush or a reset.\<close>

fun tell :: "packet_demand \<Rightarrow> consumer_event \<Rightarrow> packet_demand" where
  "tell d (PullReply cb d') = d'"
| "tell d (SupplyReply cb (Some d')) = d'"
| "tell d (FlushRequested cb) = no_demand"
| "tell d WasReset = no_demand"
| "tell d e = d"

definition told :: "consumer_event list \<Rightarrow> packet_demand" where
  "told es = foldl tell no_demand es"

definition settled :: "consumer \<Rightarrow> bool" where
  "settled c \<longleftrightarrow> (demand_update_required c \<or> told (events c) = demand c) \<and> \<not> returning_packet c \<and>
     \<not> (demand_update_required c \<and> pull_callback c \<noteq> None)"

lemma told_simps [simp]: "told [] = no_demand" "told (es @ [e]) = tell (told es) e"
  by (simp_all add: told_def)

lemma emit_simps [simp]:
  "events (emit e c) = events c @ [e]" "bound (emit e c) = bound c" "demand (emit e c) = demand c"
  "demand_update_required (emit e c) = demand_update_required c" "returning_packet (emit e c) = returning_packet c"
  "pull_callback (emit e c) = pull_callback c" "counters (emit e c) = counters c" "is_reset (emit e c) = is_reset c"
  "flush_pending (emit e c) = flush_pending c" "pts_rate (emit e c) = pts_rate c" "prev_label (emit e c) = prev_label c"
  by (simp_all add: emit_def)

lemma current_emit [simp]: "current (emit e c) = current c" "buffer_set (emit e c) = buffer_set c"
  by (simp_all add: current_def buffer_set_def)

lemma reset_fields:
  "counters (consumer_reset c) =
     (if counters c = [] then [new_counter]
      else (counters c)[current c := (counters c ! current c)\<lparr>attached := False\<rparr>] @ [new_counter])"
  "events (consumer_reset c) = events c @ (if bound c then [WasReset, Unbound] else [WasReset])"
  "bound (consumer_reset c) = False" "is_reset (consumer_reset c)" "demand (consumer_reset c) = no_demand"
  "pull_callback (consumer_reset c) = None"
  "demand_update_required (consumer_reset c) = demand_update_required c"
  "returning_packet (consumer_reset c) = returning_packet c" "flush_pending (consumer_reset c) = flush_pending c"
  by (simp_all add: consumer_reset_def Let_def current_def)

lemma fail_fields:
  "events (fail c) = events c @ (if bound c then [WasReset, Unbound] else [WasReset]) @ [Failed]"
  "bound (fail c) = False" "is_reset (fail c)"
  by (simp_all add: fail_def reset_fields)

lemma new_counter_ok: "buffers_ok (counter_buffers new_counter)"
  by (simp add: new_counter_def buffers_ok_init)

lemma reset_ok: "counters c = [] \<or> consumer_ok c \<Longrightarrow> consumer_ok (consumer_reset c)"
  using new_counter_ok
  by (auto simp: consumer_ok_def reset_fields current_def buffer_set_def nth_append nth_list_update new_counter_def
      less_Suc_eq split: if_splits)

lemma emit_ok [simp]: "consumer_ok (emit e c) = consumer_ok c"
  by (simp add: consumer_ok_def)

lemma fail_ok: "consumer_ok c \<Longrightarrow> consumer_ok (fail c)"
  by (simp add: fail_def reset_ok)

lemma consumer_init_ok: "consumer_ok consumer_init"
  unfolding consumer_init_def by (rule reset_ok) simp

section \<open>Supplying packets\<close>

text \<open>What the conversion of the time stamp relies on in the packet.\<close>

definition rates_ok :: "consumer \<Rightarrow> media_packet \<Rightarrow> bool" where
  "rates_ok c pk \<longleftrightarrow> in_i64 (pts pk) \<and> (pts_rate c = default_rate \<or>
     rate_ok (pts_rate c) \<and> pts_rate_ticks pk \<noteq> 0 \<and> pts_rate_seconds pk \<noteq> 0)"

lemma set_packet_pts_rate_total:
  assumes "in_i64 (pts pk)" "rate = default_rate \<or> rate_ok rate \<and> pts_rate_ticks pk \<noteq> 0 \<and> pts_rate_seconds pk \<noteq> 0"
  shows "\<exists>pk'. set_packet_pts_rate rate pk = Some pk' \<and> payload_size pk' = payload_size pk \<and>
    payload_buffer_id pk' = payload_buffer_id pk \<and> payload_offset pk' = payload_offset pk"
proof (cases "rate = default_rate")
  case False
  then have r: "rate_ok rate" "pts_rate_ticks pk \<noteq> 0" "pts_rate_seconds pk \<noteq> 0" using assms(2) by simp_all
  obtain orig where o: "mk_rate (pts_rate_ticks pk) (pts_rate_seconds pk) = Some orig" "rate_ok orig"
    "unat (subject_delta orig) = unat (pts_rate_ticks pk) div gcd (unat (pts_rate_ticks pk)) (unat (pts_rate_seconds pk))"
    using mk_rate_correct [OF r(3)] by blast
  have pos: "0 < unat (pts_rate_ticks pk)" using r(2) by (simp add: unat_gt_0)
  then have "0 < unat (subject_delta orig)" unfolding o(3)
    by (metis div_greater_zero_iff gcd_le1_nat gcd_pos_nat gr_implies_not_zero)
  then have s: "subject_delta orig \<noteq> 0" by auto
  let ?inv = "\<lparr>subject_delta = reference_delta orig, reference_delta = subject_delta orig\<rparr>"
  have inv: "rate_inverse orig = Some ?inv" "rate_ok ?inv"
    using s o(2) by (simp_all add: rate_inverse_def rate_ok_def coprime_commute)
  obtain f where f: "rate_product rate ?inv False = Some f" "rate_ok f"
    using rate_product_inexact_total [OF r(1) inv(2)] by blast
  have "rate_scale f (pts pk) = Some (scale_core (pts pk) (subject_delta f) (reference_delta f))"
    using scale_deltas_core f(2) assms(1) by (simp add: rate_scale_def rate_ok_def)
  then show ?thesis using False o(1) inv(1) f(1) by (auto simp: set_packet_pts_rate_def)
qed (simp add: set_packet_pts_rate_def)

lemma deliver_packet_ok:
  assumes "consumer_ok c" "rates_ok c pk"
  shows "\<exists>c' sp. deliver_packet pk payload cb c = Some c' \<and> consumer_ok c' \<and>
    events c' = events c @ [PacketSupplied sp] \<and> sp_callback sp = cb \<and> sp_payload sp = payload \<and>
    payload_size (sp_packet sp) = payload_size pk \<and> sp_counter sp = current c \<and>
    counter_outstanding (counters c' ! current c) = counter_outstanding (counters c ! current c) + 1"
proof -
  obtain pk' where pk': "set_packet_pts_rate (pts_rate c) pk = Some pk'" "payload_size pk' = payload_size pk"
    using set_packet_pts_rate_total [of pk "pts_rate c"] assms(2) by (auto simp: rates_ok_def)
  let ?c = "on_packet_arrival (current c) (c\<lparr>prev_label := prev_label c + 1\<rparr>)"
  let ?sp = "\<lparr>sp_label = prev_label c + 1, sp_packet = pk', sp_payload = payload, sp_callback = cb, sp_counter = current c\<rparr>"
  have cur: "current ?c = current c" "current (c\<lparr>prev_label := l\<rparr>) = current c" for l
    by (simp_all add: on_packet_arrival_def current_def)
  have "current c < length (counters c)" using assms(1) by (auto simp: consumer_ok_def current_def)
  then have "consumer_ok ?c"
    using assms(1) by (auto simp: consumer_ok_def on_packet_arrival_def current_def buffer_set_def nth_list_update)
  moreover have "deliver_packet pk payload cb c = Some (emit (PacketSupplied ?sp) ?c)"
    using pk'(1) cur by (simp add: deliver_packet_def Let_def)
  moreover have "events ?c = events c" by (simp add: on_packet_arrival_def)
  moreover have "counter_outstanding (counters ?c ! current c) = counter_outstanding (counters c ! current c) + 1"
    using \<open>current c < length (counters c)\<close> by (simp add: on_packet_arrival_def)
  ultimately show ?thesis using pk'(2) by (intro exI [of _ "emit (PacketSupplied ?sp) ?c"] exI [of _ ?sp]) simp
qed

section \<open>Telling the producer\<close>

lemma maybe_complete_settles:
  assumes "demand_update_required c \<or> told (events c) = demand c" "\<not> returning_packet c"
  shows "settled (maybe_complete_pull c)"
  using assms by (auto simp: maybe_complete_pull_def settled_def split: option.splits)

lemma set_demand_settled: "settled c \<Longrightarrow> settled (set_demand n p c)"
  by (auto simp: set_demand_def intro!: maybe_complete_settles) (auto simp: settled_def)

lemma pull_settled:
  assumes "settled c"
  shows "settled (pull_demand_update cb c)"
  unfolding pull_demand_update_def Let_def
  by (rule maybe_complete_settles) (use assms in \<open>auto simp: settled_def split: option.splits\<close>)

lemma set_demand_returning:
  assumes "returning_packet c" "demand_update_required c \<or> told (events c) = demand c"
  shows "returning_packet (set_demand n p c)" "events (set_demand n p c) = events c"
    "pull_callback (set_demand n p c) = pull_callback c" "counters (set_demand n p c) = counters c"
    "demand_update_required (set_demand n p c) \<or> told (events (set_demand n p c)) = demand (set_demand n p c)"
  using assms by (auto simp: set_demand_def maybe_complete_pull_def)

lemma set_demands_returning:
  fixes calls :: "(u32 \<times> int) list"
  assumes "returning_packet c" "demand_update_required c \<or> told (events c) = demand c"
  defines "c' \<equiv> fold (\<lambda>(n, p). set_demand n p) calls c"
  shows "returning_packet c' \<and> events c' = events c \<and> pull_callback c' = pull_callback c \<and> counters c' = counters c \<and>
    (demand_update_required c' \<or> told (events c') = demand c')"
  using assms(1,2) unfolding c'_def
proof (induction calls arbitrary: c)
  case (Cons x calls)
  obtain n p where x: "x = (n, p)" by fastforce
  show ?case
    using Cons.IH [OF set_demand_returning(1,5) [OF Cons.prems], of n p] set_demand_returning [OF Cons.prems, of n p]
    by (auto simp: x)
qed simp

lemma return_packet_settled:
  assumes "settled c"
  shows "settled (return_packet calls sp c)"
    and "attached (counters c ! sp_counter sp) \<Longrightarrow> sp_counter sp < length (counters c) \<Longrightarrow>
      told (events (return_packet calls sp c)) = demand (return_packet calls sp c)"
proof -
  let ?c1 = "c\<lparr>counters := (counters c)[sp_counter sp := (counters c ! sp_counter sp)\<lparr>counter_outstanding :=
                counter_outstanding (counters c ! sp_counter sp) - 1\<rparr>]\<rparr>"
  let ?c2 = "fold (\<lambda>(n, p). set_demand n p) calls (?c1\<lparr>returning_packet := True\<rparr>)"
  have c2: "returning_packet ?c2 \<and> events ?c2 = events c \<and> pull_callback ?c2 = pull_callback c \<and>
      (demand_update_required ?c2 \<or> told (events ?c2) = demand ?c2)"
  proof -
    have "returning_packet (?c1\<lparr>returning_packet := True\<rparr>)"
      "demand_update_required (?c1\<lparr>returning_packet := True\<rparr>) \<or>
         told (events (?c1\<lparr>returning_packet := True\<rparr>)) = demand (?c1\<lparr>returning_packet := True\<rparr>)"
      using assms by (simp_all add: settled_def)
    from set_demands_returning [OF this, of calls] show ?thesis by auto
  qed
  have at: "attached (counters ?c1 ! sp_counter sp) = attached (counters c ! sp_counter sp)"
    by (cases "sp_counter sp < length (counters c)") (simp_all add: not_less list_update_beyond)
  have ret: "return_packet calls sp c = (if attached (counters c ! sp_counter sp)
      then (if \<not> demand_update_required ?c2
            then emit (SupplyReply (sp_callback sp) None) (?c2\<lparr>returning_packet := False\<rparr>)
            else emit (SupplyReply (sp_callback sp) (Some (demand ?c2)))
              (?c2\<lparr>returning_packet := False, demand_update_required := False\<rparr>))
      else emit (SupplyReply (sp_callback sp) None) ?c1)"
    using at by (simp add: return_packet_def on_packet_departure_def demand_for_departure_def Let_def)
  show "settled (return_packet calls sp c)"
    unfolding ret using c2 assms by (auto simp: settled_def)
  show "told (events (return_packet calls sp c)) = demand (return_packet calls sp c)"
    if "attached (counters c ! sp_counter sp)"
    unfolding ret using c2 that by auto
qed

lemma reset_settled: "settled c \<Longrightarrow> settled (consumer_reset c)"
  by (auto simp: settled_def reset_fields told_def)

text \<open>Everything that can happen to a consumer.\<close>

inductive consumer_reach :: "consumer \<Rightarrow> bool" where
  init: "consumer_reach consumer_init"
| bind: "consumer_reach c \<Longrightarrow> consumer_reach (consumer_bind c)"
| rate: "consumer_reach c \<Longrightarrow> consumer_reach (set_pts_rate r c)"
| accept: "consumer_reach c \<Longrightarrow> consumer_reach (accept_revised_media_type c)"
| demand: "consumer_reach c \<Longrightarrow> consumer_reach (set_demand n p c)"
| pull: "consumer_reach c \<Longrightarrow> consumer_reach (pull_demand_update cb c)"
| add: "consumer_reach c \<Longrightarrow> add_payload_buffer r i vmo c = Some c' \<Longrightarrow> consumer_reach c'"
| remove: "consumer_reach c \<Longrightarrow> remove_payload_buffer r i c = Some c' \<Longrightarrow> consumer_reach c'"
| supplied: "consumer_reach c \<Longrightarrow> supply_packet pk cb c = Some c' \<Longrightarrow> consumer_reach c'"
| return: "consumer_reach c \<Longrightarrow> consumer_reach (return_packet calls sp c)"
| flush: "consumer_reach c \<Longrightarrow> consumer_reach (flush cb c)"
| flushed: "consumer_reach c \<Longrightarrow> consumer_reach (complete_flush cb c)"
| reset: "consumer_reach c \<Longrightarrow> consumer_reach (consumer_reset c)"
| fail: "consumer_reach c \<Longrightarrow> consumer_reach (fail c)"

lemma emit_settled: "settled c \<Longrightarrow> tell (told (events c)) e = told (events c) \<Longrightarrow> settled (emit e c)"
  by (simp add: settled_def)

lemma fail_settled: "settled c \<Longrightarrow> settled (fail c)"
  unfolding fail_def by (rule emit_settled [OF reset_settled]) simp_all

lemma put_buffer_set_settled [simp]: "settled (put_buffer_set s c) = settled c"
  by (simp add: settled_def put_buffer_set_def)

lemma deliver_settled: "settled c \<Longrightarrow> deliver_packet pk p cb c = Some c' \<Longrightarrow> settled c'"
  by (auto simp: deliver_packet_def Let_def bind_Some_iff settled_def on_packet_arrival_def)

lemma supply_settled: "settled c \<Longrightarrow> supply_packet pk cb c = Some c' \<Longrightarrow> settled c'"
  by (auto simp: supply_packet_def Let_def bind_Some_iff fail_settled deliver_settled
      intro!: reset_settled emit_settled split: if_splits)

lemma add_settled: "settled c \<Longrightarrow> add_payload_buffer r i vmo c = Some c' \<Longrightarrow> settled c'"
  by (auto simp: add_payload_buffer_def Let_def bind_Some_iff fail_settled split: if_splits)

lemma reach_settled: "consumer_reach c \<Longrightarrow> settled c"
proof (induction rule: consumer_reach.induct)
  case init
  then show ?case by (simp add: settled_def consumer_init_def reset_fields told_def)
next
  case (remove c r i c')
  then show ?case by (auto simp: remove_payload_buffer_def bind_Some_iff)
next
  case (flush c cb)
  then show ?case by (auto simp: flush_def settled_def)
next
  case (flushed c cb)
  then show ?case by (auto simp: complete_flush_def settled_def)
next
  case (bind c)
  then show ?case by (simp add: consumer_bind_def settled_def)
next
  case (rate c r)
  then show ?case by (simp add: set_pts_rate_def settled_def)
next
  case (accept c)
  then show ?case by (simp add: accept_revised_media_type_def settled_def)
qed (auto intro: set_demand_settled pull_settled return_packet_settled(1) reset_settled fail_settled supply_settled
    add_settled)

section \<open>Properties\<close>

text \<open>C24. Whatever locator and size a packet from the other side carries, \<open>SupplyPacket\<close>
  returns without a failed check, provided its time stamp rate can be converted: it hands the
  subclass the packet with a payload that lies inside a buffer mapped for this connection (null
  for an empty payload), or it drops the connection and hands over nothing.\<close>

theorem supplied_payload_is_mapped:
  assumes "consumer_ok c" "rates_ok c pk"
  shows "\<exists>c'. supply_packet pk cb c = Some c' \<and> consumer_ok c' \<and>
    ((\<exists>sp. events c' = events c @ [PacketSupplied sp] \<and> sp_callback sp = cb \<and>
        payload_size (sp_packet sp) = payload_size pk \<and>
        (if payload_size pk = 0 then sp_payload sp = 0
         else \<exists>i b. buffer_at (buffer_set c) i = Some b \<and> buffer_ptr b \<le> sp_payload sp \<and>
           sp_payload sp + payload_size pk \<le> buffer_ptr b + mapped_size b)) \<or>
     (\<not> bound c' \<and> is_reset c' \<and> (\<exists>es. events c' = events c @ es \<and> (\<forall>sp. PacketSupplied sp \<notin> set es))))"
proof (cases "revised_media_type pk \<noteq> None \<and> \<not> accept_revised c")
  case True
  then show ?thesis using assms(1) by (auto simp: supply_packet_def reset_ok reset_fields)
next
  case accepted: False
  show ?thesis
  proof (cases "payload_size pk = 0")
    case True
    then show ?thesis
      using accepted deliver_packet_ok [OF assms, of 0 cb] by (fastforce simp: supply_packet_def)
  next
    case False
    let ?l = "Locator (payload_buffer_id pk) (payload_offset pk)"
    have ok: "buffers_ok (buffer_set c)" using assms(1) by (simp add: consumer_ok_def)
    show ?thesis
    proof (cases "\<exists>b. buffer_at (buffer_set c) (payload_buffer_id pk) = Some b \<and>
        payload_offset pk < mapped_size b \<and> payload_offset pk + payload_size pk \<le> mapped_size b")
      case True
      then obtain b where b: "buffer_at (buffer_set c) (payload_buffer_id pk) = Some b"
        "payload_offset pk < mapped_size b" "payload_offset pk + payload_size pk \<le> mapped_size b" by blast
      have "set_validate ?l (payload_size pk) (buffer_set c) = Some True"
        using validate_iff [OF ok, of ?l] True by simp
      moreover have "ptr_from_locator ?l (buffer_set c) = Some (buffer_ptr b + payload_offset pk)"
        by (rule address_of_locator [OF ok b(1,2)])
      ultimately have "supply_packet pk cb c = deliver_packet pk (buffer_ptr b + payload_offset pk) cb c"
        using accepted False by (auto simp: supply_packet_def)
      then show ?thesis
        using deliver_packet_ok [OF assms, of "buffer_ptr b + payload_offset pk" cb] b False by fastforce
    next
      case invalid: False
      then have "set_validate ?l (payload_size pk) (buffer_set c) = Some False"
        using validate_iff [OF ok, of ?l] by simp
      then have "supply_packet pk cb c = Some (fail c)" using accepted False by (auto simp: supply_packet_def)
      then show ?thesis using fail_ok [OF assms(1)] by (auto simp: fail_fields)
    qed
  qed
qed

definition packet_at :: "nat \<Rightarrow> nat \<Rightarrow> nat \<Rightarrow> media_packet" where
  "packet_at i off n = \<lparr>pts = 0, pts_rate_ticks = 1, pts_rate_seconds = 1, keyframe = False, end_of_stream = False,
     payload_buffer_id = i, payload_offset = off, payload_size = n, revised_media_type = None\<rparr>"

theorem supplied_payload_is_mapped_witness:
  "\<exists>c'. supply_packet (packet_at 3 0 16) 7 (consumer_bind consumer_init) = Some c' \<and> \<not> bound c' \<and> is_reset c'"
proof -
  let ?c = "consumer_bind consumer_init"
  have "consumer_ok ?c"
    using consumer_init_ok by (simp add: consumer_ok_def consumer_bind_def buffer_set_def current_def)
  moreover have "pts_rate ?c = default_rate" by (simp add: consumer_bind_def consumer_init_def consumer_reset_def emit_def)
  then have "rates_ok ?c (packet_at 3 0 16)" by (simp add: rates_ok_def packet_at_def in_i64_def)
  moreover have "buffer_at (buffer_set ?c) i = None" for i
    by (simp add: consumer_bind_def consumer_init_def consumer_reset_def emit_def buffer_set_def current_def
        new_counter_def buffer_set_init_def buffer_at_def)
  ultimately show ?thesis
    using supplied_payload_is_mapped [of ?c "packet_at 3 0 16" 7] by (auto simp: packet_at_def)
qed

text \<open>C29. No change of demand is lost: however a consumer was used, the producer's belief about
  the demand (what it was told last, nothing after a flush or reset) is the demand, or an update is
  still due and no \<open>PullDemandUpdate\<close> is left waiting for it; then the next pull, or the return
  of a packet of this connection, tells the producer the demand.\<close>

theorem demand_reaches_producer:
  assumes "consumer_reach c"
  shows "(told (events c) = demand c \<or> (demand_update_required c \<and> pull_callback c = None)) \<and>
    told (events (pull_demand_update cb c)) = demand (pull_demand_update cb c) \<and>
    demand (pull_demand_update cb c) = demand c \<and>
    (attached (counters c ! sp_counter sp) \<and> sp_counter sp < length (counters c) \<longrightarrow>
      told (events (return_packet calls sp c)) = demand (return_packet calls sp c))"
proof -
  have s: "settled c" by (rule reach_settled) fact
  have "told (events (pull_demand_update cb c)) = demand (pull_demand_update cb c) \<and>
      demand (pull_demand_update cb c) = demand c"
    using s by (auto simp: pull_demand_update_def maybe_complete_pull_def settled_def Let_def split: option.splits)
  then show ?thesis using s return_packet_settled(2) [OF s] by (auto simp: settled_def)
qed

theorem demand_reaches_producer_witness:
  "told (events (pull_demand_update 9 (set_demand 3 0 (consumer_bind consumer_init)))) =
     \<lparr>min_packets_outstanding = 3, demand_min_pts = 0\<rparr>"
proof -
  let ?c = "set_demand 3 0 (consumer_bind consumer_init)"
  have r: "consumer_reach ?c" by (intro consumer_reach.intros)
  have "demand ?c = \<lparr>min_packets_outstanding = 3, demand_min_pts = 0\<rparr>"
    by (simp add: set_demand_def maybe_complete_pull_def consumer_bind_def consumer_init_def consumer_reset_def
        emit_def no_demand_def kNoTimestamp_def Let_def split: option.splits)
  then show ?thesis using demand_reaches_producer [OF r, of 9] by simp
qed

text \<open>A peer can bring the consumer down with the id of a payload buffer: adding a buffer
  under the id \<open>0xffffffff\<close> (one more than it wraps to 0, which empties the vector that is then
  indexed), adding one under an id in use, or removing one that is not there fails a check or runs
  into undefined behaviour instead of failing the connection.\<close>

theorem peer_buffer_ids_are_not_checked:
  assumes "consumer_ok c" "vmo \<noteq> 0" "get_size_status r = MX_OK" "0 < vmo_size r" "vmo_size r \<le> kMaxBufferLen"
    "map_status r = MX_OK" "map_address r \<noteq> 0"
  shows "add_payload_buffer r (2 ^ 32 - 1) vmo c = None \<and>
    (\<forall>i b. buffer_at (buffer_set c) i = Some b \<longrightarrow> add_payload_buffer r i vmo c = None) \<and>
    (\<forall>i. buffer_at (buffer_set c) i = None \<longrightarrow> remove_payload_buffer r i c = None)"
proof (intro conjI allI impI)
  let ?s = "buffer_set c"
  have len: "length (mapped_buffers ?s) < 2 ^ 32" using assms(1) by (simp add: consumer_ok_def buffers_ok_def)
  have init: "init_from_vmo r vmo new_mapped_buffer =
      Some (MX_OK, \<lparr>buffer_ptr = map_address r, mapped_size = vmo_size r, vmo_handle = vmo\<rparr>)"
    using assms(3-7) by (simp add: init_from_vmo_def init_internal_def new_mapped_buffer_def mapped_reset_def Let_def)
  show "add_payload_buffer r (2 ^ 32 - 1) vmo c = None"
  proof (cases "length (mapped_buffers ?s) \<le> 2 ^ 32 - 1")
    case True
    then have "add_buffer r (2 ^ 32 - 1) vmo ?s = None"
      using init by (simp add: add_buffer_def insert_buffer_def resize_def ptr_from_offset_def bind_eq_None_conv)
    then show ?thesis by (simp add: add_payload_buffer_def)
  qed (use len in simp)
  show "add_payload_buffer r i vmo c = None" if "buffer_at ?s i = Some b" for i b
    using that by (auto simp: add_payload_buffer_def add_buffer_def buffer_at_Some)
  show "remove_payload_buffer r i c = None" if "buffer_at ?s i = None" for i
    using that by (auto simp: remove_payload_buffer_def remove_buffer_def buffer_at_def dcheck_bind_if split: if_splits)
qed

theorem peer_buffer_ids_are_not_checked_witness:
  "add_payload_buffer \<lparr>create_status = MX_OK, created_vmo = 5, commit_status = MX_OK, get_size_status = MX_OK,
     vmo_size = 4096, map_status = MX_OK, map_address = 4096, duplicate_vmo = 6, unmap_status = (\<lambda>a. MX_OK)\<rparr>
     (2 ^ 32 - 1) 5 consumer_init = None"
  by (rule peer_buffer_ids_are_not_checked [OF consumer_init_ok, THEN conjunct1]) (simp_all add: kMaxBufferLen_def)

text \<open>
  \<open>SetPacketPtsRate\<close> converts \<open>kNoTimestamp\<close> like any time stamp, so a packet without one gets one.
\<close>

lemma missing_timestamp_is_converted:
  "set_packet_pts_rate \<lparr>subject_delta = 1, reference_delta = 2\<rparr>
     ((packet_at 0 0 0)\<lparr>pts := kNoTimestamp\<rparr>) \<noteq> None \<and>
   (\<forall>pk. set_packet_pts_rate \<lparr>subject_delta = 1, reference_delta = 2\<rparr>
     ((packet_at 0 0 0)\<lparr>pts := kNoTimestamp\<rparr>) = Some pk \<longrightarrow> pts pk = 4611686018427387903)"
proof -
  have one: "mk_rate 1 1 = Some \<lparr>subject_delta = 1, reference_delta = 1\<rparr>" by (rule mk_rate_coprime) simp_all
  let ?h = "\<lparr>subject_delta = 1, reference_delta = 2 :: u32\<rparr>"
  have half: "rate_product ?h \<lparr>subject_delta = 1, reference_delta = 1\<rparr> False = Some ?h"
  proof -
    obtain t where t: "rate_product ?h \<lparr>subject_delta = 1, reference_delta = 1\<rparr> False = Some t"
      "unat (subject_delta t) = 1" "unat (reference_delta t) = 2"
      using rate_product_exact [of ?h "\<lparr>subject_delta = 1, reference_delta = 1\<rparr>" False] by (auto simp: rate_ok_def)
    then have "subject_delta t = 1" "reference_delta t = 2" by (simp_all add: word_unat_eq_iff)
    then show ?thesis using t(1) by (cases t) simp
  qed
  have "rate_scale ?h kNoTimestamp = Some (scale_core kNoTimestamp 1 2)"
    using scale_deltas_core [of 2 kNoTimestamp 1] by (simp add: rate_scale_def kNoTimestamp_def in_i64_def)
  moreover have "scale_core kNoTimestamp 1 2 = 4611686018427387903"
    by (subst nonneg_core) (simp_all add: kNoTimestamp_def in_i64_def scale_ideal_def Let_def)
  ultimately show ?thesis
    using one half by (simp add: set_packet_pts_rate_def packet_at_def default_rate_def rate_inverse_def)
qed

text \<open>
  A reset in the middle of a flush leaves \<open>flush_pending_\<close> set, so the consumer ignores the demand
  set for its next connection until the old flush completes.
\<close>

lemma reset_keeps_flush_pending:
  "flush_pending c \<Longrightarrow> set_demand n p (consumer_bind (consumer_reset c)) = consumer_bind (consumer_reset c)"
  by (simp add: set_demand_def consumer_bind_def reset_fields)

end
