(* ===== verification/Packet_Producer.thy ===== *)
theory Packet_Producer
  imports Shared_Buffer_Allocator Packet_Consumer
begin

text \<open>
  The sending end of the packet transport: \<open>MediaPacketProducerBase\<close>
  (lib/transport/media_packet_producer_base.h, .cc). Messages to the consumer are appended to
  \<open>sent\<close>, calls of callbacks and of the subclass's virtual methods to \<open>notices\<close>; callbacks are
  numbers. A response of the consumer is a step of its own: \<open>supply_reply\<close>, \<open>pull_reply\<close> and
  \<open>flush_reply\<close> are the bodies of the callbacks the code passes along with its requests.
\<close>

section \<open>State\<close>

datatype message =
    AddPayloadBuffer nat nat
  | RemovePayloadBuffer nat
  | SupplyPacket media_packet nat
  | PullDemandUpdate
  | Flush nat

datatype notice = DemandUpdated packet_demand | CallbackRun nat | FailureReported

record producer =
  payload_allocator :: shared_buffer_set_allocator
  connected :: bool
  flush_in_progress :: bool
  prev_packet_label :: u64
  p_demand :: packet_demand
  packets_outstanding :: u32
  pts_last_produced :: int
  end_of_stream_sent :: bool
  sent :: "message list"
  notices :: "notice list"

definition producer_init :: producer where
  "producer_init = \<lparr>payload_allocator = buffer_set_allocator_init, connected = False, flush_in_progress = False,
     prev_packet_label = 0, p_demand = no_demand, packets_outstanding = 0, pts_last_produced = i64_min,
     end_of_stream_sent = False, sent = [], notices = []\<rparr>"

definition send :: "message \<Rightarrow> producer \<Rightarrow> producer" where
  "send m p = p\<lparr>sent := sent p @ [m]\<rparr>"

definition notify :: "notice \<Rightarrow> producer \<Rightarrow> producer" where
  "notify n p = p\<lparr>notices := notices p @ [n]\<rparr>"

section \<open>Demand\<close>

definition update_demand :: "packet_demand \<Rightarrow> producer \<Rightarrow> producer" where
  "update_demand d p =
     (if flush_in_progress p then p
      else if min_packets_outstanding (p_demand p) \<noteq> min_packets_outstanding d \<or>
              demand_min_pts (p_demand p) \<noteq> demand_min_pts d
      then notify (DemandUpdated d) (p\<lparr>p_demand := \<lparr>min_packets_outstanding = min_packets_outstanding d,
                                                     demand_min_pts = demand_min_pts d\<rparr>\<rparr>)
      else p)"

definition handle_demand_update :: "packet_demand option \<Rightarrow> producer \<Rightarrow> producer" where
  "handle_demand_update d p =
     (let p = (case d of None \<Rightarrow> p | Some d \<Rightarrow> update_demand d p)
      in if connected p then send PullDemandUpdate p else p)"

definition pull_reply :: "packet_demand option \<Rightarrow> producer \<Rightarrow> producer" where
  "pull_reply d p = handle_demand_update d p"

definition should_produce_packet :: "u32 \<Rightarrow> producer \<Rightarrow> bool" where
  "should_produce_packet additional p =
     (if end_of_stream_sent p then False
      else if packets_outstanding p + additional < min_packets_outstanding (p_demand p) then True
      else demand_min_pts (p_demand p) \<noteq> kNoTimestamp \<and> pts_last_produced p < demand_min_pts (p_demand p))"

section \<open>Connecting and flushing\<close>

definition connect :: "nat \<Rightarrow> producer \<Rightarrow> producer" where
  "connect cb p = notify (CallbackRun cb) (handle_demand_update None (p\<lparr>connected := True\<rparr>))"

definition disconnect :: "producer \<Rightarrow> producer" where
  "disconnect p = p\<lparr>connected := False\<rparr>"

definition connection_error :: "producer \<Rightarrow> producer" where
  "connection_error p = notify FailureReported (p\<lparr>connected := False\<rparr>)"

definition producer_reset :: "os_reply \<Rightarrow> producer \<Rightarrow> producer option" where
  "producer_reset r p = do {
     let p = disconnect p;
     a \<leftarrow> buffer_set_reset r (payload_allocator p);
     Some (p\<lparr>payload_allocator := a\<rparr>)
   }"

definition flush_consumer :: "nat \<Rightarrow> producer \<Rightarrow> producer option" where
  "flush_consumer cb p = do {
     dcheck (connected p);
     let p = p\<lparr>end_of_stream_sent := False\<rparr>;
     let p = update_demand no_demand p;
     Some (send (Flush cb) (p\<lparr>flush_in_progress := True\<rparr>))
   }"

definition flush_reply :: "nat \<Rightarrow> producer \<Rightarrow> producer" where
  "flush_reply cb p = notify (CallbackRun cb) (p\<lparr>flush_in_progress := False\<rparr>)"

section \<open>Payloads and packets\<close>

definition allocate_payload_buffer :: "os_reply \<Rightarrow> os_reply \<Rightarrow> nat \<Rightarrow> producer \<Rightarrow> (nat \<times> producer) option" where
  "allocate_payload_buffer r r' sz p = do {
     (ptr, a) \<leftarrow> allocate r r' sz (payload_allocator p);
     Some (ptr, p\<lparr>payload_allocator := a\<rparr>)
   }"

definition release_payload_buffer :: "os_reply \<Rightarrow> nat \<Rightarrow> producer \<Rightarrow> producer option" where
  "release_payload_buffer r ptr p = do {
     a \<leftarrow> release r ptr (payload_allocator p);
     Some (p\<lparr>payload_allocator := a\<rparr>)
   }"

text \<open>The loop that tells the consumer about the buffers before a packet refers to one.\<close>

function drain_updates :: "producer \<Rightarrow> producer" where
  "drain_updates p =
     (case poll_for_buffer_update (payload_allocator p) of
        (None, a) \<Rightarrow> p
      | (Some (i, vmo), a) \<Rightarrow>
          drain_updates (send (if vmo \<noteq> 0 then AddPayloadBuffer i vmo else RemovePayloadBuffer i)
                              (p\<lparr>payload_allocator := a\<rparr>)))"
  by pat_completeness auto

termination
  by (relation "measure (\<lambda>p. length (updates (payload_allocator p)))")
    (auto simp: poll_for_buffer_update_def send_def split: list.splits)

declare drain_updates.simps [simp del]

definition produce_packet :: "nat \<Rightarrow> nat \<Rightarrow> int \<Rightarrow> timeline_rate \<Rightarrow> bool \<Rightarrow> bool \<Rightarrow> nat option \<Rightarrow> nat \<Rightarrow>
    producer \<Rightarrow> producer option" where
  "produce_packet payload sz stamp rate key eos revised cb p = do {
     dcheck (sz = 0 \<or> payload \<noteq> 0);
     (if \<not> connected p then Some (notify (CallbackRun cb) p)
      else do {
        l \<leftarrow> locator_from_ptr payload (payload_allocator p);
        let pk = \<lparr>pts = stamp, pts_rate_ticks = subject_delta rate, pts_rate_seconds = reference_delta rate,
                  keyframe = key, end_of_stream = eos, payload_buffer_id = buffer_id l,
                  payload_offset = loc_offset l, payload_size = sz, revised_media_type = revised\<rparr>;
        let p = p\<lparr>packets_outstanding := packets_outstanding p + 1, pts_last_produced := stamp,
                  end_of_stream_sent := eos\<rparr>;
        let p = p\<lparr>prev_packet_label := prev_packet_label p + 1\<rparr>;
        Some (send (SupplyPacket pk cb) (drain_updates p))
      })
   }"

definition supply_reply :: "packet_demand option \<Rightarrow> nat \<Rightarrow> producer \<Rightarrow> producer" where
  "supply_reply d cb p =
     (let p = p\<lparr>packets_outstanding := packets_outstanding p - 1\<rparr>;
          p = (case d of None \<Rightarrow> p | Some d \<Rightarrow> update_demand d p)
      in notify (CallbackRun cb) p)"

section \<open>What the producer sends\<close>

definition update_message :: "nat \<times> nat \<Rightarrow> message" where
  "update_message = (\<lambda>(i, vmo). if vmo \<noteq> 0 then AddPayloadBuffer i vmo else RemovePayloadBuffer i)"

lemma drain_updates_all:
  "drain_updates p = p\<lparr>payload_allocator := (payload_allocator p)\<lparr>updates := []\<rparr>,
     sent := sent p @ map update_message (updates (payload_allocator p))\<rparr>"
proof (induction p rule: drain_updates.induct)
  case (1 p)
  show ?case
  proof (cases "updates (payload_allocator p)")
    case Nil
    then show ?thesis by (subst drain_updates.simps) (simp add: poll_for_buffer_update_def)
  next
    case (Cons u us)
    obtain i v where u: "u = (i, v)" by fastforce
    let ?a = "(payload_allocator p)\<lparr>updates := us\<rparr>"
    have poll: "poll_for_buffer_update (payload_allocator p) = (Some (i, v), ?a)"
      using Cons u by (simp add: poll_for_buffer_update_def)
    have "drain_updates p = drain_updates (send (update_message u) (p\<lparr>payload_allocator := ?a\<rparr>))"
      by (subst drain_updates.simps) (simp add: poll u update_message_def)
    also have "\<dots> = p\<lparr>payload_allocator := ?a\<lparr>updates := []\<rparr>,
        sent := sent p @ [update_message u] @ map update_message us\<rparr>"
      using "1.IH" [OF poll [symmetric] refl refl] by (simp add: u update_message_def send_def)
    finally show ?thesis using Cons by simp
  qed
qed

text \<open>
  The producer's belief about the demand, and what its subclass was told by \<open>OnDemandUpdated\<close>.
\<close>

fun notice_demand :: "packet_demand \<Rightarrow> notice \<Rightarrow> packet_demand" where
  "notice_demand d (DemandUpdated d') = d'"
| "notice_demand d n = d"

definition subclass_demand :: "producer \<Rightarrow> packet_demand" where
  "subclass_demand p = foldl notice_demand no_demand (notices p)"

inductive producer_reach :: "producer \<Rightarrow> bool" where
  init: "producer_reach producer_init"
| connect: "producer_reach p \<Longrightarrow> producer_reach (connect cb p)"
| disconnect: "producer_reach p \<Longrightarrow> producer_reach (disconnect p)"
| error: "producer_reach p \<Longrightarrow> producer_reach (connection_error p)"
| reset: "producer_reach p \<Longrightarrow> producer_reset r p = Some p' \<Longrightarrow> producer_reach p'"
| flush: "producer_reach p \<Longrightarrow> flush_consumer cb p = Some p' \<Longrightarrow> producer_reach p'"
| flushed: "producer_reach p \<Longrightarrow> producer_reach (flush_reply cb p)"
| pulled: "producer_reach p \<Longrightarrow> producer_reach (pull_reply d p)"
| allocate: "producer_reach p \<Longrightarrow> allocate_payload_buffer r r' sz p = Some (ptr, p') \<Longrightarrow> producer_reach p'"
| release: "producer_reach p \<Longrightarrow> release_payload_buffer r ptr p = Some p' \<Longrightarrow> producer_reach p'"
| produce: "producer_reach p \<Longrightarrow> produce_packet payload sz stamp rate key eos revised cb p = Some p' \<Longrightarrow>
    producer_reach p'"
| supplied: "producer_reach p \<Longrightarrow> producer_reach (supply_reply d cb p)"

definition demand_ok :: "producer \<Rightarrow> bool" where
  "demand_ok p \<longleftrightarrow> subclass_demand p = p_demand p \<and> (flush_in_progress p \<longrightarrow> p_demand p = no_demand)"

lemma notify_simps [simp]:
  "p_demand (notify n p) = p_demand p" "flush_in_progress (notify n p) = flush_in_progress p"
  "subclass_demand (notify n p) = notice_demand (subclass_demand p) n" "connected (notify n p) = connected p"
  "end_of_stream_sent (notify n p) = end_of_stream_sent p"
  "p_demand (send m p) = p_demand p" "flush_in_progress (send m p) = flush_in_progress p"
  "subclass_demand (send m p) = subclass_demand p" "connected (send m p) = connected p"
  "end_of_stream_sent (send m p) = end_of_stream_sent p"
  by (simp_all add: notify_def send_def subclass_demand_def)

lemma demand_ok_frame [simp]:
  "demand_ok (p\<lparr>payload_allocator := a\<rparr>) = demand_ok p" "demand_ok (p\<lparr>connected := x\<rparr>) = demand_ok p"
  "demand_ok (p\<lparr>prev_packet_label := l\<rparr>) = demand_ok p" "demand_ok (p\<lparr>packets_outstanding := k\<rparr>) = demand_ok p"
  "demand_ok (p\<lparr>pts_last_produced := s\<rparr>) = demand_ok p" "demand_ok (p\<lparr>end_of_stream_sent := e\<rparr>) = demand_ok p"
  "demand_ok (p\<lparr>sent := ms\<rparr>) = demand_ok p" "demand_ok (send m p) = demand_ok p"
  "demand_ok (notify (CallbackRun cb) p) = demand_ok p" "demand_ok (notify FailureReported p) = demand_ok p"
  by (simp_all add: demand_ok_def subclass_demand_def send_def notify_def)

lemma update_demand_ok: "demand_ok p \<Longrightarrow> demand_ok (update_demand d p)"
  by (cases d) (auto simp: update_demand_def demand_ok_def subclass_demand_def notify_def)

lemma update_demand_result:
  "p_demand (update_demand d p) = (if flush_in_progress p then p_demand p else d)"
  "flush_in_progress (update_demand d p) = flush_in_progress p"
  "end_of_stream_sent (update_demand d p) = end_of_stream_sent p"
  by (cases d; cases "p_demand p"; simp add: update_demand_def)+

lemma handle_demand_ok: "demand_ok p \<Longrightarrow> demand_ok (handle_demand_update d p)"
  by (simp add: handle_demand_update_def Let_def update_demand_ok split: option.splits)

lemma reach_demand_ok: "producer_reach p \<Longrightarrow> demand_ok p"
proof (induction rule: producer_reach.induct)
  case init
  then show ?case by (simp add: demand_ok_def producer_init_def subclass_demand_def)
next
  case (flush p cb p')
  have "demand_ok (update_demand no_demand (p\<lparr>end_of_stream_sent := False\<rparr>))" using flush.IH by (intro update_demand_ok) simp
  moreover have "p_demand (update_demand no_demand (p\<lparr>end_of_stream_sent := False\<rparr>)) = no_demand"
    using flush.IH by (simp add: update_demand_result demand_ok_def)
  ultimately show ?case using flush.hyps(2)
    by (auto simp: flush_consumer_def Let_def send_def demand_ok_def subclass_demand_def)
next
  case (flushed p cb)
  then show ?case by (simp add: flush_reply_def demand_ok_def subclass_demand_def notify_def)
next
  case (produce p payload sz stamp rate key eos revised cb p')
  then show ?case by (auto simp: produce_packet_def Let_def bind_Some_iff drain_updates_all split: if_splits)
qed (auto simp: connect_def disconnect_def connection_error_def producer_reset_def pull_reply_def supply_reply_def
    allocate_payload_buffer_def release_payload_buffer_def bind_Some_iff Let_def handle_demand_ok update_demand_ok
    split: option.splits)

section \<open>Properties\<close>

text \<open>C23. A packet the producer sends is one the consumer accepts. For a payload region it holds
  and a size that fits it, \<open>ProducePacket\<close> first sends the whole queue of buffer updates and then
  the packet; and in any set of buffers with the producer's sizes, which is what the updates leave
  the consumer with, the packet's locator and size validate.\<close>

theorem produced_packet_is_accepted:
  assumes "allocator_ok (payload_allocator p)" "in_step (payload_allocator p) R" "connected p"
    "(payload, n) \<in> outstanding (payload_allocator p)" "sz \<le> n"
  shows "\<exists>p' pk. produce_packet payload sz stamp rate key eos revised cb p = Some p' \<and>
    sent p' = sent p @ map update_message (updates (payload_allocator p)) @ [SupplyPacket pk cb] \<and>
    replay (updates (payload_allocator p)) R = Some (live (payload_allocator p')) \<and>
    updates (payload_allocator p') = [] \<and> allocator_ok (payload_allocator p') \<and> payload_size pk = sz \<and>
    (\<forall>t :: shared_buffer_set. buffers_ok t \<longrightarrow>
       (\<forall>i. map_option mapped_size (buffer_at t i) = map_option mapped_size (buffer_at (payload_allocator p') i)) \<longrightarrow>
       set_validate (Locator (payload_buffer_id pk) (payload_offset pk)) sz t = Some True)"
proof -
  let ?a = "payload_allocator p"
  have core: "core_ok ?a" using assms(1) by (simp add: allocator_ok_def)
  obtain i where held: "(payload, n) \<in> held_in ?a i" using assms(4) by (auto simp: outstanding_def)
  obtain b off where b: "buffer_at ?a i = Some b" "payload = buffer_ptr b + off" "0 < n" "off + n \<le> mapped_size b"
    "locator_from_ptr payload ?a = Some (Locator i off)"
    using core held by (rule held_inE)
  have nz: "payload \<noteq> 0"
    using b(2) sound_bufferD(1) [OF buffers_ok_sound [OF core_okD(1) [OF core] b(1)]] by simp
  let ?pk = "\<lparr>pts = stamp, pts_rate_ticks = subject_delta rate, pts_rate_seconds = reference_delta rate,
    keyframe = key, end_of_stream = eos, payload_buffer_id = i, payload_offset = off, payload_size = sz,
    revised_media_type = revised\<rparr>"
  let ?p = "p\<lparr>packets_outstanding := packets_outstanding p + 1, pts_last_produced := stamp,
    end_of_stream_sent := eos, prev_packet_label := prev_packet_label p + 1\<rparr>"
  let ?q = "send (SupplyPacket ?pk cb) (drain_updates ?p)"
  have q: "produce_packet payload sz stamp rate key eos revised cb p = Some ?q"
    using nz assms(3) b(5) by (simp add: produce_packet_def Let_def)
  have a: "payload_allocator ?q = ?a\<lparr>updates := []\<rparr>"
    "sent ?q = sent p @ map update_message (updates ?a) @ [SupplyPacket ?pk cb]"
    by (simp_all add: drain_updates_all send_def)
  have "allocator_ok (?a\<lparr>updates := []\<rparr>)"
    using assms(1) by (simp add: allocator_ok_def active_ok_def tight_def free_ok_def)
  moreover have "set_validate (Locator i off) sz t = Some True"
    if t: "buffers_ok t" "\<forall>j. map_option mapped_size (buffer_at t j) = map_option mapped_size (buffer_at ?a j)"
    for t :: shared_buffer_set
  proof -
    obtain c where "buffer_at t i = Some c" "mapped_size c = mapped_size b"
      using t(2) b(1) by (metis (no_types, lifting) map_option_eq_Some)
    then show ?thesis using validate_iff [OF t(1), of "Locator i off" sz] b(3,4) assms(5) by simp
  qed
  ultimately show ?thesis
    using q a assms(2) by (intro exI [of _ ?q] exI [of _ ?pk]) (simp add: in_step_def live_def)
qed

theorem produced_packet_is_accepted_witness:
  "\<exists>ptr p p' pk. allocate_payload_buffer (grant 4096 4096) (grant 0 0) 100 (connect 1 producer_init) = Some (ptr, p) \<and>
    produce_packet ptr 100 0 default_rate False False None 2 p = Some p' \<and>
    sent p' = sent p @ map update_message (updates (payload_allocator p)) @ [SupplyPacket pk 2] \<and> payload_size pk = 100"
proof -
  let ?p0 = "connect 1 producer_init"
  have init: "payload_allocator ?p0 = buffer_set_allocator_init" "connected ?p0"
    by (simp_all add: connect_def notify_def handle_demand_update_def send_def producer_init_def)
  have "\<exists>ptr t. allocate (grant 4096 4096) (grant 0 0) 100 buffer_set_allocator_init = Some (ptr, t) \<and>
      allocator_ok t \<and> follows buffer_set_allocator_init t \<and> (\<exists>m \<ge> 100. (ptr, m) \<in> outstanding t)"
    using allocate_ok [OF allocator_ok_init _ init_room kernel_ok_grant, of "grant 0 0"] grant_grants
    by (auto simp: grant_def split: if_splits)
  then obtain ptr t m where t: "allocate (grant 4096 4096) (grant 0 0) 100 buffer_set_allocator_init = Some (ptr, t)"
    "allocator_ok t" "follows buffer_set_allocator_init t" "100 \<le> m" "(ptr, m) \<in> outstanding t" by blast
  have "in_step t {}" using session_ok [OF start] t(3) by (simp add: follows_def)
  then show ?thesis
    using produced_packet_is_accepted [of "?p0\<lparr>payload_allocator := t\<rparr>" "{}" ptr m 100 0 default_rate False False None 2]
      t init by (auto simp: allocate_payload_buffer_def)
qed

text \<open>C30. The producer's subclass always knows the demand (\<open>OnDemandUpdated\<close> was called with it,
  or it is none), and while a flush is in progress there is none: whatever demand the consumer's
  responses carry, \<open>ShouldProducePacket\<close> stays false until the flush completes.\<close>

theorem no_demand_while_flushing:
  assumes "producer_reach p"
  shows "subclass_demand p = p_demand p \<and>
    (flush_in_progress p \<longrightarrow> p_demand (supply_reply d cb p) = no_demand \<and> p_demand (pull_reply d p) = no_demand \<and>
       \<not> should_produce_packet n p \<and> \<not> should_produce_packet n (supply_reply d cb p) \<and>
       \<not> should_produce_packet n (pull_reply d p))"
proof -
  have ok: "demand_ok p" by (rule reach_demand_ok) fact
  have none: "\<not> should_produce_packet n q" if "p_demand q = no_demand" for q
    using that by (simp add: should_produce_packet_def no_demand_def)
  have "p_demand (supply_reply d cb p) = no_demand \<and> p_demand (pull_reply d p) = no_demand" if "flush_in_progress p"
    using ok that by (auto simp: supply_reply_def pull_reply_def handle_demand_update_def Let_def demand_ok_def
        update_demand_result split: option.splits)
  then show ?thesis using ok none by (auto simp: demand_ok_def)
qed

theorem no_demand_while_flushing_witness:
  "\<exists>p. flush_consumer 4 (pull_reply (Some \<lparr>min_packets_outstanding = 2, demand_min_pts = 0\<rparr>) (connect 1 producer_init)) = Some p \<and>
    flush_in_progress p \<and> \<not> should_produce_packet 0 (supply_reply (Some \<lparr>min_packets_outstanding = 5, demand_min_pts = 0\<rparr>) 3 p)"
proof -
  let ?p = "pull_reply (Some \<lparr>min_packets_outstanding = 2, demand_min_pts = 0\<rparr>) (connect 1 producer_init)"
  have "connected ?p"
    by (simp add: pull_reply_def handle_demand_update_def update_demand_def connect_def producer_init_def Let_def
        notify_def send_def)
  then obtain p where p: "flush_consumer 4 ?p = Some p" "flush_in_progress p"
    by (auto simp: flush_consumer_def send_def Let_def)
  have "producer_reach p"
    by (rule producer_reach.flush [OF _ p(1)]) (intro producer_reach.pulled producer_reach.connect producer_reach.init)
  then show ?thesis
    using no_demand_while_flushing [of p "Some \<lparr>min_packets_outstanding = 5, demand_min_pts = 0\<rparr>" 3 0] p by blast
qed

end
