(* ===== verification/Packet_Connection.thy ===== *)
theory Packet_Connection
  imports Packet_Producer
begin

text \<open>
  A producer and a consumer joined by a channel: \<open>MediaPacketProducerBase\<close> and
  \<open>MediaPacketConsumerBase\<close> (lib/transport) composed. Messages travel in order in both directions,
  as on a fidl channel: \<open>up\<close> holds those the consumer has not handled yet, \<open>down\<close> its responses
  the producer has not handled yet. Either side may act at any time. The theory shows that the
  two sides agree on the demand whenever nothing is in flight.
\<close>

section \<open>The joint state\<close>

record connection =
  conn_producer :: producer
  conn_consumer :: consumer
  up :: "message list"
  down :: "consumer_event list"

fun is_reply :: "consumer_event \<Rightarrow> bool" where
  "is_reply (PullReply cb d) = True"
| "is_reply (SupplyReply cb d) = True"
| "is_reply (FlushReply cb) = True"
| "is_reply e = False"

text \<open>What an end has just sent goes into the channel.\<close>

definition after_producer :: "connection \<Rightarrow> producer \<Rightarrow> connection" where
  "after_producer s p = s\<lparr>conn_producer := p\<lparr>sent := []\<rparr>, up := up s @ sent p\<rparr>"

definition after_consumer :: "connection \<Rightarrow> consumer \<Rightarrow> connection" where
  "after_consumer s c = s\<lparr>conn_consumer := c,
     down := down s @ filter is_reply (drop (length (events (conn_consumer s))) (events c))\<rparr>"

text \<open>
  A message is handled by the consumer's method of that name; the subclass completes flushes and
  returns packets when it likes. A flush is only requested when none is in progress.
\<close>

inductive consumer_handles :: "consumer \<Rightarrow> message \<Rightarrow> consumer \<Rightarrow> bool" where
  "add_payload_buffer r i vmo c = Some c' \<Longrightarrow> bound c' \<Longrightarrow> consumer_handles c (AddPayloadBuffer i vmo) c'"
| "remove_payload_buffer r i c = Some c' \<Longrightarrow> consumer_handles c (RemovePayloadBuffer i) c'"
| "supply_packet pk cb c = Some c' \<Longrightarrow> bound c' \<Longrightarrow> consumer_handles c (SupplyPacket pk cb) c'"
| "consumer_handles c PullDemandUpdate (pull_demand_update cb c)"
| "consumer_handles c (Flush cb) (flush cb c)"

inductive consumer_acts :: "consumer \<Rightarrow> consumer \<Rightarrow> bool" where
  "consumer_acts c (set_demand n q c)"
| "consumer_acts c (return_packet calls sp c)"
| "flush_pending c \<Longrightarrow> consumer_acts c (complete_flush cb c)"

inductive producer_handles :: "producer \<Rightarrow> consumer_event \<Rightarrow> producer \<Rightarrow> bool" where
  "producer_handles p (PullReply cb d) (pull_reply (Some d) p)"
| "producer_handles p (SupplyReply cb d) (supply_reply d cb p)"
| "producer_handles p (FlushReply cb) (flush_reply cb p)"

inductive producer_acts :: "producer \<Rightarrow> producer \<Rightarrow> bool" where
  "allocate_payload_buffer r r' sz p = Some (ptr, p') \<Longrightarrow> producer_acts p p'"
| "release_payload_buffer r ptr p = Some p' \<Longrightarrow> producer_acts p p'"
| "produce_packet payload sz stamp rate key eos revised cb p = Some p' \<Longrightarrow> producer_acts p p'"
| "flush_consumer cb p = Some p' \<Longrightarrow> \<not> flush_in_progress p \<Longrightarrow> producer_acts p p'"

text \<open>
  A connection starts with a producer that has just connected to a consumer that told nobody
  anything yet, though it may already have set its demand.
\<close>

definition fresh_consumer :: "consumer \<Rightarrow> bool" where
  "fresh_consumer c \<longleftrightarrow> settled c \<and> bound c \<and> told (events c) = no_demand \<and> pull_callback c = None \<and> \<not> flush_pending c"

inductive conn_reach :: "connection \<Rightarrow> bool" where
  start: "fresh_consumer c \<Longrightarrow>
    conn_reach (after_producer \<lparr>conn_producer = producer_init, conn_consumer = c, up = [], down = []\<rparr>
      (connect cb producer_init))"
| produce: "conn_reach s \<Longrightarrow> producer_acts (conn_producer s) p \<Longrightarrow> conn_reach (after_producer s p)"
| respond: "conn_reach s \<Longrightarrow> down s = e # es \<Longrightarrow> producer_handles (conn_producer s) e p \<Longrightarrow>
    conn_reach (after_producer (s\<lparr>down := es\<rparr>) p)"
| consume: "conn_reach s \<Longrightarrow> consumer_acts (conn_consumer s) c \<Longrightarrow> conn_reach (after_consumer s c)"
| handle: "conn_reach s \<Longrightarrow> up s = m # ms \<Longrightarrow> consumer_handles (conn_consumer s) m c \<Longrightarrow>
    conn_reach (after_consumer (s\<lparr>up := ms\<rparr>) c)"

section \<open>The invariant\<close>

text \<open>Whether the producer ignores demand, and the demand it believes in, once it has handled a
  response.\<close>

fun absorb :: "bool \<times> packet_demand \<Rightarrow> consumer_event \<Rightarrow> bool \<times> packet_demand" where
  "absorb (f, d) (PullReply cb d') = (f, if f then d else d')"
| "absorb (f, d) (SupplyReply cb (Some d')) = (f, if f then d else d')"
| "absorb (f, d) (FlushReply cb) = (False, d)"
| "absorb (f, d) e = (f, d)"

definition expected :: "producer \<Rightarrow> consumer_event list \<Rightarrow> bool \<times> packet_demand" where
  "expected p es = foldl absorb (flush_in_progress p, p_demand p) es"

fun flush_count :: "message \<Rightarrow> nat" where
  "flush_count (Flush cb) = 1"
| "flush_count m = 0"

fun pull_count :: "message \<Rightarrow> nat" where
  "pull_count PullDemandUpdate = 1"
| "pull_count m = 0"

fun flush_reply_count :: "consumer_event \<Rightarrow> nat" where
  "flush_reply_count (FlushReply cb) = 1"
| "flush_reply_count e = 0"

fun pull_reply_count :: "consumer_event \<Rightarrow> nat" where
  "pull_reply_count (PullReply cb d) = 1"
| "pull_reply_count e = 0"

definition total_of :: "('a \<Rightarrow> nat) \<Rightarrow> 'a list \<Rightarrow> nat" where
  "total_of f xs = sum_list (map f xs)"

abbreviation flushes where "flushes \<equiv> total_of flush_count"
abbreviation pulls where "pulls \<equiv> total_of pull_count"
abbreviation flush_replies where "flush_replies \<equiv> total_of flush_reply_count"
abbreviation pull_replies where "pull_replies \<equiv> total_of pull_reply_count"

lemma total_of_simps [simp]:
  "total_of f [] = 0" "total_of f (x # xs) = f x + total_of f xs" "total_of f (xs @ ys) = total_of f xs + total_of f ys"
  by (simp_all add: total_of_def)

text \<open>
  One flush is on its way from the producer and back at most, and one pull always. Unless a flush is
  still on its way up, handling the responses in flight leaves the producer believing what the
  consumer told it last.
\<close>

definition joint_ok :: "producer \<Rightarrow> consumer \<Rightarrow> message list \<Rightarrow> consumer_event list \<Rightarrow> bool" where
  "joint_ok p c us ds \<longleftrightarrow> demand_ok p \<and> connected p \<and> sent p = [] \<and> settled c \<and>
     flushes us + flush_replies ds + of_bool (flush_pending c) = of_bool (flush_in_progress p) \<and>
     pulls us + pull_replies ds + of_bool (pull_callback c \<noteq> None) = 1 \<and>
     (flushes us = 0 \<longrightarrow> expected p ds = (flush_pending c, told (events c)) \<and>
        (flush_pending c \<longrightarrow> demand c = no_demand \<and> told (events c) = no_demand))"

lemma expected_simps [simp]:
  "expected p [] = (flush_in_progress p, p_demand p)"
  "expected p (ds @ [e]) = absorb (expected p ds) e"
  by (simp_all add: expected_def)

lemma absorb_ignored: "flush_replies ds = 0 \<Longrightarrow> foldl absorb (True, d) ds = (True, d)"
proof (induction ds)
  case (Cons e ds)
  then show ?case
  proof (cases e)
    case (SupplyReply cb d')
    then show ?thesis using Cons by (cases d') auto
  qed (auto split: if_splits)
qed simp

section \<open>What the steps do to the demand\<close>

lemma update_messages_plain [simp]:
  "flushes (map update_message us) = 0" "pulls (map update_message us) = 0"
  by (induction us) (simp_all add: update_message_def case_prod_unfold)

lemma producer_acts_effect:
  assumes "producer_acts p p'" "demand_ok p" "connected p" "sent p = []"
  shows "demand_ok p' \<and> connected p' \<and> pulls (sent p') = 0 \<and>
    (if flushes (sent p') = 0 then p_demand p' = p_demand p \<and> flush_in_progress p' = flush_in_progress p
     else flushes (sent p') = 1 \<and> \<not> flush_in_progress p \<and> flush_in_progress p')"
  using assms(1)
proof cases
  case (3 payload sz stamp rate key eos revised cb)
  then show ?thesis using assms(2-4)
    by (auto simp: produce_packet_def Let_def bind_Some_iff drain_updates_all send_def demand_ok_def subclass_demand_def)
next
  case (4 cb)
  define q where "q = update_demand no_demand (p\<lparr>end_of_stream_sent := False\<rparr>)"
  have q: "demand_ok q" "p_demand q = no_demand" "connected q" "sent q = []"
    using assms(2-4) 4 update_demand_ok [of "p\<lparr>end_of_stream_sent := False\<rparr>" no_demand]
    by (auto simp: q_def update_demand_result) (simp_all add: update_demand_def notify_def)
  have "p' = send (Flush cb) (q\<lparr>flush_in_progress := True\<rparr>)"
    using 4(1) assms(3) by (simp add: flush_consumer_def q_def Let_def)
  then show ?thesis using q 4(2) by (simp add: send_def demand_ok_def subclass_demand_def)
qed (use assms(2-4) in \<open>auto simp: allocate_payload_buffer_def release_payload_buffer_def bind_Some_iff\<close>)

lemma producer_handles_effect:
  assumes "producer_handles p e p'" "demand_ok p" "connected p" "sent p = []"
  shows "demand_ok p' \<and> connected p' \<and> flushes (sent p') = 0 \<and>
    (flush_in_progress p', p_demand p') = absorb (flush_in_progress p, p_demand p) e \<and>
    pulls (sent p') = (case e of PullReply cb d \<Rightarrow> 1 | _ \<Rightarrow> 0)"
  using assms(1)
proof cases
  case (1 cb d)
  have "sent (update_demand d p) = []" "connected (update_demand d p)"
    using assms(3,4) by (simp_all add: update_demand_def notify_def)
  moreover from this have "p' = send PullDemandUpdate (update_demand d p)"
    using 1 by (simp add: pull_reply_def handle_demand_update_def)
  moreover have "sent (send m q) = sent q @ [m]" for m q by (simp add: send_def)
  ultimately show ?thesis using 1 update_demand_ok [OF assms(2)] by (simp add: update_demand_result)
next
  case (2 cb d)
  show ?thesis
  proof (cases d)
    case None
    then have "p' = notify (CallbackRun cb) (p\<lparr>packets_outstanding := packets_outstanding p - 1\<rparr>)"
      using 2 by (simp add: supply_reply_def)
    then show ?thesis using 2 assms(2-4) None by simp (simp add: notify_def)
  next
    case (Some d')
    let ?q = "p\<lparr>packets_outstanding := packets_outstanding p - 1\<rparr>"
    have p': "p' = notify (CallbackRun cb) (update_demand d' ?q)" using 2 Some by (simp add: supply_reply_def)
    have "sent (update_demand d' ?q) = []" "connected (update_demand d' ?q)"
      using assms(3,4) by (simp_all add: update_demand_def notify_def)
    moreover have "sent (notify n q) = sent q" for n q by (simp add: notify_def)
    ultimately show ?thesis using 2(1) Some p' update_demand_ok [of ?q d'] assms(2) by (simp add: update_demand_result)
  qed
next
  case (3 cb)
  then show ?thesis using assms(2-4)
    by (simp add: flush_reply_def) (simp add: notify_def demand_ok_def subclass_demand_def)
qed

lemma set_demand_flushing: "flush_pending c \<Longrightarrow> set_demand n q c = c"
  by (simp add: set_demand_def)

lemma set_demand_keeps_flush: "flush_pending (set_demand n q c) = flush_pending c"
  by (simp add: set_demand_def maybe_complete_pull_def split: option.splits)

lemma set_demands_flushing: "flush_pending c \<Longrightarrow> fold (\<lambda>(n, q). set_demand n q) calls c = c"
  by (induction calls) (simp_all add: set_demand_flushing case_prod_unfold)

lemma set_demands_keep_flush: "flush_pending (fold (\<lambda>(n, q). set_demand n q) calls c) = flush_pending c"
  by (induction calls arbitrary: c) (simp_all add: set_demand_keeps_flush case_prod_unfold)

lemma return_packet_effect:
  fixes calls :: "(u32 \<times> int) list" and sp :: supplied_packet
  assumes "settled c"
  defines "c' \<equiv> return_packet calls sp c"
  shows "\<exists>d. events c' = events c @ [SupplyReply (sp_callback sp) d] \<and> (d = None \<or> d = Some (demand c')) \<and>
    flush_pending c' = flush_pending c \<and> pull_callback c' = pull_callback c \<and> (flush_pending c \<longrightarrow> demand c' = demand c)"
proof -
  let ?c1 = "c\<lparr>counters := (counters c)[sp_counter sp := (counters c ! sp_counter sp)\<lparr>counter_outstanding :=
                counter_outstanding (counters c ! sp_counter sp) - 1\<rparr>]\<rparr>"
  let ?c2 = "fold (\<lambda>(n, q). set_demand n q) calls (?c1\<lparr>returning_packet := True\<rparr>)"
  have p: "returning_packet (?c1\<lparr>returning_packet := True\<rparr>)"
    "demand_update_required (?c1\<lparr>returning_packet := True\<rparr>) \<or>
       told (events (?c1\<lparr>returning_packet := True\<rparr>)) = demand (?c1\<lparr>returning_packet := True\<rparr>)"
    using assms(1) by (simp_all add: settled_def)
  have c2: "events ?c2 = events c \<and> pull_callback ?c2 = pull_callback c"
    using set_demands_returning [OF p, of calls] by auto
  have f: "flush_pending ?c2 = flush_pending c" using set_demands_keep_flush [of calls "?c1\<lparr>returning_packet := True\<rparr>"] by simp
  have d: "demand ?c2 = demand c" if "flush_pending c"
    using set_demands_flushing [of "?c1\<lparr>returning_packet := True\<rparr>" calls] that by simp
  show ?thesis
    unfolding c'_def return_packet_def on_packet_departure_def demand_for_departure_def Let_def
    using c2 f d by (auto split: prod.splits if_splits)
qed

lemma consumer_acts_joint:
  assumes "consumer_acts c c'" "joint_ok p c us ds"
  shows "joint_ok p c' us (ds @ filter is_reply (drop (length (events c)) (events c')))"
  using assms(1)
proof cases
  case (1 n q)
  have s: "settled c" using assms(2) by (simp add: joint_ok_def)
  show ?thesis
  proof (cases "flush_pending c \<or> set_demand n q c = c")
    case True
    then have "c' = c" using 1 by (auto simp: set_demand_def)
    then show ?thesis using assms(2) by simp
  next
    case False
    let ?c = "c\<lparr>demand := \<lparr>min_packets_outstanding = n, demand_min_pts = q\<rparr>, demand_update_required := True\<rparr>"
    have c': "c' = maybe_complete_pull ?c" using False 1 by (auto simp: set_demand_def split: if_splits)
    have "settled c'" using set_demand_settled [OF s] 1 by simp
    moreover have "\<not> returning_packet c" using s by (simp add: settled_def)
    then have "events c' = events c @ (case pull_callback c of None \<Rightarrow> [] | Some cb \<Rightarrow> [PullReply cb (demand c')])"
      "pull_callback c' = None" "flush_pending c' = flush_pending c"
      using c' by (simp_all add: maybe_complete_pull_def split: option.splits)
    ultimately show ?thesis
      using assms(2) False by (cases "pull_callback c") (simp_all add: joint_ok_def)
  qed
next
  case (2 calls sp)
  have s: "settled c" "settled c'" using assms(2) 2 return_packet_settled(1) by (simp_all add: joint_ok_def)
  obtain d where d: "events c' = events c @ [SupplyReply (sp_callback sp) d]" "d = None \<or> d = Some (demand c')"
    "flush_pending c' = flush_pending c" "pull_callback c' = pull_callback c" "flush_pending c \<longrightarrow> demand c' = demand c"
    using return_packet_effect [OF s(1), of calls sp] 2 by auto
  show ?thesis
  proof (cases d)
    case None
    then show ?thesis using assms(2) s(2) d by (simp add: joint_ok_def)
  next
    case (Some d')
    then show ?thesis using assms(2) s(2) d by (cases "flush_pending c") (simp_all add: joint_ok_def)
  qed
next
  case (3 cb)
  then have "settled c'" "events c' = events c @ [FlushReply cb]" "demand c' = demand c" "\<not> flush_pending c'"
    "pull_callback c' = pull_callback c"
    using assms(2) by (simp_all add: joint_ok_def settled_def complete_flush_def)
  then show ?thesis using assms(2) 3 by (simp add: joint_ok_def)
qed

lemma supply_bound:
  assumes "supply_packet pk cb c = Some c'" "bound c'"
  shows "\<exists>sp. events c' = events c @ [PacketSupplied sp] \<and> demand c' = demand c \<and> flush_pending c' = flush_pending c \<and>
    pull_callback c' = pull_callback c \<and> demand_update_required c' = demand_update_required c \<and>
    returning_packet c' = returning_packet c"
  using assms
  by (auto simp: supply_packet_def deliver_packet_def Let_def bind_Some_iff reset_fields fail_fields on_packet_arrival_def
      split: if_splits)

lemma buffers_bound:
  "add_payload_buffer r i vmo c = Some c' \<Longrightarrow> bound c' \<Longrightarrow> \<exists>cs. c' = c\<lparr>counters := cs\<rparr>"
  "remove_payload_buffer r i c = Some c' \<Longrightarrow> \<exists>cs. c' = c\<lparr>counters := cs\<rparr>"
  by (auto simp: add_payload_buffer_def remove_payload_buffer_def put_buffer_set_def Let_def bind_Some_iff fail_fields
      split: if_splits)

lemma joint_ok_counters [simp]: "joint_ok p (c\<lparr>counters := cs\<rparr>) us ds = joint_ok p c us ds"
  by (simp add: joint_ok_def settled_def)

lemma consumer_handles_joint:
  assumes "consumer_handles c m c'" "joint_ok p c (m # us) ds"
  shows "joint_ok p c' us (ds @ filter is_reply (drop (length (events c)) (events c')))"
  using assms(1)
proof cases
  case (1 r i vmo)
  then obtain cs where "c' = c\<lparr>counters := cs\<rparr>" using buffers_bound(1) by blast
  then show ?thesis using assms(2) 1 by (simp add: joint_ok_def settled_def)
next
  case (2 r i)
  then obtain cs where "c' = c\<lparr>counters := cs\<rparr>" using buffers_bound(2) by blast
  then show ?thesis using assms(2) 2 by (simp add: joint_ok_def settled_def)
next
  case (3 pk cb)
  obtain sp where sp: "events c' = events c @ [PacketSupplied sp]" "demand c' = demand c"
    "flush_pending c' = flush_pending c" "pull_callback c' = pull_callback c"
    using supply_bound [OF 3(2,3)] by blast
  have "settled c'" using supply_settled [OF _ 3(2)] assms(2) by (simp add: joint_ok_def)
  then show ?thesis using sp 3(1) assms(2) by (simp add: joint_ok_def)
next
  case (4 cb)
  have s: "settled c" using assms(2) by (simp add: joint_ok_def)
  then have "settled c'" using 4 pull_settled by simp
  moreover have "pull_callback c = None" using assms(2) 4 by (auto simp: joint_ok_def split: if_splits)
  then have "c' = maybe_complete_pull (c\<lparr>pull_callback := Some cb\<rparr>)" using 4 by (simp add: pull_demand_update_def)
  ultimately show ?thesis
    using assms(2) 4 s \<open>pull_callback c = None\<close>
    by (cases "demand_update_required c") (auto simp: joint_ok_def maybe_complete_pull_def settled_def)
next
  case (5 cb)
  have j: "flush_in_progress p" "flushes us = 0" "flush_replies ds = 0" "\<not> flush_pending c"
    using assms(2) 5 by (auto simp: joint_ok_def of_bool_def split: if_splits)
  then have "expected p ds = (True, no_demand)"
    using assms(2) absorb_ignored by (simp add: expected_def joint_ok_def demand_ok_def)
  then show ?thesis using assms(2) 5 j by (auto simp: joint_ok_def flush_def settled_def)
qed

lemma producer_acts_joint:
  assumes "producer_acts p p'" "joint_ok p c us ds"
  shows "joint_ok (p'\<lparr>sent := []\<rparr>) c (us @ sent p') ds"
proof -
  have p: "demand_ok p" "connected p" "sent p = []" using assms(2) by (simp_all add: joint_ok_def)
  note e = producer_acts_effect [OF assms(1) p]
  show ?thesis
  proof (cases "flushes (sent p') = 0")
    case True
    then have "expected (p'\<lparr>sent := []\<rparr>) ds = expected p ds" using e by (simp add: expected_def)
    then show ?thesis using assms(2) e True by (simp add: joint_ok_def)
  next
    case False
    then show ?thesis using assms(2) e by (simp add: joint_ok_def)
  qed
qed

lemma producer_handles_joint:
  assumes "producer_handles p e p'" "joint_ok p c us (e # ds)"
  shows "joint_ok (p'\<lparr>sent := []\<rparr>) c (us @ sent p') ds"
proof -
  have p: "demand_ok p" "connected p" "sent p = []" using assms(2) by (simp_all add: joint_ok_def)
  note h = producer_handles_effect [OF assms(1) p]
  then have ex: "expected (p'\<lparr>sent := []\<rparr>) ds = expected p (e # ds)" by (simp add: expected_def)
  have "fst (absorb (f, d) e) = (f \<and> flush_reply_count e = 0)" for f d
    by (cases e; cases "\<exists>cb d'. e = SupplyReply cb (Some d')") auto
  then have "flush_in_progress p' = (flush_in_progress p \<and> flush_reply_count e = 0)" using h by (metis fst_conv)
  moreover have "flushes us + (flush_reply_count e + flush_replies ds) + of_bool (flush_pending c) = of_bool (flush_in_progress p)"
    using assms(2) by (simp add: joint_ok_def)
  ultimately have "flushes us + flush_replies ds + of_bool (flush_pending c) = of_bool (flush_in_progress p')"
    by (cases "flush_in_progress p") (auto simp: of_bool_def split: if_splits)
  moreover have "pulls us + (pull_reply_count e + pull_replies ds) + of_bool (pull_callback c \<noteq> None) = 1"
    using assms(2) by (simp add: joint_ok_def)
  then have "pulls (us @ sent p') + pull_replies ds + of_bool (pull_callback c \<noteq> None) = 1"
    using h by (cases e) simp_all
  ultimately show ?thesis using assms(2) h ex by (simp add: joint_ok_def)
qed

section \<open>Properties\<close>

lemma reach_joint:
  "conn_reach s \<Longrightarrow> joint_ok (conn_producer s) (conn_consumer s) (up s) (down s)"
proof (induction rule: conn_reach.induct)
  case (start c cb)
  have d: "demand_ok producer_init" by (rule reach_demand_ok) (rule producer_reach.init)
  let ?p = "connect cb producer_init"
  have p: "sent ?p = [PullDemandUpdate]" "connected ?p" "flush_in_progress ?p = False" "p_demand ?p = no_demand"
    by (simp_all add: connect_def notify_def handle_demand_update_def send_def producer_init_def)
  have "demand_ok ?p" by (rule reach_demand_ok) (intro producer_reach.connect producer_reach.init)
  then show ?case using start p by (simp add: after_producer_def joint_ok_def fresh_consumer_def)
next
  case (produce s p)
  then show ?case using producer_acts_joint by (simp add: after_producer_def)
next
  case (respond s e es p)
  then show ?case using producer_handles_joint by (simp add: after_producer_def)
next
  case (consume s c)
  then show ?case using consumer_acts_joint by (simp add: after_consumer_def)
next
  case (handle s m ms c)
  then show ?case using consumer_handles_joint by (simp add: after_consumer_def)
qed

text \<open>C10. Producer and consumer agree on the demand. However the two ends act and messages travel
  (packets supplied and returned, demand set, a flush started only when the one before has completed),
  in every state where nothing is in flight and no flush is in progress the producer's demand is the
  consumer's, its subclass has been told it, and a pull is waiting at the consumer to carry the next
  change. With a second flush before the first completes it does not hold (\<open>overlapping_flushes_disagree\<close>).\<close>

theorem ends_agree_on_demand:
  assumes "conn_reach s" "up s = []" "down s = []" "\<not> flush_in_progress (conn_producer s)"
  shows "p_demand (conn_producer s) = demand (conn_consumer s) \<and>
    subclass_demand (conn_producer s) = demand (conn_consumer s) \<and> pull_callback (conn_consumer s) \<noteq> None"
proof -
  have j: "joint_ok (conn_producer s) (conn_consumer s) [] []" using reach_joint [OF assms(1)] assms(2,3) by simp
  then have "pull_callback (conn_consumer s) \<noteq> None"
    by (cases "pull_callback (conn_consumer s)") (simp_all add: joint_ok_def)
  then show ?thesis using j assms(4) by (auto simp: joint_ok_def demand_ok_def settled_def)
qed

definition early_consumer :: consumer where
  "early_consumer = consumer_bind (set_demand 3 0 consumer_init)"

lemma early_fields:
  "events early_consumer = [WasReset]" "pull_callback early_consumer = None" "flush_pending early_consumer = False"
  "bound early_consumer" "demand early_consumer = \<lparr>min_packets_outstanding = 3, demand_min_pts = 0\<rparr>"
  "demand_update_required early_consumer"
  by (simp_all add: early_consumer_def consumer_bind_def set_demand_def maybe_complete_pull_def consumer_init_def
      consumer_reset_def emit_def no_demand_def kNoTimestamp_def Let_def)

lemma early_fresh: "fresh_consumer early_consumer"
proof -
  have "consumer_reach early_consumer" unfolding early_consumer_def by (intro consumer_reach.intros)
  then show ?thesis using reach_settled by (simp add: fresh_consumer_def early_fields told_def)
qed

theorem ends_agree_on_demand_witness:
  "\<exists>s. conn_reach s \<and> up s = [] \<and> down s = [] \<and>
    p_demand (conn_producer s) = \<lparr>min_packets_outstanding = 3, demand_min_pts = 0\<rparr>"
proof -
  let ?d = "\<lparr>min_packets_outstanding = 3, demand_min_pts = 0\<rparr>"
  let ?s0 = "after_producer \<lparr>conn_producer = producer_init, conn_consumer = early_consumer, up = [], down = []\<rparr>
      (connect 1 producer_init)"
  let ?c1 = "pull_demand_update 2 early_consumer"
  have s0: "conn_reach ?s0" by (rule conn_reach.start) (rule early_fresh)
  have p0: "conn_consumer ?s0 = early_consumer" "up ?s0 = [PullDemandUpdate]" "down ?s0 = []"
    "flush_in_progress (conn_producer ?s0) = False" "connected (conn_producer ?s0)" "sent (conn_producer ?s0) = []"
    by (simp_all add: after_producer_def connect_def notify_def handle_demand_update_def send_def producer_init_def)
  let ?s1 = "after_consumer (?s0\<lparr>up := []\<rparr>) ?c1"
  have s1: "conn_reach ?s1"
    by (rule conn_reach.handle [OF s0 p0(2)]) (simp only: p0(1), rule consumer_handles.intros)
  have c1: "events ?c1 = [WasReset, PullReply 2 ?d]" "pull_callback ?c1 = None" "demand ?c1 = ?d"
    "demand_update_required ?c1 = False"
  proof -
    have "\<not> returning_packet early_consumer"
      using reach_settled [of early_consumer] early_fresh by (simp add: fresh_consumer_def settled_def)
    then show "events ?c1 = [WasReset, PullReply 2 ?d]" "pull_callback ?c1 = None" "demand ?c1 = ?d"
      "demand_update_required ?c1 = False"
      by (simp_all add: pull_demand_update_def maybe_complete_pull_def early_fields)
  qed
  have d1: "down ?s1 = [PullReply 2 ?d]" "up ?s1 = []" "conn_producer ?s1 = conn_producer ?s0" "conn_consumer ?s1 = ?c1"
    using p0 c1(1) by (simp_all add: after_consumer_def early_fields)
  let ?p2 = "pull_reply (Some ?d) (conn_producer ?s1)"
  let ?s2 = "after_producer (?s1\<lparr>down := []\<rparr>) ?p2"
  have s2: "conn_reach ?s2" by (rule conn_reach.respond [OF s1 d1(1)]) (rule producer_handles.intros)
  have p2: "sent ?p2 = [PullDemandUpdate]" "flush_in_progress ?p2 = False"
    unfolding d1(3) using p0(4-6)
    by (simp_all add: pull_reply_def handle_demand_update_def update_demand_def notify_def send_def)
  have u2: "up ?s2 = [PullDemandUpdate]" "down ?s2 = []" "conn_consumer ?s2 = ?c1"
    "conn_producer ?s2 = ?p2\<lparr>sent := []\<rparr>"
    using p2(1) d1(2,4) by (simp_all add: after_producer_def)
  let ?c3 = "pull_demand_update 3 ?c1"
  let ?s3 = "after_consumer (?s2\<lparr>up := []\<rparr>) ?c3"
  have s3: "conn_reach ?s3"
    by (rule conn_reach.handle [OF s2 u2(1)]) (simp only: u2(3), rule consumer_handles.intros)
  have c3: "events ?c3 = events ?c1" "demand ?c3 = ?d"
    using c1 by (simp_all add: pull_demand_update_def [of 3] maybe_complete_pull_def)
  have "up ?s3 = []" "down ?s3 = []" "conn_producer ?s3 = ?p2\<lparr>sent := []\<rparr>" "conn_consumer ?s3 = ?c3"
    using u2 c3(1) by (simp_all add: after_consumer_def)
  moreover from this have "p_demand (conn_producer ?s3) = ?d"
    using ends_agree_on_demand [OF s3] p2(2) c3(2) by simp
  ultimately show ?thesis using s3 by blast
qed

text \<open>
  The restriction to one flush at a time is needed: with a second flush requested before the first
  completes, the completion of the first makes the producer believe a demand that the consumer
  withdraws, without telling, when it handles the second.
\<close>

lemma overlapping_flushes_disagree:
  defines "d \<equiv> \<lparr>min_packets_outstanding = 3, demand_min_pts = 0\<rparr>"
    and "c \<equiv> flush_default 12 (set_demand 3 0 (flush_default 11 (pull_demand_update 1 (consumer_bind consumer_init))))"
  shows "PullReply 1 d \<in> set (events c) \<and> demand c = no_demand \<and> \<not> demand_update_required c \<and>
    (\<exists>p1 p2. flush_consumer 11 (connect 1 producer_init) = Some p1 \<and> flush_consumer 12 p1 = Some p2 \<and>
      p_demand (flush_reply 12 (pull_reply (Some d) (flush_reply 11 p2))) = d \<and>
      \<not> flush_in_progress (flush_reply 12 (pull_reply (Some d) (flush_reply 11 p2))))"
proof (intro conjI)
  show "PullReply 1 d \<in> set (events c)" "demand c = no_demand" "\<not> demand_update_required c"
    by (simp_all add: c_def d_def flush_default_def complete_flush_def flush_def pull_demand_update_def set_demand_def
        maybe_complete_pull_def consumer_bind_def consumer_init_def consumer_reset_def emit_def no_demand_def kNoTimestamp_def Let_def)
  have "connected (connect 1 producer_init)"
    by (simp add: connect_def notify_def handle_demand_update_def send_def producer_init_def)
  then obtain p1 where p1: "flush_consumer 11 (connect 1 producer_init) = Some p1" "connected p1"
    by (simp add: flush_consumer_def update_demand_def send_def notify_def Let_def)
  then obtain p2 where p2: "flush_consumer 12 p1 = Some p2"
    by (simp add: flush_consumer_def Let_def)
  have "p_demand (flush_reply 12 (pull_reply (Some d) (flush_reply 11 p2))) = d"
    "\<not> flush_in_progress (flush_reply 12 (pull_reply (Some d) (flush_reply 11 p2)))"
    by (simp_all add: flush_reply_def pull_reply_def handle_demand_update_def update_demand_result Let_def)
  then show "\<exists>p1 p2. flush_consumer 11 (connect 1 producer_init) = Some p1 \<and> flush_consumer 12 p1 = Some p2 \<and>
      p_demand (flush_reply 12 (pull_reply (Some d) (flush_reply 11 p2))) = d \<and>
      \<not> flush_in_progress (flush_reply 12 (pull_reply (Some d) (flush_reply 11 p2)))"
    using p1(1) p2 by blast
qed

end
