(* ===== verification/Audio_Link.thy ===== *)
theory Audio_Link
  imports Packet_Consumer Audio_Mixer Timeline_Function
begin

text \<open>
  The queue of packets between an audio renderer and an audio output: \<open>AudioRendererFormatInfo\<close>
  (audio_renderer_format_info.cc), \<open>AudioPipe::AudioPacketRef\<close> (audio_pipe.h) and
  \<open>AudioRendererToOutputLink\<close> (audio_renderer_to_output_link.h, .cc).

  The renderer pushes and flushes on the message loop, the output locks and unlocks the front on its
  mixer thread. Every access to the queue happens under \<open>pending_queue_mutex_\<close>, so an operation is one
  step; \<open>flush_mutex_\<close> is held between the output's lock and its unlock, and a flush can only happen
  while it is free. \<open>link_step\<close> gives all interleavings.

  Reference counting is by value: an operation hands the references it drops to its caller, and a
  \<open>ref_address\<close> tells two references apart, as their addresses do.
\<close>

section \<open>Formats\<close>

record format_info =
  fi_format :: audio_details
  frames_per_ns :: timeline_rate
  frame_to_media_ratio :: timeline_rate
  bytes_per_frame :: u32

text \<open>An unknown sample format stops the program (\<open>FTL_CHECK\<close>).\<close>

definition mk_format_info :: "audio_details \<Rightarrow> format_info option" where
  "mk_format_info fmt = do {
     fpn \<leftarrow> mk_rate (frames_per_second fmt) 1000000000;
     ratio \<leftarrow> mk_rate (push_bit PTS_FRACTIONAL_BITS 1) 1;
     n \<leftarrow> (case sample_format fmt of
             SF_UNSIGNED_8 \<Rightarrow> Some 1
           | SF_SIGNED_16 \<Rightarrow> Some 2
           | SF_SIGNED_24_IN_32 \<Rightarrow> Some 4
           | _ \<Rightarrow> None);
     Some \<lparr>fi_format = fmt, frames_per_ns = fpn, frame_to_media_ratio = ratio,
           bytes_per_frame = n * channels fmt\<rparr>
   }"

section \<open>Packets\<close>

record audio_packet_ref =
  ref_address :: nat
  ref_supplied :: supplied_packet
  frac_frame_len :: u32
  start_pts :: int
  end_pts :: int
  frame_count :: u32

section \<open>The link\<close>

text \<open>What a \<open>StandardOutputBase\<close> keeps per link (\<open>RendererBookkeeping\<close>). The members without an
  initialiser start as 0.\<close>

record bookkeeping =
  local_time_to_renderer_subframes :: timeline_function
  output_frames_to_renderer_subframes :: timeline_function
  local_time_to_renderer_frames :: timeline_function
  output_frames_to_renderer_frames :: timeline_function
  local_time_to_renderer_subframes_gen :: u32
  out_frames_to_renderer_subframes_gen :: u32
  step_size :: u32
  amplitude_scale :: u32
  bk_mixer :: mixer

definition kInvalidGeneration :: u32 where "kInvalidGeneration = 0"

definition alloc_bookkeeping :: "mixer \<Rightarrow> bookkeeping" where
  "alloc_bookkeeping m =
     \<lparr>local_time_to_renderer_subframes = default_function,
      output_frames_to_renderer_subframes = default_function,
      local_time_to_renderer_frames = default_function,
      output_frames_to_renderer_frames = default_function,
      local_time_to_renderer_subframes_gen = 0,
      out_frames_to_renderer_subframes_gen = kInvalidGeneration,
      step_size = 0, amplitude_scale = 0, bk_mixer = m\<rparr>"

text \<open>\<open>flush_locked\<close>: the output holds \<open>flush_mutex_\<close>. The weak pointers to the renderer and the output
  are their numbers.\<close>

record audio_link =
  link_renderer :: nat
  link_output :: nat
  link_format :: format_info
  output_bookkeeping :: "bookkeeping option"
  pending_queue :: "audio_packet_ref list"
  flush_locked :: bool
  flushed :: bool
  link_valid :: bool

definition link_create :: "nat \<Rightarrow> format_info option \<Rightarrow> nat \<Rightarrow> audio_link option" where
  "link_create r fmt out = do {
     f \<leftarrow> fmt;
     Some \<lparr>link_renderer = r, link_output = out, link_format = f, output_bookkeeping = None,
           pending_queue = [], flush_locked = False, flushed = True, link_valid = True\<rparr>
   }"

definition invalidate :: "audio_link \<Rightarrow> audio_link" where
  "invalidate l = l\<lparr>link_valid := False\<rparr>"

definition pending_queue_empty :: "audio_link \<Rightarrow> bool" where
  "pending_queue_empty l \<longleftrightarrow> pending_queue l = []"

definition push_to_pending_queue :: "audio_packet_ref \<Rightarrow> audio_link \<Rightarrow> audio_link" where
  "push_to_pending_queue pkt l = l\<lparr>pending_queue := pending_queue l @ [pkt]\<rparr>"

text \<open>The swapped-out queue is released front to back (\<open>ReleaseQueue\<close>).\<close>

definition flush_pending_queue :: "audio_link \<Rightarrow> audio_packet_ref list \<times> audio_link" where
  "flush_pending_queue l = (pending_queue l, l\<lparr>pending_queue := [], flushed := True\<rparr>)"

definition init_pending_queue :: "audio_link \<Rightarrow> audio_link \<Rightarrow> audio_link option" where
  "init_pending_queue source l =
     (if pending_queue source = [] then Some l
      else do {
        dcheck (pending_queue l = []);
        Some (l\<lparr>pending_queue := pending_queue source\<rparr>)
      })"

definition lock_pending_queue_front :: "audio_link \<Rightarrow> audio_packet_ref option \<times> bool \<times> audio_link" where
  "lock_pending_queue_front l =
     (case pending_queue l of [] \<Rightarrow> None | p # _ \<Rightarrow> Some p,
      flushed l, l\<lparr>flush_locked := True, flushed := False\<rparr>)"

text \<open>The result has the reference that left the queue, if any.\<close>

definition unlock_pending_queue_front ::
    "audio_packet_ref option \<Rightarrow> bool \<Rightarrow> audio_link \<Rightarrow> (audio_packet_ref option \<times> audio_link) option" where
  "unlock_pending_queue_front pkt release_packet l = do {
     dcheck (pkt = None \<or> pending_queue l \<noteq> [] \<and> pkt = Some (hd (pending_queue l)));
     let (out, q) = (if pkt \<noteq> None \<and> release_packet then (pkt, tl (pending_queue l))
                     else (None, pending_queue l));
     Some (out, l\<lparr>pending_queue := q, flush_locked := False\<rparr>)
   }"

section \<open>Interleavings of the renderer and the output\<close>

text \<open>\<open>lw_held\<close>: what the output has locked. The other fields record what happened: the packets pushed,
  the references given back in order, and whether the queue was flushed since the output last
  looked.\<close>

record link_world =
  lw_link :: audio_link
  lw_held :: "audio_packet_ref option option"
  lw_pushed :: "audio_packet_ref list"
  lw_given_back :: "audio_packet_ref list"
  lw_flush_unseen :: bool

datatype link_action = Push audio_packet_ref | Flush | Lock | Unlock bool

text \<open>\<^term>\<open>None\<close> is a failed check. An action that would wait for a mutex leaves the world as it is.\<close>

fun link_act :: "link_action \<Rightarrow> link_world \<Rightarrow> link_world option" where
  "link_act (Push p) w = Some (w\<lparr>lw_link := push_to_pending_queue p (lw_link w), lw_pushed := lw_pushed w @ [p]\<rparr>)"
| "link_act Flush w =
     (if flush_locked (lw_link w) then Some w
      else let (ps, l) = flush_pending_queue (lw_link w)
           in Some (w\<lparr>lw_link := l, lw_given_back := lw_given_back w @ ps, lw_flush_unseen := True\<rparr>))"
| "link_act Lock w =
     (if flush_locked (lw_link w) then Some w
      else let (pkt, was_flushed, l) = lock_pending_queue_front (lw_link w)
           in do { dcheck (was_flushed = lw_flush_unseen w);
                   Some (w\<lparr>lw_link := l, lw_held := Some pkt, lw_flush_unseen := False\<rparr>) })"
| "link_act (Unlock release_packet) w =
     (case lw_held w of
        None \<Rightarrow> Some w
      | Some pkt \<Rightarrow> do {
          (out, l) \<leftarrow> unlock_pending_queue_front pkt release_packet (lw_link w);
          Some (w\<lparr>lw_link := l, lw_held := None,
                  lw_given_back := lw_given_back w @ (case out of None \<Rightarrow> [] | Some p \<Rightarrow> [p])\<rparr>)
        })"

fun link_run :: "link_action list \<Rightarrow> link_world \<Rightarrow> link_world option" where
  "link_run [] w = Some w"
| "link_run (a # as) w = do { w' \<leftarrow> link_act a w; link_run as w' }"

definition link_world_init :: "audio_link \<Rightarrow> link_world" where
  "link_world_init l = \<lparr>lw_link = l, lw_held = None, lw_pushed = [], lw_given_back = [], lw_flush_unseen = True\<rparr>"

definition link_world_ok :: "link_world \<Rightarrow> bool" where
  "link_world_ok w \<longleftrightarrow>
     lw_given_back w @ pending_queue (lw_link w) = lw_pushed w \<and>
     flushed (lw_link w) = lw_flush_unseen w \<and>
     flush_locked (lw_link w) = (lw_held w \<noteq> None) \<and>
     (\<forall>p. lw_held w = Some (Some p) \<longrightarrow> pending_queue (lw_link w) \<noteq> [] \<and> hd (pending_queue (lw_link w)) = p)"

lemma link_act_ok:
  assumes "link_world_ok w"
  shows "\<exists>w'. link_act a w = Some w' \<and> link_world_ok w'"
proof (cases a)
  case (Unlock rel)
  then show ?thesis
    using assms by (cases "lw_held w"; cases "the (lw_held w)"; cases "pending_queue (lw_link w)")
      (auto simp: link_world_ok_def unlock_pending_queue_front_def Let_def)
qed (use assms in \<open>auto simp: link_world_ok_def push_to_pending_queue_def flush_pending_queue_def
       lock_pending_queue_front_def Let_def split: list.splits\<close>)

lemma link_run_ok: "link_world_ok w \<Longrightarrow> \<exists>w'. link_run as w = Some w' \<and> link_world_ok w'"
proof (induction as arbitrary: w)
  case (Cons a as)
  then show ?case using link_act_ok [of w a] by fastforce
qed simp

text \<open>
  C9. For every interleaving of the renderer's pushes and flushes with the output's locks and unlocks, no
  check of the link fails; the output hears of a flush exactly once, at its next lock; a packet it
  holds stays at the front; and the packets given back, followed by those still queued, are the
  packets pushed, in order. The comment in audio_renderer_to_output_link.h promises this order.
\<close>
theorem link_gives_packets_back_in_order:
  assumes "link_create r (Some f) out = Some l"
  shows "\<exists>w. link_run as (link_world_init l) = Some w \<and>
    lw_given_back w @ pending_queue (lw_link w) = lw_pushed w \<and>
    (\<forall>p. lw_held w = Some (Some p) \<longrightarrow> pending_queue (lw_link w) = p # tl (pending_queue (lw_link w)))"
proof -
  have "link_world_ok (link_world_init l)"
    using assms by (auto simp: link_world_ok_def link_world_init_def link_create_def)
  from link_run_ok [OF this] show ?thesis by (force simp: link_world_ok_def)
qed

end
