(* ===== verification/Audio_Renderer.thy ===== *)
theory Audio_Renderer
  imports Audio_Link Timeline_Control_Point "HOL-Library.Sublist"
begin

text \<open>
  The audio renderer and its pipe: \<open>AudioPipe\<close> (audio_pipe.h, .cc), \<open>AudioRendererImpl\<close>
  (audio_renderer_impl.h, .cc) and the packet clean-up of \<open>AudioServerImpl\<close>
  (audio_server_impl.h, .cc).

  Links are shared between a renderer and an output, so they live in a store (\<open>link_at\<close>) and are named
  by numbers; renderers and outputs too. The sets of links are lists without duplicates: the code
  orders them by address. A packet reference is dropped with \<open>drop_refs\<close>: it dies when no queue of the
  store holds it, and its packet goes to the clean-up queue. Gains are floating-point numbers and are
  left out.
\<close>

section \<open>State\<close>

text \<open>\<open>pipe_base\<close> is the base class \<open>MediaPacketConsumerBase\<close>. \<open>next_pts\<close> and \<open>prime_pts\<close> have no
  initialiser.\<close>

record audio_pipe =
  pipe_base :: consumer
  prime_callback :: "nat option"
  prime_pts :: int
  next_pts_known :: bool
  next_pts :: int

record audio_renderer =
  pipe :: audio_pipe
  timeline_control_point :: control_point
  renderer_format :: "format_info option"
  output_links :: "nat list"
  throttle_output_link :: "nat option"
  is_shutdown :: bool

text \<open>\<open>o_format\<close> is the format of \<open>output_formatter_\<close>.\<close>

record audio_output =
  o_links :: "nat list"
  o_format :: "audio_details option"
  plugged :: bool
  plug_time :: u64
  shutting_down :: bool
  shut_down :: bool

datatype audio_event = PrimeComplete nat nat | PostCleanup | PostFinishShutdown nat

datatype routing_policy = ALL_PLUGGED_OUTPUTS | LAST_PLUGGED_OUTPUT

text \<open>The server, with the output manager it contains. \<open>received\<close> records the references the
  renderers were given, \<open>cleaned_up\<close> the packets the clean-up has returned.\<close>

record audio_server =
  link_at :: "nat \<Rightarrow> audio_link"
  link_count :: nat
  ref_count :: nat
  renderer_count :: nat
  renderer_at :: "nat \<Rightarrow> audio_renderer"
  output_at :: "nat \<Rightarrow> audio_output"
  renderers :: "nat list"
  outputs :: "nat list"
  throttle_output :: nat
  policy :: routing_policy
  cleanup_queue :: "(nat \<times> supplied_packet) list"
  cleanup_scheduled :: bool
  server_shutting_down :: bool
  received :: "(nat \<times> audio_packet_ref) list"
  cleaned_up :: "(nat \<times> supplied_packet) list"
  server_events :: "audio_event list"

definition server_emit :: "audio_event \<Rightarrow> audio_server \<Rightarrow> audio_server" where
  "server_emit e st = st\<lparr>server_events := server_events st @ [e]\<rparr>"

definition upd_link :: "nat \<Rightarrow> (audio_link \<Rightarrow> audio_link) \<Rightarrow> audio_server \<Rightarrow> audio_server" where
  "upd_link i f st = st\<lparr>link_at := (link_at st)(i := f (link_at st i))\<rparr>"

definition upd_renderer :: "nat \<Rightarrow> (audio_renderer \<Rightarrow> audio_renderer) \<Rightarrow> audio_server \<Rightarrow> audio_server" where
  "upd_renderer r f st = st\<lparr>renderer_at := (renderer_at st)(r := f (renderer_at st r))\<rparr>"

definition upd_pipe :: "nat \<Rightarrow> (audio_pipe \<Rightarrow> audio_pipe) \<Rightarrow> audio_server \<Rightarrow> audio_server" where
  "upd_pipe r f = upd_renderer r (\<lambda>x. x\<lparr>pipe := f (pipe x)\<rparr>)"

definition upd_base :: "nat \<Rightarrow> (consumer \<Rightarrow> consumer) \<Rightarrow> audio_server \<Rightarrow> audio_server" where
  "upd_base r f = upd_pipe r (\<lambda>p. p\<lparr>pipe_base := f (pipe_base p)\<rparr>)"

section \<open>Returning packets\<close>

text \<open>The destructor of an \<open>AudioPacketRef\<close> calls this.\<close>

definition schedule_packet_cleanup :: "nat \<times> supplied_packet \<Rightarrow> audio_server \<Rightarrow> audio_server" where
  "schedule_packet_cleanup x st =
     (let st = st\<lparr>cleanup_queue := cleanup_queue st @ [x]\<rparr>
      in if \<not> cleanup_scheduled st \<and> \<not> server_shutting_down st
         then (server_emit PostCleanup st)\<lparr>cleanup_scheduled := True\<rparr> else st)"

text \<open>Dropping a \<open>SuppliedPacket\<close> returns it. \<open>AudioPipe\<close> does not override \<open>OnPacketReturning\<close>.\<close>

definition drop_supplied :: "nat \<times> supplied_packet \<Rightarrow> audio_server \<Rightarrow> audio_server" where
  "drop_supplied x = upd_base (fst x) (return_packet [] (snd x))"

definition do_packet_cleanup :: "audio_server \<Rightarrow> audio_server" where
  "do_packet_cleanup st =
     (let tmp_queue = cleanup_queue st;
          st = st\<lparr>cleanup_queue := [], cleanup_scheduled := False, cleaned_up := cleaned_up st @ tmp_queue\<rparr>
      in fold drop_supplied tmp_queue st)"

definition referenced :: "audio_server \<Rightarrow> audio_packet_ref \<Rightarrow> bool" where
  "referenced st p \<longleftrightarrow> list_ex (\<lambda>i. p \<in> set (pending_queue (link_at st i))) [0..<link_count st]"

definition drop_refs :: "nat \<Rightarrow> audio_packet_ref list \<Rightarrow> audio_server \<Rightarrow> audio_server" where
  "drop_refs r ps st =
     fold (\<lambda>p. schedule_packet_cleanup (r, ref_supplied p)) (filter (\<lambda>p. \<not> referenced st p) ps) st"

text \<open>The last strong pointer to a link goes: its destructor releases the queue.\<close>

definition destroy_link :: "nat \<Rightarrow> audio_server \<Rightarrow> audio_server" where
  "destroy_link i st =
     drop_refs (link_renderer (link_at st i)) (pending_queue (link_at st i))
       (upd_link i (\<lambda>l. l\<lparr>pending_queue := []\<rparr>) st)"

section \<open>Packets arriving at the renderer\<close>

definition on_packet_received :: "nat \<Rightarrow> audio_packet_ref \<Rightarrow> audio_server \<Rightarrow> audio_server option" where
  "on_packet_received r packet st = do {
     f \<leftarrow> renderer_format (renderer_at st r);
     let st = st\<lparr>received := received st @ [(r, packet)]\<rparr>;
     let st1 = (case throttle_output_link (renderer_at st r) of
                  None \<Rightarrow> st | Some i \<Rightarrow> upd_link i (push_to_pending_queue packet) st);
     let st2 = fold (\<lambda>i. upd_link i (push_to_pending_queue packet)) (output_links (renderer_at st r)) st1;
     let pk = sp_packet (ref_supplied packet);
     st3 \<leftarrow> (if end_of_stream pk then do {
               dcheck (pts_rate_ticks pk = frames_per_second (fi_format f));
               dcheck (pts_rate_seconds pk = 1);
               end_frame \<leftarrow> i64_add (pts pk) (uint (frame_count packet));
               eos \<leftarrow> int64_divide_rate end_frame (frames_per_ns f);
               Some (upd_renderer r (\<lambda>x. x\<lparr>timeline_control_point :=
                       set_end_of_stream_pts eos (timeline_control_point x)\<rparr>) st2)
             } else Some st2);
     Some (drop_refs r [packet] st3)
   }"

definition kDemandMinPacketsOutstanding :: u32 where "kDemandMinPacketsOutstanding = 4"

definition kMaxFrames :: u32 where "kMaxFrames = drop_bit PTS_FRACTIONAL_BITS 0xffffffff"

text \<open>Refusing a packet: the pipe is reset and the packet, a \<open>unique_ptr\<close>, dropped on the way out.\<close>

definition refuse_packet :: "nat \<Rightarrow> supplied_packet \<Rightarrow> audio_server \<Rightarrow> audio_server" where
  "refuse_packet r supplied st = drop_supplied (r, supplied) (upd_base r consumer_reset st)"

definition packet_start :: "format_info \<Rightarrow> audio_pipe \<Rightarrow> media_packet \<Rightarrow> int option" where
  "packet_start f p pk =
     (if pts pk \<noteq> kNoTimestamp then rate_scale (frame_to_media_ratio f) (pts pk)
      else Some (if next_pts_known p then next_pts p else 0))"

definition supplied_packets_outstanding :: "consumer \<Rightarrow> u32" where
  "supplied_packets_outstanding c = counter_outstanding (counters c ! current c)"

definition keep_packet :: "nat \<Rightarrow> supplied_packet \<Rightarrow> u32 \<Rightarrow> int \<Rightarrow> int \<Rightarrow> audio_server \<Rightarrow> audio_server option" where
  "keep_packet r supplied frames start next st =
     on_packet_received r
       \<lparr>ref_address = ref_count st, ref_supplied = supplied,
        frac_frame_len = push_bit PTS_FRACTIONAL_BITS frames, start_pts = start, end_pts = next,
        frame_count = frames\<rparr>
       (st\<lparr>ref_count := ref_count st + 1\<rparr>)"

definition maybe_complete_prime :: "nat \<Rightarrow> bool \<Rightarrow> audio_server \<Rightarrow> audio_server" where
  "maybe_complete_prime r eos st =
     (case prime_callback (pipe (renderer_at st r)) of
        None \<Rightarrow> st
      | Some cb \<Rightarrow>
          if eos \<or> supplied_packets_outstanding (pipe_base (pipe (renderer_at st r))) \<ge> kDemandMinPacketsOutstanding
          then upd_pipe r (\<lambda>p. p\<lparr>prime_callback := None\<rparr>) (server_emit (PrimeComplete r cb) st)
          else st)"

definition on_packet_supplied :: "nat \<Rightarrow> supplied_packet \<Rightarrow> audio_server \<Rightarrow> audio_server option" where
  "on_packet_supplied r supplied st =
     (case renderer_format (renderer_at st r) of
        None \<Rightarrow> Some (refuse_packet r supplied st)
      | Some f \<Rightarrow> do {
          let pk = sp_packet supplied;
          dcheck (pts_rate_ticks pk = frames_per_second (fi_format f));
          dcheck (pts_rate_seconds pk = 1);
          let frame_size = unat (bytes_per_frame f);
          (if frame_size > 1 \<and> payload_size pk mod frame_size \<noteq> 0 then Some (refuse_packet r supplied st)
           else do {
             dcheck (frame_size \<noteq> 0);
             let frames = (of_nat (payload_size pk div frame_size) :: u32);
             (if frames > kMaxFrames then Some (refuse_packet r supplied st)
              else do {
                start \<leftarrow> packet_start f (pipe (renderer_at st r)) pk;
                next \<leftarrow> i64_add start (uint frames * 2 ^ PTS_FRACTIONAL_BITS);
                let st1 = upd_pipe r (\<lambda>p. p\<lparr>next_pts := next, next_pts_known := True\<rparr>) st;
                let p = pipe (renderer_at st1 r);
                let keep = (prime_callback p = None \<or> next > prime_pts p);
                st2 \<leftarrow> (if keep then keep_packet r supplied frames start next st1 else Some st1);
                let st3 = maybe_complete_prime r (end_of_stream pk) st2;
                Some (if keep then st3 else drop_supplied (r, supplied) st3)
              })
           })
        })"

text \<open>The base class delivers an accepted packet to \<open>OnPacketSupplied\<close>; its model records the delivery as
  the last event.\<close>

definition pipe_supply_packet :: "nat \<Rightarrow> media_packet \<Rightarrow> nat \<Rightarrow> audio_server \<Rightarrow> audio_server option" where
  "pipe_supply_packet r pk cb st = do {
     c \<leftarrow> supply_packet pk cb (pipe_base (pipe (renderer_at st r)));
     let st1 = upd_base r (\<lambda>_. c) st;
     (case last (events c) of
        PacketSupplied supplied \<Rightarrow> on_packet_supplied r supplied st1
      | _ \<Rightarrow> Some st1)
   }"

section \<open>Priming and flushing\<close>

definition prime_requested :: "nat \<Rightarrow> int \<Rightarrow> nat \<Rightarrow> audio_server \<Rightarrow> audio_server option" where
  "prime_requested r p cb st =
     (let st = (case prime_callback (pipe (renderer_at st r)) of
                  None \<Rightarrow> st | Some old \<Rightarrow> server_emit (PrimeComplete r old) st)
      in if \<not> bound (pipe_base (pipe (renderer_at st r))) then Some (server_emit (PrimeComplete r cb) st)
         else do {
           f \<leftarrow> renderer_format (renderer_at st r);
           t \<leftarrow> rate_product (frame_to_media_ratio f) (frames_per_ns f) True;
           q \<leftarrow> rate_scale t p;
           Some (upd_base r (set_demand kDemandMinPacketsOutstanding kNoTimestamp)
             (upd_pipe r (\<lambda>x. x\<lparr>prime_callback := Some cb, prime_pts := q\<rparr>) st))
         })"

definition flush_link :: "nat \<Rightarrow> audio_server \<Rightarrow> audio_server" where
  "flush_link i st =
     drop_refs (link_renderer (link_at st i)) (fst (flush_pending_queue (link_at st i)))
       (upd_link i (\<lambda>l. snd (flush_pending_queue l)) st)"

definition renderer_flush_requested :: "nat \<Rightarrow> audio_server \<Rightarrow> audio_server" where
  "renderer_flush_requested r st =
     (let st = (case throttle_output_link (renderer_at st r) of None \<Rightarrow> st | Some i \<Rightarrow> flush_link i st)
      in fold flush_link (output_links (renderer_at st r)) st)"

text \<open>\<open>MediaPacketConsumerBase::Flush\<close> calls \<open>OnFlushRequested\<close>, which completes the flush.\<close>

definition pipe_flush :: "nat \<Rightarrow> nat \<Rightarrow> audio_server \<Rightarrow> audio_server" where
  "pipe_flush r cb st =
     (let st = upd_base r (flush cb) st;
          st = upd_pipe r (\<lambda>p. p\<lparr>next_pts_known := False\<rparr>) st;
          st = renderer_flush_requested r st
      in upd_base r (complete_flush cb) st)"

section \<open>The links of a renderer\<close>

definition renderer_add_output :: "nat \<Rightarrow> nat \<Rightarrow> audio_server \<Rightarrow> audio_server option" where
  "renderer_add_output r i st = do {
     dcheck (link_valid (link_at st i));
     dcheck (i \<notin> set (output_links (renderer_at st r)));
     let st1 = upd_renderer r (\<lambda>x. x\<lparr>output_links := output_links x @ [i]\<rparr>) st;
     (case throttle_output_link (renderer_at st1 r) of
        None \<Rightarrow> Some st1
      | Some t \<Rightarrow> do {
          dcheck (i \<noteq> t);
          l \<leftarrow> init_pending_queue (link_at st1 t) (link_at st1 i);
          Some (upd_link i (\<lambda>_. l) st1)
        })
   }"

definition renderer_remove_output :: "nat \<Rightarrow> nat \<Rightarrow> audio_server \<Rightarrow> audio_server option" where
  "renderer_remove_output r i st =
     (let st = upd_link i invalidate st
      in if throttle_output_link (renderer_at st r) = Some i
         then Some (upd_renderer r (\<lambda>x. x\<lparr>throttle_output_link := None\<rparr>) st)
         else do {
           dcheck (i \<in> set (output_links (renderer_at st r)));
           Some (upd_renderer r (\<lambda>x. x\<lparr>output_links := remove1 i (output_links x)\<rparr>) st)
         })"

definition renderer_remove_all_outputs :: "nat \<Rightarrow> audio_server \<Rightarrow> audio_server" where
  "renderer_remove_all_outputs r st =
     (let st = (case throttle_output_link (renderer_at st r) of
                  None \<Rightarrow> st
                | Some i \<Rightarrow> upd_renderer r (\<lambda>x. x\<lparr>throttle_output_link := None\<rparr>) (upd_link i invalidate st));
          st = fold (\<lambda>i. upd_link i invalidate) (output_links (renderer_at st r)) st
      in upd_renderer r (\<lambda>x. x\<lparr>output_links := []\<rparr>) st)"

definition renderer_set_throttle_output :: "nat \<Rightarrow> nat \<Rightarrow> audio_server \<Rightarrow> audio_server option" where
  "renderer_set_throttle_output r i st = do {
     dcheck (throttle_output_link (renderer_at st r) = None);
     Some (upd_renderer r (\<lambda>x. x\<lparr>throttle_output_link := Some i\<rparr>) st)
   }"

section \<open>Packets are returned in order\<close>

lemma upd_link_simps [simp]:
  "link_at (upd_link i f st) = (link_at st)(i := f (link_at st i))"
  "link_count (upd_link i f st) = link_count st" "ref_count (upd_link i f st) = ref_count st" "renderer_count (upd_link i f st) = renderer_count st"
  "renderer_at (upd_link i f st) = renderer_at st" "output_at (upd_link i f st) = output_at st"
  "cleanup_queue (upd_link i f st) = cleanup_queue st" "cleaned_up (upd_link i f st) = cleaned_up st"
  "renderers (upd_link i f st) = renderers st" "outputs (upd_link i f st) = outputs st"
  "throttle_output (upd_link i f st) = throttle_output st" "received (upd_link i f st) = received st" "policy (upd_link i f st) = policy st"
  by (simp_all add: upd_link_def)

lemma upd_renderer_simps [simp]:
  "link_at (upd_renderer r g st) = link_at st"
  "link_count (upd_renderer r g st) = link_count st" "ref_count (upd_renderer r g st) = ref_count st" "renderer_count (upd_renderer r g st) = renderer_count st"
  "renderer_at (upd_renderer r g st) = (renderer_at st)(r := g (renderer_at st r))"
  "output_at (upd_renderer r g st) = output_at st"
  "cleanup_queue (upd_renderer r g st) = cleanup_queue st" "cleaned_up (upd_renderer r g st) = cleaned_up st"
  "renderers (upd_renderer r g st) = renderers st" "outputs (upd_renderer r g st) = outputs st"
  "throttle_output (upd_renderer r g st) = throttle_output st" "received (upd_renderer r g st) = received st" "policy (upd_renderer r g st) = policy st"
  by (simp_all add: upd_renderer_def)

text \<open>The packets of one renderer that have been given back, and the longest queue that still holds some.\<close>

definition returned :: "audio_server \<Rightarrow> nat \<Rightarrow> supplied_packet list" where
  "returned st r = map snd (filter (\<lambda>x. fst x = r) (cleaned_up st @ cleanup_queue st))"

definition owns :: "audio_server \<Rightarrow> nat \<Rightarrow> nat \<Rightarrow> bool" where
  "owns st r i \<longleftrightarrow> i < link_count st \<and> link_renderer (link_at st i) = r"

definition held :: "audio_server \<Rightarrow> nat \<Rightarrow> nat" where
  "held st r = Max (insert 0 ((\<lambda>i. length (pending_queue (link_at st i))) ` {i. owns st r i}))"

lemma held_code [code]:
  "held st r = fold max (map (\<lambda>i. length (pending_queue (link_at st i))) (filter (owns st r) [0..<link_count st])) 0"
proof -
  have "(\<lambda>i. length (pending_queue (link_at st i))) ` {i. owns st r i} =
    set (map (\<lambda>i. length (pending_queue (link_at st i))) (filter (owns st r) [0..<link_count st]))"
    by (auto simp: owns_def)
  then show ?thesis by (simp add: held_def del: set_map flip: list.set(2) Max.set_eq_fold)
qed

text \<open>\<open>h r\<close>: the references the renderer \<open>r\<close> has received. Every queue is an end of this sequence, and what
  lies before the longest of them has been returned.\<close>

definition suffixes_ok :: "(nat \<Rightarrow> audio_packet_ref list) \<Rightarrow> audio_server \<Rightarrow> bool" where
  "suffixes_ok h st \<longleftrightarrow>
     (\<forall>i < link_count st. suffix (pending_queue (link_at st i)) (h (link_renderer (link_at st i)))) \<and>
     (\<forall>r. distinct (h r) \<and> (\<forall>p \<in> set (h r). ref_address p < ref_count st)) \<and>
     (\<forall>r r'. r \<noteq> r' \<longrightarrow> set (h r) \<inter> set (h r') = {})"

definition returned_ok :: "(nat \<Rightarrow> audio_packet_ref list) \<Rightarrow> audio_server \<Rightarrow> bool" where
  "returned_ok h st \<longleftrightarrow> (\<forall>r. returned st r = map ref_supplied (take (length (h r) - held st r) (h r)))"

definition queues_ok :: "(nat \<Rightarrow> audio_packet_ref list) \<Rightarrow> audio_server \<Rightarrow> bool" where
  "queues_ok h st \<longleftrightarrow> suffixes_ok h st \<and> returned_ok h st"

lemma finite_owned [simp]: "finite {i. owns st r i}"
  by (rule finite_subset [of _ "{..<link_count st}"]) (auto simp: owns_def)

lemma held_ge: "owns st r i \<Longrightarrow> length (pending_queue (link_at st i)) \<le> held st r"
  by (auto simp: held_def intro!: Max_ge)

lemma held_cases: "held st r = 0 \<or> (\<exists>i. owns st r i \<and> held st r = length (pending_queue (link_at st i)))"
proof -
  have "held st r \<in> insert 0 ((\<lambda>i. length (pending_queue (link_at st i))) ` {i. owns st r i})"
    unfolding held_def by (intro Max_in) auto
  then show ?thesis by auto
qed

lemma held_le: "suffixes_ok h st \<Longrightarrow> held st r \<le> length (h r)"
  using held_cases [of st r] by (auto simp: suffixes_ok_def owns_def intro!: suffix_length_le)

lemma held_cong:
  assumes "\<And>i. owns st' r i = owns st r i"
    "\<And>i. owns st r i \<Longrightarrow> pending_queue (link_at st' i) = pending_queue (link_at st i)"
  shows "held st' r = held st r"
proof -
  have "(\<lambda>i. length (pending_queue (link_at st' i))) ` {i. owns st' r i} =
    (\<lambda>i. length (pending_queue (link_at st i))) ` {i. owns st r i}"
    using assms by (auto simp: image_def)
  then show ?thesis by (simp add: held_def)
qed

lemma schedule_simps [simp]:
  "link_at (schedule_packet_cleanup x st) = link_at st" "link_count (schedule_packet_cleanup x st) = link_count st"
  "ref_count (schedule_packet_cleanup x st) = ref_count st" "renderer_count (schedule_packet_cleanup x st) = renderer_count st" "renderer_at (schedule_packet_cleanup x st) = renderer_at st"
  "output_at (schedule_packet_cleanup x st) = output_at st"
  "cleanup_queue (schedule_packet_cleanup x st) = cleanup_queue st @ [x]"
  "cleaned_up (schedule_packet_cleanup x st) = cleaned_up st"
  "renderers (schedule_packet_cleanup x st) = renderers st" "outputs (schedule_packet_cleanup x st) = outputs st"
  "throttle_output (schedule_packet_cleanup x st) = throttle_output st" "received (schedule_packet_cleanup x st) = received st" "policy (schedule_packet_cleanup x st) = policy st"
  by (simp_all add: schedule_packet_cleanup_def server_emit_def Let_def)

lemma schedule_all_simps:
  defines "go \<equiv> \<lambda>r ps st. fold (\<lambda>p. schedule_packet_cleanup (r, ref_supplied p)) ps st"
  fixes st :: audio_server and ps :: "audio_packet_ref list" and r :: nat
  shows
  "link_at (go r ps st) = link_at st \<and> link_count (go r ps st) = link_count st \<and>
   ref_count (go r ps st) = ref_count st \<and> renderer_count (go r ps st) = renderer_count st \<and> renderer_at (go r ps st) = renderer_at st \<and>
   output_at (go r ps st) = output_at st \<and>
   cleanup_queue (go r ps st) = cleanup_queue st @ map (\<lambda>p. (r, ref_supplied p)) ps \<and>
   cleaned_up (go r ps st) = cleaned_up st \<and> renderers (go r ps st) = renderers st \<and>
   outputs (go r ps st) = outputs st \<and> throttle_output (go r ps st) = throttle_output st \<and> received (go r ps st) = received st \<and>
   policy (go r ps st) = policy st"
  unfolding go_def by (induction ps arbitrary: st) auto

lemma drop_refs_simps [simp]:
  "link_at (drop_refs r ps st) = link_at st" "link_count (drop_refs r ps st) = link_count st"
  "ref_count (drop_refs r ps st) = ref_count st" "renderer_count (drop_refs r ps st) = renderer_count st" "renderer_at (drop_refs r ps st) = renderer_at st"
  "output_at (drop_refs r ps st) = output_at st" "cleaned_up (drop_refs r ps st) = cleaned_up st"
  "cleanup_queue (drop_refs r ps st) = cleanup_queue st @
     map (\<lambda>p. (r, ref_supplied p)) (filter (\<lambda>p. \<not> referenced st p) ps)"
  "renderers (drop_refs r ps st) = renderers st" "outputs (drop_refs r ps st) = outputs st"
  "throttle_output (drop_refs r ps st) = throttle_output st" "received (drop_refs r ps st) = received st" "policy (drop_refs r ps st) = policy st"
  by (simp_all add: drop_refs_def schedule_all_simps)

lemma returned_drop_refs:
  "returned (drop_refs r ps st) r' =
     returned st r' @ (if r' = r then map ref_supplied (filter (\<lambda>p. \<not> referenced st p) ps) else [])"
proof -
  have "map snd (filter (\<lambda>x. fst x = r') (map (\<lambda>p. (r, ref_supplied p)) xs)) =
    (if r' = r then map ref_supplied xs else [])" for xs :: "audio_packet_ref list"
    by (induction xs) auto
  then show ?thesis by (simp add: returned_def)
qed

lemma owns_drop_refs [simp]: "owns (drop_refs r ps st) = owns st" "held (drop_refs r ps st) = held st"
  by (simp_all add: owns_def held_def fun_eq_iff)

text \<open>Which references a state still holds.\<close>

lemma suffix_mem_iff:
  assumes "distinct h" "suffix q h" "k < length h"
  shows "h ! k \<in> set q \<longleftrightarrow> length h - length q \<le> k"
proof -
  obtain a where a: "h = a @ q" using assms(2) by (auto simp: suffix_def)
  show ?thesis
  proof (cases "k < length a")
    case True
    then have "h ! k \<in> set a" using a by (simp add: nth_append)
    then show ?thesis using True a assms(1) by auto
  next
    case False
    then show ?thesis using a assms(3) by (auto simp: nth_append)
  qed
qed

lemma referenced_iff:
  assumes "suffixes_ok h st" "k < length (h r)"
  shows "referenced st (h r ! k) \<longleftrightarrow> length (h r) - held st r \<le> k"
proof
  assume "referenced st (h r ! k)"
  then obtain i where i: "i < link_count st" "h r ! k \<in> set (pending_queue (link_at st i))"
    by (auto simp: referenced_def list_ex_iff)
  let ?r = "link_renderer (link_at st i)"
  have s: "suffix (pending_queue (link_at st i)) (h ?r)" using assms(1) i(1) by (simp add: suffixes_ok_def)
  then have "h r ! k \<in> set (h ?r)" using i(2) by (auto simp: suffix_def)
  moreover have "h r ! k \<in> set (h r)" using assms(2) by simp
  ultimately have r: "?r = r" using assms(1) unfolding suffixes_ok_def by blast
  have "length (h r) - length (pending_queue (link_at st i)) \<le> k"
    using suffix_mem_iff [of "h r" _ k] s i(2) assms r by (auto simp: suffixes_ok_def)
  moreover have "length (pending_queue (link_at st i)) \<le> held st r"
    using i(1) r by (intro held_ge) (simp add: owns_def)
  ultimately show "length (h r) - held st r \<le> k" by simp
next
  assume k: "length (h r) - held st r \<le> k"
  then have "held st r \<noteq> 0" using assms(2) by (intro notI) simp
  then obtain i where i: "owns st r i" "held st r = length (pending_queue (link_at st i))"
    using held_cases [of st r] by auto
  then have "suffix (pending_queue (link_at st i)) (h r)" using assms(1) by (auto simp: suffixes_ok_def owns_def)
  then have "h r ! k \<in> set (pending_queue (link_at st i))"
    using suffix_mem_iff [of "h r" "pending_queue (link_at st i)" k] k i(2) assms by (simp add: suffixes_ok_def)
  then show "referenced st (h r ! k)" using i(1) by (auto simp: referenced_def list_ex_iff owns_def)
qed

lemma filter_nth_slice:
  assumes "h = a @ ps @ q" "K \<le> length a + length ps"
    and "\<And>k. k < length h \<Longrightarrow> P (h ! k) \<longleftrightarrow> k < K"
  shows "filter P ps = drop (length a) (take K h)"
  using assms
proof (induction ps arbitrary: a)
  case Nil
  then show ?case by simp
next
  case (Cons p ps)
  have p: "h ! length a = p" "length a < length h" using Cons.prems(1) by simp_all
  have IH: "filter P ps = drop (Suc (length a)) (take K h)"
    using Cons.IH [of "a @ [p]"] Cons.prems by simp
  show ?case
  proof (cases "length a < K")
    case True
    then have "drop (length a) (take K h) = p # drop (Suc (length a)) (take K h)"
      using p by (metis Cons_nth_drop_Suc length_take min_less_iff_conj nth_take)
    then show ?thesis using Cons.prems(3) [OF p(2)] p(1) True IH by simp
  qed (use Cons.prems(3) [OF p(2)] p(1) IH in simp)
qed

text \<open>A link gives up the front part \<open>ps\<close> of its queue: popping a packet, flushing, and destroying the
  link are instances.\<close>

lemma drop_front_ok:
  assumes "queues_ok h st" "i < link_count st" "pending_queue (link_at st i) = ps @ q"
    and "pending_queue l = q" "link_renderer l = link_renderer (link_at st i)"
  shows "queues_ok h (drop_refs (link_renderer l) ps (upd_link i (\<lambda>_. l) st))"
proof -
  let ?st = "upd_link i (\<lambda>_. l) st" and ?r = "link_renderer l"
  note ok = assms(1) [unfolded queues_ok_def]
  have suf: "suffix (ps @ q) (h ?r)" using ok assms(2,3,5) unfolding suffixes_ok_def by metis
  then obtain a where a: "h ?r = a @ ps @ q" by (auto simp: suffix_def)
  have suf': "suffix q (h ?r)" using a by (simp add: suffix_def flip: append_assoc)
  have st: "suffixes_ok h ?st" using ok assms(4,5) suf' by (simp add: suffixes_ok_def)
  have owns: "owns ?st = owns st" using assms(5) by (auto simp: owns_def fun_eq_iff)
  have o: "owns st ?r i" using assms(2,5) by (simp add: owns_def)
  have heldq: "length q \<le> held ?st ?r" using held_ge [of ?st ?r i] o owns assms(4) by simp
  have ap: "length ps + length q \<le> held st ?r" using held_ge [OF o] assms(3) by simp
  define K where "K = length (h ?r) - held ?st ?r"
  have out: "filter (\<lambda>p. \<not> referenced ?st p) ps = drop (length a) (take K (h ?r))"
  proof (rule filter_nth_slice [OF a])
    show "K \<le> length a + length ps" using heldq a by (simp add: K_def)
    show "\<not> referenced ?st (h ?r ! k) \<longleftrightarrow> k < K" if "k < length (h ?r)" for k
      using referenced_iff [OF st that] by (simp add: K_def not_le)
  qed
  have other: "held ?st r' = held st r'" if "r' \<noteq> ?r" for r'
    using that o by (intro held_cong) (auto simp: owns owns_def)
  have "returned st ?r @ map ref_supplied (filter (\<lambda>p. \<not> referenced ?st p) ps) =
      map ref_supplied (take K (h ?r))"
  proof (cases "held ?st ?r = held st ?r")
    case True
    then have "K \<le> length a" using ap a by (simp add: K_def)
    then show ?thesis using ok True out by (simp add: returned_ok_def K_def)
  next
    case False
    have le: "held ?st ?r \<le> held st ?r"
      using held_cases [of ?st ?r] held_ge [of st ?r] ap assms(4) owns
      by (auto split: if_splits)
    have "held st ?r = length (ps @ q)"
    proof (rule ccontr)
      assume ne: "held st ?r \<noteq> length (ps @ q)"
      then have "held st ?r \<noteq> 0" using ap by auto
      then obtain j where j: "owns st ?r j" "held st ?r = length (pending_queue (link_at st j))"
        using held_cases [of st ?r] by auto
      then have "j \<noteq> i" using ne assms(3) by auto
      then show False using held_ge [of ?st ?r j] j owns le False by simp
    qed
    then have "length (h ?r) - held st ?r = length a" using a by simp
    moreover have "length a \<le> K" using calculation le by (simp add: K_def)
    then have "take (length a) (h ?r) @ drop (length a) (take K (h ?r)) = take K (h ?r)"
      by (metis append_take_drop_id min.absorb1 take_take)
    ultimately show ?thesis using ok out by (simp add: returned_ok_def flip: map_append)
  qed
  moreover have "returned ?st r' = returned st r'" for r' by (simp add: returned_def)
  ultimately have "returned (drop_refs ?r ps ?st) r' = map ref_supplied (take (length (h r') - held ?st r') (h r'))" for r'
    using ok other [of r'] by (cases "r' = ?r") (simp_all add: returned_ok_def returned_drop_refs K_def)
  then have "returned_ok h (drop_refs ?r ps ?st)" by (simp add: returned_ok_def)
  moreover have "suffixes_ok h (drop_refs ?r ps ?st)" using st by (simp add: suffixes_ok_def)
  ultimately show ?thesis by (simp add: queues_ok_def)
qed

lemma queues_ok_cong:
  assumes "queues_ok h st" "link_count st' = link_count st" "ref_count st \<le> ref_count st'"
    and "\<And>i. i < link_count st \<Longrightarrow> pending_queue (link_at st' i) = pending_queue (link_at st i) \<and>
           link_renderer (link_at st' i) = link_renderer (link_at st i)"
    and "\<And>r. returned st' r = returned st r"
  shows "queues_ok h st'"
proof -
  have "held st' r = held st r" for r
    using assms(2,4) by (intro held_cong) (auto simp: owns_def)
  then show ?thesis using assms unfolding queues_ok_def suffixes_ok_def returned_ok_def
    by simp (meson order_less_le_trans)
qed

lemma held_all_empty: "(\<And>i. owns st r i \<Longrightarrow> pending_queue (link_at st i) = []) \<Longrightarrow> held st r = 0"
  using held_cases [of st r] by auto

lemma held_eqI:
  assumes "owns st r i" "length (pending_queue (link_at st i)) = n"
    and "\<And>j. owns st r j \<Longrightarrow> length (pending_queue (link_at st j)) \<le> n"
  shows "held st r = n"
  using held_ge [OF assms(1)] assms(2,3) held_cases [of st r] by (metis le_antisym le_zero_eq)

text \<open>A new reference goes to the queues of the links \<open>js\<close>; the renderer's other links are empty.\<close>

lemma push_all_ok:
  assumes "queues_ok h st" "\<And>j. j \<in> set js \<Longrightarrow> owns st r j"
    and "\<And>i. owns st r i \<Longrightarrow> i \<notin> set js \<Longrightarrow> pending_queue (link_at st i) = []"
    and "\<And>r'. p \<notin> set (h r')" "ref_address p < ref_count st"
    and links: "link_at st' = (\<lambda>i. if i \<in> set js then push_to_pending_queue p (link_at st i) else link_at st i)"
    and same: "link_count st' = link_count st" "ref_count st' = ref_count st" "\<And>r'. returned st' r' = returned st r'"
  shows "queues_ok (h(r := h r @ [p])) (drop_refs r [p] st')"
proof -
  let ?h = "h(r := h r @ [p])"
  note ok = assms(1) [unfolded queues_ok_def]
  have owns: "owns st' = owns st" by (auto simp: owns_def fun_eq_iff links same push_to_pending_queue_def)
  have "suffix (pending_queue (link_at st' i)) (?h (link_renderer (link_at st' i)))" if "i < link_count st'" for i
  proof -
    have s: "suffix (pending_queue (link_at st i)) (h (link_renderer (link_at st i)))"
      using ok that same by (simp add: suffixes_ok_def)
    consider "i \<in> set js" | "i \<notin> set js" "link_renderer (link_at st i) = r" | "link_renderer (link_at st i) \<noteq> r"
      by blast
    then show ?thesis
      by cases (use s assms(2) [of i] assms(3) [of i] that same in
          \<open>auto simp: links push_to_pending_queue_def owns_def\<close>)
  qed
  moreover have "distinct (?h r')" "\<forall>x \<in> set (?h r'). ref_address x < ref_count st'" for r'
    using ok assms(4,5) same by (auto simp: suffixes_ok_def)
  moreover have "set (?h a) \<inter> set (?h b) = {}" if "a \<noteq> b" for a b
    using ok assms(4) that unfolding suffixes_ok_def by auto
  ultimately have suf: "suffixes_ok ?h st'" by (simp add: suffixes_ok_def)
  have other: "held st' r' = held st r'" if "r' \<noteq> r" for r'
    using that assms(2) by (intro held_cong) (auto simp: owns links owns_def push_to_pending_queue_def)
  have "returned (drop_refs r [p] st') r = map ref_supplied (take (length (?h r) - held st' r) (?h r))"
  proof (cases "js = []")
    case True
    have "held st r = 0" "held st' r = 0"
      by (rule held_all_empty; use assms(3) True in \<open>simp add: owns links\<close>)+
    moreover have "\<not> referenced st' p"
    proof -
      have "?h r ! length (h r) = p" by simp
      then show ?thesis using referenced_iff [OF suf, of "length (h r)" r] calculation(2) by simp
    qed
    ultimately show ?thesis using ok same by (simp add: returned_drop_refs returned_ok_def)
  next
    case False
    then obtain j where j: "j \<in> set js" by (cases js) auto
    then have "referenced st' p"
      using assms(2) [of j] same by (auto simp: referenced_def list_ex_iff links push_to_pending_queue_def owns_def)
    moreover have "held st' r = Suc (held st r)"
    proof -
      have up: "length (pending_queue (link_at st' i)) \<le> Suc (held st r)" if "owns st' r i" for i
        using held_ge [of st r i] that by (auto simp: owns links push_to_pending_queue_def)
      have "\<exists>i. owns st' r i \<and> length (pending_queue (link_at st' i)) = Suc (held st r)"
      proof (cases "held st r = 0")
        case True
        then show ?thesis using held_ge [of st r j] assms(2) [OF j] j
          by (intro exI [of _ j]) (auto simp: owns links push_to_pending_queue_def)
      next
        case False
        then obtain i where i: "owns st r i" "held st r = length (pending_queue (link_at st i))"
          using held_cases [of st r] by auto
        then have "i \<in> set js" using assms(3) [of i] False by auto
        then show ?thesis using i by (intro exI [of _ i]) (simp add: owns links push_to_pending_queue_def)
      qed
      then show ?thesis using held_eqI up by blast
    qed
    moreover have "held st r \<le> length (h r)" using ok held_le by blast
    ultimately show ?thesis using ok same by (simp add: returned_drop_refs returned_ok_def)
  qed
  moreover have "returned (drop_refs r [p] st') r' = map ref_supplied (take (length (?h r') - held st' r') (?h r'))"
    if "r' \<noteq> r" for r'
    using ok that other same by (simp add: returned_drop_refs returned_ok_def)
  ultimately have "returned_ok ?h (drop_refs r [p] st')"
    unfolding returned_ok_def owns_drop_refs by metis
  moreover have "suffixes_ok ?h (drop_refs r [p] st')" using suf by (simp add: suffixes_ok_def)
  ultimately show ?thesis by (simp add: queues_ok_def)
qed

end
