(* ===== verification/Audio_Routing.thy ===== *)
theory Audio_Routing
  imports Audio_Renderer
begin

text \<open>
  Which renderer plays on which output: \<open>AudioOutput\<close> (audio_output.h, .cc), \<open>AudioOutputManager\<close>
  (audio_output_manager.h, .cc), and the parts of \<open>AudioRendererImpl\<close> that call the manager.

  \<open>GetRenderer\<close> and \<open>GetOutput\<close> promote weak pointers: a renderer lives while it is in the manager's
  set. What a derived output does in its \<open>Init\<close> (its result, and the plug state it reports) is an
  argument. Worker threads are left out: an output that is not shutting down has its task runner.
\<close>

section \<open>Outputs\<close>

datatype audio_media_result = RESULT_OK | UNKNOWN_ERROR | INTERNAL_ERROR | NOT_IMPLEMENTED | UNSUPPORTED_OPERATION
  | UNSUPPORTED_CONFIG | INVALID_ARGUMENT | INSUFFICIENT_RESOURCES | BAD_STATE | BUF_OVERFLOW | FLUSHED | BUSY
  | PROTOCOL_ERROR | ALREADY_EXISTS | NOT_FOUND | SHUTTING_DOWN | CONNECTION_LOST

definition upd_output :: "nat \<Rightarrow> (audio_output \<Rightarrow> audio_output) \<Rightarrow> audio_server \<Rightarrow> audio_server" where
  "upd_output o' f st = st\<lparr>output_at := (output_at st)(o' := f (output_at st o'))\<rparr>"

text \<open>\<open>StandardOutputBase::InitializeLink\<close>; its bookkeeping is never null.\<close>

definition initialize_link :: "nat \<Rightarrow> nat \<Rightarrow> audio_server \<Rightarrow> (audio_media_result \<times> audio_server) option" where
  "initialize_link o' i st = do {
     m \<leftarrow> mixer_select (fi_format (link_format (link_at st i))) (o_format (output_at st o'));
     (case m of
        None \<Rightarrow> Some (UNSUPPORTED_CONFIG, st)
      | Some mx \<Rightarrow> Some (RESULT_OK, upd_link i (\<lambda>l. l\<lparr>output_bookkeeping := Some (alloc_bookkeeping mx)\<rparr>) st))
   }"

definition add_renderer_link :: "nat \<Rightarrow> nat \<Rightarrow> audio_server \<Rightarrow> (audio_media_result \<times> audio_server) option" where
  "add_renderer_link o' i st = do {
     (res, st) \<leftarrow> initialize_link o' i st;
     (if res = RESULT_OK then do {
        dcheck (link_output (link_at st i) = o');
        (if shutting_down (output_at st o') then Some (SHUTTING_DOWN, st)
         else do {
           dcheck (i \<notin> set (o_links (output_at st o')));
           Some (RESULT_OK, upd_output o' (\<lambda>x. x\<lparr>o_links := o_links x @ [i]\<rparr>) st)
         })
      } else Some (res, st))
   }"

text \<open>Dropping a strong pointer to a link: it dies when neither its renderer nor its output has one.\<close>

definition link_referenced :: "nat \<Rightarrow> audio_server \<Rightarrow> bool" where
  "link_referenced i st \<longleftrightarrow>
     (let l = link_at st i; x = renderer_at st (link_renderer l)
      in i \<in> set (o_links (output_at st (link_output l))) \<or> i \<in> set (output_links x) \<or> throttle_output_link x = Some i)"

definition release_link :: "nat \<Rightarrow> audio_server \<Rightarrow> audio_server" where
  "release_link i st = (if link_referenced i st then st else destroy_link i st)"

definition remove_renderer_link :: "nat \<Rightarrow> nat \<Rightarrow> audio_server \<Rightarrow> audio_media_result \<times> audio_server" where
  "remove_renderer_link o' i st =
     (if shutting_down (output_at st o') then (SHUTTING_DOWN, st)
      else if i \<notin> set (o_links (output_at st o')) then (NOT_FOUND, st)
      else (RESULT_OK, release_link i (upd_output o' (\<lambda>x. x\<lparr>o_links := remove1 i (o_links x)\<rparr>) st)))"

text \<open>Returns whether the output was shutting down already.\<close>

definition begin_shutdown :: "nat \<Rightarrow> audio_server \<Rightarrow> bool \<times> audio_server" where
  "begin_shutdown o' st =
     (if shutting_down (output_at st o') then (True, st)
      else (False, upd_output o' (\<lambda>x. x\<lparr>shutting_down := True\<rparr>) st))"

definition shutdown_self :: "nat \<Rightarrow> audio_server \<Rightarrow> audio_server" where
  "shutdown_self o' st =
     (let (already, st) = begin_shutdown o' st
      in if \<not> already then server_emit (PostFinishShutdown o') st else st)"

fun unlink_each :: "nat list \<Rightarrow> audio_server \<Rightarrow> audio_server option" where
  "unlink_each [] st = Some st"
| "unlink_each (i # is) st = do {
     st' \<leftarrow> (if link_renderer (link_at st i) \<in> set (renderers st)
             then renderer_remove_output (link_renderer (link_at st i)) i st else Some st);
     unlink_each is st'
   }"

definition unlink_from_renderers :: "nat \<Rightarrow> audio_server \<Rightarrow> audio_server option" where
  "unlink_from_renderers o' st = do {
     let old_links = o_links (output_at st o');
     st' \<leftarrow> unlink_each old_links (upd_output o' (\<lambda>x. x\<lparr>o_links := []\<rparr>) st);
     Some (fold release_link old_links st')
   }"

definition output_shutdown :: "nat \<Rightarrow> audio_server \<Rightarrow> audio_server option" where
  "output_shutdown o' st =
     (if shut_down (output_at st o') then Some st
      else do {
        st' \<leftarrow> unlink_from_renderers o' (snd (begin_shutdown o' st));
        Some (upd_output o' (\<lambda>x. x\<lparr>shut_down := True\<rparr>) st')
      })"

definition update_plug_state :: "nat \<Rightarrow> bool \<Rightarrow> u64 \<Rightarrow> audio_server \<Rightarrow> bool \<times> audio_server" where
  "update_plug_state o' p t st =
     (if p \<noteq> plugged (output_at st o') \<and> t \<ge> plug_time (output_at st o')
      then (True, upd_output o' (\<lambda>x. x\<lparr>plugged := p, plug_time := t\<rparr>) st)
      else (False, st))"

text \<open>\<open>Init\<close> of the base class, around the derived \<open>Init\<close>.\<close>

definition output_init :: "nat \<Rightarrow> audio_media_result \<Rightarrow> (bool \<times> u64) option \<Rightarrow> audio_server \<Rightarrow> audio_server" where
  "output_init o' res plug st =
     (let st = (case plug of None \<Rightarrow> st | Some (p, t) \<Rightarrow> snd (update_plug_state o' p t st))
      in if res \<noteq> RESULT_OK then upd_output o' (\<lambda>x. x\<lparr>shutting_down := True\<rparr>) st else st)"

section \<open>The output manager\<close>

definition link_output_to_renderer :: "nat \<Rightarrow> nat \<Rightarrow> audio_server \<Rightarrow> audio_server option" where
  "link_output_to_renderer o' r st =
     (if renderer_format (renderer_at st r) = None then Some st
      else do {
        l \<leftarrow> link_create r (renderer_format (renderer_at st r)) o';
        let i = link_count st;
        let st = (upd_link i (\<lambda>_. l) st)\<lparr>link_count := i + 1\<rparr>;
        (res, st) \<leftarrow> add_renderer_link o' i st;
        (if res = RESULT_OK
         then if o' = throttle_output st then renderer_set_throttle_output r i st else renderer_add_output r i st
         else Some st)
      })"

fun link_all :: "(nat \<times> nat) list \<Rightarrow> audio_server \<Rightarrow> audio_server option" where
  "link_all [] st = Some st"
| "link_all ((o', r) # xs) st = do { st' \<leftarrow> link_output_to_renderer o' r st; link_all xs st' }"

text \<open>The body of the loop of \<open>FindLastPluggedOutput\<close>, and the loop. The set of outputs is ordered by address,
  the list by their addition: of outputs that were plugged in at the same time the code may take another.\<close>

definition later_plugged :: "audio_server \<Rightarrow> nat \<Rightarrow> nat option \<Rightarrow> nat option" where
  "later_plugged st o' best =
     (if plugged (output_at st o') \<and>
         (case best of None \<Rightarrow> True | Some b \<Rightarrow> plug_time (output_at st b) < plug_time (output_at st o'))
      then Some o' else best)"

definition find_last_plugged_output :: "audio_server \<Rightarrow> nat option" where
  "find_last_plugged_output st = fold (later_plugged st) (outputs st) None"

definition select_outputs_for_renderer :: "nat \<Rightarrow> audio_server \<Rightarrow> audio_server option" where
  "select_outputs_for_renderer r st = do {
     dcheck (renderer_format (renderer_at st r) \<noteq> None);
     st1 \<leftarrow> link_output_to_renderer (throttle_output st) r st;
     (case policy st1 of
        ALL_PLUGGED_OUTPUTS \<Rightarrow>
          link_all (map (\<lambda>o'. (o', r)) (filter (\<lambda>o'. plugged (output_at st1 o')) (outputs st1))) st1
      | LAST_PLUGGED_OUTPUT \<Rightarrow>
          (case find_last_plugged_output st1 of
             None \<Rightarrow> Some st1 | Some o' \<Rightarrow> link_output_to_renderer o' r st1))
   }"

definition on_output_unplugged :: "nat \<Rightarrow> audio_server \<Rightarrow> audio_server option" where
  "on_output_unplugged o' st = do {
     dcheck (\<not> plugged (output_at st o') \<and> o' \<noteq> throttle_output st);
     st1 \<leftarrow> unlink_from_renderers o' st;
     (case policy st1 of
        LAST_PLUGGED_OUTPUT \<Rightarrow>
          (case find_last_plugged_output st1 of
             None \<Rightarrow> Some st1 | Some new \<Rightarrow> link_all (map (Pair new) (renderers st1)) st1)
      | ALL_PLUGGED_OUTPUTS \<Rightarrow> Some st1)
   }"

fun unlink_outputs :: "nat list \<Rightarrow> audio_server \<Rightarrow> audio_server option" where
  "unlink_outputs [] st = Some st"
| "unlink_outputs (o' # os) st = do { st' \<leftarrow> unlink_from_renderers o' st; unlink_outputs os st' }"

definition on_output_plugged :: "nat \<Rightarrow> audio_server \<Rightarrow> audio_server option" where
  "on_output_plugged o' st = do {
     dcheck (plugged (output_at st o') \<and> o' \<noteq> throttle_output st);
     (case policy st of
        ALL_PLUGGED_OUTPUTS \<Rightarrow> link_all (map (Pair o') (renderers st)) st
      | LAST_PLUGGED_OUTPUT \<Rightarrow>
          if find_last_plugged_output st \<noteq> Some o' then Some st
          else do {
            st1 \<leftarrow> unlink_outputs (filter (\<lambda>x. x \<noteq> o') (outputs st)) st;
            link_all (map (Pair o') (renderers st1)) st1
          })
   }"

definition add_output :: "nat \<Rightarrow> audio_media_result \<Rightarrow> (bool \<times> u64) option \<Rightarrow> audio_server \<Rightarrow>
    (audio_media_result \<times> audio_server) option" where
  "add_output o' res plug st = do {
     dcheck (o' \<noteq> throttle_output st);
     dcheck (o' \<notin> set (outputs st));
     let st1 = output_init o' res plug (st\<lparr>outputs := outputs st @ [o']\<rparr>);
     st2 \<leftarrow> (if res \<noteq> RESULT_OK
             then output_shutdown o' (st1\<lparr>outputs := remove1 o' (outputs st1)\<rparr>) else Some st1);
     st3 \<leftarrow> (if plugged (output_at st2 o') then on_output_plugged o' st2 else Some st2);
     Some (res, st3)
   }"

definition shutdown_output :: "nat \<Rightarrow> audio_server \<Rightarrow> audio_server option" where
  "shutdown_output o' st = do {
     dcheck (o' \<noteq> throttle_output st);
     (if o' \<in> set (outputs st) then do {
        let (changed, st) = update_plug_state o' False (plug_time (output_at st o')) st;
        st1 \<leftarrow> (if changed then on_output_unplugged o' st else Some st);
        st2 \<leftarrow> output_shutdown o' st1;
        Some (st2\<lparr>outputs := remove1 o' (outputs st2)\<rparr>)
      } else Some st)
   }"

definition handle_plug_state_change :: "nat \<Rightarrow> bool \<Rightarrow> u64 \<Rightarrow> audio_server \<Rightarrow> audio_server option" where
  "handle_plug_state_change o' p t st =
     (let (changed, st) = update_plug_state o' p t st
      in if changed then (if p then on_output_plugged o' st else on_output_unplugged o' st) else Some st)"

section \<open>Renderers and the manager\<close>

definition new_renderer :: "audio_renderer option" where
  "new_renderer = do {
     cp \<leftarrow> new_control_point;
     Some \<lparr>pipe = \<lparr>pipe_base = consumer_init, prime_callback = None, prime_pts = 0, next_pts_known = False, next_pts = 0\<rparr>,
           timeline_control_point = cp\<lparr>prime_requested_callback := True\<rparr>,
           renderer_format = None, output_links = [], throttle_output_link = None, is_shutdown = False\<rparr>
   }"

definition create_renderer :: "audio_server \<Rightarrow> audio_server option" where
  "create_renderer st = do {
     x \<leftarrow> new_renderer;
     let r = renderer_count st;
     Some ((upd_renderer r (\<lambda>_. x) st)\<lparr>renderer_count := r + 1, renderers := renderers st @ [r]\<rparr>)
   }"

definition renderer_links :: "audio_renderer \<Rightarrow> nat list" where
  "renderer_links x = output_links x @ (case throttle_output_link x of None \<Rightarrow> [] | Some i \<Rightarrow> [i])"

definition renderer_shutdown :: "int \<Rightarrow> nat \<Rightarrow> audio_server \<Rightarrow> audio_server option" where
  "renderer_shutdown now r st =
     (let x = renderer_at st r
      in if is_shutdown x then do {
           dcheck (\<not> bound (pipe_base (pipe x)));
           dcheck (\<not> cp_bound (timeline_control_point x));
           dcheck (output_links x = []);
           Some st
         } else do {
           (replies, cp) \<leftarrow> cp_reset now (timeline_control_point x);
           let st1 = upd_base r consumer_reset st;
           let st1 = upd_renderer r (\<lambda>x. x\<lparr>is_shutdown := True, timeline_control_point := cp, output_links := [],
                                           throttle_output_link := None\<rparr>) st1;
           let st1 = fold release_link (renderer_links x) st1;
           dcheck (r \<in> set (renderers st1));
           Some (st1\<lparr>renderers := remove1 r (renderers st1)\<rparr>)
         })"

text \<open>The table of supported formats.\<close>

record format_range =
  fr_format :: sample_format
  min_channels :: u32
  max_channels :: u32
  min_frames_per_second :: u32
  max_frames_per_second :: u32

definition kSupportedAudioTypeSets :: "format_range list" where
  "kSupportedAudioTypeSets =
     [\<lparr>fr_format = SF_UNSIGNED_8, min_channels = 1, max_channels = 2,
       min_frames_per_second = 1000, max_frames_per_second = 48000\<rparr>,
      \<lparr>fr_format = SF_SIGNED_16, min_channels = 1, max_channels = 2,
       min_frames_per_second = 1000, max_frames_per_second = 48000\<rparr>]"

definition supported_format :: "audio_details \<Rightarrow> bool" where
  "supported_format cfg \<longleftrightarrow>
     list_ex (\<lambda>s. sample_format cfg = fr_format s \<and>
                 channels cfg \<ge> min_channels s \<and> channels cfg \<le> max_channels s \<and>
                 frames_per_second cfg \<ge> min_frames_per_second s \<and>
                 frames_per_second cfg \<le> max_frames_per_second s) kSupportedAudioTypeSets"

text \<open>The configuration is \<^term>\<open>None\<close> when the media type is not LPCM audio.\<close>

definition set_media_type :: "int \<Rightarrow> nat \<Rightarrow> audio_details option \<Rightarrow> audio_server \<Rightarrow> audio_server option" where
  "set_media_type now r config st =
     (case config of
        None \<Rightarrow> renderer_shutdown now r st
      | Some cfg \<Rightarrow>
          if \<not> supported_format cfg then renderer_shutdown now r st
          else
            let links = renderer_links (renderer_at st r);
                has_pending = list_ex (\<lambda>i. \<not> pending_queue_empty (link_at st i)) links
            in if has_pending then renderer_shutdown now r st
               else do {
                 let st1 = fold release_link links (renderer_remove_all_outputs r st);
                 rate \<leftarrow> mk_rate (frames_per_second cfg) 1;
                 fmt \<leftarrow> mk_format_info cfg;
                 select_outputs_for_renderer r
                   (upd_renderer r (\<lambda>x. x\<lparr>renderer_format := Some fmt\<rparr>) (upd_base r (set_pts_rate rate) st1))
               })"

text \<open>\<open>Shutdown\<close> of the manager; \<open>fuel\<close> bounds the loop over the renderers.\<close>

fun shutdown_renderers :: "nat \<Rightarrow> int \<Rightarrow> audio_server \<Rightarrow> audio_server option" where
  "shutdown_renderers 0 now st = (if renderers st = [] then Some st else None)"
| "shutdown_renderers (Suc fuel) now st =
     (case renderers st of
        [] \<Rightarrow> Some st
      | r # _ \<Rightarrow> do {
          st' \<leftarrow> renderer_shutdown now r st;
          dcheck (length (renderers st') < length (renderers st));
          shutdown_renderers fuel now st'
        })"

fun shutdown_outputs :: "nat list \<Rightarrow> audio_server \<Rightarrow> audio_server option" where
  "shutdown_outputs [] st = Some st"
| "shutdown_outputs (o' # os) st = do { st' \<leftarrow> output_shutdown o' st; shutdown_outputs os st' }"

definition manager_shutdown :: "int \<Rightarrow> audio_server \<Rightarrow> audio_server option" where
  "manager_shutdown now st = do {
     st1 \<leftarrow> shutdown_renderers (length (renderers st)) now st;
     st2 \<leftarrow> shutdown_outputs (outputs st1) st1;
     output_shutdown (throttle_output st2) (st2\<lparr>outputs := []\<rparr>)
   }"

section \<open>The server as a whole\<close>

text \<open>What \<open>ForeachRenderer\<close> does with a link that is no longer good.\<close>

definition link_alive :: "nat \<Rightarrow> audio_server \<Rightarrow> bool" where
  "link_alive i st \<longleftrightarrow> link_valid (link_at st i) \<and> link_renderer (link_at st i) \<in> set (renderers st)"

definition erase_link :: "nat \<Rightarrow> nat \<Rightarrow> audio_server \<Rightarrow> audio_server" where
  "erase_link o' i st = release_link i (upd_output o' (\<lambda>x. x\<lparr>o_links := remove1 i (o_links x)\<rparr>) st)"

definition output_lock :: "nat \<Rightarrow> audio_server \<Rightarrow> audio_packet_ref option \<times> bool \<times> audio_server" where
  "output_lock i st =
     (let (p, was_flushed, l) = lock_pending_queue_front (link_at st i)
      in (p, was_flushed, upd_link i (\<lambda>_. l) st))"

definition output_unlock :: "nat \<Rightarrow> audio_packet_ref option \<Rightarrow> bool \<Rightarrow> audio_server \<Rightarrow> audio_server option" where
  "output_unlock i pkt release_packet st = do {
     (out, l) \<leftarrow> unlock_pending_queue_front pkt release_packet (link_at st i);
     Some (drop_refs (link_renderer l) (case out of None \<Rightarrow> [] | Some p \<Rightarrow> [p]) (upd_link i (\<lambda>_. l) st))
   }"

text \<open>Everything that can happen to the server. The mixer threads lock and unlock the queues of their
  links and erase dead ones; a call on a renderer reaches it only while it lives.\<close>

datatype server_call =
    CreateRenderer
  | SetMediaType nat "audio_details option"
  | ShutdownRenderer nat
  | BindPipe nat
  | AddBuffer nat os_reply nat nat
  | RemoveBuffer nat os_reply nat
  | PullDemand nat nat
  | SupplyPacket nat media_packet nat
  | FlushPipe nat nat
  | ControlCall nat cp_call
  | AddOutput nat audio_media_result "(bool \<times> u64) option"
  | ShutdownOutput nat
  | PlugChange nat bool u64
  | LockFront nat nat
  | UnlockFront nat nat "audio_packet_ref option" bool
  | EraseLink nat nat
  | PacketCleanup

definition on_base :: "nat \<Rightarrow> (consumer \<Rightarrow> consumer option) \<Rightarrow> audio_server \<Rightarrow> audio_server option" where
  "on_base r f st = do { c \<leftarrow> f (pipe_base (pipe (renderer_at st r))); Some (upd_base r (\<lambda>_. c) st) }"

definition on_renderer :: "nat \<Rightarrow> (audio_server \<Rightarrow> audio_server option) \<Rightarrow> audio_server \<Rightarrow> audio_server option" where
  "on_renderer r f st = (if r \<in> set (renderers st) then f st else Some st)"

text \<open>\<open>GetPacketConsumer\<close>.\<close>

definition get_packet_consumer :: "nat \<Rightarrow> audio_server \<Rightarrow> audio_server" where
  [simp]: "get_packet_consumer r = upd_base r (\<lambda>c. consumer_bind (if bound c then consumer_reset c else c))"

text \<open>A call on the timeline control point. It asks the pipe to prime; its other events are replies to
  clients.\<close>

fun prime_pipe :: "nat \<Rightarrow> cp_event list \<Rightarrow> audio_server \<Rightarrow> audio_server option" where
  "prime_pipe r [] st = Some st"
| "prime_pipe r (e # es) st = do {
     st' \<leftarrow> (case e of PrimeRequested p cb \<Rightarrow> prime_requested r p cb st | _ \<Rightarrow> Some st);
     prime_pipe r es st'
   }"

definition control_call :: "int \<Rightarrow> nat \<Rightarrow> cp_call \<Rightarrow> audio_server \<Rightarrow> audio_server option" where
  "control_call now r c st = do {
     (es, cp) \<leftarrow> cp_exec now c (timeline_control_point (renderer_at st r));
     prime_pipe r es (upd_renderer r (\<lambda>x. x\<lparr>timeline_control_point := cp\<rparr>) st)
   }"

fun server_exec :: "int \<Rightarrow> server_call \<Rightarrow> audio_server \<Rightarrow> audio_server option" where
  "server_exec now CreateRenderer st = create_renderer st"
| "server_exec now (SetMediaType r config) st = on_renderer r (set_media_type now r config) st"
| "server_exec now (ShutdownRenderer r) st = on_renderer r (renderer_shutdown now r) st"
| "server_exec now (BindPipe r) st =
     on_renderer r (\<lambda>st. Some (get_packet_consumer r st)) st"
| "server_exec now (AddBuffer r reply i vmo) st = on_renderer r (on_base r (add_payload_buffer reply i vmo)) st"
| "server_exec now (RemoveBuffer r reply i) st = on_renderer r (on_base r (remove_payload_buffer reply i)) st"
| "server_exec now (PullDemand r cb) st = on_renderer r (on_base r (\<lambda>c. Some (pull_demand_update cb c))) st"
| "server_exec now (SupplyPacket r pk cb) st = on_renderer r (pipe_supply_packet r pk cb) st"
| "server_exec now (FlushPipe r cb) st = on_renderer r (\<lambda>st. Some (pipe_flush r cb st)) st"
| "server_exec now (ControlCall r c) st = on_renderer r (control_call now r c) st"
| "server_exec now (AddOutput o' res plug) st = map_option snd (add_output o' res plug st)"
| "server_exec now (ShutdownOutput o') st = shutdown_output o' st"
| "server_exec now (PlugChange o' p t) st = handle_plug_state_change o' p t st"
| "server_exec now (LockFront o' i) st =
     Some (if i \<in> set (o_links (output_at st o')) then snd (snd (output_lock i st)) else st)"
| "server_exec now (UnlockFront o' i pkt release_packet) st =
     (if i \<in> set (o_links (output_at st o')) then output_unlock i pkt release_packet st else Some st)"
| "server_exec now (EraseLink o' i) st =
     Some (if i \<in> set (o_links (output_at st o')) \<and> \<not> link_alive i st then erase_link o' i st else st)"
| "server_exec now PacketCleanup st = Some (do_packet_cleanup st)"

fun server_run :: "(int \<times> server_call) list \<Rightarrow> audio_server \<Rightarrow> audio_server option" where
  "server_run [] st = Some st"
| "server_run ((now, c) # cs) st = do { st' \<leftarrow> server_exec now c st; server_run cs st' }"

text \<open>The throttle output is number 0, plugged in by its \<open>Init\<close>.\<close>

definition new_output :: "audio_details option \<Rightarrow> audio_output" where
  "new_output fmt = \<lparr>o_links = [], o_format = fmt, plugged = False, plug_time = 0, shutting_down = False, shut_down = False\<rparr>"

definition server_init :: "routing_policy \<Rightarrow> (nat \<Rightarrow> audio_details option) \<Rightarrow> audio_renderer \<Rightarrow> audio_link \<Rightarrow> audio_server" where
  "server_init pol fmts any_renderer any_link =
     output_init 0 RESULT_OK (Some (True, 0))
     \<lparr>link_at = (\<lambda>_. any_link), link_count = 0, ref_count = 0, renderer_count = 0,
      renderer_at = (\<lambda>_. any_renderer), output_at = (\<lambda>o'. new_output (if o' = 0 then None else fmts o')),
      renderers = [], outputs = [], throttle_output = 0, policy = pol, cleanup_queue = [],
      cleanup_scheduled = False, server_shutting_down = False, received = [], cleaned_up = [], server_events = []\<rparr>"

end
