(* ===== verification/Audio_Routing_Invariants.thy ===== *)
theory Audio_Routing_Invariants
  imports Audio_Routing
begin

text \<open>
  The invariants of the audio server: the links of renderers and outputs agree (\<open>lists_ok\<close>), only links
  that receive packets hold any (\<open>orphans_ok\<close>), and packets are returned in order (\<open>queues_ok\<close> of
  Audio_Renderer). Each operation keeps them; the runs of the server follow.
\<close>

section \<open>Invariants\<close>

text \<open>While an output is being unlinked, the links \<open>X\<close> it has let go of are in transit.\<close>

definition lists_ok :: "nat set \<Rightarrow> audio_server \<Rightarrow> bool" where
  "lists_ok X st \<longleftrightarrow>
     distinct (renderers st) \<and> (\<forall>r \<in> set (renderers st). r < renderer_count st) \<and>
     (\<forall>i < link_count st. link_renderer (link_at st i) < renderer_count st) \<and>
     (\<forall>r \<in> set (renderers st). \<not> is_shutdown (renderer_at st r) \<and> distinct (renderer_links (renderer_at st r)) \<and>
        (\<forall>i \<in> set (renderer_links (renderer_at st r)).
           owns st r i \<and> link_valid (link_at st i) \<and> (i \<in> set (o_links (output_at st (link_output (link_at st i)))) \<or> i \<in> X))) \<and>
     (\<forall>o'. distinct (o_links (output_at st o')) \<and>
        (\<forall>i \<in> set (o_links (output_at st o')). i < link_count st \<and> link_output (link_at st i) = o'))"

definition orphans_ok :: "nat set \<Rightarrow> audio_server \<Rightarrow> bool" where
  "orphans_ok X st \<longleftrightarrow>
     (\<forall>r \<in> set (renderers st). \<forall>i. owns st r i \<longrightarrow> i \<notin> set (renderer_links (renderer_at st r)) \<longrightarrow> i \<notin> X \<longrightarrow>
        pending_queue (link_at st i) = [])"

definition history :: "audio_server \<Rightarrow> nat \<Rightarrow> audio_packet_ref list" where
  "history st r = map snd (filter (\<lambda>x. fst x = r) (received st))"

definition server_ok :: "nat set \<Rightarrow> audio_server \<Rightarrow> bool" where
  "server_ok X st \<longleftrightarrow> lists_ok X st \<and> orphans_ok X st \<and> queues_ok (history st) st"

lemma upd_output_simps [simp]:
  "link_at (upd_output o' f st) = link_at st" "link_count (upd_output o' f st) = link_count st"
  "ref_count (upd_output o' f st) = ref_count st" "renderer_count (upd_output o' f st) = renderer_count st"
  "renderer_at (upd_output o' f st) = renderer_at st"
  "output_at (upd_output o' f st) = (output_at st)(o' := f (output_at st o'))"
  "cleanup_queue (upd_output o' f st) = cleanup_queue st" "cleaned_up (upd_output o' f st) = cleaned_up st"
  "renderers (upd_output o' f st) = renderers st" "outputs (upd_output o' f st) = outputs st"
  "throttle_output (upd_output o' f st) = throttle_output st" "received (upd_output o' f st) = received st"
  "policy (upd_output o' f st) = policy st"
  by (simp_all add: upd_output_def)

lemma server_emit_simps [simp]:
  "link_at (server_emit e st) = link_at st" "link_count (server_emit e st) = link_count st"
  "ref_count (server_emit e st) = ref_count st" "renderer_count (server_emit e st) = renderer_count st"
  "renderer_at (server_emit e st) = renderer_at st" "output_at (server_emit e st) = output_at st"
  "cleanup_queue (server_emit e st) = cleanup_queue st" "cleaned_up (server_emit e st) = cleaned_up st"
  "renderers (server_emit e st) = renderers st" "outputs (server_emit e st) = outputs st"
  "throttle_output (server_emit e st) = throttle_output st" "received (server_emit e st) = received st"
  "policy (server_emit e st) = policy st"
  by (simp_all add: server_emit_def)

text \<open>What the invariant depends on. A step that leaves these alone keeps it.\<close>

definition same_routing :: "audio_server \<Rightarrow> audio_server \<Rightarrow> bool" where
  "same_routing st st' \<longleftrightarrow>
     link_count st' = link_count st \<and> renderer_count st' = renderer_count st \<and> renderers st' = renderers st \<and>
     (\<forall>i. pending_queue (link_at st' i) = pending_queue (link_at st i) \<and>
          link_renderer (link_at st' i) = link_renderer (link_at st i) \<and>
          link_output (link_at st' i) = link_output (link_at st i) \<and>
          link_valid (link_at st' i) = link_valid (link_at st i)) \<and>
     (\<forall>r. renderer_links (renderer_at st' r) = renderer_links (renderer_at st r) \<and>
          is_shutdown (renderer_at st' r) = is_shutdown (renderer_at st r)) \<and>
     (\<forall>o'. o_links (output_at st' o') = o_links (output_at st o')) \<and>
     received st' = received st \<and> cleaned_up st' @ cleanup_queue st' = cleaned_up st @ cleanup_queue st \<and>
     ref_count st \<le> ref_count st'"

lemma same_routing_refl [simp]: "same_routing st st"
  by (simp add: same_routing_def)

lemma same_routing_trans: "same_routing a b \<Longrightarrow> same_routing b c \<Longrightarrow> same_routing a c"
  by (auto simp: same_routing_def)

lemma same_routing_ok:
  assumes "same_routing st st'" "server_ok X st"
  shows "server_ok X st'"
proof -
  have s: "link_count st' = link_count st" "renderer_count st' = renderer_count st" "renderers st' = renderers st"
    "\<And>i. pending_queue (link_at st' i) = pending_queue (link_at st i)"
    "\<And>i. link_renderer (link_at st' i) = link_renderer (link_at st i)"
    "\<And>i. link_output (link_at st' i) = link_output (link_at st i)"
    "\<And>i. link_valid (link_at st' i) = link_valid (link_at st i)"
    "\<And>r. renderer_links (renderer_at st' r) = renderer_links (renderer_at st r)"
    "\<And>r. is_shutdown (renderer_at st' r) = is_shutdown (renderer_at st r)"
    "\<And>o'. o_links (output_at st' o') = o_links (output_at st o')"
    "received st' = received st" "cleaned_up st' @ cleanup_queue st' = cleaned_up st @ cleanup_queue st"
    "ref_count st \<le> ref_count st'"
    using assms(1) unfolding same_routing_def by blast+
  have ok: "lists_ok X st" "orphans_ok X st" "queues_ok (history st) st"
    using assms(2) by (simp_all add: server_ok_def)
  have owns: "owns st' = owns st" unfolding owns_def s by (rule refl)
  have "lists_ok X st'" using ok(1) unfolding lists_ok_def owns s .
  moreover have "orphans_ok X st'" using ok(2) unfolding orphans_ok_def owns s .
  moreover have "returned st' r = returned st r" for r unfolding returned_def s by (rule refl)
  then have "queues_ok (history st) st'"
    by (intro queues_ok_cong [OF ok(3) s(1) s(13)]) (simp_all add: s)
  moreover have "history st' = history st" using s by (simp add: history_def fun_eq_iff)
  ultimately show ?thesis by (simp add: server_ok_def)
qed

lemma same_routing_upd_pipe [simp]: "same_routing st (upd_pipe r f st)"
  by (simp add: same_routing_def upd_pipe_def renderer_links_def)

lemma same_routing_upd_base [simp]: "same_routing st (upd_base r f st)"
  by (simp add: upd_base_def)

lemma same_routing_emit [simp]: "same_routing st (server_emit e st)"
  by (simp add: same_routing_def)

lemma same_routing_drop_supplied [simp]: "same_routing st (drop_supplied x st)"
  by (simp add: drop_supplied_def)

lemma same_routing_cleanup: "same_routing st (do_packet_cleanup st)"
proof -
  have "same_routing st' (fold drop_supplied xs st')" for xs st'
    by (induction xs arbitrary: st') (auto intro: same_routing_trans [OF same_routing_drop_supplied])
  then show ?thesis
    unfolding do_packet_cleanup_def Let_def
    by (rule same_routing_trans [rotated]) (simp add: same_routing_def)
qed

section \<open>Queues\<close>

text \<open>Giving up the front of a queue.\<close>

lemma drop_front_server_ok:
  assumes "server_ok X st" "i < link_count st" "pending_queue (link_at st i) = ps @ pending_queue l"
    and "link_renderer l = link_renderer (link_at st i)" "link_output l = link_output (link_at st i)"
    and "link_valid l = link_valid (link_at st i)"
  shows "server_ok X (drop_refs (link_renderer l) ps (upd_link i (\<lambda>_. l) st))"
proof -
  have owns: "owns (drop_refs (link_renderer l) ps (upd_link i (\<lambda>_. l) st)) = owns st"
    using assms(4) by (auto simp: owns_def fun_eq_iff)
  have "queues_ok (history st) (drop_refs (link_renderer l) ps (upd_link i (\<lambda>_. l) st))"
    using assms by (intro drop_front_ok [where q = "pending_queue l"]) (auto simp: server_ok_def)
  moreover have "history (drop_refs (link_renderer l) ps (upd_link i (\<lambda>_. l) st)) = history st"
    by (simp add: history_def fun_eq_iff)
  moreover have "lists_ok X (drop_refs (link_renderer l) ps (upd_link i (\<lambda>_. l) st))"
    using assms(1,4,5,6) unfolding server_ok_def lists_ok_def owns by auto
  moreover have "orphans_ok X (drop_refs (link_renderer l) ps (upd_link i (\<lambda>_. l) st))"
    using assms(1,3) unfolding server_ok_def orphans_ok_def owns by auto
  ultimately show ?thesis unfolding server_ok_def by simp
qed

lemma destroy_link_ok: "server_ok X st \<Longrightarrow> i < link_count st \<Longrightarrow> server_ok X (destroy_link i st)"
  using drop_front_server_ok [of X st i "pending_queue (link_at st i)" "(link_at st i)\<lparr>pending_queue := []\<rparr>"]
  by (simp add: destroy_link_def upd_link_def)

lemma release_link_ok: "server_ok X st \<Longrightarrow> i < link_count st \<Longrightarrow> server_ok X (release_link i st)"
  by (simp add: release_link_def destroy_link_ok)

lemma flush_link_ok: "server_ok X st \<Longrightarrow> i < link_count st \<Longrightarrow> server_ok X (flush_link i st)"
  using drop_front_server_ok [of X st i "pending_queue (link_at st i)" "snd (flush_pending_queue (link_at st i))"]
  by (simp add: flush_link_def flush_pending_queue_def upd_link_def)

lemma release_link_frame [simp]:
  "link_count (release_link i st) = link_count st" "renderers (release_link i st) = renderers st"
  "renderer_at (release_link i st) = renderer_at st" "output_at (release_link i st) = output_at st"
  "received (release_link i st) = received st" "outputs (release_link i st) = outputs st"
  "throttle_output (release_link i st) = throttle_output st" "policy (release_link i st) = policy st"
  "renderer_count (release_link i st) = renderer_count st"
  "link_renderer (link_at (release_link i st) j) = link_renderer (link_at st j)"
  "link_output (link_at (release_link i st) j) = link_output (link_at st j)"
  "link_valid (link_at (release_link i st) j) = link_valid (link_at st j)"
  by (simp_all add: release_link_def destroy_link_def)

lemma release_links_ok:
  "server_ok X st \<Longrightarrow> \<forall>i \<in> set is. i < link_count st \<Longrightarrow> server_ok X (fold release_link is st)"
  by (induction "is" arbitrary: st) (auto simp: release_link_ok)

lemma release_links_frame [simp]:
  "link_count (fold release_link is st) = link_count st" "renderers (fold release_link is st) = renderers st"
  "renderer_at (fold release_link is st) = renderer_at st" "output_at (fold release_link is st) = output_at st"
  "received (fold release_link is st) = received st" "outputs (fold release_link is st) = outputs st"
  "throttle_output (fold release_link is st) = throttle_output st" "policy (fold release_link is st) = policy st"
  "renderer_count (fold release_link is st) = renderer_count st"
  "link_renderer (link_at (fold release_link is st) j) = link_renderer (link_at st j)"
  "link_output (link_at (fold release_link is st) j) = link_output (link_at st j)"
  "link_valid (link_at (fold release_link is st) j) = link_valid (link_at st j)"
  by (induction "is" arbitrary: st) simp_all

lemma flush_links_ok:
  assumes "server_ok X st" "\<forall>i \<in> set is. i < link_count st"
  shows "server_ok X (fold flush_link is st) \<and> renderer_at (fold flush_link is st) = renderer_at st \<and>
    renderers (fold flush_link is st) = renderers st"
  using assms
proof (induction "is" arbitrary: st)
  case (Cons i js)
  have "link_count (flush_link i st) = link_count st" "renderer_at (flush_link i st) = renderer_at st"
    "renderers (flush_link i st) = renderers st"
    by (simp_all add: flush_link_def)
  then show ?case using Cons.IH [of "flush_link i st"] Cons.prems flush_link_ok by simp
qed simp

section \<open>Linking\<close>

lemma server_okD:
  assumes "server_ok X st"
  shows "distinct (renderers st)"
    "\<And>r. r \<in> set (renderers st) \<Longrightarrow> r < renderer_count st"
    "\<And>i. i < link_count st \<Longrightarrow> link_renderer (link_at st i) < renderer_count st"
    "\<And>r. r \<in> set (renderers st) \<Longrightarrow> \<not> is_shutdown (renderer_at st r)"
    "\<And>r. r \<in> set (renderers st) \<Longrightarrow> distinct (renderer_links (renderer_at st r))"
    "\<And>r i. r \<in> set (renderers st) \<Longrightarrow> i \<in> set (renderer_links (renderer_at st r)) \<Longrightarrow> owns st r i"
    "\<And>r i. r \<in> set (renderers st) \<Longrightarrow> i \<in> set (renderer_links (renderer_at st r)) \<Longrightarrow>
       i \<in> set (o_links (output_at st (link_output (link_at st i)))) \<or> i \<in> X"
    "\<And>o'. distinct (o_links (output_at st o'))"
    "\<And>o' i. i \<in> set (o_links (output_at st o')) \<Longrightarrow> i < link_count st"
    "\<And>o' i. i \<in> set (o_links (output_at st o')) \<Longrightarrow> link_output (link_at st i) = o'"
    "\<And>r i. r \<in> set (renderers st) \<Longrightarrow> owns st r i \<Longrightarrow> i \<notin> set (renderer_links (renderer_at st r)) \<Longrightarrow> i \<notin> X \<Longrightarrow>
       pending_queue (link_at st i) = []"
    "queues_ok (history st) st"
    "\<And>r i. r \<in> set (renderers st) \<Longrightarrow> i \<in> set (renderer_links (renderer_at st r)) \<Longrightarrow> link_valid (link_at st i)"
  using assms unfolding server_ok_def lists_ok_def orphans_ok_def by auto

lemma server_okI:
  assumes "distinct (renderers st)"
    "\<And>r. r \<in> set (renderers st) \<Longrightarrow> r < renderer_count st"
    "\<And>i. i < link_count st \<Longrightarrow> link_renderer (link_at st i) < renderer_count st"
    "\<And>r. r \<in> set (renderers st) \<Longrightarrow> \<not> is_shutdown (renderer_at st r)"
    "\<And>r. r \<in> set (renderers st) \<Longrightarrow> distinct (renderer_links (renderer_at st r))"
    "\<And>r i. r \<in> set (renderers st) \<Longrightarrow> i \<in> set (renderer_links (renderer_at st r)) \<Longrightarrow> owns st r i"
    "\<And>r i. r \<in> set (renderers st) \<Longrightarrow> i \<in> set (renderer_links (renderer_at st r)) \<Longrightarrow>
       i \<in> set (o_links (output_at st (link_output (link_at st i)))) \<or> i \<in> X"
    "\<And>o'. distinct (o_links (output_at st o'))"
    "\<And>o' i. i \<in> set (o_links (output_at st o')) \<Longrightarrow> i < link_count st"
    "\<And>o' i. i \<in> set (o_links (output_at st o')) \<Longrightarrow> link_output (link_at st i) = o'"
    "\<And>r i. r \<in> set (renderers st) \<Longrightarrow> owns st r i \<Longrightarrow> i \<notin> set (renderer_links (renderer_at st r)) \<Longrightarrow> i \<notin> X \<Longrightarrow>
       pending_queue (link_at st i) = []"
    "queues_ok (history st) st"
    "\<And>r i. r \<in> set (renderers st) \<Longrightarrow> i \<in> set (renderer_links (renderer_at st r)) \<Longrightarrow> link_valid (link_at st i)"
  shows "server_ok X st"
  using assms unfolding server_ok_def lists_ok_def orphans_ok_def by auto

definition add_link :: "audio_link \<Rightarrow> audio_server \<Rightarrow> audio_server" where
  "add_link l st = (upd_link (link_count st) (\<lambda>_. l) st)\<lparr>link_count := link_count st + 1\<rparr>"

lemma add_link_simps [simp]:
  "link_at (add_link l st) = (link_at st)(link_count st := l)" "link_count (add_link l st) = Suc (link_count st)"
  "ref_count (add_link l st) = ref_count st" "renderer_count (add_link l st) = renderer_count st"
  "renderer_at (add_link l st) = renderer_at st" "output_at (add_link l st) = output_at st"
  "cleanup_queue (add_link l st) = cleanup_queue st" "cleaned_up (add_link l st) = cleaned_up st"
  "renderers (add_link l st) = renderers st" "outputs (add_link l st) = outputs st"
  "throttle_output (add_link l st) = throttle_output st" "received (add_link l st) = received st"
  "policy (add_link l st) = policy st"
  by (simp_all add: add_link_def)

lemma owns_add_link:
  "owns (add_link l st) r i \<longleftrightarrow> owns st r i \<or> i = link_count st \<and> link_renderer l = r"
  by (auto simp: owns_def)

lemma held_add_empty:
  assumes "pending_queue l = []"
  shows "held (add_link l st) r = held st r"
proof (cases "held st r = 0")
  case True
  have "pending_queue (link_at (add_link l st) i) = []" if "owns (add_link l st) r i" for i
    using that assms held_ge [of st r i] True by (auto simp: owns_add_link owns_def)
  then show ?thesis using True held_all_empty by simp
next
  case False
  then obtain i where i: "owns st r i" "held st r = length (pending_queue (link_at st i))"
    using held_cases [of st r] by auto
  show ?thesis
  proof (rule held_eqI [of _ _ i])
    show "owns (add_link l st) r i" using i(1) by (simp add: owns_add_link)
    show "length (pending_queue (link_at (add_link l st) i)) = held st r" using i by (simp add: owns_def)
    show "length (pending_queue (link_at (add_link l st) j)) \<le> held st r" if "owns (add_link l st) r j" for j
      using that assms held_ge [of st r j] by (auto simp: owns_add_link owns_def)
  qed
qed

lemma add_link_ok:
  assumes "server_ok X st" "pending_queue l = []" "link_renderer l < renderer_count st"
  shows "server_ok X (add_link l st)"
proof -
  note ok = server_okD [OF assms(1)]
  have q: "queues_ok (history st) (add_link l st)"
    using ok(12) assms(2) held_add_empty [OF assms(2), of st]
    by (auto simp: queues_ok_def suffixes_ok_def returned_ok_def returned_def less_Suc_eq)
  have h: "history (add_link l st) = history st" by (simp add: history_def fun_eq_iff)
  have new: "link_count st \<notin> set (o_links (output_at st o'))" for o' using ok(9) by blast
  have fresh: "r \<in> set (renderers st) \<Longrightarrow> i \<in> set (renderer_links (renderer_at st r)) \<Longrightarrow> i \<noteq> link_count st" for r i
    using ok(6) by (auto simp: owns_def)
  have less: "i \<in> set (o_links (output_at st o')) \<Longrightarrow> i \<noteq> link_count st \<and> i < Suc (link_count st)" for i o'
    using ok(9) [of i o'] by auto
  show ?thesis
  proof (rule server_okI)
    show "queues_ok (history (add_link l st)) (add_link l st)" using q h by simp
    show "link_renderer (link_at (add_link l st) i) < renderer_count (add_link l st)"
      if "i < link_count (add_link l st)" for i
      using that ok(3) assms(3) by (auto simp: less_Suc_eq)
    show "pending_queue (link_at (add_link l st) i) = []"
      if "r \<in> set (renderers (add_link l st))" "owns (add_link l st) r i"
        "i \<notin> set (renderer_links (renderer_at (add_link l st) r))" "i \<notin> X" for r i
      using that ok(11) assms(2) by (auto simp: owns_add_link)
    show "i \<in> set (o_links (output_at (add_link l st) (link_output (link_at (add_link l st) i)))) \<or> i \<in> X"
      if "r \<in> set (renderers (add_link l st))" "i \<in> set (renderer_links (renderer_at (add_link l st) r))" for r i
      using that ok(7) fresh by simp
    show "link_valid (link_at (add_link l st) i)"
      if "r \<in> set (renderers (add_link l st))" "i \<in> set (renderer_links (renderer_at (add_link l st) r))" for r i
      using ok(13) fresh that by simp
  qed (use ok(1,2,4,5,6,8,10) less in \<open>auto simp: owns_add_link\<close>)
qed

lemma output_takes_link_ok:
  assumes "server_ok X st" "i < link_count st" "link_output (link_at st i) = o'" "i \<notin> set (o_links (output_at st o'))"
  shows "server_ok X (upd_output o' (\<lambda>x. x\<lparr>o_links := o_links x @ [i]\<rparr>) st)" (is "server_ok X ?st")
proof -
  note ok = server_okD [OF assms(1)]
  have q: "queues_ok (history st) ?st" by (rule queues_ok_cong [OF ok(12)]) (simp_all add: returned_def)
  have h: "history ?st = history st" by (simp add: history_def fun_eq_iff)
  have owns: "owns ?st = owns st" by (simp add: owns_def fun_eq_iff)
  show ?thesis
  proof (rule server_okI)
    show "queues_ok (history ?st) ?st" using q h by simp
    show "j \<in> set (o_links (output_at ?st (link_output (link_at ?st j)))) \<or> j \<in> X"
      if "r \<in> set (renderers ?st)" "j \<in> set (renderer_links (renderer_at ?st r))" for r j
      using ok(7) that by auto
    show "link_output (link_at ?st j) = p" if "j \<in> set (o_links (output_at ?st p))" for j p
      using ok(10) assms(3) that by (auto split: if_splits)
    show "j < link_count ?st" if "j \<in> set (o_links (output_at ?st p))" for j p
      using ok(9) [of j p] assms(2) that by (auto split: if_splits)
  qed (use ok(1-6,8,11,13) assms(4) in \<open>auto simp: owns\<close>)
qed

lemma renderer_takes_link_ok:
  assumes "server_ok X st" "r \<in> set (renderers st)" "owns st r i"
    and "i \<in> set (o_links (output_at st (link_output (link_at st i))))"
    and "\<not> is_shutdown (f (renderer_at st r))" "distinct (renderer_links (f (renderer_at st r)))"
    and "set (renderer_links (f (renderer_at st r))) = insert i (set (renderer_links (renderer_at st r)))"
    and "link_valid (link_at st i)"
  shows "server_ok X (upd_renderer r f st)" (is "server_ok X ?st")
proof -
  note ok = server_okD [OF assms(1)]
  have q: "queues_ok (history st) ?st" by (rule queues_ok_cong [OF ok(12)]) (simp_all add: returned_def)
  have h: "history ?st = history st" by (simp add: history_def fun_eq_iff)
  have owns: "owns ?st = owns st" by (simp add: owns_def fun_eq_iff)
  show ?thesis
  proof (rule server_okI)
    show "j \<in> set (o_links (output_at ?st (link_output (link_at ?st j)))) \<or> j \<in> X"
      if "r' \<in> set (renderers ?st)" "j \<in> set (renderer_links (renderer_at ?st r'))" for r' j
      using ok(7) [of r' j] ok(7) [of r j] that assms(2,4,7) by (auto split: if_splits)
    show "pending_queue (link_at ?st j) = []"
      if "r' \<in> set (renderers ?st)" "owns ?st r' j" "j \<notin> set (renderer_links (renderer_at ?st r'))" "j \<notin> X" for r' j
      using ok(11) [of r' j] that assms(7) by (auto simp: owns split: if_splits)
    show "owns ?st r' j" if "r' \<in> set (renderers ?st)" "j \<in> set (renderer_links (renderer_at ?st r'))" for r' j
      using ok(6) [of r' j] that assms(3,7) by (auto simp: owns split: if_splits)
    show "link_valid (link_at ?st j)" if "r' \<in> set (renderers ?st)" "j \<in> set (renderer_links (renderer_at ?st r'))" for r' j
      using ok(13) [of r' j] that assms(7,8) by (auto split: if_splits)
  qed (use ok(1-5,8-10) assms(5,6) q h in \<open>auto split: if_splits\<close>)
qed

text \<open>A new output starts with what the throttle output still has to play.\<close>

lemma init_queue_ok:
  assumes "server_ok X st" "r \<in> set (renderers st)" "owns st r t" "owns st r i" "i \<in> set (renderer_links (renderer_at st r))"
    and "init_pending_queue (link_at st t) (link_at st i) = Some l"
  shows "server_ok X (upd_link i (\<lambda>_. l) st)" (is "server_ok X ?st")
proof (cases "pending_queue (link_at st t) = []")
  case True
  then have "l = link_at st i" using assms(6) by (simp add: init_pending_queue_def)
  then show ?thesis using assms(1) by (simp add: upd_link_def)
next
  case False
  then have l: "l = (link_at st i)\<lparr>pending_queue := pending_queue (link_at st t)\<rparr>" "pending_queue (link_at st i) = []"
    using assms(6) by (auto simp: init_pending_queue_def bind_Some_iff)
  note ok = server_okD [OF assms(1)]
  have owns: "owns ?st = owns st" by (simp add: owns_def fun_eq_iff l)
  have same: "link_renderer (link_at ?st j) = link_renderer (link_at st j)"
    "link_output (link_at ?st j) = link_output (link_at st j)" "link_valid (link_at ?st j) = link_valid (link_at st j)" for j
    by (simp_all add: l)
  have held: "held ?st r' = held st r'" for r'
  proof (cases "r' = r")
    case True
    have ge: "length (pending_queue (link_at ?st j)) \<le> held st r" if "owns st r j" for j
      using held_ge [OF that] held_ge [OF assms(3)] by (simp add: l)
    have "0 < length (pending_queue (link_at st t))" using False by simp
    then have "held st r \<noteq> 0" using held_ge [OF assms(3)] by linarith
    then obtain j where j: "owns st r j" "held st r = length (pending_queue (link_at st j))"
      using held_cases [of st r] by auto
    then have "j \<noteq> i" using l(2) \<open>held st r \<noteq> 0\<close> by auto
    then show ?thesis unfolding True
      using j ge by (intro held_eqI [of _ _ j]) (simp_all add: owns)
  next
    case False
    then show ?thesis using assms(4) by (intro held_cong) (auto simp: owns owns_def)
  qed
  have "queues_ok (history st) ?st"
    using ok(12) assms(3,4) held
    by (auto simp: queues_ok_def suffixes_ok_def returned_ok_def returned_def l owns_def)
  moreover have "history ?st = history st" by (simp add: history_def fun_eq_iff)
  ultimately have q: "queues_ok (history ?st) ?st" by simp
  show ?thesis
  proof (rule server_okI)
    show "pending_queue (link_at ?st j) = []"
      if "r' \<in> set (renderers ?st)" "owns ?st r' j" "j \<notin> set (renderer_links (renderer_at ?st r'))" "j \<notin> X" for r' j
    proof -
      have "j \<noteq> i" using that assms(4,5) by (auto simp: owns owns_def)
      then show ?thesis using that ok(11) by (simp add: owns)
    qed
  qed (use ok(1-10,13) q same in \<open>auto simp: owns simp del: upd_link_simps(1)\<close>)
qed

lemma initialize_link_routing:
  assumes "initialize_link o' i st = Some (res, st')"
  shows "same_routing st st' \<and> output_at st' = output_at st \<and> renderer_at st' = renderer_at st \<and>
    throttle_output st' = throttle_output st \<and> outputs st' = outputs st \<and> policy st' = policy st"
  using assms by (auto simp: initialize_link_def same_routing_def bind_Some_iff split: option.splits if_splits)

lemma renderer_links_simps [simp]:
  "renderer_links (x\<lparr>output_links := is\<rparr>) = is @ (case throttle_output_link x of None \<Rightarrow> [] | Some i \<Rightarrow> [i])"
  "renderer_links (x\<lparr>throttle_output_link := t\<rparr>) = output_links x @ (case t of None \<Rightarrow> [] | Some i \<Rightarrow> [i])"
  by (simp_all add: renderer_links_def)

lemma renderer_set_throttle_ok:
  assumes "server_ok X st" "r \<in> set (renderers st)" "owns st r i"
    and "i \<in> set (o_links (output_at st (link_output (link_at st i))))" "i \<notin> set (renderer_links (renderer_at st r))"
    and "renderer_set_throttle_output r i st = Some st'" "link_valid (link_at st i)"
  shows "server_ok X st'"
proof -
  have t: "throttle_output_link (renderer_at st r) = None"
    and st': "st' = upd_renderer r (\<lambda>x. x\<lparr>throttle_output_link := Some i\<rparr>) st"
    using assms(6) by (auto simp: renderer_set_throttle_output_def bind_Some_iff)
  show ?thesis unfolding st'
    using server_okD(4,5) [OF assms(1,2)] t assms(5,7)
    by (intro renderer_takes_link_ok [OF assms(1-4)]) (auto simp: renderer_links_def)
qed

lemma renderer_add_output_ok:
  assumes "server_ok X st" "r \<in> set (renderers st)" "owns st r i"
    and "i \<in> set (o_links (output_at st (link_output (link_at st i))))" "i \<notin> set (renderer_links (renderer_at st r))"
    and "renderer_add_output r i st = Some st'"
  shows "server_ok X st'"
proof -
  let ?st1 = "upd_renderer r (\<lambda>x. x\<lparr>output_links := output_links x @ [i]\<rparr>) st"
  have "link_valid (link_at st i)" using assms(6) by (auto simp: renderer_add_output_def bind_Some_iff)
  then have st1: "server_ok X ?st1"
    using server_okD(4,5) [OF assms(1,2)] assms(5)
    by (intro renderer_takes_link_ok [OF assms(1-4)]) (auto simp: renderer_links_def split: option.splits)
  show ?thesis
  proof (cases "throttle_output_link (renderer_at st r)")
    case None
    then show ?thesis using assms(6) st1 by (simp add: renderer_add_output_def bind_Some_iff)
  next
    case (Some t)
    then obtain l where l: "init_pending_queue (link_at ?st1 t) (link_at ?st1 i) = Some l" "st' = upd_link i (\<lambda>_. l) ?st1"
      using assms(6) by (auto simp: renderer_add_output_def bind_Some_iff)
    have "owns ?st1 r t"
      using server_okD(6) [OF assms(1,2), of t] Some by (simp add: owns_def renderer_links_def)
    then show ?thesis unfolding l(2)
      using l(1) assms(2,3) by (intro init_queue_ok [OF st1, of r t]) (simp_all add: owns_def)
  qed
qed

text \<open>What linking leaves alone.\<close>

definition same_world :: "audio_server \<Rightarrow> audio_server \<Rightarrow> bool" where
  "same_world st st' \<longleftrightarrow> renderers st' = renderers st \<and> outputs st' = outputs st \<and>
     throttle_output st' = throttle_output st \<and> policy st' = policy st \<and>
     (\<forall>o'. plugged (output_at st' o') = plugged (output_at st o') \<and>
           plug_time (output_at st' o') = plug_time (output_at st o') \<and>
           shutting_down (output_at st' o') = shutting_down (output_at st o') \<and>
           o_format (output_at st' o') = o_format (output_at st o')) \<and>
     (\<forall>r. renderer_format (renderer_at st' r) = renderer_format (renderer_at st r))"

lemma same_world_refl [simp]: "same_world st st"
  by (simp add: same_world_def)

lemma same_world_trans: "same_world a b \<Longrightarrow> same_world b c \<Longrightarrow> same_world a c"
  by (simp add: same_world_def)

lemma same_world_upd [simp]:
  "same_world st (upd_link i f st)" "same_world st (add_link l st)"
  "same_world st (upd_output o' (\<lambda>x. x\<lparr>o_links := g x\<rparr>) st)"
  "same_world st (upd_renderer r (\<lambda>x. x\<lparr>output_links := h x\<rparr>) st)"
  "same_world st (upd_renderer r (\<lambda>x. x\<lparr>throttle_output_link := t x\<rparr>) st)"
  "same_world st (release_link i st)" "same_world st (fold release_link is st)"
  by (simp_all add: same_world_def)

text \<open>The steps of \<open>LinkOutputToRenderer\<close> after the format check.\<close>

lemma link_output_cases:
  assumes "link_output_to_renderer o' r st = Some st'" "renderer_format (renderer_at st r) = Some f"
  obtains (refused) l st1 where "link_create r (Some f) o' = Some l" "same_routing (add_link l st) st1"
      "same_world st st1" "st' = st1" "renderer_at st1 = renderer_at st"
      "mixer_select (fi_format f) (o_format (output_at st o')) = Some None \<or> shutting_down (output_at st o')"
    | (linked) l st1 st2 where "link_create r (Some f) o' = Some l" "same_routing (add_link l st) st1"
      "same_world st st1" "output_at st1 = output_at st" "renderer_at st1 = renderer_at st"
      "st2 = upd_output o' (\<lambda>x. x\<lparr>o_links := o_links x @ [link_count st]\<rparr>) st1"
      "link_count st \<notin> set (o_links (output_at st o'))"
      "(if o' = throttle_output st then renderer_set_throttle_output r (link_count st) st2
        else renderer_add_output r (link_count st) st2) = Some st'"
proof -
  obtain l res st1 where l: "link_create r (Some f) o' = Some l"
    and add: "add_renderer_link o' (link_count st) (add_link l st) = Some (res, st1)"
    and fin: "(if res = RESULT_OK
         then if o' = throttle_output st1 then renderer_set_throttle_output r (link_count st) st1
              else renderer_add_output r (link_count st) st1
         else Some st1) = Some st'"
    using assms unfolding link_output_to_renderer_def
    by (auto simp: bind_Some_iff add_link_def Let_def link_create_def)
  obtain res0 st0 where i: "initialize_link o' (link_count st) (add_link l st) = Some (res0, st0)"
    and rest: "(if res0 = RESULT_OK then do {
        dcheck (link_output (link_at st0 (link_count st)) = o');
        (if shutting_down (output_at st0 o') then Some (SHUTTING_DOWN, st0)
         else do {
           dcheck (link_count st \<notin> set (o_links (output_at st0 o')));
           Some (RESULT_OK, upd_output o' (\<lambda>x. x\<lparr>o_links := o_links x @ [link_count st]\<rparr>) st0)
         })
      } else Some (res0, st0)) = Some (res, st1)"
    using add unfolding add_renderer_link_def by (auto simp: bind_Some_iff)
  have st0: "same_routing (add_link l st) st0" "output_at st0 = output_at st" "renderer_at st0 = renderer_at st"
    "throttle_output st0 = throttle_output st" "outputs st0 = outputs st" "policy st0 = policy st"
    using initialize_link_routing [OF i] by simp_all
  then have world: "same_world st st0" by (simp add: same_world_def same_routing_def)
  have lf: "link_format l = f" using l by (auto simp: link_create_def)
  consider "res0 \<noteq> RESULT_OK" | "res0 = RESULT_OK" "shutting_down (output_at st o')"
    | "res0 = RESULT_OK" "\<not> shutting_down (output_at st o')" by blast
  then show thesis
  proof cases
    case 1
    then have "res \<noteq> RESULT_OK" "st1 = st0" using rest by auto
    moreover have "mixer_select (fi_format f) (o_format (output_at st o')) = Some None"
      using i 1 lf by (auto simp: initialize_link_def bind_Some_iff split: option.splits)
    ultimately show ?thesis using refused [OF l st0(1) world] fin st0 by simp
  next
    case 2
    then have "res \<noteq> RESULT_OK" "st1 = st0" using rest st0(2) by (auto simp: bind_Some_iff)
    then show ?thesis using refused [OF l st0(1) world] fin st0 2 by simp
  next
    case 3
    then have "res = RESULT_OK" "link_count st \<notin> set (o_links (output_at st o'))"
      "st1 = upd_output o' (\<lambda>x. x\<lparr>o_links := o_links x @ [link_count st]\<rparr>) st0"
      using rest st0(2) by (auto simp: bind_Some_iff)
    then show ?thesis
      by (intro linked [OF l st0(1) world st0(2,3)]) (use fin st0(4) in simp_all)
  qed
qed

lemma renderer_add_world:
  "renderer_add_output r i st = Some st' \<Longrightarrow> same_world st st'"
  "renderer_set_throttle_output r i st = Some st' \<Longrightarrow> same_world st st'"
  "renderer_remove_output r i st = Some st' \<Longrightarrow> same_world st st'"
  by (auto simp: renderer_add_output_def renderer_set_throttle_output_def renderer_remove_output_def same_world_def
      bind_Some_iff Let_def split: option.splits if_splits)

lemma link_output_to_renderer_ok:
  assumes "server_ok X st" "r \<in> set (renderers st)" "link_output_to_renderer o' r st = Some st'"
  shows "server_ok X st' \<and> same_world st st'"
proof (cases "renderer_format (renderer_at st r)")
  case None
  then show ?thesis using assms by (simp add: link_output_to_renderer_def)
next
  case (Some f)
  note ok = server_okD [OF assms(1)]
  have new: "server_ok X (add_link l st)" if "link_create r (Some f) o' = Some l" for l
    using that ok(2) [OF assms(2)] by (intro add_link_ok [OF assms(1)]) (auto simp: link_create_def)
  show ?thesis using assms(3) Some
  proof (cases rule: link_output_cases)
    case (refused l st1)
    then show ?thesis using same_routing_ok [OF refused(2) new [OF refused(1)]] by simp
  next
    case (linked l st1 st2)
    let ?i = "link_count st"
    have st1: "server_ok X st1" by (rule same_routing_ok [OF linked(2) new [OF linked(1)]])
    have i: "?i < link_count st1" "link_output (link_at st1 ?i) = o'" "link_renderer (link_at st1 ?i) = r"
      using linked(1,2) by (auto simp: same_routing_def link_create_def)
    have st2: "server_ok X st2" unfolding linked(6)
      using linked(4,7) by (intro output_takes_link_ok [OF st1 i(1,2)]) simp
    have r: "r \<in> set (renderers st2)" using linked(3,6) assms(2) by (simp add: same_world_def)
    have own: "owns st2 r ?i" using i linked(6) by (simp add: owns_def)
    have on: "?i \<in> set (o_links (output_at st2 (link_output (link_at st2 ?i))))" using i linked(6) by simp
    have off: "?i \<notin> set (renderer_links (renderer_at st2 r))"
      using ok(6) [OF assms(2)] linked(5,6) by (auto simp: owns_def)
    have w2: "same_world st st2"
      unfolding linked(6) by (rule same_world_trans [OF linked(3) same_world_upd(3)])
    have "server_ok X st' \<and> same_world st2 st'"
    proof (cases "o' = throttle_output st")
      case True
      then have "renderer_set_throttle_output r ?i st2 = Some st'" using linked(8) by simp
      moreover have "link_valid (link_at st2 ?i)"
        using linked(1,2,6) by (auto simp: same_routing_def link_create_def)
      ultimately show ?thesis using renderer_set_throttle_ok [OF st2 r own on off] renderer_add_world(2) by blast
    next
      case False
      then have "renderer_add_output r ?i st2 = Some st'" using linked(8) by simp
      then show ?thesis using renderer_add_output_ok [OF st2 r own on off] renderer_add_world(1) by blast
    qed
    then show ?thesis using same_world_trans [OF w2] by simp
  qed
qed

lemma link_all_ok:
  assumes "server_ok X st" "snd ` set xs \<subseteq> set (renderers st)" "link_all xs st = Some st'"
  shows "server_ok X st' \<and> same_world st st'"
  using assms
proof (induction xs arbitrary: st)
  case (Cons x xs)
  obtain o' r where x: "x = (o', r)" by fastforce
  obtain st1 where st1: "link_output_to_renderer o' r st = Some st1" "link_all xs st1 = Some st'"
    using Cons.prems(3) by (auto simp: x bind_Some_iff)
  have "server_ok X st1 \<and> same_world st st1"
    using Cons.prems(1,2) st1(1) by (intro link_output_to_renderer_ok) (auto simp: x)
  then show ?case using Cons.IH [of st1] Cons.prems(2) st1(2) same_world_trans by (auto simp: same_world_def)
qed simp

section \<open>Unlinking\<close>

text \<open>More links may be in transit.\<close>

lemma server_ok_mono: "server_ok X st \<Longrightarrow> X \<subseteq> Y \<Longrightarrow> server_ok Y st"
  unfolding server_ok_def lists_ok_def orphans_ok_def by blast

lemma in_transit_done:
  assumes "server_ok X st"
    and "\<And>r i. r \<in> set (renderers st) \<Longrightarrow> i \<in> X \<Longrightarrow> i \<notin> set (renderer_links (renderer_at st r))"
    and "\<And>r i. r \<in> set (renderers st) \<Longrightarrow> i \<in> X \<Longrightarrow> owns st r i \<Longrightarrow> pending_queue (link_at st i) = []"
  shows "server_ok {} st"
proof -
  note ok = server_okD [OF assms(1)]
  show ?thesis
  proof (rule server_okI)
    show "i \<in> set (o_links (output_at st (link_output (link_at st i)))) \<or> i \<in> {}"
      if "r \<in> set (renderers st)" "i \<in> set (renderer_links (renderer_at st r))" for r i
      using ok(7) [OF that] assms(2) [OF that(1)] that(2) by blast
    show "pending_queue (link_at st i) = []"
      if "r \<in> set (renderers st)" "owns st r i" "i \<notin> set (renderer_links (renderer_at st r))" for r i
      using ok(11) [OF that] assms(3) [OF that(1) _ that(2)] by blast
  qed (rule ok(1-6,8-10,12,13); assumption)+
qed

text \<open>What taking links away from renderers leaves alone.\<close>

definition unlinks :: "audio_server \<Rightarrow> audio_server \<Rightarrow> bool" where
  "unlinks st st' \<longleftrightarrow> same_world st st' \<and> link_count st' = link_count st \<and> output_at st' = output_at st \<and>
     (\<forall>j. link_renderer (link_at st' j) = link_renderer (link_at st j) \<and> link_output (link_at st' j) = link_output (link_at st j)) \<and>
     (\<forall>r. set (renderer_links (renderer_at st' r)) \<subseteq> set (renderer_links (renderer_at st r)) \<and>
          set (output_links (renderer_at st' r)) \<subseteq> set (output_links (renderer_at st r)))"

lemma unlinks_refl [simp]: "unlinks st st"
  by (simp add: unlinks_def)

lemma unlinks_trans: "unlinks a b \<Longrightarrow> unlinks b c \<Longrightarrow> unlinks a c"
  unfolding unlinks_def using same_world_trans by (simp; blast)

lemma unlinksD:
  assumes "unlinks st st'"
  shows "renderers st' = renderers st" "same_world st st'" "link_count st' = link_count st" "output_at st' = output_at st"
    "link_renderer (link_at st' j) = link_renderer (link_at st j)" "link_output (link_at st' j) = link_output (link_at st j)"
    "i \<in> set (renderer_links (renderer_at st' r)) \<Longrightarrow> i \<in> set (renderer_links (renderer_at st r))"
    "i \<in> set (output_links (renderer_at st' r)) \<Longrightarrow> i \<in> set (output_links (renderer_at st r))"
  using assms unfolding unlinks_def same_world_def by blast+

lemma output_drops_links_ok:
  assumes "server_ok {} st"
  shows "server_ok (set (o_links (output_at st o'))) (upd_output o' (\<lambda>x. x\<lparr>o_links := []\<rparr>) st)" (is "server_ok _ ?st")
proof -
  note ok = server_okD [OF assms(1)]
  have q: "queues_ok (history st) ?st" by (rule queues_ok_cong [OF ok(12)]) (simp_all add: returned_def)
  have h: "history ?st = history st" by (simp add: history_def fun_eq_iff)
  have owns: "owns ?st = owns st" by (simp add: owns_def fun_eq_iff)
  show ?thesis
  proof (rule server_okI)
    show "i \<in> set (o_links (output_at ?st (link_output (link_at ?st i)))) \<or> i \<in> set (o_links (output_at st o'))"
      if "r \<in> set (renderers ?st)" "i \<in> set (renderer_links (renderer_at ?st r))" for r i
      using ok(7) [of r i] that by auto
    show "i < link_count ?st" if "i \<in> set (o_links (output_at ?st p))" for i p
      using ok(9) [of i p] that by (simp split: if_splits)
  qed (use ok(1-6,8,10,11,13) q h in \<open>auto simp: owns split: if_splits\<close>)
qed

lemma renderer_remove_output_ok:
  assumes "server_ok X st" "i \<in> X" "r \<in> set (renderers st)" "renderer_remove_output r i st = Some st'"
  shows "server_ok X st' \<and> unlinks st st' \<and> i \<notin> set (renderer_links (renderer_at st' r))"
proof -
  note ok = server_okD [OF assms(1)]
  let ?st = "upd_link i invalidate st"
  obtain f where st': "st' = upd_renderer r f ?st"
    and f: "set (renderer_links (f (renderer_at st r))) = set (renderer_links (renderer_at st r)) - {i}"
      "distinct (renderer_links (f (renderer_at st r)))" "is_shutdown (f (renderer_at st r)) = is_shutdown (renderer_at st r)"
      "set (output_links (f (renderer_at st r))) \<subseteq> set (output_links (renderer_at st r))"
  proof (cases "throttle_output_link (renderer_at st r) = Some i")
    case True
    then have "i \<notin> set (output_links (renderer_at st r))" "distinct (output_links (renderer_at st r))"
      using ok(5) [OF assms(3)] by (auto simp: renderer_links_def)
    then show thesis using assms(4) True
      by (intro that [of "\<lambda>x. x\<lparr>throttle_output_link := None\<rparr>"])
        (auto simp: renderer_remove_output_def renderer_links_def)
  next
    case False
    then show thesis using assms(4) ok(5) [OF assms(3)]
      by (intro that [of "\<lambda>x. x\<lparr>output_links := remove1 i (output_links x)\<rparr>"])
        (auto simp: renderer_remove_output_def renderer_links_def bind_Some_iff Let_def split: option.splits
          dest: notin_set_remove1)
  qed
  have removed: "i \<in> set (renderer_links (renderer_at st r))"
    using assms(4) by (auto simp: renderer_remove_output_def renderer_links_def bind_Some_iff split: if_splits)
  have li: "link_renderer (link_at st' j) = link_renderer (link_at st j)"
    "link_output (link_at st' j) = link_output (link_at st j)"
    "pending_queue (link_at st' j) = pending_queue (link_at st j)" for j
    by (simp_all add: st' invalidate_def)
  have o: "owns st' = owns st" by (auto simp: owns_def fun_eq_iff st' invalidate_def)
  have q: "queues_ok (history st) st'"
    by (rule queues_ok_cong [OF ok(12)]) (simp_all add: returned_def st' invalidate_def)
  have h: "history st' = history st" by (simp add: history_def fun_eq_iff st')
  have sub: "j \<in> set (renderer_links (renderer_at st' r')) \<Longrightarrow> j \<in> set (renderer_links (renderer_at st r'))" for j r'
    using f(1) by (auto simp: st' split: if_splits)
  have frame: "renderers st' = renderers st" "renderer_count st' = renderer_count st" "link_count st' = link_count st"
    "output_at st' = output_at st"
    by (simp_all add: st')
  have "server_ok X st'"
  proof (rule server_okI)
    show "pending_queue (link_at st' j) = []"
      if "r' \<in> set (renderers st')" "owns st' r' j" "j \<notin> set (renderer_links (renderer_at st' r'))" "j \<notin> X" for r' j
    proof -
      have "j \<notin> set (renderer_links (renderer_at st r'))"
        using that(3,4) assms(2) f(1) by (auto simp: st' split: if_splits)
      then show ?thesis using ok(11) [of r' j] that by (simp add: o frame li)
    qed
    show "j \<in> set (o_links (output_at st' (link_output (link_at st' j)))) \<or> j \<in> X"
      if "r' \<in> set (renderers st')" "j \<in> set (renderer_links (renderer_at st' r'))" for r' j
      using ok(7) [of r' j] that sub by (simp add: frame li)
    show "owns st' r' j" if "r' \<in> set (renderers st')" "j \<in> set (renderer_links (renderer_at st' r'))" for r' j
      using ok(6) [of r' j] that sub by (simp add: frame o)
    show "distinct (renderer_links (renderer_at st' r'))" "\<not> is_shutdown (renderer_at st' r')"
      if "r' \<in> set (renderers st')" for r'
      using ok(4,5) [of r'] that f(2,3) by (auto simp: st' split: if_splits)
    show "link_valid (link_at st' j)" if "r' \<in> set (renderers st')" "j \<in> set (renderer_links (renderer_at st' r'))" for r' j
    proof -
      have j: "j \<in> set (renderer_links (renderer_at st r'))" "r' \<in> set (renderers st)" using sub that by (auto simp: frame)
      have "j \<noteq> i"
      proof
        assume ji: "j = i"
        have "r' \<noteq> r"
        proof
          assume "r' = r"
          then have "j \<in> set (renderer_links (f (renderer_at st r)))" using that(2) by (simp add: st')
          then show False unfolding f(1) using ji by simp
        qed
        then show False using ok(6) [OF j(2,1)] ok(6) [OF assms(3) removed] ji by (simp add: owns_def)
      qed
      then show ?thesis using ok(13) [OF j(2,1)] by (simp add: st')
    qed
  qed (use ok(1-3,8-10) q h in \<open>simp_all add: frame li\<close>)
  moreover have "unlinks st st'"
    unfolding unlinks_def using renderer_add_world(3) [OF assms(4)] frame li sub f(4) by (simp add: subset_iff) (simp add: st')
  moreover have "i \<notin> set (renderer_links (renderer_at st' r))" using f(1) by (simp add: st')
  ultimately show ?thesis by simp
qed

lemma unlink_each_ok:
  assumes "server_ok X st" "set is \<subseteq> X" "unlink_each is st = Some st'"
  shows "server_ok X st' \<and> unlinks st st' \<and>
    (\<forall>i \<in> set is. \<forall>r \<in> set (renderers st). i \<notin> set (renderer_links (renderer_at st' r)))"
  using assms
proof (induction "is" arbitrary: st)
  case (Cons i js)
  let ?r = "link_renderer (link_at st i)"
  obtain st1 where st1: "(if ?r \<in> set (renderers st) then renderer_remove_output ?r i st else Some st) = Some st1"
    "unlink_each js st1 = Some st'"
    using Cons.prems(3) by (auto simp: bind_Some_iff)
  have X: "i \<in> X" "set js \<subseteq> X" using Cons.prems(2) by simp_all
  have one: "server_ok X st1 \<and> unlinks st st1"
  proof (cases "?r \<in> set (renderers st)")
    case True
    then have "renderer_remove_output ?r i st = Some st1" using st1(1) by simp
    from renderer_remove_output_ok [OF Cons.prems(1) X(1) True this] show ?thesis by simp
  qed (use st1(1) Cons.prems(1) in simp)
  have gone: "i \<notin> set (renderer_links (renderer_at st1 r))" if r: "r \<in> set (renderers st)" for r
  proof (cases "r = ?r")
    case True
    then have "renderer_remove_output ?r i st = Some st1" using st1(1) r by simp
    from renderer_remove_output_ok [OF Cons.prems(1) X(1) _ this] r True show ?thesis by simp
  next
    case False
    then have "i \<notin> set (renderer_links (renderer_at st r))"
      using server_okD(6) [OF Cons.prems(1) r, of i] by (auto simp: owns_def)
    then show ?thesis using unlinksD(7) one by blast
  qed
  have IH: "server_ok X st' \<and> unlinks st1 st' \<and>
    (\<forall>i \<in> set js. \<forall>r \<in> set (renderers st1). i \<notin> set (renderer_links (renderer_at st' r)))"
    using one by (intro Cons.IH [OF _ X(2) st1(2)]) simp
  have "unlinks st st'" using unlinks_trans one IH by blast
  moreover have "i \<notin> set (renderer_links (renderer_at st' r))" if "r \<in> set (renderers st)" for r
    using gone [OF that] unlinksD(7) IH by blast
  moreover have "renderers st1 = renderers st" using unlinksD(1) one by blast
  ultimately show ?case using IH by simp
qed simp

lemma release_links_empty:
  assumes "i \<in> set is" "\<not> link_referenced i st"
  shows "pending_queue (link_at (fold release_link is st) i) = []"
proof -
  have keep: "pending_queue (link_at st' i) = [] \<Longrightarrow> pending_queue (link_at (fold release_link js st') i) = []" for js st'
    by (induction js arbitrary: st') (auto simp: release_link_def destroy_link_def)
  have ref: "link_referenced i (release_link j st') = link_referenced i st'" for j st'
    by (simp add: link_referenced_def Let_def)
  show ?thesis using assms
  proof (induction "is" arbitrary: st)
    case (Cons j js)
    show ?case
    proof (cases "j = i")
      case True
      then have "pending_queue (link_at (release_link j st) i) = []"
        using Cons.prems(2) by (simp add: release_link_def destroy_link_def)
      then show ?thesis using keep by simp
    next
      case False
      then show ?thesis using Cons ref by simp
    qed
  qed simp
qed

lemma unlink_from_renderers_ok:
  assumes "server_ok {} st" "unlink_from_renderers o' st = Some st'"
  shows "server_ok {} st' \<and> same_world st st' \<and>
    (\<forall>p. o_links (output_at st' p) = (if p = o' then [] else o_links (output_at st p))) \<and>
    (\<forall>j. link_output (link_at st' j) = link_output (link_at st j)) \<and>
    (\<forall>r. set (output_links (renderer_at st' r)) \<subseteq> set (output_links (renderer_at st r)))"
proof -
  let ?old = "o_links (output_at st o')" and ?st1 = "upd_output o' (\<lambda>x. x\<lparr>o_links := []\<rparr>) st"
  obtain st2 where st2: "unlink_each ?old ?st1 = Some st2" and st': "st' = fold release_link ?old st2"
    using assms(2) by (auto simp: unlink_from_renderers_def bind_Some_iff Let_def)
  note un = unlink_each_ok [OF output_drops_links_ok [OF assms(1)] order.refl st2]
  then have ok2: "server_ok (set ?old) st2" and u: "unlinks ?st1 st2" by auto
  note ok = server_okD [OF assms(1)]
  have old: "i < link_count st2" "link_output (link_at st2 i) = o'" if "i \<in> set ?old" for i
    using ok(9,10) [OF that] unlinksD(3,6) [OF u] by simp_all
  have ok': "server_ok (set ?old) st'" unfolding st' using old ok2 by (intro release_links_ok) auto
  have gone: "i \<notin> set (renderer_links (renderer_at st2 r))" if "i \<in> set ?old" "r \<in> set (renderers st)" for i r
    using un that by simp
  have "server_ok {} st'"
  proof (rule in_transit_done [OF ok'])
    fix r i
    assume r: "r \<in> set (renderers st')" and i: "i \<in> set ?old"
    have rst: "r \<in> set (renderers st)" using r unlinksD(1) [OF u] by (simp add: st')
    show "i \<notin> set (renderer_links (renderer_at st' r))" using gone [OF i rst] by (simp add: st')
    assume "owns st' r i"
    then have "link_renderer (link_at st2 i) = r" by (simp add: owns_def st')
    then have "\<not> link_referenced i st2"
      using gone [OF i rst] old(2) [OF i] unlinksD(4) [OF u]
      by (auto simp: link_referenced_def Let_def renderer_links_def split: option.splits)
    then show "pending_queue (link_at st' i) = []" unfolding st' by (rule release_links_empty [OF i])
  qed
  moreover have "same_world st st'" unfolding st'
    by (rule same_world_trans [OF same_world_trans [OF _ unlinksD(2) [OF u]]]) simp_all
  ultimately show ?thesis using unlinksD(4,6,8) [OF u] by (auto simp: st')
qed

lemma unlink_outputs_ok:
  assumes "server_ok {} st" "unlink_outputs os st = Some st'"
  shows "server_ok {} st' \<and> same_world st st' \<and>
    (\<forall>p. o_links (output_at st' p) = (if p \<in> set os then [] else o_links (output_at st p))) \<and>
    (\<forall>j. link_output (link_at st' j) = link_output (link_at st j)) \<and>
    (\<forall>r. set (output_links (renderer_at st' r)) \<subseteq> set (output_links (renderer_at st r)))"
  using assms
proof (induction os arbitrary: st)
  case (Cons o' os)
  obtain st1 where st1: "unlink_from_renderers o' st = Some st1" "unlink_outputs os st1 = Some st'"
    using Cons.prems(2) by (auto simp: bind_Some_iff)
  note one = unlink_from_renderers_ok [OF Cons.prems(1) st1(1)]
  then have "server_ok {} st1" by simp
  note two = Cons.IH [OF this st1(2)]
  have "set (output_links (renderer_at st' r)) \<subseteq> set (output_links (renderer_at st r))" for r
    using one two by (meson subset_trans)
  then show ?case using one two same_world_trans [of st st1 st'] by auto
qed simp

lemma begin_shutdown_routing [simp]: "same_routing st (snd (begin_shutdown o' st))"
  by (simp add: begin_shutdown_def same_routing_def)

lemma update_plug_routing: "same_routing st (snd (update_plug_state o' p t st))"
  by (simp add: update_plug_state_def same_routing_def)

lemma output_init_routing [simp]: "same_routing st (output_init o' res plug st)"
  by (auto simp: output_init_def update_plug_state_def same_routing_def Let_def split: option.splits)

lemma output_shutdown_ok:
  assumes "server_ok {} st" "output_shutdown o' st = Some st'"
  shows "server_ok {} st' \<and> renderers st' = renderers st"
proof (cases "shut_down (output_at st o')")
  case False
  have r: "renderers (snd (begin_shutdown o' st)) = renderers st" by (simp add: begin_shutdown_def)
  obtain st1 where st1: "unlink_from_renderers o' (snd (begin_shutdown o' st)) = Some st1"
    "st' = upd_output o' (\<lambda>x. x\<lparr>shut_down := True\<rparr>) st1"
    using assms(2) False by (auto simp: output_shutdown_def bind_Some_iff)
  have "server_ok {} st1 \<and> same_world (snd (begin_shutdown o' st)) st1"
    using unlink_from_renderers_ok [OF same_routing_ok [OF begin_shutdown_routing assms(1)] st1(1)] by simp
  moreover have "same_routing st1 st'" unfolding st1(2) by (simp add: same_routing_def)
  ultimately show ?thesis using same_routing_ok r by (auto simp: same_world_def st1(2))
qed (use assms in \<open>simp add: output_shutdown_def\<close>)

lemma on_output_plugged_ok:
  assumes "server_ok {} st" "on_output_plugged o' st = Some st'"
  shows "server_ok {} st' \<and> same_world st st'"
proof (cases "policy st")
  case ALL_PLUGGED_OUTPUTS
  then have "link_all (map (Pair o') (renderers st)) st = Some st'"
    using assms(2) by (auto simp: on_output_plugged_def bind_Some_iff)
  then show ?thesis by (intro link_all_ok [OF assms(1)]) auto
next
  case LAST_PLUGGED_OUTPUT
  show ?thesis
  proof (cases "find_last_plugged_output st = Some o'")
    case True
    then obtain st1 where st1: "unlink_outputs (filter (\<lambda>x. x \<noteq> o') (outputs st)) st = Some st1"
      "link_all (map (Pair o') (renderers st1)) st1 = Some st'"
      using assms(2) LAST_PLUGGED_OUTPUT by (auto simp: on_output_plugged_def bind_Some_iff)
    have "server_ok {} st1" "same_world st st1" using unlink_outputs_ok [OF assms(1) st1(1)] by simp_all
    moreover have "server_ok {} st' \<and> same_world st1 st'"
      using st1(2) by (intro link_all_ok [OF calculation(1)]) auto
    ultimately show ?thesis using same_world_trans by blast
  qed (use assms LAST_PLUGGED_OUTPUT in \<open>auto simp: on_output_plugged_def bind_Some_iff\<close>)
qed

lemma on_output_unplugged_ok:
  assumes "server_ok {} st" "on_output_unplugged o' st = Some st'"
  shows "server_ok {} st' \<and> same_world st st'"
proof -
  obtain st1 where st1: "unlink_from_renderers o' st = Some st1"
    and rest: "(case policy st1 of
        LAST_PLUGGED_OUTPUT \<Rightarrow>
          (case find_last_plugged_output st1 of
             None \<Rightarrow> Some st1 | Some new \<Rightarrow> link_all (map (Pair new) (renderers st1)) st1)
      | ALL_PLUGGED_OUTPUTS \<Rightarrow> Some st1) = Some st'"
    using assms(2) by (auto simp: on_output_unplugged_def bind_Some_iff)
  have ok1: "server_ok {} st1" "same_world st st1" using unlink_from_renderers_ok [OF assms(1) st1] by simp_all
  have "st' = st1 \<or> (\<exists>new. link_all (map (Pair new) (renderers st1)) st1 = Some st')"
    using rest by (auto split: routing_policy.splits option.splits)
  then have "server_ok {} st' \<and> same_world st1 st'"
  proof
    assume "\<exists>new. link_all (map (Pair new) (renderers st1)) st1 = Some st'"
    then obtain new where "link_all (map (Pair new) (renderers st1)) st1 = Some st'" ..
    then show ?thesis by (intro link_all_ok [OF ok1(1)]) auto
  qed (use ok1 in simp)
  then show ?thesis using same_world_trans [OF ok1(2)] by simp
qed

lemma add_output_ok:
  assumes "server_ok {} st" "add_output o' res plug st = Some (res', st')"
  shows "server_ok {} st'"
proof -
  let ?st1 = "output_init o' res plug (st\<lparr>outputs := outputs st @ [o']\<rparr>)"
  obtain st2 where st2: "(if res \<noteq> RESULT_OK
             then output_shutdown o' (?st1\<lparr>outputs := remove1 o' (outputs ?st1)\<rparr>) else Some ?st1) = Some st2"
    "(if plugged (output_at st2 o') then on_output_plugged o' st2 else Some st2) = Some st'"
    using assms(2) by (auto simp: add_output_def bind_Some_iff Let_def)
  have outs: "same_routing x (x\<lparr>outputs := os\<rparr>)" for x os by (simp add: same_routing_def)
  have ok1: "server_ok {} ?st1"
    by (rule same_routing_ok [OF output_init_routing same_routing_ok [OF outs assms(1)]])
  have "server_ok {} st2"
    using st2(1) output_shutdown_ok [OF same_routing_ok [OF outs ok1]] ok1 by (auto split: if_splits)
  then show ?thesis using st2(2) on_output_plugged_ok by (auto split: if_splits)
qed

lemma shutdown_output_ok:
  assumes "server_ok {} st" "shutdown_output o' st = Some st'"
  shows "server_ok {} st'"
proof (cases "o' \<in> set (outputs st)")
  case True
  let ?st0 = "snd (update_plug_state o' False (plug_time (output_at st o')) st)"
  obtain st1 st2 where *: "(if fst (update_plug_state o' False (plug_time (output_at st o')) st)
         then on_output_unplugged o' ?st0 else Some ?st0) = Some st1"
    "output_shutdown o' st1 = Some st2" "st' = st2\<lparr>outputs := remove1 o' (outputs st2)\<rparr>"
    using assms(2) True by (auto simp: shutdown_output_def bind_Some_iff case_prod_unfold Let_def)
  have "server_ok {} ?st0" by (rule same_routing_ok [OF update_plug_routing assms(1)])
  then have "server_ok {} st1" using *(1) on_output_unplugged_ok by (auto split: if_splits)
  then have "server_ok {} st2" using output_shutdown_ok *(2) by blast
  then show ?thesis by (rule same_routing_ok [rotated]) (simp add: *(3) same_routing_def)
qed (use assms in \<open>auto simp: shutdown_output_def bind_Some_iff\<close>)

lemma handle_plug_state_change_ok:
  assumes "server_ok {} st" "handle_plug_state_change o' p t st = Some st'"
  shows "server_ok {} st'"
proof -
  let ?st = "snd (update_plug_state o' p t st)"
  have ok: "server_ok {} ?st" by (rule same_routing_ok [OF update_plug_routing assms(1)])
  have "?st = st' \<or> on_output_plugged o' ?st = Some st' \<or> on_output_unplugged o' ?st = Some st'"
    using assms(2) by (simp add: handle_plug_state_change_def case_prod_unfold Let_def split: if_splits)
  then show ?thesis using ok on_output_plugged_ok [OF ok] on_output_unplugged_ok [OF ok] by blast
qed

section \<open>Renderers come, change format and go\<close>

lemma create_renderer_ok:
  assumes "server_ok {} st" "create_renderer st = Some st'"
  shows "server_ok {} st'"
proof -
  note ok = server_okD [OF assms(1)]
  obtain x where x: "new_renderer = Some x"
    "st' = (upd_renderer (renderer_count st) (\<lambda>_. x) st)
       \<lparr>renderer_count := renderer_count st + 1, renderers := renderers st @ [renderer_count st]\<rparr>"
    using assms(2) by (auto simp: create_renderer_def bind_Some_iff Let_def)
  have new: "renderer_links x = []" "\<not> is_shutdown x"
    using x(1) by (auto simp: new_renderer_def bind_Some_iff renderer_links_def)
  have fresh: "renderer_count st \<notin> set (renderers st)" using ok(2) by blast
  have o: "owns st' = owns st" by (simp add: owns_def fun_eq_iff x)
  have "queues_ok (history st) st'" by (rule queues_ok_cong [OF ok(12)]) (simp_all add: returned_def x)
  moreover have "history st' = history st" by (simp add: history_def fun_eq_iff x)
  ultimately have q: "queues_ok (history st') st'" by simp
  show ?thesis
  proof (rule server_okI)
    show "pending_queue (link_at st' i) = []"
      if "r \<in> set (renderers st')" "owns st' r i" "i \<notin> set (renderer_links (renderer_at st' r))" for r i
    proof -
      have "r \<noteq> renderer_count st" using that(2) ok(3) [of i] by (auto simp: owns_def x)
      then show ?thesis using ok(11) [of r i] that by (simp add: o) (simp add: x)
    qed
    show "i \<in> set (o_links (output_at st' (link_output (link_at st' i)))) \<or> i \<in> {}"
      if "r \<in> set (renderers st')" "i \<in> set (renderer_links (renderer_at st' r))" for r i
      using ok(7) [of r i] that new(1) by (simp add: x(2) split: if_splits)
    show "link_valid (link_at st' i)" if "r \<in> set (renderers st')" "i \<in> set (renderer_links (renderer_at st' r))" for r i
      using ok(13) [of r i] that new(1) by (simp add: x(2) split: if_splits)
    show "owns st' r i" if "r \<in> set (renderers st')" "i \<in> set (renderer_links (renderer_at st' r))" for r i
      using ok(6) [of r i] that new(1) by (simp add: o) (simp add: x(2) split: if_splits)
    show "r < renderer_count st'" if "r \<in> set (renderers st')" for r
      using ok(2) [of r] that by (auto simp: x)
    show "link_renderer (link_at st' i) < renderer_count st'" if "i < link_count st'" for i
      using ok(3) [of i] that by (simp add: x)
  qed (use ok(1,4,5,8-10) q new fresh in \<open>auto simp: x(2) split: if_splits\<close>)
qed

text \<open>Renderers may lose links whose queue is empty.\<close>

lemma renderer_lets_go_ok:
  assumes "server_ok {} st" "r \<in> set (renderers st)" "renderer_links (f (renderer_at st r)) = []"
    and "\<not> is_shutdown (f (renderer_at st r))"
    and "\<And>i. i \<in> set (renderer_links (renderer_at st r)) \<Longrightarrow> pending_queue (link_at st i) = []"
  shows "server_ok {} (upd_renderer r f st)" (is "server_ok _ ?st")
proof -
  note ok = server_okD [OF assms(1)]
  have "queues_ok (history st) ?st" by (rule queues_ok_cong [OF ok(12)]) (simp_all add: returned_def)
  moreover have "history ?st = history st" by (simp add: history_def fun_eq_iff)
  ultimately have q: "queues_ok (history ?st) ?st" by simp
  have owns: "owns ?st = owns st" by (simp add: owns_def fun_eq_iff)
  show ?thesis
  proof (rule server_okI)
    show "pending_queue (link_at ?st i) = []"
      if "r' \<in> set (renderers ?st)" "owns ?st r' i" "i \<notin> set (renderer_links (renderer_at ?st r'))" for r' i
      using ok(11) [of r' i] that assms(5) by (auto simp: owns split: if_splits)
  qed (use ok(1-10,13) q assms(3,4) in \<open>auto simp: owns split: if_splits\<close>)
qed

lemma invalidate_links_ok:
  assumes "server_ok X st" "\<And>r i. r \<in> set (renderers st) \<Longrightarrow> i \<in> set ls \<Longrightarrow> i \<notin> set (renderer_links (renderer_at st r))"
  shows "server_ok X (fold (\<lambda>i. upd_link i invalidate) ls st)"
  using assms
proof (induction ls arbitrary: st)
  case (Cons i ls)
  note ok = server_okD [OF Cons.prems(1)]
  let ?st = "upd_link i invalidate st"
  have q: "queues_ok (history st) ?st" by (rule queues_ok_cong [OF ok(12)]) (simp_all add: returned_def invalidate_def)
  have h: "history ?st = history st" by (simp add: history_def fun_eq_iff)
  have owns: "owns ?st = owns st" by (auto simp: owns_def fun_eq_iff invalidate_def)
  have li: "link_renderer (link_at ?st j) = link_renderer (link_at st j)" "link_output (link_at ?st j) = link_output (link_at st j)"
    "pending_queue (link_at ?st j) = pending_queue (link_at st j)" for j
    by (simp_all add: invalidate_def)
  have "server_ok X ?st"
  proof (rule server_okI)
    show "link_valid (link_at ?st j)" if "r \<in> set (renderers ?st)" "j \<in> set (renderer_links (renderer_at ?st r))" for r j
      using ok(13) that Cons.prems(2) [of r i] by auto
  qed (use ok(1-11) q h in \<open>auto simp: owns li simp del: upd_link_simps(1)\<close>)
  then show ?case using Cons.IH [of ?st] Cons.prems(2) by simp
qed simp

lemma remove_all_outputs_ok:
  assumes "server_ok {} st" "r \<in> set (renderers st)"
    and "\<And>i. i \<in> set (renderer_links (renderer_at st r)) \<Longrightarrow> pending_queue (link_at st i) = []"
  shows "server_ok {} (renderer_remove_all_outputs r st) \<and>
    renderers (renderer_remove_all_outputs r st) = renderers st \<and>
    link_count (renderer_remove_all_outputs r st) = link_count st"
proof -
  note ok = server_okD [OF assms(1)]
  define ls where "ls = (case throttle_output_link (renderer_at st r) of None \<Rightarrow> [] | Some i \<Rightarrow> [i]) @ output_links (renderer_at st r)"
  define f :: "audio_renderer \<Rightarrow> audio_renderer" where "f = (\<lambda>x. x\<lparr>throttle_output_link := None, output_links := []\<rparr>)"
  let ?st = "upd_renderer r f st"
  have one: "upd_link j invalidate (upd_renderer r g x) = upd_renderer r g (upd_link j invalidate x)" for j g x
    by (simp add: upd_link_def upd_renderer_def)
  have com: "fold (\<lambda>i. upd_link i invalidate) js (upd_renderer r g x) = upd_renderer r g (fold (\<lambda>i. upd_link i invalidate) js x)" for js g x
    by (induction js arbitrary: x) (simp_all add: one)
  have frame: "renderers (fold (\<lambda>i. upd_link i invalidate) js x) = renderers x \<and>
    link_count (fold (\<lambda>i. upd_link i invalidate) js x) = link_count x \<and>
    renderer_at (fold (\<lambda>i. upd_link i invalidate) js x) = renderer_at x" for js x
    by (induction js arbitrary: x) simp_all
  have all: "renderer_remove_all_outputs r st = fold (\<lambda>i. upd_link i invalidate) ls ?st"
  proof (cases "throttle_output_link (renderer_at st r)")
    case None
    then have "f (renderer_at st r) = (renderer_at st r)\<lparr>output_links := []\<rparr>" by (simp add: f_def)
    then show ?thesis using None frame [of "output_links (renderer_at st r)" st]
      by (simp add: renderer_remove_all_outputs_def ls_def com) (simp add: upd_renderer_def)
  next
    case (Some i)
    then show ?thesis
      by (simp add: renderer_remove_all_outputs_def ls_def f_def com one Let_def) (simp add: upd_renderer_def)
  qed
  have ok1: "server_ok {} ?st"
    by (rule renderer_lets_go_ok [OF assms(1,2)]) (use assms(3) ok(4) [OF assms(2)] in \<open>simp_all add: f_def\<close>)
  have ls: "set ls = set (renderer_links (renderer_at st r))"
    by (auto simp: ls_def renderer_links_def split: option.split)
  have "server_ok {} (fold (\<lambda>i. upd_link i invalidate) ls ?st)"
  proof (rule invalidate_links_ok [OF ok1])
    show "i \<notin> set (renderer_links (renderer_at ?st r'))" if "r' \<in> set (renderers ?st)" "i \<in> set ls" for r' i
    proof (cases "r' = r")
      case False
      have "owns st r i" using ok(6) [OF assms(2)] that(2) ls by blast
      moreover have "owns st r' i" if "i \<in> set (renderer_links (renderer_at st r'))"
        using ok(6) [OF _ that] \<open>r' \<in> set (renderers ?st)\<close> by simp
      ultimately show ?thesis using False by (auto simp: owns_def)
    qed (simp add: f_def)
  qed
  then show ?thesis using frame by (simp add: all)
qed

text \<open>Who is in the set of renderers does not matter to the release of a link.\<close>

lemma release_links_renderers:
  "fold release_link ls (st\<lparr>renderers := rs\<rparr>) = (fold release_link ls st)\<lparr>renderers := rs\<rparr>"
proof -
  have a: "schedule_packet_cleanup x (s\<lparr>renderers := rs\<rparr>) = (schedule_packet_cleanup x s)\<lparr>renderers := rs\<rparr>" for x s
    by (simp add: schedule_packet_cleanup_def server_emit_def Let_def)
  have b: "fold (\<lambda>p. schedule_packet_cleanup (r, ref_supplied p)) ps (s\<lparr>renderers := rs\<rparr>) =
      (fold (\<lambda>p. schedule_packet_cleanup (r, ref_supplied p)) ps s)\<lparr>renderers := rs\<rparr>" for r ps s
    by (induction ps arbitrary: s) (simp_all add: a)
  have c: "destroy_link i (s\<lparr>renderers := rs\<rparr>) = (destroy_link i s)\<lparr>renderers := rs\<rparr>" for i s
  proof -
    have "upd_link i f (s\<lparr>renderers := rs\<rparr>) = (upd_link i f s)\<lparr>renderers := rs\<rparr>" for f
      by (simp add: upd_link_def)
    then show ?thesis by (simp add: destroy_link_def drop_refs_def referenced_def b)
  qed
  have d: "release_link i (s\<lparr>renderers := rs\<rparr>) = (release_link i s)\<lparr>renderers := rs\<rparr>" for i s
    by (simp add: release_link_def link_referenced_def c Let_def)
  show ?thesis by (induction ls arbitrary: st) (simp_all add: d)
qed

lemma renderer_leaves_ok:
  assumes "server_ok {} st"
  shows "server_ok {} ((upd_renderer r f st)\<lparr>renderers := remove1 r (renderers st)\<rparr>)" (is "server_ok _ ?st")
proof -
  note ok = server_okD [OF assms(1)]
  have q: "queues_ok (history st) ?st" by (rule queues_ok_cong [OF ok(12)]) (simp_all add: returned_def)
  have h: "history ?st = history st" by (simp add: history_def fun_eq_iff)
  have owns: "owns ?st = owns st" by (simp add: owns_def fun_eq_iff)
  have r: "r' \<in> set (renderers ?st) \<longleftrightarrow> r' \<in> set (renderers st) \<and> r' \<noteq> r" for r' using ok(1) by auto
  show ?thesis by (rule server_okI; (simp only: r)?) (use ok q h in \<open>auto simp: owns\<close>)
qed

lemma renderer_shutdown_ok:
  assumes "server_ok {} st" "r \<in> set (renderers st)" "renderer_shutdown now r st = Some st'"
  shows "server_ok {} st' \<and> renderers st' = remove1 r (renderers st)"
proof -
  note ok = server_okD [OF assms(1)]
  define g where "g = (\<lambda>cp x. x\<lparr>is_shutdown := True, timeline_control_point := cp, output_links := [],
      throttle_output_link := (None :: nat option)\<rparr> :: audio_renderer)"
  let ?ls = "renderer_links (renderer_at st r)"
  obtain cp where st': "st' = (fold release_link ?ls (upd_renderer r (g cp) (upd_base r consumer_reset st)))
      \<lparr>renderers := remove1 r (renderers st)\<rparr>"
    using assms(3) ok(4) [OF assms(2)]
    by (auto simp: renderer_shutdown_def Let_def bind_Some_iff g_def upd_base_def upd_pipe_def)
  let ?st1 = "upd_base r consumer_reset st"
  have s1: "same_routing st ?st1" by simp
  have "server_ok {} ((upd_renderer r (g cp) ?st1)\<lparr>renderers := remove1 r (renderers ?st1)\<rparr>)"
    by (rule renderer_leaves_ok [OF same_routing_ok [OF s1 assms(1)]])
  moreover have "renderers ?st1 = renderers st" "link_count ?st1 = link_count st"
    using s1 by (simp_all add: same_routing_def)
  ultimately have "server_ok {} (fold release_link ?ls
      ((upd_renderer r (g cp) ?st1)\<lparr>renderers := remove1 r (renderers st)\<rparr>))"
    using ok(6) [OF assms(2)] by (intro release_links_ok) (auto simp: owns_def)
  then show ?thesis by (simp add: st' release_links_renderers)
qed

lemma select_outputs_ok:
  assumes "server_ok {} st" "r \<in> set (renderers st)" "select_outputs_for_renderer r st = Some st'"
  shows "server_ok {} st'"
proof -
  obtain st1 where st1: "link_output_to_renderer (throttle_output st) r st = Some st1"
    and rest: "(case policy st1 of
        ALL_PLUGGED_OUTPUTS \<Rightarrow>
          link_all (map (\<lambda>o'. (o', r)) (filter (\<lambda>o'. plugged (output_at st1 o')) (outputs st1))) st1
      | LAST_PLUGGED_OUTPUT \<Rightarrow>
          (case find_last_plugged_output st1 of
             None \<Rightarrow> Some st1 | Some o' \<Rightarrow> link_output_to_renderer o' r st1)) = Some st'"
    using assms(3) by (auto simp: select_outputs_for_renderer_def bind_Some_iff)
  have ok1: "server_ok {} st1" "same_world st st1" using link_output_to_renderer_ok [OF assms(1,2) st1] by simp_all
  have r: "r \<in> set (renderers st1)" using ok1(2) assms(2) by (simp add: same_world_def)
  show ?thesis
  proof (cases "policy st1")
    case ALL_PLUGGED_OUTPUTS
    then have "link_all (map (\<lambda>o'. (o', r)) (filter (\<lambda>o'. plugged (output_at st1 o')) (outputs st1))) st1 = Some st'"
      using rest by simp
    moreover have "snd ` set (map (\<lambda>o'. (o', r)) (filter (\<lambda>o'. plugged (output_at st1 o')) (outputs st1)))
        \<subseteq> set (renderers st1)"
      using r by auto
    ultimately show ?thesis using link_all_ok [OF ok1(1)] by blast
  next
    case LAST_PLUGGED_OUTPUT
    then show ?thesis using rest ok1(1) link_output_to_renderer_ok [OF ok1(1) r] by (auto split: option.splits)
  qed
qed

lemma set_media_type_ok:
  assumes "server_ok {} st" "r \<in> set (renderers st)" "set_media_type now r config st = Some st'"
  shows "server_ok {} st'"
proof (cases "renderer_shutdown now r st = Some st'")
  case True
  then show ?thesis using renderer_shutdown_ok [OF assms(1,2)] by blast
next
  case False
  let ?ls = "renderer_links (renderer_at st r)"
  let ?st1 = "fold release_link ?ls (renderer_remove_all_outputs r st)"
  obtain cfg rate fmt where empty: "\<not> list_ex (\<lambda>i. \<not> pending_queue_empty (link_at st i)) ?ls"
    and fin: "select_outputs_for_renderer r
      (upd_renderer r (\<lambda>x. x\<lparr>renderer_format := Some fmt\<rparr>) (upd_base r (set_pts_rate rate) ?st1)) = Some st'"
    using assms(3) False by (auto simp: set_media_type_def Let_def bind_Some_iff split: option.splits if_splits)
  note rm = remove_all_outputs_ok [OF assms(1,2)]
  have e: "pending_queue (link_at st i) = []" if "i \<in> set ?ls" for i
    using empty that by (simp add: list_ex_iff pending_queue_empty_def)
  have "server_ok {} ?st1"
    using rm [OF e] server_okD(6) [OF assms(1,2)] by (intro release_links_ok) (auto simp: owns_def)
  moreover have "same_routing ?st1 (upd_renderer r (\<lambda>x. x\<lparr>renderer_format := Some fmt\<rparr>) (upd_base r (set_pts_rate rate) ?st1))"
    by (simp add: same_routing_def upd_base_def upd_pipe_def renderer_links_def)
  ultimately have "server_ok {} (upd_renderer r (\<lambda>x. x\<lparr>renderer_format := Some fmt\<rparr>) (upd_base r (set_pts_rate rate) ?st1))"
    using same_routing_ok by blast
  from select_outputs_ok [OF this _ fin] show ?thesis
    using rm [OF e] assms(2) by (simp add: upd_base_def upd_pipe_def)
qed

section \<open>Packets\<close>

lemma history_received:
  "received st' = received st @ [(r, p)] \<Longrightarrow> history st' = (history st)(r := history st r @ [p])"
  by (auto simp: history_def fun_eq_iff)

lemma push_each:
  fixes p :: audio_packet_ref
  assumes "distinct js"
  defines "go \<equiv> \<lambda>st. fold (\<lambda>i. upd_link i (push_to_pending_queue p)) js st"
  shows "link_at (go st) = (\<lambda>i. if i \<in> set js then push_to_pending_queue p (link_at st i) else link_at st i)"
    "link_count (go st) = link_count st" "ref_count (go st) = ref_count st" "renderer_at (go st) = renderer_at st"
    "renderers (go st) = renderers st" "output_at (go st) = output_at st" "received (go st) = received st"
    "cleaned_up (go st) = cleaned_up st" "cleanup_queue (go st) = cleanup_queue st"
    "renderer_count (go st) = renderer_count st"
  using assms(1) unfolding go_def by (induction js arbitrary: st) (auto simp: fun_eq_iff)

lemma on_packet_received_ok:
  assumes "server_ok {} st" "r \<in> set (renderers st)" "on_packet_received r p st = Some st'"
    and "ref_address p < ref_count st" "\<And>r'. p \<notin> set (history st r')"
  shows "server_ok {} st' \<and> renderers st' = renderers st"
proof -
  note ok = server_okD [OF assms(1)]
  define js where "js = (case throttle_output_link (renderer_at st r) of None \<Rightarrow> [] | Some i \<Rightarrow> [i]) @ output_links (renderer_at st r)"
  have js: "distinct js" "set js = set (renderer_links (renderer_at st r))"
    using ok(5) [OF assms(2)] by (auto simp: js_def renderer_links_def split: option.splits)
  define st0 where "st0 = st\<lparr>received := received st @ [(r, p)]\<rparr>"
  define st2 where "st2 = fold (\<lambda>i. upd_link i (push_to_pending_queue p)) js st0"
  obtain cp where st': "st' = drop_refs r [p] (upd_renderer r (\<lambda>x. x\<lparr>timeline_control_point := cp (timeline_control_point x)\<rparr>) st2)"
  proof -
    have f: "(case throttle_output_link (renderer_at st r) of None \<Rightarrow> st0 | Some i \<Rightarrow> upd_link i (push_to_pending_queue p) st0) =
      fold (\<lambda>i. upd_link i (push_to_pending_queue p)) (case throttle_output_link (renderer_at st r) of None \<Rightarrow> [] | Some i \<Rightarrow> [i]) st0"
      by (simp split: option.split)
    have id: "upd_renderer r (\<lambda>x. x\<lparr>timeline_control_point := timeline_control_point x\<rparr>) st2 = st2"
      by (simp add: upd_renderer_def)
    have r0: "renderer_at st0 = renderer_at st" by (simp add: st0_def)
    have st2: "fold (\<lambda>i. upd_link i (push_to_pending_queue p)) (output_links (renderer_at st r))
        (case throttle_output_link (renderer_at st r) of None \<Rightarrow> st0 | Some i \<Rightarrow> upd_link i (push_to_pending_queue p) st0) = st2"
      unfolding f st2_def js_def by simp
    show thesis
      using assms(3) that [of id] that [of "set_end_of_stream_pts _"] id
      unfolding on_packet_received_def Let_def st0_def [symmetric] r0 st2
      by (auto simp: bind_Some_iff split: if_splits)
  qed
  note push = push_each [OF js(1), of p st0, folded st2_def]
  let ?st3 = "upd_renderer r (\<lambda>x. x\<lparr>timeline_control_point := cp (timeline_control_point x)\<rparr>) st2"
  have h: "history st' = (history st)(r := history st r @ [p])"
    by (rule history_received) (simp add: st' push st0_def)
  have "queues_ok ((history st)(r := history st r @ [p])) st'" unfolding st'
  proof (rule push_all_ok [OF ok(12), of js])
    show "link_at ?st3 = (\<lambda>i. if i \<in> set js then push_to_pending_queue p (link_at st i) else link_at st i)"
      by (simp add: push fun_eq_iff) (simp add: st0_def)
    show "pending_queue (link_at st i) = []" if "owns st r i" "i \<notin> set js" for i
      using ok(11) [OF assms(2) that(1)] that(2) js(2) by simp
    show "owns st r j" if "j \<in> set js" for j using ok(6) [OF assms(2)] that js(2) by simp
  qed (use assms(4,5) in \<open>simp_all add: push st0_def returned_def\<close>)
  then have q: "queues_ok (history st') st'" by (simp add: h)
  have li: "link_renderer (link_at st' j) = link_renderer (link_at st j)" "link_output (link_at st' j) = link_output (link_at st j)"
    "link_valid (link_at st' j) = link_valid (link_at st j)" for j
    by (simp_all add: st' push st0_def push_to_pending_queue_def)
  have frame: "link_count st' = link_count st" "renderers st' = renderers st" "output_at st' = output_at st"
    "renderer_count st' = renderer_count st"
    "renderer_links (renderer_at st' r') = renderer_links (renderer_at st r')"
    "is_shutdown (renderer_at st' r') = is_shutdown (renderer_at st r')" for r'
    by (simp_all add: st' push st0_def renderer_links_def)
  have o: "owns st' = owns st" by (simp add: owns_def fun_eq_iff li frame)
  have "server_ok {} st'"
  proof (rule server_okI)
    show "pending_queue (link_at st' i) = []"
      if "r' \<in> set (renderers st')" "owns st' r' i" "i \<notin> set (renderer_links (renderer_at st' r'))" for r' i
    proof -
      have "i \<notin> set js"
      proof
        assume "i \<in> set js"
        then have "owns st r i" "i \<in> set (renderer_links (renderer_at st r))" using ok(6) [OF assms(2)] js(2) by simp_all
        then show False using that(2,3) by (auto simp: o frame owns_def)
      qed
      moreover have "pending_queue (link_at st i) = []" using ok(11) [of r' i] that by (simp add: o frame)
      ultimately show ?thesis by (simp add: st' push st0_def)
    qed
  qed (use ok(1-10,13) q in \<open>simp_all add: frame li o\<close>)
  then show ?thesis by (simp add: frame)
qed

lemma refuse_packet_routing: "same_routing st (refuse_packet r supplied st)"
  unfolding refuse_packet_def by (rule same_routing_trans [OF same_routing_upd_base same_routing_drop_supplied])

lemma maybe_complete_prime_routing: "same_routing st (maybe_complete_prime r eos st)"
  by (auto simp: maybe_complete_prime_def intro: same_routing_trans [OF same_routing_emit same_routing_upd_pipe]
      split: option.splits)

lemma keep_packet_ok:
  assumes "server_ok {} st" "r \<in> set (renderers st)" "keep_packet r supplied frames start next st = Some st'"
  shows "server_ok {} st' \<and> renderers st' = renderers st"
proof -
  let ?st = "st\<lparr>ref_count := ref_count st + 1\<rparr>"
  have ok: "server_ok {} ?st" by (rule same_routing_ok [OF _ assms(1)]) (simp add: same_routing_def)
  have fresh: "ref_address p \<noteq> ref_count st" if "p \<in> set (history ?st r')" for p r'
  proof -
    have "history ?st r' = history st r'" by (simp add: history_def)
    moreover have "\<forall>p \<in> set (history st r'). ref_address p < ref_count st"
      using server_okD(12) [OF assms(1)] unfolding queues_ok_def suffixes_ok_def by blast
    ultimately show ?thesis using that by auto
  qed
  show ?thesis
    using on_packet_received_ok [OF ok _ assms(3) [unfolded keep_packet_def]] fresh assms(2) by fastforce
qed

lemma on_packet_supplied_ok:
  assumes "server_ok {} st" "r \<in> set (renderers st)" "on_packet_supplied r supplied st = Some st'"
  shows "server_ok {} st'"
proof -
  have piped: "server_ok {} (upd_pipe r f st)" "r \<in> set (renderers (upd_pipe r f st))" for f
    using same_routing_ok [OF same_routing_upd_pipe assms(1)] assms(2) by (simp_all add: upd_pipe_def)
  have kept: "server_ok {} (maybe_complete_prime r e st2)"
    if "keep_packet r supplied frames start n (upd_pipe r f st) = Some st2" for e st2 frames start n f
    using same_routing_ok [OF maybe_complete_prime_routing] keep_packet_ok [OF piped that] by blast
  have dropped: "server_ok {} (drop_supplied (r, supplied) (maybe_complete_prime r e (upd_pipe r f st)))" for e f
    using same_routing_ok [OF same_routing_drop_supplied] same_routing_ok [OF maybe_complete_prime_routing] piped(1) by blast
  have refused: "server_ok {} (refuse_packet r supplied st)"
    by (rule same_routing_ok [OF refuse_packet_routing assms(1)])
  show ?thesis using assms(3) unfolding on_packet_supplied_def Let_def
    by (auto simp: bind_Some_iff intro: kept dropped refused split: option.splits if_splits)
qed

lemma pipe_supply_packet_ok:
  assumes "server_ok {} st" "r \<in> set (renderers st)" "pipe_supply_packet r pk cb st = Some st'"
  shows "server_ok {} st'"
proof -
  obtain c where c: "(case last (events c) of
        PacketSupplied supplied \<Rightarrow> on_packet_supplied r supplied (upd_base r (\<lambda>_. c) st)
      | _ \<Rightarrow> Some (upd_base r (\<lambda>_. c) st)) = Some st'"
    using assms(3) by (auto simp: pipe_supply_packet_def bind_Some_iff Let_def)
  have ok: "server_ok {} (upd_base r (\<lambda>_. c) st)" by (rule same_routing_ok [OF same_routing_upd_base assms(1)])
  have r: "r \<in> set (renderers (upd_base r (\<lambda>_. c) st))" using assms(2) by (simp add: upd_base_def upd_pipe_def)
  show ?thesis using c ok on_packet_supplied_ok [OF ok r] by (auto split: consumer_event.splits)
qed

lemma pipe_flush_ok:
  assumes "server_ok {} st" "r \<in> set (renderers st)"
  shows "server_ok {} (pipe_flush r cb st)"
proof -
  define st1 where "st1 = upd_pipe r (\<lambda>p. p\<lparr>next_pts_known := False\<rparr>) (upd_base r (flush cb) st)"
  define js where "js = (case throttle_output_link (renderer_at st1 r) of None \<Rightarrow> [] | Some i \<Rightarrow> [i]) @ output_links (renderer_at st1 r)"
  have s: "same_routing st st1" unfolding st1_def by (rule same_routing_trans [OF same_routing_upd_base same_routing_upd_pipe])
  have ok1: "server_ok {} st1" by (rule same_routing_ok [OF s assms(1)])
  have r1: "r \<in> set (renderers st1)" using s assms(2) by (simp add: same_routing_def)
  have at: "renderer_at (flush_link i x) = renderer_at x" for i x by (simp add: flush_link_def)
  have "renderer_flush_requested r st1 = fold flush_link js st1"
    by (simp add: renderer_flush_requested_def js_def at Let_def split: option.split)
  moreover have "\<forall>i \<in> set js. i < link_count st1"
    using server_okD(6) [OF ok1 r1] by (auto simp: js_def renderer_links_def owns_def split: option.splits)
  ultimately have "server_ok {} (renderer_flush_requested r st1)" using flush_links_ok [OF ok1] by simp
  then show ?thesis
    unfolding pipe_flush_def Let_def st1_def [symmetric] by (rule same_routing_ok [OF same_routing_upd_base])
qed

lemma prime_requested_ok:
  assumes "server_ok {} st" "prime_requested r p cb st = Some st'"
  shows "server_ok {} st'"
proof -
  define st0 where "st0 = (case prime_callback (pipe (renderer_at st r)) of
                  None \<Rightarrow> st | Some old \<Rightarrow> server_emit (PrimeComplete r old) st)"
  have 0: "same_routing st st0" by (simp add: st0_def split: option.split)
  have "same_routing st0 st'"
    using assms(2) unfolding prime_requested_def Let_def st0_def [symmetric]
    by (auto simp: bind_Some_iff intro: same_routing_trans [OF same_routing_upd_pipe same_routing_upd_base] split: if_splits)
  then show ?thesis using same_routing_ok same_routing_trans [OF 0] assms(1) by blast
qed

lemma prime_pipe_ok: "server_ok {} st \<Longrightarrow> prime_pipe r es st = Some st' \<Longrightarrow> server_ok {} st'"
proof (induction es arbitrary: st)
  case (Cons e es)
  obtain st1 where st1: "(case e of PrimeRequested p cb \<Rightarrow> prime_requested r p cb st | _ \<Rightarrow> Some st) = Some st1"
    "prime_pipe r es st1 = Some st'"
    using Cons.prems(2) by (auto simp: bind_Some_iff)
  then have "server_ok {} st1" using prime_requested_ok [OF Cons.prems(1)] Cons.prems(1) by (cases e) auto
  then show ?case using Cons.IH st1(2) by blast
qed simp

lemma control_call_ok:
  assumes "server_ok {} st" "control_call now r c st = Some st'"
  shows "server_ok {} st'"
proof -
  obtain es cp where "prime_pipe r es (upd_renderer r (\<lambda>x. x\<lparr>timeline_control_point := cp\<rparr>) st) = Some st'"
    using assms(2) by (auto simp: control_call_def bind_Some_iff)
  moreover have "same_routing st (upd_renderer r (\<lambda>x. x\<lparr>timeline_control_point := cp\<rparr>) st)"
    by (simp add: same_routing_def renderer_links_def)
  ultimately show ?thesis using prime_pipe_ok same_routing_ok assms(1) by blast
qed

section \<open>The output side\<close>

lemma output_lock_routing: "same_routing st (snd (snd (output_lock i st)))"
  by (simp add: output_lock_def lock_pending_queue_front_def same_routing_def)

lemma output_unlock_ok:
  assumes "server_ok {} st" "i < link_count st" "output_unlock i pkt release_packet st = Some st'"
  shows "server_ok {} st'"
proof -
  obtain out l where u: "unlock_pending_queue_front pkt release_packet (link_at st i) = Some (out, l)"
    and st': "st' = drop_refs (link_renderer l) (case out of None \<Rightarrow> [] | Some p \<Rightarrow> [p]) (upd_link i (\<lambda>_. l) st)"
    using assms(3) by (auto simp: output_unlock_def bind_Some_iff)
  have "pending_queue (link_at st i) = (case out of None \<Rightarrow> [] | Some p \<Rightarrow> [p]) @ pending_queue l"
    "link_renderer l = link_renderer (link_at st i)" "link_output l = link_output (link_at st i)"
    "link_valid l = link_valid (link_at st i)"
    using u by (auto simp: unlock_pending_queue_front_def bind_Some_iff Let_def split: if_splits)
  then show ?thesis unfolding st' by (rule drop_front_server_ok [OF assms(1,2)])
qed

lemma erase_link_ok:
  assumes "server_ok {} st" "i \<in> set (o_links (output_at st o'))" "\<not> link_alive i st"
  shows "server_ok {} (erase_link o' i st)"
proof -
  let ?st = "upd_output o' (\<lambda>x. x\<lparr>o_links := remove1 i (o_links x)\<rparr>) st"
  note ok = server_okD [OF assms(1)]
  have q: "queues_ok (history st) ?st" by (rule queues_ok_cong [OF ok(12)]) (simp_all add: returned_def)
  have h: "history ?st = history st" by (simp add: history_def fun_eq_iff)
  have owns: "owns ?st = owns st" by (simp add: owns_def fun_eq_iff)
  have free: "j \<noteq> i" if "r \<in> set (renderers st)" "j \<in> set (renderer_links (renderer_at st r))" for r j
    using ok(13) [OF that] assms(3) that(1) ok(6) [OF that] by (auto simp: link_alive_def owns_def)
  have "server_ok {} ?st"
  proof (rule server_okI)
    show "j \<in> set (o_links (output_at ?st (link_output (link_at ?st j)))) \<or> j \<in> {}"
      if "r \<in> set (renderers ?st)" "j \<in> set (renderer_links (renderer_at ?st r))" for r j
      using ok(7) [of r j] free [of r j] that by (auto simp: in_set_remove1)
    show "j < link_count ?st" "link_output (link_at ?st j) = p" if "j \<in> set (o_links (output_at ?st p))" for j p
    proof -
      have "j \<in> set (o_links (output_at st p))"
        using that set_remove1_subset [of i "o_links (output_at st o')"] by (auto split: if_splits)
      then show "j < link_count ?st" "link_output (link_at ?st j) = p" using ok(9,10) by simp_all
    qed
  qed (use ok(1-6,8,11,13) q h in \<open>auto simp: owns split: if_splits\<close>)
  then show ?thesis using ok(9) [OF assms(2)] by (simp add: erase_link_def release_link_ok)
qed

section \<open>Runs\<close>

lemma server_exec_ok:
  assumes "server_ok {} st" "server_exec now c st = Some st'"
  shows "server_ok {} st'"
proof -
  have on: "f st = Some st' \<and> r \<in> set (renderers st) \<or> st' = st" if "on_renderer r f st = Some st'" for r and f :: "audio_server \<Rightarrow> audio_server option"
    using that by (simp add: on_renderer_def split: if_splits)
  have based: "server_ok {} st'" if "on_base r f st = Some st'" for r f
    using that same_routing_ok [OF same_routing_upd_base assms(1)] by (auto simp: on_base_def bind_Some_iff)
  note base = same_routing_ok [OF same_routing_upd_base assms(1)]
  show ?thesis
  proof (cases c)
    case (SetMediaType r config)
    then show ?thesis using on assms set_media_type_ok [OF assms(1)] by fastforce
  next
    case (ShutdownRenderer r)
    then show ?thesis using on assms renderer_shutdown_ok [OF assms(1)] by fastforce
  next
    case (BindPipe r)
    then show ?thesis using on assms base by fastforce
  next
    case (AddBuffer r reply i vmo)
    then show ?thesis using on assms based by fastforce
  next
    case (RemoveBuffer r reply i)
    then show ?thesis using on assms based by fastforce
  next
    case (PullDemand r cb)
    then show ?thesis using on assms based by fastforce
  next
    case (SupplyPacket r pk cb)
    then show ?thesis using on assms pipe_supply_packet_ok [OF assms(1)] by fastforce
  next
    case (FlushPipe r cb)
    then show ?thesis using on assms pipe_flush_ok [OF assms(1)] by fastforce
  next
    case (ControlCall r cc)
    then show ?thesis using on assms control_call_ok [OF assms(1)] by fastforce
  next
    case (AddOutput o' res plug)
    then show ?thesis using assms(2) add_output_ok [OF assms(1)] by auto
  next
    case (LockFront o' i)
    then show ?thesis using assms same_routing_ok [OF output_lock_routing assms(1)] by (auto split: if_splits)
  next
    case (UnlockFront o' i pkt rel)
    show ?thesis
    proof (cases "i \<in> set (o_links (output_at st o'))")
      case True
      then have "output_unlock i pkt rel st = Some st'" using assms(2) UnlockFront by simp
      then show ?thesis by (rule output_unlock_ok [OF assms(1) server_okD(9) [OF assms(1) True]])
    qed (use assms UnlockFront in simp)
  next
    case (EraseLink o' i)
    then show ?thesis using assms erase_link_ok [OF assms(1)] by (auto split: if_splits)
  next
    case PacketCleanup
    then show ?thesis using assms(2) same_routing_ok [OF same_routing_cleanup assms(1)] by simp
  next
    case CreateRenderer
    then show ?thesis using assms(2) create_renderer_ok [OF assms(1)] by simp
  next
    case (ShutdownOutput o')
    then show ?thesis using assms(2) shutdown_output_ok [OF assms(1)] by simp
  next
    case (PlugChange o' p t)
    then show ?thesis using assms(2) handle_plug_state_change_ok [OF assms(1)] by simp
  qed
qed

lemma server_run_ok: "server_ok {} st \<Longrightarrow> server_run cs st = Some st' \<Longrightarrow> server_ok {} st'"
proof (induction cs arbitrary: st)
  case (Cons c cs)
  obtain now call where c: "c = (now, call)" by fastforce
  then obtain st1 where st1: "server_exec now call st = Some st1" "server_run cs st1 = Some st'"
    using Cons.prems(2) by (auto simp: bind_Some_iff)
  from Cons.IH [OF server_exec_ok [OF Cons.prems(1) st1(1)] st1(2)] show ?case .
qed simp

lemma server_init_ok: "server_ok {} (server_init pol fmts x l)"
proof -
  let ?st = "\<lparr>link_at = (\<lambda>_. l), link_count = 0, ref_count = 0, renderer_count = 0,
      renderer_at = (\<lambda>_. x), output_at = (\<lambda>o'. new_output (if o' = 0 then None else fmts o')),
      renderers = [], outputs = [], throttle_output = 0, policy = pol, cleanup_queue = [],
      cleanup_scheduled = False, server_shutting_down = False, received = [], cleaned_up = [], server_events = []\<rparr>"
  have "held ?st r = 0" for r by (rule held_all_empty) (simp add: owns_def)
  then have "queues_ok (history ?st) ?st"
    by (simp add: queues_ok_def suffixes_ok_def returned_ok_def history_def returned_def)
  then have "server_ok {} ?st" by (intro server_okI) (simp_all add: new_output_def)
  then show ?thesis unfolding server_init_def by (rule same_routing_ok [OF output_init_routing])
qed

end
