(* ===== verification/Audio_Output_Mix.thy ===== *)
theory Audio_Output_Mix
  imports Audio_Routing_Invariants Audio_Mix_Properties
begin

text \<open>
  The mixing side of an audio output: \<open>StandardOutputBase\<close> (standard_output_base.h, .cc) and
  \<open>ThrottleOutput\<close> (throttle_output.cc), on the links and renderers of Audio_Routing.

  What the shared memory holds is a parameter (\<open>samples\<close>, the payload of a packet as samples), so is
  the amplitude a link's gain gives (\<open>amplitude\<close>, by link; gains are floating-point numbers) and the
  clock when a link is processed (\<open>clock\<close>). A device is a \<open>driver\<close>: its \<open>StartMixJob\<close> and
  \<open>FinishMixJob\<close> on a state of its own.
\<close>

section \<open>The mix job\<close>

text \<open>\<open>job_buf\<close> holds the samples of the buffer the device gave.\<close>

record mix_job =
  job_buf :: "int list"
  buf_frames :: u32
  start_pts_of :: int
  local_to_output_gen :: u32
  accumulate :: bool
  local_to_output :: "timeline_function option"
  frames_produced :: u32

definition empty_job :: mix_job where
  "empty_job = \<lparr>job_buf = [], buf_frames = 0, start_pts_of = 0, local_to_output_gen = 0, accumulate = False,
     local_to_output = None, frames_produced = 0\<rparr>"

record std_output =
  so_number :: nat
  output_formatter :: "output_formatter option"
  mix_buf :: "int list option"
  mix_buf_frames :: u32
  cur_mix_job :: mix_job
  trim_threshold :: int
  next_sched_time :: int
  next_sched_time_known :: bool

definition std_output_init :: "nat \<Rightarrow> int \<Rightarrow> std_output" where
  "std_output_init n now =
     \<lparr>so_number = n, output_formatter = None, mix_buf = None, mix_buf_frames = 0, cur_mix_job = empty_job,
      trim_threshold = 0, next_sched_time = now, next_sched_time_known = True\<rparr>"

definition set_next_sched_time :: "int \<Rightarrow> std_output \<Rightarrow> std_output" where
  "set_next_sched_time t o' = o'\<lparr>next_sched_time := t, next_sched_time_known := True\<rparr>"

text \<open>The samples of the new buffer are indeterminate: they are the argument \<open>junk\<close>.\<close>

definition setup_mix_buffer :: "(nat \<Rightarrow> int) \<Rightarrow> u32 \<Rightarrow> std_output \<Rightarrow> std_output option" where
  "setup_mix_buffer junk max_mix_frames o' = do {
     fmt \<leftarrow> output_formatter o';
     dcheck (of_channels fmt > 0);
     dcheck (max_mix_frames > 0);
     dcheck (max_mix_frames \<le> 0xffffffff div of_channels fmt);
     Some (o'\<lparr>mix_buf_frames := max_mix_frames,
              mix_buf := Some (map junk [0..<unat (max_mix_frames * of_channels fmt)])\<rparr>)
   }"

section \<open>Time lines\<close>

text \<open>\<open>operator*\<close> of rates and functions is the exact product.\<close>

definition update_renderer_trans ::
    "int \<Rightarrow> nat \<Rightarrow> format_info \<Rightarrow> bookkeeping \<Rightarrow> audio_server \<Rightarrow> (bookkeeping \<times> audio_server) option" where
  "update_renderer_trans now r fi info st = do {
     (f, gen, cp) \<leftarrow> snapshot_current_function now now (timeline_control_point (renderer_at st r));
     let st = upd_renderer r (\<lambda>x. x\<lparr>timeline_control_point := cp\<rparr>) st;
     (if local_time_to_renderer_subframes_gen info = gen then Some (info, st)
      else do {
        rate_in_frames_per_ns \<leftarrow> rate_product (rate f) (frames_per_ns fi) True;
        subject \<leftarrow> rate_scale (frames_per_ns fi) (subject_time f);
        frames \<leftarrow> mk_function (reference_time f) subject
                    (reference_delta rate_in_frames_per_ns) (subject_delta rate_in_frames_per_ns);
        subframes \<leftarrow> tf_compose (function_of_rate (frame_to_media_ratio fi)) frames True;
        Some (info\<lparr>local_time_to_renderer_frames := frames, local_time_to_renderer_subframes := subframes,
                   local_time_to_renderer_subframes_gen := gen,
                   out_frames_to_renderer_subframes_gen := kInvalidGeneration\<rparr>, st)
      })
   }"

definition update_output_trans :: "mix_job \<Rightarrow> bookkeeping \<Rightarrow> bookkeeping option" where
  "update_output_trans job info = do {
     l2o \<leftarrow> local_to_output job;
     dcheck (local_to_output_gen job \<noteq> kInvalidGeneration);
     (if out_frames_to_renderer_subframes_gen info = local_to_output_gen job then Some info
      else do {
        dcheck (local_time_to_renderer_subframes_gen info \<noteq> 0);
        inv \<leftarrow> tf_inverse l2o;
        frames \<leftarrow> tf_compose (local_time_to_renderer_frames info) inv True;
        dst \<leftarrow> tf_compose (local_time_to_renderer_subframes info) inv True;
        dcheck (reference_delta (rate dst) \<noteq> 0);
        step \<leftarrow> (if subject_delta (rate dst) = 0 then Some 0
                else do {
                  tmp \<leftarrow> rate_scale (rate dst) 1;
                  dcheck (0 \<le> tmp);
                  dcheck (tmp \<le> 0xffffffff);
                  Some (word_of_int tmp :: u32)
                });
        Some (info\<lparr>output_frames_to_renderer_frames := frames, output_frames_to_renderer_subframes := dst,
                   step_size := step, out_frames_to_renderer_subframes_gen := local_to_output_gen job\<rparr>)
      })
   }"

section \<open>Mixing one packet\<close>

definition setup_mix :: "int \<Rightarrow> bookkeeping \<Rightarrow> std_output \<Rightarrow> (bool \<times> bookkeeping \<times> std_output) option" where
  "setup_mix now info o' = do {
     info \<leftarrow> update_output_trans (cur_mix_job o') info;
     Some (True, info, o'\<lparr>cur_mix_job := (cur_mix_job o')\<lparr>frames_produced := 0\<rparr>\<rparr>)
   }"

text \<open>Where in the output buffer the first sample goes, and where in the packet it is taken from.
  \<open>int64_t\<close> divides by \<open>uint32_t\<close>; both are positive.\<close>

definition i64_mul :: "int \<Rightarrow> int \<Rightarrow> int option" where
  "i64_mul a b = (if in_i64 (a * b) then Some (a * b) else None)"

definition mix_offsets :: "int \<Rightarrow> int \<Rightarrow> int \<Rightarrow> int \<Rightarrow> (int \<times> int) option" where
  "mix_offsets first pos_width step start = do {
     input_offset \<leftarrow> i64_sub first start;
     edge \<leftarrow> i64_add first pos_width;
     (if start > edge then do {
        d \<leftarrow> i64_sub start edge;
        d \<leftarrow> i64_add d step;
        d \<leftarrow> i64_sub d 1;
        let output_offset = d div step;
        skipped \<leftarrow> i64_mul output_offset step;
        input_offset \<leftarrow> i64_add input_offset skipped;
        Some (output_offset, input_offset)
      } else Some (0, input_offset))
   }"

text \<open>The call of the mixer on the rest of the mix buffer.\<close>

definition mix_packet ::
    "(audio_packet_ref \<Rightarrow> int list) \<Rightarrow> bookkeeping \<Rightarrow> audio_packet_ref \<Rightarrow> std_output \<Rightarrow> u32 \<Rightarrow> u32 \<Rightarrow> int \<Rightarrow>
     (bookkeeping \<times> std_output \<times> u32 \<times> bool) option" where
  "mix_packet samples info packet o' frames_left output_offset frac_input_offset = do {
     fmt \<leftarrow> output_formatter o';
     mb \<leftarrow> mix_buf o';
     let start = unat (frames_produced (cur_mix_job o') * of_channels fmt);
     (m, dst, doff, soff, consumed) \<leftarrow>
        mixer_mix (bk_mixer info)
          \<lparr>ma_dst_frames = unat frames_left, ma_src = samples packet,
           ma_frac_src_frames = unat (frac_frame_len packet), ma_frac_step_size = unat (step_size info),
           ma_amplitude_scale = amplitude_scale info\<rparr>
          (accumulate (cur_mix_job o')) (drop start mb) (unat output_offset) frac_input_offset;
     Some (info\<lparr>bk_mixer := m\<rparr>, o'\<lparr>mix_buf := Some (take start mb @ dst)\<rparr>, of_nat doff, consumed)
   }"

definition produce_frames :: "u32 \<Rightarrow> std_output \<Rightarrow> std_output option" where
  "produce_frames n o' = do {
     let job = cur_mix_job o';
     dcheck (frames_produced job + n \<le> buf_frames job);
     Some (o'\<lparr>cur_mix_job := job\<lparr>frames_produced := frames_produced job + n\<rparr>\<rparr>)
   }"

text \<open>The packet meets the window of the filter: mix it.\<close>

definition mix_located ::
    "(audio_packet_ref \<Rightarrow> int list) \<Rightarrow> bookkeeping \<Rightarrow> audio_packet_ref \<Rightarrow> std_output \<Rightarrow> u32 \<Rightarrow> int \<Rightarrow> int \<Rightarrow>
     (bool \<times> bookkeeping \<times> std_output) option" where
  "mix_located samples info packet o' frames_left output_offset_64 input_offset_64 = do {
     dcheck (output_offset_64 \<ge> 0);
     dcheck (output_offset_64 < uint frames_left);
     dcheck (in_i32 input_offset_64);
     let output_offset = (word_of_int output_offset_64 :: u32);
     dcheck (uint (frac_frame_len packet) \<le> i32_max);
     (if input_offset_64 \<ge> uint (frac_frame_len packet)
      then do { o' \<leftarrow> produce_frames output_offset o'; Some (True, info, o') }
      else do {
        (info, o', output_offset, consumed) \<leftarrow>
           mix_packet samples info packet o' frames_left output_offset input_offset_64;
        dcheck (output_offset \<le> frames_left);
        (if \<not> consumed then do { dcheck (output_offset = frames_left); Some (False, info, o') }
         else do { o' \<leftarrow> produce_frames output_offset o'; Some (True, info, o') })
      })
   }"

definition process_mix ::
    "(audio_packet_ref \<Rightarrow> int list) \<Rightarrow> bookkeeping \<Rightarrow> audio_packet_ref \<Rightarrow> std_output \<Rightarrow>
     (bool \<times> bookkeeping \<times> std_output) option" where
  "process_mix samples info packet o' = do {
     let job = cur_mix_job o';
     dcheck (buf_frames job \<noteq> 0);
     dcheck (frames_produced job \<le> buf_frames job);
     (if step_size info = 0 \<or> frames_produced job \<ge> buf_frames job then Some (False, info, o')
      else do {
        let frames_left = buf_frames job - frames_produced job;
        at \<leftarrow> i64_add (start_pts_of job) (uint (frames_produced job));
        first \<leftarrow> tf_apply (output_frames_to_renderer_subframes info) at;
        span \<leftarrow> i64_mul (uint (frames_left - 1)) (uint (step_size info));
        final \<leftarrow> i64_add first span;
        (if end_pts packet = start_pts packet then Some (True, info, o')
         else do {
           len \<leftarrow> i64_sub (end_pts packet) (start_pts packet);
           dcheck (len \<ge> int FRAC_ONE);
           final_pts \<leftarrow> i64_sub (end_pts packet) (int FRAC_ONE);
           low \<leftarrow> i64_sub first (int (neg_filter_width (bk_mixer info)));
           high \<leftarrow> i64_add final (int (pos_filter_width (bk_mixer info)));
           (if final_pts < low then Some (True, info, o')
            else if start_pts packet > high then Some (False, info, o')
            else do {
              (output_offset, input_offset) \<leftarrow>
                 mix_offsets first (int (pos_filter_width (bk_mixer info))) (uint (step_size info)) (start_pts packet);
              mix_located samples info packet o' frames_left output_offset input_offset
            })
         })
      })
   }"

section \<open>Trimming\<close>

definition setup_trim :: "int \<Rightarrow> bookkeeping \<Rightarrow> std_output \<Rightarrow> (bool \<times> bookkeeping \<times> std_output) option" where
  "setup_trim now info o' = do {
     t \<leftarrow> tf_apply (local_time_to_renderer_subframes info) now;
     Some (True, info, o'\<lparr>trim_threshold := t\<rparr>)
   }"

definition process_trim :: "bookkeeping \<Rightarrow> audio_packet_ref \<Rightarrow> std_output \<Rightarrow> (bool \<times> bookkeeping \<times> std_output) option" where
  "process_trim info packet o' = Some (\<not> end_pts packet > trim_threshold o', info, o')"

section \<open>The links of an output\<close>

text \<open>A task sets up for a renderer and processes its packets.\<close>

record output_task =
  task_setup :: "int \<Rightarrow> bookkeeping \<Rightarrow> std_output \<Rightarrow> (bool \<times> bookkeeping \<times> std_output) option"
  task_process :: "bookkeeping \<Rightarrow> audio_packet_ref \<Rightarrow> std_output \<Rightarrow> (bool \<times> bookkeeping \<times> std_output) option"

definition mix_task :: "(audio_packet_ref \<Rightarrow> int list) \<Rightarrow> output_task" where
  "mix_task samples = \<lparr>task_setup = setup_mix, task_process = process_mix samples\<rparr>"

definition trim_task :: output_task where
  "trim_task = \<lparr>task_setup = setup_trim, task_process = process_trim\<rparr>"

lemma output_unlock_shrinks:
  assumes "output_unlock i (Some p) True st = Some st'"
  shows "length (pending_queue (link_at st' i)) < length (pending_queue (link_at st i))"
  using assms by (auto simp: output_unlock_def unlock_pending_queue_front_def bind_Some_iff Let_def drop_refs_def
      schedule_all_simps)

lemma output_lock_queue:
  "output_lock i st = (p, was_flushed, st') \<Longrightarrow> pending_queue (link_at st' i) = pending_queue (link_at st i)"
  by (auto simp: output_lock_def lock_pending_queue_front_def Let_def)

text \<open>One turn of the \<open>while (true)\<close> loop over the queue of a link, with its unlock; the result has
  whether there is another turn. The renderer may push and flush between two calls of \<open>Process\<close>.\<close>

definition queue_turn ::
    "output_task \<Rightarrow> int \<Rightarrow> u32 \<Rightarrow> nat \<Rightarrow> bool \<Rightarrow> bookkeeping \<Rightarrow> std_output \<Rightarrow> audio_server \<Rightarrow>
     (bool \<times> bookkeeping \<times> std_output \<times> audio_server) option" where
  "queue_turn task now scale i setup_done info o' st = do {
     let (pkt, was_flushed, st) = output_lock i st;
     let info = (if was_flushed then info\<lparr>bk_mixer := mixer_reset (bk_mixer info)\<rparr> else info);
     (case pkt of
        None \<Rightarrow> do { st \<leftarrow> output_unlock i None False st; Some (False, info, o', st) }
      | Some p \<Rightarrow> do {
          (ready, info, o') \<leftarrow> (if setup_done then Some (True, info, o') else task_setup task now info o');
          (consumed, info, o') \<leftarrow>
             (if ready then task_process task (info\<lparr>amplitude_scale := scale\<rparr>) p o' else Some (False, info, o'));
          st \<leftarrow> output_unlock i (Some p) consumed st;
          Some (consumed, info, o', st)
        })
   }"

lemma queue_turn_shrinks:
  assumes "queue_turn task now scale i d info o' st = Some (True, info', o'', st')"
  shows "length (pending_queue (link_at st' i)) < length (pending_queue (link_at st i))"
proof -
  obtain pkt wf st1 where l: "output_lock i st = (pkt, wf, st1)" by (metis prod_cases3)
  then obtain p where "output_unlock i (Some p) True st1 = Some st'"
    using assms by (cases pkt) (auto simp: queue_turn_def bind_Some_iff Let_def)
  then show ?thesis using output_unlock_shrinks output_lock_queue [OF l] by metis
qed

function queue_loop ::
    "output_task \<Rightarrow> int \<Rightarrow> u32 \<Rightarrow> nat \<Rightarrow> bool \<Rightarrow> bookkeeping \<Rightarrow> std_output \<Rightarrow> audio_server \<Rightarrow>
     (bookkeeping \<times> std_output \<times> audio_server) option" where
  "queue_loop task now scale i setup_done info o' st =
     (case queue_turn task now scale i setup_done info o' st of
        None \<Rightarrow> None
      | Some (again, info, o', st) \<Rightarrow>
          if again then queue_loop task now scale i True info o' st else Some (info, o', st))"
  by auto
termination
  by (relation "measure (\<lambda>(task, now, scale, i, d, info, o', st). length (pending_queue (link_at st i)))")
    (auto dest: queue_turn_shrinks)

declare queue_loop.simps [simp del]

fun foreach_renderer ::
    "output_task \<Rightarrow> (nat \<Rightarrow> int) \<Rightarrow> (nat \<Rightarrow> u32) \<Rightarrow> nat list \<Rightarrow> std_output \<Rightarrow> audio_server \<Rightarrow>
     (std_output \<times> audio_server) option" where
  "foreach_renderer task clock amplitude [] o' st = Some (o', st)"
| "foreach_renderer task clock amplitude (i # is) o' st =
     (if shutting_down (output_at st (so_number o')) then Some (o', st)
      else if \<not> link_alive i st then foreach_renderer task clock amplitude is o' (erase_link (so_number o') i st)
      else do {
        info \<leftarrow> output_bookkeeping (link_at st i);
        (info, st) \<leftarrow> update_renderer_trans (clock i) (link_renderer (link_at st i)) (link_format (link_at st i)) info st;
        (info, o', st) \<leftarrow> queue_loop task (clock i) (amplitude i) i False info o' st;
        foreach_renderer task clock amplitude is
          (o'\<lparr>cur_mix_job := (cur_mix_job o')\<lparr>accumulate := True\<rparr>\<rparr>)
          (upd_link i (\<lambda>l. l\<lparr>output_bookkeeping := Some info\<rparr>) st)
      })"

section \<open>Process\<close>

record 'd driver =
  start_mix_job :: "int \<Rightarrow> 'd \<times> std_output \<Rightarrow> (mix_job option \<times> 'd \<times> std_output) option"
  finish_mix_job :: "mix_job \<Rightarrow> 'd \<times> std_output \<Rightarrow> (bool \<times> 'd \<times> std_output) option"

record environment =
  env_samples :: "audio_packet_ref \<Rightarrow> int list"
  env_clock :: "nat \<Rightarrow> int"
  env_amplitude :: "nat \<Rightarrow> u32"

text \<open>One turn of the loop after the device has given a job.\<close>

definition mix_one_job ::
    "environment \<Rightarrow> mix_job \<Rightarrow> std_output \<Rightarrow> audio_server \<Rightarrow> (mix_job \<times> std_output \<times> audio_server) option" where
  "mix_one_job env job o' st = do {
     let o1 = o'\<lparr>cur_mix_job := job\<rparr>;
     mb \<leftarrow> mix_buf o1;
     fmt \<leftarrow> output_formatter o1;
     dcheck (buf_frames job \<le> mix_buf_frames o1);
     let zeros = unat (buf_frames job) * unat (of_channels fmt);
     dcheck (zeros \<le> length mb);
     let o2 = o1\<lparr>mix_buf := Some (replicate zeros 0 @ drop zeros mb)\<rparr>;
     (o3, st) \<leftarrow> foreach_renderer (mix_task (env_samples env)) (env_clock env) (env_amplitude env)
                   (o_links (output_at st (so_number o2))) o2 st;
     mb \<leftarrow> mix_buf o3;
     buf \<leftarrow> produce_output fmt mb (job_buf (cur_mix_job o3)) (buf_frames (cur_mix_job o3));
     let job = (cur_mix_job o3)\<lparr>job_buf := buf\<rparr>;
     Some (job, o3\<lparr>cur_mix_job := job\<rparr>, st)
   }"

text \<open>The \<open>do ... while\<close> loop; a device may ask for again without end. The result has whether
  something was mixed.\<close>

partial_function (option) mix_jobs ::
    "environment \<Rightarrow> 'd driver \<Rightarrow> int \<Rightarrow> bool \<Rightarrow> 'd \<Rightarrow> std_output \<Rightarrow> audio_server \<Rightarrow>
     (bool \<times> 'd \<times> std_output \<times> audio_server) option" where
  "mix_jobs env d now did_mix dev o' st =
     Option.bind (start_mix_job d now (dev, o'\<lparr>cur_mix_job := empty_job\<rparr>)) (\<lambda>(job, dev, o').
       case job of
         None \<Rightarrow> Some (did_mix, dev, o', st)
       | Some job \<Rightarrow>
           Option.bind (mix_one_job env job o' st) (\<lambda>(job, o', st).
             Option.bind (finish_mix_job d job (dev, o')) (\<lambda>(again, dev, o').
               if again then mix_jobs env d now True dev o' st else Some (True, dev, o', st))))"

definition kMaxTrimPeriod :: int where "kMaxTrimPeriod = 10 * 1000000"

text \<open>The last component of the result is the time for which the next callback is scheduled.\<close>

definition std_process ::
    "environment \<Rightarrow> 'd driver \<Rightarrow> int \<Rightarrow> 'd \<Rightarrow> std_output \<Rightarrow> audio_server \<Rightarrow>
     ('d \<times> std_output \<times> audio_server \<times> int option) option" where
  "std_process env d now dev o' st = do {
     dcheck (next_sched_time_known o');
     (did_mix, dev, o', st) \<leftarrow>
        (if now \<ge> next_sched_time o'
         then mix_jobs env d now False dev (o'\<lparr>next_sched_time_known := False\<rparr>) st
         else Some (False, dev, o', st));
     (if \<not> next_sched_time_known o' then Some (dev, o', shutdown_self (so_number o') st, None)
      else do {
        (o', st) \<leftarrow>
           (if did_mix then Some (o', st)
            else foreach_renderer trim_task (env_clock env) (env_amplitude env)
                   (o_links (output_at st (so_number o'))) o' st);
        max_sched_time \<leftarrow> i64_add now kMaxTrimPeriod;
        Some (dev, o', st,
          if shutting_down (output_at st (so_number o')) then None
          else Some (if next_sched_time o' > max_sched_time then max_sched_time else next_sched_time o'))
      })
   }"

text \<open>\<open>ProcessThunk\<close> calls \<open>Process\<close> under the output's mutex, unless it is shutting down.\<close>

definition process_thunk ::
    "environment \<Rightarrow> 'd driver \<Rightarrow> int \<Rightarrow> 'd \<Rightarrow> std_output \<Rightarrow> audio_server \<Rightarrow>
     ('d \<times> std_output \<times> audio_server \<times> int option) option" where
  "process_thunk env d now dev o' st =
     (if shutting_down (output_at st (so_number o')) then Some (dev, o', st, None)
      else std_process env d now dev o' st)"

section \<open>The throttle output\<close>

definition TRIM_PERIOD :: int where "TRIM_PERIOD = 10 * 1000000"

text \<open>Its state is \<open>last_sched_time_\<close>.\<close>

definition throttle_start_mix_job :: "int \<Rightarrow> int \<times> std_output \<Rightarrow> (mix_job option \<times> int \<times> std_output) option" where
  "throttle_start_mix_job process_start = (\<lambda>(last, o'). do {
     last \<leftarrow> i64_add last TRIM_PERIOD;
     last \<leftarrow> (if process_start > last then i64_add process_start TRIM_PERIOD else Some last);
     Some (None, last, set_next_sched_time last o')
   })"

definition throttle_finish_mix_job :: "mix_job \<Rightarrow> int \<times> std_output \<Rightarrow> (bool \<times> int \<times> std_output) option" where
  "throttle_finish_mix_job job = (\<lambda>_. None)"

definition throttle_driver :: "int driver" where
  "throttle_driver = \<lparr>start_mix_job = throttle_start_mix_job, finish_mix_job = throttle_finish_mix_job\<rparr>"

section \<open>The server as outputs process\<close>

text \<open>A task only touches the output's own state.\<close>

definition task_ok :: "output_task \<Rightarrow> bool" where
  "task_ok task \<longleftrightarrow>
     (\<forall>now info o' ready info' o''. task_setup task now info o' = Some (ready, info', o'') \<longrightarrow> so_number o'' = so_number o') \<and>
     (\<forall>info p o' c info' o''. task_process task info p o' = Some (c, info', o'') \<longrightarrow> so_number o'' = so_number o')"

lemma mix_packet_number:
  "mix_packet samples info packet o' left off inp = Some (info', o'', off', c) \<Longrightarrow> so_number o'' = so_number o'"
  by (auto simp: mix_packet_def bind_Some_iff Let_def)

lemma mix_located_number:
  "mix_located samples info packet o' left off inp = Some (c, info', o'') \<Longrightarrow> so_number o'' = so_number o'"
  by (auto simp: mix_located_def produce_frames_def bind_Some_iff Let_def dest: mix_packet_number split: if_split_asm)

lemma process_mix_number:
  "process_mix samples info packet o' = Some (c, info', o'') \<Longrightarrow> so_number o'' = so_number o'"
  unfolding process_mix_def Let_def
  by (auto simp: bind_Some_iff simp del: not_less not_le dest: mix_located_number split: if_split_asm)

lemma mix_task_ok [simp]: "task_ok (mix_task samples)"
  by (auto simp: task_ok_def mix_task_def setup_mix_def bind_Some_iff dest: process_mix_number)

lemma trim_task_ok [simp]: "task_ok trim_task"
  by (auto simp: task_ok_def trim_task_def setup_trim_def process_trim_def bind_Some_iff)

text \<open>What a step of an output leaves alone.\<close>

definition output_frame :: "audio_server \<Rightarrow> audio_server \<Rightarrow> bool" where
  "output_frame st st' \<longleftrightarrow> link_count st' = link_count st \<and> received st' = received st \<and> renderers st' = renderers st \<and>
     (\<forall>o'. shutting_down (output_at st' o') = shutting_down (output_at st o'))"

lemma output_frame_refl [simp]: "output_frame st st"
  by (simp add: output_frame_def)

lemma output_frame_trans: "output_frame a b \<Longrightarrow> output_frame b c \<Longrightarrow> output_frame a c"
  by (simp add: output_frame_def)

lemma output_lock_frame: "output_frame st (snd (snd (output_lock i st))) \<and> output_at (snd (snd (output_lock i st))) = output_at st"
  by (simp add: output_lock_def lock_pending_queue_front_def output_frame_def)

lemma output_unlock_frame:
  "output_unlock i pkt b st = Some st' \<Longrightarrow> output_frame st st' \<and> output_at st' = output_at st"
  by (auto simp: output_unlock_def bind_Some_iff output_frame_def)

lemma queue_turn_ok:
  assumes "queue_turn task now scale i d info o' st = Some (again, info', o'', st')"
    and "server_ok {} st" "i < link_count st" "task_ok task"
  shows "server_ok {} st' \<and> output_frame st st' \<and> output_at st' = output_at st \<and> so_number o'' = so_number o'"
proof -
  obtain pkt wf st1 where l: "output_lock i st = (pkt, wf, st1)" by (metis prod_cases3)
  have ok1: "server_ok {} st1" "output_frame st st1" "output_at st1 = output_at st"
    using same_routing_ok [OF output_lock_routing assms(2), of i] output_lock_frame [of st i] l by simp_all
  then have i: "i < link_count st1" using assms(3) by (simp add: output_frame_def)
  obtain q b where u: "output_unlock i q b st1 = Some st'"
    using assms(1) l by (cases pkt) (auto simp: queue_turn_def bind_Some_iff Let_def)
  have "so_number o'' = so_number o'"
    using assms(1,4) l unfolding task_ok_def
    by (cases pkt) (auto simp: queue_turn_def bind_Some_iff Let_def split: if_splits)
  moreover have "output_frame st st'" using output_frame_trans ok1(2) output_unlock_frame [OF u] by blast
  moreover have "output_at st' = output_at st" using output_unlock_frame [OF u] ok1(3) by simp
  ultimately show ?thesis using output_unlock_ok [OF ok1(1) i u] by blast
qed

lemma queue_loop_ok:
  assumes "queue_loop task now scale i d info o' st = Some (info', o'', st')"
    and "server_ok {} st" "i < link_count st" "task_ok task"
  shows "server_ok {} st' \<and> output_frame st st' \<and> output_at st' = output_at st \<and> so_number o'' = so_number o'"
  using assms
proof (induction task now scale i d info o' st arbitrary: info' o'' st' rule: queue_loop.induct)
  case (1 task now scale i d info o' st)
  obtain again info1 o1 st1 where t: "queue_turn task now scale i d info o' st = Some (again, info1, o1, st1)"
    using "1.prems"(1) by (subst (asm) queue_loop.simps) (auto split: option.splits)
  note one = queue_turn_ok [OF t "1.prems"(2-4)]
  show ?case
  proof (cases again)
    case True
    then have rec: "queue_loop task now scale i True info1 o1 st1 = Some (info', o'', st')"
      using "1.prems"(1) t by (subst (asm) queue_loop.simps) simp
    have "i < link_count st1" using one "1.prems"(3) by (simp add: output_frame_def)
    then have "server_ok {} st' \<and> output_frame st1 st' \<and> output_at st' = output_at st1 \<and> so_number o'' = so_number o1"
      using "1.IH" [OF t refl refl refl True rec] one "1.prems"(4) by blast
    then show ?thesis using one output_frame_trans by metis
  next
    case False
    then show ?thesis using "1.prems"(1) t one by (subst (asm) queue_loop.simps) simp
  qed
qed

lemma update_renderer_trans_routing:
  assumes "update_renderer_trans now r fi info st = Some (info', st')"
  shows "same_routing st st' \<and> output_frame st st' \<and> output_at st' = output_at st"
proof -
  obtain cp where "st' = upd_renderer r (\<lambda>x. x\<lparr>timeline_control_point := cp\<rparr>) st"
    using assms by (auto simp: update_renderer_trans_def bind_Some_iff Let_def split: if_split_asm)
  then show ?thesis by (simp add: same_routing_def output_frame_def renderer_links_def)
qed

lemma erase_link_frame: "output_frame st (erase_link o' i st)"
  by (simp add: erase_link_def output_frame_def)

lemma erase_link_links:
  "set (o_links (output_at (erase_link o' i st) o')) = set (remove1 i (o_links (output_at st o')))"
  by (simp add: erase_link_def)

lemma foreach_renderer_ok:
  assumes "foreach_renderer task clock amplitude is o' st = Some (o'', st')"
    and "server_ok {} st" "task_ok task" "distinct is" "set is \<subseteq> set (o_links (output_at st (so_number o')))"
  shows "server_ok {} st' \<and> output_frame st st' \<and> so_number o'' = so_number o'"
  using assms
proof (induction "is" arbitrary: o' st)
  case (Cons i "is")
  let ?n = "so_number o'"
  have i: "i \<in> set (o_links (output_at st ?n))" using Cons.prems(5) by simp
  consider "shutting_down (output_at st ?n)" | "\<not> shutting_down (output_at st ?n)" "\<not> link_alive i st"
    | "\<not> shutting_down (output_at st ?n)" "link_alive i st" by blast
  then show ?case
  proof cases
    case 1
    then show ?thesis using Cons.prems by simp
  next
    case 2
    have "server_ok {} (erase_link ?n i st)" by (rule erase_link_ok [OF Cons.prems(2) i 2(2)])
    moreover have "set is \<subseteq> set (o_links (output_at (erase_link ?n i st) ?n))"
      unfolding erase_link_links using Cons.prems(4,5) by (auto intro: in_set_remove1 [THEN iffD2])
    ultimately have "server_ok {} st' \<and> output_frame (erase_link ?n i st) st' \<and> so_number o'' = ?n"
      using Cons.IH [of o' "erase_link ?n i st"] Cons.prems 2 by simp
    then show ?thesis using erase_link_frame output_frame_trans by blast
  next
    case 3
    obtain info info1 st1 info2 o2 st2 where u: "update_renderer_trans (clock i) (link_renderer (link_at st i)) (link_format (link_at st i)) info st = Some (info1, st1)"
      and q: "queue_loop task (clock i) (amplitude i) i False info1 o' st1 = Some (info2, o2, st2)"
      and f: "foreach_renderer task clock amplitude is (o2\<lparr>cur_mix_job := (cur_mix_job o2)\<lparr>accumulate := True\<rparr>\<rparr>)
         (upd_link i (\<lambda>l. l\<lparr>output_bookkeeping := Some info2\<rparr>) st2) = Some (o'', st')"
      using Cons.prems(1) 3 by (auto simp: bind_Some_iff)
    note st1 = update_renderer_trans_routing [OF u]
    have ok1: "server_ok {} st1" using same_routing_ok [OF _ Cons.prems(2)] st1 by blast
    have "i < link_count st1" using server_okD(9) [OF Cons.prems(2) i] st1 by (simp add: output_frame_def)
    note st2 = queue_loop_ok [OF q ok1 this Cons.prems(3)]
    let ?st3 = "upd_link i (\<lambda>l. l\<lparr>output_bookkeeping := Some info2\<rparr>) st2"
    have "same_routing st2 ?st3" "output_frame st2 ?st3" by (simp_all add: same_routing_def output_frame_def)
    then have ok3: "server_ok {} ?st3" "output_frame st ?st3"
      using same_routing_ok st2 st1 output_frame_trans by blast+
    have "set is \<subseteq> set (o_links (output_at ?st3 ?n))" using Cons.prems(5) st1 st2 by simp
    then have "server_ok {} st' \<and> output_frame ?st3 st' \<and> so_number o'' = ?n"
      using Cons.IH [OF f ok3(1) Cons.prems(3)] Cons.prems(4) st2 by simp
    then show ?thesis using ok3(2) output_frame_trans by blast
  qed
qed simp

definition driver_ok :: "'d driver \<Rightarrow> bool" where
  "driver_ok d \<longleftrightarrow>
     (\<forall>now dev o' job dev' o''. start_mix_job d now (dev, o') = Some (job, dev', o'') \<longrightarrow> so_number o'' = so_number o') \<and>
     (\<forall>job dev o' again dev' o''. finish_mix_job d job (dev, o') = Some (again, dev', o'') \<longrightarrow> so_number o'' = so_number o')"

lemma mix_one_job_ok:
  assumes "mix_one_job env job o' st = Some (job', o'', st')" "server_ok {} st"
  shows "server_ok {} st' \<and> output_frame st st' \<and> so_number o'' = so_number o'"
proof -
  obtain o2 o3 where "foreach_renderer (mix_task (env_samples env)) (env_clock env) (env_amplitude env)
      (o_links (output_at st (so_number o2))) o2 st = Some (o3, st')" "so_number o2 = so_number o'" "so_number o'' = so_number o3"
    using assms(1) by (auto simp: mix_one_job_def bind_Some_iff Let_def)
  then show ?thesis using foreach_renderer_ok [OF _ assms(2)] server_okD(8) [OF assms(2)] by fastforce
qed

lemma mix_jobs_ok:
  assumes "mix_jobs env d now b dev o' st = Some (b', dev', o'', st')" "server_ok {} st" "driver_ok d"
  shows "server_ok {} st' \<and> output_frame st st' \<and> so_number o'' = so_number o'"
proof -
  let ?P = "\<lambda>env d now b dev o' st y. \<forall>b' dev' o'' st'. y = (b', dev', o'', st') \<longrightarrow> server_ok {} st \<longrightarrow>
      driver_ok d \<longrightarrow> server_ok {} st' \<and> output_frame st st' \<and> so_number o'' = so_number o'"
  have "?P env d now b dev o' st y" if "mix_jobs env d now b dev o' st = Some y" for y
  proof (rule mix_jobs.raw_induct [where P = ?P, OF _ that], goal_cases)
    case (1 mj env d now b dev o' st y)
    show ?case
    proof (intro allI impI)
      fix b' dev' o'' st' assume y: "y = (b', dev', o'', st')" and ok: "server_ok {} st" "driver_ok d"
      obtain job dev1 o1 where s: "start_mix_job d now (dev, o'\<lparr>cur_mix_job := empty_job\<rparr>) = Some (job, dev1, o1)"
        using "1"(2) by (auto simp: bind_Some_iff)
      have n1: "so_number o1 = so_number o'" using s ok(2) unfolding driver_ok_def by fastforce
      show "server_ok {} st' \<and> output_frame st st' \<and> so_number o'' = so_number o'"
      proof (cases job)
        case None
        then show ?thesis using "1"(2) s y ok n1 by simp
      next
        case (Some j)
        obtain j2 o2 st2 again dev3 o3 where m: "mix_one_job env j o1 st = Some (j2, o2, st2)"
          and f: "finish_mix_job d j2 (dev1, o2) = Some (again, dev3, o3)"
          and r: "(if again then mj env d now True dev3 o3 st2 else Some (True, dev3, o3, st2)) = Some y"
          using "1"(2) s Some by (auto simp: bind_Some_iff)
        note one = mix_one_job_ok [OF m ok(1)]
        have n3: "so_number o3 = so_number o2" using f ok(2) unfolding driver_ok_def by blast
        show ?thesis
        proof (cases again)
          case True
          then have "server_ok {} st' \<and> output_frame st2 st' \<and> so_number o'' = so_number o3"
            using "1"(1) [of env d now True dev3 o3 st2 y] r y one ok(2) by simp
          then show ?thesis using one n1 n3 output_frame_trans by metis
        qed (use r y one n1 n3 in auto)
      qed
    qed
  qed
  then show ?thesis using assms by blast
qed

lemma shutdown_self_routing: "same_routing st (shutdown_self n st) \<and> received (shutdown_self n st) = received st"
proof -
  obtain b st1 where b: "begin_shutdown n st = (b, st1)" by fastforce
  have "same_routing st (snd (begin_shutdown n st))" by simp
  moreover have "received (snd (begin_shutdown n st)) = received st" by (simp add: begin_shutdown_def)
  ultimately show ?thesis
    using same_routing_trans [OF _ same_routing_emit] b by (simp add: shutdown_self_def)
qed

lemma std_process_ok:
  assumes "std_process env d now dev o' st = Some (dev', o'', st', next)" "server_ok {} st" "driver_ok d"
  shows "server_ok {} st' \<and> received st' = received st \<and> link_count st' = link_count st \<and> so_number o'' = so_number o'"
proof -
  obtain b dev1 o1 st1 where m: "(if now \<ge> next_sched_time o'
         then mix_jobs env d now False dev (o'\<lparr>next_sched_time_known := False\<rparr>) st
         else Some (False, dev, o', st)) = Some (b, dev1, o1, st1)"
    and rest: "(if \<not> next_sched_time_known o1 then Some (dev1, o1, shutdown_self (so_number o1) st1, None)
      else do {
        (o', st) \<leftarrow>
           (if b then Some (o1, st1)
            else foreach_renderer trim_task (env_clock env) (env_amplitude env)
                   (o_links (output_at st1 (so_number o1))) o1 st1);
        max_sched_time \<leftarrow> i64_add now kMaxTrimPeriod;
        Some (dev1, o', st,
          if shutting_down (output_at st (so_number o')) then None
          else Some (if next_sched_time o' > max_sched_time then max_sched_time else next_sched_time o'))
      }) = Some (dev', o'', st', next)"
    using assms(1) unfolding std_process_def by (auto simp: bind_Some_iff)
  have one: "server_ok {} st1 \<and> output_frame st st1 \<and> so_number o1 = so_number o'"
    using m assms(2,3) mix_jobs_ok [OF _ assms(2,3)] by (fastforce split: if_split_asm)
  show ?thesis
  proof (cases "next_sched_time_known o1")
    case False
    then show ?thesis using rest one shutdown_self_routing [of st1] same_routing_ok [of st1]
      by (auto simp: output_frame_def same_routing_def)
  next
    case True
    then obtain o2 st2 where f: "(if b then Some (o1, st1)
            else foreach_renderer trim_task (env_clock env) (env_amplitude env)
                   (o_links (output_at st1 (so_number o1))) o1 st1) = Some (o2, st2)" "st' = st2" "o'' = o2"
      using rest by (auto simp: bind_Some_iff)
    then show ?thesis
      using one foreach_renderer_ok [of trim_task "env_clock env" "env_amplitude env" "o_links (output_at st1 (so_number o1))" o1 st1 o2 st2]
        server_okD(8) by (auto simp: output_frame_def split: if_split_asm)
  qed
qed

end
