(* ===== verification/Audio_Routing_Properties.thy ===== *)
theory Audio_Routing_Properties
  imports Audio_Routing_Invariants
begin

text \<open>
  What the invariants of the audio server give: packets come back in order and the two ends of every
  link agree. Then what plugging an output does to the routes, and the runs on which the code goes
  wrong.
\<close>

section \<open>Concrete runs\<close>

definition stereo :: audio_details where
  "stereo = \<lparr>sample_format = SF_SIGNED_16, channels = 2, frames_per_second = 48000\<rparr>"

definition stereo_server :: audio_server where
  "stereo_server = server_init LAST_PLUGGED_OUTPUT (\<lambda>_. Some stereo) (the new_renderer)
     (the (link_create 0 (mk_format_info stereo) 0))"

definition stereo_packet :: "int \<Rightarrow> nat \<Rightarrow> media_packet" where
  "stereo_packet t n = \<lparr>pts = t, pts_rate_ticks = 48000, pts_rate_seconds = 1, keyframe = False,
     end_of_stream = False, payload_buffer_id = 0, payload_offset = 0, payload_size = n, revised_media_type = None\<rparr>"

definition run_calls :: "server_call list \<Rightarrow> audio_server option" where
  "run_calls cs = server_run (map (Pair 0) cs) stereo_server"

text \<open>One plugged output, an idle one, a renderer with two packets.\<close>

definition two_outputs :: "server_call list" where
  "two_outputs = [CreateRenderer, AddOutput 1 RESULT_OK (Some (True, 1)), AddOutput 2 RESULT_OK None,
      SetMediaType 0 (Some stereo), BindPipe 0,
      SupplyPacket 0 (stereo_packet 10 0) 3, SupplyPacket 0 (stereo_packet 12 0) 4]"

definition first_packet :: audio_packet_ref where
  "first_packet = hd (pending_queue (link_at (the (run_calls two_outputs)) 0))"

definition two_outputs_taken :: "server_call list" where
  "two_outputs_taken = two_outputs @ [LockFront 0 0, UnlockFront 0 0 (Some first_packet) True,
      LockFront 1 1, UnlockFront 1 1 (Some first_packet) True]"

theorem link_gives_packets_back_in_order_witness:
  "\<exists>l w. link_create 0 (mk_format_info stereo) 1 = Some l \<and>
    link_run [Push first_packet, Lock, Push first_packet, Unlock True, Flush] (link_world_init l) = Some w \<and>
    lw_given_back w @ pending_queue (lw_link w) = [first_packet, first_packet]"
proof -
  have "mk_format_info stereo \<noteq> None" by code_simp
  then obtain f where f: "mk_format_info stereo = Some f" by blast
  then obtain l where l: "link_create 0 (Some f) 1 = Some l" by (simp add: link_create_def)
  obtain w where w: "link_run [Push first_packet, Lock, Push first_packet, Unlock True, Flush] (link_world_init l) = Some w"
      "lw_given_back w @ pending_queue (lw_link w) = lw_pushed w"
    using link_gives_packets_back_in_order [OF l] by blast
  have "lw_pushed w = [first_packet, first_packet]"
    using w(1) l by (auto simp: link_world_init_def link_create_def push_to_pending_queue_def Let_def
        lock_pending_queue_front_def unlock_pending_queue_front_def flush_pending_queue_def)
  then show ?thesis using f l w by auto
qed

section \<open>Every run\<close>

text \<open>
  In every run of the audio server - renderers created, reformatted and shut down, packets supplied and
  flushed, outputs plugged and unplugged, mixer threads taking packets - and for every renderer, the
  packets its links have given back, in the order in which their clean-up is scheduled, are a prefix
  of the packets the renderer was given. What is missing from the end is exactly what the fullest of
  its queues still holds: nothing is returned while an output still has it, nothing is kept longer.
\<close>
theorem server_returns_packets_in_order:
  assumes "server_run cs (server_init pol fmts x l) = Some st"
  shows "returned st r = map ref_supplied (take (length (history st r) - held st r) (history st r)) \<and>
    (\<forall>i. owns st r i \<longrightarrow> suffix (pending_queue (link_at st i)) (history st r))"
proof -
  have ok: "server_ok {} st" by (rule server_run_ok [OF server_init_ok assms])
  then show ?thesis
    by (auto simp: server_ok_def queues_ok_def suffixes_ok_def returned_ok_def owns_def)
qed

lemma run_callsE:
  assumes "case run_calls cs of None \<Rightarrow> False | Some st \<Rightarrow> P st"
  obtains st where "run_calls cs = Some st" "P st"
  using assms by (auto split: option.splits)

theorem server_returns_packets_in_order_witness:
  "\<exists>st. run_calls two_outputs_taken = Some st \<and>
    map sp_callback (returned st 0) = [3] \<and> map (\<lambda>p. sp_callback (ref_supplied p)) (history st 0) = [3, 4] \<and>
    suffix (pending_queue (link_at st 1)) (history st 0)"
proof -
  have "case run_calls two_outputs_taken of None \<Rightarrow> False | Some st \<Rightarrow>
      map (\<lambda>p. sp_callback (ref_supplied p)) (history st 0) = [3, 4] \<and> held st 0 = 1 \<and> owns st 0 1"
    by code_simp
  then obtain st where run: "run_calls two_outputs_taken = Some st"
    and st: "map (\<lambda>p. sp_callback (ref_supplied p)) (history st 0) = [3, 4] \<and> held st 0 = 1 \<and> owns st 0 1"
    by (rule run_callsE)
  then show ?thesis
    using server_returns_packets_in_order [OF run [unfolded run_calls_def stereo_server_def], of 0]
    by (auto simp: take_map [symmetric] map_eq_Cons_conv comp_def)
qed

text \<open>
  C8. In every run, the two ends of a link know of each other: each link a living renderer sends packets
  to is valid, belongs to that renderer, and is served by exactly the output it was made for.
\<close>
theorem renderers_and_outputs_agree:
  assumes "server_run cs (server_init pol fmts x l) = Some st" "r \<in> set (renderers st)"
    and "i \<in> set (renderer_links (renderer_at st r))"
  shows "link_valid (link_at st i) \<and> link_renderer (link_at st i) = r \<and>
    (\<forall>o'. i \<in> set (o_links (output_at st o')) \<longleftrightarrow> o' = link_output (link_at st i))"
proof -
  have ok: "server_ok {} st" by (rule server_run_ok [OF server_init_ok assms(1)])
  have "i \<in> set (o_links (output_at st (link_output (link_at st i))))" using server_okD(7) [OF ok assms(2,3)] by simp
  moreover have "o' = link_output (link_at st i)" if "i \<in> set (o_links (output_at st o'))" for o'
    using server_okD(10) [OF ok that] by simp
  ultimately have "\<forall>o'. i \<in> set (o_links (output_at st o')) \<longleftrightarrow> o' = link_output (link_at st i)" by blast
  moreover have "owns st r i" by (rule server_okD(6) [OF ok assms(2,3)])
  ultimately show ?thesis using server_okD(13) [OF ok assms(2,3)] unfolding owns_def by blast
qed

theorem renderers_and_outputs_agree_witness:
  "\<exists>st. run_calls two_outputs = Some st \<and> link_valid (link_at st 1) \<and> 1 \<in> set (o_links (output_at st 1)) \<and>
    1 \<notin> set (o_links (output_at st 2))"
proof -
  have "case run_calls two_outputs of None \<Rightarrow> False | Some st \<Rightarrow>
      0 \<in> set (renderers st) \<and> 1 \<in> set (renderer_links (renderer_at st 0)) \<and> link_output (link_at st 1) = 1"
    by code_simp
  then obtain st where run: "run_calls two_outputs = Some st"
    and st: "0 \<in> set (renderers st) \<and> 1 \<in> set (renderer_links (renderer_at st 0)) \<and> link_output (link_at st 1) = 1"
    by (rule run_callsE)
  then show ?thesis
    using renderers_and_outputs_agree [OF run [unfolded run_calls_def stereo_server_def], of 0 1] by auto
qed

section \<open>Plugging in\<close>

text \<open>A new link goes to the end of the renderer's list and to no other renderer.\<close>

lemma link_output_appends:
  assumes "link_output_to_renderer o' r st = Some st'" "renderer_format (renderer_at st r) = Some f"
    and "mixer_select (fi_format f) (o_format (output_at st o')) = Some (Some m)" "\<not> shutting_down (output_at st o')"
    and "o' \<noteq> throttle_output st"
  shows "output_links (renderer_at st' r) = output_links (renderer_at st r) @ [link_count st]"
    "link_output (link_at st' (link_count st)) = o'" "link_count st' = Suc (link_count st)"
    "\<And>r'. r' \<noteq> r \<Longrightarrow> output_links (renderer_at st' r') = output_links (renderer_at st r')"
    "\<And>j. j < link_count st \<Longrightarrow> link_output (link_at st' j) = link_output (link_at st j)"
proof -
  from assms(1,2) have "output_links (renderer_at st' r) = output_links (renderer_at st r) @ [link_count st] \<and>
    link_output (link_at st' (link_count st)) = o' \<and> link_count st' = Suc (link_count st) \<and>
    (\<forall>r'. r' \<noteq> r \<longrightarrow> output_links (renderer_at st' r') = output_links (renderer_at st r')) \<and>
    (\<forall>j < link_count st. link_output (link_at st' j) = link_output (link_at st j))"
  proof (cases rule: link_output_cases)
    case (refused l st1)
    then show ?thesis using assms(3,4) by simp
  next
    case (linked l st1 st2)
    have add: "renderer_add_output r (link_count st) st2 = Some st'" using linked(8) assms(5) by simp
    have li: "link_output (link_at st' j) = link_output (link_at st2 j)" "link_count st' = link_count st2" for j
      using add by (auto simp: renderer_add_output_def init_pending_queue_def bind_Some_iff Let_def
          split: option.splits if_splits)
    have rl: "output_links (renderer_at st' r') =
      (if r' = r then output_links (renderer_at st2 r) @ [link_count st] else output_links (renderer_at st2 r'))" for r'
      using add by (auto simp: renderer_add_output_def bind_Some_iff Let_def split: option.splits)
    have same: "link_output (link_at st1 j) = link_output (link_at (add_link l st) j)" "link_count st1 = Suc (link_count st)" for j
      using linked(2) by (simp_all add: same_routing_def)
    have "link_output l = o'" using linked(1) by (auto simp: link_create_def)
    then show ?thesis using li rl same linked(5,6) by simp
  qed
  then show "output_links (renderer_at st' r) = output_links (renderer_at st r) @ [link_count st]"
    "link_output (link_at st' (link_count st)) = o'" "link_count st' = Suc (link_count st)"
    "\<And>r'. r' \<noteq> r \<Longrightarrow> output_links (renderer_at st' r') = output_links (renderer_at st r')"
    "\<And>j. j < link_count st \<Longrightarrow> link_output (link_at st' j) = link_output (link_at st j)"
    by blast+
qed

definition playable :: "audio_server \<Rightarrow> nat \<Rightarrow> nat \<Rightarrow> bool" where
  "playable st o' r \<longleftrightarrow>
     (case renderer_format (renderer_at st r) of
        None \<Rightarrow> False
      | Some f \<Rightarrow> (case mixer_select (fi_format f) (o_format (output_at st o')) of Some (Some m) \<Rightarrow> True | _ \<Rightarrow> False))"

lemma playable_cong: "same_world st st' \<Longrightarrow> playable st' o' r = playable st o' r"
  by (simp add: playable_def same_world_def cong: option.case_cong)

text \<open>No link is made for a renderer without a format, or with one the output has no mixer for.\<close>

lemma link_output_refused:
  assumes "link_output_to_renderer o' r st = Some st'" "\<not> playable st o' r"
  shows "renderer_at st' = renderer_at st \<and> link_count st \<le> link_count st' \<and>
    (\<forall>j < link_count st. link_output (link_at st' j) = link_output (link_at st j))"
proof (cases "renderer_format (renderer_at st r)")
  case None
  then show ?thesis using assms(1) by (simp add: link_output_to_renderer_def)
next
  case (Some f)
  obtain l res st1 where l: "link_create r (Some f) o' = Some l"
    and add: "add_renderer_link o' (link_count st) (add_link l st) = Some (res, st1)"
    and fin: "(if res = RESULT_OK
         then if o' = throttle_output st1 then renderer_set_throttle_output r (link_count st) st1
              else renderer_add_output r (link_count st) st1
         else Some st1) = Some st'"
    using assms(1) Some unfolding link_output_to_renderer_def
    by (auto simp: bind_Some_iff add_link_def Let_def link_create_def)
  obtain res0 st0 where i: "initialize_link o' (link_count st) (add_link l st) = Some (res0, st0)"
    using add unfolding add_renderer_link_def by (auto simp: bind_Some_iff)
  have "link_format l = f" using l by (auto simp: link_create_def)
  then have r: "res0 \<noteq> RESULT_OK"
    using i assms(2) Some by (auto simp: initialize_link_def playable_def bind_Some_iff split: option.splits)
  then have "st1 = st0" "res = res0" using add i unfolding add_renderer_link_def by auto
  moreover have "link_output (link_at st0 j) = link_output (link_at st j)" if "j < link_count st" for j
    using initialize_link_routing [OF i] that by (simp add: same_routing_def)
  moreover have "link_count st0 = Suc (link_count st)" using initialize_link_routing [OF i] by (simp add: same_routing_def)
  ultimately show ?thesis using fin r initialize_link_routing [OF i] by simp
qed

text \<open>\<open>linked_to st st' o' r\<close>: from \<open>st\<close> to \<open>st'\<close> the renderer got a link to the output exactly when it can
  be played there.\<close>

definition linked_to :: "audio_server \<Rightarrow> audio_server \<Rightarrow> nat \<Rightarrow> nat \<Rightarrow> bool" where
  "linked_to st st' o' r \<longleftrightarrow>
     (if playable st o' r
      then \<exists>i. output_links (renderer_at st' r) = output_links (renderer_at st r) @ [i] \<and> link_output (link_at st' i) = o'
      else output_links (renderer_at st' r) = output_links (renderer_at st r))"

lemma link_one:
  assumes "link_output_to_renderer o' r st = Some st'" "\<not> shutting_down (output_at st o')" "o' \<noteq> throttle_output st"
  shows "link_count st \<le> link_count st' \<and> (\<forall>j < link_count st. link_output (link_at st' j) = link_output (link_at st j)) \<and>
    (\<forall>x. x \<noteq> r \<longrightarrow> output_links (renderer_at st' x) = output_links (renderer_at st x)) \<and> linked_to st st' o' r \<and>
    (\<forall>i. output_links (renderer_at st' r) = output_links (renderer_at st r) @ [i] \<longrightarrow> i < link_count st')"
proof (cases "playable st o' r")
  case True
  then obtain f m where f: "renderer_format (renderer_at st r) = Some f"
    "mixer_select (fi_format f) (o_format (output_at st o')) = Some (Some m)"
    by (auto simp: playable_def split: option.splits)
  show ?thesis using link_output_appends [OF assms(1) f assms(2,3)] True by (simp add: linked_to_def)
next
  case False
  then show ?thesis using link_output_refused [OF assms(1)] by (simp add: linked_to_def)
qed

lemma link_all_appends:
  assumes "link_all (map (Pair o') rs) st = Some st'" "distinct rs" "\<not> shutting_down (output_at st o')"
    and "o' \<noteq> throttle_output st" "server_ok {} st" "set rs \<subseteq> set (renderers st)"
  shows "link_count st \<le> link_count st' \<and> (\<forall>j < link_count st. link_output (link_at st' j) = link_output (link_at st j)) \<and>
    (\<forall>r. r \<notin> set rs \<longrightarrow> output_links (renderer_at st' r) = output_links (renderer_at st r)) \<and>
    (\<forall>r \<in> set rs. linked_to st st' o' r)"
  using assms
proof (induction rs arbitrary: st)
  case (Cons r rs)
  obtain st1 where st1: "link_output_to_renderer o' r st = Some st1" "link_all (map (Pair o') rs) st1 = Some st'"
    using Cons.prems(1) by (auto simp: bind_Some_iff)
  note one = link_one [OF st1(1) Cons.prems(3,4)]
  have ok: "server_ok {} st1" "same_world st st1"
    using link_output_to_renderer_ok [OF Cons.prems(5) _ st1(1)] Cons.prems(6) by simp_all
  have play: "playable st1 o' x = playable st o' x" for x by (rule playable_cong [OF ok(2)])
  have IH: "link_count st1 \<le> link_count st' \<and> (\<forall>j < link_count st1. link_output (link_at st' j) = link_output (link_at st1 j)) \<and>
    (\<forall>r. r \<notin> set rs \<longrightarrow> output_links (renderer_at st' r) = output_links (renderer_at st1 r)) \<and>
    (\<forall>r \<in> set rs. linked_to st1 st' o' r)"
    using Cons.prems ok by (intro Cons.IH [OF st1(2)]) (auto simp: same_world_def)
  have r: "r \<notin> set rs" using Cons.prems(2) by simp
  have "linked_to st st' o' r"
    using IH r one unfolding linked_to_def by (auto split: if_split_asm)
  moreover have "linked_to st st' o' x" if "x \<in> set rs" for x
    using IH that one r unfolding linked_to_def play by (metis (no_types))
  ultimately show ?case using IH one by simp
qed simp

lemma find_last_is:
  assumes "o' \<in> set (outputs st)" "plugged (output_at st o')"
    and late: "\<And>p. p \<in> set (outputs st) \<Longrightarrow> p \<noteq> o' \<Longrightarrow> plugged (output_at st p) \<Longrightarrow>
      plug_time (output_at st p) < plug_time (output_at st o')"
  shows "find_last_plugged_output st = Some o'"
proof -
  have keep: "fold (later_plugged st) os (Some o') = Some o'" if "set os \<subseteq> set (outputs st)" for os
    using that
  proof (induction os)
    case (Cons p os)
    have "later_plugged st p (Some o') = Some o'"
      using late [of p] Cons.prems by (auto simp: later_plugged_def dest: order.asym)
    then show ?case using Cons by simp
  qed simp
  have "fold (later_plugged st) os best = Some o'"
    if "set os \<subseteq> set (outputs st)" "o' \<in> set os"
      "case best of None \<Rightarrow> True | Some b \<Rightarrow> plug_time (output_at st b) < plug_time (output_at st o')" for os best
    using that
  proof (induction os arbitrary: best)
    case (Cons p os)
    show ?case
    proof (cases "p = o'")
      case True
      then have "later_plugged st p best = Some o'" using Cons.prems(3) assms(2) by (simp add: later_plugged_def)
      then show ?thesis using keep Cons.prems(1) by simp
    next
      case False
      then have "case later_plugged st p best of None \<Rightarrow> True
        | Some b \<Rightarrow> plug_time (output_at st b) < plug_time (output_at st o')"
        using late [of p] Cons.prems by (auto simp: later_plugged_def)
      then show ?thesis using Cons.IH Cons.prems False by simp
    qed
  qed simp
  then show ?thesis using assms(1) by (simp add: find_last_plugged_output_def)
qed

text \<open>
  C7. Under the \<open>LAST_PLUGGED_OUTPUT\<close> policy, when an idle output is plugged in later than all others and
  the change of its plug state succeeds, every renderer that it can play ends up with one link, to it, and
  every other renderer (without a format, or with one it has no mixer for) with none - provided the
  renderers' links led to outputs the manager knows. That the change can fail where an output still has
  a link its renderer has forgotten is \<open>format_change_then_plug_fails\<close>.
\<close>
theorem plugging_in_moves_all_renderers:
  assumes "server_run cs (server_init pol fmts x l) = Some st" "policy st = LAST_PLUGGED_OUTPUT"
    and o': "o' \<in> set (outputs st)" "\<not> plugged (output_at st o')" "\<not> shutting_down (output_at st o')"
      "o_links (output_at st o') = []" "plug_time (output_at st o') \<le> t"
    and late: "\<forall>p \<in> set (outputs st). plugged (output_at st p) \<longrightarrow> plug_time (output_at st p) < t"
    and known: "\<forall>r \<in> set (renderers st). \<forall>i \<in> set (output_links (renderer_at st r)). link_output (link_at st i) \<in> set (outputs st)"
    and run: "handle_plug_state_change o' True t st = Some st'"
  shows "\<forall>r \<in> set (renderers st). if playable st o' r
    then \<exists>i. output_links (renderer_at st' r) = [i] \<and> link_output (link_at st' i) = o'
    else output_links (renderer_at st' r) = []"
proof -
  let ?st = "upd_output o' (\<lambda>x. x\<lparr>plugged := True, plug_time := t\<rparr>) st"
  have ok: "server_ok {} ?st"
    by (rule same_routing_ok [OF _ server_run_ok [OF server_init_ok assms(1)]]) (simp add: same_routing_def)
  have last: "find_last_plugged_output ?st = Some o'" using o' late by (intro find_last_is) auto
  have "on_output_plugged o' ?st = Some st'"
    using run o' by (simp add: handle_plug_state_change_def update_plug_state_def)
  then obtain st1 where st1: "unlink_outputs (filter (\<lambda>x. x \<noteq> o') (outputs st)) ?st = Some st1"
    "link_all (map (Pair o') (renderers st1)) st1 = Some st'" and nt: "o' \<noteq> throttle_output st"
    using assms(2) last by (auto simp: on_output_plugged_def bind_Some_iff)
  note un = unlink_outputs_ok [OF ok st1(1)]
  then have ok1: "server_ok {} st1" and w: "same_world ?st st1" by simp_all
  have rs: "renderers st1 = renderers st" using w by (simp add: same_world_def)
  have free: "output_links (renderer_at st1 r) = []" if r: "r \<in> set (renderers st)" for r
  proof (rule ccontr)
    assume "output_links (renderer_at st1 r) \<noteq> []"
    then obtain i where i: "i \<in> set (output_links (renderer_at st1 r))" by fastforce
    have sub: "i \<in> set (output_links (renderer_at st r))" using un i by auto
    have out: "link_output (link_at st1 i) = link_output (link_at st i)" using un by simp
    have "i \<in> set (o_links (output_at st1 (link_output (link_at st1 i))))"
      using server_okD(7) [OF ok1, of r i] r rs i by (simp add: renderer_links_def)
    then have "link_output (link_at st i) \<notin> set (outputs st)"
      using un o'(4) out by (auto split: if_splits)
    then show False using known r sub by blast
  qed
  have "playable st1 o' r = playable ?st o' r" "playable ?st o' r = playable st o' r" for r
    by (rule playable_cong [OF w]) (simp add: playable_def cong: option.case_cong)
  moreover have "\<not> shutting_down (output_at st1 o')" "o' \<noteq> throttle_output st1"
    using w o'(3) nt by (auto simp: same_world_def split: if_splits)
  moreover have "distinct (renderers st1)" by (rule server_okD(1) [OF ok1])
  ultimately have "\<forall>r \<in> set (renderers st). linked_to st1 st' o' r" "\<And>r. playable st1 o' r = playable st o' r"
    using link_all_appends [OF st1(2)] ok1 rs by simp_all
  then show ?thesis using free unfolding linked_to_def by (auto split: if_split_asm)
qed

lemma server_run_append: "server_run (cs @ ds) s = server_run cs s \<bind> server_run ds"
proof (induction cs arbitrary: s)
  case (Cons c cs)
  then show ?case by (cases c; cases "server_exec (fst c) (snd c) s") simp_all
qed simp

theorem plugging_in_moves_all_renderers_witness:
  "\<exists>st i. run_calls (two_outputs @ [PlugChange 2 True 5]) = Some st \<and>
    output_links (renderer_at st 0) = [i] \<and> link_output (link_at st i) = 2"
proof -
  let ?P = "\<lambda>st. policy st = LAST_PLUGGED_OUTPUT \<and> 2 \<in> set (outputs st) \<and> \<not> plugged (output_at st 2) \<and>
    \<not> shutting_down (output_at st 2) \<and> o_links (output_at st 2) = [] \<and> plug_time (output_at st 2) \<le> 5 \<and>
    (\<forall>p \<in> set (outputs st). plugged (output_at st p) \<longrightarrow> plug_time (output_at st p) < 5) \<and>
    playable st 2 0 \<and>
    (\<forall>r \<in> set (renderers st). \<forall>i \<in> set (output_links (renderer_at st r)). link_output (link_at st i) \<in> set (outputs st)) \<and>
    0 \<in> set (renderers st) \<and> handle_plug_state_change 2 True 5 st \<noteq> None"
  have "case run_calls two_outputs of None \<Rightarrow> False | Some st \<Rightarrow> ?P st" by code_simp
  then obtain st where run: "run_calls two_outputs = Some st" and st: "?P st" by (rule run_callsE)
  then obtain st' where plug: "handle_plug_state_change 2 True 5 st = Some st'" by blast
  have "\<exists>i. output_links (renderer_at st' 0) = [i] \<and> link_output (link_at st' i) = 2"
    using plugging_in_moves_all_renderers [OF run [unfolded run_calls_def stereo_server_def] _ _ _ _ _ _ _ _ plug] st
    by (auto split: if_split_asm)
  moreover have "run_calls (two_outputs @ [PlugChange 2 True 5]) = Some st'"
    using run plug by (simp add: run_calls_def server_run_append)
  ultimately show ?thesis by blast
qed

section \<open>Where the code goes wrong\<close>

text \<open>
  Unplugging an output that no renderer plays on links every renderer a second time to the output
  that stays: \<open>OnOutputUnplugged\<close> looks for a replacement even when nothing needs one. From then on
  the renderer's audio is mixed twice.
\<close>
theorem unplugging_idle_output_links_twice:
  "map_option (\<lambda>st. map (\<lambda>i. link_output (link_at st i)) (output_links (renderer_at st 0)))
     (run_calls [CreateRenderer, AddOutput 1 RESULT_OK (Some (True, 1)), AddOutput 2 RESULT_OK (Some (True, 2)),
        SetMediaType 0 (Some stereo), PlugChange 1 False 3]) = Some [2, 2]"
  by code_simp

text \<open>
  Unplugging an output right after a renderer changed its format fails the check in \<open>RemoveOutput\<close>:
  the output still has the old link, which the renderer has forgotten. The output forgets it only
  when it mixes or trims the next time; after that the unplugging succeeds.
\<close>
theorem format_change_then_unplug_fails:
  "run_calls [CreateRenderer, AddOutput 1 RESULT_OK (Some (True, 1)),
     SetMediaType 0 (Some stereo), SetMediaType 0 (Some stereo), PlugChange 1 False 3] = None \<and>
   run_calls [CreateRenderer, AddOutput 1 RESULT_OK (Some (True, 1)),
     SetMediaType 0 (Some stereo), SetMediaType 0 (Some stereo), EraseLink 1 1, PlugChange 1 False 3] \<noteq> None"
  by code_simp

text \<open>Plugging in an output fails in the same way, when it has the old output unlinked.\<close>

theorem format_change_then_plug_fails:
  "run_calls [CreateRenderer, AddOutput 1 RESULT_OK (Some (True, 1)), AddOutput 2 RESULT_OK (Some (False, 0)),
     SetMediaType 0 (Some stereo), SetMediaType 0 (Some stereo), PlugChange 2 True 5] = None \<and>
   run_calls [CreateRenderer, AddOutput 1 RESULT_OK (Some (True, 1)), AddOutput 2 RESULT_OK (Some (False, 0)),
     SetMediaType 0 (Some stereo), PlugChange 2 True 5] \<noteq> None"
  by code_simp

text \<open>A client that primes a renderer before it sets a format makes the pipe follow a null pointer.\<close>

lemma prime_before_format_fails: "run_calls [CreateRenderer, BindPipe 0, ControlCall 0 (Prime 9)] = None"
  by code_simp

text \<open>
  A prime callback that was completed because another prime came in is kept when the pipe is no
  longer bound, and is called again later.
\<close>

lemma prime_callback_called_twice:
  "map_option (\<lambda>st. filter (\<lambda>e. e = PrimeComplete 0 9) (server_events st))
     (run_calls [CreateRenderer, SetMediaType 0 (Some stereo), BindPipe 0, ControlCall 0 (Prime 9),
        SupplyPacket 0 ((stereo_packet 10 0)\<lparr>revised_media_type := Some 1\<rparr>) 3, ControlCall 0 (Prime 10), BindPipe 0,
        SupplyPacket 0 ((stereo_packet 10 0)\<lparr>end_of_stream := True\<rparr>) 4]) =
   Some [PrimeComplete 0 9, PrimeComplete 0 9]"
  by code_simp

text \<open>
  The last packet of a stream may come without a time stamp, for which the pipe fills one in; but the
  end of the stream is computed from the missing one, \<open>kNoTimestamp\<close>, and overflows.
\<close>

lemma end_of_stream_without_timestamp_fails:
  assumes "end_of_stream (sp_packet (ref_supplied p))" "pts (sp_packet (ref_supplied p)) = kNoTimestamp" "frame_count p \<noteq> 0"
  shows "on_packet_received r p st = None"
proof -
  have "0 < uint (frame_count p)" using assms(3) by (simp add: word_neq_0_conv word_less_def)
  then have "i64_add kNoTimestamp (uint (frame_count p)) = None"
    by (simp add: i64_add_def in_i64_def kNoTimestamp_def)
  then show ?thesis using assms(1,2)
    by (cases "renderer_format (renderer_at st r)") (simp_all add: on_packet_received_def dcheck_bind_if Let_def)
qed

end
