(* ===== verification/Audio_Output_Properties.thy ===== *)
theory Audio_Output_Properties
  imports Audio_Output_Mix Audio_Routing_Properties
begin

text \<open>
  What an output does with the packets of its links.
\<close>

lemma unat_less_u32: "unat (w :: u32) < 2 ^ 32"
  by (rule order_less_le_trans [OF unsigned_less]) simp

section \<open>Which frames a packet covers\<close>

lemma le_div_iff_int: "0 < s \<Longrightarrow> k \<le> a div s \<longleftrightarrow> k * s \<le> a" for a k s :: int
proof
  assume "0 < s" "k \<le> a div s"
  then have "k * s \<le> a div s * s" by simp
  also have "\<dots> \<le> a" using \<open>0 < s\<close> by (simp add: minus_mod_eq_div_mult [symmetric])
  finally show "k * s \<le> a" .
next
  assume "0 < s" "k * s \<le> a"
  then have "k * s div s \<le> a div s" by (intro zdiv_mono1)
  then show "k \<le> a div s" using \<open>0 < s\<close> by simp
qed

lemma less_frames_until:
  assumes "0 < step"
  shows "k < frames_until limit soff step \<longleftrightarrow> soff + int k * int step < limit"
proof -
  have "k < frames_until limit soff step \<longleftrightarrow> int k + 1 \<le> (limit - soff + int step - 1) div int step"
    by (auto simp: frames_until_def)
  also have "\<dots> \<longleftrightarrow> (int k + 1) * int step \<le> limit - soff + int step - 1"
    using assms by (intro le_div_iff_int) simp
  also have "\<dots> \<longleftrightarrow> soff + int k * int step < limit" by (simp add: algebra_simps) linarith
  finally show ?thesis .
qed

lemma frames_until_le: "0 < step \<Longrightarrow> frames_until limit soff step \<le> k \<longleftrightarrow> limit \<le> soff + int k * int step"
  using less_frames_until [of step k limit soff] by (simp add: not_less [symmetric])

text \<open>Every value the code computes on the way is far from the ends of \<open>int64_t\<close>.\<close>

definition small :: "int \<Rightarrow> bool" where
  "small x \<longleftrightarrow> - (2 ^ 60) \<le> x \<and> x \<le> 2 ^ 60"

lemma mix_offsets_eq:
  assumes "small first" "small start" "0 < step" "step \<le> 2 ^ 32" "0 \<le> w" "w \<le> 4096"
    and "n = frames_until (start - w) first (nat step)"
  shows "mix_offsets first w step start = Some (int n, first - start + int n * step)"
proof (cases "start > first + w")
  case False
  then have "n = 0" using assms(3,7) by (simp add: frames_until_0)
  then show ?thesis using assms(1,2,5,6) False
    by (simp add: mix_offsets_def i64_sub_def i64_add_def in_i64_def small_def)
next
  case True
  have n: "int n = (start - (first + w) + step - 1) div step"
  proof -
    have "0 \<le> (start - (first + w) + step - 1) div step"
      using True assms(3) by (intro pos_imp_zdiv_nonneg_iff [THEN iffD2]) auto
    then show ?thesis using assms(3,7) by (simp add: frames_until_def algebra_simps)
  qed
  have le: "int n * step \<le> start - (first + w) + step - 1"
    unfolding n using le_div_iff_int [OF assms(3)] by blast
  have "in_i64 z" if "0 \<le> z" "z \<le> start - (first + w) + step - 1" for z
    using assms(1-6) that by (simp add: in_i64_def small_def)
  then have in64: "in_i64 (int n * step)" using le assms(3) by simp
  define d where "d = start - (first + w)"
  have d: "0 < d" "d \<le> 2 ^ 61" "first = start - d - w" using True assms(1,2,5) by (auto simp: d_def small_def)
  note arith = i64_sub_def i64_add_def in_i64_def small_def
  have steps: "i64_sub first start = Some (first - start)" "i64_add first w = Some (first + w)"
    "i64_sub start (first + w) = Some d" "i64_add d step = Some (d + step)" "i64_sub (d + step) 1 = Some (d + step - 1)"
    using assms(1-6) d(1,2) by (simp_all add: arith d_def)
  have "in_i64 (first - start + z)" if "0 \<le> z" "z \<le> d + step - 1" for z
    using assms(1-6) that d by (simp add: arith)
  then have "i64_add (first - start) (int n * step) = Some (first - start + int n * step)"
    using le assms(3) by (simp add: i64_add_def d_def)
  then show ?thesis using True steps in64 n by (simp add: mix_offsets_def i64_mul_def d_def [symmetric] Let_def)
qed

lemma mix_region_drop:
  assumes "0 < dch" "m * dch \<le> length mb"
  shows "take (m * dch) mb @ mix_region dch a b F f (drop (m * dch) mb) =
    mix_region dch (m + a) (m + b) (\<lambda>k. F (k - m)) f mb"
proof (rule nth_equalityI)
  fix i assume i: "i < length (take (m * dch) mb @ mix_region dch a b F f (drop (m * dch) mb))"
  then have len: "i < length mb" using assms(2) by simp
  show "(take (m * dch) mb @ mix_region dch a b F f (drop (m * dch) mb)) ! i =
    mix_region dch (m + a) (m + b) (\<lambda>k. F (k - m)) f mb ! i"
  proof (cases "i < m * dch")
    case True
    then have "i div dch < m" using assms(1) by (simp add: div_less_iff_less_mult)
    then show ?thesis using True len assms(2) by (simp add: nth_append nth_mix_region)
  next
    case False
    then obtain j where j: "i = m * dch + j" by (metis le_Suc_ex not_less)
    then show ?thesis using False len assms by (simp add: nth_append nth_mix_region)
  qed
qed (use assms in simp)

section \<open>One packet\<close>

definition mix_frames ::
    "sampler \<Rightarrow> u32 \<Rightarrow> bool \<Rightarrow> nat \<Rightarrow> nat \<Rightarrow> (nat \<Rightarrow> nat \<Rightarrow> int) \<Rightarrow> int list \<Rightarrow> int list" where
  "mix_frames sp scale acc a b F mb =
     (if scaler_for scale = MUTED then mb
      else mix_region (sp_dch sp) a b F (mixed (scaler_for scale) acc scale) mb)"

lemma mix_frames_empty: "b \<le> a \<Longrightarrow> mix_frames sp scale acc a b F mb = mb"
  by (auto simp: mix_frames_def nth_mix_region intro!: nth_equalityI)

text \<open>A packet as the pipe makes it, with a payload of the claimed length.\<close>

definition packet_ok :: "(audio_packet_ref \<Rightarrow> int list) \<Rightarrow> sampler \<Rightarrow> nat \<Rightarrow> audio_packet_ref \<Rightarrow> bool" where
  "packet_ok samples sp step p \<longleftrightarrow>
     end_pts p = start_pts p + uint (frac_frame_len p) \<and> 4096 dvd unat (frac_frame_len p) \<and>
     small (start_pts p) \<and> unat (frac_frame_len p) + step \<le> 2 ^ 31 \<and>
     list_all (in_stype (sp_stype sp)) (samples p) \<and>
     unat (frac_frame_len p) \<le> length (samples p) div sp_sch sp * 4096"

text \<open>What \<open>p\<close> sounds like at the position \<open>x\<close> of its renderer.\<close>

definition packet_value :: "(audio_packet_ref \<Rightarrow> int list) \<Rightarrow> sampler \<Rightarrow> audio_packet_ref \<Rightarrow> int \<Rightarrow> nat \<Rightarrow> int" where
  "packet_value samples sp p x D = source_channel sp (samples p) (nat ((x - start_pts p) div 4096)) D"

text \<open>A job that a point sampler can be called on: its first frame is at the position \<open>x\<close>.\<close>

definition job_ok :: "sampler \<Rightarrow> bookkeeping \<Rightarrow> std_output \<Rightarrow> bool" where
  "job_ok sp info o' \<longleftrightarrow>
     bk_mixer info = PointSampler sp \<and> sampler_ok sp \<and> step_size info \<noteq> 0 \<and>
     unat (buf_frames (cur_mix_job o')) * unat (step_size info) \<le> 2 ^ 60 \<and>
     frames_produced (cur_mix_job o') \<le> buf_frames (cur_mix_job o') \<and>
     (\<exists>fmt mb. output_formatter o' = Some fmt \<and> unat (of_channels fmt) = sp_dch sp \<and> mix_buf o' = Some mb \<and>
        unat (buf_frames (cur_mix_job o')) * sp_dch sp \<le> length mb \<and>
        unat (buf_frames (cur_mix_job o')) * sp_dch sp < 2 ^ 32 \<and>
        room_from (accumulate (cur_mix_job o')) (unat (frames_produced (cur_mix_job o')) * sp_dch sp) mb)"

definition position_is :: "bookkeeping \<Rightarrow> mix_job \<Rightarrow> nat \<Rightarrow> int \<Rightarrow> bool" where
  "position_is info job k x \<longleftrightarrow> in_i64 (start_pts_of job + int k) \<and> small x \<and>
     tf_apply (output_frames_to_renderer_subframes info) (start_pts_of job + int k) = Some x"

lemma mix_packet_point:
  assumes "job_ok sp info o'" "packet_ok samples sp (unat (step_size info)) p"
    and "mix_buf o' = Some mb" "m = unat (frames_produced (cur_mix_job o'))"
    and "left = buf_frames (cur_mix_job o') - frames_produced (cur_mix_job o')"
    and "unat oo < unat left" "0 \<le> soff" "soff < uint (frac_frame_len p)"
    and "n = min (unat left - unat oo) (frames_until (uint (frac_frame_len p)) soff (unat (step_size info)))"
  shows "mix_packet samples info p o' left oo soff =
    Some (info,
      o'\<lparr>mix_buf := Some (mix_frames sp (amplitude_scale info) (accumulate (cur_mix_job o'))
           (m + unat oo) (m + unat oo + n)
           (\<lambda>k. packet_value samples sp p (start_pts p + soff + (int k - int (m + unat oo)) * uint (step_size info))) mb)\<rparr>,
      oo + of_nat n, uint (frac_frame_len p) \<le> soff + int n * uint (step_size info))"
proof -
  let ?job = "cur_mix_job o'" and ?s = "unat (step_size info)"
  let ?a = "\<lparr>ma_dst_frames = unat left, ma_src = samples p, ma_frac_src_frames = unat (frac_frame_len p),
     ma_frac_step_size = ?s, ma_amplitude_scale = amplitude_scale info\<rparr>"
  obtain fmt where fmt: "output_formatter o' = Some fmt" "unat (of_channels fmt) = sp_dch sp"
    and len: "unat (buf_frames ?job) * sp_dch sp \<le> length mb" "unat (buf_frames ?job) * sp_dch sp < 2 ^ 32"
    and room: "room_from (accumulate ?job) (m * sp_dch sp) mb"
    and mixer: "bk_mixer info = PointSampler sp" and sp: "sampler_ok sp" and step: "step_size info \<noteq> 0"
    and le: "frames_produced ?job \<le> buf_frames ?job"
    using assms(1,3,4) unfolding job_ok_def by auto
  have left: "unat left = unat (buf_frames ?job) - m"
    using le assms(4,5) by (simp add: unat_sub)
  have m: "m \<le> unat (buf_frames ?job)" using le assms(4) by (simp add: word_le_nat_alt)
  have mlen: "m * sp_dch sp \<le> length mb" using m len(1) by (meson le_trans mult_le_mono1)
  have start: "unat (frames_produced ?job * of_channels fmt) = m * sp_dch sp"
  proof -
    have "m * sp_dch sp < 2 ^ 32" using m len(2) by (meson le_less_trans mult_le_mono1)
    then show ?thesis using fmt(2) assms(4) by (simp add: unat_mult_lem [THEN iffD1])
  qed
  have room': "room_from (accumulate ?job) (unat oo * sp_dch sp) (drop (m * sp_dch sp) mb)"
    using room unfolding room_from_def by simp
  have "unat left * sp_dch sp = unat (buf_frames ?job) * sp_dch sp - m * sp_dch sp"
    by (simp add: left diff_mult_distrib)
  then have call: "mix_call_ok sp ?a (accumulate ?job) (drop (m * sp_dch sp) mb) (unat oo)"
    using assms(2) sp step len(1) room' by (simp add: mix_call_ok_def source_ok_iff packet_ok_def unat_gt_0)
  have pm: "point_mix sp ?a (accumulate ?job) (drop (m * sp_dch sp) mb) (unat oo) soff =
    Some (mixed_dst sp ?a (accumulate ?job) (point_value sp ?a) (drop (m * sp_dch sp) mb) (unat oo) soff n,
      unat oo + n, soff + int n * uint (step_size info), uint (frac_frame_len p) \<le> soff + int n * uint (step_size info))"
    using point_mix_result [OF call assms(7)] assms(8,9) by simp
  have dst: "take (m * sp_dch sp) mb @
      mixed_dst sp ?a (accumulate ?job) (point_value sp ?a) (drop (m * sp_dch sp) mb) (unat oo) soff n =
    mix_frames sp (amplitude_scale info) (accumulate ?job) (m + unat oo) (m + unat oo + n)
      (\<lambda>k. packet_value samples sp p (start_pts p + soff + (int k - int (m + unat oo)) * uint (step_size info))) mb"
  proof (cases "scaler_for (amplitude_scale info) = MUTED")
    case False
    have "point_value sp ?a (sample_pos (unat oo) soff ?s (k - m)) =
        packet_value samples sp p (start_pts p + soff + (int k - int (m + unat oo)) * uint (step_size info))"
      if "m + unat oo \<le> k" for k
      using that by (simp add: fun_eq_iff point_value_def packet_value_def sample_pos_def of_nat_diff algebra_simps)
    then show ?thesis
      using False
      by (simp add: mixed_dst_def mix_frames_def Let_def mix_region_drop [OF sampler_ok_dch [OF sp] mlen] add.assoc
          del: of_nat_add) (intro mix_region_cong sampler_ok_dch [OF sp], simp)
  qed (simp add: mixed_dst_def mix_frames_def)
  have "word_of_nat (unat oo + n) = oo + word_of_nat n" by simp
  then show ?thesis
    using fmt assms(3) mixer pm dst start by (simp add: mix_packet_def Let_def)
qed

lemma process_mix_point:
  assumes "job_ok sp info o'" "packet_ok samples sp (unat (step_size info)) p" "frac_frame_len p \<noteq> 0"
    and "mix_buf o' = Some mb" "m = unat (frames_produced job)" "job = cur_mix_job o'"
    and "position_is info job m x" "m < unat (buf_frames job)" "left = unat (buf_frames job) - m"
    and "s = unat (step_size info)" "a = frames_until (start_pts p) x s" "e = frames_until (end_pts p) x s"
    and "c \<longleftrightarrow> a < left \<and> e \<le> left"
  shows "process_mix samples info p o' = Some (c, info,
    o'\<lparr>mix_buf := Some (mix_frames sp (amplitude_scale info) (accumulate job) (m + a) (m + min e left)
         (\<lambda>k. packet_value samples sp p (x + (int k - int m) * int s)) mb),
       cur_mix_job := job\<lparr>frames_produced := if c then of_nat (m + e) else frames_produced job\<rparr>\<rparr>)"
proof -
  have mixer: "bk_mixer info = PointSampler sp" and sp: "sampler_ok sp" and step: "step_size info \<noteq> 0"
    and fit: "unat (buf_frames job) * s \<le> 2 ^ 60" and le: "frames_produced job \<le> buf_frames job"
    using assms(1,6,10) unfolding job_ok_def by auto
  have s0: "0 < s" using step assms(10) by (simp add: unat_gt_0)
  have us: "uint (step_size info) = int s" by (simp add: assms(10))
  have pk: "end_pts p = start_pts p + uint (frac_frame_len p)" "small (start_pts p)"
    "unat (frac_frame_len p) + s \<le> 2 ^ 31" "4096 dvd unat (frac_frame_len p)"
    using assms(2,10) by (simp_all add: packet_ok_def)
  have flen: "4096 \<le> uint (frac_frame_len p)"
  proof -
    have "0 < unat (frac_frame_len p)" using assms(3) by (simp add: unat_gt_0)
    then have "4096 \<le> unat (frac_frame_len p)" using pk(4) by (rule dvd_imp_le [rotated])
    then show ?thesis by (metis uint_nat of_nat_le_iff of_nat_numeral)
  qed
  have flen2: "uint (frac_frame_len p) + int s \<le> 2 ^ 31"
    using pk(3) by (metis uint_nat of_nat_add of_nat_le_iff of_nat_numeral of_nat_power)
  have pos: "in_i64 (start_pts_of job + int m)" "small x"
    "tf_apply (output_frames_to_renderer_subframes info) (start_pts_of job + int m) = Some x"
    using assms(7) by (simp_all add: position_is_def)
  let ?left = "buf_frames job - frames_produced job"
  have left: "unat ?left = left" "uint ?left = int left" using le assms(5,9) by (simp_all add: unat_sub uint_nat)
  have l0: "0 < left" using assms(8,9) by simp
  have left1: "uint (?left - 1) = int left - 1"
  proof -
    have "?left \<noteq> 0" using left(1) l0 by auto
    then have "unat (?left - 1) = left - 1" using left(1) by (simp add: unat_minus_one)
    then show ?thesis using l0 by (simp add: uint_nat of_nat_diff)
  qed
  have span: "(int left - 1) * int s \<le> 2 ^ 60" "0 \<le> (int left - 1) * int s"
  proof -
    have "int left * int s \<le> int (unat (buf_frames job)) * int s" using assms(9) by (intro mult_right_mono) (simp_all del: of_nat_unat)
    moreover have "\<dots> \<le> 2 ^ 60" using fit by (metis of_nat_le_iff of_nat_mult of_nat_numeral of_nat_power)
    ultimately show "(int left - 1) * int s \<le> 2 ^ 60" by (simp add: algebra_simps)
  qed (use l0 in simp)
  have same: "o'\<lparr>mix_buf := Some mb\<rparr> = o'" "o'\<lparr>cur_mix_job := job\<rparr> = o'" using assms(4,6) by (cases o', simp)+
  have ae: "a \<le> e" unfolding assms(11,12) using pk(1) s0 flen by (intro frames_until_mono) simp_all
  have past: "end_pts p - 4096 < x - 4095 \<longleftrightarrow> e = 0" using frames_until_le [OF s0, of "end_pts p" x 0] assms(12) by auto
  have future: "start_pts p > x + (int left - 1) * int s \<longleftrightarrow> left \<le> a"
    using frames_until_le [OF s0, of "start_pts p" x "left - 1"] assms(11) l0 by (auto simp: of_nat_diff)
  note arith = i64_add_def i64_sub_def i64_mul_def in_i64_def small_def
  have head: "process_mix samples info p o' =
     (if e = 0 then Some (True, info, o') else if left \<le> a then Some (False, info, o')
      else mix_located samples info p o' ?left (int a) (x - start_pts p + int a * int s))"
  proof -
    have off: "mix_offsets x 0 (int s) (start_pts p) = Some (int a, x - start_pts p + int a * int s)"
      using pos(2) pk(2) s0 flen2 flen assms(11) by (intro mix_offsets_eq) auto
    have "buf_frames job \<noteq> 0" using assms(8) by auto
    moreover have "\<not> frames_produced job \<ge> buf_frames job" using assms(5,8) by (simp add: word_le_nat_alt)
    ultimately show ?thesis
      using pos step mixer le pk(1,2) flen flen2 span off past future s0
      by (simp add: process_mix_def Let_def assms(6) [symmetric] us left1 assms(5) FRAC_ONE_eq arith)
  qed
  show ?thesis
  proof (cases "e = 0 \<or> left \<le> a")
    case True
    then have "m + min e left \<le> m + a" by auto
    moreover have "c \<longleftrightarrow> e = 0" using True assms(13) ae l0 by auto
    moreover have "word_of_nat m = frames_produced job" using assms(5) by simp
    ultimately show ?thesis using True head same ae by (auto simp: mix_frames_empty)
  next
    case False
    then have a: "a < left" and e: "0 < e" by auto
    define soff where "soff = x - start_pts p + int a * int s"
    have soff0: "0 \<le> soff" using frames_until_le [OF s0, of "start_pts p" x a] assms(11) by (simp add: soff_def)
    have soff_hi: "soff < uint (frac_frame_len p) + int s"
    proof (cases a)
      case 0
      then show ?thesis using less_frames_until [OF s0, of 0 "end_pts p" x] e assms(12) pk(1) s0 by (simp add: soff_def)
    next
      case (Suc b)
      then have "x + int b * int s < start_pts p" using less_frames_until [OF s0, of b "start_pts p" x] assms(11) by simp
      then show ?thesis using Suc flen by (simp add: soff_def algebra_simps)
    qed
    have skip: "uint (frac_frame_len p) \<le> soff \<longleftrightarrow> e \<le> a"
      using frames_until_le [OF s0, of "end_pts p" x a] assms(12) pk(1) by (auto simp: soff_def)
    have word: "unat (word_of_int (int a) :: u32) = a" "word_of_int (int a) = (of_nat a :: u32)"
    proof -
      have "left < 2 ^ 32" using left(1) unat_less_u32 [of ?left] by simp
      then show "unat (word_of_int (int a) :: u32) = a" using a by (simp add: unat_of_nat)
    qed simp
    have fits: "produce_frames (of_nat k) (o'\<lparr>mix_buf := b\<rparr>) =
        Some (o'\<lparr>mix_buf := b, cur_mix_job := job\<lparr>frames_produced := of_nat (m + k)\<rparr>\<rparr>)" if "k \<le> left" for k b
    proof -
      have m: "frames_produced job = of_nat m" using assms(5) by simp
      have n: "unat (buf_frames job) < 2 ^ 32" using unat_less_u32 [of "buf_frames job"] by simp
      have "m + k \<le> unat (buf_frames job)" using that assms(8,9) by simp
      then have "unat (of_nat (m + k) :: u32) = m + k" using n by (simp add: unat_of_nat del: of_nat_add)
      then have "of_nat (m + k) \<le> buf_frames job" using that assms(8,9) by (simp add: word_le_nat_alt del: of_nat_add)
      then show ?thesis using assms(6) m by (simp add: produce_frames_def Let_def)
    qed
    have in32: "in_i32 soff" using soff0 soff_hi flen2 by (simp add: in_i32_def)
    have loc: "mix_located samples info p o' ?left (int a) soff =
      (if e \<le> a then do { o' \<leftarrow> produce_frames (of_nat a) o'; Some (True, info, o') }
       else do {
         (info, o', oo, consumed) \<leftarrow> mix_packet samples info p o' ?left (of_nat a) soff;
         dcheck (oo \<le> ?left);
         (if \<not> consumed then do { dcheck (oo = ?left); Some (False, info, o') }
          else do { o' \<leftarrow> produce_frames oo o'; Some (True, info, o') })
       })"
      using in32 a left(2) flen2 skip s0 by (simp add: mix_located_def Let_def)
    show ?thesis
    proof (cases "e \<le> a")
      case True
      then have "c" "e = a" using ae a assms(13) by auto
      then show ?thesis using head False loc True fits [of a "Some mb"] a same
        by (simp add: soff_def mix_frames_empty)
    next
      case e_a: False
      define n where "n = min (left - a) (e - a)"
      have "frames_until (uint (frac_frame_len p)) soff s = e - a"
      proof -
        have "frames_until (uint (frac_frame_len p)) soff s \<le> k \<longleftrightarrow> e - a \<le> k" for k
          using frames_until_le [OF s0, of "end_pts p" x "a + k"] frames_until_le [OF s0, of "uint (frac_frame_len p)" soff k]
            assms(12) pk(1) by (auto simp: soff_def algebra_simps)
        then show ?thesis using le_antisym by blast
      qed
      then have n: "n = min (unat ?left - unat (of_nat a :: u32)) (frames_until (uint (frac_frame_len p)) soff (unat (step_size info)))"
        using left(1) word assms(10) by (simp add: n_def)
      have pos: "start_pts p + soff + (int k - int (m + a)) * int s = x + (int k - int m) * int s" for k
        by (simp add: soff_def algebra_simps)
      have ua: "unat (of_nat a :: u32) = a" using word by simp
      have job': "m = unat (frames_produced (cur_mix_job o'))" "?left = buf_frames (cur_mix_job o') - frames_produced (cur_mix_job o')"
        using assms(5,6) by simp_all
      have lim: "unat (of_nat a :: u32) < unat ?left" "soff < uint (frac_frame_len p)" using ua a left(1) skip e_a by simp_all
      note mp = mix_packet_point [OF assms(1,2,4) job' lim(1) soff0 lim(2) n, unfolded ua us pos assms(6) [symmetric], folded add.assoc]
      have an: "a + n = min e left" using e_a a by (auto simp: n_def)
      have "uint (frac_frame_len p) \<le> soff + int n * int s \<longleftrightarrow> e \<le> a + n"
        using frames_until_le [OF s0, of "end_pts p" x "a + n"] assms(12) pk(1) by (auto simp: soff_def algebra_simps)
      then have cons: "uint (frac_frame_len p) \<le> soff + int n * int s \<longleftrightarrow> c" using an a assms(13) by auto
      have oo: "(of_nat a + of_nat n :: u32) = of_nat (a + n)" by simp
      have "unat (of_nat (a + n) :: u32) = a + n"
        using an left(1) unat_less_u32 [of ?left] by (simp add: unat_of_nat del: of_nat_add)
      then have oo_le: "of_nat (a + n) \<le> ?left" "of_nat (a + n) = ?left \<longleftrightarrow> a + n = left"
        using an left(1) by (auto simp: word_le_nat_alt word_unat_eq_iff simp del: of_nat_add)
      show ?thesis
      proof (cases c)
        case True
        then have "a + n = e" using an assms(13) by simp
        then show ?thesis using True head False loc e_a mp cons oo oo_le fits [of "a + n"] an
          by (simp add: soff_def [symmetric] add.assoc del: of_nat_add)
      next
        case not_c: False
        then have "a + n = left" using an a assms(13) by auto
        moreover have "o'\<lparr>mix_buf := b, cur_mix_job := job\<rparr> = o'\<lparr>mix_buf := b\<rparr>" for b
          using assms(6) by (cases o') simp
        ultimately show ?thesis using not_c head False loc e_a mp cons oo oo_le an same
          by (simp add: soff_def [symmetric] add.assoc del: of_nat_add)
      qed
    qed
  qed
qed

lemma process_mix_empty:
  assumes "job_ok sp info o'" "frac_frame_len p = 0" "packet_ok samples sp (unat (step_size info)) p"
    and "m = unat (frames_produced (cur_mix_job o'))" "position_is info (cur_mix_job o') m x"
    and "m < unat (buf_frames (cur_mix_job o'))"
  shows "process_mix samples info p o' = Some (True, info, o')"
proof -
  let ?job = "cur_mix_job o'" and ?s = "unat (step_size info)"
  let ?left = "buf_frames ?job - frames_produced ?job"
  have fit: "unat (buf_frames ?job) * ?s \<le> 2 ^ 60" and le: "frames_produced ?job \<le> buf_frames ?job"
    and step: "step_size info \<noteq> 0"
    using assms(1) unfolding job_ok_def by auto
  have "unat (?left - 1) \<le> unat (buf_frames ?job)"
  proof -
    have "?left \<noteq> 0" using assms(4,6) by auto
    then have "unat (?left - 1) \<le> unat ?left" by (simp add: unat_minus_one)
    also have "\<dots> \<le> unat (buf_frames ?job)" using le by (simp add: unat_sub)
    finally show ?thesis .
  qed
  then have "unat (?left - 1) * ?s \<le> unat (buf_frames ?job) * ?s" by (rule mult_le_mono1)
  then have "unat (?left - 1) * ?s \<le> 2 ^ 60" using fit by linarith
  define z where "z = uint (?left - 1) * uint (step_size info)"
  have "int (unat (?left - 1) * ?s) \<le> int (2 ^ 60)"
    using \<open>unat (?left - 1) * ?s \<le> 2 ^ 60\<close> by (simp only: of_nat_le_iff)
  then have "z \<le> 2 ^ 60" by (simp add: z_def)
  moreover have "0 \<le> z" unfolding z_def by (intro mult_nonneg_nonneg) simp_all
  ultimately have "in_i64 z" "in_i64 (x + z)" using assms(5) by (simp_all add: in_i64_def position_is_def small_def)
  then have span: "i64_mul (uint (?left - 1)) (uint (step_size info)) = Some z" "i64_add x z = Some (x + z)"
    unfolding i64_mul_def i64_add_def z_def [symmetric] by simp_all
  have "end_pts p = start_pts p" using assms(2,3) by (simp add: packet_ok_def)
  moreover have "buf_frames ?job \<noteq> 0" "\<not> frames_produced ?job \<ge> buf_frames ?job"
    using assms(4,6) by (auto simp: word_le_nat_alt)
  ultimately show ?thesis
    using assms(4,5) le step span by (simp add: process_mix_def Let_def position_is_def i64_add_def)
qed

section \<open>The packets of a queue\<close>

text \<open>The loop of a task over a list of packets: how many were used up, and what it leaves.\<close>

fun run_queue ::
    "(bookkeeping \<Rightarrow> audio_packet_ref \<Rightarrow> std_output \<Rightarrow> (bool \<times> bookkeeping \<times> std_output) option) \<Rightarrow> u32 \<Rightarrow>
     bookkeeping \<Rightarrow> audio_packet_ref list \<Rightarrow> std_output \<Rightarrow> (nat \<times> bookkeeping \<times> std_output) option" where
  "run_queue process scale info [] o' = Some (0, info, o')"
| "run_queue process scale info (p # ps) o' = do {
     (consumed, info, o') \<leftarrow> process (info\<lparr>amplitude_scale := scale\<rparr>) p o';
     (if consumed then map_option (map_prod Suc id) (run_queue process scale info ps o')
      else Some (0, info, o'))
   }"

text \<open>A step on link \<open>i\<close> that leaves the rest of the server alone.\<close>

definition elsewhere :: "nat \<Rightarrow> audio_server \<Rightarrow> audio_server \<Rightarrow> bool" where
  "elsewhere i st st' \<longleftrightarrow> (\<forall>j. j \<noteq> i \<longrightarrow> link_at st' j = link_at st j) \<and> renderer_at st' = renderer_at st \<and>
     output_at st' = output_at st \<and> renderers st' = renderers st"

lemma elsewhere_trans: "elsewhere i a b \<Longrightarrow> elsewhere i b c \<Longrightarrow> elsewhere i a c"
  by (simp add: elsewhere_def)

lemma queue_loop_run:
  assumes "pending_queue (link_at st i) = ps"
    and "info0 = (if flushed (link_at st i) then info\<lparr>bk_mixer := mixer_reset (bk_mixer info)\<rparr> else info)"
    and "if ps = [] then (info1, o1) = (info0, o')
      else (if d then Some (True, info0, o') else task_setup task now info0 o') = Some (True, info1, o1)"
    and "run_queue (task_process task) scale info1 ps o1 = Some (n, info2, o2)"
  shows "\<exists>st'. queue_loop task now scale i d info o' st = Some (info2, o2, st') \<and>
    pending_queue (link_at st' i) = drop n ps \<and> elsewhere i st st'"
  using assms
proof (induction ps arbitrary: st d info o' info0 info1 o1 n)
  case Nil
  then show ?case
    by (simp add: queue_loop.simps queue_turn_def output_lock_def lock_pending_queue_front_def Let_def
        output_unlock_def unlock_pending_queue_front_def elsewhere_def)
next
  case (Cons p ps)
  obtain c info3 o3 where p: "task_process task (info1\<lparr>amplitude_scale := scale\<rparr>) p o1 = Some (c, info3, o3)"
    using Cons.prems(4) by (auto simp: bind_Some_iff)
  obtain st2 where turn: "queue_turn task now scale i d info o' st = Some (c, info3, o3, st2)"
    and st2: "pending_queue (link_at st2 i) = (if c then ps else p # ps)" "\<not> flushed (link_at st2 i)"
      "elsewhere i st st2"
    using Cons.prems(1-3) p by (cases c)
      (auto simp: elsewhere_def queue_turn_def output_lock_def lock_pending_queue_front_def Let_def output_unlock_def
        unlock_pending_queue_front_def)
  show ?case
  proof (cases c)
    case False
    then show ?thesis using Cons.prems(4) p turn st2 by (auto simp: queue_loop.simps [of task now scale i d])
  next
    case True
    obtain k where k: "run_queue (task_process task) scale info3 ps o3 = Some (k, info2, o2)" "n = Suc k"
      using Cons.prems(4) p True by auto
    have "\<exists>st'. queue_loop task now scale i True info3 o3 st2 = Some (info2, o2, st') \<and>
        pending_queue (link_at st' i) = drop k ps \<and> elsewhere i st2 st'"
      by (rule Cons.IH [where ?info1.0 = info3 and ?o1.0 = o3]) (use st2 True k in auto)
    then show ?thesis using turn True elsewhere_trans [OF st2(3)] k(2) by (auto simp: queue_loop.simps [of task now scale i d])
  qed
qed

text \<open>The packet of a queue that sounds at a position, and a sample of the mix buffer after it is heard.\<close>

definition sounding :: "audio_packet_ref list \<Rightarrow> int \<Rightarrow> audio_packet_ref option" where
  "sounding ps x = find (\<lambda>p. start_pts p \<le> x \<and> x < end_pts p) ps"

definition heard ::
    "(audio_packet_ref \<Rightarrow> int list) \<Rightarrow> sampler \<Rightarrow> u32 \<Rightarrow> bool \<Rightarrow> audio_packet_ref list \<Rightarrow> int \<Rightarrow> nat \<Rightarrow> int \<Rightarrow> int" where
  "heard samples sp scale acc ps x D v =
     (case sounding ps x of
        None \<Rightarrow> v
      | Some p \<Rightarrow> if scaler_for scale = MUTED then v
                 else mixed (scaler_for scale) acc scale v (packet_value samples sp p x D))"

lemma heard_Nil [simp]: "heard samples sp scale acc [] x D v = v"
  by (simp add: heard_def sounding_def)

lemma heard_not_due: "\<forall>p \<in> set ps. x < start_pts p \<Longrightarrow> heard samples sp scale acc ps x D v = v"
  by (auto simp: heard_def sounding_def find_None_iff split: option.split dest!: find_Some_iff [THEN iffD1] nth_mem)

lemma heard_Cons:
  "heard samples sp scale acc (p # ps) x D v =
    (if start_pts p \<le> x \<and> x < end_pts p
     then if scaler_for scale = MUTED then v else mixed (scaler_for scale) acc scale v (packet_value samples sp p x D)
     else heard samples sp scale acc ps x D v)"
  by (simp add: heard_def sounding_def)

abbreviation in_order :: "audio_packet_ref list \<Rightarrow> bool" where
  "in_order \<equiv> sorted_wrt (\<lambda>p q. end_pts p \<le> start_pts q)"

lemma packet_ok_span: "packet_ok samples sp s p \<Longrightarrow> start_pts p \<le> end_pts p"
  by (simp add: packet_ok_def)

text \<open>An output that differs in its mix buffer and the frames produced.\<close>

definition advanced :: "std_output \<Rightarrow> mix_job \<Rightarrow> std_output \<Rightarrow> bool" where
  "advanced o' job o'' \<longleftrightarrow> (\<exists>f. o'' = o'\<lparr>mix_buf := mix_buf o'', cur_mix_job := job\<lparr>frames_produced := f\<rparr>\<rparr>)"

lemma advanced_refl: "advanced o' (cur_mix_job o') o'"
  unfolding advanced_def by (intro exI [of _ "frames_produced (cur_mix_job o')"]) simp

lemma advanced_step: "advanced o' job (o'\<lparr>mix_buf := b, cur_mix_job := job\<lparr>frames_produced := f\<rparr>\<rparr>)"
  by (auto simp: advanced_def)

lemma advanced_buf: "advanced o' job (o'\<lparr>mix_buf := b, cur_mix_job := job\<rparr>)"
  using advanced_step [where f = "frames_produced job" and job = job] by simp

lemma advanced_trans:
  assumes "o1 = o'\<lparr>mix_buf := b, cur_mix_job := job1\<rparr>" "job1 = job\<lparr>frames_produced := g\<rparr>" "advanced o1 job1 o''"
  shows "advanced o' job o''"
  using assms unfolding advanced_def by (cases o'') force

lemma run_queue_point:
  assumes "job_ok sp info o'" "\<forall>p \<in> set ps. packet_ok samples sp (unat (step_size info)) p" "in_order ps"
    and "mix_buf o' = Some mb" "job = cur_mix_job o'" "m = unat (frames_produced job)" "n = unat (buf_frames job)" "0 < n"
    and "\<And>k. k < n \<Longrightarrow> position_is info job k (x0 + int k * uint (step_size info))"
    and "m = 0 \<or> (\<forall>p \<in> set ps. x0 + (int m - 1) * uint (step_size info) < start_pts p)"
  shows "\<exists>cnt o''. run_queue (process_mix samples) scale info ps o' =
      Some (cnt, if ps = [] then info else info\<lparr>amplitude_scale := scale\<rparr>, o'')
    \<and> advanced o' job o''
    \<and> mix_buf o'' = Some (map (\<lambda>i. if i div sp_dch sp < n
          then heard samples sp scale (accumulate job) ps (x0 + int (i div sp_dch sp) * uint (step_size info)) (i mod sp_dch sp) (mb ! i)
          else mb ! i) [0..<length mb])
    \<and> cnt \<le> length ps
    \<and> (\<forall>p \<in> set (take cnt ps). frac_frame_len p = 0 \<or> end_pts p \<le> x0 + int n * uint (step_size info))
    \<and> (\<forall>p \<in> set (drop cnt ps). x0 + (int n - 1) * uint (step_size info) < end_pts p)"
  using assms
proof (induction ps arbitrary: info o' mb job m)
  case Nil
  then show ?case by (intro exI [of _ 0] exI [of _ o']) (simp add: map_nth advanced_refl cong: if_cong)
next
  case (Cons p ps)
  let ?s = "uint (step_size info)" and ?info = "info\<lparr>amplitude_scale := scale\<rparr>"
  define s where "s = unat (step_size info)"
  have us: "?s = int s" by (simp add: s_def)
  have mixer: "bk_mixer info = PointSampler sp" "sampler_ok sp" "step_size info \<noteq> 0"
    using Cons.prems(1) unfolding job_ok_def by auto
  have dch: "0 < sp_dch sp" by (rule sampler_ok_dch [OF mixer(2)])
  have s0: "0 < s" using mixer(3) by (simp add: s_def unat_gt_0)
  have job': "job_ok sp ?info o'" using Cons.prems(1) by (simp add: job_ok_def)
  have pk: "packet_ok samples sp (unat (step_size ?info)) p" using Cons.prems(2) by simp
  have mn: "m \<le> n" using Cons.prems(1,5-7) by (auto simp: job_ok_def word_le_nat_alt)
  have rest_in: "in_order ps" "\<forall>q \<in> set ps. end_pts p \<le> start_pts q" using Cons.prems(3) by simp_all
  have spans: "\<forall>q \<in> set (p # ps). start_pts q \<le> end_pts q" using Cons.prems(2) packet_ok_span by blast
  let ?x = "\<lambda>k. x0 + int k * ?s"
  have mono: "?x j \<le> ?x k" if "j \<le> k" for j k using that s0 us by (simp add: mult_right_mono)
  have early: "\<forall>q \<in> set (p # ps). ?x k < start_pts q" if "k < m" for k
  proof
    fix q assume q: "q \<in> set (p # ps)"
    then have "x0 + (int m - 1) * ?s < start_pts q" using Cons.prems(10) that by auto
    moreover have "?x k \<le> x0 + (int m - 1) * ?s" using mono [of k "m - 1"] that by (simp add: of_nat_diff)
    ultimately show "?x k < start_pts q" by linarith
  qed
  show ?case
  proof (cases "m = n")
    case True
    have "process_mix samples ?info p o' = Some (False, ?info, o')"
      using True Cons.prems(5-8) mixer(3) job' by (auto simp: process_mix_def Let_def job_ok_def word_le_nat_alt)
    moreover have "map (\<lambda>i. if i div sp_dch sp < n
          then heard samples sp scale (accumulate job) (p # ps) (?x (i div sp_dch sp)) (i mod sp_dch sp) (mb ! i)
          else mb ! i) [0..<length mb] = mb"
      using True early by (intro nth_equalityI) (auto simp: heard_not_due)
    moreover have "\<forall>q \<in> set (p # ps). x0 + (int n - 1) * ?s < end_pts q"
      using early [of "n - 1"] True Cons.prems(8) spans by (fastforce simp: of_nat_diff)
    ultimately show ?thesis using Cons.prems(4,5)
      by (intro exI [of _ 0] exI [of _ o']) (simp add: advanced_refl)
  next
    case False
    then have m: "m < n" using mn by simp
    have pos: "position_is ?info job m (?x m)" using Cons.prems(9) [OF m] by (simp add: position_is_def)
    show ?thesis
    proof (cases "frac_frame_len p = 0")
      case True
      have "process_mix samples ?info p o' = Some (True, ?info, o')"
        by (rule process_mix_empty [OF job' True pk]) (use Cons.prems(5-7) pos m in simp_all)
      moreover have "heard samples sp scale acc (p # ps) x D v = heard samples sp scale acc ps x D v" for acc x D v
        using True pk by (auto simp: heard_Cons packet_ok_def)
      moreover have "\<exists>cnt o''. run_queue (process_mix samples) scale ?info ps o' =
          Some (cnt, if ps = [] then ?info else ?info\<lparr>amplitude_scale := scale\<rparr>, o'')
        \<and> advanced o' job o''
        \<and> mix_buf o'' = Some (map (\<lambda>i. if i div sp_dch sp < n
              then heard samples sp scale (accumulate job) ps (x0 + int (i div sp_dch sp) * uint (step_size ?info)) (i mod sp_dch sp) (mb ! i)
              else mb ! i) [0..<length mb])
        \<and> cnt \<le> length ps
        \<and> (\<forall>p \<in> set (take cnt ps). frac_frame_len p = 0 \<or> end_pts p \<le> x0 + int n * uint (step_size ?info))
        \<and> (\<forall>p \<in> set (drop cnt ps). x0 + (int n - 1) * uint (step_size ?info) < end_pts p)"
        using Cons.prems job' rest_in by (intro Cons.IH) (auto simp: position_is_def)
      then obtain cnt o'' where "run_queue (process_mix samples) scale ?info ps o' = Some (cnt, ?info, o'')"
        "advanced o' job o''"
        "mix_buf o'' = Some (map (\<lambda>i. if i div sp_dch sp < n
              then heard samples sp scale (accumulate job) ps (?x (i div sp_dch sp)) (i mod sp_dch sp) (mb ! i)
              else mb ! i) [0..<length mb])" "cnt \<le> length ps"
        "\<forall>p \<in> set (take cnt ps). frac_frame_len p = 0 \<or> end_pts p \<le> ?x n"
        "\<forall>p \<in> set (drop cnt ps). x0 + (int n - 1) * ?s < end_pts p"
        by auto
      ultimately show ?thesis using True by (intro exI [of _ "Suc cnt"] exI [of _ o'']) (simp cong: if_cong)
    next
      case flen: False
      define a where "a = frames_until (start_pts p) (?x m) s"
      define e where "e = frames_until (end_pts p) (?x m) s"
      define c where "c \<longleftrightarrow> a < n - m \<and> e \<le> n - m"
      let ?mb = "mix_frames sp scale (accumulate job) (m + a) (m + min e (n - m))
         (\<lambda>k. packet_value samples sp p (?x m + (int k - int m) * int s)) mb"
      let ?o = "o'\<lparr>mix_buf := Some ?mb,
        cur_mix_job := job\<lparr>frames_produced := if c then of_nat (m + e) else frames_produced job\<rparr>\<rparr>"
      have step: "process_mix samples ?info p o' = Some (c, ?info, ?o)"
        using process_mix_point [OF job' pk flen Cons.prems(4) Cons.prems(6) Cons.prems(5) pos, of "n - m" s a e c]
          m Cons.prems(7) by (simp add: s_def a_def e_def c_def)
      have shift: "?x m + (int k - int m) * int s = ?x k" for k using us by (simp add: algebra_simps)
      have at: "?x m + int k * int s = ?x (m + k)" for k using us by (simp add: algebra_simps)
      have a_iff: "m + a \<le> k \<longleftrightarrow> start_pts p \<le> ?x k" if "m \<le> k" for k
        using frames_until_le [OF s0, of "start_pts p" "?x m" "k - m"] at [of "k - m"] that a_def by auto
      have e_iff: "k < m + e \<longleftrightarrow> ?x k < end_pts p" if "m \<le> k" for k
        using less_frames_until [OF s0, of "k - m" "end_pts p" "?x m"] at [of "k - m"] that e_def by auto
      have in_iff: "m + a \<le> k \<and> k < m + min e (n - m) \<longleftrightarrow> k < n \<and> start_pts p \<le> ?x k \<and> ?x k < end_pts p" for k
      proof (cases "k < m")
        case True
        then show ?thesis using early [of k] by auto
      next
        case False
        then show ?thesis using a_iff [of k] e_iff [of k] m by auto
      qed
      have len: "length ?mb = length mb" by (simp add: mix_frames_def)
      have nth: "?mb ! i = (if i div sp_dch sp < n \<and> start_pts p \<le> ?x (i div sp_dch sp) \<and> ?x (i div sp_dch sp) < end_pts p \<and>
            scaler_for scale \<noteq> MUTED
          then mixed (scaler_for scale) (accumulate job) scale (mb ! i) (packet_value samples sp p (?x (i div sp_dch sp)) (i mod sp_dch sp))
          else mb ! i)" if "i < length mb" for i
        using that in_iff [of "i div sp_dch sp"] by (auto simp: mix_frames_def nth_mix_region shift)
      show ?thesis
      proof (cases c)
        case not_c: False
        have late: "\<forall>q \<in> set (p # ps). ?x k < end_pts q" "\<forall>q \<in> set ps. ?x k < start_pts q" if "k < n" for k
        proof -
          have "?x (n - 1) < end_pts p"
          proof (cases "a < n - m")
            case True
            then have "n - 1 < m + e" using not_c m by (auto simp: c_def)
            then show ?thesis using e_iff [of "n - 1"] m by simp
          next
            case False
            then have "\<not> m + a \<le> n - 1" "m \<le> n - 1" using m by linarith+
            then have "\<not> start_pts p \<le> ?x (n - 1)" using a_iff [of "n - 1"] by simp
            then show ?thesis using spans by auto
          qed
          then have "?x k < end_pts p" using mono [of k "n - 1"] that by fastforce
          then show "\<forall>q \<in> set (p # ps). ?x k < end_pts q" "\<forall>q \<in> set ps. ?x k < start_pts q"
            using rest_in(2) spans by fastforce+
        qed
        have "?mb = map (\<lambda>i. if i div sp_dch sp < n
            then heard samples sp scale (accumulate job) (p # ps) (?x (i div sp_dch sp)) (i mod sp_dch sp) (mb ! i)
            else mb ! i) [0..<length mb]"
          using late(2) by (intro nth_equalityI) (auto simp: len nth heard_Cons heard_not_due)
        then show ?thesis using step not_c late(1) [of "n - 1"] m
          by (intro exI [of _ 0] exI [of _ ?o]) (simp add: of_nat_diff advanced_buf)
      next
        case c: True
        then have e_le: "m + e \<le> n" using m by (auto simp: c_def)
        let ?job = "job\<lparr>frames_produced := of_nat (m + e)\<rparr>"
        have produced: "unat (of_nat (m + e) :: u32) = m + e"
          using e_le unat_less_u32 [of "buf_frames job"] Cons.prems(7) by (simp add: unat_of_nat del: of_nat_add)
        have room: "room_from (accumulate job) ((m + e) * sp_dch sp) ?mb"
        proof -
          have r: "room_from (accumulate job) (m * sp_dch sp) mb"
            using Cons.prems(1,4-6) by (auto simp: job_ok_def)
          have *: "k * sp_dch sp \<le> l * sp_dch sp" if "k \<le> l" for k l using that by simp
          have weaken: "room_from (accumulate job) (l * sp_dch sp) mb" if "m \<le> l" for l
            using r * [OF that] unfolding room_from_def by (meson le_trans)
          have ae: "a \<le> e" unfolding a_def e_def using spans s0 by (intro frames_until_mono) simp_all
          show ?thesis
          proof (cases "scaler_for scale = MUTED")
            case True
            then show ?thesis using weaken [of "m + e"] by (simp add: mix_frames_def)
          next
            case False
            have "min e (n - m) = e" using e_le by simp
            then show ?thesis
              using False room_from_mix_region [OF weaken [of "m + a"] dch, of "m + e"] ae by (simp add: mix_frames_def)
          qed
        qed
        have job2: "job_ok sp ?info ?o"
          using job' c produced room Cons.prems(4,5,7) e_le len unfolding job_ok_def
          by (auto simp: word_le_nat_alt simp del: of_nat_add)
        have early2: "m + e = 0 \<or> (\<forall>q \<in> set ps. x0 + (int (m + e) - 1) * uint (step_size ?info) < start_pts q)"
        proof (cases "e = 0")
          case True
          then show ?thesis using Cons.prems(10) by auto
        next
          case False
          then have "?x (m + e - 1) < end_pts p" using e_iff [of "m + e - 1"] by simp
          then show ?thesis using rest_in(2) False by (fastforce simp: of_nat_diff)
        qed
        have "\<exists>cnt o''. run_queue (process_mix samples) scale ?info ps ?o =
            Some (cnt, if ps = [] then ?info else ?info\<lparr>amplitude_scale := scale\<rparr>, o'')
          \<and> advanced ?o ?job o''
          \<and> mix_buf o'' = Some (map (\<lambda>i. if i div sp_dch sp < n
                then heard samples sp scale (accumulate ?job) ps (x0 + int (i div sp_dch sp) * uint (step_size ?info)) (i mod sp_dch sp) (?mb ! i)
                else ?mb ! i) [0..<length ?mb])
          \<and> cnt \<le> length ps
          \<and> (\<forall>p \<in> set (take cnt ps). frac_frame_len p = 0 \<or> end_pts p \<le> x0 + int n * uint (step_size ?info))
          \<and> (\<forall>p \<in> set (drop cnt ps). x0 + (int n - 1) * uint (step_size ?info) < end_pts p)"
        proof (rule Cons.IH [OF job2 _ rest_in(1) _ _ _ _ Cons.prems(8), where m = "m + e"])
          show "position_is ?info ?job k (x0 + int k * uint (step_size ?info))" if "k < n" for k
            using Cons.prems(9) [OF that] by (simp add: position_is_def)
        qed (use Cons.prems(2,7) c produced early2 in \<open>simp_all del: of_nat_add\<close>)
        then obtain cnt o'' where rec: "run_queue (process_mix samples) scale ?info ps ?o = Some (cnt, ?info, o'')"
          and o'': "advanced ?o ?job o''"
          and buf:
          "mix_buf o'' = Some (map (\<lambda>i. if i div sp_dch sp < n
                then heard samples sp scale (accumulate job) ps (?x (i div sp_dch sp)) (i mod sp_dch sp) (?mb ! i)
                else ?mb ! i) [0..<length mb])"
          and cnt: "cnt \<le> length ps"
          "\<forall>p \<in> set (take cnt ps). frac_frame_len p = 0 \<or> end_pts p \<le> ?x n"
          "\<forall>p \<in> set (drop cnt ps). x0 + (int n - 1) * ?s < end_pts p"
          using len by auto
        have "end_pts p \<le> ?x n" using e_iff [of n] e_le m by simp
        moreover have "(if i div sp_dch sp < n
                then heard samples sp scale (accumulate job) ps (?x (i div sp_dch sp)) (i mod sp_dch sp) (?mb ! i)
                else ?mb ! i) =
            (if i div sp_dch sp < n
                then heard samples sp scale (accumulate job) (p # ps) (?x (i div sp_dch sp)) (i mod sp_dch sp) (mb ! i)
                else mb ! i)" if "i < length mb" for i
        proof (cases "start_pts p \<le> ?x (i div sp_dch sp) \<and> ?x (i div sp_dch sp) < end_pts p")
          case True
          then have "\<forall>q \<in> set ps. ?x (i div sp_dch sp) < start_pts q" using rest_in(2) by fastforce
          then show ?thesis using True nth [OF that] by (simp add: heard_Cons heard_not_due)
        next
          case False
          then have q: "?mb ! i = mb ! i" using nth [OF that] by auto
          show ?thesis unfolding q heard_Cons using False by auto
        qed
        then have "mix_buf o'' = Some (map (\<lambda>i. if i div sp_dch sp < n
                then heard samples sp scale (accumulate job) (p # ps) (?x (i div sp_dch sp)) (i mod sp_dch sp) (mb ! i)
                else mb ! i) [0..<length mb])" using buf by simp
        moreover have "advanced o' job o''"
          by (rule advanced_trans [OF _ _ o'', where b = "Some ?mb"]) (use c in simp_all)
        ultimately show ?thesis using step c rec cnt
          by (intro exI [of _ "Suc cnt"] exI [of _ o'']) simp
      qed
    qed
  qed
qed

section \<open>All renderers\<close>

definition contribution ::
    "(audio_packet_ref \<Rightarrow> int list) \<Rightarrow> sampler \<Rightarrow> u32 \<Rightarrow> audio_packet_ref list \<Rightarrow> int \<Rightarrow> nat \<Rightarrow> int" where
  "contribution samples sp scale ps x D =
     (case sounding ps x of
        None \<Rightarrow> 0
      | Some p \<Rightarrow> if scaler_for scale = MUTED then 0
                 else sample_scale (scaler_for scale) (packet_value samples sp p x D) scale)"

lemma heard_contribution:
  "acc \<or> v = 0 \<Longrightarrow> heard samples sp scale acc ps x D v = v + contribution samples sp scale ps x D"
  by (auto simp: heard_def contribution_def mixed_def split: option.split)

lemma contribution_in_i16:
  assumes "sampler_ok sp" "\<forall>p \<in> set ps. packet_ok samples sp s p" "D < sp_dch sp"
  shows "in_i16 (contribution samples sp scale ps x D)"
proof (cases "sounding ps x")
  case None
  then show ?thesis by (simp add: contribution_def in_i16_def)
next
  case (Some p)
  then have p: "p \<in> set ps" "start_pts p \<le> x" "x < end_pts p" by (auto simp: sounding_def find_Some_iff)
  let ?a = "\<lparr>ma_dst_frames = 0, ma_src = samples p, ma_frac_src_frames = unat (frac_frame_len p),
     ma_frac_step_size = s, ma_amplitude_scale = scale\<rparr>"
  have "packet_ok samples sp s p" using assms(2) p(1) by blast
  then have "source_ok sp ?a" "end_pts p = start_pts p + uint (frac_frame_len p)"
    by (auto simp: packet_ok_def source_ok_iff)
  then have "in_i16 (packet_value samples sp p x D)"
    using point_value_in_i16 [OF assms(1), of ?a "x - start_pts p" D] p assms(3)
    by (simp add: point_value_def packet_value_def)
  then show ?thesis using Some scaler_for_LT [of scale]
    by (auto simp: contribution_def in_i16_def intro!: sample_scale_in_i16 [unfolded in_i16_def])
qed

text \<open>The link is in shape for the job: its time lines can be computed, they place frame \<open>k\<close> of the
  job at \<open>x0\<close> plus \<open>k\<close> whole steps, and its queue holds packets the pipe makes, in order.\<close>

definition link_due ::
    "(audio_packet_ref \<Rightarrow> int list) \<Rightarrow> int \<Rightarrow> mix_job \<Rightarrow> nat \<Rightarrow> audio_server \<Rightarrow> bookkeeping \<Rightarrow> sampler \<Rightarrow> int \<Rightarrow> bool" where
  "link_due samples now job i st info sp x0 \<longleftrightarrow>
     (case output_bookkeeping (link_at st i) of
        None \<Rightarrow> False
      | Some bk \<Rightarrow>
          (case update_renderer_trans now (link_renderer (link_at st i)) (link_format (link_at st i)) bk st of
             None \<Rightarrow> False
           | Some (info0, _) \<Rightarrow>
               update_output_trans job
                 (if flushed (link_at st i) then info0\<lparr>bk_mixer := mixer_reset (bk_mixer info0)\<rparr> else info0) = Some info)) \<and>
     bk_mixer info = PointSampler sp \<and> sampler_ok sp \<and> step_size info \<noteq> 0 \<and>
     unat (buf_frames job) * unat (step_size info) \<le> 2 ^ 60 \<and>
     (\<forall>p \<in> set (pending_queue (link_at st i)). packet_ok samples sp (unat (step_size info)) p) \<and>
     in_order (pending_queue (link_at st i)) \<and>
     (\<forall>k < unat (buf_frames job). position_is info job k (x0 + int k * uint (step_size info)))"

lemma update_renderer_trans_cong:
  assumes "renderer_at st' r = renderer_at st r"
  shows "map_option fst (update_renderer_trans now r fi bk st') = map_option fst (update_renderer_trans now r fi bk st)"
  by (cases "snapshot_current_function now now (timeline_control_point (renderer_at st r))")
    (simp_all add: update_renderer_trans_def assms Let_def map_option_bind comp_def
      prod.case_distrib [of "map_option fst"] if_distrib [of "map_option fst"] cong: if_cong prod.case_cong)

lemma link_due_cong:
  assumes "link_at st' i = link_at st i" "renderer_at st' (link_renderer (link_at st i)) = renderer_at st (link_renderer (link_at st i))"
  shows "link_due samples now job i st' info sp x0 = link_due samples now job i st info sp x0"
proof -
  have "(case update_renderer_trans now (link_renderer (link_at st i)) fi bk st' of None \<Rightarrow> False | Some (info0, _) \<Rightarrow> P info0) =
    (case update_renderer_trans now (link_renderer (link_at st i)) fi bk st of None \<Rightarrow> False | Some (info0, _) \<Rightarrow> P info0)" for fi bk P
    using update_renderer_trans_cong [OF assms(2), of now fi bk] by (auto split: option.splits)
  then show ?thesis unfolding link_due_def assms(1) by (simp cong: option.case_cong)
qed

lemma update_output_trans_job:
  "update_output_trans (job\<lparr>frames_produced := f\<rparr>) info = update_output_trans job info"
  "update_output_trans (job\<lparr>accumulate := acc\<rparr>) info = update_output_trans job info"
  by (simp_all add: update_output_trans_def cong: option.case_cong if_cong)

text \<open>The part of an output that a job needs.\<close>

definition output_due :: "output_formatter \<Rightarrow> mix_job \<Rightarrow> int list \<Rightarrow> bool \<Rightarrow> std_output \<Rightarrow> bool" where
  "output_due fmt job mb acc o' \<longleftrightarrow>
     output_formatter o' = Some fmt \<and> mix_buf o' = Some mb \<and>
     (\<exists>f. cur_mix_job o' = job\<lparr>frames_produced := f, accumulate := acc\<rparr>) \<and>
     unat (buf_frames job) * unat (of_channels fmt) \<le> length mb \<and>
     unat (buf_frames job) * unat (of_channels fmt) < 2 ^ 32 \<and> 0 < unat (buf_frames job)"

lemma mix_one_link:
  assumes due: "link_due samples (clock i) job i st info sp x0" and alive: "link_alive i st"
    and run: "\<not> shutting_down (output_at st (so_number o'))"
    and out: "output_due fmt job mb acc o'" "sp_dch sp = unat (of_channels fmt)"
    and room: "room_from acc 0 mb"
  shows "\<exists>o2 st2. foreach_renderer (mix_task samples) clock amplitude (i # js) o' st =
      foreach_renderer (mix_task samples) clock amplitude js o2 st2 \<and> so_number o2 = so_number o' \<and>
    output_due fmt job (map (\<lambda>j. if j div sp_dch sp < unat (buf_frames job)
          then heard samples sp (amplitude i) acc (pending_queue (link_at st i))
            (x0 + int (j div sp_dch sp) * uint (step_size info)) (j mod sp_dch sp) (mb ! j)
          else mb ! j) [0..<length mb]) True o2 \<and>
    (\<forall>j. j \<noteq> i \<longrightarrow> link_at st2 j = link_at st j) \<and> (\<forall>r. r \<noteq> link_renderer (link_at st i) \<longrightarrow> renderer_at st2 r = renderer_at st r) \<and>
    output_at st2 = output_at st \<and> renderers st2 = renderers st"
proof -
  let ?l = "link_at st i" and ?ps = "pending_queue (link_at st i)" and ?n = "unat (buf_frames job)"
  obtain bk info0 st1 where bk: "output_bookkeeping ?l = Some bk"
    and u: "update_renderer_trans (clock i) (link_renderer ?l) (link_format ?l) bk st = Some (info0, st1)"
    using due by (auto simp: link_due_def split: option.splits)
  define info0' where "info0' = (if flushed ?l then info0\<lparr>bk_mixer := mixer_reset (bk_mixer info0)\<rparr> else info0)"
  have upd: "update_output_trans job info0' = Some info" using due bk u by (simp add: link_due_def info0'_def)
  have d: "bk_mixer info = PointSampler sp" "sampler_ok sp" "step_size info \<noteq> 0" "?n * unat (step_size info) \<le> 2 ^ 60"
    "\<forall>p \<in> set ?ps. packet_ok samples sp (unat (step_size info)) p" "in_order ?ps"
    "\<forall>k < ?n. position_is info job k (x0 + int k * uint (step_size info))"
    using due unfolding link_due_def by blast+
  obtain cp where st1: "st1 = upd_renderer (link_renderer ?l) (\<lambda>x. x\<lparr>timeline_control_point := cp\<rparr>) st"
    using u by (auto simp: update_renderer_trans_def bind_Some_iff Let_def split: if_split_asm)
  obtain f where job: "cur_mix_job o' = job\<lparr>frames_produced := f, accumulate := acc\<rparr>"
    and o': "output_formatter o' = Some fmt" "mix_buf o' = Some mb" "?n * sp_dch sp \<le> length mb" "?n * sp_dch sp < 2 ^ 32" "0 < ?n"
    using out by (auto simp: output_due_def)
  let ?job0 = "job\<lparr>frames_produced := 0, accumulate := acc\<rparr>"
  let ?o0 = "o'\<lparr>cur_mix_job := ?job0\<rparr>"
  have set_up: "task_setup (mix_task samples) (clock i) info0' o' = Some (True, info, ?o0)"
    using upd job by (simp add: mix_task_def setup_mix_def update_output_trans_job)
  have job_ok: "job_ok sp info ?o0"
    using d(1-4) o' out(2) room by (simp add: job_ok_def)
  have "\<exists>cnt o''. run_queue (process_mix samples) (amplitude i) info ?ps ?o0 =
      Some (cnt, if ?ps = [] then info else info\<lparr>amplitude_scale := amplitude i\<rparr>, o'')
    \<and> advanced ?o0 ?job0 o''
    \<and> mix_buf o'' = Some (map (\<lambda>j. if j div sp_dch sp < ?n
          then heard samples sp (amplitude i) (accumulate ?job0) ?ps (x0 + int (j div sp_dch sp) * uint (step_size info)) (j mod sp_dch sp) (mb ! j)
          else mb ! j) [0..<length mb])
    \<and> cnt \<le> length ?ps
    \<and> (\<forall>p \<in> set (take cnt ?ps). frac_frame_len p = 0 \<or> end_pts p \<le> x0 + int ?n * uint (step_size info))
    \<and> (\<forall>p \<in> set (drop cnt ?ps). x0 + (int ?n - 1) * uint (step_size info) < end_pts p)"
    by (rule run_queue_point [OF job_ok d(5,6), where m = 0])
      (use o' d(7) in \<open>simp_all add: position_is_def\<close>)
  then obtain cnt info2 o2 where rq: "run_queue (process_mix samples) (amplitude i) info ?ps ?o0 = Some (cnt, info2, o2)"
    and adv: "advanced ?o0 ?job0 o2"
    and mb2: "mix_buf o2 = Some (map (\<lambda>j. if j div sp_dch sp < ?n
          then heard samples sp (amplitude i) acc ?ps (x0 + int (j div sp_dch sp) * uint (step_size info)) (j mod sp_dch sp) (mb ! j)
          else mb ! j) [0..<length mb])"
    by auto
  have same: "link_at st1 = link_at st" "renderers st1 = renderers st" "output_at st1 = output_at st" using st1 by simp_all
  have q: "\<exists>info3 o3 st3. queue_loop (mix_task samples) (clock i) (amplitude i) i False info0 o' st1 = Some (info3, o3, st3) \<and>
      elsewhere i st1 st3 \<and> mix_buf o3 = mix_buf o2 \<and> advanced o' (job\<lparr>accumulate := acc\<rparr>) o3"
  proof (cases "?ps = []")
    case True
    have "run_queue (task_process (mix_task samples)) (amplitude i) info0' [] o' = Some (0, info0', o')" by simp
    then obtain st3 where "queue_loop (mix_task samples) (clock i) (amplitude i) i False info0 o' st1 = Some (info0', o', st3)"
      "elsewhere i st1 st3"
      using queue_loop_run [of st1 i "[]" info0' info0 info0' o' o' False "mix_task samples" "clock i"] True same
      by (auto simp: info0'_def)
    moreover have "mix_buf o2 = mix_buf o'" using mb2 True o' by (simp add: map_nth cong: if_cong)
    moreover have "advanced o' (job\<lparr>accumulate := acc\<rparr>) o'" unfolding advanced_def
      by (intro exI [of _ f]) (use job in \<open>cases o', simp\<close>)
    ultimately show ?thesis by metis
  next
    case False
    have "\<exists>st'. queue_loop (mix_task samples) (clock i) (amplitude i) i False info0 o' st1 = Some (info2, o2, st') \<and>
        pending_queue (link_at st' i) = drop cnt ?ps \<and> elsewhere i st1 st'"
      by (rule queue_loop_run [where ps = ?ps and ?info0.0 = info0' and ?info1.0 = info and ?o1.0 = ?o0])
        (use False same set_up rq in \<open>simp_all add: info0'_def mix_task_def\<close>)
    then obtain st3 where "queue_loop (mix_task samples) (clock i) (amplitude i) i False info0 o' st1 = Some (info2, o2, st3)"
      "elsewhere i st1 st3" by blast
    moreover have "advanced o' (job\<lparr>accumulate := acc\<rparr>) o2"
      using adv unfolding advanced_def by (cases o2) force
    ultimately show ?thesis by blast
  qed
  then obtain info3 o3 st3 where q3: "queue_loop (mix_task samples) (clock i) (amplitude i) i False info0 o' st1 = Some (info3, o3, st3)"
    "elsewhere i st1 st3" "mix_buf o3 = mix_buf o2" "advanced o' (job\<lparr>accumulate := acc\<rparr>) o3" by blast
  let ?o4 = "o3\<lparr>cur_mix_job := (cur_mix_job o3)\<lparr>accumulate := True\<rparr>\<rparr>"
  let ?st4 = "upd_link i (\<lambda>l. l\<lparr>output_bookkeeping := Some info3\<rparr>) st3"
  obtain g where g: "o3 = o'\<lparr>mix_buf := mix_buf o3, cur_mix_job := job\<lparr>accumulate := acc, frames_produced := g\<rparr>\<rparr>"
    using q3(4) by (auto simp: advanced_def)
  have "foreach_renderer (mix_task samples) clock amplitude (i # js) o' st =
      foreach_renderer (mix_task samples) clock amplitude js ?o4 ?st4"
    using run alive bk u q3(1) by simp
  moreover have "so_number ?o4 = so_number o'" "output_formatter ?o4 = Some fmt"
    "cur_mix_job ?o4 = job\<lparr>frames_produced := g, accumulate := True\<rparr>"
    by (subst g, simp add: o')+
  moreover have "elsewhere i st1 ?st4" using q3(2) by (simp add: elsewhere_def)
  ultimately show ?thesis
    using mb2 q3(3) o' out(2) st1
    by (intro exI [of _ ?o4] exI [of _ ?st4]) (auto simp: output_due_def elsewhere_def)
qed

text \<open>What link \<open>i\<close> adds to position \<open>j\<close> of the mix buffer.\<close>

definition adds ::
    "environment \<Rightarrow> audio_server \<Rightarrow> nat \<Rightarrow> (nat \<Rightarrow> bookkeeping) \<Rightarrow> (nat \<Rightarrow> sampler) \<Rightarrow> (nat \<Rightarrow> int) \<Rightarrow> nat \<Rightarrow> nat \<Rightarrow> int" where
  "adds env st ch info sp x0 j i =
     contribution (env_samples env) (sp i) (env_amplitude env i) (pending_queue (link_at st i))
       (x0 i + int (j div ch) * uint (step_size (info i))) (j mod ch)"

lemma foreach_mix:
  assumes "\<forall>i \<in> set ls. link_alive i st \<and> link_due (env_samples env) (env_clock env i) job i st (info i) (sp i) (x0 i) \<and> sp_dch (sp i) = ch"
    and "distinct (map (\<lambda>i. link_renderer (link_at st i)) ls)" "\<not> shutting_down (output_at st (so_number o'))"
    and "output_due fmt job mb acc o'" "ch = unat (of_channels fmt)" "0 < ch"
    and "\<forall>j < unat (buf_frames job) * ch. acc \<or> mb ! j = 0"
    and "\<forall>v \<in> set mb. \<bar>v\<bar> + 32768 * int (length ls) \<le> i32_max"
  shows "\<exists>o'' st' mb'' acc''. foreach_renderer (mix_task (env_samples env)) (env_clock env) (env_amplitude env) ls o' st = Some (o'', st') \<and>
    output_due fmt job mb'' acc'' o'' \<and> so_number o'' = so_number o' \<and> length mb'' = length mb \<and>
    (\<forall>j < unat (buf_frames job) * ch. mb'' ! j = mb ! j + (\<Sum>i \<leftarrow> ls. adds env st ch info sp x0 j i))"
  using assms
proof (induction ls arbitrary: st o' mb acc)
  case Nil
  then show ?case by (intro exI [of _ o'] exI [of _ st] exI [of _ mb] exI [of _ acc]) simp
next
  case (Cons i ls)
  let ?n = "unat (buf_frames job)" and ?ps = "pending_queue (link_at st i)"
  have due: "link_due (env_samples env) (env_clock env i) job i st (info i) (sp i) (x0 i)" and alive: "link_alive i st"
    and ch: "sp_dch (sp i) = ch" using Cons.prems(1) by simp_all
  have sp: "sampler_ok (sp i)" "\<forall>p \<in> set ?ps. packet_ok (env_samples env) (sp i) (unat (step_size (info i))) p"
    using due unfolding link_due_def by blast+
  have room: "room_from acc 0 mb"
    using Cons.prems(8) by (force simp: room_from_def dst_room_def in_set_conv_nth)
  define mb2 where "mb2 = map (\<lambda>j. if j div ch < ?n
          then heard (env_samples env) (sp i) (env_amplitude env i) acc ?ps
            (x0 i + int (j div ch) * uint (step_size (info i))) (j mod ch) (mb ! j)
          else mb ! j) [0..<length mb]"
  obtain o2 st2 where one: "foreach_renderer (mix_task (env_samples env)) (env_clock env) (env_amplitude env) (i # ls) o' st =
      foreach_renderer (mix_task (env_samples env)) (env_clock env) (env_amplitude env) ls o2 st2"
    and n2: "so_number o2 = so_number o'" and od2: "output_due fmt job mb2 True o2"
    and st2: "\<forall>j. j \<noteq> i \<longrightarrow> link_at st2 j = link_at st j" "\<forall>r. r \<noteq> link_renderer (link_at st i) \<longrightarrow> renderer_at st2 r = renderer_at st r"
      "output_at st2 = output_at st" "renderers st2 = renderers st"
    using mix_one_link [where clock = "env_clock env" and amplitude = "env_amplitude env" and js = ls, OF due alive Cons.prems(3,4)]
      ch Cons.prems(5) room unfolding mb2_def by blast
  have frame: "j div ch < ?n" if "j < ?n * ch" for j using that Cons.prems(6) by (simp add: div_less_iff_less_mult)
  have mb2: "mb2 ! j = mb ! j + adds env st ch info sp x0 j i" if "j < ?n * ch" "j < length mb" for j
    using that frame [of j] Cons.prems(7) by (simp add: mb2_def adds_def heard_contribution)
  have grow: "\<bar>mb2 ! j\<bar> \<le> \<bar>mb ! j\<bar> + 32768" if "j < length mb" for j
  proof (cases "j div ch < ?n")
    case True
    then have j: "j < ?n * ch" using Cons.prems(6) by (simp add: div_less_iff_less_mult)
    have "in_i16 (adds env st ch info sp x0 j i)"
      unfolding adds_def by (rule contribution_in_i16 [OF sp]) (use Cons.prems(6) ch in simp)
    then show ?thesis using mb2 [OF j that] by (auto simp: in_i16_def)
  next
    case False
    then show ?thesis using that by (simp add: mb2_def)
  qed
  have other: "i \<notin> set ls" "\<forall>j \<in> set ls. link_renderer (link_at st j) \<noteq> link_renderer (link_at st i)"
    using Cons.prems(2) by (force simp: image_iff)+
  have links: "link_at st2 j = link_at st j" if "j \<in> set ls" for j using other(1) st2(1) that by metis
  have "link_alive j st2 \<and> link_due (env_samples env) (env_clock env j) job j st2 (info j) (sp j) (x0 j) \<and> sp_dch (sp j) = ch"
    if j: "j \<in> set ls" for j
  proof -
    have "link_due (env_samples env) (env_clock env j) job j st2 (info j) (sp j) (x0 j) =
        link_due (env_samples env) (env_clock env j) job j st (info j) (sp j) (x0 j)"
      using links [OF j] st2(2) other(2) j by (intro link_due_cong) auto
    then show ?thesis using Cons.prems(1) j links [OF j] st2(4) by (simp add: link_alive_def)
  qed
  moreover have "distinct (map (\<lambda>i. link_renderer (link_at st2 i)) ls)"
    using Cons.prems(2) links by (simp cong: map_cong)
  moreover have "\<forall>v \<in> set mb2. \<bar>v\<bar> + 32768 * int (length ls) \<le> i32_max"
  proof
    fix v assume "v \<in> set mb2"
    moreover have "length mb2 = length mb" by (simp add: mb2_def)
    ultimately obtain j where j: "v = mb2 ! j" "j < length mb" by (metis in_set_conv_nth)
    then have "\<bar>mb ! j\<bar> + 32768 * int (length (i # ls)) \<le> i32_max" using Cons.prems(8) by simp
    then show "\<bar>v\<bar> + 32768 * int (length ls) \<le> i32_max" using grow [OF j(2)] j(1) by simp
  qed
  ultimately obtain o'' st' mb'' acc'' where rec:
    "foreach_renderer (mix_task (env_samples env)) (env_clock env) (env_amplitude env) ls o2 st2 = Some (o'', st')"
    "output_due fmt job mb'' acc'' o''" "so_number o'' = so_number o2" "length mb'' = length mb2"
    "\<forall>j < ?n * ch. mb'' ! j = mb2 ! j + (\<Sum>i \<leftarrow> ls. adds env st2 ch info sp x0 j i)"
    using Cons.IH [of st2 o2 mb2 True] Cons.prems(3,5,6) st2(3) n2 od2 by auto
  have "(\<Sum>i \<leftarrow> ls. adds env st2 ch info sp x0 j i) = (\<Sum>i \<leftarrow> ls. adds env st ch info sp x0 j i)" for j
    using links by (intro arg_cong [where f = sum_list] map_cong) (simp_all add: adds_def)
  moreover have "?n * ch \<le> length mb" using Cons.prems(4,5) by (simp add: output_due_def)
  ultimately show ?case using one rec n2 mb2
    by (intro exI [of _ o''] exI [of _ st'] exI [of _ mb''] exI [of _ acc'']) (simp add: mb2_def)
qed

text \<open>
  C1. One mix job, end to end, for an output all of whose links are in shape for it (\<open>link_due\<close>): they lead
  to different renderers, the time lines of each can be computed and place frame \<open>k\<close> of the job exactly
  \<open>k\<close> whole steps after its first, its mixer is a point sampler, and its queue holds packets of whole
  frames, each shorter than \<open>2^19\<close> frames, that follow each other without overlap. Then the device's buffer
  receives, at each of its frames, the sum over the links of the sample of that packet of the link's
  queue that is due at the frame's position - scaled by the link's gain, silence where no packet is
  due - clipped and converted to the device's format. Longer packets cannot be mixed
  (\<open>longest_packet_cannot_be_mixed\<close>); what a linear sampler writes is the subject of Audio_Mix_Properties.
\<close>
theorem output_mixes_what_is_due:
  assumes "\<forall>i \<in> set (o_links (output_at st (so_number o'))). link_alive i st \<and>
      link_due (env_samples env) (env_clock env i) job i st (info i) (sp i) (x0 i) \<and> sp_dch (sp i) = ch"
    and "distinct (map (\<lambda>i. link_renderer (link_at st i)) (o_links (output_at st (so_number o'))))"
    and "length (o_links (output_at st (so_number o'))) \<le> 16384" "\<not> shutting_down (output_at st (so_number o'))"
    and "output_formatter o' = Some fmt" "ch = unat (of_channels fmt)" "0 < ch"
    and "mix_buf o' = Some mb" "buf_frames job \<le> mix_buf_frames o'" "\<not> accumulate job"
    and "n = unat (buf_frames job) * ch" "0 < n" "n < 2 ^ 32" "n \<le> length mb" "n \<le> length (job_buf job)"
    and "\<forall>v \<in> set mb. \<bar>v\<bar> \<le> 2 ^ 30"
  shows "\<exists>job' o'' st'. mix_one_job env job o' st = Some (job', o'', st') \<and>
    job_buf job' = map (\<lambda>j. output_convert (of_dtype fmt)
        (\<Sum>i \<leftarrow> o_links (output_at st (so_number o')). adds env st ch info sp x0 j i)) [0..<n] @ drop n (job_buf job)"
proof -
  let ?ls = "o_links (output_at st (so_number o'))"
  define mb0 where "mb0 = replicate n 0 @ drop n mb"
  define o2 where "o2 = o'\<lparr>cur_mix_job := job, mix_buf := Some mb0\<rparr>"
  have len: "length mb0 = length mb" using assms(14) by (simp add: mb0_def)
  have "cur_mix_job o2 = job\<lparr>frames_produced := frames_produced job, accumulate := False\<rparr>"
    using assms(10) by (simp add: o2_def)
  moreover have "0 < unat (buf_frames job)" using assms(11,12) by (cases "unat (buf_frames job)") auto
  ultimately have due: "output_due fmt job mb0 False o2"
    unfolding output_due_def using assms(5,6,11,13,14) len
    by (intro conjI exI [of _ "frames_produced job"]) (auto simp: o2_def)
  have zero: "\<forall>j < unat (buf_frames job) * ch. False \<or> mb0 ! j = 0"
    using assms(11) by (simp add: mb0_def nth_append)
  have bound: "\<forall>v \<in> set mb0. \<bar>v\<bar> + 32768 * int (length ?ls) \<le> i32_max"
  proof
    fix v assume "v \<in> set mb0"
    then have "\<bar>v\<bar> \<le> 2 ^ 30" using assms(16) by (auto simp: mb0_def dest: in_set_dropD)
    then show "\<bar>v\<bar> + 32768 * int (length ?ls) \<le> i32_max" using assms(3) by simp
  qed
  obtain o3 st' mb'' acc'' where run: "foreach_renderer (mix_task (env_samples env)) (env_clock env) (env_amplitude env) ?ls o2 st = Some (o3, st')"
    and due3: "output_due fmt job mb'' acc'' o3" and len3: "length mb'' = length mb"
    and mb3: "\<forall>j < n. mb'' ! j = mb0 ! j + (\<Sum>i \<leftarrow> ?ls. adds env st ch info sp x0 j i)"
    using foreach_mix [of ?ls st env job info sp x0 ch o2 fmt mb0 False, OF assms(1,2) _ due assms(6,7) zero bound] assms(4,11) len
    by (auto simp: o2_def)
  obtain f where job3: "cur_mix_job o3 = job\<lparr>frames_produced := f, accumulate := acc''\<rparr>" and mb3': "mix_buf o3 = Some mb''"
    using due3 by (auto simp: output_due_def)
  have "produce_output fmt mb'' (job_buf job) (buf_frames job) =
      Some (map (output_convert (of_dtype fmt)) (take n mb'') @ drop n (job_buf job))"
    unfolding produce_output_def assms(6) [symmetric] assms(11) [symmetric]
    by (rule produce_loop_map) (use assms(14,15) len3 in auto)
  moreover have "map (output_convert (of_dtype fmt)) (take n mb'') =
      map (\<lambda>j. output_convert (of_dtype fmt) (\<Sum>i \<leftarrow> ?ls. adds env st ch info sp x0 j i)) [0..<n]"
    using mb3 len3 assms(14) by (intro nth_equalityI) (auto simp: mb0_def nth_append)
  moreover have "o'\<lparr>cur_mix_job := job, mix_buf := Some (replicate n 0 @ drop n mb)\<rparr> = o2"
    by (simp add: o2_def mb0_def)
  ultimately show ?thesis
    using assms(5,8,9) assms(6,11) [symmetric] assms(14) run job3 mb3'
    by (simp add: mix_one_job_def Let_def o2_def)
qed

text \<open>A stereo renderer at normal speed on a stereo output, with one packet of two frames.\<close>

definition two_frames :: audio_packet_ref where
  "two_frames = \<lparr>ref_address = 0, ref_supplied = \<lparr>sp_label = 0, sp_packet = stereo_packet 0 8, sp_payload = 0, sp_callback = 1, sp_counter = 0\<rparr>,
     frac_frame_len = 8192, start_pts = 0, end_pts = 8192, frame_count = 2\<rparr>"

definition playing :: "audio_server option" where
  "playing = map_option (upd_link 1 (\<lambda>l. l\<lparr>pending_queue := [two_frames]\<rparr>))
     (run_calls [CreateRenderer, AddOutput 1 RESULT_OK (Some (True, 1)), SetMediaType 0 (Some stereo),
        ControlCall 0 (SetTransform (Some \<lparr>tt_reference_time = 0, tt_subject_time = 0, tt_reference_delta = 1, tt_subject_delta = 1\<rparr>) 7)])"

definition four_frames :: mix_job where
  "four_frames = \<lparr>job_buf = replicate 8 7, buf_frames = 4, start_pts_of = 0, local_to_output_gen = 1, accumulate = False,
     local_to_output = mk_function 0 0 1000000000 48000, frames_produced = 0\<rparr>"

definition playing_info :: "audio_server \<Rightarrow> bookkeeping option" where
  "playing_info st = do {
     bk \<leftarrow> output_bookkeeping (link_at st 1);
     (info, _) \<leftarrow> update_renderer_trans 0 (link_renderer (link_at st 1)) (link_format (link_at st 1)) bk st;
     update_output_trans four_frames (if flushed (link_at st 1) then info\<lparr>bk_mixer := mixer_reset (bk_mixer info)\<rparr> else info)
   }"

definition playing_output :: std_output where
  "playing_output = (std_output_init 1 0)\<lparr>output_formatter := Some (mk_output_formatter INT16 2),
     mix_buf := Some (replicate 8 7), mix_buf_frames := 4\<rparr>"

definition playing_env :: environment where
  "playing_env = \<lparr>env_samples = \<lambda>_. [1000, 2000, 3000, 4000], env_clock = \<lambda>_. 0, env_amplitude = \<lambda>_. kUnityScale\<rparr>"

definition stereo_sampler :: sampler where
  "stereo_sampler = \<lparr>sp_dch = 2, sp_stype = INT16, sp_sch = 2\<rparr>"

lemma playing_facts:
  "case playing of None \<Rightarrow> False | Some st \<Rightarrow> o_links (output_at st 1) = [1] \<and> link_alive 1 st \<and>
     \<not> shutting_down (output_at st 1) \<and> pending_queue (link_at st 1) = [two_frames] \<and>
     (case playing_info st of None \<Rightarrow> False | Some info \<Rightarrow>
        bk_mixer info = PointSampler stereo_sampler \<and> step_size info = 4096 \<and>
        output_frames_to_renderer_subframes info =
          \<lparr>reference_time = 0, subject_time = 0, rate = \<lparr>subject_delta = 4096, reference_delta = 1\<rparr>\<rparr>)"
  by code_simp

lemma playing_position:
  "list_all (\<lambda>k. tf_apply \<lparr>reference_time = 0, subject_time = 0, rate = \<lparr>subject_delta = 4096, reference_delta = 1\<rparr>\<rparr> k = Some (k * 4096)) [0, 1, 2, 3]"
  by code_simp

lemma playing_due:
  assumes "playing = Some st" "playing_info st = Some info"
  shows "link_due (env_samples playing_env) 0 four_frames 1 st info stereo_sampler 0"
proof -
  note facts = playing_facts [unfolded assms(1) option.case, unfolded assms(2) option.case]
  have "position_is info four_frames k (0 + int k * uint (step_size info))" if "k < 4" for k
  proof -
    consider "k = 0" | "k = 1" | "k = 2" | "k = 3" using \<open>k < 4\<close> by linarith
    then show ?thesis using playing_position facts
      by cases (simp_all add: position_is_def four_frames_def in_i64_def small_def)
  qed
  moreover have "packet_ok (env_samples playing_env) stereo_sampler (unat (step_size info)) two_frames"
    using facts by (simp add: packet_ok_def playing_env_def stereo_sampler_def two_frames_def small_def in_i16_def)
  moreover have "sampler_ok stereo_sampler" by (simp add: sampler_ok_def stereo_sampler_def)
  ultimately show ?thesis using assms(2) facts
    by (auto simp: link_due_def playing_info_def bind_eq_Some_conv four_frames_def two_frames_def split: option.splits prod.splits)
qed

lemma output_mixes_what_is_due_witness:
  "\<exists>st job' o'' st'. playing = Some st \<and> mix_one_job playing_env four_frames playing_output st = Some (job', o'', st') \<and>
     job_buf job' = [1000, 2000, 3000, 4000, 0, 0, 0, 0]"
proof -
  obtain st where st: "playing = Some st" using playing_facts by (cases playing) auto
  obtain info where info: "playing_info st = Some info" using playing_facts [unfolded st option.case] that
    by (cases "playing_info st") (auto simp only: option.case simp_thms)
  note facts = playing_facts [unfolded st option.case, unfolded info option.case]
  have val: "contribution (env_samples playing_env) stereo_sampler kUnityScale [two_frames] (int k * 4096) d =
      (if k < 2 then [1000, 2000, 3000, 4000] ! (k * 2 + d) else 0)" if "d < 2" for k d
    using that by (auto simp: contribution_def sounding_def two_frames_def scaler_for_def packet_value_def
      source_channel_def stereo_sampler_def playing_env_def MuteThreshold_def kUnityScale_def)
  have "adds playing_env st 2 (\<lambda>_. info) (\<lambda>_. stereo_sampler) (\<lambda>_. 0) j 1 =
      (if j div 2 < 2 then [1000, 2000, 3000, 4000] ! (j div 2 * 2 + j mod 2) else 0)" for j
    using facts val [of "j mod 2" "j div 2"] by (simp add: adds_def) (simp add: playing_env_def)
  then have out: "map (\<lambda>j. output_convert INT16 (\<Sum>i \<leftarrow> [1]. adds playing_env st 2 (\<lambda>_. info) (\<lambda>_. stereo_sampler) (\<lambda>_. 0) j i)) [0..<8] =
      [1000, 2000, 3000, 4000, 0, 0, 0, 0]"
    by (simp add: upt_rec output_convert_def)
  let ?fmt = "mk_output_formatter INT16 2"
  have "\<exists>job' o'' st'. mix_one_job playing_env four_frames playing_output st = Some (job', o'', st') \<and>
      job_buf job' = map (\<lambda>j. output_convert (of_dtype ?fmt)
        (\<Sum>i \<leftarrow> o_links (output_at st (so_number playing_output)).
           adds playing_env st 2 (\<lambda>_. info) (\<lambda>_. stereo_sampler) (\<lambda>_. 0) j i)) [0..<8] @ drop 8 (job_buf four_frames)"
    by (rule output_mixes_what_is_due [where mb = "replicate 8 7"])
      (use facts playing_due [OF st info] in \<open>auto simp: playing_output_def std_output_init_def
        four_frames_def mk_output_formatter_def playing_env_def stereo_sampler_def\<close>)
  then show ?thesis using st out facts
    by (simp add: playing_output_def std_output_init_def four_frames_def mk_output_formatter_def) blast
qed
end
