(* ===== verification/Audio_Output_World.thy ===== *)
theory Audio_Output_World
  imports Audio_Output_Properties Audio_Routing_Properties
begin

text \<open>
  What an output does when it mixes nothing - it trims the queues of its links - and the audio server
  as a whole: the calls on it interleaved with the callbacks of its outputs.
\<close>

section \<open>Trimming\<close>

text \<open>The link's time lines put the moment \<open>now\<close> at the position \<open>t\<close> of its renderer.\<close>

definition trim_due :: "int \<Rightarrow> nat \<Rightarrow> audio_server \<Rightarrow> int \<Rightarrow> bool" where
  "trim_due now i st t \<longleftrightarrow>
     (case output_bookkeeping (link_at st i) of
        None \<Rightarrow> False
      | Some bk \<Rightarrow>
          (case update_renderer_trans now (link_renderer (link_at st i)) (link_format (link_at st i)) bk st of
             None \<Rightarrow> False
           | Some (info, _) \<Rightarrow> tf_apply (local_time_to_renderer_subframes info) now = Some t))"

lemma trim_due_cong:
  assumes "link_at st' i = link_at st i" "renderer_at st' (link_renderer (link_at st i)) = renderer_at st (link_renderer (link_at st i))"
  shows "trim_due now i st' t = trim_due now i st t"
proof -
  have "(case update_renderer_trans now (link_renderer (link_at st i)) fi bk st' of None \<Rightarrow> False | Some (info0, _) \<Rightarrow> P info0) =
    (case update_renderer_trans now (link_renderer (link_at st i)) fi bk st of None \<Rightarrow> False | Some (info0, _) \<Rightarrow> P info0)" for fi bk P
    using update_renderer_trans_cong [OF assms(2), of now fi bk] by (auto split: option.splits)
  then show ?thesis using assms(1) by (simp add: trim_due_def cong: option.case_cong)
qed

lemma run_queue_trim:
  "\<exists>info'. run_queue process_trim scale info ps o' =
     Some (length (takeWhile (\<lambda>p. end_pts p \<le> trim_threshold o') ps), info', o')"
  by (induction ps arbitrary: info) (force simp: process_trim_def)+

lemma update_renderer_trans_server:
  assumes "update_renderer_trans now r fi info st = Some (info', st')"
  obtains cp where "st' = upd_renderer r (\<lambda>x. x\<lparr>timeline_control_point := cp\<rparr>) st"
  using assms by (auto simp: update_renderer_trans_def bind_Some_iff Let_def split: if_split_asm)

lemma foreach_trim:
  assumes "\<forall>i \<in> set ls. link_alive i st \<and> trim_due (clock i) i st (t i)"
    and "distinct (map (\<lambda>i. link_renderer (link_at st i)) ls)" "\<not> shutting_down (output_at st (so_number o'))"
  shows "\<exists>o'' st'. foreach_renderer trim_task clock amplitude ls o' st = Some (o'', st') \<and>
    so_number o'' = so_number o' \<and> next_sched_time o'' = next_sched_time o' \<and> output_at st' = output_at st \<and>
    (\<forall>i. pending_queue (link_at st' i) =
       (if i \<in> set ls then dropWhile (\<lambda>p. end_pts p \<le> t i) (pending_queue (link_at st i))
        else pending_queue (link_at st i)))"
  using assms
proof (induction ls arbitrary: st o')
  case (Cons i ls)
  let ?q = "pending_queue (link_at st i)"
  have due: "trim_due (clock i) i st (t i)" and alive: "link_alive i st" using Cons.prems(1) by simp_all
  then obtain bk info st1 where bk: "output_bookkeeping (link_at st i) = Some bk"
    and u: "update_renderer_trans (clock i) (link_renderer (link_at st i)) (link_format (link_at st i)) bk st = Some (info, st1)"
    and t: "tf_apply (local_time_to_renderer_subframes info) (clock i) = Some (t i)"
    by (auto simp: trim_due_def split: option.splits)
  obtain cp where st1: "st1 = upd_renderer (link_renderer (link_at st i)) (\<lambda>x. x\<lparr>timeline_control_point := cp\<rparr>) st"
    using u by (rule update_renderer_trans_server)
  define info0 where "info0 = (if flushed (link_at st i) then info\<lparr>bk_mixer := mixer_reset (bk_mixer info)\<rparr> else info)"
  define o1 where "o1 = (if ?q = [] then o' else o'\<lparr>trim_threshold := t i\<rparr>)"
  obtain info2 where run: "run_queue (task_process trim_task) (amplitude i) info0 ?q o1 =
      Some (length (takeWhile (\<lambda>p. end_pts p \<le> trim_threshold o1) ?q), info2, o1)"
    using run_queue_trim [of "amplitude i" info0 ?q o1] by (auto simp: trim_task_def)
  have "takeWhile (\<lambda>p. end_pts p \<le> trim_threshold o1) ?q = takeWhile (\<lambda>p. end_pts p \<le> t i) ?q"
    by (simp add: o1_def)
  note run = run [unfolded this]
  have links1: "link_at st1 = link_at st" "output_at st1 = output_at st" by (simp_all add: st1 upd_renderer_def)
  have "\<exists>st2. queue_loop trim_task (clock i) (amplitude i) i False info o' st1 = Some (info2, o1, st2) \<and>
      pending_queue (link_at st2 i) = drop (length (takeWhile (\<lambda>p. end_pts p \<le> t i) ?q)) ?q \<and> elsewhere i st1 st2"
  proof (rule queue_loop_run [OF _ _ _ run])
    show "if ?q = [] then (info0, o1) = (info0, o') else
       (if False then Some (True, info0, o') else task_setup trim_task (clock i) info0 o') = Some (True, info0, o1)"
      using t by (simp add: o1_def trim_task_def setup_trim_def info0_def)
  qed (simp_all add: links1 info0_def)
  then obtain st2 where loop: "queue_loop trim_task (clock i) (amplitude i) i False info o' st1 = Some (info2, o1, st2)"
    and q2: "pending_queue (link_at st2 i) = dropWhile (\<lambda>p. end_pts p \<le> t i) ?q" and el: "elsewhere i st1 st2"
    by (auto simp: dropWhile_eq_drop)
  define st3 where "st3 = upd_link i (\<lambda>l. l\<lparr>output_bookkeeping := Some info2\<rparr>) st2"
  define o3 where "o3 = o1\<lparr>cur_mix_job := (cur_mix_job o1)\<lparr>accumulate := True\<rparr>\<rparr>"
  have step: "foreach_renderer trim_task clock amplitude (i # ls) o' st = foreach_renderer trim_task clock amplitude ls o3 st3"
    using bk u alive loop Cons.prems(3) by (simp add: st3_def o3_def)
  have other: "link_at st3 j = link_at st j" if "j \<noteq> i" for j
    using that el links1 by (simp add: st3_def upd_link_def elsewhere_def)
  have at3: "output_at st3 = output_at st" "renderers st3 = renderers st"
    "r \<noteq> link_renderer (link_at st i) \<Longrightarrow> renderer_at st3 r = renderer_at st r" for r
    using el links1 by (simp_all add: st3_def upd_link_def elsewhere_def st1 upd_renderer_def)
  have notin: "j \<noteq> i" "link_renderer (link_at st j) \<noteq> link_renderer (link_at st i)" if "j \<in> set ls" for j
    using Cons.prems(2) that by (force simp: image_iff)+
  have "link_alive j st3 \<and> trim_due (clock j) j st3 (t j)" if j: "j \<in> set ls" for j
    using Cons.prems(1) j other [OF notin(1) [OF j]] at3(2) at3(3) [OF notin(2) [OF j]] trim_due_cong [of st3 j st]
    by (simp add: link_alive_def)
  moreover have "distinct (map (\<lambda>i. link_renderer (link_at st3 i)) ls)"
    using Cons.prems(2) other notin(1) by (simp cong: map_cong)
  moreover have o3: "so_number o3 = so_number o'" "next_sched_time o3 = next_sched_time o'" by (simp_all add: o3_def o1_def)
  ultimately obtain o'' st' where rec: "foreach_renderer trim_task clock amplitude ls o3 st3 = Some (o'', st')"
    "so_number o'' = so_number o'" "next_sched_time o'' = next_sched_time o'" "output_at st' = output_at st"
    "\<forall>i. pending_queue (link_at st' i) =
       (if i \<in> set ls then dropWhile (\<lambda>p. end_pts p \<le> t i) (pending_queue (link_at st3 i))
        else pending_queue (link_at st3 i))"
    using Cons.IH [of st3 o3] Cons.prems(3) at3(1) by auto
  moreover have "pending_queue (link_at st3 i) = dropWhile (\<lambda>p. end_pts p \<le> t i) ?q" using q2 by (simp add: st3_def upd_link_def)
  ultimately show ?case using step other notin(1)
    by (intro exI [of _ o''] exI [of _ st']) (auto simp: dropWhile_idem)
qed simp

lemma process_idle:
  assumes "\<forall>i \<in> set (o_links (output_at st (so_number o'))). link_alive i st \<and> trim_due (env_clock env i) i st (t i)"
    and "distinct (map (\<lambda>i. link_renderer (link_at st i)) (o_links (output_at st (so_number o'))))"
    and "\<not> shutting_down (output_at st (so_number o'))" "next_sched_time_known o'" "in_i64 (now + kMaxTrimPeriod)"
    and "next_sched_time o' \<le> now \<Longrightarrow>
      start_mix_job d now (dev, o'\<lparr>next_sched_time_known := False, cur_mix_job := empty_job\<rparr>) = Some (None, dev1, o1) \<and>
      next_sched_time_known o1 \<and> so_number o1 = so_number o'"
  shows "\<exists>dev' o'' st' at. process_thunk env d now dev o' st = Some (dev', o'', st', Some at) \<and>
    at \<le> now + kMaxTrimPeriod \<and> at \<le> next_sched_time o'' \<and>
    (\<forall>i. pending_queue (link_at st' i) =
       (if i \<in> set (o_links (output_at st (so_number o'))) then dropWhile (\<lambda>p. end_pts p \<le> t i) (pending_queue (link_at st i))
        else pending_queue (link_at st i)))"
proof -
  let ?ls = "o_links (output_at st (so_number o'))"
  define o2 where "o2 = (if now \<ge> next_sched_time o' then o1 else o')"
  define dev2 where "dev2 = (if now \<ge> next_sched_time o' then dev1 else dev)"
  have mix: "(if now \<ge> next_sched_time o'
       then mix_jobs env d now False dev (o'\<lparr>next_sched_time_known := False\<rparr>) st
       else Some (False, dev, o', st)) = Some (False, dev2, o2, st)"
    using assms(6) by (simp add: o2_def dev2_def mix_jobs.simps [of env d])
  have o2: "so_number o2 = so_number o'" "next_sched_time_known o2" using assms(4,6) by (auto simp: o2_def)
  obtain o3 st' where trim: "foreach_renderer trim_task (env_clock env) (env_amplitude env) ?ls o2 st = Some (o3, st')"
    "so_number o3 = so_number o2" "output_at st' = output_at st"
    "\<forall>i. pending_queue (link_at st' i) =
       (if i \<in> set ?ls then dropWhile (\<lambda>p. end_pts p \<le> t i) (pending_queue (link_at st i)) else pending_queue (link_at st i))"
    using foreach_trim [of ?ls st "env_clock env" t o2 "env_amplitude env"] assms(1,2,3) o2(1) by auto
  have "i64_add now kMaxTrimPeriod = Some (now + kMaxTrimPeriod)" using assms(5) by (simp add: i64_add_def)
  then show ?thesis using mix trim o2 assms(3,4)
    by (intro exI [of _ dev2] exI [of _ o3] exI [of _ st'])
      (simp add: process_thunk_def std_process_def del: mix_jobs.simps)
qed

lemma throttle_gives_nothing:
  assumes "in_i64 (l + TRIM_PERIOD)" "in_i64 (now + TRIM_PERIOD)"
  shows "\<exists>t. start_mix_job throttle_driver now (l, o') = Some (None, t, set_next_sched_time t o')"
  using assms by (auto simp: throttle_driver_def throttle_start_mix_job_def i64_add_def)

lemma throttle_driver_ok: "driver_ok throttle_driver"
  by (auto simp: driver_ok_def throttle_driver_def throttle_start_mix_job_def throttle_finish_mix_job_def
      set_next_sched_time_def bind_Some_iff)

lemma server_ok_returns:
  assumes "server_ok {} st"
  shows "returned st r = map ref_supplied (take (length (history st r) - held st r) (history st r)) \<and>
    (\<forall>i. owns st r i \<longrightarrow> suffix (pending_queue (link_at st i)) (history st r))"
  using assms by (auto simp: server_ok_def queues_ok_def suffixes_ok_def returned_ok_def owns_def)

text \<open>A renderer without any output but the throttle, which lets its packet go once it has passed.\<close>

definition throttled :: "server_call list" where
  "throttled = [CreateRenderer, SetMediaType 0 (Some stereo), BindPipe 0,
     ControlCall 0 (SetTransform (Some \<lparr>tt_reference_time = 0, tt_subject_time = 0, tt_reference_delta = 1, tt_subject_delta = 1\<rparr>) 7),
     SupplyPacket 0 (stereo_packet 0 0) 3]"

definition late_env :: environment where
  "late_env = playing_env\<lparr>env_clock := \<lambda>_. 1000\<rparr>"

lemma throttled_facts:
  "case run_calls throttled of None \<Rightarrow> False | Some st \<Rightarrow> o_links (output_at st 0) = [0] \<and> link_alive 0 st \<and>
     \<not> shutting_down (output_at st 0) \<and> map (\<lambda>p. end_pts p) (pending_queue (link_at st 0)) = [0] \<and>
     map sp_callback (returned st 0) = [] \<and> trim_due 1000 0 st 196 \<and>
     owns st 0 0 \<and> map (\<lambda>p. sp_callback (ref_supplied p)) (history st 0) = [3] \<and> link_count st = 1"
  unfolding trim_due_def
  by code_simp

text \<open>
  C3. An output that the device gives nothing to mix - the throttle output always, any other while the
  hardware is not ready - still gives back, on every call of \<open>Process\<close>, exactly the packets at the
  front of each link's queue whose end has been reached, and is called again within ten milliseconds.
\<close>
theorem idle_output_releases_what_has_ended:
  assumes "\<forall>i \<in> set (o_links (output_at st (so_number o'))). link_alive i st \<and> trim_due (env_clock env i) i st (t i)"
    and "distinct (map (\<lambda>i. link_renderer (link_at st i)) (o_links (output_at st (so_number o'))))"
    and "\<not> shutting_down (output_at st (so_number o'))" "next_sched_time_known o'" "in_i64 (now + kMaxTrimPeriod)"
    and "next_sched_time o' \<le> now \<Longrightarrow>
      start_mix_job d now (dev, o'\<lparr>next_sched_time_known := False, cur_mix_job := empty_job\<rparr>) = Some (None, dev1, o1) \<and>
      next_sched_time_known o1 \<and> so_number o1 = so_number o'"
  shows "\<exists>dev' o'' st' at. process_thunk env d now dev o' st = Some (dev', o'', st', Some at) \<and>
    at \<le> now + kMaxTrimPeriod \<and> at \<le> next_sched_time o'' \<and>
    (\<forall>i. pending_queue (link_at st' i) =
       (if i \<in> set (o_links (output_at st (so_number o'))) then dropWhile (\<lambda>p. end_pts p \<le> t i) (pending_queue (link_at st i))
        else pending_queue (link_at st i)))"
  using assms by (rule process_idle)

lemma idle_output_releases_what_has_ended_witness:
  "\<exists>st dev' o'' st' at. run_calls throttled = Some st \<and> pending_queue (link_at st 0) \<noteq> [] \<and>
    process_thunk late_env throttle_driver 1000 0 (std_output_init 0 0) st = Some (dev', o'', st', Some at) \<and>
    pending_queue (link_at st' 0) = []"
proof -
  obtain st where st: "run_calls throttled = Some st" using throttled_facts by (cases "run_calls throttled") auto
  note facts = throttled_facts [unfolded st option.case]
  then obtain p where "pending_queue (link_at st 0) = [p]" "end_pts p = 0" by (auto simp: map_eq_Cons_conv)
  moreover have "\<exists>dev' o'' st' at. process_thunk late_env throttle_driver 1000 0 (std_output_init 0 0) st = Some (dev', o'', st', Some at) \<and>
    at \<le> 1000 + kMaxTrimPeriod \<and> at \<le> next_sched_time o'' \<and>
    (\<forall>i. pending_queue (link_at st' i) =
       (if i \<in> set (o_links (output_at st (so_number (std_output_init 0 0))))
        then dropWhile (\<lambda>p. end_pts p \<le> 196) (pending_queue (link_at st i)) else pending_queue (link_at st i)))"
    by (rule idle_output_releases_what_has_ended)
      (use facts in \<open>auto simp: std_output_init_def late_env_def kMaxTrimPeriod_def in_i64_def
        throttle_driver_def throttle_start_mix_job_def TRIM_PERIOD_def i64_add_def set_next_sched_time_def\<close>)
  ultimately show ?thesis using st facts by (fastforce simp: std_output_init_def)
qed

section \<open>The server and its outputs\<close>

text \<open>Each output is a \<open>StandardOutputBase\<close> with a device of its own; the calls on the server and the
  callbacks of the outputs interleave, and a device may set its output up in between.\<close>

record 'd audio_world =
  world_server :: audio_server
  world_output :: "nat \<Rightarrow> std_output"
  world_device :: "nat \<Rightarrow> 'd"

inductive audio_step :: "(nat \<Rightarrow> 'd driver) \<Rightarrow> 'd audio_world \<Rightarrow> 'd audio_world \<Rightarrow> bool" for drivers where
  step_call:
    "server_exec now c (world_server w) = Some st \<Longrightarrow> audio_step drivers w (w\<lparr>world_server := st\<rparr>)"
| step_process:
    "process_thunk env (drivers n) now (world_device w n) (world_output w n) (world_server w) = Some (dev, o', st, at) \<Longrightarrow>
     audio_step drivers w
       (w\<lparr>world_server := st, world_output := (world_output w)(n := o'), world_device := (world_device w)(n := dev)\<rparr>)"
| step_device:
    "so_number o' = n \<Longrightarrow>
     audio_step drivers w (w\<lparr>world_output := (world_output w)(n := o'), world_device := (world_device w)(n := dev)\<rparr>)"

inductive_cases audio_stepE: "audio_step drivers w w'"

definition world_init :: "audio_server \<Rightarrow> int \<Rightarrow> (nat \<Rightarrow> 'd) \<Rightarrow> 'd audio_world" where
  "world_init st now devs = \<lparr>world_server = st, world_output = (\<lambda>n. std_output_init n now), world_device = devs\<rparr>"

definition world_ok :: "'d audio_world \<Rightarrow> bool" where
  "world_ok w \<longleftrightarrow> server_ok {} (world_server w) \<and> (\<forall>n. so_number (world_output w n) = n)"

lemma audio_step_ok: "audio_step drivers w w' \<Longrightarrow> \<forall>n. driver_ok (drivers n) \<Longrightarrow> world_ok w \<Longrightarrow> world_ok w'"
proof (induction rule: audio_step.induct)
  case (step_call now c w st)
  then show ?case by (auto simp: world_ok_def dest: server_exec_ok)
next
  case (step_process env n now w dev o' st at)
  then have "server_ok {} st \<and> so_number o' = so_number (world_output w n)"
    using std_process_ok [of env "drivers n" now "world_device w n" "world_output w n" "world_server w" dev o' st at]
    by (auto simp: world_ok_def process_thunk_def split: if_split_asm)
  then show ?case using step_process by (simp add: world_ok_def)
qed (simp add: world_ok_def)

text \<open>
  C2. In every interleaving of the calls on the audio server with the callbacks of its outputs, whatever
  their devices do, the packets given back to a renderer's client are, in order, a prefix of the packets it
  supplied, as long as none of the renderer's links still holds them.
\<close>
theorem mixing_returns_packets_in_order:
  assumes "(audio_step drivers)\<^sup>*\<^sup>* (world_init (server_init pol fmts x l) now devs) w" "\<forall>n. driver_ok (drivers n)"
  shows "returned (world_server w) r =
      map ref_supplied (take (length (history (world_server w) r) - held (world_server w) r) (history (world_server w) r)) \<and>
    (\<forall>i. owns (world_server w) r i \<longrightarrow> suffix (pending_queue (link_at (world_server w) i)) (history (world_server w) r))"
proof -
  have "world_ok (world_init (server_init pol fmts x l) now devs)"
    using server_init_ok by (simp add: world_ok_def world_init_def std_output_init_def)
  with assms(1) have "world_ok w" using assms(2) by (induction rule: rtranclp_induct) (auto intro: audio_step_ok)
  then show ?thesis using server_ok_returns by (simp add: world_ok_def)
qed

lemma server_run_steps:
  "server_run cs st = Some st' \<Longrightarrow> world_server w = st \<Longrightarrow> (audio_step drivers)\<^sup>*\<^sup>* w (w\<lparr>world_server := st'\<rparr>)"
proof (induction cs arbitrary: st w)
  case (Cons c cs)
  obtain st1 where st1: "server_exec (fst c) (snd c) st = Some st1" "server_run cs st1 = Some st'"
    using Cons.prems(1) by (cases c) (auto simp: bind_Some_iff)
  have "audio_step drivers w (w\<lparr>world_server := st1\<rparr>)" using st1(1) Cons.prems(2) by (auto intro: step_call)
  then show ?case using Cons.IH [OF st1(2), of "w\<lparr>world_server := st1\<rparr>"]
    by (auto intro: converse_rtranclp_into_rtranclp)
next
  case Nil
  then have "w\<lparr>world_server := st'\<rparr> = w" by auto
  then show ?case by simp
qed

lemma mixing_returns_packets_in_order_witness:
  "\<exists>w. (audio_step (\<lambda>_. throttle_driver))\<^sup>*\<^sup>* (world_init stereo_server 0 (\<lambda>_. 0)) w \<and>
    map (\<lambda>p. sp_callback (ref_supplied p)) (history (world_server w) 0) = [3] \<and>
    map sp_callback (returned (world_server w) 0) = [3]"
proof -
  obtain st where st: "run_calls throttled = Some st" using throttled_facts by (cases "run_calls throttled") auto
  note facts = throttled_facts [unfolded st option.case]
  let ?w = "world_init stereo_server 0 (\<lambda>_. 0 :: int)"
  obtain dev o' st' at where p: "process_thunk late_env throttle_driver 1000 0 (std_output_init 0 0) st = Some (dev, o', st', at)"
    and q: "pending_queue (link_at st' 0) = []"
  proof -
    obtain dev o' st' at where "process_thunk late_env throttle_driver 1000 0 (std_output_init 0 0) st = Some (dev, o', st', Some at)"
      "\<forall>i. pending_queue (link_at st' i) =
       (if i \<in> set (o_links (output_at st (so_number (std_output_init 0 0))))
        then dropWhile (\<lambda>p. end_pts p \<le> 196) (pending_queue (link_at st i)) else pending_queue (link_at st i))"
      using process_idle [of st "std_output_init 0 0" late_env "\<lambda>_. 196" 1000 throttle_driver 0] facts
      by (auto simp: std_output_init_def late_env_def kMaxTrimPeriod_def in_i64_def
        throttle_driver_def throttle_start_mix_job_def TRIM_PERIOD_def i64_add_def set_next_sched_time_def)
    moreover from this(2) have "pending_queue (link_at st' 0) = []" using facts by (auto simp: map_eq_Cons_conv std_output_init_def)
    ultimately show ?thesis using that by blast
  qed
  let ?v = "?w\<lparr>world_server := st\<rparr>"
  have "(audio_step (\<lambda>_. throttle_driver))\<^sup>*\<^sup>* ?w ?v"
    by (rule server_run_steps [OF st [unfolded run_calls_def]]) (simp add: world_init_def)
  moreover obtain w where w: "audio_step (\<lambda>_. throttle_driver) ?v w" "world_server w = st'"
    using step_process [of late_env "\<lambda>_. throttle_driver" 0 1000 ?v] p by (fastforce simp: world_init_def)
  ultimately have run: "(audio_step (\<lambda>_. throttle_driver))\<^sup>*\<^sup>* ?w w" by simp
  have ok: "server_ok {} st" using server_run_ok [OF server_init_ok] st unfolding run_calls_def stereo_server_def by blast
  have same: "received st' = received st" "link_count st' = link_count st"
    using std_process_ok [OF _ ok throttle_driver_ok] p by (auto simp: process_thunk_def split: if_split_asm)
  have "held st' 0 = 0" using same facts q by (intro held_all_empty) (auto simp: owns_def)
  moreover have "map (\<lambda>p. sp_callback (ref_supplied p)) (history st' 0) = [3]" using facts same by (simp add: history_def)
  ultimately show ?thesis
    using run w(2) mixing_returns_packets_in_order [OF run [unfolded stereo_server_def], of 0] throttle_driver_ok
    by (intro exI [of _ w]) (simp add: comp_def)
qed

section \<open>Where the code goes wrong\<close>

text \<open>
  The pipe accepts packets of up to \<open>kMaxFrames\<close> frames; the mixer cannot take one of half that length.
\<close>

lemma longest_packet_cannot_be_mixed:
  assumes "frac_frame_len p = push_bit PTS_FRACTIONAL_BITS kMaxFrames"
  shows "mix_located samples info p o' left off inp = None"
proof -
  have "\<not> uint (frac_frame_len p) \<le> i32_max"
    unfolding assms by (simp add: kMaxFrames_def PTS_FRACTIONAL_BITS_def)
  then show ?thesis by (simp add: mix_located_def dcheck_bind_if)
qed

text \<open>
  A time line that is set, cleared by a null transform and set again has the generation it had the
  first time, so an output that has not looked in between keeps mixing by the old one: at double speed here.
\<close>

definition playing_at :: "u32 \<Rightarrow> server_call" where
  "playing_at n = ControlCall 0 (SetTransform (Some \<lparr>tt_reference_time = 0, tt_subject_time = 0, tt_reference_delta = 1, tt_subject_delta = n\<rparr>) 7)"

definition trans_of :: "bookkeeping \<Rightarrow> audio_server \<Rightarrow> bookkeeping option" where
  "trans_of bk st = do {
     f \<leftarrow> mk_format_info stereo;
     map_option fst (update_renderer_trans 0 0 f bk st)
   }"

lemma reset_time_line_is_not_noticed:
  "do {
     st1 \<leftarrow> run_calls [CreateRenderer, SetMediaType 0 (Some stereo), playing_at 2];
     bk \<leftarrow> trans_of (alloc_bookkeeping NoOp) st1;
     st2 \<leftarrow> run_calls [CreateRenderer, SetMediaType 0 (Some stereo), playing_at 2, ControlCall 0 (SetTransform None 8), playing_at 1];
     bk' \<leftarrow> trans_of bk st2;
     fresh \<leftarrow> trans_of (alloc_bookkeeping NoOp) st2;
     Some (bk' = bk, local_time_to_renderer_frames bk' = local_time_to_renderer_frames fresh)
   } = Some (True, False)"
  by code_simp
end
