(* ===== verification/Stream_Types.thy ===== *)
theory Stream_Types
  imports Media_Prelude
begin

text \<open>
  The stream types of the framework (src/framework/types): what a stream carries and how it is
  encoded, the sets of types a client accepts, and the layout of video frames.

  The class hierarchy is a record with the fields of \<open>StreamType\<close> and a \<open>stream_details\<close>
  for those of the subclass, \<^term>\<open>None\<close> for an instance of the base class itself. A
  virtual method is a case distinction on the details. Strings are lists of bytes, \<open>Bytes\<close> are
  lists of bytes, and a null \<open>std::unique_ptr\<close> is \<^term>\<open>None\<close> inside a type; \<open>abort\<close> is
  a failure like that of a debug check.
\<close>

type_synonym bytes = "u8 list"

section \<open>Audio\<close>

datatype medium = kAudio | kVideo | kText | kSubpicture

datatype audio_format = kNone | kAny | kUnsigned8 | kSigned16 | kSigned24In32 | kFloat

record audio_type =
  at_sample_format :: audio_format
  at_channels :: u32
  at_frames_per_second :: u32
  at_sample_size :: u32

fun sample_size_from_format :: "audio_format \<Rightarrow> u32 option" where
  "sample_size_from_format kNone = Some 0"
| "sample_size_from_format kAny = None"
| "sample_size_from_format kUnsigned8 = Some 1"
| "sample_size_from_format kSigned16 = Some 2"
| "sample_size_from_format kSigned24In32 = Some 4"
| "sample_size_from_format kFloat = Some 4"

definition at_bytes_per_frame :: "audio_type \<Rightarrow> u32" where
  "at_bytes_per_frame a = at_sample_size a * at_channels a"

definition min_buffer_size :: "audio_type \<Rightarrow> u64 \<Rightarrow> u64" where
  "min_buffer_size a frame_count = frame_count * ucast (at_bytes_per_frame a)"

definition at_frame_count :: "audio_type \<Rightarrow> u64 \<Rightarrow> u64 option" where
  "at_frame_count a n = do {
     dcheck (at_bytes_per_frame a \<noteq> 0);
     dcheck (n mod ucast (at_bytes_per_frame a) = 0);
     Some (n div ucast (at_bytes_per_frame a))
   }"

section \<open>Video\<close>

datatype video_profile = Profile_kUnknown | Profile_kNotApplicable | kH264Baseline | kH264Main | kH264Extended
  | kH264High | kH264High10 | kH264High422 | kH264High444Predictive | kH264ScalableBaseline
  | kH264ScalableHigh | kH264StereoHigh | kH264MultiviewHigh

datatype pixel_format = Pixel_kUnknown | kI420 | kYv12 | kYv16 | kYv12A | kYv24 | kNv12 | kNv21 | kUyvy | kYuy2
  | kArgb | kXrgb | kRgb24 | kRgb32 | kMjpeg | kMt21

datatype color_space = Space_kUnknown | Space_kNotApplicable | kJpeg | kHdRec709 | kSdRec601

definition kMaxPlaneIndex :: u32 where "kMaxPlaneIndex = 3"

record extent =
  ex_width :: u32
  ex_height :: u32

definition default_extent :: extent where "default_extent = \<lparr>ex_width = 0, ex_height = 0\<rparr>"

record plane_indices =
  argb_index :: u32
  y_index :: u32
  u_index :: u32
  v_index :: u32
  uv_index :: u32
  a_index :: u32

definition kNone_index :: u32 where "kNone_index = kMaxPlaneIndex + 1"

definition default_indices :: plane_indices where
  "default_indices = \<lparr>argb_index = kNone_index, y_index = kNone_index, u_index = kNone_index, v_index = kNone_index, uv_index = kNone_index, a_index = kNone_index\<rparr>"

record pixel_format_info =
  pfi_plane_count :: u32
  pfi_plane_indices :: plane_indices
  pfi_bytes_per_element :: "u32 list"
  pfi_sample_size :: "extent list"

text \<open>The initializer lists of the table fill the rest of an array with zeros.\<close>

definition filled :: "'a \<Rightarrow> 'a list \<Rightarrow> 'a list" where
  "filled x xs = xs @ replicate (unat (kMaxPlaneIndex + 1) - length xs) x"

definition pf_info :: "u32 \<Rightarrow> plane_indices \<Rightarrow> u32 list \<Rightarrow> (u32 \<times> u32) list \<Rightarrow> pixel_format_info" where
  "pf_info count indices bpe sizes =
     \<lparr>pfi_plane_count = count, pfi_plane_indices = indices, pfi_bytes_per_element = filled 0 bpe,
      pfi_sample_size = filled default_extent (map (\<lambda>(w, h). \<lparr>ex_width = w, ex_height = h\<rparr>) sizes)\<rparr>"

text \<open>The table has no entry for \<open>kUnknown\<close>: looking it up fails the check.\<close>

fun info_for_pixel_format :: "pixel_format \<Rightarrow> pixel_format_info option" where
  "info_for_pixel_format Pixel_kUnknown = None"
| "info_for_pixel_format kI420 = Some (pf_info 3 default_indices [1, 1, 1] [(1, 1), (2, 2), (2, 2)])"
| "info_for_pixel_format kYv12 = Some (pf_info 3 (default_indices\<lparr>y_index := 0, u_index := 2, v_index := 1\<rparr>) [1, 1, 1] [(1, 1), (2, 2), (2, 2)])"
| "info_for_pixel_format kYv16 = Some (pf_info 3 default_indices [1, 1, 1] [(1, 1), (2, 1), (2, 1)])"
| "info_for_pixel_format kYv12A = Some (pf_info 4 default_indices [1, 1, 1, 1] [(1, 1), (2, 2), (2, 2), (1, 1)])"
| "info_for_pixel_format kYv24 = Some (pf_info 3 default_indices [1, 1, 1] [(1, 1), (1, 1), (1, 1)])"
| "info_for_pixel_format kNv12 = Some (pf_info 2 default_indices [1, 2] [(1, 1), (2, 2)])"
| "info_for_pixel_format kNv21 = Some (pf_info 2 default_indices [1, 2] [(1, 1), (2, 2)])"
| "info_for_pixel_format kUyvy = Some (pf_info 1 default_indices [2] [(1, 1)])"
| "info_for_pixel_format kYuy2 = Some (pf_info 1 default_indices [2] [(1, 1)])"
| "info_for_pixel_format kArgb = Some (pf_info 1 default_indices [4] [(1, 1)])"
| "info_for_pixel_format kXrgb = Some (pf_info 1 default_indices [4] [(1, 1)])"
| "info_for_pixel_format kRgb24 = Some (pf_info 1 default_indices [3] [(1, 1)])"
| "info_for_pixel_format kRgb32 = Some (pf_info 1 default_indices [4] [(1, 1)])"
| "info_for_pixel_format kMjpeg = Some (pf_info 1 default_indices [0] [(1, 1)])"
| "info_for_pixel_format kMt21 = Some (pf_info 2 default_indices [1, 2] [(1, 1), (2, 2)])"

definition bytes_per_element_for_plane :: "pixel_format_info \<Rightarrow> u32 \<Rightarrow> u32 option" where
  "bytes_per_element_for_plane f plane = do {
     dcheck (plane < pfi_plane_count f);
     Some (pfi_bytes_per_element f ! unat plane)
   }"

definition sample_size_for_plane :: "pixel_format_info \<Rightarrow> u32 \<Rightarrow> extent option" where
  "sample_size_for_plane f plane = do {
     dcheck (plane < pfi_plane_count f);
     Some (pfi_sample_size f ! unat plane)
   }"

definition round_up_to_align :: "u32 \<Rightarrow> u32 \<Rightarrow> u32" where
  "round_up_to_align x alignment = (x + (alignment - 1)) AND NOT (alignment - 1)"

definition row_count :: "pixel_format_info \<Rightarrow> u32 \<Rightarrow> u32 \<Rightarrow> u32 option" where
  "row_count f plane height = do {
     dcheck (plane < pfi_plane_count f);
     size \<leftarrow> sample_size_for_plane f plane;
     dcheck (ex_height size \<noteq> 0);
     Some (round_up_to_align height (ex_height size) div ex_height size)
   }"

definition column_count :: "pixel_format_info \<Rightarrow> u32 \<Rightarrow> u32 \<Rightarrow> u32 option" where
  "column_count f plane width = do {
     dcheck (plane < pfi_plane_count f);
     size \<leftarrow> sample_size_for_plane f plane;
     dcheck (ex_width size \<noteq> 0);
     Some (round_up_to_align width (ex_width size) div ex_width size)
   }"

definition bytes_per_row :: "pixel_format_info \<Rightarrow> u32 \<Rightarrow> u32 \<Rightarrow> u32 option" where
  "bytes_per_row f plane width = do {
     dcheck (plane < pfi_plane_count f);
     bpe \<leftarrow> bytes_per_element_for_plane f plane;
     columns \<leftarrow> column_count f plane width;
     Some (bpe * columns)
   }"

record video_type =
  vt_profile :: video_profile
  vt_pixel_format :: pixel_format
  vt_color_space :: color_space
  vt_width :: u32
  vt_height :: u32
  vt_coded_width :: u32
  vt_coded_height :: u32
  vt_pixel_aspect_ratio_width :: u32
  vt_pixel_aspect_ratio_height :: u32
  vt_line_stride :: "u32 list"
  vt_plane_offset :: "u32 list"
  vt_pixel_format_info :: pixel_format_info

text \<open>A read past the end of one of the vectors is undefined.\<close>

definition line_stride_for_plane :: "video_type \<Rightarrow> u32 \<Rightarrow> u32 option" where
  "line_stride_for_plane t plane = do {
     dcheck (plane < pfi_plane_count (vt_pixel_format_info t));
     nth_opt (vt_line_stride t) (unat plane)
   }"

definition plane_offset_for_plane :: "video_type \<Rightarrow> u32 \<Rightarrow> u32 option" where
  "plane_offset_for_plane t plane = do {
     dcheck (plane < pfi_plane_count (vt_pixel_format_info t));
     nth_opt (vt_plane_offset t) (unat plane)
   }"

text \<open>The twelve accessors by name of a plane, such as \<open>line_stride_for_y_plane\<close>: the name is the
  selector of the plane's index.\<close>

definition line_stride_for :: "(plane_indices \<Rightarrow> u32) \<Rightarrow> video_type \<Rightarrow> u32 option" where
  "line_stride_for index t = do {
     dcheck (index (pfi_plane_indices (vt_pixel_format_info t)) < pfi_plane_count (vt_pixel_format_info t));
     line_stride_for_plane t (index (pfi_plane_indices (vt_pixel_format_info t)))
   }"

definition plane_offset_for :: "(plane_indices \<Rightarrow> u32) \<Rightarrow> video_type \<Rightarrow> u32 option" where
  "plane_offset_for index t = do {
     dcheck (index (pfi_plane_indices (vt_pixel_format_info t)) < pfi_plane_count (vt_pixel_format_info t));
     plane_offset_for_plane t (index (pfi_plane_indices (vt_pixel_format_info t)))
   }"

section \<open>Stream types\<close>

datatype stream_details = AudioStreamType audio_type | VideoStreamType video_type | TextStreamType | SubpictureStreamType

record stream_type =
  st_medium :: medium
  st_encoding :: bytes
  st_encoding_parameters :: "bytes option"
  st_details :: "stream_details option"

definition create_stream_type :: "medium \<Rightarrow> bytes \<Rightarrow> bytes option \<Rightarrow> stream_type" where
  "create_stream_type m encoding parameters =
     \<lparr>st_medium = m, st_encoding = encoding, st_encoding_parameters = parameters, st_details = None\<rparr>"

definition create_audio :: "bytes \<Rightarrow> bytes option \<Rightarrow> audio_format \<Rightarrow> u32 \<Rightarrow> u32 \<Rightarrow> stream_type option" where
  "create_audio encoding parameters format channels fps = do {
     size \<leftarrow> sample_size_from_format format;
     Some ((create_stream_type kAudio encoding parameters)\<lparr>st_details := Some (AudioStreamType
       \<lparr>at_sample_format = format, at_channels = channels, at_frames_per_second = fps, at_sample_size = size\<rparr>)\<rparr>)
   }"

definition create_video ::
    "bytes \<Rightarrow> bytes option \<Rightarrow> video_profile \<Rightarrow> pixel_format \<Rightarrow> color_space \<Rightarrow> u32 \<Rightarrow> u32 \<Rightarrow> u32 \<Rightarrow> u32 \<Rightarrow> u32 \<Rightarrow> u32 \<Rightarrow>
     u32 list \<Rightarrow> u32 list \<Rightarrow> stream_type option" where
  "create_video encoding parameters profile format space w h cw ch aw ah strides offsets = do {
     info \<leftarrow> info_for_pixel_format format;
     Some ((create_stream_type kVideo encoding parameters)\<lparr>st_details := Some (VideoStreamType
       \<lparr>vt_profile = profile, vt_pixel_format = format, vt_color_space = space, vt_width = w, vt_height = h,
        vt_coded_width = cw, vt_coded_height = ch, vt_pixel_aspect_ratio_width = aw,
        vt_pixel_aspect_ratio_height = ah, vt_line_stride = strides, vt_plane_offset = offsets,
        vt_pixel_format_info = info\<rparr>)\<rparr>)
   }"

definition create_text :: "bytes \<Rightarrow> bytes option \<Rightarrow> stream_type" where
  "create_text encoding parameters = (create_stream_type kText encoding parameters)\<lparr>st_details := Some TextStreamType\<rparr>"

definition create_subpicture :: "bytes \<Rightarrow> bytes option \<Rightarrow> stream_type" where
  "create_subpicture encoding parameters =
     (create_stream_type kSubpicture encoding parameters)\<lparr>st_details := Some SubpictureStreamType\<rparr>"

text \<open>\<open>audio\<close> and \<open>video\<close> give a null pointer on another kind of type.\<close>

definition st_audio :: "stream_type \<Rightarrow> audio_type option" where
  "st_audio t = (case st_details t of Some (AudioStreamType a) \<Rightarrow> Some a | _ \<Rightarrow> None)"

definition st_video :: "stream_type \<Rightarrow> video_type option" where
  "st_video t = (case st_details t of Some (VideoStreamType v) \<Rightarrow> Some v | _ \<Rightarrow> None)"

definition safe_clone :: "('a \<Rightarrow> 'b option) \<Rightarrow> 'a option \<Rightarrow> 'b option option" where
  "safe_clone clone t = (case t of None \<Rightarrow> Some None | Some x \<Rightarrow> map_option Some (clone x))"

text \<open>The vector gets its size first and the clones after.\<close>

definition safe_clone_vector :: "('a \<Rightarrow> 'b option) \<Rightarrow> 'a option list option \<Rightarrow> 'b option list option option" where
  "safe_clone_vector clone ts =
     (case ts of
        None \<Rightarrow> Some None
      | Some xs \<Rightarrow> do {
          ys \<leftarrow> those (map (safe_clone clone) xs);
          Some (Some (replicate (length xs) None @ ys))
        })"

definition bytes_clone :: "bytes \<Rightarrow> bytes option" where
  "bytes_clone b = Some b"

definition clone_details :: "bytes \<Rightarrow> bytes option \<Rightarrow> stream_details \<Rightarrow> stream_type option" where
  "clone_details encoding parameters d =
     (case d of
        AudioStreamType a \<Rightarrow> create_audio encoding parameters (at_sample_format a) (at_channels a) (at_frames_per_second a)
      | VideoStreamType v \<Rightarrow> create_video encoding parameters (vt_profile v) (vt_pixel_format v) (vt_color_space v)
          (vt_width v) (vt_height v) (vt_coded_width v) (vt_coded_height v) (vt_pixel_aspect_ratio_width v)
          (vt_pixel_aspect_ratio_height v) (vt_line_stride v) (vt_plane_offset v)
      | TextStreamType \<Rightarrow> Some (create_text encoding parameters)
      | SubpictureStreamType \<Rightarrow> Some (create_subpicture encoding parameters))"

definition stream_type_clone :: "stream_type \<Rightarrow> stream_type option" where
  "stream_type_clone t = do {
     parameters \<leftarrow> safe_clone bytes_clone (st_encoding_parameters t);
     (case st_details t of
        None \<Rightarrow> Some (create_stream_type (st_medium t) (st_encoding t) parameters)
      | Some d \<Rightarrow> clone_details (st_encoding t) parameters d)
   }"

section \<open>Sets of stream types\<close>

text \<open>The constructor of a range checks that it is not empty.\<close>

record range =
  range_min :: u32
  range_max :: u32

definition mk_range :: "u32 \<Rightarrow> u32 \<Rightarrow> range option" where
  "mk_range a b = do { dcheck (a \<le> b); Some \<lparr>range_min = a, range_max = b\<rparr> }"

definition range_contains :: "range \<Rightarrow> u32 \<Rightarrow> bool" where
  "range_contains r x \<longleftrightarrow> x \<ge> range_min r \<and> x \<le> range_max r"

record audio_set =
  as_sample_format :: audio_format
  as_channels :: range
  as_frames_per_second :: range

record video_set =
  vs_width :: range
  vs_height :: range

datatype set_details = AudioStreamTypeSet audio_set | VideoStreamTypeSet video_set | TextStreamTypeSet | SubpictureStreamTypeSet

record stream_type_set =
  set_medium :: medium
  set_encodings :: "bytes list"
  set_details :: "set_details option"

definition create_set :: "medium \<Rightarrow> bytes list \<Rightarrow> stream_type_set" where
  "create_set m encodings = \<lparr>set_medium = m, set_encodings = encodings, set_details = None\<rparr>"

definition create_audio_set :: "bytes list \<Rightarrow> audio_format \<Rightarrow> range \<Rightarrow> range \<Rightarrow> stream_type_set" where
  "create_audio_set encodings format channels fps =
     (create_set kAudio encodings)\<lparr>set_details := Some (AudioStreamTypeSet
       \<lparr>as_sample_format = format, as_channels = channels, as_frames_per_second = fps\<rparr>)\<rparr>"

definition create_video_set :: "bytes list \<Rightarrow> range \<Rightarrow> range \<Rightarrow> stream_type_set" where
  "create_video_set encodings w h =
     (create_set kVideo encodings)\<lparr>set_details := Some (VideoStreamTypeSet \<lparr>vs_width = w, vs_height = h\<rparr>)\<rparr>"

definition create_text_set :: "bytes list \<Rightarrow> stream_type_set" where
  "create_text_set encodings = (create_set kText encodings)\<lparr>set_details := Some TextStreamTypeSet\<rparr>"

definition create_subpicture_set :: "bytes list \<Rightarrow> stream_type_set" where
  "create_subpicture_set encodings = (create_set kSubpicture encodings)\<lparr>set_details := Some SubpictureStreamTypeSet\<rparr>"

definition set_audio :: "stream_type_set \<Rightarrow> audio_set option" where
  "set_audio t = (case set_details t of Some (AudioStreamTypeSet a) \<Rightarrow> Some a | _ \<Rightarrow> None)"

definition set_video :: "stream_type_set \<Rightarrow> video_set option" where
  "set_video t = (case set_details t of Some (VideoStreamTypeSet v) \<Rightarrow> Some v | _ \<Rightarrow> None)"

definition set_clone :: "stream_type_set \<Rightarrow> stream_type_set" where
  "set_clone s =
     (case set_details s of
        None \<Rightarrow> create_set (set_medium s) (set_encodings s)
      | Some (AudioStreamTypeSet a) \<Rightarrow>
          create_audio_set (set_encodings s) (as_sample_format a) (as_channels a) (as_frames_per_second a)
      | Some (VideoStreamTypeSet v) \<Rightarrow> create_video_set (set_encodings s) (vs_width v) (vs_height v)
      | Some TextStreamTypeSet \<Rightarrow> create_text_set (set_encodings s)
      | Some SubpictureStreamTypeSet \<Rightarrow> create_subpicture_set (set_encodings s))"

definition includes_encoding :: "stream_type_set \<Rightarrow> bytes \<Rightarrow> bool" where
  "includes_encoding s encoding \<longleftrightarrow> list_ex (\<lambda>e. e = encoding) (set_encodings s)"

definition base_includes :: "stream_type_set \<Rightarrow> stream_type \<Rightarrow> bool" where
  "base_includes s t \<longleftrightarrow> set_medium s = st_medium t \<and> includes_encoding s (st_encoding t)"

definition audio_includes :: "audio_set \<Rightarrow> stream_type \<Rightarrow> bool option" where
  "audio_includes a t = do {
     ta \<leftarrow> st_audio t;
     Some ((as_sample_format a = at_sample_format ta \<or> as_sample_format a = kAny) \<and>
           range_contains (as_channels a) (at_channels ta) \<and>
           range_contains (as_frames_per_second a) (at_frames_per_second ta))
   }"

definition video_includes :: "video_set \<Rightarrow> stream_type \<Rightarrow> bool option" where
  "video_includes v t = do {
     tv \<leftarrow> st_video t;
     Some (range_contains (vs_width v) (vt_width tv) \<and> range_contains (vs_height v) (vt_height tv))
   }"

definition includes_type :: "stream_type_set \<Rightarrow> stream_type \<Rightarrow> bool option" where
  "includes_type s t =
     (case set_details s of
        Some (AudioStreamTypeSet a) \<Rightarrow> if \<not> base_includes s t then Some False else audio_includes a t
      | Some (VideoStreamTypeSet v) \<Rightarrow> if \<not> base_includes s t then Some False else video_includes v t
      | _ \<Rightarrow> Some (base_includes s t))"

section \<open>Lemmas\<close>

text \<open>What the constructors make.\<close>

definition details_ok :: "medium \<Rightarrow> stream_details \<Rightarrow> bool" where
  "details_ok m d \<longleftrightarrow>
     (case d of
        AudioStreamType a \<Rightarrow> m = kAudio \<and> sample_size_from_format (at_sample_format a) = Some (at_sample_size a)
      | VideoStreamType v \<Rightarrow> m = kVideo \<and> info_for_pixel_format (vt_pixel_format v) = Some (vt_pixel_format_info v)
      | TextStreamType \<Rightarrow> m = kText
      | SubpictureStreamType \<Rightarrow> m = kSubpicture)"

definition type_ok :: "stream_type \<Rightarrow> bool" where
  "type_ok t \<longleftrightarrow> (case st_details t of None \<Rightarrow> False | Some d \<Rightarrow> details_ok (st_medium t) d)"

definition set_ok :: "stream_type_set \<Rightarrow> bool" where
  "set_ok s \<longleftrightarrow>
     (case set_details s of
        None \<Rightarrow> False
      | Some (AudioStreamTypeSet a) \<Rightarrow> set_medium s = kAudio \<and>
          range_min (as_channels a) \<le> range_max (as_channels a) \<and>
          range_min (as_frames_per_second a) \<le> range_max (as_frames_per_second a)
      | Some (VideoStreamTypeSet v) \<Rightarrow> set_medium s = kVideo \<and>
          range_min (vs_width v) \<le> range_max (vs_width v) \<and> range_min (vs_height v) \<le> range_max (vs_height v)
      | Some TextStreamTypeSet \<Rightarrow> set_medium s = kText
      | Some SubpictureStreamTypeSet \<Rightarrow> set_medium s = kSubpicture)"

lemma create_audio_ok: "create_audio e p f c r = Some t \<Longrightarrow> type_ok t"
  by (auto simp: create_audio_def create_stream_type_def type_ok_def details_ok_def bind_Some_iff)

lemma create_video_ok: "create_video e p pr f s w h cw ch aw ah ls po = Some t \<Longrightarrow> type_ok t"
  by (auto simp: create_video_def create_stream_type_def type_ok_def details_ok_def bind_Some_iff)

lemma create_text_ok [simp]: "type_ok (create_text e p)" "type_ok (create_subpicture e p)"
  by (simp_all add: create_text_def create_subpicture_def create_stream_type_def type_ok_def details_ok_def)

text \<open>A clone is equal to the original.\<close>

lemma stream_type_clone_eq: "type_ok t \<Longrightarrow> stream_type_clone t = Some t"
  by (cases t; cases "st_encoding_parameters t")
    (auto simp: stream_type_clone_def safe_clone_def bytes_clone_def type_ok_def details_ok_def clone_details_def
      create_audio_def create_video_def create_text_def create_subpicture_def create_stream_type_def
      split: option.splits stream_details.splits)

lemma set_clone_eq: "set_ok s \<Longrightarrow> set_clone s = s"
  by (cases s) (auto simp: set_clone_def set_ok_def create_audio_set_def create_video_set_def create_text_set_def
      create_subpicture_set_def create_set_def split: option.splits set_details.splits)

text \<open>A set that has passed the check of its medium answers without a failed check.\<close>

lemma includes_type_returns:
  "type_ok t \<Longrightarrow> set_ok s \<Longrightarrow> includes_type s t \<noteq> None"
  by (auto simp: includes_type_def type_ok_def details_ok_def set_ok_def audio_includes_def video_includes_def
      base_includes_def st_audio_def st_video_def split: option.splits set_details.splits stream_details.splits)

section \<open>Rows and columns of a plane\<close>

lemma and_not_mask_unat: "unat (w AND NOT (mask n) :: u32) = unat w div 2 ^ n * 2 ^ n"
proof -
  have "w AND NOT (mask n) = push_bit n (drop_bit n w)"
    by (auto simp: bit_eq_iff bit_simps)
  moreover have "unat (drop_bit n w) * 2 ^ n < 2 ^ LENGTH(32)"
  proof -
    have "unat w div 2 ^ n * 2 ^ n \<le> unat w" by (simp add: div_times_less_eq_dividend)
    also have "\<dots> < 2 ^ LENGTH(32)" by (rule unsigned_less)
    finally show ?thesis unfolding unat_drop_bit_eq by (simp add: drop_bit_eq_div)
  qed
  moreover have "unat (drop_bit n w) = unat w div 2 ^ n" unfolding unat_drop_bit_eq by (simp add: drop_bit_eq_div)
  ultimately show ?thesis by (simp add: unat_push_bit_small)
qed

lemma round_up_to_align_1: "round_up_to_align x 1 = x"
  by (simp add: round_up_to_align_def)

lemma round_up_to_align_2:
  assumes "unat x + 1 < 2 ^ 32"
  shows "unat (round_up_to_align x 2) = (unat x + 1) div 2 * 2"
proof -
  have "unat (x + 1) = unat x + 1"
    using assms by (subst unat_plus_simple [THEN iffD1]) (auto simp: word_le_nat_alt unat_word_ariths)
  moreover have "(mask 1 :: u32) = 1" by (simp add: mask_eq_exp_minus_1)
  ultimately show ?thesis using and_not_mask_unat [of "x + 1" 1] by (simp add: round_up_to_align_def)
qed

lemma aligned_count:
  assumes "s \<in> {1, 2}" "unat x + 1 < 2 ^ 32"
  shows "unat (round_up_to_align x s div s) = (unat x + unat s - 1) div unat s"
  using assms round_up_to_align_1 [of x] round_up_to_align_2 [OF assms(2)] by (auto simp: unat_div)

lemma table_sample_sizes:
  assumes "info_for_pixel_format format = Some f" "plane < pfi_plane_count f"
  shows "ex_height (pfi_sample_size f ! unat plane) \<in> {1, 2}" "ex_width (pfi_sample_size f ! unat plane) \<in> {1, 2}"
proof -
  have all: "\<forall>e \<in> set (take (unat (pfi_plane_count f)) (pfi_sample_size f)). ex_height e \<in> {1, 2} \<and> ex_width e \<in> {1, 2}"
    "unat (pfi_plane_count f) \<le> length (pfi_sample_size f)"
    using assms(1) [symmetric] by (cases format; simp add: pf_info_def filled_def kMaxPlaneIndex_def)+
  have "unat plane < unat (pfi_plane_count f)" using assms(2) by (simp add: word_less_nat_alt)
  then have "pfi_sample_size f ! unat plane \<in> set (take (unat (pfi_plane_count f)) (pfi_sample_size f))"
    using all(2) by (auto simp: in_set_conv_nth intro!: exI [of _ "unat plane"])
  then show "ex_height (pfi_sample_size f ! unat plane) \<in> {1, 2}" "ex_width (pfi_sample_size f ! unat plane) \<in> {1, 2}"
    using all(1) by blast+
qed

text \<open>
  C17. For every pixel format of the table and every plane it has, the rows and columns of a frame are those
  needed to cover it with samples: the division rounds up. The one size that is left out is 0xffffffff,
  where the rounding wraps (\<open>row_count_wraps\<close>).
\<close>
theorem plane_covers_the_frame:
  assumes "info_for_pixel_format format = Some f" "plane < pfi_plane_count f" "unat x + 1 < 2 ^ 32"
    and "e = pfi_sample_size f ! unat plane"
  shows "\<exists>r c. row_count f plane x = Some r \<and> unat r = (unat x + unat (ex_height e) - 1) div unat (ex_height e) \<and>
    column_count f plane x = Some c \<and> unat c = (unat x + unat (ex_width e) - 1) div unat (ex_width e)"
proof -
  note sizes = table_sample_sizes [OF assms(1,2), folded assms(4)]
  have "sample_size_for_plane f plane = Some e" using assms(2,4) by (simp add: sample_size_for_plane_def)
  moreover have "ex_height e \<noteq> 0" "ex_width e \<noteq> 0" using sizes by auto
  ultimately have "row_count f plane x = Some (round_up_to_align x (ex_height e) div ex_height e)"
    "column_count f plane x = Some (round_up_to_align x (ex_width e) div ex_width e)"
    using assms(2) by (simp_all add: row_count_def column_count_def)
  then show ?thesis using aligned_count [OF sizes(1) assms(3)] aligned_count [OF sizes(2) assms(3)] by blast
qed

theorem plane_covers_the_frame_witness:
  "\<exists>f r c. info_for_pixel_format kNv12 = Some f \<and> row_count f 1 5 = Some r \<and> unat r = 3 \<and>
    column_count f 1 7 = Some c \<and> unat c = 4"
proof -
  obtain f where f: "info_for_pixel_format kNv12 = Some f" "f = pf_info 2 default_indices [1, 2] [(1, 1), (2, 2)]" by simp
  then have s: "1 < pfi_plane_count f" "pfi_sample_size f ! unat 1 = \<lparr>ex_width = 2, ex_height = 2\<rparr>"
    by (simp_all add: pf_info_def filled_def)
  show ?thesis
    using plane_covers_the_frame [OF f(1) s(1), of 5] plane_covers_the_frame [OF f(1) s(1), of 7] f(1) s(2) by auto
qed

lemma row_count_wraps: "row_count (pf_info 2 default_indices [1, 2] [(1, 1), (2, 2)]) 1 0xffffffff = Some 0"
  by code_simp

end
