(* ===== verification/Fidl_Conversions.thy ===== *)
theory Fidl_Conversions
  imports Stream_Types Net_Player_Messages Reader_Cache Audio_Routing
begin

text \<open>
  The conversions between the framework's types and the types of the fidl interfaces
  (src/fidl/fidl_type_conversions.cc; the fidl types are those of services/media_types.fidl).

  A fidl pointer is an option; the outer option of a result is the failed check. A union is a
  datatype, and reading the wrong variant of it fails the check of the generated code. The bindings
  reject a message whose enum has an unknown value, so a fidl enum has its named values only. A null
  fidl string or array read as a C++ string or vector is empty.
\<close>

section \<open>The fidl types\<close>

datatype media_type_medium = AUDIO | VIDEO | TEXT | SUBPICTURE

datatype fidl_profile = PROFILE_UNKNOWN | PROFILE_NOT_APPLICABLE | H264_BASELINE | H264_MAIN | H264_EXTENDED | H264_HIGH
  | H264_HIGH10 | H264_HIGH422 | H264_HIGH444_PREDICTIVE | H264_SCALABLE_BASELINE | H264_SCALABLE_HIGH
  | H264_STEREO_HIGH | H264_MULTIVIEW_HIGH

datatype fidl_pixel_format = PIXEL_UNKNOWN | I420 | YV12 | YV16 | YV12A | YV24 | NV12 | NV21 | UYVY | YUY2 | ARGB | XRGB
  | RGB24 | RGB32 | MJPEG | MT21

datatype fidl_color_space = SPACE_UNKNOWN | SPACE_NOT_APPLICABLE | JPEG | HD_REC709 | SD_REC601

record video_details =
  profile :: fidl_profile
  pixel_format :: fidl_pixel_format
  color_space :: fidl_color_space
  width :: u32
  height :: u32
  coded_width :: u32
  coded_height :: u32
  pixel_aspect_ratio_width :: u32
  pixel_aspect_ratio_height :: u32
  line_stride :: "u32 list"
  plane_offset :: "u32 list"

datatype media_type_details = AudioDetails audio_details | VideoDetails video_details | TextDetails | SubpictureDetails

record media_type =
  mt_medium :: media_type_medium
  mt_details :: media_type_details
  mt_encoding :: bytes
  mt_encoding_parameters :: "bytes option"

record audio_set_details =
  sd_sample_format :: sample_format
  min_channels :: u32
  max_channels :: u32
  min_frames_per_second :: u32
  max_frames_per_second :: u32

record video_set_details =
  min_width :: u32
  max_width :: u32
  min_height :: u32
  max_height :: u32

datatype media_type_set_details = AudioSetDetails audio_set_details | VideoSetDetails video_set_details
  | TextSetDetails | SubpictureSetDetails

record media_type_set =
  ms_medium :: media_type_medium
  ms_details :: media_type_set_details
  ms_encodings :: "bytes list"

section \<open>Enums\<close>

fun convert_result :: "audio_media_result \<Rightarrow> media_result" where
  "convert_result RESULT_OK = kOk"
| "convert_result INTERNAL_ERROR = kInternalError"
| "convert_result UNSUPPORTED_OPERATION = kUnsupportedOperation"
| "convert_result NOT_IMPLEMENTED = kUnsupportedOperation"
| "convert_result INVALID_ARGUMENT = kInvalidArgument"
| "convert_result NOT_FOUND = kNotFound"
| "convert_result _ = kUnknownError"

fun medium_from_fidl :: "media_type_medium \<Rightarrow> medium" where
  "medium_from_fidl AUDIO = kAudio"
| "medium_from_fidl VIDEO = kVideo"
| "medium_from_fidl TEXT = kText"
| "medium_from_fidl SUBPICTURE = kSubpicture"

fun format_from_fidl :: "sample_format \<Rightarrow> audio_format" where
  "format_from_fidl SF_NONE = kNone"
| "format_from_fidl SF_ANY = kAny"
| "format_from_fidl SF_UNSIGNED_8 = kUnsigned8"
| "format_from_fidl SF_SIGNED_16 = kSigned16"
| "format_from_fidl SF_SIGNED_24_IN_32 = kSigned24In32"
| "format_from_fidl SF_FLOAT = kFloat"

fun profile_from_fidl :: "fidl_profile \<Rightarrow> video_profile" where
  "profile_from_fidl PROFILE_UNKNOWN = Profile_kUnknown"
| "profile_from_fidl PROFILE_NOT_APPLICABLE = Profile_kNotApplicable"
| "profile_from_fidl H264_BASELINE = kH264Baseline"
| "profile_from_fidl H264_MAIN = kH264Main"
| "profile_from_fidl H264_EXTENDED = kH264Extended"
| "profile_from_fidl H264_HIGH = kH264High"
| "profile_from_fidl H264_HIGH10 = kH264High10"
| "profile_from_fidl H264_HIGH422 = kH264High422"
| "profile_from_fidl H264_HIGH444_PREDICTIVE = kH264High444Predictive"
| "profile_from_fidl H264_SCALABLE_BASELINE = kH264ScalableBaseline"
| "profile_from_fidl H264_SCALABLE_HIGH = kH264ScalableHigh"
| "profile_from_fidl H264_STEREO_HIGH = kH264StereoHigh"
| "profile_from_fidl H264_MULTIVIEW_HIGH = kH264MultiviewHigh"

fun pixel_format_from_fidl :: "fidl_pixel_format \<Rightarrow> Stream_Types.pixel_format" where
  "pixel_format_from_fidl PIXEL_UNKNOWN = Pixel_kUnknown"
| "pixel_format_from_fidl I420 = kI420"
| "pixel_format_from_fidl YV12 = kYv12"
| "pixel_format_from_fidl YV16 = kYv16"
| "pixel_format_from_fidl YV12A = kYv12A"
| "pixel_format_from_fidl YV24 = kYv24"
| "pixel_format_from_fidl NV12 = kNv12"
| "pixel_format_from_fidl NV21 = kNv21"
| "pixel_format_from_fidl UYVY = kUyvy"
| "pixel_format_from_fidl YUY2 = kYuy2"
| "pixel_format_from_fidl ARGB = kArgb"
| "pixel_format_from_fidl XRGB = kXrgb"
| "pixel_format_from_fidl RGB24 = kRgb24"
| "pixel_format_from_fidl RGB32 = kRgb32"
| "pixel_format_from_fidl MJPEG = kMjpeg"
| "pixel_format_from_fidl MT21 = kMt21"

fun color_space_from_fidl :: "fidl_color_space \<Rightarrow> Stream_Types.color_space" where
  "color_space_from_fidl SPACE_UNKNOWN = Space_kUnknown"
| "color_space_from_fidl SPACE_NOT_APPLICABLE = Space_kNotApplicable"
| "color_space_from_fidl JPEG = kJpeg"
| "color_space_from_fidl HD_REC709 = kHdRec709"
| "color_space_from_fidl SD_REC601 = kSdRec601"

fun medium_to_fidl :: "medium \<Rightarrow> media_type_medium" where
  "medium_to_fidl kAudio = AUDIO"
| "medium_to_fidl kVideo = VIDEO"
| "medium_to_fidl kText = TEXT"
| "medium_to_fidl kSubpicture = SUBPICTURE"

fun format_to_fidl :: "audio_format \<Rightarrow> sample_format" where
  "format_to_fidl kNone = SF_NONE"
| "format_to_fidl kAny = SF_ANY"
| "format_to_fidl kUnsigned8 = SF_UNSIGNED_8"
| "format_to_fidl kSigned16 = SF_SIGNED_16"
| "format_to_fidl kSigned24In32 = SF_SIGNED_24_IN_32"
| "format_to_fidl kFloat = SF_FLOAT"

fun profile_to_fidl :: "video_profile \<Rightarrow> fidl_profile" where
  "profile_to_fidl Profile_kUnknown = PROFILE_UNKNOWN"
| "profile_to_fidl Profile_kNotApplicable = PROFILE_NOT_APPLICABLE"
| "profile_to_fidl kH264Baseline = H264_BASELINE"
| "profile_to_fidl kH264Main = H264_MAIN"
| "profile_to_fidl kH264Extended = H264_EXTENDED"
| "profile_to_fidl kH264High = H264_HIGH"
| "profile_to_fidl kH264High10 = H264_HIGH10"
| "profile_to_fidl kH264High422 = H264_HIGH422"
| "profile_to_fidl kH264High444Predictive = H264_HIGH444_PREDICTIVE"
| "profile_to_fidl kH264ScalableBaseline = H264_SCALABLE_BASELINE"
| "profile_to_fidl kH264ScalableHigh = H264_SCALABLE_HIGH"
| "profile_to_fidl kH264StereoHigh = H264_STEREO_HIGH"
| "profile_to_fidl kH264MultiviewHigh = H264_MULTIVIEW_HIGH"

fun pixel_format_to_fidl :: "Stream_Types.pixel_format \<Rightarrow> fidl_pixel_format" where
  "pixel_format_to_fidl Pixel_kUnknown = PIXEL_UNKNOWN"
| "pixel_format_to_fidl kI420 = I420"
| "pixel_format_to_fidl kYv12 = YV12"
| "pixel_format_to_fidl kYv16 = YV16"
| "pixel_format_to_fidl kYv12A = YV12A"
| "pixel_format_to_fidl kYv24 = YV24"
| "pixel_format_to_fidl kNv12 = NV12"
| "pixel_format_to_fidl kNv21 = NV21"
| "pixel_format_to_fidl kUyvy = UYVY"
| "pixel_format_to_fidl kYuy2 = YUY2"
| "pixel_format_to_fidl kArgb = ARGB"
| "pixel_format_to_fidl kXrgb = XRGB"
| "pixel_format_to_fidl kRgb24 = RGB24"
| "pixel_format_to_fidl kRgb32 = RGB32"
| "pixel_format_to_fidl kMjpeg = MJPEG"
| "pixel_format_to_fidl kMt21 = MT21"

fun color_space_to_fidl :: "Stream_Types.color_space \<Rightarrow> fidl_color_space" where
  "color_space_to_fidl Space_kUnknown = SPACE_UNKNOWN"
| "color_space_to_fidl Space_kNotApplicable = SPACE_NOT_APPLICABLE"
| "color_space_to_fidl kJpeg = JPEG"
| "color_space_to_fidl kHdRec709 = HD_REC709"
| "color_space_to_fidl kSdRec601 = SD_REC601"

lemma medium_round_trip [simp]: "medium_from_fidl (medium_to_fidl m) = m" by (cases m) simp_all

lemma medium_round_trip' [simp]: "medium_to_fidl (medium_from_fidl m) = m" by (cases m) simp_all

lemma format_round_trip [simp]: "format_from_fidl (format_to_fidl f) = f" by (cases f) simp_all

lemma format_round_trip' [simp]: "format_to_fidl (format_from_fidl f) = f" by (cases f) simp_all

lemma profile_round_trip [simp]: "profile_from_fidl (profile_to_fidl p) = p" by (cases p) simp_all

lemma profile_round_trip' [simp]: "profile_to_fidl (profile_from_fidl p) = p" by (cases p) simp_all

lemma pixel_format_round_trip [simp]: "pixel_format_from_fidl (pixel_format_to_fidl x) = x" by (cases x) simp_all

lemma pixel_format_round_trip' [simp]: "pixel_format_to_fidl (pixel_format_from_fidl x) = x" by (cases x) simp_all

lemma color_space_round_trip [simp]: "color_space_from_fidl (color_space_to_fidl c) = c" by (cases c) simp_all

lemma color_space_round_trip' [simp]: "color_space_to_fidl (color_space_from_fidl c) = c" by (cases c) simp_all

section \<open>Types\<close>

text \<open>\<open>Bytes\<close> and arrays of bytes.\<close>

definition bytes_to_fidl :: "bytes option \<Rightarrow> bytes option" where
  "bytes_to_fidl b = (case b of None \<Rightarrow> None | Some x \<Rightarrow> Some (take (length x) x))"

definition bytes_from_fidl :: "bytes option \<Rightarrow> bytes option" where
  "bytes_from_fidl b = (case b of None \<Rightarrow> None | Some x \<Rightarrow> Some (take (length x) x))"

definition media_type_from :: "stream_type option \<Rightarrow> media_type option option" where
  "media_type_from t =
     (case t of
        None \<Rightarrow> Some None
      | Some t \<Rightarrow> do {
          details \<leftarrow> (case st_medium t of
             kAudio \<Rightarrow> do {
               a \<leftarrow> st_audio t;
               Some (AudioDetails \<lparr>sample_format = format_to_fidl (at_sample_format a), channels = at_channels a,
                                   frames_per_second = at_frames_per_second a\<rparr>)
             }
           | kVideo \<Rightarrow> do {
               v \<leftarrow> st_video t;
               Some (VideoDetails
                 \<lparr>profile = profile_to_fidl (vt_profile v), pixel_format = pixel_format_to_fidl (vt_pixel_format v),
                  color_space = color_space_to_fidl (vt_color_space v), width = vt_width v, height = vt_height v,
                  coded_width = vt_coded_width v, coded_height = vt_coded_height v,
                  pixel_aspect_ratio_width = vt_pixel_aspect_ratio_width v,
                  pixel_aspect_ratio_height = vt_pixel_aspect_ratio_height v,
                  line_stride = vt_line_stride v, plane_offset = vt_plane_offset v\<rparr>)
             }
           | kText \<Rightarrow> Some TextDetails
           | kSubpicture \<Rightarrow> Some SubpictureDetails);
          Some (Some \<lparr>mt_medium = medium_to_fidl (st_medium t), mt_details = details, mt_encoding = st_encoding t,
                      mt_encoding_parameters = bytes_to_fidl (st_encoding_parameters t)\<rparr>)
        })"

definition get_audio :: "media_type_details \<Rightarrow> audio_details option" where
  "get_audio d = (case d of AudioDetails a \<Rightarrow> Some a | _ \<Rightarrow> None)"

definition get_video :: "media_type_details \<Rightarrow> video_details option" where
  "get_video d = (case d of VideoDetails v \<Rightarrow> Some v | _ \<Rightarrow> None)"

definition stream_type_to :: "media_type option \<Rightarrow> stream_type option option" where
  "stream_type_to t =
     (case t of
        None \<Rightarrow> Some None
      | Some t \<Rightarrow>
          (case mt_medium t of
             AUDIO \<Rightarrow> do {
               a \<leftarrow> get_audio (mt_details t);
               s \<leftarrow> create_audio (mt_encoding t) (bytes_from_fidl (mt_encoding_parameters t))
                      (format_from_fidl (sample_format a)) (channels a) (frames_per_second a);
               Some (Some s)
             }
           | VIDEO \<Rightarrow> do {
               v \<leftarrow> get_video (mt_details t);
               s \<leftarrow> create_video (mt_encoding t) (bytes_from_fidl (mt_encoding_parameters t))
                      (profile_from_fidl (profile v)) (pixel_format_from_fidl (pixel_format v))
                      (color_space_from_fidl (color_space v)) (width v) (height v) (coded_width v) (coded_height v)
                      (pixel_aspect_ratio_width v) (pixel_aspect_ratio_height v) (line_stride v) (plane_offset v);
               Some (Some s)
             }
           | TEXT \<Rightarrow> Some (Some (create_text (mt_encoding t) (bytes_from_fidl (mt_encoding_parameters t))))
           | SUBPICTURE \<Rightarrow> Some (Some (create_subpicture (mt_encoding t) (bytes_from_fidl (mt_encoding_parameters t))))))"

section \<open>Sets of types\<close>

definition media_type_set_from :: "stream_type_set option \<Rightarrow> media_type_set option option" where
  "media_type_set_from t =
     (case t of
        None \<Rightarrow> Some None
      | Some t \<Rightarrow> do {
          details \<leftarrow> (case set_medium t of
             kAudio \<Rightarrow> do {
               a \<leftarrow> set_audio t;
               Some (AudioSetDetails \<lparr>sd_sample_format = format_to_fidl (as_sample_format a),
                  min_channels = range_min (as_channels a), max_channels = range_max (as_channels a),
                  min_frames_per_second = range_min (as_frames_per_second a),
                  max_frames_per_second = range_max (as_frames_per_second a)\<rparr>)
             }
           | kVideo \<Rightarrow> do {
               v \<leftarrow> set_video t;
               Some (VideoSetDetails \<lparr>min_width = range_min (vs_width v), max_width = range_max (vs_width v),
                  min_height = range_min (vs_height v), max_height = range_max (vs_height v)\<rparr>)
             }
           | kText \<Rightarrow> Some TextSetDetails
           | kSubpicture \<Rightarrow> Some SubpictureSetDetails);
          Some (Some \<lparr>ms_medium = medium_to_fidl (set_medium t), ms_details = details, ms_encodings = set_encodings t\<rparr>)
        })"

definition stream_type_set_to :: "media_type_set option \<Rightarrow> stream_type_set option option" where
  "stream_type_set_to t =
     (case t of
        None \<Rightarrow> Some None
      | Some t \<Rightarrow>
          (case ms_medium t of
             AUDIO \<Rightarrow> (case ms_details t of
                AudioSetDetails a \<Rightarrow> do {
                  c \<leftarrow> mk_range (min_channels a) (max_channels a);
                  f \<leftarrow> mk_range (min_frames_per_second a) (max_frames_per_second a);
                  Some (Some (create_audio_set (ms_encodings t) (format_from_fidl (sd_sample_format a)) c f))
                }
              | _ \<Rightarrow> None)
           | VIDEO \<Rightarrow> (case ms_details t of
                VideoSetDetails v \<Rightarrow> do {
                  w \<leftarrow> mk_range (min_width v) (max_width v);
                  h \<leftarrow> mk_range (min_height v) (max_height v);
                  Some (Some (create_video_set (ms_encodings t) w h))
                }
              | _ \<Rightarrow> None)
           | TEXT \<Rightarrow> Some (Some (create_text_set (ms_encodings t)))
           | SUBPICTURE \<Rightarrow> Some (Some (create_subpicture_set (ms_encodings t)))))"

section \<open>Metadata and arrays\<close>

record metadata =
  duration_ns :: u64
  title :: bytes
  artist :: bytes
  album :: bytes
  publisher :: bytes
  genre :: bytes
  composer :: bytes

definition string_to_fidl :: "bytes \<Rightarrow> fidl_string" where
  "string_to_fidl x = (if x = [] then None else Some x)"

definition string_from_fidl :: "fidl_string \<Rightarrow> bytes" where
  "string_from_fidl x = (case x of None \<Rightarrow> [] | Some y \<Rightarrow> y)"

definition metadata_from :: "metadata option \<Rightarrow> media_metadata option" where
  "metadata_from m =
     (case m of
        None \<Rightarrow> None
      | Some m \<Rightarrow> Some
          \<lparr>md_duration = duration_ns m, md_title = string_to_fidl (title m), md_artist = string_to_fidl (artist m),
           md_album = string_to_fidl (album m), md_publisher = string_to_fidl (publisher m),
           md_genre = string_to_fidl (genre m), md_composer = string_to_fidl (composer m)\<rparr>)"

definition metadata_to :: "media_metadata option \<Rightarrow> metadata option" where
  "metadata_to m =
     (case m of
        None \<Rightarrow> None
      | Some m \<Rightarrow> Some
          \<lparr>duration_ns = md_duration m, title = string_from_fidl (md_title m), artist = string_from_fidl (md_artist m),
           album = string_from_fidl (md_album m), publisher = string_from_fidl (md_publisher m),
           genre = string_from_fidl (md_genre m), composer = string_from_fidl (md_composer m)\<rparr>)"

text \<open>\<open>fidl::Array::New\<close> makes an array of that many null elements; \<open>push_back\<close> adds to it.\<close>

definition media_types_from :: "stream_type option list option \<Rightarrow> media_type option list option option" where
  "media_types_from ts =
     (case ts of
        None \<Rightarrow> Some None
      | Some xs \<Rightarrow> do { ys \<leftarrow> those (map media_type_from xs); Some (Some (replicate (length xs) None @ ys)) })"

definition stream_types_to :: "media_type option list option \<Rightarrow> stream_type option list option option" where
  "stream_types_to ts =
     (case ts of
        None \<Rightarrow> Some None
      | Some xs \<Rightarrow> map_option Some (those (map stream_type_to xs)))"

definition media_type_sets_from :: "stream_type_set option list option \<Rightarrow> media_type_set option list option option" where
  "media_type_sets_from ts =
     (case ts of
        None \<Rightarrow> Some None
      | Some xs \<Rightarrow> do { ys \<leftarrow> those (map media_type_set_from xs); Some (Some (replicate (length xs) None @ ys)) })"

definition stream_type_sets_to :: "media_type_set option list option \<Rightarrow> stream_type_set option list option option" where
  "stream_type_sets_to ts =
     (case ts of
        None \<Rightarrow> Some None
      | Some xs \<Rightarrow> map_option Some (those (map stream_type_set_to xs)))"

section \<open>Round trips\<close>

lemma bytes_round_trip [simp]: "bytes_to_fidl b = b" "bytes_from_fidl b = b"
  by (simp_all add: bytes_to_fidl_def bytes_from_fidl_def split: option.split)

lemmas creation = create_audio_def create_video_def create_text_def create_subpicture_def create_stream_type_def

text \<open>The union of a message holds the variant of its medium.\<close>

fun variant_ok :: "media_type_medium \<Rightarrow> media_type_details \<Rightarrow> bool" where
  "variant_ok AUDIO (AudioDetails a) \<longleftrightarrow> True"
| "variant_ok VIDEO (VideoDetails v) \<longleftrightarrow> True"
| "variant_ok TEXT TextDetails \<longleftrightarrow> True"
| "variant_ok SUBPICTURE SubpictureDetails \<longleftrightarrow> True"
| "variant_ok _ _ \<longleftrightarrow> False"

lemma type_ok_cases:
  assumes "type_ok t"
  obtains (audio) a where "st_medium t = kAudio" "st_details t = Some (AudioStreamType a)"
      "sample_size_from_format (at_sample_format a) = Some (at_sample_size a)"
    | (video) v where "st_medium t = kVideo" "st_details t = Some (VideoStreamType v)"
      "info_for_pixel_format (vt_pixel_format v) = Some (vt_pixel_format_info v)"
    | (textual) "st_medium t = kText" "st_details t = Some TextStreamType"
    | (subpicture) "st_medium t = kSubpicture" "st_details t = Some SubpictureStreamType"
  using assms by (auto simp: type_ok_def details_ok_def split: option.splits stream_details.splits)

lemma stream_type_there_and_back:
  assumes "type_ok t"
  shows "\<exists>m. media_type_from (Some t) = Some (Some m) \<and> stream_type_to (Some m) = Some (Some t) \<and>
    variant_ok (mt_medium m) (mt_details m)"
  using assms by (cases t, cases rule: type_ok_cases)
    (simp_all add: media_type_from_def stream_type_to_def st_audio_def st_video_def get_audio_def get_video_def creation)

lemma media_type_there_and_back:
  assumes "stream_type_to (Some m) = Some (Some t)" "variant_ok (mt_medium m) (mt_details m)"
  shows "type_ok t \<and> media_type_from (Some t) = Some (Some m)"
  using assms by (cases m; cases "mt_medium m"; cases "mt_details m")
    (auto simp: media_type_from_def stream_type_to_def st_audio_def st_video_def get_audio_def get_video_def creation
      bind_Some_iff type_ok_def details_ok_def)

text \<open>
  C15. The conversions are inverse to each other: a message is read as the stream type \<open>t\<close> exactly when
  \<open>t\<close> is one the constructors make and is written as that message. So no stream type is lost or
  changed on the way through a fidl interface.
\<close>
theorem media_types_round_trip:
  assumes "variant_ok (mt_medium m) (mt_details m)"
  shows "stream_type_to (Some m) = Some (Some t) \<longleftrightarrow> type_ok t \<and> media_type_from (Some t) = Some (Some m)"
  using media_type_there_and_back [OF _ assms] stream_type_there_and_back [of t] by fastforce

definition stereo_message :: media_type where
  "stereo_message = \<lparr>mt_medium = AUDIO, mt_details = AudioDetails \<lparr>sample_format = SF_FLOAT, channels = 2, frames_per_second = 48000\<rparr>,
     mt_encoding = [108], mt_encoding_parameters = Some [1, 2]\<rparr>"

theorem media_types_round_trip_witness:
  "\<exists>t. stream_type_to (Some stereo_message) = Some (Some t) \<and> media_type_from (Some t) = Some (Some stereo_message)"
proof -
  obtain t where "stream_type_to (Some stereo_message) = Some (Some t)"
    by (simp add: stereo_message_def stream_type_to_def get_audio_def creation)
  then show ?thesis using media_types_round_trip [of stereo_message t] by (simp add: stereo_message_def)
qed

text \<open>
  C18. A message fails a check, and with it the service that reads it, exactly when its details are not
  those of its medium, or it asks for any sample format or gives an unknown pixel format - though
  \<open>Convert\<close> itself takes both of the latter.
\<close>
theorem media_types_that_fail:
  "stream_type_to (Some m) = None \<longleftrightarrow>
     (mt_medium m = AUDIO \<and> (case mt_details m of AudioDetails a \<Rightarrow> sample_format a = SF_ANY | _ \<Rightarrow> True)) \<or>
     (mt_medium m = VIDEO \<and> (case mt_details m of VideoDetails v \<Rightarrow> pixel_format v = PIXEL_UNKNOWN | _ \<Rightarrow> True))"
proof -
  have "(format_from_fidl f = kAny) = (f = SF_ANY)" for f by (cases f) simp_all
  moreover have "(sample_size_from_format g = None) = (g = kAny)" for g by (cases g) simp_all
  moreover have "(pixel_format_from_fidl x = Pixel_kUnknown) = (x = PIXEL_UNKNOWN)" for x by (cases x) simp_all
  moreover have "(info_for_pixel_format y = None) = (y = Pixel_kUnknown)" for y by (cases y) simp_all
  ultimately show ?thesis
    by (auto simp: stream_type_to_def get_audio_def get_video_def creation bind_eq_None_conv
      split: media_type_medium.split media_type_details.split)
qed

fun set_variant_ok :: "media_type_medium \<Rightarrow> media_type_set_details \<Rightarrow> bool" where
  "set_variant_ok AUDIO (AudioSetDetails a) \<longleftrightarrow> True"
| "set_variant_ok VIDEO (VideoSetDetails v) \<longleftrightarrow> True"
| "set_variant_ok TEXT TextSetDetails \<longleftrightarrow> True"
| "set_variant_ok SUBPICTURE SubpictureSetDetails \<longleftrightarrow> True"
| "set_variant_ok _ _ \<longleftrightarrow> False"

lemmas set_creation = create_audio_set_def create_video_set_def create_text_set_def create_subpicture_set_def
  create_set_def mk_range_def

lemma type_set_there_and_back:
  assumes "set_ok t"
  shows "\<exists>m. media_type_set_from (Some t) = Some (Some m) \<and> stream_type_set_to (Some m) = Some (Some t) \<and>
    set_variant_ok (ms_medium m) (ms_details m)"
  using assms by (cases t)
    (auto simp: set_ok_def media_type_set_from_def stream_type_set_to_def set_audio_def set_video_def set_creation
      split: option.splits set_details.splits)

lemma media_type_set_there_and_back:
  assumes "stream_type_set_to (Some m) = Some (Some t)" "set_variant_ok (ms_medium m) (ms_details m)"
  shows "set_ok t \<and> media_type_set_from (Some t) = Some (Some m)"
  using assms by (cases m; cases "ms_medium m"; cases "ms_details m")
    (auto simp: media_type_set_from_def stream_type_set_to_def set_audio_def set_video_def set_creation set_ok_def)

text \<open>The same for sets of types, whose ranges must not be empty.\<close>
theorem media_type_sets_round_trip:
  assumes "set_variant_ok (ms_medium m) (ms_details m)"
  shows "stream_type_set_to (Some m) = Some (Some t) \<longleftrightarrow> set_ok t \<and> media_type_set_from (Some t) = Some (Some m)"
  using media_type_set_there_and_back [OF _ assms] type_set_there_and_back [of t] by fastforce

theorem media_type_sets_round_trip_witness:
  "\<exists>t m. m = \<lparr>ms_medium = VIDEO, ms_details = VideoSetDetails \<lparr>min_width = 1, max_width = 9, min_height = 2, max_height = 2\<rparr>,
      ms_encodings = [[1]]\<rparr> \<and>
    stream_type_set_to (Some m) = Some (Some t) \<and> media_type_set_from (Some t) = Some (Some m)"
  using media_type_sets_round_trip [of "\<lparr>ms_medium = VIDEO, ms_details = VideoSetDetails \<lparr>min_width = 1, max_width = 9, min_height = 2, max_height = 2\<rparr>,
      ms_encodings = [[1]]\<rparr>"]
  by (auto simp: stream_type_set_to_def set_creation)

lemma metadata_round_trip: "metadata_to (metadata_from (Some m)) = Some m"
  by (cases m) (simp add: metadata_to_def metadata_from_def string_to_fidl_def string_from_fidl_def)

text \<open>
  The conversion of a list of stream types starts with a null element for each of them: the array has
  its length before the elements are appended. The same happens to the clone of a vector.
\<close>
theorem converted_lists_start_with_nulls:
  "those (map media_type_from xs) = Some ys \<longrightarrow>
     media_types_from (Some xs) = Some (Some (replicate (length xs) None @ ys))"
  "safe_clone_vector bytes_clone (Some bs) = Some (Some (replicate (length bs) None @ bs))"
proof -
  have "those (map (safe_clone bytes_clone) bs) = Some bs"
    by (induction bs) (auto simp: safe_clone_def bytes_clone_def split: option.split)
  then show "safe_clone_vector bytes_clone (Some bs) = Some (Some (replicate (length bs) None @ bs))"
    by (simp add: safe_clone_vector_def)
qed (simp add: media_types_from_def)

end
