(* ===== verification/Framework_Packet.thy ===== *)
theory Framework_Packet
  imports Stream_Types Timeline_Rate
begin

text \<open>
  The packets of the framework (src/framework/packet.h, .cc). The contents of the payload are a
  parameter \<open>'p\<close>; a null payload is \<^term>\<open>None\<close>.
\<close>

definition kUnknownPts :: int where "kUnknownPts = i64_min"

record 'p packet =
  pk_pts :: int
  pk_pts_rate :: timeline_rate
  pk_keyframe :: bool
  pk_end_of_stream :: bool
  pk_size :: u64
  pk_payload :: "'p option"
  pk_has_allocator :: bool
  pk_revised :: "stream_type option"

definition new_packet :: "int \<Rightarrow> timeline_rate \<Rightarrow> bool \<Rightarrow> bool \<Rightarrow> u64 \<Rightarrow> 'p option \<Rightarrow> bool \<Rightarrow> 'p packet option" where
  "new_packet pts r keyframe eos n payload has_allocator = do {
     dcheck ((n = 0) = (payload = None));
     Some \<lparr>pk_pts = pts, pk_pts_rate = r, pk_keyframe = keyframe, pk_end_of_stream = eos, pk_size = n,
           pk_payload = payload, pk_has_allocator = has_allocator, pk_revised = None\<rparr>
   }"

definition packet_create :: "int \<Rightarrow> timeline_rate \<Rightarrow> bool \<Rightarrow> bool \<Rightarrow> u64 \<Rightarrow> 'p option \<Rightarrow> bool \<Rightarrow> 'p packet option" where
  "packet_create pts r keyframe eos n payload has_allocator = do {
     dcheck (payload = None \<or> has_allocator);
     new_packet pts r keyframe eos n payload has_allocator
   }"

definition packet_create_no_allocator :: "int \<Rightarrow> timeline_rate \<Rightarrow> bool \<Rightarrow> bool \<Rightarrow> u64 \<Rightarrow> 'p option \<Rightarrow> 'p packet option" where
  "packet_create_no_allocator pts r keyframe eos n payload = new_packet pts r keyframe eos n payload False"

definition packet_create_end_of_stream :: "int \<Rightarrow> timeline_rate \<Rightarrow> 'p packet option" where
  "packet_create_end_of_stream pts r = new_packet pts r False True 0 None False"

text \<open>\<open>pts () * rate\<close> is \<open>Scale\<close>.\<close>

definition get_pts :: "'p packet \<Rightarrow> timeline_rate \<Rightarrow> int option" where
  "get_pts p r =
     (if r = pk_pts_rate p then Some (pk_pts p)
      else do {
        inv \<leftarrow> rate_inverse (pk_pts_rate p);
        q \<leftarrow> rate_product r inv False;
        rate_scale q (pk_pts p)
      })"

definition packet_set_pts_rate :: "timeline_rate \<Rightarrow> 'p packet \<Rightarrow> 'p packet option" where
  "packet_set_pts_rate r p =
     (if r = pk_pts_rate p then Some p
      else do { t \<leftarrow> get_pts p r; Some (p\<lparr>pk_pts := t, pk_pts_rate := r\<rparr>) })"

text \<open>Whether releasing the packet gives its payload back to an allocator.\<close>

definition releases_payload :: "'p packet \<Rightarrow> bool" where
  "releases_payload p \<longleftrightarrow> pk_payload p \<noteq> None \<and> pk_has_allocator p"

lemma packet_set_pts_rate_eq:
  "packet_set_pts_rate r p = map_option (\<lambda>t. p\<lparr>pk_pts := t, pk_pts_rate := r\<rparr>) (get_pts p r)"
proof (cases "r = pk_pts_rate p")
  case True
  then have "p\<lparr>pk_pts := pk_pts p, pk_pts_rate := r\<rparr> = p" by simp
  then show ?thesis using True by (simp add: packet_set_pts_rate_def get_pts_def)
next
  case False
  then show ?thesis by (cases "get_pts p r") (simp_all add: packet_set_pts_rate_def)
qed

text \<open>An unknown presentation time is scaled like any other.\<close>

lemma unknown_pts_is_scaled:
  "do {
     a \<leftarrow> mk_rate 1000 1;
     b \<leftarrow> mk_rate 1 1;
     p \<leftarrow> packet_create_end_of_stream kUnknownPts a;
     get_pts p b
   } = Some (- 9223372036854776)"
  by code_simp

end
