(* ===== verification/Lpcm.thy ===== *)
theory Lpcm
  imports Framework_Packet
begin

text \<open>
  The uncompressed audio helpers of src/audio: \<open>LpcmReformatter\<close>, which changes the sample format of
  a packet, and \<open>LpcmUtil\<close>, which silences, copies, mixes and interleaves.

  A buffer is the list of its samples, an \<^typ>\<open>int\<close> in the range of the sample type; the sample types
  are the template parameters. A \<open>float\<close> is its bit pattern, and the arithmetic on floats is a
  parameter (\<open>fconv\<close>, \<open>fadd\<close>). The left shift of a negative \<open>int16_t\<close> is a multiplication.
\<close>

datatype lpcm_type = Lpcm_u8 | Lpcm_i16 | Lpcm_i32 | Lpcm_float

fun lpcm_type_of :: "audio_format \<Rightarrow> lpcm_type option" where
  "lpcm_type_of kUnsigned8 = Some Lpcm_u8"
| "lpcm_type_of kSigned16 = Some Lpcm_i16"
| "lpcm_type_of kSigned24In32 = Some Lpcm_i32"
| "lpcm_type_of kFloat = Some Lpcm_float"
| "lpcm_type_of _ = None"

fun lpcm_size :: "lpcm_type \<Rightarrow> nat" where
  "lpcm_size Lpcm_u8 = 1"
| "lpcm_size Lpcm_i16 = 2"
| "lpcm_size Lpcm_i32 = 4"
| "lpcm_size Lpcm_float = 4"

fun in_lpcm :: "lpcm_type \<Rightarrow> int \<Rightarrow> bool" where
  "in_lpcm Lpcm_u8 x \<longleftrightarrow> 0 \<le> x \<and> x < 2 ^ 8"
| "in_lpcm Lpcm_i16 x \<longleftrightarrow> - (2 ^ 15) \<le> x \<and> x < 2 ^ 15"
| "in_lpcm Lpcm_i32 x \<longleftrightarrow> - (2 ^ 31) \<le> x \<and> x < 2 ^ 31"
| "in_lpcm Lpcm_float x \<longleftrightarrow> 0 \<le> x \<and> x < 2 ^ 32"

text \<open>\<open>static_cast\<close> to \<open>uint8_t\<close> and \<open>int16_t\<close>.\<close>

definition cast_u8 :: "int \<Rightarrow> int" where "cast_u8 x = x mod 2 ^ 8"

definition cast_i16 :: "int \<Rightarrow> int" where "cast_i16 x = (x + 2 ^ 15) mod 2 ^ 16 - 2 ^ 15"

section \<open>Copying a sample\<close>

definition clamp :: "int \<Rightarrow> int \<Rightarrow> int \<Rightarrow> int" where
  "clamp x least greatest = (if x > greatest then greatest else if x < least then least else x)"

text \<open>The bounds are written in the wrong order in the source.\<close>

definition clamp_i32 :: "int \<Rightarrow> int" where
  "clamp_i32 x = clamp x (2 ^ 23) (- (2 ^ 23))"

fun copy_sample :: "(lpcm_type \<Rightarrow> lpcm_type \<Rightarrow> int \<Rightarrow> int) \<Rightarrow> lpcm_type \<Rightarrow> lpcm_type \<Rightarrow> int \<Rightarrow> int" where
  "copy_sample fconv Lpcm_i16 Lpcm_u8 x = cast_u8 (x div 2 ^ 8 XOR 0x80)"
| "copy_sample fconv Lpcm_i32 Lpcm_u8 x = cast_u8 (clamp_i32 x div 2 ^ 16 XOR 0x80)"
| "copy_sample fconv Lpcm_u8 Lpcm_i16 x = cast_i16 (cast_i16 (x XOR 0x80) * 2 ^ 8)"
| "copy_sample fconv Lpcm_i32 Lpcm_i16 x = cast_i16 (clamp_i32 x div 2 ^ 8)"
| "copy_sample fconv Lpcm_u8 Lpcm_i32 x = (x XOR 0x80) * 2 ^ 16"
| "copy_sample fconv Lpcm_i16 Lpcm_i32 x = x * 2 ^ 8"
| "copy_sample fconv i j x = (if i = j then x else fconv i j x)"

section \<open>The reformatter\<close>

record reformatter =
  rf_in_type :: stream_type
  rf_in :: audio_type
  rf_out_type :: stream_type
  rf_out :: audio_type
  rf_from :: lpcm_type
  rf_to :: lpcm_type

definition kAudioEncodingLpcm :: bytes where "kAudioEncodingLpcm = [108, 112, 99, 109]"

text \<open>Which of the sixteen instances of the template \<open>Create\<close> picks; the constructor follows.\<close>

definition lpcm_instance :: "audio_format \<Rightarrow> audio_format \<Rightarrow> (lpcm_type \<times> lpcm_type) option" where
  "lpcm_instance f g = do {
     i \<leftarrow> lpcm_type_of f;
     j \<leftarrow> (if g = kAny then Some i else lpcm_type_of g);
     Some (i, j)
   }"

definition reformatter_create :: "stream_type \<Rightarrow> audio_format \<Rightarrow> reformatter option" where
  "reformatter_create t out_format = do {
     a \<leftarrow> st_audio t;
     (i, j) \<leftarrow> lpcm_instance (at_sample_format a) out_format;
     out \<leftarrow> create_audio (st_encoding t) None out_format (at_channels a) (at_frames_per_second a);
     oa \<leftarrow> st_audio out;
     dcheck (st_encoding t = kAudioEncodingLpcm);
     dcheck (st_encoding_parameters t = None);
     Some \<lparr>rf_in_type = t, rf_in = a, rf_out_type = out, rf_out = oa, rf_from = i, rf_to = j\<rparr>
   }"

definition output_stream_type :: "reformatter \<Rightarrow> stream_type option" where
  "output_stream_type r = stream_type_clone (rf_out_type r)"

text \<open>The inner loop over the frames of a channel, then the loop over the channels.\<close>

fun reformat_channel :: "(int \<Rightarrow> int) \<Rightarrow> nat \<Rightarrow> nat \<Rightarrow> nat \<Rightarrow> int list \<Rightarrow> int list \<Rightarrow> int list option" where
  "reformat_channel f step 0 i src dst = Some dst"
| "reformat_channel f step (Suc n) i src dst = do {
     x \<leftarrow> nth_opt src i;
     dcheck (i < length dst);
     reformat_channel f step n (i + step) src (dst[i := f x])
   }"

fun reformat_channels :: "(int \<Rightarrow> int) \<Rightarrow> nat \<Rightarrow> nat \<Rightarrow> nat \<Rightarrow> nat \<Rightarrow> int list \<Rightarrow> int list \<Rightarrow> int list option" where
  "reformat_channels f step frames 0 c src dst = Some dst"
| "reformat_channels f step frames (Suc n) c src dst = do {
     dst \<leftarrow> reformat_channel f step frames c src dst;
     reformat_channels f step frames n (c + 1) src dst
   }"

text \<open>\<open>allocate\<close> is the allocator: the samples a new buffer of that many bytes happens to hold, or null.
  The result has whether the transform is finished with the packet, and its output.\<close>

definition transform_packet ::
    "(lpcm_type \<Rightarrow> lpcm_type \<Rightarrow> int \<Rightarrow> int) \<Rightarrow> (u64 \<Rightarrow> int list option) \<Rightarrow> reformatter \<Rightarrow> int list packet \<Rightarrow>
     (bool \<times> int list packet option) option" where
  "transform_packet fconv allocate r p =
     (if pk_size p = 0 then do {
        q \<leftarrow> packet_create (pk_pts p) (pk_pts_rate p) False (pk_end_of_stream p) 0 None False;
        Some (True, Some q)
      }
      else do {
        frames \<leftarrow> at_frame_count (rf_in r) (pk_size p);
        let out_size = min_buffer_size (rf_out r) frames;
        (case allocate out_size of
           None \<Rightarrow> Some (False, None)
         | Some buffer \<Rightarrow> do {
             src \<leftarrow> pk_payload p;
             let ch = unat (at_channels (rf_in r));
             buffer \<leftarrow> reformat_channels (copy_sample fconv (rf_from r) (rf_to r)) ch (unat frames) ch 0 src buffer;
             q \<leftarrow> packet_create (pk_pts p) (pk_pts_rate p) False (pk_end_of_stream p) out_size (Some buffer) True;
             Some (True, Some q)
           })
      })"

section \<open>LpcmUtil\<close>

record lpcm_util =
  lu_type :: audio_type
  lu_sample :: lpcm_type

definition lpcm_util_create :: "stream_type \<Rightarrow> lpcm_util option" where
  "lpcm_util_create t = do {
     a \<leftarrow> st_audio t;
     s \<leftarrow> lpcm_type_of (at_sample_format a);
     Some \<lparr>lu_type = a, lu_sample = s\<rparr>
   }"

text \<open>The number of samples; the product is that of a \<open>size_t\<close> and a \<open>uint32_t\<close>.\<close>

definition sample_count :: "lpcm_util \<Rightarrow> u64 \<Rightarrow> nat" where
  "sample_count u frames = unat (frames * ucast (at_channels (lu_type u)))"

text \<open>The specialisations fill bytes: \<open>memset\<close> of \<open>frames * bytes_per_frame\<close> of them.\<close>

definition byte_fill_count :: "lpcm_util \<Rightarrow> u64 \<Rightarrow> nat" where
  "byte_fill_count u frames = unat (frames * ucast (at_bytes_per_frame (lu_type u))) div lpcm_size (lu_sample u)"

definition fill_samples :: "nat \<Rightarrow> int \<Rightarrow> int list \<Rightarrow> int list option" where
  "fill_samples n x buffer = do { dcheck (n \<le> length buffer); Some (replicate n x @ drop n buffer) }"

definition silence :: "lpcm_util \<Rightarrow> int list \<Rightarrow> u64 \<Rightarrow> int list option" where
  "silence u buffer frames =
     (case lu_sample u of
        Lpcm_float \<Rightarrow> fill_samples (sample_count u frames) 0 buffer
      | Lpcm_u8 \<Rightarrow> fill_samples (byte_fill_count u frames) 0x80 buffer
      | Lpcm_i16 \<Rightarrow> fill_samples (byte_fill_count u frames) 0 buffer
      | Lpcm_i32 \<Rightarrow> fill_samples (byte_fill_count u frames) 0 buffer)"

definition copy_frames :: "lpcm_util \<Rightarrow> int list \<Rightarrow> int list \<Rightarrow> u64 \<Rightarrow> int list option" where
  "copy_frames u src dst frames = do {
     let n = unat (min_buffer_size (lu_type u) frames) div lpcm_size (lu_sample u);
     dcheck (n \<le> length src);
     dcheck (n \<le> length dst);
     Some (take n src @ drop n dst)
   }"

text \<open>Adding one sample: \<open>uint8_t\<close> around its middle, \<open>int16_t\<close> wraps when it is stored, the sum of two
  \<open>int32_t\<close> may overflow.\<close>

fun mix_sample :: "(int \<Rightarrow> int \<Rightarrow> int) \<Rightarrow> lpcm_type \<Rightarrow> int \<Rightarrow> int \<Rightarrow> int option" where
  "mix_sample fadd Lpcm_u8 out x = Some (cast_u8 (out + x - 0x80))"
| "mix_sample fadd Lpcm_i16 out x = Some (cast_i16 (out + x))"
| "mix_sample fadd Lpcm_i32 out x = (if in_i32 (out + x) then Some (out + x) else None)"
| "mix_sample fadd Lpcm_float out x = Some (fadd out x)"

fun mix_samples :: "(int \<Rightarrow> int \<Rightarrow> int) \<Rightarrow> lpcm_type \<Rightarrow> nat \<Rightarrow> nat \<Rightarrow> int list \<Rightarrow> int list \<Rightarrow> int list option" where
  "mix_samples fadd s 0 i src dst = Some dst"
| "mix_samples fadd s (Suc n) i src dst = do {
     x \<leftarrow> nth_opt src i;
     y \<leftarrow> nth_opt dst i;
     z \<leftarrow> mix_sample fadd s y x;
     mix_samples fadd s n (i + 1) src (dst[i := z])
   }"

definition lpcm_mix :: "(int \<Rightarrow> int \<Rightarrow> int) \<Rightarrow> lpcm_util \<Rightarrow> int list \<Rightarrow> int list \<Rightarrow> u64 \<Rightarrow> int list option" where
  "lpcm_mix fadd u src dst frames = mix_samples fadd (lu_sample u) (sample_count u frames) 0 src dst"

fun interleave_channel :: "nat \<Rightarrow> nat \<Rightarrow> nat \<Rightarrow> nat \<Rightarrow> int list \<Rightarrow> int list \<Rightarrow> int list option" where
  "interleave_channel step 0 i j src dst = Some dst"
| "interleave_channel step (Suc n) i j src dst = do {
     x \<leftarrow> nth_opt src i;
     dcheck (j < length dst);
     interleave_channel step n (i + 1) (j + step) src (dst[j := x])
   }"

fun interleave_channels :: "nat \<Rightarrow> nat \<Rightarrow> nat \<Rightarrow> nat \<Rightarrow> nat \<Rightarrow> nat \<Rightarrow> int list \<Rightarrow> int list \<Rightarrow> int list option" where
  "interleave_channels step stride frames 0 i j src dst = Some dst"
| "interleave_channels step stride frames (Suc n) i j src dst = do {
     dst \<leftarrow> interleave_channel step frames i j src dst;
     interleave_channels step stride frames n (i + stride) (j + 1) src dst
   }"

definition interleave :: "lpcm_util \<Rightarrow> int list \<Rightarrow> u64 \<Rightarrow> int list \<Rightarrow> u64 \<Rightarrow> int list option" where
  "interleave u src in_byte_count dst frames = do {
     dcheck (in_byte_count \<noteq> 0);
     dcheck (frames \<noteq> 0);
     let channels = at_channels (lu_type u);
     dcheck (channels \<noteq> 0);
     dcheck (at_bytes_per_frame (lu_type u) \<noteq> 0);
     dcheck (in_byte_count mod ucast (at_bytes_per_frame (lu_type u)) = 0);
     dcheck (in_byte_count \<ge> frames * ucast (at_bytes_per_frame (lu_type u)));
     let stride = in_byte_count div ucast (at_bytes_per_frame (lu_type u));
     interleave_channels (unat channels) (unat stride) (unat frames) (unat channels) 0 0 src dst
   }"


section \<open>Every sample is converted\<close>

lemma reformat_channel_result:
  assumes "n = 0 \<or> i + (n - 1) * step < length src" "n = 0 \<or> i + (n - 1) * step < length dst" "0 < step"
  shows "\<exists>dst'. reformat_channel f step n i src dst = Some dst' \<and> length dst' = length dst \<and>
    (\<forall>k < length dst. dst' ! k = (if i \<le> k \<and> k < i + n * step \<and> (k - i) mod step = 0 then f (src ! k) else dst ! k))"
  using assms
proof (induction n arbitrary: i dst)
  case (Suc n)
  have i: "i < length src" "i < length dst" using Suc.prems(1,2) by auto
  have next1: "n = 0 \<or> i + step + (n - 1) * step < length src" "n = 0 \<or> i + step + (n - 1) * step < length (dst[i := f (src ! i)])"
    using Suc.prems by (cases n; simp)+
  obtain dst' where rec: "reformat_channel f step n (i + step) src (dst[i := f (src ! i)]) = Some dst'"
    and len: "length dst' = length dst"
    and vals: "\<forall>k < length dst. dst' ! k = (if i + step \<le> k \<and> k < i + step + n * step \<and> (k - (i + step)) mod step = 0
       then f (src ! k) else dst[i := f (src ! i)] ! k)"
    using Suc.IH [OF next1 Suc.prems(3)] by auto
  have "dst' ! k = (if i \<le> k \<and> k < i + Suc n * step \<and> (k - i) mod step = 0 then f (src ! k) else dst ! k)"
    if k: "k < length dst" for k
  proof (cases "i + step \<le> k")
    case True
    then have "(k - i) mod step = (k - (i + step)) mod step" 
      using le_mod_geq [of step "k - i"] by simp
    then show ?thesis using vals k True Suc.prems(3) by (auto simp: algebra_simps)
  next
    case False
    have "(k - i) mod step = 0 \<longleftrightarrow> k = i" if "i \<le> k"
    proof -
      have "k - i < step" using False that by simp
      then have "(k - i) mod step = k - i" by simp
      then show ?thesis using that by auto
    qed
    then show ?thesis using vals k False Suc.prems(3) i by (auto simp: nth_list_update)
  qed
  then show ?case using rec len i by (auto simp: nth_opt_def)
qed simp

lemma reformat_channels_result:
  assumes "frames * step \<le> length src" "frames * step \<le> length dst" "c + n = step"
  shows "\<exists>dst'. reformat_channels f step frames n c src dst = Some dst' \<and> length dst' = length dst \<and>
    (\<forall>k < length dst. dst' ! k = (if k < frames * step \<and> c \<le> k mod step then f (src ! k) else dst ! k))"
  using assms(2,3)
proof (induction n arbitrary: c dst)
  case 0
  have "\<not> (k < frames * step \<and> c \<le> k mod step)" for k
    using 0 mod_less_divisor [of step k] by (cases "step = 0") (simp_all add: not_le)
  then show ?case by auto
next
  case (Suc n)
  have c: "c < step" using Suc.prems(2) by simp
  have bound: "frames = 0 \<or> c + (frames - 1) * step < m" if "frames * step \<le> m" for m
    using that c by (cases frames) auto
  obtain dst1 where one: "reformat_channel f step frames c src dst = Some dst1" "length dst1 = length dst"
    and v1: "\<forall>k < length dst. dst1 ! k = (if c \<le> k \<and> k < c + frames * step \<and> (k - c) mod step = 0 then f (src ! k) else dst ! k)"
    using reformat_channel_result [OF bound [OF assms(1)] bound [OF Suc.prems(1)], of f] c by auto
  obtain dst' where rec: "reformat_channels f step frames n (c + 1) src dst1 = Some dst'" "length dst' = length dst"
    and v2: "\<forall>k < length dst. dst' ! k = (if k < frames * step \<and> c + 1 \<le> k mod step then f (src ! k) else dst1 ! k)"
    using Suc.IH [of dst1 "c + 1"] Suc.prems one(2) by auto
  have "dst' ! k = (if k < frames * step \<and> c \<le> k mod step then f (src ! k) else dst ! k)" if k: "k < length dst" for k
  proof -
    have hit: "(c \<le> k \<and> k < c + frames * step \<and> (k - c) mod step = 0) \<longleftrightarrow> (k < frames * step \<and> k mod step = c)"
    proof
      assume a: "c \<le> k \<and> k < c + frames * step \<and> (k - c) mod step = 0"
      then obtain q where q: "k - c = step * q" by (auto simp: dvd_def mod_eq_0_iff_dvd)
      then have kq: "k = c + step * q" using a by linarith
      then have "step * q < step * frames" using a by (simp add: mult.commute)
      then have "q < frames" by simp
      then have "step * q + step \<le> step * frames" by (metis Suc_leI mult_Suc_right mult_le_mono2 add.commute)
      then show "k < frames * step \<and> k mod step = c" using kq c by (simp add: mult.commute)
    next
      assume a: "k < frames * step \<and> k mod step = c"
      then have "c \<le> k" by (metis mod_less_eq_dividend)
      moreover have "(k - c) mod step = 0" using a by (metis minus_mod_eq_mult_div mod_mult_self1_is_0)
      ultimately show "c \<le> k \<and> k < c + frames * step \<and> (k - c) mod step = 0" using a by simp
    qed
    show ?thesis using v1 v2 k hit by auto
  qed
  then show ?case using one rec by auto
qed

lemma reformat_all:
  assumes "frames * ch \<le> length src" "length dst = frames * ch"
  shows "reformat_channels f ch frames ch 0 src dst = Some (map f (take (frames * ch) src))"
proof -
  obtain dst' where d: "reformat_channels f ch frames ch 0 src dst = Some dst'" "length dst' = length dst"
    "\<forall>k < length dst. dst' ! k = (if k < frames * ch \<and> 0 \<le> k mod ch then f (src ! k) else dst ! k)"
    using reformat_channels_result [of frames ch src dst 0 ch f] assms by auto
  then have "dst' = map f (take (frames * ch) src)" using assms by (intro nth_equalityI) auto
  then show ?thesis using d(1) by simp
qed

lemma lpcm_size_of: "lpcm_type_of f = Some i \<Longrightarrow> sample_size_from_format f = Some (of_nat (lpcm_size i))"
  by (cases f) auto

lemma lpcm_size_pos [simp]: "0 < lpcm_size i" "lpcm_size i \<noteq> 0" "lpcm_size i \<le> 4"
  by (cases i; simp)+

text \<open>What a reformatter knows of its types.\<close>

lemma reformatter_create_types:
  assumes "reformatter_create t g = Some r"
  shows "at_channels (rf_out r) = at_channels (rf_in r)"
    "rf_to r = (if g = kAny then rf_from r else the (lpcm_type_of g))"
    "at_sample_size (rf_out r) = of_nat (lpcm_size (rf_to r))" "g \<noteq> kAny"
    "type_ok t \<Longrightarrow> at_sample_size (rf_in r) = of_nat (lpcm_size (rf_from r))"
proof -
  obtain a where a: "st_audio t = Some a" using assms by (auto simp: reformatter_create_def bind_Some_iff)
  obtain i j where ij: "lpcm_instance (at_sample_format a) g = Some (i, j)"
    using assms a by (auto simp: reformatter_create_def bind_Some_iff)
  have g: "g \<noteq> kAny" using assms by (auto simp: reformatter_create_def create_audio_def bind_Some_iff)
  then have j: "lpcm_type_of (at_sample_format a) = Some i" "lpcm_type_of g = Some j"
    using ij by (auto simp: lpcm_instance_def bind_Some_iff)
  have "st_medium t = kAudio" if "type_ok t" using that a
    by (auto simp: type_ok_def details_ok_def st_audio_def split: option.splits stream_details.splits)
  show "at_channels (rf_out r) = at_channels (rf_in r)" "rf_to r = (if g = kAny then rf_from r else the (lpcm_type_of g))"
    "at_sample_size (rf_out r) = of_nat (lpcm_size (rf_to r))" "g \<noteq> kAny"
    using assms a ij g j lpcm_size_of [OF j(2)]
    by (auto simp: reformatter_create_def create_audio_def create_stream_type_def st_audio_def bind_Some_iff)
  show "at_sample_size (rf_in r) = of_nat (lpcm_size (rf_from r))" if "type_ok t"
    using assms a ij that lpcm_size_of [OF j(1)]
    by (auto simp: reformatter_create_def type_ok_def details_ok_def st_audio_def bind_Some_iff
        split: option.splits stream_details.splits)
qed

lemma unat_mult_small: "unat (a :: 'a::len word) * unat b < 2 ^ LENGTH('a) \<Longrightarrow> unat (a * b) = unat a * unat b"
  by (simp add: unat_word_ariths)

lemma bytes_per_frame_small:
  assumes "at_sample_size a = of_nat (lpcm_size s)" "unat (at_channels a) * 4 < 2 ^ 32"
  shows "unat (at_bytes_per_frame a) = lpcm_size s * unat (at_channels a)"
proof -
  have s: "unat (of_nat (lpcm_size s) :: u32) = lpcm_size s" by (cases s) simp_all
  have "lpcm_size s * unat (at_channels a) \<le> 4 * unat (at_channels a)" by (rule mult_right_mono) simp_all
  also have "\<dots> < 2 ^ LENGTH(32)" using assms(2) by simp
  finally have "unat (at_sample_size a) * unat (at_channels a) < 2 ^ LENGTH(32)" using assms(1) s by metis
  then show ?thesis unfolding at_bytes_per_frame_def using assms(1) s unat_mult_small by metis
qed

text \<open>The number of frames and the size of the output buffer.\<close>

lemma output_buffer_size:
  assumes "reformatter_create t g = Some r" "type_ok t" "ch = unat (at_channels (rf_in r))" "0 < ch" "ch * 4 < 2 ^ 32"
    and "unat (pk_size p) = n * ch * lpcm_size (rf_from r)" "0 < n" "n * ch * lpcm_size (rf_to r) < 2 ^ 64"
  shows "\<exists>frames. at_frame_count (rf_in r) (pk_size p) = Some frames \<and> unat frames = n \<and>
    min_buffer_size (rf_out r) frames = of_nat (n * ch * lpcm_size (rf_to r)) \<and>
    unat (min_buffer_size (rf_out r) frames) = n * ch * lpcm_size (rf_to r) \<and> pk_size p \<noteq> 0"
proof -
  note types = reformatter_create_types [OF assms(1)]
  let ?i = "lpcm_size (rf_from r)" and ?j = "lpcm_size (rf_to r)"
  have bi: "unat (at_bytes_per_frame (rf_in r)) = ?i * ch"
    using bytes_per_frame_small [OF types(5) [OF assms(2)]] assms(3,5) by simp
  have bj: "unat (at_bytes_per_frame (rf_out r)) = ?j * ch"
    using bytes_per_frame_small [OF types(3)] assms(3,5) types(1) by simp
  have pos: "0 < ?i * ch" using assms(4) by simp
  define frames where "frames = pk_size p div ucast (at_bytes_per_frame (rf_in r))"
  have size: "unat (pk_size p) = n * (?i * ch)" using assms(6) by (simp add: ac_simps)
  have n: "unat frames = n" using size pos by (simp add: frames_def unat_div unat_ucast_32_64 bi)
  have "unat (pk_size p mod ucast (at_bytes_per_frame (rf_in r))) = 0" using size by (simp add: unat_mod unat_ucast_32_64 bi)
  moreover have "at_bytes_per_frame (rf_in r) \<noteq> 0" using bi pos by (metis less_numeral_extra(3) unat_0)
  ultimately have frames: "at_frame_count (rf_in r) (pk_size p) = Some frames"
    by (simp add: at_frame_count_def frames_def unat_eq_0)
  have prod: "unat frames * unat (ucast (at_bytes_per_frame (rf_out r)) :: u64) = n * ch * ?j"
    unfolding n unat_ucast_32_64 bj by (simp only: ac_simps)
  have "unat (min_buffer_size (rf_out r) frames) = unat frames * unat (ucast (at_bytes_per_frame (rf_out r)) :: u64)"
    unfolding min_buffer_size_def by (rule unat_mult_small) (use assms(8) prod in simp)
  then have out: "unat (min_buffer_size (rf_out r) frames) = n * ch * ?j" using prod by metis
  then have "min_buffer_size (rf_out r) frames = of_nat (n * ch * ?j)" by (metis of_nat_unat ucast_id)
  moreover have "pk_size p \<noteq> 0" using size pos assms(7) by auto
  ultimately show ?thesis using frames n out by blast
qed

lemma transform_whole_frames:
  assumes "reformatter_create t g = Some r" "type_ok t" "ch = unat (at_channels (rf_in r))" "0 < ch" "ch * 4 < 2 ^ 32"
    and "unat (pk_size p) = n * ch * lpcm_size (rf_from r)" "0 < n" "pk_payload p = Some src" "length src = n * ch"
    and "n * ch * lpcm_size (rf_to r) < 2 ^ 64" "allocate (of_nat (n * ch * lpcm_size (rf_to r))) = Some buffer" "length buffer = n * ch"
  shows "\<exists>q. transform_packet fconv allocate r p = Some (True, Some q) \<and>
    pk_payload q = Some (map (copy_sample fconv (rf_from r) (rf_to r)) src) \<and>
    pk_pts q = pk_pts p \<and> pk_pts_rate q = pk_pts_rate p \<and> pk_end_of_stream q = pk_end_of_stream p \<and>
    unat (pk_size q) = n * ch * lpcm_size (rf_to r)"
proof -
  obtain frames where frames: "at_frame_count (rf_in r) (pk_size p) = Some frames" "unat frames = n"
    and out: "unat (min_buffer_size (rf_out r) frames) = n * ch * lpcm_size (rf_to r)" and size: "pk_size p \<noteq> 0"
    and alloc: "allocate (min_buffer_size (rf_out r) frames) = Some buffer"
    using output_buffer_size [OF assms(1-7,10)] assms(11) by metis
  have "unat (min_buffer_size (rf_out r) frames) \<noteq> 0" using out assms(4,7) by simp
  then have "min_buffer_size (rf_out r) frames \<noteq> 0" by (metis unat_0)
  moreover have "reformat_channels (copy_sample fconv (rf_from r) (rf_to r)) ch n ch 0 src buffer =
      Some (map (copy_sample fconv (rf_from r) (rf_to r)) src)"
    using reformat_all [of n ch src buffer "copy_sample fconv (rf_from r) (rf_to r)"] assms(9,12) by simp
  ultimately have "transform_packet fconv allocate r p = Some (True, Some
      \<lparr>pk_pts = pk_pts p, pk_pts_rate = pk_pts_rate p, pk_keyframe = False, pk_end_of_stream = pk_end_of_stream p,
       pk_size = min_buffer_size (rf_out r) frames,
       pk_payload = Some (map (copy_sample fconv (rf_from r) (rf_to r)) src), pk_has_allocator = True, pk_revised = None\<rparr>)"
    using frames alloc size assms(3,8) by (simp add: transform_packet_def packet_create_def new_packet_def Let_def)
  then show ?thesis using out by simp
qed

lemma transform_empty_packet:
  assumes "pk_size p = 0"
  shows "\<exists>q. transform_packet fconv allocate r p = Some (True, Some q) \<and> pk_size q = 0 \<and> pk_payload q = None \<and>
    pk_pts q = pk_pts p \<and> pk_pts_rate q = pk_pts_rate p \<and> pk_end_of_stream q = pk_end_of_stream p"
  using assms by (simp add: transform_packet_def packet_create_def new_packet_def)

lemma transform_starved:
  assumes "reformatter_create t g = Some r" "type_ok t" "ch = unat (at_channels (rf_in r))" "0 < ch" "ch * 4 < 2 ^ 32"
    and "unat (pk_size p) = n * ch * lpcm_size (rf_from r)" "0 < n"
    and "n * ch * lpcm_size (rf_to r) < 2 ^ 64" "allocate (of_nat (n * ch * lpcm_size (rf_to r))) = None"
  shows "transform_packet fconv allocate r p = Some (False, None)"
proof -
  obtain frames where "at_frame_count (rf_in r) (pk_size p) = Some frames"
    "min_buffer_size (rf_out r) frames = of_nat (n * ch * lpcm_size (rf_to r))" "pk_size p \<noteq> 0"
    using output_buffer_size [OF assms(1-7,8)] by blast
  then show ?thesis using assms(9) by (simp add: transform_packet_def Let_def)
qed

text \<open>
  C14. The reformatter turns a packet of whole frames into one with the same time, whose payload is the
  input's, sample by sample converted - for every pair of formats and any number of channels. When the
  allocator has no buffer of the size of the result, it gives no packet and asks to be called again
  with the same input; an empty packet gives an empty one.
\<close>
theorem reformatting_converts_each_sample:
  assumes "reformatter_create t g = Some r" "type_ok t" "ch = unat (at_channels (rf_in r))" "0 < ch" "ch * 4 < 2 ^ 32"
    and "unat (pk_size p) = n * ch * lpcm_size (rf_from r)" "0 < n \<Longrightarrow> pk_payload p = Some src" "length src = n * ch"
    and "n * ch * lpcm_size (rf_to r) < 2 ^ 64"
    and "\<And>buffer. allocate (of_nat (n * ch * lpcm_size (rf_to r))) = Some buffer \<Longrightarrow> length buffer = n * ch"
  shows "if 0 < n \<and> allocate (of_nat (n * ch * lpcm_size (rf_to r))) = None
    then transform_packet fconv allocate r p = Some (False, None)
    else \<exists>q. transform_packet fconv allocate r p = Some (True, Some q) \<and>
      pk_payload q = (if n = 0 then None else Some (map (copy_sample fconv (rf_from r) (rf_to r)) src)) \<and>
      pk_pts q = pk_pts p \<and> pk_pts_rate q = pk_pts_rate p \<and> pk_end_of_stream q = pk_end_of_stream p \<and>
      unat (pk_size q) = n * ch * lpcm_size (rf_to r)"
proof (cases "n = 0")
  case True
  then have "pk_size p = 0" using assms(6) by (simp add: unat_eq_0)
  then show ?thesis using True transform_empty_packet [of p fconv allocate r] by auto
next
  case False
  then show ?thesis
    using transform_whole_frames [OF assms(1-6) _ _ assms(8,9)] transform_starved [OF assms(1-6) _ assms(9)] assms(7,10)
    by (cases "allocate (of_nat (n * ch * lpcm_size (rf_to r)))") simp_all
qed

definition stereo_bytes :: stream_type where
  "stereo_bytes = the (create_audio kAudioEncodingLpcm None kUnsigned8 2 48000)"

theorem reformatting_converts_each_sample_witness:
  "\<exists>r p q. reformatter_create stereo_bytes kSigned16 = Some r \<and>
    transform_packet (\<lambda>_ _ x. x) (\<lambda>n. Some [7, 7, 7, 7]) r p = Some (True, Some q) \<and>
    transform_packet (\<lambda>_ _ x. x) (\<lambda>n. None) r p = Some (False, None) \<and>
    pk_payload p = Some [0, 128, 255, 127] \<and> pk_payload q = Some [-32768, 0, 32512, -256]"
proof -
  define r where "r = the (reformatter_create stereo_bytes kSigned16)"
  have r: "reformatter_create stereo_bytes kSigned16 = Some r" "rf_from r = Lpcm_u8" "rf_to r = Lpcm_i16" "at_channels (rf_in r) = 2"
    by (simp_all add: r_def reformatter_create_def stereo_bytes_def create_audio_def create_stream_type_def st_audio_def
        lpcm_instance_def)
  have ok: "type_ok stereo_bytes"
    by (simp add: stereo_bytes_def create_audio_def create_stream_type_def type_ok_def details_ok_def)
  define p :: "int list packet" where "p = \<lparr>pk_pts = 5, pk_pts_rate = \<lparr>subject_delta = 48000, reference_delta = 1\<rparr>,
     pk_keyframe = False, pk_end_of_stream = False, pk_size = 4, pk_payload = Some [0, 128, 255, 127],
     pk_has_allocator = True, pk_revised = None\<rparr>"
  have p: "pk_size p = 4" "pk_payload p = Some [0, 128, 255, 127]" by (simp_all add: p_def)
  have conv: "map (copy_sample f Lpcm_u8 Lpcm_i16) [0, 128, 255, 127] = [-32768, 0, 32512, -256]" for f
    by (simp add: cast_i16_def)
  have "\<exists>q. transform_packet (\<lambda>_ _ x. x) (\<lambda>n. Some [7, 7, 7, 7]) r p = Some (True, Some q) \<and>
      pk_payload q = Some (map (copy_sample (\<lambda>_ _ x. x) (rf_from r) (rf_to r)) [0, 128, 255, 127])"
    using reformatting_converts_each_sample [OF r(1) ok, of 2 p 2 "[0, 128, 255, 127]" "\<lambda>n. Some [7, 7, 7, 7]" "\<lambda>_ _ x. x"]
      r p by auto
  moreover have "transform_packet (\<lambda>_ _ x. x) (\<lambda>n. None) r p = Some (False, None)"
    using reformatting_converts_each_sample [OF r(1) ok, of 2 p 2 "[0, 128, 255, 127]" "\<lambda>n. None" "\<lambda>_ _ x. x"] r p by simp
  ultimately show ?thesis unfolding r(2,3) conv using r(1) p(2) by blast
qed

section \<open>What the conversions do to a sample\<close>

text \<open>Eight bits survive sixteen, and sixteen lose their lower half.\<close>

lemma widen_then_narrow:
  "in_lpcm Lpcm_u8 x \<Longrightarrow> copy_sample f Lpcm_i16 Lpcm_u8 (copy_sample f Lpcm_u8 Lpcm_i16 x) = x"
proof -
  have "list_all (\<lambda>x. cast_u8 (cast_i16 (cast_i16 (x XOR 0x80) * 2 ^ 8) div 2 ^ 8 XOR 0x80) = x) [0..255]"
    by code_simp
  then have "\<forall>x \<in> {0..255}. cast_u8 (cast_i16 (cast_i16 (x XOR 0x80) * 2 ^ 8) div 2 ^ 8 XOR 0x80) = x"
    by (simp only: list_all_iff set_upto)
  moreover assume "in_lpcm Lpcm_u8 x"
  then have "x \<in> {0..255}" by simp
  ultimately show ?thesis by simp
qed

text \<open>
  Every sample of a 24-bit stream becomes the same, most negative sample when it is converted to sixteen
  or to eight bits: the bounds of \<open>Clamp\<close> are the wrong way round.
\<close>
theorem signed_24_conversion_is_constant:
  "copy_sample f Lpcm_i32 Lpcm_i16 x = - 32768 \<and> copy_sample f Lpcm_i32 Lpcm_u8 x = 0"
proof -
  have "clamp_i32 x = - (2 ^ 23) \<or> clamp_i32 x = 2 ^ 23" by (simp add: clamp_i32_def clamp_def)
  moreover have "cast_i16 (- (2 ^ 23) div 2 ^ 8) = - 32768" "cast_i16 (2 ^ 23 div 2 ^ 8) = - 32768"
    "cast_u8 (- (2 ^ 23) div 2 ^ 16 XOR 0x80) = 0" "cast_u8 (2 ^ 23 div 2 ^ 16 XOR 0x80) = 0"
    by code_simp+
  ultimately show ?thesis by (elim disjE) simp_all
qed

text \<open>The lower half of the 8-bit samples leaves the range of 24 bits, instead of becoming negative.\<close>

lemma unsigned_8_to_24_leaves_range: "copy_sample f Lpcm_u8 Lpcm_i32 0x7f = 0xff0000 \<and> (2 :: int) ^ 23 < 0xff0000"
  by simp

section \<open>Interleaving\<close>

lemma interleave_channel_result:
  assumes "i + n \<le> length src" "n = 0 \<or> j + (n - 1) * step < length dst" "0 < step"
  shows "\<exists>dst'. interleave_channel step n i j src dst = Some dst' \<and> length dst' = length dst \<and>
    (\<forall>m < n. dst' ! (j + m * step) = src ! (i + m)) \<and>
    (\<forall>k < length dst. (\<forall>m < n. k \<noteq> j + m * step) \<longrightarrow> dst' ! k = dst ! k)"
  using assms
proof (induction n arbitrary: i j dst)
  case (Suc n)
  have j: "i < length src" "j < length dst" using Suc.prems(1,2) by auto
  have next2: "n = 0 \<or> j + step + (n - 1) * step < length (dst[j := src ! i])"
    using Suc.prems by (cases n) simp_all
  obtain dst' where rec: "interleave_channel step n (i + 1) (j + step) src (dst[j := src ! i]) = Some dst'"
    "length dst' = length dst" and hit: "\<forall>m < n. dst' ! (j + step + m * step) = src ! (i + 1 + m)"
    and miss: "\<forall>k < length dst. (\<forall>m < n. k \<noteq> j + step + m * step) \<longrightarrow> dst' ! k = dst[j := src ! i] ! k"
    using Suc.IH [of "i + 1" "j + step" "dst[j := src ! i]"] next2 Suc.prems by auto
  have "dst' ! (j + m * step) = src ! (i + m)" if "m < Suc n" for m
  proof (cases m)
    case 0
    have "j \<noteq> j + step + k * step" for k using Suc.prems(3) by simp
    then show ?thesis using miss j 0 by auto
  next
    case (Suc k)
    then show ?thesis using hit that by (auto simp: algebra_simps)
  qed
  moreover have "dst' ! k = dst ! k" if k: "k < length dst" "\<forall>m < Suc n. k \<noteq> j + m * step" for k
  proof -
    have "k \<noteq> j" using k(2) by (metis add_0_right mult_0 zero_less_Suc)
    moreover have "k \<noteq> j + step + m * step" if "m < n" for m
      using k(2) [rule_format, of "Suc m"] that by (simp add: algebra_simps)
    ultimately show ?thesis using miss k(1) by simp
  qed
  ultimately show ?case using rec j by (auto simp: nth_opt_def)
qed simp


lemma interleave_channels_result:
  assumes "frames \<le> stride" "i + n * stride \<le> length src" "frames * step \<le> length dst" "j + n \<le> step"
  shows "\<exists>dst'. interleave_channels step stride frames n i j src dst = Some dst' \<and> length dst' = length dst \<and>
    (\<forall>c < n. \<forall>m < frames. dst' ! (m * step + (j + c)) = src ! (i + c * stride + m)) \<and>
    (\<forall>k < length dst. (\<forall>c < n. \<forall>m < frames. k \<noteq> m * step + (j + c)) \<longrightarrow> dst' ! k = dst ! k)"
  using assms(2-)
proof (induction n arbitrary: i j dst)
  case (Suc n)
  have step: "0 < step" "j < step" using Suc.prems(3) by simp_all
  have "frames = 0 \<or> j + (frames - 1) * step < length dst" using Suc.prems(2) step by (cases frames) auto
  moreover have "i + frames \<le> length src" using Suc.prems(1) assms(1) by simp
  ultimately obtain dst1 where one: "interleave_channel step frames i j src dst = Some dst1" "length dst1 = length dst"
    and hit: "\<forall>m < frames. dst1 ! (j + m * step) = src ! (i + m)"
    and miss: "\<forall>k < length dst. (\<forall>m < frames. k \<noteq> j + m * step) \<longrightarrow> dst1 ! k = dst ! k"
    using interleave_channel_result [of i frames src j step dst] step by auto
  obtain dst' where rec: "interleave_channels step stride frames n (i + stride) (j + 1) src dst1 = Some dst'" "length dst' = length dst"
    and hit2: "\<forall>c < n. \<forall>m < frames. dst' ! (m * step + (j + 1 + c)) = src ! (i + stride + c * stride + m)"
    and miss2: "\<forall>k < length dst. (\<forall>c < n. \<forall>m < frames. k \<noteq> m * step + (j + 1 + c)) \<longrightarrow> dst' ! k = dst1 ! k"
    using Suc.IH [of "i + stride" dst1 "j + 1"] Suc.prems one(2) by auto
  have "dst' ! (m * step + (j + c)) = src ! (i + c * stride + m)" if cm: "c < Suc n" "m < frames" for c m
  proof (cases c)
    case 0
    have "m * step + j \<noteq> m' * step + (j + 1 + c')" if "c' < n" for m' c'
    proof
      assume "m * step + j = m' * step + (j + 1 + c')"
      then have "(m * step + j) mod step = (m' * step + (j + 1 + c')) mod step" by (rule arg_cong)
      then have "j mod step = (j + 1 + c') mod step" unfolding mod_mult_self3 .
      then show False using that Suc.prems(3) step by simp
    qed
    moreover have "m * step + j < length dst"
    proof -
      have "m * step + step \<le> frames * step" using cm(2) by (metis Suc_leI add.commute mult_Suc mult_le_mono1)
      then show ?thesis using step Suc.prems(2) by linarith
    qed
    ultimately have "dst' ! (m * step + j) = dst1 ! (m * step + j)" using miss2 by blast
    then show ?thesis using hit cm(2) 0 by (simp add: add.commute)
  next
    case (Suc c')
    then show ?thesis using hit2 [rule_format, of c' m] cm by (simp add: algebra_simps)
  qed
  moreover have "dst' ! k = dst ! k" if k: "k < length dst" "\<forall>c < Suc n. \<forall>m < frames. k \<noteq> m * step + (j + c)" for k
  proof -
    have "k \<noteq> m * step + (j + 1 + c)" if "c < n" "m < frames" for c m
      using k(2) [rule_format, of "Suc c" m] that by simp
    moreover have "k \<noteq> j + m * step" if "m < frames" for m using k(2) [rule_format, of 0 m] that by (simp add: add.commute)
    ultimately show ?thesis using miss miss2 k(1) by simp
  qed
  ultimately show ?case using one rec by auto
qed simp

text \<open>
  C16. Interleaving is a transposition: sample \<open>m\<close> of channel \<open>c\<close>, which planar audio keeps at
  \<open>c * stride + m\<close>, becomes channel \<open>c\<close> of frame \<open>m\<close>; what the buffer holds behind the last frame is
  left as it was.
\<close>
theorem interleaving_transposes:
  assumes "ch = unat (at_channels (lu_type u))" "0 < ch" "ch * 4 < 2 ^ 32" "at_sample_size (lu_type u) = of_nat (lpcm_size (lu_sample u))"
    and "unat in_bytes = stride * ch * lpcm_size (lu_sample u)" "0 < unat frames" "unat frames \<le> stride"
    and "length src = stride * ch" "unat frames * ch \<le> length dst"
  shows "\<exists>dst'. interleave u src in_bytes dst frames = Some dst' \<and> length dst' = length dst \<and>
    (\<forall>c < ch. \<forall>m < unat frames. dst' ! (m * ch + c) = src ! (c * stride + m)) \<and>
    drop (unat frames * ch) dst' = drop (unat frames * ch) dst"
proof -
  let ?s = "lpcm_size (lu_sample u)"
  have b: "unat (at_bytes_per_frame (lu_type u)) = ?s * ch" using bytes_per_frame_small [OF assms(4)] assms(1,3) by simp
  have pos: "0 < ?s * ch" using assms(2) by simp
  have size: "unat in_bytes = stride * (?s * ch)" using assms(5) by (simp add: ac_simps)
  have nz: "at_bytes_per_frame (lu_type u) \<noteq> 0" "frames \<noteq> 0" "at_channels (lu_type u) \<noteq> 0" "in_bytes \<noteq> 0"
    using b pos assms(1,2,6,7) size by auto
  have "unat (in_bytes mod ucast (at_bytes_per_frame (lu_type u))) = 0" by (simp add: size unat_mod unat_ucast_32_64 b)
  then have m: "in_bytes mod ucast (at_bytes_per_frame (lu_type u)) = 0" by (simp add: unat_eq_0)
  have d: "unat (in_bytes div ucast (at_bytes_per_frame (lu_type u))) = stride" using pos by (simp add: size unat_div unat_ucast_32_64 b)
  have le: "unat frames * (?s * ch) \<le> unat in_bytes" unfolding size using assms(7) by (rule mult_le_mono1)
  then have "unat (frames * ucast (at_bytes_per_frame (lu_type u))) = unat frames * (?s * ch)"
    using unat_mult_small [of frames "ucast (at_bytes_per_frame (lu_type u))"] order_le_less_trans [OF le unsigned_less]
    by (simp only: unat_ucast_32_64 b)
  then have ge: "frames * ucast (at_bytes_per_frame (lu_type u)) \<le> in_bytes" using le by (simp add: word_le_nat_alt)
  have "interleave u src in_bytes dst frames = interleave_channels ch stride (unat frames) ch 0 0 src dst"
    using nz m d ge assms(1) by (simp add: interleave_def Let_def)
  moreover obtain dst' where d: "interleave_channels ch stride (unat frames) ch 0 0 src dst = Some dst'" "length dst' = length dst"
    "\<forall>c < ch. \<forall>m < unat frames. dst' ! (m * ch + c) = src ! (c * stride + m)"
    and rest: "\<forall>k < length dst. (\<forall>c < ch. \<forall>m < unat frames. k \<noteq> m * ch + c) \<longrightarrow> dst' ! k = dst ! k"
    using interleave_channels_result [of "unat frames" stride 0 ch src ch dst 0] assms(7-9) by (auto simp: mult.commute)
  have "drop (unat frames * ch) dst' = drop (unat frames * ch) dst"
  proof (rule nth_equalityI)
    fix k assume k: "k < length (drop (unat frames * ch) dst')"
    have "unat frames * ch + k \<noteq> m * ch + c" if "c < ch" "m < unat frames" for c m
    proof -
      have "m * ch + c < Suc m * ch" using that(1) by simp
      also have "\<dots> \<le> unat frames * ch" using that(2) by (intro mult_le_mono1) simp
      finally show ?thesis by simp
    qed
    then show "drop (unat frames * ch) dst' ! k = drop (unat frames * ch) dst ! k"
      using k rest d(2) assms(9) by simp
  qed (simp add: d(2))
  ultimately show ?thesis using d by simp
qed

theorem interleaving_transposes_witness:
  "\<exists>dst'. interleave \<lparr>lu_type = \<lparr>at_sample_format = kSigned16, at_channels = 2, at_frames_per_second = 48000, at_sample_size = 2\<rparr>,
      lu_sample = Lpcm_i16\<rparr> [1, 2, 0, 5, 6, 0] 12 [9, 9, 9, 9] 2 = Some dst' \<and> dst' = [1, 5, 2, 6]"
proof -
  let ?u = "\<lparr>lu_type = \<lparr>at_sample_format = kSigned16, at_channels = 2, at_frames_per_second = 48000, at_sample_size = 2\<rparr>, lu_sample = Lpcm_i16\<rparr>"
  obtain dst' where d: "interleave ?u [1, 2, 0, 5, 6, 0] 12 [9, 9, 9, 9] 2 = Some dst'" "length dst' = 4"
    and v: "\<forall>c < 2. \<forall>m < 2. dst' ! (m * 2 + c) = [1, 2, 0, 5, 6, 0] ! (c * 3 + m)"
    using interleaving_transposes [of 2 ?u 12 3 2 "[1, 2, 0, 5, 6, 0]" "[9, 9, 9, 9]"] by auto
  have "dst' ! 0 = 1" "dst' ! 1 = 5" "dst' ! 2 = 2" "dst' ! 3 = 6"
    using v [rule_format, of 0 0] v [rule_format, of 1 0] v [rule_format, of 0 1] v [rule_format, of 1 1] by simp_all
  then have "dst' = [1, 5, 2, 6]" using d(2) by (auto simp: nth_equalityI less_Suc_eq numeral_eq_Suc intro!: nth_equalityI)
  then show ?thesis using d(1) by simp
qed

end
