(* ===== verification/Graph_Stages.thy ===== *)
theory Graph_Stages
  imports Framework_Packet
begin

text \<open>
  The stages of the framework's graph (src/framework/stages, refs.h): the inputs and outputs by which
  they hand packets down and demand up, and what each kind of stage does when the engine updates,
  prepares or flushes it.

  A stage is a number, its address; one that is not among the \<open>stages\<close> has been deleted, and touching it
  fails. The objects a stage hosts - transforms, sources and sinks - are parameters: the operations in
  \<open>parts\<close>, on a common state of their own. An allocator is a number.
\<close>

section \<open>Inputs and outputs\<close>

datatype demand = kNegative | kNeutral | kPositive

type_synonym connector = "nat \<times> nat"

record 'p input_state =
  in_mate :: "connector option"
  in_prepared :: bool
  in_packet :: "'p packet option"

record output_state =
  out_mate :: "connector option"
  out_demand :: demand
  out_copy_allocator :: "nat option"

definition new_input :: "'p input_state" where
  "new_input = \<lparr>in_mate = None, in_prepared = False, in_packet = None\<rparr>"

definition new_output :: output_state where
  "new_output = \<lparr>out_mate = None, out_demand = kNegative, out_copy_allocator = None\<rparr>"

text \<open>What each kind of stage keeps.\<close>

datatype 'p stage_kind =
    TransformStage (tr_allocator: "nat option") (tr_new: bool)
  | ActiveSinkStage (sink_demand: demand)
  | ActiveSourceStage (src_prepared: bool) (src_packets: "'p packet list")
  | MultistreamSourceStage (cached_packet: "'p packet option") (cached_index: nat) (ended_streams: nat)
  | ActiveMultistreamSourceStage (queues: "'p packet list list") (ended: nat) (request_outstanding: bool)
  | ActiveMultistreamSinkStage (demands: "demand list") (allocated: "bool list") (unallocated: "nat list") (pending: "nat list")

record 'p stage =
  kind :: "'p stage_kind"
  inputs :: "'p input_state list"
  outputs :: "output_state list"
  in_supply_backlog :: bool
  in_demand_backlog :: bool
  has_update_callback :: bool

record ('p, 'e) parts =
  do_transform :: "nat \<Rightarrow> 'p packet \<Rightarrow> bool \<Rightarrow> nat \<Rightarrow> 'e \<Rightarrow> (bool \<times> 'p packet option \<times> 'e) option"
  do_sink :: "nat \<Rightarrow> nat \<Rightarrow> 'p packet \<Rightarrow> 'e \<Rightarrow> demand \<times> 'e"
  do_pull :: "nat \<Rightarrow> 'e \<Rightarrow> 'p packet option \<times> nat \<times> 'e"
  do_request :: "nat \<Rightarrow> 'e \<Rightarrow> 'e"
  do_downstream_demand :: "nat \<Rightarrow> demand \<Rightarrow> 'e \<Rightarrow> 'e"
  do_set_allocator :: "nat \<Rightarrow> nat option \<Rightarrow> 'e \<Rightarrow> 'e"
  do_flush :: "nat \<Rightarrow> 'e \<Rightarrow> 'e"
  can_accept_allocator :: "nat \<Rightarrow> bool"
  sink_allocator :: "nat \<Rightarrow> nat option"
  allocates :: "nat \<Rightarrow> u64 \<Rightarrow> 'e \<Rightarrow> bool"

record ('p, 'e) graph =
  stage_at :: "nat \<Rightarrow> 'p stage"
  stages :: "nat list"
  sources :: "nat list"
  sinks :: "nat list"
  next_stage :: nat
  supply_backlog :: "nat list"
  demand_backlog :: "nat list"
  packets_produced :: bool
  world :: 'e

definition get_stage :: "nat \<Rightarrow> ('p, 'e) graph \<Rightarrow> 'p stage option" where
  "get_stage s g = (if s \<in> set (stages g) then Some (stage_at g s) else None)"

definition upd_stage :: "nat \<Rightarrow> ('p stage \<Rightarrow> 'p stage) \<Rightarrow> ('p, 'e) graph \<Rightarrow> ('p, 'e) graph" where
  "upd_stage s f g = g\<lparr>stage_at := (stage_at g)(s := f (stage_at g s))\<rparr>"

text \<open>\<open>InputRef::actual\<close> and \<open>OutputRef::actual\<close>, with the index checks of the stages.\<close>

definition get_input :: "connector \<Rightarrow> ('p, 'e) graph \<Rightarrow> 'p input_state option" where
  "get_input r g = do { st \<leftarrow> get_stage (fst r) g; nth_opt (inputs st) (snd r) }"

definition get_output :: "connector \<Rightarrow> ('p, 'e) graph \<Rightarrow> output_state option" where
  "get_output r g = do { st \<leftarrow> get_stage (fst r) g; nth_opt (outputs st) (snd r) }"

definition upd_input :: "connector \<Rightarrow> ('p input_state \<Rightarrow> 'p input_state) \<Rightarrow> ('p, 'e) graph \<Rightarrow> ('p, 'e) graph" where
  "upd_input r f = upd_stage (fst r) (\<lambda>st. st\<lparr>inputs := (inputs st)[snd r := f (inputs st ! snd r)]\<rparr>)"

definition upd_output :: "connector \<Rightarrow> (output_state \<Rightarrow> output_state) \<Rightarrow> ('p, 'e) graph \<Rightarrow> ('p, 'e) graph" where
  "upd_output r f = upd_stage (fst r) (\<lambda>st. st\<lparr>outputs := (outputs st)[snd r := f (outputs st ! snd r)]\<rparr>)"

definition upd_kind :: "nat \<Rightarrow> 'p stage_kind \<Rightarrow> ('p, 'e) graph \<Rightarrow> ('p, 'e) graph" where
  "upd_kind s k = upd_stage s (\<lambda>st. st\<lparr>kind := k\<rparr>)"

section \<open>The engine's backlogs\<close>

definition push_to_supply_backlog :: "nat \<Rightarrow> ('p, 'e) graph \<Rightarrow> ('p, 'e) graph" where
  "push_to_supply_backlog s g =
     (let g = g\<lparr>packets_produced := True\<rparr>
      in if in_supply_backlog (stage_at g s) then g
         else upd_stage s (\<lambda>st. st\<lparr>in_supply_backlog := True\<rparr>) (g\<lparr>supply_backlog := supply_backlog g @ [s]\<rparr>))"

definition push_to_demand_backlog :: "nat \<Rightarrow> ('p, 'e) graph \<Rightarrow> ('p, 'e) graph" where
  "push_to_demand_backlog s g =
     (if in_demand_backlog (stage_at g s) then g
      else upd_stage s (\<lambda>st. st\<lparr>in_demand_backlog := True\<rparr>) (g\<lparr>demand_backlog := s # demand_backlog g\<rparr>))"

section \<open>Packets down, demand up\<close>

definition output_demand :: "connector \<Rightarrow> ('p, 'e) graph \<Rightarrow> demand option" where
  "output_demand r g = do {
     out \<leftarrow> get_output r g;
     m \<leftarrow> out_mate out;
     (if out_demand out = kNegative then Some kNegative
      else do {
        inp \<leftarrow> get_input m g;
        Some (if in_packet inp \<noteq> None then kNegative else out_demand out)
      })
   }"

text \<open>\<open>Input::SetDemand\<close> with \<open>Output::UpdateDemandFromInput\<close>.\<close>

definition input_set_demand :: "connector \<Rightarrow> demand \<Rightarrow> ('p, 'e) graph \<Rightarrow> ('p, 'e) graph option" where
  "input_set_demand r d g = do {
     inp \<leftarrow> get_input r g;
     m \<leftarrow> in_mate inp;
     out \<leftarrow> get_output m g;
     Some (if out_demand out = d then g
           else push_to_demand_backlog (fst m) (upd_output m (\<lambda>x. x\<lparr>out_demand := d\<rparr>) g))
   }"

definition supply_packet_from_output :: "connector \<Rightarrow> 'p packet \<Rightarrow> ('p, 'e) graph \<Rightarrow> ('p, 'e) graph option" where
  "supply_packet_from_output r p g = do {
     inp \<leftarrow> get_input r g;
     dcheck (in_packet inp = None);
     Some (upd_input r (\<lambda>x. x\<lparr>in_packet := Some p\<rparr>) g)
   }"

text \<open>A packet is copied when the consumer insists on an allocator; if that is starved, it is dropped.\<close>

definition copied_packet :: "('p, 'e) parts \<Rightarrow> nat option \<Rightarrow> 'p packet \<Rightarrow> 'e \<Rightarrow> 'p packet option option" where
  "copied_packet P allocator p w =
     (case allocator of
        None \<Rightarrow> Some (Some p)
      | Some a \<Rightarrow>
          if pk_size p = 0
          then map_option Some (packet_create (pk_pts p) (pk_pts_rate p) (pk_keyframe p) (pk_end_of_stream p) 0 None True)
          else if \<not> allocates P a (pk_size p) w then Some None
          else map_option Some (packet_create (pk_pts p) (pk_pts_rate p) (pk_keyframe p) (pk_end_of_stream p)
                 (pk_size p) (pk_payload p) True))"

definition output_supply_packet :: "('p, 'e) parts \<Rightarrow> connector \<Rightarrow> 'p packet \<Rightarrow> ('p, 'e) graph \<Rightarrow> ('p, 'e) graph option" where
  "output_supply_packet P r p g = do {
     out \<leftarrow> get_output r g;
     m \<leftarrow> out_mate out;
     q \<leftarrow> copied_packet P (out_copy_allocator out) p (world g);
     (case q of
        None \<Rightarrow> Some g
      | Some q \<Rightarrow> map_option (push_to_supply_backlog (fst m)) (supply_packet_from_output m q g))
   }"

section \<open>Updating a stage\<close>

definition take_packet :: "connector \<Rightarrow> ('p, 'e) graph \<Rightarrow> ('p, 'e) graph" where
  "take_packet r = upd_input r (\<lambda>x. x\<lparr>in_packet := None\<rparr>)"

text \<open>One turn of the loop of a transform; the result has whether there was one.\<close>

definition transform_turn :: "('p, 'e) parts \<Rightarrow> nat \<Rightarrow> nat \<Rightarrow> ('p, 'e) graph \<Rightarrow> (bool \<times> ('p, 'e) graph) option" where
  "transform_turn P s a g = do {
     inp \<leftarrow> get_input (s, 0) g;
     (case in_packet inp of
        None \<Rightarrow> Some (False, g)
      | Some p \<Rightarrow> do {
          d \<leftarrow> output_demand (s, 0) g;
          (if d = kNegative then Some (False, g)
           else do {
             (finished, q, w) \<leftarrow> do_transform P s p (tr_new (kind (stage_at g s))) a (world g);
             let g = g\<lparr>world := w\<rparr>;
             let g = (if finished then take_packet (s, 0) g else g);
             let g = upd_kind s (TransformStage (Some a) finished) g;
             g \<leftarrow> (case q of None \<Rightarrow> Some g | Some q \<Rightarrow> output_supply_packet P (s, 0) q g);
             Some (True, g)
           })
        })
   }"

partial_function (option) transform_loop :: "('p, 'e) parts \<Rightarrow> nat \<Rightarrow> nat \<Rightarrow> ('p, 'e) graph \<Rightarrow> ('p, 'e) graph option" where
  "transform_loop P s a g =
     Option.bind (transform_turn P s a g) (\<lambda>(more, g). if more then transform_loop P s a g else Some g)"

definition transform_update :: "('p, 'e) parts \<Rightarrow> nat \<Rightarrow> ('p, 'e) graph \<Rightarrow> ('p, 'e) graph option" where
  "transform_update P s g = do {
     a \<leftarrow> tr_allocator (kind (stage_at g s));
     g \<leftarrow> transform_loop P s a g;
     d \<leftarrow> output_demand (s, 0) g;
     input_set_demand (s, 0) d g
   }"

definition active_sink_update :: "('p, 'e) parts \<Rightarrow> nat \<Rightarrow> ('p, 'e) graph \<Rightarrow> ('p, 'e) graph option" where
  "active_sink_update P s g = do {
     inp \<leftarrow> get_input (s, 0) g;
     let g = (case in_packet inp of
                None \<Rightarrow> g
              | Some p \<Rightarrow> let (d, w) = do_sink P s 0 p (world g)
                          in upd_kind s (ActiveSinkStage d) (take_packet (s, 0) (g\<lparr>world := w\<rparr>)));
     input_set_demand (s, 0) (sink_demand (kind (stage_at g s))) g
   }"

definition active_source_update :: "('p, 'e) parts \<Rightarrow> nat \<Rightarrow> ('p, 'e) graph \<Rightarrow> ('p, 'e) graph option" where
  "active_source_update P s g = do {
     d \<leftarrow> output_demand (s, 0) g;
     (case src_packets (kind (stage_at g s)) of
        p # ps \<Rightarrow>
          if d \<noteq> kNegative then do {
            g \<leftarrow> output_supply_packet P (s, 0) p g;
            let g = upd_kind s (ActiveSourceStage (src_prepared (kind (stage_at g s))) ps) g;
            Some (g\<lparr>world := do_downstream_demand P s kNegative (world g)\<rparr>)
          } else Some (g\<lparr>world := do_downstream_demand P s d (world g)\<rparr>)
      | [] \<Rightarrow> Some (g\<lparr>world := do_downstream_demand P s d (world g)\<rparr>))
   }"

text \<open>\<open>HasPositiveDemand\<close> stops at the first output with positive demand.\<close>

fun has_positive_demand :: "nat \<Rightarrow> nat list \<Rightarrow> ('p, 'e) graph \<Rightarrow> bool option" where
  "has_positive_demand s [] g = Some False"
| "has_positive_demand s (i # is) g = do {
     d \<leftarrow> output_demand (s, i) g;
     (if d = kPositive then Some True else has_positive_demand s is g)
   }"

definition multistream_supply :: "('p, 'e) parts \<Rightarrow> nat \<Rightarrow> ('p, 'e) graph \<Rightarrow> ('p, 'e) graph option" where
  "multistream_supply P s g =
     (case cached_packet (kind (stage_at g s)) of
        None \<Rightarrow> Some g
      | Some p \<Rightarrow> do {
          positive \<leftarrow> has_positive_demand s [0..<length (outputs (stage_at g s))] g;
          (if \<not> positive then Some g
           else do {
             let i = cached_index (kind (stage_at g s));
             dcheck (i < length (outputs (stage_at g s)));
             d \<leftarrow> output_demand (s, i) g;
             (if d = kNegative then Some g
              else output_supply_packet P (s, i) p
                (upd_kind s (MultistreamSourceStage None i (ended_streams (kind (stage_at g s)))) g))
           })
        })"

definition multistream_turn :: "('p, 'e) parts \<Rightarrow> nat \<Rightarrow> ('p, 'e) graph \<Rightarrow> (bool \<times> ('p, 'e) graph) option" where
  "multistream_turn P s g = do {
     g \<leftarrow> multistream_supply P s g;
     (if cached_packet (kind (stage_at g s)) \<noteq> None then Some (False, g)
      else if ended_streams (kind (stage_at g s)) = length (outputs (stage_at g s)) then Some (False, g)
      else do {
        let (q, i, w) = do_pull P s (world g);
        p \<leftarrow> q;
        dcheck (i < length (outputs (stage_at g s)));
        let n = ended_streams (kind (stage_at g s)) + (if pk_end_of_stream p then 1 else 0);
        Some (True, upd_kind s (MultistreamSourceStage (Some p) i n) (g\<lparr>world := w\<rparr>))
      })
   }"

partial_function (option) multistream_source_update :: "('p, 'e) parts \<Rightarrow> nat \<Rightarrow> ('p, 'e) graph \<Rightarrow> ('p, 'e) graph option" where
  "multistream_source_update P s g =
     Option.bind (multistream_turn P s g) (\<lambda>(more, g). if more then multistream_source_update P s g else Some g)"

text \<open>The loop over the outputs of an active multistream source; the result has whether a packet is needed.\<close>

fun multistream_outputs :: "('p, 'e) parts \<Rightarrow> nat \<Rightarrow> nat list \<Rightarrow> bool \<Rightarrow> ('p, 'e) graph \<Rightarrow> (bool \<times> ('p, 'e) graph) option" where
  "multistream_outputs P s [] need g = Some (need, g)"
| "multistream_outputs P s (i # is) need g = do {
     let k = kind (stage_at g s);
     d \<leftarrow> output_demand (s, i) g;
     (case queues k ! i of
        [] \<Rightarrow> multistream_outputs P s is (need \<or> d = kPositive) g
      | p # ps \<Rightarrow>
          if d \<noteq> kNegative then do {
            g \<leftarrow> output_supply_packet P (s, i) p g;
            multistream_outputs P s is need
              (upd_kind s (ActiveMultistreamSourceStage ((queues k)[i := ps]) (ended k) (request_outstanding k)) g)
          } else multistream_outputs P s is need g)
   }"

definition active_multistream_source_update :: "('p, 'e) parts \<Rightarrow> nat \<Rightarrow> ('p, 'e) graph \<Rightarrow> ('p, 'e) graph option" where
  "active_multistream_source_update P s g = do {
     dcheck (length (outputs (stage_at g s)) = length (queues (kind (stage_at g s))));
     (need, g) \<leftarrow> multistream_outputs P s [0..<length (outputs (stage_at g s))] False g;
     let k = kind (stage_at g s);
     Some (if need \<and> \<not> request_outstanding k
           then upd_kind s (ActiveMultistreamSourceStage (queues k) (ended k) True) (g\<lparr>world := do_request P s (world g)\<rparr>)
           else g)
   }"

text \<open>The loop over the pending inputs of a multistream sink. An input whose packet was taken stays at the
  iterator until it is seen to have none, unless the sink wants no more from it.\<close>

definition pending_turn ::
    "('p, 'e) parts \<Rightarrow> nat \<Rightarrow> nat \<Rightarrow> ('p, 'e) graph \<Rightarrow> (bool \<times> bool \<times> ('p, 'e) graph) option" where
  "pending_turn P s i g = do {
     let k = kind (stage_at g s);
     inp \<leftarrow> get_input (s, i) g;
     (case in_packet inp of
        Some p \<Rightarrow> do {
          let (d, w) = do_sink P s i p (world g);
          let g = upd_kind s (ActiveMultistreamSinkStage ((demands k)[i := d]) (allocated k) (unallocated k) (pending k))
                    (take_packet (s, i) (g\<lparr>world := w\<rparr>));
          g \<leftarrow> input_set_demand (s, i) d g;
          Some (d = kNegative, d = kNegative, g)
        }
      | None \<Rightarrow> do {
          g \<leftarrow> input_set_demand (s, i) (demands k ! i) g;
          Some (True, False, g)
        })
   }"

text \<open>\<open>kept\<close> are the inputs before the iterator.\<close>

partial_function (option) pending_loop :: "('p, 'e) parts \<Rightarrow> nat \<Rightarrow> nat list \<Rightarrow> nat list \<Rightarrow> ('p, 'e) graph \<Rightarrow> (nat list \<times> ('p, 'e) graph) option" where
  "pending_loop P s kept rest g =
     (case rest of
        [] \<Rightarrow> Some (kept, g)
      | i # is \<Rightarrow> Option.bind (pending_turn P s i g) (\<lambda>(advance, erase, g).
          if erase then pending_loop P s kept is g
          else if advance then pending_loop P s (kept @ [i]) is g
          else pending_loop P s kept rest g))"

definition active_multistream_sink_update :: "('p, 'e) parts \<Rightarrow> nat \<Rightarrow> ('p, 'e) graph \<Rightarrow> ('p, 'e) graph option" where
  "active_multistream_sink_update P s g = do {
     (kept, g) \<leftarrow> pending_loop P s [] (pending (kind (stage_at g s))) g;
     let k = kind (stage_at g s);
     Some (upd_kind s (ActiveMultistreamSinkStage (demands k) (allocated k) (unallocated k) kept) g)
   }"

definition stage_update :: "('p, 'e) parts \<Rightarrow> nat \<Rightarrow> ('p, 'e) graph \<Rightarrow> ('p, 'e) graph option" where
  "stage_update P s g = do {
     st \<leftarrow> get_stage s g;
     (case kind st of
        TransformStage a n \<Rightarrow> transform_update P s g
      | ActiveSinkStage d \<Rightarrow> active_sink_update P s g
      | ActiveSourceStage r ps \<Rightarrow> active_source_update P s g
      | MultistreamSourceStage c i n \<Rightarrow> multistream_source_update P s g
      | ActiveMultistreamSourceStage qs n b \<Rightarrow> active_multistream_source_update P s g
      | ActiveMultistreamSinkStage ds al un pe \<Rightarrow> active_multistream_sink_update P s g)
   }"

section \<open>Preparing and flushing a stage\<close>

text \<open>\<open>PayloadAllocator::GetDefault\<close>.\<close>

definition default_allocator :: nat where "default_allocator = 0"

text \<open>\<open>PrepareInput\<close> gives the allocator the upstream output must use, if any; sources have no inputs.\<close>

definition prepare_input :: "('p, 'e) parts \<Rightarrow> connector \<Rightarrow> ('p, 'e) graph \<Rightarrow> nat option option" where
  "prepare_input P r g = do {
     st \<leftarrow> get_stage (fst r) g;
     (case kind st of
        TransformStage a n \<Rightarrow> do { dcheck (snd r = 0); Some None }
      | ActiveSinkStage d \<Rightarrow> do { dcheck (snd r = 0); Some (sink_allocator P (fst r)) }
      | ActiveMultistreamSinkStage ds al un pe \<Rightarrow> Some None
      | _ \<Rightarrow> None)
   }"

text \<open>\<open>Output::SetCopyAllocator\<close>.\<close>

definition set_copy_allocator :: "connector \<Rightarrow> nat option \<Rightarrow> ('p, 'e) graph \<Rightarrow> ('p, 'e) graph option" where
  "set_copy_allocator r a g = do {
     out \<leftarrow> get_output r g;
     dcheck (out_mate out \<noteq> None);
     Some (upd_output r (\<lambda>x. x\<lparr>out_copy_allocator := a\<rparr>) g)
   }"

text \<open>The operations on an output and on an input give the connectors they call back with: the stage's
  other side, which is to be visited next.\<close>

definition prepare_output :: "('p, 'e) parts \<Rightarrow> connector \<Rightarrow> nat option \<Rightarrow> ('p, 'e) graph \<Rightarrow> (nat list \<times> ('p, 'e) graph) option" where
  "prepare_output P r allocator g = do {
     st \<leftarrow> get_stage (fst r) g;
     (case kind st of
        TransformStage a n \<Rightarrow> do {
          dcheck (snd r = 0);
          let a = (case allocator of None \<Rightarrow> default_allocator | Some a \<Rightarrow> a);
          Some ([0], upd_kind (fst r) (TransformStage (Some a) n) g)
        }
      | ActiveSourceStage prepared ps \<Rightarrow> do {
          dcheck (snd r = 0);
          let a = (case allocator of None \<Rightarrow> default_allocator | Some a \<Rightarrow> a);
          g \<leftarrow> (if can_accept_allocator P (fst r) then Some (g\<lparr>world := do_set_allocator P (fst r) (Some a) (world g)\<rparr>)
               else if allocator \<noteq> None then set_copy_allocator r allocator g
               else Some g);
          Some ([], upd_kind (fst r) (ActiveSourceStage True ps) g)
        }
      | MultistreamSourceStage c i n \<Rightarrow> do {
          dcheck (snd r < length (outputs st));
          g \<leftarrow> (if allocator \<noteq> None then set_copy_allocator r allocator g else Some g);
          Some ([], g)
        }
      | ActiveMultistreamSourceStage qs n b \<Rightarrow> do {
          dcheck (snd r < length (outputs st));
          g \<leftarrow> (if allocator \<noteq> None then set_copy_allocator r allocator g else Some g);
          Some ([], g)
        }
      | _ \<Rightarrow> None)
   }"

text \<open>\<open>UnprepareInput\<close> does nothing for any kind of stage.\<close>

definition unprepare_output :: "('p, 'e) parts \<Rightarrow> connector \<Rightarrow> ('p, 'e) graph \<Rightarrow> (nat list \<times> ('p, 'e) graph) option" where
  "unprepare_output P r g = do {
     st \<leftarrow> get_stage (fst r) g;
     (case kind st of
        TransformStage a n \<Rightarrow> Some ([0], upd_kind (fst r) (TransformStage None n) g)
      | ActiveSourceStage prepared ps \<Rightarrow> do {
          dcheck (snd r = 0);
          g \<leftarrow> set_copy_allocator r None (g\<lparr>world := do_set_allocator P (fst r) None (world g)\<rparr>);
          Some ([], g)
        }
      | MultistreamSourceStage c i n \<Rightarrow> do { g \<leftarrow> set_copy_allocator r None g; Some ([], g) }
      | ActiveMultistreamSourceStage qs n b \<Rightarrow> do { g \<leftarrow> set_copy_allocator r None g; Some ([], g) }
      | _ \<Rightarrow> Some ([], g))
   }"

definition flush_input :: "('p, 'e) parts \<Rightarrow> connector \<Rightarrow> ('p, 'e) graph \<Rightarrow> (nat list \<times> ('p, 'e) graph) option" where
  "flush_input P r g = do {
     st \<leftarrow> get_stage (fst r) g;
     dcheck (snd r < length (inputs st));
     let flushed = take_packet r g;
     (case kind st of
        TransformStage a n \<Rightarrow> Some ([0], flushed)
      | ActiveSinkStage d \<Rightarrow>
          Some ([], upd_kind (fst r) (ActiveSinkStage kNegative) (flushed\<lparr>world := do_flush P (fst r) (world g)\<rparr>))
      | ActiveMultistreamSinkStage ds al un pe \<Rightarrow>
          Some ([], upd_kind (fst r)
            (ActiveMultistreamSinkStage (ds[snd r := kNegative]) al un (filter (\<lambda>i. i \<noteq> snd r) pe))
            (flushed\<lparr>world := do_flush P (fst r) (world g)\<rparr>))
      | _ \<Rightarrow> None)
   }"

definition flush_output :: "('p, 'e) parts \<Rightarrow> connector \<Rightarrow> ('p, 'e) graph \<Rightarrow> ('p, 'e) graph option" where
  "flush_output P r g = do {
     st \<leftarrow> get_stage (fst r) g;
     dcheck (snd r < length (outputs st));
     let flushed = upd_output r (\<lambda>x. x\<lparr>out_demand := kNegative\<rparr>) g;
     (case kind st of
        TransformStage a n \<Rightarrow>
          Some (upd_kind (fst r) (TransformStage a True) (flushed\<lparr>world := do_flush P (fst r) (world g)\<rparr>))
      | ActiveSourceStage prepared ps \<Rightarrow>
          Some (upd_kind (fst r) (ActiveSourceStage prepared []) (flushed\<lparr>world := do_flush P (fst r) (world g)\<rparr>))
      | MultistreamSourceStage c i n \<Rightarrow>
          Some (upd_kind (fst r) (MultistreamSourceStage None 0 0) (flushed\<lparr>world := do_flush P (fst r) (world g)\<rparr>))
      | ActiveMultistreamSourceStage qs n b \<Rightarrow>
          Some (upd_kind (fst r) (ActiveMultistreamSourceStage (qs[snd r := []]) 0 False) flushed)
      | _ \<Rightarrow> None)
   }"

end
