(* ===== verification/Graph_Engine.thy ===== *)
theory Graph_Engine
  imports Graph_Stages
begin

text \<open>
  The engine and the graph (src/framework/engine.h, .cc, graph.h, .cc): the loop that updates the stages
  in the two backlogs, the visits that prepare and flush a graph, the calls by which the hosted objects
  start all this, and the operations that build a graph and take it apart.

  A method that holds the engine's mutex is one step; \<open>FTL_CHECK(false)\<close> is a failure. The loops that
  follow the connections of the graph need not end in a graph with a cycle.
\<close>

section \<open>Updates\<close>

text \<open>\<open>Engine::Update(stage)\<close>.\<close>

definition update_stage :: "('p, 'e) parts \<Rightarrow> nat \<Rightarrow> ('p, 'e) graph \<Rightarrow> ('p, 'e) graph option" where
  "update_stage P s g = do {
     g \<leftarrow> stage_update P s (g\<lparr>packets_produced := False\<rparr>);
     Some (if packets_produced g then push_to_demand_backlog s g else g)
   }"

definition pop_from_supply_backlog :: "('p, 'e) graph \<Rightarrow> (nat option \<times> ('p, 'e) graph) option" where
  "pop_from_supply_backlog g =
     (case supply_backlog g of
        [] \<Rightarrow> Some (None, g)
      | s # ss \<Rightarrow> do {
          st \<leftarrow> get_stage s g;
          dcheck (in_supply_backlog st);
          Some (Some s, upd_stage s (\<lambda>st. st\<lparr>in_supply_backlog := False\<rparr>) (g\<lparr>supply_backlog := ss\<rparr>))
        })"

definition pop_from_demand_backlog :: "('p, 'e) graph \<Rightarrow> (nat option \<times> ('p, 'e) graph) option" where
  "pop_from_demand_backlog g =
     (case demand_backlog g of
        [] \<Rightarrow> Some (None, g)
      | s # ss \<Rightarrow> do {
          st \<leftarrow> get_stage s g;
          dcheck (in_demand_backlog st);
          Some (Some s, upd_stage s (\<lambda>st. st\<lparr>in_demand_backlog := False\<rparr>) (g\<lparr>demand_backlog := ss\<rparr>))
        })"

text \<open>One turn of the engine's loop; the result has whether there was a stage to update.\<close>

definition engine_turn :: "('p, 'e) parts \<Rightarrow> ('p, 'e) graph \<Rightarrow> (bool \<times> ('p, 'e) graph) option" where
  "engine_turn P g = do {
     (popped, g) \<leftarrow> pop_from_supply_backlog g;
     (case popped of
        Some s \<Rightarrow> map_option (Pair True) (update_stage P s g)
      | None \<Rightarrow> do {
          (popped, g) \<leftarrow> pop_from_demand_backlog g;
          (case popped of
             Some s \<Rightarrow> map_option (Pair True) (update_stage P s g)
           | None \<Rightarrow> Some (False, g))
        })
   }"

partial_function (option) engine_update :: "('p, 'e) parts \<Rightarrow> ('p, 'e) graph \<Rightarrow> ('p, 'e) graph option" where
  "engine_update P g = Option.bind (engine_turn P g) (\<lambda>(more, g). if more then engine_update P g else Some g)"

text \<open>\<open>Stage::RequestUpdate\<close> calls the function the graph has set, which is \<open>Engine::RequestUpdate\<close>.\<close>

definition request_update :: "('p, 'e) parts \<Rightarrow> nat \<Rightarrow> ('p, 'e) graph \<Rightarrow> ('p, 'e) graph option" where
  "request_update P s g = do {
     st \<leftarrow> get_stage s g;
     dcheck (has_update_callback st);
     g \<leftarrow> update_stage P s g;
     engine_update P g
   }"

section \<open>Calls by the hosted objects\<close>

text \<open>What each callback changes in its stage, and whether it then requests an update.\<close>

text \<open>The supply callback of an active source.\<close>

definition source_supplies :: "nat \<Rightarrow> 'p packet \<Rightarrow> ('p, 'e) graph \<Rightarrow> (bool \<times> ('p, 'e) graph) option" where
  "source_supplies s p g = do {
     st \<leftarrow> get_stage s g;
     (case kind st of
        ActiveSourceStage prepared ps \<Rightarrow>
          Some (ps = [] \<and> prepared, upd_kind s (ActiveSourceStage prepared (ps @ [p])) g)
      | _ \<Rightarrow> None)
   }"

text \<open>The supply callback of an active multistream source.\<close>

definition multistream_source_supplies ::
    "('p, 'e) parts \<Rightarrow> nat \<Rightarrow> nat \<Rightarrow> 'p packet \<Rightarrow> ('p, 'e) graph \<Rightarrow> (bool \<times> ('p, 'e) graph) option" where
  "multistream_source_supplies P s i p g = do {
     st \<leftarrow> get_stage s g;
     (case kind st of
        ActiveMultistreamSourceStage qs n outstanding \<Rightarrow> do {
          dcheck (i < length (outputs st));
          dcheck (length (outputs st) = length qs);
          dcheck outstanding;
          let n = (if pk_end_of_stream p then n + 1 else n);
          let qs = qs[i := qs ! i @ [p]];
          d \<leftarrow> (if length (qs ! i) = 1 then output_demand (s, i) g else Some kNegative);
          (if d \<noteq> kNegative then Some (True, upd_kind s (ActiveMultistreamSourceStage qs n False) g)
           else Some (False, upd_kind s (ActiveMultistreamSourceStage qs n True) (g\<lparr>world := do_request P s (world g)\<rparr>)))
        }
      | _ \<Rightarrow> None)
   }"

text \<open>The demand callback of an active sink.\<close>

definition sink_demands :: "nat \<Rightarrow> demand \<Rightarrow> ('p, 'e) graph \<Rightarrow> (bool \<times> ('p, 'e) graph) option" where
  "sink_demands s d g = do {
     st \<leftarrow> get_stage s g;
     (case kind st of
        ActiveSinkStage d' \<Rightarrow> Some (if d' \<noteq> d then (True, upd_kind s (ActiveSinkStage d) g) else (False, g))
      | _ \<Rightarrow> None)
   }"

text \<open>\<open>UpdateDemand\<close>, \<open>AllocateInput\<close> and \<open>ReleaseInput\<close> of an active multistream sink. The set of
  unallocated inputs is kept sorted.\<close>

definition multistream_sink_demands :: "nat \<Rightarrow> nat \<Rightarrow> demand \<Rightarrow> ('p, 'e) graph \<Rightarrow> (bool \<times> ('p, 'e) graph) option" where
  "multistream_sink_demands s i d g = do {
     st \<leftarrow> get_stage s g;
     (case kind st of
        ActiveMultistreamSinkStage ds al un pe \<Rightarrow> do {
          dcheck (i < length (inputs st));
          dcheck (d \<noteq> kNegative);
          Some (True, upd_kind s (ActiveMultistreamSinkStage (ds[i := d]) al un (pe @ [i])) g)
        }
      | _ \<Rightarrow> None)
   }"

definition allocate_input :: "nat \<Rightarrow> ('p, 'e) graph \<Rightarrow> (nat \<times> ('p, 'e) graph) option" where
  "allocate_input s g = do {
     st \<leftarrow> get_stage s g;
     (case kind st of
        ActiveMultistreamSinkStage ds al un pe \<Rightarrow>
          (case un of
             [] \<Rightarrow> Some (length (inputs st),
               upd_stage s (\<lambda>st. st\<lparr>inputs := inputs st @ [new_input],
                 kind := ActiveMultistreamSinkStage (ds @ [kNegative]) (al @ [True]) un pe\<rparr>) g)
           | i # un \<Rightarrow> do {
               a \<leftarrow> nth_opt al i;
               dcheck (\<not> a);
               Some (i, upd_kind s (ActiveMultistreamSinkStage ds (al[i := True]) un pe) g)
             })
      | _ \<Rightarrow> None)
   }"

text \<open>The loop that drops unallocated inputs from the end, but never the first.\<close>

fun trimmed_count :: "bool list \<Rightarrow> nat \<Rightarrow> nat" where
  "trimmed_count al n = (if 1 < n \<and> \<not> al ! (n - 1) then trimmed_count al (n - 1) else n)"

definition release_input :: "nat \<Rightarrow> nat \<Rightarrow> ('p, 'e) graph \<Rightarrow> (nat \<times> ('p, 'e) graph) option" where
  "release_input s i g = do {
     st \<leftarrow> get_stage s g;
     (case kind st of
        ActiveMultistreamSinkStage ds al un pe \<Rightarrow> do {
          inp \<leftarrow> nth_opt (inputs st) i;
          a \<leftarrow> nth_opt al i;
          dcheck a;
          dcheck (in_mate inp = None);
          let al = al[i := False];
          (if i \<noteq> 0 \<and> i = length (inputs st) - 1 then do {
             let n = trimmed_count al (length (inputs st));
             Some (n, upd_stage s (\<lambda>st. st\<lparr>inputs := take n (inputs st),
               kind := ActiveMultistreamSinkStage (take n ds) (take n al) (filter (\<lambda>j. j < n) un) pe\<rparr>) g)
           }
           else Some (length (inputs st), upd_kind s (ActiveMultistreamSinkStage ds al (insort i un) pe) g))
        }
      | _ \<Rightarrow> None)
   }"

text \<open>A call: the change, and the update if one is requested.\<close>

definition with_update :: "('p, 'e) parts \<Rightarrow> nat \<Rightarrow> (bool \<times> ('p, 'e) graph) option \<Rightarrow> ('p, 'e) graph option" where
  "with_update P s c = do {
     (wanted, g) \<leftarrow> c;
     (if wanted then request_update P s g else Some g)
   }"

section \<open>Preparing and flushing\<close>

text \<open>\<open>VisitUpstream\<close> and \<open>VisitDownstream\<close>: the visitor is given a connector and its mate and answers with
  the connectors of the mate's stage to visit next.\<close>

partial_function (option) visit_upstream ::
    "(connector \<Rightarrow> connector \<Rightarrow> ('p, 'e) graph \<Rightarrow> (nat list \<times> ('p, 'e) graph) option) \<Rightarrow> connector list \<Rightarrow>
     ('p, 'e) graph \<Rightarrow> ('p, 'e) graph option" where
  "visit_upstream visitor backlog g =
     (case backlog of
        [] \<Rightarrow> Some g
      | r # rs \<Rightarrow> Option.bind (get_input r g) (\<lambda>inp. Option.bind (in_mate inp) (\<lambda>m.
          Option.bind (visitor r m g) (\<lambda>(next, g). visit_upstream visitor (rs @ map (Pair (fst m)) next) g))))"

partial_function (option) visit_downstream ::
    "(connector \<Rightarrow> connector \<Rightarrow> ('p, 'e) graph \<Rightarrow> (nat list \<times> ('p, 'e) graph) option) \<Rightarrow> connector list \<Rightarrow>
     ('p, 'e) graph \<Rightarrow> ('p, 'e) graph option" where
  "visit_downstream visitor backlog g =
     (case backlog of
        [] \<Rightarrow> Some g
      | r # rs \<Rightarrow> Option.bind (get_output r g) (\<lambda>out. Option.bind (out_mate out) (\<lambda>m.
          Option.bind (visitor r m g) (\<lambda>(next, g). visit_downstream visitor (rs @ map (Pair (fst m)) next) g))))"

definition prepare_visitor ::
    "('p, 'e) parts \<Rightarrow> connector \<Rightarrow> connector \<Rightarrow> ('p, 'e) graph \<Rightarrow> (nat list \<times> ('p, 'e) graph) option" where
  "prepare_visitor P r m g = do {
     inp \<leftarrow> get_input r g;
     dcheck (\<not> in_prepared inp);
     allocator \<leftarrow> prepare_input P r g;
     prepare_output P m allocator (upd_input r (\<lambda>x. x\<lparr>in_prepared := True\<rparr>) g)
   }"

definition engine_prepare_input :: "('p, 'e) parts \<Rightarrow> connector \<Rightarrow> ('p, 'e) graph \<Rightarrow> ('p, 'e) graph option" where
  "engine_prepare_input P r g = visit_upstream (prepare_visitor P) [r] g"

definition unprepare_visitor ::
    "('p, 'e) parts \<Rightarrow> connector \<Rightarrow> connector \<Rightarrow> ('p, 'e) graph \<Rightarrow> (nat list \<times> ('p, 'e) graph) option" where
  "unprepare_visitor P r m g = do {
     inp \<leftarrow> get_input r g;
     dcheck (in_prepared inp);
     unprepare_output P m g
   }"

definition engine_unprepare_input :: "('p, 'e) parts \<Rightarrow> connector \<Rightarrow> ('p, 'e) graph \<Rightarrow> ('p, 'e) graph option" where
  "engine_unprepare_input P r g = visit_upstream (unprepare_visitor P) [r] g"

definition flush_visitor ::
    "('p, 'e) parts \<Rightarrow> connector \<Rightarrow> connector \<Rightarrow> ('p, 'e) graph \<Rightarrow> (nat list \<times> ('p, 'e) graph) option" where
  "flush_visitor P r m g = do {
     inp \<leftarrow> get_input m g;
     dcheck (in_prepared inp);
     g \<leftarrow> flush_output P r g;
     flush_input P m g
   }"

definition engine_flush_output :: "('p, 'e) parts \<Rightarrow> connector \<Rightarrow> ('p, 'e) graph \<Rightarrow> ('p, 'e) graph option" where
  "engine_flush_output P r g = do {
     out \<leftarrow> get_output r g;
     (if out_mate out = None then Some g else visit_downstream (flush_visitor P) [r] g)
   }"

section \<open>The graph\<close>

definition empty_graph :: "'e \<Rightarrow> ('p, 'e) graph" where
  "empty_graph w =
     \<lparr>stage_at = (\<lambda>_. \<lparr>kind = ActiveSinkStage kNegative, inputs = [], outputs = [], in_supply_backlog = False,
        in_demand_backlog = False, has_update_callback = False\<rparr>),
      stages = [], sources = [], sinks = [], next_stage = 0, supply_backlog = [], demand_backlog = [],
      packets_produced = False, world = w\<rparr>"

text \<open>The constructors of the stages. The one of a multistream sink allocates an input and releases it.\<close>

definition new_stage :: "'p stage_kind \<Rightarrow> nat \<Rightarrow> nat \<Rightarrow> 'p stage" where
  "new_stage k m n =
     \<lparr>kind = k, inputs = replicate m new_input, outputs = replicate n new_output, in_supply_backlog = False,
      in_demand_backlog = False, has_update_callback = False\<rparr>"

definition new_transform_stage :: "'p stage" where
  "new_transform_stage = new_stage (TransformStage None True) 1 1"

definition new_active_sink_stage :: "'p stage" where
  "new_active_sink_stage = new_stage (ActiveSinkStage kNegative) 1 0"

definition new_active_source_stage :: "'p stage" where
  "new_active_source_stage = new_stage (ActiveSourceStage False []) 0 1"

definition new_multistream_source_stage :: "nat \<Rightarrow> 'p stage" where
  "new_multistream_source_stage n = new_stage (MultistreamSourceStage None 0 0) 0 n"

definition new_active_multistream_source_stage :: "nat \<Rightarrow> 'p stage" where
  "new_active_multistream_source_stage n = new_stage (ActiveMultistreamSourceStage (replicate n []) 0 False) 0 n"

definition new_active_multistream_sink_stage :: "'p stage" where
  "new_active_multistream_sink_stage = new_stage (ActiveMultistreamSinkStage [kNegative] [False] [0] []) 1 0"

definition graph_add :: "'p stage \<Rightarrow> ('p, 'e) graph \<Rightarrow> nat \<times> ('p, 'e) graph" where
  "graph_add st g =
     (let s = next_stage g
      in (s, g\<lparr>next_stage := s + 1,
               stage_at := (stage_at g)(s := st\<lparr>has_update_callback := True\<rparr>),
               stages := stages g @ [s],
               sources := (if length (inputs st) = 0 then sources g @ [s] else sources g),
               sinks := (if length (outputs st) = 0 then sinks g @ [s] else sinks g)\<rparr>))"

definition disconnect_output :: "connector \<Rightarrow> ('p, 'e) graph \<Rightarrow> ('p, 'e) graph option" where
  "disconnect_output r g = do {
     out \<leftarrow> get_output r g;
     (case out_mate out of
        None \<Rightarrow> Some g
      | Some m \<Rightarrow> do {
          inp \<leftarrow> get_input m g;
          dcheck (\<not> in_prepared inp);
          Some (upd_output r (\<lambda>x. x\<lparr>out_mate := None\<rparr>) (upd_input m (\<lambda>x. x\<lparr>in_mate := None\<rparr>) g))
        })
   }"

definition disconnect_input :: "connector \<Rightarrow> ('p, 'e) graph \<Rightarrow> ('p, 'e) graph option" where
  "disconnect_input r g = do {
     inp \<leftarrow> get_input r g;
     (case in_mate inp of
        None \<Rightarrow> Some g
      | Some m \<Rightarrow> do {
          out \<leftarrow> get_output m g;
          dcheck (\<not> in_prepared inp);
          Some (upd_input r (\<lambda>x. x\<lparr>in_mate := None\<rparr>) (upd_output m (\<lambda>x. x\<lparr>out_mate := None\<rparr>) g))
        })
   }"

definition graph_connect :: "connector \<Rightarrow> connector \<Rightarrow> ('p, 'e) graph \<Rightarrow> ('p, 'e) graph option" where
  "graph_connect r m g = do {
     _ \<leftarrow> get_output r g;
     _ \<leftarrow> get_input m g;
     g \<leftarrow> disconnect_output r g;
     g \<leftarrow> disconnect_input m g;
     Some (upd_input m (\<lambda>x. x\<lparr>in_mate := Some r\<rparr>) (upd_output r (\<lambda>x. x\<lparr>out_mate := Some m\<rparr>) g))
   }"

text \<open>\<open>PartRef::input\<close> and \<open>PartRef::output\<close> without an index: the only one.\<close>

definition only_input :: "nat \<Rightarrow> ('p, 'e) graph \<Rightarrow> connector option" where
  "only_input s g = do { st \<leftarrow> get_stage s g; dcheck (length (inputs st) = 1); Some (s, 0) }"

definition only_output :: "nat \<Rightarrow> ('p, 'e) graph \<Rightarrow> connector option" where
  "only_output s g = do { st \<leftarrow> get_stage s g; dcheck (length (outputs st) = 1); Some (s, 0) }"

definition connect_parts :: "nat \<Rightarrow> nat \<Rightarrow> ('p, 'e) graph \<Rightarrow> ('p, 'e) graph option" where
  "connect_parts s t g = do { r \<leftarrow> only_output s g; m \<leftarrow> only_input t g; graph_connect r m g }"

definition connect_output_to_part :: "connector \<Rightarrow> nat \<Rightarrow> ('p, 'e) graph \<Rightarrow> ('p, 'e) graph option" where
  "connect_output_to_part r t g = do { _ \<leftarrow> get_output r g; m \<leftarrow> only_input t g; graph_connect r m g }"

definition connect_part_to_input :: "nat \<Rightarrow> connector \<Rightarrow> ('p, 'e) graph \<Rightarrow> ('p, 'e) graph option" where
  "connect_part_to_input s m g = do { _ \<leftarrow> get_input m g; r \<leftarrow> only_output s g; graph_connect r m g }"

fun add_and_connect_all :: "connector \<Rightarrow> 'p stage list \<Rightarrow> ('p, 'e) graph \<Rightarrow> (connector \<times> ('p, 'e) graph) option" where
  "add_and_connect_all r [] g = Some (r, g)"
| "add_and_connect_all r (st # sts) g = do {
     let (s, g) = graph_add st g;
     m \<leftarrow> only_input s g;
     g \<leftarrow> graph_connect r m g;
     r \<leftarrow> only_output s g;
     add_and_connect_all r sts g
   }"

fun disconnect_all :: "(connector \<Rightarrow> ('p, 'e) graph \<Rightarrow> ('p, 'e) graph option) \<Rightarrow> connector list \<Rightarrow> ('p, 'e) graph \<Rightarrow> ('p, 'e) graph option" where
  "disconnect_all f [] g = Some g"
| "disconnect_all f (r # rs) g = do { g \<leftarrow> f r g; disconnect_all f rs g }"

definition remove_part :: "nat \<Rightarrow> ('p, 'e) graph \<Rightarrow> ('p, 'e) graph option" where
  "remove_part s g = do {
     st \<leftarrow> get_stage s g;
     g \<leftarrow> disconnect_all disconnect_input (map (Pair s) [0..<length (inputs st)]) g;
     g \<leftarrow> disconnect_all disconnect_output (map (Pair s) [0..<length (outputs st)]) g;
     Some (g\<lparr>sources := remove1 s (sources g), sinks := remove1 s (sinks g), stages := remove1 s (stages g)\<rparr>)
   }"

text \<open>The queue of parts to remove: \<open>part.input(i).part()\<close> is the part that owns the input.\<close>

partial_function (option) remove_parts :: "nat list \<Rightarrow> ('p, 'e) graph \<Rightarrow> ('p, 'e) graph option" where
  "remove_parts to_remove g =
     (case to_remove of
        [] \<Rightarrow> Some g
      | s # ss \<Rightarrow> Option.bind (get_stage s g) (\<lambda>st. Option.bind (remove_part s g)
          (remove_parts (ss @ replicate (length (inputs st)) s @ replicate (length (outputs st)) s))))"

definition remove_parts_connected_to_part :: "nat \<Rightarrow> ('p, 'e) graph \<Rightarrow> ('p, 'e) graph option" where
  "remove_parts_connected_to_part s g = remove_parts [s] g"

definition remove_parts_connected_to_output :: "connector \<Rightarrow> ('p, 'e) graph \<Rightarrow> ('p, 'e) graph option" where
  "remove_parts_connected_to_output r g = do {
     out \<leftarrow> get_output r g;
     (case out_mate out of
        None \<Rightarrow> Some g
      | Some m \<Rightarrow> do { g \<leftarrow> disconnect_output r g; remove_parts_connected_to_part (fst m) g })
   }"

definition remove_parts_connected_to_input :: "connector \<Rightarrow> ('p, 'e) graph \<Rightarrow> ('p, 'e) graph option" where
  "remove_parts_connected_to_input r g = do {
     inp \<leftarrow> get_input r g;
     (case in_mate inp of
        None \<Rightarrow> Some g
      | Some m \<Rightarrow> do { g \<leftarrow> disconnect_input r g; remove_parts_connected_to_part (fst m) g })
   }"

definition graph_reset :: "('p, 'e) graph \<Rightarrow> ('p, 'e) graph" where
  "graph_reset g = g\<lparr>sources := [], sinks := [], stages := []\<rparr>"

fun prepare_each :: "('p, 'e) parts \<Rightarrow> connector list \<Rightarrow> ('p, 'e) graph \<Rightarrow> ('p, 'e) graph option" where
  "prepare_each P [] g = Some g"
| "prepare_each P (r # rs) g = do { g \<leftarrow> engine_prepare_input P r g; prepare_each P rs g }"

definition graph_prepare :: "('p, 'e) parts \<Rightarrow> ('p, 'e) graph \<Rightarrow> ('p, 'e) graph option" where
  "graph_prepare P g =
     prepare_each P (concat (map (\<lambda>s. map (Pair s) [0..<length (inputs (stage_at g s))]) (sinks g))) g"

fun flush_each :: "('p, 'e) parts \<Rightarrow> connector list \<Rightarrow> ('p, 'e) graph \<Rightarrow> ('p, 'e) graph option" where
  "flush_each P [] g = Some g"
| "flush_each P (r # rs) g = do { g \<leftarrow> engine_flush_output P r g; flush_each P rs g }"

definition flush_all_outputs :: "('p, 'e) parts \<Rightarrow> nat \<Rightarrow> ('p, 'e) graph \<Rightarrow> ('p, 'e) graph option" where
  "flush_all_outputs P s g = do {
     st \<leftarrow> get_stage s g;
     flush_each P (map (Pair s) [0..<length (outputs st)]) g
   }"

end
