(* ===== verification/Graph_Invariant.thy ===== *)
theory Graph_Invariant
  imports Graph_Engine
begin

text \<open>
  The invariant of the engine: no stage that has something to do is forgotten. The locale \<open>good_parts\<close>
  states what the objects hosted by the stages promise; inside it every operation of the engine is shown
  to return and to keep the invariant.
\<close>

section \<open>Reading a graph\<close>

definition input_at :: "('p, 'e) graph \<Rightarrow> connector \<Rightarrow> 'p input_state" where
  "input_at g c = inputs (stage_at g (fst c)) ! snd c"

definition output_at :: "('p, 'e) graph \<Rightarrow> connector \<Rightarrow> output_state" where
  "output_at g m = outputs (stage_at g (fst m)) ! snd m"

definition kind_of :: "('p, 'e) graph \<Rightarrow> nat \<Rightarrow> 'p stage_kind" where
  "kind_of g s = kind (stage_at g s)"

definition nin :: "('p, 'e) graph \<Rightarrow> nat \<Rightarrow> nat" where "nin g s = length (inputs (stage_at g s))"

definition nout :: "('p, 'e) graph \<Rightarrow> nat \<Rightarrow> nat" where "nout g s = length (outputs (stage_at g s))"

definition in_sup :: "('p, 'e) graph \<Rightarrow> nat \<Rightarrow> bool" where "in_sup g s = in_supply_backlog (stage_at g s)"

definition in_dem :: "('p, 'e) graph \<Rightarrow> nat \<Rightarrow> bool" where "in_dem g s = in_demand_backlog (stage_at g s)"

definition is_input :: "('p, 'e) graph \<Rightarrow> connector \<Rightarrow> bool" where
  "is_input g c \<longleftrightarrow> fst c \<in> set (stages g) \<and> snd c < nin g (fst c)"

definition is_output :: "('p, 'e) graph \<Rightarrow> connector \<Rightarrow> bool" where
  "is_output g m \<longleftrightarrow> fst m \<in> set (stages g) \<and> snd m < nout g (fst m)"

abbreviation "in_mate_at g c \<equiv> in_mate (input_at g c)"
abbreviation "out_mate_at g m \<equiv> out_mate (output_at g m)"
abbreviation "raw g m \<equiv> out_demand (output_at g m)"
abbreviation "packet_at g c \<equiv> in_packet (input_at g c)"
abbreviation "held g c \<equiv> packet_at g c \<noteq> None"

lemma get_input_eq: "get_input c g = (if is_input g c then Some (input_at g c) else None)"
  by (auto simp: get_input_def get_stage_def is_input_def nin_def nth_opt_def input_at_def)

lemma get_output_eq: "get_output m g = (if is_output g m then Some (output_at g m) else None)"
  by (auto simp: get_output_def get_stage_def is_output_def nout_def nth_opt_def output_at_def)

lemmas readers = input_at_def output_at_def kind_of_def nin_def nout_def in_sup_def in_dem_def

lemma upd_stage_simps [simp]:
  "stages (upd_stage s f g) = stages g" "supply_backlog (upd_stage s f g) = supply_backlog g"
  "demand_backlog (upd_stage s f g) = demand_backlog g" "packets_produced (upd_stage s f g) = packets_produced g"
  "world (upd_stage s f g) = world g" "sinks (upd_stage s f g) = sinks g" "sources (upd_stage s f g) = sources g"
  "next_stage (upd_stage s f g) = next_stage g"
  "stage_at (upd_stage s f g) = (stage_at g)(s := f (stage_at g s))"
  by (simp_all add: upd_stage_def)

lemma reader_congs [simp]:
  "input_at (g\<lparr>world := w\<rparr>) = input_at g" "output_at (g\<lparr>world := w\<rparr>) = output_at g" "kind_of (g\<lparr>world := w\<rparr>) = kind_of g"
  "nin (g\<lparr>world := w\<rparr>) = nin g" "nout (g\<lparr>world := w\<rparr>) = nout g" "in_sup (g\<lparr>world := w\<rparr>) = in_sup g"
  "in_dem (g\<lparr>world := w\<rparr>) = in_dem g"
  "input_at (g\<lparr>packets_produced := b\<rparr>) = input_at g" "output_at (g\<lparr>packets_produced := b\<rparr>) = output_at g"
  "kind_of (g\<lparr>packets_produced := b\<rparr>) = kind_of g" "nin (g\<lparr>packets_produced := b\<rparr>) = nin g"
  "nout (g\<lparr>packets_produced := b\<rparr>) = nout g" "in_sup (g\<lparr>packets_produced := b\<rparr>) = in_sup g"
  "in_dem (g\<lparr>packets_produced := b\<rparr>) = in_dem g"
  "input_at (g\<lparr>supply_backlog := ss\<rparr>) = input_at g" "output_at (g\<lparr>supply_backlog := ss\<rparr>) = output_at g"
  "kind_of (g\<lparr>supply_backlog := ss\<rparr>) = kind_of g" "nin (g\<lparr>supply_backlog := ss\<rparr>) = nin g"
  "nout (g\<lparr>supply_backlog := ss\<rparr>) = nout g" "in_sup (g\<lparr>supply_backlog := ss\<rparr>) = in_sup g"
  "in_dem (g\<lparr>supply_backlog := ss\<rparr>) = in_dem g"
  "input_at (g\<lparr>demand_backlog := ss\<rparr>) = input_at g" "output_at (g\<lparr>demand_backlog := ss\<rparr>) = output_at g"
  "kind_of (g\<lparr>demand_backlog := ss\<rparr>) = kind_of g" "nin (g\<lparr>demand_backlog := ss\<rparr>) = nin g"
  "nout (g\<lparr>demand_backlog := ss\<rparr>) = nout g" "in_sup (g\<lparr>demand_backlog := ss\<rparr>) = in_sup g"
  "in_dem (g\<lparr>demand_backlog := ss\<rparr>) = in_dem g"
  by (simp_all add: readers fun_eq_iff)

lemma upd_kind_simps [simp]:
  "input_at (upd_kind s k g) = input_at g" "output_at (upd_kind s k g) = output_at g"
  "kind_of (upd_kind s k g) = (kind_of g)(s := k)" "nin (upd_kind s k g) = nin g" "nout (upd_kind s k g) = nout g"
  "in_sup (upd_kind s k g) = in_sup g" "in_dem (upd_kind s k g) = in_dem g"
  "stages (upd_kind s k g) = stages g" "supply_backlog (upd_kind s k g) = supply_backlog g"
  "demand_backlog (upd_kind s k g) = demand_backlog g" "packets_produced (upd_kind s k g) = packets_produced g"
  "world (upd_kind s k g) = world g" "sinks (upd_kind s k g) = sinks g" "sources (upd_kind s k g) = sources g"
  "next_stage (upd_kind s k g) = next_stage g"
  by (auto simp: readers upd_kind_def fun_eq_iff)

lemma upd_input_simps [simp]:
  "output_at (upd_input c f g) = output_at g" "kind_of (upd_input c f g) = kind_of g" "nin (upd_input c f g) = nin g"
  "nout (upd_input c f g) = nout g" "in_sup (upd_input c f g) = in_sup g" "in_dem (upd_input c f g) = in_dem g"
  "stages (upd_input c f g) = stages g" "supply_backlog (upd_input c f g) = supply_backlog g"
  "demand_backlog (upd_input c f g) = demand_backlog g" "packets_produced (upd_input c f g) = packets_produced g"
  "world (upd_input c f g) = world g" "sinks (upd_input c f g) = sinks g" "sources (upd_input c f g) = sources g"
  "next_stage (upd_input c f g) = next_stage g"
  by (auto simp: readers upd_input_def fun_eq_iff)

lemma output_upd_simps [simp]:
  "input_at (upd_output c f g) = input_at g" "kind_of (upd_output c f g) = kind_of g" "nin (upd_output c f g) = nin g"
  "nout (upd_output c f g) = nout g" "in_sup (upd_output c f g) = in_sup g" "in_dem (upd_output c f g) = in_dem g"
  "stages (upd_output c f g) = stages g" "supply_backlog (upd_output c f g) = supply_backlog g"
  "demand_backlog (upd_output c f g) = demand_backlog g" "packets_produced (upd_output c f g) = packets_produced g"
  "world (upd_output c f g) = world g" "sinks (upd_output c f g) = sinks g" "sources (upd_output c f g) = sources g"
  "next_stage (upd_output c f g) = next_stage g"
  by (auto simp: readers upd_output_def fun_eq_iff)

lemma input_at_upd: "is_input g c \<Longrightarrow> input_at (upd_input c f g) = (input_at g)(c := f (input_at g c))"
  by (auto simp: readers upd_input_def is_input_def fun_eq_iff nth_list_update prod_eq_iff)

lemma output_at_upd: "is_output g m \<Longrightarrow> output_at (upd_output m f g) = (output_at g)(m := f (output_at g m))"
  by (auto simp: readers upd_output_def is_output_def fun_eq_iff nth_list_update prod_eq_iff)

lemma is_input_simps [simp]:
  "is_input (upd_kind s k g) = is_input g" "is_input (upd_input c f g) = is_input g" "is_input (upd_output m f' g) = is_input g"
  "is_input (g\<lparr>world := w\<rparr>) = is_input g" "is_input (g\<lparr>packets_produced := b\<rparr>) = is_input g"
  "is_input (g\<lparr>supply_backlog := ss\<rparr>) = is_input g" "is_input (g\<lparr>demand_backlog := ss\<rparr>) = is_input g"
  by (auto simp: is_input_def fun_eq_iff)

lemma is_output_simps [simp]:
  "is_output (upd_kind s k g) = is_output g" "is_output (upd_input c f g) = is_output g" "is_output (upd_output m f' g) = is_output g"
  "is_output (g\<lparr>world := w\<rparr>) = is_output g" "is_output (g\<lparr>packets_produced := b\<rparr>) = is_output g"
  "is_output (g\<lparr>supply_backlog := ss\<rparr>) = is_output g" "is_output (g\<lparr>demand_backlog := ss\<rparr>) = is_output g"
  by (auto simp: is_output_def fun_eq_iff)

lemma set_flag_simps [simp]:
  "input_at (upd_stage s (\<lambda>st. st\<lparr>in_supply_backlog := b\<rparr>) g) = input_at g"
  "output_at (upd_stage s (\<lambda>st. st\<lparr>in_supply_backlog := b\<rparr>) g) = output_at g"
  "kind_of (upd_stage s (\<lambda>st. st\<lparr>in_supply_backlog := b\<rparr>) g) = kind_of g"
  "nin (upd_stage s (\<lambda>st. st\<lparr>in_supply_backlog := b\<rparr>) g) = nin g"
  "nout (upd_stage s (\<lambda>st. st\<lparr>in_supply_backlog := b\<rparr>) g) = nout g"
  "in_sup (upd_stage s (\<lambda>st. st\<lparr>in_supply_backlog := b\<rparr>) g) = (in_sup g)(s := b)"
  "in_dem (upd_stage s (\<lambda>st. st\<lparr>in_supply_backlog := b\<rparr>) g) = in_dem g"
  "is_input (upd_stage s (\<lambda>st. st\<lparr>in_supply_backlog := b\<rparr>) g) = is_input g"
  "is_output (upd_stage s (\<lambda>st. st\<lparr>in_supply_backlog := b\<rparr>) g) = is_output g"
  "input_at (upd_stage s (\<lambda>st. st\<lparr>in_demand_backlog := b\<rparr>) g) = input_at g"
  "output_at (upd_stage s (\<lambda>st. st\<lparr>in_demand_backlog := b\<rparr>) g) = output_at g"
  "kind_of (upd_stage s (\<lambda>st. st\<lparr>in_demand_backlog := b\<rparr>) g) = kind_of g"
  "nin (upd_stage s (\<lambda>st. st\<lparr>in_demand_backlog := b\<rparr>) g) = nin g"
  "nout (upd_stage s (\<lambda>st. st\<lparr>in_demand_backlog := b\<rparr>) g) = nout g"
  "in_sup (upd_stage s (\<lambda>st. st\<lparr>in_demand_backlog := b\<rparr>) g) = in_sup g"
  "in_dem (upd_stage s (\<lambda>st. st\<lparr>in_demand_backlog := b\<rparr>) g) = (in_dem g)(s := b)"
  "is_input (upd_stage s (\<lambda>st. st\<lparr>in_demand_backlog := b\<rparr>) g) = is_input g"
  "is_output (upd_stage s (\<lambda>st. st\<lparr>in_demand_backlog := b\<rparr>) g) = is_output g"
  by (auto simp: readers is_input_def is_output_def fun_eq_iff)

lemma push_supply_simps [simp]:
  "input_at (push_to_supply_backlog s g) = input_at g" "output_at (push_to_supply_backlog s g) = output_at g"
  "kind_of (push_to_supply_backlog s g) = kind_of g" "nin (push_to_supply_backlog s g) = nin g"
  "nout (push_to_supply_backlog s g) = nout g" "in_sup (push_to_supply_backlog s g) = (in_sup g)(s := True)"
  "in_dem (push_to_supply_backlog s g) = in_dem g" "is_input (push_to_supply_backlog s g) = is_input g"
  "is_output (push_to_supply_backlog s g) = is_output g" "stages (push_to_supply_backlog s g) = stages g"
  "supply_backlog (push_to_supply_backlog s g) = (if in_sup g s then supply_backlog g else supply_backlog g @ [s])"
  "demand_backlog (push_to_supply_backlog s g) = demand_backlog g" "packets_produced (push_to_supply_backlog s g) = True"
  "world (push_to_supply_backlog s g) = world g"
  by (auto simp: push_to_supply_backlog_def Let_def fun_eq_iff) (auto simp: in_sup_def)

lemma push_demand_simps [simp]:
  "input_at (push_to_demand_backlog s g) = input_at g" "output_at (push_to_demand_backlog s g) = output_at g"
  "kind_of (push_to_demand_backlog s g) = kind_of g" "nin (push_to_demand_backlog s g) = nin g"
  "nout (push_to_demand_backlog s g) = nout g" "in_sup (push_to_demand_backlog s g) = in_sup g"
  "in_dem (push_to_demand_backlog s g) = (in_dem g)(s := True)" "is_input (push_to_demand_backlog s g) = is_input g"
  "is_output (push_to_demand_backlog s g) = is_output g" "stages (push_to_demand_backlog s g) = stages g"
  "demand_backlog (push_to_demand_backlog s g) = (if in_dem g s then demand_backlog g else s # demand_backlog g)"
  "supply_backlog (push_to_demand_backlog s g) = supply_backlog g"
  "packets_produced (push_to_demand_backlog s g) = packets_produced g"
  "world (push_to_demand_backlog s g) = world g"
  by (auto simp: push_to_demand_backlog_def fun_eq_iff) (auto simp: in_dem_def)

lemma kind_stage_at [simp]: "kind (stage_at g s) = kind_of g s"
  "length (inputs (stage_at g s)) = nin g s" "length (outputs (stage_at g s)) = nout g s"
  by (simp_all add: readers)

section \<open>The invariant\<close>

text \<open>Demand as the stage sees it, on its outputs (\<open>Output::demand\<close>) and as it has set it, on its inputs.\<close>

definition eff :: "('p, 'e) graph \<Rightarrow> connector \<Rightarrow> demand" where
  "eff g m = (if raw g m = kNegative then kNegative
     else case out_mate_at g m of None \<Rightarrow> raw g m | Some c \<Rightarrow> if held g c then kNegative else raw g m)"

definition demand_of :: "('p, 'e) graph \<Rightarrow> connector \<Rightarrow> demand" where
  "demand_of g c = (case in_mate_at g c of None \<Rightarrow> kNegative | Some m \<Rightarrow> raw g m)"

lemma demand_of_cong: "in_mate_at g' c = in_mate_at g c \<Longrightarrow> output_at g' = output_at g \<Longrightarrow> demand_of g' c = demand_of g c"
  by (simp add: demand_of_def split: option.split)

lemma eff_cong: "output_at g' = output_at g \<Longrightarrow> input_at g' = input_at g \<Longrightarrow> eff g' m = eff g m"
  by (simp add: eff_def split: option.split)

lemma demand_simps [simp]:
  "demand_of (g\<lparr>world := w\<rparr>) = demand_of g" "demand_of (g\<lparr>packets_produced := b\<rparr>) = demand_of g"
  "demand_of (g\<lparr>supply_backlog := ss\<rparr>) = demand_of g" "demand_of (g\<lparr>demand_backlog := ss\<rparr>) = demand_of g"
  "demand_of (upd_kind s k g) = demand_of g" "demand_of (push_to_supply_backlog s g) = demand_of g"
  "demand_of (push_to_demand_backlog s g) = demand_of g"
  "eff (g\<lparr>world := w\<rparr>) = eff g" "eff (g\<lparr>packets_produced := b\<rparr>) = eff g"
  "eff (g\<lparr>supply_backlog := ss\<rparr>) = eff g" "eff (g\<lparr>demand_backlog := ss\<rparr>) = eff g"
  "eff (upd_kind s k g) = eff g" "eff (push_to_supply_backlog s g) = eff g" "eff (push_to_demand_backlog s g) = eff g"
  "demand_of (upd_stage s (\<lambda>st. st\<lparr>in_supply_backlog := b\<rparr>) g) = demand_of g"
  "demand_of (upd_stage s (\<lambda>st. st\<lparr>in_demand_backlog := b\<rparr>) g) = demand_of g"
  "eff (upd_stage s (\<lambda>st. st\<lparr>in_supply_backlog := b\<rparr>) g) = eff g"
  "eff (upd_stage s (\<lambda>st. st\<lparr>in_demand_backlog := b\<rparr>) g) = eff g"
  by (auto intro!: demand_of_cong eff_cong)

text \<open>The connections are symmetric, and no stage is connected to itself.\<close>

definition wired :: "('p, 'e) graph \<Rightarrow> bool" where
  "wired g \<longleftrightarrow>
     (\<forall>c m. is_input g c \<longrightarrow> in_mate_at g c = Some m \<longrightarrow> is_output g m \<and> out_mate_at g m = Some c) \<and>
     (\<forall>m c. is_output g m \<longrightarrow> out_mate_at g m = Some c \<longrightarrow> is_input g c \<and> in_mate_at g c = Some m)"

definition loop_free :: "('p, 'e) graph \<Rightarrow> bool" where
  "loop_free g \<longleftrightarrow> (\<forall>c m. is_input g c \<longrightarrow> in_mate_at g c = Some m \<longrightarrow> fst m \<noteq> fst c)"

definition backlogs_ok :: "('p, 'e) graph \<Rightarrow> bool" where
  "backlogs_ok g \<longleftrightarrow> distinct (supply_backlog g) \<and> distinct (demand_backlog g) \<and>
     set (supply_backlog g) \<subseteq> set (stages g) \<and> set (demand_backlog g) \<subseteq> set (stages g) \<and>
     (\<forall>s \<in> set (stages g). (in_sup g s \<longleftrightarrow> s \<in> set (supply_backlog g)) \<and> (in_dem g s \<longleftrightarrow> s \<in> set (demand_backlog g)))"

text \<open>A stage that is connected and prepared. \<open>sends m\<close> are the packets that go out through \<open>m\<close>, \<open>streams\<close>
  the number of streams of a multistream source.\<close>

definition stage_ready :: "(nat \<Rightarrow> nat) \<Rightarrow> (connector \<Rightarrow> 'p packet \<Rightarrow> bool) \<Rightarrow> ('p, 'e) graph \<Rightarrow> nat \<Rightarrow> bool" where
  "stage_ready streams sends g s \<longleftrightarrow>
     (\<forall>j < nout g s. out_mate_at g (s, j) \<noteq> None) \<and>
     (case kind_of g s of
        TransformStage a n \<Rightarrow> nin g s = 1 \<and> nout g s = 1 \<and> a \<noteq> None \<and> in_mate_at g (s, 0) \<noteq> None
      | ActiveSinkStage d \<Rightarrow> nin g s = 1 \<and> nout g s = 0 \<and> in_mate_at g (s, 0) \<noteq> None
      | ActiveSourceStage b ps \<Rightarrow> nin g s = 0 \<and> nout g s = 1 \<and> (\<forall>p \<in> set ps. sends (s, 0) p)
      | MultistreamSourceStage c i n \<Rightarrow> nin g s = 0 \<and> nout g s = streams s \<and>
          (\<forall>p. c = Some p \<longrightarrow> i < nout g s \<and> sends (s, i) p)
      | ActiveMultistreamSourceStage qs n b \<Rightarrow> nin g s = 0 \<and> length qs = nout g s \<and>
          (\<forall>j < nout g s. \<forall>p \<in> set (qs ! j). sends (s, j) p)
      | ActiveMultistreamSinkStage ds al un pe \<Rightarrow> nout g s = 0 \<and> length ds = nin g s \<and>
          (\<forall>i \<in> set pe. i < nin g s \<and> in_mate_at g (s, i) \<noteq> None) \<and>
          (\<forall>i < nin g s. i \<notin> set pe \<longrightarrow> \<not> held g (s, i) \<and> demand_of g (s, i) = kNegative))"

definition packets_fit :: "(nat \<Rightarrow> 'p packet \<Rightarrow> bool) \<Rightarrow> ('p, 'e) graph \<Rightarrow> bool" where
  "packets_fit fits g \<longleftrightarrow> (\<forall>c p. is_input g c \<longrightarrow> packet_at g c = Some p \<longrightarrow> fits (fst c) p)"

definition typed :: "(nat \<Rightarrow> 'p packet \<Rightarrow> bool) \<Rightarrow> (connector \<Rightarrow> 'p packet \<Rightarrow> bool) \<Rightarrow> ('p, 'e) graph \<Rightarrow> bool" where
  "typed fits sends g \<longleftrightarrow> (\<forall>m c p. is_output g m \<longrightarrow> out_mate_at g m = Some c \<longrightarrow> sends m p \<longrightarrow> fits (fst c) p)"

text \<open>A stage with nothing to do: it holds no packet it could pass on, and the demand it sees is the demand
  it has signalled upstream.\<close>

definition quiescent :: "('p, 'e) graph \<Rightarrow> nat \<Rightarrow> bool" where
  "quiescent g s \<longleftrightarrow>
     (case kind_of g s of
        TransformStage a n \<Rightarrow>
          (held g (s, 0) \<longrightarrow> eff g (s, 0) = kNegative) \<and> demand_of g (s, 0) = eff g (s, 0)
      | ActiveSinkStage d \<Rightarrow> \<not> held g (s, 0) \<and> demand_of g (s, 0) = d
      | ActiveSourceStage b ps \<Rightarrow> ps \<noteq> [] \<longrightarrow> eff g (s, 0) = kNegative
      | MultistreamSourceStage c i n \<Rightarrow>
          (\<exists>j < nout g s. eff g (s, j) = kPositive) \<longrightarrow>
          (case c of None \<Rightarrow> n = nout g s | Some p \<Rightarrow> eff g (s, i) = kNegative)
      | ActiveMultistreamSourceStage qs n b \<Rightarrow>
          (\<forall>j < nout g s. qs ! j \<noteq> [] \<longrightarrow> eff g (s, j) = kNegative) \<and>
          ((\<exists>j < nout g s. qs ! j = [] \<and> eff g (s, j) = kPositive) \<longrightarrow> b)
      | ActiveMultistreamSinkStage ds al un pe \<Rightarrow>
          \<forall>i \<in> set pe. \<not> held g (s, i) \<and> demand_of g (s, i) = ds ! i)"

text \<open>\<open>cur\<close> is the stage that is being updated. Every other stage is quiescent or in a backlog; and where
  a packet waits under demand, the consumer is in the supply backlog, and the producer in the other, or
  about to be put there.\<close>

definition awake :: "nat option \<Rightarrow> ('p, 'e) graph \<Rightarrow> bool" where
  "awake cur g \<longleftrightarrow> (\<forall>s \<in> set (stages g). Some s = cur \<or> s \<in> set (supply_backlog g) \<or> s \<in> set (demand_backlog g) \<or> quiescent g s)"

definition waiting :: "nat option \<Rightarrow> ('p, 'e) graph \<Rightarrow> bool" where
  "waiting cur g \<longleftrightarrow>
     (\<forall>c m. is_input g c \<longrightarrow> in_mate_at g c = Some m \<longrightarrow> held g c \<longrightarrow> raw g m = kNegative \<or>
        (if Some (fst c) = cur then fst m \<in> set (demand_backlog g)
         else fst c \<in> set (supply_backlog g) \<and>
           (fst m \<in> set (demand_backlog g) \<or> Some (fst m) = cur \<and> packets_produced g)))"

definition settled ::
    "(nat \<Rightarrow> nat) \<Rightarrow> (nat \<Rightarrow> 'p packet \<Rightarrow> bool) \<Rightarrow> (connector \<Rightarrow> 'p packet \<Rightarrow> bool) \<Rightarrow> nat option \<Rightarrow> ('p, 'e) graph \<Rightarrow> bool" where
  "settled streams fits sends cur g \<longleftrightarrow>
     wired g \<and> loop_free g \<and> backlogs_ok g \<and> (\<forall>s \<in> set (stages g). stage_ready streams sends g s) \<and>
     packets_fit fits g \<and> typed fits sends g \<and> awake cur g \<and> waiting cur g"

lemma wired_in: "wired g \<Longrightarrow> is_input g c \<Longrightarrow> in_mate_at g c = Some m \<Longrightarrow> is_output g m \<and> out_mate_at g m = Some c"
  unfolding wired_def by blast

lemma wired_out: "wired g \<Longrightarrow> is_output g m \<Longrightarrow> out_mate_at g m = Some c \<Longrightarrow> is_input g c \<and> in_mate_at g c = Some m"
  unfolding wired_def by blast

lemma output_demand_eq:
  "wired g \<Longrightarrow> is_output g m \<Longrightarrow> out_mate_at g m = Some c \<Longrightarrow> output_demand m g = Some (eff g m)"
  using wired_out [of g m c] by (auto simp: output_demand_def get_output_eq get_input_eq eff_def)

definition with_raw :: "connector \<Rightarrow> demand \<Rightarrow> ('p, 'e) graph \<Rightarrow> ('p, 'e) graph" where
  "with_raw m d g = (if raw g m = d then g else push_to_demand_backlog (fst m) (upd_output m (\<lambda>x. x\<lparr>out_demand := d\<rparr>) g))"

lemma set_demand_eq:
  assumes "wired g" "is_input g c" "in_mate_at g c = Some m"
  shows "input_set_demand c d g = Some (with_raw m d g)"
  using wired_in [OF assms] assms(2,3) by (simp add: input_set_demand_def get_input_eq get_output_eq with_raw_def)

lemma quiescent_cong:
  assumes "stage_ready streams sends g u" "kind_of g' u = kind_of g u" "nin g' u = nin g u" "nout g' u = nout g u"
    and "\<And>i. i < nin g u \<Longrightarrow> packet_at g' (u, i) = None \<longleftrightarrow> packet_at g (u, i) = None" "\<And>i. i < nin g u \<Longrightarrow> demand_of g' (u, i) = demand_of g (u, i)"
    and "\<And>j. j < nout g u \<Longrightarrow> eff g' (u, j) = eff g (u, j)"
  shows "quiescent g' u = quiescent g u"
proof (cases "kind_of g u")
  case (MultistreamSourceStage c i n)
  then have "c \<noteq> None \<longrightarrow> i < nout g u" using assms(1) by (auto simp: stage_ready_def)
  then show ?thesis using MultistreamSourceStage assms(2-) by (auto simp: quiescent_def split: option.splits)
next
  case (ActiveMultistreamSinkStage ds al un pe)
  then have "\<forall>i \<in> set pe. i < nin g u" using assms(1) by (auto simp: stage_ready_def)
  then show ?thesis using ActiveMultistreamSinkStage assms(2-) by (simp add: quiescent_def)
qed (use assms in \<open>auto simp: quiescent_def stage_ready_def\<close>)

section \<open>What a stage may do while it is updated\<close>

definition same_wires :: "('p, 'e) graph \<Rightarrow> ('p, 'e) graph \<Rightarrow> bool" where
  "same_wires g g' \<longleftrightarrow> stages g' = stages g \<and> nin g' = nin g \<and> nout g' = nout g \<and>
     (\<forall>c. is_input g c \<longrightarrow> in_mate_at g' c = in_mate_at g c) \<and> (\<forall>m. is_output g m \<longrightarrow> out_mate_at g' m = out_mate_at g m)"

lemma same_wiresD:
  assumes "same_wires g g'"
  shows "stages g' = stages g" "nin g' = nin g" "nout g' = nout g" "is_input g' = is_input g" "is_output g' = is_output g"
    "\<And>c. is_input g c \<Longrightarrow> in_mate_at g' c = in_mate_at g c" "\<And>m. is_output g m \<Longrightarrow> out_mate_at g' m = out_mate_at g m"
  using assms by (auto simp: same_wires_def is_input_def is_output_def fun_eq_iff)

lemma same_wires_wired: "same_wires g g' \<Longrightarrow> wired g \<Longrightarrow> wired g'"
  unfolding wired_def using same_wiresD [of g g'] by metis

lemma same_wires_loop_free: "same_wires g g' \<Longrightarrow> loop_free g \<Longrightarrow> loop_free g'"
  unfolding loop_free_def using same_wiresD [of g g'] by metis

lemma same_wires_typed: "same_wires g g' \<Longrightarrow> typed fits sends g \<Longrightarrow> typed fits sends g'"
  unfolding typed_def using same_wiresD [of g g'] by metis

lemma settledD:
  assumes "settled streams fits sends cur g"
  shows "wired g" "loop_free g" "backlogs_ok g" "\<And>s. s \<in> set (stages g) \<Longrightarrow> stage_ready streams sends g s"
    "packets_fit fits g" "typed fits sends g" "awake cur g" "waiting cur g"
  using assms by (auto simp: settled_def)

lemma waitingD:
  "waiting cur g \<Longrightarrow> is_input g c \<Longrightarrow> in_mate_at g c = Some m \<Longrightarrow> packet_at g c = Some p \<Longrightarrow> raw g m = kNegative \<or>
     (if Some (fst c) = cur then fst m \<in> set (demand_backlog g)
      else fst c \<in> set (supply_backlog g) \<and>
        (fst m \<in> set (demand_backlog g) \<or> Some (fst m) = cur \<and> packets_produced g))"
  unfolding waiting_def by blast

lemma packets_fitD: "packets_fit fits g \<Longrightarrow> is_input g c \<Longrightarrow> packet_at g c = Some p \<Longrightarrow> fits (fst c) p"
  unfolding packets_fit_def by blast

lemma typedD: "typed fits sends g \<Longrightarrow> is_output g m \<Longrightarrow> out_mate_at g m = Some c \<Longrightarrow> sends m p \<Longrightarrow> fits (fst c) p"
  unfolding typed_def by blast

lemma loop_freeD: "loop_free g \<Longrightarrow> is_input g c \<Longrightarrow> in_mate_at g c = Some m \<Longrightarrow> fst m \<noteq> fst c"
  unfolding loop_free_def by blast

text \<open>
  The stage being updated may drop its own packets, hand packets to stages that want one, which go to the
  supply backlog, and change the demand on the outputs it is fed by, whose stages go to the demand backlog.
\<close>

definition fed_by :: "('p, 'e) graph \<Rightarrow> nat \<Rightarrow> connector \<Rightarrow> bool" where
  "fed_by g s c \<longleftrightarrow> (\<exists>m. in_mate_at g c = Some m \<and> fst m = s \<and> raw g m \<noteq> kNegative)"

definition allowed_change :: "(nat \<Rightarrow> 'p packet \<Rightarrow> bool) \<Rightarrow> nat \<Rightarrow> ('p, 'e) graph \<Rightarrow> ('p, 'e) graph \<Rightarrow> bool" where
  "allowed_change fits s g g' \<longleftrightarrow>
     same_wires g g' \<and> backlogs_ok g' \<and> (\<forall>u. u \<noteq> s \<longrightarrow> kind_of g' u = kind_of g u) \<and>
     set (supply_backlog g) \<subseteq> set (supply_backlog g') \<and> set (demand_backlog g) \<subseteq> set (demand_backlog g') \<and>
     (packets_produced g \<longrightarrow> packets_produced g') \<and>
     (\<forall>c. is_input g c \<longrightarrow> packet_at g' c = packet_at g c \<or> (fst c = s \<and> packet_at g' c = None) \<or>
        (fed_by g s c \<and> (\<exists>p. packet_at g' c = Some p \<and> fits (fst c) p) \<and> fst c \<in> set (supply_backlog g') \<and> packets_produced g')) \<and>
     (\<forall>m. is_output g m \<longrightarrow> raw g' m = raw g m \<or> (\<exists>c. out_mate_at g m = Some c \<and> fst c = s \<and> fst m \<in> set (demand_backlog g')))"

lemma settled_change:
  assumes S: "settled streams fits sends (Some s) g" and A: "allowed_change fits s g g'"
    and "stage_ready streams sends g' s"
  shows "settled streams fits sends (Some s) g'"
proof -
  note D = settledD [OF S]
  have W: "same_wires g g'" and B: "backlogs_ok g'" and K: "\<And>u. u \<noteq> s \<Longrightarrow> kind_of g' u = kind_of g u"
    and sup: "set (supply_backlog g) \<subseteq> set (supply_backlog g')" and dem: "set (demand_backlog g) \<subseteq> set (demand_backlog g')"
    and prod: "packets_produced g \<longrightarrow> packets_produced g'"
    and I: "\<And>c. is_input g c \<Longrightarrow> packet_at g' c = packet_at g c \<or> (fst c = s \<and> packet_at g' c = None) \<or>
        (fed_by g s c \<and> (\<exists>p. packet_at g' c = Some p \<and> fits (fst c) p) \<and> fst c \<in> set (supply_backlog g') \<and> packets_produced g')"
    and R: "\<And>m. is_output g m \<Longrightarrow> raw g' m = raw g m \<or> (\<exists>c. out_mate_at g m = Some c \<and> fst c = s \<and> fst m \<in> set (demand_backlog g'))"
    using A unfolding allowed_change_def by blast+
  note w = same_wiresD [OF W]
  have demand_same: "demand_of g' c = demand_of g c" if "is_input g c" "fst c \<noteq> s" for c
  proof (cases "in_mate_at g c")
    case (Some m)
    note io = wired_in [OF D(1) that(1) Some]
    then have "raw g' m = raw g m" using R [of m] that(2) by auto
    then show ?thesis using Some w(6) [OF that(1)] by (simp add: demand_of_def)
  qed (use w(6) [OF that(1)] in \<open>simp add: demand_of_def\<close>)
  have ready: "stage_ready streams sends g' u" if u: "u \<in> set (stages g)" for u
  proof (cases "u = s")
    case False
    have out: "is_output g (u, j)" if "j < nout g u" for j using u that by (simp add: is_output_def)
    have inp: "is_input g (u, j)" if "j < nin g u" for j using u that by (simp add: is_input_def)
    have idle: "\<not> held g' (u, i) \<and> demand_of g' (u, i) = kNegative"
      if i: "i < nin g u" "\<not> held g (u, i) \<and> demand_of g (u, i) = kNegative" for i
    proof -
      have "\<not> fed_by g s (u, i)" using i(2) by (auto simp: fed_by_def demand_of_def)
      then show ?thesis using I [OF inp [OF i(1)]] demand_same [OF inp [OF i(1)]] False i(2) by auto
    qed
    have mates: "\<forall>j < nout g u. out_mate_at g' (u, j) = out_mate_at g (u, j)" "\<forall>j < nin g u. in_mate_at g' (u, j) = in_mate_at g (u, j)"
      using w(6,7) out inp by blast+
    show ?thesis
      using D(4) [OF u] mates idle K [OF False] w(2,3) unfolding stage_ready_def by (cases "kind_of g u") (simp_all, auto)
  qed (use assms(3) in simp)
  have "awake (Some s) g'"
    unfolding awake_def
  proof
    fix u assume u: "u \<in> set (stages g')"
    show "Some u = Some s \<or> u \<in> set (supply_backlog g') \<or> u \<in> set (demand_backlog g') \<or> quiescent g' u"
    proof (rule ccontr)
      assume n: "\<not> ?thesis"
      then have us: "u \<noteq> s" "u \<notin> set (supply_backlog g')" "u \<notin> set (demand_backlog g')" by auto
      have u': "u \<in> set (stages g)" using u w(1) by simp
      have q: "quiescent g u" using D(7) u' us sup dem unfolding awake_def by auto
      have "quiescent g' u = quiescent g u"
      proof (rule quiescent_cong [OF D(4) [OF u'] K [OF us(1)]])
        fix i assume i: "i < nin g u"
        then have inp: "is_input g (u, i)" using u' by (simp add: is_input_def)
        show "packet_at g' (u, i) = None \<longleftrightarrow> packet_at g (u, i) = None" using I [OF inp] us by auto
        show "demand_of g' (u, i) = demand_of g (u, i)" using demand_same [OF inp] us(1) by simp
      next
        fix j assume j: "j < nout g u"
        then have out: "is_output g (u, j)" using u' by (simp add: is_output_def)
        have r: "raw g' (u, j) = raw g (u, j)" using R [OF out] us by auto
        show "eff g' (u, j) = eff g (u, j)"
        proof (cases "out_mate_at g (u, j)")
          case (Some c)
          note io = wired_out [OF D(1) out Some]
          have nf: "\<not> fed_by g s c" using io us(1) by (auto simp: fed_by_def)
          show ?thesis
          proof (cases "packet_at g' c = packet_at g c")
            case False
            then have c: "fst c = s" "packet_at g' c = None" "held g c" using I [of c] io nf by auto
            then have "raw g (u, j) = kNegative \<or> u \<in> set (demand_backlog g)"
              using D(8) io unfolding waiting_def by (metis fst_conv)
            then show ?thesis using us dem r by (auto simp: eff_def)
          qed (use Some r w(7) [OF out] in \<open>simp add: eff_def\<close>)
        qed (use r w(7) [OF out] in \<open>simp add: eff_def\<close>)
      qed (use w(2,3) in simp_all)
      then show False using q n by simp
    qed
  qed
  moreover have "waiting (Some s) g'"
    unfolding waiting_def
  proof (intro allI impI)
    fix c m
    assume c: "is_input g' c" "in_mate_at g' c = Some m" "held g' c"
    then have c': "is_input g c" "in_mate_at g c = Some m" using w(4,6) by auto
    note io = wired_in [OF D(1) c'] and lf = D(2) [unfolded loop_free_def, rule_format, OF c']
    show "raw g' m = kNegative \<or>
        (if Some (fst c) = Some s then fst m \<in> set (demand_backlog g')
         else fst c \<in> set (supply_backlog g') \<and>
           (fst m \<in> set (demand_backlog g') \<or> Some (fst m) = Some s \<and> packets_produced g'))"
      using I [OF c'(1)]
    proof (elim disjE)
      assume "packet_at g' c = packet_at g c"
      then have "raw g m = kNegative \<or>
        (if Some (fst c) = Some s then fst m \<in> set (demand_backlog g)
         else fst c \<in> set (supply_backlog g) \<and>
           (fst m \<in> set (demand_backlog g) \<or> Some (fst m) = Some s \<and> packets_produced g))"
        using waitingD [OF D(8) c'] c(3) by auto
      then show ?thesis using R [of m] io sup dem prod by (auto split: if_splits)
    next
      assume "fst c = s \<and> packet_at g' c = None"
      then show ?thesis using c(3) by simp
    next
      assume f: "fed_by g s c \<and> (\<exists>p. packet_at g' c = Some p \<and> fits (fst c) p) \<and> fst c \<in> set (supply_backlog g') \<and> packets_produced g'"
      then have "fst m = s" using c'(2) by (auto simp: fed_by_def)
      then show ?thesis using f lf by auto
    qed
  qed
  moreover have "packets_fit fits g'"
    unfolding packets_fit_def
  proof (intro allI impI)
    fix c p assume "is_input g' c" "packet_at g' c = Some p"
    then show "fits (fst c) p" using I [of c] packets_fitD [OF D(5)] w(4) by fastforce
  qed
  ultimately show ?thesis
    using D(1,2,6) W B ready w(1) same_wires_wired same_wires_loop_free same_wires_typed unfolding settled_def by auto
qed

lemma backlogs_okD:
  assumes "backlogs_ok g"
  shows "distinct (supply_backlog g)" "distinct (demand_backlog g)" "set (supply_backlog g) \<subseteq> set (stages g)"
    "set (demand_backlog g) \<subseteq> set (stages g)" "\<And>s. s \<in> set (stages g) \<Longrightarrow> in_sup g s \<longleftrightarrow> s \<in> set (supply_backlog g)"
    "\<And>s. s \<in> set (stages g) \<Longrightarrow> in_dem g s \<longleftrightarrow> s \<in> set (demand_backlog g)"
  using assms by (auto simp: backlogs_ok_def)

lemma backlogs_ok_cong:
  assumes "backlogs_ok g" "stages g' = stages g" "supply_backlog g' = supply_backlog g" "demand_backlog g' = demand_backlog g"
    "in_sup g' = in_sup g" "in_dem g' = in_dem g"
  shows "backlogs_ok g'"
  using assms by (simp add: backlogs_ok_def)

lemma push_supply_backlogs: "backlogs_ok g \<Longrightarrow> s \<in> set (stages g) \<Longrightarrow> backlogs_ok (push_to_supply_backlog s g)"
  by (auto simp: backlogs_ok_def)

lemma push_demand_backlogs: "backlogs_ok g \<Longrightarrow> s \<in> set (stages g) \<Longrightarrow> backlogs_ok (push_to_demand_backlog s g)"
  by (auto simp: backlogs_ok_def)

lemma settled_kind:
  assumes "settled streams fits sends (Some s) g" "stage_ready streams sends (upd_kind s k g) s"
  shows "settled streams fits sends (Some s) (upd_kind s k g)"
  using settled_change [OF assms(1) _ assms(2)] settledD(3) [OF assms(1)]
  by (auto simp: allowed_change_def same_wires_def backlogs_ok_def)

lemma stage_ready_cong:
  assumes "stage_ready streams sends g s" "s \<in> set (stages g)" "same_wires g g'" "kind_of g' s = kind_of g s"
    and "\<And>i. i < nin g s \<Longrightarrow> packet_at g (s, i) = None \<Longrightarrow> demand_of g (s, i) = kNegative \<Longrightarrow>
      packet_at g' (s, i) = None \<and> demand_of g' (s, i) = kNegative"
  shows "stage_ready streams sends g' s"
proof -
  note w = same_wiresD [OF assms(3)]
  have "\<forall>j < nout g s. out_mate_at g' (s, j) = out_mate_at g (s, j)" "\<forall>j < nin g s. in_mate_at g' (s, j) = in_mate_at g (s, j)"
    using w(6,7) assms(2) by (auto simp: is_output_def is_input_def)
  then show ?thesis
    using assms(1,4,5) w(2,3) unfolding stage_ready_def by (cases "kind_of g s") (simp_all, auto)
qed

lemma settled_world:
  assumes "settled streams fits sends (Some s) g" "s \<in> set (stages g)"
  shows "settled streams fits sends (Some s) (g\<lparr>world := w\<rparr>)"
proof (rule settled_change [OF assms(1)])
  show "allowed_change fits s g (g\<lparr>world := w\<rparr>)"
    using settledD(3) [OF assms(1)] by (simp add: allowed_change_def same_wires_def backlogs_ok_def)
  show "stage_ready streams sends (g\<lparr>world := w\<rparr>) s"
    by (rule stage_ready_cong [OF settledD(4) [OF assms] assms(2)]) (simp_all add: same_wires_def)
qed

lemma take_packet_simps [simp]:
  "output_at (take_packet c g) = output_at g" "kind_of (take_packet c g) = kind_of g" "nin (take_packet c g) = nin g"
  "nout (take_packet c g) = nout g" "stages (take_packet c g) = stages g" "supply_backlog (take_packet c g) = supply_backlog g"
  "demand_backlog (take_packet c g) = demand_backlog g" "packets_produced (take_packet c g) = packets_produced g"
  "world (take_packet c g) = world g" "is_input (take_packet c g) = is_input g" "is_output (take_packet c g) = is_output g"
  "in_sup (take_packet c g) = in_sup g" "in_dem (take_packet c g) = in_dem g"
  by (simp_all add: take_packet_def)

lemma take_packet_input:
  "is_input g c \<Longrightarrow> input_at (take_packet c g) = (input_at g)(c := (input_at g c)\<lparr>in_packet := None\<rparr>)"
  by (simp add: take_packet_def input_at_upd)

lemma demand_of_take [simp]: "is_input g c \<Longrightarrow> demand_of (take_packet c g) = demand_of g"
  by (auto intro!: demand_of_cong simp: take_packet_input)

lemma settled_take:
  assumes S: "settled streams fits sends (Some s) g" and c: "is_input g (s, i)"
  shows "settled streams fits sends (Some s) (take_packet (s, i) g)"
proof (rule settled_change [OF S])
  have s: "s \<in> set (stages g)" using c by (simp add: is_input_def)
  have W: "same_wires g (take_packet (s, i) g)" using c by (simp add: same_wires_def take_packet_input)
  show "allowed_change fits s g (take_packet (s, i) g)"
    using settledD(3) [OF S] W c
    by (auto simp: allowed_change_def take_packet_input elim!: backlogs_ok_cong)
  show "stage_ready streams sends (take_packet (s, i) g) s"
    by (rule stage_ready_cong [OF settledD(4) [OF S s] s W]) (simp_all add: take_packet_input c)
qed

lemma settled_set_demand:
  assumes S: "settled streams fits sends (Some s) g" and c: "is_input g (s, i)" "in_mate_at g (s, i) = Some m"
    and i: "\<And>ds al un pe. kind_of g s = ActiveMultistreamSinkStage ds al un pe \<Longrightarrow> i \<in> set pe"
    and g'_def: "g' = with_raw m d g"
  shows "input_set_demand (s, i) d g = Some g' \<and> settled streams fits sends (Some s) g' \<and> demand_of g' (s, i) = d"
proof -
  note D = settledD [OF S] and io = wired_in [OF settledD(1) [OF S] c]
  have s: "s \<in> set (stages g)" "fst m \<in> set (stages g)" using c io by (simp_all add: is_input_def is_output_def)
  have W: "same_wires g g'" using io by (simp add: g'_def with_raw_def same_wires_def output_at_upd)
  have inp: "input_at g' = input_at g" by (simp add: g'_def with_raw_def)
  have raws: "raw g' n = (if n = m then d else raw g n)" for n using io by (simp add: g'_def with_raw_def output_at_upd)
  have "backlogs_ok g'" unfolding g'_def with_raw_def using D(3) s(2)
    by (auto intro!: push_demand_backlogs elim!: backlogs_ok_cong)
  moreover have fed: "raw g m \<noteq> d \<Longrightarrow> fst m \<in> set (demand_backlog g')"
    using backlogs_okD(6) [OF D(3) s(2)] by (simp add: g'_def with_raw_def)
  ultimately have "allowed_change fits s g g'"
    using W raws io fed unfolding allowed_change_def inp
    by (intro conjI allI impI) (auto simp: g'_def with_raw_def split: if_splits)
  moreover have "stage_ready streams sends g' s"
  proof -
    have mates: "\<forall>j < nout g s. out_mate_at g' (s, j) = out_mate_at g (s, j)"
      using same_wiresD(7) [OF W] s by (auto simp: is_output_def)
    have demands: "demand_of g' (s, k) = demand_of g (s, k)" if "k \<noteq> i" "k < nin g s" for k
    proof -
      have "in_mate_at g (s, k) \<noteq> Some m" using wired_in [OF D(1), of "(s, k)" m] io that s by (auto simp: is_input_def)
      then show ?thesis by (auto simp: demand_of_def inp raws split: option.split)
    qed
    have k: "kind_of g' = kind_of g" by (simp add: g'_def with_raw_def)
    have "demand_of g' (s, k) = demand_of g (s, k)" if "kind_of g s = ActiveMultistreamSinkStage ds al un pe" "k < nin g s" "k \<notin> set pe"
      for k ds al un pe using demands [of k] i [OF that(1)] that by blast
    then show ?thesis
      using D(4) [OF s(1)] mates same_wiresD(2,3) [OF W] unfolding stage_ready_def
      by (cases "kind_of g s") (auto simp: k inp)
  qed
  ultimately have "settled streams fits sends (Some s) g'" using settled_change [OF S] by blast
  moreover have "demand_of g' (s, i) = d" using c by (simp add: demand_of_def inp raws)
  ultimately show ?thesis using set_demand_eq [OF D(1) c] by (simp add: g'_def with_raw_def)
qed

definition with_packet :: "connector \<Rightarrow> 'p packet \<Rightarrow> ('p, 'e) graph \<Rightarrow> ('p, 'e) graph" where
  "with_packet c q g = push_to_supply_backlog (fst c) (upd_input c (\<lambda>x. x\<lparr>in_packet := Some q\<rparr>) g)"

lemma with_packet_simps [simp]:
  "output_at (with_packet c q g) = output_at g" "kind_of (with_packet c q g) = kind_of g" "nin (with_packet c q g) = nin g"
  "nout (with_packet c q g) = nout g" "stages (with_packet c q g) = stages g"
  "demand_backlog (with_packet c q g) = demand_backlog g" "packets_produced (with_packet c q g)"
  "world (with_packet c q g) = world g" "is_input (with_packet c q g) = is_input g" "is_output (with_packet c q g) = is_output g"
  by (simp_all add: with_packet_def)

lemma with_packet_input:
  "is_input g c \<Longrightarrow> input_at (with_packet c q g) = (input_at g)(c := (input_at g c)\<lparr>in_packet := Some q\<rparr>)"
  by (simp add: with_packet_def input_at_upd)

lemma eff_with_packet:
  assumes "wired g" "is_output g m" "out_mate_at g m = Some c" "is_output g m'"
  shows "eff (with_packet c q g) m' = (if m' = m then kNegative else eff g m')"
proof -
  have c: "is_input g c" "in_mate_at g c = Some m" using wired_out [OF assms(1-3)] by auto
  have "out_mate_at g m' \<noteq> Some c" if "m' \<noteq> m" using wired_out [OF assms(1,4), of c] c that by auto
  then show ?thesis using assms(3) by (auto simp: eff_def with_packet_input [OF c(1)] split: option.split)
qed

lemma demand_of_with_packet [simp]: "is_input g c \<Longrightarrow> demand_of (with_packet c q g) = demand_of g"
  by (auto intro!: demand_of_cong simp: with_packet_input)

lemma supply_backlog_with_packet:
  "set (supply_backlog g) \<subseteq> set (supply_backlog (with_packet c q g))"
  "backlogs_ok g \<Longrightarrow> fst c \<in> set (stages g) \<Longrightarrow> fst c \<in> set (supply_backlog (with_packet c q g))"
  by (auto simp: with_packet_def backlogs_okD(5))

lemma settled_with_packet:
  assumes S: "settled streams fits sends (Some s) g" and m: "is_output g (s, j)" "out_mate_at g (s, j) = Some c"
    and e: "eff g (s, j) \<noteq> kNegative" and q: "sends (s, j) q"
  shows "settled streams fits sends (Some s) (with_packet c q g)"
proof (rule settled_change [OF S])
  note D = settledD [OF S] and io = wired_out [OF settledD(1) [OF S] m]
  have lf: "fst c \<noteq> s" using loop_freeD [OF D(2)] io by fastforce
  have s: "s \<in> set (stages g)" "fst c \<in> set (stages g)" using m io by (simp_all add: is_output_def is_input_def)
  have r: "raw g (s, j) \<noteq> kNegative" using e by (auto simp: eff_def)
  have W: "same_wires g (with_packet c q g)" using io by (simp add: same_wires_def with_packet_input)
  have "fed_by g s c" using io r by (simp add: fed_by_def)
  moreover have "fits (fst c) q" using typedD [OF D(6) m q] .
  moreover have "backlogs_ok (with_packet c q g)"
    unfolding with_packet_def using D(3) s(2) by (auto intro!: push_supply_backlogs elim!: backlogs_ok_cong)
  ultimately show "allowed_change fits s g (with_packet c q g)"
    using W supply_backlog_with_packet [where c = c and q = q and g = g] D(3) s(2) io
    unfolding allowed_change_def by (auto simp: with_packet_input)
  show "stage_ready streams sends (with_packet c q g) s"
    by (rule stage_ready_cong [OF D(4) [OF s(1)] s(1) W]) (use lf io in \<open>auto simp: with_packet_input\<close>)
qed

section \<open>What the hosted objects promise\<close>

text \<open>
  The transform, source and sink objects: packets are well formed, a transform that is not done with its
  packet gives an output, a pull gives a packet for one of the streams, and allocators are not starved.
  \<open>fits s\<close> are the packets stage \<open>s\<close> may be given.
\<close>

locale good_parts =
  fixes P :: "('p, 'e) parts" and streams :: "nat \<Rightarrow> nat" and fits :: "nat \<Rightarrow> 'p packet \<Rightarrow> bool"
    and sends :: "connector \<Rightarrow> 'p packet \<Rightarrow> bool"
  assumes sends_well_formed: "sends m p \<Longrightarrow> (pk_size p = 0) = (pk_payload p = None)"
    and sends_copy: "sends m p \<Longrightarrow> sends m (p\<lparr>pk_has_allocator := True, pk_revised := None\<rparr>)"
    and never_starved: "allocates P a n w"
    and transform_progress: "fits s p \<Longrightarrow> \<exists>finished q w'. do_transform P s p new a w = Some (finished, q, w') \<and>
      (finished \<or> q \<noteq> None) \<and> (\<forall>x. q = Some x \<longrightarrow> sends (s, 0) x)"
    and pull_gives_packet: "\<exists>p i w'. do_pull P s w = (Some p, i, w') \<and> i < streams s \<and> sends (s, i) p"
begin

abbreviation "ok \<equiv> settled streams fits sends"

lemma copied:
  assumes "sends m p"
  shows "\<exists>q. copied_packet P a p w = Some (Some q) \<and> sends m q"
proof (cases a)
  case (Some b)
  let ?q = "p\<lparr>pk_has_allocator := True, pk_revised := None\<rparr>"
  have "copied_packet P a p w = Some (Some ?q)"
    using sends_well_formed [OF assms] never_starved [of b "pk_size p" w] Some
    by (simp add: copied_packet_def packet_create_def new_packet_def)
  then show ?thesis using sends_copy [OF assms] by blast
qed (use assms in \<open>simp add: copied_packet_def\<close>)

lemma supply_returns:
  assumes S: "ok (Some s) g" and m: "is_output g (s, j)" "out_mate_at g (s, j) = Some c"
    and e: "eff g (s, j) \<noteq> kNegative" and p: "sends (s, j) p"
  shows "\<exists>q. output_supply_packet P (s, j) p g = Some (with_packet c q g) \<and> ok (Some s) (with_packet c q g)"
proof -
  note io = wired_out [OF settledD(1) [OF S] m]
  have "packet_at g c = None" using e m by (auto simp: eff_def split: if_splits)
  moreover obtain q where "copied_packet P (out_copy_allocator (output_at g (s, j))) p (world g) = Some (Some q)" "sends (s, j) q"
    using copied [OF p] by blast
  ultimately show ?thesis
    using settled_with_packet [OF S m e] m io
    by (auto simp: output_supply_packet_def get_output_eq supply_packet_from_output_def get_input_eq with_packet_def)
qed

end

end
