(* ===== verification/Graph_Updates.thy ===== *)
theory Graph_Updates
  imports Graph_Invariant
begin

text \<open>
  Every kind of stage, when it is updated, returns, keeps the invariant and leaves itself quiescent, or
  asks for another update by having produced a packet.
\<close>

context good_parts
begin

definition updated :: "nat \<Rightarrow> ('p, 'e) graph \<Rightarrow> bool" where
  "updated s g \<longleftrightarrow> (quiescent g s \<or> packets_produced g) \<and>
     (\<forall>i < nin g s. held g (s, i) \<longrightarrow> demand_of g (s, i) = kNegative)"

lemma ready_mates:
  assumes "ok cur g" "s \<in> set (stages g)" "j < nout g s"
  obtains c where "is_output g (s, j)" "out_mate_at g (s, j) = Some c" "is_input g c" "in_mate_at g c = Some (s, j)"
    "output_demand (s, j) g = Some (eff g (s, j))"
proof -
  have o: "is_output g (s, j)" using assms(2,3) by (simp add: is_output_def)
  moreover obtain c where c: "out_mate_at g (s, j) = Some c"
    using settledD(4) [OF assms(1,2)] assms(3) by (auto simp: stage_ready_def)
  ultimately show thesis
    using that wired_out [OF settledD(1) [OF assms(1)] o c] output_demand_eq [OF settledD(1) [OF assms(1)] o c] by blast
qed

lemma set_demand_returns:
  assumes "ok (Some s) g" "is_input g (s, i)" "in_mate_at g (s, i) = Some m"
    and "\<And>ds al un pe. kind_of g s = ActiveMultistreamSinkStage ds al un pe \<Longrightarrow> i \<in> set pe"
  shows "input_set_demand (s, i) d g = Some (with_raw m d g)" "ok (Some s) (with_raw m d g)" "demand_of (with_raw m d g) (s, i) = d"
proof -
  have "input_set_demand (s, i) d g = Some (with_raw m d g) \<and> ok (Some s) (with_raw m d g) \<and> demand_of (with_raw m d g) (s, i) = d"
    by (rule settled_set_demand [OF assms(1-3) _ refl]) (rule assms(4))
  then show "input_set_demand (s, i) d g = Some (with_raw m d g)" "ok (Some s) (with_raw m d g)" "demand_of (with_raw m d g) (s, i) = d"
    by blast+
qed

lemma with_raw_simps [simp]:
  "input_at (with_raw m d g) = input_at g" "kind_of (with_raw m d g) = kind_of g" "nin (with_raw m d g) = nin g"
  "nout (with_raw m d g) = nout g" "stages (with_raw m d g) = stages g" "packets_produced (with_raw m d g) = packets_produced g"
  "world (with_raw m d g) = world g" "is_input (with_raw m d g) = is_input g" "is_output (with_raw m d g) = is_output g"
  by (simp_all add: with_raw_def)

lemma with_raw_output:
  "is_output g m \<Longrightarrow> output_at (with_raw m d g) = (output_at g)(m := (output_at g m)\<lparr>out_demand := d\<rparr>)"
  by (auto simp: with_raw_def output_at_upd fun_eq_iff)

lemma eff_with_raw: "is_output g m \<Longrightarrow> m' \<noteq> m \<Longrightarrow> eff (with_raw m d g) m' = eff g m'"
  by (simp add: eff_def with_raw_output split: option.split)

lemma demand_of_with_raw:
  assumes "wired g" "is_input g c" "in_mate_at g c = Some m" "is_input g c'" "c' \<noteq> c"
  shows "demand_of (with_raw m d g) c' = demand_of g c'"
proof -
  have m: "is_output g m" "out_mate_at g m = Some c" using wired_in [OF assms(1-3)] by auto
  have "in_mate_at g c' \<noteq> Some m" using wired_in [OF assms(1,4), of m] m assms(5) by auto
  then show ?thesis using m by (auto simp: demand_of_def with_raw_output split: option.split)
qed

subsection \<open>Transforms\<close>

lemma transform_turn_returns:
  assumes S: "ok (Some s) g" and s: "s \<in> set (stages g)" and k: "kind_of g s = TransformStage (Some a) n"
    and h: "packet_at g (s, 0) = Some p" and e: "eff g (s, 0) \<noteq> kNegative"
  shows "\<exists>g' n'. transform_turn P s a g = Some (True, g') \<and> ok (Some s) g' \<and> stages g' = stages g \<and>
    kind_of g' s = TransformStage (Some a) n' \<and> (\<not> held g' (s, 0) \<or> eff g' (s, 0) = kNegative)"
proof -
  have r: "nin g s = 1" "nout g s = 1" using settledD(4) [OF S s] k by (auto simp: stage_ready_def)
  obtain c where c: "is_output g (s, 0)" "out_mate_at g (s, 0) = Some c" "is_input g c" "in_mate_at g c = Some (s, 0)"
    and d: "output_demand (s, 0) g = Some (eff g (s, 0))" using ready_mates [OF S s, of 0] r by auto
  have i: "is_input g (s, 0)" using r s by (simp add: is_input_def)
  have "fits s p" using packets_fitD [OF settledD(5) [OF S] i h] by simp
  then obtain f q w where t: "do_transform P s p n a (world g) = Some (f, q, w)" "f \<or> q \<noteq> None" "\<And>x. q = Some x \<Longrightarrow> sends (s, 0) x"
    using transform_progress [of s p n a "world g"] by blast
  define g1 where "g1 = upd_kind s (TransformStage (Some a) f) (if f then take_packet (s, 0) (g\<lparr>world := w\<rparr>) else g\<lparr>world := w\<rparr>)"
  have S0: "ok (Some s) (if f then take_packet (s, 0) (g\<lparr>world := w\<rparr>) else g\<lparr>world := w\<rparr>)" (is "ok _ ?g0")
    using settled_world [OF S s, of w] settled_take [of streams fits sends s "g\<lparr>world := w\<rparr>" 0] i by auto
  have "stage_ready streams sends (upd_kind s (TransformStage (Some a) f) ?g0) s"
    using settledD(4) [OF S s] k i by (auto simp: stage_ready_def take_packet_input)
  then have S1: "ok (Some s) g1" unfolding g1_def by (rule settled_kind [OF S0])
  have g1: "stages g1 = stages g" "kind_of g1 s = TransformStage (Some a) f" "is_output g1 = is_output g" "output_at g1 = output_at g"
    "is_input g1 = is_input g" "packet_at g1 (s, 0) = (if f then None else Some p)" "world g1 = w"
    using h i by (simp_all add: g1_def take_packet_input)
  have cs: "c \<noteq> (s, 0)" using loop_freeD [OF settledD(2) [OF S] c(3,4)] by auto
  then have e1: "eff g1 (s, 0) = eff g (s, 0)" using c(2) i by (auto simp: eff_def g1_def take_packet_input)
  have turn: "transform_turn P s a g = do { g2 \<leftarrow> (case q of None \<Rightarrow> Some g1 | Some q \<Rightarrow> output_supply_packet P (s, 0) q g1); Some (True, g2) }"
    using i h d e t(1) k by (cases q; cases f) (simp_all add: transform_turn_def get_input_eq g1_def Let_def)
  show ?thesis
  proof (cases q)
    case None
    then have f using t(2) by simp
    then show ?thesis using turn None S1 g1 by auto
  next
    case (Some x)
    obtain y where y: "output_supply_packet P (s, 0) x g1 = Some (with_packet c y g1)" "ok (Some s) (with_packet c y g1)"
      using supply_returns [OF S1, of 0 c x] c(1,2) g1 e e1 t(3) [OF Some] by auto
    have "eff (with_packet c y g1) (s, 0) = kNegative"
      using eff_with_packet [OF settledD(1) [OF S1], of "(s, 0)" c "(s, 0)" y] c(1,2) g1 by simp
    then show ?thesis using turn Some y g1 by auto
  qed
qed

lemma transform_loop_returns:
  assumes S: "ok (Some s) g" and s: "s \<in> set (stages g)" and k: "kind_of g s = TransformStage (Some a) n"
  shows "\<exists>g' n'. transform_loop P s a g = Some g' \<and> ok (Some s) g' \<and> stages g' = stages g \<and>
    kind_of g' s = TransformStage (Some a) n' \<and> (\<not> held g' (s, 0) \<or> eff g' (s, 0) = kNegative)"
proof -
  have stop: "transform_loop P s a h = Some h"
    if "ok (Some s) h" "s \<in> set (stages h)" "kind_of h s = TransformStage (Some a) n'" "\<not> held h (s, 0) \<or> eff h (s, 0) = kNegative" for h n'
  proof -
    have r: "nin h s = 1" "nout h s = 1" using settledD(4) [OF that(1,2)] that(3) by (auto simp: stage_ready_def)
    then have "is_input h (s, 0)" using that(2) by (simp add: is_input_def)
    moreover have "output_demand (s, 0) h = Some (eff h (s, 0))" using ready_mates [OF that(1,2), of 0] r by auto
    ultimately show ?thesis
      using that(4) by (subst transform_loop.simps) (auto simp: transform_turn_def get_input_eq split: option.split)
  qed
  show ?thesis
  proof (cases "\<not> held g (s, 0) \<or> eff g (s, 0) = kNegative")
    case True
    then show ?thesis using stop [OF assms True] assms by auto
  next
    case False
    then obtain p g' n' where "transform_turn P s a g = Some (True, g')" "ok (Some s) g'" "stages g' = stages g"
      "kind_of g' s = TransformStage (Some a) n'" "\<not> held g' (s, 0) \<or> eff g' (s, 0) = kNegative"
      using transform_turn_returns [OF assms] by auto
    moreover from this have "transform_loop P s a g' = Some g'" using stop s by auto
    ultimately show ?thesis by (subst transform_loop.simps) simp
  qed
qed

lemma transform_update_returns:
  assumes S: "ok (Some s) g" and s: "s \<in> set (stages g)" and k: "kind_of g s = TransformStage a n"
  shows "\<exists>g'. transform_update P s g = Some g' \<and> ok (Some s) g' \<and> stages g' = stages g \<and> updated s g'"
proof -
  obtain a' where a: "a = Some a'" using settledD(4) [OF S s] k by (auto simp: stage_ready_def)
  obtain h n' where l: "transform_loop P s a' g = Some h" "ok (Some s) h" "stages h = stages g"
    "kind_of h s = TransformStage (Some a') n'" "\<not> held h (s, 0) \<or> eff h (s, 0) = kNegative"
    using transform_loop_returns [OF S s] k a by blast
  have s': "s \<in> set (stages h)" using s l(3) by simp
  have r: "nin h s = 1" "nout h s = 1" "in_mate_at h (s, 0) \<noteq> None"
    using settledD(4) [OF l(2) s'] l(4) by (auto simp: stage_ready_def)
  then obtain m where m: "in_mate_at h (s, 0) = Some m" by auto
  have i: "is_input h (s, 0)" using s' r by (simp add: is_input_def)
  have d: "output_demand (s, 0) h = Some (eff h (s, 0))" using ready_mates [OF l(2) s', of 0] r by auto
  define g' where "g' = with_raw m (eff h (s, 0)) h"
  have set: "input_set_demand (s, 0) (eff h (s, 0)) h = Some g'" "ok (Some s) g'" "demand_of g' (s, 0) = eff h (s, 0)"
    unfolding g'_def by (rule set_demand_returns [OF l(2) i m]; use l(4) in simp)+
  have io: "is_output h m" "fst m \<noteq> s"
    using wired_in [OF settledD(1) [OF l(2)] i m] loop_freeD [OF settledD(2) [OF l(2)] i m] by auto
  then have e: "eff g' (s, 0) = eff h (s, 0)" unfolding g'_def by (intro eff_with_raw) auto
  have "quiescent g' s" using l(4,5) set(3) e by (auto simp: quiescent_def g'_def)
  moreover have "\<forall>i < nin g' s. held g' (s, i) \<longrightarrow> demand_of g' (s, i) = kNegative"
    using l(5) set(3) r by (auto simp: g'_def)
  ultimately show ?thesis
    using l(1,3) d set(1,2) a k by (auto simp: transform_update_def updated_def g'_def)
qed

subsection \<open>Active sinks and sources\<close>

lemma active_sink_update_returns:
  assumes S: "ok (Some s) g" and s: "s \<in> set (stages g)" and k: "kind_of g s = ActiveSinkStage d"
  shows "\<exists>g'. active_sink_update P s g = Some g' \<and> ok (Some s) g' \<and> stages g' = stages g \<and> updated s g'"
proof -
  have r: "nin g s = 1" "in_mate_at g (s, 0) \<noteq> None" using settledD(4) [OF S s] k by (auto simp: stage_ready_def)
  have i: "is_input g (s, 0)" using s r by (simp add: is_input_def)
  obtain d' h where h: "ok (Some s) h" "kind_of h s = ActiveSinkStage d'" "\<not> held h (s, 0)" "stages h = stages g"
    "active_sink_update P s g = input_set_demand (s, 0) d' h" "nin h s = 1" "is_input h (s, 0)"
  proof (cases "packet_at g (s, 0)")
    case None
    then show thesis using that [of g d] S k r i by (simp add: active_sink_update_def get_input_eq)
  next
    case (Some p)
    obtain d' w where w: "do_sink P s 0 p (world g) = (d', w)" by fastforce
    let ?t = "take_packet (s, 0) (g\<lparr>world := w\<rparr>)"
    have "ok (Some s) ?t" using settled_take [OF settled_world [OF S s, of w], of 0] i by simp
    moreover have "stage_ready streams sends (upd_kind s (ActiveSinkStage d') ?t) s"
      using settledD(4) [OF S s] k i by (auto simp: stage_ready_def take_packet_input)
    ultimately have "ok (Some s) (upd_kind s (ActiveSinkStage d') ?t)" by (rule settled_kind)
    then show thesis using that [of "upd_kind s (ActiveSinkStage d') ?t" d'] Some w i r k
      by (simp add: active_sink_update_def get_input_eq take_packet_input)
  qed
  obtain m where m: "in_mate_at h (s, 0) = Some m"
    using settledD(4) [OF h(1), of s] h(2,4) s by (auto simp: stage_ready_def)
  have "input_set_demand (s, 0) d' h = Some (with_raw m d' h)" "ok (Some s) (with_raw m d' h)" "demand_of (with_raw m d' h) (s, 0) = d'"
    by (rule set_demand_returns [OF h(1,7) m]; use h(2) in simp)+
  then show ?thesis using h by (auto simp: updated_def quiescent_def)
qed

lemma active_source_update_returns:
  assumes S: "ok (Some s) g" and s: "s \<in> set (stages g)" and k: "kind_of g s = ActiveSourceStage b ps"
  shows "\<exists>g'. active_source_update P s g = Some g' \<and> ok (Some s) g' \<and> stages g' = stages g \<and> updated s g'"
proof -
  have r: "nin g s = 0" "nout g s = 1" "\<forall>p \<in> set ps. sends (s, 0) p"
    using settledD(4) [OF S s] k by (auto simp: stage_ready_def)
  obtain c where c: "is_output g (s, 0)" "out_mate_at g (s, 0) = Some c" "is_input g c" "in_mate_at g c = Some (s, 0)"
    and d: "output_demand (s, 0) g = Some (eff g (s, 0))"
    using ready_mates [OF S s, of 0] r by auto
  show ?thesis
  proof (cases "ps \<noteq> [] \<and> eff g (s, 0) \<noteq> kNegative")
    case True
    then obtain p qs where ps: "ps = p # qs" by (cases ps) auto
    obtain q where q: "output_supply_packet P (s, 0) p g = Some (with_packet c q g)" "ok (Some s) (with_packet c q g)"
      using supply_returns [OF S c(1,2)] True ps r(3) by auto
    let ?g = "upd_kind s (ActiveSourceStage b qs) (with_packet c q g)"
    have "stage_ready streams sends ?g s"
      using settledD(4) [OF q(2), of s] s k ps by (auto simp: stage_ready_def)
    then have "ok (Some s) ?g" by (rule settled_kind [OF q(2)])
    then have "ok (Some s) (?g\<lparr>world := do_downstream_demand P s kNegative (world ?g)\<rparr>)"
      using s by (intro settled_world) simp_all
    then show ?thesis using True ps q(1) d k r(1) by (simp add: active_source_update_def updated_def)
  next
    case False
    let ?g = "g\<lparr>world := do_downstream_demand P s (eff g (s, 0)) (world g)\<rparr>"
    have "quiescent ?g s" using False k by (auto simp: quiescent_def)
    then show ?thesis using settled_world [OF S s] False d k r(1)
      by (auto simp: active_source_update_def updated_def split: list.split)
  qed
qed

subsection \<open>Multistream sources\<close>

lemma has_positive_demand_eq:
  assumes "ok cur g" "s \<in> set (stages g)" "\<forall>i \<in> set is'. i < nout g s"
  shows "has_positive_demand s is' g = Some (\<exists>i \<in> set is'. eff g (s, i) = kPositive)"
  using assms(3)
proof (induction is')
  case (Cons i is')
  then have "output_demand (s, i) g = Some (eff g (s, i))" using ready_mates [OF assms(1,2), of i] by auto
  then show ?case using Cons by simp
qed simp

definition demanding :: "nat \<Rightarrow> ('p, 'e) graph \<Rightarrow> nat set" where
  "demanding s g = {j. j < nout g s \<and> eff g (s, j) \<noteq> kNegative}"

lemma finite_demanding [simp]: "finite (demanding s g)"
  by (simp add: demanding_def)

lemma demanding_cong [simp]:
  "demanding s (upd_kind t k g) = demanding s g" "demanding s (g\<lparr>world := w\<rparr>) = demanding s g"
  by (simp_all add: demanding_def)

lemma demanding_with_packet:
  assumes "ok cur g" "s \<in> set (stages g)" "i < nout g s" "out_mate_at g (s, i) = Some c"
  shows "demanding s (with_packet c q g) = demanding s g - {i}"
proof -
  have "eff (with_packet c q g) (s, j) = (if j = i then kNegative else eff g (s, j))" if "j < nout g s" for j
    using eff_with_packet [OF settledD(1) [OF assms(1)], of "(s, i)" c "(s, j)" q] assms(2-4) that by (simp add: is_output_def)
  then show ?thesis by (auto simp: demanding_def split: if_splits)
qed

text \<open>Delivering the cached packet.\<close>

lemma multistream_supply_returns:
  assumes S: "ok (Some s) g" and s: "s \<in> set (stages g)" and k: "kind_of g s = MultistreamSourceStage c i n"
  shows "\<exists>g' c'. multistream_supply P s g = Some g' \<and> ok (Some s) g' \<and> stages g' = stages g \<and> nout g' = nout g \<and>
    kind_of g' s = MultistreamSourceStage c' i n \<and>
    (c' = None \<longrightarrow> c \<noteq> None \<longrightarrow> card (demanding s g') < card (demanding s g)) \<and>
    (c' \<noteq> None \<longrightarrow> quiescent g' s)"
proof -
  have r: "\<forall>p. c = Some p \<longrightarrow> i < nout g s \<and> sends (s, i) p" using settledD(4) [OF S s] k by (auto simp: stage_ready_def)
  have pos: "has_positive_demand s [0..<nout g s] g = Some (\<exists>j < nout g s. eff g (s, j) = kPositive)"
    using has_positive_demand_eq [OF S s, of "[0..<nout g s]"] by auto
  show ?thesis
  proof (cases c)
    case None
    then show ?thesis using S k by (simp add: multistream_supply_def)
  next
    case (Some p)
    then have i: "i < nout g s" "sends (s, i) p" using r by auto
    obtain m where m: "is_output g (s, i)" "out_mate_at g (s, i) = Some m" and d: "output_demand (s, i) g = Some (eff g (s, i))"
      using ready_mates [OF S s i(1)] by metis
    show ?thesis
    proof (cases "(\<exists>j < nout g s. eff g (s, j) = kPositive) \<and> eff g (s, i) \<noteq> kNegative")
      case False
      then have "multistream_supply P s g = Some g" using Some k pos d i by (auto simp: multistream_supply_def Let_def)
      moreover have "quiescent g s" using False k Some by (auto simp: quiescent_def)
      ultimately show ?thesis using S k Some by auto
    next
      case True
      let ?k = "upd_kind s (MultistreamSourceStage None i n) g"
      have "stage_ready streams sends ?k s" using settledD(4) [OF S s] k by (auto simp: stage_ready_def)
      then have S1: "ok (Some s) ?k" by (rule settled_kind [OF S])
      obtain q where q: "output_supply_packet P (s, i) p ?k = Some (with_packet m q ?k)" "ok (Some s) (with_packet m q ?k)"
        using supply_returns [OF S1, of i m p] m True i by auto
      have "card (demanding s g - {i}) < card (demanding s g)"
        using True i by (intro card_Diff1_less) (auto simp: demanding_def)
      then have "card (demanding s (with_packet m q ?k)) < card (demanding s g)"
        using demanding_with_packet [OF S1, of s i m q] s i m by simp
      moreover have "multistream_supply P s g = Some (with_packet m q ?k)"
        using Some k pos d True i q(1) by (auto simp: multistream_supply_def Let_def)
      ultimately show ?thesis using q(2) by auto
    qed
  qed
qed

lemma multistream_turn_returns:
  assumes S: "ok (Some s) g" and s: "s \<in> set (stages g)" and k: "kind_of g s = MultistreamSourceStage c i n"
  shows "\<exists>more g' c' i' n'. multistream_turn P s g = Some (more, g') \<and> ok (Some s) g' \<and> stages g' = stages g \<and>
    kind_of g' s = MultistreamSourceStage c' i' n' \<and> (\<not> more \<longrightarrow> quiescent g' s) \<and>
    (more \<longrightarrow> c' \<noteq> None \<and> (c \<noteq> None \<longrightarrow> card (demanding s g') < card (demanding s g)))"
proof -
  obtain h c1 where h: "multistream_supply P s g = Some h" "ok (Some s) h" "stages h = stages g" "nout h = nout g"
    "kind_of h s = MultistreamSourceStage c1 i n"
    "c1 = None \<Longrightarrow> c \<noteq> None \<Longrightarrow> card (demanding s h) < card (demanding s g)" "c1 \<noteq> None \<Longrightarrow> quiescent h s"
    using multistream_supply_returns [OF assms] by blast
  show ?thesis
  proof (cases "c1 \<noteq> None \<or> n = nout h s")
    case True
    then have "quiescent h s" using h(5,7) by (cases c1) (auto simp: quiescent_def)
    then show ?thesis using h True by (auto simp: multistream_turn_def)
  next
    case False
    obtain p j w where p: "do_pull P s (world h) = (Some p, j, w)" "j < streams s" "sends (s, j) p"
      using pull_gives_packet by blast
    let ?g = "upd_kind s (MultistreamSourceStage (Some p) j (n + (if pk_end_of_stream p then 1 else 0))) (h\<lparr>world := w\<rparr>)"
    have s': "s \<in> set (stages h)" using s h(3) by simp
    have r: "stage_ready streams sends h s" using settledD(4) [OF h(2) s'] .
    then have j: "j < nout h s" using p(2) h(5) by (auto simp: stage_ready_def)
    have "stage_ready streams sends ?g s" using r h(5) p j by (auto simp: stage_ready_def)
    then have "ok (Some s) ?g" by (rule settled_kind [OF settled_world [OF h(2) s']])
    moreover have "multistream_turn P s g = Some (True, ?g)"
      using h(1,5) False p(1) j by (simp add: multistream_turn_def Let_def)
    ultimately show ?thesis using h(3,6) False by auto
  qed
qed

lemma multistream_source_update_returns:
  assumes S: "ok (Some s) g" and s: "s \<in> set (stages g)" and k: "kind_of g s = MultistreamSourceStage c i n"
  shows "\<exists>g'. multistream_source_update P s g = Some g' \<and> ok (Some s) g' \<and> stages g' = stages g \<and> updated s g'"
proof -
  have no_inputs: "updated s h" if "ok (Some s) h" "s \<in> set (stages h)" "kind_of h s = MultistreamSourceStage c' i' n'" "quiescent h s"
    for h c' i' n' using settledD(4) [OF that(1,2)] that(3,4) by (auto simp: updated_def stage_ready_def)
  have cached: "\<exists>g'. multistream_source_update P s h = Some g' \<and> ok (Some s) g' \<and> stages g' = stages h \<and> updated s g'"
    if "ok (Some s) h" "s \<in> set (stages h)" "kind_of h s = MultistreamSourceStage (Some p) i n" for h p i n
    using that
  proof (induction "card (demanding s h)" arbitrary: h p i n rule: less_induct)
    case less
    obtain more h' c' i' n' where t: "multistream_turn P s h = Some (more, h')" "ok (Some s) h'" "stages h' = stages h"
      "kind_of h' s = MultistreamSourceStage c' i' n'" "\<not> more \<Longrightarrow> quiescent h' s"
      "more \<Longrightarrow> c' \<noteq> None \<and> card (demanding s h') < card (demanding s h)"
      using multistream_turn_returns [OF less.prems] by blast
    show ?case
    proof (cases more)
      case True
      then obtain p' where "c' = Some p'" using t(6) by auto
      then show ?thesis using less.hyps [of h' p' i' n'] t less.prems(2) True
        by (subst multistream_source_update.simps) auto
    qed (use t less.prems(2) no_inputs in \<open>subst multistream_source_update.simps, auto\<close>)
  qed
  obtain more h c' i' n' where t: "multistream_turn P s g = Some (more, h)" "ok (Some s) h" "stages h = stages g"
    "kind_of h s = MultistreamSourceStage c' i' n'" "\<not> more \<Longrightarrow> quiescent h s" "more \<Longrightarrow> c' \<noteq> None"
    using multistream_turn_returns [OF assms] by blast
  show ?thesis
  proof (cases more)
    case True
    then obtain p' where "c' = Some p'" using t(6) by auto
    then show ?thesis using cached [of h p' i' n'] t s True by (subst multistream_source_update.simps) auto
  qed (use t s no_inputs in \<open>subst multistream_source_update.simps, auto\<close>)
qed

subsection \<open>Active multistream sources\<close>

lemma multistream_outputs_returns:
  assumes "ok (Some s) g" "s \<in> set (stages g)" "kind_of g s = ActiveMultistreamSourceStage qs n b"
    and "distinct is'" "\<forall>i \<in> set is'. i < nout g s"
  shows "\<exists>need' g' qs'. multistream_outputs P s is' need g = Some (need', g') \<and> ok (Some s) g' \<and> stages g' = stages g \<and>
    nout g' = nout g \<and> kind_of g' s = ActiveMultistreamSourceStage qs' n b \<and> (need \<longrightarrow> need') \<and>
    (\<forall>j < nout g s. j \<notin> set is' \<longrightarrow> qs' ! j = qs ! j \<and> eff g' (s, j) = eff g (s, j)) \<and>
    (\<forall>j \<in> set is'. (qs' ! j \<noteq> [] \<longrightarrow> eff g' (s, j) = kNegative) \<and> (qs' ! j = [] \<longrightarrow> eff g' (s, j) = kPositive \<longrightarrow> need'))"
  using assms
proof (induction is' arbitrary: g qs need)
  case (Cons i is')
  note S = Cons.prems(1) and s = Cons.prems(2) and k = Cons.prems(3)
  have i: "i < nout g s" "i \<notin> set is'" "distinct is'" "\<forall>i \<in> set is'. i < nout g s" using Cons.prems(4,5) by auto
  have r: "length qs = nout g s" "\<forall>j < nout g s. \<forall>p \<in> set (qs ! j). sends (s, j) p"
    using settledD(4) [OF S s] k by (auto simp: stage_ready_def)
  obtain m where m: "is_output g (s, i)" "out_mate_at g (s, i) = Some m" and d: "output_demand (s, i) g = Some (eff g (s, i))"
    using ready_mates [OF S s i(1)] by metis
  show ?case
  proof (cases "qs ! i \<noteq> [] \<and> eff g (s, i) \<noteq> kNegative")
    case False
    define need1 where "need1 = (need \<or> (qs ! i = [] \<and> eff g (s, i) = kPositive))"
    have step: "multistream_outputs P s (i # is') need g = multistream_outputs P s is' need1 g"
      using False d k by (cases "qs ! i") (auto simp: need1_def)
    obtain need' g' qs' where IH: "multistream_outputs P s is' need1 g = Some (need', g')" "ok (Some s) g'" "stages g' = stages g"
      "nout g' = nout g" "kind_of g' s = ActiveMultistreamSourceStage qs' n b" "need1 \<longrightarrow> need'"
      "\<forall>j < nout g s. j \<notin> set is' \<longrightarrow> qs' ! j = qs ! j \<and> eff g' (s, j) = eff g (s, j)"
      "\<forall>j \<in> set is'. (qs' ! j \<noteq> [] \<longrightarrow> eff g' (s, j) = kNegative) \<and> (qs' ! j = [] \<longrightarrow> eff g' (s, j) = kPositive \<longrightarrow> need')"
      using Cons.IH [OF S s k i(3,4), of need1] by blast
    have "qs' ! i = qs ! i" "eff g' (s, i) = eff g (s, i)" using IH(7) i by auto
    then have "(qs' ! i \<noteq> [] \<longrightarrow> eff g' (s, i) = kNegative) \<and> (qs' ! i = [] \<longrightarrow> eff g' (s, i) = kPositive \<longrightarrow> need')"
      using False IH(6) by (auto simp: need1_def)
    then show ?thesis
      unfolding step using IH by (intro exI [of _ need'] exI [of _ g'] exI [of _ qs']) (auto simp: need1_def)
  next
    case True
    then obtain p ps where ps: "qs ! i = p # ps" by (cases "qs ! i") auto
    obtain q where q: "output_supply_packet P (s, i) p g = Some (with_packet m q g)" "ok (Some s) (with_packet m q g)"
      using supply_returns [OF S m, of p] True ps r(2) [rule_format, OF i(1), of p] by auto
    let ?g = "upd_kind s (ActiveMultistreamSourceStage (qs[i := ps]) n b) (with_packet m q g)"
    have ready: "stage_ready streams sends ?g s"
      using settledD(4) [OF q(2), of s] s k ps i(1) by (auto simp: stage_ready_def nth_list_update)
    have S1: "ok (Some s) ?g" by (rule settled_kind [OF q(2) ready])
    have e: "eff ?g (s, j) = (if j = i then kNegative else eff g (s, j))" if "j < nout g s" for j
      using eff_with_packet [OF settledD(1) [OF S] m, of "(s, j)" q] s that by (simp add: is_output_def)
    have step: "multistream_outputs P s (i # is') need g = multistream_outputs P s is' need ?g"
      using True ps d k q(1) by simp
    obtain need' g' qs' where IH: "multistream_outputs P s is' need ?g = Some (need', g')" "ok (Some s) g'" "stages g' = stages g"
      "nout g' = nout g" "kind_of g' s = ActiveMultistreamSourceStage qs' n b" "need \<longrightarrow> need'"
      "\<forall>j < nout g s. j \<notin> set is' \<longrightarrow> qs' ! j = (qs[i := ps]) ! j \<and> eff g' (s, j) = eff ?g (s, j)"
      "\<forall>j \<in> set is'. (qs' ! j \<noteq> [] \<longrightarrow> eff g' (s, j) = kNegative) \<and> (qs' ! j = [] \<longrightarrow> eff g' (s, j) = kPositive \<longrightarrow> need')"
      using Cons.IH [OF S1 _ _ i(3), of "qs[i := ps]" need] s i(4) by auto
    have "eff g' (s, i) = kNegative" using IH(7) i e by auto
    moreover have "\<forall>j < nout g s. j \<notin> set (i # is') \<longrightarrow> qs' ! j = qs ! j \<and> eff g' (s, j) = eff g (s, j)"
      using IH(7) e by auto
    ultimately show ?thesis
      unfolding step using IH by (intro exI [of _ need'] exI [of _ g'] exI [of _ qs']) auto
  qed
qed simp

lemma active_multistream_source_update_returns:
  assumes S: "ok (Some s) g" and s: "s \<in> set (stages g)" and k: "kind_of g s = ActiveMultistreamSourceStage qs n b"
  shows "\<exists>g'. active_multistream_source_update P s g = Some g' \<and> ok (Some s) g' \<and> stages g' = stages g \<and> updated s g'"
proof -
  have r: "length qs = nout g s" using settledD(4) [OF S s] k by (auto simp: stage_ready_def)
  obtain need h qs' where h: "multistream_outputs P s [0..<nout g s] False g = Some (need, h)" "ok (Some s) h" "stages h = stages g"
    "nout h = nout g" "kind_of h s = ActiveMultistreamSourceStage qs' n b"
    "\<forall>j < nout g s. (qs' ! j \<noteq> [] \<longrightarrow> eff h (s, j) = kNegative) \<and> (qs' ! j = [] \<longrightarrow> eff h (s, j) = kPositive \<longrightarrow> need)"
    using multistream_outputs_returns [OF S s k, of "[0..<nout g s]" False] by auto
  have s': "s \<in> set (stages h)" using s h(3) by simp
  define g' where "g' = (if need \<and> \<not> b then upd_kind s (ActiveMultistreamSourceStage qs' n True) (h\<lparr>world := do_request P s (world h)\<rparr>) else h)"
  have "stage_ready streams sends (upd_kind s (ActiveMultistreamSourceStage qs' n True) (h\<lparr>world := do_request P s (world h)\<rparr>)) s"
    using settledD(4) [OF h(2) s'] h(5) by (auto simp: stage_ready_def)
  then have "ok (Some s) g'"
    using settled_kind [OF settled_world [OF h(2) s']] h(2) by (simp add: g'_def)
  moreover have "active_multistream_source_update P s g = Some g'"
    using h(1,5) k r by (simp add: active_multistream_source_update_def g'_def Let_def)
  moreover have "quiescent g' s" using h(4,5,6) by (auto simp: quiescent_def g'_def)
  moreover have "nin g' s = 0" using settledD(4) [OF h(2) s'] h(5) by (auto simp: stage_ready_def g'_def)
  ultimately show ?thesis using h(3) by (auto simp: updated_def g'_def)
qed

subsection \<open>Active multistream sinks\<close>

text \<open>What one turn does to the inputs of the sink.\<close>

definition turned :: "nat \<Rightarrow> nat \<Rightarrow> ('p, 'e) graph \<Rightarrow> demand list \<Rightarrow> ('p, 'e) graph \<Rightarrow> demand list \<Rightarrow> bool" where
  "turned s i g ds g' ds' \<longleftrightarrow> stages g' = stages g \<and> nin g' = nin g \<and>
     packet_at g' (s, i) = None \<and> demand_of g' (s, i) = ds' ! i \<and>
     (\<forall>j < nin g s. j \<noteq> i \<longrightarrow> packet_at g' (s, j) = packet_at g (s, j) \<and> demand_of g' (s, j) = demand_of g (s, j) \<and> ds' ! j = ds ! j)"

lemma pending_turn_returns:
  assumes S: "ok (Some s) g" and s: "s \<in> set (stages g)" and k: "kind_of g s = ActiveMultistreamSinkStage ds al un pe"
    and i: "i \<in> set pe"
  shows "\<exists>adv er g' ds'. pending_turn P s i g = Some (adv, er, g') \<and> ok (Some s) g' \<and>
    kind_of g' s = ActiveMultistreamSinkStage ds' al un pe \<and> turned s i g ds g' ds' \<and> (er \<longrightarrow> ds' ! i = kNegative) \<and>
    (if held g (s, i) then adv = er else adv \<and> \<not> er)"
proof -
  have r: "length ds = nin g s" "i < nin g s" "in_mate_at g (s, i) \<noteq> None"
    using settledD(4) [OF S s] k i by (auto simp: stage_ready_def)
  then obtain m where m: "in_mate_at g (s, i) = Some m" by auto
  have inp: "is_input g (s, j)" if "j < nin g s" for j using s that by (simp add: is_input_def)
  note iin = inp [OF r(2)]
  show ?thesis
  proof (cases "packet_at g (s, i)")
    case None
    have set: "input_set_demand (s, i) (ds ! i) g = Some (with_raw m (ds ! i) g)" "ok (Some s) (with_raw m (ds ! i) g)"
      "demand_of (with_raw m (ds ! i) g) (s, i) = ds ! i"
      by (rule set_demand_returns [OF S iin m]; use k i in simp)+
    have "turned s i g ds (with_raw m (ds ! i) g) ds"
      using set(3) None demand_of_with_raw [OF settledD(1) [OF S] iin m] inp by (simp add: turned_def)
    then show ?thesis
      using None set(1,2) iin k by (intro exI [of _ True] exI [of _ False] exI [of _ "with_raw m (ds ! i) g"] exI [of _ ds])
        (simp add: pending_turn_def get_input_eq)
  next
    case (Some p)
    obtain d w where w: "do_sink P s i p (world g) = (d, w)" by fastforce
    let ?t = "take_packet (s, i) (g\<lparr>world := w\<rparr>)"
    let ?k = "upd_kind s (ActiveMultistreamSinkStage (ds[i := d]) al un pe) ?t"
    have "ok (Some s) ?t" using settled_take [OF settled_world [OF S s, of w], of i] iin by simp
    moreover have "stage_ready streams sends ?k s"
      using settledD(4) [OF S s] k iin by (auto simp: stage_ready_def take_packet_input)
    ultimately have S1: "ok (Some s) ?k" by (rule settled_kind)
    have iin1: "is_input ?k (s, i)" and m1: "in_mate_at ?k (s, i) = Some m" using iin m by (simp_all add: take_packet_input)
    have set: "input_set_demand (s, i) d ?k = Some (with_raw m d ?k)" "ok (Some s) (with_raw m d ?k)" "demand_of (with_raw m d ?k) (s, i) = d"
      by (rule set_demand_returns [OF S1 iin1 m1]; use i in simp)+
    have "turned s i g ds (with_raw m d ?k) (ds[i := d])"
      using set(3) demand_of_with_raw [OF settledD(1) [OF S1] iin1 m1] inp r iin by (simp add: turned_def take_packet_input)
    moreover have "pending_turn P s i g = Some (d = kNegative, d = kNegative, with_raw m d ?k)"
      using Some w set(1) iin k by (simp add: pending_turn_def get_input_eq Let_def)
    ultimately show ?thesis
      using Some set(2) r by (intro exI [of _ "d = kNegative"] exI [of _ "with_raw m d ?k"] exI [of _ "ds[i := d]"]) simp
  qed
qed

lemma pending_loop_returns:
  assumes "ok (Some s) g" "s \<in> set (stages g)" "kind_of g s = ActiveMultistreamSinkStage ds al un pe"
    and "set rest \<subseteq> set pe" "set kept \<subseteq> set pe"
    and "\<forall>i \<in> set kept. \<not> held g (s, i) \<and> demand_of g (s, i) = ds ! i"
    and "\<forall>i \<in> set pe. i \<notin> set kept \<union> set rest \<longrightarrow> \<not> held g (s, i) \<and> demand_of g (s, i) = kNegative"
  shows "\<exists>kept' g' ds'. pending_loop P s kept rest g = Some (kept', g') \<and> ok (Some s) g' \<and> stages g' = stages g \<and>
    kind_of g' s = ActiveMultistreamSinkStage ds' al un pe \<and> set kept' \<subseteq> set pe \<and>
    (\<forall>i \<in> set kept'. \<not> held g' (s, i) \<and> demand_of g' (s, i) = ds' ! i) \<and>
    (\<forall>i \<in> set pe. i \<notin> set kept' \<longrightarrow> \<not> held g' (s, i) \<and> demand_of g' (s, i) = kNegative)"
  using assms
proof (induction rest arbitrary: g ds kept)
  case Nil
  then show ?case by (subst pending_loop.simps) auto
next
  case (Cons i rest)
  note S = Cons.prems(1) and s = Cons.prems(2) and k = Cons.prems(3)
  have i: "i \<in> set pe" "set rest \<subseteq> set pe" using Cons.prems(4) by auto
  have small: "\<forall>j \<in> set pe. j < nin g s" using settledD(4) [OF S s] k by (auto simp: stage_ready_def)
  have advance: "\<exists>kept' g' ds'. pending_loop P s kept (i # rest) h = Some (kept', g') \<and> ok (Some s) g' \<and> stages g' = stages g \<and>
    kind_of g' s = ActiveMultistreamSinkStage ds' al un pe \<and> set kept' \<subseteq> set pe \<and>
    (\<forall>i \<in> set kept'. \<not> held g' (s, i) \<and> demand_of g' (s, i) = ds' ! i) \<and>
    (\<forall>i \<in> set pe. i \<notin> set kept' \<longrightarrow> \<not> held g' (s, i) \<and> demand_of g' (s, i) = kNegative)"
    if h: "pending_turn P s i h = Some (True, er, h')" "ok (Some s) h'" "stages h' = stages g"
      "kind_of h' s = ActiveMultistreamSinkStage ds1 al un pe" "turned s i g ds h' ds1" "er \<Longrightarrow> ds1 ! i = kNegative" for h er h' ds1
  proof -
    have t: "\<And>j. j \<in> set pe \<Longrightarrow> j \<noteq> i \<Longrightarrow> packet_at h' (s, j) = packet_at g (s, j) \<and> demand_of h' (s, j) = demand_of g (s, j) \<and> ds1 ! j = ds ! j"
      "packet_at h' (s, i) = None" "demand_of h' (s, i) = ds1 ! i"
      using h(5) small unfolding turned_def by blast+
    let ?kept = "if er then kept else kept @ [i]"
    have K: "\<forall>j \<in> set ?kept. \<not> held h' (s, j) \<and> demand_of h' (s, j) = ds1 ! j"
    proof
      fix j assume j: "j \<in> set ?kept"
      show "\<not> held h' (s, j) \<and> demand_of h' (s, j) = ds1 ! j"
      proof (cases "j = i")
        case False
        then have "j \<in> set kept" "j \<in> set pe" using j Cons.prems(5) by (auto split: if_splits)
        then show ?thesis using t(1) [of j] False Cons.prems(6) by auto
      qed (use t in simp)
    qed
    have E: "\<forall>j \<in> set pe. j \<notin> set ?kept \<union> set rest \<longrightarrow> \<not> held h' (s, j) \<and> demand_of h' (s, j) = kNegative"
    proof (intro ballI impI)
      fix j assume j: "j \<in> set pe" "j \<notin> set ?kept \<union> set rest"
      show "\<not> held h' (s, j) \<and> demand_of h' (s, j) = kNegative"
      proof (cases "j = i")
        case True
        then have er using j(2) by (auto split: if_splits)
        then show ?thesis using t True h(6) by simp
      next
        case False
        then have "j \<notin> set kept \<union> set (i # rest)" using j(2) by (auto split: if_splits)
        then show ?thesis using t(1) [OF j(1) False] Cons.prems(7) j(1) by auto
      qed
    qed
    have s': "s \<in> set (stages h')" "set ?kept \<subseteq> set pe" using s h(3) Cons.prems(5) i by auto
    obtain kept' g' ds' where "pending_loop P s ?kept rest h' = Some (kept', g')" "ok (Some s) g'" "stages g' = stages h'"
      "kind_of g' s = ActiveMultistreamSinkStage ds' al un pe" "set kept' \<subseteq> set pe"
      "\<forall>i \<in> set kept'. \<not> held g' (s, i) \<and> demand_of g' (s, i) = ds' ! i"
      "\<forall>i \<in> set pe. i \<notin> set kept' \<longrightarrow> \<not> held g' (s, i) \<and> demand_of g' (s, i) = kNegative"
      using Cons.IH [OF h(2) s'(1) h(4) i(2) s'(2) K E] by blast
    moreover have "pending_loop P s kept (i # rest) h = pending_loop P s ?kept rest h'"
      using h(1) by (subst pending_loop.simps) simp
    ultimately show ?thesis using h(3) by auto
  qed
  obtain adv er g1 ds1 where g1: "pending_turn P s i g = Some (adv, er, g1)" "ok (Some s) g1"
    "kind_of g1 s = ActiveMultistreamSinkStage ds1 al un pe" "turned s i g ds g1 ds1" "er \<longrightarrow> ds1 ! i = kNegative"
    "if held g (s, i) then adv = er else adv \<and> \<not> er"
    using pending_turn_returns [OF S s k i(1)] by blast
  have st1: "stages g1 = stages g" "s \<in> set (stages g1)" "\<not> held g1 (s, i)" "nin g1 = nin g" using g1(4) s by (auto simp: turned_def)
  show ?case
  proof (cases adv)
    case True
    then show ?thesis using advance [of g er g1 ds1] g1 st1 by auto
  next
    case False
    then have "\<not> er" using g1(6) by (auto split: if_splits)
    then have again: "pending_loop P s kept (i # rest) g = pending_loop P s kept (i # rest) g1"
      using g1(1) False by (subst pending_loop.simps) simp
    obtain adv2 er2 g2 ds2 where g2: "pending_turn P s i g1 = Some (adv2, er2, g2)" "ok (Some s) g2"
      "kind_of g2 s = ActiveMultistreamSinkStage ds2 al un pe" "turned s i g1 ds1 g2 ds2"
      "if held g1 (s, i) then adv2 = er2 else adv2 \<and> \<not> er2"
      using pending_turn_returns [OF g1(2) st1(2) g1(3) i(1)] by blast
    then have "adv2" "\<not> er2" using st1(3) by auto
    moreover have "turned s i g ds g2 ds2" using g1(4) g2(4) st1(4) unfolding turned_def by auto
    ultimately show ?thesis unfolding again using advance [of g1 er2 g2 ds2] g2 st1 by (auto simp: turned_def)
  qed
qed

lemma active_multistream_sink_update_returns:
  assumes S: "ok (Some s) g" and s: "s \<in> set (stages g)" and k: "kind_of g s = ActiveMultistreamSinkStage ds al un pe"
  shows "\<exists>g'. active_multistream_sink_update P s g = Some g' \<and> ok (Some s) g' \<and> stages g' = stages g \<and> updated s g'"
proof -
  obtain kept h ds' where h: "pending_loop P s [] pe g = Some (kept, h)" "ok (Some s) h" "stages h = stages g"
    "kind_of h s = ActiveMultistreamSinkStage ds' al un pe" "set kept \<subseteq> set pe"
    "\<forall>i \<in> set kept. \<not> held h (s, i) \<and> demand_of h (s, i) = ds' ! i"
    "\<forall>i \<in> set pe. i \<notin> set kept \<longrightarrow> \<not> held h (s, i) \<and> demand_of h (s, i) = kNegative"
    using pending_loop_returns [OF S s k, of pe "[]"] by auto
  let ?g = "upd_kind s (ActiveMultistreamSinkStage ds' al un kept) h"
  have r: "stage_ready streams sends h s" using settledD(4) [OF h(2)] s h(3) by simp
  then have idle: "\<forall>i < nin h s. i \<notin> set kept \<longrightarrow> \<not> held h (s, i) \<and> demand_of h (s, i) = kNegative"
    using h(4,7) by (auto simp: stage_ready_def)
  then have "stage_ready streams sends ?g s" using r h(4,5) by (auto simp: stage_ready_def)
  then have "ok (Some s) ?g" by (rule settled_kind [OF h(2)])
  moreover have "active_multistream_sink_update P s g = Some ?g"
    using h(1,4) k by (simp add: active_multistream_sink_update_def Let_def)
  moreover have "quiescent ?g s" using h(6) by (auto simp: quiescent_def)
  moreover have "\<forall>i < nin h s. held h (s, i) \<longrightarrow> demand_of h (s, i) = kNegative" using h(6) idle by blast
  ultimately show ?thesis using h(3) by (auto simp: updated_def)
qed

end

end
