(* ===== verification/Graph_Runs.thy ===== *)
theory Graph_Runs
  imports Graph_Updates
begin

text \<open>
  Runs of the engine: its turns, and the calls of the hosted objects that come when it is idle. In every
  reachable state no check fails and every stage that could do something is in a backlog.
\<close>

section \<open>One turn\<close>

context good_parts
begin

lemma stage_update_returns:
  assumes "ok (Some s) g" "s \<in> set (stages g)"
  shows "\<exists>g'. stage_update P s g = Some g' \<and> ok (Some s) g' \<and> stages g' = stages g \<and> updated s g'"
proof (cases "kind_of g s")
  case TransformStage
  then show ?thesis using transform_update_returns [OF assms] assms(2) by (simp add: stage_update_def get_stage_def)
next
  case ActiveSinkStage
  then show ?thesis using active_sink_update_returns [OF assms] assms(2) by (simp add: stage_update_def get_stage_def)
next
  case ActiveSourceStage
  then show ?thesis using active_source_update_returns [OF assms] assms(2) by (simp add: stage_update_def get_stage_def)
next
  case MultistreamSourceStage
  then show ?thesis using multistream_source_update_returns [OF assms] assms(2) by (simp add: stage_update_def get_stage_def)
next
  case ActiveMultistreamSourceStage
  then show ?thesis using active_multistream_source_update_returns [OF assms] assms(2)
    by (simp add: stage_update_def get_stage_def)
next
  case ActiveMultistreamSinkStage
  then show ?thesis using active_multistream_sink_update_returns [OF assms] assms(2)
    by (simp add: stage_update_def get_stage_def)
qed

lemma ready_same_graph:
  assumes "input_at g' = input_at g" "output_at g' = output_at g" "kind_of g' = kind_of g" "nin g' = nin g" "nout g' = nout g"
  shows "stage_ready streams sends g' s = stage_ready streams sends g s" "quiescent g' s = quiescent g s"
proof -
  have d: "demand_of g' = demand_of g" "eff g' = eff g" using assms by (auto intro!: demand_of_cong eff_cong)
  show "stage_ready streams sends g' s = stage_ready streams sends g s" "quiescent g' s = quiescent g s"
    unfolding stage_ready_def quiescent_def assms d by (rule refl)+
qed

text \<open>Only the backlogs and the mark of production differ.\<close>

lemma settled_same_graph:
  assumes S: "ok cur g" and same: "input_at g' = input_at g" "output_at g' = output_at g" "kind_of g' = kind_of g"
      "nin g' = nin g" "nout g' = nout g" "stages g' = stages g"
    and "backlogs_ok g'" "awake cur' g'" "waiting cur' g'"
  shows "ok cur' g'"
proof -
  have io: "is_input g' = is_input g" "is_output g' = is_output g"
    using same by (auto simp: is_input_def is_output_def fun_eq_iff)
  note D = settledD [OF S]
  have "wired g'" "loop_free g'" "packets_fit fits g'" "typed fits sends g'"
    using D(1,2,5,6) unfolding wired_def loop_free_def packets_fit_def typed_def io same(1,2) .
  then show ?thesis
    unfolding settled_def same(6) using assms(8-10) D(4) ready_same_graph(1) [OF same(1-5)] by blast
qed

lemma settled_finish:
  assumes S: "ok (Some s) g" and s: "s \<in> set (stages g)" and u: "updated s g"
    and g': "g' = (if packets_produced g then push_to_demand_backlog s g else g)"
  shows "ok None g'"
proof (rule settled_same_graph [OF S])
  note D = settledD [OF S]
  have dem: "set (demand_backlog g') = set (demand_backlog g) \<union> (if packets_produced g then {s} else {})"
    using backlogs_okD(6) [OF D(3) s] by (auto simp: g')
  have q: "quiescent g' v = quiescent g v" for v by (rule ready_same_graph(2)) (simp_all add: g')
  show "backlogs_ok g'" using D(3) s push_demand_backlogs by (auto simp: g')
  show "awake None g'" unfolding awake_def q dem
    using D(7) [unfolded awake_def] u by (auto simp: updated_def g')
  show "waiting None g'"
    unfolding waiting_def
  proof (intro allI impI)
    fix c m assume "is_input g' c" "in_mate_at g' c = Some m" "held g' c"
    then have c: "is_input g c" "in_mate_at g c = Some m" "held g c" by (auto simp: g' split: if_splits)
    obtain p where p: "packet_at g c = Some p" using c(3) by auto
    have "raw g m = kNegative" if "fst c = s"
      using u c that by (cases c) (auto simp: updated_def is_input_def demand_of_def)
    then show "raw g' m = kNegative \<or>
        (if Some (fst c) = None then fst m \<in> set (demand_backlog g')
         else fst c \<in> set (supply_backlog g') \<and> (fst m \<in> set (demand_backlog g') \<or> Some (fst m) = None \<and> packets_produced g'))"
      using waitingD [OF D(8) c(1,2) p] dem by (auto simp: g' split: if_splits)
  qed
qed (simp_all add: g')

lemma update_stage_returns:
  assumes "ok (Some s) (g\<lparr>packets_produced := False\<rparr>)" "s \<in> set (stages g)"
  shows "\<exists>g'. update_stage P s g = Some g' \<and> ok None g' \<and> stages g' = stages g"
proof -
  obtain h where h: "stage_update P s (g\<lparr>packets_produced := False\<rparr>) = Some h" "ok (Some s) h" "stages h = stages g" "updated s h"
    using stage_update_returns [OF assms(1)] assms(2) by auto
  then show ?thesis using settled_finish [OF h(2) _ h(4) refl] assms(2) by (simp add: update_stage_def)
qed

lemma settled_pop_supply:
  assumes S: "ok None g" and b: "supply_backlog g = s # ss"
  shows "\<exists>g'. pop_from_supply_backlog g = Some (Some s, g') \<and> ok (Some s) (g'\<lparr>packets_produced := False\<rparr>) \<and>
    stages g' = stages g \<and> s \<in> set (stages g)"
proof -
  note D = settledD [OF S] and B = backlogs_okD [OF settledD(3) [OF S]]
  have s: "s \<in> set (stages g)" "in_sup g s" "s \<notin> set ss" using B(1,3,5) b by auto
  let ?g = "upd_stage s (\<lambda>st. st\<lparr>in_supply_backlog := False\<rparr>) (g\<lparr>supply_backlog := ss\<rparr>)"
  have "ok (Some s) (?g\<lparr>packets_produced := False\<rparr>)"
  proof (rule settled_same_graph [OF S])
    show "backlogs_ok (?g\<lparr>packets_produced := False\<rparr>)" using B b s by (auto simp: backlogs_ok_def)
    have q: "quiescent (?g\<lparr>packets_produced := False\<rparr>) v = quiescent g v" for v by (rule ready_same_graph(2)) simp_all
    show "awake (Some s) (?g\<lparr>packets_produced := False\<rparr>)" using D(7) b by (auto simp: awake_def q)
    show "waiting (Some s) (?g\<lparr>packets_produced := False\<rparr>)"
      unfolding waiting_def
    proof (intro allI impI)
      fix c m
      assume "is_input (?g\<lparr>packets_produced := False\<rparr>) c" "in_mate_at (?g\<lparr>packets_produced := False\<rparr>) c = Some m"
        "held (?g\<lparr>packets_produced := False\<rparr>) c"
      then obtain p where "is_input g c" "in_mate_at g c = Some m" "packet_at g c = Some p" by auto
      from waitingD [OF D(8) this] show "raw (?g\<lparr>packets_produced := False\<rparr>) m = kNegative \<or>
        (if Some (fst c) = Some s then fst m \<in> set (demand_backlog (?g\<lparr>packets_produced := False\<rparr>))
         else fst c \<in> set (supply_backlog (?g\<lparr>packets_produced := False\<rparr>)) \<and>
           (fst m \<in> set (demand_backlog (?g\<lparr>packets_produced := False\<rparr>)) \<or>
            Some (fst m) = Some s \<and> packets_produced (?g\<lparr>packets_produced := False\<rparr>)))"
        using b by auto
    qed
  qed simp_all
  moreover have "in_supply_backlog (stage_at g s)" using s(2) by (simp add: in_sup_def)
  ultimately show ?thesis using b s by (simp add: pop_from_supply_backlog_def get_stage_def)
qed

text \<open>With an empty supply backlog no packet waits under demand, so any stage may be updated.\<close>

lemma settled_enter:
  assumes S: "ok None g" and b: "supply_backlog g = []"
    and same: "input_at g' = input_at g" "output_at g' = output_at g" "kind_of g' = kind_of g"
      "nin g' = nin g" "nout g' = nout g" "stages g' = stages g" "backlogs_ok g'" "supply_backlog g' = []"
      "set (demand_backlog g) \<subseteq> insert s (set (demand_backlog g'))"
  shows "ok (Some s) g'"
proof (rule settled_same_graph [OF S])
  note D = settledD [OF S]
  have q: "quiescent g' v = quiescent g v" for v by (rule ready_same_graph(2)) (fact same)+
  show "awake (Some s) g'" using D(7) b same(6,8,9) by (auto simp: awake_def q)
  show "waiting (Some s) g'"
    unfolding waiting_def
  proof (intro allI impI disjI1)
    fix c m assume "is_input g' c" "in_mate_at g' c = Some m" "held g' c"
    then obtain p where "is_input g c" "in_mate_at g c = Some m" "packet_at g c = Some p" using same by (auto simp: is_input_def)
    from waitingD [OF D(8) this] show "raw g' m = kNegative" using b same(2) by simp
  qed
qed (fact same)+

lemma settled_pop_demand:
  assumes S: "ok None g" and b: "supply_backlog g = []" "demand_backlog g = s # ss"
  shows "\<exists>g'. pop_from_demand_backlog g = Some (Some s, g') \<and> ok (Some s) (g'\<lparr>packets_produced := False\<rparr>) \<and>
    stages g' = stages g \<and> s \<in> set (stages g)"
proof -
  note B = backlogs_okD [OF settledD(3) [OF S]]
  have s: "s \<in> set (stages g)" "in_dem g s" "s \<notin> set ss" using B(2,4,6) b by auto
  let ?g = "upd_stage s (\<lambda>st. st\<lparr>in_demand_backlog := False\<rparr>) (g\<lparr>demand_backlog := ss\<rparr>)"
  have "backlogs_ok (?g\<lparr>packets_produced := False\<rparr>)" using B b s by (auto simp: backlogs_ok_def)
  then have "ok (Some s) (?g\<lparr>packets_produced := False\<rparr>)"
    by (intro settled_enter [OF S b(1)]) (use b in auto)
  moreover have "in_demand_backlog (stage_at g s)" using s(2) by (simp add: in_dem_def)
  ultimately show ?thesis using b s by (simp add: pop_from_demand_backlog_def get_stage_def)
qed

lemma engine_turn_returns:
  assumes S: "ok None g"
  shows "\<exists>g'. engine_turn P g = Some (supply_backlog g \<noteq> [] \<or> demand_backlog g \<noteq> [], g') \<and> ok None g' \<and> stages g' = stages g"
proof (cases "supply_backlog g")
  case (Cons s ss)
  then show ?thesis using settled_pop_supply [OF S Cons] update_stage_returns [of s] by (fastforce simp: engine_turn_def)
next
  case Nil
  then have p: "pop_from_supply_backlog g = Some (None, g)" by (simp add: pop_from_supply_backlog_def)
  show ?thesis
  proof (cases "demand_backlog g")
    case (Cons s ss)
    then show ?thesis using settled_pop_demand [OF S Nil Cons] update_stage_returns [of s] p by (fastforce simp: engine_turn_def)
  qed (use Nil p S in \<open>simp add: engine_turn_def pop_from_demand_backlog_def\<close>)
qed

end

section \<open>Calls of the hosted objects\<close>

datatype 'p engine_call =
    SourceSupplies nat "'p packet"
  | MultistreamSourceSupplies nat nat "'p packet"
  | SinkDemands nat demand
  | MultistreamSinkDemands nat nat demand

fun caller :: "'p engine_call \<Rightarrow> nat" where
  "caller (SourceSupplies s p) = s"
| "caller (MultistreamSourceSupplies s i p) = s"
| "caller (SinkDemands s d) = s"
| "caller (MultistreamSinkDemands s i d) = s"

fun call_change :: "('p, 'e) parts \<Rightarrow> 'p engine_call \<Rightarrow> ('p, 'e) graph \<Rightarrow> (bool \<times> ('p, 'e) graph) option" where
  "call_change P (SourceSupplies s p) g = source_supplies s p g"
| "call_change P (MultistreamSourceSupplies s i p) g = multistream_source_supplies P s i p g"
| "call_change P (SinkDemands s d) g = sink_demands s d g"
| "call_change P (MultistreamSinkDemands s i d) g = multistream_sink_demands s i d g"

text \<open>The call up to the engine's loop, which then takes its turns.\<close>

definition engine_call :: "('p, 'e) parts \<Rightarrow> 'p engine_call \<Rightarrow> ('p, 'e) graph \<Rightarrow> ('p, 'e) graph option" where
  "engine_call P c g = do {
     (wanted, g) \<leftarrow> call_change P c g;
     (if wanted then do {
        st \<leftarrow> get_stage (caller c) g;
        dcheck (has_update_callback st);
        update_stage P (caller c) g
      } else Some g)
   }"

text \<open>What an object may call: a prepared source supplies packets that fit, a multistream source supplies what
  was requested, and the inputs of a multistream sink are connected.\<close>

fun may_call :: "(connector \<Rightarrow> 'p packet \<Rightarrow> bool) \<Rightarrow> 'p engine_call \<Rightarrow> ('p, 'e) graph \<Rightarrow> bool" where
  "may_call sends (SourceSupplies s p) g \<longleftrightarrow> (\<exists>ps. kind_of g s = ActiveSourceStage True ps) \<and> sends (s, 0) p"
| "may_call sends (MultistreamSourceSupplies s i p) g \<longleftrightarrow>
     (\<exists>qs n. kind_of g s = ActiveMultistreamSourceStage qs n True) \<and> i < nout g s \<and> sends (s, i) p"
| "may_call sends (SinkDemands s d) g \<longleftrightarrow> (\<exists>d'. kind_of g s = ActiveSinkStage d')"
| "may_call sends (MultistreamSinkDemands s i d) g \<longleftrightarrow>
     (\<exists>ds al un pe. kind_of g s = ActiveMultistreamSinkStage ds al un pe) \<and> i < nin g s \<and>
     in_mate_at g (s, i) \<noteq> None \<and> d \<noteq> kNegative"

definition idle :: "('p, 'e) graph \<Rightarrow> bool" where
  "idle g \<longleftrightarrow> supply_backlog g = [] \<and> demand_backlog g = []"

definition permitted :: "(connector \<Rightarrow> 'p packet \<Rightarrow> bool) \<Rightarrow> 'p engine_call \<Rightarrow> ('p, 'e) graph \<Rightarrow> bool" where
  "permitted sends c g \<longleftrightarrow> idle g \<and> caller c \<in> set (stages g) \<and> has_update_callback (stage_at g (caller c)) \<and> may_call sends c g"

inductive engine_reaches ::
    "('p, 'e) parts \<Rightarrow> (connector \<Rightarrow> 'p packet \<Rightarrow> bool) \<Rightarrow> ('p, 'e) graph \<Rightarrow> ('p, 'e) graph \<Rightarrow> bool"
  for P sends g0 where
  here: "engine_reaches P sends g0 g0"
| turn: "engine_reaches P sends g0 g \<Longrightarrow> engine_turn P g = Some (True, g') \<Longrightarrow> engine_reaches P sends g0 g'"
| call: "engine_reaches P sends g0 g \<Longrightarrow> permitted sends c g \<Longrightarrow> engine_call P c g = Some g' \<Longrightarrow> engine_reaches P sends g0 g'"

lemma call_changes_kind:
  assumes "call_change P c g = Some (wanted, g')"
  shows "\<exists>k w. g' = upd_kind (caller c) k (g\<lparr>world := w\<rparr>)"
proof -
  have same: "\<exists>k w. g = upd_kind s k (g\<lparr>world := w\<rparr>)" for s
    by (intro exI [of _ "kind_of g s"] exI [of _ "world g"]) (simp add: upd_kind_def upd_stage_def kind_of_def del: kind_stage_at)
  have kind: "\<exists>k' w. upd_kind s k g = upd_kind s k' (g\<lparr>world := w\<rparr>)" for s k
    by (intro exI [of _ k] exI [of _ "world g"]) simp
  have "g' = g \<or> (\<exists>k. g' = upd_kind (caller c) k g) \<or> (\<exists>k w. g' = upd_kind (caller c) k (g\<lparr>world := w\<rparr>))"
  proof (cases "get_stage (caller c) g")
    case (Some st)
    show ?thesis
    proof (cases c)
      case (SourceSupplies s p)
      then show ?thesis using assms Some by (cases "kind st") (auto simp: source_supplies_def)
    next
      case (MultistreamSourceSupplies s i p)
      then show ?thesis using assms Some
        by (cases "kind st") (auto simp: multistream_source_supplies_def bind_Some_iff Let_def split: if_split_asm)
    next
      case (SinkDemands s d)
      then show ?thesis using assms Some by (cases "kind st") (auto simp: sink_demands_def split: if_split_asm)
    next
      case (MultistreamSinkDemands s i d)
      then show ?thesis using assms Some by (cases "kind st") (auto simp: multistream_sink_demands_def)
    qed
  qed (use assms in \<open>cases c, auto simp: source_supplies_def multistream_source_supplies_def sink_demands_def multistream_sink_demands_def\<close>)
  then show ?thesis using same [of "caller c"] kind [of "caller c"] by blast
qed

context good_parts
begin

lemma call_change_returns:
  assumes S: "ok None g" and p: "permitted sends c g"
  shows "\<exists>wanted g'. call_change P c g = Some (wanted, g') \<and> stage_ready streams sends g' (caller c) \<and>
    (\<not> wanted \<longrightarrow> quiescent g' (caller c))"
proof -
  have s: "caller c \<in> set (stages g)" and id: "idle g" and m: "may_call sends c g" using p by (auto simp: permitted_def)
  have r: "stage_ready streams sends g (caller c)" using settledD(4) [OF S s] .
  have q: "quiescent g (caller c)" using settledD(7) [OF S] s id by (auto simp: awake_def idle_def)
  show ?thesis
  proof (cases c)
    case (SourceSupplies s p)
    then show ?thesis using m r q \<open>caller c \<in> set (stages g)\<close>
      by (auto simp: source_supplies_def get_stage_def stage_ready_def quiescent_def)
  next
    case (SinkDemands s d)
    then show ?thesis using m r q \<open>caller c \<in> set (stages g)\<close>
      by (auto simp: sink_demands_def get_stage_def stage_ready_def)
  next
    case (MultistreamSinkDemands s i d)
    then show ?thesis using m r q \<open>caller c \<in> set (stages g)\<close>
      by (auto simp: multistream_sink_demands_def get_stage_def stage_ready_def)
  next
    case (MultistreamSourceSupplies s i p)
    then obtain qs n where k: "kind_of g s = ActiveMultistreamSourceStage qs n True" and i: "i < nout g s" "sends (s, i) p"
      and s: "s \<in> set (stages g)" using m \<open>caller c \<in> set (stages g)\<close> by auto
    have l: "length qs = nout g s" "\<forall>j < nout g s. \<forall>p \<in> set (qs ! j). sends (s, j) p"
      using r k MultistreamSourceSupplies by (auto simp: stage_ready_def)
    have e: "\<forall>j < nout g s. qs ! j \<noteq> [] \<longrightarrow> eff g (s, j) = kNegative"
      using q k MultistreamSourceSupplies by (auto simp: quiescent_def)
    have d: "output_demand (s, i) g = Some (eff g (s, i))" using ready_mates [OF S s i(1)] by metis
    let ?n = "if pk_end_of_stream p then n + 1 else n" and ?qs = "qs[i := qs ! i @ [p]]"
    have c: "call_change P c g = (if qs ! i = [] \<and> eff g (s, i) \<noteq> kNegative
      then Some (True, upd_kind s (ActiveMultistreamSourceStage ?qs ?n False) g)
      else Some (False, upd_kind s (ActiveMultistreamSourceStage ?qs ?n True) (g\<lparr>world := do_request P s (world g)\<rparr>)))"
      using MultistreamSourceSupplies k i s l(1) d by (auto simp: multistream_source_supplies_def get_stage_def Let_def)
    have ready: "stage_ready streams sends (upd_kind s (ActiveMultistreamSourceStage ?qs n' b) (g\<lparr>world := w\<rparr>)) s" for n' b w
      using r MultistreamSourceSupplies k i l by (auto simp: stage_ready_def nth_list_update)
    have ready': "stage_ready streams sends (upd_kind s (ActiveMultistreamSourceStage ?qs n' b) g) s" for n' b
      using ready [of n' b "world g"] by simp
    have "quiescent (upd_kind s (ActiveMultistreamSourceStage ?qs ?n True) (g\<lparr>world := w\<rparr>)) s"
      if "\<not> (qs ! i = [] \<and> eff g (s, i) \<noteq> kNegative)" for w
      using that e i l by (auto simp: quiescent_def nth_list_update)
    then show ?thesis unfolding c using ready ready' MultistreamSourceSupplies by auto
  qed
qed

lemma engine_call_returns:
  assumes S: "ok None g" and p: "permitted sends c g"
  shows "\<exists>g'. engine_call P c g = Some g' \<and> ok None g' \<and> stages g' = stages g"
proof -
  let ?s = "caller c"
  have s: "?s \<in> set (stages g)" and id: "supply_backlog g = []" "demand_backlog g = []" and cb: "has_update_callback (stage_at g ?s)"
    using p by (auto simp: permitted_def idle_def)
  obtain wanted g' where c: "call_change P c g = Some (wanted, g')" "stage_ready streams sends g' ?s" "\<not> wanted \<Longrightarrow> quiescent g' ?s"
    using call_change_returns [OF assms] by blast
  obtain k w where g': "g' = upd_kind ?s k (g\<lparr>world := w\<rparr>)" using call_changes_kind [OF c(1)] by blast
  have enter: "ok (Some ?s) (g\<lparr>packets_produced := b\<rparr>)" for b
    by (rule settled_enter [OF S id(1)]) (use id settledD(3) [OF S] in \<open>auto simp: backlogs_ok_def\<close>)
  have "ok (Some ?s) (upd_kind ?s k (g\<lparr>packets_produced := b, world := w\<rparr>))" for b
  proof (rule settled_kind)
    show "ok (Some ?s) (g\<lparr>packets_produced := b, world := w\<rparr>)" using settled_world [OF enter, of b w] s by simp
    show "stage_ready streams sends (upd_kind ?s k (g\<lparr>packets_produced := b, world := w\<rparr>)) ?s"
      using c(2) unfolding g' by (subst ready_same_graph(1)) simp_all
  qed
  moreover have "g'\<lparr>packets_produced := b\<rparr> = upd_kind ?s k (g\<lparr>packets_produced := b, world := w\<rparr>)" for b
    unfolding g' upd_kind_def upd_stage_def by simp
  ultimately have S': "ok (Some ?s) (g'\<lparr>packets_produced := b\<rparr>)" for b by simp
  show ?thesis
  proof (cases wanted)
    case True
    have "has_update_callback (stage_at g' ?s)" using cb by (simp add: g' upd_kind_def)
    moreover have "?s \<in> set (stages g')" using s by (simp add: g')
    moreover obtain h where "update_stage P ?s g' = Some h" "ok None h" "stages h = stages g'"
      using update_stage_returns [OF S' \<open>?s \<in> set (stages g')\<close>] by blast
    ultimately show ?thesis using c(1) True by (simp add: engine_call_def get_stage_def g')
  next
    case False
    have same: "g' = g'\<lparr>packets_produced := packets_produced g'\<rparr>" by simp
    have S1: "ok (Some ?s) g'" by (subst same) (rule S')
    have neg: "raw g' m = kNegative" if "is_input g' i" "in_mate_at g' i = Some m" "packet_at g' i = Some p" for i m p
      using waitingD [OF settledD(8) [OF S], of i m p] that id by (simp add: g')
    have "awake None g'" using settledD(7) [OF S1] c(3) [OF False] by (auto simp: awake_def)
    moreover have "waiting None g'" using neg unfolding waiting_def by blast
    ultimately have "ok None g'" using settled_same_graph [OF S1] settledD(3) [OF S1] by blast
    then show ?thesis using c(1) False by (simp add: engine_call_def g')
  qed
qed

lemma reaches_settled:
  assumes "ok None g0" "engine_reaches P sends g0 g"
  shows "ok None g \<and> stages g = stages g0"
  using assms(2)
proof (induction rule: engine_reaches.induct)
  case (turn g g')
  then show ?case using engine_turn_returns [of g] by auto
next
  case (call g c g')
  then show ?case using engine_call_returns [of g c] by auto
qed (use assms in simp)

end

end
