(* ===== verification/Graph_Building.thy ===== *)
theory Graph_Building
  imports Graph_Runs
begin

text \<open>
  Building a graph. Whatever is added, connected, disconnected, removed and prepared, connections stay
  symmetric and lead to stages of the graph, and nothing moves before the first update; so a graph whose
  stages are all connected and prepared satisfies the invariant of the engine.
\<close>

fun initial_kind :: "'p stage_kind \<Rightarrow> bool" where
  "initial_kind (TransformStage a n) = True"
| "initial_kind (ActiveSinkStage d) = (d = kNegative)"
| "initial_kind (ActiveSourceStage b ps) = (ps = [])"
| "initial_kind (MultistreamSourceStage c i n) = (c = None)"
| "initial_kind (ActiveMultistreamSourceStage qs n b) = (\<forall>q \<in> set qs. q = [])"
| "initial_kind (ActiveMultistreamSinkStage ds al un pe) = (pe = [])"

definition built_ok :: "('p, 'e) graph \<Rightarrow> bool" where
  "built_ok g \<longleftrightarrow> wired g \<and> loop_free g \<and> idle g \<and> distinct (stages g) \<and>
     (\<forall>s \<in> set (stages g). s < next_stage g \<and> \<not> in_sup g s \<and> \<not> in_dem g s \<and> initial_kind (kind_of g s)) \<and>
     (\<forall>c. is_input g c \<longrightarrow> \<not> held g c) \<and> (\<forall>m. is_output g m \<longrightarrow> raw g m = kNegative)"

lemma built_okD:
  assumes "built_ok g"
  shows "wired g" "loop_free g" "idle g" "distinct (stages g)" "\<And>s. s \<in> set (stages g) \<Longrightarrow> s < next_stage g"
    "\<And>s. s \<in> set (stages g) \<Longrightarrow> \<not> in_sup g s" "\<And>s. s \<in> set (stages g) \<Longrightarrow> \<not> in_dem g s"
    "\<And>s. s \<in> set (stages g) \<Longrightarrow> initial_kind (kind_of g s)" "\<And>c. is_input g c \<Longrightarrow> packet_at g c = None"
    "\<And>m. is_output g m \<Longrightarrow> raw g m = kNegative"
  using assms unfolding built_ok_def by blast+

lemma built_settled:
  assumes B: "built_ok g" and r: "\<forall>s \<in> set (stages g). stage_ready streams sends g s" and t: "typed fits sends g"
  shows "settled streams fits sends None g"
proof -
  note D = built_okD [OF B]
  have e: "eff g m = kNegative" if "is_output g m" for m using D(10) [OF that] by (simp add: eff_def)
  have d: "demand_of g c = kNegative" if "is_input g c" for c
    using wired_in [OF D(1) that] D(10) by (auto simp: demand_of_def split: option.split)
  have h: "packet_at g c = None" if "is_input g c" for c using D(9) that by simp
  have "quiescent g s" if s: "s \<in> set (stages g)" for s
  proof (cases "kind_of g s")
    case (TransformStage a n)
    then have "nin g s = 1" "nout g s = 1" using r s by (auto simp: stage_ready_def)
    then have "is_input g (s, 0)" "is_output g (s, 0)" using s by (simp_all add: is_input_def is_output_def)
    then show ?thesis using TransformStage e d h by (simp add: quiescent_def)
  next
    case (ActiveSinkStage x)
    then have "nin g s = 1" using r s by (auto simp: stage_ready_def)
    then have "is_input g (s, 0)" using s by (simp add: is_input_def)
    then show ?thesis using ActiveSinkStage d h D(8) [OF s] by (simp add: quiescent_def)
  next
    case (ActiveMultistreamSourceStage qs n b)
    then show ?thesis using e s by (auto simp: quiescent_def is_output_def)
  next
    case (MultistreamSourceStage c i n)
    then show ?thesis using e s by (auto simp: quiescent_def is_output_def)
  qed (use D(8) [OF s] in \<open>simp_all add: quiescent_def\<close>)
  then have "awake None g" by (simp add: awake_def)
  moreover have "waiting None g" using h unfolding waiting_def by simp
  moreover have "backlogs_ok g" using D(3,6,7) by (simp add: backlogs_ok_def idle_def)
  moreover have "packets_fit fits g" using h unfolding packets_fit_def by auto
  ultimately show ?thesis using D(1,2) r t unfolding settled_def by blast
qed

section \<open>Connecting and disconnecting\<close>

text \<open>Setting one input and one output, when everything else stays.\<close>

lemma built_mates:
  assumes B: "built_ok g" and c: "is_input g c" and m: "is_output g m"
    and free: "\<And>m'. in_mate_at g c = Some m' \<Longrightarrow> m' = m" "\<And>c'. out_mate_at g m = Some c' \<Longrightarrow> c' = c"
    and x: "x = None \<and> y = None \<or> x = Some m \<and> y = Some c \<and> fst m \<noteq> fst c"
    and g': "output_at g' = (output_at g)(m := (output_at g m)\<lparr>out_mate := y\<rparr>)" "input_at g' = (input_at g)(c := (input_at g c)\<lparr>in_mate := x\<rparr>)"
      "kind_of g' = kind_of g" "nin g' = nin g" "nout g' = nout g" "stages g' = stages g" "in_sup g' = in_sup g" "in_dem g' = in_dem g"
      "next_stage g' = next_stage g" "supply_backlog g' = supply_backlog g" "demand_backlog g' = demand_backlog g"
  shows "built_ok g'"
proof -
  note D = built_okD [OF B]
  have io: "is_input g' = is_input g" "is_output g' = is_output g" using g' by (auto simp: is_input_def is_output_def fun_eq_iff)
  have other: "m' \<noteq> m" if "is_input g c'" "in_mate_at g c' = Some m'" "c' \<noteq> c" for c' m'
    using wired_in [OF D(1) that(1,2)] free(2) that(3) by blast
  have other': "c' \<noteq> c" if "is_output g m'" "out_mate_at g m' = Some c'" "m' \<noteq> m" for c' m'
    using wired_out [OF D(1) that(1,2)] free(1) that(3) by blast
  have "wired g'"
    unfolding wired_def io
  proof (intro conjI allI impI)
    fix c' m' assume a: "is_input g c'" "in_mate_at g' c' = Some m'"
    show "is_output g m'" "out_mate_at g' m' = Some c'"
      using a x wired_in [OF D(1) a(1), of m'] other [OF a(1), of m'] m g'(1,2) by (auto split: if_split_asm)
  next
    fix m' c' assume a: "is_output g m'" "out_mate_at g' m' = Some c'"
    show "is_input g c'" "in_mate_at g' c' = Some m'"
      using a x wired_out [OF D(1) a(1), of c'] other' [OF a(1), of c'] c g'(1,2) by (auto split: if_split_asm)
  qed
  moreover have "loop_free g'"
    unfolding loop_free_def io
  proof (intro allI impI)
    fix c' m' assume a: "is_input g c'" "in_mate_at g' c' = Some m'"
    show "fst m' \<noteq> fst c'" using a x loop_freeD [OF D(2) a(1), of m'] g'(2) by (auto split: if_split_asm)
  qed
  moreover have "packet_at g' c' = None" if "is_input g c'" for c' using D(9) [OF that] g'(2) by auto
  moreover have "raw g' m' = kNegative" if "is_output g m'" for m' using D(10) [OF that] g'(1) by auto
  moreover have "idle g'" using D(3) g'(10,11) by (simp add: idle_def)
  ultimately show ?thesis
    using D(4-8) unfolding built_ok_def io g'(3,6-9) by simp
qed

lemma disconnect_output_ok:
  assumes B: "built_ok g" and "disconnect_output m g = Some g'"
  shows "built_ok g' \<and> stages g' = stages g \<and> nin g' = nin g \<and> nout g' = nout g \<and> out_mate_at g' m = None \<and> is_output g m \<and>
    (\<forall>m'. out_mate_at g m' = None \<longrightarrow> out_mate_at g' m' = None) \<and> (\<forall>c. in_mate_at g c = None \<longrightarrow> in_mate_at g' c = None)"
proof -
  have m: "is_output g m" using assms(2) by (auto simp: disconnect_output_def get_output_eq split: if_splits)
  show ?thesis
  proof (cases "out_mate_at g m")
    case None
    then show ?thesis using assms m by (auto simp: disconnect_output_def get_output_eq)
  next
    case (Some c)
    note io = wired_out [OF built_okD(1) [OF B] m Some]
    have g': "g' = upd_output m (\<lambda>x. x\<lparr>out_mate := None\<rparr>) (upd_input c (\<lambda>x. x\<lparr>in_mate := None\<rparr>) g)"
      using assms(2) m io Some by (auto simp: disconnect_output_def get_output_eq get_input_eq)
    have "built_ok g'"
      by (rule built_mates [OF B _ m, of c None None]) (use io Some m in \<open>auto simp: g' output_at_upd input_at_upd\<close>)
    then show ?thesis using m io Some by (auto simp: g' output_at_upd input_at_upd)
  qed
qed

lemma disconnect_input_ok:
  assumes B: "built_ok g" and "disconnect_input c g = Some g'"
  shows "built_ok g' \<and> stages g' = stages g \<and> nin g' = nin g \<and> nout g' = nout g \<and> in_mate_at g' c = None \<and> is_input g c \<and>
    (\<forall>m. out_mate_at g m = None \<longrightarrow> out_mate_at g' m = None) \<and> (\<forall>c'. in_mate_at g c' = None \<longrightarrow> in_mate_at g' c' = None)"
proof -
  have c: "is_input g c" using assms(2) by (auto simp: disconnect_input_def get_input_eq split: if_splits)
  show ?thesis
  proof (cases "in_mate_at g c")
    case None
    then show ?thesis using assms c by (auto simp: disconnect_input_def get_input_eq)
  next
    case (Some m)
    note io = wired_in [OF built_okD(1) [OF B] c Some]
    have g': "g' = upd_input c (\<lambda>x. x\<lparr>in_mate := None\<rparr>) (upd_output m (\<lambda>x. x\<lparr>out_mate := None\<rparr>) g)"
      using assms(2) c io Some by (auto simp: disconnect_input_def get_output_eq get_input_eq)
    have "built_ok g'"
      by (rule built_mates [OF B c, of m None None]) (use io Some c in \<open>auto simp: g' output_at_upd input_at_upd\<close>)
    then show ?thesis using c io Some by (auto simp: g' output_at_upd input_at_upd)
  qed
qed

lemma connect_ok:
  assumes B: "built_ok g" and c: "graph_connect m c g = Some g'" and "fst m \<noteq> fst c"
  shows "built_ok g'"
proof -
  have io: "is_output g m" "is_input g c" using c by (auto simp: graph_connect_def get_output_eq get_input_eq split: if_splits)
  obtain g1 g2 where g1: "disconnect_output m g = Some g1" and g2: "disconnect_input c g1 = Some g2"
    and g': "g' = upd_input c (\<lambda>x. x\<lparr>in_mate := Some m\<rparr>) (upd_output m (\<lambda>x. x\<lparr>out_mate := Some c\<rparr>) g2)"
    using c io by (auto simp: graph_connect_def get_output_eq get_input_eq bind_Some_iff)
  note a1 = disconnect_output_ok [OF B g1]
  note a2 = disconnect_input_ok [OF conjunct1 [OF a1] g2]
  have io2: "is_output g2 m" "is_input g2 c" using io a1 a2 by (simp_all add: is_input_def is_output_def)
  show ?thesis
    by (rule built_mates [OF conjunct1 [OF a2] io2(2,1), of "Some m" "Some c"])
      (use a1 a2 assms(3) io2 in \<open>auto simp: g' output_at_upd input_at_upd\<close>)
qed

section \<open>Adding, removing and preparing\<close>

definition fresh_stage :: "'p stage \<Rightarrow> bool" where
  "fresh_stage st \<longleftrightarrow> (\<exists>k m n. st = new_stage k m n \<and> initial_kind k)"

lemma new_stages_fresh:
  "fresh_stage new_transform_stage" "fresh_stage new_active_sink_stage" "fresh_stage new_active_source_stage"
  "fresh_stage (new_multistream_source_stage n)" "fresh_stage (new_active_multistream_source_stage n)"
  "fresh_stage new_active_multistream_sink_stage"
  by (auto simp: fresh_stage_def new_transform_stage_def new_active_sink_stage_def new_active_source_stage_def
      new_multistream_source_stage_def new_active_multistream_source_stage_def new_active_multistream_sink_stage_def
      intro!: exI)

lemma graph_add_ok:
  assumes B: "built_ok g" and st: "fresh_stage st" and a: "graph_add st g = (s, g')"
  shows "built_ok g'"
proof -
  note D = built_okD [OF B]
  obtain k n1 n2 where k: "st = new_stage k n1 n2" "initial_kind k" using st by (auto simp: fresh_stage_def)
  have s: "s = next_stage g" "s \<notin> set (stages g)" using a D(5) [of s] by (auto simp: graph_add_def Let_def)
  have old: "stage_at g' t = stage_at g t" if "t \<in> set (stages g)" for t using a s that by (auto simp: graph_add_def Let_def)
  have new: "stage_at g' s = st\<lparr>has_update_callback := True\<rparr>" "stages g' = stages g @ [s]" "next_stage g' = s + 1"
    "supply_backlog g' = supply_backlog g" "demand_backlog g' = demand_backlog g" using a by (auto simp: graph_add_def Let_def)
  have new_in: "in_mate_at g' (s, i) = None \<and> packet_at g' (s, i) = None" if "is_input g' (s, i)" for i
    using that k(1) new(1) by (auto simp: input_at_def is_input_def nin_def new_stage_def new_input_def simp del: kind_stage_at)
  have new_out: "out_mate_at g' (s, i) = None \<and> raw g' (s, i) = kNegative" if "is_output g' (s, i)" for i
    using that k(1) new(1) by (auto simp: output_at_def is_output_def nout_def new_stage_def new_output_def simp del: kind_stage_at)
  have ins: "is_input g' c \<longleftrightarrow> is_input g c \<or> fst c = s \<and> snd c < nin g' s" for c
    using old [of "fst c"] s(2) by (auto simp: is_input_def new(2) nin_def simp del: kind_stage_at)
  have outs: "is_output g' c \<longleftrightarrow> is_output g c \<or> fst c = s \<and> snd c < nout g' s" for c
    using old [of "fst c"] s(2) by (auto simp: is_output_def new(2) nout_def simp del: kind_stage_at)
  have at_in: "input_at g' c = input_at g c" if "is_input g c" for c
    using old [of "fst c"] that by (simp add: input_at_def is_input_def)
  have at_out: "output_at g' c = output_at g c" if "is_output g c" for c
    using old [of "fst c"] that by (simp add: output_at_def is_output_def)
  have new_in': "in_mate_at g' c = None \<and> packet_at g' c = None" if "is_input g' c" "\<not> is_input g c" for c
    using new_in [of "snd c"] that by (cases c) (auto simp: ins)
  have new_out': "out_mate_at g' c = None \<and> raw g' c = kNegative" if "is_output g' c" "\<not> is_output g c" for c
    using new_out [of "snd c"] that by (cases c) (auto simp: outs)
  have "wired g'"
    unfolding wired_def
  proof (intro conjI allI impI)
    fix c m assume c: "is_input g' c" "in_mate_at g' c = Some m"
    then have "is_input g c" using new_in' [OF c(1)] by auto
    then have "is_output g m \<and> out_mate_at g m = Some c" using wired_in [OF D(1)] c(2) at_in by simp
    then show "is_output g' m" "out_mate_at g' m = Some c" using outs at_out by auto
  next
    fix m c assume m: "is_output g' m" "out_mate_at g' m = Some c"
    then have "is_output g m" using new_out' [OF m(1)] by auto
    then have "is_input g c \<and> in_mate_at g c = Some m" using wired_out [OF D(1)] m(2) at_out by simp
    then show "is_input g' c" "in_mate_at g' c = Some m" using ins at_in by auto
  qed
  moreover have "loop_free g'"
    unfolding loop_free_def
  proof (intro allI impI)
    fix c m assume c: "is_input g' c" "in_mate_at g' c = Some m"
    then have "is_input g c" using new_in' [OF c(1)] by auto
    then show "fst m \<noteq> fst c" using loop_freeD [OF D(2)] c(2) at_in by simp
  qed
  moreover have "packet_at g' c = None" if "is_input g' c" for c
    using new_in' [OF that] D(9) [of c] at_in [of c] by (cases "is_input g c") auto
  moreover have "raw g' m = kNegative" if "is_output g' m" for m
    using new_out' [OF that] D(10) [of m] at_out [of m] by (cases "is_output g m") auto
  moreover have "t < next_stage g' \<and> \<not> in_sup g' t \<and> \<not> in_dem g' t \<and> initial_kind (kind_of g' t)" if "t \<in> set (stages g')" for t
  proof (cases "t = s")
    case True
    then show ?thesis using new(1,3) k by (simp add: in_sup_def in_dem_def kind_of_def new_stage_def del: kind_stage_at)
  next
    case False
    then have t: "t \<in> set (stages g)" using that new(2) by simp
    then show ?thesis
      using old [OF t] D(5-8) [OF t] new(3) s(1)
      by (simp add: in_sup_def in_dem_def kind_of_def del: kind_stage_at)
  qed
  ultimately show ?thesis using D(3,4) new(2,4,5) s(2) unfolding built_ok_def idle_def by simp
qed

lemma disconnect_all_ok:
  assumes f: "\<And>g c g'. built_ok g \<Longrightarrow> f c g = Some g' \<Longrightarrow> built_ok g' \<and> stages g' = stages g \<and> nin g' = nin g \<and> nout g' = nout g \<and>
      gone g' c \<and> (\<forall>m. out_mate_at g m = None \<longrightarrow> out_mate_at g' m = None) \<and> (\<forall>c. in_mate_at g c = None \<longrightarrow> in_mate_at g' c = None)"
    and gone: "\<And>g g' c. (\<forall>m. out_mate_at g m = None \<longrightarrow> out_mate_at g' m = None) \<Longrightarrow>
      (\<forall>c. in_mate_at g c = None \<longrightarrow> in_mate_at g' c = None) \<Longrightarrow> gone g c \<Longrightarrow> gone g' c"
    and "built_ok g" "disconnect_all f cs g = Some g'"
  shows "built_ok g' \<and> stages g' = stages g \<and> nin g' = nin g \<and> nout g' = nout g \<and> (\<forall>c \<in> set cs. gone g' c) \<and>
    (\<forall>m. out_mate_at g m = None \<longrightarrow> out_mate_at g' m = None) \<and> (\<forall>c. in_mate_at g c = None \<longrightarrow> in_mate_at g' c = None)"
  using assms(3,4)
proof (induction cs arbitrary: g)
  case (Cons c cs)
  then obtain h where h: "f c g = Some h" "disconnect_all f cs h = Some g'" by (auto simp: bind_Some_iff)
  note a = f [OF Cons.prems(1) h(1)]
  note IH = Cons.IH [OF conjunct1 [OF a] h(2)]
  have "gone g' c" using gone [of h g' c] a IH by blast
  then show ?case using a IH by simp
qed simp

lemma remove_part_ok:
  assumes B: "built_ok g" and "remove_part s g = Some g'"
  shows "built_ok g'"
proof -
  obtain h1 h2 where s: "s \<in> set (stages g)"
    and h1: "disconnect_all disconnect_input (map (Pair s) [0..<nin g s]) g = Some h1"
    and h2: "disconnect_all disconnect_output (map (Pair s) [0..<nout g s]) h1 = Some h2"
    and g': "g' = h2\<lparr>sources := remove1 s (sources h2), sinks := remove1 s (sinks h2), stages := remove1 s (stages h2)\<rparr>"
    using assms(2) by (auto simp: remove_part_def bind_Some_iff get_stage_def split: if_split_asm)
  have a1: "built_ok h1 \<and> stages h1 = stages g \<and> nin h1 = nin g \<and> nout h1 = nout g \<and>
      (\<forall>c \<in> set (map (Pair s) [0..<nin g s]). in_mate_at h1 c = None) \<and>
      (\<forall>m. out_mate_at g m = None \<longrightarrow> out_mate_at h1 m = None) \<and> (\<forall>c. in_mate_at g c = None \<longrightarrow> in_mate_at h1 c = None)"
    by (rule disconnect_all_ok [OF _ _ B h1, where gone = "\<lambda>g c. in_mate_at g c = None"]) (use disconnect_input_ok in blast)+
  have a2: "built_ok h2 \<and> stages h2 = stages h1 \<and> nin h2 = nin h1 \<and> nout h2 = nout h1 \<and>
      (\<forall>c \<in> set (map (Pair s) [0..<nout g s]). out_mate_at h2 c = None) \<and>
      (\<forall>m. out_mate_at h1 m = None \<longrightarrow> out_mate_at h2 m = None) \<and> (\<forall>c. in_mate_at h1 c = None \<longrightarrow> in_mate_at h2 c = None)"
    by (rule disconnect_all_ok [OF _ _ conjunct1 [OF a1] h2, where gone = "\<lambda>g c. out_mate_at g c = None"])
      (use disconnect_output_ok in blast)+
  note D = built_okD [OF conjunct1 [OF a2]]
  have none: "\<forall>i < nin h2 s. in_mate_at h2 (s, i) = None" "\<forall>i < nout h2 s. out_mate_at h2 (s, i) = None"
    using a1 a2 by auto
  have at: "input_at g' = input_at h2" "output_at g' = output_at h2" "kind_of g' = kind_of h2" "nin g' = nin h2" "nout g' = nout h2"
    "in_sup g' = in_sup h2" "in_dem g' = in_dem h2"
    by (simp_all add: g' readers fun_eq_iff del: kind_stage_at)
  have st: "set (stages g') = set (stages h2) - {s}" "distinct (stages g')" using D(4) by (simp_all add: g')
  have io: "is_input g' c \<longleftrightarrow> is_input h2 c \<and> fst c \<noteq> s" "is_output g' c \<longleftrightarrow> is_output h2 c \<and> fst c \<noteq> s" for c
    by (auto simp: is_input_def is_output_def st at)
  have "wired g'"
    unfolding wired_def io at
  proof (intro conjI allI impI)
    fix c m assume c: "is_input h2 c \<and> fst c \<noteq> s" "in_mate_at h2 c = Some m"
    then have m: "is_output h2 m" "out_mate_at h2 m = Some c" using wired_in [OF D(1), of c m] by auto
    then show "is_output h2 m" "out_mate_at h2 m = Some c" by auto
    show "fst m \<noteq> s" using m none(2) by (cases m) (auto simp: is_output_def)
  next
    fix m c assume m: "is_output h2 m \<and> fst m \<noteq> s" "out_mate_at h2 m = Some c"
    then have c: "is_input h2 c" "in_mate_at h2 c = Some m" using wired_out [OF D(1), of m c] by auto
    then show "is_input h2 c" "in_mate_at h2 c = Some m" by auto
    show "fst c \<noteq> s" using c none(1) by (cases c) (auto simp: is_input_def)
  qed
  moreover have "loop_free g'" unfolding loop_free_def io at using loop_freeD [OF D(2)] by blast
  moreover have "idle g'" using D(3) by (simp add: idle_def g')
  ultimately show ?thesis
    unfolding built_ok_def io at using st D(5-10) by (auto simp: g')
qed

text \<open>Preparing changes no connection and moves nothing.\<close>

definition only_prepared :: "('p, 'e) graph \<Rightarrow> ('p, 'e) graph \<Rightarrow> bool" where
  "only_prepared g g' \<longleftrightarrow> same_wires g g' \<and> supply_backlog g' = supply_backlog g \<and> demand_backlog g' = demand_backlog g \<and>
     in_sup g' = in_sup g \<and> in_dem g' = in_dem g \<and> next_stage g' = next_stage g \<and>
     (\<forall>s. initial_kind (kind_of g s) \<longrightarrow> initial_kind (kind_of g' s)) \<and>
     (\<forall>c. is_input g c \<longrightarrow> packet_at g' c = packet_at g c) \<and> (\<forall>m. is_output g m \<longrightarrow> raw g' m = raw g m)"

lemma only_prepared_refl: "only_prepared g g"
  by (simp add: only_prepared_def same_wires_def)

lemma only_prepared_trans:
  assumes "only_prepared g h" "only_prepared h g'"
  shows "only_prepared g g'"
proof -
  have w: "same_wires g h" "same_wires h g'" using assms by (auto simp: only_prepared_def)
  note a = same_wiresD [OF w(1)] and b = same_wiresD [OF w(2)]
  show ?thesis using assms a b unfolding only_prepared_def same_wires_def by auto
qed

lemma only_prepared_ok: "built_ok g \<Longrightarrow> only_prepared g g' \<Longrightarrow> built_ok g'"
proof -
  assume B: "built_ok g" and P: "only_prepared g g'"
  note D = built_okD [OF B]
  have w: "same_wires g g'" using P by (simp add: only_prepared_def)
  note W = same_wiresD [OF w]
  have "wired g'" "loop_free g'" using same_wires_wired [OF w D(1)] same_wires_loop_free [OF w D(2)] .
  then show "built_ok g'"
    using D(3-10) P W unfolding built_ok_def only_prepared_def idle_def by auto
qed

lemma only_prepared_changes:
  "initial_kind k \<or> \<not> initial_kind (kind_of g s) \<Longrightarrow> only_prepared g (upd_kind s k g)"
  "only_prepared g (g\<lparr>world := w\<rparr>)"
  "is_input g c \<Longrightarrow> only_prepared g (upd_input c (\<lambda>x. x\<lparr>in_prepared := b\<rparr>) g)"
  "is_output g m \<Longrightarrow> only_prepared g (upd_output m (\<lambda>x. x\<lparr>out_copy_allocator := a\<rparr>) g)"
  by (auto simp: only_prepared_def same_wires_def input_at_upd output_at_upd)

lemma set_copy_allocator_only: "set_copy_allocator m a g = Some g' \<Longrightarrow> only_prepared g g' \<and> kind_of g' = kind_of g"
  by (auto simp: set_copy_allocator_def get_output_eq only_prepared_changes split: if_split_asm)

lemma prepare_output_only:
  assumes "prepare_output P m a g = Some (next, g')"
  shows "only_prepared g g'"
proof -
  obtain st where st: "get_stage (fst m) g = Some st" "kind st = kind_of g (fst m)"
    using assms by (cases "get_stage (fst m) g") (auto simp: prepare_output_def get_stage_def split: if_split_asm)
  show ?thesis
  proof (cases "kind st")
    case (TransformStage b n)
    then show ?thesis using assms st by (auto simp: prepare_output_def Let_def intro!: only_prepared_changes)
  next
    case (ActiveSourceStage b ps)
    obtain h where h: "h = g \<or> (\<exists>w. h = g\<lparr>world := w\<rparr>) \<or> set_copy_allocator m a g = Some h"
      and g': "g' = upd_kind (fst m) (ActiveSourceStage True ps) h"
    proof (cases "can_accept_allocator P (fst m)")
      case True
      then show thesis
        using that [of "g\<lparr>world := do_set_allocator P (fst m) (Some (case a of None \<Rightarrow> default_allocator | Some a \<Rightarrow> a)) (world g)\<rparr>"]
          assms st(1) ActiveSourceStage by (simp add: prepare_output_def Let_def) blast
    next
      case False
      show thesis
      proof (cases a)
        case None
        then show thesis using that [of g] assms st(1) ActiveSourceStage False by (simp add: prepare_output_def Let_def)
      next
        case (Some x)
        then obtain h where "set_copy_allocator m a g = Some h" "g' = upd_kind (fst m) (ActiveSourceStage True ps) h"
          using assms st(1) ActiveSourceStage False by (auto simp: prepare_output_def Let_def bind_Some_iff)
        then show thesis using that by blast
      qed
    qed
    have "only_prepared g h \<and> kind_of h = kind_of g"
      using h
    proof (elim disjE exE)
      fix w assume "h = g\<lparr>world := w\<rparr>"
      then show ?thesis using only_prepared_changes(2) by simp
    qed (simp add: only_prepared_refl, rule set_copy_allocator_only)
    then have "only_prepared g h" "only_prepared h g'"
      using g' ActiveSourceStage st(2) by (simp_all add: only_prepared_changes)
    then show ?thesis using only_prepared_trans by blast
  next
    case (MultistreamSourceStage c i n)
    then show ?thesis using assms st set_copy_allocator_only [of m a g g'] only_prepared_refl [of g]
      by (auto simp: prepare_output_def bind_Some_iff split: if_split_asm)
  next
    case (ActiveMultistreamSourceStage qs n b)
    then show ?thesis using assms st set_copy_allocator_only [of m a g g'] only_prepared_refl [of g]
      by (auto simp: prepare_output_def bind_Some_iff split: if_split_asm)
  qed (use assms st in \<open>simp_all add: prepare_output_def\<close>)
qed

lemma prepare_visitor_only:
  assumes "prepare_visitor P r m g = Some (next, g')"
  shows "only_prepared g g'"
proof -
  obtain a where r: "is_input g r" and a: "prepare_output P m a (upd_input r (\<lambda>x. x\<lparr>in_prepared := True\<rparr>) g) = Some (next, g')"
    using assms by (auto simp: prepare_visitor_def get_input_eq bind_Some_iff split: if_split_asm)
  show ?thesis using only_prepared_trans [OF only_prepared_changes(3) [OF r] prepare_output_only [OF a]] .
qed

lemma visit_upstream_only:
  assumes v: "\<And>r m g next g'. visitor r m g = Some (next, g') \<Longrightarrow> only_prepared g g'"
    and "visit_upstream visitor backlog g = Some g'"
  shows "only_prepared g g'"
proof -
  let ?P = "\<lambda>v b g y. (\<forall>r m g next g'. v r m g = Some (next, g') \<longrightarrow> only_prepared g g') \<longrightarrow> only_prepared g y"
  have "?P v b g y" if "visit_upstream v b g = Some y" for v b g and y :: "('a, 'b) graph"
  proof (rule visit_upstream.raw_induct [where P = ?P, OF _ that], goal_cases)
    case (1 visit v b g y)
    show ?case
    proof (cases b)
      case Nil
      then show ?thesis using 1(2) by (simp add: only_prepared_refl)
    next
      case (Cons r rs)
      then obtain m "next" h where h: "v r m g = Some (next, h)" "visit v (rs @ map (Pair (fst m)) next) h = Some y"
        using 1(2) by (auto simp: bind_Some_iff)
      show ?thesis using 1(1) [OF h(2)] h(1) only_prepared_trans by blast
    qed
  qed
  then show ?thesis using assms by blast
qed

section \<open>Graphs as they are built\<close>

inductive graph_built :: "('p, 'e) parts \<Rightarrow> ('p, 'e) graph \<Rightarrow> bool" for P where
  empty: "graph_built P (empty_graph w)"
| add: "graph_built P g \<Longrightarrow> fresh_stage st \<Longrightarrow> graph_add st g = (s, g') \<Longrightarrow> graph_built P g'"
| graph_connect: "graph_built P g \<Longrightarrow> graph_connect m c g = Some g' \<Longrightarrow> fst m \<noteq> fst c \<Longrightarrow> graph_built P g'"
| disconnect_output: "graph_built P g \<Longrightarrow> disconnect_output m g = Some g' \<Longrightarrow> graph_built P g'"
| disconnect_input: "graph_built P g \<Longrightarrow> disconnect_input c g = Some g' \<Longrightarrow> graph_built P g'"
| remove: "graph_built P g \<Longrightarrow> remove_part s g = Some g' \<Longrightarrow> graph_built P g'"
| reset: "graph_built P g \<Longrightarrow> graph_built P (graph_reset g)"
| prepare: "graph_built P g \<Longrightarrow> engine_prepare_input P c g = Some g' \<Longrightarrow> graph_built P g'"

lemma graph_built_ok: "graph_built P g \<Longrightarrow> built_ok g"
proof (induction rule: graph_built.induct)
  case (empty w)
  show ?case by (simp add: built_ok_def empty_graph_def wired_def loop_free_def idle_def is_input_def is_output_def)
next
  case (reset g)
  have "stages (graph_reset g) = []" by (simp add: graph_reset_def)
  moreover have "idle (graph_reset g)" using built_okD(3) [OF reset.IH] by (simp add: idle_def graph_reset_def)
  ultimately show ?case unfolding built_ok_def wired_def loop_free_def is_input_def is_output_def by simp
next
  case (prepare g c g')
  have "only_prepared g g'"
    by (rule visit_upstream_only [OF prepare_visitor_only prepare.hyps(2) [unfolded engine_prepare_input_def]])
  then show ?case using only_prepared_ok [OF prepare.IH] by blast
qed (use graph_add_ok connect_ok disconnect_output_ok disconnect_input_ok remove_part_ok in blast)+

end
