(* ===== verification/Graph_Properties.thy ===== *)
theory Graph_Properties
  imports Graph_Building Lpcm
begin

text \<open>
  A player as an instance of the model - a source, a sample reformatter and a sink - and the properties
  of graphs and their engine, with the defects found.
\<close>

section \<open>A player\<close>

text \<open>Stage 1 hosts the reformatter of the code, from unsigned 8-bit to signed 16-bit stereo; the sink at
  stage 2 keeps what it gets in the \<open>world\<close> and always wants more.\<close>

definition player_reformatter :: reformatter where
  "player_reformatter = the (reformatter_create stereo_bytes kSigned16)"

definition empty_packet :: "int list packet" where
  "empty_packet = \<lparr>pk_pts = 0, pk_pts_rate = \<lparr>subject_delta = 1, reference_delta = 1\<rparr>, pk_keyframe = False,
     pk_end_of_stream = True, pk_size = 0, pk_payload = None, pk_has_allocator = False, pk_revised = None\<rparr>"

definition player :: "(int list, int list packet list) parts" where
  "player =
     \<lparr>do_transform = (\<lambda>s p new a w.
        if s = 1 then map_option (\<lambda>(b, q). (b, q, w))
          (transform_packet (\<lambda>_ _ x. x) (\<lambda>n. Some (replicate (unat n div 2) 0)) player_reformatter p)
        else Some (True, Some p, w)),
      do_sink = (\<lambda>s i p w. (kPositive, w @ [p])),
      do_pull = (\<lambda>s w. (Some empty_packet, 0, w)),
      do_request = (\<lambda>s w. w),
      do_downstream_demand = (\<lambda>s d w. w),
      do_set_allocator = (\<lambda>s a w. w),
      do_flush = (\<lambda>s w. w),
      can_accept_allocator = (\<lambda>s. True),
      sink_allocator = (\<lambda>s. None),
      allocates = (\<lambda>a n w. True)\<rparr>"

text \<open>Packets of whole stereo frames of samples of that many bytes, or empty.\<close>

definition stereo_packet :: "nat \<Rightarrow> int list packet \<Rightarrow> bool" where
  "stereo_packet b p \<longleftrightarrow>
     (pk_size p = 0 \<and> pk_payload p = None) \<or>
     (\<exists>n src. 0 < n \<and> n < 2 ^ 32 \<and> unat (pk_size p) = n * 2 * b \<and> pk_payload p = Some src \<and> length src = n * 2)"

definition player_fits :: "nat \<Rightarrow> int list packet \<Rightarrow> bool" where
  "player_fits s = stereo_packet (if s = 2 then 2 else 1)"

definition player_sends :: "connector \<Rightarrow> int list packet \<Rightarrow> bool" where
  "player_sends m = stereo_packet (if fst m = 1 \<or> fst m = 2 then 2 else 1)"

lemma player_reformatter_types:
  "reformatter_create stereo_bytes kSigned16 = Some player_reformatter" "rf_from player_reformatter = Lpcm_u8"
  "rf_to player_reformatter = Lpcm_i16" "at_channels (rf_in player_reformatter) = 2" "type_ok stereo_bytes"
  by (simp_all add: player_reformatter_def reformatter_create_def stereo_bytes_def create_audio_def create_stream_type_def
      st_audio_def lpcm_instance_def type_ok_def details_ok_def)

lemma reformatter_transforms:
  assumes "stereo_packet 1 p"
  shows "\<exists>q. transform_packet f (\<lambda>n. Some (replicate (unat n div 2) 0)) player_reformatter p = Some (True, Some q) \<and> stereo_packet 2 q"
proof (cases "pk_size p = 0")
  case True
  then show ?thesis using transform_empty_packet [of p f "\<lambda>n. Some (replicate (unat n div 2) 0)" player_reformatter]
    by (auto simp: stereo_packet_def)
next
  case False
  then obtain n src where n: "0 < n" "n < 2 ^ 32" "unat (pk_size p) = n * 2 * 1" "pk_payload p = Some src" "length src = n * 2"
    using assms by (auto simp: stereo_packet_def)
  have "unat (of_nat (n * 2 * 2) :: u64) = n * 2 * 2" using n(2) by (intro unat_of_nat_small) simp
  then have len: "length (replicate (unat (of_nat (n * 2 * 2) :: u64) div 2) (0 :: int)) = n * 2" by simp
  have "\<exists>q. transform_packet f (\<lambda>n. Some (replicate (unat n div 2) 0)) player_reformatter p = Some (True, Some q) \<and>
      pk_payload q = Some (map (copy_sample f Lpcm_u8 Lpcm_i16) src) \<and> unat (pk_size q) = n * 2 * 2"
    using transform_whole_frames [OF player_reformatter_types(1,5), of 2 p n src "\<lambda>n. Some (replicate (unat n div 2) 0)"
        "replicate (unat (of_nat (n * 2 * 2) :: u64) div 2) 0" f] n len
    unfolding player_reformatter_types(2,3,4) by auto
  then show ?thesis using n(1,2,5) by (fastforce simp: stereo_packet_def)
qed

interpretation player_parts: good_parts player "\<lambda>s. 1" player_fits player_sends
proof
  fix m p assume p: "player_sends m p"
  then show "(pk_size p = 0) = (pk_payload p = None)" by (auto simp: player_sends_def stereo_packet_def split: if_splits)
  show "player_sends m (p\<lparr>pk_has_allocator := True, pk_revised := None\<rparr>)" using p by (simp add: player_sends_def stereo_packet_def)
next
  fix a n w show "allocates player a n w" by (simp add: player_def)
next
  fix s p new a w assume "player_fits s p"
  then show "\<exists>finished q w'. do_transform player s p new a w = Some (finished, q, w') \<and> (finished \<or> q \<noteq> None) \<and>
      (\<forall>x. q = Some x \<longrightarrow> player_sends (s, 0) x)"
    using reformatter_transforms [of p "\<lambda>_ _ x. x"] by (auto simp: player_def player_fits_def player_sends_def split: if_split_asm)
next
  fix s w show "\<exists>p i w'. do_pull player s w = (Some p, i, w') \<and> i < 1 \<and> player_sends (s, i) p"
    by (auto simp: player_def player_sends_def stereo_packet_def empty_packet_def)
qed

section \<open>Running a graph\<close>

text \<open>A graph that was built and is ready: everything is connected and prepared, and what an output sends
  fits the stage behind it.\<close>

definition operable ::
    "('p, 'e) parts \<Rightarrow> (nat \<Rightarrow> nat) \<Rightarrow> (nat \<Rightarrow> 'p packet \<Rightarrow> bool) \<Rightarrow> (connector \<Rightarrow> 'p packet \<Rightarrow> bool) \<Rightarrow> ('p, 'e) graph \<Rightarrow> bool" where
  "operable P streams fits sends g \<longleftrightarrow>
     graph_built P g \<and> (\<forall>s \<in> set (stages g). stage_ready streams sends g s) \<and> typed fits sends g"

text \<open>The player's graph with the demands of the source's output, of the transform's output and of the sink,
  and the stages in the demand backlog.\<close>

definition player_stage :: "demand \<Rightarrow> demand \<Rightarrow> demand \<Rightarrow> nat list \<Rightarrow> nat \<Rightarrow> int list stage" where
  "player_stage d0 d1 d2 bl s =
     (if s = 0 then
        \<lparr>kind = ActiveSourceStage True [], inputs = [],
         outputs = [\<lparr>out_mate = Some (1, 0), out_demand = d0, out_copy_allocator = None\<rparr>],
         in_supply_backlog = False, in_demand_backlog = 0 \<in> set bl, has_update_callback = True\<rparr>
      else if s = 1 then
        \<lparr>kind = TransformStage (Some default_allocator) True, inputs = [\<lparr>in_mate = Some (0, 0), in_prepared = True, in_packet = None\<rparr>],
         outputs = [\<lparr>out_mate = Some (2, 0), out_demand = d1, out_copy_allocator = None\<rparr>],
         in_supply_backlog = False, in_demand_backlog = 1 \<in> set bl, has_update_callback = True\<rparr>
      else if s = 2 then
        \<lparr>kind = ActiveSinkStage d2, inputs = [\<lparr>in_mate = Some (1, 0), in_prepared = True, in_packet = None\<rparr>], outputs = [],
         in_supply_backlog = False, in_demand_backlog = 2 \<in> set bl, has_update_callback = True\<rparr>
      else \<lparr>kind = ActiveSinkStage kNegative, inputs = [], outputs = [], in_supply_backlog = False, in_demand_backlog = False,
         has_update_callback = False\<rparr>)"

definition player_state :: "demand \<Rightarrow> demand \<Rightarrow> demand \<Rightarrow> nat list \<Rightarrow> (int list, int list packet list) graph" where
  "player_state d0 d1 d2 bl =
     \<lparr>stage_at = player_stage d0 d1 d2 bl, stages = [0, 1, 2], sources = [0], sinks = [2], next_stage = 3, supply_backlog = [],
      demand_backlog = bl, packets_produced = False, world = []\<rparr>"

definition player_graph :: "(int list, int list packet list) graph" where
  "player_graph = player_state kNegative kNegative kNegative []"

definition player_parts_added :: "(int list, int list packet list) graph" where
  "player_parts_added =
     snd (graph_add new_active_sink_stage (snd (graph_add new_transform_stage (snd (graph_add new_active_source_stage (empty_graph []))))))"

lemma visit_upstream_steps:
  "visit_upstream v [] g = Some g"
  "visit_upstream v (r # rs) g = Option.bind (get_input r g) (\<lambda>inp. Option.bind (in_mate inp) (\<lambda>m.
     Option.bind (v r m g) (\<lambda>(next, g). visit_upstream v (rs @ map (Pair (fst m)) next) g)))"
  by (subst visit_upstream.simps, simp)+

lemmas graph_steps = get_input_def get_output_def get_stage_def nth_opt_def upd_input_def upd_output_def upd_kind_def upd_stage_def
  connect_parts_def only_input_def only_output_def graph_connect_def disconnect_output_def disconnect_input_def
  prepare_visitor_def prepare_input_def prepare_output_def engine_prepare_input_def

lemma player_added:
  "player_parts_added =
     \<lparr>stage_at = (\<lambda>s. if s = 0 then new_active_source_stage\<lparr>has_update_callback := True\<rparr>
        else if s = 1 then new_transform_stage\<lparr>has_update_callback := True\<rparr>
        else if s = 2 then new_active_sink_stage\<lparr>has_update_callback := True\<rparr>
        else stage_at (empty_graph ([] :: int list packet list)) s),
      stages = [0, 1, 2], sources = [0], sinks = [2], next_stage = 3, supply_backlog = [],
      demand_backlog = [], packets_produced = False, world = []\<rparr>"
  by (simp add: player_parts_added_def graph_add_def new_active_sink_stage_def new_transform_stage_def new_active_source_stage_def
    new_stage_def empty_graph_def fun_eq_iff)

lemma player_connected:
  "Option.bind (graph_connect (0, 0) (1, 0) player_parts_added) (\<lambda>g. Option.bind (graph_connect (1, 0) (2, 0) g) (\<lambda>g.
     engine_prepare_input player (2, 0) g)) = Some player_graph"
  by (simp add: player_added new_active_sink_stage_def new_transform_stage_def new_active_source_stage_def new_stage_def graph_steps
       visit_upstream_steps new_input_def new_output_def player_def empty_graph_def player_graph_def player_state_def player_stage_def
       fun_eq_iff Let_def del: kind_stage_at)

lemma player_built: "graph_built player player_graph"
proof -
  have add: "graph_built player (snd (graph_add st g))" if "graph_built player g" "fresh_stage st"
    for st :: "int list stage" and g :: "(int list, int list packet list) graph"
    using graph_built.add [OF that, of "fst (graph_add st g)" "snd (graph_add st g)"] by simp
  have added: "graph_built player player_parts_added"
    unfolding player_parts_added_def by (intro add graph_built.empty new_stages_fresh)
  obtain g1 g2 where g: "graph_connect (0, 0) (1, 0) player_parts_added = Some g1" "graph_connect (1, 0) (2, 0) g1 = Some g2"
    "engine_prepare_input player (2, 0) g2 = Some player_graph"
    using player_connected by (auto simp: bind_eq_Some_conv)
  have "graph_built player g1" by (rule graph_built.graph_connect [OF added g(1)]) simp
  then have "graph_built player g2" by (rule graph_built.graph_connect [OF _ g(2)]) simp
  then show ?thesis by (rule graph_built.prepare [OF _ g(3)])
qed

lemma player_operable: "operable player (\<lambda>s. 1) player_fits player_sends player_graph"
proof -
  have "\<forall>s \<in> set (stages player_graph). stage_ready (\<lambda>s. 1) player_sends player_graph s"
    by (simp add: player_graph_def player_state_def player_stage_def stage_ready_def readers del: kind_stage_at)
  moreover have "typed player_fits player_sends player_graph"
    by (auto simp: typed_def player_graph_def player_state_def player_stage_def is_output_def readers player_fits_def player_sends_def)
  ultimately show ?thesis using player_built by (simp add: operable_def)
qed

lemma transform_loop_stops: "transform_turn P s a g = Some (False, h) \<Longrightarrow> transform_loop P s a g = Some h"
  by (subst transform_loop.simps) simp

lemma player_call: "engine_call player (SinkDemands 2 kPositive) player_graph = Some (player_state kNegative kPositive kPositive [1])"
  by (simp add: engine_call_def player_graph_def player_state_def player_stage_def sink_demands_def graph_steps update_stage_def stage_update_def
     active_sink_update_def input_set_demand_def push_to_demand_backlog_def Let_def fun_eq_iff del: kind_stage_at)

lemma player_turn: "engine_turn player (player_state kNegative kPositive kPositive [1]) = Some (True, player_state kPositive kPositive kPositive [0])"
  by (simp add: engine_turn_def pop_from_supply_backlog_def pop_from_demand_backlog_def player_state_def player_stage_def graph_steps
     update_stage_def stage_update_def transform_update_def input_set_demand_def push_to_demand_backlog_def Let_def fun_eq_iff
     output_demand_def transform_loop_stops transform_turn_def del: kind_stage_at)

lemma player_turn2: "engine_turn player (player_state kPositive kPositive kPositive [0]) = Some (True, player_state kPositive kPositive kPositive [])"
  by (simp add: engine_turn_def pop_from_supply_backlog_def pop_from_demand_backlog_def player_state_def player_stage_def graph_steps
     update_stage_def stage_update_def active_source_update_def Let_def fun_eq_iff player_def
     output_demand_def del: kind_stage_at)

lemma player_reaches:
  "engine_reaches player player_sends player_graph (player_state kPositive kPositive kPositive [])"
proof -
  have "permitted player_sends (SinkDemands 2 kPositive) player_graph"
    by (simp add: permitted_def idle_def player_graph_def player_state_def player_stage_def readers del: kind_stage_at)
  then have "engine_reaches player player_sends player_graph (player_state kNegative kPositive kPositive [1])"
    using engine_reaches.call [OF engine_reaches.here _ player_call] by blast
  then have "engine_reaches player player_sends player_graph (player_state kPositive kPositive kPositive [0])"
    using engine_reaches.turn [OF _ player_turn] by blast
  then show ?thesis using engine_reaches.turn [OF _ player_turn2] by blast
qed

lemmas player_runs = player_parts.good_parts_axioms player_operable player_reaches

lemma player_rests: "idle (player_state kPositive kPositive kPositive [])"
  by (simp add: idle_def player_state_def)

lemma operable_settled: "operable P streams fits sends g \<Longrightarrow> settled streams fits sends None g"
  unfolding operable_def using built_settled graph_built_ok by blast

lemma reached_settled:
  assumes "good_parts P streams fits sends" "operable P streams fits sends g0" "engine_reaches P sends g0 g"
  shows "settled streams fits sends None g"
  using good_parts.reaches_settled [OF assms(1) operable_settled [OF assms(2)] assms(3)] by blast


lemma runs_without_failing:
  assumes "good_parts P streams fits sends" "operable P streams fits sends g0" "engine_reaches P sends g0 g"
  shows "(\<exists>g'. engine_turn P g = Some (\<not> idle g, g')) \<and> (permitted sends c g \<longrightarrow> (\<exists>g'. engine_call P c g = Some g'))"
  using good_parts.engine_turn_returns [OF assms(1) reached_settled [OF assms]]
    good_parts.engine_call_returns [OF assms(1) reached_settled [OF assms], of c] by (auto simp: idle_def)



text \<open>
  C5. Under the same assumptions no check fails: the engine's loop can always take its next turn, which
  returns and is the last exactly when the backlogs are empty, and every permitted call gets as far as
  that loop. That the loop comes to an end is not claimed: it depends on the hosted objects.
\<close>
theorem engine_runs_without_failing:
  assumes "good_parts P streams fits sends" "operable P streams fits sends g0" "engine_reaches P sends g0 g"
  shows "(\<exists>g'. engine_turn P g = Some (\<not> idle g, g')) \<and> (permitted sends c g \<longrightarrow> (\<exists>g'. engine_call P c g = Some g'))"
  using assms by (rule runs_without_failing)

theorem engine_runs_without_failing_witness:
  "\<exists>g. engine_call player (SourceSupplies 0 empty_packet) (player_state kPositive kPositive kPositive []) = Some g"
proof -
  have "permitted player_sends (SourceSupplies 0 empty_packet) (player_state kPositive kPositive kPositive [])"
    by (simp add: permitted_def player_rests) (simp add: player_state_def player_stage_def readers player_sends_def stereo_packet_def
        empty_packet_def del: kind_stage_at)
  then show ?thesis using engine_runs_without_failing [OF player_runs] by blast
qed

text \<open>\<open>leads g m c\<close>: packets sent through \<open>m\<close> come to the input \<open>c\<close> through transforms only.\<close>

inductive leads :: "('p, 'e) graph \<Rightarrow> connector \<Rightarrow> connector \<Rightarrow> bool" for g where
  direct: "is_output g m \<Longrightarrow> out_mate_at g m = Some c \<Longrightarrow> leads g m c"
| through: "is_output g m \<Longrightarrow> out_mate_at g m = Some (t, 0) \<Longrightarrow> kind_of g t = TransformStage a n \<Longrightarrow> leads g (t, 0) c \<Longrightarrow> leads g m c"

lemma demand_passes_up:
  assumes S: "settled streams fits sends None g" and id: "idle g" and u: "kind_of g u = ActiveSinkStage d" and d: "d \<noteq> kNegative"
    and l: "leads g m c" and c: "c = (u, 0)"
  shows "eff g m = d"
  using l c
proof (induction rule: leads.induct)
  case (direct m c)
  note io = wired_out [OF settledD(1) [OF S] direct(1,2)]
  have "u \<in> set (stages g)" using io direct(3) by (simp add: is_input_def)
  then have "quiescent g u" using settledD(7) [OF S] id by (auto simp: awake_def idle_def)
  then have "raw g m = d" "packet_at g (u, 0) = None" using u io direct(3) by (auto simp: quiescent_def demand_of_def)
  then show ?case using direct by (simp add: eff_def)
next
  case (through m t a n c)
  note io = wired_out [OF settledD(1) [OF S] through(1,2)]
  have "t \<in> set (stages g)" using io by (simp add: is_input_def)
  then have "quiescent g t" using settledD(7) [OF S] id by (auto simp: awake_def idle_def)
  moreover have "eff g (t, 0) = d" using through by simp
  ultimately have "raw g m = d" "packet_at g (t, 0) = None" using through(3) io d by (auto simp: quiescent_def demand_of_def)
  then show ?case using through(2) by (simp add: eff_def)
qed

text \<open>
  C6. Under the same assumptions, whenever both backlogs are empty, the demand of a sink has reached the source
  at the other end of a chain of transforms, however long, and the source has no packet left that was
  supplied to it.
\<close>
theorem demand_reaches_the_source:
  assumes "good_parts P streams fits sends" "operable P streams fits sends g0" "engine_reaches P sends g0 g" "idle g"
    and "s \<in> set (stages g)" "kind_of g s = ActiveSourceStage b ps" "kind_of g u = ActiveSinkStage d" "d \<noteq> kNegative"
    and "leads g (s, 0) (u, 0)"
  shows "output_demand (s, 0) g = Some d \<and> ps = []"
proof -
  have S: "settled streams fits sends None g" by (rule reached_settled [OF assms(1-3)])
  have e: "eff g (s, 0) = d" by (rule demand_passes_up [OF S assms(4,7,8,9) refl])
  have "quiescent g s" using settledD(7) [OF S] assms(4,5) by (auto simp: awake_def idle_def)
  then have "ps = []" using assms(6,8) e by (auto simp: quiescent_def)
  moreover have "nout g s = 1" using settledD(4) [OF S assms(5)] assms(6) by (auto simp: stage_ready_def)
  then have "output_demand (s, 0) g = Some (eff g (s, 0))" using good_parts.ready_mates [OF assms(1) S assms(5), of 0] by auto
  ultimately show ?thesis using e by simp
qed

theorem demand_reaches_the_source_witness:
  "output_demand (0, 0) (player_state kPositive kPositive kPositive []) = Some kPositive"
proof -
  let ?g = "player_state kPositive kPositive kPositive []"
  note eval = player_state_def player_stage_def is_output_def readers
  have o: "is_output ?g (0, 0)" "out_mate_at ?g (0, 0) = Some (1, 0)" "is_output ?g (1, 0)" "out_mate_at ?g (1, 0) = Some (2, 0)"
    and k: "kind_of ?g 0 = ActiveSourceStage True []" "kind_of ?g 1 = TransformStage (Some default_allocator) True"
      "kind_of ?g 2 = ActiveSinkStage kPositive"
    by (simp_all add: eval del: kind_stage_at)
  have "leads ?g (1, 0) (2, 0)" by (rule leads.direct [OF o(3,4)])
  then have "leads ?g (0, 0) (2, 0)" by (rule leads.through [OF o(1,2) k(2)])
  then show ?thesis
    using demand_reaches_the_source [OF player_runs player_rests _ k(1,3)] by (simp add: player_state_def)
qed

text \<open>The loop of \<open>RequestUpdate\<close>, when it ends, is a sequence of turns.\<close>

lemma engine_update_reaches:
  assumes "engine_update P g = Some g'" "engine_reaches P sends g0 g"
    and "good_parts P streams fits sends" "operable P streams fits sends g0"
  shows "engine_reaches P sends g0 g' \<and> idle g'"
proof -
  let ?P = "\<lambda>(Q, g) y. Q = P \<longrightarrow> engine_reaches P sends g0 g \<longrightarrow> engine_reaches P sends g0 y \<and> idle y"
  have "?P (Q, g) y" if "engine_update Q g = Some y" for Q g y
  proof (rule engine_update.raw_induct [where Pa = ?P, OF _ that], goal_cases)
    case (1 run Q g y)
    have step: "engine_reaches P sends g0 y \<and> idle y" if Q: "Q = P" and r: "engine_reaches P sends g0 g"
    proof -
      obtain h where h: "engine_turn P g = Some (\<not> idle g, h)" using runs_without_failing [OF assms(3,4) r] by blast
      show ?thesis
      proof (cases "idle g")
        case True
        then have "h = g" using h by (auto simp: engine_turn_def pop_from_supply_backlog_def pop_from_demand_backlog_def idle_def)
        then show ?thesis using 1(2) h Q r True by simp
      next
        case False
        then have "run P h = Some y" "engine_reaches P sends g0 h" using 1(2) h Q r engine_reaches.turn by auto
        then show ?thesis using 1(1) by fast
      qed
    qed
    then show ?case by simp
  qed
  then show ?thesis using assms by simp
qed

section \<open>Defects\<close>

text \<open>\<open>RemovePartsConnectedToPart\<close> queues the part itself where it means the part at the other end, and so
  uses it after it has been deleted: it fails on any part with an input or an output.\<close>

theorem removing_connected_parts_fails:
  assumes "graph_built P g" "s \<in> set (stages g)" "0 < length (inputs (stage_at g s)) + length (outputs (stage_at g s))"
  shows "remove_parts_connected_to_part s g = None"
proof (cases "remove_part s g")
  case None
  then show ?thesis by (simp add: remove_parts_connected_to_part_def remove_parts.simps get_stage_def)
next
  case (Some h)
  then have "stages h = remove1 s (stages g)"
  proof -
    note B = graph_built_ok [OF assms(1)]
    obtain h1 h2 where h1: "disconnect_all disconnect_input (map (Pair s) [0..<nin g s]) g = Some h1"
      and h2: "disconnect_all disconnect_output (map (Pair s) [0..<nout g s]) h1 = Some h2" and h: "stages h = remove1 s (stages h2)"
      using Some assms(2) by (auto simp: remove_part_def bind_Some_iff get_stage_def)
    have "built_ok h1 \<and> stages h1 = stages g"
      using disconnect_all_ok [OF _ _ B h1, where gone = "\<lambda>g c. True"] disconnect_input_ok by blast
    moreover from this have "stages h2 = stages h1"
      using disconnect_all_ok [OF _ _ _ h2, where gone = "\<lambda>g c. True"] disconnect_output_ok by blast
    ultimately show ?thesis using h by simp
  qed
  then have gone: "get_stage s h = None" using built_okD(4) [OF graph_built_ok [OF assms(1)]] by (simp add: get_stage_def)
  obtain k where k: "replicate (nin g s) s @ replicate (nout g s) s = s # k"
    using assms(3) by (cases "nin g s"; cases "nout g s") auto
  have "remove_parts [s] g = remove_parts (replicate (nin g s) s @ replicate (nout g s) s) h"
    using Some assms(2) by (subst remove_parts.simps) (simp add: get_stage_def)
  also have "\<dots> = None" unfolding k by (subst remove_parts.simps) (simp add: gone)
  finally show ?thesis by (simp add: remove_parts_connected_to_part_def)
qed

text \<open>A transform that is starved for output buffers answers that it is not done and gives no packet; the
  loop of \<open>Update\<close> then never ends.\<close>

lemma wired_kept: "wired (upd_kind s k g) = wired g" "wired (g\<lparr>packets_produced := b\<rparr>) = wired g"
  unfolding wired_def is_input_simps is_output_simps upd_kind_simps reader_congs by (rule refl)+

lemma idle_transform_turn:
  assumes "get_input (s, 0) g = Some (input_at g (s, 0))" "packet_at g (s, 0) = Some p"
    and "output_demand (s, 0) g = Some d" "d \<noteq> kNegative"
    and "\<And>s p n a w. do_transform P s p n a w = Some (False, None, w)"
  shows "transform_turn P s a g = Some (True, upd_kind s (TransformStage (Some a) False) g)"
  unfolding transform_turn_def using assms(4)
  by (simp only: assms(1-3,5) bind.bind_lunit option.case if_False prod.case Let_def) simp

lemma starved_transform_hangs:
  assumes "\<And>s p n a w. do_transform P s p n a w = Some (False, None, w)"
    and "wired g" "is_input g (s, 0)" "held g (s, 0)" "is_output g (s, 0)" "out_mate_at g (s, 0) = Some c" "eff g (s, 0) \<noteq> kNegative"
  shows "transform_loop P s a g = None"
proof -
  let ?stuck = "\<lambda>g. wired g \<and> is_input g (s, 0) \<and> held g (s, 0) \<and> is_output g (s, 0) \<and> out_mate_at g (s, 0) = Some c \<and> eff g (s, 0) \<noteq> kNegative"
  have again: "\<exists>h. transform_turn P s a g = Some (True, h) \<and> ?stuck h" if g: "?stuck g" for g
  proof -
    let ?h = "upd_kind s (TransformStage (Some a) False) g"
    obtain p where p: "packet_at g (s, 0) = Some p" using g by auto
    have i: "get_input (s, 0) g = Some (input_at g (s, 0))" using g by (simp add: get_input_eq)
    have "output_demand (s, 0) g = Some (eff g (s, 0))" using g output_demand_eq by blast
    then have "transform_turn P s a g = Some (True, ?h)" by (rule idle_transform_turn [OF i p _ _ assms(1)]) (use g in blast)
    moreover have "?stuck ?h" using g by (simp add: wired_kept)
    ultimately show ?thesis by blast
  qed
  let ?P = "\<lambda>(((Q, t), b), g) y. Q = P \<longrightarrow> t = s \<longrightarrow> b = a \<longrightarrow> \<not> ?stuck g"
  have "?P (((Q, t), b), g) y" if "transform_loop Q t b g = Some y" for Q t b g y
  proof (rule transform_loop.raw_induct [where Pa = ?P, OF _ that], goal_cases)
    case (1 loop Q t b g y)
    have "\<not> ?stuck g" if "Q = P" "t = s" "b = a"
    proof
      assume "?stuck g"
      then obtain h where h: "transform_turn P s a g = Some (True, h)" "?stuck h" using again by blast
      then have "loop P s a h = Some y" using 1(2) that by simp
      then show False using 1(1) [of P s a h y] h(2) by simp
    qed
    then show ?case by simp
  qed
  then show ?thesis using assms(2-) by (cases "transform_loop P s a g") fastforce+
qed

text \<open>Flushing an output of an active multistream source forgets that a packet was requested; the packet
  then fails the check of the supply callback.\<close>

lemma requested_packet_after_flush_fails:
  assumes "kind_of g s = ActiveMultistreamSourceStage qs n b" "flush_output P (s, j) g = Some g'"
  shows "multistream_source_supplies P s i p g' = None"
  using assms by (auto simp: flush_output_def multistream_source_supplies_def get_stage_def Let_def split: if_split_asm)

text \<open>Unpreparing leaves the input marked as prepared; so it can be neither disconnected nor prepared
  again.\<close>

lemma unprepare_is_not_recorded:
  assumes "unprepare_visitor P r m g = Some (next, g')" "in_mate_at g r = Some m"
  shows "prepare_visitor P r m g' = None" "disconnect_input r g' = None"
proof -
  have r: "is_input g r" "in_prepared (input_at g r)" and u: "unprepare_output P m g = Some (next, g')"
    using assms(1) by (auto simp: unprepare_visitor_def get_input_eq bind_Some_iff split: if_split_asm)
  have "input_at g' = input_at g \<and> is_input g' = is_input g"
    using u by (cases "kind (stage_at g (fst m))")
      (auto simp: unprepare_output_def set_copy_allocator_def bind_Some_iff get_stage_def split: if_split_asm)
  then show "prepare_visitor P r m g' = None" "disconnect_input r g' = None"
    using r assms(2) by (simp_all add: prepare_visitor_def disconnect_input_def get_input_eq split: bind_split)
qed

text \<open>When the allocator of a consumer is starved, the packet that should be copied is dropped, and its
  source is told that there is no demand, although the consumer still waits; no stage is updated again.\<close>

lemma lost_packet_update:
  assumes "kind_of g s = ActiveSourceStage b (p # ps)" "output_demand (s, 0) g = Some d" "d \<noteq> kNegative"
    and "output_supply_packet P (s, 0) p g = Some g"
  shows "active_source_update P s g = Some ((upd_kind s (ActiveSourceStage b ps) g)\<lparr>world := do_downstream_demand P s kNegative (world g)\<rparr>)"
  using assms by (simp add: active_source_update_def)

lemma starved_copy_loses_packet:
  assumes "wired g" "s \<in> set (stages g)" "kind_of g s = ActiveSourceStage b (p # ps)" "nout g s = 1" "out_mate_at g (s, 0) = Some c"
    and "eff g (s, 0) \<noteq> kNegative" "out_copy_allocator (output_at g (s, 0)) = Some a" "pk_size p \<noteq> 0" "\<not> allocates P a (pk_size p) (world g)"
  shows "update_stage P s g = Some ((upd_kind s (ActiveSourceStage b ps) (g\<lparr>packets_produced := False\<rparr>))
      \<lparr>world := do_downstream_demand P s kNegative (world g)\<rparr>)"
proof -
  let ?g = "g\<lparr>packets_produced := False\<rparr>"
  have s: "is_output ?g (s, 0)" "get_stage s ?g = Some (stage_at g s)" "kind (stage_at g s) = kind_of g s"
    using assms(2,4) by (simp_all add: is_output_def get_stage_def)
  have "output_demand (s, 0) ?g = Some (eff g (s, 0))"
    using output_demand_eq [of ?g "(s, 0)" c] assms(1,5) s(1) by (simp add: wired_kept)
  moreover have "output_supply_packet P (s, 0) p ?g = Some ?g"
    using s assms by (simp add: output_supply_packet_def get_output_eq copied_packet_def)
  ultimately have "active_source_update P s ?g = Some ((upd_kind s (ActiveSourceStage b ps) ?g)
      \<lparr>world := do_downstream_demand P s kNegative (world ?g)\<rparr>)"
    using assms(6) by (intro lost_packet_update) (simp_all add: assms(3))
  then show ?thesis using s(2,3) assms(3) by (simp add: update_stage_def stage_update_def)
qed

end
