(* ===== verification/Spec2Isabelle.thy ===== *)
theory Spec2Isabelle
  imports Timeline_Function Timeline_Control_Point Fifo_Allocator Async_Util Reader_Cache Audio_Mix_Properties
    Net_Player_Link Packet_Connection Audio_Output_World Fidl_Conversions Lpcm Graph_Properties
begin

text \<open>
  A verification library for the media subsystem: its core algorithms and protocols, modelled from
  the C++ sources and proved correct as far as they are.

  \<^bold>\<open>The program.\<close> The repository is the media stack of an operating system. A source is read
  (src/demux), demultiplexed and decoded by the parts of a graph (src/framework, src/ffmpeg,
  src/audio), moved between processes as packets in shared memory (lib/transport), mixed and played
  (src/audio_server) along a common timeline (lib/timeline, src/util), and players can be controlled over the network
  (src/net_media_service). The parts modelled here are those that carry logic of their own.

  \<^bold>\<open>Conventions.\<close> They are in Media_Prelude. A step that fails an \<open>FTL_DCHECK\<close> or runs into
  undefined behaviour has the value \<^term>\<open>None\<close>, so every theorem that an operation returns
  \<^term>\<open>Some\<close> also says that its checks cannot fire. Unsigned integers are words, or naturals
  where an invariant bounds them below the width; signed integers are \<^typ>\<open>int\<close> with range
  checks. A class is a record, its methods are functions on the record, and a method under a mutex
  is one step. Calls out of an object (callbacks, messages, virtual methods) are entries of a list.
  The kernel and other libraries are parameters.

  \<^bold>\<open>Theories and code.\<close>

  \<^item> Timeline_Rate (lib/timeline/timeline_rate.h, .cc): ratios, the binary gcd, reduction, the
    128-bit scaling with its overflow, products. The result of scaling is given for every input:
    the product rounded down or the report of an overflow, and the inputs for which it is neither.
  \<^item> Timeline_Function (lib/timeline/timeline_function.h, .cc): linear functions between time
    lines, their application, inverse and composition; the error of a round trip is bounded.
  \<^item> Timeline_Control_Point (src/util/timeline_control_point.h, .cc): the object through which a
    renderer's timeline is changed. An invariant over reachable states accounts for every callback
    of a requested change; a scheduled change takes effect at its time and keeps the line
    continuous.
  \<^item> Async_Util (src/util/incident, callback_joiner, fidl_publisher): every callback runs exactly
    once, or is still held.
  \<^item> Ordered_Map, Sparse_Byte_Buffer, Reader_Cache (src/demux/sparse_byte_buffer, reader_cache):
    \<open>std::map\<close> with its iterators, a file image with holes kept in two maps, and the cache on top of
    it that serves reads while it fills holes from an upstream reader. Regions and holes tile the
    file; in every run that avoids the listed defects each read delivers the bytes of the file.
  \<^item> Audio_Samples, Audio_Mixer, Audio_Mix_Properties (src/audio_server/platform/generic and
    gain.h): sample normalization, scaling and clipping, the point and linear samplers with their
    fractional positions, mixer selection, and the output formatter. Each mix call is characterised
    frame by frame; mixing two buffers in a row equals mixing their concatenation; audio at unity
    gain comes out unchanged.
  \<^item> Serialization, Net_Player_Messages, Net_Player_Link (src/net_media_service): the byte
    serializer, the messages, and the proxy and stub at the two ends of a connection. A locale
    \<open>codec\<close> states what a pair of a writer and a reader promises; it is interpreted for every type
    that is sent. Where reading is defined, a byte vector is accepted exactly when it is a serialized
    message; calls arrive in order; the clock offset is estimated within half the difference of the transit times.
  \<^item> Fifo_Allocator (lib/transport/fifo_allocator.h, .cc): the allocator of slices of a buffer.
    A locale \<open>region_allocator\<close> states its contract over an abstract map of allocated slices; the
    interpretation \<open>fifo\<close> proves it for the code's model.
  \<^item> Shared_Buffers (lib/transport/mapped_shared_buffer, shared_buffer_set): mapped buffers with
    disjoint address ranges, translation between locators and pointers, validation.
  \<^item> Shared_Buffer_Allocator (lib/transport/shared_buffer_set_allocator.h, .cc): allocation from a
    growing set of such buffers, built on \<open>fifo\<close>. Its record extends that of the buffer set, as the
    class does. The locale \<open>payload_memory\<close> is the contract with a producer. The queue of updates is
    shown to keep a consumer's set of buffers in step with the producer's.
  \<^item> Packet_Consumer, Packet_Producer (lib/transport/media_packet_consumer_base,
    media_packet_producer_base): the two ends of a packet connection: supply and return of packets,
    demand, flush, failure.
  \<^item> Packet_Connection: the two ends joined by a channel that keeps order in each direction. When
    nothing is in flight they agree on the demand.
  \<^item> Audio_Link, Audio_Renderer (src/audio_server/audio_renderer_to_output_link,
    audio_renderer_format_info, audio_pipe, audio_renderer_impl): the queue of packets between a
    renderer and one output, with the lock an output takes on its front, and the renderer that pushes
    each packet to all its links. Packets come back in order.
  \<^item> Audio_Routing, Audio_Routing_Invariants, Audio_Routing_Properties (audio_output,
    audio_output_manager): which renderer plays on which output, as outputs come, go, are plugged and
    unplugged. In every run the links of renderers and outputs agree.
  \<^item> Audio_Output_Mix, Audio_Output_Properties, Audio_Output_World
    (platform/generic/standard_output_base, throttle_output): an output's Process callback: the time
    lines, the search for the packets that are due, the mix, the trimming when nothing is mixed. One
    job gives the sum of what is due on every link; over all interleavings of calls with callbacks packets are returned in order.
  \<^item> Stream_Types, Fidl_Conversions (src/framework/types, src/fidl/fidl_type_conversions): what a
    stream carries, the layout of video frames, and the conversions from and to the fidl types.
  \<^item> Framework_Packet, Lpcm (src/framework/packet, src/audio/lpcm_reformatter, lpcm_util): packets,
    the conversion of their sample format, interleaving and mixing of samples.
  \<^item> Graph_Stages, Graph_Engine (src/framework/stages, engine, graph, refs): the graph of stages, the
    engine that hands packets down and demand up, preparing and flushing, building and taking apart.
    The objects the stages host are the parameter \<open>parts\<close>. Graph_Invariant has the engine's invariant
    and the locale \<open>good_parts\<close>, the contract of the hosted objects; Graph_Updates proves inside it
    that the update of each kind of stage returns and keeps the invariant, Graph_Runs that the
    engine's loop and the calls of hosted objects do, Graph_Building that every way to build a graph
    establishes it. Graph_Properties interprets the locale on a player that hosts the reformatter of
    Lpcm: no stage is forgotten, the engine never fails, demand reaches the source.

  \<^bold>\<open>How the parts interact.\<close> A producer allocates payloads (Packet_Producer on
  Shared_Buffer_Allocator on Fifo_Allocator and Shared_Buffers), tells the consumer about new and
  removed buffers before each packet, and names the payload by a locator, which the consumer
  validates against its own mappings (Packet_Consumer on Shared_Buffers); the consumer converts time
  stamps with Timeline_Rate. Renderers and mixers use the rates and functions; the network proxy
  translates time stamps with a Timeline_Function that its time check estimates. An audio output
  (Audio_Output_Mix) takes the packets from its links (Audio_Link), finds its position with the time
  line a client set (Timeline_Control_Point, Timeline_Function) and calls the samplers of Audio_Mixer;
  the routing decides which links there are. The stages of a graph pass packets of Framework_Packet to
  each other; a transform such as the reformatter of Lpcm is built for stream types (Stream_Types).

  \<^bold>\<open>Kinds of lemmas.\<close> In each theory the definitions come first, then the invariant and its
  preservation by every operation, then the properties with the concrete instances that show their
  hypotheses can hold. Defects of the code that the proofs ran into are theorems too: an error
  property, or a lemma such as \<open>overlapping_flushes_disagree\<close>, shows the input on which the code
  goes wrong.

  \<^bold>\<open>Bounds and fuel.\<close> Loops are structural or have a termination measure (the bits left to
  shift, the frames left to mix, the updates left to send). One definition has fuel: the loop of a
  shutdown over the set of renderers gets as much as there are renderers, and each turn removes one.
  Loops that need not end are \<open>partial_function (option)\<close>: the jobs of one Process callback, whose
  number the device decides, and the loops of the graph, where a transform that never finishes or a
  cycle goes on for ever. What is proved of those is that each turn returns; that the updates of a
  stage return is proved for the objects of \<open>good_parts\<close>. Naturals for sizes and
  addresses are bounded by invariants (buffer sizes by \<open>kMaxBufferLen\<close>, ids by \<open>2^32 - 1\<close>), and
  the places where the code's arithmetic wraps are written with \<open>mod\<close>.

  \<^bold>\<open>Not modelled.\<close> The constructor of a rate from float, the gain and the resampler of src/audio,
  which use floating point; the demultiplexer, decoders and capture sources (src/ffmpeg, src/audio/usb_audio_source),
  which drive libraries and devices that are not in the repository; the fidl services that wrap
  the modelled parts (media player, timeline controller, sources and sinks, the builder of
  conversion pipelines), whose logic is the order of asynchronous calls to other processes; the
  drivers of the hardware outputs; video conversion; logging, the printing of values, thread checks,
  tools, examples and the Dart bindings; and the memory management of objects beyond what the states
  show.
\<close>

end
